(* ===== verification/Prelude.thy ===== *)
theory Prelude
  imports Main "HOL-Library.Word"
begin

unbundle bit_operations_syntax

section \<open>Prelude of the kernel development\<close>

text \<open>
  What every component shares: the machine integers of the sources, the outcome of a kernel
  operation (a value and the next state, a \<open>panic\<close>, going to sleep, or undefined behaviour of C),
  the state-passing combinators in which the operations are written, a weakest-precondition
  calculus for them, little-endian access to byte arrays, and intrusive linked lists.
\<close>

type_synonym u8 = "8 word"
type_synonym u16 = "16 word"
type_synonym u32 = "32 word"
type_synonym bytes = "u8 list"

named_theorems wp_rule \<open>weakest-precondition rules of the operations\<close>
named_theorems wlp_rule \<open>rules for the outcomes of the operations that return\<close>


subsection \<open>Outcomes of kernel operations\<close>

text \<open>
  \<open>chan\<close> names the address a process sleeps on. \<open>Sleep c\<close> is the outcome of an operation
  whose caller is suspended by \<open>sleep(chan, lk)\<close>; \<open>Panic m\<close> is \<open>panic(m)\<close>, which halts the
  kernel; \<open>Undef\<close> is an access outside an array or a null dereference, on which C puts no
  requirement.
\<close>

datatype chan =
    ChBuf nat | ChLog | ChInode nat | ChPipeRead nat | ChPipeWrite nat | ChListener nat | ChProc nat

datatype 'a kres = Ok 'a | Panic string | Sleep chan | Undef

type_synonym ('s, 'a) kop = "'s \<Rightarrow> ('a \<times> 's) kres"

definition kreturn :: "'a \<Rightarrow> ('s, 'a) kop" where
  "kreturn a = (\<lambda>s. Ok (a, s))"

definition kbind :: "('s, 'a) kop \<Rightarrow> ('a \<Rightarrow> ('s, 'b) kop) \<Rightarrow> ('s, 'b) kop" where
  "kbind m f = (\<lambda>s. case m s of
      Ok (a, t) \<Rightarrow> f a t
    | Panic e \<Rightarrow> Panic e
    | Sleep c \<Rightarrow> Sleep c
    | Undef \<Rightarrow> Undef)"

definition kthen :: "('s, 'a) kop \<Rightarrow> ('s, 'b) kop \<Rightarrow> ('s, 'b) kop" where
  "kthen m n = kbind m (\<lambda>_. n)"

definition kpanic :: "string \<Rightarrow> ('s, 'a) kop" where
  "kpanic e = (\<lambda>s. Panic e)"

definition ksleep :: "chan \<Rightarrow> ('s, 'a) kop" where
  "ksleep c = (\<lambda>s. Sleep c)"

definition kundef :: "('s, 'a) kop" where
  "kundef = (\<lambda>s. Undef)"

definition kget :: "('s \<Rightarrow> 'a) \<Rightarrow> ('s, 'a) kop" where
  "kget f = (\<lambda>s. Ok (f s, s))"

definition kmod :: "('s \<Rightarrow> 's) \<Rightarrow> ('s, unit) kop" where
  "kmod f = (\<lambda>s. Ok ((), f s))"

definition kwhen :: "bool \<Rightarrow> ('s, unit) kop \<Rightarrow> ('s, unit) kop" where
  "kwhen b m = (if b then m else kreturn ())"

text \<open>Recursion through \<open>kbind\<close>: the continuation is only called on what the first part returns.\<close>

lemma kbind_cong [fundef_cong]:
  assumes "m s = m' s'" and "s = s'" and "\<And>a t. m' s' = Ok (a, t) \<Longrightarrow> f a t = f' a t"
  shows "kbind m f s = kbind m' f' s'"
  using assms by (auto simp: kbind_def split: kres.split prod.split)

lemma kthen_cong [fundef_cong]:
  assumes "m s = m' s'" and "s = s'" and "\<And>a t. m' s' = Ok (a, t) \<Longrightarrow> n t = n' t"
  shows "kthen m n s = kthen m' n' s'"
  using assms by (auto simp: kthen_def kbind_def split: kres.split prod.split)

lemma kbind_assoc: "kbind (kbind m f) g = kbind m (\<lambda>a. kbind (f a) g)"
  by (rule ext) (simp add: kbind_def split: kres.split prod.split)

lemmas kop_defs = kreturn_def kbind_def kthen_def kpanic_def ksleep_def kundef_def
  kget_def kmod_def kwhen_def


subsection \<open>Weakest preconditions\<close>

text \<open>
  \<open>wp m Q s\<close>: from \<open>s\<close> the operation returns, and its result and final state satisfy \<open>Q\<close>
  (no panic, no sleep, no undefined behaviour). \<open>wlp m Q s\<close>: wherever it returns, \<open>Q\<close> holds.
\<close>

definition wp :: "('s, 'a) kop \<Rightarrow> ('a \<Rightarrow> 's \<Rightarrow> bool) \<Rightarrow> 's \<Rightarrow> bool" where
  "wp m Q s = (case m s of Ok (a, t) \<Rightarrow> Q a t | _ \<Rightarrow> False)"

definition wlp :: "('s, 'a) kop \<Rightarrow> ('a \<Rightarrow> 's \<Rightarrow> bool) \<Rightarrow> 's \<Rightarrow> bool" where
  "wlp m Q s = (case m s of Ok (a, t) \<Rightarrow> Q a t | _ \<Rightarrow> True)"

lemma wp_kreturn [simp]: "wp (kreturn a) Q = Q a"
  by (auto simp: fun_eq_iff wp_def kop_defs split: kres.splits prod.splits)

lemma wp_kbind [simp]: "wp (kbind m f) Q = wp m (\<lambda>a. wp (f a) Q)"
  by (auto simp: fun_eq_iff wp_def kop_defs split: kres.splits prod.splits)

lemma wp_kthen [simp]: "wp (kthen m n) Q = wp m (\<lambda>_. wp n Q)"
  by (auto simp: fun_eq_iff wp_def kop_defs split: kres.splits prod.splits)

lemma wp_kpanic [simp]: "wp (kpanic e) Q = (\<lambda>_. False)"
  by (auto simp: fun_eq_iff wp_def kop_defs split: kres.splits prod.splits)

lemma wp_ksleep [simp]: "wp (ksleep c) Q = (\<lambda>_. False)"
  by (auto simp: fun_eq_iff wp_def kop_defs split: kres.splits prod.splits)

lemma wp_kundef [simp]: "wp kundef Q = (\<lambda>_. False)"
  by (auto simp: fun_eq_iff wp_def kop_defs split: kres.splits prod.splits)

lemma wp_kget [simp]: "wp (kget g) Q = (\<lambda>s. Q (g s) s)"
  by (auto simp: fun_eq_iff wp_def kop_defs split: kres.splits prod.splits)

lemma wp_kmod [simp]: "wp (kmod h) Q = (\<lambda>s. Q () (h s))"
  by (auto simp: fun_eq_iff wp_def kop_defs split: kres.splits prod.splits)

lemma wlp_kreturn [simp]: "wlp (kreturn a) Q = Q a"
  by (auto simp: fun_eq_iff wlp_def kop_defs split: kres.splits prod.splits)

lemma wlp_kbind [simp]: "wlp (kbind m f) Q = wlp m (\<lambda>a. wlp (f a) Q)"
  by (auto simp: fun_eq_iff wlp_def kop_defs split: kres.splits prod.splits)

lemma wlp_kthen [simp]: "wlp (kthen m n) Q = wlp m (\<lambda>_. wlp n Q)"
  by (auto simp: fun_eq_iff wlp_def kop_defs split: kres.splits prod.splits)

lemma wlp_kpanic [simp]: "wlp (kpanic e) Q = (\<lambda>_. True)"
  by (auto simp: fun_eq_iff wlp_def kop_defs split: kres.splits prod.splits)

lemma wlp_ksleep [simp]: "wlp (ksleep c) Q = (\<lambda>_. True)"
  by (auto simp: fun_eq_iff wlp_def kop_defs split: kres.splits prod.splits)

lemma wlp_kundef [simp]: "wlp kundef Q = (\<lambda>_. True)"
  by (auto simp: fun_eq_iff wlp_def kop_defs split: kres.splits prod.splits)

lemma wlp_kget [simp]: "wlp (kget g) Q = (\<lambda>s. Q (g s) s)"
  by (auto simp: fun_eq_iff wlp_def kop_defs split: kres.splits prod.splits)

lemma wlp_kmod [simp]: "wlp (kmod h) Q = (\<lambda>s. Q () (h s))"
  by (auto simp: fun_eq_iff wlp_def kop_defs split: kres.splits prod.splits)

lemma wp_if [simp]: "wp (if b then m else n) Q = (\<lambda>s. if b then wp m Q s else wp n Q s)"
  by auto

lemma wlp_if [simp]: "wlp (if b then m else n) Q = (\<lambda>s. if b then wlp m Q s else wlp n Q s)"
  by auto

lemma wp_kwhen [simp]: "wp (kwhen b m) Q = (\<lambda>s. if b then wp m Q s else Q () s)"
  by (simp add: kwhen_def)

lemma wlp_kwhen [simp]: "wlp (kwhen b m) Q = (\<lambda>s. if b then wlp m Q s else Q () s)"
  by (simp add: kwhen_def)

lemma wp_iff: "wp m Q s \<longleftrightarrow> (\<exists>a t. m s = Ok (a, t) \<and> Q a t)"
  by (auto simp: wp_def split: kres.splits)

lemma wlp_iff: "wlp m Q s \<longleftrightarrow> (\<forall>a t. m s = Ok (a, t) \<longrightarrow> Q a t)"
  by (auto simp: wlp_def split: kres.splits)

lemma wpE:
  assumes "wp m Q s"
  obtains a t where "m s = Ok (a, t)" and "Q a t"
  using assms by (auto simp: wp_iff)

lemma wp_mono: "wp m P s \<Longrightarrow> (\<And>a t. P a t \<Longrightarrow> Q a t) \<Longrightarrow> wp m Q s"
  by (auto simp: wp_iff)

lemma wlp_mono: "wlp m P s \<Longrightarrow> (\<And>a t. P a t \<Longrightarrow> Q a t) \<Longrightarrow> wlp m Q s"
  by (auto simp: wlp_iff)

lemma wlp_conj: "wlp m P s \<Longrightarrow> wlp m Q s \<Longrightarrow> wlp m (\<lambda>a t. P a t \<and> Q a t) s"
  by (auto simp: wlp_iff)

lemma wlpD: "wlp m Q s \<Longrightarrow> m s = Ok (a, t) \<Longrightarrow> Q a t"
  by (auto simp: wlp_iff)

lemma wp_imp_wlp: "wp m Q s \<Longrightarrow> wlp m Q s"
  by (auto simp: wp_iff wlp_iff)


subsection \<open>Machine words\<close>

lemma u32_lt: "unat (w :: u32) < 2 ^ 32"
  using unsigned_less [where ?'a = nat, of w] by simp

lemma u32_minus_one: "unat (- 1 :: u32) = 2 ^ 32 - 1"
  by (simp add: unsigned_minus_1_eq_mask mask_eq_exp_minus_1)

lemma unat_add_cases:
  fixes a b :: u32
  shows "unat (a + b) = unat a + unat b \<or> unat (a + b) + 2 ^ 32 = unat a + unat b"
proof -
  have "unat (a + b) = (unat a + unat b) mod 2 ^ 32" by (simp add: unat_word_ariths)
  then show ?thesis using u32_lt [of a] u32_lt [of b]
    by (cases "unat a + unat b < 2 ^ 32") (auto simp: mod_if)
qed

lemma unat_sub_cases:
  fixes a b :: u32
  shows "unat (a - b) + unat b = unat a \<or> unat (a - b) + unat b = unat a + 2 ^ 32"
  using unat_add_cases [of "a - b" b] by auto

lemma word_of_nat_unat_u32: "of_nat (unat w) = (w :: u32)"
  by simp

lemma unat_of_nat_u32: "n < 2 ^ 32 \<Longrightarrow> unat (of_nat n :: u32) = n"
  by (simp add: unat_of_nat)

lemma unat_diff_Suc:
  fixes x a :: u32
  assumes "x \<noteq> a"
  shows "unat (x - a) = Suc (unat (x - (a + 1)))"
proof -
  have "x - (a + 1) = (x - a) - 1" by simp
  moreover have "x - a \<noteq> 0" using assms by simp
  ultimately show ?thesis by (metis Suc_pred unat_gt_0 unat_minus_one One_nat_def)
qed


subsection \<open>Byte arrays\<close>

text \<open>\<open>splice xs off ys\<close>: the array \<open>xs\<close> after \<open>memmove(xs + off, ys, length ys)\<close>.\<close>

definition splice :: "'a list \<Rightarrow> nat \<Rightarrow> 'a list \<Rightarrow> 'a list" where
  "splice xs off ys = take off xs @ ys @ drop (off + length ys) xs"

definition slice :: "'a list \<Rightarrow> nat \<Rightarrow> nat \<Rightarrow> 'a list" where
  "slice xs off n = take n (drop off xs)"

lemma length_splice [simp]:
  "off + length ys \<le> length xs \<Longrightarrow> length (splice xs off ys) = length xs"
  by (simp add: splice_def)

lemma length_slice [simp]: "off + n \<le> length xs \<Longrightarrow> length (slice xs off n) = n"
  by (simp add: slice_def)

lemma nth_splice:
  "off + length ys \<le> length xs \<Longrightarrow> i < length xs \<Longrightarrow>
   splice xs off ys ! i = (if off \<le> i \<and> i < off + length ys then ys ! (i - off) else xs ! i)"
  by (auto simp: splice_def nth_append min_def)

lemma nth_slice: "off + n \<le> length xs \<Longrightarrow> i < n \<Longrightarrow> slice xs off n ! i = xs ! (off + i)"
  by (simp add: slice_def)

lemma slice_splice_same [simp]:
  "off + length ys \<le> length xs \<Longrightarrow> slice (splice xs off ys) off (length ys) = ys"
  by (simp add: slice_def splice_def)

lemma slice_splice_other:
  "off + length ys \<le> length xs \<Longrightarrow> o' + n \<le> length xs \<Longrightarrow> o' + n \<le> off \<or> off + length ys \<le> o' \<Longrightarrow>
   slice (splice xs off ys) o' n = slice xs o' n"
  by (rule nth_equalityI) (auto simp: nth_slice nth_splice)

text \<open>Little-endian words at a byte offset: what a cast of the array to a struct pointer reads.\<close>

definition get16 :: "bytes \<Rightarrow> nat \<Rightarrow> u16" where
  "get16 d off = ucast (d ! off) OR push_bit 8 (ucast (d ! (off + 1)))"

definition get32 :: "bytes \<Rightarrow> nat \<Rightarrow> u32" where
  "get32 d off = ucast (d ! off) OR push_bit 8 (ucast (d ! (off + 1)))
     OR push_bit 16 (ucast (d ! (off + 2))) OR push_bit 24 (ucast (d ! (off + 3)))"

definition le16 :: "u16 \<Rightarrow> bytes" where
  "le16 w = [ucast w, ucast (drop_bit 8 w)]"

definition le32 :: "u32 \<Rightarrow> bytes" where
  "le32 w = [ucast w, ucast (drop_bit 8 w), ucast (drop_bit 16 w), ucast (drop_bit 24 w)]"

definition put16 :: "bytes \<Rightarrow> nat \<Rightarrow> u16 \<Rightarrow> bytes" where
  "put16 d off w = splice d off (le16 w)"

definition put32 :: "bytes \<Rightarrow> nat \<Rightarrow> u32 \<Rightarrow> bytes" where
  "put32 d off w = splice d off (le32 w)"

lemma length_le [simp]: "length (le16 h) = 2" "length (le32 w) = 4"
  by (simp_all add: le16_def le32_def)

lemma length_put16 [simp]: "off + 2 \<le> length d \<Longrightarrow> length (put16 d off w) = length d"
  by (simp add: put16_def)

lemma length_put32 [simp]: "off + 4 \<le> length d \<Longrightarrow> length (put32 d off w) = length d"
  by (simp add: put32_def)

lemma le16_join: "ucast (ucast (w :: u16) :: u8) OR push_bit 8 (ucast (ucast (drop_bit 8 w) :: u8)) = w"
  by (rule bit_word_eqI) (auto simp: bit_simps)

lemma le32_join:
  "ucast (ucast (w :: u32) :: u8) OR push_bit 8 (ucast (ucast (drop_bit 8 w) :: u8))
     OR push_bit 16 (ucast (ucast (drop_bit 16 w) :: u8))
     OR push_bit 24 (ucast (ucast (drop_bit 24 w) :: u8)) = w"
proof (rule bit_word_eqI)
  fix n :: nat
  assume "n < LENGTH(32)"
  then consider "n < 8" | "8 \<le> n" "n < 16" | "16 \<le> n" "n < 24" | "24 \<le> n" "n < 32"
    by fastforce
  then show "bit (ucast (ucast w :: u8) OR push_bit 8 (ucast (ucast (drop_bit 8 w) :: u8))
     OR push_bit 16 (ucast (ucast (drop_bit 16 w) :: u8))
     OR push_bit 24 (ucast (ucast (drop_bit 24 w) :: u8)) :: u32) n = bit w n"
    by cases (auto simp: bit_simps)
qed

lemma get16_put16 [simp]: "off + 2 \<le> length d \<Longrightarrow> get16 (put16 d off w) off = w"
  using le16_join [of w] by (simp add: get16_def put16_def nth_splice le16_def)

lemma get32_put32 [simp]: "off + 4 \<le> length d \<Longrightarrow> get32 (put32 d off w) off = w"
  using le32_join [of w]
  by (simp add: get32_def put32_def nth_splice le32_def numeral_2_eq_2 numeral_3_eq_3)

lemma nth_put16_other:
  "off + 2 \<le> length d \<Longrightarrow> i < length d \<Longrightarrow> i < off \<or> off + 2 \<le> i \<Longrightarrow> put16 d off w ! i = d ! i"
  by (auto simp: put16_def nth_splice)

lemma nth_put32_other:
  "off + 4 \<le> length d \<Longrightarrow> i < length d \<Longrightarrow> i < off \<or> off + 4 \<le> i \<Longrightarrow> put32 d off w ! i = d ! i"
  by (auto simp: put32_def nth_splice)

lemma get32_put32_other:
  "off + 4 \<le> length d \<Longrightarrow> o' + 4 \<le> length d \<Longrightarrow> o' + 4 \<le> off \<or> off + 4 \<le> o' \<Longrightarrow>
   get32 (put32 d off w) o' = get32 d o'"
  by (auto simp: get32_def nth_put32_other)

lemma get16_put16_other:
  "off + 2 \<le> length d \<Longrightarrow> o' + 2 \<le> length d \<Longrightarrow> o' + 2 \<le> off \<or> off + 2 \<le> o' \<Longrightarrow>
   get16 (put16 d off w) o' = get16 d o'"
  by (auto simp: get16_def nth_put16_other)

lemma get16_put32_other:
  "off + 4 \<le> length d \<Longrightarrow> o' + 2 \<le> length d \<Longrightarrow> o' + 2 \<le> off \<or> off + 4 \<le> o' \<Longrightarrow>
   get16 (put32 d off w) o' = get16 d o'"
  by (auto simp: get16_def nth_put32_other)

lemma get32_put16_other:
  "off + 2 \<le> length d \<Longrightarrow> o' + 4 \<le> length d \<Longrightarrow> o' + 4 \<le> off \<or> off + 2 \<le> o' \<Longrightarrow>
   get32 (put16 d off w) o' = get32 d o'"
  by (auto simp: get32_def nth_put16_other)

lemmas get_put_other = get16_put16_other get16_put32_other get32_put16_other get32_put32_other


subsection \<open>Intrusive linked lists\<close>

text \<open>
  \<open>nchain f a xs b\<close>: from node \<open>a\<close>, following the link field \<open>f\<close>, one visits exactly the
  nodes \<open>xs\<close> and then reaches \<open>b\<close>.
\<close>

primrec nchain :: "(nat \<Rightarrow> nat) \<Rightarrow> nat \<Rightarrow> nat list \<Rightarrow> nat \<Rightarrow> bool" where
  "nchain f a [] b = (f a = b)"
| "nchain f a (x # xs) b = (f a = x \<and> nchain f x xs b)"

lemma nchain_append [simp]: "nchain f a (xs @ y # ys) b \<longleftrightarrow> nchain f a xs y \<and> nchain f y ys b"
  by (induction xs arbitrary: a) auto

lemma nchain_upd_other [simp]:
  "u \<noteq> a \<Longrightarrow> u \<notin> set xs \<Longrightarrow> nchain (f(u := v)) a xs b = nchain f a xs b"
  by (induction xs arbitrary: a) auto

lemma nchain_cong: "(\<And>x. x \<in> insert a (set xs) \<Longrightarrow> f x = g x) \<Longrightarrow> nchain f a xs b = nchain g a xs b"
  by (induction xs arbitrary: a) auto

lemma nchain_first: "nchain f a xs b \<Longrightarrow> f a = hd (xs @ [b])"
  by (cases xs) auto

lemma nchain_remove:
  assumes "nchain f a (as @ i # cs) b" and "distinct (a # as @ i # cs)"
  shows "nchain (f(last (a # as) := f i)) a (as @ cs) b"
  using assms
proof (induction as arbitrary: a)
  case Nil
  then show ?case by (cases cs) (simp_all del: fun_upd_apply add: fun_upd_same)
next
  case (Cons x as)
  then have "nchain f x (as @ i # cs) b" and "distinct (x # as @ i # cs)" by auto
  then have "nchain (f(last (x # as) := f i)) x (as @ cs) b" by (rule Cons.IH)
  moreover have "last (x # as) \<noteq> a"
    using Cons.prems(2) last_in_set [of "x # as"] by auto
  ultimately show ?case using Cons.prems(1)
    by (simp del: fun_upd_apply last.simps add: fun_upd_other last_ConsR)
qed

lemma dll_remove:
  assumes n: "nchain nx h (as @ i # cs) h" and p: "nchain pv h (rev (as @ i # cs)) h"
    and d: "distinct (h # as @ i # cs)"
  shows "nchain (nx(pv i := nx i)) h (as @ cs) h \<and> nchain (pv(nx i := pv i)) h (rev (as @ cs)) h"
proof -
  have p': "nchain pv h (rev cs @ i # rev as) h" using p by simp
  have "pv i = hd (rev as @ [h])" using p' nchain_first by fastforce
  then have 1: "pv i = last (h # as)" by (simp add: hd_append hd_rev)
  have "nx i = hd (cs @ [h])" using n nchain_first by fastforce
  then have 2: "nx i = last (h # rev cs)" by (simp add: hd_append last_rev)
  have "distinct (h # rev cs @ i # rev as)" using d by auto
  from nchain_remove [OF n d] nchain_remove [OF p' this] 1 2 show ?thesis by simp
qed

lemma dll_insert_front:
  assumes "nchain nx h xs h" and "nchain pv h (rev xs) h" and "distinct (h # i # xs)"
  shows "nchain (nx(i := nx h, h := i)) h (i # xs) h
    \<and> nchain (pv(i := h, (nx(i := nx h)) h := i)) h (rev (i # xs)) h"
  using assms by (cases xs) auto

text \<open>
  A \<open>for\<close> loop over a circular list: start at node \<open>x\<close>, stop at the list head \<open>stop\<close>, return the
  first node with property \<open>p\<close>. The outer option is \<open>None\<close> when the fuel runs out.
\<close>

fun scan :: "nat \<Rightarrow> (nat \<Rightarrow> nat) \<Rightarrow> (nat \<Rightarrow> bool) \<Rightarrow> nat \<Rightarrow> nat \<Rightarrow> nat option option" where
  "scan fuel f p stop x =
     (if x = stop then Some None
      else if p x then Some (Some x)
      else case fuel of 0 \<Rightarrow> None | Suc k \<Rightarrow> scan k f p stop (f x))"

declare scan.simps [simp del]

lemma scan_nchain:
  assumes "nchain f a xs b" and "b \<notin> set xs" and "length xs \<le> fuel"
  shows "scan fuel f p b (f a) = Some (find p xs)"
  using assms
proof (induction xs arbitrary: a fuel)
  case Nil
  then show ?case by (simp add: scan.simps)
next
  case (Cons x xs)
  then obtain k where k: "fuel = Suc k" by (cases fuel) auto
  with Cons have "scan k f p b (f x) = Some (find p xs)" by auto
  with Cons.prems k show ?case by (simp add: scan.simps [of _ _ _ _ x])
qed

lemma find_NoneD: "find p xs = None \<Longrightarrow> x \<in> set xs \<Longrightarrow> \<not> p x"
  by (simp add: find_None_iff)

lemma find_SomeD:
  "find p xs = Some x \<Longrightarrow> x \<in> set xs \<and> p x"
  by (auto simp: find_Some_iff)

end
