(* ===== verification/Bio.thy ===== *)
theory Bio
  imports Prelude
begin

section \<open>Buffer cache and block device (\<open>kernel/bio.c\<close>, \<open>kernel/disk.c\<close>, \<open>usb_rw\<close>)\<close>

text \<open>
  The cache is an array of \<open>NBUF\<close> buffers on a circular doubly linked list through
  \<open>bcache.head\<close>, most recently used first. The links are modelled as the array indices stored in
  \<open>prev\<close> and \<open>next\<close>; index \<open>NBUF\<close> is the head. The device is a map from physical sectors to
  their 512 bytes; \<open>wlog\<close> records the sector writes it has received, in order, so that the
  contents after a crash at any moment can be stated. The hardware is part of the state:
  \<open>usb_ready\<close> is \<open>usb_inited && msd_found\<close>; \<open>hc_dead\<close> says that the controller is halted and that
  neither \<open>ehci_try_unhalt\<close> nor \<open>usb_try_recover_disk\<close> brings it back; \<open>rec_panics\<close> that
  \<open>usb_try_recover_disk\<close>, when it is called, runs out of attempts and panics; \<open>dev_fails sec k\<close> that
  attempt \<open>k\<close> (0, or 1 after the recovery) of a transfer of sector \<open>sec\<close> fails; \<open>dev_junk\<close> is what
  failed reads leave in the buffer, \<open>dev_torn\<close> what failed writes leave in the sector.
  The spin lock of the cache is not part of the state: each operation holds it while it runs. Neither are
  the processes that wait for a buffer: a caller that must wait ends in the outcome \<open>Sleep\<close>, and the
  calls of \<open>wakeup\<close> on buffers, which would let it start over, have no effect on this state.
\<close>

definition NBUF :: nat where "NBUF = 10"
definition BSIZE :: nat where "BSIZE = 512"
definition ROOTDEV :: u32 where "ROOTDEV = 1"
definition FS_SECTOR_OFFSET :: u32 where "FS_SECTOR_OFFSET = 10000"

record buf =
  b_busy :: bool
  b_valid :: bool
  b_dirty :: bool
  b_dev :: u32
  b_sector :: u32
  b_prev :: nat
  b_next :: nat
  b_data :: bytes

record bstate =
  disk :: "u32 \<Rightarrow> bytes"
  wlog :: "(u32 \<times> bytes) list"
  usb_ready :: bool
  hc_dead :: bool
  rec_panics :: bool
  dev_fails :: "u32 \<Rightarrow> nat \<Rightarrow> bool"
  dev_junk :: "u32 \<Rightarrow> bytes \<Rightarrow> bytes"
  dev_torn :: "u32 \<Rightarrow> bytes \<Rightarrow> bytes \<Rightarrow> bytes"
  bufs :: "nat \<Rightarrow> buf"

definition set_buf :: "nat \<Rightarrow> (buf \<Rightarrow> buf) \<Rightarrow> 'a bstate_scheme \<Rightarrow> 'a bstate_scheme" where
  "set_buf i f s = s\<lparr>bufs := (bufs s)(i := f (bufs s i))\<rparr>"

definition nxt :: "'a bstate_scheme \<Rightarrow> nat \<Rightarrow> nat" where
  "nxt s i = b_next (bufs s i)"

definition prv :: "'a bstate_scheme \<Rightarrow> nat \<Rightarrow> nat" where
  "prv s i = b_prev (bufs s i)"


subsection \<open>Device access\<close>

definition phys_sector :: "u32 \<Rightarrow> u32 \<Rightarrow> u32" where
  "phys_sector dev sector = (if dev = ROOTDEV then sector + FS_SECTOR_OFFSET else sector)"

text \<open>
  \<open>usb_rw\<close> in the polled mode that \<open>diskinit\<close> selects (\<open>usb_intr_mode\<close> is 0, so it never sleeps).
  After a failed transfer the device is reset and the transfer tried once more. When that fails too,
  the function only draws a mark on the screen and returns with the flags of the buffer unchanged.
\<close>

definition usb_rw :: "nat \<Rightarrow> ('a bstate_scheme, unit) kop" where
  "usb_rw i = (\<lambda>s.
     let b = bufs s i; sec = phys_sector (b_dev b) (b_sector b);
         failed = (dev_fails s sec 0 \<and> dev_fails s sec 1); torn = dev_torn s sec (disk s sec) (b_data b) in
     if \<not> usb_ready s then Panic ''usb_rw: not init''
     else if hc_dead s then
       Panic (if rec_panics s then ''usb: recover failed after EHCI reset'' else ''usb_rw: not init after recover'')
     else if dev_fails s sec 0 \<and> rec_panics s then Panic ''usb: recover failed after EHCI reset''
     else if b_dirty b then
       (if failed then Ok ((), s\<lparr>disk := (disk s)(sec := torn), wlog := wlog s @ [(sec, torn)]\<rparr>)
        else Ok ((), set_buf i (\<lambda>b. b\<lparr>b_dirty := False, b_valid := True\<rparr>)
                      (s\<lparr>disk := (disk s)(sec := b_data b), wlog := wlog s @ [(sec, b_data b)]\<rparr>)))
     else if failed then Ok ((), set_buf i (\<lambda>b. b\<lparr>b_data := dev_junk s sec (b_data b)\<rparr>) s)
     else Ok ((), set_buf i (\<lambda>b. b\<lparr>b_data := disk s sec, b_valid := True\<rparr>) s))"

definition diskrw :: "nat \<Rightarrow> ('a bstate_scheme, unit) kop" where
  "diskrw i = (\<lambda>s.
     let b = bufs s i in
     if \<not> b_busy b then Panic ''diskrw: buf not busy''
     else if b_valid b \<and> \<not> b_dirty b then Panic ''diskrw: nothing to do''
     else if b_dev b \<noteq> 0 \<and> b_dev b \<noteq> ROOTDEV then Panic ''diskrw: invalid device''
     else usb_rw i s)"


subsection \<open>Cache operations\<close>

text \<open>One iteration of the loop of \<open>binit\<close>: insert buffer \<open>i\<close> after the head.\<close>

definition binit_step :: "nat \<Rightarrow> 'a bstate_scheme \<Rightarrow> 'a bstate_scheme" where
  "binit_step i s =
     (let s1 = set_buf i (\<lambda>b. b\<lparr>b_next := nxt s NBUF\<rparr>) s;
          s2 = set_buf i (\<lambda>b. b\<lparr>b_prev := NBUF\<rparr>) s1;
          s3 = set_buf i (\<lambda>b. b\<lparr>b_dev := - 1\<rparr>) s2;
          s4 = set_buf (nxt s3 NBUF) (\<lambda>b. b\<lparr>b_prev := i\<rparr>) s3
      in set_buf NBUF (\<lambda>b. b\<lparr>b_next := i\<rparr>) s4)"

definition binit :: "'a bstate_scheme \<Rightarrow> 'a bstate_scheme" where
  "binit s = fold binit_step [0..<NBUF]
     (set_buf NBUF (\<lambda>b. b\<lparr>b_next := NBUF\<rparr>) (set_buf NBUF (\<lambda>b. b\<lparr>b_prev := NBUF\<rparr>) s))"

text \<open>
  \<open>bget\<close>: a cached buffer that is busy makes the caller sleep on it and then start over, so the
  outcome is \<open>Sleep\<close> and nothing has changed. The two \<open>for\<close> loops are \<open>scan\<close> with fuel \<open>NBUF\<close>,
  enough for every well-formed list; a corrupt list on which the loop does not end is \<open>Undef\<close>.
\<close>

definition bget :: "u32 \<Rightarrow> u32 \<Rightarrow> ('a bstate_scheme, nat) kop" where
  "bget dev sector = (\<lambda>s.
     case scan NBUF (nxt s)
            (\<lambda>i. b_dev (bufs s i) = dev \<and> b_sector (bufs s i) = sector) NBUF (nxt s NBUF) of
       None \<Rightarrow> Undef
     | Some (Some i) \<Rightarrow>
         if \<not> b_busy (bufs s i) then Ok (i, set_buf i (\<lambda>b. b\<lparr>b_busy := True\<rparr>) s)
         else Sleep (ChBuf i)
     | Some None \<Rightarrow>
         (case scan NBUF (prv s)
                 (\<lambda>i. \<not> b_busy (bufs s i) \<and> \<not> b_dirty (bufs s i)) NBUF (prv s NBUF) of
            None \<Rightarrow> Undef
          | Some (Some i) \<Rightarrow>
              Ok (i, set_buf i (\<lambda>b. b\<lparr>b_dev := dev, b_sector := sector,
                                       b_busy := True, b_valid := False, b_dirty := False\<rparr>) s)
          | Some None \<Rightarrow> Panic ''bget: no buffers''))"

definition bread :: "u32 \<Rightarrow> u32 \<Rightarrow> ('a bstate_scheme, nat) kop" where
  "bread dev sector =
     kbind (bget dev sector) (\<lambda>i.
     kbind (kget (\<lambda>s. b_valid (bufs s i))) (\<lambda>v.
     kthen (kwhen (\<not> v) (diskrw i))
     (kreturn i)))"

definition bwrite :: "nat \<Rightarrow> ('a bstate_scheme, unit) kop" where
  "bwrite i =
     kbind (kget (\<lambda>s. b_busy (bufs s i))) (\<lambda>busy.
     if \<not> busy then kpanic ''bwrite''
     else kthen (kmod (set_buf i (\<lambda>b. b\<lparr>b_dirty := True\<rparr>)))
          (diskrw i))"

text \<open>The pointer assignments of \<open>brelse\<close>, in the order of the source.\<close>

definition mru_front :: "nat \<Rightarrow> 'a bstate_scheme \<Rightarrow> 'a bstate_scheme" where
  "mru_front i s =
     (let s1 = set_buf (nxt s i) (\<lambda>b. b\<lparr>b_prev := prv s i\<rparr>) s;
          s2 = set_buf (prv s1 i) (\<lambda>b. b\<lparr>b_next := nxt s1 i\<rparr>) s1;
          s3 = set_buf i (\<lambda>b. b\<lparr>b_next := nxt s2 NBUF\<rparr>) s2;
          s4 = set_buf i (\<lambda>b. b\<lparr>b_prev := NBUF\<rparr>) s3;
          s5 = set_buf (nxt s4 NBUF) (\<lambda>b. b\<lparr>b_prev := i\<rparr>) s4
      in set_buf NBUF (\<lambda>b. b\<lparr>b_next := i\<rparr>) s5)"

definition brelse :: "nat \<Rightarrow> ('a bstate_scheme, unit) kop" where
  "brelse i =
     kbind (kget (\<lambda>s. b_busy (bufs s i))) (\<lambda>busy.
     if \<not> busy then kpanic ''brelse''
     else kthen (kmod (mru_front i))
          (kmod (set_buf i (\<lambda>b. b\<lparr>b_busy := False\<rparr>))))"

text \<open>What a holder of the buffer does with \<open>b->data\<close> and \<open>b->flags |= B_DIRTY\<close>.\<close>

definition buf_data :: "nat \<Rightarrow> ('a bstate_scheme, bytes) kop" where
  "buf_data i = kget (\<lambda>s. b_data (bufs s i))"

definition buf_store :: "nat \<Rightarrow> bytes \<Rightarrow> ('a bstate_scheme, unit) kop" where
  "buf_store i d = kmod (set_buf i (\<lambda>b. b\<lparr>b_data := d\<rparr>))"

definition buf_set_dirty :: "nat \<Rightarrow> ('a bstate_scheme, unit) kop" where
  "buf_set_dirty i = kmod (set_buf i (\<lambda>b. b\<lparr>b_dirty := True\<rparr>))"


subsection \<open>The circular list\<close>

definition mru :: "'a bstate_scheme \<Rightarrow> nat list \<Rightarrow> bool" where
  "mru s xs \<longleftrightarrow> nchain (nxt s) NBUF xs NBUF
     \<and> nchain (prv s) NBUF (rev xs) NBUF
     \<and> distinct xs \<and> set xs = {..<NBUF}"

lemma mru_set: "mru s xs \<Longrightarrow> set xs = {..<NBUF}"
  by (simp add: mru_def)

lemma set_buf_simps [simp]:
  "bufs (set_buf i f s) = (bufs s)(i := f (bufs s i))"
  "disk (set_buf i f s) = disk s"
  "wlog (set_buf i f s) = wlog s"
  "usb_ready (set_buf i f s) = usb_ready s"
  "dev_fails (set_buf i f s) = dev_fails s" "hc_dead (set_buf i f s) = hc_dead s"
  "dev_junk (set_buf i f s) = dev_junk s" "rec_panics (set_buf i f s) = rec_panics s" "dev_torn (set_buf i f s) = dev_torn s"
  "bstate.more (set_buf i f s) = bstate.more s"
  by (simp_all add: set_buf_def)

lemma nxt_set_buf:
  "nxt (set_buf k (\<lambda>b. b\<lparr>b_next := v\<rparr>) s) = (nxt s)(k := v)"
  "nxt (set_buf k (\<lambda>b. b\<lparr>b_prev := v\<rparr>) s) = nxt s"
  "nxt (set_buf k (\<lambda>b. b\<lparr>b_dev := d\<rparr>) s) = nxt s"
  by (auto simp: nxt_def fun_eq_iff)

lemma prv_set_buf:
  "prv (set_buf k (\<lambda>b. b\<lparr>b_prev := v\<rparr>) s) = (prv s)(k := v)"
  "prv (set_buf k (\<lambda>b. b\<lparr>b_next := v\<rparr>) s) = prv s"
  "prv (set_buf k (\<lambda>b. b\<lparr>b_dev := d\<rparr>) s) = prv s"
  by (auto simp: prv_def fun_eq_iff)

lemmas link_simps = nxt_set_buf prv_set_buf Let_def

lemma mru_cong:
  assumes "\<And>i. i \<le> NBUF \<Longrightarrow> nxt t i = nxt s i"
    and "\<And>i. i \<le> NBUF \<Longrightarrow> prv t i = prv s i"
  shows "mru t xs = mru s xs"
proof (cases "set xs = {..<NBUF}")
  case True
  have "nchain (nxt t) NBUF xs NBUF = nchain (nxt s) NBUF xs NBUF"
    by (rule nchain_cong) (use True assms(1) in auto)
  moreover have "nchain (prv t) NBUF (rev xs) NBUF
      = nchain (prv s) NBUF (rev xs) NBUF"
    by (rule nchain_cong) (use True assms(2) in auto)
  ultimately show ?thesis by (simp add: mru_def)
next
  case False
  then show ?thesis by (auto simp: mru_def)
qed


lemma set_buf_keep: "(\<And>b. g (f b) = g b) \<Longrightarrow> g (bufs (set_buf i f s) j) = g (bufs s j)"
  by simp

text \<open>Fields of a buffer other than its links survive the pointer updates.\<close>

lemma mru_front_keep:
  assumes "\<And>b x. g (b\<lparr>b_prev := x\<rparr>) = g b" and "\<And>b x. g (b\<lparr>b_next := x\<rparr>) = g b"
  shows "g (bufs (mru_front i s) j) = g (bufs s j)"
  unfolding mru_front_def Let_def by (simp only: set_buf_keep [of g] assms)

lemma mru_front_simps [simp]:
  "disk (mru_front i s) = disk s" "wlog (mru_front i s) = wlog s"
  "usb_ready (mru_front i s) = usb_ready s" "dev_fails (mru_front i s) = dev_fails s" "hc_dead (mru_front i s) = hc_dead s"
  "dev_junk (mru_front i s) = dev_junk s" "rec_panics (mru_front i s) = rec_panics s" "dev_torn (mru_front i s) = dev_torn s" "bstate.more (mru_front i s) = bstate.more s"
  unfolding mru_front_def Let_def by (simp_all only: set_buf_simps)

lemma mru_front_buf [simp]:
  "b_busy (bufs (mru_front i s) j) = b_busy (bufs s j)"
  "b_valid (bufs (mru_front i s) j) = b_valid (bufs s j)"
  "b_dirty (bufs (mru_front i s) j) = b_dirty (bufs s j)"
  "b_dev (bufs (mru_front i s) j) = b_dev (bufs s j)"
  "b_sector (bufs (mru_front i s) j) = b_sector (bufs s j)"
  "b_data (bufs (mru_front i s) j) = b_data (bufs s j)"
  by (rule mru_front_keep; simp)+

lemma mru_mru_front:
  assumes "mru s (as @ i # cs)"
  shows "mru (mru_front i s) (i # as @ cs)"
proof -
  let ?nx1 = "(nxt s)(prv s i := nxt s i)" and ?pv1 = "(prv s)(nxt s i := prv s i)"
  from assms have n: "nchain (nxt s) NBUF (as @ i # cs) NBUF"
    and p: "nchain (prv s) NBUF (rev (as @ i # cs)) NBUF"
    and d: "distinct (NBUF # as @ i # cs)" and st: "set (as @ i # cs) = {..<NBUF}"
    by (auto simp: mru_def)
  from n d have ni: "nxt s i \<noteq> i" by (cases cs) auto
  have nx: "nxt (mru_front i s) = ?nx1(i := ?nx1 NBUF, NBUF := i)"
    using ni by (simp add: mru_front_def link_simps)
  have pv: "prv (mru_front i s) = ?pv1(i := NBUF, (?nx1(i := ?nx1 NBUF)) NBUF := i)"
    using ni d by (simp add: mru_front_def link_simps)
  have "distinct (NBUF # i # as @ cs)" using d by auto
  moreover from dll_remove [OF n p d] have "nchain ?nx1 NBUF (as @ cs) NBUF"
    and "nchain ?pv1 NBUF (rev (as @ cs)) NBUF" by simp_all
  ultimately have "nchain (nxt (mru_front i s)) NBUF (i # as @ cs) NBUF
      \<and> nchain (prv (mru_front i s)) NBUF (rev (i # as @ cs)) NBUF"
    unfolding nx pv by (intro dll_insert_front)
  then show ?thesis using d st by (auto simp: mru_def)
qed

lemma binit_step_chain:
  assumes "nchain (nxt s) NBUF xs NBUF" and "nchain (prv s) NBUF (rev xs) NBUF"
    and "distinct (NBUF # i # xs)"
  shows "nchain (nxt (binit_step i s)) NBUF (i # xs) NBUF
    \<and> nchain (prv (binit_step i s)) NBUF (rev (i # xs)) NBUF"
proof -
  have "nxt (binit_step i s) = ((nxt s)(i := nxt s NBUF))(NBUF := i)"
    by (simp add: binit_step_def link_simps)
  moreover have "prv (binit_step i s)
      = ((prv s)(i := NBUF))(((nxt s)(i := nxt s NBUF)) NBUF := i)"
    by (simp add: binit_step_def link_simps)
  ultimately show ?thesis
    using dll_insert_front [OF assms] by (simp only:)
qed

lemma binit_fold:
  assumes "nchain (nxt s) NBUF [] NBUF" and "nchain (prv s) NBUF [] NBUF" and "n \<le> NBUF"
  shows "nchain (nxt (fold binit_step [0..<n] s)) NBUF (rev [0..<n]) NBUF
    \<and> nchain (prv (fold binit_step [0..<n] s)) NBUF (rev (rev [0..<n])) NBUF"
  using assms(3)
proof (induction n)
  case 0
  then show ?case using assms(1,2) by simp
next
  case (Suc n)
  then show ?case
    using binit_step_chain [of "fold binit_step [0..<n] s" "rev [0..<n]" n] by simp
qed

lemma mru_binit: "mru (binit s) (rev [0..<NBUF])"
proof -
  let ?t = "set_buf NBUF (\<lambda>b. b\<lparr>b_next := NBUF\<rparr>) (set_buf NBUF (\<lambda>b. b\<lparr>b_prev := NBUF\<rparr>) s)"
  have "nchain (nxt ?t) NBUF [] NBUF" and "nchain (prv ?t) NBUF [] NBUF"
    by (simp_all add: link_simps)
  from binit_fold [OF this, of NBUF] show ?thesis
    by (auto simp: mru_def binit_def)
qed

lemma binit_step_keep:
  assumes "\<And>b x. g (b\<lparr>b_prev := x\<rparr>) = g b" and "\<And>b x. g (b\<lparr>b_next := x\<rparr>) = g b"
    and "\<And>b x. g (b\<lparr>b_dev := x\<rparr>) = g b"
  shows "g (bufs (binit_step i s) j) = g (bufs s j)"
  unfolding binit_step_def Let_def by (simp only: set_buf_keep [of g] assms)

lemma binit_step_dev: "b_dev (bufs (binit_step i s) j) = (if j = i then - 1 else b_dev (bufs s j))"
  unfolding binit_step_def Let_def by (simp add: set_buf_keep [of b_dev] del: set_buf_simps(1)) simp

lemma binit_step_simps [simp]:
  "disk (binit_step i s) = disk s" "wlog (binit_step i s) = wlog s"
  "usb_ready (binit_step i s) = usb_ready s" "dev_fails (binit_step i s) = dev_fails s" "hc_dead (binit_step i s) = hc_dead s"
  "dev_junk (binit_step i s) = dev_junk s" "rec_panics (binit_step i s) = rec_panics s" "dev_torn (binit_step i s) = dev_torn s" "bstate.more (binit_step i s) = bstate.more s"
  unfolding binit_step_def Let_def by (simp_all only: set_buf_simps)

lemma binit_step_buf [simp]:
  "b_busy (bufs (binit_step i s) j) = b_busy (bufs s j)"
  "b_valid (bufs (binit_step i s) j) = b_valid (bufs s j)"
  "b_dirty (bufs (binit_step i s) j) = b_dirty (bufs s j)"
  "b_sector (bufs (binit_step i s) j) = b_sector (bufs s j)"
  "b_data (bufs (binit_step i s) j) = b_data (bufs s j)"
  by (rule binit_step_keep; simp)+

lemma fold_binit_step_simps:
  "disk (fold binit_step is s) = disk s" "wlog (fold binit_step is s) = wlog s"
  "usb_ready (fold binit_step is s) = usb_ready s" "dev_fails (fold binit_step is s) = dev_fails s" "hc_dead (fold binit_step is s) = hc_dead s"
  "dev_junk (fold binit_step is s) = dev_junk s" "rec_panics (fold binit_step is s) = rec_panics s" "dev_torn (fold binit_step is s) = dev_torn s" "bstate.more (fold binit_step is s) = bstate.more s"
  "b_busy (bufs (fold binit_step is s) j) = b_busy (bufs s j)"
  "b_valid (bufs (fold binit_step is s) j) = b_valid (bufs s j)"
  "b_dirty (bufs (fold binit_step is s) j) = b_dirty (bufs s j)"
  "b_sector (bufs (fold binit_step is s) j) = b_sector (bufs s j)"
  "b_data (bufs (fold binit_step is s) j) = b_data (bufs s j)"
  "b_dev (bufs (fold binit_step is s) j) = (if j \<in> set is then - 1 else b_dev (bufs s j))"
  by (induction "is" arbitrary: s) (auto simp: binit_step_dev)

lemma binit_simps [simp]:
  "disk (binit s) = disk s" "wlog (binit s) = wlog s"
  "usb_ready (binit s) = usb_ready s" "dev_fails (binit s) = dev_fails s" "hc_dead (binit s) = hc_dead s"
  "dev_junk (binit s) = dev_junk s" "rec_panics (binit s) = rec_panics s" "dev_torn (binit s) = dev_torn s" "bstate.more (binit s) = bstate.more s"
  "b_busy (bufs (binit s) j) = b_busy (bufs s j)"
  "b_valid (bufs (binit s) j) = b_valid (bufs s j)"
  "b_dirty (bufs (binit s) j) = b_dirty (bufs s j)"
  "b_data (bufs (binit s) j) = b_data (bufs s j)"
  "b_dev (bufs (binit s) j) = (if j < NBUF then - 1 else b_dev (bufs s j))"
  by (simp_all add: binit_def fold_binit_step_simps)


subsection \<open>The cache invariant and its abstraction\<close>

text \<open>\<open>caches s sec i\<close>: buffer \<open>i\<close> is bound to sector \<open>sec\<close> of the root device.\<close>

definition caches :: "'a bstate_scheme \<Rightarrow> u32 \<Rightarrow> nat \<Rightarrow> bool" where
  "caches s sec i \<longleftrightarrow> b_dev (bufs s i) = ROOTDEV \<and> b_sector (bufs s i) = sec"

definition holds :: "'a bstate_scheme \<Rightarrow> nat \<Rightarrow> u32 \<Rightarrow> bool" where
  "holds s i sec \<longleftrightarrow> i < NBUF \<and> b_busy (bufs s i) \<and> caches s sec i"

definition dev_ok :: "'a bstate_scheme \<Rightarrow> bool" where
  "dev_ok s \<longleftrightarrow> usb_ready s \<and> \<not> hc_dead s \<and> (\<forall>x. \<not> (dev_fails s x 0 \<and> (rec_panics s \<or> dev_fails s x 1)))
     \<and> (\<forall>x. length (disk s x) = BSIZE)"

definition buf_ok :: "(u32 \<Rightarrow> bytes) \<Rightarrow> buf \<Rightarrow> bool" where
  "buf_ok d b \<longleftrightarrow> length (b_data b) = BSIZE \<and> (b_valid b \<longleftrightarrow> b_dev b = ROOTDEV)
     \<and> (b_busy b \<or> b_dirty b \<longrightarrow> b_valid b)
     \<and> (b_valid b \<and> \<not> b_busy b \<and> \<not> b_dirty b \<longrightarrow>
          b_data b = d (phys_sector ROOTDEV (b_sector b)))"

text \<open>
  \<open>bio_inv\<close> holds between cache operations on a working device: the list is well formed, a
  sector of the root device is cached at most once, exactly the buffers that have been bound to a
  sector are valid, and a valid buffer that is neither busy nor dirty agrees with the device.
\<close>

definition bio_inv :: "'a bstate_scheme \<Rightarrow> bool" where
  "bio_inv s \<longleftrightarrow> (\<exists>xs. mru s xs) \<and> dev_ok s \<and> (\<forall>i<NBUF. buf_ok (disk s) (bufs s i))
     \<and> (\<forall>i<NBUF. \<forall>j<NBUF. \<forall>x. caches s x i \<and> caches s x j \<longrightarrow> i = j)"

text \<open>
  The abstract block store the cache implements: \<open>a_view\<close> is what a reader of a sector sees,
  \<open>a_disk\<close> what the device holds, \<open>a_busy\<close> the sectors handed out, \<open>a_dirty\<close> those whose buffer
  must not be evicted.
\<close>

record acache =
  a_view :: "u32 \<Rightarrow> bytes"
  a_disk :: "u32 \<Rightarrow> bytes"
  a_wlog :: "(u32 \<times> bytes) list"
  a_busy :: "u32 set"
  a_dirty :: "u32 set"

definition dsk :: "'a bstate_scheme \<Rightarrow> u32 \<Rightarrow> bytes" where
  "dsk s sec = disk s (phys_sector ROOTDEV sec)"

definition view :: "'a bstate_scheme \<Rightarrow> u32 \<Rightarrow> bytes" where
  "view s sec = (case find (caches s sec) [0..<NBUF] of
      Some i \<Rightarrow> b_data (bufs s i) | None \<Rightarrow> dsk s sec)"

definition absc :: "'a bstate_scheme \<Rightarrow> acache" where
  "absc s = \<lparr>a_view = view s, a_disk = dsk s, a_wlog = wlog s,
     a_busy = {b_sector (bufs s i) |i. i < NBUF \<and> b_busy (bufs s i)},
     a_dirty = {b_sector (bufs s i) |i. i < NBUF \<and> b_dirty (bufs s i)}\<rparr>"

lemma absc_sel [simp]:
  "a_view (absc s) = view s" "a_disk (absc s) = dsk s" "a_wlog (absc s) = wlog s"
  by (simp_all add: absc_def)

lemma abscD:
  assumes "absc t = A"
  shows "view t = a_view A" "dsk t = a_disk A" "wlog t = a_wlog A"
  using assms by auto

lemma absc_eqI:
  assumes "view t = a_view A" "dsk t = a_disk A" "wlog t = a_wlog A"
    and "a_busy (absc t) = a_busy A" "a_dirty (absc t) = a_dirty A"
  shows "absc t = A"
  by (rule acache.equality) (simp_all only: absc_sel assms, simp)

lemma dsk_set_buf [simp]: "dsk (set_buf i f s) = dsk s"
  by (simp add: dsk_def fun_eq_iff)

lemma finite_flags [simp]: "finite (a_busy (absc s))" "finite (a_dirty (absc s))"
  by (simp_all add: absc_def)

lemma a_busy_iff: "x \<in> a_busy (absc s) \<longleftrightarrow> (\<exists>i<NBUF. b_busy (bufs s i) \<and> b_sector (bufs s i) = x)"
  by (auto simp: absc_def)

lemma a_dirty_iff: "x \<in> a_dirty (absc s) \<longleftrightarrow> (\<exists>i<NBUF. b_dirty (bufs s i) \<and> b_sector (bufs s i) = x)"
  by (auto simp: absc_def)

text \<open>The sectors of the buffers other than \<open>i\<close> that satisfy a flag.\<close>

definition others :: "(buf \<Rightarrow> bool) \<Rightarrow> 'a bstate_scheme \<Rightarrow> nat \<Rightarrow> u32 set" where
  "others p s i = {b_sector (bufs s j) |j. j < NBUF \<and> j \<noteq> i \<and> p (bufs s j)}"

lemma flag_set_buf:
  assumes "i < NBUF"
  shows "{b_sector (bufs (set_buf i f s) j) |j. j < NBUF \<and> p (bufs (set_buf i f s) j)}
    = (if p (f (bufs s i)) then {b_sector (f (bufs s i))} else {}) \<union> others p s i"
proof -
  have "x \<in> {b_sector (bufs (set_buf i f s) j) |j. j < NBUF \<and> p (bufs (set_buf i f s) j)} \<longleftrightarrow>
     (p (f (bufs s i)) \<and> x = b_sector (f (bufs s i))) \<or> x \<in> others p s i" (is "?l \<longleftrightarrow> ?r") for x
  proof
    assume ?l
    then obtain j where "j < NBUF" "p (bufs (set_buf i f s) j)" "x = b_sector (bufs (set_buf i f s) j)"
      by blast
    then show ?r by (cases "j = i") (auto simp: others_def)
  next
    assume ?r
    then show ?l using assms by (elim disjE) (force simp: others_def)+
  qed
  then show ?thesis by auto
qed

lemmas busy_set_buf = flag_set_buf [where p = b_busy]
lemmas dirty_set_buf = flag_set_buf [where p = b_dirty]

lemma absc_set_buf:
  assumes "i < NBUF"
  shows "a_busy (absc (set_buf i f s))
      = (if b_busy (f (bufs s i)) then {b_sector (f (bufs s i))} else {}) \<union> others b_busy s i"
    and "a_dirty (absc (set_buf i f s))
      = (if b_dirty (f (bufs s i)) then {b_sector (f (bufs s i))} else {}) \<union> others b_dirty s i"
  unfolding absc_def acache.simps by (simp_all only: busy_set_buf [OF assms] dirty_set_buf [OF assms])

lemma a_flag_others:
  assumes "i < NBUF"
  shows "a_busy (absc s) = (if b_busy (bufs s i) then {b_sector (bufs s i)} else {}) \<union> others b_busy s i"
    and "a_dirty (absc s) = (if b_dirty (bufs s i) then {b_sector (bufs s i)} else {}) \<union> others b_dirty s i"
  using assms by (auto simp: absc_def others_def)

lemma phys_sector_inj [simp]: "phys_sector ROOTDEV x = phys_sector ROOTDEV y \<longleftrightarrow> x = y"
  by (simp add: phys_sector_def)

lemma bio_invD:
  assumes "bio_inv s"
  shows "\<exists>xs. mru s xs" "dev_ok s" "i < NBUF \<Longrightarrow> buf_ok (disk s) (bufs s i)"
    "i < NBUF \<Longrightarrow> j < NBUF \<Longrightarrow> caches s x i \<Longrightarrow> caches s x j \<Longrightarrow> i = j"
  using assms unfolding bio_inv_def by blast+

lemma bio_invI:
  assumes "\<exists>xs. mru s xs" "dev_ok s" "\<And>i. i < NBUF \<Longrightarrow> buf_ok (disk s) (bufs s i)"
    and "\<And>i j x. i < NBUF \<Longrightarrow> j < NBUF \<Longrightarrow> caches s x i \<Longrightarrow> caches s x j \<Longrightarrow> i = j"
  shows "bio_inv s"
  using assms unfolding bio_inv_def by blast

lemma view_cached:
  assumes "bio_inv s" and "i < NBUF" and "caches s sec i"
  shows "view s sec = b_data (bufs s i)"
proof (cases "find (caches s sec) [0..<NBUF]")
  case None
  with assms show ?thesis by (auto dest: find_NoneD [of _ _ i])
next
  case (Some j)
  with assms have "j = i" by (auto dest!: find_SomeD dest: bio_invD(4))
  with Some show ?thesis by (simp add: view_def)
qed

lemma view_uncached: "(\<And>i. i < NBUF \<Longrightarrow> \<not> caches s sec i) \<Longrightarrow> view s sec = dsk s sec"
  by (auto simp: view_def split: option.split dest!: find_SomeD)

lemma view_eqI:
  assumes "bio_inv t" and "\<And>i. i < NBUF \<Longrightarrow> caches t x i \<Longrightarrow> b_data (bufs t i) = v"
    and "(\<And>i. i < NBUF \<Longrightarrow> \<not> caches t x i) \<Longrightarrow> dsk t x = v"
  shows "view t x = v"
  using assms view_cached view_uncached by metis

lemma length_view [simp]: "bio_inv s \<Longrightarrow> length (view s x) = BSIZE"
  unfolding view_def dsk_def
  by (cases "find (caches s x) [0..<NBUF]")
     (auto simp: bio_inv_def dev_ok_def buf_ok_def dest!: find_SomeD)

text \<open>A buffer changed in place, its links and its binding to a sector kept.\<close>

lemma mru_set_buf:
  assumes "b_prev (f (bufs s i)) = b_prev (bufs s i)" and "b_next (f (bufs s i)) = b_next (bufs s i)"
  shows "mru (set_buf i f s) xs = mru s xs"
  by (rule mru_cong) (auto simp: nxt_def prv_def assms)

lemma caches_set_buf:
  "caches (set_buf i f s) x j = (if j = i then b_dev (f (bufs s i)) = ROOTDEV
     \<and> b_sector (f (bufs s i)) = x else caches s x j)"
  by (simp add: caches_def)

lemma bio_inv_set_buf:
  assumes "bio_inv s"
    and "b_prev (f (bufs s i)) = b_prev (bufs s i)" "b_next (f (bufs s i)) = b_next (bufs s i)"
    and "buf_ok (disk s) (f (bufs s i))"
    and "\<And>j. j < NBUF \<Longrightarrow> j \<noteq> i \<Longrightarrow> b_dev (f (bufs s i)) = ROOTDEV \<Longrightarrow>
           \<not> caches s (b_sector (f (bufs s i))) j"
  shows "bio_inv (set_buf i f s)"
proof (rule bio_invI)
  show "\<exists>xs. mru (set_buf i f s) xs" using bio_invD(1) [OF assms(1)] assms(2,3) by (simp add: mru_set_buf)
  show "dev_ok (set_buf i f s)" using bio_invD(2) [OF assms(1)] by (simp add: dev_ok_def)
next
  fix j assume "j < NBUF"
  then show "buf_ok (disk (set_buf i f s)) (bufs (set_buf i f s) j)"
    using bio_invD(3) [OF assms(1)] assms(4) by simp
next
  fix j k x assume "j < NBUF" "k < NBUF" "caches (set_buf i f s) x j" "caches (set_buf i f s) x k"
  then show "j = k"
    using bio_invD(4) [OF assms(1)] assms(5) by (auto simp: caches_set_buf split: if_splits)
qed

lemma bio_inv_set_buf_same:
  assumes "bio_inv s" and "i < NBUF"
    and "b_prev (f (bufs s i)) = b_prev (bufs s i)" "b_next (f (bufs s i)) = b_next (bufs s i)"
    and "b_dev (f (bufs s i)) = b_dev (bufs s i)" "b_sector (f (bufs s i)) = b_sector (bufs s i)"
    and "buf_ok (disk s) (f (bufs s i))"
  shows "bio_inv (set_buf i f s)"
  using assms(1,3,4,7)
proof (rule bio_inv_set_buf)
  fix j assume "j < NBUF" "j \<noteq> i" "b_dev (f (bufs s i)) = ROOTDEV"
  with assms show "\<not> caches s (b_sector (f (bufs s i))) j"
    using bio_invD(4) [OF assms(1), of i j] by (auto simp: caches_def)
qed

lemma view_set_buf:
  assumes "bio_inv s" and "bio_inv (set_buf i f s)" and "i < NBUF" and "caches s sec i"
    and "b_dev (f (bufs s i)) = b_dev (bufs s i)" "b_sector (f (bufs s i)) = b_sector (bufs s i)"
  shows "view (set_buf i f s) = (view s)(sec := b_data (f (bufs s i)))"
proof
  fix x
  show "view (set_buf i f s) x = ((view s)(sec := b_data (f (bufs s i)))) x"
  proof (cases "x = sec")
    case True
    with assms show ?thesis
      using view_cached [OF assms(2,3), of sec] by (simp add: caches_def)
  next
    case False
    have "view (set_buf i f s) x = view s x"
    proof (rule view_eqI [OF assms(2)])
      fix j assume "j < NBUF" "caches (set_buf i f s) x j"
      with False assms(4-6) show "b_data (bufs (set_buf i f s) j) = view s x"
        by (cases "j = i") (auto simp: caches_def view_cached [OF assms(1)])
    next
      assume "\<And>j. j < NBUF \<Longrightarrow> \<not> caches (set_buf i f s) x j"
      then have "\<And>j. j < NBUF \<Longrightarrow> \<not> caches s x j"
        using False assms(4-6) by (auto simp: caches_set_buf split: if_splits) (metis caches_def)
      then show "dsk (set_buf i f s) x = view s x" by (simp add: view_uncached dsk_def)
    qed
    with False show ?thesis by simp
  qed
qed

lemma holdsD:
  assumes "bio_inv s" and "holds s i sec"
  shows "i < NBUF" "caches s sec i" "b_busy (bufs s i)" "b_valid (bufs s i)"
    "b_dev (bufs s i) = ROOTDEV" "b_sector (bufs s i) = sec" "length (b_data (bufs s i)) = BSIZE"
    "view s sec = b_data (bufs s i)" "sec \<in> a_busy (absc s)"
  using assms bio_invD(3) [OF assms(1), of i] view_cached [OF assms(1), of i sec]
  by (auto simp: holds_def caches_def buf_ok_def a_busy_iff)

lemma holds_unique: "bio_inv s \<Longrightarrow> holds s i x \<Longrightarrow> holds s j x \<Longrightarrow> i = j"
  by (auto simp: holds_def dest: bio_invD(4))


subsection \<open>The laws of the cache\<close>

lemma scan_buffers:
  assumes "mru s xs"
  shows "scan NBUF (nxt s) p NBUF (nxt s NBUF) = Some (find p xs)"
    and "scan NBUF (prv s) p NBUF (prv s NBUF) = Some (find p (rev xs))"
proof -
  have "length xs = NBUF" and "NBUF \<notin> set xs"
    using assms distinct_card [of xs] by (auto simp: mru_def)
  with assms show "scan NBUF (nxt s) p NBUF (nxt s NBUF) = Some (find p xs)"
    and "scan NBUF (prv s) p NBUF (prv s NBUF) = Some (find p (rev xs))"
    unfolding mru_def by (simp_all add: scan_nchain)
qed

lemma bget_unfold:
  assumes "mru s xs"
  shows "bget dev sector s =
    (case find (\<lambda>i. b_dev (bufs s i) = dev \<and> b_sector (bufs s i) = sector) xs of
       Some i \<Rightarrow> if \<not> b_busy (bufs s i) then Ok (i, set_buf i (\<lambda>b. b\<lparr>b_busy := True\<rparr>) s)
                 else Sleep (ChBuf i)
     | None \<Rightarrow> (case find (\<lambda>i. \<not> b_busy (bufs s i) \<and> \<not> b_dirty (bufs s i)) (rev xs) of
            Some i \<Rightarrow> Ok (i, set_buf i (\<lambda>b. b\<lparr>b_dev := dev, b_sector := sector,
                                       b_busy := True, b_valid := False, b_dirty := False\<rparr>) s)
          | None \<Rightarrow> Panic ''bget: no buffers''))"
  unfolding bget_def scan_buffers [OF assms] by (simp only: option.case)

text \<open>A buffer that can be recycled exists while fewer than \<open>NBUF\<close> sectors are busy or dirty.\<close>

lemma card_pinned:
  assumes "bio_inv s" and "\<And>i. i < NBUF \<Longrightarrow> b_busy (bufs s i) \<or> b_dirty (bufs s i)"
  shows "card (a_busy (absc s) \<union> a_dirty (absc s)) = NBUF"
proof -
  have *: "b_dev (bufs s i) = ROOTDEV" if "i < NBUF" for i
    using bio_invD(3) [OF assms(1) that] assms(2) [OF that] by (auto simp: buf_ok_def)
  have "inj_on (\<lambda>i. b_sector (bufs s i)) {..<NBUF}"
    by (rule inj_onI) (use * bio_invD(4) [OF assms(1)] in \<open>auto simp: caches_def\<close>)
  moreover have "a_busy (absc s) \<union> a_dirty (absc s) = (\<lambda>i. b_sector (bufs s i)) ` {..<NBUF}"
    using assms(2) by (auto simp: absc_def)
  ultimately show ?thesis by (simp add: card_image)
qed

lemma bio_inv_bind:
  assumes inv: "bio_inv s" and i: "i < NBUF" and free: "\<And>j. j < NBUF \<Longrightarrow> \<not> caches s sec j"
  shows "bio_inv (set_buf i (\<lambda>b. b\<lparr>b_dev := ROOTDEV, b_sector := sec, b_busy := True,
     b_dirty := False, b_data := dsk s sec, b_valid := True\<rparr>) s)"
  using inv by (rule bio_inv_set_buf)
    (use bio_invD(2) [OF inv] free in \<open>auto simp: buf_ok_def dsk_def dev_ok_def\<close>)

lemma absc_bind:
  fixes s :: "'a bstate_scheme"
  assumes inv: "bio_inv s" and i: "i < NBUF" and free: "\<And>j. j < NBUF \<Longrightarrow> \<not> caches s sec j"
    and clean: "\<not> b_busy (bufs s i)" "\<not> b_dirty (bufs s i)"
  defines "t \<equiv> set_buf i (\<lambda>b. b\<lparr>b_dev := ROOTDEV, b_sector := sec, b_busy := True,
     b_dirty := False, b_data := dsk s sec, b_valid := True\<rparr>) s"
  shows "absc t = (absc s)\<lparr>a_busy := insert sec (a_busy (absc s))\<rparr>"
proof -
  have "view t x = view s x" for x
  proof (rule view_eqI)
    show "bio_inv t" unfolding t_def by (rule bio_inv_bind [OF inv i free])
  next
    fix j assume "j < NBUF" "caches t x j"
    then show "b_data (bufs t j) = view s x"
      using view_uncached [OF free] view_cached [OF inv]
      by (auto simp: t_def caches_set_buf split: if_splits)
  next
    assume n: "\<And>j. j < NBUF \<Longrightarrow> \<not> caches t x j"
    show "dsk t x = view s x"
    proof (cases "caches s x i")
      case True
      with clean bio_invD(3) [OF inv i] view_cached [OF inv i True] show ?thesis
        by (auto simp: buf_ok_def caches_def dsk_def t_def)
    next
      case False
      have "\<not> caches s x j" if "j < NBUF" for j
        using n [OF that] False by (cases "j = i") (simp_all add: t_def caches_set_buf)
      then show ?thesis by (simp add: view_uncached t_def dsk_def)
    qed
  qed
  then have v: "view t = view s" by blast
  have "a_busy (absc t) = insert sec (a_busy (absc s))" "a_dirty (absc t) = a_dirty (absc s)"
    using clean by (simp_all add: t_def absc_set_buf [OF i] a_flag_others [OF i, of s])
  then show ?thesis by (intro absc_eqI) (simp_all only: v absc_sel acache.simps, simp_all add: t_def)
qed

text \<open>
  \<open>bio_to s A t\<close>: a cache operation took \<open>s\<close> to \<open>t\<close>, the abstract cache is now \<open>A\<close>, the other
  components' part of the state is untouched, and whoever held a buffer that \<open>A\<close> still lists as
  busy holds it still.
\<close>

definition bio_to :: "'a bstate_scheme \<Rightarrow> acache \<Rightarrow> 'a bstate_scheme \<Rightarrow> bool" where
  "bio_to s A t \<longleftrightarrow> bio_inv t \<and> bstate.more t = bstate.more s \<and> absc t = A
     \<and> (\<forall>j x. holds s j x \<and> x \<in> a_busy A \<longrightarrow> holds t j x)"

definition a_hold :: "u32 \<Rightarrow> acache \<Rightarrow> acache" where
  "a_hold sec A = A\<lparr>a_busy := insert sec (a_busy A)\<rparr>"

definition a_release :: "u32 \<Rightarrow> acache \<Rightarrow> acache" where
  "a_release sec A = A\<lparr>a_busy := a_busy A - {sec}\<rparr>"

definition a_store :: "u32 \<Rightarrow> bytes \<Rightarrow> acache \<Rightarrow> acache" where
  "a_store sec d A = A\<lparr>a_view := (a_view A)(sec := d)\<rparr>"

definition a_pin :: "u32 \<Rightarrow> acache \<Rightarrow> acache" where
  "a_pin sec A = A\<lparr>a_dirty := insert sec (a_dirty A)\<rparr>"

definition a_flush :: "u32 \<Rightarrow> acache \<Rightarrow> acache" where
  "a_flush sec A = A\<lparr>a_disk := (a_disk A)(sec := a_view A sec), a_dirty := a_dirty A - {sec},
     a_wlog := a_wlog A @ [(phys_sector ROOTDEV sec, a_view A sec)]\<rparr>"

definition a_room :: "u32 \<Rightarrow> acache \<Rightarrow> bool" where
  "a_room sec A \<longleftrightarrow> sec \<notin> a_busy A \<and> (sec \<in> a_dirty A \<or> card (a_busy A \<union> a_dirty A) < NBUF)"

lemmas a_defs = a_hold_def a_release_def a_store_def a_pin_def a_flush_def

lemma wp_Ok: "m s = Ok (a, t) \<Longrightarrow> wp m Q s = Q a t"
  by (simp add: wp_def)

lemma bget_hit:
  assumes inv: "bio_inv s" and i: "i < NBUF" "caches s sec i" "\<not> b_busy (bufs s i)"
  shows "bget ROOTDEV sec s = Ok (i, set_buf i (\<lambda>b. b\<lparr>b_busy := True\<rparr>) s)"
proof -
  from bio_invD(1) [OF inv] obtain xs where xs: "mru s xs" by blast
  let ?f = "find (\<lambda>i. b_dev (bufs s i) = ROOTDEV \<and> b_sector (bufs s i) = sec) xs"
  have "?f = Some i"
  proof (cases ?f)
    case None
    with xs i show ?thesis by (auto simp: mru_def caches_def dest!: find_NoneD [of _ _ i])
  next
    case (Some j)
    with xs have "caches s sec j" "j < NBUF" by (auto dest!: find_SomeD simp: mru_def caches_def)
    with bio_invD(4) [OF inv] i Some show ?thesis by blast
  qed
  with i show ?thesis by (simp add: bget_unfold [OF xs])
qed

lemma bget_miss:
  assumes inv: "bio_inv s" and miss: "\<And>i. i < NBUF \<Longrightarrow> \<not> caches s sec i"
    and room: "card (a_busy (absc s) \<union> a_dirty (absc s)) < NBUF"
  obtains i where "i < NBUF" "\<not> b_busy (bufs s i)" "\<not> b_dirty (bufs s i)"
    "bget ROOTDEV sec s = Ok (i, set_buf i (\<lambda>b. b\<lparr>b_dev := ROOTDEV, b_sector := sec,
        b_busy := True, b_valid := False, b_dirty := False\<rparr>) s)"
proof -
  from bio_invD(1) [OF inv] obtain xs where xs: "mru s xs" by blast
  have 1: "find (\<lambda>i. b_dev (bufs s i) = ROOTDEV \<and> b_sector (bufs s i) = sec) xs = None"
    using miss unfolding find_None_iff mru_set [OF xs] caches_def by blast
  let ?f = "find (\<lambda>i. \<not> b_busy (bufs s i) \<and> \<not> b_dirty (bufs s i)) (rev xs)"
  have "?f \<noteq> None"
  proof
    assume "?f = None"
    then have "b_busy (bufs s i) \<or> b_dirty (bufs s i)" if "i < NBUF" for i
      using that unfolding find_None_iff set_rev mru_set [OF xs] by blast
    then show False using card_pinned [OF inv] room by simp
  qed
  then obtain i where 2: "?f = Some i" by blast
  have "i < NBUF" "\<not> b_busy (bufs s i)" "\<not> b_dirty (bufs s i)"
    using find_SomeD [OF 2] mru_set [OF xs] by simp_all
  then show ?thesis by (rule that) (simp only: bget_unfold [OF xs] 1 2 option.case)
qed

lemma bread_hit:
  assumes inv: "bio_inv s" and i: "i < NBUF" "caches s sec i" "\<not> b_busy (bufs s i)"
  shows "wp (bread ROOTDEV sec) (\<lambda>i t. bio_to s (a_hold sec (absc s)) t \<and> holds t i sec) s"
proof -
  let ?f = "\<lambda>b. b\<lparr>b_busy := True\<rparr>" and ?t = "set_buf i (\<lambda>b. b\<lparr>b_busy := True\<rparr>) s"
  have v: "b_valid (bufs s i)" "b_dev (bufs s i) = ROOTDEV" "b_sector (bufs s i) = sec"
    using bio_invD(3) [OF inv i(1)] i(2) by (auto simp: buf_ok_def caches_def)
  have inv': "bio_inv ?t"
    using inv i(1) by (rule bio_inv_set_buf_same) (use bio_invD(3) [OF inv i(1)] v in \<open>auto simp: buf_ok_def\<close>)
  have "view ?t = view s"
    using view_set_buf [OF inv inv' i(1,2)] view_cached [OF inv i(1,2)] by (simp add: fun_upd_idem)
  then have "absc ?t = a_hold sec (absc s)"
    using v i by (intro absc_eqI)
      (simp_all add: a_hold_def absc_set_buf a_flag_others [OF i(1), of s])
  moreover have "holds ?t j x" if "holds s j x" for j x
    using that by (auto simp: holds_def caches_def)
  moreover have "holds ?t i sec" using i by (auto simp: holds_def caches_def)
  ultimately show ?thesis using inv' v
    by (simp add: bread_def wp_Ok [of "bget ROOTDEV sec" s, OF bget_hit [OF inv i]] bio_to_def)
qed

lemma bread_miss:
  assumes inv: "bio_inv s" and miss: "\<And>i. i < NBUF \<Longrightarrow> \<not> caches s sec i"
    and room: "card (a_busy (absc s) \<union> a_dirty (absc s)) < NBUF"
  shows "wp (bread ROOTDEV sec) (\<lambda>i t. bio_to s (a_hold sec (absc s)) t \<and> holds t i sec) s"
proof -
  from bget_miss [OF assms] obtain i where i: "i < NBUF" "\<not> b_busy (bufs s i)" "\<not> b_dirty (bufs s i)"
    and g: "bget ROOTDEV sec s = Ok (i, set_buf i (\<lambda>b. b\<lparr>b_dev := ROOTDEV, b_sector := sec,
        b_busy := True, b_valid := False, b_dirty := False\<rparr>) s)" by metis
  let ?t = "set_buf i (\<lambda>b. b\<lparr>b_dev := ROOTDEV, b_sector := sec, b_busy := True,
     b_dirty := False, b_data := dsk s sec, b_valid := True\<rparr>) s"
  have rw: "diskrw i (set_buf i (\<lambda>b. b\<lparr>b_dev := ROOTDEV, b_sector := sec,
        b_busy := True, b_valid := False, b_dirty := False\<rparr>) s) = Ok ((), ?t)"
    using bio_invD(2) [OF inv] by (auto simp: diskrw_def usb_rw_def dev_ok_def Let_def set_buf_def dsk_def)
  have "holds ?t j x" if "holds s j x" for j x
    using that i by (cases "j = i") (auto simp: holds_def caches_def)
  moreover have "holds ?t i sec" using i by (simp add: holds_def caches_def)
  ultimately show ?thesis
    using bio_inv_bind [OF inv i(1) miss] absc_bind [OF inv i(1) miss i(2,3)]
    by (simp add: bread_def wp_Ok [of "bget ROOTDEV sec" s, OF g] wp_Ok [of "diskrw i", OF rw] bio_to_def a_hold_def)
qed

lemma bread_ok:
  assumes "bio_inv s" and "a_room sec (absc s)"
  shows "wp (bread ROOTDEV sec) (\<lambda>i t. bio_to s (a_hold sec (absc s)) t \<and> holds t i sec) s"
proof (cases "\<exists>i<NBUF. caches s sec i")
  case True
  with assms(2) show ?thesis
    using bread_hit [OF assms(1)] by (auto simp: a_room_def a_busy_iff caches_def)
next
  case False
  then have "sec \<notin> a_dirty (absc s)"
    using bio_invD(3) [OF assms(1)] by (auto simp: a_dirty_iff caches_def buf_ok_def)
  with False assms show ?thesis by (auto simp: a_room_def intro!: bread_miss)
qed

lemma holds_set_buf:
  assumes "holds s j x" and "b_dev (f (bufs s i)) = b_dev (bufs s i)"
    and "b_sector (f (bufs s i)) = b_sector (bufs s i)" and "b_busy (f (bufs s i)) = b_busy (bufs s i)"
  shows "holds (set_buf i f s) j x"
  using assms by (auto simp: holds_def caches_def)

lemma sector_others:
  assumes inv: "bio_inv s" and h: "holds s i sec"
  shows "sec \<notin> others b_busy s i" "sec \<notin> others b_dirty s i"
proof -
  have "j = i" if "j < NBUF" "b_busy (bufs s j) \<or> b_dirty (bufs s j)" "b_sector (bufs s j) = sec" for j
    using that bio_invD(3) [OF inv that(1)] bio_invD(4) [OF inv that(1), of i] holdsD [OF inv h]
    by (auto simp: buf_ok_def caches_def)
  then show "sec \<notin> others b_busy s i" "sec \<notin> others b_dirty s i"
    by (auto simp: others_def)
qed

lemma buf_store_ok:
  assumes inv: "bio_inv s" and h: "holds s i sec" and d: "length d = BSIZE"
  shows "wp (buf_store i d) (\<lambda>_ t. bio_to s (a_store sec d (absc s)) t) s"
proof -
  note H = holdsD [OF inv h]
  let ?t = "set_buf i (\<lambda>b. b\<lparr>b_data := d\<rparr>) s"
  have inv': "bio_inv ?t" using inv H(1)
    by (rule bio_inv_set_buf_same) (use bio_invD(3) [OF inv H(1)] d H in \<open>auto simp: buf_ok_def\<close>)
  have "view ?t = (view s)(sec := d)" using view_set_buf [OF inv inv' H(1,2)] by simp
  then have "absc ?t = a_store sec d (absc s)"
    by (intro absc_eqI) (simp_all add: a_store_def absc_set_buf H(1) a_flag_others [OF H(1), of s])
  with inv' show ?thesis by (simp add: buf_store_def bio_to_def holds_set_buf)
qed

lemma buf_set_dirty_ok:
  assumes inv: "bio_inv s" and h: "holds s i sec"
  shows "wp (buf_set_dirty i) (\<lambda>_ t. bio_to s (a_pin sec (absc s)) t) s"
proof -
  note H = holdsD [OF inv h]
  let ?t = "set_buf i (\<lambda>b. b\<lparr>b_dirty := True\<rparr>) s"
  have inv': "bio_inv ?t" using inv H(1)
    by (rule bio_inv_set_buf_same) (use bio_invD(3) [OF inv H(1)] H in \<open>auto simp: buf_ok_def\<close>)
  have "view ?t = view s" using view_set_buf [OF inv inv' H(1,2)] H(8) by (simp add: fun_upd_idem)
  then have "absc ?t = a_pin sec (absc s)"
    by (intro absc_eqI) (simp_all add: a_pin_def absc_set_buf H a_flag_others [OF H(1), of s])
  with inv' show ?thesis by (simp add: buf_set_dirty_def bio_to_def holds_set_buf)
qed

lemma bwrite_eq:
  assumes inv: "bio_inv s" and h: "holds s i sec"
  shows "bwrite i s = Ok ((), set_buf i (\<lambda>b. b\<lparr>b_dirty := False, b_valid := True\<rparr>)
     (s\<lparr>disk := (disk s)(phys_sector ROOTDEV sec := view s sec),
        wlog := wlog s @ [(phys_sector ROOTDEV sec, view s sec)]\<rparr>))"
  using holdsD [OF inv h] bio_invD(2) [OF inv]
  by (auto simp: bwrite_def kop_defs diskrw_def usb_rw_def Let_def dev_ok_def set_buf_def)

lemma bio_inv_disk:
  assumes inv: "bio_inv s" and h: "holds s i sec"
  shows "bio_inv (s\<lparr>disk := (disk s)(phys_sector ROOTDEV sec := view s sec), wlog := w\<rparr>)" (is "bio_inv ?t")
proof (rule bio_invI)
  note H = holdsD [OF inv h]
  show "\<exists>xs. mru ?t xs" using bio_invD(1) [OF inv] by (simp add: mru_def nxt_def [abs_def] prv_def [abs_def])
  show "dev_ok ?t" using bio_invD(2) [OF inv] inv by (simp add: dev_ok_def)
  fix j assume "j < NBUF"
  show "buf_ok (disk ?t) (bufs ?t j)"
  proof (cases "j = i")
    case True
    with bio_invD(3) [OF inv H(1)] H show ?thesis by (auto simp: buf_ok_def)
  next
    case False
    with bio_invD(3) [OF inv \<open>j < NBUF\<close>] bio_invD(4) [OF inv \<open>j < NBUF\<close> H(1), of sec] H(2)
    show ?thesis by (auto simp: buf_ok_def caches_def)
  qed
next
  fix j k x assume "j < NBUF" "k < NBUF" "caches ?t x j" "caches ?t x k"
  then show "j = k" using bio_invD(4) [OF inv] by (simp add: caches_def)
qed

lemma bwrite_ok:
  assumes inv: "bio_inv s" and h: "holds s i sec"
  shows "wp (bwrite i) (\<lambda>_ t. bio_to s (a_flush sec (absc s)) t) s"
proof -
  note H = holdsD [OF inv h]
  let ?u = "s\<lparr>disk := (disk s)(phys_sector ROOTDEV sec := view s sec),
     wlog := wlog s @ [(phys_sector ROOTDEV sec, view s sec)]\<rparr>"
  let ?t = "set_buf i (\<lambda>b. b\<lparr>b_dirty := False, b_valid := True\<rparr>) ?u"
  note inv_u = bio_inv_disk [OF inv h, of "wlog s @ [(phys_sector ROOTDEV sec, view s sec)]"]
  have c: "caches ?u x j = caches s x j" for x j by (simp add: caches_def)
  have inv': "bio_inv ?t" using inv_u H(1)
    by (rule bio_inv_set_buf_same) (use bio_invD(3) [OF inv_u H(1)] H in \<open>auto simp: buf_ok_def\<close>)
  have vu: "view ?u x = view s x" for x
    by (rule view_eqI [OF inv_u])
       (use c H(1,2) view_uncached [of s x] in \<open>auto simp: view_cached [OF inv] dsk_def\<close>)
  have "view ?t = view s"
    using view_set_buf [OF inv_u inv' H(1)] c H vu by (auto simp: fun_eq_iff)
  moreover have "others p ?u i = others p s i" for p by (simp add: others_def)
  moreover have "dsk ?u = (dsk s)(sec := view s sec)" by (auto simp: dsk_def fun_eq_iff)
  ultimately have "absc ?t = a_flush sec (absc s)"
    using sector_others [OF inv h]
    by (intro absc_eqI) (simp_all add: a_flush_def absc_set_buf H a_flag_others [OF H(1), of s] insert_absorb)
  moreover have "holds ?t j x" if "holds s j x" for j x
    using that by (auto simp: holds_def caches_def)
  ultimately show ?thesis using inv' by (simp add: wp_Ok [of "bwrite i", OF bwrite_eq [OF inv h]] bio_to_def)
qed

lemma mru_front_eqs:
  "caches (mru_front i s) x j = caches s x j" "others b_busy (mru_front i s) k = others b_busy s k"
  "others b_dirty (mru_front i s) k = others b_dirty s k" "dsk (mru_front i s) = dsk s"
  by (simp_all add: caches_def others_def dsk_def fun_eq_iff)

lemma bio_inv_mru_front:
  assumes inv: "bio_inv s" and i: "i < NBUF"
  shows "bio_inv (mru_front i s)"
proof (rule bio_invI)
  from bio_invD(1) [OF inv] obtain xs where xs: "mru s xs" by blast
  moreover from i mru_set [OF xs] obtain as cs where "xs = as @ i # cs"
    by (metis lessThan_iff split_list)
  ultimately show "\<exists>xs. mru (mru_front i s) xs" using mru_mru_front by blast
  show "dev_ok (mru_front i s)" using bio_invD(2) [OF inv] by (simp add: dev_ok_def)
next
  fix j assume "j < NBUF"
  from bio_invD(3) [OF inv this] show "buf_ok (disk (mru_front i s)) (bufs (mru_front i s) j)"
    by (auto simp: buf_ok_def)
next
  fix j k x assume "j < NBUF" "k < NBUF" "caches (mru_front i s) x j" "caches (mru_front i s) x k"
  then show "j = k" using bio_invD(4) [OF inv] by (simp add: mru_front_eqs)
qed

lemma view_mru_front:
  assumes inv: "bio_inv s" and i: "i < NBUF"
  shows "view (mru_front i s) x = view s x"
  by (rule view_eqI [OF bio_inv_mru_front [OF assms]])
     (use view_uncached [of s x] in \<open>auto simp: mru_front_eqs view_cached [OF inv]\<close>)

lemma brelse_ok:
  assumes inv: "bio_inv s" and h: "holds s i sec"
    and clean: "sec \<in> a_dirty (absc s) \<or> view s sec = dsk s sec"
  shows "wp (brelse i) (\<lambda>_ t. bio_to s (a_release sec (absc s)) t) s"
proof -
  note H = holdsD [OF inv h] and S = sector_others [OF inv h]
  let ?u = "mru_front i s"
  let ?t = "set_buf i (\<lambda>b. b\<lparr>b_busy := False\<rparr>) ?u"
  note inv_u = bio_inv_mru_front [OF inv H(1)]
  have "b_dirty (bufs s i) \<or> b_data (bufs s i) = dsk s sec"
    using clean S H by (auto simp: a_flag_others [OF H(1), of s] split: if_splits)
  then have inv': "bio_inv ?t" using inv_u H(1)
    by (intro bio_inv_set_buf_same) (use bio_invD(3) [OF inv H(1)] H in \<open>auto simp: buf_ok_def dsk_def\<close>)
  have "view ?t = view s"
    using view_set_buf [OF inv_u inv' H(1), of sec] H view_mru_front [OF inv H(1)]
    by (auto simp: fun_eq_iff mru_front_eqs)
  then have "absc ?t = a_release sec (absc s)" using S
    by (intro absc_eqI)
       (simp_all add: a_release_def absc_set_buf H mru_front_eqs a_flag_others [OF H(1), of s])
  moreover have "holds ?t j x" if "holds s j x" "x \<noteq> sec" for j x
    using that H by (cases "j = i") (auto simp: holds_def caches_def)
  ultimately show ?thesis using inv' H(3)
    by (auto simp: brelse_def bio_to_def a_release_def)
qed

lemma bio_inv_binit:
  assumes "dev_ok s"
    and "\<And>i. i < NBUF \<Longrightarrow> length (b_data (bufs s i)) = BSIZE \<and> \<not> b_busy (bufs s i)
           \<and> \<not> b_valid (bufs s i) \<and> \<not> b_dirty (bufs s i)"
  shows "bio_inv (binit s) \<and> absc (binit s) =
    \<lparr>a_view = dsk s, a_disk = dsk s, a_wlog = wlog s, a_busy = {}, a_dirty = {}\<rparr>"
proof -
  have r: "ROOTDEV \<noteq> - 1" by (simp add: ROOTDEV_def)
  have nc: "\<not> caches (binit s) x i" if "i < NBUF" for x i
    using that r by (simp add: caches_def)
  have inv: "bio_inv (binit s)"
  proof (rule bio_invI)
    show "\<exists>xs. mru (binit s) xs" using mru_binit by blast
    show "dev_ok (binit s)" using assms(1) by (simp add: dev_ok_def)
  next
    fix i assume "i < NBUF"
    with assms(2) r show "buf_ok (disk (binit s)) (bufs (binit s) i)" by (simp add: buf_ok_def)
  next
    fix i j x assume "i < NBUF" "caches (binit s) x i"
    with nc show "i = j" by blast
  qed
  have "view (binit s) = dsk s"
    using view_uncached [OF nc] by (auto simp: fun_eq_iff dsk_def)
  moreover have "a_busy (absc (binit s)) = {}" "a_dirty (absc (binit s)) = {}"
    using assms(2) by (auto simp: absc_def)
  ultimately have "absc (binit s)
      = \<lparr>a_view = dsk s, a_disk = dsk s, a_wlog = wlog s, a_busy = {}, a_dirty = {}\<rparr>"
    by (intro absc_eqI) (simp_all add: dsk_def fun_eq_iff)
  with inv show ?thesis by blast
qed

lemma unheld_clean:
  assumes inv: "bio_inv s" and free: "sec \<notin> a_busy (absc s)"
  shows "sec \<in> a_dirty (absc s) \<or> view s sec = dsk s sec"
proof (cases "\<exists>i<NBUF. caches s sec i")
  case True
  then obtain i where i: "i < NBUF" "caches s sec i" by blast
  with free bio_invD(3) [OF inv i(1)] view_cached [OF inv i] show ?thesis
    by (auto simp: a_busy_iff a_dirty_iff caches_def buf_ok_def dsk_def)
next
  case False
  then show ?thesis using view_uncached by blast
qed


text \<open>The invariant and the abstraction look at no more than the cache and the device.\<close>

lemma cache_cong:
  assumes "bufs t = bufs s" "disk t = disk s" "wlog t = wlog s" "usb_ready t = usb_ready s"
    and "hc_dead t = hc_dead s" "rec_panics t = rec_panics s" "dev_fails t = dev_fails s"
  shows "bio_inv t = bio_inv s" "absc t = absc s" "holds t i x = holds s i x" "dsk t = dsk s"
    "view t = view s"
proof -
  have c: "caches t y j = caches s y j" for y j using assms(1) by (simp add: caches_def)
  then have c': "caches t y = caches s y" for y by blast
  show d: "dsk t = dsk s" using assms(2) by (simp add: dsk_def fun_eq_iff)
  show v: "view t = view s" by (simp add: view_def fun_eq_iff c' d assms(1) split: option.split)
  show "absc t = absc s" unfolding absc_def v d assms ..
  show "holds t i x = holds s i x" by (simp add: holds_def c assms)
  have "mru t xs = mru s xs" for xs by (rule mru_cong) (simp_all add: nxt_def prv_def assms)
  then show "bio_inv t = bio_inv s" by (simp add: bio_inv_def dev_ok_def c assms)
qed


subsection \<open>All outcomes of a read\<close>

lemma bget_busy:
  assumes inv: "bio_inv s" and i: "i < NBUF" "caches s sec i" "b_busy (bufs s i)"
  shows "bget ROOTDEV sec s = Sleep (ChBuf i)"
proof -
  from bio_invD(1) [OF inv] obtain xs where xs: "mru s xs" by blast
  let ?f = "find (\<lambda>i. b_dev (bufs s i) = ROOTDEV \<and> b_sector (bufs s i) = sec) xs"
  have "?f = Some i"
  proof (cases ?f)
    case None
    with mru_set [OF xs] i show ?thesis by (auto simp: caches_def dest!: find_NoneD [of _ _ i])
  next
    case (Some j)
    then have "caches s sec j" "j < NBUF" using find_SomeD [OF Some] mru_set [OF xs] by (auto simp: caches_def)
    with bio_invD(4) [OF inv] i Some show ?thesis by blast
  qed
  with i show ?thesis by (simp add: bget_unfold [OF xs])
qed

lemma bget_exhausted:
  assumes inv: "bio_inv s" and miss: "\<And>i. i < NBUF \<Longrightarrow> \<not> caches s sec i"
    and full: "\<And>i. i < NBUF \<Longrightarrow> b_busy (bufs s i) \<or> b_dirty (bufs s i)"
  shows "bget ROOTDEV sec s = Panic ''bget: no buffers''"
proof -
  from bio_invD(1) [OF inv] obtain xs where xs: "mru s xs" by blast
  have "find (\<lambda>i. b_dev (bufs s i) = ROOTDEV \<and> b_sector (bufs s i) = sec) xs = None"
    using miss unfolding find_None_iff mru_set [OF xs] caches_def by blast
  moreover have "find (\<lambda>i. \<not> b_busy (bufs s i) \<and> \<not> b_dirty (bufs s i)) (rev xs) = None"
    using full unfolding find_None_iff set_rev mru_set [OF xs] by blast
  ultimately show ?thesis by (simp add: bget_unfold [OF xs])
qed

lemma no_room_full:
  assumes "bio_inv s" "\<not> card (a_busy (absc s) \<union> a_dirty (absc s)) < NBUF" "i < NBUF"
  shows "b_busy (bufs s i) \<or> b_dirty (bufs s i)"
proof (rule ccontr)
  assume i: "\<not> (b_busy (bufs s i) \<or> b_dirty (bufs s i))"
  let ?J = "{j. j < NBUF \<and> (b_busy (bufs s j) \<or> b_dirty (bufs s j))}"
  have "a_busy (absc s) \<union> a_dirty (absc s) = (\<lambda>j. b_sector (bufs s j)) ` ?J" by (auto simp: absc_def)
  then have "card (a_busy (absc s) \<union> a_dirty (absc s)) \<le> card ?J" by (simp add: card_image_le)
  also have "card ?J < card {..<NBUF}" by (rule psubset_card_mono) (use i assms(3) in auto)
  finally show False using assms(2) by simp
qed

text \<open>
  C6. The three outcomes of reading a block through the cache. \<open>bread\<close> returns only when the
  sector is not held and a buffer is available; then it hands out a buffer that holds what a
  reader of the sector must see, and changes nothing else of the abstract cache. It sleeps only
  when somebody holds the sector, on that very buffer, and it panics only when the sector is not held and
  every buffer is held or pinned by the log.
\<close>

theorem bread_outcomes:
  fixes s :: "'a bstate_scheme"
  assumes inv: "bio_inv s"
  shows "case bread ROOTDEV sec s of
      Ok (i, t) \<Rightarrow> a_room sec (absc s) \<and> bio_inv t \<and> bstate.more t = bstate.more s
        \<and> absc t = a_hold sec (absc s) \<and> holds t i sec \<and> b_data (bufs t i) = view s sec
    | Sleep c \<Rightarrow> sec \<in> a_busy (absc s) \<and> (\<exists>i. c = ChBuf i \<and> holds s i sec)
    | Panic m \<Rightarrow> sec \<notin> a_busy (absc s) \<and> NBUF \<le> card (a_busy (absc s) \<union> a_dirty (absc s))
        \<and> m = ''bget: no buffers''
    | Undef \<Rightarrow> False"
proof -
  consider "a_room sec (absc s)" | "sec \<in> a_busy (absc s)"
    | "sec \<notin> a_busy (absc s)" "\<not> a_room sec (absc s)" by blast
  then show ?thesis
  proof cases
    case 1
    from bread_ok [OF inv 1] obtain i t where t: "bread ROOTDEV sec s = Ok (i, t)"
      "bio_to s (a_hold sec (absc s)) t" "holds t i sec" by (auto simp: wp_iff)
    then have "bio_inv t" "absc t = a_hold sec (absc s)" by (simp_all add: bio_to_def)
    moreover have "b_data (bufs t i) = view s sec"
      using holdsD(8) [OF \<open>bio_inv t\<close> t(3)] abscD(1) [OF \<open>absc t = _\<close>] by (simp add: a_hold_def)
    ultimately show ?thesis using t 1 by (simp add: bio_to_def)
  next
    case 2
    then obtain i where i: "i < NBUF" "b_busy (bufs s i)" "b_sector (bufs s i) = sec"
      by (auto simp: a_busy_iff)
    with bio_invD(3) [OF inv i(1)] have "caches s sec i" by (auto simp: buf_ok_def caches_def)
    with i 2 show ?thesis
      using bget_busy [OF inv i(1) _ i(2)] by (auto simp: bread_def kbind_def holds_def)
  next
    case 3
    then have c: "\<not> card (a_busy (absc s) \<union> a_dirty (absc s)) < NBUF" "sec \<notin> a_dirty (absc s)"
      by (auto simp: a_room_def)
    note full = no_room_full [OF inv c(1)]
    have "\<not> caches s sec i" if "i < NBUF" for i
      using full [OF that] 3(1) c(2) that by (auto simp: a_busy_iff a_dirty_iff caches_def)
    with 3 c show ?thesis
      using bget_exhausted [OF inv _ full, of sec] by (simp add: bread_def kbind_def not_less)
  qed
qed

lemma bget_dev_fails:
  "bget dev sec (s\<lparr>dev_fails := F\<rparr>) = (case bget dev sec s of Ok (i, t) \<Rightarrow> Ok (i, t\<lparr>dev_fails := F\<rparr>)
     | Panic m \<Rightarrow> Panic m | Sleep c \<Rightarrow> Sleep c | Undef \<Rightarrow> Undef)"
  by (simp add: bget_def set_buf_def nxt_def [abs_def] prv_def [abs_def] split: option.split)

text \<open>
  A device error is not reported to the reader: when both attempts to read a sector that is
  not cached fail, \<open>bread\<close> returns a buffer all the same, locked and bound to the sector, not marked
  valid, with whatever the transfer left in it; unless the reset of the device between the attempts panics.
\<close>

theorem bread_device_error:
  fixes s :: "'a bstate_scheme"
  assumes "bio_inv s" "\<And>j. j < NBUF \<Longrightarrow> \<not> caches s sec j"
    and "card (a_busy (absc s) \<union> a_dirty (absc s)) < NBUF"
  shows "if rec_panics s then
      bread ROOTDEV sec (s\<lparr>dev_fails := (dev_fails s)(phys_sector ROOTDEV sec := (\<lambda>_. True))\<rparr>) = Panic ''usb: recover failed after EHCI reset''
    else \<exists>i t. bread ROOTDEV sec (s\<lparr>dev_fails := (dev_fails s)(phys_sector ROOTDEV sec := (\<lambda>_. True))\<rparr>) = Ok (i, t)
      \<and> holds t i sec \<and> \<not> b_valid (bufs t i)
      \<and> b_data (bufs t i) = dev_junk s (phys_sector ROOTDEV sec) (b_data (bufs s i))"
proof -
  let ?F = "(dev_fails s)(phys_sector ROOTDEV sec := (\<lambda>_. True))"
  from bget_miss [OF assms] obtain i where i: "i < NBUF"
    and g: "bget ROOTDEV sec s = Ok (i, set_buf i (\<lambda>b. b\<lparr>b_dev := ROOTDEV, b_sector := sec,
        b_busy := True, b_valid := False, b_dirty := False\<rparr>) s)" by metis
  show ?thesis
    using i bio_invD(2) [OF assms(1)]
    by (simp add: bread_def kop_defs bget_dev_fails g diskrw_def usb_rw_def Let_def dev_ok_def holds_def caches_def)
qed

text \<open>A machine with a blank disk whose buffer cache has just been initialised.\<close>

definition demo_buf :: buf where
  "demo_buf = \<lparr>b_busy = False, b_valid = False, b_dirty = False, b_dev = 0, b_sector = 0,
     b_prev = 0, b_next = 0, b_data = replicate BSIZE 0\<rparr>"

definition demo_bio :: bstate where
  "demo_bio = binit \<lparr>disk = (\<lambda>_. replicate BSIZE 0), wlog = [], usb_ready = True, hc_dead = False, rec_panics = False,
     dev_fails = (\<lambda>_ _. False), dev_junk = (\<lambda>_ d. d), dev_torn = (\<lambda>_ d _. d), bufs = (\<lambda>_. demo_buf)\<rparr>"

lemma demo_bio_facts:
  "bio_inv demo_bio" "a_busy (absc demo_bio) = {}" "a_dirty (absc demo_bio) = {}"
  "i < NBUF \<Longrightarrow> \<not> caches demo_bio sec i"
proof -
  let ?r = "\<lparr>disk = (\<lambda>_. replicate BSIZE 0), wlog = [], usb_ready = True, hc_dead = False, rec_panics = False,
     dev_fails = (\<lambda>_ _. False), dev_junk = (\<lambda>_ d. d), dev_torn = (\<lambda>_ d _. d), bufs = (\<lambda>_. demo_buf)\<rparr> :: bstate"
  from bio_inv_binit [of ?r] show "bio_inv demo_bio" "a_busy (absc demo_bio) = {}" "a_dirty (absc demo_bio) = {}"
    by (simp_all add: dev_ok_def demo_buf_def demo_bio_def)
  show "i < NBUF \<Longrightarrow> \<not> caches demo_bio sec i"
    by (simp add: caches_def demo_bio_def ROOTDEV_def)
qed

theorem bread_outcomes_witness:
  "bio_inv demo_bio \<and> (case bread ROOTDEV 5 demo_bio of
      Ok (i, t) \<Rightarrow> a_room 5 (absc demo_bio) \<and> bio_inv t \<and> bstate.more t = bstate.more demo_bio
        \<and> absc t = a_hold 5 (absc demo_bio) \<and> holds t i 5 \<and> b_data (bufs t i) = view demo_bio 5
    | Sleep c \<Rightarrow> 5 \<in> a_busy (absc demo_bio) \<and> (\<exists>i. c = ChBuf i \<and> holds demo_bio i 5)
    | Panic m \<Rightarrow> 5 \<notin> a_busy (absc demo_bio) \<and> NBUF \<le> card (a_busy (absc demo_bio) \<union> a_dirty (absc demo_bio))
        \<and> m = ''bget: no buffers''
    | Undef \<Rightarrow> False)"
  using bread_outcomes [OF demo_bio_facts(1), of 5] demo_bio_facts(1) by (rule conjI [rotated])

subsection \<open>The interface of the block cache\<close>

text \<open>
  What the log and the file system rely on: the operations on blocks, an invariant, the abstract
  cache \<open>abs\<close> and the laws that relate them. \<open>rest\<close> is the part of the kernel state the cache does
  not own. The lemmas of the locale are the access patterns of the clients: a block is read and
  released, overwritten and written through, or copied.
\<close>

locale block_cache =
  fixes rd :: "u32 \<Rightarrow> ('s, nat) kop"
    and data :: "nat \<Rightarrow> ('s, bytes) kop"
    and store :: "nat \<Rightarrow> bytes \<Rightarrow> ('s, unit) kop"
    and pin :: "nat \<Rightarrow> ('s, unit) kop"
    and wr :: "nat \<Rightarrow> ('s, unit) kop"
    and rel :: "nat \<Rightarrow> ('s, unit) kop"
    and inv :: "'s \<Rightarrow> bool"
    and abs :: "'s \<Rightarrow> acache"
    and held :: "'s \<Rightarrow> nat \<Rightarrow> u32 \<Rightarrow> bool"
    and upto :: "'s \<Rightarrow> acache \<Rightarrow> 's \<Rightarrow> bool"
    and rest :: "'s \<Rightarrow> 'm"
  assumes upto_law: "upto s A t \<Longrightarrow> inv t \<and> rest t = rest s \<and> abs t = A"
    and upto_held: "upto s A t \<Longrightarrow> held s i x \<Longrightarrow> x \<in> a_busy A \<Longrightarrow> held t i x"
    and rd_law: "inv s \<Longrightarrow> a_room x (abs s) \<Longrightarrow> wp (rd x) (\<lambda>i t. upto s (a_hold x (abs s)) t \<and> held t i x) s"
    and data_law: "inv s \<Longrightarrow> held s i x \<Longrightarrow> data i s = Ok (a_view (abs s) x, s)"
    and store_law: "inv s \<Longrightarrow> held s i x \<Longrightarrow> length d = BSIZE \<Longrightarrow>
          wp (store i d) (\<lambda>_ t. upto s (a_store x d (abs s)) t) s"
    and pin_law: "inv s \<Longrightarrow> held s i x \<Longrightarrow> wp (pin i) (\<lambda>_ t. upto s (a_pin x (abs s)) t) s"
    and wr_law: "inv s \<Longrightarrow> held s i x \<Longrightarrow> wp (wr i) (\<lambda>_ t. upto s (a_flush x (abs s)) t) s"
    and rel_law: "inv s \<Longrightarrow> held s i x \<Longrightarrow> x \<in> a_dirty (abs s) \<or> a_view (abs s) x = a_disk (abs s) x \<Longrightarrow>
          wp (rel i) (\<lambda>_ t. upto s (a_release x (abs s)) t) s"
    and len_law: "inv s \<Longrightarrow> length (a_view (abs s) x) = BSIZE"
    and held_busy: "inv s \<Longrightarrow> held s i x \<Longrightarrow> x \<in> a_busy (abs s)"
    and clean_law: "inv s \<Longrightarrow> x \<notin> a_busy (abs s) \<Longrightarrow>
          x \<in> a_dirty (abs s) \<or> a_view (abs s) x = a_disk (abs s) x"
begin

text \<open>The laws as rules for symbolic execution.\<close>

lemma rd_rule:
  assumes "inv s" "a_room x (abs s)"
    and "\<And>i t. inv t \<Longrightarrow> rest t = rest s \<Longrightarrow> abs t = a_hold x (abs s) \<Longrightarrow> held t i x \<Longrightarrow>
      (\<And>j y. held s j y \<Longrightarrow> held t j y) \<Longrightarrow> Q i t"
  shows "wp (rd x) Q s"
  using rd_law [OF assms(1,2)]
proof (rule wp_mono)
  fix i t assume *: "upto s (a_hold x (abs s)) t \<and> held t i x"
  then show "Q i t"
    using upto_law upto_held held_busy [OF assms(1)] by (intro assms(3)) (auto simp: a_hold_def)
qed

lemma data_rule: "inv s \<Longrightarrow> held s i x \<Longrightarrow> Q (a_view (abs s) x) s \<Longrightarrow> wp (data i) Q s"
  by (simp add: wp_def data_law)

lemma store_rule:
  assumes "inv s" "held s i x" "length d = BSIZE"
    and "\<And>t. inv t \<Longrightarrow> rest t = rest s \<Longrightarrow> abs t = a_store x d (abs s) \<Longrightarrow>
      (\<And>j y. held s j y \<Longrightarrow> held t j y) \<Longrightarrow> Q () t"
  shows "wp (store i d) Q s"
  using store_law [OF assms(1-3)]
proof (rule wp_mono)
  fix a t assume *: "upto s (a_store x d (abs s)) t"
  then show "Q a t"
    using upto_law upto_held held_busy [OF assms(1)] by (auto simp: a_store_def intro!: assms(4))
qed

lemma pin_rule:
  assumes "inv s" "held s i x"
    and "\<And>t. inv t \<Longrightarrow> rest t = rest s \<Longrightarrow> abs t = a_pin x (abs s) \<Longrightarrow>
      (\<And>j y. held s j y \<Longrightarrow> held t j y) \<Longrightarrow> Q () t"
  shows "wp (pin i) Q s"
  using pin_law [OF assms(1,2)]
proof (rule wp_mono)
  fix a t assume *: "upto s (a_pin x (abs s)) t"
  then show "Q a t"
    using upto_law upto_held held_busy [OF assms(1)] by (auto simp: a_pin_def intro!: assms(3))
qed

lemma wr_rule:
  assumes "inv s" "held s i x"
    and "\<And>t. inv t \<Longrightarrow> rest t = rest s \<Longrightarrow> abs t = a_flush x (abs s) \<Longrightarrow>
      (\<And>j y. held s j y \<Longrightarrow> held t j y) \<Longrightarrow> Q () t"
  shows "wp (wr i) Q s"
  using wr_law [OF assms(1,2)]
proof (rule wp_mono)
  fix a t assume *: "upto s (a_flush x (abs s)) t"
  then show "Q a t"
    using upto_law upto_held held_busy [OF assms(1)] by (auto simp: a_flush_def intro!: assms(3))
qed

lemma rel_rule:
  assumes "inv s" "held s i x" "x \<in> a_dirty (abs s) \<or> a_view (abs s) x = a_disk (abs s) x"
    and "\<And>t. inv t \<Longrightarrow> rest t = rest s \<Longrightarrow> abs t = a_release x (abs s) \<Longrightarrow>
      (\<And>j y. held s j y \<Longrightarrow> y \<noteq> x \<Longrightarrow> held t j y) \<Longrightarrow> Q () t"
  shows "wp (rel i) Q s"
  using rel_law [OF assms(1-3)]
proof (rule wp_mono)
  fix a t assume *: "upto s (a_release x (abs s)) t"
  then show "Q a t"
    using upto_law upto_held held_busy [OF assms(1)] by (auto simp: a_release_def intro!: assms(4))
qed

text \<open>A block is read and released: the cache is as before.\<close>

lemma read_block:
  assumes "inv s" "a_room x (abs s)"
    and "\<And>i t. inv t \<Longrightarrow> rest t = rest s \<Longrightarrow> abs t = abs s \<Longrightarrow>
      (\<And>j y. held s j y \<Longrightarrow> held t j y) \<Longrightarrow> Q i (a_view (abs s) x) t"
  shows "wp (rd x) (\<lambda>i. wp (data i) (\<lambda>d. wp (rel i) (\<lambda>_. Q i d))) s"
proof (rule rd_rule [OF assms(1,2)])
  fix i t
  assume t: "inv t" "rest t = rest s" "abs t = a_hold x (abs s)" "held t i x"
    and h: "\<And>j y. held s j y \<Longrightarrow> held t j y"
  have x: "x \<notin> a_busy (abs s)" using assms(2) by (simp add: a_room_def)
  show "wp (data i) (\<lambda>d. wp (rel i) (\<lambda>_. Q i d)) t"
  proof (rule data_rule [OF t(1,4)], rule rel_rule [OF t(1,4)])
    show "x \<in> a_dirty (abs t) \<or> a_view (abs t) x = a_disk (abs t) x"
      using clean_law [OF assms(1) x] by (simp add: t a_hold_def)
  next
    fix u
    assume u: "inv u" "rest u = rest t" "abs u = a_release x (abs t)"
      and h': "\<And>j y. held t j y \<Longrightarrow> y \<noteq> x \<Longrightarrow> held u j y"
    have "abs u = abs s" using u t x by (simp add: a_release_def a_hold_def)
    moreover have "held u j y" if "held s j y" for j y
      using h' [OF h [OF that]] held_busy [OF assms(1) that] x by blast
    ultimately show "Q i (a_view (abs t) x) u" using assms(3) u t by (simp add: a_hold_def)
  qed
qed

text \<open>A block is overwritten and written through.\<close>

lemma write_block:
  assumes "inv s" "a_room x (abs s)" "length (f (a_view (abs s) x)) = BSIZE"
    and "\<And>i d t. inv t \<Longrightarrow> rest t = rest s \<Longrightarrow> abs t = a_flush x (a_store x (f (a_view (abs s) x)) (abs s)) \<Longrightarrow>
      (\<And>j y. held s j y \<Longrightarrow> held t j y) \<Longrightarrow> Q i d t"
  shows "wp (rd x) (\<lambda>i. wp (data i) (\<lambda>d. wp (store i (f d)) (\<lambda>_. wp (wr i) (\<lambda>_. wp (rel i) (\<lambda>_. Q i d))))) s"
proof (rule rd_rule [OF assms(1,2)])
  fix i t
  assume t: "inv t" "rest t = rest s" "abs t = a_hold x (abs s)" "held t i x"
    and h: "\<And>j y. held s j y \<Longrightarrow> held t j y"
  have x: "x \<notin> a_busy (abs s)" using assms(2) by (simp add: a_room_def)
  have l: "length (f (a_view (abs t) x)) = BSIZE" using assms(3) by (simp add: t a_hold_def)
  show "wp (data i) (\<lambda>d. wp (store i (f d)) (\<lambda>_. wp (wr i) (\<lambda>_. wp (rel i) (\<lambda>_. Q i d)))) t"
  proof (rule data_rule [OF t(1,4)], rule store_rule [OF t(1,4) l])
    fix u assume u: "inv u" "rest u = rest t" "abs u = a_store x (f (a_view (abs t) x)) (abs t)"
      and hu: "\<And>j y. held t j y \<Longrightarrow> held u j y"
    show "wp (wr i) (\<lambda>_. wp (rel i) (\<lambda>_. Q i (a_view (abs t) x))) u"
    proof (rule wr_rule [OF u(1) hu [OF t(4)]])
      fix v assume v: "inv v" "rest v = rest u" "abs v = a_flush x (abs u)"
        and hv: "\<And>j y. held u j y \<Longrightarrow> held v j y"
      show "wp (rel i) (\<lambda>_. Q i (a_view (abs t) x)) v"
      proof (rule rel_rule [OF v(1) hv [OF hu [OF t(4)]]])
        show "x \<in> a_dirty (abs v) \<or> a_view (abs v) x = a_disk (abs v) x"
          by (simp add: v a_flush_def)
      next
        fix w assume w: "inv w" "rest w = rest v" "abs w = a_release x (abs v)"
          and hw: "\<And>j y. held v j y \<Longrightarrow> y \<noteq> x \<Longrightarrow> held w j y"
        have "abs w = a_flush x (a_store x (f (a_view (abs s) x)) (abs s))"
          using x by (simp add: w v u t a_defs)
        moreover have "held w j y" if "held s j y" for j y
          using hw [OF hv [OF hu [OF h [OF that]]]] held_busy [OF assms(1) that] x by blast
        ultimately show "Q i (a_view (abs t) x) w" using assms(4) w v u t by simp
      qed
    qed
  qed
qed

text \<open>A block the client holds is copied to another block, which is written through.\<close>

lemma save_block:
  assumes "inv s" "held s b y" "a_room x (abs s)"
    and "\<And>i t. inv t \<Longrightarrow> rest t = rest s \<Longrightarrow> abs t = a_flush x (a_store x (a_view (abs s) y) (abs s)) \<Longrightarrow>
      (\<And>j z. held s j z \<Longrightarrow> held t j z) \<Longrightarrow> Q i (a_view (abs s) y) t"
  shows "wp (rd x) (\<lambda>i. wp (data b) (\<lambda>d. wp (store i d) (\<lambda>_. wp (wr i) (\<lambda>_. wp (rel i) (\<lambda>_. Q i d))))) s"
proof (rule rd_rule [OF assms(1,3)])
  fix i t
  assume t: "inv t" "rest t = rest s" "abs t = a_hold x (abs s)" "held t i x"
    and h: "\<And>j z. held s j z \<Longrightarrow> held t j z"
  have x: "x \<notin> a_busy (abs s)" using assms(3) by (simp add: a_room_def)
  show "wp (data b) (\<lambda>d. wp (store i d) (\<lambda>_. wp (wr i) (\<lambda>_. wp (rel i) (\<lambda>_. Q i d)))) t"
  proof (rule data_rule [OF t(1) h [OF assms(2)]], rule store_rule [OF t(1,4) len_law [OF t(1)]])
    fix u assume u: "inv u" "rest u = rest t" "abs u = a_store x (a_view (abs t) y) (abs t)"
      and hu: "\<And>j z. held t j z \<Longrightarrow> held u j z"
    show "wp (wr i) (\<lambda>_. wp (rel i) (\<lambda>_. Q i (a_view (abs t) y))) u"
    proof (rule wr_rule [OF u(1) hu [OF t(4)]])
      fix v assume v: "inv v" "rest v = rest u" "abs v = a_flush x (abs u)"
        and hv: "\<And>j z. held u j z \<Longrightarrow> held v j z"
      show "wp (rel i) (\<lambda>_. Q i (a_view (abs t) y)) v"
      proof (rule rel_rule [OF v(1) hv [OF hu [OF t(4)]]])
        show "x \<in> a_dirty (abs v) \<or> a_view (abs v) x = a_disk (abs v) x"
          by (simp add: v a_flush_def)
      next
        fix w assume w: "inv w" "rest w = rest v" "abs w = a_release x (abs v)"
          and hw: "\<And>j z. held v j z \<Longrightarrow> z \<noteq> x \<Longrightarrow> held w j z"
        have "abs w = a_flush x (a_store x (a_view (abs s) y) (abs s))"
          using x by (simp add: w v u t a_defs)
        moreover have "held w j z" if "held s j z" for j z
          using hw [OF hv [OF hu [OF h [OF that]]]] held_busy [OF assms(1) that] x by blast
        ultimately show "Q i (a_view (abs t) y) w"
          using assms(4) w v u t by (simp add: a_hold_def)
      qed
    qed
  qed
qed

text \<open>One block is copied over another, as the log does when it installs a transaction.\<close>

lemma copy_block:
  assumes "inv s" "a_room x (abs s)" "a_room y (a_hold x (abs s))"
    and "\<And>i j t. inv t \<Longrightarrow> rest t = rest s \<Longrightarrow> abs t = a_flush y (a_store y (a_view (abs s) x) (abs s)) \<Longrightarrow>
      (\<And>k z. held s k z \<Longrightarrow> held t k z) \<Longrightarrow> Q i j (a_view (abs s) x) t"
  shows "wp (rd x) (\<lambda>i. wp (rd y) (\<lambda>j. wp (data i) (\<lambda>d. wp (store j d) (\<lambda>_. wp (wr j) (\<lambda>_.
    wp (rel i) (\<lambda>_. wp (rel j) (\<lambda>_. Q i j d))))))) s"
proof (rule rd_rule [OF assms(1,2)])
  fix i t
  assume t: "inv t" "rest t = rest s" "abs t = a_hold x (abs s)" "held t i x"
    and h: "\<And>j z. held s j z \<Longrightarrow> held t j z"
  have x: "x \<notin> a_busy (abs s)" "y \<notin> a_busy (abs s)" "x \<noteq> y"
    using assms(2,3) by (auto simp: a_room_def a_hold_def)
  show "wp (rd y) (\<lambda>j. wp (data i) (\<lambda>d. wp (store j d) (\<lambda>_. wp (wr j) (\<lambda>_.
    wp (rel i) (\<lambda>_. wp (rel j) (\<lambda>_. Q i j d)))))) t"
  proof (rule rd_rule [OF t(1)], simp add: t assms(3))
    fix j u
    assume u: "inv u" "rest u = rest t" "abs u = a_hold y (abs t)" "held u j y"
      and hu: "\<And>k z. held t k z \<Longrightarrow> held u k z"
    show "wp (data i) (\<lambda>d. wp (store j d) (\<lambda>_. wp (wr j) (\<lambda>_. wp (rel i) (\<lambda>_. wp (rel j) (\<lambda>_. Q i j d))))) u"
    proof (rule data_rule [OF u(1) hu [OF t(4)]], rule store_rule [OF u(1,4) len_law [OF u(1)]],
        rule wr_rule, assumption, blast intro: u(4))
      fix v w
      assume v: "inv v" "rest v = rest u" "abs v = a_store y (a_view (abs u) x) (abs u)"
        and hv: "\<And>k z. held u k z \<Longrightarrow> held v k z"
        and w: "inv w" "rest w = rest v" "abs w = a_flush y (abs v)"
        and hw: "\<And>k z. held v k z \<Longrightarrow> held w k z"
      note cl = clean_law [OF assms(1) x(1)]
      show "wp (rel i) (\<lambda>_. wp (rel j) (\<lambda>_. Q i j (a_view (abs u) x))) w"
      proof (rule rel_rule [OF w(1) hw [OF hv [OF hu [OF t(4)]]]])
        show "x \<in> a_dirty (abs w) \<or> a_view (abs w) x = a_disk (abs w) x"
          using cl x(3) by (auto simp: w v u t a_defs)
      next
        fix p assume p: "inv p" "rest p = rest w" "abs p = a_release x (abs w)"
          and hp: "\<And>k z. held w k z \<Longrightarrow> z \<noteq> x \<Longrightarrow> held p k z"
        show "wp (rel j) (\<lambda>_. Q i j (a_view (abs u) x)) p"
        proof (rule rel_rule [OF p(1) hp [OF hw [OF hv [OF u(4)]]]], use x in simp)
          show "y \<in> a_dirty (abs p) \<or> a_view (abs p) y = a_disk (abs p) y"
            by (simp add: p w a_defs)
        next
          fix q assume q: "inv q" "rest q = rest p" "abs q = a_release y (abs p)"
            and hq: "\<And>k z. held p k z \<Longrightarrow> z \<noteq> y \<Longrightarrow> held q k z"
          have "abs q = a_flush y (a_store y (a_view (abs s) x) (abs s))"
            by (intro acache.equality) (use x in \<open>auto simp: q p w v u t a_defs\<close>)
          moreover have "held q k z" if "held s k z" for k z
            using hq [OF hp [OF hw [OF hv [OF hu [OF h [OF that]]]]]] held_busy [OF assms(1) that] x
            by blast
          ultimately show "Q i j (a_view (abs u) x) q"
            using assms(4) q p w v u t by (simp add: a_hold_def)
        qed
      qed
    qed
  qed
qed

end

interpretation bc: block_cache "bread ROOTDEV" buf_data buf_store buf_set_dirty bwrite brelse
    bio_inv absc holds bio_to bstate.more
proof unfold_locales
  fix s t :: "'a bstate_scheme" and A x i d
  show "bio_to s A t \<Longrightarrow> bio_inv t \<and> bstate.more t = bstate.more s \<and> absc t = A"
    by (simp add: bio_to_def)
  show "bio_to s A t \<Longrightarrow> holds s i x \<Longrightarrow> x \<in> a_busy A \<Longrightarrow> holds t i x"
    by (auto simp: bio_to_def)
  show "bio_inv s \<Longrightarrow> holds s i x \<Longrightarrow> buf_data i s = Ok (a_view (absc s) x, s)"
    using holdsD [of s i x] by (simp add: buf_data_def kget_def)
  show "bio_inv s \<Longrightarrow> holds s i x \<Longrightarrow> x \<in> a_dirty (absc s) \<or> a_view (absc s) x = a_disk (absc s) x \<Longrightarrow>
      wp (brelse i) (\<lambda>_ t. bio_to s (a_release x (absc s)) t) s"
    by (rule brelse_ok) simp_all
  show "bio_inv s \<Longrightarrow> x \<notin> a_busy (absc s) \<Longrightarrow>
      x \<in> a_dirty (absc s) \<or> a_view (absc s) x = a_disk (absc s) x"
    using unheld_clean [of s x] by simp
  show "bio_inv s \<Longrightarrow> length (a_view (absc s) x) = BSIZE" by simp
qed (simp_all add: bread_ok buf_store_ok buf_set_dirty_ok bwrite_ok holdsD(9))

end
