(* ===== verification/Log.thy ===== *)
theory Log
  imports Bio
begin

section \<open>The write-ahead log (\<open>kernel/log.c\<close>)\<close>

text \<open>
  The kernel's single transaction log: \<open>log_write\<close> copies a modified block into the log area at the
  end of the disk and pins its buffer, \<open>commit_trans\<close> writes the header (the commit point), copies
  the logged blocks home and erases the header, \<open>recover_from_log\<close> repeats the copying after a
  crash. The theory shows that commit is atomic with respect to a crash between any two sector
  writes, and that recovery may itself be interrupted and repeated.
  The C type \<open>int\<close> of \<open>n\<close> and \<open>size\<close> is \<open>int\<close> here, read from the disk with its sign.
\<close>

definition LOGSIZE :: nat where "LOGSIZE = 10"

record logrec =
  lg_start :: u32
  lg_size :: int
  lg_busy :: bool
  lg_dev :: u32
  lh_n :: int
  lh_sector :: "u32 list"

record lstate = bstate +
  klog :: logrec

definition set_log :: "(logrec \<Rightarrow> logrec) \<Rightarrow> 'a lstate_scheme \<Rightarrow> 'a lstate_scheme" where
  "set_log f s = s\<lparr>klog := f (klog s)\<rparr>"

record superblock =
  sb_size :: u32
  sb_nblocks :: u32
  sb_ninodes :: u32
  sb_nlog :: u32

definition sb_of :: "bytes \<Rightarrow> superblock" where
  "sb_of d = \<lparr>sb_size = get32 d 0, sb_nblocks = get32 d 4, sb_ninodes = get32 d 8, sb_nlog = get32 d 12\<rparr>"

definition readsb :: "u32 \<Rightarrow> ('a bstate_scheme, superblock) kop" where
  "readsb dev =
     kbind (bread dev 1) (\<lambda>bp.
     kbind (buf_data bp) (\<lambda>d.
     kthen (brelse bp)
     (kreturn (sb_of d))))"


subsection \<open>Operations\<close>

text \<open>One iteration of \<open>install_trans\<close>; an index outside \<open>lh.sector\<close> is undefined.\<close>

definition install_one :: "nat \<Rightarrow> ('a lstate_scheme, unit) kop" where
  "install_one tail =
     kbind (kget klog) (\<lambda>lg.
     if LOGSIZE \<le> tail then kundef else
     kbind (bread (lg_dev lg) (lg_start lg + of_nat tail + 1)) (\<lambda>lbuf.
     kbind (bread (lg_dev lg) (lh_sector lg ! tail)) (\<lambda>dbuf.
     kbind (buf_data lbuf) (\<lambda>d.
     kthen (buf_store dbuf d)
     (kthen (bwrite dbuf)
     (kthen (brelse lbuf)
     (brelse dbuf)))))))"

primrec install_loop :: "nat \<Rightarrow> nat \<Rightarrow> ('a lstate_scheme, unit) kop" where
  "install_loop 0 tail = kreturn ()"
| "install_loop (Suc k) tail = kthen (install_one tail) (install_loop k (tail + 1))"

definition install_trans :: "('a lstate_scheme, unit) kop" where
  "install_trans = kbind (kget klog) (\<lambda>lg. install_loop (nat (lh_n lg)) 0)"

definition head_n :: "bytes \<Rightarrow> int" where
  "head_n d = sint (get32 d 0)"

definition head_sector :: "bytes \<Rightarrow> nat \<Rightarrow> u32" where
  "head_sector d i = get32 d (4 + 4 * i)"

definition read_head :: "('a lstate_scheme, unit) kop" where
  "read_head =
     kbind (kget klog) (\<lambda>lg.
     kbind (bread (lg_dev lg) (lg_start lg)) (\<lambda>b.
     kbind (buf_data b) (\<lambda>d.
     if int LOGSIZE < head_n d then kundef else
     kthen (kmod (set_log (\<lambda>l. l\<lparr>lh_n := head_n d, lh_sector :=
        map (head_sector d) [0..<nat (head_n d)] @ drop (nat (head_n d)) (lh_sector l)\<rparr>)))
     (brelse b))))"

text \<open>The header block after \<open>hb->n = n\<close> and the loop over \<open>hb->sector[i]\<close>.\<close>

primrec put_sectors :: "u32 list \<Rightarrow> nat \<Rightarrow> bytes \<Rightarrow> bytes" where
  "put_sectors [] i d = d"
| "put_sectors (x # xs) i d = put_sectors xs (i + 1) (put32 d (4 + 4 * i) x)"

definition put_head :: "int \<Rightarrow> u32 list \<Rightarrow> bytes \<Rightarrow> bytes" where
  "put_head n secs d = put_sectors (take (nat n) secs) 0 (put32 d 0 (word_of_int n))"

definition write_head :: "('a lstate_scheme, unit) kop" where
  "write_head =
     kbind (kget klog) (\<lambda>lg.
     kbind (bread (lg_dev lg) (lg_start lg)) (\<lambda>b.
     kbind (buf_data b) (\<lambda>d.
     if int LOGSIZE < lh_n lg then kundef else
     kthen (buf_store b (put_head (lh_n lg) (lh_sector lg) d))
     (kthen (bwrite b)
     (brelse b)))))"

definition recover_from_log :: "('a lstate_scheme, unit) kop" where
  "recover_from_log =
     kthen read_head
     (kthen install_trans
     (kthen (kmod (set_log (\<lambda>l. l\<lparr>lh_n := 0\<rparr>)))
     write_head))"

definition initlog :: "('a lstate_scheme, unit) kop" where
  "initlog =
     (if BSIZE \<le> 4 + 4 * LOGSIZE then kpanic ''initlog: too big logheader'' else
     kbind (readsb ROOTDEV) (\<lambda>sb.
     kthen (kmod (set_log (\<lambda>l. l\<lparr>lg_start := sb_size sb - sb_nlog sb,
                                 lg_size := sint (sb_nlog sb), lg_dev := ROOTDEV\<rparr>)))
     recover_from_log))"

definition begin_trans :: "('a lstate_scheme, unit) kop" where
  "begin_trans =
     kbind (kget klog) (\<lambda>lg.
     if lg_busy lg then ksleep ChLog
     else kmod (set_log (\<lambda>l. l\<lparr>lg_busy := True\<rparr>)))"

definition commit_trans :: "('a lstate_scheme, unit) kop" where
  "commit_trans =
     kbind (kget klog) (\<lambda>lg.
     kthen (kwhen (0 < lh_n lg)
       (kthen write_head
       (kthen install_trans
       (kthen (kmod (set_log (\<lambda>l. l\<lparr>lh_n := 0\<rparr>)))
       write_head))))
     (kmod (set_log (\<lambda>l. l\<lparr>lg_busy := False\<rparr>))))"

text \<open>The slot of a sector in the log: its old one (absorption) or the next free one.\<close>

definition log_slot :: "u32 \<Rightarrow> u32 list \<Rightarrow> nat" where
  "log_slot x secs = length (takeWhile (\<lambda>y. y \<noteq> x) secs)"

definition log_write :: "nat \<Rightarrow> ('a lstate_scheme, unit) kop" where
  "log_write b =
     kbind (kget klog) (\<lambda>lg.
     if int LOGSIZE \<le> lh_n lg \<or> lg_size lg - 1 \<le> lh_n lg then kpanic ''too big a transaction'' else
     if \<not> lg_busy lg then kpanic ''write outside of trans'' else
     kbind (kget (\<lambda>s. bufs s b)) (\<lambda>bb.
     let i = log_slot (b_sector bb) (take (nat (lh_n lg)) (lh_sector lg)) in
     kthen (kmod (set_log (\<lambda>l. l\<lparr>lh_sector := (lh_sector l)[i := b_sector bb]\<rparr>)))
     (kbind (bread (b_dev bb) (lg_start lg + of_nat i + 1)) (\<lambda>lbuf.
     kbind (buf_data b) (\<lambda>d.
     kthen (buf_store lbuf d)
     (kthen (bwrite lbuf)
     (kthen (brelse lbuf)
     (kthen (kwhen (int i = lh_n lg) (kmod (set_log (\<lambda>l. l\<lparr>lh_n := lh_n l + 1\<rparr>))))
     (buf_set_dirty b)))))))))"


subsection \<open>Sequences of sector writes\<close>

text \<open>The device after a sequence of sector writes; a crash keeps a prefix of it.\<close>

definition apply_writes :: "(u32 \<times> bytes) list \<Rightarrow> (u32 \<Rightarrow> bytes) \<Rightarrow> u32 \<Rightarrow> bytes" where
  "apply_writes ws D = fold (\<lambda>(x, d) D. D(x := d)) ws D"

definition phys_writes :: "(u32 \<times> bytes) list \<Rightarrow> (u32 \<times> bytes) list" where
  "phys_writes ws = map (\<lambda>(x, d). (phys_sector ROOTDEV x, d)) ws"

lemma apply_writes_simps [simp]:
  "apply_writes [] D = D"
  "apply_writes ((x, d) # ws) D = apply_writes ws (D(x := d))"
  "apply_writes (ws @ vs) D = apply_writes vs (apply_writes ws D)"
  by (simp_all add: apply_writes_def)

lemma apply_writes_other: "x \<notin> fst ` set ws \<Longrightarrow> apply_writes ws D x = D x"
  by (induction ws arbitrary: D) auto

lemma apply_writes_same:
  "distinct (map fst ws) \<Longrightarrow> (x, d) \<in> set ws \<Longrightarrow> apply_writes ws D x = d"
proof (induction ws arbitrary: D)
  case (Cons w ws)
  then show ?case
    by (cases w) (auto simp: apply_writes_other)
qed simp

lemma apply_writes_cong:
  "D x = E x \<Longrightarrow> apply_writes ws D x = apply_writes ws E x"
proof (induction ws arbitrary: D E)
  case (Cons w ws)
  obtain a b where w: "w = (a, b)" by (cases w)
  have "(D(a := b)) x = (E(a := b)) x" using Cons.prems by simp
  from Cons.IH [of "D(a := b)" "E(a := b)", OF this] show ?case unfolding w apply_writes_simps .
qed simp

lemma apply_phys_writes:
  "apply_writes (phys_writes ws) D (phys_sector ROOTDEV x)
     = apply_writes ws (\<lambda>y. D (phys_sector ROOTDEV y)) x"
proof (induction ws arbitrary: D)
  case (Cons w ws)
  obtain a b where w: "w = (a, b)" by (cases w)
  have u: "(\<lambda>y. (D(phys_sector ROOTDEV a := b)) (phys_sector ROOTDEV y))
      = (\<lambda>y. D (phys_sector ROOTDEV y))(a := b)"
    by (auto simp: fun_eq_iff)
  have p: "phys_writes ((a, b) # ws) = (phys_sector ROOTDEV a, b) # phys_writes ws"
    by (simp add: phys_writes_def)
  show ?case unfolding w p apply_writes_simps Cons.IH u ..
qed (simp add: phys_writes_def)

text \<open>Write-through of one block and of a sequence of blocks, on the abstract cache.\<close>

definition a_wt :: "u32 \<Rightarrow> bytes \<Rightarrow> acache \<Rightarrow> acache" where
  "a_wt x d A = a_flush x (a_store x d A)"

definition a_writes :: "(u32 \<times> bytes) list \<Rightarrow> acache \<Rightarrow> acache" where
  "a_writes ws A = fold (\<lambda>(x, d). a_wt x d) ws A"

lemma a_writes_simps [simp]:
  "a_writes [] A = A"
  "a_writes ((x, d) # ws) A = a_writes ws (a_wt x d A)"
  "a_writes (ws @ vs) A = a_writes vs (a_writes ws A)"
  by (simp_all add: a_writes_def)

lemma a_wt_sel [simp]:
  "a_view (a_wt x d A) = (a_view A)(x := d)" "a_disk (a_wt x d A) = (a_disk A)(x := d)"
  "a_wlog (a_wt x d A) = a_wlog A @ [(phys_sector ROOTDEV x, d)]"
  "a_busy (a_wt x d A) = a_busy A" "a_dirty (a_wt x d A) = a_dirty A - {x}"
  by (simp_all add: a_wt_def a_defs)

lemma a_writes_sel:
  "a_view (a_writes ws A) = apply_writes ws (a_view A)"
  "a_disk (a_writes ws A) = apply_writes ws (a_disk A)"
  "a_wlog (a_writes ws A) = a_wlog A @ phys_writes ws"
  "a_busy (a_writes ws A) = a_busy A"
  "a_dirty (a_writes ws A) = a_dirty A - fst ` set ws"
proof (induction ws arbitrary: A)
  case (Cons w ws)
  obtain a b where w: "w = (a, b)" by (cases w)
  have p: "phys_writes ((a, b) # ws) = (phys_sector ROOTDEV a, b) # phys_writes ws"
    by (simp add: phys_writes_def)
  case 1 show ?case unfolding w a_writes_simps apply_writes_simps Cons.IH(1) a_wt_sel ..
  case 2 show ?case unfolding w a_writes_simps apply_writes_simps Cons.IH(2) a_wt_sel ..
  case 3 show ?case unfolding w p a_writes_simps Cons.IH(3) a_wt_sel by simp
  case 4 show ?case unfolding w a_writes_simps Cons.IH(4) a_wt_sel ..
  case 5 show ?case unfolding w a_writes_simps Cons.IH(5) a_wt_sel by force
qed (simp_all add: phys_writes_def)



subsection \<open>The log operations as sequences of block writes\<close>

lemma set_log_keeps [simp]:
  "bufs (set_log f s) = bufs s" "disk (set_log f s) = disk s" "wlog (set_log f s) = wlog s"
  "klog (set_log f s) = f (klog s)" "lstate.more (set_log f s) = lstate.more s"
  by (simp_all add: set_log_def)

lemma set_log_cache [simp]:
  "bio_inv (set_log f s) = bio_inv s" "absc (set_log f s) = absc s"
  "holds (set_log f s) i x = holds s i x" "dsk (set_log f s) = dsk s" "view (set_log f s) = view s"
  by (rule cache_cong; simp add: set_log_def)+

lemma log_rest:
  fixes s t :: "'a lstate_scheme"
  assumes "bstate.more t = bstate.more s"
  shows "klog t = klog s" "lstate.more t = lstate.more s"
  using assms by (cases s, cases t, simp)+

lemma log_rest':
  fixes s t :: "'a lstate_scheme"
  shows "bstate.more t = bstate.more s \<Longrightarrow> klog t = klog s \<and> lstate.more t = lstate.more s"
  using log_rest by blast

text \<open>The blocks of the log area, and a well-formed in-memory log.\<close>

definition log_area :: "logrec \<Rightarrow> u32 set" where
  "log_area lg = (\<lambda>k. lg_start lg + of_nat k) ` {..<nat (lg_size lg)}"

definition logged :: "logrec \<Rightarrow> u32 list" where
  "logged lg = take (nat (lh_n lg)) (lh_sector lg)"

definition log_wf :: "logrec \<Rightarrow> bool" where
  "log_wf lg \<longleftrightarrow> lg_dev lg = ROOTDEV \<and> 1 \<le> lg_size lg \<and> lg_size lg \<le> int LOGSIZE
     \<and> length (lh_sector lg) = LOGSIZE \<and> 0 \<le> lh_n lg \<and> lh_n lg < lg_size lg
     \<and> set (logged lg) \<inter> log_area lg = {}"

definition log_block :: "logrec \<Rightarrow> nat \<Rightarrow> u32" where
  "log_block lg i = lg_start lg + of_nat i + 1"

lemma log_wfD:
  assumes "log_wf lg"
  shows "lg_dev lg = ROOTDEV" "nat (lh_n lg) < NBUF" "nat (lh_n lg) \<le> LOGSIZE" "length (logged lg) = nat (lh_n lg)"
    "length (lh_sector lg) = LOGSIZE" "set (logged lg) \<inter> log_area lg = {}" "lh_n lg \<le> int LOGSIZE"
    "i < nat (lh_n lg) \<Longrightarrow> i < LOGSIZE \<and> lh_sector lg ! i = logged lg ! i \<and> lh_sector lg ! i \<in> set (logged lg)"
  using assms nth_mem [of i "logged lg"] by (auto simp: log_wf_def logged_def NBUF_def LOGSIZE_def)

lemma log_block_area: "log_wf lg \<Longrightarrow> i < nat (lh_n lg) \<Longrightarrow> log_block lg i \<in> log_area lg"
  unfolding log_area_def
  by (rule image_eqI [of _ _ "i + 1"]) (auto simp: log_wf_def log_block_def)

lemma log_start_area: "log_wf lg \<Longrightarrow> lg_start lg \<in> log_area lg"
  unfolding log_area_def by (rule image_eqI [of _ _ 0]) (auto simp: log_wf_def)

lemma log_block_neq:
  assumes "log_wf lg" "i < nat (lh_n lg)"
  shows "log_block lg i \<noteq> lg_start lg"
proof
  assume "log_block lg i = lg_start lg"
  then have "(of_nat (Suc i) :: u32) = 0" by (simp add: log_block_def add.commute)
  moreover have "Suc i < 2 ^ 32" using assms by (auto simp: log_wf_def LOGSIZE_def)
  ultimately show False
    by (simp del: of_nat_Suc add: word_of_nat_eq_0_iff) (use nat_dvd_not_less in fastforce)
qed

lemma log_block_inj:
  assumes "i < LOGSIZE" "j < LOGSIZE"
  shows "log_block lg i = log_block lg j \<longleftrightarrow> i = j"
proof
  assume "log_block lg i = log_block lg j"
  then have "(of_nat i :: u32) = of_nat j" by (simp add: log_block_def)
  then have "unat (of_nat i :: u32) = unat (of_nat j :: u32)" by (rule arg_cong)
  then show "i = j" using assms by (simp add: LOGSIZE_def unat_of_nat)
qed simp

definition install_writes :: "logrec \<Rightarrow> (u32 \<Rightarrow> bytes) \<Rightarrow> nat \<Rightarrow> nat \<Rightarrow> (u32 \<times> bytes) list" where
  "install_writes lg D tail k = map (\<lambda>i. (lh_sector lg ! i, D (log_block lg i))) [tail..<tail + k]"

lemma install_one_law:
  fixes s :: "'a lstate_scheme"
  assumes "bio_inv s" "log_wf (klog s)" "a_busy (absc s) = {}" "tail < nat (lh_n (klog s))"
    and "card (a_dirty (absc s) \<union> set (logged (klog s))) < NBUF" "a_dirty (absc s) \<inter> log_area (klog s) = {}"
  shows "wp (install_one tail) (\<lambda>_ t. bio_inv t \<and> bstate.more t = bstate.more s
     \<and> absc t = a_wt (lh_sector (klog s) ! tail) (view s (log_block (klog s) tail)) (absc s)) s"
proof -
  let ?lg = "klog s"
  let ?l = "log_block ?lg tail" and ?h = "lh_sector ?lg ! tail" and ?D = "a_dirty (absc s)"
  note W = log_wfD [OF assms(2)]
  have l: "?l \<in> log_area ?lg" using log_block_area assms(2,4) by blast
  have h: "?h \<in> set (logged ?lg)" using W(8) assms(4) by blast
  have "card ?D \<le> card (?D \<union> set (logged ?lg))" by (rule card_mono) simp_all
  then have room_l: "a_room ?l (absc s)" using assms(3,5) by (simp add: a_room_def)
  have "card (insert ?l ?D) < NBUF" if "?h \<notin> ?D"
  proof -
    have "card (insert ?h ?D) \<le> card (?D \<union> set (logged ?lg))" by (rule card_mono) (use h in auto)
    moreover have "?l \<notin> ?D" using l assms(6) by blast
    then have "card (insert ?l ?D) = card (insert ?h ?D)" using that by simp
    ultimately show ?thesis using assms(5) by simp
  qed
  then have room_h: "a_room ?h (a_hold ?l (absc s))"
    using l h W(6) assms(3) by (auto simp: a_room_def a_hold_def)
  have "wp (bread ROOTDEV ?l) (\<lambda>i. wp (bread ROOTDEV ?h) (\<lambda>j. wp (buf_data i) (\<lambda>d. wp (buf_store j d)
      (\<lambda>_. wp (bwrite j) (\<lambda>_. wp (brelse i) (\<lambda>_. wp (brelse j) (\<lambda>_ t. bio_inv t
      \<and> bstate.more t = bstate.more s \<and> absc t = a_wt ?h (view s ?l) (absc s)))))))) s"
    by (rule bc.copy_block [OF assms(1) room_l room_h]) (simp add: a_wt_def)
  then show ?thesis using W(1) W(8) [OF assms(4)] by (simp add: install_one_def log_block_def leD)
qed

lemma install_loop_law:
  fixes s :: "'a lstate_scheme"
  assumes "bio_inv s" "log_wf (klog s)" "a_busy (absc s) = {}" "tail + k = nat (lh_n (klog s))"
    and "card (a_dirty (absc s) \<union> set (logged (klog s))) < NBUF" "a_dirty (absc s) \<inter> log_area (klog s) = {}"
  shows "wp (install_loop k tail) (\<lambda>_ t. bio_inv t \<and> bstate.more t = bstate.more s
     \<and> absc t = a_writes (install_writes (klog s) (view s) tail k) (absc s)) s"
  using assms
proof (induction k arbitrary: s tail)
  case 0
  then show ?case by (simp add: install_writes_def)
next
  case (Suc k)
  let ?lg = "klog s" and ?h = "lh_sector (klog s) ! tail"
  have tl: "tail < nat (lh_n ?lg)" using Suc.prems(4) by simp
  note W = log_wfD [OF Suc.prems(2)]
  show ?case unfolding install_loop.simps wp_kthen
  proof (rule wp_mono [OF install_one_law [OF Suc.prems(1-3) tl Suc.prems(5,6)]], elim conjE)
    fix a :: unit and t :: "'a lstate_scheme"
    assume t: "bio_inv t" "bstate.more t = bstate.more s"
      "absc t = a_wt ?h (view s (log_block ?lg tail)) (absc s)"
    have lg: "klog t = ?lg" using log_rest(1) [OF t(2)] .
    have vw: "view t = (view s)(?h := view s (log_block ?lg tail))"
      using arg_cong [OF t(3), of a_view] by simp
    have "card (a_dirty (absc t) \<union> set (logged ?lg)) \<le> card (a_dirty (absc s) \<union> set (logged ?lg))"
      by (rule card_mono) (simp, simp add: t(3), blast)
    then have c: "card (a_dirty (absc t) \<union> set (logged (klog t))) < NBUF"
      using Suc.prems(5) lg by simp
    have dd: "a_dirty (absc t) \<inter> log_area (klog t) = {}" using Suc.prems(6) lg t(3) by auto
    have IH: "wp (install_loop k (tail + 1)) (\<lambda>_ u. bio_inv u \<and> bstate.more u = bstate.more t
        \<and> absc u = a_writes (install_writes (klog t) (view t) (tail + 1) k) (absc t)) t"
      by (rule Suc.IH [OF t(1) _ _ _ c dd]) (use Suc.prems(2-4) lg t(3) in simp_all)
    have same: "view t (log_block ?lg i) = view s (log_block ?lg i)" if "i < nat (lh_n ?lg)" for i
      using log_block_area [OF Suc.prems(2) that] W(6) W(8) [OF tl] by (auto simp: vw)
    have "install_writes ?lg (view s) tail (Suc k)
        = (?h, view s (log_block ?lg tail)) # install_writes ?lg (view t) (tail + 1) k"
      using Suc.prems(4) by (simp add: install_writes_def upt_conv_Cons same)
    with IH t(2,3) lg show "wp (install_loop k (tail + 1)) (\<lambda>_ u. bio_inv u \<and> bstate.more u = bstate.more s
        \<and> absc u = a_writes (install_writes ?lg (view s) tail (Suc k)) (absc s)) t"
      by simp
  qed
qed

subsubsection \<open>The header block\<close>

lemma put_sectors:
  assumes "4 + 4 * (i + length xs) \<le> length d"
  shows "length (put_sectors xs i d) = length d
    \<and> (\<forall>o'. o' + 4 \<le> 4 + 4 * i \<longrightarrow> get32 (put_sectors xs i d) o' = get32 d o')
    \<and> (\<forall>k<length xs. head_sector (put_sectors xs i d) (i + k) = xs ! k)"
  using assms
proof (induction xs arbitrary: i d)
  case (Cons x xs)
  let ?d = "put32 d (4 + 4 * i) x"
  have l: "length ?d = length d" using Cons.prems by simp
  note IH = Cons.IH [of "i + 1" ?d]
  have "head_sector (put_sectors xs (i + 1) ?d) (i + k) = (x # xs) ! k" if "k < length (x # xs)" for k
  proof (cases k)
    case 0
    have "get32 (put_sectors xs (i + 1) ?d) (4 + 4 * i) = get32 ?d (4 + 4 * i)" using IH Cons.prems l by simp
    also have "\<dots> = x" using Cons.prems by simp
    finally show ?thesis using 0 by (simp add: head_sector_def)
  next
    case (Suc j)
    with IH Cons.prems l that show ?thesis by auto
  qed
  moreover have "get32 (put_sectors xs (i + 1) ?d) o' = get32 d o'" if "o' + 4 \<le> 4 + 4 * i" for o'
    using IH Cons.prems l that get32_put32_other [of "4 + 4 * i" d o' x] by simp
  ultimately show ?case using IH Cons.prems l by simp
qed simp

lemma length_put_head [simp]:
  "length d = BSIZE \<Longrightarrow> n \<le> int LOGSIZE \<Longrightarrow> length (put_head n secs d) = BSIZE"
  using put_sectors [of 0 "take (nat n) secs" "put32 d 0 (word_of_int n)"]
  by (auto simp: put_head_def BSIZE_def LOGSIZE_def)

lemma head_n_put_head:
  assumes "length d = BSIZE" "0 \<le> n" "n \<le> int LOGSIZE"
  shows "head_n (put_head n secs d) = n"
proof -
  have "get32 (put_head n secs d) 0 = word_of_int n"
    using put_sectors [of 0 "take (nat n) secs" "put32 d 0 (word_of_int n)"] assms
    by (auto simp: put_head_def BSIZE_def LOGSIZE_def)
  then show ?thesis using assms by (simp add: head_n_def LOGSIZE_def sint_sbintrunc' signed_take_bit_int_eq_self)
qed

lemma head_sector_put_head:
  assumes "length d = BSIZE" "n \<le> int LOGSIZE" "length secs = LOGSIZE" "i < nat n"
  shows "head_sector (put_head n secs d) i = secs ! i"
  using put_sectors [of 0 "take (nat n) secs" "put32 d 0 (word_of_int n)"] assms
  by (auto simp: put_head_def BSIZE_def LOGSIZE_def)

definition load_head :: "bytes \<Rightarrow> logrec \<Rightarrow> logrec" where
  "load_head d l = l\<lparr>lh_n := head_n d, lh_sector :=
     map (head_sector d) [0..<nat (head_n d)] @ drop (nat (head_n d)) (lh_sector l)\<rparr>"

lemma write_head_law:
  fixes s :: "'a lstate_scheme"
  assumes "bio_inv s" "log_wf (klog s)" "a_busy (absc s) = {}" "card (a_dirty (absc s)) < NBUF"
  shows "wp write_head (\<lambda>_ t. bio_inv t \<and> bstate.more t = bstate.more s
     \<and> absc t = a_wt (lg_start (klog s))
         (put_head (lh_n (klog s)) (lh_sector (klog s)) (view s (lg_start (klog s)))) (absc s)) s"
proof -
  let ?lg = "klog s"
  note W = log_wfD [OF assms(2)]
  have "a_room (lg_start ?lg) (absc s)" using assms(3,4) by (simp add: a_room_def)
  then have "wp (bread ROOTDEV (lg_start ?lg)) (\<lambda>i. wp (buf_data i) (\<lambda>d.
      wp (buf_store i (put_head (lh_n ?lg) (lh_sector ?lg) d)) (\<lambda>_. wp (bwrite i) (\<lambda>_. wp (brelse i)
      (\<lambda>_ t. bio_inv t \<and> bstate.more t = bstate.more s \<and> absc t = a_wt (lg_start ?lg)
         (put_head (lh_n ?lg) (lh_sector ?lg) (view s (lg_start ?lg))) (absc s)))))) s"
    by (rule bc.write_block [OF assms(1)]) (use W assms(1) in \<open>simp_all add: a_wt_def\<close>)
  then show ?thesis using W(1,7) by (simp add: write_head_def)
qed

lemma read_head_law:
  fixes s :: "'a lstate_scheme"
  assumes "bio_inv s" "lg_dev (klog s) = ROOTDEV" "a_busy (absc s) = {}" "card (a_dirty (absc s)) < NBUF"
    and "head_n (view s (lg_start (klog s))) \<le> int LOGSIZE"
  shows "wp read_head (\<lambda>_ t. bio_inv t \<and> lstate.more t = lstate.more s \<and> absc t = absc s
     \<and> klog t = load_head (view s (lg_start (klog s))) (klog s)) s"
proof -
  let ?x = "lg_start (klog s)"
  have room: "a_room ?x (absc s)" using assms(3,4) by (simp add: a_room_def)
  note free = unheld_clean [OF assms(1), of ?x]
  show ?thesis
    apply (simp add: read_head_def assms(2))
    apply (rule bc.rd_rule [OF assms(1) room])
    apply (rule bc.data_rule, assumption, assumption)
    subgoal premises t for i t
    proof -
      note lg = log_rest [OF t(2)]
      have vw: "view t = view s" using arg_cong [OF t(3), of a_view] by (simp add: a_hold_def)
      let ?d = "view s ?x"
      let ?u = "set_log (load_head ?d) t"
      have "wp (brelse i) (\<lambda>_ u. bio_inv u \<and> lstate.more u = lstate.more s \<and> absc u = absc s
          \<and> klog u = load_head ?d (klog s)) ?u"
      proof (rule bc.rel_rule [of _ _ ?x])
        show "?x \<in> a_dirty (absc ?u) \<or> a_view (absc ?u) ?x = a_disk (absc ?u) ?x"
          using free assms(3) t(3) by (simp add: a_hold_def)
      next
        fix v assume v: "bio_inv v" "bstate.more v = bstate.more ?u" "absc v = a_release ?x (absc ?u)"
        have "absc v = absc s" using v(3) t(3) assms(3) by (simp add: a_release_def a_hold_def)
        then show "bio_inv v \<and> lstate.more v = lstate.more s \<and> absc v = absc s
          \<and> klog v = load_head ?d (klog s)" using v(1) log_rest [OF v(2)] lg by simp
      qed (use t in simp_all)
      then show ?thesis using assms(5) by (simp add: vw load_head_def [abs_def])
    qed
    done
qed

definition commit_writes :: "logrec \<Rightarrow> (u32 \<Rightarrow> bytes) \<Rightarrow> (u32 \<times> bytes) list" where
  "commit_writes lg D =
     (let h = put_head (lh_n lg) (lh_sector lg) (D (lg_start lg)) in
      (lg_start lg, h) # install_writes lg D 0 (nat (lh_n lg))
        @ [(lg_start lg, put_head 0 (lh_sector lg) h)])"

definition recover_writes :: "logrec \<Rightarrow> (u32 \<Rightarrow> bytes) \<Rightarrow> (u32 \<times> bytes) list" where
  "recover_writes lg D = install_writes lg D 0 (nat (lh_n lg))
     @ [(lg_start lg, put_head 0 (lh_sector lg) (D (lg_start lg)))]"

lemma install_writes_cong:
  assumes "\<And>i. i < nat (lh_n lg) \<Longrightarrow> D (log_block lg i) = E (log_block lg i)"
  shows "install_writes lg D 0 (nat (lh_n lg)) = install_writes lg E 0 (nat (lh_n lg))"
  using assms by (simp add: install_writes_def)

lemma fst_install_writes:
  "log_wf lg \<Longrightarrow> map fst (install_writes lg D 0 (nat (lh_n lg))) = logged lg"
  by (rule nth_equalityI) (simp_all add: install_writes_def log_wfD(4), use log_wfD(8) in blast)

text \<open>What \<open>install_trans\<close> followed by clearing the header does, in a commit and in a recovery.\<close>

lemma install_clear_law:
  fixes s :: "'a lstate_scheme"
  assumes "bio_inv s" "log_wf (klog s)" "a_busy (absc s) = {}"
    and "card (a_dirty (absc s) \<union> set (logged (klog s))) < NBUF" "a_dirty (absc s) \<inter> log_area (klog s) = {}"
  shows "wp install_trans (\<lambda>_ t. wp write_head (\<lambda>_ u. bio_inv u \<and> lstate.more u = lstate.more s
     \<and> klog u = (klog s)\<lparr>lh_n := 0\<rparr> \<and> absc u = a_writes (recover_writes (klog s) (view s)) (absc s))
       (set_log (\<lambda>l. l\<lparr>lh_n := 0\<rparr>) t)) s"
proof -
  let ?lg = "klog s"
  let ?iw = "install_writes ?lg (view s) 0 (nat (lh_n ?lg))"
  note W = log_wfD [OF assms(2)]
  have "wp (install_loop (nat (lh_n ?lg)) 0) (\<lambda>_ t. bio_inv t \<and> bstate.more t = bstate.more s
      \<and> absc t = a_writes ?iw (absc s)) s"
    by (rule install_loop_law) (use assms in simp_all)
  then show ?thesis unfolding install_trans_def wp_kbind wp_kget
  proof (rule wp_mono, elim conjE)
    fix a :: unit and t :: "'a lstate_scheme"
    assume t: "bio_inv t" "bstate.more t = bstate.more s" "absc t = a_writes ?iw (absc s)"
    let ?t = "set_log (\<lambda>l. l\<lparr>lh_n := 0\<rparr>) t"
    note lg = log_rest [OF t(2)]
    have wf: "log_wf (klog ?t)" using assms(2) lg by (simp add: log_wf_def logged_def)
    have ab: "a_busy (absc ?t) = {}" using assms(3) t(3) by (simp add: a_writes_sel)
    have "card (a_dirty (absc ?t)) \<le> card (a_dirty (absc s) \<union> set (logged (klog s)))"
      by (rule card_mono) (simp, simp add: t(3) a_writes_sel, blast)
    then have ca: "card (a_dirty (absc ?t)) < NBUF" using assms(4) by simp
    have "lg_start ?lg \<notin> fst ` set ?iw"
      using log_start_area [OF assms(2)] W(6) fst_install_writes [OF assms(2), of "view s"]
      by (metis disjoint_iff list.set_map)
    then have "view t (lg_start ?lg) = view s (lg_start ?lg)"
      using arg_cong [OF t(3), of a_view] by (simp add: a_writes_sel apply_writes_other)
    then show "wp write_head (\<lambda>_ u. bio_inv u \<and> lstate.more u = lstate.more s
        \<and> klog u = ?lg\<lparr>lh_n := 0\<rparr> \<and> absc u = a_writes (recover_writes ?lg (view s)) (absc s)) ?t"
      using lg t(3) write_head_law [of ?t, OF _ wf ab ca] t(1)
      by (auto simp: recover_writes_def elim!: wp_mono dest!: log_rest')
  qed
qed

lemma commit_trans_law:
  fixes s :: "'a lstate_scheme"
  assumes "bio_inv s" "log_wf (klog s)" "a_busy (absc s) = {}" "a_dirty (absc s) = set (logged (klog s))"
  shows "wp commit_trans (\<lambda>_ t. bio_inv t \<and> lstate.more t = lstate.more s
     \<and> klog t = (klog s)\<lparr>lh_n := 0, lg_busy := False\<rparr>
     \<and> absc t = a_writes (if 0 < lh_n (klog s) then commit_writes (klog s) (view s) else []) (absc s)) s"
proof (cases "0 < lh_n (klog s)")
  case False
  with assms(2) have "lh_n (klog s) = 0" by (simp add: log_wf_def)
  with False show ?thesis using assms by (simp add: commit_trans_def)
next
  case True
  let ?lg = "klog s"
  let ?h = "put_head (lh_n ?lg) (lh_sector ?lg) (view s (lg_start ?lg))"
  note W = log_wfD [OF assms(2)]
  have c: "card (a_dirty (absc s)) < NBUF"
    using W(2,4) card_length [of "logged ?lg"] assms(4) by simp
  have D: "a_dirty (absc s) \<inter> log_area ?lg = {}" using W(6) assms(4) by simp
  have "wp write_head (\<lambda>_ t. wp install_trans (\<lambda>_ u. wp write_head
      (\<lambda>_ v. bio_inv v \<and> lstate.more v = lstate.more s \<and> klog v = ?lg\<lparr>lh_n := 0\<rparr>
         \<and> absc v = a_writes (commit_writes ?lg (view s)) (absc s))
      (set_log (\<lambda>l. l\<lparr>lh_n := 0\<rparr>) u)) t) s"
  proof (rule wp_mono [OF write_head_law [OF assms(1-3) c]], elim conjE)
    fix a :: unit and t :: "'a lstate_scheme"
    assume t: "bio_inv t" "bstate.more t = bstate.more s" "absc t = a_wt (lg_start ?lg) ?h (absc s)"
    note lg = log_rest [OF t(2)]
    have vw: "view t = (view s)(lg_start ?lg := ?h)" using arg_cong [OF t(3), of a_view] by simp
    have "recover_writes ?lg (view t) = install_writes ?lg (view s) 0 (nat (lh_n ?lg))
        @ [(lg_start ?lg, put_head 0 (lh_sector ?lg) ?h)]"
      using log_block_neq [OF assms(2)] install_writes_cong [of ?lg "view t" "view s"]
      by (simp add: recover_writes_def vw)
    then have e: "commit_writes ?lg (view s) = (lg_start ?lg, ?h) # recover_writes ?lg (view t)"
      by (simp add: commit_writes_def Let_def)
    have c': "card (a_dirty (absc t) \<union> set (logged (klog t))) < NBUF"
      using c assms(4) lg t(3) by (simp add: Un_absorb1)
    show "wp install_trans (\<lambda>_ u. wp write_head
        (\<lambda>_ v. bio_inv v \<and> lstate.more v = lstate.more s \<and> klog v = ?lg\<lparr>lh_n := 0\<rparr>
           \<and> absc v = a_writes (commit_writes ?lg (view s)) (absc s))
        (set_log (\<lambda>l. l\<lparr>lh_n := 0\<rparr>) u)) t"
      using install_clear_law [OF t(1) _ _ c'] assms(2,3) D t(3) lg e by auto
  qed
  with True show ?thesis by (simp add: commit_trans_def) (auto elim!: wp_mono)
qed

lemma recover_from_log_law:
  fixes s :: "'a lstate_scheme"
  assumes "bio_inv s" "a_busy (absc s) = {}" "a_dirty (absc s) = {}" "lg_dev (klog s) = ROOTDEV"
    and "log_wf (load_head (view s (lg_start (klog s))) (klog s))"
  shows "wp recover_from_log (\<lambda>_ t. bio_inv t \<and> lstate.more t = lstate.more s
     \<and> klog t = (load_head (view s (lg_start (klog s))) (klog s))\<lparr>lh_n := 0\<rparr>
     \<and> absc t = a_writes (recover_writes (load_head (view s (lg_start (klog s))) (klog s)) (view s)) (absc s)) s"
proof -
  let ?lg = "load_head (view s (lg_start (klog s))) (klog s)"
  note W = log_wfD [OF assms(5)]
  have n: "head_n (view s (lg_start (klog s))) \<le> int LOGSIZE" using W(7) by (simp add: load_head_def)
  have c: "card (set (logged ?lg)) < NBUF" using W(2,4) card_length [of "logged ?lg"] by simp
  show ?thesis unfolding recover_from_log_def wp_kthen wp_kmod
  proof (rule wp_mono [OF read_head_law [OF assms(1,4,2) _ n]], simp add: assms(3) NBUF_def, elim conjE)
    fix a :: unit and t :: "'a lstate_scheme"
    assume t: "bio_inv t" "lstate.more t = lstate.more s" "absc t = absc s" "klog t = ?lg"
    have v: "view t = view s" using arg_cong [OF t(3), of a_view] by simp
    show "wp install_trans (\<lambda>_ u. wp write_head (\<lambda>_ t. bio_inv t \<and> lstate.more t = lstate.more s
       \<and> klog t = ?lg\<lparr>lh_n := 0\<rparr> \<and> absc t = a_writes (recover_writes ?lg (view s)) (absc s))
       (set_log (\<lambda>l. l\<lparr>lh_n := 0\<rparr>) u)) t"
      using install_clear_law [OF t(1)] assms(2,3,5) c t v by simp
  qed
qed


subsection \<open>Transactions\<close>

text \<open>
  The invariant of a transaction. The logged sectors are exactly the pinned ones, the log area
  holds a copy of every logged block except those in \<open>X\<close> (blocks the transaction has changed in the
  cache and not yet passed to \<open>log_write\<close>), and the header on disk says that nothing is committed.
\<close>

definition log_inv :: "u32 set \<Rightarrow> 'a lstate_scheme \<Rightarrow> bool" where
  "log_inv X s \<longleftrightarrow> bio_inv s \<and> log_wf (klog s) \<and> distinct (logged (klog s))
     \<and> a_dirty (absc s) = set (logged (klog s))
     \<and> a_busy (absc s) \<inter> log_area (klog s) = {}
     \<and> head_n (dsk s (lg_start (klog s))) = 0
     \<and> (\<forall>i<nat (lh_n (klog s)). logged (klog s) ! i \<notin> X \<longrightarrow>
          dsk s (log_block (klog s) i) = view s (logged (klog s) ! i))"

lemma log_slot_cases:
  "(log_slot x xs < length xs \<and> xs ! log_slot x xs = x \<and> x \<in> set xs)
     \<or> (log_slot x xs = length xs \<and> x \<notin> set xs)"
proof (cases "x \<in> set xs")
  case True
  then have "takeWhile (\<lambda>y. y \<noteq> x) xs \<noteq> xs" by (auto simp: takeWhile_eq_all_conv)
  then have "log_slot x xs < length xs"
    using length_takeWhile_le [of "\<lambda>y. y \<noteq> x" xs] takeWhile_eq_take [of "\<lambda>y. y \<noteq> x" xs]
    by (metis le_neq_implies_less log_slot_def take_all_iff order_refl)
  then show ?thesis using nth_length_takeWhile [of "\<lambda>y. y \<noteq> x" xs] True by (simp add: log_slot_def)
next
  case False
  then have e: "takeWhile (\<lambda>y. y \<noteq> x) xs = xs" by (auto simp: takeWhile_eq_all_conv)
  show ?thesis unfolding log_slot_def e using False by blast
qed

definition log_add :: "u32 \<Rightarrow> logrec \<Rightarrow> logrec" where
  "log_add x lg = (let i = log_slot x (logged lg) in
     lg\<lparr>lh_sector := (lh_sector lg)[i := x], lh_n := (if int i = lh_n lg then lh_n lg + 1 else lh_n lg)\<rparr>)"

lemma log_write_law:
  fixes s :: "'a lstate_scheme"
  assumes "bio_inv s" "log_wf (klog s)" "lg_busy (klog s)" "lh_n (klog s) < lg_size (klog s) - 1"
    and "holds s b x" "card (a_busy (absc s) \<union> a_dirty (absc s)) < NBUF"
    and "a_busy (absc s) \<inter> log_area (klog s) = {}"
  shows "wp (log_write b) (\<lambda>_ t. bio_inv t \<and> lstate.more t = lstate.more s \<and> klog t = log_add x (klog s)
     \<and> absc t = a_pin x (a_wt (log_block (klog s) (log_slot x (logged (klog s)))) (view s x) (absc s))
     \<and> (\<forall>j y. holds s j y \<longrightarrow> holds t j y)) s"
proof -
  let ?lg = "klog s" and ?i = "log_slot x (logged (klog s))"
  note W = log_wfD [OF assms(2)] and H = holdsD [OF assms(1,5)]
  let ?s1 = "set_log (\<lambda>l. l\<lparr>lh_sector := (lh_sector l)[?i := x]\<rparr>) s"
  have "?i \<le> nat (lh_n ?lg)" using log_slot_cases [of x "logged ?lg"] W(4) by auto
  then have "log_block ?lg ?i \<in> log_area ?lg"
    unfolding log_area_def using assms(2,4)
    by (intro image_eqI [of _ _ "?i + 1"]) (auto simp: log_wf_def log_block_def)
  then have room: "a_room (log_block ?lg ?i) (absc ?s1)"
    using assms(6,7) by (auto simp: a_room_def)
  have g: "\<not> (int LOGSIZE \<le> lh_n ?lg \<or> lg_size ?lg - 1 \<le> lh_n ?lg)"
    using assms(2,4) by (auto simp: log_wf_def)
  show ?thesis
    unfolding log_write_def
    apply (simp add: g assms(3) H(5,6) Let_def logged_def [symmetric] if_distrib [where f = "\<lambda>f. f _"]
        flip: log_block_def)
    apply (rule bc.save_block [OF _ _ room, of b x])
      apply (simp add: assms(1))
     apply (simp add: assms(5))
    subgoal premises t for i t
    proof -
      note lg = log_rest [OF t(2)]
      let ?u = "set_log (\<lambda>l. l\<lparr>lh_n := lh_n l + 1\<rparr>) t"
      let ?t = "if int ?i = lh_n ?lg then ?u else t"
      have h: "holds t j y" if "holds s j y" for j y using t(4) that by simp
      have hb: "holds ?t b x" using h [OF assms(5)] by simp
      have "wp (buf_set_dirty b) (\<lambda>_ t. bio_inv t \<and> lstate.more t = lstate.more s
          \<and> klog t = log_add x ?lg \<and> absc t = a_pin x (a_wt (log_block ?lg ?i) (view s x) (absc s))
          \<and> (\<forall>j y. holds s j y \<longrightarrow> holds t j y)) ?t"
      proof (rule bc.pin_rule [OF _ hb])
        show "bio_inv ?t" using t(1) by simp
        fix v assume v: "bio_inv v" "bstate.more v = bstate.more ?t" "absc v = a_pin x (absc ?t)"
          and hv: "\<And>j y. holds ?t j y \<Longrightarrow> holds v j y"
        show "bio_inv v \<and> lstate.more v = lstate.more s
          \<and> klog v = log_add x ?lg \<and> absc v = a_pin x (a_wt (log_block ?lg ?i) (view s x) (absc s))
          \<and> (\<forall>j y. holds s j y \<longrightarrow> holds v j y)"
          using v(1,3) log_rest [OF v(2)] lg t(3) h hv by (auto simp: log_add_def Let_def a_wt_def)
      qed
      then show ?thesis by (auto split: if_splits)
    qed
    done
qed

lemma logged_log_add:
  assumes "log_wf lg" "lh_n lg < lg_size lg - 1"
  shows "logged (log_add x lg) = (if x \<in> set (logged lg) then logged lg else logged lg @ [x])"
proof -
  let ?n = "nat (lh_n lg)" and ?i = "log_slot x (logged lg)"
  note W = log_wfD [OF assms(1)]
  have n: "?n < length (lh_sector lg)" "0 \<le> lh_n lg" using assms by (auto simp: log_wf_def)
  consider "?i < ?n" "logged lg ! ?i = x" "x \<in> set (logged lg)" | "?i = ?n" "x \<notin> set (logged lg)"
    using log_slot_cases [of x "logged lg"] W(4) by auto
  then show ?thesis
  proof cases
    case 1
    then have u: "(lh_sector lg)[?i := x] = lh_sector lg"
      using W(8) [OF 1(1)] list_update_id [of "lh_sector lg" ?i] by simp
    have "int ?i \<noteq> lh_n lg" using 1(1) by auto
    then have "log_add x lg = lg" by (simp add: log_add_def Let_def u)
    with 1 show ?thesis by simp
  next
    case 2
    then have "int ?i = lh_n lg" using n(2) by simp
    then have "logged (log_add x lg) = take (?n + 1) ((lh_sector lg)[?n := x])"
      using n(2) by (simp add: log_add_def Let_def logged_def [of "_ \<lparr>lh_n := _\<rparr>"] nat_add_distrib 2(1))
    also have "\<dots> = logged lg @ [x]"
      using n(1) by (simp add: take_Suc_conv_app_nth logged_def)
    finally show ?thesis using 2(2) by simp
  qed
qed

lemma log_add_sel [simp]:
  "lg_start (log_add x lg) = lg_start lg" "lg_size (log_add x lg) = lg_size lg"
  "lg_busy (log_add x lg) = lg_busy lg" "lg_dev (log_add x lg) = lg_dev lg"
  "log_area (log_add x lg) = log_area lg" "log_block (log_add x lg) i = log_block lg i"
  by (simp_all add: log_add_def Let_def log_area_def log_block_def)

lemma log_wf_add:
  assumes "log_wf lg" "lh_n lg < lg_size lg - 1" "x \<notin> log_area lg"
  shows "log_wf (log_add x lg)"
proof -
  have "set (logged (log_add x lg)) \<inter> log_area lg = {}"
    using assms logged_log_add [OF assms(1,2), of x] by (auto simp: log_wf_def)
  moreover have "length (lh_sector (log_add x lg)) = length (lh_sector lg)"
    "lh_n lg \<le> lh_n (log_add x lg)" "lh_n (log_add x lg) \<le> lh_n lg + 1"
    by (simp_all add: log_add_def Let_def)
  ultimately show ?thesis using assms unfolding log_wf_def by simp
qed

lemma log_invD:
  assumes "log_inv X s"
  shows "bio_inv s" "log_wf (klog s)" "distinct (logged (klog s))" "a_dirty (absc s) = set (logged (klog s))"
    "a_busy (absc s) \<inter> log_area (klog s) = {}" "head_n (dsk s (lg_start (klog s))) = 0"
    "i < nat (lh_n (klog s)) \<Longrightarrow> logged (klog s) ! i \<notin> X \<Longrightarrow>
       dsk s (log_block (klog s) i) = view s (logged (klog s) ! i)"
  using assms by (auto simp: log_inv_def)

lemma log_inv_add:
  fixes s t :: "'a lstate_scheme"
  assumes inv: "log_inv (insert x X) s" and n: "lh_n (klog s) < lg_size (klog s) - 1" "x \<notin> log_area (klog s)"
    and t: "bio_inv t" "klog t = log_add x (klog s)"
      "absc t = a_pin x (a_wt (log_block (klog s) (log_slot x (logged (klog s)))) (view s x) (absc s))"
  shows "log_inv X t"
proof -
  let ?lg = "klog s" let ?i = "log_slot x (logged ?lg)" let ?lb = "log_block ?lg ?i"
  note I = log_invD [OF inv] and W = log_wfD [OF log_invD(2) [OF inv]]
  note L = logged_log_add [OF I(2) n(1), of x]
  have wf: "log_wf (klog t)" using log_wf_add [OF I(2) n] t(2) by simp
  have vw: "view t = (view s)(?lb := view s x)" "dsk t = (dsk s)(?lb := view s x)"
    using arg_cong [OF t(3), of a_view] arg_cong [OF t(3), of a_disk] by (simp_all add: a_pin_def)
  have sl: "?i < nat (lh_n (klog t)) \<and> logged (klog t) ! ?i = x"
    using log_slot_cases [of x "logged ?lg"] L log_wfD(4) [OF wf] t(2) by (auto simp: nth_append)
  have lb: "?lb \<in> log_area ?lg" using log_block_area [OF wf, of ?i] sl t(2) by simp
  have st: "lg_start ?lg \<noteq> ?lb" using log_block_neq [OF wf, of ?i] sl t(2) by simp
  have "dsk t (log_block ?lg j) = view t (logged (klog t) ! j)"
    if "j < nat (lh_n (klog t))" "logged (klog t) ! j \<notin> X" for j
  proof (cases "j = ?i")
    case True
    then show ?thesis using sl n(2) lb vw by auto
  next
    case False
    have "?lb \<noteq> log_block ?lg j"
      using log_block_inj [of ?i j ?lg] False that(1) sl log_wfD(3) [OF wf] by auto
    moreover have j: "j < nat (lh_n ?lg)" "logged (klog t) ! j = logged ?lg ! j"
      using that(1) False L log_wfD(4) [OF wf] W(4) log_slot_cases [of x "logged ?lg"] t(2)
      by (auto simp: nth_append split: if_splits)
    moreover have "logged ?lg ! j \<noteq> x"
      using False j(1) log_slot_cases [of x "logged ?lg"] I(3) W(4) by (metis nth_eq_iff_index_eq nth_mem)
    moreover have "logged ?lg ! j \<noteq> ?lb" using W(4,6) j(1) lb by (metis disjoint_iff nth_mem)
    ultimately show ?thesis using I(7) [of j] that(2) vw by simp
  qed
  moreover have "a_dirty (absc t) = set (logged (klog t))"
    using L I(4) W(6) lb t(2,3) by (auto simp: a_pin_def)
  moreover have "distinct (logged (klog t))" using L I(3) t(2) by simp
  moreover have "a_busy (absc t) \<inter> log_area ?lg = {}" using I(5) t(3) by (simp add: a_pin_def)
  moreover have "head_n (dsk t (lg_start ?lg)) = 0" using I(6) st vw by simp
  ultimately show ?thesis using t(1,2) wf by (simp add: log_inv_def)
qed



subsection \<open>Crashes and recovery\<close>

text \<open>
  \<open>recovered lg D\<close>: what the recovery code makes of the disk contents \<open>D\<close>.
\<close>

definition recovered :: "logrec \<Rightarrow> (u32 \<Rightarrow> bytes) \<Rightarrow> u32 \<Rightarrow> bytes" where
  "recovered lg D = apply_writes (recover_writes (load_head (D (lg_start lg)) lg) D) D"

lemma apply_map: "apply_writes (map (\<lambda>y. (y, v y)) ys) E x = (if x \<in> set ys then v x else E x)"
proof (induction ys arbitrary: E)
  case (Cons y ys)
  then show ?case by (simp only: list.map apply_writes_simps Cons.IH) auto
qed simp

lemma install_writes_map:
  assumes "log_wf lg" "\<And>i. i < nat (lh_n lg) \<Longrightarrow> D (log_block lg i) = v (logged lg ! i)"
  shows "install_writes lg D 0 (nat (lh_n lg)) = map (\<lambda>y. (y, v y)) (logged lg)"
  by (rule nth_equalityI)
     (use assms log_wfD(4,8) [OF assms(1)] in \<open>auto simp: install_writes_def\<close>)

lemma load_head_sel [simp]:
  "lg_start (load_head d lg) = lg_start lg" "lg_size (load_head d lg) = lg_size lg"
  "lg_dev (load_head d lg) = lg_dev lg" "lg_busy (load_head d lg) = lg_busy lg"
  "lh_n (load_head d lg) = head_n d"
  "log_area (load_head d lg) = log_area lg" "log_block (load_head d lg) i = log_block lg i"
  by (simp_all add: load_head_def log_area_def log_block_def)

text \<open>Two logs at the same place on disk; the second is the one of a kernel that has just booted.\<close>

definition same_log :: "logrec \<Rightarrow> logrec \<Rightarrow> bool" where
  "same_log lg lg' \<longleftrightarrow> lg_start lg' = lg_start lg \<and> lg_size lg' = lg_size lg \<and> lg_dev lg' = lg_dev lg
     \<and> length (lh_sector lg') = LOGSIZE"

lemma same_log_area:
  "same_log lg lg' \<Longrightarrow> log_area lg' = log_area lg" "same_log lg lg' \<Longrightarrow> log_block lg' i = log_block lg i"
  by (auto simp: same_log_def log_area_def log_block_def)

lemma logged_load_put:
  assumes "log_wf lg" "same_log lg lg'" "length d = BSIZE"
  shows "logged (load_head (put_head (lh_n lg) (lh_sector lg) d) lg') = logged lg"
    "head_n (put_head (lh_n lg) (lh_sector lg) d) = lh_n lg"
proof -
  note W = log_wfD [OF assms(1)]
  have n: "0 \<le> lh_n lg" using assms(1) by (simp add: log_wf_def)
  show h: "head_n (put_head (lh_n lg) (lh_sector lg) d) = lh_n lg"
    by (rule head_n_put_head [OF assms(3) n W(7)])
  have "head_sector (put_head (lh_n lg) (lh_sector lg) d) i = logged lg ! i" if "i < nat (lh_n lg)" for i
    using head_sector_put_head [OF assms(3) W(7,5) that] W(8) [OF that] by simp
  then have "map (head_sector (put_head (lh_n lg) (lh_sector lg) d)) [0..<nat (lh_n lg)] = logged lg"
    using W(4) by (intro nth_equalityI) auto
  then show "logged (load_head (put_head (lh_n lg) (lh_sector lg) d) lg') = logged lg"
    using W(4) by (simp add: load_head_def h logged_def [of "_ \<lparr>lh_n := _, lh_sector := _\<rparr>"])
qed

lemma log_wf_load_put:
  assumes "log_wf lg" "same_log lg lg'" "length d = BSIZE"
  shows "log_wf (load_head (put_head (lh_n lg) (lh_sector lg) d) lg')"
proof -
  have "length (lh_sector (load_head (put_head (lh_n lg) (lh_sector lg) d) lg')) = LOGSIZE"
    using assms(2) logged_load_put(2) [OF assms] log_wfD(3) [OF assms(1)]
    by (simp add: load_head_def same_log_def)
  then show ?thesis
    using assms(1,2) logged_load_put [OF assms] same_log_area(1) [OF assms(2)]
    by (simp add: log_wf_def same_log_def)
qed

lemma log_wf_load_zero:
  assumes "log_wf lg" "same_log lg lg'" "head_n d = 0"
  shows "log_wf (load_head d lg')"
  using assms by (simp add: log_wf_def same_log_def load_head_def logged_def)

lemma recovered_uncommitted:
  "head_n (D (lg_start lg)) = 0 \<Longrightarrow> x \<noteq> lg_start lg \<Longrightarrow> recovered lg D x = D x"
  by (simp add: recovered_def recover_writes_def install_writes_def)

lemma recovered_committed:
  assumes "log_wf lg" "same_log lg lg'" "length d = BSIZE" "x \<noteq> lg_start lg"
    and "D (lg_start lg) = put_head (lh_n lg) (lh_sector lg) d"
    and "\<And>i. i < nat (lh_n lg) \<Longrightarrow> D (log_block lg i) = v (logged lg ! i)"
  shows "recovered lg' D x = (if x \<in> set (logged lg) then v x else D x)"
proof -
  let ?lg = "load_head (put_head (lh_n lg) (lh_sector lg) d) lg'"
  note L = logged_load_put [OF assms(1-3)]
  have s: "lg_start lg' = lg_start lg" using assms(2) by (simp add: same_log_def)
  have "install_writes ?lg D 0 (nat (lh_n lg)) = map (\<lambda>y. (y, v y)) (logged lg)"
    using install_writes_map [OF log_wf_load_put [OF assms(1-3)], of D v] L assms(6)
      same_log_area(2) [OF assms(2)] by simp
  then show ?thesis
    using s assms(4,5) L(2) by (simp add: recovered_def recover_writes_def apply_map)
qed

text \<open>
  The disk of a crash during a commit: the first \<open>k\<close> of the commit's sector writes were done.
  Recovery finds the blocks outside the log area all as before the transaction, or all as the
  transaction left them in the cache.
\<close>

lemma commit_prefix:
  fixes s :: "'a lstate_scheme"
  assumes inv: "log_inv {} s" and busy: "a_busy (absc s) = {}" and same: "same_log (klog s) lg'"
    and D: "D = apply_writes (take k (commit_writes (klog s) (view s))) (dsk s)"
  shows "log_wf (load_head (D (lg_start (klog s))) lg') \<and>
    ((\<forall>x. x \<notin> log_area (klog s) \<longrightarrow> recovered lg' D x = dsk s x) \<or>
     (\<forall>x. x \<notin> log_area (klog s) \<longrightarrow> recovered lg' D x = view s x))"
proof -
  let ?lg = "klog s"
  let ?st = "lg_start ?lg" and ?A = "log_area ?lg" and ?L = "logged ?lg"
  let ?h = "put_head (lh_n ?lg) (lh_sector ?lg) (view s ?st)"
  note I = log_invD [OF inv] and W = log_wfD [OF log_invD(2) [OF inv]]
  have st: "?st \<in> ?A" "?st \<notin> set ?L" using log_start_area [OF I(2)] W(6) by auto
  have nA: "x \<noteq> ?st" if "x \<notin> ?A" for x using st(1) that by blast
  have st': "lg_start lg' = ?st" using same by (simp add: same_log_def)
  have clean: "view s x = dsk s x" if "x \<notin> set ?L" for x
    using unheld_clean [OF I(1), of x] busy that I(4) by simp
  have lb: "log_block ?lg i \<notin> set ?L" "log_block ?lg i \<noteq> ?st" if "i < nat (lh_n ?lg)" for i
    using log_block_area [OF I(2) that] W(6) log_block_neq [OF I(2) that] by auto
  have data: "view s (log_block ?lg i) = view s (?L ! i)" if "i < nat (lh_n ?lg)" for i
    using I(7) [OF that] clean [OF lb(1) [OF that]] by simp
  have iw: "install_writes ?lg (view s) 0 (nat (lh_n ?lg)) = map (\<lambda>y. (y, view s y)) ?L"
    by (rule install_writes_map [OF I(2)]) (rule data)
  have cw: "commit_writes ?lg (view s)
      = (?st, ?h) # map (\<lambda>y. (y, view s y)) ?L @ [(?st, put_head 0 (lh_sector ?lg) ?h)]"
    by (simp add: commit_writes_def Let_def iw)
  have len: "length (view s ?st) = BSIZE" "length ?h = BSIZE" using I(1) W(7) by simp_all
  consider "k = 0" | m where "k = Suc m" "m \<le> length ?L" | "length ?L + 1 < k"
    by (cases k) (auto, linarith)
  then show ?thesis
  proof cases
    case 1
    then have Ds: "D = dsk s" using D by simp
    have "recovered lg' D x = dsk s x" if "x \<notin> ?A" for x
      using recovered_uncommitted [of D lg' x] I(6) st st' that Ds by auto
    then show ?thesis using I(6) log_wf_load_zero [OF I(2) same] Ds by auto
  next
    case 2
    have Dx: "D x = (if x \<in> set (take m ?L) then view s x else if x = ?st then ?h else dsk s x)" for x
      using 2(2) by (simp add: D cw 2(1) take_map apply_map)
    have tk: "x \<in> set (take m ?L) \<Longrightarrow> x \<in> set ?L" for x by (rule in_set_takeD)
    have "D ?st = ?h" using Dx [of ?st] st(2) tk by auto
    moreover have "D (log_block ?lg i) = view s (?L ! i)" if "i < nat (lh_n ?lg)" for i
      using Dx [of "log_block ?lg i"] lb [OF that] tk I(7) [OF that] by auto
    ultimately have "recovered lg' D x = (if x \<in> set ?L then view s x else D x)" if "x \<notin> ?A" for x
      using recovered_committed [OF I(2) same len(1) nA [OF that], of D "view s"] by blast
    then have "\<forall>x. x \<notin> ?A \<longrightarrow> recovered lg' D x = view s x"
      using Dx clean tk nA by auto
    then show ?thesis using log_wf_load_put [OF I(2) same len(1)] \<open>D ?st = ?h\<close> by simp
  next
    case 3
    then have t: "take k (commit_writes ?lg (view s)) = commit_writes ?lg (view s)" by (simp add: cw)
    have Dx: "D x = (if x = ?st then put_head 0 (lh_sector ?lg) ?h
        else if x \<in> set ?L then view s x else dsk s x)" for x
      by (simp add: D t, simp add: cw apply_map)
    have h0: "head_n (D ?st) = 0" using Dx head_n_put_head [OF len(2), of 0] by simp
    then have "\<forall>x. x \<notin> ?A \<longrightarrow> recovered lg' D x = view s x"
      using recovered_uncommitted [of D lg'] nA st' Dx clean by auto
    then show ?thesis using log_wf_load_zero [OF I(2) same h0] by blast
  qed
qed

text \<open>
  A kernel that has just booted from a disk: static data is zero, the buffer cache is empty.
\<close>

definition cold :: "'a lstate_scheme \<Rightarrow> bool" where
  "cold r \<longleftrightarrow> dev_ok r \<and> length (lh_sector (klog r)) = LOGSIZE
     \<and> (\<forall>i<NBUF. length (b_data (bufs r i)) = BSIZE \<and> \<not> b_busy (bufs r i)
           \<and> \<not> b_valid (bufs r i) \<and> \<not> b_dirty (bufs r i))"

definition sb_log :: "superblock \<Rightarrow> logrec \<Rightarrow> bool" where
  "sb_log sb lg \<longleftrightarrow> lg_start lg = sb_size sb - sb_nlog sb \<and> lg_size lg = sint (sb_nlog sb) \<and> lg_dev lg = ROOTDEV"

lemma cold_binit:
  assumes "cold r"
  shows "bio_inv (binit r)" "absc (binit r) =
    \<lparr>a_view = dsk r, a_disk = dsk r, a_wlog = wlog r, a_busy = {}, a_dirty = {}\<rparr>"
    "klog (binit r) = klog r"
proof -
  have "bstate.more (binit r) = bstate.more r" by simp
  then show "klog (binit r) = klog r" by (rule log_rest)
qed (use bio_inv_binit [of r] assms in \<open>auto simp: cold_def\<close>)

text \<open>What \<open>initlog\<close> does on a booted kernel is \<open>recovered\<close>.\<close>

lemma initlog_law:
  fixes r :: "'a lstate_scheme"
  assumes cold: "cold r" and sb: "sb_log (sb_of (dsk r 1)) lg"
    and wf: "\<And>lg'. same_log lg lg' \<Longrightarrow> log_wf (load_head (dsk r (lg_start lg)) lg')"
  shows "wp initlog (\<lambda>_ t. bio_inv t \<and> a_busy (absc t) = {} \<and> a_dirty (absc t) = {}
     \<and> (\<exists>lg'. same_log lg lg' \<and> dsk t = recovered lg' (dsk r)
         \<and> wlog t = wlog r @ phys_writes (recover_writes (load_head (dsk r (lg_start lg)) lg') (dsk r)))) (binit r)"
proof -
  note C = cold_binit [OF cold]
  have room: "a_room 1 (absc (binit r))" by (simp add: C(2) a_room_def NBUF_def)
  let ?u = "\<lambda>l. l\<lparr>lg_start := sb_size (sb_of (dsk r 1)) - sb_nlog (sb_of (dsk r 1)),
                   lg_size := sint (sb_nlog (sb_of (dsk r 1))), lg_dev := ROOTDEV\<rparr>"
  let ?lg = "?u (klog r)"
  have same: "same_log lg ?lg" using sb cold by (simp add: same_log_def sb_log_def cold_def)
  have st: "lg_start ?lg = lg_start lg" using same by (simp add: same_log_def)
  show ?thesis
    unfolding initlog_def readsb_def
    apply (simp add: BSIZE_def LOGSIZE_def)
    apply (rule bc.read_block [OF C(1) room])
    subgoal premises t for i t
    proof -
      have v: "view t = dsk r" "dsk t = dsk r" "wlog t = wlog r"
        using arg_cong [OF t(3), of a_view] arg_cong [OF t(3), of a_disk] arg_cong [OF t(3), of a_wlog]
        by (simp_all add: C(2))
      have k: "klog t = klog r" using log_rest [OF t(2)] C(3) by simp
      have "wp recover_from_log (\<lambda>_ u. bio_inv u \<and> lstate.more u = lstate.more (set_log ?u t)
          \<and> klog u = (load_head (view (set_log ?u t) (lg_start (klog (set_log ?u t)))) (klog (set_log ?u t)))\<lparr>lh_n := 0\<rparr>
          \<and> absc u = a_writes (recover_writes (load_head (view (set_log ?u t) (lg_start (klog (set_log ?u t))))
              (klog (set_log ?u t))) (view (set_log ?u t))) (absc (set_log ?u t))) (set_log ?u t)"
        by (rule recover_from_log_law) (use t wf [OF same] k v st in \<open>simp_all add: C\<close>)
      then show ?thesis
      proof (simp add: C(2), elim wp_mono conjE, intro conjI exI [of _ ?lg])
        fix w :: "'a lstate_scheme"
        assume w: "absc w = a_writes (recover_writes (load_head (view t (sb_size (sb_of (dsk r 1)) - sb_nlog (sb_of (dsk r 1)))) (?u (klog t))) (view t)) (absc t)"
        show "a_busy (absc w) = {}" "a_dirty (absc w) = {}" by (simp_all add: w a_writes_sel t(3) C(2))
        show "dsk w = recovered ?lg (dsk r)"
          using arg_cong [OF w, of a_disk] by (simp add: a_writes_sel v k recovered_def)
        show "wlog w = wlog r @ phys_writes (recover_writes (load_head (dsk r (lg_start lg)) ?lg) (dsk r))"
          using arg_cong [OF w, of a_wlog] st by (simp add: a_writes_sel v k)
      qed (simp_all add: same)
    qed
    done
qed

lemma apply_writes_hit: "x \<in> fst ` set ws \<Longrightarrow> apply_writes ws D x = apply_writes ws E x"
proof (induction ws arbitrary: D E)
  case (Cons w ws)
  obtain a b where w: "w = (a, b)" by (cases w)
  show ?case
  proof (cases "x \<in> fst ` set ws")
    case True
    from Cons.IH [OF this] show ?thesis unfolding w apply_writes_simps .
  next
    case False
    with Cons.prems show ?thesis by (simp add: w apply_writes_other)
  qed
qed simp

lemma apply_writes_idem: "apply_writes ws (apply_writes (take k ws) D) x = apply_writes ws D x"
proof (cases "x \<in> fst ` set ws")
  case True
  then show ?thesis by (rule apply_writes_hit)
next
  case False
  then have "x \<notin> fst ` set (take k ws)" by (auto dest: in_set_takeD)
  with False show ?thesis by (simp add: apply_writes_other)
qed

lemma phys_writes_take: "take k (phys_writes ws) = phys_writes (take k ws)"
  by (simp add: phys_writes_def take_map)

lemma dsk_apply:
  assumes "disk r = apply_writes (take k (phys_writes ws)) (disk s)"
  shows "dsk r = apply_writes (take k ws) (dsk s)"
proof
  fix x
  show "dsk r x = apply_writes (take k ws) (dsk s) x"
    unfolding dsk_def [of r x] assms phys_writes_take apply_phys_writes
    by (simp add: dsk_def [abs_def])
qed

lemma log_inv_clean:
  assumes "log_inv {} s" "a_busy (absc s) = {}" "x \<notin> set (logged (klog s))"
  shows "view s x = dsk s x"
  using unheld_clean [OF log_invD(1) [OF assms(1)], of x] assms log_invD(4) [OF assms(1)] by simp

lemma commit_install:
  assumes inv: "log_inv {} s" and busy: "a_busy (absc s) = {}"
  shows "install_writes (klog s) (view s) 0 (nat (lh_n (klog s))) = map (\<lambda>y. (y, view s y)) (logged (klog s))"
proof (rule install_writes_map)
  note I = log_invD [OF inv]
  show "log_wf (klog s)" by (rule I(2))
  fix i assume i: "i < nat (lh_n (klog s))"
  have "log_block (klog s) i \<notin> set (logged (klog s))"
    using log_block_area [OF I(2) i] log_wfD(6) [OF I(2)] by auto
  then show "view s (log_block (klog s) i) = view s (logged (klog s) ! i)"
    using log_inv_clean [OF inv busy] I(7) [OF i] by simp
qed

lemma apply_writes_in:
  assumes "\<And>d. (x, d) \<in> set ws \<Longrightarrow> d = v"
  shows "apply_writes ws D x \<in> {D x, v}"
  using assms
proof (induction ws arbitrary: D)
  case (Cons w ws)
  obtain a b where w: "w = (a, b)" by (cases w)
  have "apply_writes ws (D(a := b)) x \<in> {(D(a := b)) x, v}"
    by (rule Cons.IH) (use Cons.prems in simp)
  moreover have "(D(a := b)) x \<in> {D x, v}" using Cons.prems [of b] w by simp
  ultimately show ?case unfolding w apply_writes_simps by (auto simp del: fun_upd_apply)
qed simp

text \<open>Every block outside the log area has, at every moment of a commit, its old or its new contents.\<close>

lemma commit_prefix_block:
  assumes inv: "log_inv {} s" and busy: "a_busy (absc s) = {}" and x: "x \<notin> log_area (klog s)"
  shows "apply_writes (take k (commit_writes (klog s) (view s))) (dsk s) x \<in> {dsk s x, view s x}"
proof -
  let ?lg = "klog s"
  let ?cw = "commit_writes ?lg (view s)"
  note I = log_invD [OF inv]
  have st: "x \<noteq> lg_start ?lg" using log_start_area [OF I(2)] x by auto
  have "d = view s x" if "(x, d) \<in> set (take k ?cw)" for d
    using in_set_takeD [OF that] st by (auto simp: commit_writes_def Let_def commit_install [OF inv busy])
  then show ?thesis by (rule apply_writes_in)
qed

lemma commit_crash_recovers:
  fixes s :: "'a lstate_scheme" and r :: "'b lstate_scheme"
  assumes inv: "log_inv {} s" and busy: "a_busy (absc s) = {}"
    and sb: "sb_log (sb_of (dsk s 1)) (klog s)" "1 \<notin> log_area (klog s)" "view s 1 = dsk s 1"
    and cold: "cold r" and crash: "dsk r = apply_writes (take k (commit_writes (klog s) (view s))) (dsk s)"
  shows "wp initlog (\<lambda>_ u. (\<forall>x. x \<notin> log_area (klog s) \<longrightarrow> dsk u x = dsk s x) \<or>
     (\<forall>x. x \<notin> log_area (klog s) \<longrightarrow> dsk u x = view s x)) (binit r)"
proof (rule wp_mono)
  note P = commit_prefix [OF inv busy _ crash]
  have "dsk r 1 = dsk s 1" using commit_prefix_block [OF inv busy sb(2), of k] sb(3) crash by simp
  then show "wp initlog (\<lambda>_ t. bio_inv t \<and> a_busy (absc t) = {} \<and> a_dirty (absc t) = {}
     \<and> (\<exists>lg'. same_log (klog s) lg' \<and> dsk t = recovered lg' (dsk r)
         \<and> wlog t = wlog r @ phys_writes (recover_writes (load_head (dsk r (lg_start (klog s))) lg') (dsk r)))) (binit r)"
    using initlog_law [OF cold, of "klog s"] sb(1) P by simp
  fix a :: unit and u :: "'b lstate_scheme"
  assume "bio_inv u \<and> a_busy (absc u) = {} \<and> a_dirty (absc u) = {}
     \<and> (\<exists>lg'. same_log (klog s) lg' \<and> dsk u = recovered lg' (dsk r)
         \<and> wlog u = wlog r @ phys_writes (recover_writes (load_head (dsk r (lg_start (klog s))) lg') (dsk r)))"
  then obtain lg' where "same_log (klog s) lg'" "dsk u = recovered lg' (dsk r)" by blast
  with P [of lg'] show "(\<forall>x. x \<notin> log_area (klog s) \<longrightarrow> dsk u x = dsk s x) \<or>
     (\<forall>x. x \<notin> log_area (klog s) \<longrightarrow> dsk u x = view s x)" by simp
qed

text \<open>
  A crash during recovery: the next recovery reads the same header and the same log blocks, or an
  already cleared header.
\<close>

lemma recover_prefix:
  assumes wf: "log_wf (load_head (D (lg_start lg)) lg')" and same: "same_log lg lg'" "same_log lg lg''"
    and len: "length (D (lg_start lg)) = BSIZE"
    and E: "E = apply_writes (take k (recover_writes (load_head (D (lg_start lg)) lg') D)) D"
  shows "log_wf (load_head (E (lg_start lg)) lg'')
    \<and> (\<forall>x. x \<notin> log_area lg \<longrightarrow> recovered lg'' E x = recovered lg' D x)"
proof -
  let ?st = "lg_start lg" and ?h = "D (lg_start lg)"
  let ?l1 = "load_head ?h lg'" and ?l2 = "load_head ?h lg''"
  note W = log_wfD [OF wf]
  let ?iw = "install_writes ?l1 D 0 (nat (head_n ?h))"
  have st: "lg_start lg' = ?st" "lg_start lg'' = ?st" using same by (simp_all add: same_log_def)
  have A: "log_area lg' = log_area lg" "log_area lg'' = log_area lg" using same same_log_area by auto
  have n: "nat (head_n ?h) \<le> LOGSIZE" "0 \<le> head_n ?h" "head_n ?h < lg_size lg"
    using wf same by (auto simp: log_wf_def same_log_def)
  have lg2: "logged ?l2 = logged ?l1" by (simp add: logged_def load_head_def)
  have wf2: "log_wf ?l2"
    using wf same A lg2 n(1) by (auto simp: log_wf_def same_log_def) (simp add: load_head_def)
  have sa: "?st \<in> log_area lg" using log_start_area [OF wf] A st by simp
  have nA: "x \<noteq> ?st" if "x \<notin> log_area lg" for x using sa that by blast
  have fs: "fst ` set ?iw = set (logged ?l1)"
    using fst_install_writes [OF wf, of D] by (metis list.set_map load_head_sel(5))
  have off: "y \<notin> fst ` set ?iw" if "y \<in> log_area lg" for y using W(6) A that fs by auto
  have R1: "recovered lg' D x = apply_writes ?iw D x" if "x \<noteq> ?st" for x
    using that st by (simp add: recovered_def recover_writes_def)
  show ?thesis
  proof (cases "k \<le> length ?iw")
    case True
    have Ek: "E = apply_writes (take k ?iw) D" using True by (simp add: E recover_writes_def)
    have Ea: "E y = D y" if "y \<in> log_area lg" for y
      using off [OF that] by (auto simp: Ek intro!: apply_writes_other dest: in_set_takeD)
    have "install_writes ?l2 E 0 (nat (head_n ?h)) = ?iw"
      using W(8) log_wfD(8) [OF wf2] log_block_area [OF wf] A lg2
        same_log_area(2) [OF same(1)] same_log_area(2) [OF same(2)]
      by (simp add: install_writes_def Ea)
    then have "recovered lg'' E x = apply_writes ?iw D x" if "x \<noteq> ?st" for x
      using that st Ea [OF sa] by (simp add: recovered_def recover_writes_def Ek apply_writes_idem)
    then show ?thesis using wf2 Ea [OF sa] R1 nA by simp
  next
    case False
    have Ex: "E x = (if x = ?st then put_head 0 (lh_sector ?l1) ?h else apply_writes ?iw D x)" for x
      using False off [OF sa] st by (simp add: E recover_writes_def)
    have h: "head_n (E ?st) = 0" using Ex head_n_put_head [OF len, of 0] by simp
    have "log_wf (load_head (E ?st) lg'')"
      using wf same h A by (auto simp: log_wf_def same_log_def logged_def load_head_def)
    moreover have "recovered lg'' E x = recovered lg' D x" if "x \<notin> log_area lg" for x
      using recovered_uncommitted [of E lg'' x] h st nA [OF that] R1 [of x] Ex by simp
    ultimately show ?thesis by blast
  qed
qed


subsection \<open>A whole transaction\<close>

text \<open>
  The typical use of the log that the comment on \<open>log_write\<close> gives: read a block, change it, hand it
  to \<open>log_write\<close>, release it. \<open>transaction\<close> runs a list of such updates between \<open>begin_trans\<close> and
  \<open>commit_trans\<close>.
\<close>

definition log_update :: "u32 \<Rightarrow> (bytes \<Rightarrow> bytes) \<Rightarrow> ('a lstate_scheme, unit) kop" where
  "log_update x f =
     kbind (bread ROOTDEV x) (\<lambda>bp.
     kbind (buf_data bp) (\<lambda>d.
     kthen (buf_store bp (f d))
     (kthen (log_write bp)
     (brelse bp))))"

primrec log_updates :: "(u32 \<times> (bytes \<Rightarrow> bytes)) list \<Rightarrow> ('a lstate_scheme, unit) kop" where
  "log_updates [] = kreturn ()"
| "log_updates (u # us) = kthen (log_update (fst u) (snd u)) (log_updates us)"

definition transaction :: "(u32 \<times> (bytes \<Rightarrow> bytes)) list \<Rightarrow> ('a lstate_scheme, unit) kop" where
  "transaction us = kthen begin_trans (kthen (log_updates us) commit_trans)"

text \<open>What the updates mean for the contents of the blocks.\<close>

definition updated :: "(u32 \<times> (bytes \<Rightarrow> bytes)) list \<Rightarrow> (u32 \<Rightarrow> bytes) \<Rightarrow> u32 \<Rightarrow> bytes" where
  "updated us D = fold (\<lambda>(x, f) D. D(x := f (D x))) us D"

lemma log_inv_hold:
  fixes s t :: "'a lstate_scheme"
  assumes "log_inv X s" "bio_inv t" "klog t = klog s" "x \<notin> log_area (klog s)"
    and "absc t = a_hold x (absc s)"
  shows "log_inv X t"
  using assms abscD [OF assms(5)] by (auto simp: log_inv_def a_hold_def)

lemma log_inv_store:
  fixes s t :: "'a lstate_scheme"
  assumes "log_inv X s" "bio_inv t" "klog t = klog s" "absc t = a_store x d (absc s)"
  shows "log_inv (insert x X) t"
  using assms abscD [OF assms(4)] by (auto simp: log_inv_def a_store_def)

lemma log_inv_release:
  fixes s t :: "'a lstate_scheme"
  assumes "log_inv X s" "bio_inv t" "klog t = klog s" "absc t = a_release x (absc s)"
  shows "log_inv X t"
  using assms abscD [OF assms(4)] by (auto simp: log_inv_def a_release_def)

text \<open>Progress of a transaction that writes the log area only.\<close>

definition tx_to :: "'a lstate_scheme \<Rightarrow> (u32 \<Rightarrow> bytes) \<Rightarrow> 'a lstate_scheme \<Rightarrow> bool" where
  "tx_to s V t \<longleftrightarrow> log_inv {} t \<and> lstate.more t = lstate.more s \<and> a_busy (absc t) = {}
     \<and> lg_busy (klog t) \<and> same_log (klog s) (klog t)
     \<and> (\<forall>y. y \<notin> log_area (klog s) \<longrightarrow> view t y = V y)
     \<and> (\<exists>ws. wlog t = wlog s @ phys_writes ws \<and> dsk t = apply_writes ws (dsk s)
          \<and> fst ` set ws \<subseteq> log_area (klog s) - {lg_start (klog s)})"

lemma log_update_law:
  fixes s :: "'a lstate_scheme"
  assumes inv: "log_inv {} s" and lg: "lg_busy (klog s)" "lh_n (klog s) < lg_size (klog s) - 1"
    and busy: "a_busy (absc s) = {}" and x: "x \<notin> log_area (klog s)"
    and f: "\<And>d. length d = BSIZE \<Longrightarrow> length (f d) = BSIZE"
  shows "wp (log_update x f) (\<lambda>_ t. tx_to s ((view s)(x := f (view s x))) t
     \<and> klog t = log_add x (klog s)) s"
proof -
  let ?lg = "klog s" let ?lb = "log_block ?lg (log_slot x (logged ?lg))"
  note I = log_invD [OF inv] and W = log_wfD [OF log_invD(2) [OF inv]]
  have n: "nat (lh_n ?lg) < 9" using lg(2) I(2) by (auto simp: log_wf_def LOGSIZE_def)
  have cd: "card (a_dirty (absc s)) < 9"
    using card_length [of "logged ?lg"] W(4) I(4) n by simp
  then have room: "a_room x (absc s)" using busy by (simp add: a_room_def NBUF_def)
  have cx: "card (insert x (a_dirty (absc s))) < NBUF"
    using cd card_insert_le_m1 [of 10 "a_dirty (absc s)" x] by (simp add: NBUF_def card_insert_if)
  have wfa: "log_wf (log_add x ?lg)" by (rule log_wf_add [OF I(2) lg(2) x])
  have sl: "log_slot x (logged ?lg) < nat (lh_n (log_add x ?lg))"
    using log_slot_cases [of x "logged ?lg"] logged_log_add [OF I(2) lg(2), of x] log_wfD(4) [OF wfa] by auto
  have lb: "?lb \<in> log_area ?lg - {lg_start ?lg}"
    using log_block_area [OF wfa sl] log_block_neq [OF wfa sl] by auto
  show ?thesis
    unfolding log_update_def wp_kbind wp_kthen
    apply (rule bc.rd_rule [OF I(1) room])
    apply (rule bc.data_rule, assumption, assumption)
    apply (rule bc.store_rule, assumption, assumption, rule f, erule bc.len_law)
    subgoal premises p for i t u
    proof -
      have ku: "klog u = ?lg" "lstate.more u = lstate.more s" using log_rest [OF p(7)] log_rest [OF p(2)] by auto
      have au: "absc u = a_store x (f (view s x)) (a_hold x (absc s))" using p(3,8) by (simp add: a_hold_def)
      have "log_inv {} t" using log_inv_hold [OF inv p(1) _ x p(3)] log_rest [OF p(2)] by simp
      then have iu: "log_inv {x} u" using log_inv_store [OF _ p(6) _ p(8)] log_rest [OF p(7)] by simp
      note Iu = log_invD [OF iu]
      have bu: "a_busy (absc u) = {x}" "a_dirty (absc u) = a_dirty (absc s)"
        using au busy by (simp_all add: a_store_def a_hold_def)
      have vu: "view u = (view s)(x := f (view s x))" "dsk u = dsk s" "wlog u = wlog s"
        using abscD [OF au] by (simp_all add: a_store_def a_hold_def)
      have hu: "holds u i x" using p(4,9) by blast
      have "wp (log_write i) (\<lambda>_ t. bio_inv t \<and> lstate.more t = lstate.more u \<and> klog t = log_add x (klog u)
         \<and> absc t = a_pin x (a_wt (log_block (klog u) (log_slot x (logged (klog u)))) (view u x) (absc u))
         \<and> (\<forall>j y. holds u j y \<longrightarrow> holds t j y)) u"
        by (rule log_write_law [OF Iu(1,2) _ _ hu]) (use lg ku bu cx Iu(5) in simp_all)
      then show ?thesis
      proof (rule wp_mono, elim conjE)
        fix a :: unit and v :: "'a lstate_scheme"
        assume v: "bio_inv v" "lstate.more v = lstate.more u" "klog v = log_add x (klog u)"
          "absc v = a_pin x (a_wt (log_block (klog u) (log_slot x (logged (klog u)))) (view u x) (absc u))"
          "\<forall>j y. holds u j y \<longrightarrow> holds v j y"
        have iv: "log_inv {} v" using log_inv_add [OF iu _ _ v(1,3,4)] lg x ku by simp
        have vv: "view v = (view u)(?lb := f (view s x))" "dsk v = (dsk s)(?lb := f (view s x))"
          "wlog v = wlog s @ phys_writes [(?lb, f (view s x))]"
          using abscD [OF v(4)] ku vu by (simp_all add: a_pin_def phys_writes_def)
        show "wp (brelse i) (\<lambda>_ t. tx_to s ((view s)(x := f (view s x))) t \<and> klog t = log_add x ?lg) v"
        proof (rule bc.rel_rule [OF v(1)])
          show "holds v i x" using v(5) hu by blast
          show "x \<in> a_dirty (absc v) \<or> a_view (absc v) x = a_disk (absc v) x" by (simp add: v(4) a_pin_def)
        next
          fix w assume w: "bio_inv w" "bstate.more w = bstate.more v" "absc w = a_release x (absc v)"
          note kw = log_rest [OF w(2)]
          have ww: "view w = view v" "dsk w = dsk v" "wlog w = wlog v"
            using abscD [OF w(3)] by (simp_all add: a_release_def)
          have "log_inv {} w" by (rule log_inv_release [OF iv w(1) kw(1) w(3)])
          moreover have "a_busy (absc w) = {}" using w(3) v(4) bu by (simp add: a_release_def a_pin_def)
          moreover have "same_log ?lg (klog w)" "lg_busy (klog w)" using kw v(3) ku lg W(5)
            by (simp_all add: same_log_def log_add_def Let_def)
          moreover have "\<exists>ws. wlog w = wlog s @ phys_writes ws \<and> dsk w = apply_writes ws (dsk s)
              \<and> fst ` set ws \<subseteq> log_area ?lg - {lg_start ?lg}"
            by (rule exI [of _ "[(?lb, f (view s x))]"]) (use lb ww vv in simp)
          moreover have "\<forall>y. y \<notin> log_area ?lg \<longrightarrow> view w y = ((view s)(x := f (view s x))) y"
            using lb ww vv vu by auto
          ultimately show "tx_to s ((view s)(x := f (view s x))) w \<and> klog w = log_add x ?lg"
            using kw v(2,3) ku by (simp add: tx_to_def)
        qed
      qed
    qed
    done
qed

lemma updated_simps [simp]:
  "updated [] D = D"
  "updated (u # us) D = updated us (D(fst u := snd u (D (fst u))))"
  by (simp_all add: updated_def split_beta)

lemma updated_cong:
  assumes "\<And>y. y \<notin> A \<Longrightarrow> D y = E y" "\<And>u. u \<in> set us \<Longrightarrow> fst u \<notin> A" "y \<notin> A"
  shows "updated us D y = updated us E y"
  using assms(1,2)
proof (induction us arbitrary: D E)
  case (Cons u us)
  have "updated us (D(fst u := snd u (D (fst u)))) y = updated us (E(fst u := snd u (E (fst u)))) y"
    by (rule Cons.IH) (use Cons.prems in auto)
  then show ?case unfolding updated_simps .
qed (use assms(3) in simp)

lemma updated_other: "x \<notin> fst ` set us \<Longrightarrow> updated us D x = D x"
proof (induction us arbitrary: D)
  case (Cons u us)
  then have "updated us (D(fst u := snd u (D (fst u)))) x = (D(fst u := snd u (D (fst u)))) x" by simp
  then show ?case unfolding updated_simps using Cons.prems by simp
qed simp

lemma tx_to_trans:
  assumes "tx_to s V t" "tx_to t W u" "\<And>y. y \<notin> log_area (klog s) \<Longrightarrow> W y = W' y"
  shows "tx_to s W' u"
proof -
  have S: "same_log (klog s) (klog t)" using assms(1) by (simp add: tx_to_def)
  obtain ws where ws: "wlog t = wlog s @ phys_writes ws" "dsk t = apply_writes ws (dsk s)"
      "fst ` set ws \<subseteq> log_area (klog s) - {lg_start (klog s)}" using assms(1) by (auto simp: tx_to_def)
  obtain vs where vs: "wlog u = wlog t @ phys_writes vs" "dsk u = apply_writes vs (dsk t)"
      "fst ` set vs \<subseteq> log_area (klog t) - {lg_start (klog t)}" using assms(2) by (auto simp: tx_to_def)
  have "wlog u = wlog s @ phys_writes (ws @ vs)" "dsk u = apply_writes (ws @ vs) (dsk s)"
    using ws(1,2) vs(1,2) by (simp_all add: phys_writes_def)
  moreover have "fst ` set (ws @ vs) \<subseteq> log_area (klog s) - {lg_start (klog s)}"
    using ws(3) vs(3) S same_log_area(1) [OF S] by (simp add: image_Un same_log_def)
  ultimately have w: "\<exists>ws. wlog u = wlog s @ phys_writes ws \<and> dsk u = apply_writes ws (dsk s)
      \<and> fst ` set ws \<subseteq> log_area (klog s) - {lg_start (klog s)}" by blast
  have "same_log (klog s) (klog u)" using S assms(2) by (simp add: tx_to_def same_log_def)
  moreover have "\<forall>y. y \<notin> log_area (klog s) \<longrightarrow> view u y = W' y"
    using assms(2,3) same_log_area(1) [OF S] by (simp add: tx_to_def)
  ultimately show ?thesis using assms(1,2) w by (simp add: tx_to_def)
qed

lemma log_updates_law:
  fixes s :: "'a lstate_scheme"
  assumes "log_inv {} s" "lg_busy (klog s)" "a_busy (absc s) = {}"
    and "lh_n (klog s) + int (length us) < lg_size (klog s)"
    and "\<And>u. u \<in> set us \<Longrightarrow> fst u \<notin> log_area (klog s)"
    and "\<And>u d. u \<in> set us \<Longrightarrow> length d = BSIZE \<Longrightarrow> length (snd u d) = BSIZE"
  shows "wp (log_updates us) (\<lambda>_ t. tx_to s (updated us (view s)) t) s"
  using assms
proof (induction us arbitrary: s)
  case Nil
  have "\<exists>ws. phys_writes ws = [] \<and> dsk s = apply_writes ws (dsk s)
      \<and> fst ` set ws \<subseteq> log_area (klog s) - {lg_start (klog s)}"
    by (rule exI [of _ "[]"]) (simp add: phys_writes_def)
  then show ?case using Nil log_wfD(5) [OF log_invD(2) [OF Nil(1)]] by (simp add: tx_to_def same_log_def)
next
  case (Cons u us)
  let ?V = "(view s)(fst u := snd u (view s (fst u)))"
  have n: "lh_n (klog s) < lg_size (klog s) - 1" using Cons.prems(4) by simp
  show ?case unfolding log_updates.simps wp_kthen
  proof (rule wp_mono [OF log_update_law [OF Cons.prems(1,2) n Cons.prems(3)]])
    fix a :: unit and t :: "'a lstate_scheme"
    assume t: "tx_to s ?V t \<and> klog t = log_add (fst u) (klog s)"
    have S: "same_log (klog s) (klog t)" using t unfolding tx_to_def by blast
    have le: "lh_n (klog t) \<le> lh_n (klog s) + 1" using t by (simp add: log_add_def Let_def)
    have IH: "wp (log_updates us) (\<lambda>_ w. tx_to t (updated us (view t)) w) t"
    proof (rule Cons.IH)
      show "log_inv {} t" "lg_busy (klog t)" "a_busy (absc t) = {}" using t by (auto simp: tx_to_def)
      show "lh_n (klog t) + int (length us) < lg_size (klog t)"
        using Cons.prems(4) le S by (simp add: same_log_def)
    qed (use Cons.prems(5,6) same_log_area(1) [OF S] in auto)
    have "updated us (view t) y = updated us ?V y" if "y \<notin> log_area (klog s)" for y
      by (rule updated_cong [OF _ _ that]) (use t Cons.prems(5) in \<open>auto simp: tx_to_def\<close>)
    then show "wp (log_updates us) (\<lambda>_ w. tx_to s (updated (u # us) (view s)) w) t"
      unfolding updated_simps using t by (intro wp_mono [OF IH]) (blast intro: tx_to_trans)
  qed (use Cons.prems(5,6) in auto)
qed

text \<open>A crash before the commit point: the header still says that nothing is committed.\<close>

lemma uncommitted_crash_recovers:
  fixes s :: "'a lstate_scheme" and r :: "'b lstate_scheme"
  assumes inv: "log_inv {} s" and sb: "sb_log (sb_of (dsk s 1)) (klog s)" "1 \<notin> log_area (klog s)"
    and cold: "cold r" and crash: "dsk r = apply_writes ws (dsk s)"
    and ws: "fst ` set ws \<subseteq> log_area (klog s) - {lg_start (klog s)}"
  shows "wp initlog (\<lambda>_ u. \<forall>x. x \<notin> log_area (klog s) \<longrightarrow> dsk u x = dsk s x) (binit r)"
proof -
  note I = log_invD [OF inv]
  have out: "dsk r x = dsk s x" if "x \<notin> log_area (klog s) - {lg_start (klog s)}" for x
    using ws that unfolding crash by (intro apply_writes_other) blast
  have st: "lg_start (klog s) \<in> log_area (klog s)" by (rule log_start_area [OF I(2)])
  have h: "head_n (dsk r (lg_start (klog s))) = 0" using out I(6) by simp
  have "wp initlog (\<lambda>_ t. bio_inv t \<and> a_busy (absc t) = {} \<and> a_dirty (absc t) = {}
     \<and> (\<exists>lg'. same_log (klog s) lg' \<and> dsk t = recovered lg' (dsk r)
         \<and> wlog t = wlog r @ phys_writes (recover_writes (load_head (dsk r (lg_start (klog s))) lg') (dsk r)))) (binit r)"
    using initlog_law [OF cold, of "klog s"] sb out [of 1] log_wf_load_zero [OF I(2) _ h] by simp
  then show ?thesis
  proof (rule wp_mono)
    fix a :: unit and u :: "'b lstate_scheme"
    assume "bio_inv u \<and> a_busy (absc u) = {} \<and> a_dirty (absc u) = {}
       \<and> (\<exists>lg'. same_log (klog s) lg' \<and> dsk u = recovered lg' (dsk r)
         \<and> wlog u = wlog r @ phys_writes (recover_writes (load_head (dsk r (lg_start (klog s))) lg') (dsk r)))"
    then obtain lg' where lg': "same_log (klog s) lg'" "dsk u = recovered lg' (dsk r)" by blast
    show "\<forall>x. x \<notin> log_area (klog s) \<longrightarrow> dsk u x = dsk s x"
    proof (intro allI impI)
      fix x assume x: "x \<notin> log_area (klog s)"
      with st have "x \<noteq> lg_start lg'" using lg'(1) by (auto simp: same_log_def)
      then show "dsk u x = dsk s x"
        using recovered_uncommitted [of "dsk r" lg' x] h lg' out [of x] x by (simp add: same_log_def)
    qed
  qed
qed

lemma commit_effect:
  fixes s :: "'a lstate_scheme"
  assumes inv: "log_inv {} s" and busy: "a_busy (absc s) = {}"
  shows "wp commit_trans (\<lambda>_ t. bio_inv t \<and> klog t = (klog s)\<lparr>lh_n := 0, lg_busy := False\<rparr>
     \<and> lstate.more t = lstate.more s \<and> a_busy (absc t) = {} \<and> log_inv {} t
     \<and> (\<forall>x. x \<notin> log_area (klog s) \<longrightarrow> dsk t x = view s x \<and> view t x = view s x)
     \<and> wlog t = wlog s @ phys_writes (if 0 < lh_n (klog s) then commit_writes (klog s) (view s) else [])) s"
proof (rule wp_mono [OF commit_trans_law [OF log_invD(1,2) [OF inv] busy log_invD(4) [OF inv]]], elim conjE)
  let ?lg = "klog s" and ?cw = "if 0 < lh_n (klog s) then commit_writes (klog s) (view s) else []"
  note I = log_invD [OF inv]
  fix a :: unit and t :: "'a lstate_scheme"
  assume t: "bio_inv t" "lstate.more t = lstate.more s" "klog t = ?lg\<lparr>lh_n := 0, lg_busy := False\<rparr>"
    "absc t = a_writes ?cw (absc s)"
  have v: "view t = apply_writes ?cw (view s)" "dsk t = apply_writes ?cw (dsk s)"
    "wlog t = wlog s @ phys_writes ?cw"
    using abscD [OF t(4)] by (simp_all add: a_writes_sel)
  have clean: "view s x = dsk s x" if "x \<notin> set (logged ?lg)" for x by (rule log_inv_clean [OF inv busy that])
  have n0: "logged ?lg = []" if "\<not> 0 < lh_n ?lg" using that by (simp add: logged_def)
  have st: "lg_start ?lg \<in> log_area ?lg" by (rule log_start_area [OF I(2)])
  have eff: "dsk t x = view s x \<and> view t x = view s x" if "x \<notin> log_area ?lg" for x
  proof -
    have "x \<noteq> lg_start ?lg" using st that by blast
    then have "apply_writes ?cw D x = (if x \<in> set (logged ?lg) then view s x else D x)" for D
      using n0 by (auto simp: commit_writes_def Let_def commit_install [OF inv busy] apply_map)
    then show ?thesis using clean v by simp
  qed
  have ab: "a_busy (absc t) = {}" "a_dirty (absc t) = {}"
    using t(4) busy I(4) n0 by (cases "0 < lh_n ?lg";
      auto simp: a_writes_sel commit_writes_def Let_def commit_install [OF inv busy] image_image)+
  have len: "length (view s (lg_start ?lg)) = BSIZE" using I(1) by simp
  have "head_n (dsk t (lg_start ?lg)) = 0"
    using I(6) head_n_put_head [OF length_put_head [OF len log_wfD(7) [OF I(2)]], of 0]
    by (auto simp: v commit_writes_def Let_def)
  then have "log_inv {} t"
    using t(1,3) ab I(2) by (simp add: log_inv_def log_wf_def logged_def log_area_def)
  then show "bio_inv t \<and> klog t = ?lg\<lparr>lh_n := 0, lg_busy := False\<rparr>
     \<and> lstate.more t = lstate.more s \<and> a_busy (absc t) = {} \<and> log_inv {} t
     \<and> (\<forall>x. x \<notin> log_area ?lg \<longrightarrow> dsk t x = view s x \<and> view t x = view s x)
     \<and> wlog t = wlog s @ phys_writes ?cw"
    using t ab eff v(3) by blast
qed


subsection \<open>The properties of the log\<close>

lemma tx_toD:
  assumes "tx_to s V t"
  shows "log_inv {} t" "a_busy (absc t) = {}" "same_log (klog s) (klog t)" "log_area (klog t) = log_area (klog s)"
    "y \<notin> log_area (klog s) \<Longrightarrow> view t y = V y"
  using assms same_log_area(1) by (auto simp: tx_to_def)

lemma same_log_sb: "same_log lg lg' \<Longrightarrow> sb_log sb lg' = sb_log sb lg"
  by (simp add: same_log_def sb_log_def)

lemma tx_crash_recovers:
  fixes s t :: "'a lstate_scheme" and r :: "'b lstate_scheme"
  assumes inv: "log_inv {} s" and sb: "sb_log (sb_of (dsk s 1)) (klog s)" "1 \<notin> log_area (klog s)"
    and T: "log_inv {} t" "a_busy (absc t) = {}" "same_log (klog s) (klog t)" "log_area (klog t) = log_area (klog s)"
      "\<And>y. y \<notin> log_area (klog s) \<Longrightarrow> view t y = V y" and V1: "V 1 = dsk s 1"
    and ws: "dsk t = apply_writes ws (dsk s)" "fst ` set ws \<subseteq> log_area (klog s) - {lg_start (klog s)}"
    and cw: "cw = (if 0 < lh_n (klog t) then commit_writes (klog t) (view t) else [])"
    and cold: "cold r" and crash: "dsk r = apply_writes (take k (ws @ cw)) (dsk s)"
  shows "wp initlog (\<lambda>_ u. (\<forall>x. x \<notin> log_area (klog s) \<longrightarrow> dsk u x = dsk s x) \<or>
     (\<forall>x. x \<notin> log_area (klog s) \<longrightarrow> dsk u x = V x)) (binit r)"
proof (cases "k \<le> length ws \<or> cw = []")
  case True
  then have "dsk r = apply_writes (take k ws) (dsk s)" using crash by auto
  moreover have "fst ` set (take k ws) \<subseteq> log_area (klog s) - {lg_start (klog s)}"
    using ws(2) by (auto dest: in_set_takeD)
  ultimately show ?thesis
    by (intro wp_mono [OF uncommitted_crash_recovers [OF inv sb cold]]) auto
next
  case False
  have out: "dsk t x = dsk s x" if "x \<notin> log_area (klog s)" for x
    unfolding ws(1) by (rule apply_writes_other) (use ws(2) that in blast)
  have "cw = commit_writes (klog t) (view t)" using cw False by (simp split: if_splits)
  then have "dsk r = apply_writes (take (k - length ws) (commit_writes (klog t) (view t))) (dsk t)"
    using crash ws(1) False by simp
  then have "wp initlog (\<lambda>_ u. (\<forall>x. x \<notin> log_area (klog t) \<longrightarrow> dsk u x = dsk t x) \<or>
     (\<forall>x. x \<notin> log_area (klog t) \<longrightarrow> dsk u x = view t x)) (binit r)"
    by (intro commit_crash_recovers [OF T(1,2) _ _ _ cold])
       (use sb out V1 T(4) T(5) [of 1] same_log_sb [OF T(3)] in simp_all)
  then show ?thesis by (rule wp_mono) (use T(4,5) out in auto)
qed

lemma begin_trans_law:
  fixes s :: "'a lstate_scheme"
  assumes "log_inv {} s" "\<not> lg_busy (klog s)"
  shows "wp begin_trans (\<lambda>_ t. t = set_log (\<lambda>l. l\<lparr>lg_busy := True\<rparr>) s \<and> log_inv {} t) s"
  using assms by (simp add: begin_trans_def log_inv_def log_wf_def logged_def log_area_def log_block_def)

text \<open>
  C1. A transaction is atomic with respect to crashes. A kernel runs \<open>begin_trans\<close>, any list of block
  updates that fits the log (each: \<open>bread\<close>, modify, \<open>log_write\<close>, \<open>brelse\<close>), and \<open>commit_trans\<close>. The
  run returns, with the updates on disk. If the machine stops after any number \<open>k\<close> of the sector
  writes it issues and a kernel boots from that disk, \<open>initlog\<close> succeeds and leaves every
  block outside the log area as before the transaction, or every one as after it.
\<close>

theorem transaction_crash_atomic:
  fixes s :: "'a lstate_scheme"
  assumes inv: "log_inv {} s" "lh_n (klog s) = 0" "\<not> lg_busy (klog s)" "a_busy (absc s) = {}"
    and sb: "sb_log (sb_of (dsk s 1)) (klog s)" "1 \<notin> log_area (klog s)"
    and us: "int (length us) < lg_size (klog s)" "1 \<notin> fst ` set us"
      "\<And>u. u \<in> set us \<Longrightarrow> fst u \<notin> log_area (klog s)"
      "\<And>u d. u \<in> set us \<Longrightarrow> length d = BSIZE \<Longrightarrow> length (snd u d) = BSIZE"
  shows "\<exists>t ws. transaction us s = Ok ((), t) \<and> wlog t = wlog s @ ws
    \<and> (\<forall>x. x \<notin> log_area (klog s) \<longrightarrow> dsk t x = updated us (dsk s) x)
    \<and> (\<forall>k (r :: 'a lstate_scheme). cold r \<longrightarrow> disk r = apply_writes (take k ws) (disk s) \<longrightarrow>
         wp initlog (\<lambda>_ u. (\<forall>x. x \<notin> log_area (klog s) \<longrightarrow> dsk u x = dsk s x) \<or>
           (\<forall>x. x \<notin> log_area (klog s) \<longrightarrow> dsk u x = updated us (dsk s) x)) (binit r))"
proof -
  let ?A = "log_area (klog s)" and ?b = "set_log (\<lambda>l. l\<lparr>lg_busy := True\<rparr>) s"
  from begin_trans_law [OF inv(1,3)] have b: "begin_trans s = Ok ((), ?b)" and ib: "log_inv {} ?b"
    by (auto simp: wp_iff)
  have A: "log_area (klog ?b) = ?A" by (simp add: log_area_def)
  have clean: "view s = dsk s"
    using log_inv_clean [OF inv(1,4)] inv(2) by (auto simp: logged_def)
  have "wp (log_updates us) (\<lambda>_ t. tx_to ?b (updated us (view ?b)) t) ?b"
    by (rule log_updates_law [OF ib]) (use inv us A in auto)
  then obtain t where t: "log_updates us ?b = Ok ((), t)" and tx: "tx_to ?b (updated us (dsk s)) t"
    by (auto simp: wp_iff clean)
  note T = tx_toD [OF tx, unfolded A]
  from tx obtain ws where ws: "wlog t = wlog ?b @ phys_writes ws" "dsk t = apply_writes ws (dsk ?b)"
    "fst ` set ws \<subseteq> log_area (klog ?b) - {lg_start (klog ?b)}" by (auto simp: tx_to_def)
  define cw where "cw = (if 0 < lh_n (klog t) then commit_writes (klog t) (view t) else [])"
  from commit_effect [OF T(1,2)] obtain u where u: "commit_trans t = Ok ((), u)"
    and eff: "\<And>x. x \<notin> ?A \<Longrightarrow> dsk u x = updated us (dsk s) x" "wlog u = wlog t @ phys_writes cw"
    using T(4,5) by (auto simp: wp_iff cw_def)
  have "transaction us s = Ok ((), u)" by (simp add: transaction_def kthen_def kbind_def b t u)
  moreover have "wlog u = wlog s @ phys_writes (ws @ cw)" using ws(1) eff(2) by (simp add: phys_writes_def)
  moreover have "wp initlog (\<lambda>_ u. (\<forall>x. x \<notin> ?A \<longrightarrow> dsk u x = dsk s x) \<or>
      (\<forall>x. x \<notin> ?A \<longrightarrow> dsk u x = updated us (dsk s) x)) (binit r)"
    if "cold r" "disk r = apply_writes (take k (phys_writes (ws @ cw))) (disk s)" for k and r :: "'a lstate_scheme"
    using tx_crash_recovers [OF ib _ _ tx_toD [OF tx] _ ws(2,3) cw_def that(1)] dsk_apply [OF that(2)] sb A us(2)
    by (simp add: sb_log_def updated_other)
  ultimately show ?thesis using eff(1) by blast
qed

text \<open>A small disk of 1024 sectors whose last ten are the log, and a kernel that has booted from it.\<close>

definition demo_sb :: bytes where
  "demo_sb = put32 (put32 (replicate BSIZE 0) 12 10) 0 1024"

definition demo_log :: logrec where
  "demo_log = \<lparr>lg_start = 1014, lg_size = 10, lg_busy = False, lg_dev = ROOTDEV, lh_n = 0,
     lh_sector = replicate LOGSIZE 0\<rparr>"

definition demo_raw :: lstate where
  "demo_raw = \<lparr>disk = (\<lambda>x. if x = phys_sector ROOTDEV 1 then demo_sb else replicate BSIZE 0), wlog = [],
     usb_ready = True, hc_dead = False, rec_panics = False, dev_fails = (\<lambda>_ _. False), dev_junk = (\<lambda>_ d. d), dev_torn = (\<lambda>_ d _. d),
     bufs = (\<lambda>_. demo_buf), klog = demo_log\<rparr>"

lemma demo_log_sel:
  "lg_size demo_log = 10" "lh_n demo_log = 0" "\<not> lg_busy demo_log" "lg_start demo_log = 1014"
  by (simp_all add: demo_log_def)

lemma demo_sb_simps:
  "length demo_sb = BSIZE" "sb_size (sb_of demo_sb) = 1024" "sb_nlog (sb_of demo_sb) = 10"
  by (simp_all add: demo_sb_def BSIZE_def sb_of_def get_put_other)

lemma get32_zero: "off + 4 \<le> n \<Longrightarrow> get32 (replicate n 0) off = 0"
  by (simp add: get32_def)

lemma demo_area: "log_area demo_log = {1014, 1015, 1016, 1017, 1018, 1019, 1020, 1021, 1022, 1023}"
  by (simp add: log_area_def demo_log_def lessThan_nat_numeral lessThan_Suc image_insert insert_commute)

lemma demo_cold: "cold demo_raw"
  by (simp add: cold_def demo_raw_def dev_ok_def demo_sb_simps demo_log_def demo_buf_def)

lemma demo_dsk: "dsk demo_raw x = (if x = 1 then demo_sb else replicate BSIZE 0)"
  by (simp add: dsk_def demo_raw_def)

lemma demo_inv: "log_inv {} (binit demo_raw)" "klog (binit demo_raw) = demo_log"
  "a_busy (absc (binit demo_raw)) = {}" "dsk (binit demo_raw) = dsk demo_raw"
proof -
  note C = cold_binit [OF demo_cold]
  show k: "klog (binit demo_raw) = demo_log" using C(3) by (simp add: demo_raw_def)
  show b: "a_busy (absc (binit demo_raw)) = {}" by (simp add: C(2))
  show d: "dsk (binit demo_raw) = dsk demo_raw" using abscD(2) [OF C(2)] by simp
  have "log_wf demo_log" by (simp add: log_wf_def logged_def) (simp add: demo_log_def LOGSIZE_def)
  moreover have "logged demo_log = []" by (simp add: logged_def demo_log_def)
  moreover have "head_n (dsk demo_raw 1014) = 0"
    by (simp add: demo_dsk head_n_def get32_zero BSIZE_def)
  ultimately show "log_inv {} (binit demo_raw)"
    using C(1,2) b d by (simp add: log_inv_def k) (simp add: demo_log_def)
qed

theorem transaction_crash_atomic_witness:
  "\<exists>t ws. transaction [(100, \<lambda>d. d[0 := 7])] (binit demo_raw) = Ok ((), t)
    \<and> wlog t = wlog (binit demo_raw) @ ws
    \<and> (\<forall>x. x \<notin> log_area demo_log \<longrightarrow>
         dsk t x = updated [(100, \<lambda>d. d[0 := 7])] (dsk demo_raw) x)
    \<and> (\<forall>k (r :: lstate). cold r \<longrightarrow> disk r = apply_writes (take k ws) (disk (binit demo_raw)) \<longrightarrow>
         wp initlog (\<lambda>_ u. (\<forall>x. x \<notin> log_area demo_log \<longrightarrow> dsk u x = dsk demo_raw x) \<or>
           (\<forall>x. x \<notin> log_area demo_log \<longrightarrow>
              dsk u x = updated [(100, \<lambda>d. d[0 := 7])] (dsk demo_raw) x)) (binit r))"
proof -
  have "sb_log (sb_of (dsk demo_raw 1)) demo_log"
    by (simp add: sb_log_def demo_dsk demo_sb_simps) (simp add: demo_log_def)
  moreover have "(1 :: u32) \<notin> log_area demo_log" "(100 :: u32) \<notin> log_area demo_log"
    by (simp_all add: demo_area)
  ultimately show ?thesis
    using transaction_crash_atomic [of "binit demo_raw" "[(100, \<lambda>d. d[0 := 7])]"] demo_inv
    by (simp add: demo_log_sel)
qed

lemma log_wf_load_same:
  assumes "log_wf (load_head d lg)" "same_log lg lg'"
  shows "log_wf (load_head d lg')" "logged (load_head d lg') = logged (load_head d lg)"
proof -
  have n: "nat (head_n d) \<le> LOGSIZE" using log_wfD(3) [OF assms(1)] by simp
  show l: "logged (load_head d lg') = logged (load_head d lg)" by (simp add: logged_def load_head_def)
  have "length (lh_sector (load_head d lg')) = LOGSIZE" using assms(2) n by (simp add: load_head_def same_log_def)
  then show "log_wf (load_head d lg')"
    using assms l same_log_area(1) [OF assms(2)] by (simp add: log_wf_def same_log_def)
qed

text \<open>
  C3. Recovery can be interrupted. A kernel boots from a disk whose log header is well formed;
  \<open>initlog\<close> returns. If the machine stops after any number of the sector writes of that recovery
  and a kernel boots again, its \<open>initlog\<close> returns too, with the same contents of every block
  outside the log area as the uninterrupted recovery.
\<close>

theorem recovery_crash_idempotent:
  fixes r :: "'a lstate_scheme"
  assumes cold: "cold r" and sb: "sb_log (sb_of (dsk r 1)) lg" "1 \<notin> log_area lg"
    and lg: "length (lh_sector lg) = LOGSIZE" "log_wf (load_head (dsk r (lg_start lg)) lg)"
      "1 \<notin> set (logged (load_head (dsk r (lg_start lg)) lg))"
  shows "\<exists>u ws. initlog (binit r) = Ok ((), u) \<and> wlog u = wlog r @ ws
    \<and> (\<forall>k (r' :: 'a lstate_scheme). cold r' \<longrightarrow> disk r' = apply_writes (take k ws) (disk r) \<longrightarrow>
         wp initlog (\<lambda>_ v. \<forall>x. x \<notin> log_area lg \<longrightarrow> dsk v x = dsk u x) (binit r'))"
proof -
  let ?st = "lg_start lg"
  note same = log_wf_load_same [OF lg(2)]
  from initlog_law [OF cold sb(1) same(1)] obtain u lg1 where u: "initlog (binit r) = Ok ((), u)"
    and lg1: "same_log lg lg1" "dsk u = recovered lg1 (dsk r)"
      "wlog u = wlog r @ phys_writes (recover_writes (load_head (dsk r ?st) lg1) (dsk r))"
    by (auto simp: wp_iff)
  let ?rw = "recover_writes (load_head (dsk r ?st) lg1) (dsk r)"
  have len: "length (dsk r ?st) = BSIZE" using cold by (simp add: cold_def dev_ok_def dsk_def)
  have ne: "1 \<noteq> ?st" using log_start_area [OF lg(2)] sb(2) by auto
  have "1 \<notin> fst ` set ?rw"
    using fst_install_writes [OF same(1) [OF lg1(1)], of "dsk r"] same(2) [OF lg1(1)] lg(3) ne lg1(1)
    by (auto simp: recover_writes_def same_log_def) (metis fst_conv image_eqI list.set_map)
  then have off: "1 \<notin> fst ` set (take k ?rw)" for k by (auto dest: in_set_takeD)
  have "wp initlog (\<lambda>_ v. \<forall>x. x \<notin> log_area lg \<longrightarrow> dsk v x = dsk u x) (binit r')"
    if r': "cold r'" "disk r' = apply_writes (take k (phys_writes ?rw)) (disk r)" for k and r' :: "'a lstate_scheme"
  proof -
    have E: "dsk r' = apply_writes (take k ?rw) (dsk r)" by (rule dsk_apply [OF r'(2)])
    have sb1: "sb_log (sb_of (dsk r' 1)) lg" using sb(1) off by (simp add: E apply_writes_other)
    note P = recover_prefix [OF same(1) [OF lg1(1)] lg1(1) _ len E]
    from initlog_law [OF r'(1) sb1 P [THEN conjunct1]] show ?thesis
      by (rule wp_mono) (use P lg1(2) in auto)
  qed
  then show ?thesis using u lg1(3) by blast
qed

text \<open>The disk of a kernel that stopped right after its commit point: one block, sector 100, is logged.\<close>

definition demo_log1 :: logrec where
  "demo_log1 = demo_log\<lparr>lh_n := 1, lh_sector := 100 # replicate 9 0\<rparr>"

definition demo_head :: bytes where
  "demo_head = put_head 1 (lh_sector demo_log1) (replicate BSIZE 0)"

definition demo_committed :: lstate where
  "demo_committed = demo_raw\<lparr>disk := (disk demo_raw)(phys_sector ROOTDEV 1014 := demo_head)\<rparr>"

lemma demo_log1_facts:
  "log_wf demo_log1" "same_log demo_log1 demo_log" "lh_n demo_log1 = 1" "logged demo_log1 = [100]"
proof -
  show l: "logged demo_log1 = [100]" by (simp add: logged_def demo_log1_def)
  show "lh_n demo_log1 = 1" by (simp add: demo_log1_def)
  have a: "log_area demo_log1 = log_area demo_log" by (simp add: log_area_def demo_log1_def)
  show "log_wf demo_log1"
    by (simp add: log_wf_def l a demo_area) (simp add: demo_log1_def demo_log_def LOGSIZE_def)
  show "same_log demo_log1 demo_log"
    by (simp add: same_log_def demo_log1_def) (simp add: demo_log_def)
qed

lemma demo_head_facts:
  "length demo_head = BSIZE" "logged (load_head demo_head demo_log) = [100]" "log_wf (load_head demo_head demo_log)"
  using logged_load_put(1) [OF demo_log1_facts(1,2), of "replicate BSIZE 0"]
    log_wf_load_put [OF demo_log1_facts(1,2), of "replicate BSIZE 0"]
  by (simp_all add: demo_head_def demo_log1_facts(3,4) LOGSIZE_def)

lemma demo_committed_facts:
  "cold demo_committed" "dsk demo_committed 1 = demo_sb" "dsk demo_committed 1014 = demo_head"
  using demo_cold
  by (auto simp: cold_def demo_committed_def dev_ok_def demo_head_facts(1) dsk_def) (simp add: demo_raw_def)

theorem recovery_crash_idempotent_witness:
  "\<exists>u ws. initlog (binit demo_committed) = Ok ((), u) \<and> wlog u = wlog demo_committed @ ws
    \<and> (\<forall>k (r' :: lstate). cold r' \<longrightarrow> disk r' = apply_writes (take k ws) (disk demo_committed) \<longrightarrow>
         wp initlog (\<lambda>_ v. \<forall>x. x \<notin> log_area demo_log \<longrightarrow> dsk v x = dsk u x) (binit r'))"
  using recovery_crash_idempotent [of demo_committed demo_log] demo_committed_facts demo_head_facts
  by (simp add: demo_area sb_log_def demo_sb_simps demo_log_sel) (simp add: demo_log_def)

text \<open>
  \<open>commit_trans\<close> succeeds on every transaction that \<open>log_write\<close> accepted: it returns (no panic for
  want of buffers, no sleep), every logged block is on disk at its home location, nothing stays
  pinned, the log is empty and free again, and the state of the rest of the kernel is unchanged.
\<close>

theorem commit_trans_installs:
  fixes s :: "'a lstate_scheme"
  assumes "log_inv {} s" and "a_busy (absc s) = {}"
  shows "\<exists>t. commit_trans s = Ok ((), t) \<and> log_inv {} t \<and> lstate.more t = lstate.more s
    \<and> klog t = (klog s)\<lparr>lh_n := 0, lg_busy := False\<rparr> \<and> a_busy (absc t) = {} \<and> a_dirty (absc t) = {}
    \<and> (\<forall>x. x \<notin> log_area (klog s) \<longrightarrow> dsk t x = view s x \<and> view t x = view s x)"
proof -
  from commit_effect [OF assms] obtain t where t: "commit_trans s = Ok ((), t)" "log_inv {} t"
    "lstate.more t = lstate.more s" "klog t = (klog s)\<lparr>lh_n := 0, lg_busy := False\<rparr>" "a_busy (absc t) = {}"
    "\<forall>x. x \<notin> log_area (klog s) \<longrightarrow> dsk t x = view s x \<and> view t x = view s x"
    by (auto simp: wp_iff)
  moreover have "a_dirty (absc t) = {}" using log_invD(4) [OF t(2)] t(4) by (simp add: logged_def)
  ultimately show ?thesis by blast
qed

theorem commit_trans_installs_witness:
  "\<exists>t. commit_trans (binit demo_raw) = Ok ((), t) \<and> log_inv {} t \<and> lstate.more t = lstate.more (binit demo_raw)
    \<and> klog t = demo_log\<lparr>lh_n := 0, lg_busy := False\<rparr> \<and> a_busy (absc t) = {} \<and> a_dirty (absc t) = {}
    \<and> (\<forall>x. x \<notin> log_area demo_log \<longrightarrow> dsk t x = view (binit demo_raw) x \<and> view t x = view (binit demo_raw) x)"
  using commit_trans_installs [OF demo_inv(1,3)] unfolding demo_inv(2) .

end
