(* ===== verification/Cstring.thy ===== *)
theory Cstring
  imports Prelude
begin

section \<open>Byte strings and memory blocks (\<open>kernel/string.c\<close>)\<close>

text \<open>
  \<open>memset\<close> and \<open>memmove\<close> work on the byte-addressed memory, with the x86 string instructions they use
  written as loops at 32-bit addresses. The functions that only read (\<open>memcmp\<close>, \<open>strncmp\<close>,
  \<open>strlen\<close>) take a pointer as the function from an offset to the byte there; those that fill a
  separate array (\<open>strncpy\<close>, \<open>safestrcpy\<close>) return the bytes they store, from offset 0 on.
\<close>

type_synonym mem = "u32 \<Rightarrow> u8"
type_synonym cptr = "nat \<Rightarrow> u8"


subsection \<open>Operations\<close>

primrec stosb :: "nat \<Rightarrow> u32 \<Rightarrow> u8 \<Rightarrow> mem \<Rightarrow> mem" where
  "stosb 0 dst c m = m"
| "stosb (Suc k) dst c m = stosb k (dst + 1) c (m(dst := c))"

definition store32 :: "u32 \<Rightarrow> u32 \<Rightarrow> mem \<Rightarrow> mem" where
  "store32 a w m = m(a := ucast w, a + 1 := ucast (drop_bit 8 w),
     a + 2 := ucast (drop_bit 16 w), a + 3 := ucast (drop_bit 24 w))"

primrec stosl :: "nat \<Rightarrow> u32 \<Rightarrow> u32 \<Rightarrow> mem \<Rightarrow> mem" where
  "stosl 0 dst w m = m"
| "stosl (Suc k) dst w m = stosl k (dst + 4) w (store32 dst w m)"

text \<open>\<open>(int)dst % 4 == 0\<close> holds of the signed value exactly when the low two bits of \<open>dst\<close> are clear.\<close>

definition memset :: "u32 \<Rightarrow> u32 \<Rightarrow> u32 \<Rightarrow> mem \<Rightarrow> mem" where
  "memset dst c n m =
     (if sint dst mod 4 = 0 \<and> n mod 4 = 0 then
        (let c = c AND 0xFF in
         stosl (unat (n div 4)) dst (push_bit 24 c OR push_bit 16 c OR push_bit 8 c OR c) m)
      else stosb (unat n) dst (ucast c) m)"

fun memcmp_from :: "cptr \<Rightarrow> cptr \<Rightarrow> nat \<Rightarrow> nat \<Rightarrow> int" where
  "memcmp_from s1 s2 i 0 = 0"
| "memcmp_from s1 s2 i (Suc n) =
     (if s1 i \<noteq> s2 i then uint (s1 i) - uint (s2 i) else memcmp_from s1 s2 (i + 1) n)"

definition memcmp :: "cptr \<Rightarrow> cptr \<Rightarrow> u32 \<Rightarrow> int" where
  "memcmp s1 s2 n = memcmp_from s1 s2 0 (unat n)"

text \<open>\<open>rep movsb\<close> with the direction flag clear and set.\<close>

primrec movsb_up :: "nat \<Rightarrow> u32 \<Rightarrow> u32 \<Rightarrow> mem \<Rightarrow> mem" where
  "movsb_up 0 d s m = m"
| "movsb_up (Suc k) d s m = movsb_up k (d + 1) (s + 1) (m(d := m s))"

primrec movsb_down :: "nat \<Rightarrow> u32 \<Rightarrow> u32 \<Rightarrow> mem \<Rightarrow> mem" where
  "movsb_down 0 d s m = m"
| "movsb_down (Suc k) d s m = movsb_down k (d - 1) (s - 1) (m(d := m s))"

definition memmove :: "u32 \<Rightarrow> u32 \<Rightarrow> u32 \<Rightarrow> mem \<Rightarrow> mem" where
  "memmove dst src n m =
     (if n = 0 \<or> src = dst then m
      else if src < dst \<and> dst < src + n then movsb_down (unat n) (dst + (n - 1)) (src + (n - 1)) m
      else movsb_up (unat n) dst src m)"

definition memcpy :: "u32 \<Rightarrow> u32 \<Rightarrow> u32 \<Rightarrow> mem \<Rightarrow> mem" where
  "memcpy dst src n m = memmove dst src n m"

fun strncmp_from :: "cptr \<Rightarrow> cptr \<Rightarrow> nat \<Rightarrow> nat \<Rightarrow> int" where
  "strncmp_from p q i 0 = 0"
| "strncmp_from p q i (Suc n) =
     (if p i \<noteq> 0 \<and> p i = q i then strncmp_from p q (i + 1) n else uint (p i) - uint (q i))"

definition strncmp :: "cptr \<Rightarrow> cptr \<Rightarrow> u32 \<Rightarrow> int" where
  "strncmp p q n = strncmp_from p q 0 (unat n)"

fun strncpy_from :: "cptr \<Rightarrow> nat \<Rightarrow> nat \<Rightarrow> bytes" where
  "strncpy_from t i 0 = []"
| "strncpy_from t i (Suc n) = (if t i \<noteq> 0 then t i # strncpy_from t (i + 1) n else 0 # replicate n 0)"

definition strncpy :: "cptr \<Rightarrow> int \<Rightarrow> bytes" where
  "strncpy t n = strncpy_from t 0 (nat n)"

text \<open>The loop \<open>while(--n > 0 && (*s++ = *t++) != 0)\<close> and the final \<open>*s = 0\<close>.\<close>

fun safestrcpy_from :: "cptr \<Rightarrow> nat \<Rightarrow> nat \<Rightarrow> bytes" where
  "safestrcpy_from t i 0 = []"
| "safestrcpy_from t i (Suc 0) = [0]"
| "safestrcpy_from t i (Suc (Suc n)) =
     (if t i \<noteq> 0 then t i # safestrcpy_from t (i + 1) (Suc n) else [0, 0])"

definition safestrcpy :: "cptr \<Rightarrow> int \<Rightarrow> bytes" where
  "safestrcpy t n = (if n \<le> 0 then [] else safestrcpy_from t 0 (nat n))"

partial_function (option) strlen_from :: "cptr \<Rightarrow> nat \<Rightarrow> nat option" where
  "strlen_from s n = (if s n \<noteq> 0 then strlen_from s (n + 1) else Some n)"

definition strlen :: "cptr \<Rightarrow> nat option" where
  "strlen s = strlen_from s 0"


subsection \<open>Memory blocks\<close>

text \<open>An address \<open>x\<close> lies in the block of \<open>k\<close> bytes at \<open>a\<close> exactly when \<open>unat (x - a) < k\<close>.\<close>

lemma stosb_spec: "k \<le> 2 ^ 32 \<Longrightarrow> stosb k dst c m x = (if unat (x - dst) < k then c else m x)"
proof (induction k arbitrary: dst m)
  case (Suc k)
  then have IH: "stosb k (dst + 1) c (m(dst := c)) x
      = (if unat (x - (dst + 1)) < k then c else (m(dst := c)) x)" by simp
  show ?case
  proof (cases "x = dst")
    case True
    then show ?thesis using IH by simp
  next
    case False
    with IH unat_diff_Suc [OF False] show ?thesis by simp
  qed
qed simp

definition quad :: "u8 \<Rightarrow> u32" where
  "quad c = push_bit 24 (ucast c) OR push_bit 16 (ucast c) OR push_bit 8 (ucast c) OR ucast c"

lemma quad_bytes:
  "ucast (quad c) = c" "ucast (drop_bit 8 (quad c)) = c"
  "ucast (drop_bit 16 (quad c)) = c" "ucast (drop_bit 24 (quad c)) = c"
  by (rule bit_word_eqI; auto simp: quad_def bit_simps dest: bit_imp_le_length)+

lemma stosl_stosb: "stosl k dst (quad c) m = stosb (4 * k) dst c m"
proof (induction k arbitrary: dst m)
  case (Suc k)
  have e: "dst + 1 + 1 = dst + 2" "dst + 2 + 1 = dst + 3" "dst + 3 + 1 = dst + 4" by simp_all
  have f: "4 * Suc k = Suc (Suc (Suc (Suc (4 * k))))" by simp
  show ?case
    unfolding f stosl.simps stosb.simps store32_def quad_bytes Suc.IH e ..
qed simp

text \<open>
  \<open>memset\<close> fills exactly the \<open>n\<close> bytes at \<open>dst\<close> with the low byte of \<open>c\<close>, whether it stores
  words or bytes; the block may wrap around the address space.
\<close>

lemma memset_fills:
  "memset dst c n m x = (if unat (x - dst) < unat n then ucast c else m x)"
proof (cases "sint dst mod 4 = 0 \<and> n mod 4 = 0")
  case True
  have "c AND 0xFF = take_bit 8 c" by (simp add: take_bit_eq_mask mask_eq_exp_minus_1)
  moreover have "take_bit 8 c = ucast (ucast c :: u8)" by (rule bit_word_eqI) (auto simp: bit_simps)
  ultimately have c: "c AND 0xFF = ucast (ucast c :: u8)" by simp
  have "unat n mod 4 = 0" using True unat_mod [of n 4] by simp
  then have n: "4 * unat (n div 4) = unat n" by (simp add: unat_div) presburger
  have "unat n \<le> 2 ^ 32" using u32_lt [of n] by simp
  with True c n stosl_stosb [of "unat (n div 4)" dst "ucast c" m] stosb_spec [of "unat n" dst "ucast c" m x]
  show ?thesis by (simp add: memset_def Let_def quad_def)
next
  case False
  have "unat n \<le> 2 ^ 32" using u32_lt [of n] by simp
  with False stosb_spec [of "unat n" dst "ucast c" m x] show ?thesis by (auto simp: memset_def)
qed

text \<open>Copying upwards is right unless the destination starts inside the source.\<close>

lemma movsb_up_spec:
  assumes "k \<le> 2 ^ 32" "k \<le> unat (d - s)"
  shows "movsb_up k d s m x = (if unat (x - d) < k then m (s + (x - d)) else m x)"
  using assms
proof (induction k arbitrary: d s m)
  case (Suc k)
  let ?m = "m(d := m s)"
  have "k \<le> 2 ^ 32" "k \<le> unat ((d + 1) - (s + 1))" using Suc.prems by simp_all
  from Suc.IH [OF this] have IH: "movsb_up (Suc k) d s m x
      = (if unat (x - (d + 1)) < k then ?m (s + 1 + (x - (d + 1))) else ?m x)" by simp
  show ?case
  proof (cases "x = d")
    case True
    have "unat (- 1 :: u32) = 2 ^ 32 - 1" by (rule u32_minus_one)
    with True IH Suc.prems(1) show ?thesis by simp
  next
    case False
    have "s + (x - d) \<noteq> d" if "unat (x - (d + 1)) < k"
    proof
      assume "s + (x - d) = d"
      then have "x - d = d - s" by (metis add_diff_cancel_left')
      with that unat_diff_Suc [OF False] Suc.prems(2) show False by simp
    qed
    with False IH unat_diff_Suc [OF False] show ?thesis by (auto simp: algebra_simps)
  qed
qed simp

text \<open>Copying downwards is right unless the source starts inside the destination.\<close>

lemma movsb_down_spec:
  assumes "k \<le> 2 ^ 32 - 1" "k \<le> unat (s - d)"
  shows "movsb_down k (d + (of_nat k - 1)) (s + (of_nat k - 1)) m x
    = (if unat (x - d) < k then m (s + (x - d)) else m x)"
  using assms
proof (induction k arbitrary: m)
  case (Suc k)
  let ?m = "m(d + of_nat k := m (s + of_nat k))"
  have k: "unat (of_nat k :: u32) = k" using Suc.prems(1) by (simp add: unat_of_nat)
  have e: "d + (of_nat (Suc k) - 1) = d + of_nat k" "s + (of_nat (Suc k) - 1) = s + of_nat k"
    "d + of_nat k - 1 = d + (of_nat k - 1)" "s + of_nat k - 1 = s + (of_nat k - 1)" by simp_all
  have IH: "movsb_down k (d + (of_nat k - 1)) (s + (of_nat k - 1)) ?m x
      = (if unat (x - d) < k then ?m (s + (x - d)) else ?m x)"
    by (rule Suc.IH) (use Suc.prems in simp_all)
  have 1: "s + (x - d) \<noteq> d + of_nat k" if "unat (x - d) < k"
  proof
    assume "s + (x - d) = d + of_nat k"
    then have "(s - d) + (x - d) = of_nat k" by (simp add: algebra_simps)
    with unat_add_cases [of "s - d" "x - d"] k that Suc.prems u32_lt [of "s - d"] show False by auto
  qed
  have 2: "x = d + of_nat k \<longleftrightarrow> unat (x - d) = k"
  proof
    assume "unat (x - d) = k"
    then have "x - d = of_nat k" using word_of_nat_unat_u32 [of "x - d"] by simp
    then show "x = d + of_nat k" by (metis add.commute diff_add_cancel)
  qed (simp add: k)
  show ?case unfolding movsb_down.simps e IH using 1 2 by (auto simp: less_Suc_eq)
qed simp

text \<open>
  C24. \<open>memmove\<close> copies as if through a snapshot of the source, whatever the overlap: afterwards
  byte \<open>i\<close> of the destination is what byte \<open>i\<close> of the source was, and no other byte has changed.
  The blocks must lie inside the address space; a source that ends exactly at its top is
  excluded, because then \<open>s + n > d\<close> is evaluated on a sum that has wrapped to 0.
\<close>

theorem memmove_copies:
  assumes "unat src + unat n < 2 ^ 32" "unat dst + unat n \<le> 2 ^ 32"
  shows "memmove dst src n m x = (if unat (x - dst) < unat n then m (src + (x - dst)) else m x)"
proof -
  have n: "unat n \<le> 2 ^ 32 - 1" using u32_lt [of n] by simp
  have sn: "unat (src + n) = unat src + unat n"
    using unat_add_cases [of src n] u32_lt [of "src + n"] assms(1) by auto
  consider "n = 0" | "src = dst" | "n \<noteq> 0" "src < dst" "dst < src + n"
    | "n \<noteq> 0" "src \<noteq> dst" "\<not> (src < dst \<and> dst < src + n)" by blast
  then show ?thesis
  proof cases
    case 3
    then have "unat n \<le> unat (src - dst)"
      using unat_sub_cases [of src dst] assms(2) by (auto simp: word_less_nat_alt)
    with 3 n movsb_down_spec [of "unat n" src dst m x] show ?thesis by (simp add: memmove_def)
  next
    case 4
    then have "unat n \<le> unat (dst - src)"
      using unat_sub_cases [of dst src] assms sn word_unat_eq_iff [of src dst] by (auto simp: word_less_nat_alt not_less)
    moreover have "unat n \<le> 2 ^ 32" using n by simp
    ultimately show ?thesis using 4 movsb_up_spec [of "unat n" dst src m x] by (auto simp: memmove_def)
  qed (simp_all add: memmove_def)
qed

theorem memmove_copies_witness:
  "memmove 102 100 8 (\<lambda>a. ucast a) 105
     = (if unat ((105 :: u32) - 102) < unat (8 :: u32) then ucast (100 + ((105 :: u32) - 102)) else ucast (105 :: u32))"
  by (rule memmove_copies) simp_all


subsection \<open>Strings\<close>

text \<open>\<open>cstr s n\<close>: the string at \<open>s\<close> has length \<open>n\<close>.\<close>

definition cstr :: "cptr \<Rightarrow> nat \<Rightarrow> bool" where
  "cstr s n \<longleftrightarrow> s n = 0 \<and> (\<forall>i<n. s i \<noteq> 0)"

lemma strlen_from_cstr:
  assumes "cstr s n" "i \<le> n"
  shows "strlen_from s i = Some n"
  using assms(2)
proof (induction "n - i" arbitrary: i)
  case 0
  with assms(1) show ?case by (subst strlen_from.simps) (simp add: cstr_def)
next
  case (Suc k)
  then have "s i \<noteq> 0" "strlen_from s (i + 1) = Some n" using assms(1) by (auto simp: cstr_def)
  then show ?case by (subst strlen_from.simps) simp
qed

lemma strncmp_from_zero:
  "strncmp_from p q i n = 0 \<longleftrightarrow> (\<forall>k<n. (\<forall>j<k. p (i + j) \<noteq> 0) \<longrightarrow> p (i + k) = q (i + k))"
proof (induction n arbitrary: i)
  case (Suc n)
  have u: "uint (p i) - uint (q i) = 0 \<longleftrightarrow> p i = q i" by (simp add: word_uint_eq_iff)
  have "(\<forall>k<Suc n. (\<forall>j<k. p (i + j) \<noteq> 0) \<longrightarrow> p (i + k) = q (i + k)) \<longleftrightarrow>
      p i = q i \<and> (p i \<noteq> 0 \<longrightarrow> (\<forall>k<n. (\<forall>j<k. p (i + 1 + j) \<noteq> 0) \<longrightarrow> p (i + 1 + k) = q (i + 1 + k)))"
    by (simp add: All_less_Suc2) blast
  then show ?case unfolding strncmp_from.simps
    by (cases "p i \<noteq> 0 \<and> p i = q i") (use Suc [of "i + 1"] u in \<open>simp_all, blast?\<close>)
qed simp

lemma strncpy_from_length: "length (strncpy_from t i n) = n"
  by (induction t i n rule: strncpy_from.induct) auto

lemma strncpy_from_nth:
  "k < n \<Longrightarrow> strncpy_from t i n ! k = (if \<forall>j\<le>k. t (i + j) \<noteq> 0 then t (i + k) else 0)"
proof (induction t i n arbitrary: k rule: strncpy_from.induct)
  case (2 t i n)
  show ?case
  proof (cases "t i = 0")
    case True
    then have "\<not> (\<forall>j\<le>k. t (i + j) \<noteq> 0)" by (metis add.right_neutral le0)
    with True 2(2) show ?thesis by (cases k) auto
  next
    case False
    show ?thesis
    proof (cases k)
      case 0
      with False show ?thesis by simp
    next
      case (Suc l)
      have "(\<forall>j\<le>Suc l. t (i + j) \<noteq> 0) \<longleftrightarrow> t i \<noteq> 0 \<and> (\<forall>j\<le>l. t (i + 1 + j) \<noteq> 0)"
        by (simp add: All_less_Suc2 flip: less_Suc_eq_le)
      then show ?thesis using 2(1) [OF False, of l] 2(2) False Suc by simp
    qed
  qed
qed simp

lemma safestrcpy_from_spec:
  assumes "0 < n"
  shows "safestrcpy_from t i n \<noteq> [] \<and> length (safestrcpy_from t i n) \<le> n \<and> last (safestrcpy_from t i n) = 0
    \<and> (\<forall>k. Suc k < length (safestrcpy_from t i n) \<longrightarrow> safestrcpy_from t i n ! k = t (i + k))"
  using assms
proof (induction t i n rule: safestrcpy_from.induct)
  case (3 t i n)
  show ?case
  proof (cases "t i = 0")
    case True
    then show ?thesis by (auto simp: less_Suc_eq)
  next
    case False
    with 3(1) have IH: "safestrcpy_from t (i + 1) (Suc n) \<noteq> []" "length (safestrcpy_from t (i + 1) (Suc n)) \<le> Suc n"
      "last (safestrcpy_from t (i + 1) (Suc n)) = 0"
      "\<And>k. Suc k < length (safestrcpy_from t (i + 1) (Suc n)) \<Longrightarrow> safestrcpy_from t (i + 1) (Suc n) ! k = t (i + 1 + k)"
      by simp_all
    have "(t i # safestrcpy_from t (i + 1) (Suc n)) ! k = t (i + k)"
      if "k < length (safestrcpy_from t (i + 1) (Suc n))" for k
      using that IH(4) by (cases k) auto
    with False IH(1-3) show ?thesis by simp
  qed
qed auto

lemma strncmp_zero: "strncmp p q m = 0 \<longleftrightarrow> (\<forall>k<unat m. (\<forall>j<k. p j \<noteq> 0) \<longrightarrow> p k = q k)"
  using strncmp_from_zero [of p q 0 "unat m"] by (simp add: strncmp_def)

lemma length_strncpy [simp]: "length (strncpy t n) = nat n"
  by (simp add: strncpy_def strncpy_from_length)

lemma nth_strncpy: "k < nat n \<Longrightarrow> strncpy t n ! k = (if \<forall>j\<le>k. t j \<noteq> 0 then t k else 0)"
  using strncpy_from_nth [of k "nat n" t 0] by (simp add: strncpy_def)

lemma strlen_cstr: "cstr t l \<Longrightarrow> strlen t = Some l"
  by (simp add: strlen_def strlen_from_cstr)

text \<open>
  The string copies of the kernel never leave the array they are given. Of an array of \<open>n\<close>
  bytes, \<open>n > 0\<close>, \<open>safestrcpy\<close> stores at least one and at most \<open>n\<close>, the last of them NUL and the
  others a prefix of the source; \<open>strncpy\<close> stores exactly \<open>n\<close>, the source up to its NUL and then zeros.
\<close>

theorem string_copies_bounded:
  assumes "0 < n"
  shows "safestrcpy t n \<noteq> [] \<and> int (length (safestrcpy t n)) \<le> n \<and> last (safestrcpy t n) = 0
     \<and> (\<forall>k. Suc k < length (safestrcpy t n) \<longrightarrow> safestrcpy t n ! k = t k)
     \<and> int (length (strncpy t n)) = n
     \<and> (\<forall>k<nat n. strncpy t n ! k = (if \<forall>j\<le>k. t j \<noteq> 0 then t k else 0))"
proof -
  have e: "safestrcpy t n = safestrcpy_from t 0 (nat n)" using assms by (simp add: safestrcpy_def)
  have "0 < nat n" using assms by simp
  from safestrcpy_from_spec [OF this, of t 0] show ?thesis
    unfolding e using assms nth_strncpy [of _ n t] by (auto simp: le_nat_iff)
qed

theorem string_copies_bounded_witness:
  "safestrcpy (\<lambda>i. if i < 9 then 65 else 0) 4 \<noteq> [] \<and> int (length (safestrcpy (\<lambda>i. if i < 9 then 65 else 0) 4)) \<le> 4
     \<and> last (safestrcpy (\<lambda>i. if i < 9 then 65 else 0) 4) = 0"
  using string_copies_bounded [of 4 "\<lambda>i. if i < 9 then 65 else 0"] by simp

end
