(* ===== verification/Pipe.thy ===== *)
theory Pipe
  imports Prelude
begin

section \<open>Pipes (\<open>kernel/pipe.c\<close>)\<close>

text \<open>
  A pipe is a ring of \<open>PIPESIZE\<close> bytes indexed by two free-running 32-bit counters. A writer that
  finds the ring full and a reader that finds it empty go to sleep in the middle of the call and
  continue later, so \<open>pipewrite\<close> and \<open>piperead\<close> return what the process does next together with the
  pipe: \<open>PSleep i\<close> says that \<open>i\<close> bytes have been transferred and the call resumes there when it is
  woken up. The pipe's lock is held between two sleeps. \<open>pipealloc\<close>, which takes two files and a
  page, is in theory \<open>File\<close>.
\<close>

definition PIPESIZE :: nat where "PIPESIZE = 512"

record pipe =
  p_data :: bytes
  p_nread :: u32
  p_nwrite :: u32
  p_readopen :: bool
  p_writeopen :: bool

datatype 'a presult = PDone 'a | PFail | PSleep nat


subsection \<open>Operations\<close>

definition pipe_full :: "pipe \<Rightarrow> bool" where
  "pipe_full p \<longleftrightarrow> p_nwrite p = p_nread p + of_nat PIPESIZE"

definition pipe_empty :: "pipe \<Rightarrow> bool" where
  "pipe_empty p \<longleftrightarrow> p_nread p = p_nwrite p"

text \<open>\<open>p->data[p->nwrite++ % PIPESIZE] = c\<close> and \<open>p->data[p->nread++ % PIPESIZE]\<close>.\<close>

definition pipe_put :: "u8 \<Rightarrow> pipe \<Rightarrow> pipe" where
  "pipe_put c p = p\<lparr>p_data := (p_data p)[unat (p_nwrite p mod of_nat PIPESIZE) := c],
                     p_nwrite := p_nwrite p + 1\<rparr>"

definition pipe_get :: "pipe \<Rightarrow> u8 \<times> pipe" where
  "pipe_get p = (p_data p ! unat (p_nread p mod of_nat PIPESIZE), p\<lparr>p_nread := p_nread p + 1\<rparr>)"

text \<open>
  The loop of \<open>pipewrite\<close> from index \<open>i\<close>; \<open>killed\<close> is \<open>proc->killed\<close>. Every iteration that does not
  leave the loop advances \<open>i\<close>.
\<close>

function pipewrite_loop :: "bool \<Rightarrow> bytes \<Rightarrow> int \<Rightarrow> nat \<Rightarrow> pipe \<Rightarrow> int presult \<times> pipe" where
  "pipewrite_loop killed addr n i p =
     (if \<not> int i < n then (PDone n, p)
      else if pipe_full p then
        (if \<not> p_readopen p \<or> killed then (PFail, p) else (PSleep i, p))
      else pipewrite_loop killed addr n (i + 1) (pipe_put (addr ! i) p))"
  by pat_completeness auto
termination
  by (relation "measure (\<lambda>(k, a, n, i, p). nat (n - int i))") auto

declare pipewrite_loop.simps [simp del]

definition pipewrite :: "bool \<Rightarrow> bytes \<Rightarrow> int \<Rightarrow> nat \<Rightarrow> pipe \<Rightarrow> int presult \<times> pipe" where
  "pipewrite killed addr n i p = pipewrite_loop killed addr n i p"

fun piperead_loop :: "nat \<Rightarrow> pipe \<Rightarrow> bytes \<times> pipe" where
  "piperead_loop 0 p = ([], p)"
| "piperead_loop (Suc n) p =
     (if pipe_empty p then ([], p)
      else let (c, p') = pipe_get p; (cs, p'') = piperead_loop n p' in (c # cs, p''))"

definition piperead :: "bool \<Rightarrow> int \<Rightarrow> pipe \<Rightarrow> bytes presult \<times> pipe" where
  "piperead killed n p =
     (if pipe_empty p \<and> p_writeopen p then
        (if killed then (PFail, p) else (PSleep 0, p))
      else let (cs, p') = piperead_loop (nat n) p in (PDone cs, p'))"

text \<open>\<open>pipeclose\<close>; the second component says that the page of the pipe is freed.\<close>

definition pipeclose :: "bool \<Rightarrow> pipe \<Rightarrow> pipe \<times> bool" where
  "pipeclose writable p =
     (let p' = (if writable then p\<lparr>p_writeopen := False\<rparr> else p\<lparr>p_readopen := False\<rparr>)
      in (p', \<not> p_readopen p' \<and> \<not> p_writeopen p'))"

definition pipecanread :: "pipe \<Rightarrow> bool" where
  "pipecanread p \<longleftrightarrow> (if p_nwrite p \<noteq> p_nread p then True else if \<not> p_writeopen p then True else False)"

definition pipecanwrite :: "pipe \<Rightarrow> bool" where
  "pipecanwrite p \<longleftrightarrow> p_nwrite p < p_nread p + of_nat PIPESIZE"

text \<open>The fields as \<open>pipealloc\<close> sets them; the data area is what the page held.\<close>

definition pipe_new :: "bytes \<Rightarrow> pipe" where
  "pipe_new d = \<lparr>p_data = d, p_nread = 0, p_nwrite = 0, p_readopen = True, p_writeopen = True\<rparr>"


subsection \<open>Bounded queues\<close>

text \<open>
  The interface of a bounded first-in first-out queue. The lemmas transfer several items at once;
  they are used for the bytes of a pipe and for the pending connections of a socket.
\<close>

locale bounded_fifo =
  fixes inv :: "'q \<Rightarrow> bool"
    and items :: "'q \<Rightarrow> 'x list"
    and cap :: nat
    and full :: "'q \<Rightarrow> bool"
    and isempty :: "'q \<Rightarrow> bool"
    and put :: "'x \<Rightarrow> 'q \<Rightarrow> 'q"
    and get :: "'q \<Rightarrow> 'x \<times> 'q"
  assumes full_law: "inv q \<Longrightarrow> full q \<longleftrightarrow> length (items q) = cap"
    and empty_law: "inv q \<Longrightarrow> isempty q \<longleftrightarrow> items q = []"
    and cap_law: "inv q \<Longrightarrow> length (items q) \<le> cap"
    and put_law: "inv q \<Longrightarrow> length (items q) < cap \<Longrightarrow> inv (put x q) \<and> items (put x q) = items q @ [x]"
    and get_law: "inv q \<Longrightarrow> items q \<noteq> [] \<Longrightarrow>
          fst (get q) = hd (items q) \<and> inv (snd (get q)) \<and> items (snd (get q)) = tl (items q)"
begin

primrec put_all :: "'x list \<Rightarrow> 'q \<Rightarrow> 'q" where
  "put_all [] q = q"
| "put_all (x # xs) q = put_all xs (put x q)"

primrec get_many :: "nat \<Rightarrow> 'q \<Rightarrow> 'x list \<times> 'q" where
  "get_many 0 q = ([], q)"
| "get_many (Suc n) q = (if isempty q then ([], q)
     else (fst (get q) # fst (get_many n (snd (get q))), snd (get_many n (snd (get q)))))"

lemma put_all_items:
  assumes "inv q" "length (items q) + length xs \<le> cap"
  shows "inv (put_all xs q) \<and> items (put_all xs q) = items q @ xs"
  using assms
proof (induction xs arbitrary: q)
  case (Cons x xs)
  with put_law [of q x] have "inv (put x q)" "items (put x q) = items q @ [x]" by auto
  with Cons.IH [of "put x q"] Cons.prems show ?case by simp
qed simp

lemma get_many_items:
  assumes "inv q"
  shows "fst (get_many n q) = take n (items q) \<and> inv (snd (get_many n q))
    \<and> items (snd (get_many n q)) = drop n (items q)"
  using assms
proof (induction n arbitrary: q)
  case (Suc n)
  show ?case
  proof (cases "items q")
    case Nil
    with Suc.prems empty_law show ?thesis by simp
  next
    case (Cons y ys)
    with get_law [OF Suc.prems] have g: "fst (get q) = y" "inv (snd (get q))" "items (snd (get q)) = ys" by auto
    have "\<not> isempty q" using Suc.prems empty_law Cons by simp
    with g Suc.IH [OF g(2)] Cons show ?thesis by simp
  qed
qed simp

end


subsection \<open>The pipe as a queue of bytes\<close>

definition pipe_count :: "pipe \<Rightarrow> nat" where
  "pipe_count p = unat (p_nwrite p - p_nread p)"

definition pipe_inv :: "pipe \<Rightarrow> bool" where
  "pipe_inv p \<longleftrightarrow> length (p_data p) = PIPESIZE \<and> pipe_count p \<le> PIPESIZE"

definition pipe_items :: "pipe \<Rightarrow> bytes" where
  "pipe_items p = map (\<lambda>i. p_data p ! unat ((p_nread p + of_nat i) mod of_nat PIPESIZE)) [0..<pipe_count p]"

lemma slot_lt: "unat ((a :: u32) mod of_nat PIPESIZE) < PIPESIZE"
  by (simp add: PIPESIZE_def unat_mod)

lemma slot_eq:
  fixes a :: u32
  assumes "i \<le> j" "j < i + PIPESIZE" "(a + of_nat i) mod of_nat PIPESIZE = (a + of_nat j) mod of_nat PIPESIZE"
  shows "i = j"
proof -
  have m: "unat ((a + of_nat k) mod of_nat PIPESIZE) = (unat a + k) mod 512" for k
    by (simp add: PIPESIZE_def unat_mod unat_word_ariths unat_of_nat mod_mod_cancel mod_add_right_eq)
  have "(unat a + i) mod 512 = (unat a + j) mod 512" using m [of i] m [of j] assms(3) by simp
  then have "512 dvd (unat a + j) - (unat a + i)"
    using mod_eq_dvd_iff_nat [of "unat a + i" "unat a + j" 512] assms(1) by simp
  then show ?thesis using assms(1,2) by (auto simp: PIPESIZE_def dest!: dvd_imp_le)
qed

lemma pipe_put_law:
  assumes "pipe_inv p" "length (pipe_items p) < PIPESIZE"
  shows "pipe_inv (pipe_put c p) \<and> pipe_items (pipe_put c p) = pipe_items p @ [c]"
proof -
  let ?n = "pipe_count p" and ?q = "pipe_put c p"
  have n: "?n < PIPESIZE" using assms(2) by (simp add: pipe_items_def)
  have w: "p_nwrite p = p_nread p + of_nat ?n" by (simp add: pipe_count_def)
  have c: "pipe_count ?q = Suc ?n"
  proof -
    have "p_nwrite ?q - p_nread ?q = (p_nwrite p - p_nread p) + 1" by (simp add: pipe_put_def)
    with unat_add_cases [of "p_nwrite p - p_nread p" 1] n show ?thesis
      by (auto simp: pipe_count_def PIPESIZE_def)
  qed
  have "pipe_items ?q ! i = (pipe_items p @ [c]) ! i" if i: "i < Suc ?n" for i
  proof -
    let ?slot = "\<lambda>k. unat ((p_nread p + of_nat k) mod of_nat PIPESIZE)"
    have "?slot i = ?slot ?n \<longleftrightarrow> i = ?n"
      using slot_eq [of i ?n "p_nread p"] i n by (auto simp: word_unat_eq_iff)
    then show ?thesis using i n c slot_lt assms(1) w
      by (auto simp: pipe_items_def pipe_put_def nth_append nth_list_update pipe_inv_def simp del: upt_Suc)
  qed
  moreover have "length (pipe_items ?q) = Suc ?n" using c by (simp add: pipe_items_def)
  ultimately have "pipe_items ?q = pipe_items p @ [c]"
    by (intro nth_equalityI) (simp_all add: pipe_items_def)
  then show ?thesis using assms(1) c n by (simp add: pipe_inv_def pipe_put_def)
qed

lemma pipe_get_law:
  assumes "pipe_inv p" "pipe_items p \<noteq> []"
  shows "fst (pipe_get p) = hd (pipe_items p) \<and> pipe_inv (snd (pipe_get p))
    \<and> pipe_items (snd (pipe_get p)) = tl (pipe_items p)"
proof -
  obtain k where k: "pipe_count p = Suc k" using assms(2) by (cases "pipe_count p") (auto simp: pipe_items_def)
  then have "p_nwrite p \<noteq> p_nread p" by (auto simp: pipe_count_def)
  from unat_diff_Suc [OF this] k have c: "pipe_count (snd (pipe_get p)) = k"
    by (simp add: pipe_count_def pipe_get_def)
  have "pipe_items p = fst (pipe_get p) # pipe_items (snd (pipe_get p))"
    using c k by (simp add: pipe_items_def pipe_get_def upt_conv_Cons map_Suc_upt [symmetric] o_def
        algebra_simps del: upt_Suc)
  then show ?thesis using assms(1) c k by (simp add: pipe_inv_def pipe_get_def)
qed

interpretation pq: bounded_fifo pipe_inv pipe_items PIPESIZE pipe_full pipe_empty pipe_put pipe_get
proof unfold_locales
  fix p :: pipe and c
  show "pipe_inv p \<Longrightarrow> length (pipe_items p) < PIPESIZE \<Longrightarrow>
      pipe_inv (pipe_put c p) \<and> pipe_items (pipe_put c p) = pipe_items p @ [c]"
    by (rule pipe_put_law)
  show "pipe_inv p \<Longrightarrow> pipe_items p \<noteq> [] \<Longrightarrow> fst (pipe_get p) = hd (pipe_items p)
      \<and> pipe_inv (snd (pipe_get p)) \<and> pipe_items (snd (pipe_get p)) = tl (pipe_items p)"
    by (rule pipe_get_law)
  show "pipe_inv p \<Longrightarrow> length (pipe_items p) \<le> PIPESIZE" by (simp add: pipe_inv_def pipe_items_def)
  show "pipe_inv p \<Longrightarrow> pipe_empty p \<longleftrightarrow> pipe_items p = []"
    by (auto simp: pipe_empty_def pipe_items_def pipe_count_def unat_eq_0)
  have "p_nwrite p = p_nread p + of_nat PIPESIZE \<longleftrightarrow> unat (p_nwrite p - p_nread p) = PIPESIZE"
  proof
    assume "unat (p_nwrite p - p_nread p) = PIPESIZE"
    then have "p_nwrite p - p_nread p = of_nat PIPESIZE"
      using word_of_nat_unat_u32 [of "p_nwrite p - p_nread p"] by simp
    then show "p_nwrite p = p_nread p + of_nat PIPESIZE" by (metis add.commute diff_add_cancel)
  qed (simp add: PIPESIZE_def)
  then show "pipe_inv p \<Longrightarrow> pipe_full p \<longleftrightarrow> length (pipe_items p) = PIPESIZE"
    by (simp add: pipe_full_def pipe_items_def pipe_count_def)
qed

lemma pipe_put_flags [simp]:
  "p_readopen (pipe_put c p) = p_readopen p" "p_writeopen (pipe_put c p) = p_writeopen p"
  "p_nread (pipe_put c p) = p_nread p"
  by (simp_all add: pipe_put_def)

text \<open>All outcomes of a (resumed) write: \<open>j\<close> is the index reached.\<close>

lemma pipewrite_law:
  assumes "pipe_inv p" "nat n \<le> length addr" "i \<le> nat n"
    and "pipewrite killed addr n i p = (r, p')"
  shows "pipe_inv p' \<and> p_readopen p' = p_readopen p \<and> p_writeopen p' = p_writeopen p
    \<and> (\<exists>j\<ge>i. j \<le> nat n \<and> pipe_items p' = pipe_items p @ slice addr i (j - i)
        \<and> (r = PDone n \<and> j = nat n
         \<or> r = PSleep j \<and> j < nat n \<and> length (pipe_items p') = PIPESIZE \<and> p_readopen p \<and> \<not> killed
         \<or> r = PFail \<and> j < nat n \<and> length (pipe_items p') = PIPESIZE \<and> (\<not> p_readopen p \<or> killed)))"
  using assms unfolding pipewrite_def
proof (induction killed addr n i p rule: pipewrite_loop.induct)
  case (1 killed addr n i p)
  consider "\<not> int i < n" | "int i < n" "pipe_full p" | "int i < n" "\<not> pipe_full p" by blast
  then show ?case
  proof cases
    case 1
    then have "r = PDone n" "p' = p"
      using "1.prems"(4) by (simp_all add: pipewrite_loop.simps [of _ _ _ i])
    moreover have "i = nat n" using 1 "1.prems"(3) by auto
    ultimately show ?thesis using "1.prems"(1) by (auto simp: slice_def)
  next
    case 2
    then have "r = (if \<not> p_readopen p \<or> killed then PFail else PSleep i)" "p' = p"
      using "1.prems"(4) by (auto simp: pipewrite_loop.simps [of _ _ _ i] split: if_splits)
    then show ?thesis
      using 2 "1.prems"(1) pq.full_law [OF "1.prems"(1)] by (auto simp: slice_def intro!: exI [of _ i])
  next
    case 3
    have l: "length (pipe_items p) < PIPESIZE"
      using 3 pq.full_law [OF "1.prems"(1)] pq.cap_law [OF "1.prems"(1)] by linarith
    note put = pipe_put_law [OF "1.prems"(1) l, of "addr ! i"]
    have e: "pipewrite_loop killed addr n (i + 1) (pipe_put (addr ! i) p) = (r, p')"
      using "1.prems"(4) 3 by (simp add: pipewrite_loop.simps [of _ _ _ i])
    have IH: "pipe_inv p' \<and> p_readopen p' = p_readopen p \<and> p_writeopen p' = p_writeopen p
      \<and> (\<exists>j\<ge>i + 1. j \<le> nat n \<and> pipe_items p' = (pipe_items p @ [addr ! i]) @ slice addr (i + 1) (j - (i + 1))
        \<and> (r = PDone n \<and> j = nat n
         \<or> r = PSleep j \<and> j < nat n \<and> length (pipe_items p') = PIPESIZE \<and> p_readopen p \<and> \<not> killed
         \<or> r = PFail \<and> j < nat n \<and> length (pipe_items p') = PIPESIZE \<and> (\<not> p_readopen p \<or> killed)))"
      using "1.IH" [OF _ _ put [THEN conjunct1] "1.prems"(2) _ e] 3 put by auto
    have il: "i < length addr" using 3(1) "1.prems"(2) by linarith
    have "addr ! i # slice addr (i + 1) (j - (i + 1)) = slice addr i (j - i)" if "i + 1 \<le> j" for j
    proof -
      have "j - i = Suc (j - (i + 1))" using that by simp
      then show ?thesis unfolding slice_def Cons_nth_drop_Suc [OF il, symmetric] by simp
    qed
    with IH show ?thesis by (elim conjE exE) (intro conjI, assumption+, rule_tac x = j in exI, auto)
  qed
qed

lemma piperead_loop_get_many: "piperead_loop n p = pq.get_many n p"
  by (induction n arbitrary: p) (simp_all add: Let_def split_beta)

lemma piperead_law:
  assumes "pipe_inv p" "piperead killed n p = (r, p')"
  shows "pipe_inv p' \<and> (case r of
      PDone cs \<Rightarrow> cs = take (nat n) (pipe_items p) \<and> pipe_items p' = drop (nat n) (pipe_items p)
        \<and> (pipe_items p = [] \<longrightarrow> \<not> p_writeopen p)
    | PFail \<Rightarrow> p' = p \<and> pipe_items p = [] \<and> p_writeopen p \<and> killed
    | PSleep i \<Rightarrow> p' = p \<and> i = 0 \<and> pipe_items p = [] \<and> p_writeopen p \<and> \<not> killed)"
  using assms pq.get_many_items [OF assms(1), of "nat n"] pq.empty_law [OF assms(1)]
  by (auto simp: piperead_def piperead_loop_get_many split: if_splits prod.splits)


subsection \<open>Every interleaving of writers and readers\<close>

text \<open>
  \<open>pipe_run W R p\<close>: after some sequence of calls on a fresh pipe (writes that complete, fail or go to
  sleep and are resumed at any later point, reads, closes of either end) the pipe is \<open>p\<close>; \<open>W\<close> is
  what the writers have put in and \<open>R\<close> what the readers have got.
\<close>

inductive pipe_run :: "bytes \<Rightarrow> bytes \<Rightarrow> pipe \<Rightarrow> bool" where
  start: "length d = PIPESIZE \<Longrightarrow> pipe_run [] [] (pipe_new d)"
| wr_step: "pipe_run W R p \<Longrightarrow> nat n \<le> length addr \<Longrightarrow> i \<le> nat n \<Longrightarrow>
    pipewrite killed addr n i p = (r, p') \<Longrightarrow>
    pipe_run (W @ slice addr i (pipe_count p' - pipe_count p)) R p'"
| rd_step: "pipe_run W R p \<Longrightarrow> piperead killed n p = (PDone cs, p') \<Longrightarrow> pipe_run W (R @ cs) p'"
| close_step: "pipe_run W R p \<Longrightarrow> pipeclose writable p = (p', freed) \<Longrightarrow> pipe_run W R p'"

lemma pipe_count_items: "length (pipe_items p) = pipe_count p"
  by (simp add: pipe_items_def)

lemma pipe_run_inv: "pipe_run W R p \<Longrightarrow> pipe_inv p \<and> W = R @ pipe_items p"
proof (induction rule: pipe_run.induct)
  case (start d)
  then show ?case by (simp add: pipe_inv_def pipe_new_def pipe_items_def pipe_count_def)
next
  case (wr_step W R p n addr i killed r p')
  from pipewrite_law [OF _ wr_step(2-4)] wr_step(5) obtain j where
    "pipe_inv p'" "j \<le> nat n" "i \<le> j" "pipe_items p' = pipe_items p @ slice addr i (j - i)" by blast
  moreover from this have "pipe_count p' - pipe_count p = j - i"
    using pipe_count_items [of p] pipe_count_items [of p'] wr_step(2) by simp
  ultimately show ?case using wr_step(5) by simp
next
  case (rd_step W R p killed n cs p')
  then show ?case using piperead_law [OF _ rd_step(2)] by simp
next
  case (close_step W R p writable p' freed)
  then show ?case
    by (auto simp: pipeclose_def Let_def pipe_inv_def pipe_items_def pipe_count_def split: if_splits)
qed

text \<open>
  C14. A pipe delivers the bytes written to it, each once and in order, under every interleaving of
  writers and readers and also when the 32-bit counters wrap around: what has been read, followed
  by what the ring holds, is what has been written, and the ring never holds more than \<open>PIPESIZE\<close> bytes.
\<close>

theorem pipe_delivers_in_order:
  assumes "pipe_run W R p"
  shows "W = R @ pipe_items p \<and> length (pipe_items p) \<le> PIPESIZE"
  using pipe_run_inv [OF assms] pq.cap_law by blast

lemma pipe_run_counters: "\<exists>W R p. pipe_run W R p \<and> p_nread p = of_nat n \<and> p_nwrite p = of_nat n"
proof (induction n)
  case 0
  have "pipe_run [] [] (pipe_new (replicate PIPESIZE 0))" by (rule start) simp
  then show ?case by (intro exI conjI) (assumption, simp_all add: pipe_new_def)
next
  case (Suc n)
  then obtain W R p where p: "pipe_run W R p" "p_nread p = of_nat n" "p_nwrite p = of_nat n" by blast
  have nf: "\<not> pipe_full p" using p(2,3) by (simp add: pipe_full_def PIPESIZE_def)
  have "pipewrite False [0] 1 0 p = (PDone 1, pipe_put 0 p)"
    using nf by (simp add: pipewrite_def pipewrite_loop.simps)
  from wr_step [OF p(1) _ _ this] have 1: "\<exists>W. pipe_run W R (pipe_put 0 p)" by auto
  have "\<not> pipe_empty (pipe_put 0 p)" using p(2,3) by (simp add: pipe_empty_def pipe_put_def)
  then have "piperead False 1 (pipe_put 0 p) = (PDone [fst (pipe_get (pipe_put 0 p))], snd (pipe_get (pipe_put 0 p)))"
    by (simp add: piperead_def Let_def split_beta)
  with 1 rd_step have "\<exists>W R. pipe_run W R (snd (pipe_get (pipe_put 0 p)))" by blast
  moreover have "p_nread (snd (pipe_get (pipe_put 0 p))) = of_nat (Suc n)"
    "p_nwrite (snd (pipe_get (pipe_put 0 p))) = of_nat (Suc n)"
    using p(2,3) by (simp_all add: pipe_get_def pipe_put_def add.commute)
  ultimately show ?case by blast
qed

theorem pipe_delivers_in_order_witness:
  "\<exists>W R p. pipe_run W R p \<and> p_nwrite p = 4000000000 \<and> W = R @ pipe_items p \<and> length (pipe_items p) \<le> PIPESIZE"
proof -
  from pipe_run_counters [of 4000000000] obtain W R p where
    p: "pipe_run W R p" "p_nwrite p = of_nat 4000000000" by blast
  with pipe_delivers_in_order [OF p(1)] show ?thesis by auto
qed

text \<open>
  The readiness test for writers is wrong at the wrap-around of the counters: a pipe can be
  reached that is empty, so that a write would not block, for which \<open>pipecanwrite\<close> answers no.
  \<open>pipewrite\<close> itself compares the counters for equality and is not affected.
\<close>

theorem pipecanwrite_misses_wraparound:
  "\<exists>W R p. pipe_run W R p \<and> pipe_items p = [] \<and> \<not> pipe_full p \<and> \<not> pipecanwrite p"
proof -
  from pipe_run_counters [of "2 ^ 32 - 100"] obtain W R p where
    p: "pipe_run W R p" "p_nread p = of_nat (2 ^ 32 - 100)" "p_nwrite p = of_nat (2 ^ 32 - 100)" by blast
  then have "pipe_items p = []" "\<not> pipe_full p" "\<not> pipecanwrite p"
    by (simp_all add: pipe_items_def pipe_count_def pipe_full_def pipecanwrite_def PIPESIZE_def word_less_nat_alt)
  with p(1) show ?thesis by blast
qed

text \<open>
  Apart from that the readiness tests of \<open>select\<close>-like callers are exact: \<open>pipecanread\<close> holds
  exactly when a read by a live process would not sleep, and \<open>pipecanwrite\<close> exactly when a one-byte
  write would not, provided \<open>nread + PIPESIZE\<close> does not overflow.
\<close>

theorem pipe_readiness:
  assumes "pipe_inv p" "unat (p_nread p) + PIPESIZE < 2 ^ 32" "p_readopen p"
  shows "(pipecanread p \<longleftrightarrow> fst (piperead False 1 p) \<noteq> PSleep 0)
    \<and> (pipecanwrite p \<longleftrightarrow> fst (pipewrite False [c] 1 0 p) \<noteq> PSleep 0)"
proof -
  have s: "unat (p_nread p + of_nat PIPESIZE) = unat (p_nread p) + PIPESIZE"
    using unat_add_cases [of "p_nread p" "of_nat PIPESIZE"] u32_lt [of "p_nread p + of_nat PIPESIZE"] assms(2)
    by (auto simp: PIPESIZE_def)
  have "unat (p_nwrite p - p_nread p) \<le> PIPESIZE" using assms(1) by (simp add: pipe_inv_def pipe_count_def)
  with unat_sub_cases [of "p_nwrite p" "p_nread p"] assms(2) u32_lt [of "p_nwrite p"]
  have "pipecanwrite p \<longleftrightarrow> \<not> pipe_full p"
    by (auto simp: pipecanwrite_def pipe_full_def word_less_nat_alt s word_unat_eq_iff)
  moreover have "fst (pipewrite False [c] 1 0 p) \<noteq> PSleep 0 \<longleftrightarrow> \<not> pipe_full p"
    using assms(3) by (simp add: pipewrite_def pipewrite_loop.simps)
  moreover have "pipecanread p \<longleftrightarrow> fst (piperead False 1 p) \<noteq> PSleep 0"
    by (auto simp: pipecanread_def piperead_def pipe_empty_def Let_def split_beta)
  ultimately show ?thesis by blast
qed

theorem pipe_readiness_witness:
  "pipe_inv (pipe_new (replicate PIPESIZE 0))
    \<and> (pipecanread (pipe_new (replicate PIPESIZE 0)) \<longleftrightarrow> fst (piperead False 1 (pipe_new (replicate PIPESIZE 0))) \<noteq> PSleep 0)
    \<and> (pipecanwrite (pipe_new (replicate PIPESIZE 0)) \<longleftrightarrow> fst (pipewrite False [7] 1 0 (pipe_new (replicate PIPESIZE 0))) \<noteq> PSleep 0)"
  using pipe_readiness [of "pipe_new (replicate PIPESIZE 0)" 7]
  by (simp add: pipe_inv_def pipe_count_def pipe_new_def PIPESIZE_def)

end
