(* ===== verification/Kalloc.thy ===== *)
theory Kalloc
  imports Cstring
begin

section \<open>The page allocator (\<open>kernel/kalloc.c\<close>)\<close>

text \<open>
  The free pages form a list through the first word of each page; \<open>page_state\<close> records for every
  physical page whether it is free, and shadow copies of the list head and of the counter are kept
  to recover from overwritten list nodes. The model has the byte memory in which the list links
  live, so a corrupted list is an ordinary state. \<open>kend\<close> is the linker symbol \<open>end\<close>; \<open>phystop\<close> the
  variable of the same name (0 until memory is detected). The lock is held throughout each call.
\<close>

definition PGSIZE :: u32 where "PGSIZE = 4096"
definition KERNBASE :: u32 where "KERNBASE = 0x80000000"
definition PHYSTOP :: u32 where "PHYSTOP = 0x70000000"
definition PAGE_TRACK_SLOTS :: u32 where "PAGE_TRACK_SLOTS = PHYSTOP div PGSIZE"

definition v2p :: "u32 \<Rightarrow> u32" where "v2p a = a - KERNBASE"
definition p2v :: "u32 \<Rightarrow> u32" where "p2v a = a + KERNBASE"
definition PGROUNDUP :: "u32 \<Rightarrow> u32" where "PGROUNDUP sz = (sz + PGSIZE - 1) AND NOT (PGSIZE - 1)"
definition PGROUNDDOWN :: "u32 \<Rightarrow> u32" where "PGROUNDDOWN a = a AND NOT (PGSIZE - 1)"

datatype pstate = PAGE_ALLOC | PAGE_FREE | PAGE_UNKNOWN

record kmem =
  kend :: u32
  phystop :: u32
  page_state :: "u32 \<Rightarrow> pstate"
  freelist :: u32
  nfree :: int
  freelist_shadow :: u32
  nfree_shadow :: int
  kmem_mem :: mem

definition load32 :: "u32 \<Rightarrow> mem \<Rightarrow> u32" where
  "load32 a m = ucast (m a) OR push_bit 8 (ucast (m (a + 1)))
     OR push_bit 16 (ucast (m (a + 2))) OR push_bit 24 (ucast (m (a + 3)))"

definition ptop :: "kmem \<Rightarrow> u32" where
  "ptop s = (if phystop s \<noteq> 0 then phystop s else PHYSTOP)"


subsection \<open>Operations\<close>

definition run_ptr_valid :: "kmem \<Rightarrow> u32 \<Rightarrow> bool" where
  "run_ptr_valid s r = (if r = 0 then True
     else if r mod PGSIZE \<noteq> 0 then False
     else if r < kend s then False
     else if ptop s \<le> v2p r then False
     else True)"

function rebuild_loop :: "u32 \<Rightarrow> u32 \<Rightarrow> kmem \<Rightarrow> kmem" where
  "rebuild_loop pa_start pa s =
     (if pa_start \<le> pa then
        (let idx = pa div PGSIZE;
             s' = (if idx < PAGE_TRACK_SLOTS \<and> page_state s idx = PAGE_FREE then
                     s\<lparr>kmem_mem := store32 (p2v pa) (freelist s) (kmem_mem s),
                       freelist := p2v pa, nfree := nfree s + 1\<rparr>
                   else s)
         in if pa < pa_start + PGSIZE then s' else rebuild_loop pa_start (pa - PGSIZE) s')
      else s)"
  by pat_completeness auto
termination
proof (relation "measure (\<lambda>(a, pa, s). unat pa)", goal_cases)
  case (2 pa_start pa s)
  have "4096 \<le> unat pa"
    using 2 unat_add_cases [of pa_start 4096]
    by (auto simp: word_le_nat_alt word_less_nat_alt PGSIZE_def not_less)
  then have "unat (pa - 4096) < unat pa" using unat_sub_cases [of pa 4096] u32_lt [of "pa - 4096"] by auto
  then show ?case by (simp add: PGSIZE_def)
qed simp

declare rebuild_loop.simps [simp del]

definition rebuild_freelist_locked :: "kmem \<Rightarrow> kmem" where
  "rebuild_freelist_locked s =
     (let pa_start = PGROUNDUP (v2p (kend s)); pa_end = PGROUNDDOWN (ptop s - 1);
          t = rebuild_loop pa_start pa_end (s\<lparr>freelist := 0, nfree := 0\<rparr>)
      in t\<lparr>freelist_shadow := freelist t, nfree_shadow := nfree t\<rparr>)"

text \<open>The common prologue of \<open>kfree\<close> and \<open>kalloc\<close>: a bad list head is replaced by its shadow.\<close>

definition restore_shadow :: "kmem \<Rightarrow> kmem" where
  "restore_shadow s =
     (if \<not> run_ptr_valid s (freelist s) \<and> run_ptr_valid s (freelist_shadow s)
      then s\<lparr>freelist := freelist_shadow s, nfree := nfree_shadow s\<rparr> else s)"

definition set_shadow :: "kmem \<Rightarrow> kmem" where
  "set_shadow s = s\<lparr>freelist_shadow := freelist s, nfree_shadow := nfree s\<rparr>"

definition kfree :: "u32 \<Rightarrow> (kmem, unit) kop" where
  "kfree v = (\<lambda>s.
     if v = 0 then Ok ((), s)
     else if v mod PGSIZE \<noteq> 0 \<or> v < kend s \<or> ptop s \<le> v2p v then Panic ''kfree''
     else let idx = v2p v div PGSIZE in
       if idx < PAGE_TRACK_SLOTS \<and> page_state s idx = PAGE_FREE then Ok ((), s)
       else let s1 = (if idx < PAGE_TRACK_SLOTS
                      then s\<lparr>page_state := (page_state s)(idx := PAGE_FREE)\<rparr> else s);
                s2 = restore_shadow (s1\<lparr>kmem_mem := memset v 1 PGSIZE (kmem_mem s1)\<rparr>)
       in Ok ((), set_shadow (s2\<lparr>kmem_mem := store32 v (freelist s2) (kmem_mem s2),
                                 freelist := v, nfree := nfree s2 + 1\<rparr>)))"

definition kfreepages :: "kmem \<Rightarrow> int" where
  "kfreepages s = nfree s"

text \<open>
  One iteration of the loop of \<open>kalloc\<close> on a non-empty list: a page, or \<open>None\<close> when a node was found
  to be bad and the list has been rebuilt.
\<close>

definition kalloc_step :: "kmem \<Rightarrow> u32 option \<times> kmem" where
  "kalloc_step s =
     (let r = freelist s in
      if r mod PGSIZE \<noteq> 0 \<or> r < kend s \<or> ptop s \<le> v2p r then (None, rebuild_freelist_locked s)
      else let nx = load32 r (kmem_mem s) in
      if \<not> run_ptr_valid s nx then (None, rebuild_freelist_locked s)
      else if nx \<noteq> 0 \<and> v2p nx div PGSIZE < PAGE_TRACK_SLOTS
              \<and> page_state s (v2p nx div PGSIZE) \<noteq> PAGE_FREE then (None, rebuild_freelist_locked s)
      else let s1 = s\<lparr>freelist := nx\<rparr>; idx = v2p r div PGSIZE in
      if idx < PAGE_TRACK_SLOTS \<and> page_state s1 idx \<noteq> PAGE_FREE then (None, rebuild_freelist_locked s1)
      else let s2 = (if idx < PAGE_TRACK_SLOTS
                     then s1\<lparr>page_state := (page_state s1)(idx := PAGE_ALLOC)\<rparr> else s1);
               s3 = (if 0 < nfree s2 then s2\<lparr>nfree := nfree s2 - 1\<rparr> else s2)
      in (Some r, set_shadow s3))"

text \<open>
  The \<open>while\<close> loop; the fuel bounds the number of rebuilds. A result of 0 pages is \<open>r = 0\<close>. The
  loop would only run out of fuel if a list that has just been rebuilt were bad again.
\<close>

primrec kalloc_loop :: "nat \<Rightarrow> (kmem, u32) kop" where
  "kalloc_loop 0 s = Undef"
| "kalloc_loop (Suc k) s =
     (if freelist s = 0 then Ok (0, set_shadow s)
      else case kalloc_step s of
             (Some r, t) \<Rightarrow> Ok (r, t)
           | (None, t) \<Rightarrow> kalloc_loop k t)"

definition kalloc :: "(kmem, u32) kop" where
  "kalloc s =
     (let s1 = restore_shadow s;
          s2 = (if freelist s1 = 0 \<and> 0 < nfree s1 then rebuild_freelist_locked s1 else s1)
      in kalloc_loop 2 s2)"

text \<open>
  \<open>freerange\<close> and the loops of the initialisation. Stepping a pointer past either end of the address
  space is undefined.
\<close>

function freerange_loop :: "u32 \<Rightarrow> u32 \<Rightarrow> (kmem, unit) kop" where
  "freerange_loop vend p s =
     (if p + PGSIZE < p then Undef
      else if p + PGSIZE \<le> vend then
        (case kfree p s of
           Ok (_, t) \<Rightarrow> freerange_loop vend (p + PGSIZE) t
         | Panic m \<Rightarrow> Panic m | Sleep c \<Rightarrow> Sleep c | Undef \<Rightarrow> Undef)
      else Ok ((), s))"
  by pat_completeness auto
termination
proof (relation "measure (\<lambda>(vend, p, s). 2 ^ 32 - unat p)", goal_cases)
  case (2 vend p s)
  then have "unat p < unat (p + PGSIZE)"
    using unat_add_cases [of p 4096] by (auto simp: PGSIZE_def word_less_nat_alt)
  then show ?case using u32_lt [of "p + PGSIZE"] by simp
qed simp

definition freerange :: "u32 \<Rightarrow> u32 \<Rightarrow> (kmem, unit) kop" where
  "freerange vstart vend = freerange_loop vend (PGROUNDUP vstart)"

definition kinit1 :: "u32 \<Rightarrow> u32 \<Rightarrow> (kmem, unit) kop" where
  "kinit1 vstart vend =
     kthen (kmod (\<lambda>s. s\<lparr>page_state := (\<lambda>_. PAGE_UNKNOWN), freelist_shadow := 0, nfree_shadow := 0\<rparr>))
     (freerange vstart vend)"

text \<open>The map of usable memory that the boot loader leaves at physical address \<open>0x8000\<close>.\<close>

definition E820_MAP_PHYS :: u32 where "E820_MAP_PHYS = 0x8000"

fun e820_scan :: "mem \<Rightarrow> u32 \<Rightarrow> u32 list \<Rightarrow> bool" where
  "e820_scan m pa [] = False"
| "e820_scan m pa (e # es) =
     (if load32 (e + 16) m \<noteq> 1 then e820_scan m pa es
      else if load32 (e + 4) m \<noteq> 0 then e820_scan m pa es
      else let base = load32 e m; en = base + load32 (e + 8) m in
        if en < base then e820_scan m pa es
        else if base \<le> pa \<and> pa + PGSIZE \<le> en then True
        else e820_scan m pa es)"

definition e820_page_usable :: "u32 \<Rightarrow> kmem \<Rightarrow> bool" where
  "e820_page_usable pa s =
     (let m = kmem_mem s; count = load32 (p2v E820_MAP_PHYS) m in
      if count = 0 \<or> 32 < count then True
      else e820_scan m pa (map (\<lambda>i. p2v (E820_MAP_PHYS + 4) + 24 * of_nat i) [0..<unat count]))"

function kinit2_loop :: "u32 \<Rightarrow> u32 \<Rightarrow> (kmem, unit) kop" where
  "kinit2_loop start p s =
     (if start \<le> p then
        (case (if e820_page_usable (v2p p) s then kfree p s else Ok ((), s)) of
           Ok (_, t) \<Rightarrow> if p < PGSIZE then Undef else kinit2_loop start (p - PGSIZE) t
         | Panic m \<Rightarrow> Panic m | Sleep c \<Rightarrow> Sleep c | Undef \<Rightarrow> Undef)
      else Ok ((), s))"
  by pat_completeness auto
termination
proof (relation "measure (\<lambda>(start, p, s). unat p)", goal_cases)
  case (2 start p s)
  then have "unat (p - 4096) < unat p"
    using unat_sub_cases [of p 4096] u32_lt [of "p - 4096"] by (auto simp: PGSIZE_def word_less_nat_alt)
  then show ?case by (simp add: PGSIZE_def)
qed simp

definition kinit2 :: "u32 \<Rightarrow> u32 \<Rightarrow> (kmem, unit) kop" where
  "kinit2 vstart vend = kinit2_loop (PGROUNDUP vstart) (PGROUNDDOWN (vend - 1))"


subsection \<open>Pages and words in memory\<close>

lemma load32_store32_same [simp]: "load32 a (store32 a w m) = w"
proof -
  have "a \<noteq> a + 1" "a \<noteq> a + 2" "a \<noteq> a + 3" "a + 1 \<noteq> a + 2" "a + 1 \<noteq> a + 3" "a + 2 \<noteq> a + 3" by simp_all
  then show ?thesis using le32_join [of w] by (simp add: load32_def store32_def)
qed

lemma store32_other: "4 \<le> unat (x - a) \<Longrightarrow> store32 a w m x = m x"
  by (auto simp: store32_def)

lemma load32_cong: "(\<And>i. i < 4 \<Longrightarrow> m (a + of_nat i) = m' (a + of_nat i)) \<Longrightarrow> load32 a m = load32 a m'"
proof -
  assume *: "\<And>i. i < 4 \<Longrightarrow> m (a + of_nat i) = m' (a + of_nat i)"
  show ?thesis unfolding load32_def using * [of 0] * [of 1] * [of 2] * [of 3] by simp
qed

text \<open>Addresses of pages, and the offset of an address in its page.\<close>

lemma page_mod_iff: "(r :: u32) mod PGSIZE = 0 \<longleftrightarrow> unat r mod 4096 = 0"
  by (simp add: PGSIZE_def word_unat_eq_iff unat_mod)

lemma page_diff:
  assumes "a mod PGSIZE = 0" "b mod PGSIZE = 0" "a \<noteq> b"
  shows "\<exists>k. unat (a - b) = 4096 * k \<and> 1 \<le> k \<and> k < 2 ^ 20"
proof -
  have "unat a mod 4096 = 0" "unat b mod 4096 = 0" using assms(1,2) by (simp_all add: page_mod_iff)
  then obtain A B where AB: "unat a = 4096 * A" "unat b = 4096 * B" by blast
  have ne: "unat a \<noteq> unat b" using assms(3) by (simp add: word_unat_eq_iff)
  have "unat (a - b) + 4096 * B = 4096 * A \<or> unat (a - b) + 4096 * B = 4096 * (A + 2 ^ 20)"
    using unat_sub_cases [of a b] AB by simp
  then have "unat (a - b) = 4096 * (A - B) \<or> unat (a - b) = 4096 * (A + 2 ^ 20 - B)" by auto
  moreover have "unat (a - b) \<noteq> 0" using assms(3) by (simp add: unat_eq_0)
  ultimately show ?thesis using u32_lt [of "a - b"] by auto
qed

lemma pages_apart:
  assumes "a mod PGSIZE = 0" "b mod PGSIZE = 0" "a \<noteq> b" "i < 4096"
  shows "4096 \<le> unat (a + of_nat i - b)"
proof -
  from page_diff [OF assms(1-3)] obtain k where k: "unat (a - b) = 4096 * k" "1 \<le> k" "k < 2 ^ 20" by blast
  have i: "unat (of_nat i :: u32) = i" using assms(4) by (simp add: unat_of_nat_u32)
  have e: "a + of_nat i - b = (a - b) + of_nat i" by simp
  have "4096 * k + i < 2 ^ 32" using k(3) assms(4) by simp
  then have "unat (a + of_nat i - b) = 4096 * k + i"
    using unat_add_cases [of "a - b" "of_nat i"] i k(1) unfolding e by linarith
  then show ?thesis using k(2) by simp
qed

text \<open>Writing one page leaves the words of every other page alone.\<close>

lemma load32_store_page:
  assumes "a mod PGSIZE = 0" "b mod PGSIZE = 0" "a \<noteq> b"
  shows "load32 a (store32 b w m) = load32 a m"
proof (rule load32_cong, rule store32_other)
  fix i :: nat assume "i < 4"
  then show "4 \<le> unat (a + of_nat i - b)" using pages_apart [OF assms, of i] by simp
qed

lemma load32_memset_page:
  assumes "a mod PGSIZE = 0" "b mod PGSIZE = 0" "a \<noteq> b"
  shows "load32 a (memset b c PGSIZE m) = load32 a m"
proof (rule load32_cong)
  fix i :: nat assume "i < 4"
  then have "4096 \<le> unat (a + of_nat i - b)" using pages_apart [OF assms, of i] by simp
  then show "memset b c PGSIZE m (a + of_nat i) = m (a + of_nat i)"
    by (simp add: memset_fills PGSIZE_def)
qed

lemma unat_and_not_mask: "unat (a AND NOT (mask n) :: u32) = unat a div 2 ^ n * 2 ^ n"
proof -
  have e: "a AND NOT (mask n) = push_bit n (drop_bit n a)"
    by (rule bit_word_eqI) (auto simp: bit_simps)
  have s: "(a AND NOT (mask n)) + take_bit n a = a" unfolding e by (rule bits_ident)
  have t: "unat (take_bit n a) = unat a mod 2 ^ n" by (simp only: unsigned_take_bit_eq) (simp add: take_bit_eq_mod)
  have "unat (take_bit n a) \<le> unat a" unfolding t by simp
  then have "unat (a - take_bit n a) = unat a - unat (take_bit n a)"
    by (simp add: unat_sub word_le_nat_alt)
  moreover have "a AND NOT (mask n) = a - take_bit n a" using s by (metis add_diff_cancel_right')
  ultimately show ?thesis using t minus_mod_eq_div_mult [of "unat a" "2 ^ n"] by simp
qed

lemma unat_PGROUNDDOWN: "unat (PGROUNDDOWN a) = unat a div 4096 * 4096"
proof -
  have "PGSIZE - 1 = mask 12" by (simp add: mask_eq_exp_minus_1 PGSIZE_def)
  then show ?thesis using unat_and_not_mask [of a 12] unfolding PGROUNDDOWN_def by simp
qed

lemma PGROUNDDOWN_mod [simp]: "PGROUNDDOWN a mod PGSIZE = 0"
  by (simp add: page_mod_iff unat_PGROUNDDOWN)

lemma PGROUNDUP_DOWN: "PGROUNDUP a = PGROUNDDOWN (a + 4095)"
  by (simp add: PGROUNDUP_def PGROUNDDOWN_def PGSIZE_def add.commute)

lemma PGROUNDUP_mod [simp]: "PGROUNDUP a mod PGSIZE = 0"
  by (simp add: PGROUNDUP_DOWN)

lemma PGROUNDUP_le: "unat a + 4095 < 2 ^ 32 \<Longrightarrow> a \<le> PGROUNDUP a"
proof -
  assume "unat a + 4095 < 2 ^ 32"
  then have "unat (a + 4095) = unat a + 4095" using unat_add_cases [of a 4095] by auto
  moreover have "n \<le> (n + 4095) div 4096 * 4096" for n :: nat
    using div_mult_mod_eq [of "n + 4095" 4096] mod_less_divisor [of 4096 "n + 4095"] by linarith
  ultimately show ?thesis by (simp add: PGROUNDUP_DOWN word_le_nat_alt unat_PGROUNDDOWN)
qed

lemma word_less_pred: "a \<noteq> 0 \<Longrightarrow> a - 1 < (a :: u32)"
  using unat_sub_cases [of a 1] unat_gt_0 [of a] u32_lt [of "a - 1"]
  by (auto simp: word_less_nat_alt)


subsection \<open>The free list\<close>

definition page_ok :: "kmem \<Rightarrow> u32 \<Rightarrow> bool" where
  "page_ok s v \<longleftrightarrow> v \<noteq> 0 \<and> run_ptr_valid s v"

definition pidx :: "u32 \<Rightarrow> u32" where
  "pidx v = v2p v div PGSIZE"

definition free_pages :: "kmem \<Rightarrow> u32 set" where
  "free_pages s = {v. page_ok s v \<and> page_state s (pidx v) = PAGE_FREE}"

text \<open>The kernel image ends above \<open>KERNBASE\<close> and memory does not exceed \<open>PHYSTOP\<close>.\<close>

definition kenv :: "kmem \<Rightarrow> bool" where
  "kenv s \<longleftrightarrow> KERNBASE \<le> kend s \<and> v2p (kend s) \<le> PHYSTOP \<and> ptop s \<le> PHYSTOP"

lemma page_okD:
  assumes "page_ok s v"
  shows "v mod PGSIZE = 0" "kend s \<le> v" "v2p v < ptop s" "v \<noteq> 0" "run_ptr_valid s v"
  using assms by (auto simp: page_ok_def run_ptr_valid_def split: if_splits)

lemma page_okI:
  assumes "v mod PGSIZE = 0" "kend s \<le> v" "v2p v < ptop s" "v \<noteq> 0"
  shows "page_ok s v"
  using assms by (auto simp: page_ok_def run_ptr_valid_def)

lemma page_ok_cong:
  "kend t = kend s \<Longrightarrow> phystop t = phystop s \<Longrightarrow> run_ptr_valid t v = run_ptr_valid s v"
  "kend t = kend s \<Longrightarrow> phystop t = phystop s \<Longrightarrow> page_ok t v = page_ok s v"
  "kend t = kend s \<Longrightarrow> phystop t = phystop s \<Longrightarrow> kenv t = kenv s"
  by (simp_all add: page_ok_def run_ptr_valid_def ptop_def kenv_def)

lemma v2p_mod: "v2p v mod PGSIZE = 0 \<longleftrightarrow> v mod PGSIZE = 0"
proof -
  have "unat (v2p v) + 4096 * 524288 = unat v \<or> unat (v2p v) + 4096 * 524288 = unat v + 4096 * 1048576"
    using unat_sub_cases [of v KERNBASE] by (simp add: v2p_def KERNBASE_def)
  then have "(unat (v2p v) + 4096 * 524288) mod 4096 = unat v mod 4096
      \<or> (unat (v2p v) + 4096 * 524288) mod 4096 = (unat v + 4096 * 1048576) mod 4096" by metis
  then have "unat (v2p v) mod 4096 = unat v mod 4096" by (simp only: mod_mult_self2 disj_absorb)
  then show ?thesis unfolding page_mod_iff by simp
qed

lemma pidx_lt:
  assumes "kenv s" "page_ok s v"
  shows "pidx v < PAGE_TRACK_SLOTS"
proof -
  have "unat (v2p v) < unat PHYSTOP"
    using assms page_okD(3) [OF assms(2)] by (simp add: kenv_def word_less_nat_alt word_le_nat_alt)
  then have "unat (v2p v) < 458752 * 4096" by (simp add: PHYSTOP_def)
  then have "unat (v2p v) div 4096 < 458752" by (rule less_mult_imp_div_less)
  then show ?thesis
    by (simp add: pidx_def PAGE_TRACK_SLOTS_def PGSIZE_def PHYSTOP_def word_less_nat_alt unat_div)
qed

lemma pidx_inj:
  assumes "a mod PGSIZE = 0" "b mod PGSIZE = 0" "pidx a = pidx b"
  shows "a = b"
proof -
  have "v2p a mod PGSIZE = 0" "v2p b mod PGSIZE = 0" using assms(1,2) v2p_mod by simp_all
  then have "v2p a = v2p b"
    using assms(3) div_mult_mod_eq [of "v2p a" PGSIZE] div_mult_mod_eq [of "v2p b" PGSIZE]
    by (simp add: pidx_def)
  then show ?thesis by (simp add: v2p_def)
qed

primrec wchain :: "(u32 \<Rightarrow> u32) \<Rightarrow> u32 \<Rightarrow> u32 list \<Rightarrow> bool" where
  "wchain f a [] = (a = 0)"
| "wchain f a (x # xs) = (a = x \<and> x \<noteq> 0 \<and> wchain f (f x) xs)"

lemma wchain_cong: "(\<And>x. x \<in> set xs \<Longrightarrow> f x = g x) \<Longrightarrow> wchain f a xs = wchain g a xs"
  by (induction xs arbitrary: a) auto

definition kmem_list :: "kmem \<Rightarrow> u32 list \<Rightarrow> bool" where
  "kmem_list s xs \<longleftrightarrow> kenv s \<and> wchain (\<lambda>r. load32 r (kmem_mem s)) (freelist s) xs \<and> distinct xs
     \<and> set xs = free_pages s \<and> nfree s = int (length xs)
     \<and> freelist_shadow s = freelist s \<and> nfree_shadow s = nfree s"

definition kmem_inv :: "kmem \<Rightarrow> bool" where
  "kmem_inv s \<longleftrightarrow> (\<exists>xs. kmem_list s xs)"

lemma set_shadow_id: "kmem_list s xs \<Longrightarrow> set_shadow s = s"
  by (cases s) (simp add: set_shadow_def kmem_list_def)

lemma kmem_list_head:
  assumes "kmem_list s xs"
  shows "run_ptr_valid s (freelist s)" "freelist s = 0 \<longleftrightarrow> xs = []" "restore_shadow s = s"
proof -
  have "run_ptr_valid s (freelist s) \<and> (freelist s = 0 \<longleftrightarrow> xs = [])"
  proof (cases xs)
    case Nil
    then show ?thesis using assms by (simp add: kmem_list_def run_ptr_valid_def)
  next
    case (Cons x ys)
    then have "freelist s = x" "x \<in> free_pages s" using assms by (auto simp: kmem_list_def)
    then show ?thesis using Cons by (simp add: free_pages_def page_ok_def)
  qed
  then show "run_ptr_valid s (freelist s)" "freelist s = 0 \<longleftrightarrow> xs = []" by blast+
  then show "restore_shadow s = s" by (simp add: restore_shadow_def)
qed

lemma free_pages_alloc:
  assumes "page_ok s x" "kend t = kend s" "phystop t = phystop s"
    and "page_state t = (page_state s)(pidx x := PAGE_ALLOC)"
  shows "free_pages t = free_pages s - {x}"
proof -
  have "pidx v = pidx x \<longleftrightarrow> v = x" if "page_ok s v" for v
    using pidx_inj [of v x] page_okD(1) [OF that] page_okD(1) [OF assms(1)] by auto
  then show ?thesis by (auto simp: free_pages_def page_ok_cong(2) [OF assms(2,3)] assms(4))
qed

lemma kalloc_law:
  assumes "kmem_list s (x # xs)"
  shows "\<exists>t. kalloc s = Ok (x, t) \<and> kmem_list t xs \<and> kmem_mem t = kmem_mem s
    \<and> kend t = kend s \<and> phystop t = phystop s \<and> page_state t = (page_state s)(pidx x := PAGE_ALLOC)"
proof -
  let ?n = "load32 x (kmem_mem s)"
  have env: "kenv s" and fl: "freelist s = x" and ch: "wchain (\<lambda>r. load32 r (kmem_mem s)) ?n xs"
    and x: "x \<in> free_pages s" and xs: "\<And>y. y \<in> set xs \<Longrightarrow> y \<in> free_pages s" and nf: "0 < nfree s"
    using assms by (auto simp: kmem_list_def)
  have ok: "page_ok s x" "page_state s (pidx x) = PAGE_FREE" using x by (auto simp: free_pages_def)
  have n: "?n = 0 \<or> (page_ok s ?n \<and> page_state s (pidx ?n) = PAGE_FREE)"
    using ch xs by (cases xs) (auto simp: free_pages_def)
  then have nv: "run_ptr_valid s ?n" by (auto simp: run_ptr_valid_def [of s 0] page_ok_def)
  let ?t = "s\<lparr>freelist := ?n, page_state := (page_state s)(pidx x := PAGE_ALLOC),
     nfree := nfree s - 1, freelist_shadow := ?n, nfree_shadow := nfree s - 1\<rparr>"
  have g1: "\<not> (x mod PGSIZE \<noteq> 0 \<or> x < kend s \<or> ptop s \<le> v2p x)"
    using page_okD [OF ok(1)] by (simp add: not_less not_le)
  have g3: "\<not> (?n \<noteq> 0 \<and> pidx ?n < PAGE_TRACK_SLOTS \<and> page_state s (pidx ?n) \<noteq> PAGE_FREE)"
    using n by auto
  have "kalloc_step s = (Some x, ?t)"
    unfolding kalloc_step_def Let_def fl pidx_def [symmetric]
    using g1 nv g3 ok(2) nf pidx_lt [OF env ok(1)] by (simp add: set_shadow_def)
  then have k: "kalloc s = Ok (x, ?t)"
    using kmem_list_head(3) [OF assms] page_okD(4) [OF ok(1)] nf
    by (simp add: kalloc_def Let_def fl numeral_2_eq_2)
  have "free_pages ?t = free_pages s - {x}" by (rule free_pages_alloc [OF ok(1)]) simp_all
  moreover have "kenv ?t" using env page_ok_cong(3) [of ?t s] by simp
  moreover have "set xs = free_pages s - {x}" "distinct xs" "nfree s - 1 = int (length xs)"
    using assms by (auto simp: kmem_list_def)
  ultimately have "kmem_list ?t xs" using ch by (simp add: kmem_list_def)
  then show ?thesis using k by auto
qed

lemma kalloc_empty: "kmem_list s [] \<Longrightarrow> kalloc s = Ok (0, s)"
  using kmem_list_head [of s "[]"] set_shadow_id [of s "[]"]
  by (simp add: kalloc_def Let_def numeral_2_eq_2 kmem_list_def)

lemma kfree_law:
  assumes inv: "kmem_list s xs" and v: "page_ok s v" "page_state s (pidx v) \<noteq> PAGE_FREE"
  shows "\<exists>t. kfree v s = Ok ((), t) \<and> kmem_list t (v # xs) \<and> kend t = kend s \<and> phystop t = phystop s
    \<and> page_state t = (page_state s)(pidx v := PAGE_FREE)
    \<and> (\<forall>x. 4096 \<le> unat (x - v) \<longrightarrow> kmem_mem t x = kmem_mem s x)"
proof -
  have env: "kenv s" using inv by (simp add: kmem_list_def)
  let ?s = "s\<lparr>page_state := (page_state s)(pidx v := PAGE_FREE), kmem_mem := memset v 1 PGSIZE (kmem_mem s)\<rparr>"
  let ?t = "?s\<lparr>kmem_mem := store32 v (freelist s) (memset v 1 PGSIZE (kmem_mem s)), freelist := v,
      nfree := nfree s + 1, freelist_shadow := v, nfree_shadow := nfree s + 1\<rparr>"
  have r: "restore_shadow ?s = ?s"
    using kmem_list_head(1) [OF inv] page_ok_cong(1) [of ?s s] by (simp add: restore_shadow_def)
  have g: "\<not> (v mod PGSIZE \<noteq> 0 \<or> v < kend s \<or> ptop s \<le> v2p v)"
    using page_okD [OF v(1)] by (simp add: not_less not_le)
  have k: "kfree v s = Ok ((), ?t)"
    unfolding kfree_def Let_def pidx_def [symmetric]
    using g r v(2) page_okD(4) [OF v(1)] pidx_lt [OF env v(1)] by (simp add: set_shadow_def)
  have sx: "set xs = free_pages s" using inv by (simp add: kmem_list_def)
  have pe: "pidx w = pidx v \<longleftrightarrow> w = v" if "page_ok s w" for w
    using pidx_inj [of w v] page_okD(1) [OF that] page_okD(1) [OF v(1)] by auto
  have "free_pages ?t = insert v (free_pages s)"
    using v(1) pe page_ok_cong(2) [of ?t s] by (auto simp: free_pages_def)
  moreover have "v \<notin> free_pages s" using v(2) by (simp add: free_pages_def)
  moreover have "wchain (\<lambda>r. load32 r (kmem_mem ?t)) (freelist s) xs"
  proof -
    have "load32 r (kmem_mem ?t) = load32 r (kmem_mem s)" if "r \<in> set xs" for r
    proof -
      have "r mod PGSIZE = 0" "r \<noteq> v" using that sx v(2) by (auto simp: free_pages_def dest: page_okD(1))
      then show ?thesis
        using load32_store_page [of r v] load32_memset_page [of r v] page_okD(1) [OF v(1)] by simp
    qed
    then have "wchain (\<lambda>r. load32 r (kmem_mem ?t)) (freelist s) xs
        = wchain (\<lambda>r. load32 r (kmem_mem s)) (freelist s) xs" by (rule wchain_cong)
    then show ?thesis using inv by (simp add: kmem_list_def)
  qed
  ultimately have "kmem_list ?t (v # xs)"
    using inv env page_okD(4) [OF v(1)] page_ok_cong(3) [of ?t s] by (auto simp: kmem_list_def)
  moreover have "kmem_mem ?t x = kmem_mem s x" if "4096 \<le> unat (x - v)" for x
    using that by (simp add: store32_other memset_fills PGSIZE_def)
  ultimately show ?thesis using k by auto
qed


subsection \<open>Rebuilding a corrupted list\<close>

text \<open>What \<open>kalloc\<close> needs of the first two nodes to take a page.\<close>

definition head_good :: "kmem \<Rightarrow> bool" where
  "head_good s \<longleftrightarrow> freelist s = 0 \<or> (freelist s \<in> free_pages s
     \<and> (load32 (freelist s) (kmem_mem s) = 0 \<or> load32 (freelist s) (kmem_mem s) \<in> free_pages s))"

text \<open>\<open>t\<close> differs from \<open>s\<close> in the list and in the contents of free pages only.\<close>

definition free_only :: "kmem \<Rightarrow> kmem \<Rightarrow> bool" where
  "free_only s t \<longleftrightarrow> kend t = kend s \<and> phystop t = phystop s \<and> page_state t = page_state s
     \<and> (\<forall>x. (\<forall>v \<in> free_pages s. 4096 \<le> unat (x - v)) \<longrightarrow> kmem_mem t x = kmem_mem s x)"

lemma free_only_pages:
  assumes "free_only s t"
  shows "free_pages t = free_pages s" "kenv t = kenv s" "page_ok t v = page_ok s v"
    "run_ptr_valid t v = run_ptr_valid s v"
  using assms page_ok_cong [of t s] by (auto simp: free_only_def free_pages_def)

lemma free_only_refl [simp]: "free_only s s"
  by (simp add: free_only_def)

lemma free_only_trans: "free_only s t \<Longrightarrow> free_only t u \<Longrightarrow> free_only s u"
  using free_only_pages(1) [of s t] by (simp add: free_only_def)

lemma page_ok_p2v:
  assumes "kenv s" "pa mod PGSIZE = 0" "v2p (kend s) \<le> pa" "pa < ptop s"
  shows "page_ok s (p2v pa)" "pidx (p2v pa) = pa div PGSIZE"
proof -
  have lt: "unat pa < 0x70000000" using assms(1,4)
    by (simp add: kenv_def PHYSTOP_def word_less_nat_alt word_le_nat_alt)
  have v: "v2p (p2v pa) = pa" by (simp add: v2p_def p2v_def)
  have u: "unat (p2v pa) = unat pa + 0x80000000"
    using unat_add_cases [of pa "0x80000000"] u32_lt [of "p2v pa"] lt by (auto simp: p2v_def KERNBASE_def)
  have "unat (kend s) = unat (v2p (kend s)) + 0x80000000"
    using assms(1) unat_sub_cases [of "kend s" "0x80000000"] u32_lt [of "v2p (kend s)"]
    by (auto simp: v2p_def KERNBASE_def kenv_def word_le_nat_alt)
  then have "kend s \<le> p2v pa" using assms(3) u by (simp add: word_le_nat_alt)
  moreover have "p2v pa mod PGSIZE = 0" using assms(2) v2p_mod [of "p2v pa"] v by simp
  moreover have "p2v pa \<noteq> 0" using u by auto
  ultimately show "page_ok s (p2v pa)" using assms(4) v by (intro page_okI) simp_all
  show "pidx (p2v pa) = pa div PGSIZE" by (simp add: pidx_def v)
qed

lemma rebuild_loop_good:
  assumes "kenv s" "head_good s" "pa mod PGSIZE = 0" "v2p (kend s) \<le> pa_start" "pa < ptop s"
  shows "head_good (rebuild_loop pa_start pa s) \<and> free_only s (rebuild_loop pa_start pa s)"
  using assms
proof (induction pa_start pa s rule: rebuild_loop.induct)
  case (1 pa_start pa s)
  show ?case
  proof (cases "pa_start \<le> pa")
    case False
    then show ?thesis using "1.prems" by (simp add: rebuild_loop.simps [of pa_start])
  next
    case True
    let ?v = "p2v pa"
    let ?s' = "if pa div PGSIZE < PAGE_TRACK_SLOTS \<and> page_state s (pa div PGSIZE) = PAGE_FREE then
        s\<lparr>kmem_mem := store32 ?v (freelist s) (kmem_mem s), freelist := ?v, nfree := nfree s + 1\<rparr> else s"
    note P = page_ok_p2v [OF "1.prems"(1,3) order_trans [OF "1.prems"(4) True] "1.prems"(5)]
    have fo: "free_only s ?s'"
      using P by (auto simp: free_only_def free_pages_def intro!: store32_other)
    have hg: "head_good ?s'"
      using P "1.prems"(2) free_only_pages(1) [OF fo]
      by (auto simp: head_good_def free_pages_def split: if_splits)
    show ?thesis
    proof (cases "pa < pa_start + PGSIZE")
      case lt: True
      then show ?thesis using True fo hg by (simp add: rebuild_loop.simps [of pa_start] Let_def)
    next
      case ge: False
      have le: "4096 \<le> unat pa"
        using ge True unat_add_cases [of pa_start 4096]
        by (auto simp: word_le_nat_alt word_less_nat_alt PGSIZE_def not_less)
      then have u: "unat (pa - PGSIZE) = unat pa - 4096"
        using unat_sub_cases [of pa 4096] u32_lt [of "pa - 4096"] by (auto simp: PGSIZE_def)
      have "(unat pa - 4096) mod 4096 = unat pa mod 4096" using le by (simp add: le_mod_geq)
      then have m: "(pa - PGSIZE) mod PGSIZE = 0" using "1.prems"(3) u by (simp add: page_mod_iff)
      have "pa - PGSIZE < ptop ?s'" using "1.prems"(5) u
        by (auto simp: word_less_nat_alt ptop_def)
      moreover have "kenv ?s'" using "1.prems"(1) free_only_pages(2) [OF fo] by simp
      moreover have "v2p (kend ?s') \<le> pa_start" using "1.prems"(4) by simp
      ultimately have IH: "head_good (rebuild_loop pa_start (pa - PGSIZE) ?s')
          \<and> free_only ?s' (rebuild_loop pa_start (pa - PGSIZE) ?s')"
        using "1.IH" [OF True refl refl ge] hg m by blast
      have "rebuild_loop pa_start pa s = rebuild_loop pa_start (pa - PGSIZE) ?s'"
        using True ge by (simp add: rebuild_loop.simps [of pa_start pa] Let_def)
      then show ?thesis using IH free_only_trans [OF fo] by metis
    qed
  qed
qed

lemma rebuild_good:
  assumes "kenv s"
  shows "head_good (rebuild_freelist_locked s) \<and> free_only s (rebuild_freelist_locked s)"
proof -
  let ?s = "s\<lparr>freelist := 0, nfree := 0\<rparr>"
  let ?a = "PGROUNDUP (v2p (kend s))" let ?p = "PGROUNDDOWN (ptop s - 1)"
  have fo: "free_only s ?s" by (simp add: free_only_def)
  have "kenv ?s" using assms free_only_pages(2) [OF fo] by simp
  moreover have "head_good ?s" by (simp add: head_good_def)
  moreover have "v2p (kend ?s) \<le> ?a"
    using assms PGROUNDUP_le [of "v2p (kend s)"] by (simp add: kenv_def word_le_nat_alt PHYSTOP_def)
  moreover have "?p < ptop ?s"
  proof -
    have "ptop s \<noteq> 0" by (simp add: ptop_def PHYSTOP_def)
    then have "ptop s - 1 < ptop s" by (rule word_less_pred)
    moreover have "?p \<le> ptop s - 1" by (simp add: word_le_nat_alt unat_PGROUNDDOWN)
    ultimately have "?p < ptop s" by (rule le_less_trans [rotated])
    moreover have "ptop ?s = ptop s" by (simp add: ptop_def)
    ultimately show ?thesis by argo
  qed
  ultimately have *: "head_good (rebuild_loop ?a ?p ?s) \<and> free_only ?s (rebuild_loop ?a ?p ?s)"
    by (intro rebuild_loop_good) simp_all
  let ?r = "rebuild_freelist_locked s"
  have r: "kmem_mem ?r = kmem_mem (rebuild_loop ?a ?p ?s)" "page_state ?r = page_state (rebuild_loop ?a ?p ?s)"
    "freelist ?r = freelist (rebuild_loop ?a ?p ?s)" "kend ?r = kend (rebuild_loop ?a ?p ?s)"
    "phystop ?r = phystop (rebuild_loop ?a ?p ?s)"
    by (simp_all add: rebuild_freelist_locked_def Let_def)
  have "free_only (rebuild_loop ?a ?p ?s) ?r" using r by (simp add: free_only_def)
  moreover from this have "head_good ?r" using * r free_only_pages(1) by (simp add: head_good_def)
  ultimately show ?thesis using fo * free_only_trans by blast
qed

lemma kalloc_step_cases:
  assumes "kenv s" "freelist s \<noteq> 0"
  shows "(\<exists>t. kalloc_step s = (Some (freelist s), t) \<and> freelist s \<in> free_pages s
            \<and> page_state t = (page_state s)(pidx (freelist s) := PAGE_ALLOC) \<and> kmem_mem t = kmem_mem s
            \<and> kend t = kend s \<and> phystop t = phystop s)
       \<or> (\<exists>t. kalloc_step s = (None, t) \<and> head_good t \<and> free_only s t \<and> \<not> head_good s)"
proof -
  let ?r = "freelist s" let ?n = "load32 ?r (kmem_mem s)" let ?s1 = "s\<lparr>freelist := ?n\<rparr>"
  have bad: "\<not> head_good s" if "?r \<notin> free_pages s \<or> (?n \<noteq> 0 \<and> ?n \<notin> free_pages s)"
    using that assms(2) by (auto simp: head_good_def)
  have fo1: "free_only s ?s1" by (simp add: free_only_def)
  then have k1: "kenv ?s1" using assms(1) free_only_pages(2) by simp
  note R = rebuild_good [OF assms(1)]
  have R1: "head_good (rebuild_freelist_locked ?s1) \<and> free_only s (rebuild_freelist_locked ?s1)"
    using rebuild_good [OF k1] free_only_trans [OF fo1] by blast
  show ?thesis
  proof (cases "page_ok s ?r")
    case False
    then have "?r mod PGSIZE \<noteq> 0 \<or> ?r < kend s \<or> ptop s \<le> v2p ?r"
      using assms(2) by (auto simp: page_ok_def run_ptr_valid_def split: if_splits)
    moreover have "?r \<notin> free_pages s" using False by (simp add: free_pages_def)
    ultimately show ?thesis using R bad by (auto simp: kalloc_step_def)
  next
    case ok: True
    then have g1: "\<not> (?r mod PGSIZE \<noteq> 0 \<or> ?r < kend s \<or> ptop s \<le> v2p ?r)"
      using page_okD [OF ok] by (simp add: not_less not_le)
    show ?thesis
    proof (cases "?n = 0 \<or> ?n \<in> free_pages s")
      case False
      then have n: "?n \<noteq> 0" "\<not> (run_ptr_valid s ?n \<and> page_state s (pidx ?n) = PAGE_FREE)"
        by (auto simp: free_pages_def page_ok_def)
      have "\<not> run_ptr_valid s ?n \<or> (?n \<noteq> 0 \<and> pidx ?n < PAGE_TRACK_SLOTS \<and> page_state s (pidx ?n) \<noteq> PAGE_FREE)"
        using n pidx_lt [OF assms(1), of ?n] by (auto simp: page_ok_def)
      then have "kalloc_step s = (None, rebuild_freelist_locked s)"
        using g1 by (auto simp: kalloc_step_def Let_def pidx_def)
      then show ?thesis using R bad False by auto
    next
      case True
      then have nv: "run_ptr_valid s ?n" "\<not> (?n \<noteq> 0 \<and> pidx ?n < PAGE_TRACK_SLOTS \<and> page_state s (pidx ?n) \<noteq> PAGE_FREE)"
        by (auto simp: free_pages_def page_ok_def run_ptr_valid_def [of s 0])
      show ?thesis
      proof (cases "page_state s (pidx ?r) = PAGE_FREE")
        case False
        then have "kalloc_step s = (None, rebuild_freelist_locked ?s1)"
          unfolding kalloc_step_def Let_def pidx_def [symmetric]
          using g1 nv pidx_lt [OF assms(1) ok] by (auto simp del: de_Morgan_conj)
        moreover have "?r \<notin> free_pages s" using False by (simp add: free_pages_def)
        ultimately show ?thesis using R1 bad by auto
      next
        case fr: True
        then have "?r \<in> free_pages s" using ok by (simp add: free_pages_def)
        moreover have "\<exists>t. kalloc_step s = (Some ?r, t) \<and> page_state t = (page_state s)(pidx ?r := PAGE_ALLOC)
            \<and> kmem_mem t = kmem_mem s \<and> kend t = kend s \<and> phystop t = phystop s"
          unfolding kalloc_step_def Let_def pidx_def [symmetric]
          using g1 nv fr pidx_lt [OF assms(1) ok] by (auto simp: set_shadow_def simp del: de_Morgan_conj)
        ultimately show ?thesis by blast
      qed
    qed
  qed
qed

text \<open>The outcome of \<open>kalloc\<close> with the list in any state at all.\<close>

definition kalloc_out :: "kmem \<Rightarrow> u32 \<Rightarrow> kmem \<Rightarrow> bool" where
  "kalloc_out s r t \<longleftrightarrow> kend t = kend s \<and> phystop t = phystop s
     \<and> (\<forall>x. (\<forall>v \<in> free_pages s. 4096 \<le> unat (x - v)) \<longrightarrow> kmem_mem t x = kmem_mem s x)
     \<and> (r = 0 \<and> page_state t = page_state s
        \<or> r \<in> free_pages s \<and> page_state t = (page_state s)(pidx r := PAGE_ALLOC))"

lemma kalloc_out_trans: "free_only s t \<Longrightarrow> kalloc_out t r u \<Longrightarrow> kalloc_out s r u"
  using free_only_pages(1) [of s t] by (auto simp: kalloc_out_def free_only_def)

lemma kalloc_out_shadow: "kalloc_out s 0 (set_shadow s)"
  by (simp add: kalloc_out_def set_shadow_def)

lemma kalloc_loop_good:
  assumes "kenv s" "head_good s"
  shows "\<exists>r t. kalloc_loop (Suc k) s = Ok (r, t) \<and> kalloc_out s r t"
proof (cases "freelist s = 0")
  case True
  then show ?thesis using kalloc_out_shadow by auto
next
  case False
  then show ?thesis using kalloc_step_cases [OF assms(1) False] assms(2) by (auto simp: kalloc_out_def)
qed

lemma kalloc_any:
  assumes "kenv s"
  shows "\<exists>r t. kalloc s = Ok (r, t) \<and> kalloc_out s r t"
proof -
  let ?s1 = "restore_shadow s"
  let ?s2 = "if freelist ?s1 = 0 \<and> 0 < nfree ?s1 then rebuild_freelist_locked ?s1 else ?s1"
  have f1: "free_only s ?s1" by (simp add: free_only_def restore_shadow_def)
  then have e1: "kenv ?s1" using assms free_only_pages(2) by simp
  have f2: "free_only s ?s2" using f1 free_only_trans [OF f1] rebuild_good [OF e1] by simp
  then have e2: "kenv ?s2" using assms free_only_pages(2) by blast
  have k: "kalloc s = kalloc_loop 2 ?s2" by (simp add: kalloc_def Let_def)
  have "\<exists>r t. kalloc_loop 2 ?s2 = Ok (r, t) \<and> kalloc_out ?s2 r t"
  proof (cases "freelist ?s2 = 0")
    case True
    then show ?thesis using kalloc_out_shadow [of ?s2] by (auto simp: numeral_2_eq_2)
  next
    case False
    from kalloc_step_cases [OF e2 False] show ?thesis
    proof (elim disjE exE conjE)
      fix t assume "kalloc_step ?s2 = (Some (freelist ?s2), t)" "freelist ?s2 \<in> free_pages ?s2"
        "page_state t = (page_state ?s2)(pidx (freelist ?s2) := PAGE_ALLOC)" "kmem_mem t = kmem_mem ?s2"
        "kend t = kend ?s2" "phystop t = phystop ?s2"
      then show ?thesis using False by (simp add: numeral_2_eq_2 kalloc_out_def)
    next
      fix t assume t: "kalloc_step ?s2 = (None, t)" "head_good t" "free_only ?s2 t"
      have "kenv t" using e2 free_only_pages(2) [OF t(3)] by simp
      from kalloc_loop_good [OF this t(2), of 0] show ?thesis
        using False t(1) kalloc_out_trans [OF t(3)] by (auto simp: numeral_2_eq_2)
    qed
  qed
  then show ?thesis using k kalloc_out_trans [OF f2] by metis
qed


subsection \<open>Properties\<close>

lemma kmem_invE:
  assumes "kmem_inv s"
  obtains xs where "kmem_list s xs" "set xs = free_pages s" "kmem_inv s"
  using assms by (auto simp: kmem_inv_def kmem_list_def)

text \<open>
  C17. On an intact allocator \<open>kalloc\<close> keeps the invariant and leaves memory as it is; it returns 0
  exactly when no page is free, and otherwise a page that was free and no longer is.
\<close>

theorem kalloc_correct:
  assumes "kmem_inv s"
  shows "\<exists>r t. kalloc s = Ok (r, t) \<and> kmem_inv t \<and> kmem_mem t = kmem_mem s
    \<and> (if free_pages s = {} then r = 0 \<and> t = s
       else r \<in> free_pages s \<and> free_pages t = free_pages s - {r} \<and> kfreepages t = kfreepages s - 1)"
proof -
  obtain xs where xs: "kmem_list s xs" "set xs = free_pages s" using assms by (rule kmem_invE)
  show ?thesis
  proof (cases xs)
    case Nil
    then show ?thesis using xs assms kalloc_empty by auto
  next
    case (Cons x ys)
    then obtain t where t: "kalloc s = Ok (x, t)" "kmem_list t ys" "kmem_mem t = kmem_mem s"
      using kalloc_law xs(1) by blast
    have "free_pages t = free_pages s - {x}" "nfree t = nfree s - 1" "x \<in> free_pages s"
      using Cons xs t(2) by (auto simp: kmem_list_def)
    then show ?thesis using t by (auto simp: kmem_inv_def kfreepages_def)
  qed
qed

text \<open>Two pages of memory, the second free.\<close>

definition demo_kmem :: kmem where
  "demo_kmem = \<lparr>kend = 0x80001000, phystop = 0x3000, page_state = (\<lambda>_. PAGE_ALLOC)(2 := PAGE_FREE),
     freelist = 0x80002000, nfree = 1, freelist_shadow = 0x80002000, nfree_shadow = 1, kmem_mem = (\<lambda>_. 0)\<rparr>"

lemma demo_kmem_ok: "page_ok demo_kmem 0x80001000" "page_ok demo_kmem 0x80002000" "kenv demo_kmem"
  by (simp_all add: page_ok_def run_ptr_valid_def demo_kmem_def PGSIZE_def ptop_def v2p_def KERNBASE_def
      kenv_def PHYSTOP_def)

lemma demo_free_pages: "free_pages demo_kmem = {0x80002000}"
proof -
  have "pidx 0x80002000 = 2" by (simp add: pidx_def v2p_def KERNBASE_def PGSIZE_def)
  moreover have "page_state demo_kmem i = PAGE_FREE \<longleftrightarrow> i = 2" for i by (simp add: demo_kmem_def)
  moreover have "pidx v = pidx 0x80002000 \<longleftrightarrow> v = 0x80002000" if "page_ok demo_kmem v" for v
    using pidx_inj [of v "0x80002000"] page_okD(1) [OF that] page_okD(1) [OF demo_kmem_ok(2)] by blast
  ultimately show ?thesis using demo_kmem_ok(2) unfolding free_pages_def by auto
qed

lemma demo_kmem_inv: "kmem_inv demo_kmem"
proof -
  have "load32 0x80002000 (\<lambda>_. 0) = 0" by (simp add: load32_def)
  then have "kmem_list demo_kmem [0x80002000]"
    using demo_kmem_ok(3) by (simp add: kmem_list_def demo_free_pages) (simp add: demo_kmem_def)
  then show ?thesis unfolding kmem_inv_def by blast
qed

theorem kalloc_correct_witness:
  "kmem_inv demo_kmem \<and> (\<exists>t. kalloc demo_kmem = Ok (0x80002000, t) \<and> kmem_inv t \<and> free_pages t = {})"
proof -
  obtain r t where "kalloc demo_kmem = Ok (r, t)" "kmem_inv t" "r \<in> {0x80002000}" "free_pages t = {0x80002000} - {r}"
    using kalloc_correct [OF demo_kmem_inv] unfolding demo_free_pages by (auto split: if_splits)
  then show ?thesis using demo_kmem_inv by simp
qed

text \<open>
  C19. \<open>kfree\<close> on an intact allocator: the null pointer and a page that is free already change
  nothing; a pointer that is not a page between the end of the kernel and the end of memory panics; any
  other page becomes free, only its own 4096 bytes are overwritten, and the invariant is kept.
\<close>

theorem kfree_correct:
  assumes "kmem_inv s"
  shows "if v = 0 \<or> v \<in> free_pages s then kfree v s = Ok ((), s)
    else if \<not> page_ok s v then kfree v s = Panic ''kfree''
    else \<exists>t. kfree v s = Ok ((), t) \<and> kmem_inv t \<and> free_pages t = insert v (free_pages s)
       \<and> kfreepages t = kfreepages s + 1 \<and> (\<forall>x. 4096 \<le> unat (x - v) \<longrightarrow> kmem_mem t x = kmem_mem s x)"
proof -
  obtain xs where xs: "kmem_list s xs" "set xs = free_pages s" using assms by (rule kmem_invE)
  then have env: "kenv s" by (simp add: kmem_list_def)
  consider (z) "v = 0" | (bad) "v \<noteq> 0" "\<not> page_ok s v" | (free) "v \<in> free_pages s"
    | (ok) "page_ok s v" "v \<notin> free_pages s" by blast
  then show ?thesis
  proof cases
    case z
    then show ?thesis by (simp add: kfree_def)
  next
    case bad
    then have "v \<notin> free_pages s" by (simp add: free_pages_def)
    then show ?thesis using bad by (auto simp: kfree_def page_ok_def run_ptr_valid_def split: if_splits)
  next
    case free
    then have "page_ok s v" "page_state s (pidx v) = PAGE_FREE" by (auto simp: free_pages_def)
    then show ?thesis using free page_okD [of s v] pidx_lt [OF env, of v]
      by (auto simp: kfree_def Let_def pidx_def not_less not_le)
  next
    case ok
    then have "page_state s (pidx v) \<noteq> PAGE_FREE" by (simp add: free_pages_def)
    from kfree_law [OF xs(1) ok(1) this] obtain t where t: "kfree v s = Ok ((), t)" "kmem_list t (v # xs)"
      "\<forall>x. 4096 \<le> unat (x - v) \<longrightarrow> kmem_mem t x = kmem_mem s x" by blast
    have "free_pages t = insert v (free_pages s)" "nfree t = nfree s + 1"
      using t(2) xs by (auto simp: kmem_list_def)
    then show ?thesis using t ok page_okD(4) [OF ok(1)] by (auto simp: kmem_inv_def kfreepages_def)
  qed
qed

lemma demo_kmem_bad: "\<not> page_ok demo_kmem 0x80001234"
  by (simp add: page_ok_def run_ptr_valid_def PGSIZE_def)

theorem kfree_correct_witness:
  "kmem_inv demo_kmem \<and> kfree 0x80001234 demo_kmem = Panic ''kfree'' \<and> kfree 0x80002000 demo_kmem = Ok ((), demo_kmem)
   \<and> (\<exists>t. kfree 0x80001000 demo_kmem = Ok ((), t) \<and> kmem_inv t \<and> free_pages t = {0x80001000, 0x80002000})"
proof (intro conjI)
  show "kmem_inv demo_kmem" by (rule demo_kmem_inv)
  show "kfree 0x80001234 demo_kmem = Panic ''kfree''"
    using kfree_correct [OF demo_kmem_inv, of "0x80001234"] demo_kmem_bad by (simp add: demo_free_pages)
  show "kfree 0x80002000 demo_kmem = Ok ((), demo_kmem)"
    using kfree_correct [OF demo_kmem_inv, of "0x80002000"] by (simp add: demo_free_pages)
  show "\<exists>t. kfree 0x80001000 demo_kmem = Ok ((), t) \<and> kmem_inv t \<and> free_pages t = {0x80001000, 0x80002000}"
    using kfree_correct [OF demo_kmem_inv, of "0x80001000"] demo_kmem_ok(1) by (simp add: demo_free_pages) blast
qed

text \<open>
  C11. \<open>kalloc\<close> survives any corruption of the free list: whatever the list head, its shadow, the
  counters and the links stored in the pages are, the loop ends after at most one rebuild, the result is
  0 or a page marked free which is now marked allocated, and no byte outside the free pages changes.
\<close>

theorem kalloc_robust:
  assumes "kenv s"
  shows "\<exists>r t. kalloc s = Ok (r, t)
    \<and> (r = 0 \<and> page_state t = page_state s
       \<or> r \<in> free_pages s \<and> page_state t = (page_state s)(pidx r := PAGE_ALLOC))
    \<and> (\<forall>x. (\<forall>v \<in> free_pages s. 4096 \<le> unat (x - v)) \<longrightarrow> kmem_mem t x = kmem_mem s x)"
  using kalloc_any [OF assms] unfolding kalloc_out_def by blast

theorem kalloc_robust_witness:
  "let s = demo_kmem\<lparr>freelist := 0xdeadbeef, freelist_shadow := 0x1234\<rparr> in
   \<exists>r t. kalloc s = Ok (r, t) \<and> (r = 0 \<or> r = 0x80002000)"
proof -
  let ?s = "demo_kmem\<lparr>freelist := 0xdeadbeef, freelist_shadow := 0x1234\<rparr>"
  have f: "free_only demo_kmem ?s" by (simp add: free_only_def)
  then have "kenv ?s" using demo_kmem_ok(3) free_only_pages(2) [OF f] by simp
  from kalloc_robust [OF this] show ?thesis
    unfolding free_only_pages(1) [OF f] demo_free_pages Let_def by blast
qed



subsection \<open>The interface of the page allocator\<close>

text \<open>The page an address lies in.\<close>

lemma in_page_iff:
  assumes "v mod PGSIZE = 0"
  shows "unat (x - v) < 4096 \<longleftrightarrow> PGROUNDDOWN x = v"
proof
  assume l: "unat (x - v) < 4096"
  have "unat v mod 4096 = 0" using assms by (simp add: page_mod_iff)
  then obtain q where q: "unat v = 4096 * q" by blast
  then have "q < 2 ^ 20" using u32_lt [of v] by simp
  then have "unat v + unat (x - v) < 2 ^ 32" using l q by simp
  then have x: "unat x = 4096 * q + unat (x - v)" using unat_add_cases [of v "x - v"] q by simp
  have "unat x div 4096 = q" unfolding x using l by simp
  then have "unat (PGROUNDDOWN x) = unat v" using q by (simp add: unat_PGROUNDDOWN)
  then show "PGROUNDDOWN x = v" by (simp add: word_unat_eq_iff)
next
  assume v: "PGROUNDDOWN x = v"
  have "PGROUNDDOWN x \<le> x" by (simp add: word_le_nat_alt unat_PGROUNDDOWN)
  then have "unat (x - v) = unat x - unat x div 4096 * 4096" unfolding v [symmetric] by (simp add: unat_sub unat_PGROUNDDOWN)
  also have "\<dots> = unat x mod 4096" by (rule minus_div_mult_eq_mod)
  finally show "unat (x - v) < 4096" by simp
qed

text \<open>
  What a client may rely on: allocation takes a page out of the set of free pages and touches no memory,
  freeing puts it back and writes to that page only, and writes outside the free pages do not
  disturb the allocator.
\<close>

locale page_alloc =
  fixes alloc :: "('s, u32) kop"
    and release :: "u32 \<Rightarrow> ('s, unit) kop"
    and inv :: "'s \<Rightarrow> bool"
    and frees :: "'s \<Rightarrow> u32 set"
    and okp :: "'s \<Rightarrow> u32 \<Rightarrow> bool"
    and memo :: "'s \<Rightarrow> mem"
    and setm :: "mem \<Rightarrow> 's \<Rightarrow> 's"
  assumes alloc_law: "inv s \<Longrightarrow> \<exists>r t. alloc s = Ok (r, t) \<and> inv t \<and> memo t = memo s \<and> okp t = okp s
        \<and> (if frees s = {} then r = 0 \<and> t = s else r \<in> frees s \<and> frees t = frees s - {r})"
    and free_law: "inv s \<Longrightarrow> okp s v \<Longrightarrow> v \<notin> frees s \<Longrightarrow> \<exists>t. release v s = Ok ((), t) \<and> inv t \<and> okp t = okp s
        \<and> frees t = insert v (frees s) \<and> (\<forall>x. PGROUNDDOWN x \<noteq> v \<longrightarrow> memo t x = memo s x)"
    and set_law: "inv s \<Longrightarrow> (\<And>x. PGROUNDDOWN x \<in> frees s \<Longrightarrow> m x = memo s x) \<Longrightarrow> inv (setm m s)"
    and set_frees: "frees (setm m s) = frees s" "okp (setm m s) = okp s" "memo (setm m s) = m"
    and ok_page: "okp s v \<Longrightarrow> v \<noteq> 0 \<and> v mod PGSIZE = 0" "v \<in> frees s \<Longrightarrow> okp s v"
begin

lemma alloc_rule:
  assumes "inv s" "frees s = {} \<Longrightarrow> Q 0 s"
    and "\<And>r t. r \<in> frees s \<Longrightarrow> r \<noteq> 0 \<Longrightarrow> inv t \<Longrightarrow> memo t = memo s \<Longrightarrow> okp t = okp s \<Longrightarrow> frees t = frees s - {r} \<Longrightarrow> Q r t"
  shows "wp alloc Q s"
proof -
  obtain r t where t: "alloc s = Ok (r, t)" "inv t" "memo t = memo s" "okp t = okp s"
    "if frees s = {} then r = 0 \<and> t = s else r \<in> frees s \<and> frees t = frees s - {r}"
    using alloc_law [OF assms(1)] by blast
  have "Q r t"
  proof (cases "frees s = {}")
    case True
    then show ?thesis using t(5) assms(2) by simp
  next
    case False
    then have r: "r \<in> frees s" "frees t = frees s - {r}" using t(5) by simp_all
    from assms(3) [OF r(1) _ t(2-4) r(2)] show ?thesis using ok_page(1) [OF ok_page(2) [OF r(1)]] by simp
  qed
  then show ?thesis using t(1) by (simp add: wp_iff)
qed

lemma free_rule:
  assumes "inv s" "okp s v" "v \<notin> frees s"
    and "\<And>t. inv t \<Longrightarrow> okp t = okp s \<Longrightarrow> frees t = insert v (frees s) \<Longrightarrow>
      (\<And>x. PGROUNDDOWN x \<noteq> v \<Longrightarrow> memo t x = memo s x) \<Longrightarrow> Q () t"
  shows "wp (release v) Q s"
  using free_law [OF assms(1-3)] assms(4) by (auto simp: wp_iff)

lemma set_alloc:
  assumes "inv s" "\<And>x. m x \<noteq> memo s x \<Longrightarrow> PGROUNDDOWN x \<notin> frees s"
  shows "inv (setm m s)"
  using set_law [of s m] assms by blast

end

lemma kmem_list_write:
  assumes "kmem_list s xs" "\<And>x. PGROUNDDOWN x \<in> free_pages s \<Longrightarrow> m x = kmem_mem s x"
  shows "kmem_list (s\<lparr>kmem_mem := m\<rparr>) xs"
proof -
  let ?t = "s\<lparr>kmem_mem := m\<rparr>"
  have fp: "free_pages ?t = free_pages s" using page_ok_cong(2) [of ?t s] by (simp add: free_pages_def)
  have "load32 r m = load32 r (kmem_mem s)" if "r \<in> set xs" for r
  proof (rule load32_cong)
    fix i :: nat assume i: "i < 4"
    have r: "r \<in> free_pages s" using that assms(1) by (simp add: kmem_list_def)
    then have "r mod PGSIZE = 0" by (auto simp: free_pages_def dest: page_okD(1))
    moreover have "unat (r + of_nat i - r) < 4096" using i by (simp add: unat_of_nat_u32)
    ultimately have "PGROUNDDOWN (r + of_nat i) = r" by (rule iffD1 [OF in_page_iff])
    then show "m (r + of_nat i) = kmem_mem s (r + of_nat i)" using assms(2) r by simp
  qed
  then have "wchain (\<lambda>r. load32 r m) (freelist s) xs = wchain (\<lambda>r. load32 r (kmem_mem s)) (freelist s) xs"
    by (rule wchain_cong)
  then show ?thesis using assms(1) fp page_ok_cong(3) [of ?t s] by (simp add: kmem_list_def)
qed

interpretation pg: page_alloc kalloc kfree kmem_inv free_pages page_ok kmem_mem "\<lambda>m. kmem_mem_update (\<lambda>_. m)"
proof unfold_locales
  fix s :: kmem and v m
  show "\<exists>r t. kalloc s = Ok (r, t) \<and> kmem_inv t \<and> kmem_mem t = kmem_mem s \<and> page_ok t = page_ok s
      \<and> (if free_pages s = {} then r = 0 \<and> t = s else r \<in> free_pages s \<and> free_pages t = free_pages s - {r})"
    if inv: "kmem_inv s"
  proof -
    obtain xs where xs: "kmem_list s xs" "set xs = free_pages s" using inv by (rule kmem_invE)
    show ?thesis
    proof (cases xs)
      case Nil
      then show ?thesis using xs inv kalloc_empty by auto
    next
      case (Cons x ys)
      then obtain t where t: "kalloc s = Ok (x, t)" "kmem_list t ys" "kmem_mem t = kmem_mem s"
          "kend t = kend s" "phystop t = phystop s" using kalloc_law xs(1) by blast
      have "free_pages t = free_pages s - {x}" "x \<in> free_pages s" using Cons xs t(2) by (auto simp: kmem_list_def)
      then show ?thesis using t page_ok_cong(2) [OF t(4,5)] by (auto simp: kmem_inv_def fun_eq_iff)
    qed
  qed
  show "\<exists>t. kfree v s = Ok ((), t) \<and> kmem_inv t \<and> page_ok t = page_ok s \<and> free_pages t = insert v (free_pages s)
      \<and> (\<forall>x. PGROUNDDOWN x \<noteq> v \<longrightarrow> kmem_mem t x = kmem_mem s x)"
    if inv: "kmem_inv s" and ok: "page_ok s v" and nf: "v \<notin> free_pages s"
  proof -
    obtain xs where xs: "kmem_list s xs" "set xs = free_pages s" using inv by (rule kmem_invE)
    have "page_state s (pidx v) \<noteq> PAGE_FREE" using ok nf by (simp add: free_pages_def)
    then obtain t where t: "kfree v s = Ok ((), t)" "kmem_list t (v # xs)" "kend t = kend s" "phystop t = phystop s"
        "\<forall>x. 4096 \<le> unat (x - v) \<longrightarrow> kmem_mem t x = kmem_mem s x" using kfree_law [OF xs(1) ok] by blast
    have "free_pages t = insert v (free_pages s)" using t(2) xs by (auto simp: kmem_list_def)
    moreover have "kmem_mem t x = kmem_mem s x" if "PGROUNDDOWN x \<noteq> v" for x
      using in_page_iff [OF page_okD(1) [OF ok], of x] t(5) that by (simp add: not_less)
    ultimately show ?thesis using t page_ok_cong(2) [OF t(3,4)] by (auto simp: kmem_inv_def fun_eq_iff)
  qed
  show "kmem_inv (s\<lparr>kmem_mem := m\<rparr>)" if "kmem_inv s" "\<And>x. PGROUNDDOWN x \<in> free_pages s \<Longrightarrow> m x = kmem_mem s x"
    using that kmem_list_write unfolding kmem_inv_def by blast
  show "free_pages (s\<lparr>kmem_mem := m\<rparr>) = free_pages s" "page_ok (s\<lparr>kmem_mem := m\<rparr>) = page_ok s"
    "kmem_mem (s\<lparr>kmem_mem := m\<rparr>) = m"
    using page_ok_cong(2) [of "s\<lparr>kmem_mem := m\<rparr>" s] by (simp_all add: free_pages_def fun_eq_iff)
  show "page_ok s v \<Longrightarrow> v \<noteq> 0 \<and> v mod PGSIZE = 0" using page_okD(1,4) by blast
  show "v \<in> free_pages s \<Longrightarrow> page_ok s v" by (simp add: free_pages_def)
qed

end
