(* ===== verification/Kmalloc.thy ===== *)
theory Kmalloc
  imports Kalloc
begin

text \<open>
  The kernel heap of \<open>kernel/kmalloc.c\<close>. The arena is a range of the byte memory; a block is a
  header of three words (\<open>next\<close>, \<open>size\<close>, \<open>magic\<close>) followed by \<open>size\<close> bytes, and the header is read and
  written in memory, beside the data of the callers. \<open>km_lock\<close> is held during every operation and
  is not part of the state. A walk of the free list that would not end is \<open>None\<close>, and then \<open>Undef\<close>
  as a result.
\<close>

unbundle bit_operations_syntax


subsection \<open>State\<close>

definition KM_ARENA_BYTES :: nat where "KM_ARENA_BYTES = 512 * 1024"
definition KM_MAGIC_FREE :: u32 where "KM_MAGIC_FREE = 0x4b4d4652"
definition KM_MAGIC_ALLOC :: u32 where "KM_MAGIC_ALLOC = 0x4b4d414c"

record kheap =
  km_arena :: u32
  km_inited :: bool
  km_freelist :: u32
  km_mem :: mem

text \<open>The fields of \<open>struct km_hdr\<close>.\<close>

definition h_next :: "mem \<Rightarrow> u32 \<Rightarrow> u32" where "h_next m p = load32 p m"
definition h_size :: "mem \<Rightarrow> u32 \<Rightarrow> u32" where "h_size m p = load32 (p + 4) m"
definition h_magic :: "mem \<Rightarrow> u32 \<Rightarrow> u32" where "h_magic m p = load32 (p + 8) m"
definition set_next :: "u32 \<Rightarrow> u32 \<Rightarrow> mem \<Rightarrow> mem" where "set_next p v m = store32 p v m"
definition set_size :: "u32 \<Rightarrow> u32 \<Rightarrow> mem \<Rightarrow> mem" where "set_size p v m = store32 (p + 4) v m"
definition set_magic :: "u32 \<Rightarrow> u32 \<Rightarrow> mem \<Rightarrow> mem" where "set_magic p v m = store32 (p + 8) v m"


subsection \<open>Operations\<close>

definition km_block_in_arena :: "u32 \<Rightarrow> kheap \<Rightarrow> bool" where
  "km_block_in_arena q s \<longleftrightarrow> km_arena s \<le> q \<and> q < km_arena s + of_nat KM_ARENA_BYTES"

definition kmalloc_init :: "kheap \<Rightarrow> kheap" where
  "kmalloc_init s =
     (if km_inited s then s
      else let h = km_arena s in
        s\<lparr>km_mem := set_magic h KM_MAGIC_FREE (set_size h (of_nat KM_ARENA_BYTES - 12) (set_next h 0 (km_mem s))),
          km_freelist := h, km_inited := True\<rparr>)"

text \<open>The body of the \<open>for\<close> loop of \<open>km_coalesce\<close>: the first block whose successor in the list is
  its neighbour in the arena, or 0.\<close>

partial_function (option) km_adjacent :: "mem \<Rightarrow> u32 \<Rightarrow> u32 option" where
  "km_adjacent m p =
     (if p = 0 then Some 0
      else if h_next m p \<noteq> 0 \<and> p + 12 + h_size m p = h_next m p then Some p
      else km_adjacent m (h_next m p))"

definition km_merge :: "u32 \<Rightarrow> mem \<Rightarrow> mem" where
  "km_merge p m =
     (let m1 = set_size p (h_size m p + 12 + h_size m (h_next m p)) m;
          m2 = set_next p (h_next m1 (h_next m1 p)) m1
      in set_magic p KM_MAGIC_FREE m2)"

partial_function (option) km_coalesce :: "u32 \<Rightarrow> mem \<Rightarrow> mem option" where
  "km_coalesce fl m =
     (case km_adjacent m fl of
        None \<Rightarrow> None
      | Some p \<Rightarrow> if p = 0 then Some m else km_coalesce fl (km_merge p m))"

text \<open>The search loop of \<open>kmalloc\<close>; the result is the pair of \<open>best\<close> and \<open>bestprev\<close>.\<close>

partial_function (option) km_best ::
  "u32 \<Rightarrow> mem \<Rightarrow> u32 \<Rightarrow> u32 \<Rightarrow> u32 \<Rightarrow> u32 \<Rightarrow> (u32 \<times> u32) option" where
  "km_best need m p prev best bestprev =
     (if p = 0 then Some (best, bestprev)
      else if need \<le> h_size m p \<and> (best = 0 \<or> h_size m p < h_size m best)
      then km_best need m (h_next m p) p p prev
      else km_best need m (h_next m p) p best bestprev)"

definition kmalloc :: "u32 \<Rightarrow> (kheap, u32) kop" where
  "kmalloc nbytes s0 =
     (let s = (if \<not> km_inited s0 then kmalloc_init s0 else s0) in
      if nbytes = 0 then Ok (0, s)
      else let need = (nbytes + 7) AND NOT 7 in
      case km_best need (km_mem s) (km_freelist s) 0 0 0 of
        None \<Rightarrow> Undef
      | Some (best, bestprev) \<Rightarrow>
          if best = 0 then Ok (0, s)
          else let m = km_mem s;
                 (m1, fl1) = (if bestprev \<noteq> 0 then (set_next bestprev (h_next m best) m, km_freelist s)
                              else (m, h_next m best));
                 bsz = h_size m1 best;
                 (m2, fl2) =
                   (if need + 12 + 16 \<le> bsz then
                      (let rest = best + 12 + need;
                           m' = set_next rest fl1 (set_magic rest KM_MAGIC_FREE (set_size rest (bsz - need - 12) m1))
                       in (set_size best need m', rest))
                    else (m1, fl1));
                 m3 = set_next best 0 (set_magic best KM_MAGIC_ALLOC m2)
               in Ok (best + 12, s\<lparr>km_mem := m3, km_freelist := fl2\<rparr>))"

definition kmfree :: "u32 \<Rightarrow> (kheap, unit) kop" where
  "kmfree ap s =
     (if ap = 0 then Ok ((), s)
      else let h = ap - 12 in
      if \<not> km_block_in_arena h s \<or> \<not> km_block_in_arena ap s then Panic ''kmfree''
      else if h_magic (km_mem s) h \<noteq> KM_MAGIC_ALLOC then Ok ((), s)
      else let m = set_next h (km_freelist s) (set_magic h KM_MAGIC_FREE (km_mem s)) in
      case km_coalesce h m of
        None \<Rightarrow> Undef
      | Some m' \<Rightarrow> Ok ((), s\<lparr>km_mem := m', km_freelist := h\<rparr>))"

declare km_adjacent.simps [code] km_coalesce.simps [code] km_best.simps [code]


subsection \<open>Headers in memory\<close>

definition apart :: "u32 \<Rightarrow> u32 \<Rightarrow> bool" where
  "apart p q \<longleftrightarrow> unat p + 12 \<le> unat q \<or> unat q + 12 \<le> unat p"

text \<open>A header does not reach the top of the address space.\<close>

definition fits12 :: "u32 \<Rightarrow> bool" where
  "fits12 p \<longleftrightarrow> unat p + 12 < 2 ^ 32"

lemma load32_store32_far:
  assumes "4 \<le> unat (a - b)" "4 \<le> unat (b - a)"
  shows "load32 a (store32 b w m) = load32 a m"
proof (rule load32_cong)
  fix i :: nat assume i: "i < 4"
  have ab: "unat (a - b) + unat (b - a) = 2 ^ 32"
    using assms unat_sub_cases [of a b] unat_sub_cases [of b a] u32_lt [of "a - b"] u32_lt [of "b - a"] by auto
  then have "unat (a - b) + i < 2 ^ 32" using i assms(2) by linarith
  then have "unat (a - b + of_nat i) = unat (a - b) + i"
    using unat_add_cases [of "a - b" "of_nat i"] i by (auto simp: unat_of_nat_u32)
  moreover have "a + of_nat i - b = a - b + of_nat i" by simp
  ultimately have "4 \<le> unat (a + of_nat i - b)" using assms(1) by (metis trans_le_add1)
  then show "store32 b w m (a + of_nat i) = m (a + of_nat i)" by (rule store32_other)
qed

lemma far_apart:
  assumes "apart p q" "fits12 p" "fits12 q" "j \<le> 8" "k \<le> 8"
  shows "load32 (p + of_nat j) (store32 (q + of_nat k) w m) = load32 (p + of_nat j) m"
proof (rule load32_store32_far)
  have u: "unat (x + of_nat i) = unat x + i" if "fits12 x" "i \<le> 8" for x :: u32 and i
    using that unat_add_cases [of x "of_nat i"] by (auto simp: fits12_def unat_of_nat_u32)
  show "4 \<le> unat (p + of_nat j - (q + of_nat k))" "4 \<le> unat (q + of_nat k - (p + of_nat j))"
    using assms u [of p j] u [of q k] unat_sub_cases [of "p + of_nat j" "q + of_nat k"]
      unat_sub_cases [of "q + of_nat k" "p + of_nat j"] u32_lt [of "p + of_nat j"] u32_lt [of "q + of_nat k"]
    by (auto simp: apart_def fits12_def)
qed

named_theorems hdr

lemma hdr_same [hdr, simp]:
  "h_next (set_next p v m) p = v" "h_size (set_size p v m) p = v" "h_magic (set_magic p v m) p = v"
  by (simp_all add: h_next_def h_size_def h_magic_def set_next_def set_size_def set_magic_def)

lemma hdr_fields [hdr, simp]:
  "h_next (set_size p v m) p = h_next m p" "h_next (set_magic p v m) p = h_next m p"
  "h_size (set_next p v m) p = h_size m p" "h_size (set_magic p v m) p = h_size m p"
  "h_magic (set_next p v m) p = h_magic m p" "h_magic (set_size p v m) p = h_magic m p"
  by (simp_all add: h_next_def h_size_def h_magic_def set_next_def set_size_def set_magic_def load32_store32_far)

lemma hdr_apart:
  assumes "apart p q" "fits12 p" "fits12 q"
  shows "h_next (set_next q v m) p = h_next m p" "h_next (set_size q v m) p = h_next m p"
    "h_next (set_magic q v m) p = h_next m p"
    "h_size (set_next q v m) p = h_size m p" "h_size (set_size q v m) p = h_size m p"
    "h_size (set_magic q v m) p = h_size m p"
    "h_magic (set_next q v m) p = h_magic m p" "h_magic (set_size q v m) p = h_magic m p"
    "h_magic (set_magic q v m) p = h_magic m p"
  using far_apart [OF assms, of 0 0] far_apart [OF assms, of 0 4] far_apart [OF assms, of 0 8]
    far_apart [OF assms, of 4 0] far_apart [OF assms, of 4 4] far_apart [OF assms, of 4 8]
    far_apart [OF assms, of 8 0] far_apart [OF assms, of 8 4] far_apart [OF assms, of 8 8]
  by (simp_all add: h_next_def h_size_def h_magic_def set_next_def set_size_def set_magic_def)

text \<open>A store in a header changes only the twelve bytes of the header.\<close>

lemma hdr_bytes:
  assumes "12 \<le> unat (x - p)"
  shows "set_next p v m x = m x" "set_size p v m x = m x" "set_magic p v m x = m x"
proof -
  have "unat (x - (p + k)) = unat (x - p) - unat k" if "unat k \<le> 8" for k
  proof -
    have e: "x - (p + k) = (x - p) - k" by simp
    show ?thesis unfolding e using that assms unat_sub_cases [of "x - p" k] u32_lt [of "x - p - k"] by auto
  qed
  from this [of 0] this [of 4] this [of 8] show "set_next p v m x = m x" "set_size p v m x = m x" "set_magic p v m x = m x"
    using assms by (auto simp: set_next_def set_size_def set_magic_def intro!: store32_other)
qed


lemma not_in_hdr:
  assumes "fits12 p" "\<not> (unat p \<le> unat x \<and> unat x < unat p + 12)"
  shows "12 \<le> unat (x - p)"
  using assms unat_sub_cases [of x p] by (auto simp: fits12_def)


subsection \<open>Tiling of the arena\<close>

definition bend :: "mem \<Rightarrow> u32 \<Rightarrow> nat" where
  "bend m p = unat p + 12 + unat (h_size m p)"

definition arena_end :: "u32 \<Rightarrow> nat" where
  "arena_end ar = unat ar + KM_ARENA_BYTES"

definition km_tiles :: "u32 \<Rightarrow> mem \<Rightarrow> u32 set \<Rightarrow> bool" where
  "km_tiles ar m B \<longleftrightarrow> ar \<noteq> 0 \<and> arena_end ar < 2 ^ 32 \<and> ar \<in> B
     \<and> (\<forall>p \<in> B. unat ar \<le> unat p \<and> bend m p \<le> arena_end ar)
     \<and> (\<forall>p \<in> B. \<forall>q \<in> B. unat p < unat q \<longrightarrow> bend m p \<le> unat q)
     \<and> (\<forall>p \<in> B. bend m p = arena_end ar \<or> (\<exists>q \<in> B. unat q = bend m p))"

lemma bend_ge: "unat p + 12 \<le> bend m p"
  by (simp add: bend_def)

lemma tilesD:
  assumes "km_tiles ar m B"
  shows "ar \<noteq> 0" "arena_end ar < 2 ^ 32" "ar \<in> B"
    "p \<in> B \<Longrightarrow> unat ar \<le> unat p" "p \<in> B \<Longrightarrow> bend m p \<le> arena_end ar"
    "p \<in> B \<Longrightarrow> q \<in> B \<Longrightarrow> unat p < unat q \<Longrightarrow> bend m p \<le> unat q"
    "p \<in> B \<Longrightarrow> bend m p = arena_end ar \<or> (\<exists>q \<in> B. unat q = bend m p)"
  using assms unfolding km_tiles_def by blast+

lemma tiles_hdr:
  assumes "km_tiles ar m B" "p \<in> B"
  shows "fits12 p" "p \<noteq> 0"
proof -
  show "fits12 p" using tilesD(2,5) [OF assms(1)] assms(2) bend_ge [of p m] by (fastforce simp: fits12_def)
  have "0 < unat ar" using tilesD(1) [OF assms(1)] by (simp add: unat_gt_0)
  then show "p \<noteq> 0" using tilesD(4) [OF assms] by auto
qed

lemma tiles_apart:
  assumes "km_tiles ar m B" "p \<in> B" "q \<in> B" "p \<noteq> q"
  shows "apart p q"
  using tilesD(6) [OF assms(1), of p q] tilesD(6) [OF assms(1), of q p] assms(2-4) bend_ge [of p m] bend_ge [of q m]
    word_unat_eq_iff [of p q]
  by (auto simp: apart_def linorder_neq_iff [of "unat p" "unat q"])

lemma tiles_cong:
  assumes "km_tiles ar m B" "\<And>p. p \<in> B \<Longrightarrow> h_size m' p = h_size m p"
  shows "km_tiles ar m' B"
proof -
  have "bend m' p = bend m p" if "p \<in> B" for p using assms(2) [OF that] by (simp add: bend_def)
  then show ?thesis using assms(1) by (simp add: km_tiles_def)
qed

text \<open>Cutting the block \<open>p\<close> in two, and joining two neighbours.\<close>

lemma tiles_split:
  assumes t: "km_tiles ar m B" and p: "p \<in> B" "unat need + 12 \<le> unat (h_size m p)"
    and r: "r = p + 12 + need"
    and m': "h_size m' p = need" "h_size m' r = h_size m p - need - 12"
      "\<And>q. q \<in> B \<Longrightarrow> q \<noteq> p \<Longrightarrow> h_size m' q = h_size m q"
  shows "km_tiles ar m' (insert r B)" "unat r = unat p + 12 + unat need" "bend m' r = bend m p"
proof -
  have lt: "bend m p < 2 ^ 32" using tilesD(2,5) [OF t] p(1) by fastforce
  have "unat (p + 12) = unat p + 12"
    using lt unat_add_cases [of p 12] by (auto simp: bend_def)
  then show ur: "unat r = unat p + 12 + unat need"
    using lt p(2) unat_add_cases [of "p + 12" need] unfolding r by (auto simp: bend_def)
  have "unat (h_size m p - need) = unat (h_size m p) - unat need"
    using p(2) unat_sub_cases [of "h_size m p" need] u32_lt [of "h_size m p - need"] by auto
  then have "unat (h_size m p - need - 12) = unat (h_size m p) - unat need - 12"
    using p(2) unat_sub_cases [of "h_size m p - need" 12] u32_lt [of "h_size m p - need - 12"] by auto
  then show br: "bend m' r = bend m p" using m'(2) ur p(2) by (simp add: bend_def)
  have bp: "bend m' p = unat r" using m'(1) ur by (simp add: bend_def)
  have bq: "bend m' q = bend m q" if "q \<in> B" "q \<noteq> p" for q using m'(3) [OF that] by (simp add: bend_def)
  have rp: "unat r < bend m p" using ur p(2) by (simp add: bend_def)
  have arp: "unat ar \<le> unat p" "bend m p \<le> arena_end ar" using tilesD(4,5) [OF t] p(1) by blast+
  have "unat ar \<le> unat q \<and> bend m' q \<le> arena_end ar" if "q \<in> insert r B" for q
  proof -
    consider "q = r" | "q = p" "q \<noteq> r" | "q \<in> B" "q \<noteq> p" "q \<noteq> r" using \<open>q \<in> insert r B\<close> by blast
    then show ?thesis
    proof cases
      case 1 then show ?thesis using br arp ur by simp
    next
      case 2 then show ?thesis using bp arp rp by simp
    next
      case 3 then show ?thesis using bq [OF 3(1,2)] tilesD(4,5) [OF t 3(1)] by simp
    qed
  qed
  moreover have "bend m' q \<le> unat q'" if "q \<in> insert r B" "q' \<in> insert r B" "unat q < unat q'" for q q'
  proof -
    consider "q = r" "q' = r" | "q = r" "q' \<in> B" | "q = p" "q' = r" | "q = p" "q' \<in> B" "q' \<noteq> r"
      | "q \<in> B" "q \<noteq> p" "q \<noteq> r" "q' = r" | "q \<in> B" "q \<noteq> p" "q \<noteq> r" "q' \<in> B" using \<open>q \<in> insert r B\<close> \<open>q' \<in> insert r B\<close> by blast
    then show ?thesis
    proof cases
      case 1 then show ?thesis using that(3) by simp
    next
      case 2
      then have "unat p < unat q'" using that(3) ur by simp
      then show ?thesis using 2 br tilesD(6) [OF t p(1), of q'] by simp
    next
      case 3 then show ?thesis using bp by simp
    next
      case 4 then show ?thesis using bp rp tilesD(6) [OF t p(1), of q'] that(3) by simp
    next
      case 5
      have "unat q < unat p"
      proof (rule ccontr)
        assume "\<not> unat q < unat p"
        then have "unat p < unat q" using 5(2) word_unat_eq_iff [of p q] by simp
        then show False using tilesD(6) [OF t p(1) 5(1)] rp that(3) 5(4) by simp
      qed
      then show ?thesis using bq [OF 5(1,2)] tilesD(6) [OF t 5(1) p(1)] 5(4) ur by simp
    next
      case 6 then show ?thesis using bq [OF 6(1,2)] tilesD(6) [OF t 6(1,4)] that(3) by simp
    qed
  qed
  moreover have "bend m' q = arena_end ar \<or> (\<exists>q' \<in> insert r B. unat q' = bend m' q)" if "q \<in> insert r B" for q
  proof -
    consider "q = r" | "q = p" "q \<noteq> r" | "q \<in> B" "q \<noteq> p" "q \<noteq> r" using \<open>q \<in> insert r B\<close> by blast
    then show ?thesis
    proof cases
      case 1 then show ?thesis using br tilesD(7) [OF t p(1)] by auto
    next
      case 2 then show ?thesis using bp by auto
    next
      case 3 then show ?thesis using bq [OF 3(1,2)] tilesD(7) [OF t 3(1)] by auto
    qed
  qed
  ultimately show "km_tiles ar m' (insert r B)" using tilesD(1-3) [OF t] unfolding km_tiles_def by blast
qed

lemma tiles_merge:
  assumes t: "km_tiles ar m B" and p: "p \<in> B" "q \<in> B" "p \<noteq> q" "unat q = bend m p"
    and m': "h_size m' p = h_size m p + 12 + h_size m q"
      "\<And>x. x \<in> B \<Longrightarrow> x \<noteq> p \<Longrightarrow> x \<noteq> q \<Longrightarrow> h_size m' x = h_size m x"
  shows "km_tiles ar m' (B - {q})" "bend m' p = bend m q"
proof -
  have lt: "bend m q < 2 ^ 32" using tilesD(2,5) [OF t] p(2) by fastforce
  have s: "bend m q = unat p + 12 + unat (h_size m p) + 12 + unat (h_size m q)"
    using p(4) by (simp add: bend_def)
  have "unat (h_size m p + 12) = unat (h_size m p) + 12"
    using lt s unat_add_cases [of "h_size m p" 12] by auto
  then have "unat (h_size m p + 12 + h_size m q) = unat (h_size m p) + 12 + unat (h_size m q)"
    using lt s unat_add_cases [of "h_size m p + 12" "h_size m q"] by auto
  then show bp: "bend m' p = bend m q" using m'(1) s by (simp add: bend_def)
  have bx: "bend m' x = bend m x" if "x \<in> B - {q}" "x \<noteq> p" for x using m'(2) [of x] that by (simp add: bend_def)
  have "ar \<noteq> q" using p(4) bend_ge [of p m] tilesD(4) [OF t p(1)] by auto
  moreover have "unat ar \<le> unat x \<and> bend m' x \<le> arena_end ar" if "x \<in> B - {q}" for x
    using that bp bx tilesD(4,5) [OF t] p by (cases "x = p") auto
  moreover have "bend m' x \<le> unat y" if "x \<in> B - {q}" "y \<in> B - {q}" "unat x < unat y" for x y
  proof (cases "x = p")
    case True
    have "unat q < unat y"
      using tilesD(6) [OF t p(1), of y] that True p(4) word_unat_eq_iff [of q y] by force
    then show ?thesis using True bp tilesD(6) [OF t p(2), of y] that by simp
  next
    case False
    then show ?thesis using bx [of x] tilesD(6) [OF t, of x y] that by simp
  qed
  moreover have "bend m' x = arena_end ar \<or> (\<exists>y \<in> B - {q}. unat y = bend m' x)" if "x \<in> B - {q}" for x
  proof (cases "x = p")
    case True
    have "unat q \<noteq> bend m q" using bend_ge [of q m] by simp
    then show ?thesis using True bp tilesD(7) [OF t p(2)] by auto
  next
    case False
    have "unat q \<noteq> bend m x"
    proof
      assume e: "unat q = bend m x"
      have "unat p < unat x \<or> unat x < unat p" using False word_unat_eq_iff [of p x] by auto
      then show False
        using tilesD(6) [OF t p(1), of x] tilesD(6) [OF t, of x p] that e p(1,4) bend_ge [of x m] bend_ge [of p m] by auto
    qed
    then show ?thesis using bx [OF that False] tilesD(7) [OF t, of x] that by auto
  qed
  ultimately show "km_tiles ar m' (B - {q})"
    using tilesD(1-3) [OF t] unfolding km_tiles_def by blast
qed


subsection \<open>The invariant of the heap\<close>

text \<open>
  The arena is tiled by the blocks of the free list \<open>fs\<close>, the allocated blocks \<open>A\<close> and the blocks
  \<open>C\<close> an operation has in its hands.
\<close>

definition km_st :: "u32 \<Rightarrow> mem \<Rightarrow> u32 \<Rightarrow> u32 list \<Rightarrow> u32 set \<Rightarrow> u32 set \<Rightarrow> bool" where
  "km_st ar m fl fs A C \<longleftrightarrow> km_tiles ar m (set fs \<union> A \<union> C) \<and> wchain (h_next m) fl fs \<and> distinct fs
     \<and> set fs \<inter> A = {} \<and> set fs \<inter> C = {} \<and> A \<inter> C = {}
     \<and> (\<forall>p \<in> A. h_magic m p = KM_MAGIC_ALLOC) \<and> (\<forall>p \<in> set fs. h_magic m p = KM_MAGIC_FREE)"

lemma km_stD:
  assumes "km_st ar m fl fs A C"
  shows "km_tiles ar m (set fs \<union> A \<union> C)" "wchain (h_next m) fl fs" "distinct fs"
    "set fs \<inter> A = {}" "set fs \<inter> C = {}" "A \<inter> C = {}" "p \<in> A \<Longrightarrow> h_magic m p = KM_MAGIC_ALLOC"
    "p \<in> set fs \<Longrightarrow> h_magic m p = KM_MAGIC_FREE"
  using assms unfolding km_st_def by blast+

text \<open>The bytes of a block.\<close>

definition extent :: "mem \<Rightarrow> u32 \<Rightarrow> u32 set" where
  "extent m p = {x. unat p \<le> unat x \<and> unat x < bend m p}"

lemma hdr_extent:
  assumes "fits12 p" "x \<notin> extent m p"
  shows "set_next p v m' x = m' x" "set_size p v m' x = m' x" "set_magic p v m' x = m' x"
proof -
  have "12 \<le> unat (x - p)" using assms bend_ge [of p m] by (intro not_in_hdr) (auto simp: extent_def)
  then show "set_next p v m' x = m' x" "set_size p v m' x = m' x" "set_magic p v m' x = m' x"
    by (simp_all add: hdr_bytes)
qed

lemma wchain_unlink:
  assumes "wchain f a (xs @ x # ys)" "distinct (xs @ x # ys)"
    "\<And>y. y \<in> set (xs @ ys) \<Longrightarrow> g y = (if xs \<noteq> [] \<and> y = last xs then f x else f y)"
  shows "wchain g (if xs = [] then f x else a) (xs @ ys)"
  using assms
proof (induction xs arbitrary: a)
  case Nil
  then have "wchain f (f x) ys" "\<And>y. y \<in> set ys \<Longrightarrow> g y = f y" by auto
  then show ?case using wchain_cong [of ys g f] by simp
next
  case (Cons z zs)
  show ?case
  proof (cases zs)
    case Nil
    have "g z = f x" "\<And>y. y \<in> set ys \<Longrightarrow> g y = f y" using Cons.prems(2,3) Nil by auto
    then show ?thesis using Cons.prems(1) Nil wchain_cong [of ys g f] by simp
  next
    case (Cons w ws)
    have "g z = f z" using Cons.prems(2) Cons.prems(3) [of z] Cons by auto
    moreover have "wchain g (if zs = [] then f x else f z) (zs @ ys)"
      using Cons.prems Cons by (intro Cons.IH) auto
    ultimately show ?thesis using Cons.prems(1) Cons by simp
  qed
qed

text \<open>The block \<open>b\<close> leaves the free list.\<close>

definition lastz :: "u32 list \<Rightarrow> u32" where
  "lastz xs = (if xs = [] then 0 else last xs)"

lemma km_unlink:
  assumes st: "km_st ar m fl (xs @ b # ys) A {}"
    and m': "m' = (if lastz xs \<noteq> 0 then set_next (lastz xs) (h_next m b) m else m)"
      "fl' = (if lastz xs \<noteq> 0 then fl else h_next m b)"
  shows "km_st ar m' fl' (xs @ ys) A {b}" "\<And>p. p \<in> set (xs @ b # ys) \<union> A \<Longrightarrow> h_size m' p = h_size m p"
    "\<And>x. (\<And>q. q \<in> set (xs @ b # ys) \<Longrightarrow> x \<notin> extent m q) \<Longrightarrow> m' x = m x"
proof -
  let ?B = "set (xs @ b # ys) \<union> A"
  have t: "km_tiles ar m ?B" using km_stD(1) [OF st] by simp
  have lz: "lastz xs \<noteq> 0 \<longleftrightarrow> xs \<noteq> []"
    using tiles_hdr(2) [OF t, of "last xs"] by (auto simp: lastz_def)
  have lB: "last xs \<in> ?B" if "xs \<noteq> []" using that by simp
  have o: "h_size m' p = h_size m p" "h_magic m' p = h_magic m p"
    "h_next m' p = (if xs \<noteq> [] \<and> p = last xs then h_next m b else h_next m p)" if "p \<in> ?B" for p
  proof -
    have *: "apart p (last xs)" "fits12 p" "fits12 (last xs)" if "xs \<noteq> []" "p \<noteq> last xs"
      using tiles_apart [OF t \<open>p \<in> ?B\<close> lB] tiles_hdr(1) [OF t] \<open>p \<in> ?B\<close> lB that by simp_all
    show "h_size m' p = h_size m p" "h_magic m' p = h_magic m p"
      "h_next m' p = (if xs \<noteq> [] \<and> p = last xs then h_next m b else h_next m p)"
      using hdr_apart [OF *] lz unfolding m' lastz_def by (cases "p = last xs"; simp)+
  qed
  show "\<And>p. p \<in> set (xs @ b # ys) \<union> A \<Longrightarrow> h_size m' p = h_size m p" using o(1) by blast
  have "km_tiles ar m' (set (xs @ ys) \<union> A \<union> {b})" using tiles_cong [OF t o(1)] by simp
  moreover have "wchain (h_next m') fl' (xs @ ys)"
  proof -
    have "wchain (h_next m') (if xs = [] then h_next m b else fl) (xs @ ys)"
      by (rule wchain_unlink [OF km_stD(2,3) [OF st]]) (use o(3) in auto)
    then show ?thesis using lz m'(2) by (cases "xs = []") simp_all
  qed
  ultimately show "km_st ar m' fl' (xs @ ys) A {b}"
    using km_stD(3,4,7,8) [OF st] o(2) unfolding km_st_def by auto
  show "m' x = m x" if "\<And>q. q \<in> set (xs @ b # ys) \<Longrightarrow> x \<notin> extent m q" for x
    using hdr_extent(1) [of "last xs" x m] that [of "last xs"] tiles_hdr(1) [OF t lB] lz
    unfolding m' lastz_def by (cases "xs = []") simp_all
qed

text \<open>The tail of a block that is large enough becomes a free block.\<close>

lemma km_carve:
  assumes st: "km_st ar m fl fs A {b}" and sz: "unat need + 12 \<le> unat (h_size m b)"
    and r: "r = b + 12 + need"
    and m': "m' = set_size b need (set_next r fl (set_magic r KM_MAGIC_FREE (set_size r (h_size m b - need - 12) m)))"
  shows "km_st ar m' r (r # fs) A {b}" "h_size m' b = need"
    "\<And>p. p \<in> set fs \<union> A \<Longrightarrow> h_size m' p = h_size m p"
    "\<And>x. x \<notin> extent m b \<Longrightarrow> m' x = m x"
proof -
  let ?B = "set fs \<union> A \<union> {b}"
  have t: "km_tiles ar m ?B" by (rule km_stD(1) [OF st])
  have fb: "fits12 b" using tiles_hdr(1) [OF t] by simp
  have lt: "bend m b < 2 ^ 32" using tilesD(2,5) [OF t] by fastforce
  have "unat (b + 12) = unat b + 12" using lt unat_add_cases [of b 12] by (auto simp: bend_def)
  then have ur: "unat r = unat b + 12 + unat need"
    using lt sz unat_add_cases [of "b + 12" need] unfolding r by (auto simp: bend_def)
  have fr: "fits12 r" using ur sz lt by (simp add: fits12_def bend_def)
  have rp: "apart r p" if "p \<in> ?B" for p
  proof (cases "p = b")
    case True
    then show ?thesis using ur by (simp add: apart_def)
  next
    case False
    then have "unat p < unat b \<or> unat b < unat p" using word_unat_eq_iff [of p b] by auto
    then show ?thesis
      using tilesD(6) [OF t \<open>p \<in> ?B\<close>, of b] tilesD(6) [OF t, of b p] that ur sz bend_ge [of p m]
      by (auto simp: apart_def bend_def [of m b])
  qed
  have rnB: "r \<notin> ?B" using rp [of r] by (auto simp: apart_def)
  have pr: "apart p r" if "p \<in> ?B" for p using rp [OF that] by (auto simp: apart_def)
  have rb: "apart r b" using rp by simp
  have o: "h_next m' p = h_next m p \<and> h_magic m' p = h_magic m p \<and> (p \<noteq> b \<longrightarrow> h_size m' p = h_size m p)" if "p \<in> ?B" for p
  proof -
    have fp: "fits12 p" by (rule tiles_hdr(1) [OF t that])
    note A = hdr_apart [OF pr [OF that] fp fr]
    show ?thesis
    proof (cases "p = b")
      case True
      then show ?thesis using A unfolding m' by simp
    next
      case False
      have "apart p b" using tiles_apart [OF t that, of b] False by simp
      from hdr_apart [OF this fp fb] show ?thesis using A unfolding m' by simp
    qed
  qed
  show sb: "h_size m' b = need" unfolding m' by simp
  show ss: "h_size m' p = h_size m p" if "p \<in> set fs \<union> A" for p
  proof -
    have "p \<noteq> b" using that km_stD(5,6) [OF st] by auto
    then show ?thesis using o [of p] that by auto
  qed
  have rr: "h_size m' r = h_size m b - need - 12" "h_next m' r = fl" "h_magic m' r = KM_MAGIC_FREE" using hdr_apart [OF rb fr fb] unfolding m' by simp_all
  have "km_tiles ar m' (insert r ?B)"
    by (rule tiles_split(1) [OF t _ sz r sb rr(1)]) (use o in auto)
  then have "km_tiles ar m' (set (r # fs) \<union> A \<union> {b})" by (simp add: insert_commute)
  moreover have "wchain (h_next m') r (r # fs)"
    using rr(2) fr ur o wchain_cong [of fs "h_next m'" "h_next m"] km_stD(2) [OF st] unat_gt_0 [of r] by auto
  ultimately show "km_st ar m' r (r # fs) A {b}"
    using km_stD(3-8) [OF st] o rnB rr(3) unfolding km_st_def by auto
  show "m' x = m x" if "x \<notin> extent m b" for x
  proof -
    have "12 \<le> unat (x - r)" using that ur sz by (intro not_in_hdr [OF fr]) (auto simp: extent_def bend_def)
    then show ?thesis using hdr_extent(2) [OF fb that] hdr_bytes [of x r] unfolding m' by simp
  qed
qed


text \<open>A block in hand is handed out; an allocated block goes to the front of the list.\<close>

lemma km_mark:
  assumes st: "km_st ar m fl fs A {b}"
    and m': "m' = set_next b 0 (set_magic b KM_MAGIC_ALLOC m)"
  shows "km_st ar m' fl fs (insert b A) {}" "\<And>p. p \<in> set fs \<union> A \<union> {b} \<Longrightarrow> h_size m' p = h_size m p"
    "\<And>x. x \<notin> extent m b \<Longrightarrow> m' x = m x"
proof -
  let ?B = "set fs \<union> A \<union> {b}"
  have t: "km_tiles ar m ?B" by (rule km_stD(1) [OF st])
  have fb: "fits12 b" using tiles_hdr(1) [OF t] by simp
  have o: "h_size m' p = h_size m p \<and> (p \<noteq> b \<longrightarrow> h_next m' p = h_next m p \<and> h_magic m' p = h_magic m p)" if "p \<in> ?B" for p
  proof (cases "p = b")
    case True
    then show ?thesis unfolding m' by simp
  next
    case False
    have "apart p b" using tiles_apart [OF t that, of b] False by simp
    from hdr_apart [OF this tiles_hdr(1) [OF t that] fb] show ?thesis unfolding m' by simp
  qed
  then show "\<And>p. p \<in> ?B \<Longrightarrow> h_size m' p = h_size m p" by blast
  then have "km_tiles ar m' ?B" using tiles_cong [OF t] by blast
  then have "km_tiles ar m' (set fs \<union> insert b A \<union> {})" by simp
  moreover have "wchain (h_next m') fl fs"
    using o wchain_cong [of fs "h_next m'" "h_next m"] km_stD(2,5) [OF st] by auto
  moreover have "h_magic m' p = KM_MAGIC_ALLOC" if "p \<in> insert b A" for p
  proof (cases "p = b")
    case True
    then show ?thesis unfolding m' by simp
  next
    case False
    then show ?thesis using o [of p] km_stD(7) [OF st, of p] that by auto
  qed
  moreover have "h_magic m' p = KM_MAGIC_FREE" if "p \<in> set fs" for p
    using o [of p] that km_stD(8) [OF st that] km_stD(5) [OF st] by auto
  ultimately show "km_st ar m' fl fs (insert b A) {}"
    using km_stD(3-6) [OF st] unfolding km_st_def by auto
  show "m' x = m x" if "x \<notin> extent m b" for x using hdr_extent [OF fb that] unfolding m' by simp
qed

lemma km_release:
  assumes st: "km_st ar m fl fs A {}" and b: "b \<in> A"
    and m': "m' = set_next b fl (set_magic b KM_MAGIC_FREE m)"
  shows "km_st ar m' b (b # fs) (A - {b}) {}" "\<And>p. p \<in> set fs \<union> A \<Longrightarrow> h_size m' p = h_size m p"
    "\<And>x. x \<notin> extent m b \<Longrightarrow> m' x = m x"
proof -
  let ?B = "set fs \<union> A"
  have t: "km_tiles ar m ?B" using km_stD(1) [OF st] by simp
  have fb: "fits12 b" "b \<noteq> 0" using tiles_hdr [OF t] b by simp_all
  have o: "h_size m' p = h_size m p \<and> (p \<noteq> b \<longrightarrow> h_next m' p = h_next m p \<and> h_magic m' p = h_magic m p)" if "p \<in> ?B" for p
  proof (cases "p = b")
    case True
    then show ?thesis unfolding m' by simp
  next
    case False
    have "apart p b" using tiles_apart [OF t that, of b] False b by simp
    from hdr_apart [OF this tiles_hdr(1) [OF t that] fb(1)] show ?thesis unfolding m' by simp
  qed
  then show "\<And>p. p \<in> ?B \<Longrightarrow> h_size m' p = h_size m p" by blast
  then have "km_tiles ar m' ?B" using tiles_cong [OF t] by blast
  moreover have "?B = set (b # fs) \<union> (A - {b}) \<union> {}" using b by auto
  ultimately have "km_tiles ar m' (set (b # fs) \<union> (A - {b}) \<union> {})" by metis
  moreover have bn: "b \<notin> set fs" using b km_stD(4) [OF st] by auto
  moreover have "wchain (h_next m') b (b # fs)"
  proof -
    have "h_next m' p = h_next m p" if "p \<in> set fs" for p using o [of p] that bn by auto
    then have "wchain (h_next m') fl fs" using wchain_cong [of fs "h_next m'" "h_next m"] km_stD(2) [OF st] by simp
    then show ?thesis using fb(2) unfolding m' by simp
  qed
  moreover have "h_magic m' p = KM_MAGIC_FREE" if "p \<in> set (b # fs)" for p
  proof (cases "p = b")
    case True
    then show ?thesis unfolding m' by simp
  next
    case False
    then show ?thesis using o [of p] that km_stD(8) [OF st, of p] by auto
  qed
  ultimately show "km_st ar m' b (b # fs) (A - {b}) {}"
    using km_stD(3,4,7) [OF st] o unfolding km_st_def by auto
  show "m' x = m x" if "x \<notin> extent m b" for x using hdr_extent [OF fb(1) that] unfolding m' by simp
qed

lemma wchain_unique: "wchain f a xs \<Longrightarrow> wchain f a ys \<Longrightarrow> xs = ys"
proof (induction xs arbitrary: a ys)
  case Nil
  then show ?case by (cases ys) auto
next
  case (Cons x xs)
  then show ?case by (cases ys) auto
qed

lemma wchain_next:
  "wchain f a (xs @ p # q # ys) \<Longrightarrow> f p = q \<and> wchain f (f q) ys"
  by (induction xs arbitrary: a) auto

lemma km_merge_law:
  assumes st: "km_st ar m fl (xs @ p # q # ys) A {}" and adj: "p + 12 + h_size m p = q"
  shows "km_st ar (km_merge p m) fl (xs @ p # ys) A {}"
    "\<And>x. x \<in> A \<Longrightarrow> h_size (km_merge p m) x = h_size m x"
    "\<And>x. (\<And>y. y \<in> set (xs @ p # q # ys) \<Longrightarrow> x \<notin> extent m y) \<Longrightarrow> km_merge p m x = m x"
    "(\<Union>y \<in> set (xs @ p # ys). extent (km_merge p m) y) = (\<Union>y \<in> set (xs @ p # q # ys). extent m y)"
proof -
  let ?B = "set (xs @ p # q # ys) \<union> A" let ?m = "km_merge p m"
  have t: "km_tiles ar m ?B" using km_stD(1) [OF st] by simp
  have dst: "distinct (xs @ p # q # ys)" by (rule km_stD(3) [OF st])
  have nx: "h_next m p = q" using wchain_next km_stD(2) [OF st] by blast
  have fp: "fits12 p" using tiles_hdr(1) [OF t] by simp
  have qp: "apart q p" "fits12 q" using tiles_apart [OF t, of q p] tiles_hdr(1) [OF t, of q] dst by auto
  have mm: "?m = set_magic p KM_MAGIC_FREE (set_next p (h_next m q) (set_size p (h_size m p + 12 + h_size m q) m))"
    using hdr_apart [OF qp fp] by (simp add: km_merge_def Let_def nx)
  have o: "h_next ?m x = (if x = p then h_next m q else h_next m x)"
    "h_size ?m x = (if x = p then h_size m p + 12 + h_size m q else h_size m x)"
    "x \<noteq> p \<Longrightarrow> h_magic ?m x = h_magic m x" if "x \<in> ?B" for x
  proof -
    have *: "apart x p" "fits12 x" if "x \<noteq> p"
      using tiles_apart [OF t \<open>x \<in> ?B\<close>, of p] tiles_hdr(1) [OF t \<open>x \<in> ?B\<close>] that by simp_all
    show "h_next ?m x = (if x = p then h_next m q else h_next m x)"
      "h_size ?m x = (if x = p then h_size m p + 12 + h_size m q else h_size m x)"
      "x \<noteq> p \<Longrightarrow> h_magic ?m x = h_magic m x"
      using hdr_apart [OF * fp] unfolding mm by (cases "x = p"; simp)+
  qed
  have uq: "unat q = bend m p"
  proof -
    have lt: "bend m p < 2 ^ 32" using tilesD(2) [OF t] tilesD(5) [OF t, of p] by fastforce
    have "unat (p + 12) = unat p + 12" using lt unat_add_cases [of p 12] by (auto simp: bend_def)
    then show ?thesis
      using lt adj unat_add_cases [of "p + 12" "h_size m p"] u32_lt [of q] by (auto simp: bend_def)
  qed
  have pB: "p \<in> ?B" "q \<in> ?B" "p \<noteq> q" using dst by auto
  note T = tiles_merge [OF t pB uq, of ?m]
  have T1: "km_tiles ar ?m (?B - {q})" "bend ?m p = bend m q" using T o(2) pB by simp_all
  have "?B - {q} = set (xs @ p # ys) \<union> A \<union> {}" using dst km_stD(4) [OF st] by auto
  then have "km_tiles ar ?m (set (xs @ p # ys) \<union> A \<union> {})" using T1(1) by metis
  moreover have "wchain (h_next ?m) fl (xs @ p # ys)"
  proof -
    have c: "wchain (h_next m) fl ((xs @ [p]) @ q # ys)" "distinct ((xs @ [p]) @ q # ys)"
      using km_stD(2,3) [OF st] by simp_all
    have "wchain (h_next ?m) (if xs @ [p] = [] then h_next m q else fl) ((xs @ [p]) @ ys)"
      by (rule wchain_unlink [OF c]) (use o(1) in auto)
    then show ?thesis by simp
  qed
  moreover have "h_magic ?m x = KM_MAGIC_ALLOC" if "x \<in> A" for x
    using o(3) [of x] that km_stD(7) [OF st that] km_stD(4) [OF st] by auto
  moreover have "h_magic ?m x = KM_MAGIC_FREE" if "x \<in> set (xs @ p # ys)" for x
  proof (cases "x = p")
    case True
    then show ?thesis unfolding mm by simp
  next
    case False
    then show ?thesis using o(3) [of x] that km_stD(8) [OF st, of x] by auto
  qed
  ultimately show "km_st ar ?m fl (xs @ p # ys) A {}"
    using km_stD(3,4) [OF st] unfolding km_st_def by auto
  show "h_size ?m x = h_size m x" if "x \<in> A" for x
    using o(2) [of x] that km_stD(4) [OF st] by auto
  show "?m x = m x" if "\<And>y. y \<in> set (xs @ p # q # ys) \<Longrightarrow> x \<notin> extent m y" for x
    using hdr_extent [OF fp that [of p]] unfolding mm by simp
  have "extent ?m p = extent m p \<union> extent m q"
    using T1(2) uq bend_ge [of p m] bend_ge [of q m] by (auto simp: extent_def)
  moreover have "extent ?m y = extent m y" if "y \<in> set xs \<union> set ys" for y
  proof -
    have "y \<noteq> p" using that dst by auto
    then show ?thesis using o(2) [of y] that by (auto simp: extent_def bend_def)
  qed
  ultimately show "(\<Union>y \<in> set (xs @ p # ys). extent ?m y) = (\<Union>y \<in> set (xs @ p # q # ys). extent m y)"
    by auto
qed


lemma tiles_extent_disjoint:
  assumes "km_tiles ar m B" "p \<in> B" "q \<in> B" "p \<noteq> q"
  shows "extent m p \<inter> extent m q = {}"
proof -
  have "unat p < unat q \<or> unat q < unat p" using assms(4) word_unat_eq_iff [of p q] by auto
  then show ?thesis using tilesD(6) [OF assms(1,2,3)] tilesD(6) [OF assms(1,3,2)] by (auto simp: extent_def)
qed


subsection \<open>The loops\<close>

lemma km_adjacent_chain:
  assumes "wchain (h_next m) a fs"
  shows "\<exists>p. km_adjacent m a = Some p
    \<and> (p = 0 \<or> p \<noteq> 0 \<and> (\<exists>xs q ys. fs = xs @ p # q # ys \<and> p + 12 + h_size m p = q))"
  using assms
proof (induction fs arbitrary: a)
  case Nil
  then show ?case by (simp add: km_adjacent.simps)
next
  case (Cons f fs)
  show ?case
  proof (cases "h_next m f \<noteq> 0 \<and> f + 12 + h_size m f = h_next m f")
    case True
    then obtain q ys where "fs = q # ys" "h_next m f = q" using Cons.prems by (cases fs) auto
    then show ?thesis using Cons.prems True by (subst km_adjacent.simps) auto
  next
    case False
    have "km_adjacent m a = km_adjacent m (h_next m f)"
      using Cons.prems False by (subst km_adjacent.simps) auto
    moreover have "wchain (h_next m) (h_next m f) fs" using Cons.prems by simp
    ultimately show ?thesis using Cons.IH [of "h_next m f"] by (metis append_Cons)
  qed
qed

text \<open>\<open>km_coalesce\<close> returns: each round removes a block from the list.\<close>

lemma km_coalesce_law:
  assumes "km_st ar m fl fs A {}"
  shows "\<exists>fs' m'. km_coalesce fl m = Some m' \<and> km_st ar m' fl fs' A {}
    \<and> (\<forall>p \<in> A. h_size m' p = h_size m p)
    \<and> (\<forall>x. x \<notin> (\<Union>y \<in> set fs. extent m y) \<longrightarrow> m' x = m x)"
  using assms
proof (induction "length fs" arbitrary: fs m rule: less_induct)
  case less
  obtain p where p: "km_adjacent m fl = Some p"
    "p = 0 \<or> p \<noteq> 0 \<and> (\<exists>xs q ys. fs = xs @ p # q # ys \<and> p + 12 + h_size m p = q)"
    using km_adjacent_chain [OF km_stD(2) [OF less.prems]] by blast
  show ?case
  proof (cases "p = 0")
    case True
    then have "km_coalesce fl m = Some m" using p(1) by (simp add: km_coalesce.simps)
    then show ?thesis using less.prems by auto
  next
    case False
    then obtain xs q ys where fs: "fs = xs @ p # q # ys" "p + 12 + h_size m p = q" using p(2) by blast
    note L = km_merge_law [OF less.prems [unfolded fs(1)] fs(2)]
    have "length (xs @ p # ys) < length fs" using fs(1) by simp
    from less.hyps [OF this L(1)] obtain fs' m' where m': "km_coalesce fl (km_merge p m) = Some m'"
      "km_st ar m' fl fs' A {}" "\<forall>p' \<in> A. h_size m' p' = h_size (km_merge p m) p'"
      "\<forall>x. x \<notin> (\<Union>y \<in> set (xs @ p # ys). extent (km_merge p m) y) \<longrightarrow> m' x = km_merge p m x" by blast
    have "km_coalesce fl m = Some m'" using p(1) False m'(1) by (subst km_coalesce.simps) simp
    moreover have "m' x = m x" if "x \<notin> (\<Union>y \<in> set fs. extent m y)" for x
    proof -
      have "x \<notin> (\<Union>y \<in> set (xs @ p # ys). extent (km_merge p m) y)" using that L(4) fs(1) by metis
      moreover have "km_merge p m x = m x" by (rule L(3)) (use that fs(1) in blast)
      ultimately show ?thesis using m'(4) by metis
    qed
    ultimately show ?thesis using m'(2,3) L(2) by auto
  qed
qed

text \<open>What the search has found after the blocks \<open>xs\<close>.\<close>

definition best_so_far :: "u32 \<Rightarrow> mem \<Rightarrow> u32 list \<Rightarrow> u32 \<Rightarrow> u32 \<Rightarrow> bool" where
  "best_so_far need m xs b bp \<longleftrightarrow>
     (b = 0 \<and> bp = 0 \<and> (\<forall>p \<in> set xs. h_size m p < need))
     \<or> (b \<noteq> 0 \<and> need \<le> h_size m b \<and> (\<forall>p \<in> set xs. need \<le> h_size m p \<longrightarrow> h_size m b \<le> h_size m p)
        \<and> (\<exists>ys zs. xs = ys @ b # zs \<and> bp = lastz ys))"

lemma best_skip:
  assumes "best_so_far need m xs b bp" "\<not> (need \<le> h_size m p \<and> (b = 0 \<or> h_size m p < h_size m b))"
  shows "best_so_far need m (xs @ [p]) b bp"
proof (cases "b = 0")
  case True
  then show ?thesis using assms by (auto simp: best_so_far_def)
next
  case False
  then obtain ys zs where "xs = ys @ b # zs" "bp = lastz ys" using assms(1) by (auto simp: best_so_far_def)
  then have "xs @ [p] = ys @ b # (zs @ [p]) \<and> bp = lastz ys" by simp
  then have "\<exists>ys zs. xs @ [p] = ys @ b # zs \<and> bp = lastz ys" by blast
  then show ?thesis using assms False by (auto simp: best_so_far_def)
qed

lemma best_take:
  assumes "best_so_far need m xs b bp" "need \<le> h_size m p" "b = 0 \<or> h_size m p < h_size m b" "p \<noteq> 0"
  shows "best_so_far need m (xs @ [p]) p (lastz xs)"
proof -
  have "h_size m p \<le> h_size m q" if "q \<in> set xs" "need \<le> h_size m q" for q
    using assms(1,3) that by (force simp: best_so_far_def)
  then show ?thesis using assms(2,4) by (auto simp: best_so_far_def)
qed

lemma km_best_chain:
  assumes "wchain (h_next m) a ys" "best_so_far need m xs b bp"
  shows "\<exists>b' bp'. km_best need m a (lastz xs) b bp = Some (b', bp') \<and> best_so_far need m (xs @ ys) b' bp'"
  using assms
proof (induction ys arbitrary: a xs b bp)
  case Nil
  then show ?case by (simp add: km_best.simps)
next
  case (Cons y ys)
  have a: "a = y" "y \<noteq> 0" "wchain (h_next m) (h_next m y) ys" using Cons.prems(1) by auto
  have l: "lastz (xs @ [y]) = y" by (simp add: lastz_def)
  show ?case
  proof (cases "need \<le> h_size m y \<and> (b = 0 \<or> h_size m y < h_size m b)")
    case True
    have "km_best need m a (lastz xs) b bp = km_best need m (h_next m y) (lastz (xs @ [y])) y (lastz xs)"
      using a True l by (subst km_best.simps) simp
    moreover have "best_so_far need m (xs @ [y]) y (lastz xs)"
      using best_take [OF Cons.prems(2)] True a(2) by blast
    ultimately show ?thesis using Cons.IH [OF a(3), of "xs @ [y]" y "lastz xs"] by simp
  next
    case False
    have "km_best need m a (lastz xs) b bp = km_best need m (h_next m y) (lastz (xs @ [y])) b bp"
      using a False l by (subst km_best.simps) auto
    moreover have "best_so_far need m (xs @ [y]) b bp" by (rule best_skip [OF Cons.prems(2) False])
    ultimately show ?thesis using Cons.IH [OF a(3), of "xs @ [y]" b bp] by simp
  qed
qed


subsection \<open>The operations\<close>

definition km_ok :: "kheap \<Rightarrow> u32 set \<Rightarrow> bool" where
  "km_ok s A \<longleftrightarrow> km_inited s \<and> (\<exists>fs. km_st (km_arena s) (km_mem s) (km_freelist s) fs A {})
     \<and> (\<forall>p \<in> A. h_size (km_mem s) p \<noteq> 0)"

text \<open>Everything an operation promises to the owners of the blocks \<open>A\<close>.\<close>

definition km_keeps :: "u32 set \<Rightarrow> kheap \<Rightarrow> kheap \<Rightarrow> bool" where
  "km_keeps A s t \<longleftrightarrow> km_arena t = km_arena s
     \<and> (\<forall>p \<in> A. h_size (km_mem t) p = h_size (km_mem s) p
                 \<and> (\<forall>x \<in> extent (km_mem s) p. km_mem t x = km_mem s x))"

lemma extent_frame:
  assumes "km_st ar m fl fs A C" "p \<in> A" "x \<in> extent m p" "q \<in> set fs \<union> C"
  shows "x \<notin> extent m q"
  using tiles_extent_disjoint [OF km_stD(1) [OF assms(1)], of p q] km_stD(4,6) [OF assms(1)] assms(2-4)
  by blast

lemma need_spec:
  assumes "unat (n :: u32) + 7 < 2 ^ 32"
  shows "n \<le> (n + 7) AND NOT 7" "unat ((n + 7) AND NOT 7) = (unat n + 7) div 8 * 8"
proof -
  have "unat (n + 7) = unat n + 7" using assms unat_add_cases [of n 7] by auto
  moreover have "(7 :: u32) = mask 3" by (simp add: mask_eq_exp_minus_1)
  ultimately show u: "unat ((n + 7) AND NOT 7) = (unat n + 7) div 8 * 8"
    using unat_and_not_mask [of "n + 7" 3] by simp
  have "a \<le> (a + 7) div 8 * 8" for a :: nat
    using div_mult_mod_eq [of "a + 7" 8] mod_less_divisor [of 8 "a + 7"] by linarith
  then show "n \<le> (n + 7) AND NOT 7" unfolding word_le_nat_alt u by simp
qed

lemma km_cut_law:
  assumes st: "km_st ar m1 fl1 fs A {b}" and need: "need \<le> h_size m1 b"
    and e: "(m2, fl2) =
       (if need + 12 + 16 \<le> h_size m1 b then
          (let rest = b + 12 + need;
               m' = set_next rest fl1 (set_magic rest KM_MAGIC_FREE (set_size rest (h_size m1 b - need - 12) m1))
           in (set_size b need m', rest))
        else (m1, fl1))"
  shows "\<exists>fs2. km_st ar m2 fl2 fs2 A {b}" "need \<le> h_size m2 b"
    "\<And>p. p \<in> A \<Longrightarrow> h_size m2 p = h_size m1 p" "\<And>x. x \<notin> extent m1 b \<Longrightarrow> m2 x = m1 x"
    "extent m2 b \<subseteq> extent m1 b" "unat (h_size m2 b) < unat need + 28"
proof -
  have t: "km_tiles ar m1 (set fs \<union> A \<union> {b})" by (rule km_stD(1) [OF st])
  have "bend m1 b \<le> arena_end ar" using tilesD(5) [OF t] by simp
  then have sz: "unat (h_size m1 b) \<le> KM_ARENA_BYTES"
    using tilesD(4) [OF t, of b] by (simp add: bend_def arena_end_def)
  have n: "unat need \<le> unat (h_size m1 b)" using need by (simp add: word_le_nat_alt)
  have u: "unat (need + 12 + 16) = unat need + 28"
    using n sz unat_add_cases [of need 28] by (auto simp: KM_ARENA_BYTES_def add.assoc)
  have all: "(\<exists>fs2. km_st ar m2 fl2 fs2 A {b}) \<and> need \<le> h_size m2 b \<and> (\<forall>p \<in> A. h_size m2 p = h_size m1 p)
    \<and> (\<forall>x. x \<notin> extent m1 b \<longrightarrow> m2 x = m1 x) \<and> extent m2 b \<subseteq> extent m1 b
    \<and> unat (h_size m2 b) < unat need + 28"
  proof (cases "need + 12 + 16 \<le> h_size m1 b")
    case True
    then have *: "unat need + 12 \<le> unat (h_size m1 b)" using True u by (simp add: word_le_nat_alt)
    have m2: "m2 = set_size b need (set_next fl2 fl1 (set_magic fl2 KM_MAGIC_FREE (set_size fl2 (h_size m1 b - need - 12) m1)))"
      "fl2 = b + 12 + need" using e True by (simp_all add: Let_def)
    note C = km_carve [OF st * m2(2) m2(1)]
    have "bend m2 b \<le> bend m1 b" using C(2) n by (simp add: bend_def)
    then have "extent m2 b \<subseteq> extent m1 b" by (auto simp: extent_def)
    then show ?thesis using C by auto
  next
    case False
    then have "m2 = m1" "fl2 = fl1" using e by simp_all
    then show ?thesis using st need False u by (auto simp: word_le_nat_alt)
  qed
  then show "\<exists>fs2. km_st ar m2 fl2 fs2 A {b}" "need \<le> h_size m2 b"
    "\<And>p. p \<in> A \<Longrightarrow> h_size m2 p = h_size m1 p" "\<And>x. x \<notin> extent m1 b \<Longrightarrow> m2 x = m1 x"
    "extent m2 b \<subseteq> extent m1 b" "unat (h_size m2 b) < unat need + 28" by blast+
qed

lemma kmalloc_law:
  assumes st: "km_st (km_arena s) (km_mem s) (km_freelist s) fs A {}" and ini: "km_inited s"
    and n: "n \<noteq> 0" and need: "need = (n + 7) AND NOT 7"
  shows "(kmalloc n s = Ok (0, s) \<and> (\<forall>p \<in> set fs. h_size (km_mem s) p < need))
    \<or> (\<exists>b t. kmalloc n s = Ok (b + 12, t) \<and> b \<in> set fs \<and> need \<le> h_size (km_mem t) b
        \<and> (\<exists>fs'. km_st (km_arena t) (km_mem t) (km_freelist t) fs' (insert b A) {}) \<and> km_inited t
        \<and> unat (h_size (km_mem t) b) < unat need + 28
        \<and> extent (km_mem t) b \<subseteq> extent (km_mem s) b
        \<and> (\<forall>p \<in> set fs. need \<le> h_size (km_mem s) p \<longrightarrow> h_size (km_mem s) b \<le> h_size (km_mem s) p)
        \<and> km_keeps A s t)"
proof -
  let ?m = "km_mem s" let ?fl = "km_freelist s" let ?ar = "km_arena s"
  have "best_so_far need ?m [] 0 0" by (simp add: best_so_far_def)
  from km_best_chain [OF km_stD(2) [OF st] this] obtain b bp where
    kb: "km_best need ?m ?fl 0 0 0 = Some (b, bp)" and best: "best_so_far need ?m fs b bp"
    by (auto simp: lastz_def)
  show ?thesis
  proof (cases "b = 0")
    case True
    then show ?thesis using kb best ini n by (auto simp: kmalloc_def Let_def need best_so_far_def)
  next
    case False
    then obtain ys zs where fs: "fs = ys @ b # zs" "bp = lastz ys" and fit: "need \<le> h_size ?m b"
      and mn: "\<forall>p \<in> set fs. need \<le> h_size ?m p \<longrightarrow> h_size ?m b \<le> h_size ?m p"
      using best by (auto simp: best_so_far_def)
    define m1 fl1 where m1: "m1 = (if lastz ys \<noteq> 0 then set_next (lastz ys) (h_next ?m b) ?m else ?m)"
      and fl1: "fl1 = (if lastz ys \<noteq> 0 then ?fl else h_next ?m b)"
    obtain m2 fl2 where m2: "(m2, fl2) =
       (if need + 12 + 16 \<le> h_size m1 b then
          (let rest = b + 12 + need;
               m' = set_next rest fl1 (set_magic rest KM_MAGIC_FREE (set_size rest (h_size m1 b - need - 12) m1))
           in (set_size b need m', rest))
        else (m1, fl1))" by (metis surj_pair)
    let ?t = "s\<lparr>km_mem := set_next b 0 (set_magic b KM_MAGIC_ALLOC m2), km_freelist := fl2\<rparr>"
    have e1: "(if bp \<noteq> 0 then (set_next bp (h_next ?m b) ?m, ?fl) else (?m, h_next ?m b)) = (m1, fl1)"
      by (simp add: m1 fl1 fs(2))
    have k: "kmalloc n s = Ok (b + 12, ?t)"
      using ini n False unfolding kmalloc_def need [symmetric]
      by (simp only: Let_def if_False if_True kb option.case prod.case e1 m2 [unfolded Let_def, symmetric] not_True_eq_False)
    note U = km_unlink [OF st [unfolded fs(1)] m1 fl1]
    have sb: "h_size m1 b = h_size ?m b" using U(2) by simp
    note K = km_cut_law [OF U(1) _ m2]
    have fit1: "need \<le> h_size m1 b" using fit sb by simp
    obtain fs2 where st2: "km_st ?ar m2 fl2 fs2 A {b}" using K(1) [OF fit1] by blast
    note M = km_mark [OF st2 refl]
    have nb: "need \<le> h_size (km_mem ?t) b" using M(2) [of b] K(2) [OF fit1] by simp
    have keeps: "km_keeps A s ?t"
    proof -
      have "h_size (km_mem ?t) p = h_size ?m p \<and> (\<forall>x \<in> extent ?m p. km_mem ?t x = ?m x)" if p: "p \<in> A" for p
      proof -
        have "km_mem ?t x = ?m x" if x: "x \<in> extent ?m p" for x
        proof -
          have ni: "x \<notin> extent ?m q" if "q \<in> set (ys @ b # zs)" for q
            using extent_frame [OF st p x] that fs(1) by simp
          have "x \<notin> extent m1 b" using ni [of b] sb by (simp add: extent_def bend_def)
          moreover from this have "x \<notin> extent m2 b" using K(5) [OF fit1] by blast
          ultimately show ?thesis using M(3) [of x] K(4) [OF fit1, of x] U(3) [OF ni] by simp
        qed
        then show ?thesis using p M(2) [of p] K(3) [OF fit1 p] U(2) [of p] by simp
      qed
      then show ?thesis by (simp add: km_keeps_def)
    qed
    have "extent (km_mem ?t) b \<subseteq> extent ?m b"
      using K(5) [OF fit1] M(2) [of b] sb by (simp add: extent_def bend_def)
    moreover have "unat (h_size (km_mem ?t) b) < unat need + 28" using K(6) [OF fit1] M(2) [of b] by simp
    moreover have "km_st (km_arena ?t) (km_mem ?t) (km_freelist ?t) fs2 (insert b A) {}" using M(1) by simp
    ultimately show ?thesis using k fs(1) mn nb keeps ini by auto
  qed
qed

lemma km_ok_in_arena:
  assumes "km_ok s A" "b \<in> A"
  shows "km_block_in_arena b s" "km_block_in_arena (b + 12) s"
proof -
  obtain fs where st: "km_st (km_arena s) (km_mem s) (km_freelist s) fs A {}" and z: "h_size (km_mem s) b \<noteq> 0"
    using assms unfolding km_ok_def by blast
  note t = km_stD(1) [OF st]
  have b: "unat (km_arena s) \<le> unat b" "bend (km_mem s) b \<le> arena_end (km_arena s)" "arena_end (km_arena s) < 2 ^ 32"
    using tilesD(2,4,5) [OF t] assms(2) by blast+
  have "unat (km_arena s + of_nat KM_ARENA_BYTES) = arena_end (km_arena s)"
    using b(3) unat_add_cases [of "km_arena s" "of_nat KM_ARENA_BYTES"]
    by (auto simp: arena_end_def KM_ARENA_BYTES_def)
  moreover have "unat (b + 12) = unat b + 12"
    using b(2,3) unat_add_cases [of b 12] by (auto simp: bend_def)
  moreover have "0 < unat (h_size (km_mem s) b)" using z by (simp add: unat_gt_0)
  ultimately show "km_block_in_arena b s" "km_block_in_arena (b + 12) s"
    using b(1,2) by (simp_all add: km_block_in_arena_def word_le_nat_alt word_less_nat_alt bend_def)
qed

lemma kmfree_law:
  assumes ok: "km_ok s A" and b: "b \<in> A"
  shows "\<exists>t. kmfree (b + 12) s = Ok ((), t) \<and> km_ok t (A - {b}) \<and> km_keeps (A - {b}) s t
     \<and> h_magic (km_mem t) b = KM_MAGIC_FREE"
proof -
  let ?m = "km_mem s" let ?ar = "km_arena s"
  obtain fs where st: "km_st ?ar ?m (km_freelist s) fs A {}" using ok unfolding km_ok_def by blast
  let ?m1 = "set_next b (km_freelist s) (set_magic b KM_MAGIC_FREE ?m)"
  note R = km_release [OF st b refl]
  from km_coalesce_law [OF R(1)] obtain fs' m' where m': "km_coalesce b ?m1 = Some m'"
    "km_st ?ar m' b fs' (A - {b}) {}" "\<forall>p \<in> A - {b}. h_size m' p = h_size ?m1 p"
    "\<forall>x. x \<notin> (\<Union>y \<in> set (b # fs). extent ?m1 y) \<longrightarrow> m' x = ?m1 x" by blast
  let ?t = "s\<lparr>km_mem := m', km_freelist := b\<rparr>"
  have t: "km_tiles ?ar ?m (set fs \<union> A)" using km_stD(1) [OF st] by simp
  have "b \<noteq> 0" "fits12 b" using tiles_hdr [OF t, of b] b by simp_all
  moreover from this have "b + 12 \<noteq> 0" using unat_add_cases [of b 12] by (auto simp: fits12_def)
  ultimately have k: "kmfree (b + 12) s = Ok ((), ?t)"
    using km_ok_in_arena [OF ok b] m'(1) km_stD(7) [OF st b] by (simp add: kmfree_def Let_def)
  have keeps: "h_size m' p = h_size ?m p \<and> (\<forall>x \<in> extent ?m p. m' x = ?m x)" if p: "p \<in> A - {b}" for p
  proof -
    have sz: "h_size ?m1 q = h_size ?m q" if "q \<in> set fs \<union> A" for q using R(2) [OF that] .
    have "m' x = ?m x" if x: "x \<in> extent ?m p" for x
    proof -
      have d: "x \<notin> extent ?m q" if "q \<in> set (b # fs)" for q
      proof -
        have "q \<noteq> p" "q \<in> set fs \<union> A" using that p b km_stD(4) [OF st] by auto
        then show ?thesis using tiles_extent_disjoint [OF t, of p q] p x by auto
      qed
      have "x \<notin> extent ?m1 q" if "q \<in> set (b # fs)" for q
        using d [OF that] sz [of q] that b by (auto simp: extent_def bend_def)
      then show ?thesis using m'(4) R(3) [of x] d [of b] by auto
    qed
    then show ?thesis using m'(3) p sz [of p] by auto
  qed
  moreover have "h_magic m' b = KM_MAGIC_FREE"
  proof -
    have "b \<in> set fs'" using km_stD(2) [OF m'(2)] \<open>b \<noteq> 0\<close> by (cases fs') auto
    then show ?thesis by (rule km_stD(8) [OF m'(2)])
  qed
  moreover have "km_ok ?t (A - {b})" using m'(2) ok keeps unfolding km_ok_def by auto
  ultimately show ?thesis using k unfolding km_keeps_def by auto
qed

lemma kmalloc_init_law:
  assumes "\<not> km_inited s" "km_arena s \<noteq> 0" "arena_end (km_arena s) < 2 ^ 32"
  shows "km_ok (kmalloc_init s) {}" "km_arena (kmalloc_init s) = km_arena s"
proof -
  let ?h = "km_arena s"
  let ?m = "set_magic ?h KM_MAGIC_FREE (set_size ?h (of_nat KM_ARENA_BYTES - 12) (set_next ?h 0 (km_mem s)))"
  have "bend ?m ?h = arena_end ?h" by (simp add: bend_def arena_end_def KM_ARENA_BYTES_def)
  then have "km_tiles ?h ?m {?h}" using assms by (simp add: km_tiles_def)
  then have "km_st ?h ?m ?h [?h] {} {}" using assms(2) by (simp add: km_st_def)
  then show "km_ok (kmalloc_init s) {}" using assms(1) unfolding km_ok_def kmalloc_init_def by (auto simp: Let_def)
  show "km_arena (kmalloc_init s) = km_arena s" by (simp add: kmalloc_init_def Let_def)
qed


subsection \<open>Properties\<close>

lemma kmalloc_ok:
  assumes "km_ok s A" "n \<noteq> 0" "unat n + 7 < 2 ^ 32"
  shows "(\<exists>b t. kmalloc n s = Ok (b + 12, t) \<and> b \<notin> A \<and> km_ok t (insert b A) \<and> km_keeps A s t
            \<and> n \<le> h_size (km_mem t) b)
       \<or> kmalloc n s = Ok (0, s) \<and> (\<forall>fs p. km_st (km_arena s) (km_mem s) (km_freelist s) fs A {}
            \<longrightarrow> p \<in> set fs \<longrightarrow> unat (h_size (km_mem s) p) < (unat n + 7) div 8 * 8)"
proof -
  let ?need = "(n + 7) AND NOT 7"
  obtain fs where st: "km_st (km_arena s) (km_mem s) (km_freelist s) fs A {}" "km_inited s"
    and pos: "\<forall>p \<in> A. h_size (km_mem s) p \<noteq> 0" using assms(1) unfolding km_ok_def by blast
  note N = need_spec [OF assms(3)]
  from kmalloc_law [OF st assms(2) refl] show ?thesis
  proof (elim disjE exE conjE)
    assume k: "kmalloc n s = Ok (0, s)" and small: "\<forall>p \<in> set fs. h_size (km_mem s) p < ?need"
    have "unat (h_size (km_mem s) p) < (unat n + 7) div 8 * 8"
      if "km_st (km_arena s) (km_mem s) (km_freelist s) fs' A {}" "p \<in> set fs'" for fs' p
    proof -
      have "fs' = fs" by (rule wchain_unique [OF km_stD(2) [OF that(1)] km_stD(2) [OF st(1)]])
      then have "unat (h_size (km_mem s) p) < unat ?need" using small that(2) by (simp add: word_less_nat_alt)
      then show ?thesis unfolding N(2) .
    qed
    then show ?thesis using k by blast
  next
    fix b t fs' assume t: "kmalloc n s = Ok (b + 12, t)" "b \<in> set fs" "?need \<le> h_size (km_mem t) b"
      "km_st (km_arena t) (km_mem t) (km_freelist t) fs' (insert b A) {}" "km_inited t" "km_keeps A s t"
    have nb: "n \<le> h_size (km_mem t) b" by (rule order_trans [OF N(1) t(3)])
    then have "h_size (km_mem t) b \<noteq> 0" using assms(2) by (auto simp: word_le_nat_alt unat_eq_0)
    then have "km_ok t (insert b A)" using t(4-6) pos unfolding km_ok_def km_keeps_def by auto
    moreover have "b \<notin> A" using t(2) km_stD(4) [OF st(1)] by auto
    ultimately show ?thesis using t(1,6) nb by blast
  qed
qed

lemma km_ok_disjoint:
  assumes "km_ok s A" "p \<in> A" "q \<in> A" "p \<noteq> q"
  shows "extent (km_mem s) p \<inter> extent (km_mem s) q = {}"
proof -
  obtain fs where "km_st (km_arena s) (km_mem s) (km_freelist s) fs A {}" using assms(1) unfolding km_ok_def by blast
  from tiles_extent_disjoint [OF km_stD(1) [OF this]] assms(2-4) show ?thesis by auto
qed

text \<open>
  C26. A request that fits gets a block of at least the requested size, disjoint from the blocks other
  callers own; those keep their size and every byte, and the heap stays well formed. The request
  fails only when every free block is smaller than the request rounded up to a multiple of 8.
\<close>

theorem kmalloc_serves:
  assumes "km_ok s A" "n \<noteq> 0" "unat n + 7 < 2 ^ 32"
  shows "(\<exists>b t. kmalloc n s = Ok (b + 12, t) \<and> b \<notin> A \<and> km_ok t (insert b A) \<and> km_keeps A s t
            \<and> n \<le> h_size (km_mem t) b \<and> (\<forall>p \<in> A. extent (km_mem t) b \<inter> extent (km_mem t) p = {}))
       \<or> kmalloc n s = Ok (0, s) \<and> (\<forall>fs p. km_st (km_arena s) (km_mem s) (km_freelist s) fs A {}
            \<longrightarrow> p \<in> set fs \<longrightarrow> unat (h_size (km_mem s) p) < (unat n + 7) div 8 * 8)"
  using kmalloc_ok [OF assms] km_ok_disjoint [of _ "insert _ A"] by (metis insertCI)

text \<open>An uninitialised heap at address \<open>0x100000\<close>, and the heap after the first call.\<close>

definition demo_raw_heap :: kheap where
  "demo_raw_heap = \<lparr>km_arena = 0x100000, km_inited = False, km_freelist = 0, km_mem = (\<lambda>_. 0)\<rparr>"

definition demo_heap :: kheap where
  "demo_heap = kmalloc_init demo_raw_heap"

lemma demo_heap_ok: "km_ok demo_heap {}"
  unfolding demo_heap_def
  by (rule kmalloc_init_law) (simp_all add: demo_raw_heap_def arena_end_def KM_ARENA_BYTES_def)

lemma demo_heap_free:
  "km_st (km_arena demo_heap) (km_mem demo_heap) (km_freelist demo_heap) fs {} {} \<Longrightarrow>
   fs = [0x100000] \<and> unat (h_size (km_mem demo_heap) 0x100000) = 524276"
proof -
  assume st: "km_st (km_arena demo_heap) (km_mem demo_heap) (km_freelist demo_heap) fs {} {}"
  have "km_freelist demo_heap = 0x100000" "h_next (km_mem demo_heap) 0x100000 = 0"
    "unat (h_size (km_mem demo_heap) 0x100000) = 524276"
    by (simp_all add: demo_heap_def demo_raw_heap_def kmalloc_init_def Let_def KM_ARENA_BYTES_def)
  moreover from this have "wchain (h_next (km_mem demo_heap)) (km_freelist demo_heap) [0x100000]" by simp
  ultimately show ?thesis using wchain_unique [OF km_stD(2) [OF st]] by blast
qed

theorem kmalloc_serves_witness:
  "km_ok demo_heap {} \<and> (\<exists>b t. kmalloc 100 demo_heap = Ok (b + 12, t) \<and> km_ok t {b} \<and> 100 \<le> h_size (km_mem t) b)"
proof -
  obtain fs where fs: "km_st (km_arena demo_heap) (km_mem demo_heap) (km_freelist demo_heap) fs {} {}"
    using demo_heap_ok unfolding km_ok_def by blast
  have "\<not> unat (h_size (km_mem demo_heap) 0x100000) < (unat (100 :: u32) + 7) div 8 * 8" "0x100000 \<in> set fs"
    using demo_heap_free [OF fs] by simp_all
  then show ?thesis using kmalloc_serves [OF demo_heap_ok, of 100] fs demo_heap_ok by auto
qed

text \<open>A caller stores a byte in the data of a block it owns.\<close>

lemma hdr_user_store:
  assumes "12 \<le> unat (x - p)"
  shows "h_next (m(x := v)) p = h_next m p" "h_size (m(x := v)) p = h_size m p" "h_magic (m(x := v)) p = h_magic m p"
proof -
  have ne: "p + k + of_nat i \<noteq> x" if "unat k \<le> 8" "i < 4" for i :: nat and k :: u32
  proof
    assume "p + k + of_nat i = x"
    then have "x - p = k + of_nat i" by auto
    moreover have "unat (k + of_nat i) \<le> unat k + i" using that(2) unat_add_cases [of k "of_nat i"] by (auto simp: unat_of_nat_u32)
    ultimately show False using assms that by simp
  qed
  have "load32 (p + k) (m(x := v)) = load32 (p + k) m" if "unat k \<le> 8" for k :: u32
    by (rule load32_cong) (use ne [OF that] in simp)
  from this [of 0] this [of 4] this [of 8]
  show "h_next (m(x := v)) p = h_next m p" "h_size (m(x := v)) p = h_size m p" "h_magic (m(x := v)) p = h_magic m p"
    by (simp_all add: h_next_def h_size_def h_magic_def)
qed

lemma km_user_store:
  assumes ok: "km_ok s A" and b: "b \<in> A" and x: "unat b + 12 \<le> unat x" "x \<in> extent (km_mem s) b"
  shows "km_ok (s\<lparr>km_mem := (km_mem s)(x := v)\<rparr>) A"
proof -
  let ?m = "km_mem s" let ?m' = "(km_mem s)(x := v)"
  obtain fs where st: "km_st (km_arena s) ?m (km_freelist s) fs A {}" "km_inited s" "\<forall>p \<in> A. h_size ?m p \<noteq> 0"
    using ok unfolding km_ok_def by blast
  note t = km_stD(1) [OF st(1)]
  have o: "h_next ?m' p = h_next ?m p" "h_size ?m' p = h_size ?m p" "h_magic ?m' p = h_magic ?m p" if p: "p \<in> set fs \<union> A" for p
  proof -
    have f: "fits12 p" using tiles_hdr(1) [OF t, of p] p by simp
    have "\<not> (unat p \<le> unat x \<and> unat x < unat p + 12)"
    proof (cases "p = b")
      case False
      then have "x \<notin> extent ?m p" using tiles_extent_disjoint [OF t, of b p] b p x(2) by auto
      then show ?thesis using bend_ge [of p ?m] by (auto simp: extent_def)
    qed (use x(1) in simp)
    from hdr_user_store [OF not_in_hdr [OF f this]]
    show "h_next ?m' p = h_next ?m p" "h_size ?m' p = h_size ?m p" "h_magic ?m' p = h_magic ?m p" by simp_all
  qed
  have "km_tiles (km_arena s) ?m' (set fs \<union> A \<union> {})" using tiles_cong [OF t] o(2) by simp
  moreover have "wchain (h_next ?m') (km_freelist s) fs"
    using wchain_cong [of fs "h_next ?m'" "h_next ?m"] o(1) km_stD(2) [OF st(1)] by simp
  ultimately have "km_st (km_arena s) ?m' (km_freelist s) fs A {}"
    using km_stD(3-8) [OF st(1)] o(3) unfolding km_st_def by auto
  then show ?thesis using st(2,3) o(2) unfolding km_ok_def by auto
qed

text \<open>The heap with its allocated blocks, after any sequence of calls and of stores by the owners.\<close>

inductive km_reach :: "kheap \<Rightarrow> u32 set \<Rightarrow> bool" where
  km_start: "\<not> km_inited s \<Longrightarrow> km_arena s \<noteq> 0 \<Longrightarrow> arena_end (km_arena s) < 2 ^ 32 \<Longrightarrow> km_reach (kmalloc_init s) {}"
| km_alloc: "km_reach s A \<Longrightarrow> n \<noteq> 0 \<Longrightarrow> unat n + 7 < 2 ^ 32 \<Longrightarrow> kmalloc n s = Ok (r, t) \<Longrightarrow>
     km_reach t (if r = 0 then A else insert (r - 12) A)"
| km_free: "km_reach s A \<Longrightarrow> b \<in> A \<Longrightarrow> kmfree (b + 12) s = Ok ((), t) \<Longrightarrow> km_reach t (A - {b})"
| km_write: "km_reach s A \<Longrightarrow> b \<in> A \<Longrightarrow> unat b + 12 \<le> unat x \<Longrightarrow> x \<in> extent (km_mem s) b \<Longrightarrow>
     km_reach (s\<lparr>km_mem := (km_mem s)(x := v)\<rparr>) A"

lemma km_ok_hdr: "km_ok s A \<Longrightarrow> b \<in> A \<Longrightarrow> fits12 b \<and> b + 12 \<noteq> 0"
proof -
  assume "km_ok s A" "b \<in> A"
  then obtain fs where "km_st (km_arena s) (km_mem s) (km_freelist s) fs A {}" unfolding km_ok_def by blast
  then have "fits12 b" using tiles_hdr(1) km_stD(1) \<open>b \<in> A\<close> by blast
  then show ?thesis using unat_add_cases [of b 12] by (auto simp: fits12_def)
qed

lemma km_reach_ok: "km_reach s A \<Longrightarrow> km_ok s A"
proof (induction rule: km_reach.induct)
  case (km_start s)
  then show ?case by (rule kmalloc_init_law(1))
next
  case (km_alloc s A n r t)
  from kmalloc_ok [OF km_alloc.IH km_alloc.hyps(2,3)] show ?case
  proof (elim disjE exE conjE)
    fix b t' assume "kmalloc n s = Ok (b + 12, t')" "km_ok t' (insert b A)"
    then show ?thesis using km_alloc.hyps(4) km_ok_hdr [of t' "insert b A" b] by auto
  next
    assume "kmalloc n s = Ok (0, s)"
    then show ?thesis using km_alloc.hyps(4) km_alloc.IH by simp
  qed
next
  case (km_free s A b t)
  then show ?case using kmfree_law [OF km_free.IH km_free.hyps(2)] by auto
next
  case (km_write s A b x v)
  then show ?case using km_user_store by blast
qed

text \<open>
  C15. Whatever sequence of allocations and frees, and whatever the owners store in their blocks: no
  two live blocks overlap, every live block lies in the arena, \<open>kmalloc\<close> always returns, and freeing
  a live block neither panics nor loops; freeing it twice changes nothing.
\<close>

theorem kmheap_safe:
  assumes "km_reach s A"
  shows "(\<forall>p \<in> A. \<forall>q \<in> A. p \<noteq> q \<longrightarrow> extent (km_mem s) p \<inter> extent (km_mem s) q = {})
    \<and> (\<forall>p \<in> A. km_block_in_arena p s \<and> km_block_in_arena (p + 12) s)
    \<and> (\<forall>n. n \<noteq> 0 \<longrightarrow> unat n + 7 < 2 ^ 32 \<longrightarrow> (\<exists>r t. kmalloc n s = Ok (r, t)))
    \<and> (\<forall>b \<in> A. \<exists>t. kmfree (b + 12) s = Ok ((), t) \<and> kmfree (b + 12) t = Ok ((), t))"
proof -
  have ok: "km_ok s A" by (rule km_reach_ok [OF assms])
  have "\<exists>t. kmfree (b + 12) s = Ok ((), t) \<and> kmfree (b + 12) t = Ok ((), t)" if b: "b \<in> A" for b
  proof -
    from kmfree_law [OF ok b] obtain t where t: "kmfree (b + 12) s = Ok ((), t)" "km_keeps (A - {b}) s t"
      "h_magic (km_mem t) b = KM_MAGIC_FREE" by blast
    have "km_block_in_arena b t" "km_block_in_arena (b + 12) t"
      using km_ok_in_arena [OF ok b] t(2) by (simp_all add: km_block_in_arena_def km_keeps_def)
    then have "kmfree (b + 12) t = Ok ((), t)"
      using t(3) by (simp add: kmfree_def Let_def KM_MAGIC_FREE_def KM_MAGIC_ALLOC_def)
    then show ?thesis using t(1) by blast
  qed
  moreover have "\<exists>r t. kmalloc n s = Ok (r, t)" if "n \<noteq> 0" "unat n + 7 < 2 ^ 32" for n
    using kmalloc_ok [OF ok that] by blast
  ultimately show ?thesis using km_ok_disjoint [OF ok] km_ok_in_arena [OF ok] by blast
qed

lemma demo_heap_reach: "km_reach demo_heap {}"
  unfolding demo_heap_def
  by (rule km_start) (simp_all add: demo_raw_heap_def arena_end_def KM_ARENA_BYTES_def)

theorem kmheap_safe_witness:
  "\<exists>b t. km_reach t {b} \<and> km_block_in_arena b t \<and> (\<exists>u. kmfree (b + 12) t = Ok ((), u) \<and> kmfree (b + 12) u = Ok ((), u))"
proof -
  obtain fs where fs: "km_st (km_arena demo_heap) (km_mem demo_heap) (km_freelist demo_heap) fs {} {}"
    using demo_heap_ok unfolding km_ok_def by blast
  have "\<not> unat (h_size (km_mem demo_heap) 0x100000) < (unat (100 :: u32) + 7) div 8 * 8" "0x100000 \<in> set fs"
    using demo_heap_free [OF fs] by simp_all
  then obtain b t where t: "kmalloc 100 demo_heap = Ok (b + 12, t)" "km_ok t {b}"
    using kmalloc_ok [OF demo_heap_ok, of 100] fs by auto
  have "km_reach t {b}" using km_alloc [OF demo_heap_reach _ _ t(1)] km_ok_hdr [OF t(2)] by simp
  then show ?thesis using kmheap_safe [of t "{b}"] by blast
qed

text \<open>
  A request of more than \<open>2\<^sup>3\<^sup>2 - 8\<close> bytes wraps around when it is rounded up: instead of failing,
  \<open>kmalloc\<close> returns a block of fewer than 28 bytes.
\<close>

theorem kmalloc_huge_wraps:
  assumes "km_ok s A" "2 ^ 32 \<le> unat n + 7" "km_freelist s \<noteq> 0"
  shows "\<exists>b t. kmalloc n s = Ok (b + 12, t) \<and> unat (h_size (km_mem t) b) < 28"
proof -
  obtain fs where st: "km_st (km_arena s) (km_mem s) (km_freelist s) fs A {}" "km_inited s"
    using assms(1) unfolding km_ok_def by blast
  have n: "n \<noteq> 0" using assms(2) by auto
  have "(7 :: u32) = mask 3" by (simp add: mask_eq_exp_minus_1)
  moreover have "unat (n + 7) < 8" using assms(2) unat_add_cases [of n 7] u32_lt [of n] u32_lt [of "n + 7"] by auto
  ultimately have z: "unat ((n + 7) AND NOT 7) = 0" using unat_and_not_mask [of "n + 7" 3] by simp
  have "fs \<noteq> []" using km_stD(2) [OF st(1)] assms(3) by auto
  then have "\<not> (\<forall>p \<in> set fs. h_size (km_mem s) p < (n + 7) AND NOT 7)"
    using z by (auto simp: word_less_nat_alt neq_Nil_conv)
  with kmalloc_law [OF st n refl] z show ?thesis by auto
qed

theorem kmalloc_huge_wraps_witness:
  "\<exists>b t. kmalloc 0xFFFFFFFF demo_heap = Ok (b + 12, t) \<and> unat (h_size (km_mem t) b) < 28"
proof -
  have "km_freelist demo_heap = 0x100000" by (simp add: demo_heap_def demo_raw_heap_def kmalloc_init_def Let_def)
  then show ?thesis using kmalloc_huge_wraps [OF demo_heap_ok, of "0xFFFFFFFF"] by simp
qed

end
