(* ===== verification/Fs.thy ===== *)
theory Fs
  imports Log Cstring
begin

text \<open>
  The file system of \<open>kernel/fs.c\<close>: the block allocator, inodes and their cache, the map from file
  offsets to disk blocks with its direct, indirect and double-indirect blocks, reading and writing
  of files, directories and path names. The state extends that of the log by the inode cache; an
  inode pointer is an index into it. \<open>icache.lock\<close> is held during each access to the cache and is
  not part of the state. The bits of \<open>flags\<close> are two fields. The device switch is an argument
  of the operations that use it.
\<close>

unbundle bit_operations_syntax


subsection \<open>Layout of the disk\<close>

definition NINODE :: nat where "NINODE = 50"
definition NDEV :: int where "NDEV = 10"
definition ROOTINO :: u32 where "ROOTINO = 1"
definition NDIRECT :: nat where "NDIRECT = 11"
definition NINDIRECT :: nat where "NINDIRECT = BSIZE div 4"
definition NDINDIRECT :: nat where "NDINDIRECT = NINDIRECT * NINDIRECT"
definition MAXFILE :: nat where "MAXFILE = NDIRECT + NINDIRECT + NDINDIRECT"
definition IPB :: nat where "IPB = BSIZE div 64"
definition BPB :: nat where "BPB = BSIZE * 8"
definition DIRSIZ :: nat where "DIRSIZ = 14"

definition T_DIR :: u16 where "T_DIR = 1"
definition T_FILE :: u16 where "T_FILE = 2"
definition T_DEV :: u16 where "T_DEV = 3"

definition NINODEBLOCKS :: "u32 \<Rightarrow> u32" where
  "NINODEBLOCKS ninodes = (ninodes + of_nat IPB - 1) div of_nat IPB"

definition IBLOCK :: "u32 \<Rightarrow> u32" where
  "IBLOCK i = i div of_nat IPB + 2"

definition BBLOCK :: "u32 \<Rightarrow> u32 \<Rightarrow> u32" where
  "BBLOCK b ninodes = b div of_nat BPB + NINODEBLOCKS ninodes + 3"

text \<open>The fields of \<open>struct dinode\<close> that an inode in memory copies.\<close>

record dinode =
  d_type :: u16
  d_major :: u16
  d_minor :: u16
  d_nlink :: u16
  d_size :: u32
  d_addrs :: "u32 list"

text \<open>The \<open>k\<close>-th \<open>struct dinode\<close> of an inode block: 64 bytes each, the addresses from byte 12.\<close>

definition get_words :: "bytes \<Rightarrow> nat \<Rightarrow> nat \<Rightarrow> u32 list" where
  "get_words d off n = map (\<lambda>i. get32 d (off + 4 * i)) [0..<n]"

primrec put_words :: "u32 list \<Rightarrow> nat \<Rightarrow> bytes \<Rightarrow> bytes" where
  "put_words [] off d = d"
| "put_words (w # ws) off d = put_words ws (off + 4) (put32 d off w)"

definition get_dinode :: "bytes \<Rightarrow> nat \<Rightarrow> dinode" where
  "get_dinode d k = \<lparr>d_type = get16 d (64 * k), d_major = get16 d (64 * k + 2), d_minor = get16 d (64 * k + 4),
     d_nlink = get16 d (64 * k + 6), d_size = get32 d (64 * k + 8), d_addrs = get_words d (64 * k + 12) (NDIRECT + 2)\<rparr>"

definition put_dinode :: "dinode \<Rightarrow> nat \<Rightarrow> bytes \<Rightarrow> bytes" where
  "put_dinode di k d =
     put_words (d_addrs di) (64 * k + 12)
       (put32 (put16 (put16 (put16 (put16 d (64 * k) (d_type di)) (64 * k + 2) (d_major di))
          (64 * k + 4) (d_minor di)) (64 * k + 6) (d_nlink di)) (64 * k + 8) (d_size di))"

record inode =
  i_dev :: u32
  i_inum :: u32
  i_ref :: int
  i_busy :: bool
  i_valid :: bool
  i_di :: dinode

record fstate = lstate +
  icache :: "nat \<Rightarrow> inode"

definition set_inode :: "nat \<Rightarrow> (inode \<Rightarrow> inode) \<Rightarrow> 'a fstate_scheme \<Rightarrow> 'a fstate_scheme" where
  "set_inode i f s = s\<lparr>icache := (icache s)(i := f (icache s i))\<rparr>"

definition set_di :: "nat \<Rightarrow> (dinode \<Rightarrow> dinode) \<Rightarrow> ('a fstate_scheme, unit) kop" where
  "set_di i f = kmod (set_inode i (\<lambda>ip. ip\<lparr>i_di := f (i_di ip)\<rparr>))"

definition inode_at :: "nat \<Rightarrow> ('a fstate_scheme, inode) kop" where
  "inode_at i = kget (\<lambda>s. icache s i)"


subsection \<open>Blocks\<close>

definition bzero :: "u32 \<Rightarrow> u32 \<Rightarrow> ('a lstate_scheme, unit) kop" where
  "bzero dev bno =
     kbind (bread dev bno) (\<lambda>bp.
     kthen (buf_store bp (replicate BSIZE 0))
     (kthen (log_write bp)
     (brelse bp)))"

definition bm_bit :: "bytes \<Rightarrow> nat \<Rightarrow> bool" where
  "bm_bit d bi = (d ! (bi div 8) AND push_bit (bi mod 8) 1 \<noteq> 0)"

definition bm_set :: "nat \<Rightarrow> bytes \<Rightarrow> bytes" where
  "bm_set bi d = d[bi div 8 := d ! (bi div 8) OR push_bit (bi mod 8) 1]"

definition bm_clear :: "nat \<Rightarrow> bytes \<Rightarrow> bytes" where
  "bm_clear bi d = d[bi div 8 := d ! (bi div 8) AND NOT (push_bit (bi mod 8) 1)]"

text \<open>
  The outer loop of \<open>balloc\<close> over the first blocks \<open>b\<close> of the bitmap sectors. The counter is an
  \<open>int\<close>, so a disk of \<open>2\<^sup>3\<^sup>1\<close> blocks or more makes it overflow.
\<close>

primrec balloc_scan :: "u32 \<Rightarrow> superblock \<Rightarrow> nat list \<Rightarrow> ('a lstate_scheme, u32) kop" where
  "balloc_scan dev sb [] = kpanic ''balloc: out of blocks''"
| "balloc_scan dev sb (b # bs) =
     kbind (bread dev (BBLOCK (of_nat b) (sb_ninodes sb))) (\<lambda>bp.
     kbind (buf_data bp) (\<lambda>d.
     case find (\<lambda>bi. \<not> bm_bit d bi) [0..<min BPB (unat (sb_size sb) - b)] of
       Some bi \<Rightarrow>
         kthen (buf_store bp (bm_set bi d))
         (kthen (log_write bp)
         (kthen (brelse bp)
         (kthen (bzero dev (of_nat (b + bi)))
         (kreturn (of_nat (b + bi))))))
     | None \<Rightarrow> kthen (brelse bp) (if 2 ^ 31 \<le> b + BPB then kundef else balloc_scan dev sb bs)))"

definition balloc :: "u32 \<Rightarrow> ('a lstate_scheme, u32) kop" where
  "balloc dev =
     kbind (readsb dev) (\<lambda>sb.
     balloc_scan dev sb (map (\<lambda>k. BPB * k) [0..<(unat (sb_size sb) + BPB - 1) div BPB]))"

definition bfree :: "u32 \<Rightarrow> u32 \<Rightarrow> ('a lstate_scheme, unit) kop" where
  "bfree dev b =
     kbind (readsb dev) (\<lambda>sb.
     kbind (bread dev (BBLOCK b (sb_ninodes sb))) (\<lambda>bp.
     kbind (buf_data bp) (\<lambda>d.
     let bi = unat b mod BPB in
     if \<not> bm_bit d bi then kpanic ''freeing free block''
     else kthen (buf_store bp (bm_clear bi d))
          (kthen (log_write bp)
          (brelse bp)))))"


subsection \<open>Inodes\<close>

definition iget :: "u32 \<Rightarrow> u32 \<Rightarrow> ('a fstate_scheme, nat) kop" where
  "iget dev inum = (\<lambda>s.
     case find (\<lambda>i. 0 < i_ref (icache s i) \<and> i_dev (icache s i) = dev \<and> i_inum (icache s i) = inum) [0..<NINODE] of
       Some i \<Rightarrow> Ok (i, set_inode i (\<lambda>ip. ip\<lparr>i_ref := i_ref ip + 1\<rparr>) s)
     | None \<Rightarrow>
         (case find (\<lambda>i. i_ref (icache s i) = 0) [0..<NINODE] of
            None \<Rightarrow> Panic ''iget: no inodes''
          | Some i \<Rightarrow> Ok (i, set_inode i (\<lambda>ip. ip\<lparr>i_dev := dev, i_inum := inum, i_ref := 1,
                                                    i_busy := False, i_valid := False\<rparr>) s)))"

primrec ialloc_scan :: "u32 \<Rightarrow> u16 \<Rightarrow> nat list \<Rightarrow> ('a fstate_scheme, nat) kop" where
  "ialloc_scan dev type [] = kpanic ''ialloc: no inodes''"
| "ialloc_scan dev type (inum # inums) =
     kbind (bread dev (IBLOCK (of_nat inum))) (\<lambda>bp.
     kbind (buf_data bp) (\<lambda>d.
     if get16 d (64 * (inum mod IPB)) = 0 then
       kthen (buf_store bp (put16 (splice d (64 * (inum mod IPB)) (replicate 64 0)) (64 * (inum mod IPB)) type))
       (kthen (log_write bp)
       (kthen (brelse bp)
       (iget dev (of_nat inum))))
     else kthen (brelse bp) (ialloc_scan dev type inums)))"

definition ialloc :: "u32 \<Rightarrow> u16 \<Rightarrow> ('a fstate_scheme, nat) kop" where
  "ialloc dev type =
     kbind (readsb dev) (\<lambda>sb.
     ialloc_scan dev type [1..<unat (sb_ninodes sb)])"

definition iupdate :: "nat \<Rightarrow> ('a fstate_scheme, unit) kop" where
  "iupdate i =
     kbind (inode_at i) (\<lambda>ip.
     kbind (bread (i_dev ip) (IBLOCK (i_inum ip))) (\<lambda>bp.
     kbind (buf_data bp) (\<lambda>d.
     kthen (buf_store bp (put_dinode (i_di ip) (unat (i_inum ip) mod IPB) d))
     (kthen (log_write bp)
     (brelse bp)))))"

definition idup :: "nat \<Rightarrow> ('a fstate_scheme, nat) kop" where
  "idup i = kthen (kmod (set_inode i (\<lambda>ip. ip\<lparr>i_ref := i_ref ip + 1\<rparr>))) (kreturn i)"

definition ilock :: "nat \<Rightarrow> ('a fstate_scheme, unit) kop" where
  "ilock i =
     kbind (inode_at i) (\<lambda>ip.
     if i_ref ip < 1 then kpanic ''ilock''
     else if i_busy ip then ksleep (ChInode i)
     else kthen (kmod (set_inode i (\<lambda>ip. ip\<lparr>i_busy := True\<rparr>)))
       (if i_valid ip then kreturn ()
        else kbind (bread (i_dev ip) (IBLOCK (i_inum ip))) (\<lambda>bp.
             kbind (buf_data bp) (\<lambda>d.
             let di = get_dinode d (unat (i_inum ip) mod IPB) in
             kthen (set_di i (\<lambda>_. di))
             (kthen (brelse bp)
             (kthen (kmod (set_inode i (\<lambda>ip. ip\<lparr>i_valid := True\<rparr>)))
             (if d_type di = 0 then kpanic ''ilock: no type'' else kreturn ())))))))"

definition iunlock :: "nat \<Rightarrow> ('a fstate_scheme, unit) kop" where
  "iunlock i =
     kbind (inode_at i) (\<lambda>ip.
     if \<not> i_busy ip \<or> i_ref ip < 1 then kpanic ''iunlock''
     else kmod (set_inode i (\<lambda>ip. ip\<lparr>i_busy := False\<rparr>)))"

text \<open>The loops of \<open>itrunc\<close> over the entries of an address block.\<close>

primrec bfree_all :: "u32 \<Rightarrow> u32 list \<Rightarrow> ('a lstate_scheme, unit) kop" where
  "bfree_all dev [] = kreturn ()"
| "bfree_all dev (a # as) = kthen (kwhen (a \<noteq> 0) (bfree dev a)) (bfree_all dev as)"

definition free_indirect :: "u32 \<Rightarrow> u32 \<Rightarrow> ('a lstate_scheme, unit) kop" where
  "free_indirect dev addr =
     kbind (bread dev addr) (\<lambda>bp.
     kbind (buf_data bp) (\<lambda>d.
     kthen (bfree_all dev (get_words d 0 NINDIRECT))
     (kthen (brelse bp)
     (bfree dev addr))))"

primrec free_indirect_all :: "u32 \<Rightarrow> u32 list \<Rightarrow> ('a lstate_scheme, unit) kop" where
  "free_indirect_all dev [] = kreturn ()"
| "free_indirect_all dev (a # as) = kthen (kwhen (a \<noteq> 0) (free_indirect dev a)) (free_indirect_all dev as)"

primrec itrunc_direct :: "nat \<Rightarrow> nat list \<Rightarrow> ('a fstate_scheme, unit) kop" where
  "itrunc_direct i [] = kreturn ()"
| "itrunc_direct i (k # ks) =
     kthen (kbind (inode_at i) (\<lambda>ip.
       kwhen (d_addrs (i_di ip) ! k \<noteq> 0)
         (kthen (bfree (i_dev ip) (d_addrs (i_di ip) ! k))
         (set_di i (\<lambda>di. di\<lparr>d_addrs := (d_addrs di)[k := 0]\<rparr>)))))
     (itrunc_direct i ks)"

definition itrunc :: "nat \<Rightarrow> ('a fstate_scheme, unit) kop" where
  "itrunc i =
     kthen (itrunc_direct i [0..<NDIRECT])
     (kbind (inode_at i) (\<lambda>ip.
     kthen (kwhen (d_addrs (i_di ip) ! NDIRECT \<noteq> 0)
       (kthen (free_indirect (i_dev ip) (d_addrs (i_di ip) ! NDIRECT))
       (set_di i (\<lambda>di. di\<lparr>d_addrs := (d_addrs di)[NDIRECT := 0]\<rparr>))))
     (kthen (kwhen (d_addrs (i_di ip) ! (NDIRECT + 1) \<noteq> 0)
       (kbind (bread (i_dev ip) (d_addrs (i_di ip) ! (NDIRECT + 1))) (\<lambda>dbp.
        kbind (buf_data dbp) (\<lambda>d.
        kthen (free_indirect_all (i_dev ip) (get_words d 0 NINDIRECT))
        (kthen (brelse dbp)
        (kthen (bfree (i_dev ip) (d_addrs (i_di ip) ! (NDIRECT + 1)))
        (set_di i (\<lambda>di. di\<lparr>d_addrs := (d_addrs di)[NDIRECT + 1 := 0]\<rparr>))))))))
     (kthen (set_di i (\<lambda>di. di\<lparr>d_size := 0\<rparr>))
     (iupdate i)))))"

definition iput :: "nat \<Rightarrow> ('a fstate_scheme, unit) kop" where
  "iput i =
     kbind (inode_at i) (\<lambda>ip.
     kthen
       (if i_ref ip = 1 \<and> i_valid ip \<and> d_nlink (i_di ip) = 0 then
          (if i_busy ip then kpanic ''iput busy''
           else kthen (kmod (set_inode i (\<lambda>ip. ip\<lparr>i_busy := True\<rparr>)))
                (kthen (itrunc i)
                (kthen (set_di i (\<lambda>di. di\<lparr>d_type := 0\<rparr>))
                (kthen (iupdate i)
                (kmod (set_inode i (\<lambda>ip. ip\<lparr>i_busy := False, i_valid := False\<rparr>)))))))
        else kreturn ())
     (kmod (set_inode i (\<lambda>ip. ip\<lparr>i_ref := i_ref ip - 1\<rparr>))))"

definition iunlockput :: "nat \<Rightarrow> ('a fstate_scheme, unit) kop" where
  "iunlockput i = kthen (iunlock i) (iput i)"


subsection \<open>Inode content\<close>

text \<open>\<open>addr\<close> of an entry of an address block, allocating a block for it if it has none.\<close>

definition bmap_entry :: "u32 \<Rightarrow> u32 \<Rightarrow> nat \<Rightarrow> ('a lstate_scheme, u32) kop" where
  "bmap_entry dev blk k =
     kbind (bread dev blk) (\<lambda>bp.
     kbind (buf_data bp) (\<lambda>d.
     if get32 d (4 * k) = 0 then
       kbind (balloc dev) (\<lambda>addr.
       kthen (buf_store bp (put32 d (4 * k) addr))
       (kthen (log_write bp)
       (kthen (brelse bp)
       (kreturn addr))))
     else kthen (brelse bp) (kreturn (get32 d (4 * k)))))"

definition bmap_slot :: "nat \<Rightarrow> nat \<Rightarrow> ('a fstate_scheme, u32) kop" where
  "bmap_slot i k =
     kbind (inode_at i) (\<lambda>ip.
     if d_addrs (i_di ip) ! k = 0 then
       kbind (balloc (i_dev ip)) (\<lambda>addr.
       kthen (set_di i (\<lambda>di. di\<lparr>d_addrs := (d_addrs di)[k := addr]\<rparr>))
       (kreturn addr))
     else kreturn (d_addrs (i_di ip) ! k))"

definition bmap :: "nat \<Rightarrow> nat \<Rightarrow> ('a fstate_scheme, u32) kop" where
  "bmap i bn =
     kbind (inode_at i) (\<lambda>ip.
     if bn < NDIRECT then bmap_slot i bn
     else let bn = bn - NDIRECT in
     if bn < NINDIRECT then
       kbind (bmap_slot i NDIRECT) (\<lambda>addr. bmap_entry (i_dev ip) addr bn)
     else let bn = bn - NINDIRECT in
     if bn < NDINDIRECT then
       kbind (bmap_slot i (NDIRECT + 1)) (\<lambda>addr.
       kbind (bmap_entry (i_dev ip) addr (bn div NINDIRECT)) (\<lambda>addr.
       bmap_entry (i_dev ip) addr (bn mod NINDIRECT)))
     else kpanic ''bmap: out of range'')"

definition bmap_read :: "nat \<Rightarrow> nat \<Rightarrow> ('a fstate_scheme, u32) kop" where
  "bmap_read i bn =
     kbind (inode_at i) (\<lambda>ip.
     if bn < NDIRECT then kreturn (d_addrs (i_di ip) ! bn)
     else let bn = bn - NDIRECT in
     if bn < NINDIRECT then
       (if d_addrs (i_di ip) ! NDIRECT = 0 then kreturn 0
        else kbind (bread (i_dev ip) (d_addrs (i_di ip) ! NDIRECT)) (\<lambda>bp.
             kbind (buf_data bp) (\<lambda>d.
             kthen (brelse bp)
             (kreturn (get32 d (4 * bn))))))
     else let bn = bn - NINDIRECT in
     if bn < NDINDIRECT then
       (if d_addrs (i_di ip) ! (NDIRECT + 1) = 0 then kreturn 0
        else kbind (bread (i_dev ip) (d_addrs (i_di ip) ! (NDIRECT + 1))) (\<lambda>dbp.
             kbind (buf_data dbp) (\<lambda>da.
             let addr = get32 da (4 * (bn div NINDIRECT)) in
             if addr = 0 then kthen (brelse dbp) (kreturn 0)
             else kbind (bread (i_dev ip) addr) (\<lambda>bp.
                  kbind (buf_data bp) (\<lambda>a.
                  kthen (brelse bp)
                  (kthen (brelse dbp)
                  (kreturn (get32 a (4 * (bn mod NINDIRECT))))))))))
     else kreturn 0)"

record fstat =
  st_type :: u16
  st_dev :: u32
  st_ino :: u32
  st_nlink :: u16
  st_size :: u32

definition stati :: "nat \<Rightarrow> ('a fstate_scheme, fstat) kop" where
  "stati i = kget (\<lambda>s. let ip = icache s i in
     \<lparr>st_type = d_type (i_di ip), st_dev = i_dev ip, st_ino = i_inum ip, st_nlink = d_nlink (i_di ip),
      st_size = d_size (i_di ip)\<rparr>)"

text \<open>
  The iterations of the loops of \<open>readi\<close> and \<open>writei\<close>: block number, offset in the block and number
  of bytes \<open>m = min(n - tot, BSIZE - off % BSIZE)\<close>.
\<close>

fun chunks :: "nat \<Rightarrow> nat \<Rightarrow> (nat \<times> nat \<times> nat) list" where
  "chunks off n =
     (if n = 0 then []
      else let m = min n (BSIZE - off mod BSIZE) in
        (off div BSIZE, off mod BSIZE, m) # (if m = 0 then [] else chunks (off + m) (n - m)))"

declare chunks.simps [simp del]

text \<open>
  The device switch: the read function of a major number gets the inode and a count and returns a
  value and the bytes it has stored, the write function gets the inode, the bytes and their number.
\<close>

record 's devsw =
  dv_read :: "nat \<Rightarrow> (nat \<Rightarrow> int \<Rightarrow> ('s, int \<times> bytes) kop) option"
  dv_write :: "nat \<Rightarrow> (nat \<Rightarrow> bytes \<Rightarrow> int \<Rightarrow> ('s, int) kop) option"

primrec readi_loop :: "nat \<Rightarrow> (nat \<times> nat \<times> nat) list \<Rightarrow> ('a fstate_scheme, bytes) kop" where
  "readi_loop i [] = kreturn []"
| "readi_loop i (c # cs) =
     (let bn = fst c; o' = fst (snd c); m = snd (snd c) in
      kbind (bmap_read i bn) (\<lambda>addr.
      kbind (if addr = 0 then kreturn (replicate m 0)
             else kbind (inode_at i) (\<lambda>ip.
                  kbind (bread (i_dev ip) addr) (\<lambda>bp.
                  kbind (buf_data bp) (\<lambda>d.
                  kthen (brelse bp)
                  (kreturn (slice d o' m)))))) (\<lambda>xs.
      kbind (readi_loop i cs) (\<lambda>ys.
      kreturn (xs @ ys)))))"

text \<open>The result of \<open>readi\<close> is its return value and the bytes stored at \<open>dst\<close>.\<close>

definition readi :: "'a fstate_scheme devsw \<Rightarrow> nat \<Rightarrow> u32 \<Rightarrow> u32 \<Rightarrow> ('a fstate_scheme, int \<times> bytes) kop" where
  "readi dv i off n =
     kbind (inode_at i) (\<lambda>ip.
     let di = i_di ip; major = sint (d_major di) in
     if d_type di = T_DEV then
       (if major < 0 \<or> NDEV \<le> major then kreturn (- 1, [])
        else case dv_read dv (nat major) of
               None \<Rightarrow> kreturn (- 1, [])
             | Some f \<Rightarrow> f i (sint n))
     else if d_size di < off \<or> off + n < off then kreturn (- 1, [])
     else let n' = (if d_size di < off + n then d_size di - off else n) in
       kbind (readi_loop i (chunks (unat off) (unat n'))) (\<lambda>bs.
       kreturn (sint n', bs)))"

primrec writei_loop :: "nat \<Rightarrow> bytes \<Rightarrow> (nat \<times> nat \<times> nat) list \<Rightarrow> ('a fstate_scheme, unit) kop" where
  "writei_loop i src [] = kreturn ()"
| "writei_loop i src (c # cs) =
     (let bn = fst c; o' = fst (snd c); m = snd (snd c) in
      kbind (inode_at i) (\<lambda>ip.
      kbind (bmap i bn) (\<lambda>addr.
      kbind (bread (i_dev ip) addr) (\<lambda>bp.
      kbind (buf_data bp) (\<lambda>d.
      kthen (buf_store bp (splice d o' (take m src)))
      (kthen (log_write bp)
      (kthen (brelse bp)
      (writei_loop i (drop m src) cs))))))))"

definition writei :: "'a fstate_scheme devsw \<Rightarrow> nat \<Rightarrow> bytes \<Rightarrow> u32 \<Rightarrow> u32 \<Rightarrow> ('a fstate_scheme, int) kop" where
  "writei dv i src off n =
     kbind (inode_at i) (\<lambda>ip.
     let di = i_di ip; major = sint (d_major di) in
     if d_type di = T_DEV then
       (if major < 0 \<or> NDEV \<le> major then kreturn (- 1)
        else case dv_write dv (nat major) of
               None \<Rightarrow> kreturn (- 1)
             | Some f \<Rightarrow> f i src (sint n))
     else if d_size di < off \<or> off + n < off then kreturn (- 1)
     else if of_nat (MAXFILE * BSIZE) < off + n then kreturn (- 1)
     else kthen (writei_loop i (take (unat n) src) (chunks (unat off) (unat n)))
       (kbind (inode_at i) (\<lambda>ip.
        kthen (kwhen (0 < n \<and> d_size (i_di ip) < off + n)
          (kthen (set_di i (\<lambda>di. di\<lparr>d_size := off + n\<rparr>))
          (iupdate i)))
        (kreturn (sint n)))))"


subsection \<open>Directories\<close>

definition cptr_of :: "bytes \<Rightarrow> cptr" where
  "cptr_of xs k = (if k < length xs then xs ! k else 0)"

definition namecmp :: "bytes \<Rightarrow> bytes \<Rightarrow> int" where
  "namecmp s t = strncmp (cptr_of s) (cptr_of t) (of_nat DIRSIZ)"

text \<open>A \<open>struct dirent\<close> is 16 bytes: the inode number and the name.\<close>

definition de_inum :: "bytes \<Rightarrow> u16" where "de_inum de = get16 de 0"
definition de_name :: "bytes \<Rightarrow> bytes" where "de_name de = slice de 2 DIRSIZ"

definition mk_dirent :: "u16 \<Rightarrow> bytes \<Rightarrow> bytes" where
  "mk_dirent inum name = le16 inum @ name"

text \<open>
  The offsets a loop \<open>for(off = 0; off < size; off += 16)\<close> visits. Past \<open>2\<^sup>3\<^sup>2 - 16\<close> the counter would
  wrap around to 0 and the loop not end.
\<close>

definition dir_offs :: "u32 \<Rightarrow> nat list" where
  "dir_offs sz = map (\<lambda>k. 16 * k) [0..<(unat sz + 15) div 16]"

definition dir_end :: "u32 \<Rightarrow> ('s, 'b) kop \<Rightarrow> ('s, 'b) kop" where
  "dir_end sz m = (if 2 ^ 32 - 16 < unat sz then kundef else m)"

primrec dirlookup_scan ::
  "'a fstate_scheme devsw \<Rightarrow> nat \<Rightarrow> bytes \<Rightarrow> nat list \<Rightarrow> ('a fstate_scheme, (nat \<times> u32) option) kop" where
  "dirlookup_scan dv dp name [] = kreturn None"
| "dirlookup_scan dv dp name (off # offs) =
     kbind (readi dv dp (of_nat off) 16) (\<lambda>r.
     if fst r \<noteq> 16 then kpanic ''dirlink read''
     else if de_inum (snd r) = 0 then dirlookup_scan dv dp name offs
     else if namecmp name (de_name (snd r)) = 0 then
       kbind (inode_at dp) (\<lambda>ip.
       kbind (iget (i_dev ip) (ucast (de_inum (snd r)))) (\<lambda>i.
       kreturn (Some (i, of_nat off))))
     else dirlookup_scan dv dp name offs)"

text \<open>The result: no entry, or the inode and the offset stored at \<open>poff\<close>.\<close>

definition dirlookup ::
  "'a fstate_scheme devsw \<Rightarrow> nat \<Rightarrow> bytes \<Rightarrow> ('a fstate_scheme, (nat \<times> u32) option) kop" where
  "dirlookup dv dp name =
     kbind (inode_at dp) (\<lambda>ip.
     if d_type (i_di ip) \<noteq> T_DIR then kpanic ''dirlookup not DIR''
     else kbind (dirlookup_scan dv dp name (dir_offs (d_size (i_di ip)))) (\<lambda>r.
       case r of None \<Rightarrow> dir_end (d_size (i_di ip)) (kreturn None) | Some x \<Rightarrow> kreturn (Some x)))"

primrec dirlink_scan ::
  "'a fstate_scheme devsw \<Rightarrow> nat \<Rightarrow> u32 \<Rightarrow> nat list \<Rightarrow> ('a fstate_scheme, u32) kop" where
  "dirlink_scan dv dp sz [] = dir_end sz (kreturn (of_nat (16 * ((unat sz + 15) div 16))))"
| "dirlink_scan dv dp sz (off # offs) =
     kbind (readi dv dp (of_nat off) 16) (\<lambda>r.
     if fst r \<noteq> 16 then kpanic ''dirlink read''
     else if de_inum (snd r) = 0 then kreturn (of_nat off)
     else dirlink_scan dv dp sz offs)"

definition dirlink ::
  "'a fstate_scheme devsw \<Rightarrow> nat \<Rightarrow> bytes \<Rightarrow> u32 \<Rightarrow> ('a fstate_scheme, int) kop" where
  "dirlink dv dp name inum =
     kbind (dirlookup dv dp name) (\<lambda>r.
     case r of
       Some x \<Rightarrow> kthen (iput (fst x)) (kreturn (- 1))
     | None \<Rightarrow>
         kbind (inode_at dp) (\<lambda>ip.
         kbind (dirlink_scan dv dp (d_size (i_di ip)) (dir_offs (d_size (i_di ip)))) (\<lambda>off.
         kbind (writei dv dp (mk_dirent (ucast inum) (strncpy (cptr_of name) (int DIRSIZ))) off 16) (\<lambda>w.
         if w \<noteq> 16 then kpanic ''dirlink'' else kreturn 0))))"


subsection \<open>Paths\<close>

text \<open>
  A path is the bytes before its terminator. \<open>skipelem\<close> returns the rest of the path and the new
  contents of the array \<open>name\<close> of \<open>DIRSIZ\<close> bytes, or nothing.
\<close>

definition is_slash :: "u8 \<Rightarrow> bool" where "is_slash c = (c = 47)"

definition skipelem :: "bytes \<Rightarrow> bytes \<Rightarrow> (bytes \<times> bytes) option" where
  "skipelem path name =
     (let s = dropWhile is_slash path in
      if s = [] then None
      else let elem = takeWhile (\<lambda>c. \<not> is_slash c) s; rest = dropWhile (\<lambda>c. \<not> is_slash c) s;
               name' = (if DIRSIZ \<le> length elem then splice name 0 (take DIRSIZ elem)
                        else splice name 0 (elem @ [0]))
           in Some (dropWhile is_slash rest, name'))"

lemma skipelem_shorter: "skipelem path name = Some (rest, name') \<Longrightarrow> length rest < length path"
proof -
  assume a: "skipelem path name = Some (rest, name')"
  let ?s = "dropWhile is_slash path"
  have s: "?s \<noteq> []" and rest: "rest = dropWhile is_slash (dropWhile (\<lambda>c. \<not> is_slash c) ?s)"
    using a by (auto simp: skipelem_def Let_def split: if_splits)
  then obtain c cs where c: "?s = c # cs" "\<not> is_slash c"
    by (metis hd_dropWhile list.collapse)
  have "length rest \<le> length (dropWhile (\<lambda>c. \<not> is_slash c) ?s)" unfolding rest by (rule length_dropWhile_le)
  also have "\<dots> \<le> length cs" using c length_dropWhile_le by simp
  also have "\<dots> < length path" using c(1) length_dropWhile_le [of is_slash path] by simp
  finally show ?thesis .
qed

function namex_loop ::
  "'a fstate_scheme devsw \<Rightarrow> bool \<Rightarrow> bytes \<Rightarrow> bytes \<Rightarrow> nat \<Rightarrow> ('a fstate_scheme, (nat \<times> bytes) option) kop" where
  "namex_loop dv parent path name i s =
     (case skipelem path name of
        None \<Rightarrow> if parent then kthen (iput i) (kreturn None) s else Ok (Some (i, name), s)
      | Some (path', name') \<Rightarrow>
          kthen (ilock i)
          (kbind (inode_at i) (\<lambda>ip.
           if d_type (i_di ip) \<noteq> T_DIR then kthen (iunlockput i) (kreturn None)
           else if parent \<and> path' = [] then kthen (iunlock i) (kreturn (Some (i, name')))
           else kbind (dirlookup dv i name') (\<lambda>r.
             case r of
               None \<Rightarrow> kthen (iunlockput i) (kreturn None)
             | Some x \<Rightarrow> kthen (iunlockput i) (\<lambda>t. namex_loop dv parent path' name' (fst x) t)))) s)"
  by pat_completeness auto
termination
  by (relation "measure (\<lambda>(dv, parent, path, name, i, s). length path)")
     (auto dest: skipelem_shorter [OF sym] skipelem_shorter)

definition namex ::
  "'a fstate_scheme devsw \<Rightarrow> nat \<Rightarrow> bytes \<Rightarrow> bool \<Rightarrow> bytes \<Rightarrow> ('a fstate_scheme, (nat \<times> bytes) option) kop" where
  "namex dv cwd path parent name =
     kbind (if path \<noteq> [] \<and> is_slash (hd path) then iget ROOTDEV ROOTINO else idup cwd) (\<lambda>i.
     namex_loop dv parent path name i)"

definition namei :: "'a fstate_scheme devsw \<Rightarrow> nat \<Rightarrow> bytes \<Rightarrow> ('a fstate_scheme, nat option) kop" where
  "namei dv cwd path =
     kbind (namex dv cwd path False (replicate DIRSIZ 0)) (\<lambda>r. kreturn (map_option fst r))"

definition nameiparent ::
  "'a fstate_scheme devsw \<Rightarrow> nat \<Rightarrow> bytes \<Rightarrow> bytes \<Rightarrow> ('a fstate_scheme, (nat \<times> bytes) option) kop" where
  "nameiparent dv cwd path name = namex dv cwd path True name"


subsection \<open>Statistics\<close>

record statfs =
  f_bsize :: u32
  f_blocks :: u32
  f_bfree :: u32
  f_bavail :: u32
  f_files :: u32
  f_ffree :: u32

primrec count_free_blocks :: "u32 \<Rightarrow> u32 \<Rightarrow> nat list \<Rightarrow> u32 \<Rightarrow> ('a bstate_scheme, u32) kop" where
  "count_free_blocks dev ninodes [] freeb = kreturn freeb"
| "count_free_blocks dev ninodes (b # bs) freeb =
     kbind (bread dev (BBLOCK (of_nat b) ninodes)) (\<lambda>bp.
     kbind (buf_data bp) (\<lambda>d.
     kthen (brelse bp)
     (count_free_blocks dev ninodes bs (if \<not> bm_bit d (b mod BPB) then freeb + 1 else freeb))))"

primrec count_free_inodes :: "u32 \<Rightarrow> nat list \<Rightarrow> u32 \<Rightarrow> ('a bstate_scheme, u32) kop" where
  "count_free_inodes dev [] freei = kreturn freei"
| "count_free_inodes dev (inum # inums) freei =
     kbind (bread dev (IBLOCK (of_nat inum))) (\<lambda>bp.
     kbind (buf_data bp) (\<lambda>d.
     kthen (brelse bp)
     (count_free_inodes dev inums (if get16 d (64 * (inum mod IPB)) = 0 then freei + 1 else freei))))"

definition fillstatfs :: "u32 \<Rightarrow> ('a bstate_scheme, statfs) kop" where
  "fillstatfs dev =
     kbind (readsb dev) (\<lambda>sb.
     let datastart = sb_size sb - sb_nlog sb - sb_nblocks sb in
     kbind (count_free_blocks dev (sb_ninodes sb) [unat datastart..<unat (datastart + sb_nblocks sb)] 0) (\<lambda>freeb.
     kbind (count_free_inodes dev [1..<unat (sb_ninodes sb)] 0) (\<lambda>freei.
     kreturn \<lparr>f_bsize = of_nat BSIZE, f_blocks = sb_nblocks sb, f_bfree = freeb, f_bavail = freeb,
              f_files = sb_ninodes sb, f_ffree = freei\<rparr>)))"

end
