(* ===== verification/Tx.thy ===== *)
theory Tx
  imports Log
begin

text \<open>
  The log as the file system uses it. \<open>tx A H L V s\<close> describes a kernel between two operations on
  blocks: the log area is \<open>A\<close>, the caller holds the buffers of the blocks \<open>H\<close>, the open transaction
  has logged the blocks \<open>L\<close>, and the current contents of the blocks outside the log area are \<open>V\<close>. The
  interface \<open>tx_store\<close> states what \<open>bread\<close>, \<open>log_write\<close> and \<open>brelse\<close> do to it, including the
  conditions under which the cache and the log have room, and derives the two access patterns of
  the file system: look at a block, and edit a block.
\<close>

definition tx :: "u32 set \<Rightarrow> u32 set \<Rightarrow> u32 set \<Rightarrow> (u32 \<Rightarrow> bytes) \<Rightarrow> 'a lstate_scheme \<Rightarrow> bool" where
  "tx A H L V s \<longleftrightarrow> log_inv {} s \<and> log_area (klog s) = A \<and> lg_size (klog s) = int LOGSIZE
     \<and> a_busy (absc s) = H \<and> set (logged (klog s)) = L
     \<and> (\<forall>y. y \<notin> A \<longrightarrow> view s y = V y)
     \<and> (\<forall>y \<in> H. y \<notin> L \<longrightarrow> view s y = dsk s y)"

text \<open>What every step keeps: the other components, the log, and a disk changed in the log area only.\<close>

definition tx_prog :: "'a lstate_scheme \<Rightarrow> 'a lstate_scheme \<Rightarrow> bool" where
  "tx_prog s t \<longleftrightarrow> lg_busy (klog t) = lg_busy (klog s) \<and> same_log (klog s) (klog t)
     \<and> (\<exists>ws. wlog t = wlog s @ phys_writes ws \<and> dsk t = apply_writes ws (dsk s)
          \<and> fst ` set ws \<subseteq> log_area (klog s) - {lg_start (klog s)})"

definition tx_keeps :: "'a lstate_scheme \<Rightarrow> 'a lstate_scheme \<Rightarrow> bool" where
  "tx_keeps s t \<longleftrightarrow> lstate.more t = lstate.more s \<and> tx_prog s t"

definition in_tx :: "'a lstate_scheme \<Rightarrow> bool" where
  "in_tx s \<longleftrightarrow> lg_busy (klog s)"

lemma tx_prog_refl: "log_wf (klog s) \<Longrightarrow> tx_prog s s"
  unfolding tx_prog_def
  by (intro conjI exI [of _ "[]"]) (simp_all add: phys_writes_def same_log_def log_wfD(5))

lemma tx_prog_trans: "tx_prog s t \<Longrightarrow> tx_prog t u \<Longrightarrow> tx_prog s u"
proof -
  assume a: "tx_prog s t" and b: "tx_prog t u"
  have S: "same_log (klog s) (klog t)" using a by (simp add: tx_prog_def)
  obtain ws where ws: "wlog t = wlog s @ phys_writes ws" "dsk t = apply_writes ws (dsk s)"
      "fst ` set ws \<subseteq> log_area (klog s) - {lg_start (klog s)}" using a by (auto simp: tx_prog_def)
  obtain vs where vs: "wlog u = wlog t @ phys_writes vs" "dsk u = apply_writes vs (dsk t)"
      "fst ` set vs \<subseteq> log_area (klog t) - {lg_start (klog t)}" using b by (auto simp: tx_prog_def)
  have "wlog u = wlog s @ phys_writes (ws @ vs)" "dsk u = apply_writes (ws @ vs) (dsk s)"
    using ws(1,2) vs(1,2) by (simp_all add: phys_writes_def)
  moreover have "fst ` set (ws @ vs) \<subseteq> log_area (klog s) - {lg_start (klog s)}"
    using ws(3) vs(3) S same_log_area(1) [OF S] by (simp add: image_Un same_log_def)
  ultimately have "\<exists>ws. wlog u = wlog s @ phys_writes ws \<and> dsk u = apply_writes ws (dsk s)
      \<and> fst ` set ws \<subseteq> log_area (klog s) - {lg_start (klog s)}" by blast
  then show ?thesis using a b by (simp add: tx_prog_def same_log_def)
qed

lemma tx_keeps_refl: "log_wf (klog s) \<Longrightarrow> tx_keeps s s"
  by (simp add: tx_keeps_def tx_prog_refl)

lemma tx_keeps_trans: "tx_keeps s t \<Longrightarrow> tx_keeps t u \<Longrightarrow> tx_keeps s u"
  using tx_prog_trans by (auto simp: tx_keeps_def)

lemma txD:
  assumes "tx A H L V s"
  shows "log_inv {} s" "log_area (klog s) = A" "lg_size (klog s) = 10" "a_busy (absc s) = H"
    "a_dirty (absc s) = L" "set (logged (klog s)) = L" "bio_inv s" "log_wf (klog s)"
    "y \<notin> A \<Longrightarrow> view s y = V y" "y \<in> H \<Longrightarrow> y \<notin> L \<Longrightarrow> view s y = dsk s y" "A \<inter> L = {}" "A \<inter> H = {}"
    "finite H" "finite L" "int (card L) = lh_n (klog s)"
proof -
  note I = log_invD [of "{}" s]
  show i: "log_inv {} s" "log_area (klog s) = A" "a_busy (absc s) = H" "set (logged (klog s)) = L"
    using assms by (simp_all add: tx_def)
  show "lg_size (klog s) = 10" using assms by (simp add: tx_def LOGSIZE_def)
  show "a_dirty (absc s) = L" "bio_inv s" and wf: "log_wf (klog s)" using I(1,2,4) i by simp_all
  show "y \<notin> A \<Longrightarrow> view s y = V y" "y \<in> H \<Longrightarrow> y \<notin> L \<Longrightarrow> view s y = dsk s y" using assms by (simp_all add: tx_def)
  show "A \<inter> L = {}" using log_wfD(6) [OF wf] i by blast
  show "A \<inter> H = {}" using I(5) [OF i(1)] i by blast
  show "finite H" using finite_flags(1) [of s] unfolding i(3) .
  show "finite L" using finite_set [of "logged (klog s)"] unfolding i(4) .
  show "int (card L) = lh_n (klog s)"
    using distinct_card [OF I(3) [OF i(1)]] log_wfD [OF wf] i(4) wf by (simp add: log_wf_def)
qed


locale tx_store =
  fixes rd :: "u32 \<Rightarrow> ('s, nat) kop"
    and dat :: "nat \<Rightarrow> ('s, bytes) kop"
    and store :: "nat \<Rightarrow> bytes \<Rightarrow> ('s, unit) kop"
    and logw :: "nat \<Rightarrow> ('s, unit) kop"
    and rel :: "nat \<Rightarrow> ('s, unit) kop"
    and st :: "u32 set \<Rightarrow> u32 set \<Rightarrow> u32 set \<Rightarrow> (u32 \<Rightarrow> bytes) \<Rightarrow> 's \<Rightarrow> bool"
    and held :: "'s \<Rightarrow> nat \<Rightarrow> u32 \<Rightarrow> bool"
    and keeps :: "'s \<Rightarrow> 's \<Rightarrow> bool"
    and opened :: "'s \<Rightarrow> bool"
  assumes rd_law: "st A H L V s \<Longrightarrow> x \<notin> A \<Longrightarrow> x \<notin> H \<Longrightarrow> card (H \<union> L) < NBUF \<Longrightarrow>
          wp (rd x) (\<lambda>i t. st A (insert x H) L V t \<and> held t i x \<and> keeps s t \<and> (\<forall>j y. held s j y \<longrightarrow> held t j y)) s"
    and dat_law: "st A H L V s \<Longrightarrow> held s i x \<Longrightarrow> dat i s = Ok (V x, s)"
    and put_law: "st A H L V s \<Longrightarrow> opened s \<Longrightarrow> held s i x \<Longrightarrow> length d = BSIZE \<Longrightarrow> card L < LOGSIZE - 1 \<Longrightarrow>
          card (H \<union> L) < NBUF \<Longrightarrow>
          wp (store i d) (\<lambda>_. wp (logw i) (\<lambda>_ t. st A H (insert x L) (V(x := d)) t \<and> keeps s t
            \<and> (\<forall>j y. held s j y \<longrightarrow> held t j y))) s"
    and rel_law: "st A H L V s \<Longrightarrow> held s i x \<Longrightarrow>
          wp (rel i) (\<lambda>_ t. st A (H - {x}) L V t \<and> keeps s t \<and> (\<forall>j y. held s j y \<longrightarrow> y \<noteq> x \<longrightarrow> held t j y)) s"
    and len_law: "st A H L V s \<Longrightarrow> x \<notin> A \<Longrightarrow> length (V x) = BSIZE"
    and held_law: "st A H L V s \<Longrightarrow> held s i x \<Longrightarrow> x \<in> H \<and> x \<notin> A"
    and fin_law: "st A H L V s \<Longrightarrow> finite H \<and> finite L"
    and keeps_trans: "keeps s t \<Longrightarrow> keeps t u \<Longrightarrow> keeps s u"
    and keeps_open: "keeps s t \<Longrightarrow> opened t = opened s"
begin

lemma rd_rule:
  assumes "st A H L V s" "x \<notin> A" "x \<notin> H" "card (H \<union> L) < NBUF"
    and "\<And>i t. st A (insert x H) L V t \<Longrightarrow> held t i x \<Longrightarrow> keeps s t \<Longrightarrow> (\<And>j y. held s j y \<Longrightarrow> held t j y) \<Longrightarrow> Q i t"
  shows "wp (rd x) Q s"
  by (rule wp_mono [OF rd_law [OF assms(1-4)]]) (use assms(5) in blast)

lemma dat_rule: "st A H L V s \<Longrightarrow> held s i x \<Longrightarrow> Q (V x) s \<Longrightarrow> wp (dat i) Q s"
  by (simp add: wp_def dat_law)

lemma put_rule:
  assumes "st A H L V s" "opened s" "held s i x" "length d = BSIZE" "card L < LOGSIZE - 1" "card (H \<union> L) < NBUF"
    and "\<And>t. st A H (insert x L) (V(x := d)) t \<Longrightarrow> keeps s t \<Longrightarrow> (\<And>j y. held s j y \<Longrightarrow> held t j y) \<Longrightarrow> Q () t"
  shows "wp (store i d) (\<lambda>_. wp (logw i) Q) s"
proof (rule wp_mono [OF put_law [OF assms(1-6)]])
  fix a t
  assume "wp (logw i) (\<lambda>_ t. st A H (insert x L) (V(x := d)) t \<and> keeps s t \<and> (\<forall>j y. held s j y \<longrightarrow> held t j y)) t"
  then show "wp (logw i) Q t" by (rule wp_mono) (use assms(7) in auto)
qed

lemma rel_rule:
  assumes "st A H L V s" "held s i x"
    and "\<And>t. st A (H - {x}) L V t \<Longrightarrow> keeps s t \<Longrightarrow> (\<And>j y. held s j y \<Longrightarrow> y \<noteq> x \<Longrightarrow> held t j y) \<Longrightarrow> Q () t"
  shows "wp (rel i) Q s"
  by (rule wp_mono [OF rel_law [OF assms(1,2)]]) (use assms(3) in auto)

text \<open>A block is looked at.\<close>

lemma look:
  assumes "st A H L V s" "x \<notin> A" "x \<notin> H" "card (H \<union> L) < NBUF"
    and "\<And>i t. st A H L V t \<Longrightarrow> keeps s t \<Longrightarrow> (\<And>j y. held s j y \<Longrightarrow> held t j y) \<Longrightarrow> Q i (V x) t"
  shows "wp (rd x) (\<lambda>i. wp (dat i) (\<lambda>d. wp (rel i) (\<lambda>_. Q i d))) s"
proof (rule rd_rule [OF assms(1-4)])
  fix i t assume t: "st A (insert x H) L V t" "held t i x" "keeps s t" "\<And>j y. held s j y \<Longrightarrow> held t j y"
  show "wp (dat i) (\<lambda>d. wp (rel i) (\<lambda>_. Q i d)) t"
  proof (rule dat_rule [OF t(1,2)], rule rel_rule [OF t(1,2)])
    fix u assume u: "st A (insert x H - {x}) L V u" "keeps t u" "\<And>j y. held t j y \<Longrightarrow> y \<noteq> x \<Longrightarrow> held u j y"
    have "insert x H - {x} = H" using assms(3) by simp
    moreover have "held u j y" if "held s j y" for j y using u(3) t(4) that held_law [OF assms(1) that] assms(3) by blast
    ultimately show "Q i (V x) u" using assms(5) u(1,2) keeps_trans [OF t(3)] by auto
  qed
qed

text \<open>A block is edited: read, changed, logged, released.\<close>

lemma edit:
  assumes "st A H L V s" "opened s" "x \<notin> A" "x \<notin> H" "length (f (V x)) = BSIZE" "card L < LOGSIZE - 1"
      "card (insert x (H \<union> L)) < NBUF"
    and "\<And>i t. st A H (insert x L) (V(x := f (V x))) t \<Longrightarrow> keeps s t \<Longrightarrow> (\<And>j y. held s j y \<Longrightarrow> held t j y) \<Longrightarrow> Q i (V x) t"
  shows "wp (rd x) (\<lambda>i. wp (dat i) (\<lambda>d. wp (store i (f d)) (\<lambda>_. wp (logw i) (\<lambda>_. wp (rel i) (\<lambda>_. Q i d))))) s"
proof (rule rd_rule [OF assms(1,3,4)])
  have "card (H \<union> L) \<le> card (insert x (H \<union> L))" using fin_law [OF assms(1)] by (simp add: card_insert_le)
  then show "card (H \<union> L) < NBUF" using assms(7) by simp
  fix i t assume t: "st A (insert x H) L V t" "held t i x" "keeps s t" "\<And>j y. held s j y \<Longrightarrow> held t j y"
  show "wp (dat i) (\<lambda>d. wp (store i (f d)) (\<lambda>_. wp (logw i) (\<lambda>_. wp (rel i) (\<lambda>_. Q i d)))) t"
  proof (rule dat_rule [OF t(1,2)], rule put_rule [OF t(1) _ t(2)])
    show "opened t" "length (f (V x)) = BSIZE" "card L < LOGSIZE - 1" "card (insert x H \<union> L) < NBUF"
      using keeps_open [OF t(3)] assms(2,5-7) by simp_all
    fix u assume u: "st A (insert x H) (insert x L) (V(x := f (V x))) u" "keeps t u" "\<And>j y. held t j y \<Longrightarrow> held u j y"
    show "wp (rel i) (\<lambda>_. Q i (V x)) u"
    proof (rule rel_rule [OF u(1) u(3) [OF t(2)]])
      fix v assume v: "st A (insert x H - {x}) (insert x L) (V(x := f (V x))) v" "keeps u v"
        "\<And>j y. held u j y \<Longrightarrow> y \<noteq> x \<Longrightarrow> held v j y"
      have "insert x H - {x} = H" using assms(4) by simp
      moreover have "held v j y" if "held s j y" for j y
        using v(3) u(3) t(4) that held_law [OF assms(1) that] assms(4) by blast
      ultimately show "Q i (V x) v"
        using assms(8) v(1,2) keeps_trans [OF keeps_trans [OF t(3) u(2)]] by auto
    qed
  qed
qed

end


subsection \<open>The log provides it\<close>

lemma bread_tx:
  assumes s: "tx A H L V s" and x: "x \<notin> A" "x \<notin> H" "card (H \<union> L) < NBUF"
  shows "wp (bread ROOTDEV x) (\<lambda>i t. tx A (insert x H) L V t \<and> holds t i x \<and> tx_keeps s t
    \<and> (\<forall>j y. holds s j y \<longrightarrow> holds t j y)) s"
proof (rule bc.rd_rule [OF txD(7) [OF s]])
  note S = txD [OF s]
  show "a_room x (absc s)" using x S(4,5) by (simp add: a_room_def)
  fix i t assume t: "bio_inv t" "bstate.more t = bstate.more s" "absc t = a_hold x (absc s)" "holds t i x"
    and h: "\<And>j y. holds s j y \<Longrightarrow> holds t j y"
  note k = log_rest [OF t(2)]
  have e: "view t = view s" "dsk t = dsk s" "wlog t = wlog s" using abscD [OF t(3)] by (simp_all add: a_hold_def)
  have b: "a_busy (absc t) = insert x H" using t(3) S(4) by (simp add: a_hold_def)
  have "log_inv {} t" using log_inv_hold [OF S(1) t(1) k(1) _ t(3)] x(1) S(2) by simp
  moreover have "view s y = dsk s y" if "y \<in> insert x H" "y \<notin> L" for y
    using that unheld_clean [OF S(7), of x] x(2) S(4,5,10) by auto
  ultimately have "tx A (insert x H) L V t"
    using s k(1) e b unfolding tx_def by simp
  moreover have "tx_keeps s t" using tx_keeps_refl [OF S(8)] k e unfolding tx_keeps_def tx_prog_def by simp
  ultimately show "tx A (insert x H) L V t \<and> holds t i x \<and> tx_keeps s t \<and> (\<forall>j y. holds s j y \<longrightarrow> holds t j y)"
    using t(4) h by blast
qed

lemma brelse_tx:
  assumes s: "tx A H L V s" and x: "holds s i x"
  shows "wp (brelse i) (\<lambda>_ t. tx A (H - {x}) L V t \<and> tx_keeps s t
    \<and> (\<forall>j y. holds s j y \<longrightarrow> y \<noteq> x \<longrightarrow> holds t j y)) s"
proof (rule bc.rel_rule [OF txD(7) [OF s] x])
  note S = txD [OF s]
  have xH: "x \<in> H" using holdsD(9) [OF S(7) x] S(4) by simp
  show "x \<in> a_dirty (absc s) \<or> a_view (absc s) x = a_disk (absc s) x" using S(5,10) xH by auto
  fix t assume t: "bio_inv t" "bstate.more t = bstate.more s" "absc t = a_release x (absc s)"
    and h: "\<And>j y. holds s j y \<Longrightarrow> y \<noteq> x \<Longrightarrow> holds t j y"
  note k = log_rest [OF t(2)]
  have e: "view t = view s" "dsk t = dsk s" "wlog t = wlog s" using abscD [OF t(3)] by (simp_all add: a_release_def)
  have b: "a_busy (absc t) = H - {x}" using t(3) S(4) by (simp add: a_release_def)
  have "log_inv {} t" using log_inv_release [OF S(1) t(1) k(1) t(3)] .
  then have "tx A (H - {x}) L V t" using s k(1) e b unfolding tx_def by simp
  moreover have "tx_keeps s t" using tx_keeps_refl [OF S(8)] k e unfolding tx_keeps_def tx_prog_def by simp
  ultimately show "tx A (H - {x}) L V t \<and> tx_keeps s t \<and> (\<forall>j y. holds s j y \<longrightarrow> y \<noteq> x \<longrightarrow> holds t j y)"
    using h by blast
qed

lemma log_put_tx:
  fixes s :: "'a lstate_scheme"
  assumes s: "tx A H L V s" and o: "in_tx s" and x: "holds s i x" and d: "length d = BSIZE"
    and r: "card L < LOGSIZE - 1" "card (H \<union> L) < NBUF"
  shows "wp (buf_store i d) (\<lambda>_. wp (log_write i) (\<lambda>_ t. tx A H (insert x L) (V(x := d)) t \<and> tx_keeps s t
    \<and> (\<forall>j y. holds s j y \<longrightarrow> holds t j y))) s"
proof (rule bc.store_rule [OF txD(7) [OF s] x d])
  note S = txD [OF s]
  let ?lg = "klog s" let ?i = "log_slot x (logged ?lg)" let ?lb = "log_block ?lg ?i"
  have xH: "x \<in> H" "x \<notin> A" using holdsD(9) [OF S(7) x] S(4,12) by auto
  fix u assume u: "bio_inv u" "bstate.more u = bstate.more s" "absc u = a_store x d (absc s)"
    and hu: "\<And>j y. holds s j y \<Longrightarrow> holds u j y"
  have iu: "log_inv {x} u" using log_inv_store [OF S(1) u(1) _ u(3)] log_rest [OF u(2)] by simp
  note ku = log_rest [OF u(2)]
  have vu: "view u = (view s)(x := d)" "dsk u = dsk s" "wlog u = wlog s" "a_busy (absc u) = H" "a_dirty (absc u) = L"
    using abscD [OF u(3)] u(3) S(4,5) by (simp_all add: a_store_def)
  have n: "lh_n ?lg < lg_size ?lg - 1" using r(1) S(3,15) by (simp add: LOGSIZE_def)
  have wfa: "log_wf (log_add x ?lg)" by (rule log_wf_add [OF S(8) n]) (use xH S(2) in simp)
  have sl: "?i < nat (lh_n (log_add x ?lg))"
    using log_slot_cases [of x "logged ?lg"] logged_log_add [OF S(8) n, of x] log_wfD(4) [OF wfa] by auto
  have lb: "?lb \<in> A - {lg_start ?lg}"
    using log_block_area [OF wfa sl] log_block_neq [OF wfa sl] S(2) by auto
  have "wp (log_write i) (\<lambda>_ t. bio_inv t \<and> lstate.more t = lstate.more u \<and> klog t = log_add x (klog u)
     \<and> absc t = a_pin x (a_wt (log_block (klog u) (log_slot x (logged (klog u)))) (view u x) (absc u))
     \<and> (\<forall>j y. holds u j y \<longrightarrow> holds t j y)) u"
    by (rule log_write_law [OF u(1) _ _ _ hu [OF x]])
       (use o n ku S(2,8,12) vu(4,5) r(2) in \<open>auto simp: in_tx_def\<close>)
  then show "wp (log_write i) (\<lambda>_ t. tx A H (insert x L) (V(x := d)) t \<and> tx_keeps s t
      \<and> (\<forall>j y. holds s j y \<longrightarrow> holds t j y)) u"
  proof (rule wp_mono, elim conjE)
    fix a :: unit and v :: "'a lstate_scheme"
    assume v: "bio_inv v" "lstate.more v = lstate.more u" "klog v = log_add x (klog u)"
      "absc v = a_pin x (a_wt (log_block (klog u) (log_slot x (logged (klog u)))) (view u x) (absc u))"
      "\<forall>j y. holds u j y \<longrightarrow> holds v j y"
    have iv: "log_inv {} v" using log_inv_add [OF iu _ _ v(1,3,4)] n xH S(2) ku by simp
    have vv: "view v = (view u)(?lb := d)" "dsk v = (dsk s)(?lb := d)" "wlog v = wlog s @ phys_writes [(?lb, d)]"
      "a_busy (absc v) = H"
      using abscD [OF v(4)] v(4) ku vu by (simp_all add: a_pin_def phys_writes_def)
    have kv: "klog v = log_add x ?lg" using v(3) ku by simp
    have lv: "set (logged (klog v)) = insert x L"
      using kv logged_log_add [OF S(8) n, of x] S(6) by auto
    have ks: "same_log ?lg (klog v)" "lg_busy (klog v) = lg_busy ?lg"
      using kv log_wfD(5) [OF S(8)] by (simp_all add: same_log_def log_add_def Let_def)
    have "tx A H (insert x L) (V(x := d)) v"
      unfolding tx_def
    proof (intro conjI allI ballI impI)
      show "log_inv {} v" "a_busy (absc v) = H" "set (logged (klog v)) = insert x L" using iv vv(4) lv by simp_all
      show "log_area (klog v) = A" "lg_size (klog v) = int LOGSIZE"
        using same_log_area(1) [OF ks(1)] ks(1) S(2,3) by (simp_all add: same_log_def LOGSIZE_def)
      show "view v y = (V(x := d)) y" if "y \<notin> A" for y using that lb vv(1) vu(1) S(9) by auto
      show "view v y = dsk v y" if "y \<in> H" "y \<notin> insert x L" for y
        using that vv vu S(10,12) lb by auto
    qed
    moreover have "tx_keeps s v"
      unfolding tx_keeps_def tx_prog_def
      by (intro conjI exI [of _ "[(?lb, d)]"]) (use ks vv lb v(2) ku S(2) in simp_all)
    ultimately show "tx A H (insert x L) (V(x := d)) v \<and> tx_keeps s v \<and> (\<forall>j y. holds s j y \<longrightarrow> holds v j y)"
      using v(5) hu by blast
  qed
qed

interpretation lt: tx_store "bread ROOTDEV" buf_data buf_store log_write brelse tx holds tx_keeps in_tx
proof unfold_locales
  fix A H L V x i and s :: "'a lstate_scheme"
  show "tx A H L V s \<Longrightarrow> holds s i x \<Longrightarrow> buf_data i s = Ok (V x, s)"
    using holdsD(9) [of s i x] txD(4,7,9,12) [of A H L V s] bc.data_law [of s i x] by auto
  show "tx A H L V s \<Longrightarrow> x \<notin> A \<Longrightarrow> length (V x) = BSIZE"
    using txD(7,9) [of A H L V s] length_view by metis
  show "tx A H L V s \<Longrightarrow> holds s i x \<Longrightarrow> x \<in> H \<and> x \<notin> A"
    using holdsD(9) [of s i x] txD(4,7,12) [of A H L V s] by auto
  show "tx A H L V s \<Longrightarrow> finite H \<and> finite L" using txD(13,14) by blast
next
  show "tx_keeps s t \<Longrightarrow> tx_keeps t u \<Longrightarrow> tx_keeps s u" for s t u :: "'a lstate_scheme" by (rule tx_keeps_trans)
  show "tx_keeps s t \<Longrightarrow> in_tx t = in_tx s" for s t :: "'a lstate_scheme" by (simp add: tx_keeps_def tx_prog_def in_tx_def)
qed (simp_all add: bread_tx brelse_tx log_put_tx)



subsection \<open>A whole transaction\<close>

text \<open>
  An operation between \<open>begin_trans\<close> and \<open>commit_trans\<close>, the shape of every system call that changes
  the file system. Whatever the operation is, if it leaves the disk contents \<open>V\<close> in the transaction, the whole is
  atomic with respect to crashes: the machine may stop after any of its sector writes.
\<close>

definition in_trans :: "('a lstate_scheme, 'b) kop \<Rightarrow> ('a lstate_scheme, 'b) kop" where
  "in_trans body = kthen begin_trans (kbind body (\<lambda>r. kthen commit_trans (kreturn r)))"

definition quiet :: "'a lstate_scheme \<Rightarrow> bool" where
  "quiet s \<longleftrightarrow> log_inv {} s \<and> lh_n (klog s) = 0 \<and> \<not> lg_busy (klog s) \<and> a_busy (absc s) = {}
     \<and> lg_size (klog s) = int LOGSIZE \<and> sb_log (sb_of (dsk s 1)) (klog s) \<and> 1 \<notin> log_area (klog s)"

abbreviation trans_open :: "'a lstate_scheme \<Rightarrow> 'a lstate_scheme" where
  "trans_open s \<equiv> set_log (\<lambda>l. l\<lparr>lg_busy := True\<rparr>) s"

lemma quiet_open:
  assumes "quiet s"
  shows "begin_trans s = Ok ((), trans_open s)" "tx (log_area (klog s)) {} {} (dsk s) (trans_open s)" "in_tx (trans_open s)"
proof -
  have q: "log_inv {} s" "lh_n (klog s) = 0" "\<not> lg_busy (klog s)" "a_busy (absc s) = {}" "lg_size (klog s) = int LOGSIZE"
    using assms by (simp_all add: quiet_def)
  from begin_trans_law [OF q(1,3)] show "begin_trans s = Ok ((), trans_open s)" by (simp add: wp_iff)
  have "log_inv {} (trans_open s)" using begin_trans_law [OF q(1,3)] by (simp add: wp_iff)
  moreover have "view s = dsk s" using log_inv_clean [OF q(1,4)] q(2) by (auto simp: logged_def)
  ultimately show "tx (log_area (klog s)) {} {} (dsk s) (trans_open s)"
    using q by (simp add: tx_def log_area_def logged_def)
  show "in_tx (trans_open s)" by (simp add: in_tx_def)
qed

text \<open>The crash states of a run from \<open>s\<close> to \<open>t\<close>: every prefix of the sector writes it has issued.\<close>

definition crash_atomic :: "'a lstate_scheme \<Rightarrow> 'a lstate_scheme \<Rightarrow> (u32 \<Rightarrow> bytes) \<Rightarrow> bool" where
  "crash_atomic s t V \<longleftrightarrow> (\<exists>ws. wlog t = wlog s @ ws \<and>
     (\<forall>k (r :: 'a lstate_scheme). cold r \<longrightarrow> disk r = apply_writes (take k ws) (disk s) \<longrightarrow>
        wp initlog (\<lambda>_ u. (\<forall>x. x \<notin> log_area (klog s) \<longrightarrow> dsk u x = dsk s x) \<or>
          (\<forall>x. x \<notin> log_area (klog s) \<longrightarrow> dsk u x = V x)) (binit r)))"

lemma in_trans_atomic:
  fixes s :: "'a lstate_scheme"
  assumes q: "quiet s"
    and body: "wp body (\<lambda>r t. \<exists>L V. tx (log_area (klog s)) {} L V t \<and> tx_prog (trans_open s) t \<and> V 1 = dsk s 1 \<and> R r V (lstate.more t)) (trans_open s)"
  shows "\<exists>r t V. in_trans body s = Ok (r, t) \<and> quiet t \<and> R r V (lstate.more t)
    \<and> (\<forall>x. x \<notin> log_area (klog s) \<longrightarrow> dsk t x = V x) \<and> log_area (klog t) = log_area (klog s) \<and> crash_atomic s t V"
proof -
  let ?A = "log_area (klog s)" and ?b = "trans_open s"
  note B = quiet_open [OF q]
  have qs: "sb_log (sb_of (dsk s 1)) (klog s)" "1 \<notin> ?A" using q by (simp_all add: quiet_def)
  from body obtain r t L V where t: "body ?b = Ok (r, t)" "tx ?A {} L V t" "tx_prog ?b t" "V 1 = dsk s 1" "R r V (lstate.more t)"
    by (auto simp: wp_iff)
  note T = txD [OF t(2)]
  from t(3) obtain ws where S: "same_log (klog ?b) (klog t)" and ws: "wlog t = wlog ?b @ phys_writes ws"
    "dsk t = apply_writes ws (dsk ?b)" "fst ` set ws \<subseteq> log_area (klog ?b) - {lg_start (klog ?b)}"
    by (auto simp: tx_prog_def)
  have A: "log_area (klog ?b) = ?A" by (simp add: log_area_def)
  define cw where "cw = (if 0 < lh_n (klog t) then commit_writes (klog t) (view t) else [])"
  from commit_effect [OF T(1,4)] obtain u where u: "commit_trans t = Ok ((), u)"
    and kl: "klog u = (klog t)\<lparr>lh_n := 0, lg_busy := False\<rparr>" and mo: "lstate.more u = lstate.more t"
    and bu: "a_busy (absc u) = {}" and iu: "log_inv {} u" and eff: "\<And>x. x \<notin> ?A \<Longrightarrow> dsk u x = V x"
    and wu: "wlog u = wlog t @ phys_writes cw"
    using T(2,9) by (auto simp: wp_iff cw_def)
  have au: "log_area (klog u) = ?A" using T(2) kl by (simp add: log_area_def)
  have "in_trans body s = Ok (r, u)" by (simp add: in_trans_def kthen_def kbind_def B(1) t(1) u kreturn_def)
  moreover have "quiet u"
    using iu bu au T(3) kl qs eff [of 1] t(4) S by (simp add: quiet_def LOGSIZE_def sb_log_def same_log_def)
  moreover have "crash_atomic s u V"
    unfolding crash_atomic_def
  proof (intro exI conjI allI impI)
    show "wlog u = wlog s @ phys_writes (ws @ cw)" using ws(1) wu by (simp add: phys_writes_def)
    fix k and c :: "'a lstate_scheme"
    assume c: "cold c" "disk c = apply_writes (take k (phys_writes (ws @ cw))) (disk s)"
    show "wp initlog (\<lambda>_ u. (\<forall>x. x \<notin> ?A \<longrightarrow> dsk u x = dsk s x) \<or> (\<forall>x. x \<notin> ?A \<longrightarrow> dsk u x = V x)) (binit c)"
      using tx_crash_recovers [where s = ?b and t = t and V = V and ws = ws and cw = cw and r = c and k = k, unfolded A]
        txD(1) [OF B(2)] T(1,4,2,9) S ws(2,3) cw_def c(1) dsk_apply [OF c(2)] qs t(4) A
      by (simp add: sb_log_def)
  qed
  ultimately show ?thesis using t(5) eff au mo by metis
qed

end
