(* ===== verification/FsAlloc.thy ===== *)
theory FsAlloc
  imports Fs Tx
begin

text \<open>
  The block allocator and the inode blocks over the contents \<open>V\<close> of the disk blocks: the free bitmap
  as a set of blocks, what \<open>balloc\<close> and \<open>bfree\<close> do to it, and the layout conditions the file system
  relies on.
\<close>

unbundle bit_operations_syntax


subsection \<open>The bitmap\<close>

lemma bm_bit_iff: "bm_bit d i \<longleftrightarrow> bit (d ! (i div 8)) (i mod 8)"
  by (simp add: bm_bit_def push_bit_eq_mult and_exp_eq_0_iff_not_bit)

lemma length_bm [simp]: "length (bm_set i d) = length d" "length (bm_clear i d) = length d"
  by (simp_all add: bm_set_def bm_clear_def)

lemma div_mod_eq8: "(i :: nat) div 8 = j div 8 \<Longrightarrow> i mod 8 = j mod 8 \<Longrightarrow> i = j"
  by (metis div_mult_mod_eq)

lemma bm_bit_set: "i div 8 < length d \<Longrightarrow> bm_bit (bm_set i d) j \<longleftrightarrow> j = i \<or> bm_bit d j"
proof (cases "j div 8 = i div 8")
  case True
  assume "i div 8 < length d"
  moreover have "j = i \<longleftrightarrow> j mod 8 = i mod 8" using True div_mod_eq8 [of j i] by auto
  moreover have "j mod 8 < 8" by simp
  ultimately show ?thesis using True by (auto simp: bm_bit_iff bm_set_def bit_or_iff bit_exp_iff)
next
  case False
  then show ?thesis by (auto simp: bm_bit_iff bm_set_def)
qed

lemma bm_bit_clear: "i div 8 < length d \<Longrightarrow> bm_bit (bm_clear i d) j \<longleftrightarrow> j \<noteq> i \<and> bm_bit d j"
proof (cases "j div 8 = i div 8")
  case True
  assume "i div 8 < length d"
  moreover have "j = i \<longleftrightarrow> j mod 8 = i mod 8" using True div_mod_eq8 [of j i] by auto
  moreover have "j mod 8 < 8" by simp
  ultimately show ?thesis
    using True by (auto simp: bm_bit_iff bm_clear_def bit_and_iff bit_not_iff bit_exp_iff)
next
  case False
  then show ?thesis by (auto simp: bm_bit_iff bm_clear_def)
qed

definition fsb :: "(u32 \<Rightarrow> bytes) \<Rightarrow> superblock" where
  "fsb V = sb_of (V 1)"

text \<open>The bitmap block and the bit of a block.\<close>

definition bmb :: "(u32 \<Rightarrow> bytes) \<Rightarrow> u32 \<Rightarrow> u32" where
  "bmb V b = BBLOCK b (sb_ninodes (fsb V))"

definition used :: "(u32 \<Rightarrow> bytes) \<Rightarrow> u32 \<Rightarrow> bool" where
  "used V b \<longleftrightarrow> bm_bit (V (bmb V b)) (unat b mod BPB)"

definition free :: "(u32 \<Rightarrow> bytes) \<Rightarrow> u32 set" where
  "free V = {b. unat b < unat (sb_size (fsb V)) \<and> \<not> used V b}"

lemma BPB_val: "BPB = 4096" "(of_nat BPB :: u32) = 4096"
  by (simp_all add: BPB_def BSIZE_def)

lemma bmb_eq_iff: "bmb V b = bmb V c \<longleftrightarrow> unat b div BPB = unat c div BPB"
proof -
  have "bmb V b = bmb V c \<longleftrightarrow> b div 4096 = c div 4096" by (simp add: bmb_def BBLOCK_def BPB_val)
  also have "\<dots> \<longleftrightarrow> unat b div 4096 = unat c div 4096"
    by (simp add: word_unat_eq_iff unat_div)
  finally show ?thesis by (simp add: BPB_val)
qed

lemma same_bit_iff: "bmb V b = bmb V c \<and> unat b mod BPB = unat c mod BPB \<longleftrightarrow> b = c"
  unfolding bmb_eq_iff by (metis div_mult_mod_eq word_unat_eq_iff)

text \<open>
  The blocks that hold no file data: the super block, the bitmap and the inodes. \<open>fs_ok\<close> is what
  the allocator relies on: these lie outside the log area and do not overlap, and neither
  they nor the blocks of the log are marked free.
\<close>

definition bmbs :: "(u32 \<Rightarrow> bytes) \<Rightarrow> u32 set" where
  "bmbs V = {bmb V b |b. unat b < unat (sb_size (fsb V))}"

definition ibs :: "(u32 \<Rightarrow> bytes) \<Rightarrow> u32 set" where
  "ibs V = {IBLOCK i |i. unat i < unat (sb_ninodes (fsb V))}"

definition meta :: "(u32 \<Rightarrow> bytes) \<Rightarrow> u32 set" where
  "meta V = insert 1 (bmbs V \<union> ibs V)"

definition fs_ok :: "u32 set \<Rightarrow> (u32 \<Rightarrow> bytes) \<Rightarrow> bool" where
  "fs_ok A V \<longleftrightarrow> unat (sb_size (fsb V)) + BPB < 2 ^ 31 \<and> meta V \<inter> A = {}
     \<and> 1 \<notin> bmbs V \<and> 1 \<notin> ibs V \<and> bmbs V \<inter> ibs V = {}
     \<and> free V \<inter> meta V = {} \<and> free V \<inter> A = {} \<and> 0 \<notin> free V"

lemma fs_okD:
  assumes "fs_ok A V"
  shows "unat (sb_size (fsb V)) + BPB < 2 ^ 31" "1 \<notin> A" "1 \<notin> bmbs V" "1 \<notin> ibs V" "bmbs V \<inter> ibs V = {}"
    "b \<in> bmbs V \<Longrightarrow> b \<notin> A" "b \<in> ibs V \<Longrightarrow> b \<notin> A" "b \<in> free V \<Longrightarrow> b \<notin> A \<and> b \<notin> meta V \<and> b \<noteq> 0"
  using assms by (auto simp: fs_ok_def meta_def)

lemma bmb_in: "unat b < unat (sb_size (fsb V)) \<Longrightarrow> bmb V b \<in> bmbs V"
  by (auto simp: bmbs_def)

text \<open>The layout depends on the super block only.\<close>

lemma layout_cong:
  assumes "V' 1 = V 1"
  shows "fsb V' = fsb V" "bmb V' = bmb V" "bmbs V' = bmbs V" "ibs V' = ibs V" "meta V' = meta V"
  using assms by (simp_all add: fsb_def bmb_def fun_eq_iff bmbs_def ibs_def meta_def)

lemma free_cong:
  assumes "V' 1 = V 1" "\<And>b. b \<in> bmbs V \<Longrightarrow> V' b = V b"
  shows "free V' = free V"
  using assms(2) [OF bmb_in] by (auto simp: free_def used_def layout_cong [of V' V, OF assms(1)])

lemma fs_ok_free:
  assumes "fs_ok A V" "V' 1 = V 1" "free V' \<subseteq> free V"
  shows "fs_ok A V'"
  using assms(1,3) unfolding fs_ok_def layout_cong [of V' V, OF assms(2)] by blast

lemma fs_ok_cong: "fs_ok A V \<Longrightarrow> V' 1 = V 1 \<Longrightarrow> (\<And>b. b \<in> bmbs V \<Longrightarrow> V' b = V b) \<Longrightarrow> fs_ok A V'"
  using fs_ok_free [of A V V'] free_cong [of V' V] by simp

lemma free_mark:
  assumes V': "V' 1 = V 1" "V' (bmb V b) = bm_set (unat b mod BPB) (V (bmb V b))" "\<And>c. c \<in> bmbs V \<Longrightarrow> c \<noteq> bmb V b \<Longrightarrow> V' c = V c"
    and len: "length (V (bmb V b)) = BSIZE"
  shows "free V' = free V - {b}"
proof -
  have i: "unat b mod BPB div 8 < length (V (bmb V b))"
  proof -
    have "unat b mod BPB < BPB" by (simp add: BPB_val)
    then show ?thesis using len by (simp add: BPB_def less_mult_imp_div_less)
  qed
  have "used V' c \<longleftrightarrow> c = b \<or> used V c" if "unat c < unat (sb_size (fsb V))" for c
  proof (cases "bmb V c = bmb V b")
    case True
    then show ?thesis using same_bit_iff [of V c b] bm_bit_set [OF i] V'(2)
      by (auto simp: used_def layout_cong [of V' V, OF V'(1)])
  next
    case False
    then show ?thesis using V'(3) [OF bmb_in [OF that]] by (auto simp: used_def layout_cong [of V' V, OF V'(1)])
  qed
  then show ?thesis by (auto simp: free_def layout_cong [of V' V, OF V'(1)])
qed

lemma free_unmark:
  assumes V': "V' 1 = V 1" "V' (bmb V b) = bm_clear (unat b mod BPB) (V (bmb V b))" "\<And>c. c \<in> bmbs V \<Longrightarrow> c \<noteq> bmb V b \<Longrightarrow> V' c = V c"
    and len: "length (V (bmb V b)) = BSIZE" and b: "unat b < unat (sb_size (fsb V))"
  shows "free V' = insert b (free V)"
proof -
  have i: "unat b mod BPB div 8 < length (V (bmb V b))"
  proof -
    have "unat b mod BPB < BPB" by (simp add: BPB_val)
    then show ?thesis using len by (simp add: BPB_def less_mult_imp_div_less)
  qed
  have "used V' c \<longleftrightarrow> c \<noteq> b \<and> used V c" if "unat c < unat (sb_size (fsb V))" for c
  proof (cases "bmb V c = bmb V b")
    case True
    then show ?thesis using same_bit_iff [of V c b] bm_bit_clear [OF i] V'(2)
      by (auto simp: used_def layout_cong [of V' V, OF V'(1)])
  next
    case False
    then show ?thesis using V'(3) [OF bmb_in [OF that]] by (auto simp: used_def layout_cong [of V' V, OF V'(1)])
  qed
  then show ?thesis using b by (auto simp: free_def layout_cong [of V' V, OF V'(1)])
qed


subsection \<open>Reading the super block, zeroing a block\<close>

lemma readsb_tx:
  assumes "tx A H L V s" "1 \<notin> A" "1 \<notin> H" "card (H \<union> L) < NBUF"
    and "\<And>t. tx A H L V t \<Longrightarrow> tx_keeps s t \<Longrightarrow> (\<And>j y. holds s j y \<Longrightarrow> holds t j y) \<Longrightarrow> Q (fsb V) t"
  shows "wp (readsb ROOTDEV) Q s"
  unfolding readsb_def wp_kbind wp_kthen wp_kreturn
  by (rule lt.look [OF assms(1-4)]) (simp add: assms(5) flip: fsb_def)

lemma bzero_tx:
  assumes "tx A H L V s" "in_tx s" "b \<notin> A" "b \<notin> H" "card L < LOGSIZE - 1" "card (insert b (H \<union> L)) < NBUF"
    and "\<And>t. tx A H (insert b L) (V(b := replicate BSIZE 0)) t \<Longrightarrow> tx_keeps s t \<Longrightarrow>
      (\<And>j y. holds s j y \<Longrightarrow> holds t j y) \<Longrightarrow> Q () t"
  shows "wp (bzero ROOTDEV b) Q s"
proof -
  have "card (H \<union> L) \<le> card (insert b (H \<union> L))" using lt.fin_law [OF assms(1)] by (simp add: card_insert_le)
  then have c: "card (H \<union> L) < NBUF" using assms(6) by simp
  show ?thesis
    unfolding bzero_def wp_kbind wp_kthen
  proof (rule lt.rd_rule [OF assms(1,3,4) c])
    fix i t assume t: "tx A (insert b H) L V t" "holds t i b" "tx_keeps s t" "\<And>j y. holds s j y \<Longrightarrow> holds t j y"
    show "wp (buf_store i (replicate BSIZE 0)) (\<lambda>_. wp (log_write i) (\<lambda>_. wp (brelse i) Q)) t"
    proof (rule lt.put_rule [OF t(1) _ t(2) _ assms(5)])
      show "in_tx t" "card (insert b H \<union> L) < NBUF" using lt.keeps_open [OF t(3)] assms(2,6) by simp_all
      fix u assume u: "tx A (insert b H) (insert b L) (V(b := replicate BSIZE 0)) u" "tx_keeps t u"
        "\<And>j y. holds t j y \<Longrightarrow> holds u j y"
      show "wp (brelse i) Q u"
      proof (rule lt.rel_rule [OF u(1) u(3) [OF t(2)]])
        fix v assume v: "tx A (insert b H - {b}) (insert b L) (V(b := replicate BSIZE 0)) v" "tx_keeps u v"
          "\<And>j y. holds u j y \<Longrightarrow> y \<noteq> b \<Longrightarrow> holds v j y"
        have "holds v j y" if "holds s j y" for j y
          using v(3) u(3) t(4) that lt.held_law [OF assms(1) that] assms(4) by blast
        then show "Q () v" using assms(4,7) v(1) tx_keeps_trans [OF tx_keeps_trans [OF t(3) u(2)] v(2)] by simp
      qed
    qed simp
  qed
qed


subsection \<open>Allocating and freeing a block\<close>

declare of_nat_mult [simp del] of_nat_add [simp del]

definition blocks_ok :: "u32 set \<Rightarrow> (u32 \<Rightarrow> bytes) \<Rightarrow> bool" where
  "blocks_ok A V \<longleftrightarrow> (\<forall>x. x \<notin> A \<longrightarrow> length (V x) = BSIZE)"

lemma tx_blocks_ok: "tx A H L V s \<Longrightarrow> blocks_ok A V"
  using lt.len_law [of A H L V s] by (simp add: blocks_ok_def)

definition alloc_view :: "u32 \<Rightarrow> (u32 \<Rightarrow> bytes) \<Rightarrow> (u32 \<Rightarrow> bytes)" where
  "alloc_view b V = V(bmb V b := bm_set (unat b mod BPB) (V (bmb V b)), b := replicate BSIZE 0)"

lemma alloc_view_facts:
  assumes ok: "fs_ok A V" and b: "b \<in> free V" and len: "blocks_ok A V"
  shows "alloc_view b V 1 = V 1" "free (alloc_view b V) = free V - {b}" "fs_ok A (alloc_view b V)"
    "alloc_view b V b = replicate BSIZE 0" "x \<noteq> b \<Longrightarrow> x \<noteq> bmb V b \<Longrightarrow> alloc_view b V x = V x"
    "bmb V b \<in> bmbs V" "bmb V b \<noteq> b" "meta (alloc_view b V) = meta V"
proof -
  have bb: "bmb V b \<in> bmbs V" using b by (intro bmb_in) (simp add: free_def)
  then show "bmb V b \<in> bmbs V" .
  have nb: "b \<notin> meta V" using fs_okD(8) [OF ok b] by blast
  then have ne: "b \<noteq> 1" "\<And>c. c \<in> bmbs V \<Longrightarrow> c \<noteq> b" by (auto simp: meta_def)
  then show "bmb V b \<noteq> b" using bb by blast
  have "bmb V b \<noteq> 1" using bb fs_okD(3) [OF ok] by auto
  then show one: "alloc_view b V 1 = V 1" using ne by (simp add: alloc_view_def)
  show "alloc_view b V b = replicate BSIZE 0" "x \<noteq> b \<Longrightarrow> x \<noteq> bmb V b \<Longrightarrow> alloc_view b V x = V x"
    by (simp_all add: alloc_view_def)
  show fr: "free (alloc_view b V) = free V - {b}"
  proof (rule free_mark [of "alloc_view b V" V, OF one])
    show "length (V (bmb V b)) = BSIZE" using len fs_okD(6) [OF ok bb] by (simp add: blocks_ok_def)
  qed (use ne(2) [OF bb] ne(2) in \<open>auto simp: alloc_view_def\<close>)
  show "fs_ok A (alloc_view b V)" using fs_ok_free [of A V "alloc_view b V", OF ok one] fr by auto
  show "meta (alloc_view b V) = meta V" by (rule layout_cong(5) [of "alloc_view b V" V, OF one])
qed

lemma block_of_group:
  assumes "BPB * k + bi < 2 ^ 31" "bi < BPB"
  shows "unat (of_nat (BPB * k + bi) :: u32) = BPB * k + bi"
    "bmb V (of_nat (BPB * k + bi)) = bmb V (of_nat (BPB * k))" "unat (of_nat (BPB * k + bi) :: u32) mod BPB = bi"
proof -
  show u: "unat (of_nat (BPB * k + bi) :: u32) = BPB * k + bi" by (rule unat_of_nat_u32) (use assms in simp)
  have v: "unat (of_nat (BPB * k) :: u32) = BPB * k" by (rule unat_of_nat_u32) (use assms in simp)
  have "(BPB * k + bi) div BPB = k" "BPB * k div BPB = k" "(BPB * k + bi) mod BPB = bi"
    using assms(2) by simp_all
  then show "bmb V (of_nat (BPB * k + bi)) = bmb V (of_nat (BPB * k))" "unat (of_nat (BPB * k + bi) :: u32) mod BPB = bi"
    unfolding bmb_eq_iff u v by simp_all
qed

lemma group_of_block: "unat (b :: u32) = BPB * (unat b div BPB) + unat b mod BPB"
  by simp

lemma card_room:
  assumes "finite H" "finite L" "card H + card L + n \<le> 9" "card X \<le> n" "finite X"
  shows "card (X \<union> (H \<union> L)) < NBUF"
  using assms card_Un_le [of X "H \<union> L"] card_Un_le [of H L] by (simp add: NBUF_def)

lemma card_without2: "card (insert a (insert b X)) \<le> 9 \<Longrightarrow> card X < NBUF"
  using card_insert_le [of X b] card_insert_le [of "insert b X" a] by (simp add: NBUF_def)

lemma balloc_found:
  assumes s: "tx A (insert (bmb V b) H) L V s" "in_tx s" "holds s i (bmb V b)" and ok: "fs_ok A V" and b: "b \<in> free V"
    and H: "H \<inter> meta V = {}" "H \<inter> free V = {}"
    and n: "card (insert (bmb V b) L) \<le> 8" "card (insert b (insert (bmb V b) (H \<union> L))) \<le> 9"
    and Q: "\<And>t. tx A H (insert b (insert (bmb V b) L)) (alloc_view b V) t \<Longrightarrow> tx_keeps s t \<Longrightarrow>
      (\<And>j y. holds s j y \<Longrightarrow> y \<noteq> bmb V b \<Longrightarrow> holds t j y) \<Longrightarrow> Q b t"
  shows "wp (buf_store i (bm_set (unat b mod BPB) (V (bmb V b)))) (\<lambda>_. wp (log_write i) (\<lambda>_. wp (brelse i)
    (\<lambda>_. wp (bzero ROOTDEV b) (\<lambda>_. Q b)))) s"
proof -
  let ?m = "bmb V b"
  have len: "length (V x) = BSIZE" if "x \<notin> A" for x using lt.len_law [OF s(1) that] .
  note F = alloc_view_facts [OF ok b tx_blocks_ok [OF s(1)]]
  have mA: "?m \<notin> A" "?m \<notin> H" using fs_okD(6) [OF ok F(6)] F(6) H(1) by (auto simp: meta_def)
  have bA: "b \<notin> A" "b \<notin> H" using fs_okD(8) [OF ok b] b H(2) by auto
  have fin: "finite H" "finite L" using lt.fin_law [OF s(1)] by auto
  have c: "card (insert ?m (H \<union> L)) \<le> card (insert b (insert ?m (H \<union> L)))" "card L \<le> card (insert ?m L)"
    by (rule card_insert_le)+
  have c1: "card (insert ?m H \<union> L) < NBUF" using c(1) n(2) by (simp add: NBUF_def)
  have c2: "card L < LOGSIZE - 1" "card (insert ?m L) < LOGSIZE - 1" using c(2) n(1) by (simp_all add: LOGSIZE_def)
  have c4: "card (insert b (H \<union> insert ?m L)) < NBUF" using n(2) by (simp add: NBUF_def)
  show ?thesis
  proof (rule lt.put_rule [OF s _ c2(1) c1])
    show "length (bm_set (unat b mod BPB) (V ?m)) = BSIZE" using len [OF mA(1)] by simp
    fix t assume t: "tx A (insert ?m H) (insert ?m L) (V(?m := bm_set (unat b mod BPB) (V ?m))) t" "tx_keeps s t"
      "\<And>j y. holds s j y \<Longrightarrow> holds t j y"
    show "wp (brelse i) (\<lambda>_. wp (bzero ROOTDEV b) (\<lambda>_. Q b)) t"
    proof (rule lt.rel_rule [OF t(1) t(3) [OF s(3)]])
      fix u assume "tx A (insert ?m H - {?m}) (insert ?m L) (V(?m := bm_set (unat b mod BPB) (V ?m))) u"
        and ku: "tx_keeps t u" and hu: "\<And>j y. holds t j y \<Longrightarrow> y \<noteq> ?m \<Longrightarrow> holds u j y"
      then have u: "tx A H (insert ?m L) (V(?m := bm_set (unat b mod BPB) (V ?m))) u" using mA(2) by simp
      have "in_tx u" using lt.keeps_open [OF ku] lt.keeps_open [OF t(2)] s(2) by simp
      then show "wp (bzero ROOTDEV b) (\<lambda>_. Q b) u"
      proof (rule bzero_tx [OF u _ bA c2(2) c4])
        fix v assume v: "tx A H (insert b (insert ?m L)) (V(?m := bm_set (unat b mod BPB) (V ?m), b := replicate BSIZE 0)) v"
          "tx_keeps u v" "\<And>j y. holds u j y \<Longrightarrow> holds v j y"
        show "Q b v"
          by (rule Q) (use v t(3) hu tx_keeps_trans [OF tx_keeps_trans [OF t(2) ku]] in \<open>auto simp: alloc_view_def\<close>)
      qed
    qed
  qed
qed

text \<open>
  The scan finds the first free block. \<open>b0\<close> is that block; the log and the cache must have room for it and
  for the block of the bitmap that it is in.
\<close>

lemma first_in_group:
  assumes f: "find (\<lambda>bi. \<not> bm_bit (V (bmb V (of_nat (BPB * k)))) bi) [0..<min BPB (unat (sb_size (fsb V)) - BPB * k)] = Some bi"
    and lt: "unat (sb_size (fsb V)) + BPB < 2 ^ 31" and b0: "b0 \<in> free V" "unat b0 div BPB = k" "\<forall>b \<in> free V. b0 \<le> b"
  shows "unat b0 = BPB * k + bi"
proof -
  let ?sz = "unat (sb_size (fsb V))" and ?r = "unat b0 mod BPB"
  from f obtain i where i: "i < min BPB (?sz - BPB * k)" "bi = i" "\<not> bm_bit (V (bmb V (of_nat (BPB * k)))) bi"
    "\<forall>j < i. bm_bit (V (bmb V (of_nat (BPB * k)))) j" by (auto simp: find_Some_iff)
  have u: "unat b0 = BPB * k + ?r" using group_of_block [of b0] b0(2) by simp
  have bi: "BPB * k + bi < ?sz" "bi < BPB" using i(1,2) by linarith+
  then have k: "BPB * k < ?sz" by linarith
  have ug: "unat (of_nat (BPB * k) :: u32) = BPB * k" by (rule unat_of_nat_u32) (use k lt in simp)
  have "bmb V b0 = bmb V (of_nat (BPB * k))" unfolding bmb_eq_iff ug b0(2) by (simp add: BPB_val)
  then have r: "\<not> bm_bit (V (bmb V (of_nat (BPB * k)))) ?r" using b0(1) by (simp add: free_def used_def)
  have G: "unat (of_nat (BPB * k + bi) :: u32) = BPB * k + bi" "bmb V (of_nat (BPB * k + bi)) = bmb V (of_nat (BPB * k))"
    "unat (of_nat (BPB * k + bi) :: u32) mod BPB = bi" using block_of_group [of k bi] bi lt by simp_all
  then have "of_nat (BPB * k + bi) \<in> free V" using bi i(3) by (simp add: free_def used_def)
  then have "b0 \<le> of_nat (BPB * k + bi)" using b0(3) by blast
  then have "?r \<le> bi" using G(1) u by (simp add: word_le_nat_alt)
  then show ?thesis using i(2,4) r u by (cases "?r = bi") auto
qed

lemma balloc_scan_tx:
  assumes s: "tx A H L V s" "in_tx s" and ok: "fs_ok A V"
    and H: "H \<inter> meta V = {}" "H \<inter> free V = {}"
    and b0: "b0 \<in> free V" "\<forall>b \<in> free V. b0 \<le> b"
    and n: "card (insert (bmb V b0) L) \<le> 8" "card (insert b0 (insert (bmb V b0) (H \<union> L))) \<le> 9"
    and ks: "\<And>k. k \<in> set ks \<Longrightarrow> BPB * k < unat (sb_size (fsb V))" "unat b0 div BPB \<in> set ks" "sorted ks"
    and Q: "\<And>t. tx A H (insert b0 (insert (bmb V b0) L)) (alloc_view b0 V) t \<Longrightarrow> tx_keeps s t \<Longrightarrow>
      (\<And>j y. holds s j y \<Longrightarrow> holds t j y) \<Longrightarrow> Q b0 t"
  shows "wp (balloc_scan ROOTDEV (fsb V) (map (\<lambda>k. BPB * k) ks)) Q s"
  using s ks Q
proof (induction ks arbitrary: s)
  case Nil
  then show ?case by simp
next
  case (Cons k ks)
  let ?sz = "unat (sb_size (fsb V))" and ?g = "of_nat (BPB * k) :: u32"
  have lt: "BPB * k < ?sz" "?sz + BPB < 2 ^ 31" using Cons.prems(3) fs_okD(1) [OF ok] by simp_all
  have ug: "unat ?g = BPB * k" by (rule unat_of_nat_u32) (use lt in simp)
  have gb: "bmb V ?g \<in> bmbs V" using lt ug by (intro bmb_in) simp
  then have gA: "bmb V ?g \<notin> A" "bmb V ?g \<notin> H" using fs_okD(6) [OF ok] H(1) by (auto simp: meta_def)
  have fin: "finite H" "finite L" using lt.fin_law [OF Cons.prems(1)] by auto
  have c: "card (H \<union> L) < NBUF" by (rule card_without2 [OF n(2)])
  let ?f = "find (\<lambda>bi. \<not> bm_bit (V (bmb V ?g)) bi) [0..<min BPB (?sz - BPB * k)]"
  show ?case
    unfolding list.map balloc_scan.simps wp_kbind bmb_def [symmetric]
  proof (rule lt.rd_rule [OF Cons.prems(1) gA c], rule lt.dat_rule, assumption, assumption)
    fix i t assume t: "tx A (insert (bmb V ?g) H) L V t" "holds t i (bmb V ?g)" "tx_keeps s t"
      "\<And>j y. holds s j y \<Longrightarrow> holds t j y"
    have it: "in_tx t" using lt.keeps_open [OF t(3)] Cons.prems(2) by simp
    show "wp (case ?f of
        None \<Rightarrow> kthen (brelse i) (if 2 ^ 31 \<le> BPB * k + BPB then kundef else balloc_scan ROOTDEV (fsb V) (map ((*) BPB) ks))
      | Some bi \<Rightarrow> kthen (buf_store i (bm_set bi (V (bmb V ?g)))) (kthen (log_write i) (kthen (brelse i)
          (kthen (bzero ROOTDEV (of_nat (BPB * k + bi))) (kreturn (of_nat (BPB * k + bi))))))) Q t"
    proof (cases ?f)
      case (Some bi)
      then have bi: "bi < BPB" "BPB * k + bi < ?sz" "\<not> bm_bit (V (bmb V ?g)) bi"
        using find_SomeD [OF Some] by (auto simp del: of_nat_mult)
      let ?b = "of_nat (BPB * k + bi) :: u32"
      have G: "unat ?b = BPB * k + bi" "bmb V ?b = bmb V ?g" "unat ?b mod BPB = bi"
        using block_of_group [of k bi] bi lt by simp_all
      have fb: "?b \<in> free V" using G bi by (simp add: free_def used_def)
      have "b0 \<le> ?b" using b0(2) fb by blast
      then have "unat b0 div BPB \<le> k" using div_le_mono [of "unat b0" "unat ?b" BPB] G(1) bi(1) by (simp add: word_le_nat_alt BPB_val)
      moreover have "k \<le> unat b0 div BPB" using Cons.prems(4,5) by auto
      ultimately have "unat b0 = unat ?b" using first_in_group [OF Some lt(2) b0(1) _ b0(2)] G(1) by simp
      then have e: "?b = b0" by (simp add: word_unat_eq_iff)
      have t': "tx A (insert (bmb V ?b) H) L V t" "holds t i (bmb V ?b)" using t(1,2) G(2) by simp_all
      have "wp (buf_store i (bm_set (unat ?b mod BPB) (V (bmb V ?b)))) (\<lambda>_. wp (log_write i) (\<lambda>_. wp (brelse i)
          (\<lambda>_. wp (bzero ROOTDEV ?b) (\<lambda>_. Q ?b)))) t"
      proof (rule balloc_found [OF t'(1) it t'(2) ok fb H], use n e in simp, use n e in simp)
        fix u assume u: "tx A H (insert ?b (insert (bmb V ?b) L)) (alloc_view ?b V) u" "tx_keeps t u"
          "\<And>j y. holds t j y \<Longrightarrow> y \<noteq> bmb V ?b \<Longrightarrow> holds u j y"
        show "Q ?b u"
          unfolding e
        proof (rule Cons.prems(6) [OF u(1) [unfolded e] tx_keeps_trans [OF t(3) u(2)]])
          show "holds u j y" if "holds s j y" for j y
            using u(3) [OF t(4) [OF that]] lt.held_law [OF Cons.prems(1) that] gA(2) G(2) by metis
        qed
      qed
      then show ?thesis using G by (simp add: Some)
    next
      case None
      have no: "unat b div BPB \<noteq> k" if "b \<in> free V" for b
      proof
        assume k: "unat b div BPB = k"
        have b: "unat b = BPB * k + unat b mod BPB" using group_of_block [of b] k by simp
        have "bmb V b = bmb V ?g" unfolding bmb_eq_iff ug k by (simp add: BPB_val)
        moreover have "unat b mod BPB < min BPB (?sz - BPB * k)"
          using b that by (auto simp: free_def BPB_val)
        ultimately show False using None that by (auto simp: free_def used_def find_None_iff)
      qed
      have g: "\<not> 2 ^ 31 \<le> BPB * k + BPB" using lt by simp
      show ?thesis
        unfolding None option.case wp_kthen if_not_P [OF g]
      proof (rule lt.rel_rule [OF t(1,2)])
        fix u assume u: "tx A (insert (bmb V ?g) H - {bmb V ?g}) L V u" "tx_keeps t u"
          "\<And>j y. holds t j y \<Longrightarrow> y \<noteq> bmb V ?g \<Longrightarrow> holds u j y"
        have "holds u j y" if "holds s j y" for j y
          using u(3) [OF t(4) [OF that]] lt.held_law [OF Cons.prems(1) that] gA(2) by metis
        then show "wp (balloc_scan ROOTDEV (fsb V) (map ((*) BPB) ks)) Q u"
          using u(1) gA(2) lt.keeps_open [OF u(2)] it Cons.prems(3-5) no [OF b0(1)] tx_keeps_trans [OF tx_keeps_trans [OF t(3) u(2)]]
          by (intro Cons.IH) (auto intro: Cons.prems(6))
      qed
    qed
  qed
qed

definition first_free :: "(u32 \<Rightarrow> bytes) \<Rightarrow> u32" where
  "first_free V = Min (free V)"

lemma first_free: "free V \<noteq> {} \<Longrightarrow> first_free V \<in> free V" "b \<in> free V \<Longrightarrow> first_free V \<le> b"
  by (auto simp: first_free_def)

lemma balloc_tx:
  assumes s: "tx A H L V s" "in_tx s" and ok: "fs_ok A V" and b0: "b0 = first_free V"
    and H: "H \<inter> meta V = {}" "H \<inter> free V = {}" and fr: "free V \<noteq> {}"
    and n: "card (insert (bmb V b0) L) \<le> 8" "card (insert b0 (insert (bmb V b0) (H \<union> L))) \<le> 9"
    and Q: "\<And>t. tx A H (insert b0 (insert (bmb V b0) L)) (alloc_view b0 V) t \<Longrightarrow> tx_keeps s t \<Longrightarrow>
      (\<And>j y. holds s j y \<Longrightarrow> holds t j y) \<Longrightarrow> Q b0 t"
  shows "wp (balloc ROOTDEV) Q s"
proof -
  have fin: "finite H" "finite L" using lt.fin_law [OF s(1)] by auto
  have c: "card (H \<union> L) < NBUF" by (rule card_without2 [OF n(2)])
  note b = first_free(1) [OF fr, folded b0]
  let ?sz = "unat (sb_size (fsb V))"
  show ?thesis
    unfolding balloc_def wp_kbind
  proof (rule readsb_tx [OF s(1) fs_okD(2) [OF ok] _ c])
    show "1 \<notin> H" using H(1) by (auto simp: meta_def)
    fix t assume t: "tx A H L V t" "tx_keeps s t" "\<And>j y. holds s j y \<Longrightarrow> holds t j y"
    show "wp (balloc_scan ROOTDEV (fsb V) (map ((*) BPB) [0..<(?sz + BPB - 1) div BPB])) Q t"
    proof (rule balloc_scan_tx [OF t(1) _ ok H b _ n])
      show "\<forall>b \<in> free V. b0 \<le> b" using first_free(2) b0 by blast
      show "sorted [0..<(?sz + BPB - 1) div BPB]" by simp
      show "in_tx t" using lt.keeps_open [OF t(2)] s(2) by simp
      show "BPB * k < ?sz" if "k \<in> set [0..<(?sz + BPB - 1) div BPB]" for k
      proof -
        have "(k + 1) * BPB \<le> (?sz + BPB - 1) div BPB * BPB" using that by (intro mult_le_mono1) simp
        also have "\<dots> \<le> ?sz + BPB - 1" by simp
        finally show ?thesis by (simp add: BPB_val)
      qed
      have "unat b0 div BPB < (?sz + BPB - 1) div BPB"
      proof -
        have "unat b0 + BPB \<le> ?sz + BPB - 1" using b by (auto simp: free_def)
        then have "(unat b0 + BPB) div BPB \<le> (?sz + BPB - 1) div BPB" by (rule div_le_mono)
        then show ?thesis by (simp add: BPB_val)
      qed
      then show "unat b0 div BPB \<in> set [0..<(?sz + BPB - 1) div BPB]" by simp
    qed (use Q t tx_keeps_trans [OF t(2)] in blast)
  qed
qed

declare of_nat_mult [simp] of_nat_add [simp]

definition free_view :: "u32 \<Rightarrow> (u32 \<Rightarrow> bytes) \<Rightarrow> (u32 \<Rightarrow> bytes)" where
  "free_view b V = V(bmb V b := bm_clear (unat b mod BPB) (V (bmb V b)))"

lemma bfree_tx:
  assumes s: "tx A H L V s" "in_tx s" and ok: "fs_ok A V" and b: "unat b < unat (sb_size (fsb V))" "used V b"
    and H: "1 \<notin> H" "bmb V b \<notin> H" and n: "card L < LOGSIZE - 1" "card (insert (bmb V b) (H \<union> L)) < NBUF"
    and Q: "\<And>t. tx A H (insert (bmb V b) L) (free_view b V) t \<Longrightarrow> tx_keeps s t \<Longrightarrow>
      (\<And>j y. holds s j y \<Longrightarrow> holds t j y) \<Longrightarrow> Q () t"
  shows "wp (bfree ROOTDEV b) Q s"
proof -
  let ?m = "bmb V b"
  have m: "?m \<notin> A" using fs_okD(6) [OF ok bmb_in [OF b(1)]] .
  have "card (H \<union> L) \<le> card (insert ?m (H \<union> L))" using lt.fin_law [OF s(1)] by (simp add: card_insert_le)
  then have c: "card (H \<union> L) < NBUF" using n(2) by simp
  have bit: "\<not> \<not> bm_bit (V ?m) (unat b mod BPB)" using b(2) by (simp add: used_def)
  show ?thesis
    unfolding bfree_def wp_kbind
  proof (rule readsb_tx [OF s(1) fs_okD(2) [OF ok] H(1) c])
    fix t assume t: "tx A H L V t" "tx_keeps s t" "\<And>j y. holds s j y \<Longrightarrow> holds t j y"
    have it: "in_tx t" using lt.keeps_open [OF t(2)] s(2) by simp
    show "wp (bread ROOTDEV (BBLOCK b (sb_ninodes (fsb V)))) (\<lambda>bp. wp (buf_data bp) (\<lambda>d.
        wp (let bi = unat b mod BPB in if \<not> bm_bit d bi then kpanic ''freeing free block''
            else kthen (buf_store bp (bm_clear bi d)) (kthen (log_write bp) (brelse bp))) Q)) t"
      unfolding bmb_def [symmetric] Let_def
    proof (rule lt.rd_rule [OF t(1) m H(2) c], rule lt.dat_rule, assumption, assumption)
      fix i u assume u: "tx A (insert ?m H) L V u" "holds u i ?m" "tx_keeps t u" "\<And>j y. holds t j y \<Longrightarrow> holds u j y"
      have iu: "in_tx u" using lt.keeps_open [OF u(3)] it by simp
      show "wp (if \<not> bm_bit (V ?m) (unat b mod BPB) then kpanic ''freeing free block''
          else kthen (buf_store i (bm_clear (unat b mod BPB) (V ?m))) (kthen (log_write i) (brelse i))) Q u"
        unfolding if_not_P [OF bit] wp_kthen
      proof (rule lt.put_rule [OF u(1) iu u(2) _ n(1)])
        show "length (bm_clear (unat b mod BPB) (V ?m)) = BSIZE" using lt.len_law [OF s(1) m] by simp
        show "card (insert ?m H \<union> L) < NBUF" using n(2) by simp
        fix v assume v: "tx A (insert ?m H) (insert ?m L) (V(?m := bm_clear (unat b mod BPB) (V ?m))) v" "tx_keeps u v"
          "\<And>j y. holds u j y \<Longrightarrow> holds v j y"
        show "wp (brelse i) Q v"
        proof (rule lt.rel_rule [OF v(1) v(3) [OF u(2)]])
          fix w assume w: "tx A (insert ?m H - {?m}) (insert ?m L) (V(?m := bm_clear (unat b mod BPB) (V ?m))) w"
            "tx_keeps v w" "\<And>j y. holds v j y \<Longrightarrow> y \<noteq> ?m \<Longrightarrow> holds w j y"
          have "holds w j y" if "holds s j y" for j y
            using w(3) v(3) u(4) t(3) that lt.held_law [OF s(1) that] H(2) by blast
          then show "Q () w"
            using Q w(1) H(2) tx_keeps_trans [OF tx_keeps_trans [OF t(2) u(3)] tx_keeps_trans [OF v(2) w(2)]]
            by (simp add: free_view_def)
        qed
      qed
    qed
  qed
qed

end
