(* ===== verification/FsTree.thy ===== *)
theory FsTree
  imports FsAlloc
begin

text \<open>
  The blocks of a file as a tree. The thirteen addresses of the inode are slots; the slot 11 is the
  indirect block, whose 128 entries are slots, and the slot 12 the double-indirect block, whose
  entries are indirect blocks. \<open>fdata\<close> is the contents of the file that the tree represents, with
  zeros in the holes. The theory has no program: it shows that filling an empty slot with a fresh
  zeroed block keeps the tree well formed and the contents of the file.
\<close>

datatype slot = Top nat | Sub slot nat

primrec slot_val :: "(u32 \<Rightarrow> bytes) \<Rightarrow> u32 list \<Rightarrow> slot \<Rightarrow> u32" where
  "slot_val V as (Top k) = as ! k"
| "slot_val V as (Sub p k) = (if slot_val V as p = 0 then 0 else get32 (V (slot_val V as p)) (4 * k))"

fun is_slot :: "slot \<Rightarrow> bool" where
  "is_slot (Top k) = (k < NDIRECT + 2)"
| "is_slot (Sub (Top k) j) = ((k = NDIRECT \<or> k = NDIRECT + 1) \<and> j < NINDIRECT)"
| "is_slot (Sub (Sub (Top k) j) j') = (k = NDIRECT + 1 \<and> j < NINDIRECT \<and> j' < NINDIRECT)"
| "is_slot (Sub (Sub (Sub p i) j) k) = False"

fun is_leaf :: "slot \<Rightarrow> bool" where
  "is_leaf (Top k) = (k < NDIRECT)"
| "is_leaf (Sub (Top k) j) = (k = NDIRECT \<and> j < NINDIRECT)"
| "is_leaf (Sub (Sub (Top k) j) j') = (k = NDIRECT + 1 \<and> j < NINDIRECT \<and> j' < NINDIRECT)"
| "is_leaf (Sub (Sub (Sub p i) j) k) = False"

lemma is_leaf_slot: "is_leaf p \<Longrightarrow> is_slot p"
  by (cases p rule: is_leaf.cases) auto

lemma is_slot_parent: "is_slot (Sub p k) \<Longrightarrow> is_slot p \<and> \<not> is_leaf p \<and> k < NINDIRECT"
  by (cases "Sub p k" rule: is_slot.cases) auto

text \<open>The slot of a block of the file.\<close>

definition leaf :: "nat \<Rightarrow> slot" where
  "leaf bn = (if bn < NDIRECT then Top bn
     else if bn - NDIRECT < NINDIRECT then Sub (Top NDIRECT) (bn - NDIRECT)
     else Sub (Sub (Top (NDIRECT + 1)) ((bn - NDIRECT - NINDIRECT) div NINDIRECT))
            ((bn - NDIRECT - NINDIRECT) mod NINDIRECT))"

lemma fs_consts: "NDIRECT = 11" "NINDIRECT = 128" "NDINDIRECT = 16384" "MAXFILE = 16523" "BSIZE = 512" "BPB = 4096" "IPB = 8"
  by (simp_all add: NDIRECT_def NINDIRECT_def NDINDIRECT_def MAXFILE_def BSIZE_def BPB_def IPB_def)

lemma leaf_is_leaf: "bn < MAXFILE \<Longrightarrow> is_leaf (leaf bn)"
proof -
  assume "bn < MAXFILE"
  then have "\<not> bn < 11 \<Longrightarrow> \<not> bn - 11 < 128 \<Longrightarrow> bn - 139 < 128 * 128" by (simp add: fs_consts)
  then have "\<not> bn < 11 \<Longrightarrow> \<not> bn - 11 < 128 \<Longrightarrow> (bn - 139) div 128 < 128" by (rule less_mult_imp_div_less)
  then show ?thesis by (auto simp: leaf_def fs_consts)
qed

lemma leaf_inj: "leaf a = leaf b \<Longrightarrow> a = b"
proof -
  assume l: "leaf a = leaf b"
  show ?thesis
  proof (cases "a < 139 \<or> b < 139")
    case True
    then show ?thesis using l unfolding leaf_def fs_consts by (auto split: if_splits)
  next
    case False
    then have "(a - 139) div 128 = (b - 139) div 128" "(a - 139) mod 128 = (b - 139) mod 128"
      using l unfolding leaf_def fs_consts by (auto split: if_splits)
    then have "a - 139 = b - 139" by (metis div_mult_mod_eq)
    then show ?thesis using False by linarith
  qed
qed

text \<open>The disk block of a block of the file, 0 for a hole.\<close>

definition fblk :: "(u32 \<Rightarrow> bytes) \<Rightarrow> u32 list \<Rightarrow> nat \<Rightarrow> u32" where
  "fblk V as bn = (if bn < MAXFILE then slot_val V as (leaf bn) else 0)"

definition fdata :: "(u32 \<Rightarrow> bytes) \<Rightarrow> u32 list \<Rightarrow> nat \<Rightarrow> u8" where
  "fdata V as off = (if fblk V as (off div BSIZE) = 0 then 0 else V (fblk V as (off div BSIZE)) ! (off mod BSIZE))"

definition tree :: "(u32 \<Rightarrow> bytes) \<Rightarrow> u32 list \<Rightarrow> u32 set" where
  "tree V as = {slot_val V as p |p. is_slot p \<and> slot_val V as p \<noteq> 0}"

definition tree_ok :: "u32 set \<Rightarrow> (u32 \<Rightarrow> bytes) \<Rightarrow> u32 list \<Rightarrow> bool" where
  "tree_ok A V as \<longleftrightarrow> length as = NDIRECT + 2
     \<and> inj_on (slot_val V as) {p. is_slot p \<and> slot_val V as p \<noteq> 0}
     \<and> (\<forall>b \<in> tree V as. b \<notin> A \<and> b \<notin> meta V \<and> b \<notin> free V)"

lemma treeI: "is_slot p \<Longrightarrow> slot_val V as p \<noteq> 0 \<Longrightarrow> slot_val V as p \<in> tree V as"
  by (auto simp: tree_def)

lemma tree_okD:
  assumes "tree_ok A V as"
  shows "length as = NDIRECT + 2"
    "is_slot p \<Longrightarrow> is_slot q \<Longrightarrow> slot_val V as p = slot_val V as q \<Longrightarrow> slot_val V as p \<noteq> 0 \<Longrightarrow> p = q"
    "b \<in> tree V as \<Longrightarrow> b \<notin> A \<and> b \<notin> meta V \<and> b \<notin> free V"
  using assms unfolding tree_ok_def inj_on_def by auto

text \<open>
  \<open>V'\<close> and \<open>as'\<close> are \<open>V\<close> and \<open>as\<close> after the fresh block \<open>b\<close> has been put into the slot \<open>q\<close>.
\<close>

definition fills :: "slot \<Rightarrow> u32 \<Rightarrow> (u32 \<Rightarrow> bytes) \<Rightarrow> u32 list \<Rightarrow> (u32 \<Rightarrow> bytes) \<Rightarrow> u32 list \<Rightarrow> bool" where
  "fills q b V as V' as' \<longleftrightarrow> (case q of
       Top k \<Rightarrow> as' = as[k := b] \<and> V' = alloc_view b V
     | Sub p k \<Rightarrow> as' = as \<and> slot_val V as p \<noteq> 0
         \<and> V' = (alloc_view b V)(slot_val V as p := put32 (V (slot_val V as p)) (4 * k) b))"

lemma get32_zeros: "off + 4 \<le> n \<Longrightarrow> get32 (replicate n 0) off = 0"
  by (simp add: get32_def)

lemma fills_slot_val:
  assumes t: "tree_ok A V as" and ok: "fs_ok A V" and len: "blocks_ok A V"
    and b: "b \<in> free V" and q: "is_slot q" "slot_val V as q = 0" and f: "fills q b V as V' as'" and r: "is_slot r"
  shows "slot_val V' as' r = (if r = q then b else slot_val V as r)"
  using r
proof (induction r)
  case (Top k)
  then show ?case
  proof (cases q)
    case (Top j)
    then show ?thesis using f q(1) tree_okD(1) [OF t] by (auto simp: fills_def nth_list_update)
  next
    case (Sub p j)
    then show ?thesis using f by (simp add: fills_def)
  qed
next
  case (Sub r k)
  note F = alloc_view_facts [OF ok b len]
  have len': "length (V x) = BSIZE" if "x \<notin> A" for x using len that by (simp add: blocks_ok_def)
  note P = is_slot_parent [OF Sub.prems]
  let ?a = "slot_val V as r"
  have IH: "slot_val V' as' r = (if r = q then b else ?a)" using Sub.IH P by blast
  have b0: "b \<noteq> 0" "b \<notin> tree V as" using fs_okD(8) [OF ok b] tree_okD(3) [OF t] b by blast+
  have k: "4 * k + 4 \<le> BSIZE" using P by (simp add: fs_consts)
  show ?case
  proof (cases "r = q")
    case True
    have "V' b = replicate BSIZE 0"
    proof (cases q)
      case (Top j)
      then show ?thesis using f F(4) by (simp add: fills_def)
    next
      case (Sub p j)
      have "slot_val V as p \<noteq> b"
        using f Sub treeI [of p V as] is_slot_parent [of p j] q(1) b0(2) by (auto simp: fills_def)
      then show ?thesis using f F(4) Sub by (simp add: fills_def)
    qed
    then show ?thesis using True IH q(2) b0 get32_zeros [OF k] by auto
  next
    case ne: False
    show ?thesis
    proof (cases "?a = 0")
      case True
      then have "Sub r k \<noteq> q" using f by (auto simp: fills_def)
      then show ?thesis using IH ne True by simp
    next
      case a: False
      then have at: "?a \<in> tree V as" using treeI P by blast
      then have a3: "?a \<notin> A" "?a \<noteq> b" "?a \<noteq> bmb V b" using tree_okD(3) [OF t at] b b0 F(6) by (auto simp: meta_def)
      then have av: "alloc_view b V ?a = V ?a" using F(5) by blast
      show ?thesis
      proof (cases q)
        case (Top j)
        then show ?thesis using IH ne a av f by (simp add: fills_def)
      next
        case q: (Sub p j)
        show ?thesis
        proof (cases "r = p")
          case True
          have j: "4 * j + 4 \<le> BSIZE" using is_slot_parent [of p j] \<open>is_slot q\<close> q by (simp add: fs_consts)
          have "get32 (put32 (V ?a) (4 * j) b) (4 * k) = (if k = j then b else get32 (V ?a) (4 * k))"
            using k j len' [OF a3(1)] get32_put32_other [of "4 * j" "V ?a" "4 * k" b]
            by (cases k j rule: linorder_cases) auto
          moreover have "V' ?a = put32 (V ?a) (4 * j) b" using f q True by (simp add: fills_def)
          moreover have "slot_val V' as' r = ?a" using IH ne by simp
          ultimately show ?thesis using a q True by simp
        next
          case False
          have "slot_val V as p \<noteq> ?a"
            using tree_okD(2) [OF t, of r p] False a P is_slot_parent [of p j] \<open>is_slot q\<close> q by auto
          then have "V' ?a = V ?a" using f q av by (simp add: fills_def)
          moreover have "slot_val V' as' r = ?a" using IH ne by simp
          ultimately show ?thesis using a q False by simp
        qed
      qed
    qed
  qed
qed


text \<open>The tree stays well formed, and the file keeps its contents.\<close>

definition grows :: "u32 set \<Rightarrow> (u32 \<Rightarrow> bytes) \<Rightarrow> u32 list \<Rightarrow> (u32 \<Rightarrow> bytes) \<Rightarrow> u32 list \<Rightarrow> bool" where
  "grows A V as V' as' \<longleftrightarrow> fs_ok A V' \<and> tree_ok A V' as' \<and> V' 1 = V 1 \<and> free V' \<subseteq> free V
     \<and> fdata V' as' = fdata V as
     \<and> (\<forall>p. is_slot p \<longrightarrow> slot_val V as p \<noteq> 0 \<longrightarrow> slot_val V' as' p = slot_val V as p)
     \<and> tree V' as' \<subseteq> tree V as \<union> free V
     \<and> (\<forall>x. x \<notin> tree V as \<longrightarrow> x \<notin> free V \<longrightarrow> x \<notin> bmbs V \<longrightarrow> V' x = V x)"

lemma grows_refl: "fs_ok A V \<Longrightarrow> tree_ok A V as \<Longrightarrow> grows A V as V as"
  by (simp add: grows_def)

lemma grows_trans:
  assumes "grows A V as V' as'" "grows A V' as' V'' as''"
  shows "grows A V as V'' as''"
proof -
  have "bmbs V' = bmbs V" using assms(1) layout_cong(3) [of V' V] by (simp add: grows_def)
  then show ?thesis using assms unfolding grows_def by (auto 0 3)
qed

lemma finite_free: "finite (free V)"
  by (rule finite)

lemma fills_grows:
  assumes t: "tree_ok A V as" and ok: "fs_ok A V" and len: "blocks_ok A V"
    and b: "b \<in> free V" and q: "is_slot q" "slot_val V as q = 0" and f: "fills q b V as V' as'"
  shows "grows A V as V' as'" "slot_val V' as' q = b" "b \<noteq> 0" "free V' = free V - {b}"
proof -
  note F = alloc_view_facts [OF ok b len] and S = fills_slot_val [OF t ok len b q f]
  show b0: "b \<noteq> 0" and sq: "slot_val V' as' q = b" using fs_okD(8) [OF ok b] S [OF q(1)] by auto
  have bt: "b \<notin> tree V as" using tree_okD(3) [OF t] b by blast
  text \<open>the address block that has been changed, if any\<close>
  have chg: "V' x = V x" if "x \<noteq> b" "x \<noteq> bmb V b" "\<And>p k. q = Sub p k \<Longrightarrow> x \<noteq> slot_val V as p" for x
    using that f F(5) by (cases q) (auto simp: fills_def)
  have pt: "slot_val V as p \<in> tree V as \<and> \<not> is_leaf p" if "q = Sub p k" for p k
    using that f is_slot_parent [of p k] q(1) treeI by (auto simp: fills_def)
  have meta_ok: "V' x = V x" if "x \<in> meta V" "x \<noteq> bmb V b" for x
    using that pt tree_okD(3) [OF t] fs_okD(8) [OF ok b] by (intro chg) blast+
  have bm: "V' (bmb V b) = bm_set (unat b mod BPB) (V (bmb V b))"
    using f F(6,7) pt tree_okD(3) [OF t] by (cases q) (auto simp: fills_def alloc_view_def meta_def)
  have "bmb V b \<noteq> 1" using F(6) fs_okD(3) [OF ok] by auto
  then have one: "V' 1 = V 1" using meta_ok [of 1] by (simp add: meta_def)
  show fr: "free V' = free V - {b}"
    by (rule free_mark [of V' V, OF one bm]) (use meta_ok len fs_okD(6) [OF ok F(6)] in \<open>auto simp: meta_def blocks_ok_def\<close>)
  have ok': "fs_ok A V'" using fs_ok_free [of A V V', OF ok one] fr by blast
  have mt: "meta V' = meta V" by (rule layout_cong(5) [of V' V, OF one])
  have tr: "tree V' as' \<subseteq> insert b (tree V as)" using S by (auto simp: tree_def split: if_splits)
  have "inj_on (slot_val V' as') {p. is_slot p \<and> slot_val V' as' p \<noteq> 0}"
  proof (rule inj_onI)
    fix p r assume "p \<in> {p. is_slot p \<and> slot_val V' as' p \<noteq> 0}" "r \<in> {p. is_slot p \<and> slot_val V' as' p \<noteq> 0}"
      and e: "slot_val V' as' p = slot_val V' as' r"
    then have p: "is_slot p" "is_slot r" "slot_val V' as' p \<noteq> 0" "slot_val V' as' r \<noteq> 0" by auto
    show "p = r"
      using p e tree_okD(2) [OF t p(1,2)] S [OF p(1)] S [OF p(2)] bt treeI [OF p(1), of V as] treeI [OF p(2), of V as]
      by (auto split: if_splits)
  qed
  moreover have "length as' = NDIRECT + 2" using f tree_okD(1) [OF t] by (cases q) (auto simp: fills_def)
  moreover have "x \<notin> A \<and> x \<notin> meta V' \<and> x \<notin> free V'" if "x \<in> tree V' as'" for x
    using that tr tree_okD(3) [OF t, of x] fs_okD(8) [OF ok b] unfolding fr mt by blast
  ultimately have "tree_ok A V' as'" by (simp add: tree_ok_def)
  moreover have "fdata V' as' off = fdata V as off" for off
  proof (cases "off div BSIZE < MAXFILE")
    case True
    let ?l = "leaf (off div BSIZE)" let ?a = "slot_val V as ?l"
    have l: "is_leaf ?l" "is_slot ?l" using leaf_is_leaf [OF True] is_leaf_slot by blast+
    show ?thesis
    proof (cases "?a = 0")
      case z: True
      have "slot_val V' as' ?l = b \<and> ?l = q \<or> slot_val V' as' ?l = 0" using S [OF l(2)] z by auto
      moreover have "V' b = replicate BSIZE 0"
        using f F(4) pt bt by (cases q) (auto simp: fills_def)
      ultimately show ?thesis using True z by (auto simp: fdata_def fblk_def fs_consts)
    next
      case nz: False
      have at: "?a \<in> tree V as" using treeI l nz by blast
      have "V' ?a = V ?a"
      proof (rule chg)
        show "?a \<noteq> b" "?a \<noteq> bmb V b" using at bt tree_okD(3) [OF t at] F(6) by (auto simp: meta_def)
        show "?a \<noteq> slot_val V as p" if "q = Sub p k" for p k
        proof
          assume e: "?a = slot_val V as p"
          have "is_slot p" using is_slot_parent [of p k] q(1) that by blast
          then have "?l = p" using tree_okD(2) [OF t l(2) _ e nz] by blast
          then show False using pt [OF that] l(1) by blast
        qed
      qed
      moreover have "slot_val V' as' ?l = ?a" using S [OF l(2)] q(2) nz by auto
      ultimately show ?thesis using True nz by (simp add: fdata_def fblk_def)
    qed
  qed (simp add: fdata_def fblk_def)
  moreover have "V' x = V x" if "x \<notin> tree V as" "x \<notin> free V" "x \<notin> bmbs V" for x
    using that b F(6) pt by (intro chg) blast+
  moreover have "slot_val V' as' p = slot_val V as p" if "is_slot p" "slot_val V as p \<noteq> 0" for p
    using S [OF that(1)] that(2) q(2) by auto
  ultimately show "grows A V as V' as'"
    using ok' one fr tr b unfolding grows_def by blast
qed


subsection \<open>The blocks a transaction may log\<close>

text \<open>
  To reach a block of the file an operation goes through the slots above it. \<open>P\<close> is the set of slots that a transaction visits.
  It fills those of them that are empty, one after the other, each with the first free block; \<open>bitmaps k V\<close> are the blocks
  of the bitmap that describe the first \<open>k\<close> free blocks. So the transaction logs no block but the blocks in the slots of \<open>P\<close> and
  those of the bitmap, and when these and what was logged before, \<open>U\<close>, are at most eight blocks, the log has room for them and for an inode.
  \<open>R\<close> are the slots that this transaction and later ones will visit, for which there have to be free blocks.
\<close>

primrec anc :: "slot \<Rightarrow> slot set" where
  "anc (Top k) = {Top k}"
| "anc (Sub p k) = insert (Sub p k) (anc p)"

definition bitmaps :: "nat \<Rightarrow> (u32 \<Rightarrow> bytes) \<Rightarrow> u32 set" where
  "bitmaps k V = bmb V ` set (take k (sorted_list_of_set (free V)))"

definition holes :: "slot set \<Rightarrow> (u32 \<Rightarrow> bytes) \<Rightarrow> u32 list \<Rightarrow> nat" where
  "holes P V as = card {p \<in> P. slot_val V as p = 0}"

definition reserve :: "u32 set \<Rightarrow> slot set \<Rightarrow> (u32 \<Rightarrow> bytes) \<Rightarrow> u32 list \<Rightarrow> bool" where
  "reserve U R V as \<longleftrightarrow> finite R \<and> (\<forall>p \<in> R. is_slot p) \<and> holes R V as \<le> card (free V) \<and> bitmaps (holes R V as) V \<subseteq> U"

definition budget :: "u32 set \<Rightarrow> slot set \<Rightarrow> slot set \<Rightarrow> (u32 \<Rightarrow> bytes) \<Rightarrow> u32 list \<Rightarrow> u32 set \<Rightarrow> bool" where
  "budget U P R V as L \<longleftrightarrow> P \<subseteq> R \<and> card U + card P \<le> 8 \<and> L \<subseteq> U \<union> (slot_val V as ` P - {0}) \<and> reserve U R V as"

lemma anc_self [simp]: "p \<in> anc p"
  by (cases p) simp_all

lemma finite_anc [simp]: "finite (anc p)"
  by (induction p) simp_all

lemma anc_slot: "is_slot p \<Longrightarrow> q \<in> anc p \<Longrightarrow> is_slot q"
  by (induction p) (auto dest: is_slot_parent)

lemma budget_card:
  assumes "budget U P R V as L" "X \<subseteq> U \<union> (slot_val V as ` P - {0})"
  shows "card X \<le> 8"
proof -
  have P: "finite P" "card U + card P \<le> 8" using assms(1) finite_subset by (auto simp: budget_def reserve_def)
  have "card X \<le> card (U \<union> slot_val V as ` P)" by (rule card_mono) (use assms(2) in auto)
  also have "\<dots> \<le> card U + card (slot_val V as ` P)" by (rule card_Un_le)
  also have "\<dots> \<le> card U + card P" using card_image_le [OF P(1)] by simp
  finally show ?thesis using P(2) by simp
qed

lemma budget_room:
  assumes "budget U P R V as L"
  shows "card L \<le> 8" "p \<in> P \<Longrightarrow> slot_val V as p \<noteq> 0 \<Longrightarrow> budget U P R V as (insert (slot_val V as p) L)"
  using budget_card [OF assms] assms by (auto simp: budget_def reserve_def)

lemma bitmaps_first:
  assumes "free V \<noteq> {}"
  shows "bitmaps (Suc k) V = insert (bmb V (first_free V)) (bmb V ` set (take k (sorted_list_of_set (free V - {first_free V}))))"
  using assms by (simp add: bitmaps_def first_free_def sorted_list_of_set_nonempty)

text \<open>Filling a slot of \<open>P\<close> with the first free block stays within the budget.\<close>

lemma budget_hole:
  assumes "budget U P R V as L" "q \<in> P" "slot_val V as q = 0"
  shows "free V \<noteq> {}" "bmb V (first_free V) \<in> U" "card (insert (bmb V (first_free V)) L) \<le> 8"
proof -
  have B: "finite R" "holes R V as \<le> card (free V)" "bitmaps (holes R V as) V \<subseteq> U" "P \<subseteq> R" using assms(1) by (simp_all add: budget_def reserve_def)
  have "{p \<in> R. slot_val V as p = 0} \<noteq> {}" using assms(2,3) B(4) by auto
  then have h: "0 < holes R V as" using B(1) by (simp add: holes_def card_gt_0_iff)
  then show ne: "free V \<noteq> {}" using B(2) by auto
  obtain k where "holes R V as = Suc k" using h gr0_implies_Suc by blast
  then show u: "bmb V (first_free V) \<in> U" using B(3) bitmaps_first [OF ne, of k] by simp
  show "card (insert (bmb V (first_free V)) L) \<le> 8" by (rule budget_card [OF assms(1)]) (use assms(1) u in \<open>auto simp: budget_def reserve_def\<close>)
qed

lemma budget_fill:
  assumes bg: "budget U P R V as L" "q \<in> P" "slot_val V as q = 0" and b: "b = first_free V"
    and t: "tree_ok A V as" and ok: "fs_ok A V" and len: "blocks_ok A V" and f: "fills q b V as V' as'"
  shows "budget U P R V' as' (insert b (insert (bmb V b) L))"
proof -
  note H = budget_hole [OF bg]
  have B: "finite R" "card U + card P \<le> 8" "\<forall>p \<in> R. is_slot p" "L \<subseteq> U \<union> (slot_val V as ` P - {0})"
    "holes R V as \<le> card (free V)" "bitmaps (holes R V as) V \<subseteq> U" "P \<subseteq> R" using bg(1) by (simp_all add: budget_def reserve_def)
  have qR: "q \<in> R" using bg(2) B(7) by blast
  have bf: "b \<in> free V" using first_free(1) [OF H(1)] b by simp
  have q: "is_slot q" using B(3) qR by blast
  note G = fills_grows [OF t ok len bf q bg(3) f]
  have sv: "slot_val V' as' r = (if r = q then b else slot_val V as r)" if "r \<in> R" for r
    using fills_slot_val [OF t ok len bf q bg(3) f] B(3) that by blast
  have z: "{p \<in> R. slot_val V as p = 0} = insert q {p \<in> R. slot_val V' as' p = 0}" "q \<notin> {p \<in> R. slot_val V' as' p = 0}"
    using sv qR bg(3) G(3) by (auto split: if_splits)
  have h: "holes R V as = Suc (holes R V' as')" unfolding holes_def z(1) using z(2) B(1) by simp
  have c: "card (free V) = Suc (card (free V'))" unfolding G(4) using bf card_Suc_Diff1 [OF finite_free bf] by simp
  have "bmb V' = bmb V" using layout_cong(2) [of V' V] G(1) by (simp add: grows_def fun_eq_iff)
  then have "bitmaps (holes R V' as') V' \<subseteq> bitmaps (holes R V as) V"
    unfolding h bitmaps_first [OF H(1)] using G(4) b by (auto simp: bitmaps_def)
  moreover have "L \<subseteq> U \<union> (slot_val V' as' ` P - {0})"
  proof
    fix x assume "x \<in> L"
    then consider "x \<in> U" | p where "p \<in> P" "x = slot_val V as p" "x \<noteq> 0" using B(4) by auto
    then show "x \<in> U \<union> (slot_val V' as' ` P - {0})"
    proof cases
      case 2
      then have "x = slot_val V' as' p" using sv [of p] B(7) bg(3) by auto
      then show ?thesis using 2 by auto
    qed simp
  qed
  moreover have "b \<in> slot_val V' as' ` P - {0}" using sv [OF qR] G(3) bg(2) by force
  ultimately show ?thesis using B h c H(2) b by (auto simp: budget_def reserve_def)
qed

lemma reserve_cong:
  assumes "reserve U R V as" "\<And>p. is_slot p \<Longrightarrow> slot_val V' as' p = slot_val V as p" "free V' = free V" "bmb V' = bmb V"
  shows "reserve U R V' as'"
proof -
  have "is_slot p" if "p \<in> R" for p using assms(1) that by (simp add: reserve_def)
  then have "holes R V' as' = holes R V as" unfolding holes_def using assms(2) by (auto intro!: arg_cong [of _ _ card])
  then show ?thesis using assms(1,3,4) by (simp add: reserve_def bitmaps_def)
qed

lemma budget_cong:
  assumes "budget U P R V as L" "\<And>p. is_slot p \<Longrightarrow> slot_val V' as' p = slot_val V as p" "free V' = free V" "bmb V' = bmb V"
  shows "budget U P R V' as' L"
proof -
  have "is_slot p" if "p \<in> P" for p using assms(1) that by (auto simp: budget_def reserve_def)
  then have "slot_val V' as' ` P = slot_val V as ` P" using assms(2) by (auto simp: image_iff)
  then show ?thesis using assms(1) reserve_cong [of U R V as V' as'] assms(2-4) by (simp add: budget_def)
qed

end
