(* ===== verification/FsFile.thy ===== *)
theory FsFile
  imports FsTree
begin

text \<open>
  The operations on the content of an inode, \<open>bmap\<close>, \<open>bmap_read\<close>, \<open>readi\<close> and \<open>writei\<close>, against the
  tree of blocks: \<open>bmap\<close> fills holes without changing the file, \<open>readi\<close> returns its bytes, \<open>writei\<close>
  replaces them, and nothing outside the blocks of the file, the free blocks and the bitmap changes.
\<close>


subsection \<open>The inode cache beside the transaction\<close>

lemma fs_rest:
  fixes s t :: "'a fstate_scheme"
  assumes "lstate.more t = lstate.more s"
  shows "icache t = icache s" "fstate.more t = fstate.more s"
  using assms by (cases s, cases t, simp)+

lemma set_inode_sel [simp]:
  "icache (set_inode i f s) = (icache s)(i := f (icache s i))" "klog (set_inode i f s) = klog s"
  "wlog (set_inode i f s) = wlog s" "fstate.more (set_inode i f s) = fstate.more s"
  by (simp_all add: set_inode_def)

lemma set_inode_cache [simp]:
  "bio_inv (set_inode i f s) = bio_inv s" "absc (set_inode i f s) = absc s"
  "holds (set_inode i f s) j x = holds s j x" "dsk (set_inode i f s) = dsk s" "view (set_inode i f s) = view s"
  by (rule cache_cong; simp add: set_inode_def)+

lemma set_inode_tx [simp]:
  "tx A H L V (set_inode i f s) = tx A H L V s" "in_tx (set_inode i f s) = in_tx s"
  "tx_prog r (set_inode i f s) = tx_prog r s" "tx_prog (set_inode i f s) r = tx_prog s r"
  by (simp_all add: tx_def log_inv_def in_tx_def tx_prog_def)

definition addrs :: "'a fstate_scheme \<Rightarrow> nat \<Rightarrow> u32 list" where
  "addrs s i = d_addrs (i_di (icache s i))"

definition isize :: "'a fstate_scheme \<Rightarrow> nat \<Rightarrow> u32" where
  "isize s i = d_size (i_di (icache s i))"

text \<open>What an operation on inode \<open>i\<close> keeps of the state.\<close>

definition fs_keeps :: "nat \<Rightarrow> 'a fstate_scheme \<Rightarrow> 'a fstate_scheme \<Rightarrow> bool" where
  "fs_keeps i s t \<longleftrightarrow> tx_prog s t \<and> fstate.more t = fstate.more s
     \<and> icache t = (icache s)(i := (icache s i)\<lparr>i_di := (i_di (icache s i))\<lparr>d_addrs := addrs t i, d_size := isize t i\<rparr>\<rparr>)"

lemma fs_keeps_tx: "tx_keeps s t \<Longrightarrow> fs_keeps i s t" for s :: "'a fstate_scheme"
  using fs_rest [of t s] by (auto simp: tx_keeps_def fs_keeps_def addrs_def isize_def)

lemma fs_keepsD:
  assumes "fs_keeps i s t"
  shows "i_dev (icache t i) = i_dev (icache s i)" "d_type (i_di (icache t i)) = d_type (i_di (icache s i))"
    "i_inum (icache t i) = i_inum (icache s i)" "in_tx t = in_tx s" "j \<noteq> i \<Longrightarrow> icache t j = icache s j"
    "i_busy (icache t i) = i_busy (icache s i)" "i_ref (icache t i) = i_ref (icache s i)"
proof -
  have e: "icache t i = (icache s i)\<lparr>i_di := (i_di (icache s i))\<lparr>d_addrs := addrs t i, d_size := isize t i\<rparr>\<rparr>"
    using assms unfolding fs_keeps_def by (metis fun_upd_same)
  show "i_dev (icache t i) = i_dev (icache s i)" "d_type (i_di (icache t i)) = d_type (i_di (icache s i))"
    "i_inum (icache t i) = i_inum (icache s i)" "i_busy (icache t i) = i_busy (icache s i)"
    "i_ref (icache t i) = i_ref (icache s i)" unfolding e by simp_all
  show "in_tx t = in_tx s" using assms by (simp add: fs_keeps_def tx_prog_def in_tx_def)
  show "j \<noteq> i \<Longrightarrow> icache t j = icache s j" using assms unfolding fs_keeps_def by (metis fun_upd_other)
qed

lemma fs_keeps_trans:
  assumes "fs_keeps i s t" "fs_keeps i t u"
  shows "fs_keeps i s u"
proof -
  have e: "icache u = (icache t)(i := (icache t i)\<lparr>i_di := (i_di (icache t i))\<lparr>d_addrs := addrs u i, d_size := isize u i\<rparr>\<rparr>)"
    "icache t = (icache s)(i := (icache s i)\<lparr>i_di := (i_di (icache s i))\<lparr>d_addrs := addrs t i, d_size := isize t i\<rparr>\<rparr>)"
    using assms unfolding fs_keeps_def by blast+
  have "icache u = (icache s)(i := (icache s i)\<lparr>i_di := (i_di (icache s i))\<lparr>d_addrs := addrs u i, d_size := isize u i\<rparr>\<rparr>)"
    unfolding e(1) unfolding e(2) by simp
  then show ?thesis using assms tx_prog_trans [of s t u] unfolding fs_keeps_def by simp
qed

text \<open>The standing conditions of an operation on the content of inode \<open>i\<close>.\<close>

definition fcx :: "u32 set \<Rightarrow> u32 set \<Rightarrow> (u32 \<Rightarrow> bytes) \<Rightarrow> nat \<Rightarrow> 'a fstate_scheme \<Rightarrow> bool" where
  "fcx A L V i s \<longleftrightarrow> tx A {} L V s \<and> fs_ok A V \<and> tree_ok A V (addrs s i) \<and> i_dev (icache s i) = ROOTDEV"

lemma fcxD:
  assumes "fcx A L V i s"
  shows "tx A {} L V s" "fs_ok A V" "tree_ok A V (addrs s i)" "i_dev (icache s i) = ROOTDEV" "finite L" "blocks_ok A V"
  using assms lt.fin_law [of A "{}" L V s] tx_blocks_ok by (auto simp: fcx_def)



subsection \<open>Mapping a block of the file\<close>

lemma card_insert2: "finite L \<Longrightarrow> card (insert a (insert b L)) \<le> card L + 2"
  by (simp add: card_insert_if)

lemma bmap_slot_tx:
  fixes s :: "'a fstate_scheme"
  assumes s: "fcx A L V i s" "in_tx s" and k: "k < NDIRECT + 2" and bg: "budget U P R V (addrs s i) L" "Top k \<in> P"
    and Q: "\<And>addr L' V' t. fcx A L' V' i t \<Longrightarrow> fs_keeps i s t \<Longrightarrow> isize t i = isize s i \<Longrightarrow>
      grows A V (addrs s i) V' (addrs t i) \<Longrightarrow>
      slot_val V' (addrs t i) (Top k) = addr \<Longrightarrow> addr \<noteq> 0 \<Longrightarrow> budget U P R V' (addrs t i) L' \<Longrightarrow> Q addr t"
  shows "wp (bmap_slot i k) Q s"
proof -
  note S = fcxD [OF s(1)]
  let ?as = "addrs s i"
  have kb: "is_slot (Top k)" using k by simp
  show ?thesis
  proof (cases "?as ! k = 0")
    case True
    have z: "slot_val V ?as (Top k) = 0" using True by simp
    note H = budget_hole [OF bg z]
    let ?b = "first_free V"
    have "wp (balloc ROOTDEV) (\<lambda>addr. wp (kthen (set_di i (\<lambda>di. di\<lparr>d_addrs := (d_addrs di)[k := addr]\<rparr>)) (kreturn addr)) Q) s"
    proof (rule balloc_tx [OF S(1) s(2) S(2) refl _ _ H(1,3)])
      show "card (insert ?b (insert (bmb V ?b) ({} \<union> L))) \<le> 9"
        using H(3) card_insert_le_m1 [of 9 "insert (bmb V ?b) L" ?b] by simp
      fix t assume t: "tx A {} (insert ?b (insert (bmb V ?b) L)) (alloc_view ?b V) t" "tx_keeps s t"
      let ?t = "set_inode i (\<lambda>ip. ip\<lparr>i_di := (i_di ip)\<lparr>d_addrs := (d_addrs (i_di ip))[k := ?b]\<rparr>\<rparr>) t"
      have it: "icache t = icache s" "fstate.more t = fstate.more s" using fs_rest [of t s] t(2) by (simp_all add: tx_keeps_def)
      have a: "addrs ?t i = ?as[k := ?b]" "isize ?t i = isize s i" by (simp_all add: addrs_def isize_def it)
      have f: "fills (Top k) ?b V ?as (alloc_view ?b V) (addrs ?t i)" by (simp add: fills_def a)
      note G = fills_grows [OF S(3,2,6) first_free(1) [OF H(1)] kb z f]
      have g: "grows A V ?as (alloc_view ?b V) (addrs ?t i)" by (rule G(1))
      have "fcx A (insert ?b (insert (bmb V ?b) L)) (alloc_view ?b V) i ?t"
        using t(1) g S(4) it by (simp add: fcx_def grows_def)
      moreover have "fs_keeps i s ?t"
        using t(2) it a unfolding fs_keeps_def tx_keeps_def by (simp add: addrs_def isize_def)
      ultimately have "Q ?b ?t"
        by (rule Q [OF _ _ a(2) g G(2,3) budget_fill [OF bg z refl S(3,2,6) f]])
      then show "wp (kthen (set_di i (\<lambda>di. di\<lparr>d_addrs := (d_addrs di)[k := ?b]\<rparr>)) (kreturn ?b)) Q t"
        by (simp add: set_di_def)
    qed simp_all
    then show ?thesis using True S(4) by (simp add: bmap_slot_def inode_at_def addrs_def)
  next
    case False
    have "fs_keeps i s s" using fs_keeps_tx [OF tx_keeps_refl [OF txD(8) [OF S(1)]]] .
    then have "Q (?as ! k) s"
      using Q [OF s(1)] False grows_refl [OF S(2,3)] bg(1) by simp
    then show ?thesis using False by (simp add: bmap_slot_def inode_at_def addrs_def)
  qed
qed

lemma bmap_entry_tx:
  fixes s :: "'a fstate_scheme"
  assumes s: "fcx A L V i s" "in_tx s" and p: "is_slot (Sub p k)" "slot_val V (addrs s i) p = blk" "blk \<noteq> 0"
    and bg: "budget U P R V (addrs s i) L" "p \<in> P" "Sub p k \<in> P"
    and Q: "\<And>addr L' V' t. fcx A L' V' i t \<Longrightarrow> tx_keeps s t \<Longrightarrow> grows A V (addrs s i) V' (addrs s i) \<Longrightarrow>
      slot_val V' (addrs s i) (Sub p k) = addr \<Longrightarrow> addr \<noteq> 0 \<Longrightarrow> budget U P R V' (addrs s i) L' \<Longrightarrow> Q addr t"
  shows "wp (bmap_entry ROOTDEV blk k) Q s"
proof -
  note S = fcxD [OF s(1)]
  let ?as = "addrs s i" let ?e = "get32 (V blk) (4 * k)"
  have bt: "blk \<in> tree V ?as" using treeI p is_slot_parent by metis
  have bA: "blk \<notin> A" "blk \<notin> meta V" "blk \<notin> free V" using tree_okD(3) [OF S(3) bt] by blast+
  have bgb: "budget U P R V ?as (insert blk L)" using budget_room(2) [OF bg(1,2)] p(2,3) by simp
  have k: "4 * k + 4 \<le> BSIZE" using is_slot_parent [OF p(1)] by (simp add: fs_consts)
  have e: "slot_val V ?as (Sub p k) = ?e" using p by simp
  have le: "length (V blk) = BSIZE" using S(6) bA(1) by (simp add: blocks_ok_def)
  show ?thesis
    unfolding bmap_entry_def wp_kbind
  proof (rule lt.rd_rule [OF S(1) bA(1)], simp, use budget_room(1) [OF bg(1)] in \<open>simp add: NBUF_def\<close>, rule lt.dat_rule, assumption, assumption)
    fix j t assume t: "tx A {blk} L V t" "holds t j blk" "tx_keeps s t"
    have it: "in_tx t" using lt.keeps_open [OF t(3)] s(2) by simp
    show "wp (if ?e = 0 then kbind (balloc ROOTDEV) (\<lambda>addr. kthen (buf_store j (put32 (V blk) (4 * k) addr))
        (kthen (log_write j) (kthen (brelse j) (kreturn addr)))) else kthen (brelse j) (kreturn ?e)) Q t"
    proof (cases "?e = 0")
      case True
      let ?b = "first_free V" let ?L = "insert ?b (insert (bmb V ?b) L)" let ?V = "(alloc_view ?b V)(blk := put32 (V blk) (4 * k) ?b)"
      have z: "slot_val V ?as (Sub p k) = 0" using e True by simp
      note H = budget_hole [OF bg(1,3) z] and Hb = budget_hole [OF bgb bg(3) z]
      have f: "fills (Sub p k) ?b V ?as ?V ?as" using p by (simp add: fills_def)
      note G = fills_grows [OF S(3,2,6) first_free(1) [OF H(1)] p(1) z f]
      have bg': "budget U P R ?V ?as ?L" "budget U P R ?V ?as (insert blk ?L)"
        using budget_fill [OF bg(1,3) z refl S(3,2,6) f] budget_fill [OF bgb bg(3) z refl S(3,2,6) f]
        by (simp_all add: insert_commute)
      have "wp (balloc ROOTDEV) (\<lambda>addr. wp (buf_store j (put32 (V blk) (4 * k) addr)) (\<lambda>_. wp (log_write j)
          (\<lambda>_. wp (brelse j) (\<lambda>_. Q addr)))) t"
      proof (rule balloc_tx [OF t(1) it S(2) refl _ _ H(1,3)])
        show "{blk} \<inter> meta V = {}" "{blk} \<inter> free V = {}" using bA by simp_all
        show "card (insert ?b (insert (bmb V ?b) ({blk} \<union> L))) \<le> 9"
          using Hb(3) card_insert_le_m1 [of 9 "insert (bmb V ?b) (insert blk L)" ?b] by simp
        fix u assume u: "tx A {blk} ?L (alloc_view ?b V) u" "tx_keeps t u" "\<And>j y. holds t j y \<Longrightarrow> holds u j y"
        have iu: "in_tx u" using lt.keeps_open [OF u(2)] it by simp
        show "wp (buf_store j (put32 (V blk) (4 * k) ?b)) (\<lambda>_. wp (log_write j) (\<lambda>_. wp (brelse j) (\<lambda>_. Q ?b))) u"
        proof (rule lt.put_rule [OF u(1) iu u(3) [OF t(2)]])
          show "length (put32 (V blk) (4 * k) ?b) = BSIZE" using le k by simp
          have "{blk} \<union> ?L = insert blk ?L" by auto
          then show "card ?L < LOGSIZE - 1" "card ({blk} \<union> ?L) < NBUF"
            using budget_room(1) [OF bg'(1)] budget_room(1) [OF bg'(2)] by (simp_all add: LOGSIZE_def NBUF_def del: Un_insert_left Un_insert_right)
          fix v assume v: "tx A {blk} (insert blk ?L) ?V v" "tx_keeps u v" "\<And>j y. holds u j y \<Longrightarrow> holds v j y"
          show "wp (brelse j) (\<lambda>_. Q ?b) v"
          proof (rule lt.rel_rule [OF v(1) v(3) [OF u(3) [OF t(2)]]])
            fix w assume w: "tx A ({blk} - {blk}) (insert blk ?L) ?V w" "tx_keeps v w"
            have kw: "tx_keeps s w" using tx_keeps_trans [OF tx_keeps_trans [OF t(3) u(2)] tx_keeps_trans [OF v(2) w(2)]] .
            have "fcx A (insert blk ?L) ?V i w"
              using w(1) G(1) S(4) fs_rest [of w s] kw by (simp add: fcx_def grows_def tx_keeps_def addrs_def)
            then show "Q ?b w" by (rule Q [OF _ kw G(1,2,3) bg'(2)])
          qed
        qed
      qed
      then show ?thesis using True by simp
    next
      case False
      have "wp (brelse j) (\<lambda>_. Q ?e) t"
      proof (rule lt.rel_rule [OF t(1,2)])
        fix u assume u: "tx A ({blk} - {blk}) L V u" "tx_keeps t u"
        have ku: "tx_keeps s u" by (rule tx_keeps_trans [OF t(3) u(2)])
        have "fcx A L V i u" using u(1) S fs_rest [of u s] ku by (simp add: fcx_def tx_keeps_def addrs_def)
        then show "Q ?e u" by (rule Q [OF _ ku grows_refl [OF S(2,3)] e False bg(1)])
      qed
      then show ?thesis using False by simp
    qed
  qed
qed

lemma bmap_tx:
  fixes s :: "'a fstate_scheme"
  assumes s: "fcx A L V i s" "in_tx s" and bn: "bn < MAXFILE"
    and bg: "budget U P R V (addrs s i) L" "anc (leaf bn) \<subseteq> P"
    and Q: "\<And>addr L' V' t. fcx A L' V' i t \<Longrightarrow> fs_keeps i s t \<Longrightarrow> isize t i = isize s i \<Longrightarrow>
      grows A V (addrs s i) V' (addrs t i) \<Longrightarrow>
      fblk V' (addrs t i) bn = addr \<Longrightarrow> addr \<noteq> 0 \<Longrightarrow> budget U P R V' (addrs t i) L' \<Longrightarrow> Q addr t"
  shows "wp (bmap i bn) Q s"
proof -
  have dev: "i_dev (icache s i) = ROOTDEV" by (rule fcxD(4) [OF s(1)])
  consider (dir) "bn < NDIRECT" | (ind) "\<not> bn < NDIRECT" "bn - NDIRECT < NINDIRECT"
    | (dbl) "\<not> bn < NDIRECT" "\<not> bn - NDIRECT < NINDIRECT" by blast
  then show ?thesis
  proof cases
    case dir
    have l: "leaf bn = Top bn" "Top bn \<in> P" using dir bg(2) by (auto simp: leaf_def)
    have "wp (bmap_slot i bn) Q s"
      by (rule bmap_slot_tx [OF s _ bg(1) l(2)]) (use dir bn l(1) in \<open>auto intro!: Q simp: fblk_def\<close>)
    then show ?thesis using dir by (simp add: bmap_def inode_at_def)
  next
    case ind
    let ?k = "bn - NDIRECT"
    have l: "leaf bn = Sub (Top NDIRECT) ?k" "is_slot (Sub (Top NDIRECT) ?k)" using ind by (simp_all add: leaf_def)
    have P: "Top NDIRECT \<in> P" "Sub (Top NDIRECT) ?k \<in> P" using bg(2) l(1) by simp_all
    have "wp (bmap_slot i NDIRECT) (\<lambda>addr. wp (bmap_entry ROOTDEV addr ?k) Q) s"
    proof (rule bmap_slot_tx [OF s _ bg(1) P(1)])
      fix blk L1 V1 t
      assume t: "fcx A L1 V1 i t" "fs_keeps i s t" "isize t i = isize s i" "grows A V (addrs s i) V1 (addrs t i)"
        "slot_val V1 (addrs t i) (Top NDIRECT) = blk" "blk \<noteq> 0" "budget U P R V1 (addrs t i) L1"
      have it: "in_tx t" using fs_keepsD(4) [OF t(2)] s(2) by simp
      show "wp (bmap_entry ROOTDEV blk ?k) Q t"
      proof (rule bmap_entry_tx [OF t(1) it l(2) t(5,6,7) P])
        fix addr L2 V2 u
        assume u: "fcx A L2 V2 i u" "tx_keeps t u" "grows A V1 (addrs t i) V2 (addrs t i)"
          "slot_val V2 (addrs t i) (Sub (Top NDIRECT) ?k) = addr" "addr \<noteq> 0" "budget U P R V2 (addrs t i) L2"
        have a: "addrs u i = addrs t i" "isize u i = isize t i"
          using fs_rest(1) [of u t] u(2) by (simp_all add: addrs_def isize_def tx_keeps_def)
        show "Q addr u"
          by (rule Q [OF u(1) fs_keeps_trans [OF t(2) fs_keeps_tx [OF u(2)]]])
             (use a t u l bn grows_trans [OF t(4) u(3)] in \<open>simp_all add: fblk_def\<close>)
      qed
    qed simp
    then show ?thesis using ind dev by (simp add: bmap_def inode_at_def)
  next
    case dbl
    let ?n = "bn - NDIRECT - NINDIRECT"
    let ?p = "Sub (Top (NDIRECT + 1)) (?n div NINDIRECT)" let ?q = "Sub ?p (?n mod NINDIRECT)"
    have l: "leaf bn = ?q" using dbl by (simp add: leaf_def)
    have P: "Top (NDIRECT + 1) \<in> P" "?p \<in> P" "?q \<in> P" using bg(2) unfolding l by simp_all
    have sl: "is_slot ?q" using is_leaf_slot [OF leaf_is_leaf [OF bn]] l by simp
    have sp: "is_slot ?p" using is_slot_parent [OF sl] by blast
    have nd: "?n < NDINDIRECT" using dbl bn by (simp add: fs_consts)
    have "wp (bmap_slot i (NDIRECT + 1)) (\<lambda>addr. wp (bmap_entry ROOTDEV addr (?n div NINDIRECT))
        (\<lambda>addr. wp (bmap_entry ROOTDEV addr (?n mod NINDIRECT)) Q)) s"
    proof (rule bmap_slot_tx [OF s _ bg(1) P(1)])
      fix blk L1 V1 t
      assume t: "fcx A L1 V1 i t" "fs_keeps i s t" "isize t i = isize s i" "grows A V (addrs s i) V1 (addrs t i)"
        "slot_val V1 (addrs t i) (Top (NDIRECT + 1)) = blk" "blk \<noteq> 0" "budget U P R V1 (addrs t i) L1"
      have it: "in_tx t" using fs_keepsD(4) [OF t(2)] s(2) by simp
      show "wp (bmap_entry ROOTDEV blk (?n div NINDIRECT)) (\<lambda>addr. wp (bmap_entry ROOTDEV addr (?n mod NINDIRECT)) Q) t"
      proof (rule bmap_entry_tx [OF t(1) it sp t(5,6,7) P(1,2)])
        fix blk2 L2 V2 u
        assume u: "fcx A L2 V2 i u" "tx_keeps t u" "grows A V1 (addrs t i) V2 (addrs t i)"
          "slot_val V2 (addrs t i) ?p = blk2" "blk2 \<noteq> 0" "budget U P R V2 (addrs t i) L2"
        have a: "addrs u i = addrs t i" "isize u i = isize t i"
          using fs_rest(1) [of u t] u(2) by (simp_all add: addrs_def isize_def tx_keeps_def)
        have iu: "in_tx u" using lt.keeps_open [OF u(2)] it by simp
        show "wp (bmap_entry ROOTDEV blk2 (?n mod NINDIRECT)) Q u"
        proof (rule bmap_entry_tx [OF u(1) iu sl u(4,5,6) [folded a(1)] P(2,3)])
          fix addr L3 V3 v
          assume v: "fcx A L3 V3 i v" "tx_keeps u v" "grows A V2 (addrs u i) V3 (addrs u i)"
            "slot_val V3 (addrs u i) ?q = addr" "addr \<noteq> 0" "budget U P R V3 (addrs u i) L3"
          have b: "addrs v i = addrs u i" "isize v i = isize u i"
            using fs_rest(1) [of v u] v(2) by (simp_all add: addrs_def isize_def tx_keeps_def)
          have g: "grows A V (addrs s i) V3 (addrs v i)"
            using grows_trans [OF grows_trans [OF t(4) u(3)]] v(3) a b by simp
          have e: "fblk V3 (addrs v i) bn = addr" unfolding fblk_def l b using v(4) bn by simp
          show "Q addr v"
            by (rule Q [OF v(1) fs_keeps_trans [OF fs_keeps_trans [OF t(2) fs_keeps_tx [OF u(2)]] fs_keeps_tx [OF v(2)]] _ g e v(5)])
               (use a b t(3) v(6) in simp_all)
        qed
      qed
    qed simp
    then show ?thesis using dbl nd dev by (simp add: bmap_def inode_at_def Let_def)
  qed
qed


lemma fcx_keeps: "fcx A L V i s \<Longrightarrow> tx A {} L V t \<Longrightarrow> tx_keeps s t \<Longrightarrow> fcx A L V i t" for s :: "'a fstate_scheme"
  using fs_rest [of t s] by (simp add: fcx_def tx_keeps_def addrs_def)

lemma fblk_tree:
  assumes "fblk V as bn \<noteq> 0"
  shows "fblk V as bn \<in> tree V as" "bn < MAXFILE"
proof -
  show "bn < MAXFILE" using assms by (auto simp: fblk_def split: if_splits)
  then show "fblk V as bn \<in> tree V as"
    using assms treeI [OF is_leaf_slot [OF leaf_is_leaf], of bn] by (simp add: fblk_def)
qed

lemma bmap_read_tx:
  fixes s :: "'a fstate_scheme"
  assumes s: "fcx A L V i s" and n: "card L \<le> 8"
    and Q: "\<And>t. tx A {} L V t \<Longrightarrow> tx_keeps s t \<Longrightarrow> Q (fblk V (addrs s i) bn) t"
  shows "wp (bmap_read i bn) Q s"
proof -
  note S = fcxD [OF s]
  let ?as = "addrs s i"
  have k0: "tx_keeps s s" using tx_keeps_refl [OF txD(8) [OF S(1)]] .
  have room: "card ({} \<union> L) < NBUF" using n by (simp add: NBUF_def)
  have sl: "slot_val V ?as p \<notin> A" if "is_slot p" "slot_val V ?as p \<noteq> 0" for p
    using tree_okD(3) [OF S(3) treeI [OF that]] by blast
  consider (dir) "bn < NDIRECT" | (ind) "\<not> bn < NDIRECT" "bn - NDIRECT < NINDIRECT"
    | (dbl) "\<not> bn < NDIRECT" "\<not> bn - NDIRECT < NINDIRECT" "bn < MAXFILE"
    | (out) "\<not> bn < NDIRECT" "\<not> bn - NDIRECT < NINDIRECT" "\<not> bn < MAXFILE" by blast
  then show ?thesis
  proof cases
    case dir
    then have "fblk V ?as bn = ?as ! bn" by (simp add: fblk_def leaf_def fs_consts)
    then show ?thesis using dir Q [OF S(1) k0] by (simp add: bmap_read_def inode_at_def addrs_def)
  next
    case ind
    let ?b = "?as ! NDIRECT" let ?k = "bn - NDIRECT"
    have f: "fblk V ?as bn = (if ?b = 0 then 0 else get32 (V ?b) (4 * ?k))"
    proof -
      have "bn < MAXFILE" using ind by (simp add: fs_consts)
      then show ?thesis using ind by (simp add: fblk_def leaf_def)
    qed
    show ?thesis
    proof (cases "?b = 0")
      case True
      then show ?thesis using ind f Q [OF S(1) k0] by (simp add: bmap_read_def inode_at_def addrs_def Let_def)
    next
      case False
      have b: "?b \<notin> A" using sl [of "Top NDIRECT"] False by simp
      have "wp (bread ROOTDEV ?b) (\<lambda>bp. wp (buf_data bp) (\<lambda>d. wp (brelse bp) (\<lambda>_. Q (get32 d (4 * ?k))))) s"
        by (rule lt.look [OF S(1) b _ room]) (use Q f False in simp_all)
      then show ?thesis using ind False S(4) by (simp add: bmap_read_def inode_at_def addrs_def Let_def)
    qed
  next
    case dbl
    let ?n = "bn - NDIRECT - NINDIRECT" let ?d = "?as ! (NDIRECT + 1)"
    let ?e = "get32 (V ?d) (4 * (?n div NINDIRECT))"
    let ?p = "Sub (Top (NDIRECT + 1)) (?n div NINDIRECT)"
    have l: "leaf bn = Sub ?p (?n mod NINDIRECT)" using dbl by (simp add: leaf_def)
    have sp: "is_slot ?p" using is_slot_parent [of ?p] is_leaf_slot [OF leaf_is_leaf [OF dbl(3)]] l by auto
    have f: "fblk V ?as bn = (if ?d = 0 \<or> ?e = 0 then 0 else get32 (V ?e) (4 * (?n mod NINDIRECT)))"
      unfolding fblk_def l using dbl(3) by simp
    have nd: "?n < NDINDIRECT" using dbl by (simp add: fs_consts)
    show ?thesis
    proof (cases "?d = 0")
      case True
      then show ?thesis using dbl nd f Q [OF S(1) k0] by (simp add: bmap_read_def inode_at_def addrs_def Let_def)
    next
      case d0: False
      have d: "?d \<notin> A" using sl [of "Top (NDIRECT + 1)"] d0 by simp
      let ?inner = "\<lambda>dbp da. wp (let addr = get32 da (4 * (?n div NINDIRECT)) in
             if addr = 0 then kthen (brelse dbp) (kreturn 0)
             else kbind (bread ROOTDEV addr) (\<lambda>bp. kbind (buf_data bp) (\<lambda>a. kthen (brelse bp) (kthen (brelse dbp)
                  (kreturn (get32 a (4 * (?n mod NINDIRECT)))))))) Q"
      have "wp (bread ROOTDEV ?d) (\<lambda>dbp. wp (buf_data dbp) (?inner dbp)) s"
      proof (rule lt.rd_rule [OF S(1) d _ room], simp, rule lt.dat_rule, assumption, assumption)
        fix j t assume t: "tx A {?d} L V t" "holds t j ?d" "tx_keeps s t"
        show "?inner j (V ?d) t"
        proof (cases "?e = 0")
          case True
          have "wp (brelse j) (\<lambda>_. Q 0) t"
            by (rule lt.rel_rule [OF t(1,2)]) (use Q tx_keeps_trans [OF t(3)] f True in simp)
          then show ?thesis using True by simp
        next
          case e0: False
          have es: "slot_val V ?as ?p = ?e" using d0 by simp
          have e: "?e \<notin> A" using sl [OF sp] es e0 by simp
          have ne: "?e \<noteq> ?d"
          proof
            assume "?e = ?d"
            then have "slot_val V ?as ?p = slot_val V ?as (Top (NDIRECT + 1))" using es by simp
            from tree_okD(2) [OF S(3) sp _ this] e0 es show False by simp
          qed
          have "wp (bread ROOTDEV ?e) (\<lambda>bp. wp (buf_data bp) (\<lambda>a. wp (brelse bp) (\<lambda>_. wp (brelse j)
              (\<lambda>_. Q (get32 a (4 * (?n mod NINDIRECT))))))) t"
          proof (rule lt.look [OF t(1) e])
            show "?e \<notin> {?d}" using ne by simp
            show "card ({?d} \<union> L) < NBUF" using n S(5) by (simp add: NBUF_def card_insert_if)
            fix j' u assume u: "tx A {?d} L V u" "tx_keeps t u" "\<And>j y. holds t j y \<Longrightarrow> holds u j y"
            show "wp (brelse j) (\<lambda>_. Q (get32 (V ?e) (4 * (?n mod NINDIRECT)))) u"
              by (rule lt.rel_rule [OF u(1) u(3) [OF t(2)]])
                 (use Q tx_keeps_trans [OF tx_keeps_trans [OF t(3) u(2)]] f d0 e0 in simp)
          qed
          then show ?thesis using e0 by simp
        qed
      qed
      then show ?thesis using dbl nd d0 S(4) by (simp add: bmap_read_def inode_at_def addrs_def Let_def del: wp_if cong: if_cong)
    qed
  next
    case out
    then have "\<not> bn - NDIRECT - NINDIRECT < NDINDIRECT" "fblk V ?as bn = 0" by (simp_all add: fs_consts fblk_def)
    then show ?thesis using out Q [OF S(1) k0] by (simp add: bmap_read_def inode_at_def Let_def)
  qed
qed


subsection \<open>Reading\<close>

lemma chunk_step:
  assumes "0 < n" "m = min n (BSIZE - off mod BSIZE)"
  shows "0 < m" "m \<le> n" "off mod BSIZE + m \<le> BSIZE"
    "chunks off n = (off div BSIZE, off mod BSIZE, m) # chunks (off + m) (n - m)"
    "j < m \<Longrightarrow> (off + j) div BSIZE = off div BSIZE" "j < m \<Longrightarrow> (off + j) mod BSIZE = off mod BSIZE + j"
proof -
  have lt: "off mod BSIZE < BSIZE" by (simp add: BSIZE_def)
  show m: "0 < m" "m \<le> n" "off mod BSIZE + m \<le> BSIZE" using assms lt by auto
  show "chunks off n = (off div BSIZE, off mod BSIZE, m) # chunks (off + m) (n - m)"
    using assms(1) m(1) unfolding assms(2) [symmetric] by (subst chunks.simps) (simp add: Let_def flip: assms(2))
  have e: "off + j = off mod BSIZE + j + off div BSIZE * BSIZE" by (simp add: mult.commute)
  show "j < m \<Longrightarrow> (off + j) div BSIZE = off div BSIZE"
    using m(3) unfolding e by (subst div_mult_self1) (auto simp: BSIZE_def)
  show "j < m \<Longrightarrow> (off + j) mod BSIZE = off mod BSIZE + j"
    using m(3) unfolding e by (subst mod_mult_self1) (auto simp: BSIZE_def)
qed

lemma chunk_bytes:
  assumes "0 < n" "m = min n (BSIZE - off mod BSIZE)" "blocks_ok A V" "fblk V as (off div BSIZE) \<notin> A"
  shows "map (fdata V as) [off..<off + m] =
    (if fblk V as (off div BSIZE) = 0 then replicate m 0 else slice (V (fblk V as (off div BSIZE))) (off mod BSIZE) m)"
proof (rule nth_equalityI)
  note C = chunk_step [OF assms(1,2)]
  have l: "length (V (fblk V as (off div BSIZE))) = BSIZE" using assms(3,4) by (simp add: blocks_ok_def)
  then show "length (map (fdata V as) [off..<off + m]) = length (if fblk V as (off div BSIZE) = 0 then replicate m 0
      else slice (V (fblk V as (off div BSIZE))) (off mod BSIZE) m)" using C(3) by simp
  fix j assume "j < length (map (fdata V as) [off..<off + m])"
  then have j: "j < m" by simp
  then show "map (fdata V as) [off..<off + m] ! j = (if fblk V as (off div BSIZE) = 0 then replicate m 0
      else slice (V (fblk V as (off div BSIZE))) (off mod BSIZE) m) ! j"
    using C(3) C(5,6) [OF j] l by (simp add: fdata_def nth_slice)
qed

lemma readi_loop_tx:
  fixes s :: "'a fstate_scheme"
  assumes "fcx A L V i s" and n: "card L \<le> 8"
    and "\<And>t. fcx A L V i t \<Longrightarrow> tx_keeps s t \<Longrightarrow> Q (map (fdata V (addrs s i)) [off..<off + k]) t"
  shows "wp (readi_loop i (chunks off k)) Q s"
  using assms(1,3)
proof (induction off k arbitrary: s Q rule: chunks.induct)
  case (1 off k)
  note S = fcxD [OF "1.prems"(1)]
  let ?as = "addrs s i" and ?m = "min k (BSIZE - off mod BSIZE)" and ?bn = "off div BSIZE"
  have room: "card ({} \<union> L) < NBUF" using n by (simp add: NBUF_def)
  show ?case
  proof (cases "k = 0")
    case True
    have "fcx A L V i s \<Longrightarrow> tx_keeps s s \<Longrightarrow> Q [] s" using "1.prems"(2) [of s] True by simp
    then show ?thesis using True "1.prems"(1) tx_keeps_refl [OF txD(8) [OF S(1)]] by (simp add: chunks.simps)
  next
    case False
    note C = chunk_step [where n = k and off = off, OF _ refl]
    let ?b = "fblk V ?as ?bn"
    let ?xs = "map (fdata V ?as) [off..<off + ?m]"
    have bA: "?b \<noteq> 0 \<Longrightarrow> ?b \<notin> A" using fblk_tree(1) [of V ?as ?bn] tree_okD(3) [OF S(3)] by blast
    have xs: "?xs = (if ?b = 0 then replicate ?m 0 else slice (V ?b) (off mod BSIZE) ?m)"
    proof (cases "?b = 0")
      case True
      have "map (fdata V ?as) [off..<off + ?m] = replicate ?m 0"
        by (rule nth_equalityI) (use False C(5) True in \<open>simp_all add: fdata_def\<close>)
      then show ?thesis using True by simp
    qed (use False chunk_bytes [where n = k and off = off and as = ?as, OF _ refl S(6)] bA in simp)
    have rest: "wp (readi_loop i (chunks (off + ?m) (k - ?m))) (\<lambda>ys. Q (?xs @ ys)) t"
      if t: "tx A {} L V t" "tx_keeps s t" for t
    proof -
      have ft: "fcx A L V i t" by (rule fcx_keeps [OF "1.prems"(1) t])
      have at: "addrs t i = ?as" using fs_rest(1) [of t s] t(2) by (simp add: addrs_def tx_keeps_def)
      have ap: "[off..<off + ?m] @ [off + ?m..<off + k] = [off..<off + k]" using C(2) False upt_add_eq_append [of off "off + ?m" "k - ?m"] by simp
      show ?thesis
      proof (rule "1.IH" [OF _ refl _ ft])
        show "k \<noteq> 0" "?m \<noteq> 0" using C(1) False by simp_all
        fix u assume u: "fcx A L V i u" "tx_keeps t u"
        have "off + ?m + (k - ?m) = off + k" using C(2) False by simp
        then have "?xs @ map (fdata V (addrs t i)) [off + ?m..<off + ?m + (k - ?m)] = map (fdata V ?as) [off..<off + k]"
          using ap unfolding at by (metis map_append)
        then show "Q (?xs @ map (fdata V (addrs t i)) [off + ?m..<off + ?m + (k - ?m)]) u"
          using "1.prems"(2) [OF u(1) tx_keeps_trans [OF t(2) u(2)]] by simp
      qed
    qed
    have "wp (bmap_read i ?bn) (\<lambda>addr. wp (kbind (if addr = 0 then kreturn (replicate ?m 0)
             else kbind (inode_at i) (\<lambda>ip. kbind (bread (i_dev ip) addr) (\<lambda>bp. kbind (buf_data bp) (\<lambda>d.
                  kthen (brelse bp) (kreturn (slice d (off mod BSIZE) ?m)))))) (\<lambda>xs.
          kbind (readi_loop i (chunks (off + ?m) (k - ?m))) (\<lambda>ys. kreturn (xs @ ys)))) Q) s"
    proof (rule bmap_read_tx [OF "1.prems"(1) n])
      fix t assume t: "tx A {} L V t" "tx_keeps s t"
      have dev: "i_dev (icache t i) = ROOTDEV" using fs_rest(1) [of t s] t(2) S(4) by (simp add: tx_keeps_def)
      show "wp (kbind (if ?b = 0 then kreturn (replicate ?m 0)
             else kbind (inode_at i) (\<lambda>ip. kbind (bread (i_dev ip) ?b) (\<lambda>bp. kbind (buf_data bp) (\<lambda>d.
                  kthen (brelse bp) (kreturn (slice d (off mod BSIZE) ?m)))))) (\<lambda>xs.
          kbind (readi_loop i (chunks (off + ?m) (k - ?m))) (\<lambda>ys. kreturn (xs @ ys)))) Q t"
      proof (cases "?b = 0")
        case True
        then show ?thesis using rest [OF t] xs by simp
      next
        case b0: False
        have "wp (bread ROOTDEV ?b) (\<lambda>bp. wp (buf_data bp) (\<lambda>d. wp (brelse bp) (\<lambda>_.
            wp (readi_loop i (chunks (off + ?m) (k - ?m))) (\<lambda>ys. Q (slice d (off mod BSIZE) ?m @ ys))))) t"
          by (rule lt.look [OF t(1) bA [OF b0] _ room]) (use rest tx_keeps_trans [OF t(2)] xs b0 in simp_all)
        then show ?thesis using b0 dev by (simp add: inode_at_def)
      qed
    qed
    then show ?thesis using False C(4) by (simp add: Let_def)
  qed
qed

definition rd_result :: "(u32 \<Rightarrow> bytes) \<Rightarrow> u32 list \<Rightarrow> u32 \<Rightarrow> u32 \<Rightarrow> u32 \<Rightarrow> int \<times> bytes" where
  "rd_result V as sz off n =
     (if sz < off \<or> off + n < off then (- 1, [])
      else let n' = (if sz < off + n then sz - off else n) in
        (sint n', map (fdata V as) [unat off..<unat off + unat n']))"

lemma readi_tx:
  fixes s :: "'a fstate_scheme"
  assumes s: "fcx A L V i s" and n: "card L \<le> 8" and ty: "d_type (i_di (icache s i)) \<noteq> T_DEV"
    and Q: "\<And>t. fcx A L V i t \<Longrightarrow> tx_keeps s t \<Longrightarrow> Q (rd_result V (addrs s i) (isize s i) off cnt) t"
  shows "wp (readi dv i off cnt) Q s"
proof (cases "isize s i < off \<or> off + cnt < off")
  case True
  then show ?thesis using Q [OF s tx_keeps_refl [OF txD(8) [OF fcxD(1) [OF s]]]] ty
    by (auto simp: readi_def inode_at_def Let_def rd_result_def isize_def)
next
  case False
  let ?n = "if isize s i < off + cnt then isize s i - off else cnt"
  have "wp (readi_loop i (chunks (unat off) (unat ?n))) (\<lambda>bs. Q (sint ?n, bs)) s"
    by (rule readi_loop_tx [OF s n]) (use Q False in \<open>simp add: rd_result_def Let_def\<close>)
  then show ?thesis using False ty by (auto simp: readi_def inode_at_def Let_def isize_def)
qed

end
