(* ===== verification/FsWrite.thy ===== *)
theory FsWrite
  imports FsFile
begin

text \<open>
  Writing: the disk inode as an encoding of the inode in memory, \<open>iupdate\<close>, and \<open>writei\<close>.
\<close>


subsection \<open>The disk inode\<close>

lemma length_put_words [simp]: "off + 4 * length ws \<le> length d \<Longrightarrow> length (put_words ws off d) = length d"
  by (induction ws arbitrary: off d) auto

lemma nth_put_words_other:
  "off + 4 * length ws \<le> length d \<Longrightarrow> j < length d \<Longrightarrow> j < off \<or> off + 4 * length ws \<le> j \<Longrightarrow> put_words ws off d ! j = d ! j"
  by (induction ws arbitrary: off d) (auto simp: nth_put32_other)

lemma get32_cong: "(\<And>k. k < 4 \<Longrightarrow> d ! (off + k) = d' ! (off + k)) \<Longrightarrow> get32 d off = get32 d' off"
proof -
  assume *: "\<And>k. k < 4 \<Longrightarrow> d ! (off + k) = d' ! (off + k)"
  show ?thesis unfolding get32_def using * [of 0] * [of 1] * [of 2] * [of 3] by simp
qed

lemma get16_cong: "(\<And>k. k < 2 \<Longrightarrow> d ! (off + k) = d' ! (off + k)) \<Longrightarrow> get16 d off = get16 d' off"
proof -
  assume *: "\<And>k. k < 2 \<Longrightarrow> d ! (off + k) = d' ! (off + k)"
  show ?thesis unfolding get16_def using * [of 0] * [of 1] by simp
qed

lemma get32_put_words_other:
  "off + 4 * length ws \<le> length d \<Longrightarrow> o' + 4 \<le> length d \<Longrightarrow> o' + 4 \<le> off \<or> off + 4 * length ws \<le> o' \<Longrightarrow>
   get32 (put_words ws off d) o' = get32 d o'"
  by (rule get32_cong) (auto intro!: nth_put_words_other)

lemma get16_put_words_other:
  "off + 4 * length ws \<le> length d \<Longrightarrow> o' + 2 \<le> length d \<Longrightarrow> o' + 2 \<le> off \<or> off + 4 * length ws \<le> o' \<Longrightarrow>
   get16 (put_words ws off d) o' = get16 d o'"
  by (rule get16_cong) (auto intro!: nth_put_words_other)

lemma get32_put_words:
  "off + 4 * length ws \<le> length d \<Longrightarrow> k < length ws \<Longrightarrow> get32 (put_words ws off d) (off + 4 * k) = ws ! k"
proof (induction ws arbitrary: off d k)
  case (Cons w ws)
  show ?case
  proof (cases k)
    case 0
    then show ?thesis using Cons.prems get32_put_words_other [of "off + 4" ws "put32 d off w" off] by simp
  next
    case (Suc j)
    have "get32 (put_words ws (off + 4) (put32 d off w)) (off + 4 + 4 * j) = ws ! j"
      using Cons.prems Suc by (intro Cons.IH) simp_all
    then show ?thesis using Suc by (simp add: add.assoc add.commute)
  qed
qed simp

lemma get_words_put_words:
  "off + 4 * length ws \<le> length d \<Longrightarrow> get_words (put_words ws off d) off (length ws) = ws"
  by (rule nth_equalityI) (simp_all add: get_words_def get32_put_words)

text \<open>What \<open>iupdate\<close> stores, \<open>ilock\<close> loads; the other inodes of the block are not touched.\<close>

lemma get_put_dinode:
  assumes "length (d_addrs di) = NDIRECT + 2" "length d = BSIZE" "k < IPB"
  shows "get_dinode (put_dinode di k d) k = di" "length (put_dinode di k d) = BSIZE"
proof -
  let ?o = "64 * k"
  have o: "?o + 64 \<le> BSIZE" using assms(3) by (simp add: fs_consts)
  let ?d1 = "put16 d ?o (d_type di)" let ?d2 = "put16 ?d1 (?o + 2) (d_major di)"
  let ?d3 = "put16 ?d2 (?o + 4) (d_minor di)" let ?d4 = "put16 ?d3 (?o + 6) (d_nlink di)"
  let ?d5 = "put32 ?d4 (?o + 8) (d_size di)"
  have l: "length ?d1 = BSIZE" "length ?d2 = BSIZE" "length ?d3 = BSIZE" "length ?d4 = BSIZE" "length ?d5 = BSIZE"
    using assms(2) o by simp_all
  have a: "?o + 12 + 4 * length (d_addrs di) \<le> length ?d5" using o l assms(1) by (simp add: fs_consts)
  have p: "put_dinode di k d = put_words (d_addrs di) (?o + 12) ?d5" by (simp add: put_dinode_def)
  show "length (put_dinode di k d) = BSIZE" unfolding p using a l by simp
  have w: "get16 (put_dinode di k d) x = get16 ?d5 x" if "x + 2 \<le> ?o + 12" for x
    unfolding p by (rule get16_put_words_other [OF a]) (use that o l in simp_all)
  have s: "get32 (put_dinode di k d) (?o + 8) = get32 ?d5 (?o + 8)"
    unfolding p by (rule get32_put_words_other [OF a]) (use o l in simp_all)
  have "get16 ?d5 ?o = d_type di" "get16 ?d5 (?o + 2) = d_major di" "get16 ?d5 (?o + 4) = d_minor di"
    "get16 ?d5 (?o + 6) = d_nlink di" "get32 ?d5 (?o + 8) = d_size di"
    using l o assms(2) by (simp_all add: get_put_other)
  moreover have "get_words (put_dinode di k d) (?o + 12) (NDIRECT + 2) = d_addrs di"
    unfolding p using get_words_put_words [OF a] assms(1) by simp
  ultimately show "get_dinode (put_dinode di k d) k = di"
    unfolding get_dinode_def using w s by simp
qed

lemma nth_put_dinode_other:
  assumes "length (d_addrs di) = NDIRECT + 2" "length d = BSIZE" "k < IPB" "j < BSIZE" "j < 64 * k \<or> 64 * k + 64 \<le> j"
  shows "put_dinode di k d ! j = d ! j"
proof -
  let ?o = "64 * k"
  have o: "?o + 64 \<le> BSIZE" using assms(3) by (simp add: fs_consts)
  let ?d1 = "put16 d ?o (d_type di)" let ?d2 = "put16 ?d1 (?o + 2) (d_major di)"
  let ?d3 = "put16 ?d2 (?o + 4) (d_minor di)" let ?d4 = "put16 ?d3 (?o + 6) (d_nlink di)"
  let ?d5 = "put32 ?d4 (?o + 8) (d_size di)"
  have l: "length ?d1 = BSIZE" "length ?d2 = BSIZE" "length ?d3 = BSIZE" "length ?d4 = BSIZE" "length ?d5 = BSIZE"
    using assms(2) o by simp_all
  have a: "?o + 12 + 4 * length (d_addrs di) \<le> length ?d5" "?o + 12 + 4 * length (d_addrs di) = ?o + 64"
    using o l assms(1) by (simp_all add: fs_consts)
  have "put_dinode di k d ! j = ?d5 ! j"
    unfolding put_dinode_def by (rule nth_put_words_other [OF a(1)]) (use a assms(4,5) l in auto)
  also have "\<dots> = ?d4 ! j" by (rule nth_put32_other) (use o l assms(4,5) in auto)
  also have "\<dots> = ?d3 ! j" by (rule nth_put16_other) (use o l assms(4,5) in auto)
  also have "\<dots> = ?d2 ! j" by (rule nth_put16_other) (use o l assms(4,5) in auto)
  also have "\<dots> = ?d1 ! j" by (rule nth_put16_other) (use o l assms(4,5) in auto)
  also have "\<dots> = d ! j" by (rule nth_put16_other) (use o assms(2,4,5) in auto)
  finally show ?thesis .
qed

lemma get_dinode_cong:
  assumes "\<And>j. 64 * k \<le> j \<Longrightarrow> j < 64 * k + 64 \<Longrightarrow> d ! j = d' ! j"
  shows "get_dinode d k = get_dinode d' k"
proof -
  have h: "get16 d (64 * k + x) = get16 d' (64 * k + x)" if "x \<le> 6" for x
    by (rule get16_cong) (use that assms in auto)
  have w: "get32 d (64 * k + x) = get32 d' (64 * k + x)" if "x \<le> 60" for x
    by (rule get32_cong) (use that assms in auto)
  have "get_words d (64 * k + 12) (NDIRECT + 2) = get_words d' (64 * k + 12) (NDIRECT + 2)"
    using w by (auto simp: get_words_def fs_consts add.assoc)
  then show ?thesis unfolding get_dinode_def using h [of 0] h [of 2] h [of 4] h [of 6] w [of 8] by simp
qed

lemma get_put_dinode_other:
  assumes "length (d_addrs di) = NDIRECT + 2" "length d = BSIZE" "k < IPB" "k' < IPB" "k \<noteq> k'"
  shows "get_dinode (put_dinode di k d) k' = get_dinode d k'"
  by (rule get_dinode_cong, rule nth_put_dinode_other [OF assms(1-3)]) (use assms(4,5) in \<open>auto simp: fs_consts\<close>)


subsection \<open>Writing back the inode\<close>

definition ib :: "'a fstate_scheme \<Rightarrow> nat \<Rightarrow> u32" where
  "ib s i = IBLOCK (i_inum (icache s i))"

definition ik :: "'a fstate_scheme \<Rightarrow> nat \<Rightarrow> nat" where
  "ik s i = unat (i_inum (icache s i)) mod IPB"

lemma iupdate_tx:
  fixes s :: "'a fstate_scheme"
  assumes s: "tx A {} L V s" "in_tx s" and dev: "i_dev (icache s i) = ROOTDEV" and ib: "ib s i \<notin> A"
    and len: "length (addrs s i) = NDIRECT + 2" and n: "card L \<le> 8"
    and Q: "\<And>t. tx A {} (insert (ib s i) L) (V(ib s i := put_dinode (i_di (icache s i)) (ik s i) (V (ib s i)))) t \<Longrightarrow>
      tx_keeps s t \<Longrightarrow> Q () t"
  shows "wp (iupdate i) Q s"
proof -
  let ?x = "ib s i"
  have l: "length (put_dinode (i_di (icache s i)) (ik s i) (V ?x)) = BSIZE"
    using get_put_dinode(2) [of "i_di (icache s i)" "V ?x" "ik s i"] len lt.len_law [OF s(1) ib]
    by (simp add: addrs_def ik_def fs_consts)
  have "wp (bread ROOTDEV ?x) (\<lambda>bp. wp (buf_data bp) (\<lambda>d. wp (buf_store bp (put_dinode (i_di (icache s i)) (ik s i) d))
      (\<lambda>_. wp (log_write bp) (\<lambda>_. wp (brelse bp) (\<lambda>_. Q ()))))) s"
  proof (rule lt.edit [OF s ib])
    show "length (put_dinode (i_di (icache s i)) (ik s i) (V ?x)) = BSIZE" by (rule l)
    show "card L < LOGSIZE - 1" using n by (simp add: LOGSIZE_def)
    show "card (insert ?x ({} \<union> L)) < NBUF"
      using n lt.fin_law [OF s(1)] by (simp add: NBUF_def card_insert_if)
  qed (use Q in simp_all)
  then show ?thesis using dev by (simp add: iupdate_def inode_at_def ib_def ik_def)
qed


subsection \<open>Writing data\<close>

lemma slot_val_cong:
  assumes "\<And>p. is_slot p \<Longrightarrow> \<not> is_leaf p \<Longrightarrow> slot_val V as p \<noteq> 0 \<Longrightarrow> V' (slot_val V as p) = V (slot_val V as p)"
  shows "is_slot r \<Longrightarrow> slot_val V' as r = slot_val V as r"
proof (induction r)
  case (Sub p k)
  then show ?case using is_slot_parent [OF Sub.prems] assms [of p] by auto
qed simp

lemma tree_cong:
  assumes "\<And>p. is_slot p \<Longrightarrow> slot_val V' as' p = slot_val V as p"
  shows "tree V' as' = tree V as"
  using assms unfolding tree_def by force

definition writes :: "u32 set \<Rightarrow> (u32 \<Rightarrow> bytes) \<Rightarrow> u32 list \<Rightarrow> nat \<Rightarrow> bytes \<Rightarrow> (u32 \<Rightarrow> bytes) \<Rightarrow> u32 list \<Rightarrow> bool" where
  "writes A V as off bs V' as' \<longleftrightarrow> fs_ok A V' \<and> tree_ok A V' as' \<and> V' 1 = V 1 \<and> free V' \<subseteq> free V
     \<and> (\<forall>x. fdata V' as' x = (if off \<le> x \<and> x < off + length bs then bs ! (x - off) else fdata V as x))
     \<and> tree V' as' \<subseteq> tree V as \<union> free V
     \<and> (\<forall>x. x \<notin> tree V as \<longrightarrow> x \<notin> free V \<longrightarrow> x \<notin> bmbs V \<longrightarrow> V' x = V x)"

lemma writes_nil: "fs_ok A V \<Longrightarrow> tree_ok A V as \<Longrightarrow> writes A V as off [] V as"
  by (auto simp: writes_def)

lemma writes_append:
  assumes "writes A V as off bs V' as'" "writes A V' as' (off + length bs) cs V'' as''"
  shows "writes A V as off (bs @ cs) V'' as''"
proof -
  have "bmbs V' = bmbs V" using assms(1) layout_cong(3) [of V' V] by (simp add: writes_def)
  moreover have "fdata V'' as'' x = (if off \<le> x \<and> x < off + length (bs @ cs) then (bs @ cs) ! (x - off) else fdata V as x)" for x
    using assms by (auto simp: writes_def nth_append)
  ultimately show ?thesis using assms unfolding writes_def by (auto 0 3)
qed

text \<open>Data written into a block of the file leaves the tree and the bitmap alone.\<close>

lemma put_data_tree:
  assumes t: "tree_ok A V as" and a: "fblk V as bn = a" "a \<noteq> 0"
  shows "is_slot r \<Longrightarrow> slot_val (V(a := d)) as r = slot_val V as r" "x \<in> meta V \<Longrightarrow> (V(a := d)) x = V x" "free (V(a := d)) = free V"
    "bmb (V(a := d)) = bmb V" "a \<in> tree V as" "a \<notin> A"
proof -
  have at: "a \<in> tree V as" "bn < MAXFILE" using fblk_tree [of V as bn] a by simp_all
  have la: "slot_val V as (leaf bn) = a" using a(1) at(2) by (simp add: fblk_def)
  have lf: "is_leaf (leaf bn)" "is_slot (leaf bn)" using leaf_is_leaf [OF at(2)] is_leaf_slot by blast+
  have aA: "a \<notin> A" "a \<notin> meta V" using tree_okD(3) [OF t at(1)] by blast+
  show "slot_val (V(a := d)) as r = slot_val V as r" if "is_slot r"
    using that
  proof (rule slot_val_cong [rotated])
    fix p assume p: "is_slot p" "\<not> is_leaf p" "slot_val V as p \<noteq> 0"
    then have "slot_val V as p \<noteq> a" using tree_okD(2) [OF t p(1) lf(2)] la lf(1) by auto
    then show "(V(a := d)) (slot_val V as p) = V (slot_val V as p)" by simp
  qed
  show m: "(V(a := d)) x = V x" if "x \<in> meta V" for x using that aA(2) by auto
  have one: "(V(a := d)) 1 = V 1" using m [of 1] by (simp add: meta_def)
  show "free (V(a := d)) = free V" by (rule free_cong [of "V(a := d)" V, OF one]) (use m in \<open>simp add: meta_def\<close>)
  show "bmb (V(a := d)) = bmb V" using layout_cong(2) [of "V(a := d)" V] one by simp
  show "a \<in> tree V as" "a \<notin> A" by fact+
qed

lemma put_data_writes:
  assumes g: "grows A V as V' as'" and len: "blocks_ok A V'" and a: "fblk V' as' (off div BSIZE) = a" "a \<noteq> 0"
    and fit: "off mod BSIZE + length bs \<le> BSIZE"
  shows "writes A V as off bs (V'(a := splice (V' a) (off mod BSIZE) bs)) as'"
proof -
  let ?V = "V'(a := splice (V' a) (off mod BSIZE) bs)" and ?bn = "off div BSIZE"
  have t: "tree_ok A V' as'" "fs_ok A V'" "V' 1 = V 1" using g by (simp_all add: grows_def)
  note T = put_data_tree(1-4) [OF t(1) a, where d = "splice (V' a) (off mod BSIZE) bs"] put_data_tree(5,6) [OF t(1) a]
  note sv = T(1) and m = T(2) and fr = T(3) and at = T(5) fblk_tree(2) [of V' as' ?bn, unfolded a(1), OF a(2)]
  have la: "slot_val V' as' (leaf ?bn) = a" using a(1) at(2) by (simp add: fblk_def)
  have lf: "is_leaf (leaf ?bn)" "is_slot (leaf ?bn)" using leaf_is_leaf [OF at(2)] is_leaf_slot by blast+
  have l: "length (V' a) = BSIZE" using len T(6) by (simp add: blocks_ok_def)
  have tr: "tree ?V as' = tree V' as'" by (rule tree_cong) (rule sv)
  have one: "?V 1 = V' 1" using m [of 1] by (simp add: meta_def)
  have ok: "fs_ok A ?V" by (rule fs_ok_cong [of A V' ?V, OF t(2) one]) (use m in \<open>simp add: meta_def\<close>)
  have "inj_on (slot_val ?V as') {p. is_slot p \<and> slot_val ?V as' p \<noteq> 0}"
    by (rule inj_onI) (use tree_okD(2) [OF t(1)] sv in auto)
  then have "tree_ok A ?V as'"
    using t(1) tr fr layout_cong(5) [of ?V V', OF one] unfolding tree_ok_def by simp
  moreover have "fdata ?V as' x = (if off \<le> x \<and> x < off + length bs then bs ! (x - off) else fdata V as x)" for x
  proof -
    have fb: "fblk ?V as' bn = fblk V' as' bn" for bn
      using sv [OF is_leaf_slot [OF leaf_is_leaf]] by (simp add: fblk_def)
    have old: "fdata V' as' = fdata V as" using g by (simp add: grows_def)
    show ?thesis
    proof (cases "x div BSIZE = ?bn")
      case True
      have x: "x = x mod BSIZE + ?bn * BSIZE" "off = off mod BSIZE + ?bn * BSIZE" using True by (metis mod_div_mult_eq)+
      have lt: "x mod BSIZE < BSIZE" by (simp add: BSIZE_def)
      have i: "off \<le> x \<and> x < off + length bs \<longleftrightarrow> off mod BSIZE \<le> x mod BSIZE \<and> x mod BSIZE < off mod BSIZE + length bs"
        "off \<le> x \<Longrightarrow> x - off = x mod BSIZE - off mod BSIZE" using x by linarith+
      have "fdata ?V as' x = splice (V' a) (off mod BSIZE) bs ! (x mod BSIZE)"
        unfolding fdata_def fb True using a by simp
      moreover have "fdata V as x = V' a ! (x mod BSIZE)" unfolding old [symmetric] fdata_def True using a by simp
      ultimately show ?thesis using nth_splice [of "off mod BSIZE" bs "V' a" "x mod BSIZE"] fit l lt i by auto
    next
      case False
      have ne: "\<not> (off \<le> x \<and> x < off + length bs)"
      proof
        assume x: "off \<le> x \<and> x < off + length bs"
        have "x = off + (x - off)" "off mod BSIZE + (x - off) < BSIZE" using x fit by linarith+
        moreover from this have "(off + (x - off)) div BSIZE = ?bn"
          using chunk_step(5) [of "Suc (x - off)" "Suc (x - off)" off "x - off"] by simp
        ultimately show False using False by simp
      qed
      have "fblk V' as' (x div BSIZE) = 0 \<or> fblk V' as' (x div BSIZE) \<noteq> a"
      proof (rule ccontr)
        assume *: "\<not> ?thesis"
        then have x: "x div BSIZE < MAXFILE" using a(2) by (auto simp: fblk_def split: if_splits)
        have "leaf (x div BSIZE) = leaf ?bn"
          using tree_okD(2) [OF t(1) is_leaf_slot [OF leaf_is_leaf [OF x]] lf(2)] * la x a(2) by (simp add: fblk_def)
        then show False using leaf_inj False by blast
      qed
      then show ?thesis using ne unfolding old [symmetric] fdata_def fb by auto
    qed
  qed
  moreover have "?V x = V x" if "x \<notin> tree V as" "x \<notin> free V" "x \<notin> bmbs V" for x
    using that g at(1) by (auto simp: grows_def)
  ultimately show ?thesis using g ok one fr tr t(3) unfolding writes_def grows_def by auto
qed


text \<open>The slots that a write goes through.\<close>

definition write_slots :: "nat \<Rightarrow> nat \<Rightarrow> slot set" where
  "write_slots off n = (\<Union>c \<in> set (chunks off n). anc (leaf (fst c)))"

lemma writei_loop_tx:
  fixes s :: "'a fstate_scheme"
  assumes "fcx A L V i s" "in_tx s" "length src = n" "off + n \<le> MAXFILE * BSIZE"
    and "budget U P R V (addrs s i) L" "write_slots off n \<subseteq> P"
    and "\<And>L' V' t. fcx A L' V' i t \<Longrightarrow> fs_keeps i s t \<Longrightarrow> isize t i = isize s i \<Longrightarrow>
      writes A V (addrs s i) off src V' (addrs t i) \<Longrightarrow> budget U P R V' (addrs t i) L' \<Longrightarrow> Q () t"
  shows "wp (writei_loop i src (chunks off n)) Q s"
  using assms
proof (induction off n arbitrary: s Q L V src rule: chunks.induct)
  case (1 off n)
  note S = fcxD [OF "1.prems"(1)]
  let ?as = "addrs s i" and ?bn = "off div BSIZE"
  show ?case
  proof (cases "n = 0")
    case True
    have "writes A V ?as off src V ?as" using True "1.prems"(3) writes_nil [OF S(2,3)] by simp
    then have "Q () s"
      using "1.prems"(7) [OF "1.prems"(1) fs_keeps_tx [OF tx_keeps_refl [OF txD(8) [OF S(1)]]]] "1.prems"(5) by simp
    then show ?thesis using True by (simp add: chunks.simps)
  next
    case False
    obtain m where mm: "m = min n (BSIZE - off mod BSIZE)" by blast
    note C = chunk_step [OF _ mm]
    have ch: "chunks off n = (?bn, off mod BSIZE, m) # chunks (off + m) (n - m)" using C(4) False by simp
    have P: "anc (leaf ?bn) \<subseteq> P" "write_slots (off + m) (n - m) \<subseteq> P" using "1.prems"(6) by (simp_all add: write_slots_def ch)
    have bn: "?bn < MAXFILE"
    proof -
      have "off < MAXFILE * BSIZE" using "1.prems"(4) False by simp
      then show ?thesis by (rule less_mult_imp_div_less)
    qed
    have m: "off mod BSIZE + m \<le> BSIZE" "m \<le> n" using C(2,3) False by simp_all
    have "wp (bmap i ?bn) (\<lambda>addr. wp (bread ROOTDEV addr) (\<lambda>bp. wp (buf_data bp) (\<lambda>d.
        wp (buf_store bp (splice d (off mod BSIZE) (take m src))) (\<lambda>_. wp (log_write bp) (\<lambda>_. wp (brelse bp)
        (\<lambda>_. wp (writei_loop i (drop m src) (chunks (off + m) (n - m))) Q)))))) s"
    proof (rule bmap_tx [OF "1.prems"(1,2) bn "1.prems"(5) P(1)])
      fix a L1 V1 t
      assume t: "fcx A L1 V1 i t" "fs_keeps i s t" "isize t i = isize s i" "grows A V ?as V1 (addrs t i)"
        "fblk V1 (addrs t i) ?bn = a" "a \<noteq> 0" "budget U P R V1 (addrs t i) L1"
      note T = fcxD [OF t(1)]
      let ?V2 = "V1(a := splice (V1 a) (off mod BSIZE) (take m src))"
      have aA: "a \<notin> A" using fblk_tree(1) [of V1 "addrs t i" ?bn] t(5,6) tree_okD(3) [OF T(3)] by auto
      have it: "in_tx t" using fs_keepsD(4) [OF t(2)] "1.prems"(2) by simp
      have lm: "length (take m src) = m" using "1.prems"(3) m(2) by simp
      have W: "writes A V ?as off (take m src) ?V2 (addrs t i)"
        by (rule put_data_writes [OF t(4) T(6) t(5,6)]) (use lm m(1) in simp)
      note D = put_data_tree [OF T(3) t(5,6)]
      have la: "slot_val V1 (addrs t i) (leaf ?bn) = a" "leaf ?bn \<in> P" using t(5) bn P(1) anc_self by (auto simp: fblk_def)
      have bg: "budget U P R V1 (addrs t i) (insert a L1)" using budget_room(2) [OF t(7) la(2)] la(1) t(6) by simp
      have bg2: "budget U P R ?V2 (addrs t i) (insert a L1)" by (rule budget_cong [OF bg D(1,3,4)])
      show "wp (bread ROOTDEV a) (\<lambda>bp. wp (buf_data bp) (\<lambda>d.
          wp (buf_store bp (splice d (off mod BSIZE) (take m src))) (\<lambda>_. wp (log_write bp) (\<lambda>_. wp (brelse bp)
          (\<lambda>_. wp (writei_loop i (drop m src) (chunks (off + m) (n - m))) Q))))) t"
      proof (rule lt.edit [OF T(1) it aA])
        show "length (splice (V1 a) (off mod BSIZE) (take m src)) = BSIZE"
          using T(6) aA lm m(1) by (simp add: blocks_ok_def)
        show "card L1 < LOGSIZE - 1" "card (insert a ({} \<union> L1)) < NBUF"
          using budget_room(1) [OF t(7)] budget_room(1) [OF bg] by (simp_all add: LOGSIZE_def NBUF_def)
        fix j u assume u: "tx A {} (insert a L1) ?V2 u" "tx_keeps t u"
        have au: "addrs u i = addrs t i" "isize u i = isize t i"
          using fs_rest(1) [of u t] u(2) by (simp_all add: addrs_def isize_def tx_keeps_def)
        have fu: "fcx A (insert a L1) ?V2 i u"
          using u T W fs_rest(1) [of u t] au by (simp add: fcx_def writes_def tx_keeps_def)
        have ku: "fs_keeps i s u" by (rule fs_keeps_trans [OF t(2) fs_keeps_tx [OF u(2)]])
        show "wp (writei_loop i (drop m src) (chunks (off + m) (n - m))) Q u"
        proof (rule "1.IH" [OF False mm _ fu])
          show "m \<noteq> 0" using C(1) False by simp
          show "in_tx u" using lt.keeps_open [OF u(2)] it by simp
          show "length (drop m src) = n - m" using "1.prems"(3) by simp
          show "off + m + (n - m) \<le> MAXFILE * BSIZE" using "1.prems"(4) m(2) by simp
          show "budget U P R ?V2 (addrs u i) (insert a L1)" using bg2 au by simp
          show "write_slots (off + m) (n - m) \<subseteq> P" by (rule P(2))
          fix L3 V3 v
          assume v: "fcx A L3 V3 i v" "fs_keeps i u v" "isize v i = isize u i"
            "writes A ?V2 (addrs u i) (off + m) (drop m src) V3 (addrs v i)"
            "budget U P R V3 (addrs v i) L3"
          have "writes A V ?as off (take m src @ drop m src) V3 (addrs v i)"
            by (rule writes_append [OF W]) (use v(4) au lm in simp)
          then have "writes A V ?as off src V3 (addrs v i)" by simp
          then show "Q () v"
            using "1.prems"(7) [OF v(1) fs_keeps_trans [OF ku v(2)]] v(3,5) au t(3) by simp
        qed
      qed simp
    qed
    then show ?thesis using S(4) by (simp add: ch inode_at_def)
  qed
qed


text \<open>What a file is depends on the super block, the bitmap and the blocks of the file.\<close>

lemma file_view_cong:
  assumes ok: "fs_ok A V" "tree_ok A V as" and one: "V' 1 = V 1" and bm: "\<And>b. b \<in> bmbs V \<Longrightarrow> V' b = V b"
    and tr: "\<And>b. b \<in> tree V as \<Longrightarrow> V' b = V b"
  shows "fs_ok A V'" "tree_ok A V' as" "fdata V' as = fdata V as" "free V' = free V" "tree V' as = tree V as"
    "is_slot r \<Longrightarrow> slot_val V' as r = slot_val V as r"
proof -
  show fr: "free V' = free V" by (rule free_cong [of V' V, OF one bm])
  show fs: "fs_ok A V'" by (rule fs_ok_cong [of A V V', OF ok(1) one bm])
  show sv: "slot_val V' as r = slot_val V as r" if "is_slot r" for r
    by (rule slot_val_cong [OF _ that]) (use tr treeI in auto)
  show te: "tree V' as = tree V as" by (rule tree_cong) (rule sv)
  have "inj_on (slot_val V' as) {p. is_slot p \<and> slot_val V' as p \<noteq> 0}"
    by (rule inj_onI) (use tree_okD(2) [OF ok(2)] sv in auto)
  then show "tree_ok A V' as" using ok(2) te fr layout_cong(5) [of V' V, OF one] unfolding tree_ok_def by simp
  have fb: "fblk V' as bn = fblk V as bn" for bn
    using sv [OF is_leaf_slot [OF leaf_is_leaf]] by (simp add: fblk_def)
  have "V' (fblk V as bn) = V (fblk V as bn)" if "fblk V as bn \<noteq> 0" for bn
    using tr [OF fblk_tree(1) [OF that]] by simp
  then show "fdata V' as = fdata V as" by (auto simp: fun_eq_iff fdata_def fb)
qed

text \<open>A change of an inode block touches neither the bitmap nor a file.\<close>

lemma meta_upd:
  assumes ok: "fs_ok A V" "tree_ok A V as" and x: "x \<in> ibs V" and V': "V' = V(x := d)"
  shows "fs_ok A V'" "tree_ok A V' as" "fdata V' as = fdata V as" "free V' = free V" "tree V' as = tree V as" "V' 1 = V 1"
    "is_slot r \<Longrightarrow> slot_val V' as r = slot_val V as r"
proof -
  have nx: "x \<noteq> 1" "x \<notin> bmbs V" using x fs_okD(4,5) [OF ok(1)] by auto
  show one: "V' 1 = V 1" using nx V' by simp
  have bm: "V' b = V b" if "b \<in> bmbs V" for b using that nx V' by auto
  have "V' b = V b" if "b \<in> tree V as" for b using tree_okD(3) [OF ok(2) that] x V' by (auto simp: meta_def)
  note C = file_view_cong [of A V as V', OF ok one bm this]
  show "fs_ok A V'" "tree_ok A V' as" "fdata V' as = fdata V as" "free V' = free V" "tree V' as = tree V as"
    "is_slot r \<Longrightarrow> slot_val V' as r = slot_val V as r" by (rule C; assumption)+
qed

text \<open>
  What \<open>writei\<close> has done when it returns: the bytes are replaced, the size has grown to their end
  and then the inode on the disk is the one in memory, no block has changed but those of the
  file, free ones, the bitmap and the inode's own, and in the latter no byte of another inode.
\<close>

definition wrote :: "u32 set \<Rightarrow> (u32 \<Rightarrow> bytes) \<Rightarrow> 'a fstate_scheme \<Rightarrow> nat \<Rightarrow> u32 \<Rightarrow> bytes \<Rightarrow> (u32 \<Rightarrow> bytes) \<Rightarrow> 'a fstate_scheme \<Rightarrow> bool" where
  "wrote A V s i off bs V' t \<longleftrightarrow>
     (let new = off + of_nat (length bs); grew = (bs \<noteq> [] \<and> isize s i < new) in
      isize t i = (if grew then new else isize s i)
      \<and> (\<forall>x. fdata V' (addrs t i) x =
           (if unat off \<le> x \<and> x < unat off + length bs then bs ! (x - unat off) else fdata V (addrs s i) x))
      \<and> (grew \<longrightarrow> get_dinode (V' (ib s i)) (ik s i) = i_di (icache t i))
      \<and> V' 1 = V 1 \<and> free V' \<subseteq> free V
      \<and> (\<forall>x. x \<notin> tree V (addrs s i) \<longrightarrow> x \<notin> free V \<longrightarrow> x \<notin> bmbs V \<longrightarrow> x \<noteq> ib s i \<longrightarrow> V' x = V x)
      \<and> (\<forall>j < BSIZE. j < 64 * ik s i \<or> 64 * ik s i + 64 \<le> j \<longrightarrow> V' (ib s i) ! j = V (ib s i) ! j))"

lemma writei_tx:
  fixes s :: "'a fstate_scheme"
  assumes s: "fcx A L V i s" "in_tx s" and ty: "d_type (i_di (icache s i)) \<noteq> T_DEV"
    and ix: "ib s i \<in> ibs V" and src: "length src = unat n" and off: "off \<le> isize s i"
    and fits: "unat off + unat n \<le> MAXFILE * BSIZE"
    and bg: "budget U P R V (addrs s i) L" "write_slots (unat off) (unat n) \<subseteq> P"
    and Q: "\<And>L' V' t. fcx A L' V' i t \<Longrightarrow> fs_keeps i s t \<Longrightarrow> wrote A V s i off src V' t \<Longrightarrow>
      card L' \<le> 9 \<Longrightarrow> reserve U R V' (addrs t i) \<Longrightarrow> Q (sint n) t"
  shows "wp (writei dv i src off n) Q s"
proof -
  have sum: "unat (off + n) = unat off + unat n"
    using fits by (intro unat_add_lem [THEN iffD1]) (simp add: fs_consts)
  have nowrap: "\<not> off + n < off" "\<not> of_nat (MAXFILE * BSIZE) < off + n"
    using sum fits by (simp_all add: word_less_nat_alt fs_consts)
  have n: "of_nat (length src) = n" using src by simp
  have n0: "src \<noteq> [] \<longleftrightarrow> 0 < n" using src by (cases "n = 0") (auto simp: word_greater_zero_iff unat_eq_0)
  have "wp (writei_loop i src (chunks (unat off) (unat n))) (\<lambda>_ t. wp (kthen (kwhen (0 < n \<and> isize t i < off + n)
      (kthen (set_di i (\<lambda>di. di\<lparr>d_size := off + n\<rparr>)) (iupdate i))) (kreturn (sint n))) Q t) s"
  proof (rule writei_loop_tx [OF s src fits bg])
    fix L1 V1 t
    assume t: "fcx A L1 V1 i t" "fs_keeps i s t" "isize t i = isize s i"
      "writes A V (addrs s i) (unat off) src V1 (addrs t i)"
      "budget U P R V1 (addrs t i) L1"
    note T = fcxD [OF t(1)] and c8 = budget_room(1) [OF t(5)]
    have W: "fs_ok A V1" "tree_ok A V1 (addrs t i)" "V1 1 = V 1" "free V1 \<subseteq> free V" using t(4) by (simp_all add: writes_def)
    have ix1: "ib s i \<in> ibs V1" using ix layout_cong(4) [of V1 V, OF W(3)] by simp
    have ibA: "ib s i \<notin> A" using fs_okD(7) [OF W(1) ix1] .
    have ibs: "V1 (ib s i) = V (ib s i)"
    proof -
      have ok: "fs_ok A V" "tree_ok A V (addrs s i)" using fcxD(2,3) [OF s(1)] .
      have "ib s i \<in> meta V" "ib s i \<notin> bmbs V" using ix fs_okD(5) [OF ok(1)] by (auto simp: meta_def)
      moreover from this have "ib s i \<notin> tree V (addrs s i)" "ib s i \<notin> free V" using tree_okD(3) [OF ok(2)] fs_okD(8) [OF ok(1)] by blast+
      ultimately show ?thesis using t(4) by (simp add: writes_def)
    qed
    show "wp (kthen (kwhen (0 < n \<and> isize t i < off + n)
      (kthen (set_di i (\<lambda>di. di\<lparr>d_size := off + n\<rparr>)) (iupdate i))) (kreturn (sint n))) Q t"
    proof (cases "0 < n \<and> isize s i < off + n")
      case False
      then have "wrote A V s i off src V1 t" using t(3,4) n n0 ibs by (auto simp: wrote_def writes_def Let_def)
      moreover have "reserve U R V1 (addrs t i)" using t(5) by (simp add: budget_def)
      ultimately show ?thesis using Q [OF t(1,2)] t(3) c8 False by (auto simp: kwhen_def)
    next
      case True
      let ?u = "set_inode i (\<lambda>ip. ip\<lparr>i_di := (i_di ip)\<lparr>d_size := off + n\<rparr>\<rparr>) t"
      let ?di = "(i_di (icache t i))\<lparr>d_size := off + n\<rparr>"
      have ib: "ib ?u i = ib s i" "ik ?u i = ik s i" using fs_keepsD(3) [OF t(2)] by (simp_all add: ib_def ik_def)
      have au: "addrs ?u i = addrs t i" "isize ?u i = off + n" by (simp_all add: addrs_def isize_def)
      have la: "length (addrs t i) = NDIRECT + 2" using tree_okD(1) [OF W(2)] .
      have ku: "fs_keeps i s ?u"
        by (rule fs_keeps_trans [OF t(2)]) (use tx_prog_refl [OF txD(8) [OF T(1)]] in \<open>simp add: fs_keeps_def addrs_def isize_def\<close>)
      have "wp (iupdate i) (\<lambda>_. Q (sint n)) ?u"
      proof (rule iupdate_tx)
        show "tx A {} L1 V1 ?u" "in_tx ?u" "i_dev (icache ?u i) = ROOTDEV" "ib ?u i \<notin> A" "length (addrs ?u i) = NDIRECT + 2" "card L1 \<le> 8"
          using T(1,4) s(2) fs_keepsD(4) [OF t(2)] ib ibA la au c8 by simp_all
        fix v
        assume v: "tx A {} (insert (ib ?u i) L1) (V1(ib ?u i := put_dinode (i_di (icache ?u i)) (ik ?u i) (V1 (ib ?u i)))) v" "tx_keeps ?u v"
        have iv: "icache v = icache ?u" using fs_rest(1) [of v ?u] v(2) by (simp add: tx_keeps_def)
        let ?V2 = "V1(ib s i := put_dinode ?di (ik s i) (V1 (ib s i)))"
        note M = meta_upd [OF W(1,2) ix1 refl, where d = "put_dinode ?di (ik s i) (V1 (ib s i))"]
        have av: "addrs v i = addrs t i" "isize v i = off + n" "i_di (icache v i) = ?di"
          using iv by (simp_all add: addrs_def isize_def)
        have fv: "fcx A (insert (ib s i) L1) ?V2 i v" using v(1) M(1,2) av(1) iv T(4) ib by (simp add: fcx_def)
        have kv: "fs_keeps i s v" by (rule fs_keeps_trans [OF ku fs_keeps_tx [OF v(2)]])
        have "get_dinode (?V2 (ib s i)) (ik s i) = ?di"
          using get_put_dinode(1) [of ?di "V1 (ib s i)" "ik s i"] la lt.len_law [OF T(1) ibA]
          by (simp add: addrs_def ik_def fs_consts)
        moreover have "?V2 (ib s i) ! j = V (ib s i) ! j" if "j < BSIZE" "j < 64 * ik s i \<or> 64 * ik s i + 64 \<le> j" for j
          using nth_put_dinode_other [of ?di "V1 (ib s i)" "ik s i" j] that la ibs lt.len_law [OF T(1) ibA]
          by (simp add: addrs_def ik_def fs_consts)
        ultimately have "wrote A V s i off src ?V2 v"
          using t(4) M(3,4,6) av True n n0 W(3,4) unfolding wrote_def writes_def Let_def by auto
        moreover have "card (insert (ib s i) L1) \<le> 9" using c8 T(5) by (simp add: card_insert_if)
        moreover have "reserve U R ?V2 (addrs v i)" unfolding av(1)
        proof (rule reserve_cong)
          show "reserve U R V1 (addrs t i)" using t(5) by (simp add: budget_def)
          show "bmb ?V2 = bmb V1" by (rule layout_cong(2)) (rule M(6))
        qed (use M in simp_all)
        ultimately show "Q (sint n) v" by (rule Q [OF fv kv])
      qed
      then show ?thesis using True t(3) by (simp add: kwhen_def set_di_def)
    qed
  qed
  then show ?thesis using leD [OF off] nowrap src ty by (auto simp: writei_def inode_at_def isize_def Let_def simp del: not_less)
qed


subsection \<open>How many blocks a write visits\<close>

lemma chunks_blocks: "fst ` set (chunks off n) = (if n = 0 then {} else {off div BSIZE..(off + n - 1) div BSIZE})"
proof (induction off n rule: chunks.induct)
  case (1 off n)
  show ?case
  proof (cases "n = 0")
    case False
    obtain m where m: "m = min n (BSIZE - off mod BSIZE)" by blast
    note C = chunk_step [OF _ m]
    have ch: "chunks off n = (off div BSIZE, off mod BSIZE, m) # chunks (off + m) (n - m)" using C(4) False by simp
    have IH: "fst ` set (chunks (off + m) (n - m)) = (if n - m = 0 then {} else {(off + m) div BSIZE..(off + n - 1) div BSIZE})"
    proof -
      have mn: "m \<noteq> 0" "off + m + (n - m) = off + n" using C(1,2) False by simp_all
      from "1.IH" [OF False m mn(1)] show ?thesis unfolding mn(2) .
    qed
    have e: "(off + n - 1) div BSIZE = off div BSIZE" if "n = m" using C(5) [of "n - 1"] that C(1) False by simp
    have "(off + m) div BSIZE = off div BSIZE + 1" if "m < n"
    proof -
      have "m = BSIZE - off mod BSIZE" using m that by simp
      moreover have "off mod BSIZE < BSIZE" by (simp add: BSIZE_def)
      ultimately have "off + m = off div BSIZE * BSIZE + BSIZE" using div_mult_mod_eq [of off BSIZE] by linarith
      then show ?thesis by (simp add: BSIZE_def)
    qed
    moreover have "off div BSIZE \<le> (off + n - 1) div BSIZE" using False by (intro div_le_mono) simp
    ultimately show ?thesis using IH e C(2) False unfolding ch by (cases "m < n") auto
  qed (simp add: chunks.simps)
qed

lemma chunks_range: "c \<in> set (chunks off n) \<Longrightarrow> off div BSIZE \<le> fst c \<and> fst c \<le> (off + n - 1) div BSIZE"
  using chunks_blocks [of off n] by (auto split: if_splits)

lemma if_range: "(k' = 0 \<Longrightarrow> k = 0) \<Longrightarrow> c \<le> a \<Longrightarrow> b \<le> d \<Longrightarrow> (if k = 0 then {} else {a..b}) \<subseteq> (if k' = 0 then {} else {c..d})"
  for k k' a b c d :: nat
  by auto

lemma write_slots_mono:
  assumes "m \<le> n"
  shows "write_slots (off + m) (n - m) \<subseteq> write_slots off n" "write_slots off m \<subseteq> write_slots off n"
proof -
  have w: "write_slots a k = (\<Union>bn \<in> fst ` set (chunks a k). anc (leaf bn))" for a k by (simp add: write_slots_def)
  have le: "off div BSIZE \<le> (off + m) div BSIZE" "(off + m - 1) div BSIZE \<le> (off + n - 1) div BSIZE" using assms by (auto intro!: div_le_mono)
  have e: "off + m + (n - m) = off + n" using assms by simp
  have f1: "fst ` set (chunks (off + m) (n - m)) \<subseteq> fst ` set (chunks off n)"
    unfolding chunks_blocks e by (rule if_range [OF _ le(1) order_refl]) simp
  have f2: "fst ` set (chunks off m) \<subseteq> fst ` set (chunks off n)"
    unfolding chunks_blocks by (rule if_range [OF _ order_refl le(2)]) (use assms in simp)
  show "write_slots (off + m) (n - m) \<subseteq> write_slots off n" unfolding w by (rule UN_mono [OF f1 subset_refl])
  show "write_slots off m \<subseteq> write_slots off n" unfolding w by (rule UN_mono [OF f2 subset_refl])
qed

definition above :: "nat \<Rightarrow> slot set" where
  "above bn = (if bn < 11 then {} else if bn < 139 then {Top 11} else {Top 12, Sub (Top 12) ((bn - 139) div 128)})"

lemma anc_leaf: "anc (leaf bn) = insert (leaf bn) (above bn)"
  by (auto simp: leaf_def above_def fs_consts)

lemma above_four: "\<exists>X. (\<forall>bn. a \<le> bn \<longrightarrow> bn \<le> a + 3 \<longrightarrow> above bn \<subseteq> X) \<and> finite X \<and> card X \<le> 3"
proof -
  consider "a + 3 < 139" | "a < 139" "139 \<le> a + 3" | "139 \<le> a" by linarith
  then show ?thesis
  proof cases
    case 1
    then show ?thesis by (intro exI [of _ "{Top 11}"]) (auto simp: above_def)
  next
    case 2
    have "bn - 139 < 128" if "bn \<le> a + 3" for bn using 2 that by linarith
    then have "(bn - 139) div 128 = 0" if "bn \<le> a + 3" for bn using that by simp
    then have "\<forall>bn. a \<le> bn \<longrightarrow> bn \<le> a + 3 \<longrightarrow> above bn \<subseteq> {Top 11, Top 12, Sub (Top 12) 0}" by (auto simp: above_def)
    then show ?thesis by (intro exI [of _ "{Top 11, Top 12, Sub (Top 12) 0}"]) auto
  next
    case 3
    let ?q = "(a - 139) div 128"
    have "(bn - 139) div 128 = ?q \<or> (bn - 139) div 128 = ?q + 1" if "a \<le> bn" "bn \<le> a + 3" for bn
      using that 3 by linarith
    then have "\<forall>bn. a \<le> bn \<longrightarrow> bn \<le> a + 3 \<longrightarrow> above bn \<subseteq> {Top 12, Sub (Top 12) ?q, Sub (Top 12) (?q + 1)}"
      using 3 by (fastforce simp: above_def)
    then show ?thesis by (intro exI [of _ "{Top 12, Sub (Top 12) ?q, Sub (Top 12) (?q + 1)}"]) (auto simp: card_insert_if)
  qed
qed

text \<open>A write of at most 1536 bytes, which is what \<open>filewrite\<close> does in one transaction, goes through at most seven slots.\<close>

lemma write_slots_card: "n \<le> 1536 \<Longrightarrow> card (write_slots off n) \<le> 7"
proof -
  assume n: "n \<le> 1536"
  let ?a = "off div BSIZE"
  obtain X where X: "\<forall>bn. ?a \<le> bn \<longrightarrow> bn \<le> ?a + 3 \<longrightarrow> above bn \<subseteq> X" "finite X" "card X \<le> 3" using above_four by blast
  have "(off + n - 1) div BSIZE \<le> ?a + 3" using n by (simp add: BSIZE_def)
  then have "?a \<le> fst c \<and> fst c \<le> ?a + 3" if "c \<in> set (chunks off n)" for c using chunks_range [OF that] by linarith
  then have "write_slots off n \<subseteq> leaf ` {?a..?a + 3} \<union> X"
    using X(1) by (fastforce simp: write_slots_def anc_leaf)
  then have "card (write_slots off n) \<le> card (leaf ` {?a..?a + 3} \<union> X)" using X(2) by (intro card_mono) auto
  also have "\<dots> \<le> card (leaf ` {?a..?a + 3}) + card X" by (rule card_Un_le)
  also have "\<dots> \<le> 4 + 3" using X(3) card_image_le [of "{?a..?a + 3}" leaf] by simp
  finally show ?thesis by simp
qed

lemma write_slots_ok: "off + n \<le> MAXFILE * BSIZE \<Longrightarrow> finite (write_slots off n) \<and> (\<forall>p \<in> write_slots off n. is_slot p)"
proof -
  assume le: "off + n \<le> MAXFILE * BSIZE"
  have "is_slot (leaf (fst c))" if "c \<in> set (chunks off n)" for c
  proof -
    have "n \<noteq> 0" using that by (cases "n = 0") (simp_all add: chunks.simps [of off 0])
    then have "off + n - 1 < MAXFILE * BSIZE" using le by simp
    then have "(off + n - 1) div BSIZE < MAXFILE" by (rule less_mult_imp_div_less)
    then show ?thesis using chunks_range [OF that] by (intro is_leaf_slot leaf_is_leaf) simp
  qed
  then have "is_slot p" if "p \<in> write_slots off n" for p using that anc_slot unfolding write_slots_def by blast
  then show ?thesis by (simp add: write_slots_def)
qed

end
