(* ===== verification/FsSpec.thy ===== *)
theory FsSpec
  imports FsWrite
begin

text \<open>
  The properties of file contents: a write followed by a read returns the bytes, a write inside a transaction
  is atomic with respect to crashes, the encoding of inodes on the disk is faithful, and the
  block allocator hands out each free block once. A small file system with one empty file serves
  as the example in which their hypotheses hold.
\<close>


subsection \<open>An example\<close>

text \<open>
  A disk of 1024 blocks: super block 1, inode block 2, bitmap block 4, log from 1014. The
  blocks 96 to 119 are free. The kernel has booted from it and has an empty file in its inode cache.
\<close>

definition demo_fs_sb :: bytes where
  "demo_fs_sb = put32 (put32 (put32 (replicate BSIZE 0) 12 10) 8 8) 0 1024"

definition demo_bitmap :: bytes where
  "demo_bitmap = replicate 12 0xff @ replicate 3 0 @ replicate 497 0xff"

definition demo_blocks :: "u32 \<Rightarrow> bytes" where
  "demo_blocks x = (if x = 1 then demo_fs_sb else if x = 4 then demo_bitmap else replicate BSIZE 0)"

definition demo_ino :: inode where
  "demo_ino = \<lparr>i_dev = ROOTDEV, i_inum = 3, i_ref = 1, i_busy = True, i_valid = True,
     i_di = \<lparr>d_type = T_FILE, d_major = 0, d_minor = 0, d_nlink = 1, d_size = 0, d_addrs = replicate 13 0\<rparr>\<rparr>"

definition demo_fs_raw :: "'a \<Rightarrow> 'a fstate_scheme" where
  "demo_fs_raw m = \<lparr>disk = (\<lambda>x. demo_blocks (x - phys_sector ROOTDEV 0)), wlog = [],
     usb_ready = True, hc_dead = False, rec_panics = False, dev_fails = (\<lambda>_ _. False), dev_junk = (\<lambda>_ d. d), dev_torn = (\<lambda>_ d _. d),
     bufs = (\<lambda>_. demo_buf), klog = demo_log, icache = (\<lambda>_. demo_ino), \<dots> = m\<rparr>"

definition demo_fs_of :: "'a \<Rightarrow> 'a fstate_scheme" where
  "demo_fs_of m = binit (demo_fs_raw m)"

abbreviation demo_fs :: fstate where
  "demo_fs \<equiv> demo_fs_of ()"

lemma demo_fs_sb:
  "length demo_fs_sb = BSIZE" "sb_size (sb_of demo_fs_sb) = 1024" "sb_nlog (sb_of demo_fs_sb) = 10" "sb_ninodes (sb_of demo_fs_sb) = 8"
  by (simp_all add: demo_fs_sb_def BSIZE_def sb_of_def get_put_other)

lemma demo_blocks_len: "length (demo_blocks x) = BSIZE"
  by (simp add: demo_blocks_def demo_fs_sb demo_bitmap_def) (simp add: BSIZE_def)

lemma demo_fs_dsk: "dsk (demo_fs_raw m) = demo_blocks"
  by (simp add: fun_eq_iff dsk_def demo_fs_raw_def phys_sector_def)

lemma demo_fs_cold: "cold (demo_fs_raw m)"
  by (simp add: cold_def demo_fs_raw_def dev_ok_def demo_blocks_len demo_log_def demo_buf_def)

lemma fs_of_bio:
  fixes s t :: "'a fstate_scheme"
  shows "bstate.more t = bstate.more s \<Longrightarrow> icache t = icache s"
  by (cases s, cases t) simp

lemma demo_fs_quiet: "quiet (demo_fs_of m)" "klog (demo_fs_of m) = demo_log" "dsk (demo_fs_of m) = demo_blocks" "icache (demo_fs_of m) = (\<lambda>_. demo_ino)"
proof -
  note C = cold_binit [OF demo_fs_cold [of m]]
  show k: "klog (demo_fs_of m) = demo_log" using C(3) by (simp add: demo_fs_raw_def demo_fs_of_def)
  have b: "a_busy (absc (demo_fs_of m)) = {}" using C(2) by (simp add: demo_fs_of_def)
  show d: "dsk (demo_fs_of m) = demo_blocks" using abscD(2) [OF C(2)] demo_fs_dsk by (simp add: demo_fs_of_def)
  show "icache (demo_fs_of m) = (\<lambda>_. demo_ino)" 
    using fs_of_bio [of "demo_fs_of m" "demo_fs_raw m"] by (simp add: demo_fs_of_def) (simp add: demo_fs_raw_def)
  have "log_wf demo_log" by (simp add: log_wf_def logged_def) (simp add: demo_log_def LOGSIZE_def)
  moreover have "logged demo_log = []" by (simp add: logged_def demo_log_def)
  moreover have "head_n (demo_blocks 1014) = 0"
    by (simp add: demo_blocks_def head_n_def get32_zero BSIZE_def)
  moreover have "sb_log (sb_of (demo_blocks 1)) demo_log"
    by (simp add: sb_log_def demo_blocks_def demo_fs_sb) (simp add: demo_log_def)
  ultimately show "quiet (demo_fs_of m)"
    using C(1,2) b d k demo_area unfolding quiet_def log_inv_def
    by (simp add: demo_fs_of_def demo_log_sel LOGSIZE_def)
qed


lemma demo_bitmap_bit:
  assumes "k < 4096"
  shows "bm_bit demo_bitmap k \<longleftrightarrow> \<not> (12 \<le> k div 8 \<and> k div 8 < 15)"
proof -
  have ff: "(0xff :: u8) AND push_bit j 1 \<noteq> 0" if "j < 8" for j
  proof -
    have "j = 0 \<or> j = 1 \<or> j = 2 \<or> j = 3 \<or> j = 4 \<or> j = 5 \<or> j = 6 \<or> j = 7" using that by arith
    then show ?thesis by (elim disjE) simp_all
  qed
  have "demo_bitmap ! (k div 8) = (if 12 \<le> k div 8 \<and> k div 8 < 15 then 0 else 0xff)"
    using assms by (auto simp: demo_bitmap_def nth_append)
  then show ?thesis using ff [of "k mod 8"] by (simp add: bm_bit_def)
qed

lemma demo_fs_free: "free demo_blocks = {b. 96 \<le> b \<and> b < 120}"
proof -
  have sb: "sb_size (fsb demo_blocks) = 1024" "sb_ninodes (fsb demo_blocks) = 8"
    by (simp_all add: fsb_def demo_blocks_def demo_fs_sb)
  have "b \<in> free demo_blocks \<longleftrightarrow> 96 \<le> b \<and> b < 120" for b
  proof (cases "unat b < 1024")
    case True
    have "bmb demo_blocks b = 4"
    proof -
      have "b div 4096 = 0" using True by (simp add: word_unat_eq_iff unat_div)
      then show ?thesis by (simp add: bmb_def BBLOCK_def sb BPB_val NINODEBLOCKS_def IPB_def BSIZE_def)
    qed
    then have "used demo_blocks b \<longleftrightarrow> \<not> (12 \<le> unat b div 8 \<and> unat b div 8 < 15)"
      using demo_bitmap_bit [of "unat b mod BPB"] True by (simp add: used_def demo_blocks_def BPB_val)
    then show ?thesis using True by (auto simp: free_def sb word_le_nat_alt word_less_nat_alt)
  qed (auto simp: free_def sb word_less_nat_alt)
  then show ?thesis by blast
qed

lemma demo_fs_meta: "bmbs demo_blocks = {4}" "ibs demo_blocks = {2}"
proof -
  have sb: "sb_size (fsb demo_blocks) = 1024" "sb_ninodes (fsb demo_blocks) = 8"
    by (simp_all add: fsb_def demo_blocks_def demo_fs_sb)
  have "b div 4096 = 0" if "unat b < 1024" for b :: u32 using that by (simp add: word_unat_eq_iff unat_div)
  then have "bmb demo_blocks b = 4" if "unat b < 1024" for b
    using that by (simp add: bmb_def BBLOCK_def sb BPB_val NINODEBLOCKS_def IPB_def BSIZE_def)
  moreover have "unat (0 :: u32) < 1024" by simp
  ultimately show "bmbs demo_blocks = {4}" unfolding bmbs_def by (auto simp: sb) (metis unat_0 zero_less_numeral)
  have "i div 8 = 0" if "unat i < 8" for i :: u32 using that by (simp add: word_unat_eq_iff unat_div)
  then have "IBLOCK i = 2" if "unat i < 8" for i using that by (simp add: IBLOCK_def IPB_def BSIZE_def)
  then show "ibs demo_blocks = {2}" unfolding ibs_def by (auto simp: sb) (metis unat_0 zero_less_numeral)
qed

lemma demo_fs_ok: "fs_ok (log_area demo_log) demo_blocks"
  unfolding fs_ok_def meta_def demo_fs_meta demo_fs_free demo_area
  by (simp add: BPB_val fsb_def demo_blocks_def demo_fs_sb) (auto simp: word_le_nat_alt)

lemma empty_tree: "tree V (replicate (NDIRECT + 2) 0) = {}"
proof -
  have "slot_val V (replicate (NDIRECT + 2) 0) p = 0" if "is_slot p" for p using that
    by (induction p) (auto dest: is_slot_parent simp del: add_2_eq_Suc' replicate.simps)
  then show ?thesis by (auto simp: tree_def)
qed

lemma demo_fs_tree: "tree_ok (log_area demo_log) demo_blocks (addrs (demo_fs_of m) 0)"
proof -
  have a: "addrs (demo_fs_of m) 0 = replicate (NDIRECT + 2) 0" by (simp add: addrs_def demo_fs_quiet demo_ino_def NDIRECT_def)
  then show ?thesis using empty_tree [of demo_blocks] unfolding a tree_ok_def tree_def by (auto simp: inj_on_def)
qed

lemma demo_fs_room: "3 \<le> card (free demo_blocks)"
proof -
  have "card {96, 97, 98 :: u32} \<le> card (free demo_blocks)" by (rule card_mono) (auto simp: demo_fs_free)
  then show ?thesis by simp
qed



subsection \<open>Writing\<close>

text \<open>
  An inode \<open>i\<close> of the cache is a regular file or directory whose blocks form a tree, and a write of
  \<open>n\<close> bytes at \<open>off\<close> fits: it starts inside the file, ends below the largest file size, there are free blocks for the slots it finds
  empty, and the slots it goes through and the blocks of the bitmap it changes are at most eight blocks, which with the inode is what a
  transaction has room for.
\<close>

definition is_file :: "u32 set \<Rightarrow> (u32 \<Rightarrow> bytes) \<Rightarrow> 'a fstate_scheme \<Rightarrow> nat \<Rightarrow> bool" where
  "is_file A V s i \<longleftrightarrow> fs_ok A V \<and> tree_ok A V (addrs s i) \<and> i_dev (icache s i) = ROOTDEV
     \<and> d_type (i_di (icache s i)) \<noteq> T_DEV \<and> ib s i \<in> ibs V"

definition write_fits :: "(u32 \<Rightarrow> bytes) \<Rightarrow> 'a fstate_scheme \<Rightarrow> nat \<Rightarrow> u32 \<Rightarrow> u32 \<Rightarrow> bool" where
  "write_fits V s i off n \<longleftrightarrow> off \<le> isize s i \<and> unat off + unat n \<le> MAXFILE * BSIZE
     \<and> (let P = write_slots (unat off) (unat n); k = holes P V (addrs s i) in
        k \<le> card (free V) \<and> card (bitmaps k V) + card P \<le> 8)"

lemma write_fits_budget:
  assumes "write_fits V s i off n"
  shows "\<exists>U. budget U (write_slots (unat off) (unat n)) (write_slots (unat off) (unat n)) V (addrs s i) {}"
  using assms write_slots_ok [of "unat off" "unat n"]
  by (intro exI [of _ "bitmaps (holes (write_slots (unat off) (unat n)) V (addrs s i)) V"])
     (simp add: write_fits_def budget_def reserve_def Let_def)

text \<open>The pieces that \<open>filewrite\<close> passes to \<open>writei\<close> fit whenever the free blocks they take are described by one block of the bitmap.\<close>

lemma piece_fits:
  assumes "off \<le> isize s i" "unat off + unat n \<le> MAXFILE * BSIZE" "unat n \<le> 1536"
    and "k = holes (write_slots (unat off) (unat n)) V (addrs s i)" "k \<le> card (free V)" "card (bitmaps k V) \<le> 1"
  shows "write_fits V s i off n"
  using assms write_slots_card [of "unat n" "unat off"] by (simp add: write_fits_def Let_def)

lemma icache_set_log [simp]:
  "icache (set_log f s) = icache s" "addrs (set_log f s) i = addrs s i" "isize (set_log f s) i = isize s i"
  "ib (set_log f s) i = ib s i" "ik (set_log f s) i = ik s i" "fstate.more (set_log f s) = fstate.more s"
  for s :: "'a fstate_scheme"
proof -
  show e: "icache (set_log f s) = icache s" "fstate.more (set_log f s) = fstate.more s" by (simp_all add: set_log_def)
  show "addrs (set_log f s) i = addrs s i" "isize (set_log f s) i = isize s i"
    "ib (set_log f s) i = ib s i" "ik (set_log f s) i = ik s i" unfolding addrs_def isize_def ib_def ik_def e by simp_all
qed

lemma wrote_cong:
  assumes "icache s' = icache s" "icache t' = icache t"
  shows "wrote A V s' i off bs V' t' = wrote A V s i off bs V' t"
  using assms by (simp add: wrote_def addrs_def isize_def ib_def ik_def)

text \<open>
  C2. A transaction that writes to a file does so atomically. From a kernel with no transaction in
  progress, for a write that fits a transaction as said above, \<open>begin_trans\<close>, \<open>writei\<close> and \<open>commit_trans\<close> return the number of bytes; on the disk the file then has the new
  bytes, its other bytes, all other files, and all inodes but its own are as before, and if the machine stops after any of
  the sector writes and boots again, the recovered disk is the old one or the new one.
\<close>

theorem write_crash_atomic:
  fixes s :: "'a fstate_scheme"
  assumes q: "quiet s" and A: "A = log_area (klog s)"
    and f: "is_file A (dsk s) s i" and w: "write_fits (dsk s) s i off n" and src: "length src = unat n"
  shows "\<exists>t V. in_trans (writei dv i src off n) s = Ok (sint n, t) \<and> quiet t \<and> (\<forall>x. x \<notin> A \<longrightarrow> dsk t x = V x)
    \<and> is_file A V t i \<and> wrote A (dsk s) s i off src V t \<and> (\<forall>j. j \<noteq> i \<longrightarrow> icache t j = icache s j) \<and> crash_atomic s t V"
proof -
  note Q = quiet_open [OF q, folded A]
  let ?b = "trans_open s"
  let ?R = "\<lambda>r V m. r = sint n \<and> (\<forall>t :: 'a fstate_scheme. lstate.more t = m \<longrightarrow> is_file A V t i \<and> wrote A (dsk s) s i off src V t
      \<and> (\<forall>j. j \<noteq> i \<longrightarrow> icache t j = icache s j))"
  have c: "fcx A {} (dsk s) i ?b" using f Q(2) by (simp add: fcx_def is_file_def)
  from write_fits_budget [OF w] obtain U where bg: "budget U (write_slots (unat off) (unat n)) (write_slots (unat off) (unat n)) (dsk s) (addrs ?b i) {}" by auto
  have "wp (writei dv i src off n) (\<lambda>r t. \<exists>L V. tx A {} L V t \<and> tx_prog ?b t \<and> V 1 = dsk s 1 \<and> ?R r V (lstate.more t)) ?b"
  proof (rule writei_tx [OF c Q(3) _ _ src _ _ bg order_refl])
    fix L V and t :: "'a fstate_scheme"
    assume t: "fcx A L V i t" "fs_keeps i ?b t" "wrote A (dsk s) ?b i off src V t"
    note K = fs_keepsD [OF t(2)]
    have V1: "V 1 = dsk s 1" using t(3) by (simp add: wrote_def Let_def)
    have "ib t i \<in> ibs V" using f layout_cong(4) [of V "dsk s", OF V1] K(3) by (simp add: is_file_def ib_def)
    then have "is_file A V t i" using t(1) f K(2) by (simp add: fcx_def is_file_def)
    moreover have "wrote A (dsk s) s i off src V t" using t(3) by (simp add: wrote_cong [where s' = ?b and s = s])
    ultimately have "is_file A V u i \<and> wrote A (dsk s) s i off src V u \<and> (\<forall>j. j \<noteq> i \<longrightarrow> icache u j = icache s j)"
      if "lstate.more u = lstate.more t" for u :: "'a fstate_scheme"
      using K(5) fs_rest(1) [OF that] wrote_cong [of s s u t] by (simp add: is_file_def addrs_def ib_def)
    then have "?R (sint n) V (lstate.more t)" by blast
    moreover have "tx A {} L V t" "tx_prog ?b t" using t(1,2) by (simp_all add: fcx_def fs_keeps_def)
    ultimately show "\<exists>L V. tx A {} L V t \<and> tx_prog ?b t \<and> V 1 = dsk s 1 \<and> ?R (sint n) V (lstate.more t)" using V1 by blast
  qed (use f w in \<open>simp_all add: is_file_def write_fits_def\<close>)
  from in_trans_atomic [OF q this [unfolded A], folded A] show ?thesis by blast
qed

lemma demo_fs_file: "is_file (log_area (klog (demo_fs_of m))) (dsk (demo_fs_of m)) (demo_fs_of m) 0"
  using demo_fs_ok demo_fs_tree
  by (simp add: is_file_def demo_fs_quiet demo_fs_meta ib_def demo_ino_def T_FILE_def T_DEV_def IBLOCK_def IPB_def BSIZE_def)

lemma demo_fs_fits: "write_fits (dsk (demo_fs_of m)) (demo_fs_of m) 0 0 5"
proof -
  have P: "write_slots 0 5 = {Top 0}" by (simp add: write_slots_def chunks.simps BSIZE_def leaf_def fs_consts)
  have k: "holes {Top 0} demo_blocks (addrs (demo_fs_of m) 0) = 1"
  proof -
    have "{p \<in> {Top 0}. slot_val demo_blocks (addrs (demo_fs_of m) 0) p = 0} = {Top 0}" by (auto simp: addrs_def demo_fs_quiet demo_ino_def)
    then show ?thesis by (simp add: holes_def)
  qed
  have "card (bitmaps 1 demo_blocks) \<le> 1" by (simp add: bitmaps_def card_image_le [THEN order_trans] card_length [THEN order_trans])
  then show ?thesis using demo_fs_room by (simp add: write_fits_def Let_def demo_fs_quiet P k isize_def demo_ino_def fs_consts)
qed

theorem write_crash_atomic_witness:
  "\<exists>t V. in_trans (writei \<lparr>dv_read = \<lambda>_. None, dv_write = \<lambda>_. None\<rparr> 0 [104, 101, 108, 108, 111] 0 5) demo_fs = Ok (5, t)
    \<and> wrote (log_area demo_log) demo_blocks demo_fs 0 0 [104, 101, 108, 108, 111] V t \<and> crash_atomic demo_fs t V"
  using write_crash_atomic [OF demo_fs_quiet(1) [of "()"] refl demo_fs_file demo_fs_fits, of "[104, 101, 108, 108, 111]"
      "\<lparr>dv_read = \<lambda>_. None, dv_write = \<lambda>_. None\<rparr>"]
  by (auto simp: demo_fs_quiet(2,3))


subsection \<open>Files as sequences of bytes\<close>

definition contents :: "(u32 \<Rightarrow> bytes) \<Rightarrow> 'a fstate_scheme \<Rightarrow> nat \<Rightarrow> bytes" where
  "contents V s i = map (fdata V (addrs s i)) [0..<unat (isize s i)]"

definition list_write :: "nat \<Rightarrow> bytes \<Rightarrow> bytes \<Rightarrow> bytes" where
  "list_write off bs c = take off c @ bs @ drop (off + length bs) c"

definition list_read :: "nat \<Rightarrow> nat \<Rightarrow> bytes \<Rightarrow> int \<times> bytes" where
  "list_read off n c = (if length c < off then (- 1, []) else (int (min n (length c - off)), take n (drop off c)))"

lemma length_contents [simp]: "length (contents V s i) = unat (isize s i)"
  by (simp add: contents_def)

lemma list_write_append: "off \<le> length c \<Longrightarrow> list_write (off + length a) b (list_write off a c) = list_write off (a @ b) c"
  by (simp add: list_write_def add.commute add.left_commute)

lemma wrote_contents:
  assumes w: "wrote A V s i off bs V' t" and le: "off \<le> isize s i" "unat off + length bs < 2 ^ 32"
  shows "contents V' t i = list_write (unat off) bs (contents V s i)"
proof (rule nth_equalityI)
  let ?new = "off + of_nat (length bs)"
  have u: "unat ?new = unat off + length bs" using le(2) unat_of_nat_u32 [of "length bs"] unat_add_lem [of off "of_nat (length bs)"] by simp
  have sz: "unat (isize t i) = max (unat (isize s i)) (unat off + length bs)"
    using w u le(1) by (auto simp: wrote_def Let_def word_less_nat_alt word_le_nat_alt)
  have o: "unat off \<le> unat (isize s i)" using le(1) by (simp add: word_le_nat_alt)
  show len: "length (contents V' t i) = length (list_write (unat off) bs (contents V s i))" using sz o by (simp add: list_write_def)
  fix x assume "x < length (contents V' t i)"
  then have x: "x < max (unat (isize s i)) (unat off + length bs)" using sz by simp
  have "fdata V' (addrs t i) x = (if unat off \<le> x \<and> x < unat off + length bs then bs ! (x - unat off) else fdata V (addrs s i) x)"
    using w by (simp add: wrote_def Let_def)
  then show "contents V' t i ! x = list_write (unat off) bs (contents V s i) ! x"
    using x o sz by (auto simp: contents_def list_write_def nth_append)
qed

lemma sint_small: "unat (x :: u32) < 2 ^ 31 \<Longrightarrow> sint x = int (unat x)"
proof -
  assume "unat x < 2 ^ 31"
  then have "int (unat x) < 2 ^ 31" using of_nat_less_iff [of "unat x" "2 ^ 31", where 'a = int] by simp
  then have "uint x < 2 ^ 31" by simp
  moreover have "- (2 ^ 31) \<le> uint x" by (rule order_trans [of _ 0]) simp_all
  ultimately have "signed_take_bit 31 (uint x) = uint x" by (rule signed_take_bit_int_eq_self [rotated])
  then show ?thesis by (simp add: sint_uint)
qed

lemma rd_contents:
  assumes "unat (isize s i) \<le> MAXFILE * BSIZE" "unat n < 2 ^ 31"
  shows "rd_result V (addrs s i) (isize s i) off n = list_read (unat off) (unat n) (contents V s i)"
proof (cases "isize s i < off")
  case True
  then show ?thesis by (simp add: rd_result_def list_read_def word_less_nat_alt)
next
  case False
  then have o: "unat off \<le> unat (isize s i)" by (simp add: word_less_nat_alt)
  have "unat off + unat n < 2 ^ 32" using o assms by (simp add: fs_consts)
  then have sum: "unat (off + n) = unat off + unat n" using unat_add_lem [of off n] by simp
  have nw: "\<not> off + n < off" using sum by (simp add: word_less_nat_alt)
  let ?n = "if isize s i < off + n then isize s i - off else n"
  have un: "unat ?n = min (unat n) (unat (isize s i) - unat off)"
    using sum o unat_sub [of off "isize s i"] by (auto simp: word_less_nat_alt word_le_nat_alt)
  have "sint ?n = int (unat ?n)" using un assms(2) by (intro sint_small) simp
  moreover have "take (unat n) [unat off..<unat (isize s i)] = [unat off..<unat off + min (unat n) (unat (isize s i) - unat off)]"
    using o by (cases "unat n \<le> unat (isize s i) - unat off") (simp_all add: min_def)
  ultimately show ?thesis using False o nw un by (simp add: rd_result_def list_read_def contents_def Let_def take_map drop_map)
qed


subsection \<open>Inodes on the disk\<close>

lemma quiet_tx: "quiet s \<Longrightarrow> tx (log_area (klog s)) {} {} (dsk s) s"
proof -
  assume "quiet s"
  then have q: "log_inv {} s" "lh_n (klog s) = 0" "a_busy (absc s) = {}" "lg_size (klog s) = int LOGSIZE" by (simp_all add: quiet_def)
  moreover have "view s = dsk s" using log_inv_clean [OF q(1,3)] q(2) by (auto simp: logged_def)
  ultimately show ?thesis by (simp add: tx_def logged_def)
qed

lemma iblock_inj: "IBLOCK a = IBLOCK b \<Longrightarrow> unat a mod IPB = unat b mod IPB \<Longrightarrow> a = b"
proof -
  assume e: "IBLOCK a = IBLOCK b" "unat a mod IPB = unat b mod IPB"
  then have "a div 8 = b div 8" by (simp add: IBLOCK_def IPB_def BSIZE_def)
  then have "unat a div 8 = unat b div 8" by (simp add: word_unat_eq_iff unat_div)
  then have "unat a = unat b" using e(2) by (metis div_mult_mod_eq fs_consts(7))
  then show ?thesis by (simp add: word_unat_eq_iff)
qed

text \<open>Reading an inode that the cache does not have yet.\<close>

lemma ilock_reads:
  fixes s :: "'a fstate_scheme"
  assumes s: "tx A {} {} V s" and j: "i_dev (icache s j) = ROOTDEV" "1 \<le> i_ref (icache s j)" "\<not> i_busy (icache s j)" "\<not> i_valid (icache s j)"
    and x: "ib s j \<notin> A" and ty: "d_type (get_dinode (V (ib s j)) (ik s j)) \<noteq> 0"
  shows "wp (ilock j) (\<lambda>_ u. i_di (icache u j) = get_dinode (V (ib s j)) (ik s j) \<and> i_valid (icache u j) \<and> i_busy (icache u j)
    \<and> (\<forall>k. k \<noteq> j \<longrightarrow> icache u k = icache s k)) s"
proof -
  let ?s = "set_inode j (\<lambda>ip. ip\<lparr>i_busy := True\<rparr>) s" and ?di = "get_dinode (V (ib s j)) (ik s j)"
  have "wp (bread ROOTDEV (ib s j)) (\<lambda>bp. wp (buf_data bp) (\<lambda>d.
      wp (let di = get_dinode d (ik s j) in kthen (set_di j (\<lambda>_. di)) (kthen (brelse bp) (kthen (kmod (set_inode j (\<lambda>ip. ip\<lparr>i_valid := True\<rparr>)))
        (if d_type di = 0 then kpanic ''ilock: no type'' else kreturn ()))))
      (\<lambda>_ u. i_di (icache u j) = ?di \<and> i_valid (icache u j) \<and> i_busy (icache u j) \<and> (\<forall>k. k \<noteq> j \<longrightarrow> icache u k = icache s k)))) ?s"
  proof (rule lt.rd_rule [where A = A and H = "{}" and L = "{}" and V = V])
    fix i t assume t: "tx A {ib s j} {} V t" "holds t i (ib s j)" "tx_keeps ?s t"
    let ?t = "set_inode j (\<lambda>ip. ip\<lparr>i_di := ?di\<rparr>) t"
    have it: "icache t = icache ?s" using fs_rest(1) [of t ?s] t(3) by (simp add: tx_keeps_def)
    have "wp (brelse i) (\<lambda>_ u. icache u = icache ?t) ?t"
    proof (rule lt.rel_rule [where A = A and H = "{ib s j}" and L = "{}" and V = V and x = "ib s j"])
      fix u assume "tx_keeps ?t u"
      then show "icache u = icache ?t" using fs_rest(1) [of u ?t] by (simp add: tx_keeps_def)
    qed (use t in simp_all)
    then have "wp (brelse i) (\<lambda>_ u. icache u j = (icache s j)\<lparr>i_busy := True, i_di := ?di\<rparr> \<and> (\<forall>k. k \<noteq> j \<longrightarrow> icache u k = icache s k)) ?t"
      by (rule wp_mono) (simp add: it)
    then have "wp (brelse i) (\<lambda>_. wp (kthen (kmod (set_inode j (\<lambda>ip. ip\<lparr>i_valid := True\<rparr>)))
        (if d_type ?di = 0 then kpanic ''ilock: no type'' else kreturn ())) (\<lambda>_ u. i_di (icache u j) = ?di \<and> i_valid (icache u j)
        \<and> i_busy (icache u j) \<and> (\<forall>k. k \<noteq> j \<longrightarrow> icache u k = icache s k))) ?t"
      by (rule wp_mono) (use ty in simp)
    then have "wp (let di = ?di in kthen (set_di j (\<lambda>_. di)) (kthen (brelse i) (kthen (kmod (set_inode j (\<lambda>ip. ip\<lparr>i_valid := True\<rparr>)))
        (if d_type di = 0 then kpanic ''ilock: no type'' else kreturn ())))) (\<lambda>_ u. i_di (icache u j) = ?di \<and> i_valid (icache u j)
        \<and> i_busy (icache u j) \<and> (\<forall>k. k \<noteq> j \<longrightarrow> icache u k = icache s k)) t"
      by (simp add: set_di_def Let_def)
    then show "wp (buf_data i) (\<lambda>d. wp (let di = get_dinode d (ik s j) in kthen (set_di j (\<lambda>_. di)) (kthen (brelse i)
        (kthen (kmod (set_inode j (\<lambda>ip. ip\<lparr>i_valid := True\<rparr>))) (if d_type di = 0 then kpanic ''ilock: no type'' else kreturn ()))))
        (\<lambda>_ u. i_di (icache u j) = ?di \<and> i_valid (icache u j) \<and> i_busy (icache u j) \<and> (\<forall>k. k \<noteq> j \<longrightarrow> icache u k = icache s k))) t"
      by (rule lt.dat_rule [OF t(1,2)])
  qed (use s x in \<open>simp_all add: NBUF_def\<close>)
  then show ?thesis using j by (simp add: ilock_def inode_at_def ib_def ik_def not_less)
qed

text \<open>
  C27. What \<open>iupdate\<close> writes, \<open>ilock\<close> reads. An inode in memory is written back in a transaction of its own; the transaction commits.
  Whatever inode of the file system the kernel then reads from the disk into a free entry \<open>j\<close> of its cache, which \<open>iget\<close> has assigned to it,
  \<open>ilock\<close> returns with the entry locked and valid: if it is the inode written, with exactly the fields that were in memory, and if it is
  another one, with the fields it had on the disk before.
\<close>

theorem inode_roundtrip:
  fixes s :: "'a fstate_scheme"
  assumes q: "quiet s" and A: "A = log_area (klog s)" and ok: "fs_ok A (dsk s)"
    and i: "i_dev (icache s i) = ROOTDEV" "ib s i \<in> ibs (dsk s)" "length (addrs s i) = NDIRECT + 2"
    and ty: "d_type (i_di (icache s i)) \<noteq> 0"
  shows "\<exists>t. in_trans (iupdate i) s = Ok ((), t) \<and> quiet t \<and> icache t = icache s
    \<and> (\<forall>j inum. IBLOCK inum \<in> ibs (dsk s) \<longrightarrow>
        (let old = get_dinode (dsk s (IBLOCK inum)) (unat inum mod IPB); new = (if inum = i_inum (icache s i) then i_di (icache s i) else old) in
         d_type new \<noteq> 0 \<longrightarrow>
         wp (ilock j) (\<lambda>_ u. i_di (icache u j) = new \<and> i_valid (icache u j) \<and> i_busy (icache u j) \<and> (\<forall>k. k \<noteq> j \<longrightarrow> icache u k = icache s k))
           (set_inode j (\<lambda>ip. ip\<lparr>i_dev := ROOTDEV, i_inum := inum, i_ref := 1, i_busy := False, i_valid := False\<rparr>) t)))"
proof -
  note Q = quiet_open [OF q, folded A]
  let ?b = "trans_open s" and ?di = "i_di (icache s i)" and ?x = "ib s i"
  let ?V = "(dsk s)(?x := put_dinode ?di (ik s i) (dsk s ?x))"
  have xA: "?x \<notin> A" using fs_okD(7) [OF ok i(2)] .
  have x1: "?x \<noteq> 1" using i(2) fs_okD(4) [OF ok] by auto
  have "wp (iupdate i) (\<lambda>r t. \<exists>L V. tx A {} L V t \<and> tx_prog ?b t \<and> V 1 = dsk s 1 \<and> V = ?V \<and> lstate.more t = lstate.more s) ?b"
    by (rule iupdate_tx [OF Q(2,3)]) (use i xA x1 in \<open>auto simp: tx_keeps_def\<close>)
  from in_trans_atomic [OF q, where R = "\<lambda>_ V m. V = ?V \<and> m = lstate.more s", unfolded A [symmetric], OF this]
  obtain r :: unit and t where t: "in_trans (iupdate i) s = Ok (r, t)" "quiet t" "lstate.more t = lstate.more s"
    "\<forall>x. x \<notin> A \<longrightarrow> dsk t x = ?V x" "log_area (klog t) = A" by blast
  have it: "icache t = icache s" by (rule fs_rest(1) [OF t(3)])
  have len: "length (dsk s ?x) = BSIZE" by (rule lt.len_law [OF Q(2) xA])
  have "wp (ilock j) (\<lambda>_ u. i_di (icache u j) = new \<and> i_valid (icache u j) \<and> i_busy (icache u j) \<and> (\<forall>k. k \<noteq> j \<longrightarrow> icache u k = icache s k))
      (set_inode j (\<lambda>ip. ip\<lparr>i_dev := ROOTDEV, i_inum := inum, i_ref := 1, i_busy := False, i_valid := False\<rparr>) t)"
    if h: "IBLOCK inum \<in> ibs (dsk s)" "new = (if inum = i_inum (icache s i) then ?di else get_dinode (dsk s (IBLOCK inum)) (unat inum mod IPB))"
      "d_type new \<noteq> 0" for j inum new
  proof -
    let ?u = "set_inode j (\<lambda>ip. ip\<lparr>i_dev := ROOTDEV, i_inum := inum, i_ref := 1, i_busy := False, i_valid := False\<rparr>) t"
    have e: "ib ?u j = IBLOCK inum" "ik ?u j = unat inum mod IPB" by (simp_all add: ib_def ik_def)
    have nA: "IBLOCK inum \<notin> A" using fs_okD(7) [OF ok h(1)] .
    have "get_dinode (?V (IBLOCK inum)) (unat inum mod IPB) = new"
    proof (cases "IBLOCK inum = ?x")
      case True
      have k: "unat inum mod IPB < IPB" "ik s i < IPB" by (simp_all add: ik_def fs_consts)
      show ?thesis
      proof (cases "inum = i_inum (icache s i)")
        case same: True
        then show ?thesis using h(2) True get_put_dinode(1) [OF _ len k(2)] i(3) by (simp add: addrs_def ik_def)
      next
        case False
        then have "ik s i \<noteq> unat inum mod IPB" using iblock_inj [of inum "i_inum (icache s i)"] True by (auto simp: ib_def ik_def)
        then show ?thesis using h(2) True False get_put_dinode_other [OF _ len k(2,1)] i(3) by (simp add: addrs_def)
      qed
    next
      case False
      then show ?thesis using h(2) by (auto simp: ib_def)
    qed
    then have g: "get_dinode (dsk t (IBLOCK inum)) (unat inum mod IPB) = new" using t(4) nA by simp
    have "tx A {} {} (dsk t) ?u" using quiet_tx [OF t(2)] t(5) by simp
    from ilock_reads [OF this, of j] show ?thesis unfolding e g using nA h(3) by (simp add: it)
  qed
  then show ?thesis using t(1,2) it by (intro exI [of _ t]) (simp add: Let_def)
qed

theorem inode_roundtrip_witness:
  "\<exists>t. in_trans (iupdate 0) demo_fs = Ok ((), t)
    \<and> wp (ilock 1) (\<lambda>_ u. i_di (icache u 1) = i_di demo_ino \<and> i_valid (icache u 1))
        (set_inode 1 (\<lambda>ip. ip\<lparr>i_dev := ROOTDEV, i_inum := 3, i_ref := 1, i_busy := False, i_valid := False\<rparr>) t)"
proof -
  have i: "i_dev (icache demo_fs 0) = ROOTDEV" "ib demo_fs 0 \<in> ibs (dsk demo_fs)" "length (addrs demo_fs 0) = NDIRECT + 2" "d_type (i_di (icache demo_fs 0)) \<noteq> 0"
    "IBLOCK 3 \<in> ibs (dsk demo_fs)"
    by (simp_all add: demo_fs_quiet demo_fs_meta ib_def addrs_def demo_ino_def IBLOCK_def IPB_def BSIZE_def fs_consts T_FILE_def)
  have ok: "fs_ok (log_area (klog demo_fs)) (dsk demo_fs)" using demo_fs_ok by (simp add: demo_fs_quiet)
  have n: "i_inum (icache demo_fs 0) = 3" "i_di (icache demo_fs 0) = i_di demo_ino" by (simp_all add: demo_fs_quiet) (simp add: demo_ino_def)
  from inode_roundtrip [OF demo_fs_quiet(1) refl ok i(1-4)] obtain t where t: "in_trans (iupdate 0) demo_fs = Ok ((), t)"
    and all: "\<forall>j inum. IBLOCK inum \<in> ibs (dsk demo_fs) \<longrightarrow>
        (let old = get_dinode (dsk demo_fs (IBLOCK inum)) (unat inum mod IPB); new = (if inum = i_inum (icache demo_fs 0) then i_di (icache demo_fs 0) else old) in
         d_type new \<noteq> 0 \<longrightarrow>
         wp (ilock j) (\<lambda>_ u. i_di (icache u j) = new \<and> i_valid (icache u j) \<and> i_busy (icache u j) \<and> (\<forall>k. k \<noteq> j \<longrightarrow> icache u k = icache demo_fs k))
           (set_inode j (\<lambda>ip. ip\<lparr>i_dev := ROOTDEV, i_inum := inum, i_ref := 1, i_busy := False, i_valid := False\<rparr>) t))" by blast
  from spec [OF spec [OF all, of 1], of 3] i(4,5)
  have r: "wp (ilock 1) (\<lambda>_ u. i_di (icache u 1) = i_di demo_ino \<and> i_valid (icache u 1) \<and> i_busy (icache u 1) \<and> (\<forall>k. k \<noteq> 1 \<longrightarrow> icache u k = icache demo_fs k))
      (set_inode 1 (\<lambda>ip. ip\<lparr>i_dev := ROOTDEV, i_inum := 3, i_ref := 1, i_busy := False, i_valid := False\<rparr>) t)"
    by (simp only: Let_def n if_True simp_thms)
  have "wp (ilock 1) (\<lambda>_ u. i_di (icache u 1) = i_di demo_ino \<and> i_valid (icache u 1))
      (set_inode 1 (\<lambda>ip. ip\<lparr>i_dev := ROOTDEV, i_inum := 3, i_ref := 1, i_busy := False, i_valid := False\<rparr>) t)"
    by (rule wp_mono [OF r]) simp
  then show ?thesis using t by blast
qed


subsection \<open>The block allocator\<close>

lemma free_view_free:
  assumes "fs_ok A V" "unat b < unat (sb_size (fsb V))" "blocks_ok A V"
  shows "free (free_view b V) = insert b (free V)"
proof -
  have m: "bmb V b \<in> bmbs V" by (rule bmb_in [OF assms(2)])
  then have "bmb V b \<noteq> 1" "length (V (bmb V b)) = BSIZE"
    using fs_okD(3,6) [OF assms(1)] assms(3) by (auto simp: blocks_ok_def)
  then show ?thesis by (intro free_unmark [OF _ _ _ _ assms(2)]) (auto simp: free_view_def)
qed

lemma bfree_free_panics:
  assumes s: "tx A {} L V s" and ok: "fs_ok A V" and n: "card L \<le> 8" and b: "b \<in> free V"
  shows "bfree ROOTDEV b s = Panic ''freeing free block''"
proof -
  have c: "card ({} \<union> L) < NBUF" using n by (simp add: NBUF_def)
  have "wp (readsb ROOTDEV) (\<lambda>sb t. sb = fsb V \<and> tx A {} L V t) s"
    by (rule readsb_tx [OF s fs_okD(2) [OF ok] _ c]) auto
  then obtain t where t: "readsb ROOTDEV s = Ok (fsb V, t)" "tx A {} L V t" by (auto simp: wp_iff)
  have m: "bmb V b \<notin> A" using fs_okD(6) [OF ok bmb_in] b by (simp add: free_def)
  have "wp (bread ROOTDEV (bmb V b)) (\<lambda>i u. tx A {bmb V b} L V u \<and> holds u i (bmb V b)) t"
    by (rule lt.rd_rule [OF t(2) m _ c]) auto
  then obtain i u where u: "bread ROOTDEV (bmb V b) t = Ok (i, u)" "tx A {bmb V b} L V u" "holds u i (bmb V b)"
    by (auto simp: wp_iff)
  have "buf_data i u = Ok (V (bmb V b), u)" by (rule lt.dat_law [OF u(2,3)])
  moreover have "\<not> bm_bit (V (bmb V b)) (unat b mod BPB)" using b by (simp add: free_def used_def)
  ultimately show ?thesis
    using t(1) u(1) by (simp add: bfree_def kbind_def kpanic_def Let_def flip: bmb_def)
qed

text \<open>
  C23. The block allocator. \<open>balloc\<close> returns a block that was free, marks exactly it as used, clears it and
  changes no other block but the one of the bitmap. Freeing it again restores the set of free
  blocks, and \<open>bfree\<close> panics on every block that is free already.
\<close>

theorem block_allocator:
  assumes s: "tx A {} L V s" "in_tx s" and ok: "fs_ok A V" and n: "card L \<le> 6" and fr: "free V \<noteq> {}"
  shows "wp (balloc ROOTDEV) (\<lambda>b t. b \<in> free V \<and> (\<exists>L' V'. tx A {} L' V' t \<and> fs_ok A V' \<and> free V' = free V - {b}
         \<and> V' b = replicate BSIZE 0 \<and> (\<forall>x. x \<noteq> b \<longrightarrow> x \<noteq> bmb V b \<longrightarrow> V' x = V x))
       \<and> wp (bfree ROOTDEV b) (\<lambda>_ u. \<exists>L' V'. tx A {} L' V' u \<and> free V' = free V
           \<and> (\<forall>x. x \<noteq> b \<longrightarrow> x \<noteq> bmb V b \<longrightarrow> V' x = V x)) t) s
    \<and> (\<forall>b \<in> free V. bfree ROOTDEV b s = Panic ''freeing free block'')"
proof (rule conjI)
  have len: "blocks_ok A V" by (rule tx_blocks_ok [OF s(1)])
  have fin: "finite L" using lt.fin_law [OF s(1)] by blast
  let ?R = "\<lambda>b u. \<exists>L' V'. tx A {} L' V' u \<and> free V' = free V \<and> (\<forall>x. x \<noteq> b \<longrightarrow> x \<noteq> bmb V b \<longrightarrow> V' x = V x)"
  show "wp (balloc ROOTDEV) (\<lambda>b t. b \<in> free V \<and> (\<exists>L' V'. tx A {} L' V' t \<and> fs_ok A V' \<and> free V' = free V - {b}
       \<and> V' b = replicate BSIZE 0 \<and> (\<forall>x. x \<noteq> b \<longrightarrow> x \<noteq> bmb V b \<longrightarrow> V' x = V x)) \<and> wp (bfree ROOTDEV b) (\<lambda>_. ?R b) t) s"
  proof (rule balloc_tx [OF s ok refl])
    let ?b = "first_free V"
    have "card (insert ?b (insert (bmb V ?b) L)) \<le> 8" using card_insert2 [OF fin, of ?b "bmb V ?b"] n by simp
    then show "card (insert (bmb V ?b) L) \<le> 8" "card (insert ?b (insert (bmb V ?b) ({} \<union> L))) \<le> 9"
      using card_insert_le [of "insert (bmb V ?b) L" ?b] by simp_all
    fix t
    define b where bd: "b = first_free V"
    assume "tx A {} (insert ?b (insert (bmb V ?b) L)) (alloc_view ?b V) t" "tx_keeps s t"
    then have t: "tx A {} (insert b (insert (bmb V b) L)) (alloc_view b V) t" "tx_keeps s t" unfolding bd .
    have b: "b \<in> free V" using first_free(1) [OF fr] bd by simp
    note F = alloc_view_facts [OF ok b len]
    let ?V = "alloc_view b V"
    have it: "in_tx t" using lt.keeps_open [OF t(2)] s(2) by simp
    have sz: "unat b < unat (sb_size (fsb ?V))" using b layout_cong(1) [of ?V V, OF F(1)] by (simp add: free_def)
    have u: "used ?V b" using F(2) sz by (auto simp: free_def)
    have bm: "bmb ?V b = bmb V b" using layout_cong(2) [of ?V V, OF F(1)] by simp
    have c: "card (insert b (insert (bmb V b) L)) \<le> 8" using card_insert2 [OF fin, of b "bmb V b"] n by simp
    have fr: "free (free_view b ?V) = free V"
      using free_view_free [OF F(3) sz tx_blocks_ok [OF t(1)]] F(2) b by auto
    have vw: "free_view b ?V x = V x" if "x \<noteq> b" "x \<noteq> bmb V b" for x using that F(5) bm by (simp add: free_view_def)
    have ins: "insert (bmb V b) (insert b (insert (bmb V b) L)) = insert b (insert (bmb V b) L)" by auto
    have "wp (bfree ROOTDEV b) (\<lambda>_. ?R b) t"
      by (rule bfree_tx [OF t(1) it F(3) sz u])
         (use c bm fr vw in \<open>auto simp: LOGSIZE_def NBUF_def ins\<close>)
    then have "b \<in> free V \<and> (\<exists>L' V'. tx A {} L' V' t \<and> fs_ok A V' \<and> free V' = free V - {b}
       \<and> V' b = replicate BSIZE 0 \<and> (\<forall>x. x \<noteq> b \<longrightarrow> x \<noteq> bmb V b \<longrightarrow> V' x = V x)) \<and> wp (bfree ROOTDEV b) (\<lambda>_. ?R b) t"
      using b t(1) F(2-5) by blast
    then show "?b \<in> free V \<and> (\<exists>L' V'. tx A {} L' V' t \<and> fs_ok A V' \<and> free V' = free V - {?b}
       \<and> V' ?b = replicate BSIZE 0 \<and> (\<forall>x. x \<noteq> ?b \<longrightarrow> x \<noteq> bmb V ?b \<longrightarrow> V' x = V x)) \<and> wp (bfree ROOTDEV ?b) (\<lambda>_. ?R ?b) t" unfolding bd .
  qed (use n fr in simp_all)
  show "\<forall>b \<in> free V. bfree ROOTDEV b s = Panic ''freeing free block''"
    using bfree_free_panics [OF s(1) ok] n by simp
qed

theorem block_allocator_witness:
  "wp (balloc ROOTDEV) (\<lambda>b _. 96 \<le> b \<and> b < 120) (trans_open demo_fs)
   \<and> bfree ROOTDEV 100 (trans_open demo_fs) = Panic ''freeing free block''"
proof -
  have f: "96 \<in> free demo_blocks" "100 \<in> free demo_blocks" by (simp_all add: demo_fs_free)
  have ne: "free (dsk demo_fs) \<noteq> {}" using f(1) by (auto simp: demo_fs_quiet)
  have ok: "fs_ok (log_area (klog demo_fs)) (dsk demo_fs)" using demo_fs_ok by (simp add: demo_fs_quiet)
  note B = block_allocator [OF quiet_open(2,3) [OF demo_fs_quiet(1)] ok _ ne, simplified card.empty]
  have "wp (balloc ROOTDEV) (\<lambda>b _. b \<in> free demo_blocks) (trans_open demo_fs)"
    by (rule wp_mono [OF conjunct1 [OF B]]) (simp_all add: demo_fs_quiet)
  then show ?thesis using B f(2) by (simp add: demo_fs_quiet demo_fs_free)
qed

end
