(* ===== verification/FsDir.thy ===== *)
theory FsDir
  imports FsSpec
begin

text \<open>
  Directories as finite maps: the entries of a directory, the inode number a name stands for, and that \<open>dirlookup\<close> and \<open>dirlink\<close> read and extend this map.
\<close>

unbundle bit_operations_syntax


subsection \<open>Names\<close>

text \<open>What \<open>namecmp\<close> compares: at most \<open>DIRSIZ\<close> bytes up to the terminator.\<close>

definition cname :: "bytes \<Rightarrow> bytes" where
  "cname a = takeWhile (\<lambda>c. c \<noteq> 0) (map (cptr_of a) [0..<DIRSIZ])"

lemma takeWhile_eq_iff:
  "takeWhile (\<lambda>c. c \<noteq> 0) (map p [i..<i + n]) = takeWhile (\<lambda>c. c \<noteq> 0) (map q [i..<i + n]) \<longleftrightarrow>
    (\<forall>k < n. (\<forall>j < k. p (i + j) \<noteq> (0 :: u8)) \<longrightarrow> p (i + k) = q (i + k))"
proof (induction n arbitrary: i)
  case (Suc n)
  have u: "[i..<i + Suc n] = i # [Suc i..<Suc i + n]" by (simp add: upt_conv_Cons)
  have "(\<forall>k < Suc n. (\<forall>j < k. p (i + j) \<noteq> 0) \<longrightarrow> p (i + k) = q (i + k)) \<longleftrightarrow>
      p i = q i \<and> (p i \<noteq> 0 \<longrightarrow> (\<forall>k < n. (\<forall>j < k. p (Suc i + j) \<noteq> 0) \<longrightarrow> p (Suc i + k) = q (Suc i + k)))"
    by (auto simp: All_less_Suc2)
  then show ?case unfolding u using Suc.IH [of "Suc i"] by auto
qed simp

lemma namecmp_iff: "namecmp a b = 0 \<longleftrightarrow> cname a = cname b"
  using takeWhile_eq_iff [of "cptr_of a" 0 DIRSIZ "cptr_of b"]
  by (simp add: namecmp_def strncmp_zero cname_def DIRSIZ_def)

lemma cname_strncpy: "cname (strncpy (cptr_of a) (int DIRSIZ)) = cname a"
proof -
  have "namecmp a (strncpy (cptr_of a) (int DIRSIZ)) = 0"
    unfolding namecmp_def strncmp_zero
    by (auto simp: cptr_of_def [of "strncpy _ _"] nth_strncpy DIRSIZ_def le_less)
  then show ?thesis by (simp add: namecmp_iff)
qed


subsection \<open>Entries\<close>

definition entry :: "(u32 \<Rightarrow> bytes) \<Rightarrow> u32 list \<Rightarrow> nat \<Rightarrow> bytes" where
  "entry V as k = map (fdata V as) [16 * k..<16 * k + 16]"

definition entries :: "(u32 \<Rightarrow> bytes) \<Rightarrow> 'a fstate_scheme \<Rightarrow> nat \<Rightarrow> bytes list" where
  "entries V s i = map (entry V (addrs s i)) [0..<unat (isize s i) div 16]"

definition matches :: "bytes \<Rightarrow> bytes \<Rightarrow> bool" where
  "matches name e \<longleftrightarrow> de_inum e \<noteq> 0 \<and> cname name = cname (de_name e)"

text \<open>The map from names to inode numbers that a list of entries stands for.\<close>

definition dlookup :: "bytes list \<Rightarrow> bytes \<Rightarrow> u16 option" where
  "dlookup es name = map_option de_inum (find (matches name) es)"

definition is_dir :: "u32 set \<Rightarrow> (u32 \<Rightarrow> bytes) \<Rightarrow> 'a fstate_scheme \<Rightarrow> nat \<Rightarrow> bool" where
  "is_dir A V s i \<longleftrightarrow> is_file A V s i \<and> d_type (i_di (icache s i)) = T_DIR \<and> unat (isize s i) mod 16 = 0
     \<and> unat (isize s i) \<le> MAXFILE * BSIZE \<and> 0 < i_ref (icache s i)"

lemma de_mk_dirent:
  assumes "length name = DIRSIZ"
  shows "de_inum (mk_dirent n name) = n" "de_name (mk_dirent n name) = name"
  using assms le16_join [of n] by (simp_all add: de_inum_def de_name_def mk_dirent_def get16_def le16_def slice_def)

lemma find_append: "find P (xs @ ys) = (case find P xs of None \<Rightarrow> find P ys | Some x \<Rightarrow> Some x)"
  by (induction xs) auto

lemma dlookup_link:
  assumes "de_inum e = n" "cname (de_name e) = cname name" "n \<noteq> 0" "dlookup es name = None"
    and "es' = es @ [e] \<or> (\<exists>k < length es. de_inum (es ! k) = 0 \<and> es' = es[k := e])"
  shows "dlookup es' x = (if cname x = cname name then Some n else dlookup es x)"
proof -
  have no: "\<not> matches name y" if "y \<in> set es" for y using assms(4) that by (auto simp: dlookup_def find_None_iff)
  have me: "matches x e \<longleftrightarrow> cname x = cname name" using assms(1-3) by (auto simp: matches_def)
  have mx: "\<not> matches x y" if "cname x = cname name" "y \<in> set es" for y using no [OF that(2)] that(1) by (simp add: matches_def)
  from assms(5) show ?thesis
  proof
    assume es': "es' = es @ [e]"
    have "find (matches x) es = None" if "cname x = cname name" using mx [OF that] by (auto simp: find_None_iff)
    then show ?thesis using me assms(1) by (cases "find (matches x) es") (auto simp: es' dlookup_def find_append)
  next
    assume "\<exists>k < length es. de_inum (es ! k) = 0 \<and> es' = es[k := e]"
    then obtain k where k: "k < length es" "de_inum (es ! k) = 0" "es' = es[k := e]" by blast
    have es: "es = take k es @ es ! k # drop (Suc k) es" using k(1) by (rule id_take_nth_drop)
    have es'': "es' = take k es @ e # drop (Suc k) es" using k by (simp add: upd_conv_take_nth_drop)
    have z: "\<not> matches x (es ! k)" using k(2) by (simp add: matches_def)
    have t: "find (matches x) (take k es) = None" if "cname x = cname name"
      using mx [OF that] by (auto simp: find_None_iff dest: in_set_takeD)
    have "find (matches x) es = find (matches x) (take k es @ drop (Suc k) es)"
      by (subst es) (simp add: find_append z split: option.split)
    then show ?thesis using me t assms(1) by (auto simp: es'' dlookup_def find_append split: option.split)
  qed
qed


subsection \<open>Looking up\<close>

lemma read_entry:
  assumes "unat sz mod 16 = 0" "16 * k < unat sz"
  shows "rd_result V as sz (of_nat (16 * k)) 16 = (16, entry V as k)"
proof -
  have k: "16 * k + 16 \<le> unat sz" using assms by (metis Suc_leI add.commute dvd_def less_mult_imp_div_less mod_0_imp_dvd mult.commute mult_Suc_right
      mult_le_mono2 nonzero_mult_div_cancel_left mult_less_cancel1)
  have u: "unat (of_nat (16 * k) :: u32) = 16 * k" by (rule unat_of_nat_u32) (use k u32_lt [of sz] in simp)
  have u1: "unat (of_nat (16 * k) + 16 :: u32) = 16 * k + 16 \<or> 16 * k + 16 = 2 ^ 32"
    using u unat_add_cases [of "of_nat (16 * k)" 16] k u32_lt [of sz] by auto
  then have u2: "unat (of_nat (16 * k) + 16 :: u32) = 16 * k + 16" using k u32_lt [of sz] by auto
  have "\<not> sz < of_nat (16 * k)" "\<not> (of_nat (16 * k) + 16 :: u32) < of_nat (16 * k)" "\<not> sz < of_nat (16 * k) + 16"
    using k u u2 by (simp_all add: word_less_nat_alt del: of_nat_mult)
  then show ?thesis using u by (simp add: rd_result_def entry_def Let_def del: of_nat_mult)
qed

text \<open>The standing conditions of the scans.\<close>

definition dcx :: "u32 set \<Rightarrow> u32 set \<Rightarrow> (u32 \<Rightarrow> bytes) \<Rightarrow> nat \<Rightarrow> 'a fstate_scheme \<Rightarrow> bool" where
  "dcx A L V dp s \<longleftrightarrow> fcx A L V dp s \<and> card L \<le> 8 \<and> d_type (i_di (icache s dp)) = T_DIR \<and> unat (isize s dp) mod 16 = 0"

lemma dcx_read:
  fixes s :: "'a fstate_scheme"
  assumes s: "dcx A L V dp s" and k: "16 * k < unat (isize s dp)"
    and Q: "\<And>t. dcx A L V dp t \<Longrightarrow> tx_keeps s t \<Longrightarrow> icache t = icache s \<Longrightarrow> Q (16, entry V (addrs s dp) k) t"
  shows "wp (readi dv dp (of_nat (16 * k)) 16) Q s"
proof (rule readi_tx)
  show "fcx A L V dp s" "card L \<le> 8" "d_type (i_di (icache s dp)) \<noteq> T_DEV" using s by (auto simp: dcx_def T_DIR_def T_DEV_def)
  fix t assume t: "fcx A L V dp t" "tx_keeps s t"
  have c: "icache t = icache s" using fs_rest(1) [of t s] t(2) by (simp add: tx_keeps_def)
  then have "dcx A L V dp t" using s t(1) by (simp add: dcx_def isize_def)
  then show "Q (rd_result V (addrs s dp) (isize s dp) (of_nat (16 * k)) 16) t"
    using Q t(2) c read_entry [of "isize s dp" k V "addrs s dp"] k s by (simp add: dcx_def del: of_nat_mult)
qed

lemma dirlookup_scan_ok:
  fixes s :: "'a fstate_scheme"
  assumes "dcx A L V dp s" "\<And>k. k \<in> set ks \<Longrightarrow> 16 * k < unat (isize s dp)"
    and "\<And>t. find (\<lambda>k. matches name (entry V (addrs s dp) k)) ks = None \<Longrightarrow> dcx A L V dp t \<Longrightarrow> tx_keeps s t \<Longrightarrow> icache t = icache s \<Longrightarrow> Q None t"
    and "\<And>t k. find (\<lambda>k. matches name (entry V (addrs s dp) k)) ks = Some k \<Longrightarrow> dcx A L V dp t \<Longrightarrow> tx_keeps s t \<Longrightarrow> icache t = icache s \<Longrightarrow>
      wp (iget ROOTDEV (ucast (de_inum (entry V (addrs s dp) k)))) (\<lambda>i. Q (Some (i, of_nat (16 * k)))) t"
  shows "wp (dirlookup_scan dv dp name (map ((*) 16) ks)) Q s"
  using assms
proof (induction ks arbitrary: s)
  case Nil
  have "tx_keeps s s" using tx_keeps_refl [OF txD(8) [OF fcxD(1)]] Nil.prems(1) by (auto simp: dcx_def)
  then show ?case using Nil.prems(1) Nil.prems(3) [of s] by simp
next
  case (Cons k ks)
  let ?e = "entry V (addrs s dp) k"
  show ?case
    unfolding list.map dirlookup_scan.simps wp_kbind
  proof (rule dcx_read [OF Cons.prems(1)])
    fix t assume t: "dcx A L V dp t" "tx_keeps s t" "icache t = icache s"
    have a: "addrs t dp = addrs s dp" "isize t dp = isize s dp" using t(3) by (simp_all add: addrs_def isize_def)
    have dev: "i_dev (icache t dp) = ROOTDEV" using t(1) by (simp add: dcx_def fcx_def)
    have rest: "wp (dirlookup_scan dv dp name (map ((*) 16) ks)) Q t" if "\<not> matches name ?e"
    proof (rule Cons.IH [OF t(1)], unfold a t(3))
      show "\<And>k. k \<in> set ks \<Longrightarrow> 16 * k < unat (isize s dp)" using Cons.prems(2) by simp
      show "\<And>u. find (\<lambda>k. matches name (entry V (addrs s dp) k)) ks = None \<Longrightarrow> dcx A L V dp u \<Longrightarrow> tx_keeps t u \<Longrightarrow> icache u = icache s \<Longrightarrow> Q None u"
        using Cons.prems(3) that tx_keeps_trans [OF t(2)] by simp
      show "\<And>u k. find (\<lambda>k. matches name (entry V (addrs s dp) k)) ks = Some k \<Longrightarrow> dcx A L V dp u \<Longrightarrow> tx_keeps t u \<Longrightarrow> icache u = icache s \<Longrightarrow>
          wp (iget ROOTDEV (ucast (de_inum (entry V (addrs s dp) k)))) (\<lambda>i. Q (Some (i, of_nat (16 * k)))) u"
        using Cons.prems(4) that tx_keeps_trans [OF t(2)] by simp
    qed
    have hit: "wp (iget ROOTDEV (ucast (de_inum ?e))) (\<lambda>i. Q (Some (i, of_nat (16 * k)))) t" if "matches name ?e"
      using Cons.prems(4) [of k t] that t by simp
    show "wp (if fst (16, ?e) \<noteq> 16 then kpanic ''dirlink read''
       else if de_inum (snd (16, ?e)) = 0 then dirlookup_scan dv dp name (map ((*) 16) ks)
       else if namecmp name (de_name (snd (16, ?e))) = 0 then
         kbind (inode_at dp) (\<lambda>ip. kbind (iget (i_dev ip) (ucast (de_inum (snd (16, ?e))))) (\<lambda>i. kreturn (Some (i, of_nat (16 * k)))))
       else dirlookup_scan dv dp name (map ((*) 16) ks)) Q t"
      using rest hit dev by (cases "matches name ?e") (auto simp: matches_def namecmp_iff inode_at_def)
  qed (use Cons.prems(2) in simp)
qed

text \<open>\<open>iget\<close> with a slot of the cache left.\<close>

lemma iget_ok:
  assumes "\<exists>j < NINODE. i_ref (icache s j) = 0"
    and "\<And>j f. (\<forall>n. i_di (f n) = i_di n) \<Longrightarrow> f (icache s j) = (icache s j)\<lparr>i_dev := dev, i_inum := inum, i_ref := i_ref (f (icache s j)),
         i_busy := i_busy (f (icache s j)), i_valid := i_valid (f (icache s j))\<rparr> \<Longrightarrow> 0 < i_ref (f (icache s j)) \<Longrightarrow>
         (i_valid (f (icache s j)) \<Longrightarrow> i_ref (f (icache s j)) \<noteq> 1) \<Longrightarrow> Q j (set_inode j f s)"
  shows "wp (iget dev inum) Q s"
proof (cases "find (\<lambda>i. 0 < i_ref (icache s i) \<and> i_dev (icache s i) = dev \<and> i_inum (icache s i) = inum) [0..<NINODE]")
  case (Some j)
  then have "0 < i_ref (icache s j)" "i_dev (icache s j) = dev" "i_inum (icache s j) = inum" by (auto simp: find_Some_iff)
  then have "Q j (set_inode j (\<lambda>ip. ip\<lparr>i_ref := i_ref ip + 1\<rparr>) s)" by (intro assms(2)) auto
  then show ?thesis using Some by (simp add: iget_def wp_def)
next
  case None
  then obtain j where j: "find (\<lambda>i. i_ref (icache s i) = 0) [0..<NINODE] = Some j"
    using assms(1) by (cases "find (\<lambda>i. i_ref (icache s i) = 0) [0..<NINODE]") (auto simp: find_None_iff)
  have "Q j (set_inode j (\<lambda>ip. ip\<lparr>i_dev := dev, i_inum := inum, i_ref := 1, i_busy := False, i_valid := False\<rparr>) s)" by (intro assms(2)) auto
  then show ?thesis using None j by (simp add: iget_def wp_def)
qed

lemma find_map: "find P (map f xs) = map_option f (find (\<lambda>x. P (f x)) xs)"
  by (induction xs) auto

lemma dlookup_entries:
  "dlookup (entries V s i) name = map_option (\<lambda>k. de_inum (entry V (addrs s i) k))
     (find (\<lambda>k. matches name (entry V (addrs s i) k)) [0..<unat (isize s i) div 16])"
  by (simp add: dlookup_def entries_def find_map option.map_comp comp_def)

lemma dir_offs_eq: "unat sz mod 16 = 0 \<Longrightarrow> dir_offs sz = map ((*) 16) [0..<unat sz div 16]"
proof -
  assume "unat sz mod 16 = 0"
  then have "(unat sz + 15) div 16 = unat sz div 16" by (auto simp: dvd_def mod_0_imp_dvd elim!: dvdE)
  then show ?thesis by (simp add: dir_offs_def)
qed

lemma wp_dir_end [simp]: "wp (dir_end sz m) Q s \<longleftrightarrow> unat sz \<le> 2 ^ 32 - 16 \<and> wp m Q s"
  by (auto simp: dir_end_def)

lemma set_inode_dcx:
  assumes "dcx A L V dp s" "\<forall>n. i_di (f n) = i_di n" "i_dev (f (icache s j)) = ROOTDEV"
  shows "dcx A L V dp (set_inode j f s)" "entries V (set_inode j f s) dp = entries V s dp"
  using assms by (auto simp: dcx_def fcx_def addrs_def isize_def entries_def)

lemma dirlookup_ok:
  fixes s :: "'a fstate_scheme"
  assumes s: "dcx A L V dp s" and sz: "unat (isize s dp) \<le> MAXFILE * BSIZE" and c: "\<exists>j < NINODE. i_ref (icache s j) = 0"
    and N: "\<And>t. dlookup (entries V s dp) name = None \<Longrightarrow> dcx A L V dp t \<Longrightarrow> tx_keeps s t \<Longrightarrow> icache t = icache s \<Longrightarrow> Q None t"
    and S: "\<And>n j off t. dlookup (entries V s dp) name = Some n \<Longrightarrow> dcx A L V dp t \<Longrightarrow> entries V t dp = entries V s dp \<Longrightarrow>
      i_inum (icache t j) = ucast n \<Longrightarrow> i_dev (icache t j) = ROOTDEV \<Longrightarrow> 0 < i_ref (icache t j) \<Longrightarrow>
      (i_valid (icache t j) \<Longrightarrow> i_ref (icache t j) \<noteq> 1) \<Longrightarrow> Q (Some (j, off)) t"
  shows "wp (dirlookup dv dp name) Q s"
proof -
  have d: "d_type (i_di (icache s dp)) = T_DIR" "unat (isize s dp) mod 16 = 0" using s by (simp_all add: dcx_def)
  have big: "unat (isize s dp) \<le> 2 ^ 32 - 16" using sz by (simp add: fs_consts)
  let ?n = "unat (isize s dp) div 16" and ?Q = "\<lambda>r. wp (case r of None \<Rightarrow> dir_end (isize s dp) (kreturn None) | Some x \<Rightarrow> kreturn (Some x)) Q"
  have "wp (dirlookup_scan dv dp name (map ((*) 16) [0..<?n])) ?Q s"
  proof (rule dirlookup_scan_ok [OF s])
    show "16 * k < unat (isize s dp)" if "k \<in> set [0..<?n]" for k using that by auto
    fix t assume t: "dcx A L V dp t" "tx_keeps s t" "icache t = icache s"
    show "?Q None t" if "find (\<lambda>k. matches name (entry V (addrs s dp) k)) [0..<?n] = None"
      using N [OF _ t] that big by (simp add: dlookup_entries)
    fix k assume k: "find (\<lambda>k. matches name (entry V (addrs s dp) k)) [0..<?n] = Some k"
    have l: "dlookup (entries V s dp) name = Some (de_inum (entry V (addrs s dp) k))" using k by (simp add: dlookup_entries)
    have es: "entries V t dp = entries V s dp" using t(3) by (simp add: entries_def addrs_def isize_def)
    show "wp (iget ROOTDEV (ucast (de_inum (entry V (addrs s dp) k)))) (\<lambda>i. ?Q (Some (i, of_nat (16 * k)))) t"
    proof (rule iget_ok)
      show "\<exists>j < NINODE. i_ref (icache t j) = 0" using c t(3) by simp
      fix j f
      assume f: "\<forall>n. i_di (f n) = i_di n" "f (icache t j) = (icache t j)\<lparr>i_dev := ROOTDEV, i_inum := ucast (de_inum (entry V (addrs s dp) k)),
          i_ref := i_ref (f (icache t j)), i_busy := i_busy (f (icache t j)), i_valid := i_valid (f (icache t j))\<rparr>" "0 < i_ref (f (icache t j))" "i_valid (f (icache t j)) \<Longrightarrow> i_ref (f (icache t j)) \<noteq> 1"
      have g: "i_dev (f (icache t j)) = ROOTDEV" "i_inum (f (icache t j)) = ucast (de_inum (entry V (addrs s dp) k))"
        by (subst f(2), simp)+
      have "Q (Some (j, of_nat (16 * k))) (set_inode j f t)"
        by (rule S [OF l set_inode_dcx(1) [OF t(1) f(1) g(1)]]) (use set_inode_dcx(2) [OF t(1) f(1) g(1)] es g f(3,4) in simp_all)
      then show "?Q (Some (j, of_nat (16 * k))) (set_inode j f t)" by simp
    qed
  qed
  then show ?thesis using d unfolding isize_def by (simp add: dirlookup_def inode_at_def dir_offs_eq)
qed


subsection \<open>Linking\<close>

lemma dirlink_scan_ok:
  fixes s :: "'a fstate_scheme"
  assumes "dcx A L V dp s" "\<And>k. k \<in> set ks \<Longrightarrow> 16 * k < unat (isize s dp)" "unat sz \<le> 2 ^ 32 - 16"
    and "\<And>t. dcx A L V dp t \<Longrightarrow> tx_keeps s t \<Longrightarrow> icache t = icache s \<Longrightarrow>
      Q (case find (\<lambda>k. de_inum (entry V (addrs s dp) k) = 0) ks of None \<Rightarrow> of_nat (16 * ((unat sz + 15) div 16)) | Some k \<Rightarrow> of_nat (16 * k)) t"
  shows "wp (dirlink_scan dv dp sz (map ((*) 16) ks)) Q s"
  using assms
proof (induction ks arbitrary: s)
  case Nil
  have "tx_keeps s s" using tx_keeps_refl [OF txD(8) [OF fcxD(1)]] Nil.prems(1) by (auto simp: dcx_def)
  then show ?case using Nil.prems(1,3) Nil.prems(4) [of s] by simp
next
  case (Cons k ks)
  let ?e = "entry V (addrs s dp) k"
  show ?case
    unfolding list.map dirlink_scan.simps wp_kbind
  proof (rule dcx_read [OF Cons.prems(1)])
    fix t assume t: "dcx A L V dp t" "tx_keeps s t" "icache t = icache s"
    have a: "addrs t dp = addrs s dp" "isize t dp = isize s dp" using t(3) by (simp_all add: addrs_def isize_def)
    have rest: "wp (dirlink_scan dv dp sz (map ((*) 16) ks)) Q t" if "de_inum ?e \<noteq> 0"
    proof (rule Cons.IH [OF t(1)], unfold a t(3))
      show "\<And>k. k \<in> set ks \<Longrightarrow> 16 * k < unat (isize s dp)" using Cons.prems(2) by simp
      show "unat sz \<le> 2 ^ 32 - 16" by (rule Cons.prems(3))
      fix u assume "dcx A L V dp u" "tx_keeps t u" "icache u = icache s"
      then show "Q (case find (\<lambda>k. de_inum (entry V (addrs s dp) k) = 0) ks of None \<Rightarrow> of_nat (16 * ((unat sz + 15) div 16)) | Some k \<Rightarrow> of_nat (16 * k)) u"
        using Cons.prems(4) [of u] that tx_keeps_trans [OF t(2)] by simp
    qed
    show "wp (if fst (16, ?e) \<noteq> 16 then kpanic ''dirlink read''
       else if de_inum (snd (16, ?e)) = 0 then kreturn (of_nat (16 * k))
       else dirlink_scan dv dp sz (map ((*) 16) ks)) Q t"
      using rest Cons.prems(4) [OF t] by (cases "de_inum ?e = 0") simp_all
  qed (use Cons.prems(2) in simp)
qed

text \<open>An entry lies in one block, so writing it visits at most three slots.\<close>

lemma dirent_budget:
  assumes "16 * k + 16 \<le> MAXFILE * BSIZE" "card L \<le> 2" "3 \<le> card (free V)"
  shows "\<exists>U. budget U (write_slots (16 * k) 16) (write_slots (16 * k) 16) V as L"
proof -
  let ?P = "write_slots (16 * k) 16" let ?h = "holes ?P V as"
  have "16 * k mod 512 \<le> 496"
  proof -
    have "16 * k mod 512 = 16 * (k mod 32)" using mult_mod_right [of 16 k 32] by simp
    then show ?thesis using mod_less_divisor [of 32 k] by simp
  qed
  then have "chunks (16 * k) 16 = [(16 * k div 512, 16 * k mod 512, 16)]"
    by (simp add: chunks.simps [of "16 * k" 16] chunks.simps [of _ 0] BSIZE_def Let_def)
  then have P: "?P = anc (leaf (16 * k div 512))" by (simp add: write_slots_def)
  note ok = write_slots_ok [OF assms(1)]
  have p3: "card ?P \<le> 3" unfolding P anc_leaf by (simp add: above_def card_insert_if)
  have h: "?h \<le> card ?P" unfolding holes_def using ok by (intro card_mono) auto
  have "card (bitmaps ?h V) \<le> length (take ?h (sorted_list_of_set (free V)))"
    unfolding bitmaps_def by (rule order_trans [OF card_image_le card_length]) simp
  then have b: "card (bitmaps ?h V) \<le> 3" using h p3 by simp
  have "budget (L \<union> bitmaps ?h V) ?P ?P V as L"
    using ok p3 h b assms(2,3) card_Un_le [of L "bitmaps ?h V"] by (auto simp: budget_def reserve_def)
  then show ?thesis ..
qed

text \<open>The entries after writing one in slot \<open>k\<close>, the first beyond the end at most.\<close>

lemma entries_wrote:
  assumes w: "wrote A V s dp (of_nat (16 * k)) e V' t" and e: "length e = 16"
    and sz: "unat (isize s dp) mod 16 = 0" "16 * k \<le> unat (isize s dp)" "unat (isize s dp) + 16 < 2 ^ 32"
  shows "entries V' t dp = (if 16 * k = unat (isize s dp) then entries V s dp @ [e] else (entries V s dp)[k := e])"
    "unat (isize t dp) = max (unat (isize s dp)) (16 * k + 16)"
proof -
  have u: "unat (of_nat (16 * k) :: u32) = 16 * k" by (rule unat_of_nat_u32) (use sz in simp)
  have u2: "unat (of_nat (16 * k) + 16 :: u32) = 16 * k + 16" using u unat_add_cases [of "of_nat (16 * k)" 16] sz by auto
  show z: "unat (isize t dp) = max (unat (isize s dp)) (16 * k + 16)"
    using w u2 e by (auto simp: wrote_def Let_def word_less_nat_alt max_def simp del: of_nat_mult)
  have d: "fdata V' (addrs t dp) x = (if 16 * k \<le> x \<and> x < 16 * k + 16 then e ! (x - 16 * k) else fdata V (addrs s dp) x)" for x
    using w u e by (simp add: wrote_def Let_def del: of_nat_mult)
  have ent: "entry V' (addrs t dp) m = (if m = k then e else entry V (addrs s dp) m)" for m
  proof (rule nth_equalityI)
    fix i assume "i < length (entry V' (addrs t dp) m)"
    then have i: "i < 16" by (simp add: entry_def)
    have "16 * k \<le> 16 * m + i \<and> 16 * m + i < 16 * k + 16 \<longleftrightarrow> m = k" using i by (cases m k rule: linorder_cases) auto
    then show "entry V' (addrs t dp) m ! i = (if m = k then e else entry V (addrs s dp) m) ! i" using i e by (simp add: entry_def d)
  qed (use e in \<open>simp add: entry_def\<close>)
  obtain n where n: "unat (isize s dp) = 16 * n" using sz(1) by (auto simp: mod_eq_0_iff_dvd elim: dvdE)
  show "entries V' t dp = (if 16 * k = unat (isize s dp) then entries V s dp @ [e] else (entries V s dp)[k := e])"
    using sz(2) by (auto simp: entries_def z n ent max_def intro!: nth_equalityI simp: nth_list_update nth_append less_Suc_eq)
qed

lemma dirlink_ok:
  fixes s :: "'a fstate_scheme"
  assumes s: "dcx A L V dp s" "in_tx s" and ix: "ib s dp \<in> ibs V" and L: "card L \<le> 2" and fr: "3 \<le> card (free V)"
    and sz: "unat (isize s dp) + 16 \<le> MAXFILE * BSIZE" and c: "\<exists>j < NINODE. i_ref (icache s j) = 0"
    and no: "dlookup (entries V s dp) name = None" and n: "(ucast inum :: u16) \<noteq> 0"
    and Q: "\<And>L' V' t. fcx A L' V' dp t \<Longrightarrow> fs_keeps dp s t \<Longrightarrow> V' 1 = V 1 \<Longrightarrow>
      unat (isize t dp) mod 16 = 0 \<Longrightarrow> unat (isize t dp) \<le> unat (isize s dp) + 16 \<Longrightarrow>
      (\<And>x. dlookup (entries V' t dp) x = (if cname x = cname name then Some (ucast inum) else dlookup (entries V s dp) x)) \<Longrightarrow> Q 0 t"
  shows "wp (dirlink dv dp name inum) Q s"
  unfolding dirlink_def wp_kbind
proof (rule dirlookup_ok [OF s(1) _ c])
  show "unat (isize s dp) \<le> MAXFILE * BSIZE" using sz by simp
  let ?e = "mk_dirent (ucast inum) (strncpy (cptr_of name) (int DIRSIZ))"
  let ?n = "unat (isize s dp) div 16"
  have m16: "unat (isize s dp) mod 16 = 0" using s(1) by (simp add: dcx_def)
  have le: "length ?e = 16" by (simp add: mk_dirent_def DIRSIZ_def)
  have big: "unat (isize s dp) + 16 < 2 ^ 32" using sz by (simp add: fs_consts)
  fix t1 assume t1: "dcx A L V dp t1" "tx_keeps s t1" "icache t1 = icache s"
  have a1: "addrs t1 dp = addrs s dp" "isize t1 dp = isize s dp" using t1(3) by (simp_all add: addrs_def isize_def)
  let ?F = "find (\<lambda>k. de_inum (entry V (addrs s dp) k) = 0) [0..<?n]"
  define k where "k = (case ?F of None \<Rightarrow> ?n | Some k \<Rightarrow> k)"
  have k: "16 * k \<le> unat (isize s dp)" "16 * k = unat (isize s dp) \<or> k < ?n \<and> de_inum (entry V (addrs s dp) k) = 0"
    using m16 by (auto simp: k_def find_Some_iff split: option.split)
  have off: "(case ?F of None \<Rightarrow> of_nat (16 * ((unat (isize s dp) + 15) div 16)) | Some k \<Rightarrow> of_nat (16 * k)) = (of_nat (16 * k) :: u32)"
  proof -
    have "(unat (isize s dp) + 15) div 16 = ?n" using m16 by (auto simp: mod_eq_0_iff_dvd elim!: dvdE)
    then show ?thesis by (simp add: k_def split: option.split)
  qed
  have uk: "unat (of_nat (16 * k) :: u32) = 16 * k" by (rule unat_of_nat_u32) (use k(1) big in simp)
  have "wp (dirlink_scan dv dp (isize s dp) (map ((*) 16) [0..<?n])) (\<lambda>off. wp (kbind (writei dv dp ?e off 16)
      (\<lambda>w. if w \<noteq> 16 then kpanic ''dirlink'' else kreturn 0)) Q) t1"
  proof (rule dirlink_scan_ok [OF t1(1)], unfold a1 t1(3) off)
    fix t2 assume t2: "dcx A L V dp t2" "tx_keeps t1 t2" "icache t2 = icache s"
    have a2: "addrs t2 dp = addrs s dp" "isize t2 dp = isize s dp" "ib t2 dp = ib s dp" "entries V t2 dp = entries V s dp"
      using t2(3) by (simp_all add: addrs_def isize_def ib_def entries_def)
    have k12: "tx_keeps s t2" by (rule tx_keeps_trans [OF t1(2) t2(2)])
    have k16: "16 * k + 16 \<le> MAXFILE * BSIZE" using k(1) sz by simp
    from dirent_budget [OF k16 L fr] obtain U where bg: "budget U (write_slots (16 * k) 16) (write_slots (16 * k) 16) V (addrs s dp) L" by blast
    show "wp (kbind (writei dv dp ?e (of_nat (16 * k)) 16) (\<lambda>w. if w \<noteq> 16 then kpanic ''dirlink'' else kreturn 0)) Q t2"
      unfolding wp_kbind
    proof (rule writei_tx, unfold a2 uk)
      show "budget U (write_slots (16 * k) 16) (write_slots (16 * k) 16) V (addrs s dp) L" by (rule bg)
      show "write_slots (16 * k) (unat (16 :: u32)) \<subseteq> write_slots (16 * k) 16" by simp
      show "fcx A L V dp t2" "d_type (i_di (icache t2 dp)) \<noteq> T_DEV" using t2(1) by (auto simp: dcx_def T_DIR_def T_DEV_def)
      show "in_tx t2" using s(2) k12 by (simp add: tx_keeps_def tx_prog_def in_tx_def)
      show "of_nat (16 * k) \<le> isize s dp" using k(1) uk by (simp add: word_le_nat_alt del: of_nat_mult)
      show "16 * k + unat (16 :: u32) \<le> MAXFILE * BSIZE" using k16 by simp
      fix L' V' t assume t: "fcx A L' V' dp t" "fs_keeps dp t2 t" "wrote A V t2 dp (of_nat (16 * k)) ?e V' t"
      note W = entries_wrote [OF t(3) le, unfolded a2, OF m16 k(1) big]
      have "dlookup (entries V' t dp) x = (if cname x = cname name then Some (ucast inum) else dlookup (entries V s dp) x)" for x
      proof (rule dlookup_link [OF _ _ n no])
        show "de_inum ?e = ucast inum" "cname (de_name ?e) = cname name" using de_mk_dirent by (simp_all add: cname_strncpy)
        show "entries V' t dp = entries V s dp @ [?e] \<or> (\<exists>k < length (entries V s dp). de_inum (entries V s dp ! k) = 0 \<and> entries V' t dp = (entries V s dp)[k := ?e])"
          using W(1) k(2) by (cases "16 * k = unat (isize s dp)") (auto simp: entries_def)
      qed
      moreover have "fs_keeps dp s t" by (rule fs_keeps_trans [OF fs_keeps_tx [OF k12] t(2)])
      moreover have "unat (isize t dp) mod 16 = 0" "unat (isize t dp) \<le> unat (isize s dp) + 16" using W(2) m16 k(1) by (auto simp: max_def)
      moreover have "V' 1 = V 1" using t(3) by (simp add: wrote_def Let_def)
      ultimately have "Q 0 t" using Q [of L' V' t] t(1) by simp
      then show "wp (if sint (16 :: u32) \<noteq> 16 then kpanic ''dirlink'' else kreturn 0) Q t" by simp
    qed (use ix le in simp_all)
  qed (use big in auto)
  then show "wp (case None of Some x \<Rightarrow> kthen (iput (fst x)) (kreturn (- 1)) | None \<Rightarrow> kbind (inode_at dp) (\<lambda>ip.
       kbind (dirlink_scan dv dp (d_size (i_di ip)) (dir_offs (d_size (i_di ip)))) (\<lambda>off.
       kbind (writei dv dp (mk_dirent (ucast inum) (strncpy (cptr_of name) (int DIRSIZ))) off 16) (\<lambda>w.
       if w \<noteq> 16 then kpanic ''dirlink'' else kreturn 0)))) Q t1"
    using m16 t1(3) dir_offs_eq [OF m16] by (simp add: inode_at_def isize_def)
qed (use no in simp)

lemma dirlink_present:
  fixes s :: "'a fstate_scheme"
  assumes s: "dcx A L V dp s" and sz: "unat (isize s dp) \<le> MAXFILE * BSIZE" and c: "\<exists>j < NINODE. i_ref (icache s j) = 0"
    and no: "dlookup (entries V s dp) name \<noteq> None"
    and Q: "\<And>t. fcx A L V dp t \<Longrightarrow> entries V t dp = entries V s dp \<Longrightarrow> Q (- 1) t"
  shows "wp (dirlink dv dp name inum) Q s"
  unfolding dirlink_def wp_kbind
proof (rule dirlookup_ok [OF s sz c])
  fix n j off and t :: "'a fstate_scheme"
  assume t: "dcx A L V dp t" "entries V t dp = entries V s dp" "0 < i_ref (icache t j)" "i_valid (icache t j) \<Longrightarrow> i_ref (icache t j) \<noteq> 1"
  let ?u = "set_inode j (\<lambda>ip. ip\<lparr>i_ref := i_ref ip - 1\<rparr>) t"
  have "fcx A L V dp ?u" "entries V ?u dp = entries V t dp"
    using t(1) by (auto simp: dcx_def fcx_def addrs_def isize_def entries_def)
  then have "Q (- 1) ?u" using Q t(2) by simp
  then show "wp (case Some (j, off) of Some x \<Rightarrow> kthen (iput (fst x)) (kreturn (- 1)) | None \<Rightarrow> kbind (inode_at dp) (\<lambda>ip.
       kbind (dirlink_scan dv dp (d_size (i_di ip)) (dir_offs (d_size (i_di ip)))) (\<lambda>off.
       kbind (writei dv dp (mk_dirent (ucast inum) (strncpy (cptr_of name) (int DIRSIZ))) off 16) (\<lambda>w.
       if w \<noteq> 16 then kpanic ''dirlink'' else kreturn 0)))) Q t"
    using t(4) by (auto simp: iput_def inode_at_def)
qed (use no in simp)

text \<open>
  C5. Directories are finite maps from names to inode numbers, names being compared up to their terminator and to \<open>DIRSIZ\<close> bytes. In a transaction, with a slot of the inode cache free,
  \<open>dirlookup\<close> returns no inode exactly for the names that are not in the map and otherwise an inode with the number the map has; \<open>dirlink\<close> of a name that is
  there fails and changes no entry; and \<open>dirlink\<close> of a new name returns 0 and the directory is then the map updated at this name.
\<close>

theorem directory_refines_map:
  fixes s :: "'a fstate_scheme"
  assumes t: "tx A {} L V s" "in_tx s" and d: "is_dir A V s dp" and L: "card L \<le> 2" and fr: "3 \<le> card (free V)"
    and sz: "unat (isize s dp) + 16 \<le> MAXFILE * BSIZE" and c: "\<exists>j < NINODE. i_ref (icache s j) = 0" and n: "(ucast inum :: u16) \<noteq> 0"
  shows "wp (dirlookup dv dp name) (\<lambda>r t. case dlookup (entries V s dp) name of None \<Rightarrow> r = None
       | Some m \<Rightarrow> \<exists>j off. r = Some (j, off) \<and> i_inum (icache t j) = ucast m \<and> i_dev (icache t j) = ROOTDEV \<and> 0 < i_ref (icache t j)) s
    \<and> (dlookup (entries V s dp) name \<noteq> None \<longrightarrow> wp (dirlink dv dp name inum) (\<lambda>r t. r = - 1 \<and> entries V t dp = entries V s dp \<and> tx A {} L V t) s)
    \<and> (dlookup (entries V s dp) name = None \<longrightarrow> wp (dirlink dv dp name inum) (\<lambda>r t. r = 0 \<and> (\<exists>L' V'. tx A {} L' V' t \<and> is_dir A V' t dp
         \<and> (\<forall>x. dlookup (entries V' t dp) x = (if cname x = cname name then Some (ucast inum) else dlookup (entries V s dp) x)))) s)"
proof (intro conjI impI)
  have f: "is_file A V s dp" "d_type (i_di (icache s dp)) = T_DIR" "unat (isize s dp) mod 16 = 0" "0 < i_ref (icache s dp)" using d by (simp_all add: is_dir_def)
  have D: "dcx A L V dp s" using t f L by (simp add: dcx_def fcx_def is_file_def)
  have z: "unat (isize s dp) \<le> MAXFILE * BSIZE" using sz by simp
  show "wp (dirlookup dv dp name) (\<lambda>r t. case dlookup (entries V s dp) name of None \<Rightarrow> r = None
     | Some m \<Rightarrow> \<exists>j off. r = Some (j, off) \<and> i_inum (icache t j) = ucast m \<and> i_dev (icache t j) = ROOTDEV \<and> 0 < i_ref (icache t j)) s"
    by (rule dirlookup_ok [OF D z c]) auto
  show "wp (dirlink dv dp name inum) (\<lambda>r t. r = - 1 \<and> entries V t dp = entries V s dp \<and> tx A {} L V t) s"
    if "dlookup (entries V s dp) name \<noteq> None"
    by (rule dirlink_present [OF D z c that]) (simp add: fcx_def)
  assume no: "dlookup (entries V s dp) name = None"
  have ix: "ib s dp \<in> ibs V" using f(1) by (simp add: is_file_def)
  show "wp (dirlink dv dp name inum) (\<lambda>r t. r = 0 \<and> (\<exists>L' V'. tx A {} L' V' t \<and> is_dir A V' t dp
       \<and> (\<forall>x. dlookup (entries V' t dp) x = (if cname x = cname name then Some (ucast inum) else dlookup (entries V s dp) x)))) s"
  proof (rule dirlink_ok [OF D t(2) ix L fr sz c no n])
    fix L' V' u
    assume u: "fcx A L' V' dp u" "fs_keeps dp s u" "V' 1 = V 1" "unat (isize u dp) mod 16 = 0" "unat (isize u dp) \<le> unat (isize s dp) + 16"
      and l: "\<And>x. dlookup (entries V' u dp) x = (if cname x = cname name then Some (ucast inum) else dlookup (entries V s dp) x)"
    note K = fs_keepsD [OF u(2)]
    have "is_dir A V' u dp" using u f K(2,3,7) ix layout_cong(4) [of V' V, OF u(3)] sz
      by (simp add: is_dir_def is_file_def fcx_def ib_def T_DIR_def T_DEV_def)
    then show "0 = (0 :: int) \<and> (\<exists>L' V'. tx A {} L' V' u \<and> is_dir A V' u dp
        \<and> (\<forall>x. dlookup (entries V' u dp) x = (if cname x = cname name then Some (ucast inum) else dlookup (entries V s dp) x)))"
      using u(1) l unfolding fcx_def by blast
  qed
qed

text \<open>An empty directory.\<close>

definition demo_dir :: fstate where
  "demo_dir = set_inode 0 (\<lambda>n. n\<lparr>i_ref := 1, i_di := (i_di n)\<lparr>d_type := T_DIR\<rparr>\<rparr>) (set_inode 1 (\<lambda>n. n\<lparr>i_ref := 0\<rparr>) (trans_open demo_fs))"

theorem directory_refines_map_witness:
  "wp (dirlink \<lparr>dv_read = \<lambda>_. None, dv_write = \<lambda>_. None\<rparr> 0 [97] 7)
     (\<lambda>r t. r = 0 \<and> (\<exists>V'. dlookup (entries V' t 0) [97] = Some 7 \<and> dlookup (entries V' t 0) [98] = None)) demo_dir"
proof -
  let ?A = "log_area demo_log"
  have t: "tx ?A {} {} demo_blocks demo_dir" "in_tx demo_dir"
    using quiet_open(2,3) [OF demo_fs_quiet(1) [of "()"]] by (simp_all add: demo_dir_def demo_fs_quiet)
  have i: "icache demo_dir 0 = demo_ino\<lparr>i_ref := 1, i_di := (i_di demo_ino)\<lparr>d_type := T_DIR\<rparr>\<rparr>" "i_ref (icache demo_dir 1) = 0"
    by (simp_all add: demo_dir_def demo_fs_quiet)
  have z: "isize demo_dir 0 = 0" by (simp add: isize_def i demo_ino_def)
  have "is_file ?A demo_blocks demo_dir 0"
    using demo_fs_file [of "()"] by (simp add: is_file_def demo_fs_quiet i addrs_def ib_def T_DIR_def T_DEV_def)
  then have d: "is_dir ?A demo_blocks demo_dir 0" by (simp add: is_dir_def i z isize_def demo_ino_def)
  have e: "dlookup (entries demo_blocks demo_dir 0) x = None" for x by (simp add: entries_def z dlookup_def)
  have c: "\<exists>j < NINODE. i_ref (icache demo_dir j) = 0" using i(2) by (intro exI [of _ 1]) (simp add: NINODE_def)
  have "cname [97] \<noteq> cname [98]" by (simp add: cname_def DIRSIZ_def upt_rec cptr_of_def)
  moreover have "wp (dirlink \<lparr>dv_read = \<lambda>_. None, dv_write = \<lambda>_. None\<rparr> 0 [97] 7) (\<lambda>r t. r = 0 \<and>
      (\<exists>V'. \<forall>x. dlookup (entries V' t 0) x = (if cname x = cname [97] then Some (ucast (7 :: u32)) else None))) demo_dir"
    using directory_refines_map [OF t d _ demo_fs_room _ c, of 7 "\<lparr>dv_read = \<lambda>_. None, dv_write = \<lambda>_. None\<rparr>" "[97]"]
    unfolding e by (auto simp: z fs_consts split del: if_split elim!: wp_mono)
  moreover have "(ucast (7 :: u32) :: u16) = 7" by simp
  ultimately show ?thesis by (elim wp_mono) metis
qed

end
