(* ===== verification/Vm.thy ===== *)
theory Vm
  imports Kalloc
begin

text \<open>
  Page tables, \<open>kernel/vm.c\<close>, and the checks for shared page tables of \<open>kernel/proc.c\<close>. A page
  directory is the address of a page; its entries and those of the page tables are words of
  the byte memory of the page allocator, the physical frame \<open>pa\<close> being the page at \<open>p2v pa\<close>. What
  the code reads of the process table is the list \<open>dirs\<close> of the page directories of the live processes, an
  argument here; \<open>kdata\<close> is the address of the linker symbol \<open>data\<close>. The lock
  \<open>setupkvm_lock\<close>, held by each operation throughout, and the messages on the console are left out, so
  an operation and its \<open>_nolock\<close> variant are one definition.
\<close>

unbundle bit_operations_syntax

definition EXTMEM :: u32 where "EXTMEM = 0x100000"
definition KERNLINK :: u32 where "KERNLINK = KERNBASE + EXTMEM"
definition DEVSPACE :: u32 where "DEVSPACE = 0xF0000000"
definition NPDENTRIES :: nat where "NPDENTRIES = 1024"

definition PTE_P :: u32 where "PTE_P = 0x001"
definition PTE_W :: u32 where "PTE_W = 0x002"
definition PTE_U :: u32 where "PTE_U = 0x004"
definition PTE_PWT :: u32 where "PTE_PWT = 0x008"
definition PTE_PCD :: u32 where "PTE_PCD = 0x010"
definition PTE_A :: u32 where "PTE_A = 0x020"
definition PTE_D :: u32 where "PTE_D = 0x040"

definition PDX :: "u32 \<Rightarrow> u32" where "PDX va = drop_bit 22 va AND 0x3FF"
definition PTX :: "u32 \<Rightarrow> u32" where "PTX va = drop_bit 12 va AND 0x3FF"
definition PGADDR :: "u32 \<Rightarrow> u32 \<Rightarrow> u32 \<Rightarrow> u32" where
  "PGADDR d t o' = push_bit 22 d OR push_bit 12 t OR o'"
definition PTE_ADDR :: "u32 \<Rightarrow> u32" where "PTE_ADDR pte = pte AND NOT 0xFFF"

definition present :: "u32 \<Rightarrow> bool" where "present pte \<longleftrightarrow> pte AND PTE_P \<noteq> 0"

text \<open>The test \<open>pa == 0 || pa % PGSIZE != 0 || pa >= ptop || kv < end || v2p(kv) >= ptop\<close>, negated.\<close>

definition frame_ok :: "kmem \<Rightarrow> u32 \<Rightarrow> bool" where
  "frame_ok s pa \<longleftrightarrow> \<not> (pa = 0 \<or> pa mod PGSIZE \<noteq> 0 \<or> ptop s \<le> pa \<or> p2v pa < kend s \<or> ptop s \<le> v2p (p2v pa))"

definition rd32 :: "u32 \<Rightarrow> (kmem, u32) kop" where
  "rd32 a = kget (\<lambda>s. load32 a (kmem_mem s))"

definition wr32 :: "u32 \<Rightarrow> u32 \<Rightarrow> (kmem, unit) kop" where
  "wr32 a w = kmod (\<lambda>s. s\<lparr>kmem_mem := store32 a w (kmem_mem s)\<rparr>)"

definition on_mem :: "(mem \<Rightarrow> mem) \<Rightarrow> (kmem, unit) kop" where
  "on_mem f = kmod (\<lambda>s. s\<lparr>kmem_mem := f (kmem_mem s)\<rparr>)"


subsection \<open>Operations\<close>

text \<open>The address of the page-table entry of \<open>va\<close>, 0 when there is none.\<close>

definition walkpgdir :: "u32 \<Rightarrow> u32 \<Rightarrow> bool \<Rightarrow> (kmem, u32) kop" where
  "walkpgdir pgdir va alloc =
     (let pde = pgdir + 4 * PDX va;
          miss = (if \<not> alloc then kreturn 0
                  else kbind kalloc (\<lambda>pgtab.
                       if pgtab = 0 then kreturn 0
                       else kthen (on_mem (memset pgtab 0 PGSIZE))
                            (kthen (wr32 pde (v2p pgtab OR PTE_P OR PTE_W OR PTE_U))
                            (kreturn (pgtab + 4 * PTX va)))))
      in kbind (rd32 pde) (\<lambda>w.
         if present w then
           kbind (kget (\<lambda>s. frame_ok s (PTE_ADDR w))) (\<lambda>ok.
           if ok then kreturn (p2v (PTE_ADDR w) + 4 * PTX va)
           else kthen (wr32 pde 0) miss)
         else miss))"

text \<open>One page of \<open>mappages_nolock\<close>; false is the return value \<open>-1\<close>.\<close>

definition map_one :: "u32 \<Rightarrow> u32 \<Rightarrow> u32 \<Rightarrow> u32 \<Rightarrow> (kmem, bool) kop" where
  "map_one pgdir a pa perm =
     (let want = pa OR perm OR PTE_P; ad = PTE_A OR PTE_D in
      kbind (walkpgdir pgdir a True) (\<lambda>pte.
      if pte = 0 then kreturn False
      else kbind (rd32 pte) (\<lambda>w.
        if present w then
          (if w AND NOT ad = want then kreturn True
           else if PTE_ADDR w = pa then kthen (wr32 pte (want OR (w AND ad))) (kreturn True)
           else if KERNBASE \<le> a then kthen (wr32 pte (want OR (w AND ad))) (kreturn True)
           else kpanic ''remap'')
        else kthen (wr32 pte want) (kreturn True))))"

text \<open>The loop steps from \<open>a\<close> to \<open>last\<close>, both page-aligned, and may pass the end of the address space.\<close>

primrec mappages_loop :: "u32 \<Rightarrow> u32 \<Rightarrow> nat \<Rightarrow> u32 \<Rightarrow> u32 \<Rightarrow> (kmem, int) kop" where
  "mappages_loop pgdir perm 0 a pa = kbind (map_one pgdir a pa perm) (\<lambda>ok. kreturn (if ok then 0 else - 1))"
| "mappages_loop pgdir perm (Suc n) a pa =
     kbind (map_one pgdir a pa perm) (\<lambda>ok.
     if \<not> ok then kreturn (- 1) else mappages_loop pgdir perm n (a + PGSIZE) (pa + PGSIZE))"

definition mappages :: "u32 \<Rightarrow> u32 \<Rightarrow> u32 \<Rightarrow> u32 \<Rightarrow> u32 \<Rightarrow> (kmem, int) kop" where
  "mappages pgdir va sz pa perm =
     (let a = PGROUNDDOWN va; last = PGROUNDDOWN (va + sz - 1) in
      mappages_loop pgdir perm (unat ((last - a) div PGSIZE)) a pa)"

definition user_pdes :: "u32 list" where
  "user_pdes = map of_nat [0..<unat (PDX KERNBASE)]"

definition pgdir_share_user_pt :: "u32 \<Rightarrow> u32 \<Rightarrow> kmem \<Rightarrow> bool" where
  "pgdir_share_user_pt a b s =
     (if a = 0 \<or> b = 0 then False
      else list_ex (\<lambda>i. let pa = load32 (a + 4 * i) (kmem_mem s); pb = load32 (b + 4 * i) (kmem_mem s) in
             present pa \<and> present pb \<and> PTE_ADDR pa \<noteq> 0 \<and> PTE_ADDR pa = PTE_ADDR pb) user_pdes)"

definition pgdir_uses_pt :: "kmem \<Rightarrow> u32 \<Rightarrow> u32 \<Rightarrow> bool" where
  "pgdir_uses_pt s pde_pa d =
     list_ex (\<lambda>i. let w = load32 (d + 4 * i) (kmem_mem s) in present w \<and> PTE_ADDR w = pde_pa) user_pdes"

definition pgdir_user_pt_shared_with_other :: "u32 list \<Rightarrow> u32 \<Rightarrow> u32 \<Rightarrow> kmem \<Rightarrow> bool" where
  "pgdir_user_pt_shared_with_other dirs owner pde_pa s =
     (if owner = 0 \<or> pde_pa = 0 then False
      else list_ex (\<lambda>d. d \<noteq> 0 \<and> d \<noteq> owner \<and> pgdir_uses_pt s pde_pa d) dirs)"

definition proc_user_pt_page_in_use :: "u32 list \<Rightarrow> u32 \<Rightarrow> kmem \<Rightarrow> bool" where
  "proc_user_pt_page_in_use dirs pde_pa s =
     (if pde_pa = 0 then False else list_ex (\<lambda>d. d \<noteq> 0 \<and> pgdir_uses_pt s pde_pa d) dirs)"

text \<open>The body of the loop of \<open>deallocuvm_nolock\<close>: the address from which the loop continues (before \<open>a += PGSIZE\<close>).\<close>

definition dealloc_one :: "u32 list \<Rightarrow> u32 \<Rightarrow> u32 \<Rightarrow> (kmem, u32) kop" where
  "dealloc_one dirs pgdir a =
     (if a < 0x4000 then kreturn a
      else kbind (rd32 (pgdir + 4 * PDX a)) (\<lambda>pde.
           kbind (kget (pgdir_user_pt_shared_with_other dirs pgdir (PTE_ADDR pde))) (\<lambda>shared.
           if present pde \<and> PTE_ADDR pde \<noteq> 0 \<and> shared then kreturn (PGADDR (PDX a + 1) 0 0 - PGSIZE)
           else kbind (walkpgdir pgdir a False) (\<lambda>pte.
                if pte = 0 then kreturn (PGADDR (PDX a + 1) 0 0 - PGSIZE)
                else kbind (rd32 pte) (\<lambda>w.
                     if present w then
                       kthen (wr32 pte 0)
                       (kbind (kget (\<lambda>s. frame_ok s (PTE_ADDR w))) (\<lambda>ok.
                        if ok then kthen (kfree (p2v (PTE_ADDR w))) (kreturn a) else kreturn a))
                     else kreturn a)))))"

text \<open>
  The loop. If \<open>a\<close> wraps around, which needs \<open>oldsz\<close> in the last page of the address space, it does
  not end; no caller passes more than \<open>KERNBASE\<close>.
\<close>

function dealloc_loop :: "u32 list \<Rightarrow> u32 \<Rightarrow> u32 \<Rightarrow> u32 \<Rightarrow> (kmem, unit) kop" where
  "dealloc_loop dirs pgdir oldsz a s =
     (if a < oldsz then
        kbind (dealloc_one dirs pgdir a) (\<lambda>a'.
          if a' + PGSIZE \<le> a then kundef else dealloc_loop dirs pgdir oldsz (a' + PGSIZE)) s
      else Ok ((), s))"
  by pat_completeness auto
termination
proof (relation "measure (\<lambda>(d, p, z, a, s). 2 ^ 32 - unat a)", goal_cases)
  case (2 dirs pgdir oldsz a s a' t)
  then show ?case using u32_lt [of a] by (simp add: word_le_nat_alt not_le)
qed simp

declare dealloc_loop.simps [simp del]

definition deallocuvm :: "u32 list \<Rightarrow> u32 \<Rightarrow> u32 \<Rightarrow> u32 \<Rightarrow> (kmem, u32) kop" where
  "deallocuvm dirs pgdir oldsz newsz =
     (if oldsz \<le> newsz then kreturn oldsz
      else kthen (dealloc_loop dirs pgdir oldsz (PGROUNDUP newsz)) (kreturn newsz))"

text \<open>The loop of \<open>allocuvm_nolock\<close> over the pages from \<open>a\<close>; \<open>newsz < KERNBASE\<close>, so \<open>a\<close> does not wrap.\<close>

primrec alloc_loop :: "u32 list \<Rightarrow> u32 \<Rightarrow> u32 \<Rightarrow> u32 \<Rightarrow> u32 list \<Rightarrow> (kmem, u32) kop" where
  "alloc_loop dirs pgdir oldsz newsz [] = kreturn newsz"
| "alloc_loop dirs pgdir oldsz newsz (a # as) =
     kbind kalloc (\<lambda>m.
     if m = 0 then kthen (deallocuvm dirs pgdir newsz oldsz) (kreturn 0)
     else kthen (on_mem (memset m 0 PGSIZE))
       (kbind (mappages pgdir a PGSIZE (v2p m) (PTE_W OR PTE_U)) (\<lambda>r.
        if r < 0 then kthen (kfree m) (kthen (deallocuvm dirs pgdir newsz oldsz) (kreturn 0))
        else alloc_loop dirs pgdir oldsz newsz as)))"

definition pages_from :: "u32 \<Rightarrow> u32 \<Rightarrow> u32 list" where
  "pages_from a z = map (\<lambda>k. a + of_nat k * PGSIZE) [0..<(if a < z then (unat z - unat a + 4095) div 4096 else 0)]"

definition allocuvm :: "u32 list \<Rightarrow> u32 \<Rightarrow> u32 \<Rightarrow> u32 \<Rightarrow> (kmem, u32) kop" where
  "allocuvm dirs pgdir oldsz newsz =
     (if KERNBASE \<le> newsz then kreturn 0
      else if newsz < oldsz then kreturn oldsz
      else alloc_loop dirs pgdir oldsz newsz (pages_from (PGROUNDUP oldsz) newsz))"

primrec free_pdes :: "u32 list \<Rightarrow> u32 \<Rightarrow> nat list \<Rightarrow> (kmem, unit) kop" where
  "free_pdes dirs pgdir [] = kreturn ()"
| "free_pdes dirs pgdir (i # is) =
     (let e = pgdir + 4 * of_nat i in
      kthen
        (kbind (rd32 e) (\<lambda>w.
         if present w then
           let pa = PTE_ADDR w in
           kthen (wr32 e 0)
           (kbind (kget (\<lambda>s. frame_ok s pa)) (\<lambda>ok.
            kbind (kget (pgdir_user_pt_shared_with_other dirs pgdir pa)) (\<lambda>shared.
            if \<not> ok then kreturn ()
            else if i < unat (PDX KERNBASE) \<and> shared then kreturn ()
            else kfree (p2v pa))))
         else kreturn ()))
        (free_pdes dirs pgdir is))"

definition freevm_nolock :: "u32 list \<Rightarrow> u32 \<Rightarrow> (kmem, unit) kop" where
  "freevm_nolock dirs pgdir =
     (if pgdir = 0 then kreturn ()
      else kthen (deallocuvm dirs pgdir KERNBASE 0)
           (kthen (free_pdes dirs pgdir [0..<NPDENTRIES])
           (kfree pgdir)))"

definition freevm :: "u32 list \<Rightarrow> u32 \<Rightarrow> (kmem, unit) kop" where
  "freevm dirs pgdir = (if pgdir = 0 then kpanic ''freevm: no pgdir'' else freevm_nolock dirs pgdir)"

text \<open>The table \<open>kmap\<close>: virtual address, size, physical address and permissions of each region.\<close>

definition kmap :: "u32 \<Rightarrow> u32 \<Rightarrow> (u32 \<times> u32 \<times> u32 \<times> u32) list" where
  "kmap kdata k2_phys_end =
     [(KERNBASE, EXTMEM - 0, 0, PTE_W OR PTE_PCD OR PTE_PWT),
      (KERNLINK, v2p kdata - v2p KERNLINK, v2p KERNLINK, 0),
      (kdata, k2_phys_end - v2p kdata, v2p kdata, PTE_W),
      (DEVSPACE, 0 - DEVSPACE, DEVSPACE, PTE_W OR PTE_PCD OR PTE_PWT)]"

primrec setupkvm_loop :: "u32 list \<Rightarrow> u32 \<Rightarrow> (u32 \<times> u32 \<times> u32 \<times> u32) list \<Rightarrow> (kmem, u32) kop" where
  "setupkvm_loop dirs pgdir [] = kreturn pgdir"
| "setupkvm_loop dirs pgdir (k # ks) =
     (case k of (virt, sz, pa, perm) \<Rightarrow>
        kbind (mappages pgdir virt sz pa perm) (\<lambda>r.
        if r < 0 then kthen (freevm_nolock dirs pgdir) (kreturn 0)
        else setupkvm_loop dirs pgdir ks))"

definition setupkvm :: "u32 \<Rightarrow> u32 list \<Rightarrow> (kmem, u32) kop" where
  "setupkvm kdata dirs =
     kbind kalloc (\<lambda>pgdir.
     if pgdir = 0 then kreturn 0
     else kthen (on_mem (memset pgdir 0 PGSIZE))
       (kbind (kget ptop) (\<lambda>k2_phys_end.
        if DEVSPACE < p2v k2_phys_end then kthen (kfree pgdir) (kpanic ''phystop too high'')
        else if k2_phys_end \<le> v2p kdata then kthen (kfree pgdir) (kpanic ''kmap2 bad phystop'')
        else setupkvm_loop dirs pgdir (kmap kdata k2_phys_end))))"

definition clearpteu :: "u32 \<Rightarrow> u32 \<Rightarrow> (kmem, unit) kop" where
  "clearpteu pgdir uva =
     kbind (walkpgdir pgdir uva False) (\<lambda>pte.
     if pte = 0 then kpanic ''clearpteu''
     else kbind (rd32 pte) (\<lambda>w. wr32 pte (w AND NOT PTE_U)))"

primrec copy_loop :: "u32 list \<Rightarrow> u32 \<Rightarrow> u32 \<Rightarrow> u32 list \<Rightarrow> (kmem, u32) kop" where
  "copy_loop dirs pgdir d [] = kreturn d"
| "copy_loop dirs pgdir d (i # is) =
     kbind (walkpgdir pgdir i False) (\<lambda>pte.
     if pte = 0 then kpanic ''copyuvm: pte should exist''
     else kbind (rd32 pte) (\<lambda>w.
       if \<not> present w then kpanic ''copyuvm: page not present''
       else kbind kalloc (\<lambda>m.
         if m = 0 then kthen (freevm_nolock dirs d) (kreturn 0)
         else kthen (on_mem (memmove m (p2v (PTE_ADDR w)) PGSIZE))
           (kbind (mappages d i PGSIZE (v2p m) (PTE_W OR PTE_U)) (\<lambda>r.
            if r < 0 then kthen (freevm_nolock dirs d) (kreturn 0)
            else copy_loop dirs pgdir d is)))))"

definition copyuvm :: "u32 \<Rightarrow> u32 list \<Rightarrow> u32 \<Rightarrow> u32 \<Rightarrow> (kmem, u32) kop" where
  "copyuvm kdata dirs pgdir sz =
     (if KERNBASE \<le> sz then kreturn 0
      else kbind (setupkvm kdata dirs) (\<lambda>d.
           if d = 0 then kreturn 0 else copy_loop dirs pgdir d (pages_from 0 sz)))"

definition uva2ka :: "u32 \<Rightarrow> u32 \<Rightarrow> (kmem, u32) kop" where
  "uva2ka pgdir uva =
     kbind (walkpgdir pgdir uva False) (\<lambda>pte.
     if pte = 0 then kreturn 0
     else kbind (rd32 pte) (\<lambda>w.
       if w AND PTE_P = 0 then kreturn 0
       else if w AND PTE_U = 0 then kreturn 0
       else kbind (kget (\<lambda>s. frame_ok s (PTE_ADDR w))) (\<lambda>ok.
            if \<not> ok then kreturn 0 else kreturn (p2v (PTE_ADDR w)))))"

lemma page_offset: "unat (va - PGROUNDDOWN va) = unat va mod 4096" "unat (va - PGROUNDDOWN va) < 4096"
proof -
  have le: "PGROUNDDOWN va \<le> va" unfolding word_le_nat_alt unat_PGROUNDDOWN by simp
  show "unat (va - PGROUNDDOWN va) = unat va mod 4096"
    unfolding unat_sub [OF le] unat_PGROUNDDOWN by (simp add: minus_div_mult_eq_mod)
  then show "unat (va - PGROUNDDOWN va) < 4096" by simp
qed

text \<open>The bytes \<open>copyout\<close> copies are given as a list; each iteration goes to the next page.\<close>

definition poke :: "u32 \<Rightarrow> bytes \<Rightarrow> mem \<Rightarrow> mem" where
  "poke a bs m = (\<lambda>x. if unat (x - a) < length bs then bs ! unat (x - a) else m x)"

function copyout :: "u32 \<Rightarrow> u32 \<Rightarrow> bytes \<Rightarrow> (kmem, int) kop" where
  "copyout pgdir va bs =
     (if bs = [] then kreturn 0
      else let va0 = PGROUNDDOWN va; n = min (4096 - unat (va - va0)) (length bs) in
        kbind (uva2ka pgdir va0) (\<lambda>pa0.
        if pa0 = 0 then kreturn (- 1)
        else kthen (on_mem (poke (pa0 + (va - va0)) (take n bs)))
             (copyout pgdir (va0 + PGSIZE) (drop n bs))))"
  by pat_completeness auto
termination
proof (relation "measure (\<lambda>(p, v, bs). length bs)", goal_cases)
  case (2 pgdir va bs va0 n pa0)
  have "0 < n" using 2 page_offset [of va] by auto
  then show ?case using 2(1) by (cases bs) auto
qed simp

declare copyout.simps [simp del]

definition inituvm :: "u32 \<Rightarrow> bytes \<Rightarrow> (kmem, unit) kop" where
  "inituvm pgdir init =
     (if 4096 \<le> length init then kpanic ''inituvm: more than a page''
      else kbind kalloc (\<lambda>m.
           if m = 0 then kundef
           else kthen (on_mem (memset m 0 PGSIZE))
             (kthen (mappages pgdir 0 PGSIZE (v2p m) (PTE_W OR PTE_U))
             (on_mem (poke m init)))))"

end
