(* ===== verification/Kstate.thy ===== *)
theory Kstate
  imports Fs Vm Pipe
begin

section \<open>The state of the kernel\<close>

text \<open>
  The state shared by processes, files, sockets and system calls. It extends that of the file system by the
  memory of the page allocator, the pipes (a pipe occupies the page at its address), the process table of
  \<open>kernel/proc.c\<close>, the file table of \<open>kernel/file.c\<close> and the listeners of \<open>kernel/unixsock.c\<close>. Pointers to processes, files and
  inodes are indices into the tables, the null pointer being \<open>None\<close>. The spin locks of these tables are held during each access
  and are not part of the state. An operation that goes to sleep half-way and continues later returns \<open>PSleep\<close> with the
  state in which its process sleeps.
\<close>

definition NPROC :: nat where "NPROC = 64"
definition NOFILE :: nat where "NOFILE = 16"
definition NFILE :: nat where "NFILE = 100"
definition NUSOCK :: nat where "NUSOCK = 32"
definition USOCK_PENDING_MAX :: nat where "USOCK_PENDING_MAX = 16"
definition USOCK_PATH_MAX :: nat where "USOCK_PATH_MAX = 64"
definition KSTACKSIZE :: u32 where "KSTACKSIZE = 4096"
definition CONSOLE :: u16 where "CONSOLE = 1"
definition DEVNULL :: u16 where "DEVNULL = 2"

datatype procstate = UNUSED | EMBRYO | SLEEPING | RUNNABLE | RUNNING | ZOMBIE

text \<open>The trap frame and the context are addresses of the byte memory, in the page of the kernel stack.\<close>

record proc =
  pr_sz :: u32
  pr_pgdir :: u32
  pr_kstack :: u32
  pr_state :: procstate
  pr_pid :: int
  pr_parent :: "nat option"
  pr_tf :: u32
  pr_context :: u32
  pr_chan :: "chan option"
  pr_killed :: bool
  pr_ofile :: "nat option list"
  pr_cwd :: "nat option"
  pr_name :: bytes
  pr_cpuid :: int

datatype ftype = FD_NONE | FD_PIPE | FD_INODE | FD_USOCK | FD_TCPSOCK | FD_UDPSOCK

datatype usock_state = USOCK_INIT | USOCK_BOUND | USOCK_LISTEN | USOCK_CONN

record kfile =
  f_type :: ftype
  f_ref :: int
  f_readable :: bool
  f_writable :: bool
  f_pipe :: u32
  f_ip :: "nat option"
  f_off :: u32
  f_ustate :: usock_state
  f_lid :: int
  f_rx :: "nat option"
  f_tx :: "nat option"
  f_tcp :: int
  f_tcp_listen :: bool
  f_udp :: int

record listener =
  l_used :: bool
  l_listening :: bool
  l_backlog :: int
  l_path :: bytes
  l_pending :: "nat option list"
  l_head :: nat
  l_tail :: nat
  l_cnt :: nat

record kstate = fstate +
  kmem_of :: kmem
  pipes :: "u32 \<Rightarrow> pipe"
  ptable :: "nat \<Rightarrow> proc"
  ftable :: "nat \<Rightarrow> kfile"
  listeners :: "nat \<Rightarrow> listener"
  curproc :: "nat option"
  initproc :: "nat option"
  nextpid :: int
  console_fgpid :: int

text \<open>
  What the operations use of code outside these files: the device switch, the TCP and UDP sockets of the
  network stack, \<open>consolecanread\<close>, and addresses that the linker provides.
\<close>

record env =
  e_devsw :: "kstate devsw"
  net_tcp_user_unref :: "int \<Rightarrow> int \<Rightarrow> (kstate, unit) kop"
  net_udp_user_unref :: "int \<Rightarrow> (kstate, unit) kop"
  net_tcp_user_read :: "int \<Rightarrow> int \<Rightarrow> bool \<Rightarrow> (kstate, int \<times> bytes) kop"
  net_tcp_user_write :: "int \<Rightarrow> bytes \<Rightarrow> int \<Rightarrow> bool \<Rightarrow> (kstate, int) kop"
  net_tcp_user_fdready :: "int \<Rightarrow> bool \<Rightarrow> bool \<Rightarrow> (kstate, int) kop"
  net_udp_user_fdready :: "int \<Rightarrow> bool \<Rightarrow> (kstate, int) kop"
  consolecanread :: "(kstate, int) kop"
  e_kdata :: u32
  e_trapret :: u32
  e_forkret :: u32
  e_initcode :: bytes


subsection \<open>Access to the parts\<close>

definition on_kmem :: "(kmem, 'b) kop \<Rightarrow> (kstate, 'b) kop" where
  "on_kmem m s = (case m (kmem_of s) of
      Ok (a, t) \<Rightarrow> Ok (a, s\<lparr>kmem_of := t\<rparr>)
    | Panic e \<Rightarrow> Panic e
    | Sleep c \<Rightarrow> Sleep c
    | Undef \<Rightarrow> Undef)"

lemma wp_on_kmem [simp]: "wp (on_kmem m) Q s = wp m (\<lambda>a t. Q a (s\<lparr>kmem_of := t\<rparr>)) (kmem_of s)"
  by (auto simp: wp_def on_kmem_def split: kres.splits)

definition set_proc :: "nat \<Rightarrow> (proc \<Rightarrow> proc) \<Rightarrow> kstate \<Rightarrow> kstate" where
  "set_proc i f s = s\<lparr>ptable := (ptable s)(i := f (ptable s i))\<rparr>"

definition set_file :: "nat \<Rightarrow> (kfile \<Rightarrow> kfile) \<Rightarrow> kstate \<Rightarrow> kstate" where
  "set_file i f s = s\<lparr>ftable := (ftable s)(i := f (ftable s i))\<rparr>"

definition set_listener :: "nat \<Rightarrow> (listener \<Rightarrow> listener) \<Rightarrow> kstate \<Rightarrow> kstate" where
  "set_listener i f s = s\<lparr>listeners := (listeners s)(i := f (listeners s i))\<rparr>"

definition set_pipe :: "u32 \<Rightarrow> pipe \<Rightarrow> kstate \<Rightarrow> kstate" where
  "set_pipe a p s = s\<lparr>pipes := (pipes s)(a := p)\<rparr>"

text \<open>Following a pointer.\<close>

definition kderef :: "'b option \<Rightarrow> ('b \<Rightarrow> ('s, 'c) kop) \<Rightarrow> ('s, 'c) kop" where
  "kderef p f = (case p of None \<Rightarrow> kundef | Some a \<Rightarrow> f a)"

lemma kderef_simps [simp]: "kderef None f = kundef" "kderef (Some a) f = f a"
  by (simp_all add: kderef_def)

definition myproc :: "(kstate, nat) kop" where
  "myproc = kbind (kget curproc) (\<lambda>p. kderef p kreturn)"

lemma wp_myproc [simp]: "wp myproc Q s \<longleftrightarrow> (\<exists>i. curproc s = Some i \<and> Q i s)"
  by (cases "curproc s") (simp_all add: myproc_def)

text \<open>The page directories of the processes that are not \<open>UNUSED\<close>.\<close>

definition live_dirs :: "kstate \<Rightarrow> u32 list" where
  "live_dirs s = map (\<lambda>i. pr_pgdir (ptable s i)) (filter (\<lambda>i. pr_state (ptable s i) \<noteq> UNUSED) [0..<NPROC])"

lemma set_sel [simp]:
  "ptable (set_proc i f s) = (ptable s)(i := f (ptable s i))" "ftable (set_file i g s) = (ftable s)(i := g (ftable s i))"
  "listeners (set_listener i h s) = (listeners s)(i := h (listeners s i))" "pipes (set_pipe a p s) = (pipes s)(a := p)"
  by (simp_all add: set_proc_def set_file_def set_listener_def set_pipe_def)

lemma set_proc_sel [simp]:
  "ftable (set_proc i f s) = ftable s" "listeners (set_proc i f s) = listeners s" "pipes (set_proc i f s) = pipes s"
  "kmem_of (set_proc i f s) = kmem_of s" "curproc (set_proc i f s) = curproc s" "initproc (set_proc i f s) = initproc s"
  "nextpid (set_proc i f s) = nextpid s" "console_fgpid (set_proc i f s) = console_fgpid s"
  by (simp_all add: set_proc_def)

lemma set_file_sel [simp]:
  "ptable (set_file i f s) = ptable s" "listeners (set_file i f s) = listeners s" "pipes (set_file i f s) = pipes s"
  "kmem_of (set_file i f s) = kmem_of s" "curproc (set_file i f s) = curproc s" "initproc (set_file i f s) = initproc s"
  "nextpid (set_file i f s) = nextpid s" "console_fgpid (set_file i f s) = console_fgpid s"
  by (simp_all add: set_file_def)

lemma set_listener_sel [simp]:
  "ptable (set_listener i f s) = ptable s" "ftable (set_listener i f s) = ftable s" "pipes (set_listener i f s) = pipes s"
  "kmem_of (set_listener i f s) = kmem_of s" "curproc (set_listener i f s) = curproc s" "initproc (set_listener i f s) = initproc s"
  by (simp_all add: set_listener_def)

lemma set_pipe_sel [simp]:
  "ptable (set_pipe i f s) = ptable s" "ftable (set_pipe i f s) = ftable s" "listeners (set_pipe i f s) = listeners s"
  "kmem_of (set_pipe i f s) = kmem_of s" "curproc (set_pipe i f s) = curproc s" "initproc (set_pipe i f s) = initproc s"
  by (simp_all add: set_pipe_def)

end
