(* ===== verification/Proc.thy ===== *)
theory Proc
  imports Kstate
begin

section \<open>The process table (\<open>kernel/proc.c\<close>)\<close>

text \<open>
  Sleeping and waking up, killing, listing, creating and growing processes, and the scheduler. The
  operations that also work on files (\<open>fork\<close>, \<open>exit\<close>, \<open>wait\<close>) are in theory \<open>Process\<close>. \<open>sched\<close> and \<open>swtch\<close> change to the
  stack of the scheduler and come back later: an operation that calls them ends there, and the rest is a separate
  definition. The checks of \<open>sched\<close> on locks and on the interrupt flag are left out with the locks.
\<close>

unbundle bit_operations_syntax

definition TF_SIZE :: u32 where "TF_SIZE = 76"
definition tf_eax :: "u32 \<Rightarrow> u32" where "tf_eax tf = tf + 28"
definition tf_es :: "u32 \<Rightarrow> u32" where "tf_es tf = tf + 40"
definition tf_ds :: "u32 \<Rightarrow> u32" where "tf_ds tf = tf + 44"
definition tf_eip :: "u32 \<Rightarrow> u32" where "tf_eip tf = tf + 56"
definition tf_cs :: "u32 \<Rightarrow> u32" where "tf_cs tf = tf + 60"
definition tf_eflags :: "u32 \<Rightarrow> u32" where "tf_eflags tf = tf + 64"
definition tf_esp :: "u32 \<Rightarrow> u32" where "tf_esp tf = tf + 68"
definition tf_ss :: "u32 \<Rightarrow> u32" where "tf_ss tf = tf + 72"

definition CONTEXT_SIZE :: u32 where "CONTEXT_SIZE = 20"

definition SEG_UCODE :: u16 where "SEG_UCODE = 4"
definition SEG_UDATA :: u16 where "SEG_UDATA = 5"
definition DPL_USER :: u16 where "DPL_USER = 3"
definition FL_IF :: u32 where "FL_IF = 0x200"

definition wr16 :: "u32 \<Rightarrow> u16 \<Rightarrow> (kmem, unit) kop" where
  "wr16 a w = on_mem (\<lambda>m. m(a := ucast w, a + 1 := ucast (drop_bit 8 w)))"


subsection \<open>Sleeping and waking up\<close>

definition wakeup1 :: "chan option \<Rightarrow> kstate \<Rightarrow> kstate" where
  "wakeup1 c s = s\<lparr>ptable := (\<lambda>i. let p = ptable s i in
     if i < NPROC \<and> pr_state p = SLEEPING \<and> pr_chan p = c then p\<lparr>pr_state := RUNNABLE\<rparr> else p)\<rparr>"

definition wakeup :: "chan \<Rightarrow> (kstate, unit) kop" where
  "wakeup c = kmod (wakeup1 (Some c))"

text \<open>\<open>sleep\<close> up to the call of \<open>sched\<close>, and what it does when it is scheduled again.\<close>

definition sleep_on :: "chan \<Rightarrow> (kstate, unit) kop" where
  "sleep_on c = kbind (kget curproc) (\<lambda>p.
     case p of
       None \<Rightarrow> kpanic ''sleep''
     | Some i \<Rightarrow> kmod (set_proc i (\<lambda>p. p\<lparr>pr_chan := Some c, pr_state := SLEEPING\<rparr>)))"

definition sleep_end :: "(kstate, unit) kop" where
  "sleep_end = kbind myproc (\<lambda>i. kmod (set_proc i (\<lambda>p. p\<lparr>pr_chan := None\<rparr>)))"


subsection \<open>Signals and listing\<close>

definition kill :: "int \<Rightarrow> (kstate, int) kop" where
  "kill pid = (\<lambda>s.
     case find (\<lambda>i. pr_pid (ptable s i) = pid) [0..<NPROC] of
       None \<Rightarrow> Ok (- 1, s)
     | Some i \<Rightarrow> Ok (0, set_proc i (\<lambda>p. p\<lparr>pr_killed := True,
                   pr_state := if pr_state p = SLEEPING then RUNNABLE else pr_state p\<rparr>) s))"

definition setfgpid :: "int \<Rightarrow> (kstate, unit) kop" where
  "setfgpid pid = kmod (\<lambda>s. s\<lparr>console_fgpid := pid\<rparr>)"

definition killfgproc :: "(kstate, int) kop" where
  "killfgproc = kbind (kget console_fgpid) (\<lambda>pid. if 0 < pid then kill pid else kreturn (- 1))"

definition proc_is_killed_current :: "kstate \<Rightarrow> bool" where
  "proc_is_killed_current s = (case curproc s of None \<Rightarrow> False | Some i \<Rightarrow> pr_killed (ptable s i))"

record pinfo =
  pi_pid :: int
  pi_ppid :: int
  pi_state :: procstate
  pi_cpu_id :: int
  pi_sz :: u32
  pi_name :: bytes

definition pinfo_of :: "kstate \<Rightarrow> nat \<Rightarrow> pinfo" where
  "pinfo_of s i = (let p = ptable s i in
     \<lparr>pi_pid = pr_pid p, pi_ppid = (case pr_parent p of None \<Rightarrow> 0 | Some j \<Rightarrow> pr_pid (ptable s j)),
      pi_state = pr_state p, pi_cpu_id = pr_cpuid p, pi_sz = pr_sz p, pi_name = safestrcpy (cptr_of (pr_name p)) 16\<rparr>)"

definition getprocs :: "int \<Rightarrow> kstate \<Rightarrow> pinfo list" where
  "getprocs mx s = map (pinfo_of s) (take (nat mx) (filter (\<lambda>i. pr_state (ptable s i) \<noteq> UNUSED) [0..<NPROC]))"


subsection \<open>The scheduler\<close>

definition sched :: "(kstate, unit) kop" where
  "sched = kbind myproc (\<lambda>i. kbind (kget (\<lambda>s. pr_state (ptable s i))) (\<lambda>st.
     if st = RUNNING then kpanic ''sched running'' else kreturn ()))"

definition yield_cpu :: "(kstate, unit) kop" where
  "yield_cpu = kthen (kbind myproc (\<lambda>i. kmod (set_proc i (\<lambda>p. p\<lparr>pr_state := RUNNABLE\<rparr>)))) sched"

text \<open>
  One iteration of the scheduler that finds a process, or the end of a pass over the table. \<open>i\<close> is the position of the
  pass; \<open>run p\<close> is what happens until the process \<open>p\<close> switches back.
\<close>

definition sched_switch :: "int \<Rightarrow> nat \<Rightarrow> kstate \<Rightarrow> kstate" where
  "sched_switch cpu p s = set_proc p (\<lambda>q. q\<lparr>pr_cpuid := cpu, pr_state := RUNNING\<rparr>) (s\<lparr>curproc := Some p\<rparr>)"

definition sched_scan :: "nat \<Rightarrow> kstate \<Rightarrow> nat option" where
  "sched_scan i s = find (\<lambda>j. pr_state (ptable s j) = RUNNABLE) [i..<NPROC]"

definition scheduler :: "int \<Rightarrow> (nat \<Rightarrow> kstate \<Rightarrow> kstate) \<Rightarrow> nat \<times> kstate \<Rightarrow> nat \<times> kstate" where
  "scheduler cpu run c = (case c of (i, s) \<Rightarrow>
     (case sched_scan i s of
        None \<Rightarrow> (0, s)
      | Some p \<Rightarrow> (p + 1, (run p (sched_switch cpu p s))\<lparr>curproc := None\<rparr>)))"


subsection \<open>Creating and growing processes\<close>

definition allocproc :: "env \<Rightarrow> (kstate, nat option) kop" where
  "allocproc e = kbind (kget (\<lambda>s. find (\<lambda>i. pr_state (ptable s i) = UNUSED) [0..<NPROC])) (\<lambda>r.
     case r of
       None \<Rightarrow> kreturn None
     | Some i \<Rightarrow>
         kbind (kget nextpid) (\<lambda>pid.
         if pid = 2 ^ 31 - 1 then kundef
         else kthen (kmod (\<lambda>s. set_proc i (\<lambda>p. p\<lparr>pr_state := EMBRYO, pr_pid := pid\<rparr>) (s\<lparr>nextpid := pid + 1\<rparr>)))
           (kbind (on_kmem kalloc) (\<lambda>k.
            kthen (kmod (set_proc i (\<lambda>p. p\<lparr>pr_kstack := k\<rparr>)))
            (if k = 0 then kthen (kmod (set_proc i (\<lambda>p. p\<lparr>pr_state := UNUSED\<rparr>))) (kreturn None)
             else let tf = k + KSTACKSIZE - TF_SIZE; ctx = tf - 4 - CONTEXT_SIZE in
               kthen (kmod (set_proc i (\<lambda>p. p\<lparr>pr_tf := tf\<rparr>)))
               (kthen (on_kmem (wr32 (tf - 4) (e_trapret e)))
               (kthen (kmod (set_proc i (\<lambda>p. p\<lparr>pr_context := ctx\<rparr>)))
               (kthen (on_kmem (on_mem (memset ctx 0 CONTEXT_SIZE)))
               (kthen (on_kmem (wr32 (ctx + 16) (e_forkret e)))
               (kreturn (Some i)))))))))))"

text \<open>\<open>namei\<close> as seen from the system calls: a relative path starts at the directory of the current process.\<close>

definition start_dir :: "bytes \<Rightarrow> (kstate, nat) kop" where
  "start_dir path = (if path \<noteq> [] \<and> is_slash (hd path) then kreturn 0
     else kbind myproc (\<lambda>i. kbind (kget (\<lambda>s. pr_cwd (ptable s i))) (\<lambda>c. kderef c kreturn)))"

definition namei_of :: "env \<Rightarrow> bytes \<Rightarrow> (kstate, nat option) kop" where
  "namei_of e path = kbind (start_dir path) (\<lambda>d. namei (e_devsw e) d path)"

definition set_name :: "bytes \<Rightarrow> proc \<Rightarrow> proc" where
  "set_name name p = p\<lparr>pr_name := splice (pr_name p) 0 (safestrcpy (cptr_of name) 16)\<rparr>"

definition initcode_name :: bytes where
  "initcode_name = [105, 110, 105, 116, 99, 111, 100, 101]"

definition userinit :: "env \<Rightarrow> (kstate, unit) kop" where
  "userinit e =
     kbind (allocproc e) (\<lambda>r.
     kthen (kmod (\<lambda>s. s\<lparr>initproc := r\<rparr>))
     (kderef r (\<lambda>i.
      kbind (kget live_dirs) (\<lambda>dirs.
      kbind (on_kmem (setupkvm (e_kdata e) dirs)) (\<lambda>d.
      kthen (kmod (set_proc i (\<lambda>p. p\<lparr>pr_pgdir := d\<rparr>)))
      (if d = 0 then kpanic ''userinit: out of memory?''
       else kthen (on_kmem (inituvm d (e_initcode e)))
         (kthen (kmod (set_proc i (\<lambda>p. p\<lparr>pr_sz := PGSIZE\<rparr>)))
         (kbind (kget (\<lambda>s. pr_tf (ptable s i))) (\<lambda>tf.
          let udata = push_bit 3 SEG_UDATA OR DPL_USER in
          kthen (on_kmem
            (kthen (on_mem (memset tf 0 TF_SIZE))
            (kthen (wr16 (tf_cs tf) (push_bit 3 SEG_UCODE OR DPL_USER))
            (kthen (wr16 (tf_ds tf) udata)
            (kthen (wr16 (tf_es tf) udata)
            (kthen (wr16 (tf_ss tf) udata)
            (kthen (wr32 (tf_eflags tf) FL_IF)
            (kthen (wr32 (tf_esp tf) PGSIZE)
            (wr32 (tf_eip tf) 0)))))))))
          (kthen (kmod (set_proc i (set_name initcode_name)))
          (kbind (namei_of e [47]) (\<lambda>c.
           kthen (kmod (set_proc i (\<lambda>p. p\<lparr>pr_cwd := c\<rparr>)))
           (kmod (set_proc i (\<lambda>p. p\<lparr>pr_state := RUNNABLE\<rparr>)))))))))))))))"

definition growproc :: "int \<Rightarrow> (kstate, int) kop" where
  "growproc n =
     kbind myproc (\<lambda>i.
     kbind (kget (\<lambda>s. ptable s i)) (\<lambda>p.
     kbind (kget live_dirs) (\<lambda>dirs.
     let sz = pr_sz p; commit = (\<lambda>z. kthen (kmod (set_proc i (\<lambda>p. p\<lparr>pr_sz := z\<rparr>))) (kreturn 0)) in
     if 0 < n then
       (let newsz = sz + word_of_int n in
        if newsz < sz \<or> KERNBASE \<le> newsz then kreturn (- 1)
        else kbind (on_kmem (allocuvm dirs (pr_pgdir p) sz newsz)) (\<lambda>z.
             if z = 0 then kreturn (- 1) else commit z))
     else if n < 0 then
       (if n = - (2 ^ 31) then kreturn (- 1)
        else let absn = word_of_int (- n) in
          if sz \<le> absn then kreturn (- 1)
          else kbind (on_kmem (deallocuvm dirs (pr_pgdir p) sz (sz - absn))) commit)
     else commit sz)))"

end
