(* ===== verification/File.thy ===== *)
theory File
  imports Proc
begin

section \<open>Open files and local sockets (\<open>kernel/file.c\<close>, \<open>kernel/pipe.c\<close>, \<open>kernel/unixsock.c\<close>)\<close>

text \<open>
  The file table, the pipe operations in the kernel state, and the sockets of family \<open>AF_UNIX\<close>. A connected socket holds the
  read end of one pipe and the write end of another as files. \<open>fileclose\<close> on such a socket, and on a listener
  with pending connections, closes further files. The recursion is bounded by a number of levels: every level
  closes a file whose last reference has just been given up, so there are at most \<open>NFILE\<close> of them.
\<close>


subsection \<open>Pipes in the kernel state\<close>

definition wake_readers :: "u32 \<Rightarrow> (kstate, unit) kop" where
  "wake_readers a = wakeup (ChPipeRead (unat a))"

definition wake_writers :: "u32 \<Rightarrow> (kstate, unit) kop" where
  "wake_writers a = wakeup (ChPipeWrite (unat a))"

definition my_killed :: "(kstate, bool) kop" where
  "my_killed = kbind myproc (\<lambda>i. kget (\<lambda>s. pr_killed (ptable s i)))"

text \<open>\<open>pipewrite\<close> from index \<open>i\<close> on: from 0 when it is called, from the value of \<open>PSleep\<close> when it continues.\<close>

definition pipe_write :: "u32 \<Rightarrow> bytes \<Rightarrow> int \<Rightarrow> nat \<Rightarrow> (kstate, int presult) kop" where
  "pipe_write a addr n i =
     kbind my_killed (\<lambda>k.
     kbind (kget (\<lambda>s. pipewrite k addr n i (pipes s a))) (\<lambda>r.
     kthen (kmod (set_pipe a (snd r)))
     (case fst r of
        PDone v \<Rightarrow> kthen (wake_readers a) (kreturn (PDone v))
      | PFail \<Rightarrow> kreturn PFail
      | PSleep j \<Rightarrow> kthen (wake_readers a) (kthen (sleep_on (ChPipeWrite (unat a))) (kreturn (PSleep j))))))"

definition pipe_read :: "u32 \<Rightarrow> int \<Rightarrow> (kstate, (int \<times> bytes) presult) kop" where
  "pipe_read a n =
     kbind my_killed (\<lambda>k.
     kbind (kget (\<lambda>s. piperead k n (pipes s a))) (\<lambda>r.
     kthen (kmod (set_pipe a (snd r)))
     (case fst r of
        PDone cs \<Rightarrow> kthen (wake_writers a) (kreturn (PDone (int (length cs), cs)))
      | PFail \<Rightarrow> kreturn PFail
      | PSleep j \<Rightarrow> kthen (sleep_on (ChPipeRead (unat a))) (kreturn (PSleep j)))))"

definition pipe_close :: "u32 \<Rightarrow> bool \<Rightarrow> (kstate, unit) kop" where
  "pipe_close a writable =
     kbind (kget (\<lambda>s. pipeclose writable (pipes s a))) (\<lambda>r.
     kthen (kmod (set_pipe a (fst r)))
     (kthen (if writable then wake_readers a else wake_writers a)
     (kwhen (snd r) (on_kmem (kfree a)))))"


subsection \<open>The file table\<close>

definition opened :: "kfile \<Rightarrow> kfile" where
  "opened f = f\<lparr>f_ref := 1, f_tcp := - 1, f_udp := - 1, f_tcp_listen := False\<rparr>"

definition filealloc :: "(kstate, nat option) kop" where
  "filealloc = kbind (kget (\<lambda>s. find (\<lambda>i. f_ref (ftable s i) = 0) [0..<NFILE])) (\<lambda>r.
     case r of
       None \<Rightarrow> kreturn None
     | Some i \<Rightarrow> kthen (kmod (set_file i opened)) (kreturn (Some i)))"

definition filedup :: "nat \<Rightarrow> (kstate, nat) kop" where
  "filedup i = kbind (kget (\<lambda>s. f_ref (ftable s i))) (\<lambda>r.
     if r < 1 then kpanic ''filedup''
     else kthen (kmod (set_file i (\<lambda>f. f\<lparr>f_ref := f_ref f + 1\<rparr>))) (kreturn i))"

text \<open>The ring of pending connections: \<open>pending[tail] = x\<close> with \<open>tail\<close> and \<open>cnt\<close> advanced, and \<open>pending[head]\<close> taken out.\<close>

definition pend_put :: "nat option \<Rightarrow> listener \<Rightarrow> listener" where
  "pend_put x l = l\<lparr>l_pending := (l_pending l)[l_tail l := x], l_tail := (l_tail l + 1) mod USOCK_PENDING_MAX, l_cnt := l_cnt l + 1\<rparr>"

definition pend_get :: "listener \<Rightarrow> nat option \<times> listener" where
  "pend_get l = (l_pending l ! l_head l, l\<lparr>l_pending := (l_pending l)[l_head l := None],
     l_head := (l_head l + 1) mod USOCK_PENDING_MAX, l_cnt := l_cnt l - 1\<rparr>)"

text \<open>The loop of \<open>clear_listener_pending\<close>: the files taken out, and the listener.\<close>

primrec drain_pending :: "nat \<Rightarrow> listener \<Rightarrow> nat option list \<times> listener" where
  "drain_pending 0 l = ([], l)"
| "drain_pending (Suc n) l =
     (let (f, l') = pend_get l; (fs, l'') = drain_pending n l' in (f # fs, l''))"

primrec close_all :: "(nat \<Rightarrow> (kstate, unit) kop) \<Rightarrow> nat option list \<Rightarrow> (kstate, unit) kop" where
  "close_all fc [] = kreturn ()"
| "close_all fc (f # fs) = kthen (kderef f fc) (close_all fc fs)"

definition clear_listener_pending :: "(nat \<Rightarrow> (kstate, unit) kop) \<Rightarrow> nat \<Rightarrow> (kstate, unit) kop" where
  "clear_listener_pending fc lid =
     kbind (kget (\<lambda>s. listeners s lid)) (\<lambda>l.
     if USOCK_PENDING_MAX < l_cnt l then kundef
     else let r = drain_pending (l_cnt l) l in
       kthen (kmod (set_listener lid (\<lambda>_. (snd r)\<lparr>l_head := 0, l_tail := 0\<rparr>)))
       (kthen (wakeup (ChListener lid))
       (close_all fc (fst r))))"

text \<open>\<open>usock_fileclose\<close> works on the copy \<open>ff\<close> of the file that \<open>fileclose\<close> took; \<open>fc\<close> closes a file.\<close>

definition opt_close :: "(nat \<Rightarrow> (kstate, unit) kop) \<Rightarrow> nat option \<Rightarrow> (kstate, unit) kop" where
  "opt_close fc p = (case p of None \<Rightarrow> kreturn () | Some f \<Rightarrow> fc f)"

definition usock_fileclose :: "(nat \<Rightarrow> (kstate, unit) kop) \<Rightarrow> kfile \<Rightarrow> (kstate, unit) kop" where
  "usock_fileclose fc ff =
     (if f_type ff \<noteq> FD_USOCK then kreturn ()
      else if f_ustate ff = USOCK_CONN then kthen (opt_close fc (f_rx ff)) (opt_close fc (f_tx ff))
      else if (f_ustate ff = USOCK_BOUND \<or> f_ustate ff = USOCK_LISTEN) \<and> 0 \<le> f_lid ff then
        kbind (kget (\<lambda>s. l_used (listeners s (nat (f_lid ff))))) (\<lambda>used.
        if int NUSOCK \<le> f_lid ff \<or> \<not> used then kreturn ()
        else kthen (kmod (set_listener (nat (f_lid ff))
               (\<lambda>l. l\<lparr>l_used := False, l_listening := False, l_backlog := 0, l_path := (l_path l)[0 := 0]\<rparr>)))
             (clear_listener_pending fc (nat (f_lid ff))))
      else kreturn ())"

definition TCP_UNREF_CLOSE_ACCEPTED :: int where "TCP_UNREF_CLOSE_ACCEPTED = 0"
definition TCP_UNREF_CLOSE_LISTEN :: int where "TCP_UNREF_CLOSE_LISTEN = 1"

definition close_last :: "env \<Rightarrow> (nat \<Rightarrow> (kstate, unit) kop) \<Rightarrow> kfile \<Rightarrow> (kstate, unit) kop" where
  "close_last e fc ff =
     (case f_type ff of
        FD_PIPE \<Rightarrow> pipe_close (f_pipe ff) (f_writable ff)
      | FD_INODE \<Rightarrow> kderef (f_ip ff) (\<lambda>ip. kthen begin_trans (kthen (iput ip) commit_trans))
      | FD_TCPSOCK \<Rightarrow> net_tcp_user_unref e (f_tcp ff) (if f_tcp_listen ff then TCP_UNREF_CLOSE_LISTEN else TCP_UNREF_CLOSE_ACCEPTED)
      | FD_UDPSOCK \<Rightarrow> net_udp_user_unref e (f_udp ff)
      | FD_USOCK \<Rightarrow> usock_fileclose fc ff
      | FD_NONE \<Rightarrow> kreturn ())"

definition file_reset :: "kfile \<Rightarrow> kfile" where
  "file_reset f = f\<lparr>f_ref := 0, f_type := FD_NONE, f_pipe := 0, f_ip := None, f_off := 0, f_ustate := USOCK_INIT,
     f_lid := - 1, f_rx := None, f_tx := None\<rparr>"

primrec fileclose_n :: "nat \<Rightarrow> env \<Rightarrow> nat \<Rightarrow> (kstate, unit) kop" where
  "fileclose_n 0 e i = kundef"
| "fileclose_n (Suc n) e i =
     kbind (kget (\<lambda>s. ftable s i)) (\<lambda>ff.
     if f_ref ff < 1 then kpanic ''fileclose''
     else if 0 < f_ref ff - 1 then kmod (set_file i (\<lambda>f. f\<lparr>f_ref := f_ref f - 1\<rparr>))
     else kthen (kmod (set_file i file_reset)) (close_last e (fileclose_n n e) ff))"

definition fileclose :: "env \<Rightarrow> nat \<Rightarrow> (kstate, unit) kop" where
  "fileclose e = fileclose_n (Suc NFILE) e"

definition filestat :: "nat \<Rightarrow> (kstate, fstat option) kop" where
  "filestat i = kbind (kget (\<lambda>s. ftable s i)) (\<lambda>f.
     if f_type f = FD_INODE then
       kderef (f_ip f) (\<lambda>ip. kthen (ilock ip) (kbind (stati ip) (\<lambda>st. kthen (iunlock ip) (kreturn (Some st)))))
     else kreturn None)"

primrec fileread_n :: "nat \<Rightarrow> env \<Rightarrow> nat \<Rightarrow> int \<Rightarrow> (kstate, (int \<times> bytes) presult) kop" where
  "fileread_n 0 e i n = kundef"
| "fileread_n (Suc k) e i n = kbind (kget (\<lambda>s. ftable s i)) (\<lambda>f.
     if \<not> f_readable f then kreturn PFail
     else case f_type f of
        FD_PIPE \<Rightarrow> pipe_read (f_pipe f) n
      | FD_USOCK \<Rightarrow> (if f_ustate f \<noteq> USOCK_CONN \<or> f_rx f = None then kreturn PFail
                     else fileread_n k e (the (f_rx f)) n)
      | FD_TCPSOCK \<Rightarrow> (if f_tcp f < 0 then kreturn PFail
                        else kbind (net_tcp_user_read e (f_tcp f) n (f_tcp_listen f)) (\<lambda>r. kreturn (PDone r)))
      | FD_UDPSOCK \<Rightarrow> kreturn PFail
      | FD_INODE \<Rightarrow> kderef (f_ip f) (\<lambda>ip.
          kthen (ilock ip)
          (kbind (readi (e_devsw e) ip (f_off f) (word_of_int n)) (\<lambda>r.
           kthen (kwhen (0 < fst r) (kmod (set_file i (\<lambda>f. f\<lparr>f_off := f_off f + word_of_int (fst r)\<rparr>))))
           (kthen (iunlock ip) (kreturn (PDone r))))))
      | FD_NONE \<Rightarrow> kpanic ''fileread'')"

definition fileread :: "env \<Rightarrow> nat \<Rightarrow> int \<Rightarrow> (kstate, (int \<times> bytes) presult) kop" where
  "fileread e = fileread_n (Suc NFILE) e"

text \<open>The loop of \<open>filewrite\<close> on an inode, from byte \<open>i\<close>: one transaction per iteration.\<close>

definition WRITE_MAX :: int where "WRITE_MAX = ((int LOGSIZE - 1 - 1 - 2) div 2) * 512"

function filewrite_loop :: "env \<Rightarrow> nat \<Rightarrow> nat \<Rightarrow> bytes \<Rightarrow> int \<Rightarrow> int \<Rightarrow> (kstate, int) kop" where
  "filewrite_loop e f ip addr n i s =
     (if i < n then
        let n1 = min (n - i) WRITE_MAX in
        kbind (kthen begin_trans
          (kthen (ilock ip)
          (kbind (kget (\<lambda>s. f_off (ftable s f))) (\<lambda>off.
           kbind (writei (e_devsw e) ip (drop (nat i) addr) off (word_of_int n1)) (\<lambda>r.
           kthen (kwhen (0 < r) (kmod (set_file f (\<lambda>f. f\<lparr>f_off := f_off f + word_of_int r\<rparr>))))
           (kthen (iunlock ip)
           (kthen commit_trans
           (kreturn r))))))))
        (\<lambda>r. if r < 0 then kreturn (if i = n then n else - 1)
             else if r \<noteq> n1 then kpanic ''short filewrite''
             else filewrite_loop e f ip addr n (i + r)) s
      else Ok (if i = n then n else - 1, s))"
  by pat_completeness auto
termination
  by (relation "measure (\<lambda>(e, f, ip, addr, n, i, s). nat (n - i))") (auto simp: WRITE_MAX_def LOGSIZE_def)

declare filewrite_loop.simps [simp del]

primrec filewrite_n :: "nat \<Rightarrow> env \<Rightarrow> nat \<Rightarrow> bytes \<Rightarrow> int \<Rightarrow> (kstate, int presult) kop" where
  "filewrite_n 0 e i addr n = kundef"
| "filewrite_n (Suc k) e i addr n = kbind (kget (\<lambda>s. ftable s i)) (\<lambda>f.
     if \<not> f_writable f then kreturn PFail
     else case f_type f of
        FD_PIPE \<Rightarrow> pipe_write (f_pipe f) addr n 0
      | FD_USOCK \<Rightarrow> (if f_ustate f \<noteq> USOCK_CONN \<or> f_tx f = None then kreturn PFail
                     else filewrite_n k e (the (f_tx f)) addr n)
      | FD_TCPSOCK \<Rightarrow> (if f_tcp f < 0 then kreturn PFail
                        else kbind (net_tcp_user_write e (f_tcp f) addr n (f_tcp_listen f)) (\<lambda>r. kreturn (PDone r)))
      | FD_UDPSOCK \<Rightarrow> kreturn PFail
      | FD_INODE \<Rightarrow> kderef (f_ip f) (\<lambda>ip. kbind (filewrite_loop e i ip addr n 0) (\<lambda>r. kreturn (PDone r)))
      | FD_NONE \<Rightarrow> kpanic ''filewrite'')"

definition filewrite :: "env \<Rightarrow> nat \<Rightarrow> bytes \<Rightarrow> int \<Rightarrow> (kstate, int presult) kop" where
  "filewrite e = filewrite_n (Suc NFILE) e"

definition usock_listencanaccept :: "nat \<Rightarrow> kstate \<Rightarrow> int" where
  "usock_listencanaccept i s = (let f = ftable s i; l = listeners s (nat (f_lid f)) in
     if f_type f \<noteq> FD_USOCK \<or> f_ustate f \<noteq> USOCK_LISTEN \<or> f_lid f < 0 then - 1
     else if l_used l \<and> l_listening l \<and> 0 < l_cnt l then 1 else 0)"

primrec filefdready_n :: "nat \<Rightarrow> env \<Rightarrow> nat option \<Rightarrow> bool \<Rightarrow> (kstate, int) kop" where
  "filefdready_n 0 e p forwrite = kundef"
| "filefdready_n (Suc k) e p forwrite =
     (case p of None \<Rightarrow> kreturn (- 1) | Some i \<Rightarrow>
      kbind (kget (\<lambda>s. ftable s i)) (\<lambda>f.
      case f_type f of
        FD_PIPE \<Rightarrow> kget (\<lambda>s. of_bool (if forwrite then pipecanwrite (pipes s (f_pipe f)) else pipecanread (pipes s (f_pipe f))))
      | FD_USOCK \<Rightarrow>
          (case f_ustate f of
             USOCK_CONN \<Rightarrow> filefdready_n k e (if forwrite then f_tx f else f_rx f) forwrite
           | USOCK_LISTEN \<Rightarrow> if forwrite then kreturn 0 else kget (usock_listencanaccept i)
           | _ \<Rightarrow> kreturn (- 1))
      | FD_TCPSOCK \<Rightarrow> if f_tcp f < 0 then kreturn (- 1) else net_tcp_user_fdready e (f_tcp f) forwrite (f_tcp_listen f)
      | FD_UDPSOCK \<Rightarrow> if f_udp f < 0 then kreturn (- 1) else net_udp_user_fdready e (f_udp f) forwrite
      | FD_INODE \<Rightarrow>
          if forwrite then kreturn (of_bool (f_writable f))
          else kderef (f_ip f) (\<lambda>ip.
            kthen (ilock ip)
            (kbind (inode_at ip) (\<lambda>n.
             if d_type (i_di n) = T_DEV \<and> d_major (i_di n) = CONSOLE then
               kbind (consolecanread e) (\<lambda>r. kthen (iunlock ip) (kreturn r))
             else if d_type (i_di n) = T_DEV \<and> d_major (i_di n) = DEVNULL then kthen (iunlock ip) (kreturn 1)
             else kthen (iunlock ip) (kreturn (of_bool (f_readable f))))))
      | FD_NONE \<Rightarrow> kreturn (- 1)))"

definition filefdready :: "env \<Rightarrow> nat option \<Rightarrow> bool \<Rightarrow> (kstate, int) kop" where
  "filefdready e = filefdready_n (Suc NFILE) e"

text \<open>The sums of \<open>fileseek\<close> are 32-bit; \<open>(int)f->off + offset\<close> wraps around.\<close>

definition fileseek :: "nat \<Rightarrow> int \<Rightarrow> int \<Rightarrow> (kstate, int) kop" where
  "fileseek i offset whence =
     kbind (kget (\<lambda>s. ftable s i)) (\<lambda>f.
     if f_type f \<noteq> FD_INODE then kreturn (- 1)
     else kderef (f_ip f) (\<lambda>ip.
       kthen (ilock ip)
       (kbind (stati ip) (\<lambda>st.
        let set_off = (\<lambda>o'. kthen (kmod (set_file i (\<lambda>f. f\<lparr>f_off := o'\<rparr>))) (kthen (iunlock ip) (kreturn (sint o'))));
            fail = kthen (iunlock ip) (kreturn (- 1)) in
        if whence = 0 then (if offset < 0 then fail else set_off (word_of_int offset))
        else if whence = 1 then
          (if sint (f_off f + word_of_int offset) < 0 then fail else set_off (f_off f + word_of_int offset))
        else if whence = 2 then
          (if sint (st_size st + word_of_int offset) < 0 then fail else set_off (st_size st + word_of_int offset))
        else fail))))"


subsection \<open>Creating pipes\<close>

text \<open>The data area of a pipe is at offset 52 of its page, after the lock.\<close>

definition pipe_area :: "u32 \<Rightarrow> kmem \<Rightarrow> bytes" where
  "pipe_area a m = map (\<lambda>k. kmem_mem m (a + 52 + of_nat k)) [0..<PIPESIZE]"

definition pipe_end :: "u32 \<Rightarrow> bool \<Rightarrow> kfile \<Rightarrow> kfile" where
  "pipe_end a w f = f\<lparr>f_type := FD_PIPE, f_readable := \<not> w, f_writable := w, f_pipe := a\<rparr>"

text \<open>The result is the return value and the pointers left in \<open>*f0\<close> and \<open>*f1\<close>, which a failing call does not clear.\<close>

definition pipealloc :: "env \<Rightarrow> (kstate, int \<times> nat option \<times> nat option) kop" where
  "pipealloc e =
     kbind filealloc (\<lambda>r0.
     case r0 of
       None \<Rightarrow> kreturn (- 1, None, None)
     | Some f0 \<Rightarrow>
       kbind filealloc (\<lambda>r1.
       case r1 of
         None \<Rightarrow> kthen (fileclose e f0) (kreturn (- 1, Some f0, None))
       | Some f1 \<Rightarrow>
         kbind (on_kmem kalloc) (\<lambda>p.
         if p = 0 then kthen (fileclose e f0) (kthen (fileclose e f1) (kreturn (- 1, Some f0, Some f1)))
         else kthen (kmod (\<lambda>s. set_pipe p (pipe_new (pipe_area p (kmem_of s))) s))
           (kthen (kmod (set_file f0 (pipe_end p False)))
           (kthen (kmod (set_file f1 (pipe_end p True)))
           (kreturn (0, Some f0, Some f1)))))))"


subsection \<open>Local sockets\<close>

definition find_listener_locked :: "bytes \<Rightarrow> kstate \<Rightarrow> nat option" where
  "find_listener_locked path s =
     find (\<lambda>i. l_used (listeners s i) \<and> strncmp (cptr_of (l_path (listeners s i))) (cptr_of path) (of_nat USOCK_PATH_MAX) = 0)
       [0..<NUSOCK]"

definition usockinit :: "(kstate, unit) kop" where
  "usockinit = kmod (\<lambda>s. s\<lparr>listeners := (\<lambda>i. let l = listeners s i in if i < NUSOCK then
     l\<lparr>l_used := False, l_listening := False, l_backlog := 0, l_path := (l_path l)[0 := 0],
       l_head := 0, l_tail := 0, l_cnt := 0, l_pending := replicate USOCK_PENDING_MAX None\<rparr> else l)\<rparr>)"

definition usock_bind :: "nat \<Rightarrow> bytes \<Rightarrow> (kstate, int) kop" where
  "usock_bind i path =
     kbind (kget (\<lambda>s. ftable s i)) (\<lambda>f.
     if f_type f \<noteq> FD_USOCK \<or> f_ustate f \<noteq> USOCK_INIT \<or> 0 \<le> f_lid f then kreturn (- 1)
     else if path = [] \<or> USOCK_PATH_MAX \<le> length path then kreturn (- 1)
     else kbind (kget (find_listener_locked path)) (\<lambda>r.
       if r \<noteq> None then kreturn (- 1)
       else kbind (kget (\<lambda>s. find (\<lambda>j. \<not> l_used (listeners s j)) [0..<NUSOCK])) (\<lambda>q.
         case q of
           None \<Rightarrow> kreturn (- 1)
         | Some j \<Rightarrow>
             kthen (kmod (set_listener j (\<lambda>l. l\<lparr>l_used := True, l_listening := False, l_backlog := 0,
               l_path := splice (l_path l) 0 (safestrcpy (cptr_of path) (int USOCK_PATH_MAX)),
               l_head := 0, l_tail := 0, l_cnt := 0\<rparr>)))
             (kthen (kmod (set_file i (\<lambda>f. f\<lparr>f_lid := int j, f_ustate := USOCK_BOUND\<rparr>)))
             (kreturn 0)))))"

definition usock_listen :: "nat \<Rightarrow> int \<Rightarrow> (kstate, int) kop" where
  "usock_listen i backlog =
     kbind (kget (\<lambda>s. ftable s i)) (\<lambda>f.
     if f_type f \<noteq> FD_USOCK \<or> f_ustate f \<noteq> USOCK_BOUND \<or> f_lid f < 0 then kreturn (- 1)
     else let b = min (if backlog \<le> 0 then 1 else backlog) (int USOCK_PENDING_MAX); lid = nat (f_lid f) in
       kbind (kget (\<lambda>s. l_used (listeners s lid))) (\<lambda>used.
       if \<not> used then kreturn (- 1)
       else kthen (kmod (set_listener lid (\<lambda>l. l\<lparr>l_listening := True, l_backlog := b\<rparr>)))
         (kthen (wakeup (ChListener lid))
         (kthen (kmod (set_file i (\<lambda>f. f\<lparr>f_ustate := USOCK_LISTEN\<rparr>)))
         (kreturn 0)))))"

definition make_endpoint :: "nat option \<Rightarrow> nat option \<Rightarrow> (kstate, nat option) kop" where
  "make_endpoint rx tx = kbind filealloc (\<lambda>r.
     case r of
       None \<Rightarrow> kreturn None
     | Some i \<Rightarrow>
         kthen (kmod (set_file i (\<lambda>f. f\<lparr>f_type := FD_USOCK, f_readable := True, f_writable := True,
           f_ustate := USOCK_CONN, f_lid := - 1, f_rx := rx, f_tx := tx\<rparr>)))
         (kreturn (Some i)))"

primrec close_files :: "env \<Rightarrow> nat option list \<Rightarrow> (kstate, unit) kop" where
  "close_files e [] = kreturn ()"
| "close_files e (f # fs) = kthen (opt_close (fileclose e) f) (close_files e fs)"

definition usock_connect :: "env \<Rightarrow> nat \<Rightarrow> bytes \<Rightarrow> (kstate, int) kop" where
  "usock_connect e i path =
     kbind (kget (\<lambda>s. ftable s i)) (\<lambda>f.
     if f_type f \<noteq> FD_USOCK \<or> f_ustate f \<noteq> USOCK_INIT \<or> 0 \<le> f_lid f then kreturn (- 1)
     else if path = [] \<or> USOCK_PATH_MAX \<le> length path then kreturn (- 1)
     else kbind (kget (find_listener_locked path)) (\<lambda>r.
       case r of None \<Rightarrow> kreturn (- 1) | Some lid \<Rightarrow>
       kbind (pipealloc e) (\<lambda>(r1, c2s_r, c2s_w).
       if r1 < 0 then kthen (close_files e [c2s_r, c2s_w]) (kreturn (- 1))
       else kbind (pipealloc e) (\<lambda>(r2, s2c_r, s2c_w).
       if r2 < 0 then kthen (close_files e [c2s_r, c2s_w, s2c_r, s2c_w]) (kreturn (- 1))
       else kbind (make_endpoint c2s_r s2c_w) (\<lambda>r3.
       case r3 of
         None \<Rightarrow> kthen (close_files e [c2s_r, c2s_w, s2c_r, s2c_w]) (kreturn (- 1))
       | Some server_ep \<Rightarrow>
         kbind (kget (\<lambda>s. listeners s lid)) (\<lambda>l.
         if \<not> l_used l \<or> \<not> l_listening l \<or> l_backlog l \<le> int (l_cnt l) then
           kthen (fileclose e server_ep) (kreturn (- 1))
         else kthen (kmod (set_listener lid (pend_put (Some server_ep))))
           (kthen (wakeup (ChListener lid))
           (kthen (kmod (set_file i (\<lambda>f. f\<lparr>f_readable := True, f_writable := True, f_ustate := USOCK_CONN,
              f_rx := s2c_r, f_tx := c2s_w\<rparr>)))
           (kreturn 0)))))))))"

text \<open>\<open>PSleep\<close>: the process waits for a connection and runs the loop again when it is woken up.\<close>

definition usock_accept :: "nat \<Rightarrow> (kstate, nat option presult) kop" where
  "usock_accept i =
     kbind (kget (\<lambda>s. ftable s i)) (\<lambda>f.
     if f_type f \<noteq> FD_USOCK \<or> f_ustate f \<noteq> USOCK_LISTEN \<or> f_lid f < 0 then kreturn PFail
     else let lid = nat (f_lid f) in
       kbind (kget (\<lambda>s. listeners s lid)) (\<lambda>l.
       if l_used l \<and> l_listening l \<and> l_cnt l = 0 then
         kbind my_killed (\<lambda>k. if k then kreturn PFail
           else kthen (sleep_on (ChListener lid)) (kreturn (PSleep 0)))
       else if \<not> l_used l \<or> \<not> l_listening l \<or> l_cnt l = 0 then kreturn PFail
       else kthen (kmod (set_listener lid (\<lambda>_. snd (pend_get l)))) (kreturn (PDone (fst (pend_get l))))))"

end
