(* ===== verification/Process.thy ===== *)
theory Process
  imports File
begin

section \<open>The life of a process (\<open>kernel/proc.c\<close>)\<close>

text \<open>
  \<open>fork\<close>, \<open>exit\<close> and \<open>wait\<close>. The messages on the serial line and the dumps of page tables are left out. \<open>exit\<close> ends in the
  scheduler; \<open>wait\<close> returns \<open>PSleep\<close> when it goes to sleep and runs its loop again when it is woken up.
\<close>

unbundle bit_operations_syntax

definition struct_copy :: "u32 \<Rightarrow> u32 \<Rightarrow> nat \<Rightarrow> mem \<Rightarrow> mem" where
  "struct_copy dst src n m = (\<lambda>x. if unat (x - dst) < n then m (src + (x - dst)) else m x)"

primrec dup_files :: "nat \<Rightarrow> nat \<Rightarrow> nat list \<Rightarrow> (kstate, unit) kop" where
  "dup_files i np [] = kreturn ()"
| "dup_files i np (fd # fds) =
     kthen (kbind (kget (\<lambda>s. pr_ofile (ptable s i) ! fd)) (\<lambda>f.
       case f of
         None \<Rightarrow> kreturn ()
       | Some g \<Rightarrow> kbind (filedup g) (\<lambda>g'. kmod (set_proc np (\<lambda>p. p\<lparr>pr_ofile := (pr_ofile p)[fd := Some g']\<rparr>)))))
     (dup_files i np fds)"

text \<open>Giving back the kernel stack and the slot of a process that could not be created.\<close>

definition fork_undo :: "nat \<Rightarrow> (kstate, int) kop" where
  "fork_undo np =
     kbind (kget (\<lambda>s. pr_kstack (ptable s np))) (\<lambda>k.
     kthen (on_kmem (kfree k))
     (kthen (kmod (set_proc np (\<lambda>p. p\<lparr>pr_kstack := 0, pr_state := UNUSED\<rparr>)))
     (kreturn (- 1))))"

definition fork :: "env \<Rightarrow> (kstate, int) kop" where
  "fork e =
     kbind (allocproc e) (\<lambda>r.
     case r of None \<Rightarrow> kreturn (- 1) | Some np \<Rightarrow>
     kbind myproc (\<lambda>i.
     kbind (kget (\<lambda>s. ptable s i)) (\<lambda>p.
     kbind (kget live_dirs) (\<lambda>dirs.
     kbind (on_kmem (copyuvm (e_kdata e) dirs (pr_pgdir p) (pr_sz p))) (\<lambda>d.
     kthen (kmod (set_proc np (\<lambda>q. q\<lparr>pr_pgdir := d\<rparr>)))
     (if d = 0 then fork_undo np
      else if d = pr_pgdir p then fork_undo np
      else kbind (kget (\<lambda>s. pgdir_share_user_pt (pr_pgdir p) d (kmem_of s))) (\<lambda>shared.
        if shared then
          kbind (kget live_dirs) (\<lambda>dirs.
          kthen (on_kmem (freevm dirs d))
          (kthen (kmod (set_proc np (\<lambda>q. q\<lparr>pr_pgdir := 0\<rparr>)))
          (fork_undo np)))
        else
          kthen (kmod (set_proc np (\<lambda>q. q\<lparr>pr_sz := pr_sz p, pr_parent := Some i\<rparr>)))
          (kbind (kget (\<lambda>s. pr_tf (ptable s np))) (\<lambda>tf.
           kthen (on_kmem (on_mem (struct_copy tf (pr_tf p) (unat TF_SIZE))))
           (kthen (on_kmem (wr32 (tf_eax tf) 0))
           (kthen (dup_files i np [0..<NOFILE])
           (kderef (pr_cwd p) (\<lambda>c.
            kbind (idup c) (\<lambda>c'.
            kthen (kmod (set_proc np (\<lambda>q. q\<lparr>pr_cwd := Some c'\<rparr>)))
            (kbind (kget (\<lambda>s. pr_pid (ptable s np))) (\<lambda>pid.
             kthen (kmod (set_proc np (\<lambda>q. q\<lparr>pr_state := RUNNABLE\<rparr>)))
             (kthen (kmod (set_proc np (set_name (pr_name p))))
             (kreturn pid))))))))))))))))))"

primrec close_fds :: "env \<Rightarrow> nat \<Rightarrow> nat list \<Rightarrow> (kstate, unit) kop" where
  "close_fds e i [] = kreturn ()"
| "close_fds e i (fd # fds) =
     kthen (kbind (kget (\<lambda>s. pr_ofile (ptable s i) ! fd)) (\<lambda>f.
       case f of
         None \<Rightarrow> kreturn ()
       | Some g \<Rightarrow> kthen (fileclose e g) (kmod (set_proc i (\<lambda>p. p\<lparr>pr_ofile := (pr_ofile p)[fd := None]\<rparr>)))))
     (close_fds e i fds)"

text \<open>Children of \<open>i\<close> are passed to \<open>initproc\<close>.\<close>

definition chan_of :: "nat option \<Rightarrow> chan option" where
  "chan_of p = map_option ChProc p"

primrec reparent :: "nat \<Rightarrow> nat list \<Rightarrow> kstate \<Rightarrow> kstate" where
  "reparent i [] s = s"
| "reparent i (j # js) s = reparent i js
     (if pr_parent (ptable s j) = Some i then
        (let t = set_proc j (\<lambda>p. p\<lparr>pr_parent := initproc s\<rparr>) s in
         if pr_state (ptable t j) = ZOMBIE then wakeup1 (chan_of (initproc s)) t else t)
      else s)"

definition exit :: "env \<Rightarrow> (kstate, unit) kop" where
  "exit e =
     kbind (kget (\<lambda>s. curproc s = initproc s)) (\<lambda>is_init.
     if is_init then kpanic ''init exiting''
     else kbind myproc (\<lambda>i.
       kthen (close_fds e i [0..<NOFILE])
       (kbind (kget (\<lambda>s. pr_cwd (ptable s i))) (\<lambda>c.
        kthen begin_trans
        (kthen (kderef c iput)
        (kthen commit_trans
        (kthen (kmod (set_proc i (\<lambda>p. p\<lparr>pr_cwd := None\<rparr>)))
        (kthen (kmod (\<lambda>s. wakeup1 (chan_of (pr_parent (ptable s i))) s))
        (kthen (kmod (reparent i [0..<NPROC]))
        (kthen (kmod (set_proc i (\<lambda>p. p\<lparr>pr_state := ZOMBIE\<rparr>)))
        sched))))))))))"

text \<open>The page directory that \<open>wait\<close> frees, 0 when one of its checks fails.\<close>

definition reap_dir :: "u32 \<Rightarrow> u32 \<Rightarrow> kmem \<Rightarrow> u32" where
  "reap_dir mine z m =
     (let z1 = (if z = mine then 0 else z);
          z2 = (if z1 \<noteq> 0 \<and> pgdir_share_user_pt mine z1 m then 0 else z1);
          z3 = (if z2 \<noteq> 0 \<and> (z2 mod PGSIZE \<noteq> 0 \<or> z2 < KERNBASE) then 0 else z2)
      in z3)"

definition reap :: "nat \<Rightarrow> nat \<Rightarrow> (kstate, int) kop" where
  "reap i j =
     kbind (kget (\<lambda>s. ptable s j)) (\<lambda>c.
     kthen (on_kmem (kfree (pr_kstack c)))
     (kthen (kmod (set_proc j (\<lambda>p. p\<lparr>pr_kstack := 0\<rparr>)))
     (kbind (kget (\<lambda>s. reap_dir (pr_pgdir (ptable s i)) (pr_pgdir c) (kmem_of s))) (\<lambda>z.
      kbind (kget live_dirs) (\<lambda>dirs.
      kthen (kwhen (z \<noteq> 0) (on_kmem (freevm dirs z)))
      (kthen (kmod (set_proc j (\<lambda>p. p\<lparr>pr_pgdir := 0, pr_state := UNUSED, pr_pid := 0, pr_parent := None,
         pr_name := (pr_name p)[0 := 0], pr_killed := False\<rparr>)))
      (kreturn (pr_pid c))))))))"

definition wait :: "(kstate, int presult) kop" where
  "wait =
     kbind myproc (\<lambda>i.
     kbind (kget (\<lambda>s. find (\<lambda>j. pr_parent (ptable s j) = Some i \<and> pr_state (ptable s j) = ZOMBIE) [0..<NPROC])) (\<lambda>z.
     case z of
       Some j \<Rightarrow> kbind (reap i j) (\<lambda>pid. kreturn (PDone pid))
     | None \<Rightarrow>
         kbind (kget (\<lambda>s. list_ex (\<lambda>j. pr_parent (ptable s j) = Some i) [0..<NPROC])) (\<lambda>havekids.
         kbind my_killed (\<lambda>k.
         if \<not> havekids \<or> k then kreturn PFail
         else kthen (sleep_on (ChProc i)) (kreturn (PSleep 0))))))"

end
