(* ===== verification/VmSpec.thy ===== *)
theory VmSpec
  imports Vm
begin

text \<open>
  Page tables as maps: \<open>pte s d va\<close> is the entry for the page of \<open>va\<close> in the page directory \<open>d\<close>, 0 when there is
  none. \<open>mappages\<close> updates this map at the pages it is given and nowhere else, and touches no
  memory but that of the page tables.
\<close>

unbundle bit_operations_syntax


subsection \<open>Addresses\<close>

lemma unat_drop_bit: "unat (drop_bit n a :: u32) = unat a div 2 ^ n"
  using u32_lt [of a] by (simp only: unsigned_drop_bit_eq) (simp add: drop_bit_eq_div take_bit_nat_eq_self)

lemma and_3FF: "(a :: u32) AND 0x3FF = take_bit 10 a"
  by (simp add: take_bit_eq_mask mask_eq_exp_minus_1)

lemma unat_take_bit: "unat (take_bit n a :: u32) = unat a mod 2 ^ n"
  by (simp only: unsigned_take_bit_eq) (simp add: take_bit_eq_mod)

lemma unat_PDX: "unat (PDX va) = unat va div 4194304"
proof -
  have "unat va < 1024 * 4194304" using u32_lt [of va] by simp
  then have "unat va div 4194304 < 1024" by (rule less_mult_imp_div_less)
  then show ?thesis by (simp add: PDX_def and_3FF unat_take_bit unat_drop_bit)
qed

lemma unat_PTX: "unat (PTX va) = unat va div 4096 mod 1024"
  by (simp add: PTX_def and_3FF unat_take_bit unat_drop_bit)

lemma PDX_lt [simp]: "unat (PDX va) < 1024" and PTX_lt [simp]: "unat (PTX va) < 1024"
  by (simp_all add: PDX_def PTX_def and_3FF unat_take_bit)

lemma same_page_iff: "PGROUNDDOWN a = PGROUNDDOWN b \<longleftrightarrow> PDX a = PDX b \<and> PTX a = PTX b"
proof -
  have "PDX a = PDX b \<and> PTX a = PTX b \<longleftrightarrow>
      unat a div 4096 div 1024 = unat b div 4096 div 1024 \<and> unat a div 4096 mod 1024 = unat b div 4096 mod 1024"
    by (simp add: word_unat_eq_iff unat_PDX unat_PTX flip: div_mult2_eq)
  also have "\<dots> \<longleftrightarrow> unat a div 4096 = unat b div 4096" by (metis div_mult_mod_eq)
  also have "\<dots> \<longleftrightarrow> PGROUNDDOWN a = PGROUNDDOWN b" by (simp add: word_unat_eq_iff unat_PGROUNDDOWN)
  finally show ?thesis by blast
qed

text \<open>The entries of a page of words.\<close>

lemma entry_offset: "unat i < 1024 \<Longrightarrow> k < 4 \<Longrightarrow> unat (4 * i + of_nat k :: u32) = 4 * unat i + k"
proof -
  assume i: "unat i < 1024" and k: "k < 4"
  have e: "4 * i + of_nat k = of_nat (4 * unat i + k)" by simp
  show ?thesis unfolding e by (rule unat_of_nat_u32) (use i k in simp)
qed

lemma entry_page:
  assumes "p mod PGSIZE = 0" "unat i < 1024" "k < 4"
  shows "PGROUNDDOWN (p + 4 * i + of_nat k) = p"
proof (rule iffD1 [OF in_page_iff [OF assms(1)]])
  have e: "p + 4 * i + of_nat k - p = 4 * i + of_nat k" by simp
  show "unat (p + 4 * i + of_nat k - p) < 4096" unfolding e entry_offset [OF assms(2,3)] using assms(2,3) by simp
qed

lemma load_entry_cong:
  assumes "p mod PGSIZE = 0" "unat i < 1024" "\<And>x. PGROUNDDOWN x = p \<Longrightarrow> m x = m' x"
  shows "load32 (p + 4 * i) m = load32 (p + 4 * i) m'"
  by (rule load32_cong, rule assms(3), rule entry_page [OF assms(1,2)])

lemma store_entry_other:
  assumes "q mod PGSIZE = 0" "unat j < 1024" "PGROUNDDOWN x \<noteq> q"
  shows "store32 (q + 4 * j) w m x = m x"
proof (rule store32_other, rule ccontr)
  assume "\<not> 4 \<le> unat (x - (q + 4 * j))"
  then have "PGROUNDDOWN (q + 4 * j + of_nat (unat (x - (q + 4 * j)))) = q" by (intro entry_page [OF assms(1,2)]) simp
  then show False using assms(3) by simp
qed

lemma load_entry_store:
  assumes "p mod PGSIZE = 0" "unat i < 1024" "q mod PGSIZE = 0" "unat j < 1024"
  shows "load32 (p + 4 * i) (store32 (q + 4 * j) w m) = (if p = q \<and> i = j then w else load32 (p + 4 * i) m)"
proof (cases "p = q")
  case False
  then show ?thesis
    using load_entry_cong [OF assms(1,2), of "store32 (q + 4 * j) w m" m] store_entry_other [OF assms(3,4)] by metis
next
  case True
  show ?thesis
  proof (cases "i = j")
    case False
    have "load32 (p + 4 * i) (store32 (q + 4 * j) w m) = load32 (p + 4 * i) m"
    proof (rule load32_cong, rule store32_other)
      fix k :: nat assume k: "k < 4"
      have e: "p + 4 * i + of_nat k - (q + 4 * j) = (4 * i + of_nat k) - (4 * j + of_nat 0)" using True by simp
      obtain x y d where d: "unat (4 * i + of_nat k) = x" "unat (4 * j + of_nat 0 :: u32) = y"
          "unat (4 * i + of_nat k - (4 * j + of_nat 0)) = d" by blast
      have "unat i \<noteq> unat j" using False by (simp add: word_unat_eq_iff)
      moreover have "x = 4 * unat i + k" "y = 4 * unat j"
        using entry_offset [OF assms(2) k] entry_offset [OF assms(4) zero_less_numeral] unfolding d by simp_all
      moreover have "d + y = x \<or> d + y = x + 4294967296"
        using unat_sub_cases [of "4 * i + of_nat k" "4 * j + of_nat 0"] unfolding d by simp
      ultimately show "4 \<le> unat (p + 4 * i + of_nat k - (q + 4 * j))"
        unfolding e d using assms(2,4) k by linarith
    qed
    then show ?thesis using False by simp
  qed (use True in simp)
qed

lemma load_entry_zero:
  assumes "p mod PGSIZE = 0" "unat i < 1024"
  shows "load32 (p + 4 * i) (memset p 0 PGSIZE m) = 0"
proof -
  have "load32 (p + 4 * i) (memset p 0 PGSIZE m) = load32 (p + 4 * i) (\<lambda>_. 0)"
    by (rule load_entry_cong [OF assms]) (use in_page_iff [OF assms(1)] in \<open>simp add: memset_fills PGSIZE_def\<close>)
  then show ?thesis by (simp add: load32_def)
qed

lemma memset_page_other: "p mod PGSIZE = 0 \<Longrightarrow> PGROUNDDOWN x \<noteq> p \<Longrightarrow> memset p c PGSIZE m x = m x"
  using in_page_iff [of p x] by (simp add: memset_fills PGSIZE_def)

text \<open>Entries: a frame and flags.\<close>

definition flags_ok :: "u32 \<Rightarrow> bool" where
  "flags_ok perm \<longleftrightarrow> perm AND NOT 0xFFF = 0"

lemma PTE_ADDR_PGROUNDDOWN: "PTE_ADDR = PGROUNDDOWN"
  by (simp add: fun_eq_iff PTE_ADDR_def PGROUNDDOWN_def PGSIZE_def)

lemma PGROUNDDOWN_id: "a mod PGSIZE = 0 \<Longrightarrow> PGROUNDDOWN a = a"
  using div_mult_mod_eq [of "unat a" 4096] unfolding page_mod_iff
  by (simp add: word_unat_eq_iff unat_PGROUNDDOWN)

lemma and_or_distrib: "((a :: u32) OR b) AND c = (a AND c) OR (b AND c)"
  by (rule bit_word_eqI) (auto simp: bit_simps)

lemma PTE_ADDR_or:
  assumes "pa mod PGSIZE = 0" "flags_ok f"
  shows "PTE_ADDR (pa OR f) = pa"
proof -
  have "PTE_ADDR (pa OR f) = PTE_ADDR pa OR (f AND NOT 0xFFF)" by (simp only: PTE_ADDR_def and_or_distrib)
  then show ?thesis using assms by (simp add: flags_ok_def PTE_ADDR_PGROUNDDOWN PGROUNDDOWN_id)
qed

lemma present_or [simp]: "present (a OR PTE_P)" "\<not> present 0"
proof -
  have "(a OR PTE_P) AND PTE_P = PTE_P" by (rule bit_word_eqI) (auto simp: bit_simps)
  then show "present (a OR PTE_P)" by (simp add: present_def PTE_P_def)
qed (simp add: present_def)

lemma flags_ok_or [simp]: "flags_ok (a OR b) \<longleftrightarrow> flags_ok a \<and> flags_ok b"
  by (simp only: flags_ok_def and_or_distrib or_eq_0_iff)

lemma flags_ok_flags [simp]: "flags_ok PTE_P" "flags_ok PTE_W" "flags_ok PTE_U" "flags_ok PTE_PCD" "flags_ok PTE_PWT" "flags_ok 0"
  by (simp_all add: flags_ok_def PTE_P_def PTE_W_def PTE_U_def PTE_PCD_def PTE_PWT_def)



subsection \<open>The map of a page directory\<close>

definition pde :: "kmem \<Rightarrow> u32 \<Rightarrow> u32 \<Rightarrow> u32" where
  "pde s d va = load32 (d + 4 * PDX va) (kmem_mem s)"

definition ptp :: "kmem \<Rightarrow> u32 \<Rightarrow> u32 \<Rightarrow> u32" where
  "ptp s d va = p2v (PTE_ADDR (pde s d va))"

definition pte :: "kmem \<Rightarrow> u32 \<Rightarrow> u32 \<Rightarrow> u32" where
  "pte s d va = (if present (pde s d va) then load32 (ptp s d va + 4 * PTX va) (kmem_mem s) else 0)"

text \<open>The pages that hold the page directory and its page tables.\<close>

definition pt_pages :: "kmem \<Rightarrow> u32 \<Rightarrow> u32 set" where
  "pt_pages s d = insert d {ptp s d va |va. present (pde s d va)}"

definition pd_inv :: "kmem \<Rightarrow> u32 \<Rightarrow> bool" where
  "pd_inv s d \<longleftrightarrow> kmem_inv s \<and> \<not> page_ok s KERNBASE \<and> page_ok s d \<and> d \<notin> free_pages s
     \<and> (\<forall>va. present (pde s d va) \<longrightarrow> PTE_ADDR (pde s d va) \<noteq> 0 \<and> page_ok s (ptp s d va)
          \<and> ptp s d va \<notin> free_pages s \<and> ptp s d va \<noteq> d)
     \<and> (\<forall>va vb. present (pde s d va) \<longrightarrow> present (pde s d vb) \<longrightarrow> ptp s d va = ptp s d vb \<longrightarrow> PDX va = PDX vb)"

lemma pd_invD:
  assumes "pd_inv s d"
  shows "kmem_inv s" "page_ok s d" "d \<notin> free_pages s" "d mod PGSIZE = 0" "d \<noteq> 0"
    "present (pde s d va) \<Longrightarrow> PTE_ADDR (pde s d va) \<noteq> 0" "present (pde s d va) \<Longrightarrow> page_ok s (ptp s d va)"
    "present (pde s d va) \<Longrightarrow> ptp s d va \<notin> free_pages s" "present (pde s d va) \<Longrightarrow> ptp s d va \<noteq> d"
    "present (pde s d va) \<Longrightarrow> ptp s d va mod PGSIZE = 0"
    "present (pde s d va) \<Longrightarrow> present (pde s d vb) \<Longrightarrow> ptp s d va = ptp s d vb \<Longrightarrow> PDX va = PDX vb"
    "\<not> page_ok s KERNBASE"
  using assms page_okD(1,4) unfolding pd_inv_def by blast+

text \<open>What a change of the page tables of \<open>d\<close> keeps: other memory, and the free pages but those that became page tables.\<close>

definition pt_step :: "u32 \<Rightarrow> kmem \<Rightarrow> kmem \<Rightarrow> bool" where
  "pt_step d s t \<longleftrightarrow> page_ok t = page_ok s \<and> pt_pages s d \<subseteq> pt_pages t d \<and> free_pages t \<subseteq> free_pages s
     \<and> pt_pages t d - pt_pages s d = free_pages s - free_pages t
     \<and> (\<forall>x. PGROUNDDOWN x \<notin> pt_pages t d \<longrightarrow> kmem_mem t x = kmem_mem s x)"

lemma pt_step_refl [simp]: "pt_step d s s"
  by (simp add: pt_step_def)

lemma pt_step_trans: "pt_step d s t \<Longrightarrow> pt_step d t u \<Longrightarrow> pt_step d s u"
  unfolding pt_step_def by (auto 0 4)

lemma kmem_env: "kmem_inv s \<Longrightarrow> KERNBASE \<le> kend s"
  by (auto simp: kmem_inv_def kmem_list_def kenv_def)

lemma v2p_p2v [simp]: "v2p (p2v a) = a" "p2v (v2p a) = a"
  by (simp_all add: v2p_def p2v_def)

lemma frame_ok_iff:
  assumes "kmem_inv s"
  shows "frame_ok s pa \<longleftrightarrow> pa \<noteq> 0 \<and> page_ok s (p2v pa)"
proof -
  have "p2v pa mod PGSIZE = 0 \<longleftrightarrow> pa mod PGSIZE = 0" using v2p_mod [of "p2v pa"] by simp
  moreover have "kend s \<le> p2v pa \<Longrightarrow> p2v pa \<noteq> 0" using kmem_env [OF assms] by (auto simp: KERNBASE_def)
  ultimately show ?thesis
    by (auto simp: frame_ok_def page_ok_def run_ptr_valid_def not_le not_less split: if_splits)
qed

lemma v2p_page:
  assumes "page_ok s v" "\<not> page_ok s KERNBASE"
  shows "v2p v \<noteq> 0" "v2p v mod PGSIZE = 0"
proof -
  show "v2p v mod PGSIZE = 0" using page_okD(1) [OF assms(1)] v2p_mod by simp
  show "v2p v \<noteq> 0" using assms by (auto simp: v2p_def)
qed

text \<open>A store into the page directory or a page table, seen through the map.\<close>

lemma set_pte:
  assumes d: "pd_inv s d" and p: "present (pde s d va)" and t: "t = s\<lparr>kmem_mem := store32 (ptp s d va + 4 * PTX va) w (kmem_mem s)\<rparr>"
  shows "pd_inv t d" "pte t d x = (if PGROUNDDOWN x = PGROUNDDOWN va then w else pte s d x)" "pt_step d s t"
proof -
  note D = pd_invD [OF d]
  let ?q = "ptp s d va"
  have e: "pde t d x = pde s d x" for x
    using load_entry_store [OF D(4) PDX_lt [of x] D(10) [OF p] PTX_lt [of va]] D(9) [OF p] by (auto simp: pde_def t)
  then have q: "ptp t d x = ptp s d x" for x by (simp add: ptp_def)
  have ok: "page_ok t = page_ok s" "free_pages t = free_pages s" using pg.set_frees by (simp_all add: t)
  have out: "kmem_mem t x = kmem_mem s x" if "PGROUNDDOWN x \<noteq> ?q" for x
    using store_entry_other [OF D(10) [OF p] PTX_lt that] by (simp add: t)
  have "PGROUNDDOWN x \<notin> free_pages s" if "kmem_mem t x \<noteq> kmem_mem s x" for x
    using that out [of x] D(8) [OF p] by metis
  then have "kmem_inv t" unfolding t by (intro pg.set_alloc [OF D(1)]) simp
  then show "pd_inv t d" using d unfolding pd_inv_def e q ok by (elim conjE, intro conjI)
  have mt: "kmem_mem t = store32 (?q + 4 * PTX va) w (kmem_mem s)" by (simp add: t)
  show "pte t d x = (if PGROUNDDOWN x = PGROUNDDOWN va then w else pte s d x)"
  proof (cases "present (pde s d x)")
    case True
    have "ptp s d x = ?q \<longleftrightarrow> PDX x = PDX va" using D(11) [OF True p] by (auto simp: ptp_def pde_def)
    then show ?thesis
      using load_entry_store [OF D(10) [OF True] PTX_lt [of x] D(10) [OF p] PTX_lt [of va]] True
      unfolding pte_def e q mt same_page_iff by simp
  next
    case False
    then have "PDX x \<noteq> PDX va" using p by (auto simp: pde_def)
    then show ?thesis using False unfolding pte_def e q same_page_iff by simp
  qed
  have "pt_pages t d = pt_pages s d" by (simp add: pt_pages_def e q)
  then show "pt_step d s t" using ok out p by (auto simp: pt_step_def pt_pages_def)
qed


abbreviation "pt_flags \<equiv> PTE_P OR PTE_W OR PTE_U"

lemma pt_entry: "present (a OR pt_flags)" "a mod PGSIZE = 0 \<Longrightarrow> PTE_ADDR (a OR pt_flags) = a"
proof -
  have "a OR pt_flags = (a OR PTE_W OR PTE_U) OR PTE_P" by (rule bit_word_eqI) (auto simp: bit_simps)
  then show "present (a OR pt_flags)" by simp
qed (simp add: PTE_ADDR_or)

lemma new_pt:
  assumes d: "pd_inv s d" and p: "\<not> present (pde s d va)"
    and r: "r \<in> free_pages s" "kmem_inv u" "kmem_mem u = kmem_mem s" "page_ok u = page_ok s" "free_pages u = free_pages s - {r}"
    and t: "t = u\<lparr>kmem_mem := store32 (d + 4 * PDX va) (v2p r OR pt_flags) (memset r 0 PGSIZE (kmem_mem u))\<rparr>"
  shows "pd_inv t d" "pte t d = pte s d" "pt_step d s t" "present (pde t d va)" "ptp t d va = r"
proof -
  note D = pd_invD [OF d]
  have ro: "page_ok s r" using r(1) by (simp add: free_pages_def)
  have rm: "r mod PGSIZE = 0" "r \<noteq> d" using page_okD(1) [OF ro] r(1) D(3) by auto
  have ra: "PTE_ADDR (v2p r OR pt_flags) = v2p r" "v2p r \<noteq> 0" using pt_entry(2) v2p_page [OF ro D(12)] by simp_all
  have mt: "kmem_mem t = store32 (d + 4 * PDX va) (v2p r OR pt_flags) (memset r 0 PGSIZE (kmem_mem s))" by (simp add: t r(3))
  have ms: "load32 (q + 4 * i) (memset r 0 PGSIZE (kmem_mem s)) = load32 (q + 4 * i) (kmem_mem s)"
    if "q mod PGSIZE = 0" "unat i < 1024" "q \<noteq> r" for q i
    by (rule load_entry_cong [OF that(1,2)]) (use memset_page_other [OF rm(1)] that(3) in auto)
  have e: "pde t d x = (if PDX x = PDX va then v2p r OR pt_flags else pde s d x)" for x
    using load_entry_store [OF D(4) PDX_lt [of x] D(4) PDX_lt [of va]] ms [OF D(4) PDX_lt [of x]] rm(2)
    unfolding pde_def mt by auto
  then have q: "ptp t d x = (if PDX x = PDX va then r else ptp s d x)" for x by (simp add: ptp_def ra)
  show "present (pde t d va)" "ptp t d va = r" using pt_entry(1) by (simp_all add: e q)
  have ok: "page_ok t = page_ok s" "free_pages t = free_pages s - {r}" using pg.set_frees r(4,5) by (simp_all add: t)
  have out: "kmem_mem t x = kmem_mem s x" if "PGROUNDDOWN x \<noteq> r" "PGROUNDDOWN x \<noteq> d" for x
    using store_entry_other [OF D(4) PDX_lt that(2)] memset_page_other [OF rm(1) that(1)] by (simp add: mt)
  have "PGROUNDDOWN x \<notin> free_pages u" if "kmem_mem t x \<noteq> kmem_mem u x" for x
    using that out [of x] D(3) r(3,5) by (auto simp del: not_not)
  then have it: "kmem_inv t" unfolding t by (intro pg.set_alloc [OF r(2)]) simp
  have np: "\<not> present (pde s d x)" if "PDX x = PDX va" for x using p that by (simp add: pde_def)
  have pr: "present (pde t d x) \<longleftrightarrow> PDX x = PDX va \<or> present (pde s d x)" for x using pt_entry(1) by (simp add: e)
  show "pd_inv t d"
    unfolding pd_inv_def
  proof (intro conjI allI impI)
    show "kmem_inv t" "\<not> page_ok t KERNBASE" "page_ok t d" "d \<notin> free_pages t" using it D(2,3,12) ok by simp_all
    fix x assume x: "present (pde t d x)"
    show "PTE_ADDR (pde t d x) \<noteq> 0" "page_ok t (ptp t d x)" "ptp t d x \<notin> free_pages t" "ptp t d x \<noteq> d"
      using x D(6-9) [of x] ra ro rm(2) np [of x] unfolding pr by (auto simp: e q ok)
    fix y assume "present (pde t d y)" "ptp t d x = ptp t d y"
    then show "PDX x = PDX y"
      using x D(8) [of x] D(8) [of y] D(11) [of x y] r(1) unfolding pr q by (auto split: if_splits)
  qed
  show "pte t d = pte s d"
  proof
    fix x
    show "pte t d x = pte s d x"
    proof (cases "PDX x = PDX va")
      case True
      have "load32 (r + 4 * PTX x) (kmem_mem t) = 0"
        using load_entry_store [OF rm(1) PTX_lt [of x] D(4) PDX_lt [of va]] load_entry_zero [OF rm(1) PTX_lt [of x]] rm(2)
        unfolding mt by simp
      then show ?thesis using True np [OF True] by (simp add: pte_def q)
    next
      case False
      have "load32 (ptp s d x + 4 * PTX x) (kmem_mem t) = load32 (ptp s d x + 4 * PTX x) (kmem_mem s)" if "present (pde s d x)"
        using load_entry_store [OF D(10) [OF that] PTX_lt [of x] D(4) PDX_lt [of va]] ms [OF D(10) [OF that] PTX_lt [of x]]
          D(8,9) [OF that] r(1) unfolding mt by auto
      then show ?thesis using False by (auto simp: pte_def e q)
    qed
  qed
  have pt: "pt_pages t d = insert r (pt_pages s d)"
    using np unfolding pt_pages_def pr q by (auto simp del: not_not)
  moreover have "r \<notin> pt_pages s d" using r(1) D(8) rm(2) by (auto simp: pt_pages_def)
  ultimately show "pt_step d s t" using ok out r(1) by (auto simp: pt_step_def pt_pages_def)
qed


lemma walk_present:
  assumes "pd_inv s d" "present (pde s d va)"
  shows "wp (walkpgdir d va alloc) Q s \<longleftrightarrow> Q (ptp s d va + 4 * PTX va) s"
proof -
  note D = pd_invD [OF assms(1)]
  have "frame_ok s (PTE_ADDR (pde s d va))"
    using frame_ok_iff [OF D(1)] D(6,7) [OF assms(2)] by (simp add: ptp_def)
  then show ?thesis using assms(2) by (simp add: walkpgdir_def rd32_def Let_def pde_def ptp_def)
qed

lemma walk_absent: "\<not> present (pde s d va) \<Longrightarrow> wp (walkpgdir d va False) Q s \<longleftrightarrow> Q 0 s"
  by (simp add: walkpgdir_def rd32_def Let_def pde_def)

lemma free_card_drop: "free_pages t = free_pages s - {r} \<Longrightarrow> card (free_pages s) \<le> card (free_pages t) + 1"
  using card_Diff_singleton_if [of "free_pages s" r] by (cases "r \<in> free_pages s") auto

lemma walk_alloc:
  assumes d: "pd_inv s d"
    and fail: "free_pages s = {} \<Longrightarrow> \<not> present (pde s d va) \<Longrightarrow> Q 0 s"
    and Q: "\<And>t. pd_inv t d \<Longrightarrow> present (pde t d va) \<Longrightarrow> pte t d = pte s d \<Longrightarrow> pt_step d s t \<Longrightarrow>
      card (free_pages s) \<le> card (free_pages t) + 1 \<Longrightarrow> Q (ptp t d va + 4 * PTX va) t"
  shows "wp (walkpgdir d va True) Q s"
proof (cases "present (pde s d va)")
  case True
  then show ?thesis using walk_present [OF d True] Q [OF d True] by simp
next
  case False
  note D = pd_invD [OF d]
  have "wp kalloc (\<lambda>pgtab. wp (if pgtab = 0 then kreturn 0
      else kthen (on_mem (memset pgtab 0 PGSIZE)) (kthen (wr32 (d + 4 * PDX va) (v2p pgtab OR pt_flags))
        (kreturn (pgtab + 4 * PTX va)))) Q) s"
  proof (rule pg.alloc_rule [OF D(1)])
    show "wp (if 0 = 0 then kreturn 0 else kthen (on_mem (memset 0 0 PGSIZE)) (kthen (wr32 (d + 4 * PDX va) (v2p 0 OR pt_flags))
        (kreturn (0 + 4 * PTX va)))) Q s" if "free_pages s = {}"
      using fail [OF that False] by simp
    fix r u assume r: "r \<in> free_pages s" "r \<noteq> 0" "kmem_inv u" "kmem_mem u = kmem_mem s" "page_ok u = page_ok s"
      "free_pages u = free_pages s - {r}"
    note N = new_pt [OF d False r(1,3-6) refl]
    show "wp (if r = 0 then kreturn 0 else kthen (on_mem (memset r 0 PGSIZE)) (kthen (wr32 (d + 4 * PDX va) (v2p r OR pt_flags))
        (kreturn (r + 4 * PTX va)))) Q u"
      using Q [OF N(1,4,2,3)] N(5) r(2) free_card_drop [OF r(6)] by (simp add: on_mem_def wr32_def pg.set_frees(1))
  qed
  then show ?thesis using False by (simp add: walkpgdir_def rd32_def Let_def pde_def)
qed

text \<open>\<open>map_one\<close> on a page that is not mapped: it fails only when no page is free for a new page table.\<close>

lemma entry_nonzero:
  assumes "pd_inv s d" "present (pde s d a)"
  shows "ptp s d a + 4 * PTX a \<noteq> 0"
proof
  assume "ptp s d a + 4 * PTX a = 0"
  then have "ptp s d a = 0"
    using entry_page [OF pd_invD(10) [OF assms] PTX_lt [of a], of 0] by (simp add: PGROUNDDOWN_def)
  then show False using page_okD(4) [OF pd_invD(7) [OF assms]] by simp
qed

lemma map_one_fresh:
  assumes d: "pd_inv s d" and n: "\<not> present (pte s d a)"
    and fail: "free_pages s = {} \<Longrightarrow> Q False s"
    and Q: "\<And>t. pd_inv t d \<Longrightarrow> pt_step d s t \<Longrightarrow> card (free_pages s) \<le> card (free_pages t) + 1 \<Longrightarrow> 
      (\<And>x. pte t d x = (if PGROUNDDOWN x = PGROUNDDOWN a then pa OR perm OR PTE_P else pte s d x)) \<Longrightarrow> Q True t"
  shows "wp (map_one d a pa perm) Q s"
proof -
  have "wp (walkpgdir d a True) (\<lambda>pte'. wp (if pte' = 0 then kreturn False
     else kbind (rd32 pte') (\<lambda>w. if present w then
          (if w AND NOT (PTE_A OR PTE_D) = pa OR perm OR PTE_P then kreturn True
           else if PTE_ADDR w = pa then kthen (wr32 pte' ((pa OR perm OR PTE_P) OR (w AND (PTE_A OR PTE_D)))) (kreturn True)
           else if KERNBASE \<le> a then kthen (wr32 pte' ((pa OR perm OR PTE_P) OR (w AND (PTE_A OR PTE_D)))) (kreturn True)
           else kpanic ''remap'')
        else kthen (wr32 pte' (pa OR perm OR PTE_P)) (kreturn True))) Q) s"
    (is "wp _ (\<lambda>pte'. wp (?body pte') Q) s")
  proof (rule walk_alloc [OF d])
    show "wp (?body 0) Q s" if "free_pages s = {}" using fail [OF that] by simp
    fix t assume t: "pd_inv t d" "present (pde t d a)" "pte t d = pte s d" "pt_step d s t" "card (free_pages s) \<le> card (free_pages t) + 1"
    let ?e = "ptp t d a + 4 * PTX a"
    have e0: "?e \<noteq> 0" by (rule entry_nonzero [OF t(1,2)])
    have w: "load32 ?e (kmem_mem t) = pte s d a" using t(2,3) by (simp add: pte_def fun_eq_iff) metis
    note S = set_pte [OF t(1,2) refl, of "pa OR perm OR PTE_P"]
    show "wp (?body ?e) Q t"
      using e0 n Q [OF S(1) pt_step_trans [OF t(4) S(3)] _ S(2) [unfolded t(3)]] t(5)
      by (simp add: rd32_def wr32_def w or.assoc pg.set_frees(1))
  qed
  then show ?thesis unfolding map_one_def Let_def wp_kbind [of "walkpgdir d a True"] .
qed



subsection \<open>Mapping a range\<close>

text \<open>The map after the pages \<open>a\<close>, \<open>a + PGSIZE\<close>, \<dots> have been mapped to the frames from \<open>pa\<close> on.\<close>

definition in_range :: "u32 \<Rightarrow> nat \<Rightarrow> u32 \<Rightarrow> bool" where
  "in_range a n x \<longleftrightarrow> unat (PGROUNDDOWN x - a) \<le> 4096 * n"

definition map_range :: "u32 \<Rightarrow> nat \<Rightarrow> u32 \<Rightarrow> u32 \<Rightarrow> (u32 \<Rightarrow> u32) \<Rightarrow> u32 \<Rightarrow> u32" where
  "map_range a n pa perm M x = (if in_range a n x then (pa + (PGROUNDDOWN x - a)) OR perm OR PTE_P else M x)"

lemma in_range_0: "in_range a 0 x \<longleftrightarrow> PGROUNDDOWN x = a"
  by (auto simp: in_range_def unat_eq_0)

lemma in_range_Suc:
  assumes "a mod PGSIZE = 0" "Suc n < 2 ^ 20"
  shows "in_range a (Suc n) x \<longleftrightarrow> PGROUNDDOWN x = a \<or> in_range (a + PGSIZE) n x" "in_range (a + PGSIZE) n x \<Longrightarrow> PGROUNDDOWN x \<noteq> a"
proof -
  let ?j = "PGROUNDDOWN x - a"
  have e: "PGROUNDDOWN x - (a + PGSIZE) = ?j - 4096" by (simp add: PGSIZE_def)
  have c: "unat ?j = 0 \<longleftrightarrow> PGROUNDDOWN x = a" by (simp add: unat_eq_0)
  have j: "unat (?j - 4096) + 4096 = unat ?j \<or> unat (?j - 4096) + 4096 = unat ?j + 4294967296"
    using unat_sub_cases [of ?j 4096] by simp
  have g: "unat ?j = 0 \<or> 4096 \<le> unat ?j"
    using page_diff [OF PGROUNDDOWN_mod [of x] assms(1)] c by fastforce
  show "in_range a (Suc n) x \<longleftrightarrow> PGROUNDDOWN x = a \<or> in_range (a + PGSIZE) n x"
    unfolding in_range_def e c [symmetric] using j g assms(2) u32_lt [of "?j - 4096"] by auto
  show "PGROUNDDOWN x \<noteq> a" if "in_range (a + PGSIZE) n x"
    using that j assms(2) unfolding in_range_def e c [symmetric] by auto
qed

lemma page_add:
  assumes "a mod PGSIZE = 0"
  shows "(a + PGSIZE) mod PGSIZE = 0"
proof -
  obtain q where q: "unat a = 4096 * q" using assms unfolding page_mod_iff by blast
  have "unat (a + PGSIZE) = unat a + 4096 \<or> unat (a + PGSIZE) + 4294967296 = unat a + 4096"
    using unat_add_cases [of a PGSIZE] by (auto simp: PGSIZE_def)
  then have "unat (a + PGSIZE) = 4096 * (q + 1) \<or> unat (a + PGSIZE) = 4096 * (q + 1 - 1048576)"
    unfolding q by auto
  then show ?thesis unfolding page_mod_iff by auto
qed

lemma mappages_loop_fresh:
  assumes "pd_inv s d" "a mod PGSIZE = 0" "n < 2 ^ 20" "\<And>x. in_range a n x \<Longrightarrow> \<not> present (pte s d x)"
    and "\<And>t. pd_inv t d \<Longrightarrow> pt_step d s t \<Longrightarrow> free_pages t = {} \<Longrightarrow> Q (- 1) t"
    and "\<And>t. pd_inv t d \<Longrightarrow> pt_step d s t \<Longrightarrow> pte t d = map_range a n pa perm (pte s d) \<Longrightarrow> Q 0 t"
  shows "wp (mappages_loop d perm n a pa) Q s"
  using assms
proof (induction n arbitrary: a pa s)
  case 0
  have "\<not> present (pte s d a)" using 0(4) [of a] PGROUNDDOWN_id [OF 0(2)] by (simp add: in_range_0)
  then have "wp (map_one d a pa perm) (\<lambda>ok. Q (if ok then 0 else - 1)) s"
  proof (rule map_one_fresh [OF 0(1)])
    fix t assume t: "pd_inv t d" "pt_step d s t"
      "\<And>x. pte t d x = (if PGROUNDDOWN x = PGROUNDDOWN a then pa OR perm OR PTE_P else pte s d x)"
    have "pte t d = map_range a 0 pa perm (pte s d)"
      using PGROUNDDOWN_id [OF 0(2)] by (auto simp: fun_eq_iff t(3) map_range_def in_range_0)
    then show "Q (if True then 0 else - 1) t" using 0(6) t(1,2) by simp
  qed (use 0 in simp)
  then show ?case by simp
next
  case (Suc n)
  note R = in_range_Suc [OF Suc.prems(2,3)]
  have al: "(a + PGSIZE) mod PGSIZE = 0" by (rule page_add [OF Suc.prems(2)])
  have "\<not> present (pte s d a)" using Suc.prems(4) [of a] PGROUNDDOWN_id [OF Suc.prems(2)] by (simp add: R(1))
  then have "wp (map_one d a pa perm) (\<lambda>ok. wp (if \<not> ok then kreturn (- 1) else mappages_loop d perm n (a + PGSIZE) (pa + PGSIZE)) Q) s"
  proof (rule map_one_fresh [OF Suc.prems(1)])
    show "wp (if \<not> False then kreturn (- 1) else mappages_loop d perm n (a + PGSIZE) (pa + PGSIZE)) Q s" if "free_pages s = {}"
      using Suc.prems(5) [OF Suc.prems(1) pt_step_refl that] by simp
    fix t assume t: "pd_inv t d" "pt_step d s t"
      "\<And>x. pte t d x = (if PGROUNDDOWN x = PGROUNDDOWN a then pa OR perm OR PTE_P else pte s d x)"
    have "wp (mappages_loop d perm n (a + PGSIZE) (pa + PGSIZE)) Q t"
    proof (rule Suc.IH [OF t(1) al])
      show "n < 2 ^ 20" using Suc.prems(3) by simp
      show "\<not> present (pte t d x)" if "in_range (a + PGSIZE) n x" for x
        using that R Suc.prems(4) [of x] PGROUNDDOWN_id [OF Suc.prems(2)] by (auto simp: t(3))
      show "Q (- 1) u" if "pd_inv u d" "pt_step d t u" "free_pages u = {}" for u
        using Suc.prems(5) that pt_step_trans [OF t(2)] by blast
      fix u assume u: "pd_inv u d" "pt_step d t u" "pte u d = map_range (a + PGSIZE) n (pa + PGSIZE) perm (pte t d)"
      have "pte u d = map_range a (Suc n) pa perm (pte s d)"
        using R PGROUNDDOWN_id [OF Suc.prems(2)]
        by (auto simp: fun_eq_iff u(3) map_range_def t(3) R(1) algebra_simps)
      then show "Q 0 u" using Suc.prems(6) u(1) pt_step_trans [OF t(2) u(2)] by blast
    qed
    then show "wp (if \<not> True then kreturn (- 1) else mappages_loop d perm n (a + PGSIZE) (pa + PGSIZE)) Q t" by simp
  qed
  then show ?case by simp
qed


lemma mappages_pages: "unat ((a - b :: u32) div PGSIZE) < 2 ^ 20"
proof -
  have "unat (a - b) < 1048576 * 4096" using u32_lt [of "a - b"] by simp
  then have "unat (a - b) div 4096 < 1048576" by (rule less_mult_imp_div_less)
  then show ?thesis by (simp add: PGSIZE_def unat_div)
qed

lemma mappages_fresh:
  assumes "pd_inv s d" "n = unat ((PGROUNDDOWN (va + sz - 1) - PGROUNDDOWN va) div PGSIZE)"
    "\<And>x. in_range (PGROUNDDOWN va) n x \<Longrightarrow> \<not> present (pte s d x)"
    and "\<And>t. pd_inv t d \<Longrightarrow> pt_step d s t \<Longrightarrow> free_pages t = {} \<Longrightarrow> Q (- 1) t"
    and "\<And>t. pd_inv t d \<Longrightarrow> pt_step d s t \<Longrightarrow> pte t d = map_range (PGROUNDDOWN va) n pa perm (pte s d) \<Longrightarrow> Q 0 t"
  shows "wp (mappages d va sz pa perm) Q s"
proof -
  have n: "n < 2 ^ 20" unfolding assms(2) by (rule mappages_pages)
  show ?thesis
    unfolding mappages_def Let_def assms(2) [symmetric]
    by (rule mappages_loop_fresh [OF assms(1) PGROUNDDOWN_mod n assms(3-5)])
qed

lemma mappages_one:
  assumes "a mod PGSIZE = 0"
  shows "mappages d a PGSIZE pa perm = mappages_loop d perm 0 a pa"
proof -
  have a: "PGROUNDDOWN a = a" by (rule PGROUNDDOWN_id [OF assms])
  have "PGROUNDDOWN (a + PGSIZE - 1) = a"
    by (rule iffD1 [OF in_page_iff [OF assms]]) (simp add: PGSIZE_def)
  then have "unat ((PGROUNDDOWN (a + PGSIZE - 1) - a) div PGSIZE) = 0" by simp
  then show ?thesis by (simp only: mappages_def Let_def a)
qed

lemma mappages_page:
  assumes "pd_inv s d" "a mod PGSIZE = 0" "\<not> present (pte s d a)" "free_pages s \<noteq> {}"
    and "\<And>t. pd_inv t d \<Longrightarrow> pt_step d s t \<Longrightarrow> card (free_pages s) \<le> card (free_pages t) + 1 \<Longrightarrow> 
      (\<And>x. pte t d x = (if PGROUNDDOWN x = a then pa OR perm OR PTE_P else pte s d x)) \<Longrightarrow> Q 0 t"
  shows "wp (mappages d a PGSIZE pa perm) Q s"
proof -
  have a: "PGROUNDDOWN a = a" by (rule PGROUNDDOWN_id [OF assms(2)])
  have "wp (map_one d a pa perm) (\<lambda>ok. Q (if ok then 0 else - 1)) s"
    by (rule map_one_fresh [OF assms(1,3)]) (use assms(4,5) a in simp_all)
  then show ?thesis by (simp add: mappages_one [OF assms(2)])
qed

text \<open>Changes of memory outside the page tables.\<close>

lemma pd_frame:
  assumes d: "pd_inv s d" and t: "kmem_inv t" "page_ok t = page_ok s" "free_pages t \<subseteq> free_pages s"
    and m: "\<And>x. PGROUNDDOWN x \<in> pt_pages s d \<Longrightarrow> kmem_mem t x = kmem_mem s x"
  shows "pd_inv t d" "pte t d = pte s d" "pt_pages t d = pt_pages s d"
proof -
  note D = pd_invD [OF d]
  have e: "pde t d x = pde s d x" for x
    unfolding pde_def by (rule load_entry_cong [OF D(4) PDX_lt]) (rule m, simp add: pt_pages_def)
  then have q: "ptp t d x = ptp s d x" for x by (simp add: ptp_def)
  have "load32 (ptp s d x + 4 * PTX x) (kmem_mem t) = load32 (ptp s d x + 4 * PTX x) (kmem_mem s)" if "present (pde s d x)" for x
    by (rule load_entry_cong [OF D(10) [OF that] PTX_lt]) (rule m, use that in \<open>auto simp: pt_pages_def\<close>)
  then show "pte t d = pte s d" by (simp add: fun_eq_iff pte_def e q)
  show "pt_pages t d = pt_pages s d" by (simp add: pt_pages_def e q)
  show "pd_inv t d" using d t unfolding pd_inv_def e q t(2) by blast
qed

lemma pt_pages_alloc: "pd_inv s d \<Longrightarrow> v \<in> pt_pages s d \<Longrightarrow> v \<notin> free_pages s"
  using pd_invD(3,8) by (auto simp: pt_pages_def)


subsection \<open>Growing a process\<close>

definition user_entry :: "u32 \<Rightarrow> u32" where
  "user_entry v = v2p v OR (PTE_W OR PTE_U) OR PTE_P"

text \<open>
  The pages \<open>as\<close> have been mapped to the fresh, cleared frames \<open>f\<close>; other mappings and all other memory are as
  before.
\<close>

definition grown :: "u32 \<Rightarrow> u32 set \<Rightarrow> kmem \<Rightarrow> (u32 \<Rightarrow> u32) \<Rightarrow> kmem \<Rightarrow> bool" where
  "grown d as s f t \<longleftrightarrow> (\<forall>x. pte t d x = (if PGROUNDDOWN x \<in> as then user_entry (f (PGROUNDDOWN x)) else pte s d x))
     \<and> (\<forall>a \<in> as. f a \<in> free_pages s \<and> f a \<notin> free_pages t \<and> f a \<notin> pt_pages t d \<and> (\<forall>y. PGROUNDDOWN y = f a \<longrightarrow> kmem_mem t y = 0))
     \<and> inj_on f as \<and> (\<forall>y. PGROUNDDOWN y \<notin> pt_pages t d \<union> f ` as \<longrightarrow> kmem_mem t y = kmem_mem s y)
     \<and> page_ok t = page_ok s \<and> free_pages t \<subseteq> free_pages s \<and> pt_pages s d \<subseteq> pt_pages t d
     \<and> pt_pages t d \<subseteq> pt_pages s d \<union> free_pages s"

lemma grown_nil [simp]: "grown d {} s f s"
  by (auto simp: grown_def)


lemma grow_one:
  assumes d: "pd_inv s d" and a: "a mod PGSIZE = 0" "\<not> present (pte s d a)" and c: "2 \<le> card (free_pages s)"
    and Q: "\<And>m t. pd_inv t d \<Longrightarrow> grown d {a} s (\<lambda>_. m) t \<Longrightarrow> card (free_pages s) \<le> card (free_pages t) + 2 \<Longrightarrow> wp K Q t"
  shows "wp kalloc (\<lambda>m. wp (if m = 0 then F else kthen (on_mem (memset m 0 PGSIZE))
      (kbind (mappages d a PGSIZE (v2p m) (PTE_W OR PTE_U)) (\<lambda>r. if r < 0 then G m else K))) Q) s"
proof (rule pg.alloc_rule [OF pd_invD(1) [OF d]])
  show "wp (if 0 = 0 then F else kthen (on_mem (memset 0 0 PGSIZE))
      (kbind (mappages d a PGSIZE (v2p 0) (PTE_W OR PTE_U)) (\<lambda>r. if r < 0 then G 0 else K))) Q s"
    if "free_pages s = {}" using that c by simp
  fix m u
  assume m: "m \<in> free_pages s" "m \<noteq> 0" and u: "kmem_inv u" "kmem_mem u = kmem_mem s" "page_ok u = page_ok s" "free_pages u = free_pages s - {m}"
  have mm: "m mod PGSIZE = 0" using m(1) by (auto simp: free_pages_def dest: page_okD(1))
  let ?v = "u\<lparr>kmem_mem := memset m 0 PGSIZE (kmem_mem u)\<rparr>"
  have out: "kmem_mem ?v x = kmem_mem s x" if "PGROUNDDOWN x \<noteq> m" for x
    using memset_page_other [OF mm that] u(2) by simp
  have zero: "kmem_mem ?v x = 0" if "PGROUNDDOWN x = m" for x
    using in_page_iff [OF mm, of x] that by (simp add: memset_fills PGSIZE_def)
  have v: "kmem_inv ?v" by (rule pg.set_alloc [OF u(1)]) (use out u(2,4) in auto)
  have ok: "page_ok ?v = page_ok s" "free_pages ?v = free_pages s - {m}" using pg.set_frees u(3,4) by simp_all
  have "kmem_mem ?v x = kmem_mem s x" if "PGROUNDDOWN x \<in> pt_pages s d" for x
    by (rule out) (use that pt_pages_alloc [OF d] m(1) in blast)
  note P = pd_frame [OF d v ok(1) _ this, unfolded ok(2), simplified]
  have cm: "card (free_pages s - {m}) = card (free_pages s) - 1" using m(1) by (simp add: card_Diff_singleton)
  have "wp (mappages d a PGSIZE (v2p m) (PTE_W OR PTE_U)) (\<lambda>r. wp (if r < 0 then G m else K) Q) ?v"
  proof (rule mappages_page [OF P(1) a(1)])
    show "\<not> present (pte ?v d a)" using a(2) P(2) by simp
    have "card (free_pages ?v) \<noteq> 0" unfolding ok(2) using cm c by simp
    then show "free_pages ?v \<noteq> {}" by force
    fix t assume t: "pd_inv t d" "pt_step d ?v t" and ct: "card (free_pages ?v) \<le> card (free_pages t) + 1" and t3:
      "\<And>x. pte t d x = (if PGROUNDDOWN x = a then v2p m OR (PTE_W OR PTE_U) OR PTE_P else pte ?v d x)"
    have S: "page_ok t = page_ok s" "pt_pages s d \<subseteq> pt_pages t d" "free_pages t \<subseteq> free_pages s - {m}"
      "pt_pages t d - pt_pages s d = free_pages s - {m} - free_pages t"
      "\<And>x. PGROUNDDOWN x \<notin> pt_pages t d \<Longrightarrow> kmem_mem t x = kmem_mem ?v x"
      using t(2) ok P(3) by (simp_all add: pt_step_def)
    have mp: "m \<notin> pt_pages t d" using S(4) pt_pages_alloc [OF d] m(1) by blast
    have "grown d {a} s (\<lambda>_. m) t"
      unfolding grown_def using m(1) S mp out zero by (auto simp: t3 P(2) user_entry_def)
    moreover have "card (free_pages s) \<le> card (free_pages t) + 2" using ct cm ok(2) by simp
    ultimately show "wp (if (0 :: int) < 0 then G m else K) Q t" using Q t(1) by simp
  qed
  then show "wp (if m = 0 then F else kthen (on_mem (memset m 0 PGSIZE))
      (kbind (mappages d a PGSIZE (v2p m) (PTE_W OR PTE_U)) (\<lambda>r. if r < 0 then G m else K))) Q u"
    using m(2) by (simp add: on_mem_def)
qed


text \<open>Growing by several pages; each takes a frame and perhaps a page table.\<close>

lemma grown_trans:
  assumes d: "pd_inv s d" and g: "grown d {a} s (\<lambda>_. m) t" "grown d as t f u" and a: "a \<notin> as"
  shows "grown d (insert a as) s (f(a := m)) u"
proof -
  let ?f = "f(a := m)"
  have G: "m \<in> free_pages s" "m \<notin> free_pages t" "m \<notin> pt_pages t d" "\<And>y. PGROUNDDOWN y = m \<Longrightarrow> kmem_mem t y = 0"
    "free_pages t \<subseteq> free_pages s" "pt_pages s d \<subseteq> pt_pages t d" "pt_pages t d \<subseteq> pt_pages s d \<union> free_pages s"
    "\<And>y. PGROUNDDOWN y \<notin> pt_pages t d \<Longrightarrow> PGROUNDDOWN y \<noteq> m \<Longrightarrow> kmem_mem t y = kmem_mem s y"
    using g(1) by (auto simp: grown_def)
  have H: "\<And>b. b \<in> as \<Longrightarrow> f b \<in> free_pages t" "free_pages u \<subseteq> free_pages t" "pt_pages t d \<subseteq> pt_pages u d"
    "pt_pages u d \<subseteq> pt_pages t d \<union> free_pages t" "inj_on f as"
    "\<And>y. PGROUNDDOWN y \<notin> pt_pages u d \<Longrightarrow> PGROUNDDOWN y \<notin> f ` as \<Longrightarrow> kmem_mem u y = kmem_mem t y"
    using g(2) by (auto simp: grown_def)
  have mu: "m \<notin> pt_pages u d" "m \<notin> free_pages u" "m \<notin> f ` as" using G(2,3) H by auto
  have im: "?f ` insert a as = insert m (f ` as)" using a by auto
  show ?thesis
    unfolding grown_def im
  proof (intro conjI allI impI ballI)
    fix x
    show "pte u d x = (if PGROUNDDOWN x \<in> insert a as then user_entry (?f (PGROUNDDOWN x)) else pte s d x)"
      using g a by (auto simp: grown_def)
    show "page_ok u = page_ok s" using g by (simp add: grown_def)
    show "inj_on ?f (insert a as)" using H(5) mu(3) a by (auto simp: inj_on_def)
    show "free_pages u \<subseteq> free_pages s" "pt_pages s d \<subseteq> pt_pages u d" "pt_pages u d \<subseteq> pt_pages s d \<union> free_pages s"
      using G(5-7) H(2-4) by blast+
    show "kmem_mem u x = kmem_mem s x" if "PGROUNDDOWN x \<notin> pt_pages u d \<union> insert m (f ` as)"
      using that G(8) [of x] H(3,6) by auto
  next
    fix b assume b: "b \<in> insert a as"
    show "?f b \<in> free_pages s" "?f b \<notin> free_pages u" "?f b \<notin> pt_pages u d"
      using b G(1,5) mu H(1) g(2) by (auto simp: grown_def)
    show "kmem_mem u y = 0" if "PGROUNDDOWN y = ?f b" for y
      using that b G(4) [of y] H(6) [of y] mu g(2) by (cases "b = a") (auto simp: grown_def)
  qed
qed

lemma alloc_loop_ok:
  assumes "pd_inv s d" "distinct as" "\<And>a. a \<in> set as \<Longrightarrow> a mod PGSIZE = 0 \<and> \<not> present (pte s d a)"
    "2 * length as \<le> card (free_pages s)"
    and "\<And>f t. pd_inv t d \<Longrightarrow> grown d (set as) s f t \<Longrightarrow> Q newsz t"
  shows "wp (alloc_loop dirs d oldsz newsz as) Q s"
  using assms
proof (induction as arbitrary: s)
  case Nil
  then show ?case using grown_nil by simp
next
  case (Cons a as)
  show ?case
    unfolding alloc_loop.simps wp_kbind [of kalloc]
  proof (rule grow_one [OF Cons.prems(1)])
    fix m t assume t: "pd_inv t d" "grown d {a} s (\<lambda>_. m) t" "card (free_pages s) \<le> card (free_pages t) + 2"
    show "wp (alloc_loop dirs d oldsz newsz as) Q t"
    proof (rule Cons.IH [OF t(1)])
      show "b mod PGSIZE = 0 \<and> \<not> present (pte t d b)" if "b \<in> set as" for b
        using Cons.prems(2) Cons.prems(3) [of b] that t(2) PGROUNDDOWN_id [of b] by (auto simp: grown_def)
      show "Q newsz u" if "pd_inv u d" "grown d (set as) t f u" for f u
        using Cons.prems(5) [OF that(1)] grown_trans [OF Cons.prems(1) t(2) that(2)] Cons.prems(2) by simp
    qed (use Cons.prems t in simp_all)
  qed (use Cons.prems in simp_all)
qed


lemma pages_from_nth:
  assumes "k < (unat z - unat a + 4095) div 4096" "a < z"
  shows "unat (a + of_nat k * PGSIZE) = unat a + 4096 * k" "unat a + 4096 * k < unat z"
proof -
  have "(k + 1) * 4096 \<le> (unat z - unat a + 4095) div 4096 * 4096" using assms(1) by (intro mult_le_mono1) simp
  also have "\<dots> \<le> unat z - unat a + 4095" by simp
  finally have l: "4096 * k + 1 \<le> unat z - unat a" by simp
  then show z: "unat a + 4096 * k < unat z" by simp
  have e: "of_nat k * PGSIZE = of_nat (4096 * k)" by (simp add: PGSIZE_def)
  have "unat (of_nat k * PGSIZE :: u32) = 4096 * k"
    unfolding e by (rule unat_of_nat_u32) (use l u32_lt [of z] in simp)
  then show "unat (a + of_nat k * PGSIZE) = unat a + 4096 * k"
    using unat_add_cases [of a "of_nat k * PGSIZE"] z u32_lt [of z] by auto
qed

lemma pages_from_facts:
  assumes a: "a mod PGSIZE = 0"
  shows "distinct (pages_from a z)" "set (pages_from a z) = {x. x mod PGSIZE = 0 \<and> a \<le> x \<and> x < z}"
    "length (pages_from a z) \<le> unat z div 4096 + 1"
proof -
  let ?n = "(unat z - unat a + 4095) div 4096"
  obtain q where q: "unat a = 4096 * q" using a unfolding page_mod_iff by blast
  show "distinct (pages_from a z)"
  proof (cases "a < z")
    case True
    have "inj_on (\<lambda>k. a + of_nat k * PGSIZE) {0..<?n}"
      by (rule inj_onI) (use pages_from_nth(1) [OF _ True] in \<open>metis atLeastLessThan_iff add_left_cancel mult_cancel1 zero_neq_numeral\<close>)
    then show ?thesis using True by (simp add: pages_from_def distinct_map)
  qed (simp add: pages_from_def)
  show "set (pages_from a z) = {x. x mod PGSIZE = 0 \<and> a \<le> x \<and> x < z}"
  proof (cases "a < z")
    case True
    show ?thesis
    proof (intro equalityI subsetI)
      fix x assume "x \<in> set (pages_from a z)"
      then have "x \<in> (\<lambda>k. a + of_nat k * PGSIZE) ` {0..<?n}" using True by (simp only: pages_from_def if_True set_map set_upt)
      then obtain k where k: "k < ?n" "x = a + of_nat k * PGSIZE" by (auto simp only: image_iff atLeastLessThan_iff)
      note N = pages_from_nth [OF k(1) True]
      have "unat x = 4096 * (q + k)" using N(1) k(2) q by simp
      then have "x mod PGSIZE = 0" unfolding page_mod_iff by simp
      then show "x \<in> {x. x mod PGSIZE = 0 \<and> a \<le> x \<and> x < z}" using N k(2) by (simp add: word_le_nat_alt word_less_nat_alt)
    next
      fix x assume x: "x \<in> {x. x mod PGSIZE = 0 \<and> a \<le> x \<and> x < z}"
      then obtain p where p: "unat x = 4096 * p" unfolding mem_Collect_eq page_mod_iff by blast
      have le: "q \<le> p" "4096 * p < unat z" using x p q by (simp_all add: word_le_nat_alt word_less_nat_alt)
      have "(p - q + 1) * 4096 \<le> unat z - unat a + 4095" using le q by (simp add: algebra_simps)
      then have "p - q + 1 \<le> ?n" by (simp add: less_eq_div_iff_mult_less_eq)
      then have k: "p - q < ?n" by simp
      have "unat (a + of_nat (p - q) * PGSIZE) = unat x" using pages_from_nth(1) [OF k True] le q p by simp
      then have "x = a + of_nat (p - q) * PGSIZE" by (simp add: word_unat_eq_iff)
      then have "x \<in> (\<lambda>k. a + of_nat k * PGSIZE) ` {0..<?n}" using k by (simp only: image_iff) force
      then show "x \<in> set (pages_from a z)" using True by (simp only: pages_from_def if_True set_map set_upt)
    qed
  qed (auto simp: pages_from_def)
  have "?n \<le> (unat z + 4095) div 4096" by (intro div_le_mono) simp
  also have "\<dots> \<le> unat z div 4096 + 1" using div_add1_eq [of "unat z" 4095 4096] by simp
  finally show "length (pages_from a z) \<le> unat z div 4096 + 1" by (simp add: pages_from_def)
qed

lemma PGROUNDUP_page:
  assumes "x mod PGSIZE = 0" "z < KERNBASE"
  shows "PGROUNDUP z \<le> x \<longleftrightarrow> z \<le> x"
proof -
  have z: "unat z + 4095 < 2 ^ 32" using assms(2) by (simp add: KERNBASE_def word_less_nat_alt)
  obtain p where p: "unat x = 4096 * p" using assms(1) unfolding page_mod_iff by blast
  have "unat (z + 4095) = unat z + 4095" using unat_add_cases [of z 4095] z by auto
  then have u: "unat (PGROUNDUP z) = (unat z + 4095) div 4096 * 4096" by (simp add: PGROUNDUP_DOWN unat_PGROUNDDOWN)
  have "(unat z + 4095) div 4096 \<le> p \<longleftrightarrow> unat z \<le> 4096 * p" by linarith
  then show ?thesis unfolding word_le_nat_alt u p by linarith
qed

lemma allocuvm_ok:
  assumes d: "pd_inv s d" and sz: "oldsz \<le> newsz" "newsz < KERNBASE"
    and as: "as = {a. a mod PGSIZE = 0 \<and> oldsz \<le> a \<and> a < newsz}"
    and n: "\<And>a. a \<in> as \<Longrightarrow> \<not> present (pte s d a)" and c: "2 * (unat newsz div 4096 + 1) \<le> card (free_pages s)"
    and Q: "\<And>f t. pd_inv t d \<Longrightarrow> grown d as s f t \<Longrightarrow> Q newsz t"
  shows "wp (allocuvm dirs d oldsz newsz) Q s"
proof -
  note P = pages_from_facts [OF PGROUNDUP_mod [of oldsz], of newsz]
  have oz: "oldsz < KERNBASE" using sz by simp
  have set: "set (pages_from (PGROUNDUP oldsz) newsz) = as" unfolding P(2) as
    by (rule Collect_cong, rule conj_cong [OF refl], rule conj_cong [OF PGROUNDUP_page [OF _ oz] refl])
  have "wp (alloc_loop dirs d oldsz newsz (pages_from (PGROUNDUP oldsz) newsz)) Q s"
    by (rule alloc_loop_ok [OF d P(1)]) (use n c P(3) Q as in \<open>auto simp: set\<close>)
  moreover have "\<not> KERNBASE \<le> newsz" "\<not> newsz < oldsz" using sz by simp_all
  ultimately show ?thesis by (simp add: allocuvm_def)
qed



subsection \<open>User memory\<close>

text \<open>The byte a process sees at \<open>va\<close>, if the page is mapped for the user.\<close>

definition user_ok :: "kmem \<Rightarrow> u32 \<Rightarrow> bool" where
  "user_ok s e \<longleftrightarrow> e AND PTE_P \<noteq> 0 \<and> e AND PTE_U \<noteq> 0 \<and> PTE_ADDR e \<noteq> 0 \<and> page_ok s (p2v (PTE_ADDR e))"

definition uframe :: "kmem \<Rightarrow> u32 \<Rightarrow> u32 \<Rightarrow> u32" where
  "uframe s d va = p2v (PTE_ADDR (pte s d va))"

definition ubyte :: "kmem \<Rightarrow> u32 \<Rightarrow> u32 \<Rightarrow> u8 option" where
  "ubyte s d va = (if user_ok s (pte s d va) then Some (kmem_mem s (uframe s d va + (va - PGROUNDDOWN va))) else None)"

text \<open>The frames of the user pages are allocated, are no page tables, and no two pages share one.\<close>

definition user_inv :: "kmem \<Rightarrow> u32 \<Rightarrow> bool" where
  "user_inv s d \<longleftrightarrow> pd_inv s d
     \<and> (\<forall>va. user_ok s (pte s d va) \<longrightarrow> uframe s d va \<notin> free_pages s \<and> uframe s d va \<notin> pt_pages s d)
     \<and> (\<forall>va vb. user_ok s (pte s d va) \<longrightarrow> user_ok s (pte s d vb) \<longrightarrow> uframe s d va = uframe s d vb \<longrightarrow> PGROUNDDOWN va = PGROUNDDOWN vb)"

lemma user_invD:
  assumes "user_inv s d"
  shows "pd_inv s d" "user_ok s (pte s d va) \<Longrightarrow> uframe s d va \<notin> free_pages s" "user_ok s (pte s d va) \<Longrightarrow> uframe s d va \<notin> pt_pages s d"
    "user_ok s (pte s d va) \<Longrightarrow> user_ok s (pte s d vb) \<Longrightarrow> uframe s d va = uframe s d vb \<Longrightarrow> PGROUNDDOWN va = PGROUNDDOWN vb"
    "user_ok s (pte s d va) \<Longrightarrow> uframe s d va mod PGSIZE = 0"
  using assms page_okD(1) unfolding user_inv_def user_ok_def uframe_def by blast+

lemma pte_page: "PGROUNDDOWN x = PGROUNDDOWN y \<Longrightarrow> pte s d x = pte s d y"
  by (simp add: same_page_iff pte_def ptp_def pde_def)

lemma page_of_page [simp]: "PGROUNDDOWN (PGROUNDDOWN x) = PGROUNDDOWN x"
  by (rule PGROUNDDOWN_id) simp

lemma uva2ka_eq:
  assumes "pd_inv s d"
  shows "uva2ka d va s = Ok (if user_ok s (pte s d va) then uframe s d va else 0, s)"
proof -
  have "wp (uva2ka d va) (\<lambda>r t. r = (if user_ok s (pte s d va) then uframe s d va else 0) \<and> t = s) s"
  proof (cases "present (pde s d va)")
    case True
    have e0: "ptp s d va + 4 * PTX va \<noteq> 0" by (rule entry_nonzero [OF assms True])
    have w: "load32 (ptp s d va + 4 * PTX va) (kmem_mem s) = pte s d va" using True by (simp add: pte_def)
    show ?thesis
      unfolding uva2ka_def wp_kbind walk_present [OF assms True]
      using e0 frame_ok_iff [OF pd_invD(1) [OF assms]] by (auto simp: rd32_def w user_ok_def uframe_def)
  next
    case False
    then show ?thesis
      unfolding uva2ka_def wp_kbind walk_absent [OF False] by (simp add: pte_def user_ok_def)
  qed
  then show ?thesis by (auto simp: wp_iff)
qed

lemma poke_other:
  assumes "p mod PGSIZE = 0" "unat o' + length bs \<le> 4096" "PGROUNDDOWN x \<noteq> p"
  shows "poke (p + o') bs m x = m x"
proof -
  have "\<not> unat (x - (p + o')) < length bs"
  proof
    assume l: "unat (x - (p + o')) < length bs"
    have "x - p = o' + (x - (p + o'))" by simp
    then have "unat (x - p) = unat o' + unat (x - (p + o')) \<or> unat (x - p) + 4294967296 = unat o' + unat (x - (p + o'))"
      using unat_add_cases [of o' "x - (p + o')"] by simp
    then have "unat (x - p) < 4096" using l assms(2) by linarith
    then show False using in_page_iff [OF assms(1)] assms(3) by blast
  qed
  then show ?thesis by (simp add: poke_def)
qed


lemma add_in_page:
  assumes "unat (va - PGROUNDDOWN va) + k < 4096" "unat (x - va) = k"
  shows "PGROUNDDOWN x = PGROUNDDOWN va"
proof -
  have "x - PGROUNDDOWN va = (va - PGROUNDDOWN va) + (x - va)" by simp
  then have "unat (x - PGROUNDDOWN va) < 4096"
    using unat_add_cases [of "va - PGROUNDDOWN va" "x - va"] assms by auto
  then show ?thesis using in_page_iff [OF PGROUNDDOWN_mod, of x va] by blast
qed

lemma poke_user:
  assumes u: "user_inv s d" and va: "user_ok s (pte s d va)" and fit: "unat (va - PGROUNDDOWN va) + length cs \<le> 4096"
    and t: "t = s\<lparr>kmem_mem := poke (uframe s d va + (va - PGROUNDDOWN va)) cs (kmem_mem s)\<rparr>"
  shows "user_inv t d" "pte t d = pte s d" "page_ok t = page_ok s" "free_pages t = free_pages s"
    "ubyte t d x = (if unat (x - va) < length cs then Some (cs ! unat (x - va)) else ubyte s d x)"
proof -
  note U = user_invD [OF u]
  let ?p = "uframe s d va"
  show ok: "page_ok t = page_ok s" "free_pages t = free_pages s" using pg.set_frees by (simp_all add: t)
  have out: "kmem_mem t y = kmem_mem s y" if "PGROUNDDOWN y \<noteq> ?p" for y
    using poke_other [OF U(5) [OF va] fit that] by (simp add: t)
  have "PGROUNDDOWN y \<notin> free_pages s" if "kmem_mem t y \<noteq> kmem_mem s y" for y
    using that out [of y] U(2) [OF va] by metis
  then have it: "kmem_inv t" unfolding t by (intro pg.set_alloc [OF pd_invD(1) [OF U(1)]]) simp
  have eq: "kmem_mem t y = kmem_mem s y" if "PGROUNDDOWN y \<in> pt_pages s d" for y
    by (rule out) (use that U(3) [OF va] in auto)
  have sub: "free_pages t \<subseteq> free_pages s" using ok(2) by simp
  have F: "pd_inv t d" "pte t d = pte s d" "pt_pages t d = pt_pages s d"
    using pd_frame [OF U(1) it ok(1) sub] eq by blast+
  show pt: "pte t d = pte s d" by (rule F(2))
  have uo: "user_ok t e = user_ok s e" "uframe t d y = uframe s d y" for e y by (simp_all add: user_ok_def ok uframe_def pt)
  show "user_inv t d" using u F(1) unfolding user_inv_def uo pt ok F(3) by (elim conjE, intro conjI)
  show "ubyte t d x = (if unat (x - va) < length cs then Some (cs ! unat (x - va)) else ubyte s d x)"
  proof (cases "PGROUNDDOWN x = PGROUNDDOWN va")
    case True
    have f: "uframe s d x = ?p" "pte s d x = pte s d va" using pte_page [OF True, of s d] by (simp_all add: uframe_def)
    have e: "?p + (x - PGROUNDDOWN va) - (?p + (va - PGROUNDDOWN va)) = x - va" by simp
    show ?thesis using va unfolding ubyte_def uo pt f True by (simp add: t poke_def e)
  next
    case False
    have l: "\<not> unat (x - va) < length cs" using add_in_page [OF _ refl, of va x] fit False by linarith
    have "PGROUNDDOWN (uframe s d x + (x - PGROUNDDOWN x)) = uframe s d x" if "user_ok s (pte s d x)"
      by (rule iffD1 [OF in_page_iff [OF U(5) [OF that]]]) (simp add: page_offset(2))
    moreover have "uframe s d x \<noteq> ?p" if "user_ok s (pte s d x)" using U(4) [OF that va] False by blast
    ultimately show ?thesis using l out unfolding ubyte_def uo pt by auto
  qed
qed

lemma copyout_ok:
  assumes "user_inv s d" "unat va + length bs \<le> 2 ^ 32" "\<And>k. k < length bs \<Longrightarrow> user_ok s (pte s d (va + of_nat k))"
    and "\<And>t. user_inv t d \<Longrightarrow> pte t d = pte s d \<Longrightarrow> page_ok t = page_ok s \<Longrightarrow> free_pages t = free_pages s \<Longrightarrow>
      (\<And>x. ubyte t d x = (if unat (x - va) < length bs then Some (bs ! unat (x - va)) else ubyte s d x)) \<Longrightarrow> Q 0 t"
  shows "wp (copyout d va bs) Q s"
  using assms
proof (induction d va bs arbitrary: s rule: copyout.induct)
  case (1 d va bs)
  show ?case
  proof (cases "bs = []")
    case True
    then show ?thesis using "1.prems"(1) "1.prems"(4) [of s] by (simp add: copyout.simps)
  next
    case False
    note U = user_invD [OF "1.prems"(1)]
    let ?va0 = "PGROUNDDOWN va" and ?off = "va - PGROUNDDOWN va"
    obtain n where n: "n = min (4096 - unat ?off) (length bs)" by blast
    have n1: "0 < n" "n \<le> length bs" "unat ?off + n \<le> 4096" using n False page_offset(2) [of va] by auto
    have va: "user_ok s (pte s d va)" using "1.prems"(3) [of 0] False by simp
    have va0: "pte s d ?va0 = pte s d va" "uframe s d ?va0 = uframe s d va" by (simp_all add: uframe_def pte_page [of ?va0 va])
    have pa0: "uframe s d va \<noteq> 0" using page_okD(4) va by (auto simp: user_ok_def uframe_def)
    define t where "t = s\<lparr>kmem_mem := poke (uframe s d va + ?off) (take n bs) (kmem_mem s)\<rparr>"
    have ln: "length (take n bs) = n" using n1(2) by simp
    note P = poke_user [OF "1.prems"(1) va _ t_def, unfolded ln, OF n1(3)]
    have rest: "wp (copyout d (?va0 + PGSIZE) (drop n bs)) Q t"
    proof (cases "n = length bs")
      case True
      then show ?thesis using "1.prems"(4) [OF P(1-4)] P(5) by (simp add: copyout.simps)
    next
      case lt: False
      then have no: "n = 4096 - unat ?off" using n by simp
      have nx: "?va0 + PGSIZE = va + of_nat n"
      proof -
        have "of_nat n = (4096 - ?off :: u32)" using page_offset(2) [of va] by (simp add: no of_nat_diff)
        then show ?thesis by (simp add: PGSIZE_def)
      qed
      have un: "unat (va + of_nat n) = unat va + n"
      proof -
        have "unat va + n < 2 ^ 32" "unat (of_nat n :: u32) = n"
          using "1.prems"(2) lt n1(2,3) by (auto intro: unat_of_nat_u32)
        then show ?thesis using unat_add_cases [of va "of_nat n"] by auto
      qed
      show ?thesis
        unfolding nx
      proof (rule "1.IH" [OF False refl n, unfolded nx, of "uframe s d va"])
        show "\<not> uframe s d va = 0" by (rule pa0)
        show "user_inv t d" by (rule P(1))
        show "unat (va + of_nat n) + length (drop n bs) \<le> 2 ^ 32" using un "1.prems"(2) n1(2) by simp
        fix k assume k: "k < length (drop n bs)"
        show "user_ok t (pte t d (va + of_nat n + of_nat k))"
          using "1.prems"(3) [of "n + k"] k P(2,3) by (simp add: user_ok_def add.assoc)
      next
        fix u
        assume u: "user_inv u d" "pte u d = pte t d" "page_ok u = page_ok t" "free_pages u = free_pages t"
          "\<And>x. ubyte u d x = (if unat (x - (va + of_nat n)) < length (drop n bs)
             then Some (drop n bs ! unat (x - (va + of_nat n))) else ubyte t d x)"
        show "Q 0 u"
        proof (rule "1.prems"(4) [OF u(1)])
          fix x
          have c: "unat (x - va) = unat (x - (va + of_nat n)) + n \<or> unat (x - va) + 4294967296 = unat (x - (va + of_nat n)) + n"
          proof -
            have "x - va = (x - (va + of_nat n)) + of_nat n" "unat (of_nat n :: u32) = n"
              using n1(3) by (auto intro: unat_of_nat_u32)
            then show ?thesis using unat_add_cases [of "x - (va + of_nat n)" "of_nat n"] by (auto simp del: diff_add_cancel)
          qed
          have big: "unat (x - (va + of_nat n)) < length bs - n \<Longrightarrow> unat (x - (va + of_nat n)) + n < 4294967296"
            using "1.prems"(2) by simp
          show "ubyte u d x = (if unat (x - va) < length bs then Some (bs ! unat (x - va)) else ubyte s d x)"
            using c big n1(2) u32_lt [of "x - (va + of_nat n)"] by (auto simp: u(5) P(5) add.commute)
        qed (use u P in simp_all)
      qed
    qed
    have off: "?va0 - ?va0 = 0" by simp
    show ?thesis
      using False rest pa0 va uva2ka_eq [OF U(1), of ?va0]
      by (subst copyout.simps) (simp add: Let_def va0 on_mem_def wp_def [of "uva2ka d ?va0"] flip: n t_def)
  qed
qed



subsection \<open>Isolation\<close>

text \<open>All pages a page directory reaches for its user.\<close>

definition owned :: "kmem \<Rightarrow> u32 \<Rightarrow> u32 set" where
  "owned s d = pt_pages s d \<union> {uframe s d va |va. user_ok s (pte s d va)}"

lemma user_entry_facts:
  assumes "page_ok s v" "\<not> page_ok s KERNBASE"
  shows "user_ok s (user_entry v)" "PTE_ADDR (user_entry v) = v2p v"
proof -
  note V = v2p_page [OF assms]
  show a: "PTE_ADDR (user_entry v) = v2p v" unfolding user_entry_def by (rule PTE_ADDR_or [OF V(2)]) simp
  have "user_entry v AND PTE_P = PTE_P" "user_entry v AND PTE_U = PTE_U"
    unfolding user_entry_def by (rule bit_word_eqI, auto simp: bit_simps)+
  then show "user_ok s (user_entry v)" using a V(1) assms(1) by (simp add: user_ok_def PTE_P_def PTE_U_def)
qed

lemma grown_user:
  assumes u: "user_inv s d" and g: "grown d as s f t" and t: "pd_inv t d"
  shows "user_inv t d"
proof -
  note U = user_invD [OF u]
  have G: "\<And>a. a \<in> as \<Longrightarrow> f a \<in> free_pages s \<and> f a \<notin> free_pages t \<and> f a \<notin> pt_pages t d" "inj_on f as"
    "page_ok t = page_ok s" "free_pages t \<subseteq> free_pages s" "pt_pages t d \<subseteq> pt_pages s d \<union> free_pages s"
    "\<And>x. pte t d x = (if PGROUNDDOWN x \<in> as then user_entry (f (PGROUNDDOWN x)) else pte s d x)"
    using g unfolding grown_def by blast+
  have uo: "user_ok t e = user_ok s e" for e by (simp add: user_ok_def G(3))
  have fr: "uframe t d x = (if PGROUNDDOWN x \<in> as then f (PGROUNDDOWN x) else uframe s d x)" for x
    using user_entry_facts(2) [of s "f (PGROUNDDOWN x)"] G(1) pd_invD(12) [OF U(1)]
    by (auto simp: uframe_def G(6) free_pages_def)
  show ?thesis
    unfolding user_inv_def uo
  proof (intro conjI allI impI)
    show "pd_inv t d" by (rule t)
    fix x assume x: "user_ok s (pte t d x)"
    show "uframe t d x \<notin> free_pages t" "uframe t d x \<notin> pt_pages t d"
      using x G(1,4,5) U(2,3) [of x] unfolding fr by (auto simp: G(6) split: if_splits)
    fix y assume y: "user_ok s (pte t d y)" "uframe t d x = uframe t d y"
    have ne: "uframe s d z \<noteq> f a" if "user_ok s (pte s d z)" "a \<in> as" for z a using U(2) [OF that(1)] G(1) [OF that(2)] by auto
    show "PGROUNDDOWN x = PGROUNDDOWN y"
    proof (cases "PGROUNDDOWN x \<in> as")
      case True
      then have "PGROUNDDOWN y \<in> as" using y ne [of y "PGROUNDDOWN x"] unfolding fr by (auto simp: G(6) split: if_splits)
      then show ?thesis using True y(2) inj_onD [OF G(2)] unfolding fr by simp
    next
      case False
      then have "user_ok s (pte s d x)" "PGROUNDDOWN y \<notin> as"
        using x y ne [of x "PGROUNDDOWN y"] unfolding fr by (auto simp: G(6) split: if_splits)
      then show ?thesis using False y U(4) [of x y] unfolding fr by (simp add: G(6))
    qed
  qed
qed

text \<open>What happens outside the pages of a process does not change what it sees.\<close>

lemma ubyte_cong:
  assumes e: "user_inv s e" and t: "kmem_inv t" "page_ok t = page_ok s" "free_pages t \<subseteq> free_pages s"
    and m: "\<And>x. PGROUNDDOWN x \<in> owned s e \<Longrightarrow> kmem_mem t x = kmem_mem s x"
  shows "ubyte t e x = ubyte s e x"
proof -
  note E = user_invD [OF e]
  have p: "pte t e = pte s e" using pd_frame(2) [OF E(1) t] m by (auto simp: owned_def)
  have uo: "user_ok t w = user_ok s w" "uframe t e x = uframe s e x" for w by (simp_all add: user_ok_def t(2) uframe_def p)
  have "kmem_mem t (uframe s e x + (x - PGROUNDDOWN x)) = kmem_mem s (uframe s e x + (x - PGROUNDDOWN x))"
    if "user_ok s (pte s e x)"
  proof (rule m)
    have "PGROUNDDOWN (uframe s e x + (x - PGROUNDDOWN x)) = uframe s e x"
      by (rule iffD1 [OF in_page_iff [OF E(5) [OF that]]]) (simp add: page_offset(2))
    then show "PGROUNDDOWN (uframe s e x + (x - PGROUNDDOWN x)) \<in> owned s e" using that by (auto simp: owned_def)
  qed
  then show ?thesis by (simp add: ubyte_def uo p)
qed

lemma owned_alloc: "user_inv s e \<Longrightarrow> v \<in> owned s e \<Longrightarrow> v \<notin> free_pages s"
  unfolding owned_def using pt_pages_alloc [OF user_invD(1)] user_invD(2) by blast

end
