(* ===== verification/VmSafe.thy ===== *)
theory VmSafe
  imports VmSpec
begin

text \<open>
  The properties of page tables: \<open>mappages\<close> refines an update of the map from pages to entries,
  \<open>allocuvm\<close> and \<open>copyout\<close> change what the one process sees and nothing any other sees, and the lowest
  four pages of a process are never released, from which a process can make the kernel panic.
\<close>

unbundle bit_operations_syntax


subsection \<open>An example\<close>

text \<open>Five pages of memory, the first a page directory without entries, the others free.\<close>

definition demo_vm0 :: kmem where
  "demo_vm0 = \<lparr>kend = 0x80001000, phystop = 0x6000, page_state = (\<lambda>_. PAGE_ALLOC),
     freelist = 0, nfree = 0, freelist_shadow = 0, nfree_shadow = 0, kmem_mem = (\<lambda>_. 0)\<rparr>"

definition after :: "('s, 'a) kop \<Rightarrow> 's \<Rightarrow> 's" where
  "after m s = (case m s of Ok (_, t) \<Rightarrow> t | _ \<Rightarrow> s)"

definition demo_vm :: kmem where
  "demo_vm = after (kthen (kfree 0x80002000) (kthen (kfree 0x80003000) (kthen (kfree 0x80004000) (kfree 0x80005000)))) demo_vm0"

abbreviation demo_pd :: u32 where "demo_pd \<equiv> 0x80001000"

lemma demo_vm0_facts:
  "kmem_inv demo_vm0" "free_pages demo_vm0 = {}"
  "page_ok demo_vm0 0x80001000" "page_ok demo_vm0 0x80002000" "page_ok demo_vm0 0x80003000"
  "page_ok demo_vm0 0x80004000" "page_ok demo_vm0 0x80005000" "\<not> page_ok demo_vm0 KERNBASE"
proof -
  show f: "free_pages demo_vm0 = {}" by (simp add: free_pages_def demo_vm0_def)
  have "kenv demo_vm0" by (simp add: kenv_def demo_vm0_def KERNBASE_def v2p_def PHYSTOP_def ptop_def)
  then have "kmem_list demo_vm0 []" using f by (simp add: kmem_list_def) (simp add: demo_vm0_def)
  then show "kmem_inv demo_vm0" unfolding kmem_inv_def by blast
qed (simp_all add: page_ok_def run_ptr_valid_def demo_vm0_def PGSIZE_def ptop_def v2p_def KERNBASE_def)

lemma wp_after: "wp m (\<lambda>_. Q) s \<Longrightarrow> Q (after m s)"
  by (auto simp: wp_iff after_def)

lemma demo_vm_facts:
  "kmem_inv demo_vm" "page_ok demo_vm = page_ok demo_vm0" "free_pages demo_vm = {0x80002000, 0x80003000, 0x80004000, 0x80005000}"
  "PGROUNDDOWN x = demo_pd \<Longrightarrow> kmem_mem demo_vm x = 0"
proof -
  let ?P = "\<lambda>F t. kmem_inv t \<and> page_ok t = page_ok demo_vm0 \<and> free_pages t = F \<and> (\<forall>x. PGROUNDDOWN x = demo_pd \<longrightarrow> kmem_mem t x = 0)"
  have step: "wp (kfree v) (\<lambda>_. Q) s" if "?P F s" "page_ok demo_vm0 v" "v \<notin> F" "v \<noteq> demo_pd" "\<And>t. ?P (insert v F) t \<Longrightarrow> Q t" for v F s Q
    by (rule pg.free_rule) (use that in auto)
  have "?P {} demo_vm0" using demo_vm0_facts by (simp add: demo_vm0_def)
  then have "wp (kthen (kfree 0x80002000) (kthen (kfree 0x80003000) (kthen (kfree 0x80004000) (kfree 0x80005000))))
      (\<lambda>_. ?P {0x80005000, 0x80004000, 0x80003000, 0x80002000}) demo_vm0"
    unfolding wp_kthen
    by (rule step, simp_all add: demo_vm0_facts)
       (rule step, assumption, simp_all add: demo_vm0_facts, rule step, assumption, simp_all add: demo_vm0_facts,
        rule step, assumption, simp_all add: demo_vm0_facts)
  from wp_after [OF this] show "kmem_inv demo_vm" "page_ok demo_vm = page_ok demo_vm0"
    "free_pages demo_vm = {0x80002000, 0x80003000, 0x80004000, 0x80005000}" "PGROUNDDOWN x = demo_pd \<Longrightarrow> kmem_mem demo_vm x = 0"
    unfolding demo_vm_def by auto
qed


lemma demo_pd_empty: "pde demo_vm demo_pd va = 0" "pte demo_vm demo_pd va = 0"
proof -
  have d: "demo_pd mod PGSIZE = 0" by (simp add: PGSIZE_def)
  have "pde demo_vm demo_pd va = load32 (demo_pd + 4 * PDX va) (\<lambda>_. 0)"
    unfolding pde_def by (rule load_entry_cong [OF d PDX_lt]) (rule demo_vm_facts(4))
  then show p: "pde demo_vm demo_pd va = 0" by (simp add: load32_def)
  then show "pte demo_vm demo_pd va = 0" by (simp add: pte_def)
qed

lemma demo_user_inv: "user_inv demo_vm demo_pd"
  unfolding user_inv_def pd_inv_def
  using demo_vm_facts(1-3) demo_vm0_facts by (simp add: demo_pd_empty user_ok_def)


subsection \<open>Mapping\<close>

text \<open>
  C12. \<open>mappages\<close> implements an update of the map from pages to page-table entries. On a range of pages that are not
  mapped it returns 0 and the new map is the old one with the pages of the range sent to consecutive
  frames with the given permissions, or it returns -1 because no page is left for a page table. In
  both cases the page directory stays well-formed, and no memory changes but that of its page tables.
\<close>

theorem mappages_refines:
  assumes "pd_inv s d" "n = unat ((PGROUNDDOWN (va + sz - 1) - PGROUNDDOWN va) div PGSIZE)"
    "\<And>x. in_range (PGROUNDDOWN va) n x \<Longrightarrow> \<not> present (pte s d x)"
  shows "wp (mappages d va sz pa perm) (\<lambda>r t. pd_inv t d \<and> pt_step d s t \<and>
     (r = 0 \<and> pte t d = map_range (PGROUNDDOWN va) n pa perm (pte s d) \<or> r = - 1 \<and> free_pages t = {})) s"
  by (rule mappages_fresh [OF assms]) simp_all

theorem mappages_refines_witness:
  "wp (mappages demo_pd 0x1000 0x2000 0x3000 PTE_W) (\<lambda>r t. pd_inv t demo_pd \<and> pt_step demo_pd demo_vm t \<and>
     (r = 0 \<and> pte t demo_pd = map_range 0x1000 1 0x3000 PTE_W (pte demo_vm demo_pd) \<or> r = - 1 \<and> free_pages t = {})) demo_vm"
proof -
  have p: "PGROUNDDOWN 0x1000 = 0x1000" "PGROUNDDOWN (0x1000 + 0x2000 - 1) = 0x2000"
    by (simp_all add: PGROUNDDOWN_def PGSIZE_def)
  have n: "1 = unat ((PGROUNDDOWN (0x1000 + 0x2000 - 1) - PGROUNDDOWN 0x1000) div PGSIZE)"
    unfolding p by (simp add: PGSIZE_def)
  show ?thesis
    using mappages_refines [OF user_invD(1) [OF demo_user_inv] n, of "0x3000" PTE_W] unfolding p(1)
    by (simp add: demo_pd_empty(2))
qed

text \<open>
  C9. Growing a process. With enough free pages \<open>allocuvm\<close> returns the new size; every page between the old and
  the new size is then mapped for the user to a cleared frame of its own that was free, the rest of the address space is
  as before, and no other process notices: if its pages are not among the page tables of the one
  that grows, every byte it sees is unchanged.
\<close>

theorem allocuvm_isolated:
  assumes u: "user_inv s d" and sz: "oldsz \<le> newsz" "newsz < KERNBASE"
    and as: "as = {a. a mod PGSIZE = 0 \<and> oldsz \<le> a \<and> a < newsz}"
    and n: "\<And>a. a \<in> as \<Longrightarrow> \<not> present (pte s d a)" and c: "2 * (unat newsz div 4096 + 1) \<le> card (free_pages s)"
  shows "wp (allocuvm dirs d oldsz newsz) (\<lambda>r t. r = newsz \<and> user_inv t d
      \<and> (\<forall>x. PGROUNDDOWN x \<in> as \<longrightarrow> ubyte t d x = Some 0)
      \<and> (\<forall>x. PGROUNDDOWN x \<notin> as \<longrightarrow> ubyte t d x = ubyte s d x)
      \<and> (\<forall>e x. user_inv s e \<longrightarrow> owned s e \<inter> pt_pages s d = {} \<longrightarrow> ubyte t e x = ubyte s e x)) s"
proof (rule allocuvm_ok [OF user_invD(1) [OF u] sz as n c])
  fix f t assume t: "pd_inv t d" "grown d as s f t"
  note U = user_invD [OF u] and V = user_invD [OF grown_user [OF u t(2,1)]]
  have G: "\<And>a. a \<in> as \<Longrightarrow> f a \<in> free_pages s \<and> (\<forall>y. PGROUNDDOWN y = f a \<longrightarrow> kmem_mem t y = 0)"
    "page_ok t = page_ok s" "free_pages t \<subseteq> free_pages s" "pt_pages t d \<subseteq> pt_pages s d \<union> free_pages s"
    "\<And>x. pte t d x = (if PGROUNDDOWN x \<in> as then user_entry (f (PGROUNDDOWN x)) else pte s d x)"
    "\<And>y. PGROUNDDOWN y \<notin> pt_pages t d \<union> f ` as \<Longrightarrow> kmem_mem t y = kmem_mem s y"
    using t(2) unfolding grown_def by blast+
  have fa: "f ` as \<subseteq> free_pages s" using G(1) by auto
  have same: "kmem_mem t y = kmem_mem s y" if "PGROUNDDOWN y \<notin> pt_pages s d" "PGROUNDDOWN y \<notin> free_pages s" for y
    by (rule G(6)) (use that G(4) fa in auto)
  have fp: "PGROUNDDOWN (uframe t d x + (x - PGROUNDDOWN x)) = uframe t d x" if "user_ok t (pte t d x)" for x
    by (rule iffD1 [OF in_page_iff [OF V(5) [OF that]]]) (simp add: page_offset(2))
  have new: "ubyte t d x = Some 0" if x: "PGROUNDDOWN x \<in> as" for x
  proof -
    have "page_ok t (f (PGROUNDDOWN x))" "\<not> page_ok t KERNBASE"
      using G(1) [OF x] G(2) pd_invD(12) [OF U(1)] by (auto simp: free_pages_def)
    from user_entry_facts [OF this] have "user_ok t (pte t d x)" "uframe t d x = f (PGROUNDDOWN x)"
      using x by (simp_all add: G(5) uframe_def)
    then show ?thesis using fp [of x] G(1) [OF x] by (simp add: ubyte_def)
  qed
  have old: "ubyte t d x = ubyte s d x" if x: "PGROUNDDOWN x \<notin> as" for x
  proof -
    have e: "pte t d x = pte s d x" "uframe t d x = uframe s d x" "user_ok t = user_ok s"
      using x by (simp_all add: G(5) uframe_def user_ok_def fun_eq_iff G(2))
    show ?thesis using same fp [of x] U(2,3) [of x] unfolding ubyte_def e by auto
  qed
  have "ubyte t e x = ubyte s e x" if "user_inv s e" "owned s e \<inter> pt_pages s d = {}" for e x
    by (rule ubyte_cong [OF that(1) pd_invD(1) [OF t(1)] G(2,3)], rule same)
       (use that(2) owned_alloc [OF that(1)] in auto)
  then show "newsz = newsz \<and> user_inv t d \<and> (\<forall>x. PGROUNDDOWN x \<in> as \<longrightarrow> ubyte t d x = Some 0)
      \<and> (\<forall>x. PGROUNDDOWN x \<notin> as \<longrightarrow> ubyte t d x = ubyte s d x)
      \<and> (\<forall>e x. user_inv s e \<longrightarrow> owned s e \<inter> pt_pages s d = {} \<longrightarrow> ubyte t e x = ubyte s e x)"
    using grown_user [OF u t(2,1)] new old by blast
qed

lemma demo_room: "2 * (unat (0x1000 :: u32) div 4096 + 1) \<le> card (free_pages demo_vm)"
  by (simp add: demo_vm_facts(3))

theorem allocuvm_isolated_witness:
  "wp (allocuvm [] demo_pd 0 0x1000) (\<lambda>r t. r = 0x1000 \<and> user_inv t demo_pd \<and> ubyte t demo_pd 0x123 = Some 0
      \<and> ubyte t demo_pd 0x1000 = None) demo_vm"
proof -
  let ?as = "{a :: u32. a mod PGSIZE = 0 \<and> 0 \<le> a \<and> a < 0x1000}"
  have p: "PGROUNDDOWN 0x123 = 0" "PGROUNDDOWN 0x1000 = 0x1000" by (simp_all add: PGROUNDDOWN_def PGSIZE_def)
  have "ubyte demo_vm demo_pd 0x1000 = None" by (simp add: ubyte_def demo_pd_empty user_ok_def)
  moreover have "PGROUNDDOWN 0x123 \<in> ?as" "PGROUNDDOWN 0x1000 \<notin> ?as" unfolding p by (simp_all add: PGSIZE_def)
  ultimately show ?thesis
    by (intro wp_mono [OF allocuvm_isolated [OF demo_user_inv _ _ refl _ demo_room]])
       (auto simp: KERNBASE_def demo_pd_empty(2))
qed



subsection \<open>Copying to user memory\<close>

text \<open>
  C29. \<open>copyout\<close> to a range that is mapped for the user returns 0, and the process then sees the bytes at the given
  address and everything else as before; a range whose first page is not mapped is refused, with no effect.
\<close>

theorem copyout_writes:
  assumes u: "user_inv s d" and r: "unat va + length bs \<le> 2 ^ 32"
  shows "((\<forall>k < length bs. user_ok s (pte s d (va + of_nat k))) \<longrightarrow>
       wp (copyout d va bs) (\<lambda>r t. r = 0 \<and> user_inv t d \<and>
         (\<forall>x. ubyte t d x = (if unat (x - va) < length bs then Some (bs ! unat (x - va)) else ubyte s d x))) s)
    \<and> (bs \<noteq> [] \<longrightarrow> \<not> user_ok s (pte s d va) \<longrightarrow> copyout d va bs s = Ok (- 1, s))"
proof (intro conjI impI)
  assume m: "\<forall>k < length bs. user_ok s (pte s d (va + of_nat k))"
  show "wp (copyout d va bs) (\<lambda>r t. r = 0 \<and> user_inv t d \<and>
      (\<forall>x. ubyte t d x = (if unat (x - va) < length bs then Some (bs ! unat (x - va)) else ubyte s d x))) s"
    by (rule copyout_ok [OF u r]) (use m in auto)
next
  assume n: "bs \<noteq> []" "\<not> user_ok s (pte s d va)"
  have "pte s d (PGROUNDDOWN va) = pte s d va" by (rule pte_page) simp
  then show "copyout d va bs s = Ok (- 1, s)"
    using n uva2ka_eq [OF user_invD(1) [OF u], of "PGROUNDDOWN va"]
    by (subst copyout.simps) (simp add: Let_def kbind_def kreturn_def)
qed

lemma grown_page: "grown d as s f t \<Longrightarrow> a \<in> as \<Longrightarrow> page_ok t (f a)"
  unfolding grown_def free_pages_def by auto

lemma demo_grown:
  obtains t where "allocuvm [] demo_pd 0 0x1000 demo_vm = Ok (0x1000, t)" "user_inv t demo_pd"
    "user_ok t (pte t demo_pd 0)" "\<not> user_ok t (pte t demo_pd 0x1000)" "free_pages t \<noteq> {}"
proof -
  have P: "pages_from (PGROUNDUP 0) 0x1000 = [0]" by (simp add: pages_from_def PGROUNDUP_def PGSIZE_def)
  have "wp (allocuvm [] demo_pd 0 0x1000) (\<lambda>r t. r = 0x1000 \<and> (\<exists>m. pd_inv t demo_pd \<and> grown demo_pd {0} demo_vm (\<lambda>_. m) t
      \<and> card (free_pages demo_vm) \<le> card (free_pages t) + 2)) demo_vm"
    unfolding allocuvm_def P alloc_loop.simps
    by (subst if_not_P, simp add: KERNBASE_def, subst if_not_P, simp, subst wp_kbind, rule grow_one [OF user_invD(1) [OF demo_user_inv]])
       (auto simp: demo_pd_empty(2) demo_vm_facts(3))
  then obtain t m where t: "allocuvm [] demo_pd 0 0x1000 demo_vm = Ok (0x1000, t)" "pd_inv t demo_pd"
      and g: "grown demo_pd {0} demo_vm (\<lambda>_. m) t" and c: "card (free_pages demo_vm) \<le> card (free_pages t) + 2" by (auto simp: wp_iff)
  have ui: "user_inv t demo_pd" by (rule grown_user [OF demo_user_inv g t(2)])
  have p: "PGROUNDDOWN 0x1000 = 0x1000" by (simp add: PGROUNDDOWN_def PGSIZE_def)
  have e: "pte t demo_pd x = (if PGROUNDDOWN x = 0 then user_entry m else 0)" for x
    using g by (simp add: grown_def demo_pd_empty)
  have "page_ok t m" by (rule grown_page [OF g]) simp
  then have "user_ok t (user_entry m)" by (rule user_entry_facts(1)) (rule pd_invD(12) [OF t(2)])
  then have ok: "user_ok t (pte t demo_pd 0)" by (simp add: e PGROUNDDOWN_def)
  have bad: "\<not> user_ok t (pte t demo_pd 0x1000)" by (simp add: e p user_ok_def)
  have "free_pages t \<noteq> {}" using c by (auto simp: demo_vm_facts(3))
  then show thesis by (rule that [OF t(1) ui ok bad])
qed

theorem copyout_writes_witness:
  "\<exists>t. allocuvm [] demo_pd 0 0x1000 demo_vm = Ok (0x1000, t)
     \<and> wp (copyout demo_pd 0x10 [1, 2, 3]) (\<lambda>r u. r = 0 \<and> ubyte u demo_pd 0x11 = Some 2 \<and> ubyte u demo_pd 0x13 = ubyte t demo_pd 0x13) t
     \<and> copyout demo_pd 0x1000 [1] t = Ok (- 1, t)"
proof -
  obtain t where t: "allocuvm [] demo_pd 0 0x1000 demo_vm = Ok (0x1000, t)" and ui: "user_inv t demo_pd"
      and p: "user_ok t (pte t demo_pd 0)" "\<not> user_ok t (pte t demo_pd 0x1000)" by (rule demo_grown) blast
  have "PGROUNDDOWN (0x10 + of_nat k) = 0" if "k < 3" for k
    by (rule iffD1 [OF in_page_iff]) (use that in \<open>auto simp: PGSIZE_def less_Suc_eq numeral_3_eq_3\<close>)
  then have ok: "user_ok t (pte t demo_pd (0x10 + of_nat k))" if "k < 3" for k
    using p(1) that pte_page [of "0x10 + of_nat k" 0 t demo_pd] by (simp add: PGROUNDDOWN_def)
  have "wp (copyout demo_pd 0x10 [1, 2, 3]) (\<lambda>r u. r = 0 \<and> ubyte u demo_pd 0x11 = Some 2 \<and> ubyte u demo_pd 0x13 = ubyte t demo_pd 0x13) t"
    by (rule wp_mono [OF mp [OF conjunct1 [OF copyout_writes [OF ui]]]]) (use ok in auto)
  moreover have "copyout demo_pd 0x1000 [1] t = Ok (- 1, t)"
    using copyout_writes [OF ui, of "0x1000" "[1]"] p(2) by simp
  ultimately show ?thesis using t by blast
qed


subsection \<open>The lowest four pages\<close>

lemma dealloc_low:
  assumes "oldsz \<le> 0x4000" "a \<le> 0x4000"
  shows "dealloc_loop dirs d oldsz a s = Ok ((), s)"
  using assms
proof (induction "0x5000 - unat a" arbitrary: a rule: less_induct)
  case less
  show ?case
  proof (cases "a < oldsz")
    case True
    have a: "unat a < 0x4000" using True less.prems(1) by (simp add: word_less_nat_alt word_le_nat_alt)
    have u: "unat (a + PGSIZE) = unat a + 4096"
      using unat_add_cases [of a PGSIZE] a u32_lt [of "a + PGSIZE"] by (auto simp: PGSIZE_def)
    have c: "a < 0x4000" "\<not> a + PGSIZE \<le> a" using a u by (simp_all add: word_less_nat_alt word_le_nat_alt)
    have "dealloc_loop dirs d oldsz a s = dealloc_loop dirs d oldsz (a + PGSIZE) s"
      using True c by (subst dealloc_loop.simps) (simp add: dealloc_one_def kbind_def kreturn_def)
    also have "\<dots> = Ok ((), s)"
    proof (cases "a + PGSIZE \<le> 0x4000")
      case le: True
      show ?thesis by (rule less.hyps) (use u a le less.prems(1) in simp_all)
    next
      case False
      then have "\<not> a + PGSIZE < oldsz" using less.prems(1) by simp
      then show ?thesis by (subst dealloc_loop.simps) simp
    qed
    finally show ?thesis .
  next
    case False
    then show ?thesis by (subst dealloc_loop.simps) simp
  qed
qed

lemma PTE_ADDR_flags: "PTE_ADDR (w AND NOT (PTE_A OR PTE_D)) = PTE_ADDR w"
proof -
  have "NOT (PTE_A OR PTE_D) AND NOT 0xFFF = (NOT 0xFFF :: u32)" by (simp add: PTE_A_def PTE_D_def)
  then show ?thesis unfolding PTE_ADDR_def by (simp add: and.assoc)
qed

lemma alloc_taken:
  assumes u: "user_inv s d" and a: "a mod PGSIZE = 0" "a < KERNBASE" "user_ok s (pte s d a)" and f: "free_pages s \<noteq> {}"
  shows "alloc_loop dirs d oldsz newsz (a # as) s = Panic ''remap''"
proof -
  note U = user_invD [OF u] and D = pd_invD [OF user_invD(1) [OF u]]
  have "wp kalloc (\<lambda>m t. m \<in> free_pages s \<and> m \<noteq> 0 \<and> kmem_inv t \<and> kmem_mem t = kmem_mem s \<and> page_ok t = page_ok s
      \<and> free_pages t = free_pages s - {m}) s"
    by (rule pg.alloc_rule [OF D(1)]) (use f in auto)
  then obtain m t where m: "kalloc s = Ok (m, t)" "m \<in> free_pages s" "m \<noteq> 0"
      and t: "kmem_inv t" "kmem_mem t = kmem_mem s" "page_ok t = page_ok s" "free_pages t = free_pages s - {m}"
    by (auto simp: wp_iff)
  have mm: "m mod PGSIZE = 0" using m(2) by (auto simp: free_pages_def dest: page_okD(1))
  let ?v = "t\<lparr>kmem_mem := memset m 0 PGSIZE (kmem_mem t)\<rparr>"
  have out: "kmem_mem ?v x = kmem_mem s x" if "PGROUNDDOWN x \<noteq> m" for x
    using memset_page_other [OF mm that] t(2) by simp
  have v: "kmem_inv ?v" by (rule pg.set_alloc [OF t(1)]) (use out t(2,4) in auto)
  have ok: "page_ok ?v = page_ok s" "free_pages ?v = free_pages s - {m}" using pg.set_frees t(3,4) by simp_all
  have "kmem_mem ?v x = kmem_mem s x" if "PGROUNDDOWN x \<in> pt_pages s d" for x
    by (rule out) (use that pt_pages_alloc [OF U(1)] m(2) in blast)
  note P = pd_frame [OF U(1) v ok(1) _ this, unfolded ok(2), simplified]
  have pe: "present (pte ?v d a)" using a(3) P(2) by (simp add: user_ok_def present_def)
  then have pd: "present (pde ?v d a)" by (simp add: pte_def present_def split: if_splits)
  have ne: "PTE_ADDR (pte ?v d a) \<noteq> v2p m"
  proof
    assume "PTE_ADDR (pte ?v d a) = v2p m"
    then have "uframe s d a = m" using P(2) by (simp add: uframe_def)
    then show False using U(2) [OF a(3)] m(2) by simp
  qed
  have V: "PTE_ADDR (v2p m OR (PTE_W OR PTE_U) OR PTE_P) = v2p m"
    using user_entry_facts(2) [of s m] m(2) D(12) by (simp add: user_entry_def free_pages_def)
  have "pte ?v d a AND NOT (PTE_A OR PTE_D) \<noteq> v2p m OR (PTE_W OR PTE_U) OR PTE_P"
  proof
    assume "pte ?v d a AND NOT (PTE_A OR PTE_D) = v2p m OR (PTE_W OR PTE_U) OR PTE_P"
    then have "PTE_ADDR (pte ?v d a AND NOT (PTE_A OR PTE_D)) = v2p m" using V by simp
    then show False using ne unfolding PTE_ADDR_flags by simp
  qed
  moreover have w: "walkpgdir d a True ?v = Ok (ptp ?v d a + 4 * PTX a, ?v)"
    using walk_present [OF P(1) pd, of True "\<lambda>r u. r = ptp ?v d a + 4 * PTX a \<and> u = ?v"] by (auto simp: wp_iff)
  moreover have "rd32 (ptp ?v d a + 4 * PTX a) ?v = Ok (pte ?v d a, ?v)"
    using pd by (simp add: rd32_def kget_def pte_def)
  ultimately have "map_one d a (v2p m) (PTE_W OR PTE_U) ?v = Panic ''remap''"
    using entry_nonzero [OF P(1) pd] pe ne a(2)
    by (simp add: map_one_def Let_def kbind_def kreturn_def kpanic_def not_le [symmetric])
  moreover have "mappages d a PGSIZE (v2p m) (PTE_W OR PTE_U) = mappages_loop d (PTE_W OR PTE_U) 0 a (v2p m)"
    by (rule mappages_one [OF a(1)])
  ultimately show ?thesis using m(1,3)
    by (simp add: kbind_def kthen_def on_mem_def kmod_def)
qed

text \<open>
  C35. Shrinking a process that ends at or below 0x4000 unmaps and frees nothing, since \<open>deallocuvm_nolock\<close> passes over
  those addresses; when the process then grows back over such a page and a page is free, \<open>mappages\<close> panics with \<open>remap\<close>.
\<close>

theorem low_pages_stay_mapped:
  assumes u: "user_inv s d" and sz: "oldsz \<le> 0x4000" "newsz < oldsz"
  shows "deallocuvm dirs d oldsz newsz s = Ok (newsz, s)
    \<and> (PGROUNDUP newsz < oldsz \<longrightarrow> user_ok s (pte s d (PGROUNDUP newsz)) \<longrightarrow> free_pages s \<noteq> {} \<longrightarrow>
       allocuvm dirs d newsz oldsz s = Panic ''remap'')"
proof (intro conjI impI)
  have k: "oldsz < KERNBASE" using sz(1) by (simp add: word_less_nat_alt word_le_nat_alt KERNBASE_def)
  have "PGROUNDUP newsz \<le> 0x4000"
    by (rule iffD2 [OF PGROUNDUP_page]) (use sz k in \<open>simp_all add: PGSIZE_def\<close>)
  then show "deallocuvm dirs d oldsz newsz s = Ok (newsz, s)"
    using dealloc_low [OF sz(1)] leD [of oldsz newsz] sz(2) by (auto simp: deallocuvm_def kthen_def kbind_def kreturn_def)
next
  assume h: "PGROUNDUP newsz < oldsz" "user_ok s (pte s d (PGROUNDUP newsz))" "free_pages s \<noteq> {}"
  obtain n where n: "pages_from (PGROUNDUP newsz) oldsz = PGROUNDUP newsz # n"
    using h(1) by (auto simp: pages_from_def word_less_nat_alt upt_conv_Cons)
  have "oldsz < KERNBASE" using sz(1) by (simp add: word_less_nat_alt word_le_nat_alt KERNBASE_def)
  moreover have "PGROUNDUP newsz < KERNBASE" using h(1) calculation by simp
  ultimately show "allocuvm dirs d newsz oldsz s = Panic ''remap''"
    using alloc_taken [OF u PGROUNDUP_mod _ h(2,3)] sz(2) unfolding allocuvm_def n by (simp only: not_le [symmetric] less_imp_le simp_thms if_False)
qed

theorem low_pages_stay_mapped_witness:
  "\<exists>t. allocuvm [] demo_pd 0 0x1000 demo_vm = Ok (0x1000, t) \<and> deallocuvm [] demo_pd 0x1000 0 t = Ok (0, t)
     \<and> allocuvm [] demo_pd 0 0x1000 t = Panic ''remap''"
proof -
  obtain t where t: "allocuvm [] demo_pd 0 0x1000 demo_vm = Ok (0x1000, t)" "user_inv t demo_pd"
      "user_ok t (pte t demo_pd 0)" "free_pages t \<noteq> {}" by (rule demo_grown) blast
  have "PGROUNDUP 0 = 0" by (simp add: PGROUNDUP_def PGSIZE_def)
  then show ?thesis using low_pages_stay_mapped [OF t(2), of "0x1000" 0 "[]"] t by simp
qed

end
