(* ===== verification/ProcSpec.thy ===== *)
theory ProcSpec
  imports Process FsSpec VmSafe
begin

text \<open>
  Properties of the process table: the scheduler is fair, wake-ups reach the processes that sleep on the channel and a pipe
  loses none, and what a signal to process 0 does to the next process created.
\<close>


subsection \<open>Fairness of the scheduler\<close>

text \<open>
  The scheduler after \<open>n\<close> iterations: the position of its pass and the state. \<open>run k p\<close> is the time slice that the process \<open>p\<close> gets in
  iteration \<open>k\<close>.
\<close>

primrec sched_at :: "int \<Rightarrow> (nat \<Rightarrow> nat \<Rightarrow> kstate \<Rightarrow> kstate) \<Rightarrow> nat \<times> kstate \<Rightarrow> nat \<Rightarrow> nat \<times> kstate" where
  "sched_at cpu run c 0 = c"
| "sched_at cpu run c (Suc n) = sched_at cpu (\<lambda>k. run (Suc k)) (scheduler cpu (run 0) c) n"

text \<open>No time slice of another process takes \<open>j\<close> out of the state \<open>RUNNABLE\<close>.\<close>

definition leaves_ready :: "nat \<Rightarrow> (nat \<Rightarrow> kstate \<Rightarrow> kstate) \<Rightarrow> bool" where
  "leaves_ready j run \<longleftrightarrow> (\<forall>p t. p \<noteq> j \<longrightarrow> pr_state (ptable t j) = RUNNABLE \<longrightarrow> pr_state (ptable (run p t) j) = RUNNABLE)"

lemma find_uptD:
  assumes "find P [i..<n] = Some p"
  shows "i \<le> p" "p < n" "P p" "\<And>q. i \<le> q \<Longrightarrow> q < p \<Longrightarrow> \<not> P q"
proof -
  from assms obtain k where k: "k < length [i..<n]" "P ([i..<n] ! k)" "p = [i..<n] ! k"
      "\<And>l. l < k \<Longrightarrow> \<not> P ([i..<n] ! l)"
    by (auto simp: find_Some_iff)
  then have p: "p = i + k" "i + k < n" by auto
  show "i \<le> p" "p < n" "P p" using k p by simp_all
  show "\<not> P q" if "i \<le> q" "q < p" for q using k(4) [of "q - i"] that p by auto
qed

lemma find_upt_first: "P p \<Longrightarrow> i \<le> p \<Longrightarrow> p < n \<Longrightarrow> \<exists>q \<le> p. find P [i..<n] = Some q \<and> i \<le> q"
proof -
  assume p: "P p" "i \<le> p" "p < n"
  then have "find P [i..<n] \<noteq> None" by (auto simp: find_None_iff)
  then obtain q where q: "find P [i..<n] = Some q" by blast
  note F = find_uptD [OF q]
  have "q \<le> p" using F(4) [of p] p by (meson not_le)
  then show ?thesis using q F(1) by blast
qed

lemma sched_progress:
  assumes "j < NPROC" "pr_state (ptable s j) = RUNNABLE" "i \<le> NPROC" "sched_scan i s \<noteq> Some j"
    and keep: "leaves_ready j run"
    and c: "scheduler cpu run (i, s) = (i', s')"
  shows "pr_state (ptable s' j) = RUNNABLE" "i' \<le> NPROC"
    "(if i' \<le> j then j - i' else NPROC - i' + 1 + j) < (if i \<le> j then j - i else NPROC - i + 1 + j)"
proof -
  show "pr_state (ptable s' j) = RUNNABLE"
    using c assms(2,4) keep by (auto simp: leaves_ready_def scheduler_def sched_switch_def split: option.splits)
  show le: "i' \<le> NPROC"
    using c by (auto simp: scheduler_def sched_scan_def split: option.splits dest: find_uptD(2))
  show "(if i' \<le> j then j - i' else NPROC - i' + 1 + j) < (if i \<le> j then j - i else NPROC - i + 1 + j)"
  proof (cases "i \<le> j")
    case True
    from find_upt_first [of "\<lambda>j. pr_state (ptable s j) = RUNNABLE", OF assms(2) True assms(1)]
    obtain q where q: "sched_scan i s = Some q" "q \<le> j" "i \<le> q" by (auto simp: sched_scan_def)
    then have "q < j" using assms(4) by (cases "q = j") auto
    then show ?thesis using c q by (auto simp: scheduler_def)
  next
    case False
    then show ?thesis using c le assms(1,3) find_uptD(1) [of _ i NPROC]
      by (cases "sched_scan i s") (auto simp: scheduler_def sched_scan_def dest: find_uptD(1,2))
  qed
qed

lemma scheduled_soon:
  assumes "j < NPROC" "pr_state (ptable s j) = RUNNABLE" "i \<le> NPROC"
    and keep: "\<forall>k. leaves_ready j (run k)"
  shows "\<exists>n \<le> NPROC. case sched_at cpu run (i, s) n of (i', s') \<Rightarrow> sched_scan i' s' = Some j"
proof -
  have "\<exists>n \<le> (if i \<le> j then j - i else NPROC - i + 1 + j). case sched_at cpu run (i, s) n of (i', s') \<Rightarrow> sched_scan i' s' = Some j"
    using assms(2-)
  proof (induction "if i \<le> j then j - i else NPROC - i + 1 + j" arbitrary: i s run rule: less_induct)
    case less
    show ?case
    proof (cases "sched_scan i s = Some j")
      case True
      then show ?thesis by (intro exI [of _ 0]) simp
    next
      case False
      obtain i' s' where c: "scheduler cpu (run 0) (i, s) = (i', s')" by (rule prod.exhaust)
      note S = sched_progress [OF assms(1) less.prems(1,2) False spec [OF less.prems(3)] c]
      have "\<forall>k. leaves_ready j (run (Suc k))" using less.prems(3) by blast
      from less.hyps [OF S(3,1,2) this]
      obtain n where n: "n \<le> (if i' \<le> j then j - i' else NPROC - i' + 1 + j)"
        "case sched_at cpu (\<lambda>k. run (Suc k)) (i', s') n of (i', s') \<Rightarrow> sched_scan i' s' = Some j" by (elim exE conjE) (rule that)
      show ?thesis by (rule exI [of _ "Suc n"]) (use n c S(3) in simp)
    qed
  qed
  then obtain n where n: "n \<le> (if i \<le> j then j - i else NPROC - i + 1 + j)"
      "case sched_at cpu run (i, s) n of (i', s') \<Rightarrow> sched_scan i' s' = Some j" by (elim exE conjE) (rule that)
  moreover have "(if i \<le> j then j - i else NPROC - i + 1 + j) \<le> NPROC" using assms(1,3) by auto
  ultimately show ?thesis by (intro exI [of _ n]) simp
qed



subsection \<open>Waking up\<close>

lemma wakeup1_ptable:
  "ptable (wakeup1 c s) j = (if j < NPROC \<and> pr_state (ptable s j) = SLEEPING \<and> pr_chan (ptable s j) = c
     then (ptable s j)\<lparr>pr_state := RUNNABLE\<rparr> else ptable s j)"
  by (simp add: wakeup1_def Let_def)

lemma wakeup1_sel [simp]:
  "kmem_of (wakeup1 c s) = kmem_of s" "pipes (wakeup1 c s) = pipes s" "ftable (wakeup1 c s) = ftable s"
  "listeners (wakeup1 c s) = listeners s" "curproc (wakeup1 c s) = curproc s" "initproc (wakeup1 c s) = initproc s"
  "nextpid (wakeup1 c s) = nextpid s" "icache (wakeup1 c s) = icache s"
  by (simp_all add: wakeup1_def)

lemma wakeup1_proc [simp]:
  "pr_chan (ptable (wakeup1 c s) j) = pr_chan (ptable s j)" "pr_killed (ptable (wakeup1 c s) j) = pr_killed (ptable s j)"
  "pr_ofile (ptable (wakeup1 c s) j) = pr_ofile (ptable s j)" "pr_parent (ptable (wakeup1 c s) j) = pr_parent (ptable s j)"
  "pr_pid (ptable (wakeup1 c s) j) = pr_pid (ptable s j)" "pr_cwd (ptable (wakeup1 c s) j) = pr_cwd (ptable s j)"
  by (simp_all add: wakeup1_ptable)

lemma wakeup1_sleeping:
  "pr_state (ptable (wakeup1 c s) j) = SLEEPING \<longleftrightarrow>
     pr_state (ptable s j) = SLEEPING \<and> \<not> (j < NPROC \<and> pr_chan (ptable s j) = c)"
  by (auto simp: wakeup1_ptable)

text \<open>
  C31. A process that sleeps on a channel when \<open>wakeup\<close> is called on it gets the processor: from any position of its pass, the
  scheduler selects it after at most \<open>NPROC\<close> other selections and ends of passes, whatever the other processes do with their time
  slices short of changing its state.
\<close>

theorem woken_process_runs:
  assumes "j < NPROC" "pr_state (ptable s j) = SLEEPING" "pr_chan (ptable s j) = Some c" "i \<le> NPROC"
    and "\<forall>k. leaves_ready j (run k)"
  shows "wp (wakeup c) (\<lambda>_ t. \<exists>n \<le> NPROC. case sched_at cpu run (i, t) n of (i', u) \<Rightarrow> sched_scan i' u = Some j) s"
proof -
  have "pr_state (ptable (wakeup1 (Some c) s) j) = RUNNABLE" using assms(1-3) by (simp add: wakeup1_ptable)
  from scheduled_soon [OF assms(1) this assms(4,5)] show ?thesis by (simp add: wakeup_def)
qed

text \<open>A kernel state with three processes: 0 sleeps on the log, 1 runs and 2 is ready; the time slices end in \<open>yield\<close>.\<close>

definition demo_proc :: "procstate \<Rightarrow> chan option \<Rightarrow> int \<Rightarrow> proc" where
  "demo_proc st c pid = \<lparr>pr_sz = 0, pr_pgdir = 0, pr_kstack = 0, pr_state = st, pr_pid = pid, pr_parent = None, pr_tf = 0,
     pr_context = 0, pr_chan = c, pr_killed = False, pr_ofile = replicate NOFILE None, pr_cwd = None, pr_name = replicate 16 0, pr_cpuid = 0\<rparr>"

definition demo_file :: kfile where
  "demo_file = \<lparr>f_type = FD_NONE, f_ref = 0, f_readable = False, f_writable = False, f_pipe = 0, f_ip = None, f_off = 0,
     f_ustate = USOCK_INIT, f_lid = - 1, f_rx = None, f_tx = None, f_tcp = - 1, f_tcp_listen = False, f_udp = - 1\<rparr>"

definition demo_listener :: listener where
  "demo_listener = \<lparr>l_used = False, l_listening = False, l_backlog = 0, l_path = replicate USOCK_PATH_MAX 0,
     l_pending = replicate USOCK_PENDING_MAX None, l_head = 0, l_tail = 0, l_cnt = 0\<rparr>"

definition demo_k :: "(nat \<Rightarrow> proc) \<Rightarrow> kstate" where
  "demo_k pt = fstate.extend demo_fs (kstate.fields demo_vm (\<lambda>_. pipe_new (replicate PIPESIZE 0)) pt (\<lambda>_. demo_file)
     (\<lambda>_. demo_listener) (Some 1) (Some 0) 4 0)"

lemma demo_k_sel [simp]:
  "ptable (demo_k pt) = pt" "ftable (demo_k pt) = (\<lambda>_. demo_file)" "listeners (demo_k pt) = (\<lambda>_. demo_listener)"
  "kmem_of (demo_k pt) = demo_vm" "pipes (demo_k pt) = (\<lambda>_. pipe_new (replicate PIPESIZE 0))" "curproc (demo_k pt) = Some 1"
  "initproc (demo_k pt) = Some 0" "nextpid (demo_k pt) = 4"
  by (simp_all add: demo_k_def fstate.defs kstate.defs)

definition demo_procs :: "nat \<Rightarrow> proc" where
  "demo_procs = (\<lambda>_. demo_proc UNUSED None 0)(0 := demo_proc SLEEPING (Some ChLog) 1, 1 := demo_proc RUNNING None 2,
     2 := demo_proc RUNNABLE None 3)"

definition slice_yield :: "nat \<Rightarrow> nat \<Rightarrow> kstate \<Rightarrow> kstate" where
  "slice_yield k p s = (case yield_cpu (s\<lparr>curproc := Some p\<rparr>) of Ok (_, t) \<Rightarrow> t | _ \<Rightarrow> s)"

lemma slice_yield_ready: "leaves_ready j (slice_yield k)"
  by (simp add: leaves_ready_def slice_yield_def yield_cpu_def sched_def myproc_def kop_defs)

theorem woken_process_runs_witness:
  "wp (wakeup ChLog) (\<lambda>_ t. \<exists>n \<le> NPROC. case sched_at 0 slice_yield (2, t) n of (i', u) \<Rightarrow> sched_scan i' u = Some 0) (demo_k demo_procs)"
  by (rule woken_process_runs) (simp_all add: slice_yield_ready demo_procs_def demo_proc_def NPROC_def)



subsection \<open>Creating a process\<close>

definition new_stack :: "env \<Rightarrow> u32 \<Rightarrow> mem \<Rightarrow> mem" where
  "new_stack e k m = store32 (k + 4 * 1003) (e_forkret e) (memset (k + 3996) 0 20 (store32 (k + 4 * 1004) (e_trapret e) m))"

lemma new_stack_other:
  assumes "k mod PGSIZE = 0" "PGROUNDDOWN x \<noteq> k"
  shows "new_stack e k m x = m x"
proof -
  have "\<not> unat (x - (k + 3996)) < 20"
  proof
    assume l: "unat (x - (k + 3996)) < 20"
    have e: "x - k = 3996 + (x - (k + 3996))" by simp
    have "unat (x - k) < 4096" unfolding e using l unat_add_cases [of 3996 "x - (k + 3996)"] by auto
    then show False using in_page_iff [OF assms(1)] assms(2) by blast
  qed
  then show ?thesis
    using store_entry_other [OF assms(1) _ assms(2), of 1003] store_entry_other [OF assms(1) _ assms(2), of 1004]
    by (simp add: new_stack_def memset_fills)
qed

definition new_proc :: "u32 \<Rightarrow> int \<Rightarrow> proc \<Rightarrow> proc" where
  "new_proc k pid p = p\<lparr>pr_state := EMBRYO, pr_pid := pid, pr_kstack := k, pr_tf := k + 4020, pr_context := k + 3996\<rparr>"

lemma allocproc_ok:
  assumes inv: "kmem_inv (kmem_of s)" and slot: "find (\<lambda>i. pr_state (ptable s i) = UNUSED) [0..<NPROC] = Some i"
    and pid: "nextpid s \<noteq> 2 ^ 31 - 1" and mem: "free_pages (kmem_of s) \<noteq> {}"
    and Q: "\<And>k m. k \<in> free_pages (kmem_of s) \<Longrightarrow> kmem_inv m \<Longrightarrow> page_ok m = page_ok (kmem_of s) \<Longrightarrow>
      free_pages m = free_pages (kmem_of s) - {k} \<Longrightarrow> kmem_mem m = new_stack e k (kmem_mem (kmem_of s)) \<Longrightarrow>
      Q (Some i) (s\<lparr>nextpid := nextpid s + 1, ptable := (ptable s)(i := new_proc k (nextpid s) (ptable s i)), kmem_of := m\<rparr>)"
  shows "wp (allocproc e) Q s"
proof -
  have tf: "k + KSTACKSIZE - TF_SIZE = k + 4020" "k + 4020 - 4 = k + 4 * 1004" "k + 4016 - CONTEXT_SIZE = k + 3996" for k :: u32
    by (simp_all add: KSTACKSIZE_def TF_SIZE_def CONTEXT_SIZE_def)
  have "wp kalloc (\<lambda>k t. wp (
     kthen (kmod (set_proc i (\<lambda>p. p\<lparr>pr_kstack := k\<rparr>)))
            (if k = 0 then kthen (kmod (set_proc i (\<lambda>p. p\<lparr>pr_state := UNUSED\<rparr>))) (kreturn None)
             else let tf = k + KSTACKSIZE - TF_SIZE; ctx = tf - 4 - CONTEXT_SIZE in
               kthen (kmod (set_proc i (\<lambda>p. p\<lparr>pr_tf := tf\<rparr>)))
               (kthen (on_kmem (wr32 (tf - 4) (e_trapret e)))
               (kthen (kmod (set_proc i (\<lambda>p. p\<lparr>pr_context := ctx\<rparr>)))
               (kthen (on_kmem (on_mem (memset ctx 0 CONTEXT_SIZE)))
               (kthen (on_kmem (wr32 (ctx + 16) (e_forkret e)))
               (kreturn (Some i)))))))) Q
     ((set_proc i (\<lambda>p. p\<lparr>pr_state := EMBRYO, pr_pid := nextpid s\<rparr>) (s\<lparr>nextpid := nextpid s + 1\<rparr>))\<lparr>kmem_of := t\<rparr>)) (kmem_of s)"
    (is "wp _ (\<lambda>k t. wp (?body k) Q (?st t)) _")
  proof (rule pg.alloc_rule [OF inv])
    fix k t
    assume k: "k \<in> free_pages (kmem_of s)" "k \<noteq> 0" "kmem_inv t" "kmem_mem t = kmem_mem (kmem_of s)"
      "page_ok t = page_ok (kmem_of s)" "free_pages t = free_pages (kmem_of s) - {k}"
    let ?m = "t\<lparr>kmem_mem := new_stack e k (kmem_mem t)\<rparr>"
    have km: "k mod PGSIZE = 0" using k(1) by (auto simp: free_pages_def dest: page_okD(1))
    have "kmem_inv ?m"
      by (rule pg.set_alloc [OF k(3)]) (use new_stack_other [OF km] k(6) in auto)
    then have "Q (Some i) (s\<lparr>nextpid := nextpid s + 1, ptable := (ptable s)(i := new_proc k (nextpid s) (ptable s i)), kmem_of := ?m\<rparr>)"
      using k pg.set_frees by (intro Q [OF k(1)]) simp_all
    then show "wp (?body k) Q (?st t)"
      using k(2) unfolding Let_def tf
      by (simp add: wr32_def on_mem_def set_proc_def new_stack_def new_proc_def CONTEXT_SIZE_def add.commute)
  qed (use mem in simp)
  then show ?thesis using slot pid by (simp add: allocproc_def)
qed

text \<open>
  C38. \<open>kill(0)\<close> reports success although there is no such process: it finds a free slot of the table, whose \<open>pid\<close> is 0, and
  sets \<open>killed\<close> there. \<open>allocproc\<close> does not clear the flag, so the next process created in the slot, with a fresh number, is
  killed before it runs.
\<close>

theorem kill_zero_dooms_next:
  assumes "find (\<lambda>i. pr_pid (ptable s i) = 0) [0..<NPROC] = Some i" "find (\<lambda>i. pr_state (ptable s i) = UNUSED) [0..<NPROC] = Some i"
    and "kmem_inv (kmem_of s)" "nextpid s \<noteq> 2 ^ 31 - 1" "free_pages (kmem_of s) \<noteq> {}"
  shows "wp (kill 0) (\<lambda>r t. r = 0 \<and>
      wp (allocproc e) (\<lambda>q u. q = Some i \<and> pr_pid (ptable u i) = nextpid s \<and> pr_killed (ptable u i)) t) s"
proof -
  let ?t = "set_proc i (\<lambda>p. p\<lparr>pr_killed := True, pr_state := if pr_state p = SLEEPING then RUNNABLE else pr_state p\<rparr>) s"
  have "pr_state (ptable s i) = UNUSED" using find_uptD(3) [OF assms(2)] .
  then have "(\<lambda>j. pr_state (ptable ?t j) = UNUSED) = (\<lambda>j. pr_state (ptable s j) = UNUSED)" by (auto simp: fun_eq_iff)
  then have "wp (allocproc e) (\<lambda>q u. q = Some i \<and> pr_pid (ptable u i) = nextpid s \<and> pr_killed (ptable u i)) ?t"
    using assms(2-) by (intro allocproc_ok [of _ i]) (simp_all add: new_proc_def)
  then show ?thesis using assms(1) by (simp add: kill_def wp_def)
qed

definition demo_env :: env where
  "demo_env = \<lparr>e_devsw = \<lparr>dv_read = \<lambda>_. None, dv_write = \<lambda>_. None\<rparr>, net_tcp_user_unref = \<lambda>_ _. kreturn (), net_udp_user_unref = \<lambda>_. kreturn (),
     net_tcp_user_read = \<lambda>_ _ _. kreturn (- 1, []), net_tcp_user_write = \<lambda>_ _ _ _. kreturn (- 1),
     net_tcp_user_fdready = \<lambda>_ _ _. kreturn (- 1), net_udp_user_fdready = \<lambda>_ _. kreturn (- 1), consolecanread = kreturn 0,
     e_kdata = 0x80100000, e_trapret = 0x80101000, e_forkret = 0x80102000, e_initcode = []\<rparr>"

theorem kill_zero_dooms_next_witness:
  "wp (kill 0) (\<lambda>r t. r = 0 \<and>
      wp (allocproc demo_env) (\<lambda>q u. q = Some 3 \<and> pr_pid (ptable u 3) = 4 \<and> pr_killed (ptable u 3)) t) (demo_k demo_procs)"
proof -
  have u: "[0..<NPROC] = 0 # 1 # 2 # 3 # [4..<NPROC]" by (simp add: NPROC_def upt_conv_Cons)
  have "find (\<lambda>i. pr_pid (ptable (demo_k demo_procs) i) = 0) [0..<NPROC] = Some 3"
    "find (\<lambda>i. pr_state (ptable (demo_k demo_procs) i) = UNUSED) [0..<NPROC] = Some 3"
    unfolding u by (simp_all add: demo_procs_def demo_proc_def)
  from kill_zero_dooms_next [OF this, of demo_env] show ?thesis by (simp add: demo_vm_facts(1,3))
qed


subsection \<open>Pipes lose no wake-up\<close>

text \<open>
  A process sleeps on an end of the pipe at \<open>a\<close> only while it has to: a writer while the ring is full and has a reader, a
  reader while the ring is empty and has a writer.
\<close>

definition pipe_live :: "kstate \<Rightarrow> u32 \<Rightarrow> bool" where
  "pipe_live s a \<longleftrightarrow> pipe_inv (pipes s a) \<and> (\<forall>i < NPROC. pr_state (ptable s i) = SLEEPING \<longrightarrow>
     (pr_chan (ptable s i) = Some (ChPipeWrite (unat a)) \<longrightarrow> length (pipe_items (pipes s a)) = PIPESIZE \<and> p_readopen (pipes s a)) \<and>
     (pr_chan (ptable s i) = Some (ChPipeRead (unat a)) \<longrightarrow> pipe_items (pipes s a) = [] \<and> p_writeopen (pipes s a)))"

lemma wp_sleep_on [simp]:
  "wp (sleep_on c) Q s \<longleftrightarrow> (\<exists>i. curproc s = Some i \<and> Q () (set_proc i (\<lambda>p. p\<lparr>pr_chan := Some c, pr_state := SLEEPING\<rparr>) s))"
  by (cases "curproc s") (simp_all add: sleep_on_def)

lemma wp_my_killed [simp]: "wp my_killed Q s \<longleftrightarrow> (\<exists>i. curproc s = Some i \<and> Q (pr_killed (ptable s i)) s)"
  by (auto simp: my_killed_def)

lemma pipe_liveD:
  assumes "pipe_live s a"
  shows "pipe_inv (pipes s a)"
    "i < NPROC \<Longrightarrow> pr_state (ptable s i) = SLEEPING \<Longrightarrow> pr_chan (ptable s i) = Some (ChPipeWrite (unat a)) \<Longrightarrow>
       length (pipe_items (pipes s a)) = PIPESIZE \<and> p_readopen (pipes s a)"
    "i < NPROC \<Longrightarrow> pr_state (ptable s i) = SLEEPING \<Longrightarrow> pr_chan (ptable s i) = Some (ChPipeRead (unat a)) \<Longrightarrow>
       pipe_items (pipes s a) = [] \<and> p_writeopen (pipes s a)"
  using assms by (auto simp: pipe_live_def)

lemma pipe_write_live:
  assumes "pipe_live s a" "curproc s = Some i" "nat n \<le> length addr" "k \<le> nat n"
  shows "wp (pipe_write a addr n k) (\<lambda>r t. r \<noteq> PFail \<longrightarrow> pipe_live t a) s"
proof -
  note D = pipe_liveD [OF assms(1)]
  obtain r p where e: "pipewrite (pr_killed (ptable s i)) addr n k (pipes s a) = (r, p)" by (rule prod.exhaust)
  obtain j where L: "pipe_inv p" "p_readopen p = p_readopen (pipes s a)" "p_writeopen p = p_writeopen (pipes s a)"
      "pipe_items p = pipe_items (pipes s a) @ slice addr k (j - k)"
      "\<And>l. r = PSleep l \<Longrightarrow> length (pipe_items p) = PIPESIZE \<and> p_readopen p"
    using pipewrite_law [OF D(1) assms(3,4) e] by force
  have full: "length (pipe_items p) = PIPESIZE" if "length (pipe_items (pipes s a)) = PIPESIZE"
    using that L(4) pq.cap_law [OF L(1)] by simp
  let ?t = "wakeup1 (Some (ChPipeRead (unat a))) (set_pipe a p s)"
  have live: "pipe_live ?t a" using D(2) full L(1,2) by (auto simp: pipe_live_def wakeup1_sleeping)
  show ?thesis
  proof (cases r)
    case (PDone v)
    then show ?thesis using e live assms(2) by (simp add: pipe_write_def wake_readers_def wakeup_def)
  next
    case PFail
    then show ?thesis using e assms(2) by (simp add: pipe_write_def)
  next
    case (PSleep l)
    then have "pipe_live (set_proc i (\<lambda>p. p\<lparr>pr_chan := Some (ChPipeWrite (unat a)), pr_state := SLEEPING\<rparr>) ?t) a"
      using live L(5) by (simp add: pipe_live_def)
    then show ?thesis using e PSleep assms(2) by (simp add: pipe_write_def wake_readers_def wakeup_def)
  qed
qed

lemma pipe_read_live:
  assumes "pipe_live s a" "curproc s = Some i"
  shows "wp (pipe_read a n) (\<lambda>r t. pipe_live t a) s"
proof -
  note D = pipe_liveD [OF assms(1)]
  obtain r p where e: "piperead (pr_killed (ptable s i)) n (pipes s a) = (r, p)" by (rule prod.exhaust)
  note L = piperead_law [OF D(1) e]
  show ?thesis
  proof (cases r)
    case (PDone cs)
    have "pipe_live (wakeup1 (Some (ChPipeWrite (unat a))) (set_pipe a p s)) a"
      using D(3) L PDone by (fastforce simp: pipe_live_def wakeup1_sleeping)
    then show ?thesis using e PDone assms(2) by (simp add: pipe_read_def wake_writers_def wakeup_def)
  next
    case PFail
    then have "set_pipe a p s = s" using L by (simp add: set_pipe_def)
    then show ?thesis using e PFail assms by (simp add: pipe_read_def)
  next
    case (PSleep l)
    then have "set_pipe a p s = s" using L by (simp add: set_pipe_def)
    moreover have "pipe_live (set_proc i (\<lambda>p. p\<lparr>pr_chan := Some (ChPipeRead (unat a)), pr_state := SLEEPING\<rparr>) s) a"
      using assms(1) L PSleep by (simp add: pipe_live_def)
    ultimately show ?thesis using e PSleep assms(2) by (simp add: pipe_read_def)
  qed
qed

lemma pipe_close_live:
  assumes "pipe_live s a"
    and "snd (pipeclose w (pipes s a)) \<longrightarrow> kmem_inv (kmem_of s) \<and> page_ok (kmem_of s) a \<and> a \<notin> free_pages (kmem_of s)"
  shows "wp (pipe_close a w) (\<lambda>_ t. pipe_live t a) s"
proof -
  note D = pipe_liveD [OF assms(1)]
  let ?p = "fst (pipeclose w (pipes s a))"
  have p: "pipe_items ?p = pipe_items (pipes s a)" "pipe_inv ?p"
    "p_readopen ?p = (p_readopen (pipes s a) \<and> w)" "p_writeopen ?p = (p_writeopen (pipes s a) \<and> \<not> w)"
    using D(1) by (auto simp: pipeclose_def Let_def pipe_items_def pipe_count_def pipe_inv_def)
  let ?t = "wakeup1 (Some (if w then ChPipeRead (unat a) else ChPipeWrite (unat a))) (set_pipe a ?p s)"
  have "pipe_live ?t a" using D(2,3) p by (auto simp: pipe_live_def wakeup1_sleeping)
  then have m: "pipe_live (?t\<lparr>kmem_of := m\<rparr>) a" for m by (simp add: pipe_live_def)
  show ?thesis
  proof (cases "snd (pipeclose w (pipes s a))")
    case True
    have "wp (kfree a) (\<lambda>_ m. pipe_live (?t\<lparr>kmem_of := m\<rparr>) a) (kmem_of s)"
      by (rule pg.free_rule) (use assms(2) True m in auto)
    then show ?thesis using True by (auto simp: pipe_close_def wake_readers_def wake_writers_def wakeup_def)
  next
    case False
    then show ?thesis using \<open>pipe_live ?t a\<close> by (auto simp: pipe_close_def wake_readers_def wake_writers_def wakeup_def)
  qed
qed

text \<open>
  C20. Pipes lose no wake-up: if no process sleeps on the pipe without need, then none does after a read, after a write (a new
  one or one that is resumed) that does not fail, and after closing an end; and a writer that sleeps gets the
  processor after any read of at least one byte, within \<open>NPROC\<close> steps of the scheduler.
\<close>

theorem pipe_no_lost_wakeup:
  assumes "pipe_live s a" "curproc s = Some i"
  shows "(nat n \<le> length addr \<longrightarrow> k \<le> nat n \<longrightarrow> wp (pipe_write a addr n k) (\<lambda>r t. r \<noteq> PFail \<longrightarrow> pipe_live t a) s)
    \<and> wp (pipe_read a n) (\<lambda>r t. pipe_live t a) s
    \<and> ((snd (pipeclose w (pipes s a)) \<longrightarrow> kmem_inv (kmem_of s) \<and> page_ok (kmem_of s) a \<and> a \<notin> free_pages (kmem_of s)) \<longrightarrow>
       wp (pipe_close a w) (\<lambda>_ t. pipe_live t a) s)
    \<and> (j < NPROC \<longrightarrow> pr_state (ptable s j) = SLEEPING \<longrightarrow> pr_chan (ptable s j) = Some (ChPipeWrite (unat a)) \<longrightarrow>
       0 < n \<longrightarrow> (\<forall>k. leaves_ready j (run k)) \<longrightarrow>
       wp (pipe_read a n) (\<lambda>r t. (\<exists>bs. r = PDone (int (length bs), bs) \<and> bs \<noteq> [])
         \<and> (\<exists>m \<le> NPROC. case sched_at cpu run (0, t) m of (i', u) \<Rightarrow> sched_scan i' u = Some j)) s)"
proof (intro conjI impI)
  assume j: "j < NPROC" "pr_state (ptable s j) = SLEEPING" "pr_chan (ptable s j) = Some (ChPipeWrite (unat a))"
    and n: "0 < n" and run: "\<forall>k. leaves_ready j (run k)"
  note D = pipe_liveD [OF assms(1)]
  have full: "length (pipe_items (pipes s a)) = PIPESIZE" using D(2) [OF j] by simp
  obtain r p where e: "piperead (pr_killed (ptable s i)) n (pipes s a) = (r, p)" by (rule prod.exhaust)
  from full have ne: "pipe_items (pipes s a) \<noteq> []" by (auto simp: PIPESIZE_def)
  then obtain cs where r: "r = PDone cs" "cs = take (nat n) (pipe_items (pipes s a))"
    using piperead_law [OF D(1) e] by (cases r) auto
  then have "cs \<noteq> []" using ne n by simp
  moreover have "pr_state (ptable (wakeup1 (Some (ChPipeWrite (unat a))) (set_pipe a p s)) j) = RUNNABLE"
    using j by (simp add: wakeup1_ptable)
  note scheduled_soon [OF j(1) this _ run, of 0]
  ultimately show "wp (pipe_read a n) (\<lambda>r t. (\<exists>bs. r = PDone (int (length bs), bs) \<and> bs \<noteq> [])
      \<and> (\<exists>m \<le> NPROC. case sched_at cpu run (0, t) m of (i', u) \<Rightarrow> sched_scan i' u = Some j)) s"
    using e r assms(2) by (simp add: pipe_read_def wake_writers_def wakeup_def)
qed (use pipe_write_live pipe_read_live pipe_close_live assms in blast)+

definition full_pipe :: pipe where
  "full_pipe = \<lparr>p_data = replicate PIPESIZE 7, p_nread = 0, p_nwrite = of_nat PIPESIZE, p_readopen = True, p_writeopen = True\<rparr>"

definition demo_pipe_k :: "pipe \<Rightarrow> chan \<Rightarrow> kstate" where
  "demo_pipe_k p c = set_pipe 0x80001000 p (demo_k (demo_procs(0 := demo_proc SLEEPING (Some c) 1)))"

lemma full_pipe_items: "length (pipe_items full_pipe) = PIPESIZE" "pipe_inv full_pipe"
  by (simp_all add: pipe_items_def pipe_count_def full_pipe_def pipe_inv_def PIPESIZE_def)

theorem pipe_no_lost_wakeup_witness:
  "wp (pipe_read 0x80001000 5) (\<lambda>r t. (\<exists>bs. r = PDone (int (length bs), bs) \<and> bs \<noteq> [])
     \<and> (\<exists>m \<le> NPROC. case sched_at 0 slice_yield (0, t) m of (i', u) \<Rightarrow> sched_scan i' u = Some 0)) (demo_pipe_k full_pipe (ChPipeWrite 0x80001000))"
proof -
  have l: "pipe_live (demo_pipe_k full_pipe (ChPipeWrite 0x80001000)) 0x80001000"
    using full_pipe_items by (auto simp: pipe_live_def demo_pipe_k_def demo_procs_def demo_proc_def full_pipe_def)
  have "curproc (demo_pipe_k full_pipe (ChPipeWrite 0x80001000)) = Some 1" by (simp add: demo_pipe_k_def)
  from pipe_no_lost_wakeup [OF l this, of 5 "[]" 0 False 0 slice_yield 0] show ?thesis
    by (simp add: slice_yield_ready demo_pipe_k_def demo_proc_def NPROC_def)
qed

text \<open>
  C40. A write cut short by \<open>kill\<close> does lose a wake-up: a killed writer that fills an empty pipe and finds it full returns
  \<open>-1\<close> without \<open>wakeup(&p->nread)\<close>, and a reader that waits for data goes on sleeping in front of a full pipe.
\<close>

theorem killed_writer_loses_wakeup:
  assumes "pipe_live s a" "curproc s = Some i" "pr_killed (ptable s i)" "i \<noteq> j" "nat n \<le> length addr" "int PIPESIZE < n"
    and "j < NPROC" "pr_state (ptable s j) = SLEEPING" "pr_chan (ptable s j) = Some (ChPipeRead (unat a))"
  shows "wp (pipe_write a addr n 0) (\<lambda>r t. r = PFail \<and> length (pipe_items (pipes t a)) = PIPESIZE
      \<and> pr_state (ptable t j) = SLEEPING \<and> pr_chan (ptable t j) = Some (ChPipeRead (unat a))) s"
proof -
  note D = pipe_liveD [OF assms(1)]
  have empty: "pipe_items (pipes s a) = []" using D(3) [OF assms(7-9)] by simp
  obtain r p where e: "pipewrite True addr n 0 (pipes s a) = (r, p)" by (rule prod.exhaust)
  obtain l where L: "pipe_inv p" "l \<le> nat n" "pipe_items p = slice addr 0 l"
      "r = PDone n \<and> l = nat n \<or> r = PFail \<and> length (pipe_items p) = PIPESIZE"
    using pipewrite_law [OF D(1) assms(5) _ e] empty by force
  have "r \<noteq> PDone n"
    using L pq.cap_law [OF L(1)] assms(5,6) by (auto simp: slice_def)
  then show ?thesis using L(4) e assms by (auto simp: pipe_write_def)
qed

definition empty_pipe :: pipe where
  "empty_pipe = pipe_new (replicate PIPESIZE 0)"

definition demo_killed_k :: kstate where
  "demo_killed_k = set_proc 1 (\<lambda>p. p\<lparr>pr_killed := True\<rparr>) (demo_pipe_k empty_pipe (ChPipeRead 0x80001000))"

theorem killed_writer_loses_wakeup_witness:
  "wp (pipe_write 0x80001000 (replicate 600 1) 600 0) (\<lambda>r t. r = PFail \<and> length (pipe_items (pipes t 0x80001000)) = PIPESIZE
      \<and> pr_state (ptable t 0) = SLEEPING \<and> pr_chan (ptable t 0) = Some (ChPipeRead 0x80001000)) demo_killed_k"
proof -
  have "pipe_live demo_killed_k 0x80001000"
    by (auto simp: pipe_live_def demo_killed_k_def demo_pipe_k_def demo_procs_def demo_proc_def empty_pipe_def pipe_new_def
      pipe_inv_def pipe_count_def pipe_items_def)
  from killed_writer_loses_wakeup [OF this, of 1 0 600 "replicate 600 1"] show ?thesis
    by (simp add: demo_killed_k_def demo_pipe_k_def demo_procs_def demo_proc_def PIPESIZE_def NPROC_def)
qed

end
