(* ===== verification/FileSpec.thy ===== *)
theory FileSpec
  imports ProcSpec
begin

section \<open>Reading and writing files (\<open>filewrite\<close>, \<open>fileread\<close>)\<close>

text \<open>
  The file layer over the file system: \<open>filewrite\<close> on an inode cuts the bytes into pieces of 1536 and writes each in a transaction of its own.
  The theory shows that each piece fits into its transaction and that the whole is an update of a sequence of bytes, which \<open>fileread\<close>
  returns.
\<close>

definition file_open :: "kstate \<Rightarrow> nat \<Rightarrow> nat \<Rightarrow> bool" where
  "file_open s f i \<longleftrightarrow> f_type (ftable s f) = FD_INODE \<and> f_readable (ftable s f) \<and> f_writable (ftable s f) \<and> f_ip (ftable s f) = Some i
     \<and> 1 \<le> i_ref (icache s i) \<and> \<not> i_busy (icache s i) \<and> i_valid (icache s i)"

text \<open>A kernel with no transaction in progress that has a regular file open.\<close>

definition at_file :: "u32 set \<Rightarrow> kstate \<Rightarrow> nat \<Rightarrow> nat \<Rightarrow> bool" where
  "at_file A s f i \<longleftrightarrow> quiet s \<and> A = log_area (klog s) \<and> is_file A (dsk s) s i \<and> file_open s f i \<and> unat (isize s i) \<le> MAXFILE * BSIZE"

lemma set_file_cache [simp]:
  "bio_inv (set_file f g s) = bio_inv s" "absc (set_file f g s) = absc s" "holds (set_file f g s) j x = holds s j x"
  "dsk (set_file f g s) = dsk s" "view (set_file f g s) = view s"
  by (rule cache_cong; simp add: set_file_def)+

lemma set_inode_ftable [simp]: "ftable (set_inode i g s) = ftable s" "ftable (set_log h s) = ftable s"
  by (simp_all add: set_inode_def set_log_def)

lemma set_file_parts [simp]: "klog (set_file f g s) = klog s" "wlog (set_file f g s) = wlog s" "icache (set_file f g s) = icache s"
  by (simp_all add: set_file_def)

lemma set_file_tx [simp]: "tx A H L V (set_file f g s) = tx A H L V s" "tx_prog r (set_file f g s) = tx_prog r s" "quiet (set_file f g s) = quiet s"
  by (simp_all add: tx_def log_inv_def tx_prog_def quiet_def)

lemma file_upd [simp]: "addrs (set_file f g s) i = addrs s i" "isize (set_file f g s) i = isize s i" "ib (set_file f g s) i = ib s i"
  "is_file A V (set_file f g s) i = is_file A V s i"
  by (simp_all add: addrs_def isize_def ib_def is_file_def)

lemma busy_upd [simp]:
  "addrs (set_inode i (i_busy_update b) s) i = addrs s i" "isize (set_inode i (i_busy_update b) s) i = isize s i"
  "ib (set_inode i (i_busy_update b) s) i = ib s i" "ik (set_inode i (i_busy_update b) s) i = ik s i"
  by (simp_all add: addrs_def isize_def ib_def ik_def)

lemma writei_take:
  assumes "d_type (i_di (icache s i)) \<noteq> T_DEV"
  shows "wp (writei dv i src off n) Q s = wp (writei dv i (take (unat n) src) off n) Q s"
  using assms by (simp add: writei_def inode_at_def Let_def)

text \<open>One piece: the body of the transaction in the loop of \<open>filewrite\<close>.\<close>

definition piece :: "env \<Rightarrow> nat \<Rightarrow> nat \<Rightarrow> bytes \<Rightarrow> u32 \<Rightarrow> (kstate, int) kop" where
  "piece e f i src n = kthen (ilock i)
     (kbind (kget (\<lambda>s. f_off (ftable s f))) (\<lambda>off.
      kbind (writei (e_devsw e) i src off n) (\<lambda>r.
      kthen (kwhen (0 < r) (kmod (set_file f (\<lambda>f. f\<lparr>f_off := f_off f + word_of_int r\<rparr>))))
      (kthen (iunlock i) (kreturn r)))))"

lemma kreturn_bind: "kbind (kreturn a) g = g a"
  by (simp add: kbind_def kreturn_def fun_eq_iff)

lemma word_of_unat: "word_of_int (int (unat (n :: u32))) = n"
  by simp

lemma unat_word_u32: "0 \<le> x \<Longrightarrow> x < 2 ^ 32 \<Longrightarrow> unat (word_of_int x :: u32) = nat x"
  by (simp add: unat_eq_nat_uint uint_word_of_int take_bit_int_eq_self)

lemma unat_add_u32: "unat (x :: u32) + k < 2 ^ 32 \<Longrightarrow> unat (x + of_nat k) = unat x + k"
  using unat_of_nat_u32 [of k] unat_add_lem [of x "of_nat k"] by simp

lemma loop_piece:
  "filewrite_loop e f i src n k s =
     (if k < n then
        kbind (in_trans (piece e f i (drop (nat k) src) (word_of_int (min (n - k) WRITE_MAX))))
          (\<lambda>r. if r < 0 then kreturn (if k = n then n else - 1)
             else if r \<noteq> min (n - k) WRITE_MAX then kpanic ''short filewrite''
             else filewrite_loop e f i src n (k + r)) s
      else Ok (if k = n then n else - 1, s))"
  by (subst filewrite_loop.simps) (simp add: in_trans_def piece_def Let_def kthen_def kbind_assoc kreturn_bind)

lemma view_same_outside:
  assumes f: "is_file A V t i" and v: "\<And>x. x \<notin> A \<Longrightarrow> V' x = V x"
  shows "is_file A V' t i" "contents V' t i = contents V t i" "reserve U R V (addrs t i) \<Longrightarrow> reserve U R V' (addrs t i)"
proof -
  have ok: "fs_ok A V" "tree_ok A V (addrs t i)" using f by (simp_all add: is_file_def)
  have one: "V' 1 = V 1" using v fs_okD(2) [OF ok(1)] by simp
  have bm: "V' b = V b" if "b \<in> bmbs V" for b using v fs_okD(6) [OF ok(1) that] by simp
  have tr: "V' b = V b" if "b \<in> tree V (addrs t i)" for b using v tree_okD(3) [OF ok(2) that] by simp
  note C = file_view_cong [of A V "addrs t i" V', OF ok one bm tr]
  have l: "ibs V' = ibs V" "bmb V' = bmb V" using layout_cong [of V' V] one by simp_all
  show "is_file A V' t i" using f C(1,2) l(1) by (simp add: is_file_def)
  show "contents V' t i = contents V t i" using C(3) by (simp add: contents_def)
  show "reserve U R V' (addrs t i)" if "reserve U R V (addrs t i)" by (rule reserve_cong [OF that C(6,4) l(2)])
qed

text \<open>What a piece leaves in the parts of the state beside the log and the cache.\<close>

definition piece_post :: "u32 set \<Rightarrow> u32 set \<Rightarrow> slot set \<Rightarrow> (u32 \<Rightarrow> bytes) \<Rightarrow> kstate \<Rightarrow> nat \<Rightarrow> nat \<Rightarrow> bytes \<Rightarrow> (u32 \<Rightarrow> bytes) \<Rightarrow> kstate \<Rightarrow> bool" where
  "piece_post A U R V s f i bs V' t \<longleftrightarrow> is_file A V' t i \<and> file_open t f i \<and> unat (isize t i) \<le> MAXFILE * BSIZE
     \<and> contents V' t i = list_write (unat (f_off (ftable s f))) bs (contents V s i)
     \<and> f_off (ftable t f) = f_off (ftable s f) + of_nat (length bs) \<and> reserve U R V' (addrs t i)
     \<and> (\<forall>g. g \<noteq> f \<longrightarrow> ftable t g = ftable s g) \<and> (\<forall>j. j \<noteq> i \<longrightarrow> icache t j = icache s j)"

lemma piece_post_cong: "icache t = icache t' \<Longrightarrow> ftable t = ftable t' \<Longrightarrow> piece_post A U R V s f i bs V' t = piece_post A U R V s f i bs V' t'"
  by (simp add: piece_post_def is_file_def file_open_def contents_def addrs_def isize_def ib_def)

lemma piece_tx:
  assumes at: "at_file A s f i" and off: "off = f_off (ftable s f)" "off \<le> isize s i" "unat off + unat n \<le> MAXFILE * BSIZE"
    and n: "unat n \<le> 1536" "unat n \<le> length src" and r: "reserve U R (dsk s) (addrs s i)" "write_slots (unat off) (unat n) \<subseteq> R" "card U \<le> 1"
  shows "wp (piece e f i src n) (\<lambda>r t. r = int (unat n) \<and> (\<exists>L V. tx A {} L V t \<and> tx_prog (trans_open s) t \<and> V 1 = dsk s 1
    \<and> piece_post A U R (dsk s) s f i (take (unat n) src) V t)) (trans_open s)"
proof -
  have a: "quiet s" "A = log_area (klog s)" "is_file A (dsk s) s i" "file_open s f i" "unat (isize s i) \<le> MAXFILE * BSIZE"
    using at unfolding at_file_def by blast+
  note Q = quiet_open [OF a(1), folded a(2)]
  let ?b = "set_inode i (\<lambda>ip. ip\<lparr>i_busy := True\<rparr>) (trans_open s)" and ?src = "take (unat n) src"
  have o: "1 \<le> i_ref (icache s i)" "\<not> i_busy (icache s i)" "i_valid (icache s i)" using a(4) by (simp_all add: file_open_def)
  have c: "fcx A {} (dsk s) i ?b" using a(3) Q(2) by (simp add: fcx_def is_file_def)
  have bg: "budget U (write_slots (unat off) (unat n)) R (dsk s) (addrs ?b i) {}"
    using r write_slots_card [OF n(1), of "unat off"] by (simp add: budget_def)
  have ns: "sint n = int (unat n)" by (rule sint_small) (use n(1) in simp)
  let ?P = "\<lambda>r t. r = int (unat n) \<and> (\<exists>L V. tx A {} L V t \<and> tx_prog (trans_open s) t \<and> V 1 = dsk s 1
    \<and> piece_post A U R (dsk s) s f i ?src V t)"
  let ?k = "\<lambda>r. kthen (kwhen (0 < r) (kmod (set_file f (\<lambda>f. f\<lparr>f_off := f_off f + word_of_int r\<rparr>)))) (kthen (iunlock i) (kreturn r))"
  have "wp (writei (e_devsw e) i ?src off n) (\<lambda>r. wp (?k r) ?P) ?b"
  proof (rule writei_tx [OF c _ _ _ _ _ off(3) bg order_refl])
    fix L V t
    assume t: "fcx A L V i t" "fs_keeps i ?b t" "wrote A (dsk s) ?b i off ?src V t" "card L \<le> 9" "reserve U R V (addrs t i)"
    note K = fs_keepsD [OF t(2)]
    have V1: "V 1 = dsk s 1" using t(3) by (simp add: wrote_def Let_def)
    have ls: "length ?src = unat n" using n(2) by simp
    have ft: "ftable t = ftable s" using t(2) by (cases t, cases s) (simp add: fs_keeps_def set_inode_def set_log_def)
    have il: "i_ref (icache t i) = i_ref (icache s i)" "i_busy (icache t i)" "i_valid (icache t i)"
      using K(6,7) o t(2) unfolding fs_keeps_def by simp_all
    have ix: "ib t i \<in> ibs V" using a(3) layout_cong(4) [of V "dsk s", OF V1] K(3) by (simp add: is_file_def ib_def)
    have fl: "is_file A V t i" using t(1) a(3) K(2) ix by (simp add: fcx_def is_file_def)
    have cs: "contents V t i = list_write (unat off) ?src (contents (dsk s) s i)"
      using wrote_contents [OF t(3)] off(2,3) ls by (simp add: contents_def fs_consts)
    then have "unat (isize t i) = length (list_write (unat off) ?src (contents (dsk s) s i))" by (metis length_contents)
    then have sz: "unat (isize t i) \<le> MAXFILE * BSIZE" using off(2,3) a(5) ls by (simp add: list_write_def word_le_nat_alt)
    let ?t = "set_inode i (\<lambda>ip. ip\<lparr>i_busy := False\<rparr>) (if 0 < unat n then set_file f (\<lambda>f. f\<lparr>f_off := f_off f + n\<rparr>) t else t)"
    have "piece_post A U R (dsk s) s f i ?src V ?t"
      using fl cs sz t(5) a(4) il o ft K(5) off(1) ls n(2)
      by (auto simp: piece_post_def is_file_def file_open_def contents_def unat_eq_0)
    moreover have "tx A {} L V ?t" "tx_prog (trans_open s) ?t" using t(1,2) by (simp_all add: fcx_def fs_keeps_def)
    ultimately have p: "?P (int (unat n)) ?t" using V1 by blast
    have "wp (?k r) P t = P r (set_inode i (\<lambda>ip. ip\<lparr>i_busy := False\<rparr>) (if 0 < r then set_file f (\<lambda>f. f\<lparr>f_off := f_off f + word_of_int r\<rparr>) t else t))" for r P
      using il(1,2) o(1) by (simp add: iunlock_def inode_at_def)
    from this [of "int (unat n)"] p show "wp (?k (sint n)) ?P t" unfolding ns of_nat_0_less_iff word_of_unat by blast
  qed (use a(3) off(2) n(2) Q(3) in \<open>simp_all add: is_file_def\<close>)
  then have "wp (writei (e_devsw e) i src off n) (\<lambda>r. wp (?k r) ?P) ?b"
    using writei_take [of ?b i "e_devsw e" src off n] a(3) by (simp add: is_file_def)
  then show ?thesis using o off(1) by (simp add: piece_def ilock_def inode_at_def split del: if_split)
qed

lemma piece_trans:
  assumes at: "at_file A s f i" and off: "off = f_off (ftable s f)" "off \<le> isize s i" "unat off + unat n \<le> MAXFILE * BSIZE"
    and n: "unat n \<le> 1536" "unat n \<le> length src" and r: "reserve U R (dsk s) (addrs s i)" "write_slots (unat off) (unat n) \<subseteq> R" "card U \<le> 1"
  shows "\<exists>t. in_trans (piece e f i src n) s = Ok (int (unat n), t) \<and> at_file A t f i \<and> piece_post A U R (dsk s) s f i (take (unat n) src) (dsk t) t"
proof -
  have a: "quiet s" "A = log_area (klog s)" using at by (auto simp: at_file_def)
  let ?R = "\<lambda>r V m. r = int (unat n) \<and> (\<forall>t :: kstate. lstate.more t = m \<longrightarrow> piece_post A U R (dsk s) s f i (take (unat n) src) V t)"
  have "wp (piece e f i src n) (\<lambda>r t. \<exists>L V. tx A {} L V t \<and> tx_prog (trans_open s) t \<and> V 1 = dsk s 1 \<and> ?R r V (lstate.more t)) (trans_open s)"
  proof (rule wp_mono [OF piece_tx [OF assms, of e]])
    fix r t
    assume "r = int (unat n) \<and> (\<exists>L V. tx A {} L V t \<and> tx_prog (trans_open s) t \<and> V 1 = dsk s 1 \<and> piece_post A U R (dsk s) s f i (take (unat n) src) V t)"
    then obtain L V where h: "r = int (unat n)" "tx A {} L V t" "tx_prog (trans_open s) t" "V 1 = dsk s 1" "piece_post A U R (dsk s) s f i (take (unat n) src) V t" by blast
    have "piece_post A U R (dsk s) s f i (take (unat n) src) V u" if "lstate.more u = lstate.more t" for u
      using piece_post_cong [of u t] fs_rest [OF that] h(5) by (cases u, cases t) simp
    then show "\<exists>L V. tx A {} L V t \<and> tx_prog (trans_open s) t \<and> V 1 = dsk s 1 \<and> ?R r V (lstate.more t)" using h by blast
  qed
  from in_trans_atomic [OF a(1), folded a(2), OF this] obtain t V where t: "in_trans (piece e f i src n) s = Ok (int (unat n), t)" "quiet t"
    "piece_post A U R (dsk s) s f i (take (unat n) src) V t" "\<forall>x. x \<notin> A \<longrightarrow> dsk t x = V x" "log_area (klog t) = A" by blast
  have fl: "is_file A V t i" using t(3) by (simp add: piece_post_def)
  note W = view_same_outside [where V' = "dsk t", OF fl]
  have "piece_post A U R (dsk s) s f i (take (unat n) src) (dsk t) t" using t(3,4) W by (simp add: piece_post_def)
  then show ?thesis using t(1,2,5) by (auto simp: at_file_def piece_post_def)
qed

lemma filewrite_loop_file:
  assumes "at_file A s f i" "0 \<le> k" "k \<le> n" "nat n \<le> length src"
    and "unat (f_off (ftable s f)) \<le> unat (isize s i)" "unat (f_off (ftable s f)) + nat (n - k) \<le> MAXFILE * BSIZE"
    and "reserve U R (dsk s) (addrs s i)" "write_slots (unat (f_off (ftable s f))) (nat (n - k)) \<subseteq> R" "card U \<le> 1"
  shows "\<exists>t. filewrite_loop e f i src n k s = Ok (n, t) \<and> at_file A t f i
    \<and> contents (dsk t) t i = list_write (unat (f_off (ftable s f))) (take (nat (n - k)) (drop (nat k) src)) (contents (dsk s) s i)
    \<and> f_off (ftable t f) = f_off (ftable s f) + word_of_int (n - k)
    \<and> (\<forall>g. g \<noteq> f \<longrightarrow> ftable t g = ftable s g) \<and> (\<forall>j. j \<noteq> i \<longrightarrow> icache t j = icache s j)"
  using assms(1-8)
proof (induction "nat (n - k)" arbitrary: k s rule: less_induct)
  case less
  let ?off = "f_off (ftable s f)" and ?n = "min (n - k) WRITE_MAX"
  show ?case
  proof (cases "k < n")
    case False
    then have k: "k = n" using less.prems(3) by simp
    have "list_write (unat ?off) [] (contents (dsk s) s i) = contents (dsk s) s i" by (simp add: list_write_def)
    then show ?thesis using less.prems(1) k by (subst loop_piece) simp
  next
    case True
    have W: "WRITE_MAX = 1536" by (simp add: WRITE_MAX_def LOGSIZE_def)
    let ?m = "word_of_int ?n :: u32"
    have n: "0 < ?n" "?n \<le> n - k" "?n \<le> 1536" using True W by auto
    have m1: "unat ?m = nat ?n" by (rule unat_word_u32) (use n in simp, rule le_less_trans [OF n(3)], simp)
    have m: "unat ?m = nat ?n" "int (unat ?m) = ?n" "nat (n - (k + ?n)) = nat (n - k) - nat ?n" "nat ?n \<le> nat (n - k)"
      unfolding m1 using n(1,2) by linarith+
    note S = write_slots_mono [of "nat ?n" "nat (n - k)" "unat ?off", OF m(4)]
    have "\<exists>t. in_trans (piece e f i (drop (nat k) src) ?m) s = Ok (int (unat ?m), t) \<and> at_file A t f i
        \<and> piece_post A U R (dsk s) s f i (take (unat ?m) (drop (nat k) src)) (dsk t) t"
    proof (rule piece_trans [OF less.prems(1) refl _ _ _ _ less.prems(7) _ assms(9)])
      show "?off \<le> isize s i" using less.prems(5) by (simp add: word_le_nat_alt)
      show "unat ?off + unat ?m \<le> MAXFILE * BSIZE" unfolding m1 using less.prems(6) m(4) by linarith
      show "unat ?m \<le> 1536" unfolding m1 using n(3) by linarith
      show "unat ?m \<le> length (drop (nat k) src)" unfolding m1 length_drop using less.prems(2,4) n(2) by linarith
      show "write_slots (unat ?off) (unat ?m) \<subseteq> R" using S(2) less.prems(8) m(1) by simp
    qed
    then obtain t where t: "in_trans (piece e f i (drop (nat k) src) ?m) s = Ok (?n, t)" "at_file A t f i"
      and p: "piece_post A U R (dsk s) s f i (take (nat ?n) (drop (nat k) src)) (dsk t) t" unfolding m(2) unfolding m(1) by blast
    let ?bs = "take (nat ?n) (drop (nat k) src)"
    have "nat ?n \<le> length (drop (nat k) src)" unfolding length_drop using less.prems(2,4) n(2) by linarith
    then have lb: "length ?bs = nat ?n" by simp
    have P: "contents (dsk t) t i = list_write (unat ?off) ?bs (contents (dsk s) s i)" "f_off (ftable t f) = ?off + of_nat (nat ?n)"
      "reserve U R (dsk t) (addrs t i)" "\<forall>g. g \<noteq> f \<longrightarrow> ftable t g = ftable s g" "\<forall>j. j \<noteq> i \<longrightarrow> icache t j = icache s j"
      using p lb by (simp_all add: piece_post_def)
    have ot: "unat (f_off (ftable t f)) = unat ?off + nat ?n"
      unfolding P(2) using less.prems(6) m(4) by (simp add: unat_add_u32 fs_consts)
    have sz: "unat (isize t i) = length (list_write (unat ?off) ?bs (contents (dsk s) s i))" using P(1) by (metis length_contents)
    have "\<exists>u. filewrite_loop e f i src n (k + ?n) t = Ok (n, u) \<and> at_file A u f i
      \<and> contents (dsk u) u i = list_write (unat (f_off (ftable t f))) (take (nat (n - (k + ?n))) (drop (nat (k + ?n)) src)) (contents (dsk t) t i)
      \<and> f_off (ftable u f) = f_off (ftable t f) + word_of_int (n - (k + ?n))
      \<and> (\<forall>g. g \<noteq> f \<longrightarrow> ftable u g = ftable t g) \<and> (\<forall>j. j \<noteq> i \<longrightarrow> icache u j = icache t j)"
    proof (rule less.hyps [OF _ t(2) _ _ less.prems(4) _ _ P(3)])
      show "nat (n - (k + ?n)) < nat (n - k)" "0 \<le> k + ?n" "k + ?n \<le> n" using n less.prems(2) by auto
      show "unat (f_off (ftable t f)) \<le> unat (isize t i)" unfolding ot sz using less.prems(5) lb by (simp add: list_write_def)
      show "unat (f_off (ftable t f)) + nat (n - (k + ?n)) \<le> MAXFILE * BSIZE" unfolding ot m(3) using less.prems(6) m(4) by simp
      show "write_slots (unat (f_off (ftable t f))) (nat (n - (k + ?n))) \<subseteq> R" unfolding ot m(3) using S(1) less.prems(8) by simp
    qed
    then obtain u where u: "filewrite_loop e f i src n (k + ?n) t = Ok (n, u)" "at_file A u f i"
      "contents (dsk u) u i = list_write (unat ?off + nat ?n) (take (nat (n - (k + ?n))) (drop (nat (k + ?n)) src)) (contents (dsk t) t i)"
      "f_off (ftable u f) = ?off + of_nat (nat ?n) + word_of_int (n - (k + ?n))"
      "\<forall>g. g \<noteq> f \<longrightarrow> ftable u g = ftable t g" "\<forall>j. j \<noteq> i \<longrightarrow> icache u j = icache t j" unfolding ot unfolding P(2) by blast
    have ap: "take (nat (n - k)) (drop (nat k) src) = ?bs @ take (nat (n - (k + ?n))) (drop (nat (k + ?n)) src)"
      using take_add [of "nat ?n" "nat (n - k) - nat ?n" "drop (nat k) src"] m(3,4) less.prems(2) n by (simp add: nat_add_distrib add.commute)
    have "list_write (unat ?off + length ?bs) (take (nat (n - (k + ?n))) (drop (nat (k + ?n)) src)) (list_write (unat ?off) ?bs (contents (dsk s) s i))
        = list_write (unat ?off) (take (nat (n - k)) (drop (nat k) src)) (contents (dsk s) s i)"
      unfolding ap by (rule list_write_append) (use less.prems(5) in simp)
    then have c: "contents (dsk u) u i = list_write (unat ?off) (take (nat (n - k)) (drop (nat k) src)) (contents (dsk s) s i)"
      using u(3) P(1) lb by simp
    have "of_nat (nat ?n) = (word_of_int ?n :: u32)" by (rule of_nat_nat) (rule less_imp_le [OF n(1)])
    then have o: "f_off (ftable u f) = ?off + word_of_int (n - k)" using u(4) by simp
    have "filewrite_loop e f i src n k s = Ok (n, u)"
    proof -
      have "\<not> ?n < 0" using n(1) by linarith
      then show ?thesis using True t(1) u(1) by (subst loop_piece) (simp add: kbind_def if_not_P [OF \<open>\<not> ?n < 0\<close>])
    qed
    then show ?thesis using u(2,5,6) c o P(4,5) by auto
  qed
qed

text \<open>Positioning and reading leave the file as it is.\<close>

lemma seek_read:
  assumes at: "at_file A t f i" and p: "0 \<le> p" "p < 2 ^ 31" and m: "0 \<le> m" "m < 2 ^ 31"
  shows "wp (kthen (fileseek f p 0) (fileread e f m)) (\<lambda>r u. r = PDone (list_read (nat p) (nat m) (contents (dsk t) t i))) t"
proof -
  have a: "quiet t" "A = log_area (klog t)" "is_file A (dsk t) t i" "file_open t f i" "unat (isize t i) \<le> MAXFILE * BSIZE"
    using at unfolding at_file_def by blast+
  let ?t = "set_file f (\<lambda>f. f\<lparr>f_off := word_of_int p\<rparr>) t"
  let ?u = "set_inode i (i_busy_update (\<lambda>_. True)) (set_inode i (i_busy_update (\<lambda>_. False))
    (set_file f (\<lambda>f. f\<lparr>f_off := word_of_int p\<rparr>) (set_inode i (i_busy_update (\<lambda>_. True)) t)))"
  have tx: "tx A {} {} (dsk t) ?u" using quiet_tx [OF a(1)] a(2) by simp
  have c: "fcx A {} (dsk t) i ?u" "d_type (i_di (icache ?u i)) \<noteq> T_DEV" using tx a(3) by (simp_all add: fcx_def is_file_def)
  have u: "unat (word_of_int p :: u32) = nat p" "unat (word_of_int m :: u32) = nat m" using p m by (simp_all add: unat_word_u32)
  have rd: "rd_result (dsk t) (addrs ?u i) (isize ?u i) (word_of_int p) (word_of_int m) = list_read (nat p) (nat m) (contents (dsk t) t i)"
    using rd_contents [of ?u i "word_of_int m" "dsk t" "word_of_int p"] a(5) m u by (simp add: contents_def nat_less_iff)
  have "wp (readi (e_devsw e) i (word_of_int p) (word_of_int m)) (\<lambda>r v. r = list_read (nat p) (nat m) (contents (dsk t) t i)
      \<and> i_busy (icache v i) \<and> 1 \<le> i_ref (icache v i)) ?u"
  proof (rule readi_tx [OF c(1) _ c(2)])
    fix v assume "tx_keeps ?u v"
    then have "icache v = icache ?u" using fs_rest(1) [of v ?u] by (simp add: tx_keeps_def)
    then show "rd_result (dsk t) (addrs ?u i) (isize ?u i) (word_of_int p) (word_of_int m) = list_read (nat p) (nat m) (contents (dsk t) t i)
      \<and> i_busy (icache v i) \<and> 1 \<le> i_ref (icache v i)" unfolding rd using a(4) by (simp add: file_open_def)
  qed simp
  then have "wp (readi (e_devsw e) i (word_of_int p) (word_of_int m)) (\<lambda>r. wp (kthen (kwhen (0 < fst r)
      (kmod (set_file f (\<lambda>f. f\<lparr>f_off := f_off f + word_of_int (fst r)\<rparr>)))) (kthen (iunlock i) (kreturn (PDone r))))
      (\<lambda>r u. r = PDone (list_read (nat p) (nat m) (contents (dsk t) t i)))) ?u"
    by (rule wp_mono) (simp add: iunlock_def inode_at_def)
  then show ?thesis using a(4) p(1)
    by (simp add: file_open_def fileseek_def fileread_def ilock_def iunlock_def inode_at_def stati_def Let_def split del: if_split)
qed

text \<open>
  C4. Files are sequences of bytes. \<open>filewrite\<close> on a regular file that is open for writing, at any offset inside the file, with any alignment and any number of bytes up to the
  largest file size, returns the number of bytes: it cuts them into pieces of at most 1536, writes each in a transaction of its own, which commits, without a panic, and the contents of the
  file are then the old ones with the bytes put in at the offset, which has moved behind them. Whatever range of the file is read afterwards, \<open>fileread\<close> returns it.
  The blocks that the file needs are free, and one block of the bitmap describes the first ones of them, those that will be taken.
\<close>

theorem filewrite_refines_bytes:
  assumes at: "at_file A s f i" and off: "off = f_off (ftable s f)" "off \<le> isize s i"
    and n: "0 \<le> n" "unat off + nat n \<le> MAXFILE * BSIZE" "nat n \<le> length src"
    and fr: "k = holes (write_slots (unat off) (nat n)) (dsk s) (addrs s i)" "k \<le> card (free (dsk s))" "card (bitmaps k (dsk s)) \<le> 1"
  shows "\<exists>t. filewrite e f src n s = Ok (PDone n, t) \<and> at_file A t f i \<and> f_off (ftable t f) = off + word_of_int n
    \<and> contents (dsk t) t i = list_write (unat off) (take (nat n) src) (contents (dsk s) s i)
    \<and> (\<forall>g. g \<noteq> f \<longrightarrow> ftable t g = ftable s g) \<and> (\<forall>j. j \<noteq> i \<longrightarrow> icache t j = icache s j)
    \<and> (\<forall>p m. 0 \<le> p \<longrightarrow> p < 2 ^ 31 \<longrightarrow> 0 \<le> m \<longrightarrow> m < 2 ^ 31 \<longrightarrow>
         wp (kthen (fileseek f p 0) (fileread e f m)) (\<lambda>r u. r = PDone (list_read (nat p) (nat m) (contents (dsk t) t i))) t)"
proof -
  let ?R = "write_slots (unat off) (nat n)"
  have r: "reserve (bitmaps k (dsk s)) ?R (dsk s) (addrs s i)" using write_slots_ok [OF n(2)] fr by (simp add: reserve_def)
  have o: "unat (f_off (ftable s f)) \<le> unat (isize s i)" using off by (simp add: word_le_nat_alt)
  from filewrite_loop_file [OF at order_refl n(1,3) o _ r _ fr(3), of e] n(2) off(1)
  obtain t where t: "filewrite_loop e f i src n 0 s = Ok (n, t)" "at_file A t f i" "f_off (ftable t f) = off + word_of_int n"
    "contents (dsk t) t i = list_write (unat off) (take (nat n) src) (contents (dsk s) s i)"
    "\<forall>g. g \<noteq> f \<longrightarrow> ftable t g = ftable s g" "\<forall>j. j \<noteq> i \<longrightarrow> icache t j = icache s j" by auto
  have "file_open s f i" using at by (simp add: at_file_def)
  then have "filewrite e f src n s = Ok (PDone n, t)" using t(1) by (simp add: filewrite_def file_open_def kop_defs kget_def kderef_def)
  then show ?thesis using t(2-6) seek_read [OF t(2)] by (intro exI [of _ t]) simp
qed

text \<open>The example file system, with its empty file open.\<close>

definition demo_open :: kstate where
  "demo_open = set_inode 0 (\<lambda>n. n\<lparr>i_busy := False\<rparr>) (demo_fs_of (kstate.fields demo_vm (\<lambda>_. pipe_new (replicate PIPESIZE 0)) demo_procs
     (\<lambda>_. demo_file\<lparr>f_type := FD_INODE, f_ref := 1, f_readable := True, f_writable := True, f_ip := Some 0\<rparr>) (\<lambda>_. demo_listener) (Some 1) (Some 0) 4 0))"

lemma fields_ftable: "fstate.more s = kstate.fields m p pt ft l c i n g \<Longrightarrow> ftable s = ft" for s :: kstate
  by (cases s) (simp add: kstate.defs)

lemma demo_fs_more: "fstate.more (demo_fs_of m) = m"
proof -
  have "bstate.more (demo_fs_of m) = bstate.more (demo_fs_raw m)" by (simp add: demo_fs_of_def)
  then show ?thesis by (cases "demo_fs_of m") (simp add: demo_fs_raw_def)
qed

lemma demo_open_facts:
  "quiet demo_open" "klog demo_open = demo_log" "dsk demo_open = demo_blocks" "icache demo_open 0 = demo_ino\<lparr>i_busy := False\<rparr>"
  "ftable demo_open 0 = demo_file\<lparr>f_type := FD_INODE, f_ref := 1, f_readable := True, f_writable := True, f_ip := Some 0\<rparr>"
proof -
  show "quiet demo_open" "klog demo_open = demo_log" "dsk demo_open = demo_blocks" "icache demo_open 0 = demo_ino\<lparr>i_busy := False\<rparr>"
    using demo_fs_quiet(1) by (simp_all add: demo_open_def demo_fs_quiet quiet_def log_inv_def)
  have "ftable demo_open = (\<lambda>_. demo_file\<lparr>f_type := FD_INODE, f_ref := 1, f_readable := True, f_writable := True, f_ip := Some 0\<rparr>)"
    unfolding demo_open_def set_inode_ftable by (rule fields_ftable) (rule demo_fs_more)
  then show "ftable demo_open 0 = demo_file\<lparr>f_type := FD_INODE, f_ref := 1, f_readable := True, f_writable := True, f_ip := Some 0\<rparr>" by simp
qed

theorem filewrite_refines_bytes_witness:
  "\<exists>t. filewrite demo_env 0 (replicate 2000 65) 2000 demo_open = Ok (PDone 2000, t) \<and> contents (dsk t) t 0 = replicate 2000 65
    \<and> wp (kthen (fileseek 0 1500 0) (fileread demo_env 0 100)) (\<lambda>r u. r = PDone (100, replicate 100 65)) t"
proof -
  let ?A = "log_area demo_log"
  note D = demo_open_facts
  have a: "addrs demo_open 0 = replicate 13 0" "isize demo_open 0 = 0" by (simp_all add: addrs_def isize_def D demo_ino_def)
  have "is_file ?A demo_blocks demo_open 0" using demo_fs_file [of "()"] by (simp add: is_file_def demo_fs_quiet D addrs_def ib_def)
  then have at: "at_file ?A demo_open 0 0" using D(1) by (simp add: at_file_def D a file_open_def demo_ino_def)
  have k: "holes (write_slots 0 2000) demo_blocks (replicate 13 0) = 4"
  proof -
    have "write_slots 0 2000 = (\<Union>bn \<in> fst ` set (chunks 0 2000). anc (leaf bn))" by (simp add: write_slots_def)
    also have "\<dots> = Top ` {0..3}" unfolding chunks_blocks by (auto simp: leaf_def fs_consts)
    finally have w: "write_slots 0 2000 = Top ` {0..3}" .
    have "{p \<in> Top ` {0..3}. slot_val demo_blocks (replicate 13 0) p = 0} = Top ` {0..3}" by auto
    then show ?thesis by (simp add: holes_def w card_image inj_on_def)
  qed
  have f: "4 \<le> card (free demo_blocks)"
  proof -
    have "card {96, 97, 98, 99 :: u32} \<le> card (free demo_blocks)" by (rule card_mono) (auto simp: demo_fs_free)
    then show ?thesis by simp
  qed
  have "bitmaps 4 demo_blocks \<subseteq> {4}"
  proof
    fix x assume "x \<in> bitmaps 4 demo_blocks"
    then obtain b where "b \<in> free demo_blocks" "x = bmb demo_blocks b" unfolding bitmaps_def by (auto dest: in_set_takeD)
    then show "x \<in> {4}" using bmb_in [of b demo_blocks] demo_fs_meta(1) by (auto simp: free_def)
  qed
  then have b: "card (bitmaps 4 demo_blocks) \<le> 1" using card_mono [OF finite.insertI [OF finite.emptyI], of "bitmaps 4 demo_blocks"] by (simp only: card.empty card_insert_disjoint finite.emptyI empty_iff not_False_eq_True One_nat_def)
  have o: "f_off (ftable demo_open 0) = 0" by (simp add: D demo_file_def)
  have c0: "contents (dsk demo_open) demo_open 0 = []" by (simp add: contents_def a)
  have n: "f_off (ftable demo_open 0) \<le> isize demo_open 0" "(0 :: int) \<le> 2000" "unat (f_off (ftable demo_open 0)) + nat 2000 \<le> MAXFILE * BSIZE"
    "nat 2000 \<le> length (replicate 2000 (65 :: u8))"
    "4 = holes (write_slots (unat (f_off (ftable demo_open 0))) (nat 2000)) (dsk demo_open) (addrs demo_open 0)" "4 \<le> card (free (dsk demo_open))"
    "card (bitmaps 4 (dsk demo_open)) \<le> 1"
    unfolding o a D(3) using k f b by (simp_all only: unat_0 nat_numeral add_0 length_replicate order_refl zero_le_numeral) (simp add: fs_consts)
  from filewrite_refines_bytes [OF at refl n, of demo_env] obtain t where t: "filewrite demo_env 0 (replicate 2000 65) 2000 demo_open = Ok (PDone 2000, t)"
    "contents (dsk t) t 0 = list_write (unat (f_off (ftable demo_open 0))) (take (nat 2000) (replicate 2000 65)) (contents (dsk demo_open) demo_open 0)"
    "\<forall>p m. 0 \<le> p \<longrightarrow> p < 2 ^ 31 \<longrightarrow> 0 \<le> m \<longrightarrow> m < 2 ^ 31 \<longrightarrow>
      wp (kthen (fileseek 0 p 0) (fileread demo_env 0 m)) (\<lambda>r u. r = PDone (list_read (nat p) (nat m) (contents (dsk t) t 0))) t" by blast
  have c: "contents (dsk t) t 0 = replicate 2000 65" unfolding t(2) c0 by (simp only: list_write_def take_replicate append_Nil2 take_Nil drop_Nil append_Nil nat_numeral min.idem)
  have r: "list_read (nat 1500) (nat 100) (replicate 2000 65) = (100, replicate 100 65)"
    by (simp only: list_read_def nat_numeral length_replicate drop_replicate take_replicate) simp
  from spec [OF spec [OF t(3), of 1500], of 100] have "wp (kthen (fileseek 0 1500 0) (fileread demo_env 0 100)) (\<lambda>r u. r = PDone (100, replicate 100 65)) t"
    unfolding c r by simp
  then show ?thesis using t(1) c by blast
qed

end
