(* ===== verification/Ipc.thy ===== *)
theory Ipc
  imports ProcSpec
begin

text \<open>
  The invariant of open files, pipes and local sockets. Every reference count is the number of references to the file: from
  the descriptors of the processes, from connected sockets to the pipe ends they use, from the queues of pending connections, and
  from local variables of the running operation (\<open>X\<close>). An open pipe end refers to an allocated page, a pipe has at most
  one file for each end, and its flags say which ends are open.
\<close>


subsection \<open>Counting references\<close>

definition is_conn :: "kfile \<Rightarrow> bool" where
  "is_conn f \<longleftrightarrow> 0 < f_ref f \<and> f_type f = FD_USOCK \<and> f_ustate f = USOCK_CONN"

definition conn_refs :: "kfile \<Rightarrow> nat \<Rightarrow> nat" where
  "conn_refs f i = (if is_conn f then of_bool (f_rx f = Some i) + of_bool (f_tx f = Some i) else 0)"

text \<open>The pending connections of a listener, oldest first.\<close>

definition lpend :: "listener \<Rightarrow> nat option list" where
  "lpend l = map (\<lambda>k. l_pending l ! ((l_head l + k) mod USOCK_PENDING_MAX)) [0..<l_cnt l]"

definition frefs :: "kstate \<Rightarrow> nat \<Rightarrow> nat" where
  "frefs s i = (\<Sum>p < NPROC. count_list (pr_ofile (ptable s p)) (Some i)) + (\<Sum>j < NFILE. conn_refs (ftable s j) i)
     + (\<Sum>l < NUSOCK. count_list (lpend (listeners s l)) (Some i))"

lemma sum_upd:
  fixes g :: "'a \<Rightarrow> nat" and n :: nat
  assumes "j < n"
  shows "(\<Sum>k < n. g ((f(j := v)) k)) + g (f j) = (\<Sum>k < n. g (f k)) + g v"
proof -
  have j: "j \<in> {..<n}" using assms by simp
  have "(\<Sum>k < n. g ((f(j := v)) k)) = g v + (\<Sum>k \<in> {..<n} - {j}. g (f k))"
    by (subst sum.remove [OF finite_lessThan j]) (auto intro: sum.cong)
  moreover have "(\<Sum>k < n. g (f k)) = g (f j) + (\<Sum>k \<in> {..<n} - {j}. g (f k))"
    by (subst sum.remove [OF finite_lessThan j]) (auto intro: sum.cong)
  ultimately show ?thesis by simp
qed

lemma frefs_set_file:
  "j < NFILE \<Longrightarrow> frefs (set_file j f s) i + conn_refs (ftable s j) i = frefs s i + conn_refs (f (ftable s j)) i"
  using sum_upd [of j NFILE "\<lambda>x. conn_refs x i" "ftable s" "f (ftable s j)"] by (simp add: frefs_def)

lemma frefs_set_listener:
  "l < NUSOCK \<Longrightarrow> frefs (set_listener l f s) i + count_list (lpend (listeners s l)) (Some i)
     = frefs s i + count_list (lpend (f (listeners s l))) (Some i)"
  using sum_upd [of l NUSOCK "\<lambda>x. count_list (lpend x) (Some i)" "listeners s" "f (listeners s l)"] by (simp add: frefs_def)

lemma frefs_set_proc:
  "p < NPROC \<Longrightarrow> frefs (set_proc p f s) i + count_list (pr_ofile (ptable s p)) (Some i)
     = frefs s i + count_list (pr_ofile (f (ptable s p))) (Some i)"
  using sum_upd [of p NPROC "\<lambda>x. count_list (pr_ofile x) (Some i)" "ptable s" "f (ptable s p)"] by (simp add: frefs_def)

lemma frefs_other [simp]:
  "frefs (set_pipe a p s) = frefs s" "frefs (s\<lparr>kmem_of := m\<rparr>) = frefs s" "frefs (wakeup1 c s) = frefs s"
  by (simp_all add: frefs_def fun_eq_iff)


subsection \<open>The invariant\<close>

definition ref_ok :: "(nat \<Rightarrow> nat) \<Rightarrow> kstate \<Rightarrow> bool" where
  "ref_ok X s \<longleftrightarrow> (\<forall>i. if i < NFILE then f_ref (ftable s i) = int (frefs s i + X i) else frefs s i + X i = 0)"

text \<open>File \<open>i\<close> is the write end (\<open>w\<close>) or the read end of the pipe at \<open>a\<close>.\<close>

definition is_end :: "kstate \<Rightarrow> nat \<Rightarrow> u32 \<Rightarrow> bool \<Rightarrow> bool" where
  "is_end s i a w \<longleftrightarrow> i < NFILE \<and> 0 < f_ref (ftable s i) \<and> f_type (ftable s i) = FD_PIPE \<and> f_pipe (ftable s i) = a
     \<and> f_writable (ftable s i) = w \<and> f_readable (ftable s i) = (\<not> w)"

definition pipe_ok :: "kstate \<Rightarrow> bool" where
  "pipe_ok s \<longleftrightarrow> kmem_inv (kmem_of s)
     \<and> (\<forall>i < NFILE. 0 < f_ref (ftable s i) \<longrightarrow> f_type (ftable s i) = FD_PIPE \<longrightarrow> f_readable (ftable s i) = (\<not> f_writable (ftable s i)))
     \<and> (\<forall>i j a w. is_end s i a w \<longrightarrow> is_end s j a w \<longrightarrow> i = j)
     \<and> (\<forall>i a w. is_end s i a w \<longrightarrow> page_ok (kmem_of s) a \<and> a \<notin> free_pages (kmem_of s) \<and> pipe_inv (pipes s a)
          \<and> p_readopen (pipes s a) = (\<exists>j. is_end s j a False) \<and> p_writeopen (pipes s a) = (\<exists>j. is_end s j a True))"

definition ring_ok :: "listener \<Rightarrow> bool" where
  "ring_ok l \<longleftrightarrow> length (l_pending l) = USOCK_PENDING_MAX \<and> l_head l < USOCK_PENDING_MAX \<and> l_cnt l \<le> USOCK_PENDING_MAX
     \<and> l_tail l = (l_head l + l_cnt l) mod USOCK_PENDING_MAX \<and> l_backlog l \<le> int USOCK_PENDING_MAX"

definition sock_ok :: "kstate \<Rightarrow> bool" where
  "sock_ok s \<longleftrightarrow> (\<forall>i < NFILE. is_conn (ftable s i) \<longrightarrow>
       (\<exists>r w a b. f_rx (ftable s i) = Some r \<and> f_tx (ftable s i) = Some w \<and> is_end s r a False \<and> is_end s w b True))
     \<and> (\<forall>l < NUSOCK. ring_ok (listeners s l) \<and>
         (\<forall>x \<in> set (lpend (listeners s l)). \<exists>i < NFILE. x = Some i \<and> is_conn (ftable s i)))"

definition ipc :: "(nat \<Rightarrow> nat) \<Rightarrow> kstate \<Rightarrow> bool" where
  "ipc X s \<longleftrightarrow> ref_ok X s \<and> pipe_ok s \<and> sock_ok s \<and> (\<forall>i < NFILE. f_ref (ftable s i) = 0 \<longrightarrow> f_type (ftable s i) = FD_NONE)"

abbreviation hold :: "(nat \<Rightarrow> nat) \<Rightarrow> nat \<Rightarrow> nat \<Rightarrow> nat" where
  "hold X i \<equiv> X(i := X i + 1)"

lemma ipcD:
  assumes "ipc X s"
  shows "i < NFILE \<Longrightarrow> f_ref (ftable s i) = int (frefs s i + X i)" "NFILE \<le> i \<Longrightarrow> frefs s i = 0 \<and> X i = 0"
    "kmem_inv (kmem_of s)"
    "i < NFILE \<Longrightarrow> 0 < f_ref (ftable s i) \<Longrightarrow> f_type (ftable s i) = FD_PIPE \<Longrightarrow> is_end s i (f_pipe (ftable s i)) (f_writable (ftable s i))"
    "is_end s i a w \<Longrightarrow> is_end s j a w \<Longrightarrow> i = j"
    "is_end s i a w \<Longrightarrow> page_ok (kmem_of s) a \<and> a \<notin> free_pages (kmem_of s) \<and> pipe_inv (pipes s a)"
    "is_end s i a w \<Longrightarrow> p_readopen (pipes s a) = (\<exists>j. is_end s j a False)"
    "is_end s i a w \<Longrightarrow> p_writeopen (pipes s a) = (\<exists>j. is_end s j a True)"
    "i < NFILE \<Longrightarrow> is_conn (ftable s i) \<Longrightarrow> \<exists>r w a b. f_rx (ftable s i) = Some r \<and> f_tx (ftable s i) = Some w \<and> is_end s r a False \<and> is_end s w b True"
    "l < NUSOCK \<Longrightarrow> ring_ok (listeners s l)"
    "l < NUSOCK \<Longrightarrow> x \<in> set (lpend (listeners s l)) \<Longrightarrow> \<exists>i < NFILE. x = Some i \<and> is_conn (ftable s i)"
    "i < NFILE \<Longrightarrow> f_ref (ftable s i) = 0 \<Longrightarrow> f_type (ftable s i) = FD_NONE"
proof -
  have A: "ref_ok X s" "pipe_ok s" "sock_ok s" "\<forall>i < NFILE. f_ref (ftable s i) = 0 \<longrightarrow> f_type (ftable s i) = FD_NONE"
    using assms by (simp_all add: ipc_def)
  have "if i < NFILE then f_ref (ftable s i) = int (frefs s i + X i) else frefs s i + X i = 0"
    using A(1) unfolding ref_ok_def by blast
  then show "i < NFILE \<Longrightarrow> f_ref (ftable s i) = int (frefs s i + X i)" "NFILE \<le> i \<Longrightarrow> frefs s i = 0 \<and> X i = 0"
    by auto
  show "kmem_inv (kmem_of s)" using A(2) by (simp add: pipe_ok_def)
  show "i < NFILE \<Longrightarrow> 0 < f_ref (ftable s i) \<Longrightarrow> f_type (ftable s i) = FD_PIPE \<Longrightarrow> is_end s i (f_pipe (ftable s i)) (f_writable (ftable s i))"
    using A(2) by (simp add: pipe_ok_def is_end_def)
  show "is_end s i a w \<Longrightarrow> is_end s j a w \<Longrightarrow> i = j" using A(2) unfolding pipe_ok_def by blast
  show "is_end s i a w \<Longrightarrow> page_ok (kmem_of s) a \<and> a \<notin> free_pages (kmem_of s) \<and> pipe_inv (pipes s a)"
    "is_end s i a w \<Longrightarrow> p_readopen (pipes s a) = (\<exists>j. is_end s j a False)"
    "is_end s i a w \<Longrightarrow> p_writeopen (pipes s a) = (\<exists>j. is_end s j a True)"
    using A(2) unfolding pipe_ok_def by blast+
  show "i < NFILE \<Longrightarrow> is_conn (ftable s i) \<Longrightarrow> \<exists>r w a b. f_rx (ftable s i) = Some r \<and> f_tx (ftable s i) = Some w \<and> is_end s r a False \<and> is_end s w b True"
    "l < NUSOCK \<Longrightarrow> ring_ok (listeners s l)"
    "l < NUSOCK \<Longrightarrow> x \<in> set (lpend (listeners s l)) \<Longrightarrow> \<exists>i < NFILE. x = Some i \<and> is_conn (ftable s i)"
    using A(3) unfolding sock_ok_def by blast+
  show "i < NFILE \<Longrightarrow> f_ref (ftable s i) = 0 \<Longrightarrow> f_type (ftable s i) = FD_NONE" using A(4) by blast
qed


lemma frefs_zero:
  assumes "frefs s i = 0"
  shows "l < NUSOCK \<Longrightarrow> Some i \<notin> set (lpend (listeners s l))" "j < NFILE \<Longrightarrow> conn_refs (ftable s j) i = 0"
    "p < NPROC \<Longrightarrow> Some i \<notin> set (pr_ofile (ptable s p))"
  using assms by (auto simp: frefs_def count_list_0_iff)

lemma is_end_cong:
  "ftable t i = ftable s i \<Longrightarrow> is_end t i a w = is_end s i a w"
  by (simp add: is_end_def)

lemma sock_okI:
  assumes "\<And>i. i < NFILE \<Longrightarrow> is_conn (ftable s i) \<Longrightarrow>
      \<exists>r w a b. f_rx (ftable s i) = Some r \<and> f_tx (ftable s i) = Some w \<and> is_end s r a False \<and> is_end s w b True"
    and "\<And>l. l < NUSOCK \<Longrightarrow> ring_ok (listeners s l)"
    and "\<And>l x. l < NUSOCK \<Longrightarrow> x \<in> set (lpend (listeners s l)) \<Longrightarrow> \<exists>i < NFILE. x = Some i \<and> is_conn (ftable s i)"
  shows "sock_ok s"
  using assms unfolding sock_ok_def by blast

lemma pipe_okI:
  assumes "kmem_inv (kmem_of s)"
    and "\<And>i. i < NFILE \<Longrightarrow> 0 < f_ref (ftable s i) \<Longrightarrow> f_type (ftable s i) = FD_PIPE \<Longrightarrow> f_readable (ftable s i) = (\<not> f_writable (ftable s i))"
    and "\<And>i j a w. is_end s i a w \<Longrightarrow> is_end s j a w \<Longrightarrow> i = j"
    and "\<And>i a w. is_end s i a w \<Longrightarrow> page_ok (kmem_of s) a \<and> a \<notin> free_pages (kmem_of s) \<and> pipe_inv (pipes s a)"
    and "\<And>i a w. is_end s i a w \<Longrightarrow> p_readopen (pipes s a) = (\<exists>j. is_end s j a False)"
    and "\<And>i a w. is_end s i a w \<Longrightarrow> p_writeopen (pipes s a) = (\<exists>j. is_end s j a True)"
  shows "pipe_ok s"
  using assms unfolding pipe_ok_def by blast

lemma pipe_ok_cong:
  assumes "pipe_ok s" "is_end t = is_end s" "kmem_of t = kmem_of s" "pipes t = pipes s"
    and "\<And>i. i < NFILE \<Longrightarrow> 0 < f_ref (ftable t i) \<Longrightarrow> f_type (ftable t i) = FD_PIPE \<Longrightarrow> f_readable (ftable t i) = (\<not> f_writable (ftable t i))"
  shows "pipe_ok t"
  using assms(1,5) unfolding pipe_ok_def assms(2-4) by blast

text \<open>A state with the same files up to positive counts, the same listeners and the same pipes.\<close>

lemma ipc_same_files:
  assumes i: "ipc Y s" and r: "ref_ok X t"
    and f: "\<And>j. j < NFILE \<Longrightarrow> ftable t j = (ftable s j)\<lparr>f_ref := f_ref (ftable t j)\<rparr>"
    and z: "\<And>j. j < NFILE \<Longrightarrow> 0 < f_ref (ftable t j) \<longleftrightarrow> 0 < f_ref (ftable s j)"
    and o: "listeners t = listeners s" "pipes t = pipes s" "kmem_of t = kmem_of s"
  shows "ipc X t"
proof -
  note I = ipcD [OF i]
  have g: "f_type (ftable t j) = f_type (ftable s j)" "f_pipe (ftable t j) = f_pipe (ftable s j)" "f_writable (ftable t j) = f_writable (ftable s j)"
    "f_readable (ftable t j) = f_readable (ftable s j)" "f_ustate (ftable t j) = f_ustate (ftable s j)" "f_rx (ftable t j) = f_rx (ftable s j)"
    "f_tx (ftable t j) = f_tx (ftable s j)" if "j < NFILE" for j
    by (subst f [OF that]; simp)+
  have e: "is_end t = is_end s" using g z by (auto simp: is_end_def fun_eq_iff)
  have c: "is_conn (ftable t j) = is_conn (ftable s j)" if "j < NFILE" for j using g [OF that] z [OF that] by (simp add: is_conn_def)
  have n: "0 \<le> f_ref (ftable t j)" if "j < NFILE" for j using r that spec [of _ j] by (auto simp: ref_ok_def)
  have "f_type (ftable t j) = FD_NONE" if "j < NFILE" "f_ref (ftable t j) = 0" for j
  proof -
    have "0 \<le> f_ref (ftable s j)" using I(1) [OF that(1)] by simp
    then have "f_ref (ftable s j) = 0" using z [OF that(1)] that(2) by linarith
    then show ?thesis using I(12) g(1) that(1) by simp
  qed
  moreover have "pipe_ok t" using i g z e o unfolding ipc_def pipe_ok_def by simp
  moreover have "sock_ok t"
  proof (rule sock_okI)
    show "\<exists>r w a b. f_rx (ftable t j) = Some r \<and> f_tx (ftable t j) = Some w \<and> is_end t r a False \<and> is_end t w b True"
      if "j < NFILE" "is_conn (ftable t j)" for j
      unfolding e g(6,7) [OF that(1)] by (rule I(9)) (use that c in auto)
    show "\<exists>i < NFILE. x = Some i \<and> is_conn (ftable t i)" if "l < NUSOCK" "x \<in> set (lpend (listeners t l))" for l x
      using I(11) [of l x] that c o(1) by auto
  qed (use I(10) o(1) in simp)
  ultimately show ?thesis using r by (simp add: ipc_def)
qed

lemma ref_ok_cong: "ftable t = ftable s \<Longrightarrow> frefs t = frefs s \<Longrightarrow> ref_ok X t = ref_ok X s"
  by (simp add: ref_ok_def)

lemma ref_ok_hold:
  assumes "ref_ok (hold X i) s" "i < NFILE"
  shows "f_ref (ftable s i) = int (frefs s i + X i) + 1" "j \<noteq> i \<Longrightarrow> j < NFILE \<Longrightarrow> f_ref (ftable s j) = int (frefs s j + X j)"
    "NFILE \<le> j \<Longrightarrow> frefs s j + X j = 0"
proof -
  have "if j < NFILE then f_ref (ftable s j) = int (frefs s j + hold X i j) else frefs s j + hold X i j = 0" for j
    using assms(1) unfolding ref_ok_def by blast
  from this [of i] this [of j] show "f_ref (ftable s i) = int (frefs s i + X i) + 1"
    "j \<noteq> i \<Longrightarrow> j < NFILE \<Longrightarrow> f_ref (ftable s j) = int (frefs s j + X j)" "NFILE \<le> j \<Longrightarrow> frefs s j + X j = 0"
    using assms(2) by auto
qed

lemma conn_refs_ref: "0 < f_ref f \<Longrightarrow> 0 < r \<Longrightarrow> conn_refs (f\<lparr>f_ref := r\<rparr>) = conn_refs f"
  by (auto simp: conn_refs_def is_conn_def fun_eq_iff)

lemma drop_ref:
  assumes "ipc (hold X i) s" "i < NFILE" "1 < f_ref (ftable s i)"
  shows "ipc X (set_file i (\<lambda>f. f\<lparr>f_ref := f_ref f - 1\<rparr>) s)"
proof (rule ipc_same_files [OF assms(1)])
  let ?t = "set_file i (\<lambda>f. f\<lparr>f_ref := f_ref f - 1\<rparr>) s"
  have r: "ref_ok (hold X i) s" using assms(1) by (simp add: ipc_def)
  have e: "frefs ?t = frefs s"
    using frefs_set_file [OF assms(2), of "\<lambda>f. f\<lparr>f_ref := f_ref f - 1\<rparr>" s] conn_refs_ref [of "ftable s i"] assms(3) by (simp add: fun_eq_iff)
  show "ref_ok X ?t" unfolding ref_ok_def e using ref_ok_hold [OF r assms(2)] by auto
  show "ftable ?t j = (ftable s j)\<lparr>f_ref := f_ref (ftable ?t j)\<rparr>" "0 < f_ref (ftable ?t j) \<longleftrightarrow> 0 < f_ref (ftable s j)" for j
    using assms(3) by simp_all
qed simp_all



subsection \<open>The queue of pending connections\<close>

lemma ring_slot:
  assumes "(h + i) mod 16 = (h + j) mod (16 :: nat)" "i < 16" "j < 16"
  shows "i = j"
proof -
  have *: "x = y" if "x \<le> y" "y < 16" "(h + x) mod 16 = (h + y) mod 16" for x y :: nat
  proof -
    have "16 dvd y - x" using that mod_eq_dvd_iff_nat [of "h + x" "h + y" 16] by simp
    then show ?thesis using that by (auto dest: dvd_imp_le)
  qed
  show ?thesis using * [of i j] * [of j i] assms by (cases "i \<le> j") auto
qed

lemma lpend_put:
  assumes "ring_ok l" "l_cnt l < USOCK_PENDING_MAX"
  shows "ring_ok (pend_put x l) \<and> lpend (pend_put x l) = lpend l @ [x]"
proof -
  have r: "length (l_pending l) = 16" "l_head l < 16" "l_cnt l < 16" "l_tail l = (l_head l + l_cnt l) mod 16"
    using assms by (simp_all add: ring_ok_def USOCK_PENDING_MAX_def)
  have "lpend (pend_put x l) = lpend l @ [x]"
  proof (rule nth_equalityI)
    show "length (lpend (pend_put x l)) = length (lpend l @ [x])" by (simp add: lpend_def pend_put_def)
    fix k assume "k < length (lpend (pend_put x l))"
    then have k: "k \<le> l_cnt l" by (simp add: lpend_def pend_put_def)
    show "lpend (pend_put x l) ! k = (lpend l @ [x]) ! k"
    proof (cases "k = l_cnt l")
      case True
      then show ?thesis using r by (simp add: lpend_def pend_put_def USOCK_PENDING_MAX_def nth_append del: upt_Suc)
    next
      case False
      then have "(l_head l + k) mod 16 \<noteq> l_tail l" using ring_slot [of "l_head l" k "l_cnt l"] k r by auto
      then show ?thesis using False k by (simp add: lpend_def pend_put_def USOCK_PENDING_MAX_def nth_append del: upt_Suc)
    qed
  qed
  moreover have "ring_ok (pend_put x l)"
    using assms r by (simp add: ring_ok_def pend_put_def USOCK_PENDING_MAX_def mod_Suc_eq)
  ultimately show ?thesis by simp
qed

lemma lpend_get:
  assumes "ring_ok l" "l_cnt l \<noteq> 0"
  shows "fst (pend_get l) = hd (lpend l) \<and> ring_ok (snd (pend_get l)) \<and> lpend (snd (pend_get l)) = tl (lpend l)"
proof -
  have r: "length (l_pending l) = 16" "l_head l < 16" "l_cnt l \<le> 16" "l_tail l = (l_head l + l_cnt l) mod 16" "l_backlog l \<le> 16"
    using assms(1) by (simp_all add: ring_ok_def USOCK_PENDING_MAX_def)
  obtain c where c: "l_cnt l = Suc c" using assms(2) by (cases "l_cnt l") auto
  have hd: "hd (lpend l) = l_pending l ! l_head l"
    using c r(2) by (simp add: lpend_def USOCK_PENDING_MAX_def hd_map upt_conv_Cons del: upt_Suc)
  have "lpend (snd (pend_get l)) = tl (lpend l)"
  proof (rule nth_equalityI)
    show "length (lpend (snd (pend_get l))) = length (tl (lpend l))" by (simp add: lpend_def pend_get_def)
    fix k assume "k < length (lpend (snd (pend_get l)))"
    then have k: "k < c" using c by (simp add: lpend_def pend_get_def)
    have "(l_head l + Suc k) mod 16 \<noteq> (l_head l + 0) mod 16" using ring_slot [of "l_head l" "Suc k" 0] k c r(3) by auto
    then have "(l_head l + Suc k) mod 16 \<noteq> l_head l" using r(2) by simp
    moreover have "((l_head l + 1) mod 16 + k) mod 16 = (l_head l + Suc k) mod 16" by (simp add: mod_add_left_eq)
    ultimately show "lpend (snd (pend_get l)) ! k = tl (lpend l) ! k"
      using k c by (simp add: lpend_def pend_get_def USOCK_PENDING_MAX_def nth_tl del: upt_Suc)
  qed
  moreover have "ring_ok (snd (pend_get l))"
  proof -
    have "((l_head l + 1) mod 16 + c) mod 16 = (l_head l + Suc c) mod 16" by (simp add: mod_add_left_eq)
    then show ?thesis using r c by (simp add: ring_ok_def pend_get_def USOCK_PENDING_MAX_def)
  qed
  ultimately show ?thesis using hd by (simp add: pend_get_def)
qed

lemma length_lpend [simp]: "length (lpend l) = l_cnt l"
  by (simp add: lpend_def)

interpretation sq: bounded_fifo ring_ok lpend USOCK_PENDING_MAX "\<lambda>l. l_cnt l = USOCK_PENDING_MAX" "\<lambda>l. l_cnt l = 0" pend_put pend_get
proof unfold_locales
  fix l x
  show "l_cnt l = USOCK_PENDING_MAX \<longleftrightarrow> length (lpend l) = USOCK_PENDING_MAX" by simp
  show "l_cnt l = 0 \<longleftrightarrow> lpend l = []" using length_lpend [of l] by (metis length_0_conv)
  show "ring_ok l \<Longrightarrow> length (lpend l) \<le> USOCK_PENDING_MAX" by (simp add: ring_ok_def)
  show "ring_ok l \<Longrightarrow> length (lpend l) < USOCK_PENDING_MAX \<Longrightarrow> ring_ok (pend_put x l) \<and> lpend (pend_put x l) = lpend l @ [x]"
    by (simp add: lpend_put)
  show "ring_ok l \<Longrightarrow> lpend l \<noteq> [] \<Longrightarrow>
      fst (pend_get l) = hd (lpend l) \<and> ring_ok (snd (pend_get l)) \<and> lpend (snd (pend_get l)) = tl (lpend l)"
    by (intro lpend_get) (auto simp: lpend_def)
qed

lemma drain_get_many: "n \<le> l_cnt l \<Longrightarrow> drain_pending n l = sq.get_many n l"
  by (induction n arbitrary: l) (auto simp: Let_def split_beta pend_get_def)

lemma drain_all:
  assumes "ring_ok l"
  shows "fst (drain_pending (l_cnt l) l) = lpend l" "ring_ok ((snd (drain_pending (l_cnt l) l))\<lparr>l_head := 0, l_tail := 0\<rparr>)"
    "lpend ((snd (drain_pending (l_cnt l) l))\<lparr>l_head := 0, l_tail := 0\<rparr>) = []"
proof -
  note G = sq.get_many_items [OF assms, of "l_cnt l"] drain_get_many [of "l_cnt l" l]
  show "fst (drain_pending (l_cnt l) l) = lpend l" using G by simp
  have "lpend (snd (drain_pending (l_cnt l) l)) = []" using G by simp
  then have c: "l_cnt (snd (drain_pending (l_cnt l) l)) = 0" using length_lpend [of "snd (drain_pending (l_cnt l) l)"] by simp
  then show "lpend ((snd (drain_pending (l_cnt l) l))\<lparr>l_head := 0, l_tail := 0\<rparr>) = []" by (simp add: lpend_def)
  show "ring_ok ((snd (drain_pending (l_cnt l) l))\<lparr>l_head := 0, l_tail := 0\<rparr>)"
    using G c by (simp add: ring_ok_def USOCK_PENDING_MAX_def)
qed


subsection \<open>Closing files\<close>

text \<open>Files that are open in \<open>t\<close> were open in \<open>s\<close> and differ in the count at most.\<close>

definition shut :: "kstate \<Rightarrow> kstate \<Rightarrow> bool" where
  "shut s t \<longleftrightarrow> (\<forall>j < NFILE. 0 < f_ref (ftable t j) \<longrightarrow> 0 < f_ref (ftable s j) \<and> ftable t j = (ftable s j)\<lparr>f_ref := f_ref (ftable t j)\<rparr>)
     \<and> curproc t = curproc s \<and> page_ok (kmem_of t) = page_ok (kmem_of s) \<and> free_pages (kmem_of s) \<subseteq> free_pages (kmem_of t)
     \<and> (\<forall>p. pr_ofile (ptable t p) = pr_ofile (ptable s p))"

lemma shut_refl [simp]: "shut s s"
  by (simp add: shut_def)

lemma shut_trans: "shut s t \<Longrightarrow> shut t u \<Longrightarrow> shut s u"
  unfolding shut_def by (metis kfile.surjective kfile.update_convs(2) subset_trans)

lemma shutD:
  assumes "shut s t" "j < NFILE" "0 < f_ref (ftable t j)"
  shows "0 < f_ref (ftable s j)" "f_type (ftable t j) = f_type (ftable s j)" "f_ustate (ftable t j) = f_ustate (ftable s j)"
    "f_pipe (ftable t j) = f_pipe (ftable s j)" "f_writable (ftable t j) = f_writable (ftable s j)" "f_readable (ftable t j) = f_readable (ftable s j)"
    "f_rx (ftable t j) = f_rx (ftable s j)" "f_tx (ftable t j) = f_tx (ftable s j)" "f_lid (ftable t j) = f_lid (ftable s j)"
proof -
  have a: "0 < f_ref (ftable s j)" "ftable t j = (ftable s j)\<lparr>f_ref := f_ref (ftable t j)\<rparr>" using assms by (auto simp: shut_def)
  show "0 < f_ref (ftable s j)" by (rule a(1))
  show "f_type (ftable t j) = f_type (ftable s j)" "f_ustate (ftable t j) = f_ustate (ftable s j)"
    "f_pipe (ftable t j) = f_pipe (ftable s j)" "f_writable (ftable t j) = f_writable (ftable s j)" "f_readable (ftable t j) = f_readable (ftable s j)"
    "f_rx (ftable t j) = f_rx (ftable s j)" "f_tx (ftable t j) = f_tx (ftable s j)" "f_lid (ftable t j) = f_lid (ftable s j)"
    by (subst a(2), simp)+
qed

lemma conn_refs_reset [simp]: "conn_refs (file_reset f) i = 0" "\<not> is_conn (file_reset f)"
  by (simp_all add: conn_refs_def is_conn_def file_reset_def)

lemma file_reset_sel [simp]: "f_ref (file_reset f) = 0" "f_type (file_reset f) = FD_NONE"
  by (simp_all add: file_reset_def)

lemma reset_ref_ok:
  assumes "ref_ok (hold X i) s" "i < NFILE" "f_ref (ftable s i) = 1"
  shows "ref_ok (\<lambda>j. X j + conn_refs (ftable s i) j) (set_file i file_reset s)" "frefs s i = 0" "X i = 0"
proof -
  note R = ref_ok_hold [OF assms(1,2)]
  show z: "frefs s i = 0" "X i = 0" using R(1) assms(3) by simp_all
  have e: "frefs (set_file i file_reset s) j + conn_refs (ftable s i) j = frefs s j" for j
    using frefs_set_file [OF assms(2), of file_reset s j] by simp
  show "ref_ok (\<lambda>j. X j + conn_refs (ftable s i) j) (set_file i file_reset s)"
    unfolding ref_ok_def
  proof
    fix j
    show "if j < NFILE then f_ref (ftable (set_file i file_reset s) j) = int (frefs (set_file i file_reset s) j + (X j + conn_refs (ftable s i) j))
      else frefs (set_file i file_reset s) j + (X j + conn_refs (ftable s i) j) = 0"
      using e [of j] R(2,3) [of j] z assms(2) by (cases "j = i") auto
  qed
qed

lemma is_end_reset: "is_end (set_file i file_reset s) j a w \<longleftrightarrow> j \<noteq> i \<and> is_end s j a w"
  by (auto simp: is_end_def)

lemma sock_ok_reset:
  assumes "ipc (hold X i) s" "i < NFILE" "f_ref (ftable s i) = 1" and "\<And>j. j \<noteq> i \<Longrightarrow> ftable t j = ftable s j" "\<not> is_conn (ftable t i)"
    and "\<not> 0 < f_ref (ftable t i)" "listeners t = listeners s"
  shows "sock_ok t"
proof (rule sock_okI)
  note I = ipcD [OF assms(1)]
  have "ref_ok (hold X i) s" using assms(1) by (simp only: ipc_def)
  then have r: "frefs s i = 0" by (rule reset_ref_ok(2) [OF _ assms(2,3)])
  have e: "is_end t j a w" if "is_end s j a w" "j \<noteq> i" for j a w using that is_end_cong [OF assms(4)] by blast
  show "\<exists>r w a b. f_rx (ftable t j) = Some r \<and> f_tx (ftable t j) = Some w \<and> is_end t r a False \<and> is_end t w b True"
    if c: "j < NFILE" "is_conn (ftable t j)" for j
  proof -
    have j: "j \<noteq> i" "is_conn (ftable s j)" using c(2) assms(4,5) by (metis, metis)
    then obtain q w a b where q: "f_rx (ftable s j) = Some q" "f_tx (ftable s j) = Some w" "is_end s q a False" "is_end s w b True"
      using I(9) [OF c(1)] by blast
    have "q \<noteq> i" "w \<noteq> i" using frefs_zero(2) [OF r c(1)] j(2) q(1,2) by (auto simp: conn_refs_def)
    then show ?thesis using q e assms(4) [OF j(1)] by metis
  qed
  show "ring_ok (listeners t l)" if "l < NUSOCK" for l using I(10) that assms(7) by simp
  show "\<exists>j < NFILE. x = Some j \<and> is_conn (ftable t j)" if x: "l < NUSOCK" "x \<in> set (lpend (listeners t l))" for l x
  proof -
    obtain j where j: "j < NFILE" "x = Some j" "is_conn (ftable s j)" using I(11) x assms(7) by auto
    then have "j \<noteq> i" using frefs_zero(1) [OF r x(1)] x(2) assms(7) by auto
    then show ?thesis using j assms(4) by auto
  qed
qed

lemma reset_other:
  assumes "ipc (hold X i) s" "i < NFILE" "f_ref (ftable s i) = 1" "f_type (ftable s i) \<noteq> FD_PIPE"
  shows "ipc (\<lambda>j. X j + conn_refs (ftable s i) j) (set_file i file_reset s)" "shut s (set_file i file_reset s)"
proof -
  let ?t = "set_file i file_reset s"
  note I = ipcD [OF assms(1)]
  have e: "is_end ?t = is_end s" using assms(4) by (auto simp: is_end_reset is_end_def fun_eq_iff)
  have "pipe_ok s" using assms(1) by (simp add: ipc_def)
  then have "pipe_ok ?t" by (rule pipe_ok_cong [OF _ e]) (use I(4) in \<open>auto simp: is_end_def\<close>)
  moreover have "sock_ok ?t" by (rule sock_ok_reset [OF assms(1-3)]) auto
  moreover have "ref_ok (hold X i) s" using assms(1) by (simp only: ipc_def)
  note reset_ref_ok(1) [OF this assms(2,3)]
  ultimately show "ipc (\<lambda>j. X j + conn_refs (ftable s i) j) ?t" using I(12) by (simp add: ipc_def)
  show "shut s ?t" by (auto simp: shut_def)
qed

text \<open>The last reference to a pipe end: the flag of the pipe is cleared, and the page is freed when both are.\<close>

lemma close_end:
  assumes "ipc (hold X i) s" "is_end s i a w" "f_ref (ftable s i) = 1"
    and Q: "\<And>t. ipc X t \<Longrightarrow> shut s t \<Longrightarrow> listeners t = listeners s \<Longrightarrow> \<not> 0 < f_ref (ftable t i) \<Longrightarrow>
      (\<forall>j. \<not> is_end t j a (\<not> w)) \<longleftrightarrow> a \<in> free_pages (kmem_of t) \<Longrightarrow> Q () t"
  shows "wp (pipe_close a w) Q (set_file i file_reset s)"
proof -
  note I = ipcD [OF assms(1)]
  have i: "i < NFILE" "f_type (ftable s i) = FD_PIPE" using assms(2) by (simp_all add: is_end_def)
  let ?p = "fst (pipeclose w (pipes s a))" and ?c = "Some (if w then ChPipeRead (unat a) else ChPipeWrite (unat a))"
  let ?t = "wakeup1 ?c (set_pipe a ?p (set_file i file_reset s))"
  have p: "pipe_inv ?p" "p_readopen ?p = (p_readopen (pipes s a) \<and> w)" "p_writeopen ?p = (p_writeopen (pipes s a) \<and> \<not> w)"
    "snd (pipeclose w (pipes s a)) = (\<not> p_readopen ?p \<and> \<not> p_writeopen ?p)"
    using I(6) [OF assms(2)] by (auto simp: pipeclose_def Let_def pipe_inv_def pipe_count_def)
  have e: "is_end (?t\<lparr>kmem_of := m\<rparr>) j b v \<longleftrightarrow> j \<noteq> i \<and> is_end s j b v" for j b v m by (auto simp: is_end_def)
  have u: "j = i" if "is_end s j a w" for j using I(5) [OF that assms(2)] .
  have fl: "p_readopen ?p = (\<exists>j. j \<noteq> i \<and> is_end s j a False)" "p_writeopen ?p = (\<exists>j. j \<noteq> i \<and> is_end s j a True)"
  proof -
    have x: "j \<noteq> i" if "is_end s j a (\<not> w)" for j using that assms(2) by (auto simp: is_end_def)
    have "(\<exists>j. j \<noteq> i \<and> is_end s j a w) = False" using u by blast
    moreover have "(\<exists>j. j \<noteq> i \<and> is_end s j a (\<not> w)) = (\<exists>j. is_end s j a (\<not> w))" using x by blast
    ultimately show "p_readopen ?p = (\<exists>j. j \<noteq> i \<and> is_end s j a False)" "p_writeopen ?p = (\<exists>j. j \<noteq> i \<and> is_end s j a True)"
      unfolding p I(7) [OF assms(2)] I(8) [OF assms(2)] by (cases w; simp)+
  qed
  have fr: "snd (pipeclose w (pipes s a)) = (\<forall>j. \<not> (j \<noteq> i \<and> is_end s j a (\<not> w)))"
  proof (cases w)
    case True
    then show ?thesis unfolding p(4) fl using u by (simp only: not_True_eq_False) blast
  next
    case False
    then show ?thesis unfolding p(4) fl using u by (simp only: not_False_eq_True) blast
  qed
  have main: "Q () (?t\<lparr>kmem_of := m\<rparr>)"
    if m: "kmem_inv m" "page_ok m = page_ok (kmem_of s)"
      "free_pages m = (if snd (pipeclose w (pipes s a)) then insert a (free_pages (kmem_of s)) else free_pages (kmem_of s))" for m
  proof (rule Q)
    let ?u = "?t\<lparr>kmem_of := m\<rparr>"
    have na: "b \<noteq> a" if "is_end s j b v" "j \<noteq> i" "snd (pipeclose w (pipes s a))" for j b v
    proof
      assume "b = a"
      then show False using that fr u [of j] by (cases "v = w") auto
    qed
    have "pipe_ok ?u"
    proof (rule pipe_okI)
      show "kmem_inv (kmem_of ?u)" using m(1) by simp
      show "f_readable (ftable ?u j) = (\<not> f_writable (ftable ?u j))"
        if "j < NFILE" "0 < f_ref (ftable ?u j)" "f_type (ftable ?u j) = FD_PIPE" for j
        using that I(4) [of j] by (auto simp: is_end_def split: if_splits)
      show "j = k" if "is_end ?u j b v" "is_end ?u k b v" for j k b v using that I(5) unfolding e by blast
      show "page_ok (kmem_of ?u) b \<and> b \<notin> free_pages (kmem_of ?u) \<and> pipe_inv (pipes ?u b)" if "is_end ?u j b v" for j b v
        using that I(6) [of j b v] na m(2,3) p(1) unfolding e by auto
      show "p_readopen (pipes ?u b) = (\<exists>k. is_end ?u k b False)" "p_writeopen (pipes ?u b) = (\<exists>k. is_end ?u k b True)"
        if "is_end ?u j b v" for j b v
      proof -
        have j: "is_end s j b v" using that unfolding e by blast
        have k: "k \<noteq> i" if "b \<noteq> a" "is_end s k b x" for k x using that assms(2) by (auto simp: is_end_def)
        show "p_readopen (pipes ?u b) = (\<exists>k. is_end ?u k b False)"
          unfolding e using fl(1) I(7) [OF j] k by (cases "b = a") auto
        show "p_writeopen (pipes ?u b) = (\<exists>k. is_end ?u k b True)"
          unfolding e using fl(2) I(8) [OF j] k by (cases "b = a") auto
      qed
    qed
    moreover have "sock_ok ?u" by (rule sock_ok_reset [OF assms(1) i(1) assms(3)]) auto
    moreover have "ref_ok (hold X i) s" using assms(1) by (simp only: ipc_def)
    from reset_ref_ok(1) [OF this i(1) assms(3)] have "ref_ok X (set_file i file_reset s)"
      using i(2) by (simp add: conn_refs_def is_conn_def)
    then have "ref_ok X ?u" by (rule ref_ok_cong [THEN iffD2, rotated 2]) simp_all
    ultimately show "ipc X ?u" using I(12) by (simp add: ipc_def)
    show "shut s ?u" using m(2,3) by (auto simp: shut_def)
    show "(\<forall>j. \<not> is_end ?u j a (\<not> w)) \<longleftrightarrow> a \<in> free_pages (kmem_of ?u)"
      using fr m(3) I(6) [OF assms(2)] unfolding e by auto
  qed simp_all
  show ?thesis
  proof (cases "snd (pipeclose w (pipes s a))")
    case True
    have "wp (kfree a) (\<lambda>_ m. Q () (?t\<lparr>kmem_of := m\<rparr>)) (kmem_of s)"
      by (rule pg.free_rule) (use I(3) I(6) [OF assms(2)] True main in auto)
    then show ?thesis using True by (auto simp: pipe_close_def wake_readers_def wake_writers_def wakeup_def)
  next
    case False
    then have "Q () (?t\<lparr>kmem_of := kmem_of s\<rparr>)" using main I(3) by simp
    moreover have "?t\<lparr>kmem_of := kmem_of s\<rparr> = ?t" by simp
    ultimately have "Q () ?t" by simp
    then show ?thesis using False by (auto simp: pipe_close_def wake_readers_def wake_writers_def wakeup_def)
  qed
qed

text \<open>The laws of \<open>fileclose\<close>, by the number of levels: pipe ends, connected sockets, any socket.\<close>

lemma close_pipe_file:
  assumes "ipc (hold X i) s" "i < NFILE" "f_type (ftable s i) = FD_PIPE \<or> f_type (ftable s i) = FD_NONE"
    and Q: "\<And>t. ipc X t \<Longrightarrow> shut s t \<Longrightarrow> listeners t = listeners s \<Longrightarrow> Q () t"
  shows "wp (fileclose_n (Suc n) e i) Q s"
proof -
  have "ref_ok (hold X i) s" using assms(1) by (simp only: ipc_def)
  note R = ref_ok_hold [OF this assms(2)]
  show ?thesis
  proof (cases "f_ref (ftable s i) = 1")
    case False
    then have g: "1 < f_ref (ftable s i)" using R(1) by simp
    then have "Q () (set_file i (\<lambda>f. f\<lparr>f_ref := f_ref f - 1\<rparr>) s)"
      by (intro Q drop_ref [OF assms(1,2)]) (auto simp: shut_def)
    then show ?thesis using g by simp
  next
    case True
    show ?thesis
    proof (cases "f_type (ftable s i) = FD_PIPE")
      case pipe: True
      have "is_end s i (f_pipe (ftable s i)) (f_writable (ftable s i))" using ipcD(4) [OF assms(1,2)] True pipe by simp
      from close_end [OF assms(1) this True, of Q] Q show ?thesis using True pipe by (simp add: close_last_def)
    next
      case False
      then have t: "f_type (ftable s i) = FD_NONE" using assms(3) by simp
      have "(\<lambda>j. X j + conn_refs (ftable s i) j) = X" using t by (simp add: conn_refs_def is_conn_def)
      then have "Q () (set_file i file_reset s)" using reset_other [OF assms(1,2) True] t by (intro Q) auto
      then show ?thesis using True t by (simp add: close_last_def)
    qed
  qed
qed

lemma ipc_ref:
  assumes "ipc X s" "i < NFILE" "0 < X i"
  shows "0 < f_ref (ftable s i)"
  using ipcD(1) [OF assms(1,2)] assms(3) by simp

lemma close_conn_file:
  assumes "ipc (hold X i) s" "i < NFILE" "f_type (ftable s i) = FD_USOCK" "f_ustate (ftable s i) = USOCK_CONN \<or> f_ustate (ftable s i) = USOCK_INIT"
    and Q: "\<And>t. ipc X t \<Longrightarrow> shut s t \<Longrightarrow> listeners t = listeners s \<Longrightarrow> Q () t"
  shows "wp (fileclose_n (Suc (Suc n)) e i) Q s"
proof -
  have "ref_ok (hold X i) s" using assms(1) by (simp only: ipc_def)
  note R = ref_ok_hold [OF this assms(2)]
  show ?thesis
  proof (cases "f_ref (ftable s i) = 1")
    case False
    then have g: "1 < f_ref (ftable s i)" using R(1) by simp
    then have "Q () (set_file i (\<lambda>f. f\<lparr>f_ref := f_ref f - 1\<rparr>) s)"
      by (intro Q drop_ref [OF assms(1,2)]) (auto simp: shut_def)
    then show ?thesis using g by simp
  next
    case True
    let ?t = "set_file i file_reset s"
    have np: "f_type (ftable s i) \<noteq> FD_PIPE" using assms(3) by simp
    note T = reset_other [OF assms(1,2) True np]
    show ?thesis
    proof (cases "f_ustate (ftable s i) = USOCK_CONN")
      case conn: True
      have c: "is_conn (ftable s i)" using conn assms(3) True by (simp add: is_conn_def)
      then obtain r w a b where rw: "f_rx (ftable s i) = Some r" "f_tx (ftable s i) = Some w" "is_end s r a False" "is_end s w b True"
        using ipcD(9) [OF assms(1,2)] by blast
      have ne: "r \<noteq> w" "r \<noteq> i" "w \<noteq> i" using rw(3,4) assms(3) by (auto simp: is_end_def)
      have X: "(\<lambda>j. X j + conn_refs (ftable s i) j) = hold (hold X w) r"
        using c rw(1,2) ne(1) by (auto simp: conn_refs_def fun_eq_iff)
      note T' = T(1) [unfolded X]
      have lt: "r < NFILE" "w < NFILE" using rw(3,4) by (simp_all add: is_end_def)
      have "wp (fileclose_n (Suc n) e r) (\<lambda>_. wp (fileclose_n (Suc n) e w) Q) ?t"
      proof (rule close_pipe_file [OF T' lt(1)])
        show "f_type (ftable ?t r) = FD_PIPE \<or> f_type (ftable ?t r) = FD_NONE" using rw(3) ne by (simp add: is_end_def)
        fix u assume u: "ipc (hold X w) u" "shut ?t u" "listeners u = listeners ?t"
        show "wp (fileclose_n (Suc n) e w) Q u"
        proof (rule close_pipe_file [OF u(1) lt(2)])
          have "0 < f_ref (ftable u w)" by (rule ipc_ref [OF u(1) lt(2)]) simp
          then show "f_type (ftable u w) = FD_PIPE \<or> f_type (ftable u w) = FD_NONE"
            using shutD(2) [OF u(2) lt(2)] rw(4) ne by (simp add: is_end_def)
          fix v assume v: "ipc X v" "shut u v" "listeners v = listeners u"
          show "Q () v" by (rule Q [OF v(1)]) (use shut_trans [OF T(2) shut_trans [OF u(2) v(2)]] u(3) v(3) in simp_all)
        qed
      qed
      then show ?thesis using True assms(3) conn rw(1,2) unfolding fileclose_n.simps(2) [of "Suc n"] close_last_def usock_fileclose_def opt_close_def
        by simp
    next
      case False
      then have "(\<lambda>j. X j + conn_refs (ftable s i) j) = X" by (simp add: conn_refs_def is_conn_def)
      then have "Q () ?t" using T by (intro Q) auto
      then show ?thesis using True assms(3,4) False by (simp add: close_last_def usock_fileclose_def)
    qed
  qed
qed

lemma ipc_listener:
  assumes i: "ipc X s" and l: "l < NUSOCK" and L: "ring_ok (f (listeners s l))"
    and c: "\<And>i. count_list (lpend (f (listeners s l))) (Some i) + Y i = count_list (lpend (listeners s l)) (Some i) + X i"
    and m: "\<And>x. x \<in> set (lpend (f (listeners s l))) \<Longrightarrow> \<exists>i < NFILE. x = Some i \<and> is_conn (ftable s i)"
  shows "ipc Y (set_listener l f s)"
proof -
  let ?t = "set_listener l f s"
  note I = ipcD [OF i]
  have e: "is_end ?t = is_end s" by (simp add: is_end_def fun_eq_iff)
  have r: "frefs ?t j + Y j = frefs s j + X j" for j using frefs_set_listener [OF l, of f s j] c [of j] by simp
  have "ref_ok X s" using i by (simp only: ipc_def)
  then have "ref_ok Y ?t" unfolding ref_ok_def r by simp
  moreover have "pipe_ok s" using i by (simp only: ipc_def)
  then have "pipe_ok ?t" by (rule pipe_ok_cong [OF _ e]) (use I(4) in \<open>auto simp: is_end_def\<close>)
  moreover have "sock_ok ?t"
  proof (rule sock_okI)
    show "\<exists>r w a b. f_rx (ftable ?t j) = Some r \<and> f_tx (ftable ?t j) = Some w \<and> is_end ?t r a False \<and> is_end ?t w b True"
      if "j < NFILE" "is_conn (ftable ?t j)" for j
      unfolding e using I(9) that by simp
    show "ring_ok (listeners ?t k)" if "k < NUSOCK" for k using I(10) [OF that] L by simp
    show "\<exists>i < NFILE. x = Some i \<and> is_conn (ftable ?t i)" if "k < NUSOCK" "x \<in> set (lpend (listeners ?t k))" for k x
      using that I(11) [OF that(1), of x] m [of x] by (cases "k = l") auto
  qed
  ultimately show ?thesis using I(12) by (simp add: ipc_def)
qed

lemma ipc_cong:
  assumes "ipc X s" "ftable t = ftable s" "listeners t = listeners s" "pipes t = pipes s" "kmem_of t = kmem_of s"
    and "\<And>p. p < NPROC \<Longrightarrow> pr_ofile (ptable t p) = pr_ofile (ptable s p)"
  shows "ipc X t"
proof -
  have "frefs t = frefs s" using assms by (simp add: frefs_def fun_eq_iff)
  moreover have "is_end t = is_end s" using assms(2) by (simp add: is_end_def fun_eq_iff)
  ultimately show ?thesis
    using assms(1) unfolding ipc_def ref_ok_def pipe_ok_def sock_ok_def assms(2-5) by simp
qed

lemma close_all_conn:
  assumes "ipc (\<lambda>j. X j + count_list fs (Some j)) s" "\<And>x. x \<in> set fs \<Longrightarrow> \<exists>i < NFILE. x = Some i \<and> is_conn (ftable s i)"
    and Q: "\<And>t. ipc X t \<Longrightarrow> shut s t \<Longrightarrow> listeners t = listeners s \<Longrightarrow> Q () t"
  shows "wp (close_all (fileclose_n (Suc (Suc n)) e) fs) Q s"
  using assms
proof (induction fs arbitrary: s)
  case Nil
  then show ?case by simp
next
  case (Cons x fs)
  obtain i where i: "i < NFILE" "x = Some i" "is_conn (ftable s i)" using Cons.prems(2) by force
  have X: "(\<lambda>j. X j + count_list (x # fs) (Some j)) = hold (\<lambda>j. X j + count_list fs (Some j)) i"
    using i(2) by (auto simp: fun_eq_iff)
  have t: "f_type (ftable s i) = FD_USOCK" "f_ustate (ftable s i) = USOCK_CONN" using i(3) by (simp_all add: is_conn_def)
  have "wp (fileclose_n (Suc (Suc n)) e i) (\<lambda>_. wp (close_all (fileclose_n (Suc (Suc n)) e) fs) Q) s"
  proof (rule close_conn_file [OF Cons.prems(1) [unfolded X] i(1) t(1)])
    fix u assume u: "ipc (\<lambda>j. X j + count_list fs (Some j)) u" "shut s u" "listeners u = listeners s"
    show "wp (close_all (fileclose_n (Suc (Suc n)) e) fs) Q u"
    proof (rule Cons.IH [OF u(1)])
      fix y assume y: "y \<in> set fs"
      then obtain j where j: "j < NFILE" "y = Some j" "is_conn (ftable s j)" using Cons.prems(2) by force
      have "0 < f_ref (ftable u j)" by (rule ipc_ref [OF u(1) j(1)]) (use y j(2) count_list_0_iff [of fs "Some j"] in \<open>simp add: neq0_conv [symmetric] del: neq0_conv\<close>)
      then show "\<exists>i < NFILE. y = Some i \<and> is_conn (ftable u i)"
        using shutD(1-3) [OF u(2) j(1)] j by (auto simp: is_conn_def)
    next
      fix v assume v: "ipc X v" "shut u v" "listeners v = listeners u"
      show "Q () v" by (rule Cons.prems(3) [OF v(1) shut_trans [OF u(2) v(2)]]) (use u(3) v(3) in simp)
    qed
  qed (use t(2) in simp)
  then show ?case using i(2) by (simp del: fileclose_n.simps)
qed

text \<open>A listener that is not in use has no pending connections.\<close>

definition idle :: "kstate \<Rightarrow> bool" where
  "idle s \<longleftrightarrow> (\<forall>l < NUSOCK. \<not> l_used (listeners s l) \<longrightarrow> lpend (listeners s l) = [])"

lemma clear_pending_ok:
  assumes "ipc X s" "l < NUSOCK"
    and Q: "\<And>t. ipc X t \<Longrightarrow> shut s t \<Longrightarrow> lpend (listeners t l) = [] \<Longrightarrow> (\<And>k. k \<noteq> l \<Longrightarrow> listeners t k = listeners s k) \<Longrightarrow> Q () t"
  shows "wp (clear_listener_pending (fileclose_n (Suc (Suc n)) e) l) Q s"
proof -
  note I = ipcD [OF assms(1)]
  let ?L = "listeners s l" let ?r = "drain_pending (l_cnt ?L) ?L" let ?L' = "(snd ?r)\<lparr>l_head := 0, l_tail := 0\<rparr>"
  have ro: "ring_ok ?L" by (rule I(10) [OF assms(2)])
  note D = drain_all [OF ro]
  let ?t = "set_listener l (\<lambda>_. ?L') s" let ?u = "wakeup1 (Some (ChListener l)) ?t"
  have t: "ipc (\<lambda>j. X j + count_list (lpend ?L) (Some j)) ?t"
    by (rule ipc_listener [OF assms(1,2)]) (use D in simp_all)
  have u: "ipc (\<lambda>j. X j + count_list (lpend ?L) (Some j)) ?u" by (rule ipc_cong [OF t]) simp_all
  have su: "shut s ?u" by (auto simp: shut_def)
  have "wp (close_all (fileclose_n (Suc (Suc n)) e) (lpend ?L)) Q ?u"
  proof (rule close_all_conn [OF u])
    show "\<exists>i < NFILE. x = Some i \<and> is_conn (ftable ?u i)" if "x \<in> set (lpend ?L)" for x using I(11) [OF assms(2) that] by simp
    fix v assume v: "ipc X v" "shut ?u v" "listeners v = listeners ?u"
    show "Q () v" by (rule Q [OF v(1) shut_trans [OF su v(2)]]) (use v(3) D(3) in simp_all)
  qed
  then show ?thesis using ro D(1)
    by (simp add: clear_listener_pending_def wakeup_def Let_def ring_ok_def del: fileclose_n.simps)
qed

lemma close_sock_file:
  assumes "ipc (hold X i) s" "i < NFILE" "f_type (ftable s i) = FD_USOCK"
    and Q: "\<And>t. ipc X t \<Longrightarrow> shut s t \<Longrightarrow> (idle s \<longrightarrow> idle t) \<Longrightarrow> Q () t"
  shows "wp (fileclose_n (Suc (Suc (Suc n))) e i) Q s"
proof (cases "f_ref (ftable s i) = 1 \<and> (f_ustate (ftable s i) = USOCK_BOUND \<or> f_ustate (ftable s i) = USOCK_LISTEN)")
  case True
  let ?f = "ftable s i" let ?t = "set_file i file_reset s" let ?l = "nat (f_lid ?f)"
  have nc: "conn_refs ?f j = 0" for j using True by (auto simp: conn_refs_def is_conn_def)
  have t: "ipc X ?t" "shut s ?t" using reset_other [OF assms(1,2)] True assms(3) nc by simp_all
  have "wp (usock_fileclose (fileclose_n (Suc (Suc n)) e) ?f) Q ?t"
  proof (cases "0 \<le> f_lid ?f \<and> f_lid ?f < int NUSOCK \<and> l_used (listeners s ?l)")
    case False
    then have "wp (usock_fileclose (fileclose_n (Suc (Suc n)) e) ?f) Q ?t = Q () ?t"
      using True assms(3) by (auto simp: usock_fileclose_def)
    then show ?thesis using Q [OF t] by (simp add: idle_def)
  next
    case lid: True
    let ?g = "\<lambda>l. l\<lparr>l_used := False, l_listening := False, l_backlog := 0, l_path := (l_path l)[0 := 0]\<rparr>"
    let ?u = "set_listener ?l ?g ?t"
    have l: "?l < NUSOCK" using lid by auto
    have ro: "ring_ok (listeners ?t ?l)" by (rule ipcD(10) [OF t(1) l])
    have pe: "lpend (?g L) = lpend L" for L by (simp add: lpend_def)
    have u: "ipc X ?u"
      by (rule ipc_listener [OF t(1) l]) (use ro pe ipcD(11) [OF t(1) l] in \<open>simp_all add: ring_ok_def\<close>)
    have su: "shut s ?u" using t(2) by (simp add: shut_def)
    have "wp (clear_listener_pending (fileclose_n (Suc (Suc n)) e) ?l) Q ?u"
    proof (rule clear_pending_ok [OF u l])
      fix v assume v: "ipc X v" "shut ?u v" "lpend (listeners v ?l) = []" "\<And>k. k \<noteq> ?l \<Longrightarrow> listeners v k = listeners ?u k"
      have "listeners v k = listeners s k" if "k \<noteq> ?l" for k using v(4) [OF that] that by simp
      then have "idle s \<longrightarrow> idle v" unfolding idle_def using v(3) by metis
      then show "Q () v" by (rule Q [OF v(1) shut_trans [OF su v(2)]])
    qed
    then show ?thesis using True lid assms(3) by (auto simp: usock_fileclose_def)
  qed
  then show ?thesis using True assms(3) unfolding fileclose_n.simps(2) [of "Suc (Suc n)"] by (simp add: close_last_def)
next
  case False
  show ?thesis
  proof (cases "f_ref (ftable s i) = 1")
    case True
    then have "f_ustate (ftable s i) = USOCK_CONN \<or> f_ustate (ftable s i) = USOCK_INIT"
      using False by (cases "f_ustate (ftable s i)") auto
    then show ?thesis by (rule close_conn_file [OF assms(1-3)]) (rule Q, simp_all add: idle_def)
  next
    case False
    have "ref_ok (hold X i) s" using assms(1) by (simp only: ipc_def)
    then have g: "1 < f_ref (ftable s i)" using False ref_ok_hold(1) [OF _ assms(2)] by simp
    have "Q () (set_file i (\<lambda>f. f\<lparr>f_ref := f_ref f - 1\<rparr>) s)"
      using g by (intro Q drop_ref [OF assms(1,2)]) (auto simp: shut_def idle_def)
    then show ?thesis using g by simp
  qed
qed

text \<open>\<open>fileclose\<close> of a pipe end or a socket returns: \<open>NFILE\<close> levels are more than enough.\<close>

lemma fileclose_ok:
  assumes "ipc (hold X i) s" "i < NFILE" "f_type (ftable s i) \<in> {FD_NONE, FD_PIPE, FD_USOCK}"
    and Q: "\<And>t. ipc X t \<Longrightarrow> shut s t \<Longrightarrow> (idle s \<longrightarrow> idle t) \<Longrightarrow> Q () t"
  shows "wp (fileclose e i) Q s"
proof -
  have n: "Suc NFILE = Suc (Suc (Suc 98))" by (simp add: NFILE_def)
  show ?thesis
  proof (cases "f_type (ftable s i) = FD_USOCK")
    case True
    show ?thesis unfolding fileclose_def n by (rule close_sock_file [OF assms(1,2) True]) (rule Q)
  next
    case False
    show ?thesis unfolding fileclose_def by (rule close_pipe_file [OF assms(1,2)]) (use False assms(3) Q in \<open>auto simp: idle_def\<close>)
  qed
qed



subsection \<open>Creating files and pipes\<close>

lemma ipc_set_nonpipe:
  assumes i: "ipc X s" "i < NFILE" and np: "f_ref (ftable s i) = 0 \<or> f_type (ftable s i) \<noteq> FD_PIPE" "f_type (f (ftable s i)) \<noteq> FD_PIPE"
    and r: "\<And>j. int (conn_refs (f (ftable s i)) j + Y j) = int (conn_refs (ftable s i) j + X j) + (if j = i then f_ref (f (ftable s i)) - f_ref (ftable s i) else 0)"
    and c: "is_conn (f (ftable s i)) \<Longrightarrow> \<exists>r w a b. f_rx (f (ftable s i)) = Some r \<and> f_tx (f (ftable s i)) = Some w \<and> is_end s r a False \<and> is_end s w b True"
    and k: "is_conn (ftable s i) \<Longrightarrow> is_conn (f (ftable s i))"
    and z: "f_ref (f (ftable s i)) = 0 \<Longrightarrow> f_type (f (ftable s i)) = FD_NONE"
  shows "ipc Y (set_file i f s)"
proof -
  let ?t = "set_file i f s"
  note I = ipcD [OF i(1)]
  have e: "is_end ?t = is_end s" using np by (auto simp: is_end_def fun_eq_iff)
  have "ref_ok Y ?t"
    unfolding ref_ok_def
  proof
    fix j
    have "int (frefs ?t j + Y j) = int (frefs s j + X j) + (if j = i then f_ref (f (ftable s i)) - f_ref (ftable s i) else 0)"
      using frefs_set_file [OF i(2), of f s j] r [of j] by linarith
    then show "if j < NFILE then f_ref (ftable ?t j) = int (frefs ?t j + Y j) else frefs ?t j + Y j = 0"
      using I(1,2) [of j] i(2) by (cases "j = i") auto
  qed
  moreover have "pipe_ok s" using i by (simp only: ipc_def)
  then have "pipe_ok ?t" by (rule pipe_ok_cong [OF _ e]) (use I(4) np in \<open>auto simp: is_end_def\<close>)
  moreover have "sock_ok ?t"
  proof (rule sock_okI)
    show "\<exists>r w a b. f_rx (ftable ?t j) = Some r \<and> f_tx (ftable ?t j) = Some w \<and> is_end ?t r a False \<and> is_end ?t w b True"
      if "j < NFILE" "is_conn (ftable ?t j)" for j
      unfolding e using I(9) [of j] c that by (cases "j = i") auto
    show "ring_ok (listeners ?t l)" if "l < NUSOCK" for l using I(10) that by simp
    show "\<exists>j < NFILE. x = Some j \<and> is_conn (ftable ?t j)" if x: "l < NUSOCK" "x \<in> set (lpend (listeners ?t l))" for l x
    proof -
      obtain j where j: "j < NFILE" "x = Some j" "is_conn (ftable s j)" using I(11) [of l x] x by auto
      then have "is_conn (ftable ?t j)" using k by (cases "j = i") auto
      then show ?thesis using j by blast
    qed
  qed
  ultimately show ?thesis using I(12) z by (simp add: ipc_def)
qed

lemma opened_sel [simp]:
  "f_ref (opened f) = 1" "f_type (opened f) = f_type f" "f_ustate (opened f) = f_ustate f" "f_rx (opened f) = f_rx f"
  "f_tx (opened f) = f_tx f" "f_lid (opened f) = f_lid f" "f_pipe (opened f) = f_pipe f"
  by (simp_all add: opened_def)

lemma filealloc_ok:
  assumes i: "ipc X s" and none: "(\<And>i. i < NFILE \<Longrightarrow> f_ref (ftable s i) \<noteq> 0) \<Longrightarrow> Q None s"
    and some: "\<And>i. i < NFILE \<Longrightarrow> f_ref (ftable s i) = 0 \<Longrightarrow> f_type (ftable s i) = FD_NONE \<Longrightarrow>
      ipc (hold X i) (set_file i opened s) \<Longrightarrow> Q (Some i) (set_file i opened s)"
  shows "wp filealloc Q s"
proof (cases "find (\<lambda>i. f_ref (ftable s i) = 0) [0..<NFILE]")
  case None
  then have "Q None s" by (intro none) (auto simp: find_None_iff)
  then show ?thesis using None by (simp add: filealloc_def)
next
  case (Some i)
  note F = find_uptD [OF Some]
  have t: "f_type (ftable s i) = FD_NONE" by (rule ipcD(12) [OF i F(2,3)])
  have "ipc (hold X i) (set_file i opened s)"
    by (rule ipc_set_nonpipe [OF i F(2)]) (use F(3) t in \<open>simp_all add: conn_refs_def is_conn_def\<close>)
  then have "Q (Some i) (set_file i opened s)" using F t by (intro some) simp_all
  then show ?thesis using Some by (simp add: filealloc_def)
qed

lemma filedup_ok:
  assumes "ipc X s" "i < NFILE" "0 < f_ref (ftable s i)"
    and Q: "ipc (hold X i) (set_file i (\<lambda>f. f\<lparr>f_ref := f_ref f + 1\<rparr>) s) \<Longrightarrow> Q i (set_file i (\<lambda>f. f\<lparr>f_ref := f_ref f + 1\<rparr>) s)"
  shows "wp (filedup i) Q s"
proof -
  let ?t = "set_file i (\<lambda>f. f\<lparr>f_ref := f_ref f + 1\<rparr>) s"
  note I = ipcD [OF assms(1)]
  have e: "frefs ?t = frefs s"
    using frefs_set_file [OF assms(2), of "\<lambda>f. f\<lparr>f_ref := f_ref f + 1\<rparr>" s] conn_refs_ref [of "ftable s i"] assms(3) by (simp add: fun_eq_iff)
  have "ipc (hold X i) ?t"
  proof (rule ipc_same_files [OF assms(1)])
    show "ref_ok (hold X i) ?t" unfolding ref_ok_def e using I(1,2) assms(2) by auto
  qed (use assms(3) in auto)
  then show ?thesis using Q assms(3) by (simp add: filedup_def)
qed

lemma ipc_kmem:
  assumes "ipc X s" "kmem_inv m" "page_ok m = page_ok (kmem_of s)" "free_pages m \<subseteq> free_pages (kmem_of s)"
  shows "ipc X (s\<lparr>kmem_of := m\<rparr>)"
proof -
  let ?t = "s\<lparr>kmem_of := m\<rparr>"
  have e: "is_end ?t = is_end s" by (simp add: is_end_def fun_eq_iff)
  note I = ipcD [OF assms(1)]
  have "pipe_ok ?t"
  proof (rule pipe_okI)
    show "f_readable (ftable ?t i) = (\<not> f_writable (ftable ?t i))"
      if "i < NFILE" "0 < f_ref (ftable ?t i)" "f_type (ftable ?t i) = FD_PIPE" for i
      using I(4) [of i] that by (simp add: is_end_def)
    show "page_ok (kmem_of ?t) a \<and> a \<notin> free_pages (kmem_of ?t) \<and> pipe_inv (pipes ?t a)" if "is_end ?t i a w" for i a w
      using I(6) [of i a w] that assms(3,4) unfolding e by auto
  qed (use assms(2) I(5,7,8) in \<open>simp_all add: e\<close>)
  moreover have "sock_ok ?t" using assms(1) unfolding ipc_def sock_ok_def e by simp
  moreover have "ref_ok X ?t" using assms(1) by (simp add: ipc_def ref_ok_def)
  ultimately show ?thesis using assms(1) by (simp add: ipc_def)
qed

end
