(* ===== verification/IpcSock.thy ===== *)
theory IpcSock
  imports Ipc
begin

text \<open>
  Creation of pipes and connections of local sockets keep the invariant of open files, and what a connection delivers.
\<close>


subsection \<open>Creating a pipe\<close>

lemma pipe_end_sel [simp]:
  "f_type (pipe_end a w f) = FD_PIPE" "f_ref (pipe_end a w f) = f_ref f" "f_pipe (pipe_end a w f) = a"
  "f_writable (pipe_end a w f) = w" "f_readable (pipe_end a w f) = (\<not> w)"
  by (simp_all add: pipe_end_def)

lemma pipe_new_facts:
  "length d = PIPESIZE \<Longrightarrow> pipe_inv (pipe_new d)" "p_readopen (pipe_new d)" "p_writeopen (pipe_new d)" "pipe_items (pipe_new d) = []"
  by (simp_all add: pipe_new_def pipe_inv_def pipe_count_def pipe_items_def)

definition made :: "nat \<Rightarrow> nat \<Rightarrow> u32 \<Rightarrow> bytes \<Rightarrow> kstate \<Rightarrow> kstate" where
  "made f0 f1 p d s = set_file f1 (pipe_end p True) (set_file f0 (pipe_end p False) (set_pipe p (pipe_new d) s))"

lemma made_end:
  assumes "f0 \<noteq> f1" "f0 < NFILE" "f1 < NFILE" "0 < f_ref (ftable s f0)" "0 < f_ref (ftable s f1)" "f_type (ftable s f0) = FD_NONE" "f_type (ftable s f1) = FD_NONE"
  shows "is_end (made f0 f1 p d s) j a w \<longleftrightarrow> (j = (if w then f1 else f0) \<and> a = p) \<or> is_end s j a w"
  using assms by (auto simp: is_end_def made_def)

lemma ipc_made:
  assumes i: "ipc X s" and f: "f0 \<noteq> f1" "f0 < NFILE" "f1 < NFILE" "0 < f_ref (ftable s f0)" "0 < f_ref (ftable s f1)"
      "f_type (ftable s f0) = FD_NONE" "f_type (ftable s f1) = FD_NONE"
    and p: "page_ok (kmem_of s) p" "p \<notin> free_pages (kmem_of s)" "\<And>j w. \<not> is_end s j p w" and d: "length d = PIPESIZE"
  shows "ipc X (made f0 f1 p d s)"
proof -
  let ?t = "made f0 f1 p d s"
  note I = ipcD [OF i] and E = made_end [OF f, of p d]
  have sel: "kmem_of ?t = kmem_of s" "listeners ?t = listeners s" "pipes ?t = (pipes s)(p := pipe_new d)"
    by (simp_all add: made_def)
  have c: "is_conn (ftable ?t j) = is_conn (ftable s j)" "is_conn (ftable s j) \<Longrightarrow> ftable ?t j = ftable s j" for j
    using f(6,7) by (auto simp: is_conn_def made_def)
  have z0: "conn_refs (ftable s f0) j = 0" "conn_refs (ftable s f1) j = 0" for j using f(6,7) by (simp_all add: conn_refs_def is_conn_def)
  have z1: "conn_refs (pipe_end a w g) j = 0" for a w g j by (simp add: conn_refs_def is_conn_def)
  have "frefs ?t = frefs s"
    using frefs_set_file [OF f(3), of "pipe_end p True" "set_file f0 (pipe_end p False) (set_pipe p (pipe_new d) s)"]
      frefs_set_file [OF f(2), of "pipe_end p False" "set_pipe p (pipe_new d) s"] f(1) z0 z1 by (simp add: made_def fun_eq_iff)
  moreover have "f_ref (ftable ?t j) = f_ref (ftable s j)" for j by (simp add: made_def)
  ultimately have "ref_ok X ?t" using i by (simp add: ipc_def ref_ok_def)
  moreover have "pipe_ok ?t"
  proof (rule pipe_okI)
    show "kmem_inv (kmem_of ?t)" using I(3) sel by simp
    show "f_readable (ftable ?t j) = (\<not> f_writable (ftable ?t j))"
      if "j < NFILE" "0 < f_ref (ftable ?t j)" "f_type (ftable ?t j) = FD_PIPE" for j
      using that I(4) [of j] by (auto simp: made_def is_end_def split: if_splits)
    show "j = k" if "is_end ?t j a w" "is_end ?t k a w" for j k a w using that I(5) p(3) unfolding E by metis
    show "page_ok (kmem_of ?t) a \<and> a \<notin> free_pages (kmem_of ?t) \<and> pipe_inv (pipes ?t a)" if "is_end ?t j a w" for j a w
      using that I(6) p(1,2) pipe_new_facts(1) [OF d] unfolding E sel by auto
    show "p_readopen (pipes ?t a) = (\<exists>k. is_end ?t k a False)" "p_writeopen (pipes ?t a) = (\<exists>k. is_end ?t k a True)"
      if "is_end ?t j a w" for j a w
      using that I(7,8) pipe_new_facts(2,3) p(3) unfolding E sel by (cases "a = p"; auto)+
  qed
  moreover have "sock_ok ?t"
  proof (rule sock_okI)
    show "\<exists>r w a b. f_rx (ftable ?t j) = Some r \<and> f_tx (ftable ?t j) = Some w \<and> is_end ?t r a False \<and> is_end ?t w b True"
      if "j < NFILE" "is_conn (ftable ?t j)" for j
      using I(9) [OF that(1)] that(2) c unfolding E by metis
    show "\<exists>i < NFILE. x = Some i \<and> is_conn (ftable ?t i)" if "l < NUSOCK" "x \<in> set (lpend (listeners ?t l))" for l x
      using I(11) [of l x] that c(1) sel by simp
  qed (use I(10) sel in simp)
  moreover have "f_type (ftable ?t j) = FD_NONE" if "j < NFILE" "f_ref (ftable ?t j) = 0" for j
    using that I(12) f(4,5) by (auto simp: made_def split: if_splits)
  ultimately show ?thesis by (simp add: ipc_def)
qed

lemma fileclose_fresh:
  assumes "f_ref (ftable s i) = 1" "f_type (ftable s i) = FD_NONE"
  shows "wp (fileclose e i) Q s = Q () (set_file i file_reset s)"
  using assms by (simp add: fileclose_def close_last_def)

text \<open>The number of free files.\<close>

definition nfree :: "kstate \<Rightarrow> nat" where
  "nfree s = card {j. j < NFILE \<and> f_ref (ftable s j) = 0}"

lemma nfree_open:
  assumes "i < NFILE" "f_ref (ftable s i) = 0" "f_ref (ftable t i) \<noteq> 0" "\<And>j. j \<noteq> i \<Longrightarrow> f_ref (ftable t j) = f_ref (ftable s j)"
  shows "nfree s = Suc (nfree t)"
proof -
  have "{j. j < NFILE \<and> f_ref (ftable s j) = 0} = insert i {j. j < NFILE \<and> f_ref (ftable t j) = 0}"
    using assms by (auto, metis)
  then show ?thesis using assms(3) by (simp add: nfree_def)
qed

lemma nfree_zero: "(\<And>i. i < NFILE \<Longrightarrow> f_ref (ftable s i) \<noteq> 0) \<Longrightarrow> nfree s = 0"
  by (auto simp: nfree_def)

lemma reset_fresh:
  assumes "ipc (hold X i) s" "i < NFILE" "f_ref (ftable s i) = 1" "f_type (ftable s i) = FD_NONE"
  shows "ipc X (set_file i file_reset s)"
  using reset_other(1) [OF assms(1-3)] assms(4) by (simp add: conn_refs_def is_conn_def)

text \<open>
  A failing \<open>pipealloc\<close> leaves a closed file behind its pointers; one that succeeds makes two fresh files for an empty pipe on a
  page that was free.
\<close>

lemma pipealloc_ok:
  assumes i: "ipc X s"
    and fail: "\<And>a b t. ipc X t \<Longrightarrow> (a = None \<and> b = None \<and> nfree s = 0 \<or> (\<exists>f. a = Some f \<and> f < NFILE \<and> f_ref (ftable t f) = 0)) \<Longrightarrow>
      listeners t = listeners s \<Longrightarrow> ptable t = ptable s \<Longrightarrow> curproc t = curproc s \<Longrightarrow>
      nfree s < 2 \<or> free_pages (kmem_of s) = {} \<Longrightarrow> Q (- 1, a, b) t"
    and ok: "\<And>f0 f1 p t. ipc (hold (hold X f0) f1) t \<Longrightarrow> f0 \<noteq> f1 \<Longrightarrow> f0 < NFILE \<Longrightarrow> f1 < NFILE \<Longrightarrow>
      f_ref (ftable s f0) = 0 \<Longrightarrow> f_ref (ftable s f1) = 0 \<Longrightarrow> is_end t f0 p False \<Longrightarrow> is_end t f1 p True \<Longrightarrow>
      p \<in> free_pages (kmem_of s) \<Longrightarrow> free_pages (kmem_of t) = free_pages (kmem_of s) - {p} \<Longrightarrow>
      pipe_items (pipes t p) = [] \<Longrightarrow> (\<And>b. b \<noteq> p \<Longrightarrow> pipes t b = pipes s b) \<Longrightarrow>
      (\<And>j. j \<noteq> f0 \<Longrightarrow> j \<noteq> f1 \<Longrightarrow> ftable t j = ftable s j) \<Longrightarrow>
      listeners t = listeners s \<Longrightarrow> ptable t = ptable s \<Longrightarrow> curproc t = curproc s \<Longrightarrow> nfree s = Suc (Suc (nfree t)) \<Longrightarrow> Q (0, Some f0, Some f1) t"
  shows "wp (pipealloc e) Q s"
proof -
  let ?D = "\<lambda>f0 f1 p. if p = 0 then kthen (fileclose e f0) (kthen (fileclose e f1) (kreturn (- 1, Some f0, Some f1)))
         else kthen (kmod (\<lambda>s. set_pipe p (pipe_new (pipe_area p (kmem_of s))) s))
           (kthen (kmod (set_file f0 (pipe_end p False)))
           (kthen (kmod (set_file f1 (pipe_end p True)))
           (kreturn (0, Some f0, Some f1))))"
  let ?C = "\<lambda>f0 r1. case r1 of None \<Rightarrow> kthen (fileclose e f0) (kreturn (- 1, Some f0, None)) | Some f1 \<Rightarrow>
         kbind (on_kmem kalloc) (?D f0 f1)"
  let ?B = "\<lambda>r0. case r0 of None \<Rightarrow> kreturn (- 1, None, None) | Some f0 \<Rightarrow> kbind filealloc (?C f0)"
  have "wp filealloc (\<lambda>r0. wp (?B r0) Q) s"
  proof (rule filealloc_ok [OF i])
    show "wp (?B None) Q s" if z: "\<And>i. i < NFILE \<Longrightarrow> f_ref (ftable s i) \<noteq> 0"
      using fail [OF i, of None None] nfree_zero [of s, OF z] by simp
    fix f0
    assume f0: "f0 < NFILE" "f_ref (ftable s f0) = 0" "f_type (ftable s f0) = FD_NONE" and i0: "ipc (hold X f0) (set_file f0 opened s)"
    let ?s = "set_file f0 opened s"
    have nf: "nfree s = Suc (nfree ?s)" by (rule nfree_open [OF f0(1,2)]) auto
    have "wp filealloc (\<lambda>r1. wp (?C f0 r1) Q) ?s"
    proof (rule filealloc_ok [OF i0])
      show "wp (?C f0 None) Q ?s" if z: "\<And>i. i < NFILE \<Longrightarrow> f_ref (ftable ?s i) \<noteq> 0"
      proof -
        have "Q (- 1, Some f0, None) (set_file f0 file_reset ?s)"
          by (rule fail) (use reset_fresh [OF i0 f0(1)] f0 nf nfree_zero [of ?s, OF z] in auto)
        then show ?thesis using f0(3) by (simp add: fileclose_fresh)
      qed
      fix f1
      assume f1: "f1 < NFILE" "f_ref (ftable ?s f1) = 0" "f_type (ftable ?s f1) = FD_NONE" and i1: "ipc (hold (hold X f0) f1) (set_file f1 opened ?s)"
      let ?t = "set_file f1 opened ?s"
      have ne: "f0 \<noteq> f1" using f1(2) by auto
      have nf1: "nfree ?s = Suc (nfree ?t)" by (rule nfree_open [OF f1(1,2)]) auto
      have "wp kalloc (\<lambda>p m. wp (?D f0 f1 p) Q (?t\<lparr>kmem_of := m\<rparr>)) (kmem_of ?t)"
      proof (rule pg.alloc_rule)
        show "kmem_inv (kmem_of ?t)" by (rule ipcD(3) [OF i1])
        assume "free_pages (kmem_of ?t) = {}"
        then have np: "free_pages (kmem_of s) = {}" by simp
        have tw: "hold (hold X f0) f1 = hold (hold X f1) f0" using ne by (simp add: fun_upd_twist)
        have r0: "ipc (hold X f1) (set_file f0 file_reset ?t)"
          by (rule reset_fresh [OF _ f0(1)]) (use i1 [unfolded tw] ne f0 in auto)
        have "ipc X (set_file f1 file_reset (set_file f0 file_reset ?t))"
          by (rule reset_fresh [OF r0 f1(1)]) (use ne f1 in auto)
        then have "Q (- 1, Some f0, Some f1) (set_file f1 file_reset (set_file f0 file_reset ?t))"
          by (rule fail) (use f0(1) np in auto)
        moreover have "?t\<lparr>kmem_of := kmem_of ?t\<rparr> = ?t" by simp
        ultimately show "wp (?D f0 f1 0) Q (?t\<lparr>kmem_of := kmem_of ?t\<rparr>)"
          using ne f0 f1 by (simp only: if_True refl wp_kthen fileclose_fresh) (simp add: fileclose_fresh)
      next
        fix p m
        assume p: "p \<in> free_pages (kmem_of ?t)" "p \<noteq> 0" "kmem_inv m" "kmem_mem m = kmem_mem (kmem_of ?t)" "page_ok m = page_ok (kmem_of ?t)"
          "free_pages m = free_pages (kmem_of ?t) - {p}"
        let ?u = "?t\<lparr>kmem_of := m\<rparr>" let ?v = "made f0 f1 p (pipe_area p m) ?u"
        have u: "ipc (hold (hold X f0) f1) ?u" by (rule ipc_kmem [OF i1 p(3,5)]) (use p(6) in blast)
        have fs: "0 < f_ref (ftable ?u f0)" "0 < f_ref (ftable ?u f1)" "f_type (ftable ?u f0) = FD_NONE" "f_type (ftable ?u f1) = FD_NONE"
          using ne f0 f1 by simp_all
        note E = made_end [OF ne f0(1) f1(1) fs, of p "pipe_area p m"]
        have "is_end ?u j p w = is_end ?t j p w" for j w by (rule is_end_cong) simp
        then have np: "\<not> is_end ?u j p w" for j w using ipcD(6) [OF i1, of j p w] p(1) by auto
        have "ipc (hold (hold X f0) f1) ?v"
          by (rule ipc_made [OF u ne f0(1) f1(1) fs]) (use p np in \<open>auto simp: free_pages_def pipe_area_def\<close>)
        then have "Q (0, Some f0, Some f1) ?v"
          by (rule ok) (use ne f0 f1 p E pipe_new_facts(4) nf nf1 in \<open>auto simp: made_def nfree_def\<close>)
        then show "wp (?D f0 f1 p) Q ?u" using p(2) by (simp add: made_def)
      qed
      then show "wp (?C f0 (Some f1)) Q ?t" by simp
    qed
    then show "wp (?B (Some f0)) Q ?s" by simp
  qed
  then show ?thesis by (simp add: pipealloc_def)
qed



subsection \<open>Connections\<close>

text \<open>The client's file \<open>i\<close> and the server's file \<open>ep\<close> are joined by two pipes, one in each direction.\<close>

definition joined :: "kstate \<Rightarrow> nat \<Rightarrow> nat \<Rightarrow> u32 \<Rightarrow> u32 \<Rightarrow> bool" where
  "joined s i ep p q \<longleftrightarrow> i < NFILE \<and> ep < NFILE \<and> is_conn (ftable s i) \<and> is_conn (ftable s ep) \<and> i \<noteq> ep \<and> p \<noteq> q
     \<and> f_readable (ftable s i) \<and> f_writable (ftable s i) \<and> f_readable (ftable s ep) \<and> f_writable (ftable s ep)
     \<and> (\<exists>cr cw sr sw. f_rx (ftable s i) = Some sr \<and> f_tx (ftable s i) = Some cw \<and> f_rx (ftable s ep) = Some cr \<and> f_tx (ftable s ep) = Some sw
         \<and> is_end s cr p False \<and> is_end s cw p True \<and> is_end s sr q False \<and> is_end s sw q True)"

definition endpoint :: "nat option \<Rightarrow> nat option \<Rightarrow> kfile \<Rightarrow> kfile" where
  "endpoint r w f = f\<lparr>f_type := FD_USOCK, f_readable := True, f_writable := True, f_ustate := USOCK_CONN, f_lid := - 1, f_rx := r, f_tx := w\<rparr>"

lemma endpoint_sel [simp]:
  "f_ref (endpoint r w f) = f_ref f" "f_type (endpoint r w f) = FD_USOCK" "f_ustate (endpoint r w f) = USOCK_CONN"
  "f_rx (endpoint r w f) = r" "f_tx (endpoint r w f) = w" "f_readable (endpoint r w f)" "f_writable (endpoint r w f)"
  by (simp_all add: endpoint_def)

lemma make_endpoint_ok:
  assumes i: "ipc X s" and X: "X = hold (hold Y r) w" and e: "is_end s r a False" "is_end s w b True" and n: "1 \<le> nfree s"
    and Q: "\<And>i t. ipc (hold Y i) t \<Longrightarrow> i < NFILE \<Longrightarrow> f_ref (ftable s i) = 0 \<Longrightarrow> t = set_file i (\<lambda>f. endpoint (Some r) (Some w) (opened f)) s \<Longrightarrow> Q (Some i) t"
  shows "wp (make_endpoint (Some r) (Some w)) Q s"
proof -
  let ?K = "\<lambda>q. case q of None \<Rightarrow> kreturn None | Some i \<Rightarrow>
         kthen (kmod (set_file i (\<lambda>f. f\<lparr>f_type := FD_USOCK, f_readable := True, f_writable := True,
           f_ustate := USOCK_CONN, f_lid := - 1, f_rx := Some r, f_tx := Some w\<rparr>)))
         (kreturn (Some i))"
  have "wp filealloc (\<lambda>q. wp (?K q) Q) s"
  proof (rule filealloc_ok [OF i])
    show "wp (?K None) Q s" if "\<And>i. i < NFILE \<Longrightarrow> f_ref (ftable s i) \<noteq> 0" using nfree_zero [OF that] n by simp
    fix i assume f: "i < NFILE" "f_ref (ftable s i) = 0" "f_type (ftable s i) = FD_NONE" and u: "ipc (hold X i) (set_file i opened s)"
    let ?u = "set_file i opened s" let ?t = "set_file i (endpoint (Some r) (Some w)) ?u"
    have ne: "r \<noteq> w" "r \<noteq> i" "w \<noteq> i" using e f(2) by (auto simp: is_end_def)
    have eu: "is_end ?u r a False" "is_end ?u w b True" using e ne by (simp_all add: is_end_def)
    have "ipc (hold Y i) ?t"
      by (rule ipc_set_nonpipe [OF u f(1)]) (use f eu ne X in \<open>auto simp: conn_refs_def is_conn_def\<close>)
    moreover have t: "?t = set_file i (\<lambda>f. endpoint (Some r) (Some w) (opened f)) s" by (simp add: set_file_def)
    ultimately have "Q (Some i) ?t" using f by (intro Q) simp_all
    then show "wp (?K (Some i)) Q ?u" by (simp add: endpoint_def [abs_def])
  qed
  then show ?thesis by (simp add: make_endpoint_def)
qed

lemma connect_last:
  assumes c: "ipc (hold (hold X cw) sr) s" and i: "i < NFILE" "0 < f_ref (ftable s i)" "f_type (ftable s i) = FD_USOCK" "f_ustate (ftable s i) = USOCK_INIT"
    and e: "is_end s sr q False" "is_end s cw p True"
  shows "ipc X (set_file i (\<lambda>f. f\<lparr>f_readable := True, f_writable := True, f_ustate := USOCK_CONN, f_rx := Some sr, f_tx := Some cw\<rparr>) s)"
proof -
  have "sr \<noteq> cw" using e by (auto simp: is_end_def)
  then show ?thesis
    by (intro ipc_set_nonpipe [OF c i(1)]) (use i e in \<open>auto simp: conn_refs_def is_conn_def\<close>)
qed

text \<open>The state of \<open>usock_connect\<close> when both pipes and the endpoint of the server exist, before the queue is looked at.\<close>

definition dialled :: "(nat \<Rightarrow> nat) \<Rightarrow> kstate \<Rightarrow> nat \<Rightarrow> nat \<Rightarrow> nat \<Rightarrow> nat \<Rightarrow> nat \<Rightarrow> u32 \<Rightarrow> u32 \<Rightarrow> kstate \<Rightarrow> bool" where
  "dialled X s cr cw sr sw ep p q t \<longleftrightarrow> ipc (hold (hold (hold X cw) sr) ep) t \<and> ep < NFILE \<and> cw \<noteq> sr \<and> p \<noteq> q
     \<and> f_ref (ftable s ep) = 0 \<and> f_ref (ftable s cw) = 0 \<and> f_ref (ftable s sr) = 0
     \<and> is_end t cr p False \<and> is_end t cw p True \<and> is_end t sr q False \<and> is_end t sw q True
     \<and> is_conn (ftable t ep) \<and> f_rx (ftable t ep) = Some cr \<and> f_tx (ftable t ep) = Some sw \<and> f_readable (ftable t ep) \<and> f_writable (ftable t ep)
     \<and> (\<forall>j. f_ref (ftable s j) \<noteq> 0 \<longrightarrow> ftable t j = ftable s j)
     \<and> listeners t = listeners s \<and> ptable t = ptable s \<and> curproc t = curproc s \<and> pipe_items (pipes t p) = [] \<and> pipe_items (pipes t q) = []"

lemma dial:
  assumes inv: "ipc X s"
    and f: "f_type (ftable s i) = FD_USOCK" "f_ustate (ftable s i) = USOCK_INIT" "f_lid (ftable s i) < 0"
    and path: "path \<noteq> []" "length path < USOCK_PATH_MAX" and l: "find_listener_locked path s = Some l"
    and room: "5 \<le> nfree s" "2 \<le> card (free_pages (kmem_of s))"
    and Q: "\<And>cr cw sr sw ep p q t. dialled X s cr cw sr sw ep p q t \<Longrightarrow> wp (kbind (kget (\<lambda>s. listeners s l)) (\<lambda>l'.
         if \<not> l_used l' \<or> \<not> l_listening l' \<or> l_backlog l' \<le> int (l_cnt l') then
           kthen (fileclose e ep) (kreturn (- 1))
         else kthen (kmod (set_listener l (pend_put (Some ep))))
           (kthen (wakeup (ChListener l))
           (kthen (kmod (set_file i (\<lambda>f. f\<lparr>f_readable := True, f_writable := True, f_ustate := USOCK_CONN,
              f_rx := Some sr, f_tx := Some cw\<rparr>)))
           (kreturn 0))))) Q t"
  shows "wp (usock_connect e i path) Q s"
proof -
  let ?E = "\<lambda>c2s_r c2s_w s2c_r s2c_w r3. case r3 of
         None \<Rightarrow> kthen (close_files e [c2s_r, c2s_w, s2c_r, s2c_w]) (kreturn (- 1))
       | Some server_ep \<Rightarrow>
         kbind (kget (\<lambda>s. listeners s l)) (\<lambda>l'.
         if \<not> l_used l' \<or> \<not> l_listening l' \<or> l_backlog l' \<le> int (l_cnt l') then
           kthen (fileclose e server_ep) (kreturn (- 1))
         else kthen (kmod (set_listener l (pend_put (Some server_ep))))
           (kthen (wakeup (ChListener l))
           (kthen (kmod (set_file i (\<lambda>f. f\<lparr>f_readable := True, f_writable := True, f_ustate := USOCK_CONN,
              f_rx := s2c_r, f_tx := c2s_w\<rparr>)))
           (kreturn 0))))"
  let ?D = "\<lambda>c2s_r c2s_w. \<lambda>(r2, s2c_r, s2c_w).
       if r2 < (0 :: int) then kthen (close_files e [c2s_r, c2s_w, s2c_r, s2c_w]) (kreturn (- 1))
       else kbind (make_endpoint c2s_r s2c_w) (?E c2s_r c2s_w s2c_r s2c_w)"
  let ?C = "\<lambda>(r1, c2s_r, c2s_w). if r1 < (0 :: int) then kthen (close_files e [c2s_r, c2s_w]) (kreturn (- 1)) else kbind (pipealloc e) (?D c2s_r c2s_w)"
  have fin: "finite (free_pages (kmem_of s))" using room(2) by (rule_tac ccontr) simp
  have "wp (pipealloc e) (\<lambda>x. wp (?C x) Q) s"
  proof (rule pipealloc_ok [OF inv])
    show "wp (?C (- 1, a, b)) Q t" if "nfree s < 2 \<or> free_pages (kmem_of s) = {}" for a b t using that room by auto
    fix cr cw p t1
    assume i1: "ipc (hold (hold X cr) cw) t1" and a: "cr \<noteq> cw" "cr < NFILE" "cw < NFILE" "f_ref (ftable s cr) = 0" "f_ref (ftable s cw) = 0"
      "is_end t1 cr p False" "is_end t1 cw p True" "p \<in> free_pages (kmem_of s)" "free_pages (kmem_of t1) = free_pages (kmem_of s) - {p}"
      "pipe_items (pipes t1 p) = []" "\<And>b. b \<noteq> p \<Longrightarrow> pipes t1 b = pipes s b" "\<And>j. j \<noteq> cr \<Longrightarrow> j \<noteq> cw \<Longrightarrow> ftable t1 j = ftable s j"
      "listeners t1 = listeners s" "ptable t1 = ptable s" "curproc t1 = curproc s" "nfree s = Suc (Suc (nfree t1))"
    have "wp (pipealloc e) (\<lambda>x. wp (?D (Some cr) (Some cw) x) Q) t1"
    proof (rule pipealloc_ok [OF i1])
      have "1 \<le> card (free_pages (kmem_of t1))" using a(8,9) room(2) fin by simp
      then show "wp (?D (Some cr) (Some cw) (- 1, a, b)) Q t" if "nfree t1 < 2 \<or> free_pages (kmem_of t1) = {}" for a b t
        using that room(1) a(16) by auto
      fix sr sw q t2
      assume i2: "ipc (hold (hold (hold (hold X cr) cw) sr) sw) t2" and b: "sr \<noteq> sw" "sr < NFILE" "sw < NFILE" "f_ref (ftable t1 sr) = 0" "f_ref (ftable t1 sw) = 0"
        "is_end t2 sr q False" "is_end t2 sw q True" "q \<in> free_pages (kmem_of t1)" "free_pages (kmem_of t2) = free_pages (kmem_of t1) - {q}"
        "pipe_items (pipes t2 q) = []" "\<And>b. b \<noteq> q \<Longrightarrow> pipes t2 b = pipes t1 b" "\<And>j. j \<noteq> sr \<Longrightarrow> j \<noteq> sw \<Longrightarrow> ftable t2 j = ftable t1 j"
        "listeners t2 = listeners t1" "ptable t2 = ptable t1" "curproc t2 = curproc t1" "nfree t1 = Suc (Suc (nfree t2))"
      have r1: "0 < f_ref (ftable t1 cr)" "0 < f_ref (ftable t1 cw)" using a(6,7) by (simp_all add: is_end_def)
      have "cr \<noteq> sr" "cr \<noteq> sw" "cw \<noteq> sr" "cw \<noteq> sw" using r1 b(4,5) by force+
      moreover have "p \<noteq> q" using a(9) b(8) by blast
      ultimately have ne: "cr \<noteq> sr" "cr \<noteq> sw" "cw \<noteq> sr" "cw \<noteq> sw" "p \<noteq> q" by simp_all
      have e2: "is_end t2 cr p False" "is_end t2 cw p True" using a(6,7) b(12) ne by (simp_all add: is_end_def)
      have X2: "hold (hold (hold (hold X cr) cw) sr) sw = hold (hold (hold (hold X cw) sr) cr) sw"
        using a(1) ne(1-4) b(1) by (simp add: fun_upd_twist)
      have "wp (make_endpoint (Some cr) (Some sw)) (\<lambda>r. wp (?E (Some cr) (Some cw) (Some sr) (Some sw) r) Q) t2"
      proof (rule make_endpoint_ok [OF i2 X2 e2(1) b(7)])
        show "1 \<le> nfree t2" using room(1) a(16) b(16) by simp
        fix ep t3
        assume i3: "ipc (hold (hold (hold X cw) sr) ep) t3" and ep: "ep < NFILE" "f_ref (ftable t2 ep) = 0"
          and t3: "t3 = set_file ep (\<lambda>f. endpoint (Some cr) (Some sw) (opened f)) t2"
        have r2: "0 < f_ref (ftable t2 cr)" "0 < f_ref (ftable t2 cw)" "0 < f_ref (ftable t2 sr)" "0 < f_ref (ftable t2 sw)"
          using e2 b(6,7) by (simp_all add: is_end_def)
        have nep: "ep \<noteq> cr" "ep \<noteq> cw" "ep \<noteq> sr" "ep \<noteq> sw" using ep(2) r2 by force+
        have f3: "ftable t3 j = (if j = ep then endpoint (Some cr) (Some sw) (opened (ftable t2 j)) else ftable t2 j)" for j
          using t3 by simp
        have e3: "is_end t3 cr p False" "is_end t3 cw p True" "is_end t3 sr q False" "is_end t3 sw q True"
          using e2 b(6,7) nep f3 is_end_cong [of t3 _ t2] by auto
        have o1: "f_ref (ftable s j) \<noteq> 0 \<Longrightarrow> ftable t1 j = ftable s j" for j using a(4,5,12) by (cases "j = cr \<or> j = cw") auto
        have o2: "f_ref (ftable t1 j) \<noteq> 0 \<Longrightarrow> ftable t2 j = ftable t1 j" for j using b(4,5,12) by (cases "j = sr \<or> j = sw") auto
        have o3: "ftable t3 j = ftable s j" if "f_ref (ftable s j) \<noteq> 0" for j
          using that o1 [of j] o2 [of j] ep(2) f3 [of j] by (cases "j = ep") auto
        have z: "f_ref (ftable s j) = 0" if "f_ref (ftable t2 j) = 0" for j using that o1 [of j] o2 [of j] by metis
        have zs: "f_ref (ftable s sr) = 0" using b(4) o1 [of sr] by metis
        have "dialled X s cr cw sr sw ep p q t3"
          unfolding dialled_def using i3 ep(1) ne(3,5) z [OF ep(2)] a(5) zs e3 o3 by (simp add: t3 is_conn_def a(10,13-15) b(10,11,13-15) ne(5))
        from Q [OF this] show "wp (?E (Some cr) (Some cw) (Some sr) (Some sw) (Some ep)) Q t3" by simp
      qed
      then show "wp (?D (Some cr) (Some cw) (0, Some sr, Some sw)) Q t2" by (simp only: prod.case less_irrefl if_False wp_kbind)
    qed
    then show "wp (?C (0, Some cr, Some cw)) Q t1" by (simp only: prod.case less_irrefl if_False wp_kbind)
  qed
  then show ?thesis using f path l unfolding usock_connect_def by (simp only: wp_kbind wp_kget wp_if not_less [symmetric] simp_thms if_False not_le option.case)
qed

lemma dialledD:
  assumes "dialled X s cr cw sr sw ep p q t"
  shows "ipc (hold (hold (hold X cw) sr) ep) t" "ep < NFILE" "cw \<noteq> sr" "p \<noteq> q"
    "f_ref (ftable s ep) = 0" "f_ref (ftable s cw) = 0" "f_ref (ftable s sr) = 0"
    "is_end t cr p False" "is_end t cw p True" "is_end t sr q False" "is_end t sw q True"
    "is_conn (ftable t ep)" "f_rx (ftable t ep) = Some cr" "f_tx (ftable t ep) = Some sw" "f_readable (ftable t ep)" "f_writable (ftable t ep)"
    "f_ref (ftable s j) \<noteq> 0 \<Longrightarrow> ftable t j = ftable s j"
    "listeners t = listeners s" "ptable t = ptable s" "curproc t = curproc s" "pipe_items (pipes t p) = []" "pipe_items (pipes t q) = []"
  using assms unfolding dialled_def by blast+

lemma usock_connect_ok:
  assumes inv: "ipc X s"
    and f: "i < NFILE" "0 < f_ref (ftable s i)" "f_type (ftable s i) = FD_USOCK" "f_ustate (ftable s i) = USOCK_INIT" "f_lid (ftable s i) < 0"
    and path: "path \<noteq> []" "length path < USOCK_PATH_MAX" and l: "find_listener_locked path s = Some l"
    and L: "l_listening (listeners s l)" "int (l_cnt (listeners s l)) < l_backlog (listeners s l)"
    and room: "5 \<le> nfree s" "2 \<le> card (free_pages (kmem_of s))"
    and Q: "\<And>t ep p q. ipc X t \<Longrightarrow> joined t i ep p q \<Longrightarrow> pipe_items (pipes t p) = [] \<Longrightarrow> pipe_items (pipes t q) = [] \<Longrightarrow>
      lpend (listeners t l) = lpend (listeners s l) @ [Some ep] \<Longrightarrow> l_used (listeners t l) \<Longrightarrow> l_listening (listeners t l) \<Longrightarrow>
      curproc t = curproc s \<Longrightarrow> (\<And>j. pr_killed (ptable t j) = pr_killed (ptable s j)) \<Longrightarrow>
      (\<And>j. j \<noteq> i \<Longrightarrow> f_ref (ftable s j) \<noteq> 0 \<Longrightarrow> ftable t j = ftable s j) \<Longrightarrow> (idle s \<longrightarrow> idle t) \<Longrightarrow> Q 0 t"
  shows "wp (usock_connect e i path) Q s"
proof (rule dial [OF inv f(3-5) path l room], goal_cases)
  case (1 cr cw sr sw ep p q t3)
  note D = dialledD [OF 1]
  have l': "l < NUSOCK" "l_used (listeners s l)"
    using find_uptD(2,3) [OF l [unfolded find_listener_locked_def]] by auto
  let ?t4 = "set_listener l (pend_put (Some ep)) t3" let ?t5 = "wakeup1 (Some (ChListener l)) ?t4"
  let ?t6 = "set_file i (\<lambda>f. f\<lparr>f_readable := True, f_writable := True, f_ustate := USOCK_CONN, f_rx := Some sr, f_tx := Some cw\<rparr>) ?t5"
  have fi: "ftable t3 i = ftable s i" by (rule D(17)) (use f(2) in simp)
  have nep: "ep \<noteq> i" using f(2) D(5) by force
  have ni: "i \<noteq> cr" "i \<noteq> cw" "i \<noteq> sr" "i \<noteq> sw" using D(8-11) fi f(3) by (auto simp: is_end_def)
  have ro: "ring_ok (listeners s l)" by (rule ipcD(10) [OF inv l'(1)])
  then have cap: "l_cnt (listeners s l) < USOCK_PENDING_MAX" using L(2) by (simp add: ring_ok_def)
  note P = lpend_put [OF ro cap, of "Some ep"]
  have t4: "ipc (hold (hold X cw) sr) ?t4"
  proof (rule ipc_listener [OF D(1) l'(1)])
    show "\<exists>i < NFILE. x = Some i \<and> is_conn (ftable t3 i)" if "x \<in> set (lpend (pend_put (Some ep) (listeners t3 l)))" for x
      using that P D(2,12,18) ipcD(11) [OF D(1) l'(1), of x] by auto
  qed (use P D(18) in auto)
  have t5: "ipc (hold (hold X cw) sr) ?t5" by (rule ipc_cong [OF t4]) simp_all
  have e5: "is_end ?t5 j x y = is_end t3 j x y" for j x y by (rule is_end_cong) simp
  have t6: "ipc X ?t6" by (rule connect_last [OF t5 f(1), of q p]) (use f fi D(9,10) e5 in simp_all)
  have e6: "is_end ?t6 j x y" if "is_end t3 j x y" "j \<noteq> i" for j x y using that is_end_cong [of ?t6 j t3] by simp
  have j6: "joined ?t6 i ep p q"
    unfolding joined_def using f fi nep D(2,4,12-16) e6 [OF D(8)] e6 [OF D(9)] e6 [OF D(10)] e6 [OF D(11)] ni by (simp add: is_conn_def)
  have "Q 0 ?t6"
    by (rule Q [OF t6 j6]) (use D(17-22) P L l' in \<open>simp_all add: pend_put_def idle_def\<close>)
  then show ?case using L l' D(18) by (simp add: wakeup_def)
qed

text \<open>A connection refused for the state of the queue closes the endpoint of the server and with it two of the four pipe ends.\<close>

lemma connect_refused:
  assumes inv: "ipc X s"
    and f: "f_type (ftable s i) = FD_USOCK" "f_ustate (ftable s i) = USOCK_INIT" "f_lid (ftable s i) < 0"
    and path: "path \<noteq> []" "length path < USOCK_PATH_MAX" and l: "find_listener_locked path s = Some l"
    and L: "\<not> l_listening (listeners s l) \<or> l_backlog (listeners s l) \<le> int (l_cnt (listeners s l))"
    and room: "5 \<le> nfree s" "2 \<le> card (free_pages (kmem_of s))"
    and Q: "\<And>t cw sr. ipc (hold (hold X cw) sr) t \<Longrightarrow> cw \<noteq> sr \<Longrightarrow> cw < NFILE \<Longrightarrow> sr < NFILE \<Longrightarrow> X cw = 0 \<Longrightarrow> X sr = 0 \<Longrightarrow>
      f_ref (ftable s cw) = 0 \<Longrightarrow> f_ref (ftable s sr) = 0 \<Longrightarrow> (idle s \<longrightarrow> idle t) \<Longrightarrow> Q (- 1) t"
  shows "wp (usock_connect e i path) Q s"
proof (rule dial [OF inv f path l room], goal_cases)
  case (1 cr cw sr sw ep p q t3)
  note D = dialledD [OF 1]
  have ep: "f_type (ftable t3 ep) \<in> {FD_NONE, FD_PIPE, FD_USOCK}" using D(12) by (simp add: is_conn_def)
  have k: "cw < NFILE" "sr < NFILE" using D(9,10) by (simp_all add: is_end_def)
  have z: "X cw = 0" "X sr = 0" using ipcD(1) [OF inv k(1)] ipcD(1) [OF inv k(2)] D(6,7) by simp_all
  have "wp (fileclose e ep) (\<lambda>_ t. Q (- 1) t) t3"
  proof (rule fileclose_ok [OF D(1,2) ep])
    fix t assume t: "ipc (hold (hold X cw) sr) t" "idle t3 \<longrightarrow> idle t"
    have "idle t3 = idle s" using D(18) by (simp add: idle_def)
    then show "Q (- 1) t" using Q [OF t(1) D(3) k z D(6,7)] t(2) by simp
  qed
  then show ?case using L D(18) by auto
qed

lemma usock_accept_ok:
  assumes i: "ipc X s" and f: "f_type (ftable s srv) = FD_USOCK" "f_ustate (ftable s srv) = USOCK_LISTEN" "f_lid (ftable s srv) = int l"
    and l: "l < NUSOCK" "l_used (listeners s l)" "l_listening (listeners s l)" "lpend (listeners s l) = Some ep # xs"
    and Q: "\<And>t. ipc (hold X ep) t \<Longrightarrow> lpend (listeners t l) = xs \<Longrightarrow> t = set_listener l (\<lambda>_. snd (pend_get (listeners s l))) s \<Longrightarrow>
      (idle s \<longrightarrow> idle t) \<Longrightarrow> Q (PDone (Some ep)) t"
  shows "wp (usock_accept srv) Q s"
proof -
  have c: "l_cnt (listeners s l) \<noteq> 0" using l(4) length_lpend [of "listeners s l"] by simp
  note G = lpend_get [OF ipcD(10) [OF i l(1)] c]
  let ?t = "set_listener l (\<lambda>_. snd (pend_get (listeners s l))) s"
  have t: "ipc (hold X ep) ?t"
    by (rule ipc_listener [OF i l(1)]) (use G l(4) ipcD(11) [OF i l(1)] in auto)
  have "Q (PDone (Some ep)) ?t" by (rule Q [OF t]) (use G l in \<open>simp_all add: idle_def pend_get_def\<close>)
  then show ?thesis using f l c G by (simp add: usock_accept_def)
qed

lemma usock_bind_ok:
  assumes i: "ipc X s" "idle s" "i < NFILE" "0 < f_ref (ftable s i)"
    and Q: "\<And>r t. ipc X t \<Longrightarrow> idle t \<Longrightarrow> Q r t"
  shows "wp (usock_bind i path) Q s"
proof (cases "f_type (ftable s i) \<noteq> FD_USOCK \<or> f_ustate (ftable s i) \<noteq> USOCK_INIT \<or> 0 \<le> f_lid (ftable s i)
    \<or> path = [] \<or> USOCK_PATH_MAX \<le> length path \<or> find_listener_locked path s \<noteq> None")
  case True
  then show ?thesis using Q [OF i(1,2)] by (auto simp: usock_bind_def)
next
  case False
  show ?thesis
  proof (cases "find (\<lambda>j. \<not> l_used (listeners s j)) [0..<NUSOCK]")
    case None
    then show ?thesis using Q [OF i(1,2)] by (auto simp: usock_bind_def)
  next
    case (Some j)
    note F = find_uptD [OF Some]
    let ?g = "\<lambda>l. l\<lparr>l_used := True, l_listening := False, l_backlog := 0,
               l_path := splice (l_path l) 0 (safestrcpy (cptr_of path) (int USOCK_PATH_MAX)), l_head := 0, l_tail := 0, l_cnt := 0\<rparr>"
    let ?t = "set_listener j ?g s" let ?u = "set_file i (\<lambda>f. f\<lparr>f_lid := int j, f_ustate := USOCK_BOUND\<rparr>) ?t"
    have e: "lpend (listeners s j) = []" using i(2) F by (auto simp: idle_def)
    have t: "ipc X ?t"
      by (rule ipc_listener [OF i(1) F(2)]) (use e ipcD(10) [OF i(1) F(2)] in \<open>auto simp: lpend_def ring_ok_def USOCK_PENDING_MAX_def\<close>)
    have "ipc X ?u"
      by (rule ipc_set_nonpipe [OF t i(3)]) (use False i(4) in \<open>auto simp: conn_refs_def is_conn_def\<close>)
    moreover have "idle ?u" using i(2) by (simp add: idle_def)
    ultimately have "Q 0 ?u" by (rule Q)
    then show ?thesis using False Some by (auto simp: usock_bind_def)
  qed
qed

lemma usock_listen_ok:
  assumes i: "ipc X s" "idle s" "i < NFILE" "0 < f_ref (ftable s i)" "f_lid (ftable s i) < int NUSOCK"
    and Q: "\<And>r t. ipc X t \<Longrightarrow> idle t \<Longrightarrow> Q r t"
  shows "wp (usock_listen i backlog) Q s"
proof (cases "f_type (ftable s i) \<noteq> FD_USOCK \<or> f_ustate (ftable s i) \<noteq> USOCK_BOUND \<or> f_lid (ftable s i) < 0
    \<or> \<not> l_used (listeners s (nat (f_lid (ftable s i))))")
  case True
  then show ?thesis using Q [OF i(1,2)] by (auto simp: usock_listen_def Let_def)
next
  case False
  let ?l = "nat (f_lid (ftable s i))" let ?b = "min (if backlog \<le> 0 then 1 else backlog) (int USOCK_PENDING_MAX)"
  let ?t = "set_listener ?l (\<lambda>l. l\<lparr>l_listening := True, l_backlog := ?b\<rparr>) s" let ?u = "wakeup1 (Some (ChListener ?l)) ?t"
  let ?v = "set_file i (\<lambda>f. f\<lparr>f_ustate := USOCK_LISTEN\<rparr>) ?u"
  have l: "?l < NUSOCK" using i(5) False by auto
  have t: "ipc X ?t"
    by (rule ipc_listener [OF i(1) l]) (use ipcD(10,11) [OF i(1) l] in \<open>auto simp: lpend_def ring_ok_def\<close>)
  have u: "ipc X ?u" by (rule ipc_cong [OF t]) simp_all
  have "ipc X ?v"
    by (rule ipc_set_nonpipe [OF u i(3)]) (use False i(4) in \<open>auto simp: conn_refs_def is_conn_def\<close>)
  moreover have "idle ?v" using i(2) by (simp add: idle_def lpend_def)
  ultimately have "Q 0 ?v" by (rule Q)
  then show ?thesis using False by (auto simp: usock_listen_def Let_def wakeup_def)
qed



subsection \<open>Data\<close>

lemma pipe_write_room:
  fixes s :: kstate
  assumes "pipe_inv (pipes s a)" "curproc s = Some c" "length (pipe_items (pipes s a)) + length bs \<le> PIPESIZE"
    and Q: "\<And>t. pipe_inv (pipes t a) \<Longrightarrow> pipe_items (pipes t a) = pipe_items (pipes s a) @ bs \<Longrightarrow> (\<And>b. b \<noteq> a \<Longrightarrow> pipes t b = pipes s b) \<Longrightarrow>
      ftable t = ftable s \<Longrightarrow> curproc t = curproc s \<Longrightarrow> Q (PDone (int (length bs))) t"
  shows "wp (pipe_write a bs (int (length bs)) 0) Q s"
proof -
  obtain r p where e: "pipewrite (pr_killed (ptable s c)) bs (int (length bs)) 0 (pipes s a) = (r, p)" by (rule prod.exhaust)
  obtain j where L: "pipe_inv p" "j \<le> length bs" "pipe_items p = pipe_items (pipes s a) @ slice bs 0 j"
      "r = PDone (int (length bs)) \<and> j = length bs \<or> j < length bs \<and> length (pipe_items p) = PIPESIZE"
    using pipewrite_law [OF assms(1) _ _ e, simplified] by blast
  have "\<not> (j < length bs \<and> length (pipe_items p) = PIPESIZE)" using assms(3) L(3) by (auto simp: slice_def)
  then have r: "r = PDone (int (length bs))" "j = length bs" using L(4) by blast+
  let ?t = "wakeup1 (Some (ChPipeRead (unat a))) (set_pipe a p s)"
  have "Q (PDone (int (length bs))) ?t" by (rule Q) (use L r in \<open>simp_all add: slice_def\<close>)
  then show ?thesis using e r(1) assms(2) by (simp add: pipe_write_def wake_readers_def wakeup_def)
qed

lemma pipe_read_data:
  fixes s :: kstate
  assumes "pipe_inv (pipes s a)" "curproc s = Some c" "pipe_items (pipes s a) \<noteq> []"
    and Q: "\<And>t. pipe_inv (pipes t a) \<Longrightarrow> pipe_items (pipes t a) = drop (nat n) (pipe_items (pipes s a)) \<Longrightarrow> (\<And>b. b \<noteq> a \<Longrightarrow> pipes t b = pipes s b) \<Longrightarrow>
      ftable t = ftable s \<Longrightarrow> curproc t = curproc s \<Longrightarrow> Q (PDone (int (length (take (nat n) (pipe_items (pipes s a)))), take (nat n) (pipe_items (pipes s a)))) t"
  shows "wp (pipe_read a n) Q s"
proof -
  obtain r p where e: "piperead (pr_killed (ptable s c)) n (pipes s a) = (r, p)" by (rule prod.exhaust)
  note L = piperead_law [OF assms(1) e]
  obtain cs where r: "r = PDone cs" "cs = take (nat n) (pipe_items (pipes s a))" using L assms(3) by (cases r) auto
  let ?t = "wakeup1 (Some (ChPipeWrite (unat a))) (set_pipe a p s)"
  have "Q (PDone (int (length cs), cs)) ?t" unfolding r(2) by (rule Q) (use L r in simp_all)
  then show ?thesis using e r(1) assms(2) by (simp add: pipe_read_def wake_writers_def wakeup_def)
qed

lemma joined_sym: "joined s i ep p q \<Longrightarrow> joined s ep i q p"
  by (auto simp: joined_def)

lemma joined_cong: "joined s i ep p q \<Longrightarrow> ftable t = ftable s \<Longrightarrow> joined t i ep p q" for s t :: kstate
  by (simp add: joined_def is_end_def)

lemma sock_write:
  assumes "joined s i ep p q"
  shows "wp (filewrite e i bs n) Q s = wp (pipe_write p bs n 0) Q s"
proof -
  obtain m where n: "NFILE = Suc m" using NFILE_def by (cases NFILE) simp_all
  show ?thesis using assms unfolding filewrite_def n by (auto simp: joined_def is_conn_def is_end_def)
qed

lemma sock_read:
  assumes "joined s i ep p q"
  shows "wp (fileread e ep n) Q s = wp (pipe_read p n) Q s"
proof -
  obtain m where n: "NFILE = Suc m" using NFILE_def by (cases NFILE) simp_all
  show ?thesis using assms unfolding fileread_def n by (auto simp: joined_def is_conn_def is_end_def)
qed

text \<open>What is written at one end of a connection with an empty pipe in that direction is read at the other.\<close>

lemma sock_transfer:
  assumes i: "joined s i ep p q" "pipe_inv (pipes s p)" "pipe_items (pipes s p) = []" "curproc s = Some c"
    and b: "bs \<noteq> []" "length bs \<le> PIPESIZE"
    and Q: "\<And>t. joined t i ep p q \<Longrightarrow> pipe_inv (pipes t p) \<Longrightarrow> pipe_items (pipes t p) = [] \<Longrightarrow> pipes t q = pipes s q \<Longrightarrow> curproc t = Some c \<Longrightarrow> Q t"
  shows "wp (filewrite e i bs (int (length bs))) (\<lambda>r t. r = PDone (int (length bs)) \<and>
    wp (fileread e ep (int (length bs))) (\<lambda>r t. r = PDone (int (length bs), bs) \<and> Q t) t) s"
  unfolding sock_write [OF i(1)]
proof (rule pipe_write_room [OF i(2,4)])
  show "length (pipe_items (pipes s p)) + length bs \<le> PIPESIZE" using i(3) b(2) by simp
  fix t :: kstate assume t: "pipe_inv (pipes t p)" "pipe_items (pipes t p) = pipe_items (pipes s p) @ bs" "\<And>b. b \<noteq> p \<Longrightarrow> pipes t b = pipes s b"
    "ftable t = ftable s" "curproc t = curproc s"
  have j: "joined t i ep p q" by (rule joined_cong [OF i(1) t(4)])
  have pq: "q \<noteq> p" using i(1) by (auto simp: joined_def)
  have c: "curproc t = Some c" "pipe_items (pipes t p) \<noteq> []" using t(2,5) i(4) b(1) by simp_all
  have "wp (pipe_read p (int (length bs))) (\<lambda>r t. r = PDone (int (length bs), bs) \<and> Q t) t"
  proof (rule pipe_read_data [OF t(1) c])
    fix u :: kstate assume u: "pipe_inv (pipes u p)" "pipe_items (pipes u p) = drop (nat (int (length bs))) (pipe_items (pipes t p))"
      "\<And>b. b \<noteq> p \<Longrightarrow> pipes u b = pipes t b" "ftable u = ftable t" "curproc u = curproc t"
    have "Q u" by (rule Q [OF joined_cong [OF j u(4)] u(1)]) (use u t i pq in simp_all)
    then show "PDone (int (length (take (nat (int (length bs))) (pipe_items (pipes t p)))), take (nat (int (length bs))) (pipe_items (pipes t p)))
        = PDone (int (length bs), bs) \<and> Q u"
      using t(2) i(3) by simp
  qed
  then show "PDone (int (length bs)) = PDone (int (length bs)) \<and>
      wp (fileread e ep (int (length bs))) (\<lambda>r t. r = PDone (int (length bs), bs) \<and> Q t) t"
    unfolding sock_read [OF j] by simp
qed

end
