(* ===== verification/SockSpec.thy ===== *)
theory SockSpec
  imports IpcSock
begin

text \<open>
  What pipes and local sockets promise: every operation on files, pipes and sockets keeps the reference counts and the pages of
  the pipes right, and a connection delivers in both directions what is written to it. Two flaws of a failing
  \<open>usock_connect\<close> are stated as well.
\<close>


subsection \<open>The operations keep the invariant\<close>

lemma usock_accept_any:
  assumes i: "ipc X s" "idle s" "curproc s = Some c" "f_lid (ftable s i) < int NUSOCK"
    and Q: "\<And>r t. ipc X t \<Longrightarrow> idle t \<Longrightarrow> (r = PFail \<or> r = PSleep 0) \<Longrightarrow> Q r t"
      "\<And>ep t. ipc (hold X ep) t \<Longrightarrow> idle t \<Longrightarrow> Q (PDone (Some ep)) t"
  shows "wp (usock_accept i) Q s"
proof -
  let ?l = "nat (f_lid (ftable s i))" let ?L = "listeners s ?l"
  consider "f_type (ftable s i) \<noteq> FD_USOCK \<or> f_ustate (ftable s i) \<noteq> USOCK_LISTEN \<or> f_lid (ftable s i) < 0"
    | (wait) "f_type (ftable s i) = FD_USOCK" "f_ustate (ftable s i) = USOCK_LISTEN" "0 \<le> f_lid (ftable s i)" "\<not> l_used ?L \<or> \<not> l_listening ?L \<or> l_cnt ?L = 0"
    | (one) "f_type (ftable s i) = FD_USOCK" "f_ustate (ftable s i) = USOCK_LISTEN" "f_lid (ftable s i) = int ?l" "l_used ?L" "l_listening ?L" "l_cnt ?L \<noteq> 0"
    by fastforce
  then show ?thesis
  proof cases
    case 1
    then show ?thesis using Q(1) [OF i(1,2)] by (auto simp: usock_accept_def)
  next
    case wait
    let ?t = "set_proc c (\<lambda>p. p\<lparr>pr_chan := Some (ChListener ?l), pr_state := SLEEPING\<rparr>) s"
    have "ipc X ?t" by (rule ipc_cong [OF i(1)]) simp_all
    moreover have "idle ?t" using i(2) by (simp add: idle_def)
    ultimately show ?thesis using Q(1) [OF i(1,2)] Q(1) [of ?t] i(3) wait by (auto simp: usock_accept_def Let_def)
  next
    case one
    have l: "?l < NUSOCK" using i(4) one(3) by linarith
    obtain x xs where x: "lpend ?L = x # xs" using one(6) length_lpend [of ?L] by (cases "lpend ?L") simp_all
    then obtain ep where ep: "x = Some ep" using ipcD(11) [OF i(1) l, of x] by auto
    show ?thesis by (rule usock_accept_ok [OF i(1) one(1-3) l one(4,5) x [unfolded ep]]) (use Q(2) i(2) in blast)
  qed
qed

text \<open>
  C10. The invariant of open files is kept: from a state where every reference count equals the number of references, every
  open pipe end is on an allocated page of its own, and connections refer to one read end and one write end, each of filedup,
  pipealloc, bind, listen, accept and close finishes without a panic in such a state again, with the references it returns
  (or gives up, for close) counted. Close is the one of a file without an object, a pipe end or a local socket; inodes and network sockets
  leave this state to the file system and the network.
\<close>

theorem files_stay_consistent:
  assumes "ipc X s" "idle s" "curproc s = Some c" "i < NFILE" "0 < f_ref (ftable s i)" "f_lid (ftable s i) < int NUSOCK"
  shows "wp (filedup i) (\<lambda>r t. r = i \<and> ipc (hold X i) t \<and> idle t) s
    \<and> wp (pipealloc e) (\<lambda>(r, a, b) t. idle t \<and> (r = 0 \<and> (\<exists>f0 f1. a = Some f0 \<and> b = Some f1 \<and> ipc (hold (hold X f0) f1) t)
        \<or> r = - 1 \<and> ipc X t)) s
    \<and> wp (usock_bind i path) (\<lambda>_ t. ipc X t \<and> idle t) s
    \<and> wp (usock_listen i backlog) (\<lambda>_ t. ipc X t \<and> idle t) s
    \<and> wp (usock_accept i) (\<lambda>r t. idle t \<and> (case r of PDone q \<Rightarrow> \<exists>ep. q = Some ep \<and> ipc (hold X ep) t | _ \<Rightarrow> ipc X t)) s
    \<and> (0 < X i \<and> f_type (ftable s i) \<in> {FD_NONE, FD_PIPE, FD_USOCK} \<longrightarrow>
        wp (fileclose e i) (\<lambda>_ t. ipc (X(i := X i - 1)) t \<and> idle t) s)"
proof (intro conjI impI)
  have dup: "idle (set_file i f s)" for f using assms(2) by (simp add: idle_def)
  show "wp (filedup i) (\<lambda>r t. r = i \<and> ipc (hold X i) t \<and> idle t) s"
    by (rule filedup_ok [OF assms(1,4,5)]) (use dup in blast)
  have same: "idle t" if "listeners t = listeners s" for t :: kstate using assms(2) that by (simp add: idle_def)
  show "wp (pipealloc e) (\<lambda>(r, a, b) t. idle t \<and> (r = 0 \<and> (\<exists>f0 f1. a = Some f0 \<and> b = Some f1 \<and> ipc (hold (hold X f0) f1) t) \<or> r = - 1 \<and> ipc X t)) s"
    by (rule pipealloc_ok [OF assms(1)]) (use same in \<open>blast+\<close>)
  show "wp (usock_bind i path) (\<lambda>_ t. ipc X t \<and> idle t) s" by (rule usock_bind_ok [OF assms(1,2,4,5)]) blast
  show "wp (usock_listen i backlog) (\<lambda>_ t. ipc X t \<and> idle t) s" by (rule usock_listen_ok [OF assms(1,2,4-6)]) blast
  show "wp (usock_accept i) (\<lambda>r t. idle t \<and> (case r of PDone q \<Rightarrow> \<exists>ep. q = Some ep \<and> ipc (hold X ep) t | _ \<Rightarrow> ipc X t)) s"
    by (rule usock_accept_any [OF assms(1-3,6)]) auto
  assume c: "0 < X i \<and> f_type (ftable s i) \<in> {FD_NONE, FD_PIPE, FD_USOCK}"
  then have X: "hold (X(i := X i - 1)) i = X" by auto
  show "wp (fileclose e i) (\<lambda>_ t. ipc (X(i := X i - 1)) t \<and> idle t) s"
    by (rule fileclose_ok [of "X(i := X i - 1)" i s, unfolded X, OF assms(1,4)]) (use c assms(2) in blast)+
qed


subsection \<open>Delivery\<close>

text \<open>Message \<open>bs\<close> is accepted at file \<open>i\<close> and read at file \<open>j\<close>; then \<open>Q\<close> holds.\<close>

definition passes :: "env \<Rightarrow> nat \<Rightarrow> nat \<Rightarrow> bytes \<Rightarrow> (kstate \<Rightarrow> bool) \<Rightarrow> kstate \<Rightarrow> bool" where
  "passes e i j bs Q s \<longleftrightarrow> wp (filewrite e i bs (int (length bs))) (\<lambda>r t. r = PDone (int (length bs)) \<and>
     wp (fileread e j (int (length bs))) (\<lambda>r t. r = PDone (int (length bs), bs) \<and> Q t) t) s"

lemmas passes_joined = sock_transfer [folded passes_def]

text \<open>
  C13. A local connection works: with room for five files and two pages and a listener whose queue is empty, connect succeeds,
  accept returns the other endpoint, and then every message of at most PIPESIZE bytes written by the client is what the server
  reads and every answer of the server is what the client reads.
\<close>

theorem socket_delivers:
  assumes s: "ipc X s" "curproc s = Some c"
    and cl: "i < NFILE" "0 < f_ref (ftable s i)" "f_type (ftable s i) = FD_USOCK" "f_ustate (ftable s i) = USOCK_INIT" "f_lid (ftable s i) < 0"
    and sv: "f_ref (ftable s k) \<noteq> 0" "f_type (ftable s k) = FD_USOCK" "f_ustate (ftable s k) = USOCK_LISTEN" "f_lid (ftable s k) = int l"
    and path: "path \<noteq> []" "length path < USOCK_PATH_MAX" "find_listener_locked path s = Some l"
    and L: "l_listening (listeners s l)" "l_cnt (listeners s l) = 0" "0 < l_backlog (listeners s l)"
    and room: "5 \<le> nfree s" "2 \<le> card (free_pages (kmem_of s))"
    and bs: "bs \<noteq> []" "length bs \<le> PIPESIZE" "cs \<noteq> []" "length cs \<le> PIPESIZE"
  shows "wp (usock_connect e i path) (\<lambda>r t. r = 0 \<and> wp (usock_accept k) (\<lambda>r t. \<exists>ep. r = PDone (Some ep) \<and> ipc (hold X ep) t
      \<and> passes e i ep bs (passes e ep i cs (\<lambda>_. True)) t) t) s"
proof (rule usock_connect_ok [OF s(1) cl path L(1) _ room])
  show "int (l_cnt (listeners s l)) < l_backlog (listeners s l)" using L by simp
  fix t ep p q
  assume t: "ipc X t" "joined t i ep p q" "pipe_items (pipes t p) = []" "pipe_items (pipes t q) = []"
    "lpend (listeners t l) = lpend (listeners s l) @ [Some ep]" "l_used (listeners t l)" "l_listening (listeners t l)" "curproc t = curproc s"
    "\<And>j. j \<noteq> i \<Longrightarrow> f_ref (ftable s j) \<noteq> 0 \<Longrightarrow> ftable t j = ftable s j"
  have l: "l < NUSOCK" using find_uptD(2) [OF path(3) [unfolded find_listener_locked_def]] by auto
  have "k \<noteq> i" using cl(4) sv(3) by auto
  then have "ftable t k = ftable s k" using t(9) sv(1) by simp
  then have k: "f_type (ftable t k) = FD_USOCK" "f_ustate (ftable t k) = USOCK_LISTEN" "f_lid (ftable t k) = int l" using sv by simp_all
  have pend: "lpend (listeners t l) = Some ep # []" using t(5) L(2) by (simp add: lpend_def)
  have inv: "pipe_inv (pipes t p)" "pipe_inv (pipes t q)" using t(2) ipcD(6) [OF t(1)] by (auto simp: joined_def)
  show "0 = (0 :: int) \<and> wp (usock_accept k) (\<lambda>r t. \<exists>ep. r = PDone (Some ep) \<and> ipc (hold X ep) t
      \<and> passes e i ep bs (passes e ep i cs (\<lambda>_. True)) t) t"
  proof (rule conjI [OF refl usock_accept_ok [OF t(1) k l t(6,7) pend]])
    fix u assume u: "ipc (hold X ep) u" and ut: "u = set_listener l (\<lambda>_. snd (pend_get (listeners t l))) t"
    have ju: "joined u i ep p q" by (rule joined_cong [OF t(2)]) (simp add: ut)
    have D: "pipe_inv (pipes u p)" "pipe_items (pipes u p) = []" "curproc u = Some c" "pipe_inv (pipes u q)" "pipe_items (pipes u q) = []"
      using inv t(3,4,8) s(2) by (simp_all add: ut)
    have "passes e i ep bs (passes e ep i cs (\<lambda>_. True)) u"
    proof (rule passes_joined [OF ju D(1-3) bs(1,2)])
      fix v assume v: "joined v i ep p q" "pipes v q = pipes u q" "curproc v = Some c"
      show "passes e ep i cs (\<lambda>_. True) v"
        by (rule passes_joined [OF joined_sym [OF v(1)] _ _ v(3) bs(3,4)]) (simp_all add: v(2) D(4,5))
    qed
    then show "\<exists>ep'. PDone (Some ep) = PDone (Some ep') \<and> ipc (hold X ep') u \<and> passes e i ep' bs (passes e ep' i cs (\<lambda>_. True)) u"
      using u by blast
  qed
qed


subsection \<open>Connections that fail\<close>

text \<open>
  C36. A failing \<open>usock_connect\<close> can stop the kernel: when a listener exists and either exactly one file is free, or more are free
  but no page of memory is, the first pipealloc fails, leaves the file it has closed in its result, and connect closes it again.
\<close>

theorem connect_closes_twice:
  assumes "ipc X s"
    and "f_type (ftable s i) = FD_USOCK" "f_ustate (ftable s i) = USOCK_INIT" "f_lid (ftable s i) < 0"
    and "path \<noteq> []" "length path < USOCK_PATH_MAX" "find_listener_locked path s = Some l"
    and short: "nfree s = 1 \<or> 1 \<le> nfree s \<and> free_pages (kmem_of s) = {}"
  shows "usock_connect e i path s = Panic ''fileclose''"
proof -
  have "wp (pipealloc e) (\<lambda>(r, a, b) t. r = - 1 \<and> (\<exists>f. a = Some f \<and> f_ref (ftable t f) = 0)) s"
    by (rule pipealloc_ok [OF assms(1)]) (use short in auto)
  then obtain f b t where p: "pipealloc e s = Ok ((- 1, Some f, b), t)" "f_ref (ftable t f) = 0" by (auto simp: wp_iff)
  have "fileclose e f t = Panic ''fileclose''" using p(2) by (simp add: fileclose_def kop_defs)
  then show ?thesis using assms(2-7) p(1) by (simp add: usock_connect_def opt_close_def kop_defs)
qed

text \<open>
  A connection refused because the queue of the listener is full, or because it does not listen yet, leaks: connect returns
  -1 and closes the endpoint of the server, but afterwards the reference counts of two files that were free before exceed the
  number of references by one, so nothing can ever free these files and their pipes.
\<close>

theorem refused_connect_leaks:
  assumes "ipc (\<lambda>_. 0) s"
    and "f_type (ftable s i) = FD_USOCK" "f_ustate (ftable s i) = USOCK_INIT" "f_lid (ftable s i) < 0"
    and "path \<noteq> []" "length path < USOCK_PATH_MAX" "find_listener_locked path s = Some l"
    and "\<not> l_listening (listeners s l) \<or> l_backlog (listeners s l) \<le> int (l_cnt (listeners s l))"
    and "5 \<le> nfree s" "2 \<le> card (free_pages (kmem_of s))"
  shows "wp (usock_connect e i path) (\<lambda>r t. r = - 1 \<and> (\<exists>a b. a \<noteq> b \<and> f_ref (ftable s a) = 0 \<and> f_ref (ftable s b) = 0
    \<and> f_ref (ftable t a) = int (frefs t a) + 1 \<and> f_ref (ftable t b) = int (frefs t b) + 1)) s"
proof (rule connect_refused [OF assms(1-10)])
  fix t a b
  assume t: "ipc (hold (hold (\<lambda>_. 0) a) b) t" and ne: "a \<noteq> b" "a < NFILE" "b < NFILE"
    and z: "f_ref (ftable s a) = 0" "f_ref (ftable s b) = 0"
  show "- 1 = (- 1 :: int) \<and> (\<exists>a b. a \<noteq> b \<and> f_ref (ftable s a) = 0 \<and> f_ref (ftable s b) = 0
      \<and> f_ref (ftable t a) = int (frefs t a) + 1 \<and> f_ref (ftable t b) = int (frefs t b) + 1)"
  proof -
    have "f_ref (ftable t a) = int (frefs t a) + 1" "f_ref (ftable t b) = int (frefs t b) + 1"
      using ne ipcD(1) [OF t ne(2)] ipcD(1) [OF t ne(3)] by simp_all
    then show ?thesis using ne(1) z by blast
  qed
qed


subsection \<open>A concrete state\<close>

text \<open>Process 1 has a socket listening on \<open>/s\<close> as file 0 and a fresh socket as file 1.\<close>

definition demo_listening :: "bool \<Rightarrow> listener" where
  "demo_listening b = demo_listener\<lparr>l_used := True, l_listening := b, l_backlog := 4, l_path := [47, 115] @ replicate 62 0\<rparr>"

definition demo_socket :: "usock_state \<Rightarrow> int \<Rightarrow> kfile" where
  "demo_socket st l = demo_file\<lparr>f_type := FD_USOCK, f_ref := 1, f_ustate := st, f_lid := l\<rparr>"

definition demo_sock :: "bool \<Rightarrow> kmem \<Rightarrow> kstate" where
  "demo_sock b m = set_listener 0 (\<lambda>_. demo_listening b) (set_file 0 (\<lambda>_. demo_socket USOCK_LISTEN 0) (set_file 1 (\<lambda>_. demo_socket USOCK_INIT (- 1))
     (set_proc 1 (\<lambda>p. p\<lparr>pr_ofile := Some 0 # Some 1 # replicate 14 None\<rparr>) ((demo_k demo_procs)\<lparr>kmem_of := m\<rparr>))))"

lemma demo_sock_sel:
  "ftable (demo_sock b m) = (\<lambda>_. demo_file)(1 := demo_socket USOCK_INIT (- 1), 0 := demo_socket USOCK_LISTEN 0)"
  "listeners (demo_sock b m) = (\<lambda>_. demo_listener)(0 := demo_listening b)" "kmem_of (demo_sock b m) = m" "curproc (demo_sock b m) = Some 1"
  "lpend demo_listener = []" "lpend (demo_listening b) = []" "\<not> is_conn demo_file" "\<not> is_conn (demo_socket USOCK_LISTEN l)" "\<not> is_conn (demo_socket USOCK_INIT l)"
  by (auto simp: demo_sock_def demo_listening_def demo_listener_def lpend_def demo_socket_def demo_file_def is_conn_def)

lemma demo_sock_refs: "frefs (demo_sock b m) i = of_bool (i < 2)"
proof -
  let ?k = "(demo_k demo_procs)\<lparr>kmem_of := m\<rparr>" let ?p = "set_proc 1 (\<lambda>p. p\<lparr>pr_ofile := Some 0 # Some 1 # replicate 14 None\<rparr>) ?k"
  have n: "1 < NPROC" "(1 :: nat) < NFILE" "(0 :: nat) < NFILE" "0 < NUSOCK" by (simp_all add: NPROC_def NFILE_def NUSOCK_def)
  have c: "conn_refs f i = 0" if "\<not> is_conn f" for f using that by (simp add: conn_refs_def)
  have o: "pr_ofile (demo_procs p) = replicate NOFILE None" for p by (simp add: demo_procs_def demo_proc_def)
  have r: "count_list (replicate j None) (Some i) = 0" for j by (induction j) simp_all
  have k: "frefs ?k i = 0" by (simp add: frefs_def c demo_sock_sel o r)
  have "frefs ?p i = of_bool (i < 2)" using frefs_set_proc [OF n(1), of "\<lambda>p. p\<lparr>pr_ofile := Some 0 # Some 1 # replicate 14 None\<rparr>" ?k i] k
    by (auto simp: o r)
  then show ?thesis unfolding demo_sock_def
    using frefs_set_file [OF n(2), of "\<lambda>_. demo_socket USOCK_INIT (- 1)" ?p i] frefs_set_file [OF n(3), of "\<lambda>_. demo_socket USOCK_LISTEN 0" "set_file 1 (\<lambda>_. demo_socket USOCK_INIT (- 1)) ?p" i]
      frefs_set_listener [OF n(4), of "\<lambda>_. demo_listening b" "set_file 0 (\<lambda>_. demo_socket USOCK_LISTEN 0) (set_file 1 (\<lambda>_. demo_socket USOCK_INIT (- 1)) ?p)" i]
    by (simp add: c demo_sock_sel)
qed

lemma demo_sock_ipc: "kmem_inv m \<Longrightarrow> ipc (\<lambda>_. 0) (demo_sock b m)" "idle (demo_sock b m)"
proof -
  let ?s = "demo_sock b m"
  have ref: "f_ref (ftable ?s i) = of_bool (i < 2)" for i by (auto simp: demo_sock_sel demo_socket_def demo_file_def)
  have ne: "\<not> is_end ?s i a w" for i a w by (simp add: is_end_def demo_sock_sel demo_socket_def demo_file_def)
  have nc: "\<not> is_conn (ftable ?s i)" for i by (simp add: demo_sock_sel)
  show "ipc (\<lambda>_. 0) ?s" if "kmem_inv m"
    unfolding ipc_def
  proof (intro conjI)
    show "ref_ok (\<lambda>_. 0) ?s" using ref by (simp add: ref_ok_def demo_sock_refs NFILE_def)
    show "pipe_ok ?s" using that ne by (auto simp: pipe_ok_def demo_sock_sel demo_socket_def demo_file_def)
    show "sock_ok ?s" using nc by (auto simp: sock_ok_def demo_sock_sel ring_ok_def demo_listening_def demo_listener_def USOCK_PENDING_MAX_def lpend_def)
    show "\<forall>i<NFILE. f_ref (ftable ?s i) = 0 \<longrightarrow> f_type (ftable ?s i) = FD_NONE" by (auto simp: demo_sock_sel demo_socket_def demo_file_def)
  qed
  show "idle ?s" by (simp add: idle_def demo_sock_sel)
qed

lemma demo_sock_path: "find_listener_locked [47, 115] (demo_sock b m) = Some 0"
proof -
  have u: "[0..<NUSOCK] = 0 # [1..<NUSOCK]" by (simp add: NUSOCK_def upt_conv_Cons)
  have "strncmp (cptr_of ([47, 115] @ replicate 62 0)) (cptr_of [47, 115]) 64 = 0"
  proof -
    have "unat (64 :: u32) = Suc (Suc (Suc 61))" by simp
    then show ?thesis unfolding strncmp_def by (simp only: strncmp_from.simps) (simp add: cptr_of_def)
  qed
  then show ?thesis by (simp add: find_listener_locked_def u demo_sock_sel demo_listening_def USOCK_PATH_MAX_def)
qed

lemma demo_sock_room: "5 \<le> nfree (demo_sock b m)"
proof -
  have "card {2, 3, 4, 5, 6 :: nat} \<le> nfree (demo_sock b m)"
    unfolding nfree_def by (rule card_mono) (auto simp: demo_sock_sel demo_file_def NFILE_def)
  then show ?thesis by simp
qed

lemma demo_sock_files:
  "f_type (ftable (demo_sock b m) 1) = FD_USOCK" "f_ustate (ftable (demo_sock b m) 1) = USOCK_INIT" "f_lid (ftable (demo_sock b m) 1) < 0"
  "f_type (ftable (demo_sock b m) 0) = FD_USOCK" "f_ustate (ftable (demo_sock b m) 0) = USOCK_LISTEN" "f_lid (ftable (demo_sock b m) 0) = int 0"
  "0 < f_ref (ftable (demo_sock b m) 1)" "f_ref (ftable (demo_sock b m) 0) \<noteq> 0" "(1 :: nat) < NFILE"
  by (simp_all add: demo_sock_sel demo_socket_def NFILE_def)

theorem files_stay_consistent_witness:
  "wp (filedup 1) (\<lambda>r t. r = 1 \<and> ipc (hold (hold (\<lambda>_. 0) 1) 1) t \<and> idle t) (set_file 1 (\<lambda>f. f\<lparr>f_ref := f_ref f + 1\<rparr>) (demo_sock True demo_vm))
   \<and> wp (fileclose demo_env 1) (\<lambda>_ t. ipc (\<lambda>_. 0) t \<and> idle t) (set_file 1 (\<lambda>f. f\<lparr>f_ref := f_ref f + 1\<rparr>) (demo_sock True demo_vm))"
proof -
  let ?s = "demo_sock True demo_vm" let ?t = "set_file 1 (\<lambda>f. f\<lparr>f_ref := f_ref f + 1\<rparr>) ?s"
  note F = demo_sock_files(1-8) [of True demo_vm] demo_sock_files(9)
  have i: "ipc (\<lambda>_. 0) ?s" by (rule demo_sock_ipc(1) [OF demo_vm_facts(1)])
  have "wp (filedup 1) (\<lambda>_. ipc (hold (\<lambda>_. 0) 1)) ?s" by (rule filedup_ok [OF i F(9,7)])
  then have t: "ipc (hold (\<lambda>_. 0) 1) ?t" using F(7) by (simp add: filedup_def)
  have "idle ?t" using demo_sock_ipc(2) by (simp add: idle_def)
  moreover have z: "(\<lambda>_. 0 :: nat)(Suc 0 := 0) = (\<lambda>_. 0)" by auto
  ultimately show ?thesis using files_stay_consistent [OF t, of 1 1 demo_env] F(1,7,9)
    by (simp add: demo_sock_sel demo_socket_def demo_file_def NUSOCK_def)
qed

theorem socket_delivers_witness:
  "wp (usock_connect demo_env 1 [47, 115]) (\<lambda>r t. r = 0 \<and> wp (usock_accept 0) (\<lambda>r t. \<exists>ep. r = PDone (Some ep) \<and> ipc (hold (\<lambda>_. 0) ep) t
      \<and> passes demo_env 1 ep [104, 105] (passes demo_env ep 1 [111, 107] (\<lambda>_. True)) t) t) (demo_sock True demo_vm)"
  by (rule socket_delivers [OF demo_sock_ipc(1) [OF demo_vm_facts(1)] demo_sock_sel(4) demo_sock_files(9,7,1-3) demo_sock_files(8,4-6) _ _ demo_sock_path])
    (simp_all add: demo_sock_room demo_sock_sel demo_vm_facts(3) demo_listening_def demo_listener_def USOCK_PATH_MAX_def PIPESIZE_def)

theorem connect_closes_twice_witness:
  "usock_connect demo_env 1 [47, 115] (demo_sock True demo_vm0) = Panic ''fileclose''"
  by (rule connect_closes_twice [OF demo_sock_ipc(1) [OF demo_vm0_facts(1)] demo_sock_files(1-3) _ _ demo_sock_path])
    (use demo_sock_room [of True demo_vm0] demo_vm0_facts(2) in \<open>simp_all add: demo_sock_sel USOCK_PATH_MAX_def\<close>)

theorem refused_connect_leaks_witness:
  "wp (usock_connect demo_env 1 [47, 115]) (\<lambda>r t. r = - 1 \<and> (\<exists>a b. a \<noteq> b \<and> f_ref (ftable (demo_sock False demo_vm) a) = 0
     \<and> f_ref (ftable (demo_sock False demo_vm) b) = 0 \<and> f_ref (ftable t a) = int (frefs t a) + 1 \<and> f_ref (ftable t b) = int (frefs t b) + 1))
     (demo_sock False demo_vm)"
  by (rule refused_connect_leaks [OF demo_sock_ipc(1) [OF demo_vm_facts(1)] demo_sock_files(1-3) _ _ demo_sock_path])
    (simp_all add: demo_sock_room demo_sock_sel demo_vm_facts(3) demo_listening_def demo_listener_def USOCK_PATH_MAX_def)

end
