(* ===== verification/Syscall.thy ===== *)
theory Syscall
  imports Process
begin

section \<open>System calls (\<open>kernel/syscall.c\<close>, \<open>sysfile.c\<close>, \<open>sysproc.c\<close>, \<open>exec.c\<close>)\<close>

text \<open>
  The arguments of a system call lie on the user stack and are fetched through the page table of the current process: a load or store at a
  user address by the kernel is translated by the two levels of the page table as the processor does it (\<open>vaddr\<close>); an address that is not
  mapped, or not writable on a store, gives \<open>Undef\<close>. A string argument is its bytes before the terminator. The bytes an operation stores through a user pointer are returned
  by the operations of the file layer and stored by the system call.

  The result is \<open>PDone r\<close> with the value returned to the process, \<open>PFail\<close> for \<open>-1\<close>, or \<open>PSleep\<close> when the process has gone to sleep inside. The counters of debugging messages are
  left out. The user side of the network sockets, which works on the state of the network stack, is a parameter.
\<close>

unbundle bit_operations_syntax

record sysenv =
  s_env :: env
  s_net_is_available :: "(kstate, bool) kop"
  s_tcp_alloc :: "(kstate, int) kop"
  s_tcp_close :: "int \<Rightarrow> (kstate, unit) kop"
  s_tcp_bind :: "int \<Rightarrow> bytes \<Rightarrow> (kstate, int) kop"
  s_tcp_listen :: "int \<Rightarrow> (kstate, int) kop"
  s_tcp_connect :: "int \<Rightarrow> u8 list \<Rightarrow> u16 \<Rightarrow> (kstate, int) kop"
  s_tcp_accept :: "nat \<Rightarrow> (kstate, nat option presult) kop"
  s_udp_alloc :: "(kstate, int) kop"
  s_udp_close :: "int \<Rightarrow> (kstate, unit) kop"
  s_udp_bind :: "int \<Rightarrow> bytes \<Rightarrow> (kstate, int) kop"
  s_udp_recvfrom :: "int \<Rightarrow> int \<Rightarrow> (kstate, int \<times> bytes \<times> bytes \<times> int) kop"
  s_udp_sendto :: "int \<Rightarrow> bytes \<Rightarrow> int \<Rightarrow> u8 list \<Rightarrow> u16 \<Rightarrow> (kstate, int) kop"


subsection \<open>User memory\<close>

definition vaddr :: "bool \<Rightarrow> u32 \<Rightarrow> u32 \<Rightarrow> kmem \<Rightarrow> u32 option" where
  "vaddr w pgdir va m =
     (let pde = load32 (pgdir + 4 * PDX va) (kmem_mem m);
          pte = load32 (p2v (PTE_ADDR pde) + 4 * PTX va) (kmem_mem m) in
      if present pde \<and> present pte \<and> (w \<longrightarrow> pde AND PTE_W \<noteq> 0 \<and> pte AND PTE_W \<noteq> 0)
      then Some (p2v (PTE_ADDR pte) + (va AND 0xFFF)) else None)"

definition my_pgdir :: "(kstate, u32) kop" where
  "my_pgdir = kbind myproc (\<lambda>i. kget (\<lambda>s. pr_pgdir (ptable s i)))"

definition uload :: "u32 \<Rightarrow> (kstate, u8) kop" where
  "uload va = kbind my_pgdir (\<lambda>d. kbind (kget (\<lambda>s. vaddr False d va (kmem_of s))) (\<lambda>a.
     kderef a (\<lambda>a. kget (\<lambda>s. kmem_mem (kmem_of s) a))))"

definition uload32 :: "u32 \<Rightarrow> (kstate, u32) kop" where
  "uload32 va =
     kbind (uload va) (\<lambda>b0. kbind (uload (va + 1)) (\<lambda>b1. kbind (uload (va + 2)) (\<lambda>b2. kbind (uload (va + 3)) (\<lambda>b3.
     kreturn (get32 [b0, b1, b2, b3] 0)))))"

primrec uloads :: "nat \<Rightarrow> u32 \<Rightarrow> (kstate, bytes) kop" where
  "uloads 0 va = kreturn []"
| "uloads (Suc n) va = kbind (uload va) (\<lambda>b. kbind (uloads n (va + 1)) (\<lambda>bs. kreturn (b # bs)))"

primrec ustore :: "u32 \<Rightarrow> bytes \<Rightarrow> (kstate, unit) kop" where
  "ustore va [] = kreturn ()"
| "ustore va (b # bs) = kthen (kbind my_pgdir (\<lambda>d. kbind (kget (\<lambda>s. vaddr True d va (kmem_of s))) (\<lambda>a.
     kderef a (\<lambda>a. on_kmem (on_mem (\<lambda>m. m(a := b))))))) (ustore (va + 1) bs)"

definition ustore32 :: "u32 \<Rightarrow> u32 \<Rightarrow> (kstate, unit) kop" where
  "ustore32 va w = ustore va (le32 w)"


subsection \<open>Fetching arguments\<close>

definition my_sz :: "(kstate, u32) kop" where
  "my_sz = kbind myproc (\<lambda>i. kget (\<lambda>s. pr_sz (ptable s i)))"

definition fetchint :: "u32 \<Rightarrow> (kstate, u32 option) kop" where
  "fetchint addr = kbind my_sz (\<lambda>sz.
     if sz \<le> addr \<or> sz < addr + 4 then kreturn None
     else kbind (uload32 addr) (\<lambda>w. kreturn (Some w)))"

text \<open>The loop of \<open>fetchstr\<close> over the \<open>n\<close> bytes up to the end of the process.\<close>

primrec fetchstr_loop :: "nat \<Rightarrow> u32 \<Rightarrow> (kstate, bytes option) kop" where
  "fetchstr_loop 0 a = kreturn None"
| "fetchstr_loop (Suc n) a = kbind (uload a) (\<lambda>c.
     if c = 0 then kreturn (Some []) else kbind (fetchstr_loop n (a + 1)) (\<lambda>r. kreturn (map_option (Cons c) r)))"

definition fetchstr :: "u32 \<Rightarrow> (kstate, bytes option) kop" where
  "fetchstr addr = kbind my_sz (\<lambda>sz.
     if sz \<le> addr then kreturn None else fetchstr_loop (unat sz - unat addr) addr)"

definition argint :: "nat \<Rightarrow> (kstate, u32 option) kop" where
  "argint n = kbind myproc (\<lambda>i. kbind (kget (\<lambda>s. load32 (tf_esp (pr_tf (ptable s i))) (kmem_mem (kmem_of s)))) (\<lambda>esp.
     fetchint (esp + 4 + 4 * of_nat n)))"

text \<open>The check of \<open>argptr\<close>; the sum wraps around, and \<open>size\<close> is signed.\<close>

definition ptr_ok :: "u32 \<Rightarrow> u32 \<Rightarrow> int \<Rightarrow> bool" where
  "ptr_ok sz i n \<longleftrightarrow> \<not> (sz \<le> i \<or> sz < i + word_of_int n)"

definition argptr :: "nat \<Rightarrow> int \<Rightarrow> (kstate, u32 option) kop" where
  "argptr n size' = kbind (argint n) (\<lambda>r. case r of None \<Rightarrow> kreturn None
   | Some i \<Rightarrow> kbind my_sz (\<lambda>sz. if ptr_ok sz i size' then kreturn (Some i) else kreturn None))"

definition argstr :: "nat \<Rightarrow> (kstate, bytes option) kop" where
  "argstr n = kbind (argint n) (\<lambda>r. case r of None \<Rightarrow> kreturn None | Some addr \<Rightarrow> fetchstr addr)"

definition argfd :: "nat \<Rightarrow> (kstate, (nat \<times> nat) option) kop" where
  "argfd n = kbind (argint n) (\<lambda>r. case r of None \<Rightarrow> kreturn None
   | Some w \<Rightarrow> let fd = sint w in
       if fd < 0 \<or> int NOFILE \<le> fd then kreturn None
       else kbind myproc (\<lambda>i. kbind (kget (\<lambda>s. pr_ofile (ptable s i) ! nat fd)) (\<lambda>f.
         kreturn (map_option (\<lambda>f. (nat fd, f)) f))))"

text \<open>\<open>if(arg...(...) < 0) return -1;\<close>\<close>

definition arg :: "('s, 'a option) kop \<Rightarrow> ('a \<Rightarrow> ('s, 'b presult) kop) \<Rightarrow> ('s, 'b presult) kop" where
  "arg m f = kbind m (\<lambda>r. case r of None \<Rightarrow> kreturn PFail | Some a \<Rightarrow> f a)"

definition ret :: "('s, int) kop \<Rightarrow> ('s, int presult) kop" where
  "ret m = kbind m (\<lambda>r. kreturn (PDone r))"


subsection \<open>Descriptors\<close>

definition fdalloc :: "nat \<Rightarrow> (kstate, nat option) kop" where
  "fdalloc f = kbind myproc (\<lambda>i. kbind (kget (\<lambda>s. find (\<lambda>fd. pr_ofile (ptable s i) ! fd = None) [0..<NOFILE])) (\<lambda>r.
     case r of None \<Rightarrow> kreturn None
     | Some fd \<Rightarrow> kthen (kmod (set_proc i (\<lambda>p. p\<lparr>pr_ofile := (pr_ofile p)[fd := Some f]\<rparr>))) (kreturn (Some fd))))"

definition fd_clear :: "nat \<Rightarrow> (kstate, unit) kop" where
  "fd_clear fd = kbind myproc (\<lambda>i. kmod (set_proc i (\<lambda>p. p\<lparr>pr_ofile := (pr_ofile p)[fd := None]\<rparr>)))"

definition sys_dup :: "(kstate, int presult) kop" where
  "sys_dup = arg (argfd 0) (\<lambda>(_, f). arg (fdalloc f) (\<lambda>fd. kthen (filedup f) (kreturn (PDone (int fd)))))"

text \<open>\<open>read\<close> and \<open>write\<close> once the arguments are fetched.\<close>

definition read_to :: "env \<Rightarrow> nat \<Rightarrow> u32 \<Rightarrow> int \<Rightarrow> (kstate, int presult) kop" where
  "read_to e f p n = kbind (fileread e f n) (\<lambda>r. case r of
     PDone (k, bs) \<Rightarrow> kthen (ustore p bs) (kreturn (PDone k)) | PFail \<Rightarrow> kreturn PFail | PSleep k \<Rightarrow> kreturn (PSleep k))"

definition sys_read :: "env \<Rightarrow> (kstate, int presult) kop" where
  "sys_read e = arg (argfd 0) (\<lambda>(_, f). arg (argint 2) (\<lambda>n. arg (argptr 1 (sint n)) (\<lambda>p. read_to e f p (sint n))))"

definition sys_write :: "env \<Rightarrow> (kstate, int presult) kop" where
  "sys_write e = arg (argfd 0) (\<lambda>(_, f). arg (argint 2) (\<lambda>n. arg (argptr 1 (sint n)) (\<lambda>p.
     kbind (uloads (nat (sint n)) p) (\<lambda>bs. filewrite e f bs (sint n)))))"

definition sys_close :: "env \<Rightarrow> (kstate, int presult) kop" where
  "sys_close e = arg (argfd 0) (\<lambda>(fd, f). kthen (fd_clear fd) (kthen (fileclose e f) (kreturn (PDone 0))))"

definition sys_fstat :: "(kstate, int presult) kop" where
  "sys_fstat = arg (argfd 0) (\<lambda>(_, f). arg (argptr 1 20) (\<lambda>st. arg (filestat f) (\<lambda>x.
     kthen (ustore32 (st + 4) (st_dev x)) (kthen (ustore32 (st + 8) (st_ino x))
     (kthen (ustore st (le16 (st_type x))) (kthen (ustore (st + 12) (le16 (st_nlink x)))
     (kthen (ustore32 (st + 16) (st_size x)) (kreturn (PDone 0)))))))))"

definition sys_lseek :: "(kstate, int presult) kop" where
  "sys_lseek = arg (argfd 0) (\<lambda>(_, f). arg (argint 1) (\<lambda>off. arg (argint 2) (\<lambda>whence. ret (fileseek f (sint off) (sint whence)))))"

definition sys_fdready :: "env \<Rightarrow> (kstate, int presult) kop" where
  "sys_fdready e = arg (argfd 0) (\<lambda>(_, f). arg (argint 1) (\<lambda>w. ret (filefdready e (Some f) (w \<noteq> 0))))"

definition sys_pipe :: "env \<Rightarrow> (kstate, int presult) kop" where
  "sys_pipe e = arg (argptr 0 8) (\<lambda>fd. kbind (pipealloc e) (\<lambda>(r, f0, f1).
     if r < 0 then kreturn PFail
     else kderef f0 (\<lambda>rf. kderef f1 (\<lambda>wf.
       kbind (fdalloc rf) (\<lambda>a. case a of
         None \<Rightarrow> kthen (fileclose e rf) (kthen (fileclose e wf) (kreturn PFail))
       | Some fd0 \<Rightarrow> kbind (fdalloc wf) (\<lambda>b. case b of
           None \<Rightarrow> kthen (fd_clear fd0) (kthen (fileclose e rf) (kthen (fileclose e wf) (kreturn PFail)))
         | Some fd1 \<Rightarrow> kthen (ustore32 fd (of_nat fd0)) (kthen (ustore32 (fd + 4) (of_nat fd1)) (kreturn (PDone 0)))))))))"

definition sys_statfs :: "(kstate, int presult) kop" where
  "sys_statfs = arg (argptr 0 24) (\<lambda>st. kbind (fillstatfs ROOTDEV) (\<lambda>x.
     kthen (ustore st (concat (map le32 [f_bsize x, f_blocks x, f_bfree x, f_bavail x, f_files x, f_ffree x]))) (kreturn (PDone 0))))"


subsection \<open>Names\<close>

definition nameiparent_of :: "env \<Rightarrow> bytes \<Rightarrow> (kstate, (nat \<times> bytes) option) kop" where
  "nameiparent_of e path = kbind (start_dir path) (\<lambda>d. nameiparent (e_devsw e) d path (replicate DIRSIZ 0))"

definition nlink_add :: "nat \<Rightarrow> u16 \<Rightarrow> (kstate, unit) kop" where
  "nlink_add i d = kthen (set_di i (\<lambda>di. di\<lparr>d_nlink := d_nlink di + d\<rparr>)) (iupdate i)"

definition link_bad :: "nat \<Rightarrow> (kstate, int presult) kop" where
  "link_bad ip = kthen (ilock ip) (kthen (nlink_add ip (- 1)) (kthen (iunlockput ip) (kthen commit_trans (kreturn PFail))))"

definition link_path :: "env \<Rightarrow> bytes \<Rightarrow> bytes \<Rightarrow> (kstate, int presult) kop" where
  "link_path e old new = arg (namei_of e old) (\<lambda>ip.
     kthen begin_trans
     (kthen (ilock ip)
     (kbind (inode_at ip) (\<lambda>n.
      if d_type (i_di n) = T_DIR then kthen (iunlockput ip) (kthen commit_trans (kreturn PFail))
      else kthen (nlink_add ip 1)
       (kthen (iunlock ip)
       (kbind (nameiparent_of e new) (\<lambda>r. case r of
          None \<Rightarrow> link_bad ip
        | Some (dp, name) \<Rightarrow>
            kthen (ilock dp)
            (kbind (inode_at dp) (\<lambda>dn. kbind (inode_at ip) (\<lambda>n.
             kbind (if i_dev dn \<noteq> i_dev n then kreturn (- 1) else dirlink (e_devsw e) dp name (i_inum n)) (\<lambda>q.
             if q < 0 then kthen (iunlockput dp) (link_bad ip)
             else kthen (iunlockput dp) (kthen (iput ip) (kthen commit_trans (kreturn (PDone 0)))))))))))))))"

definition sys_link :: "env \<Rightarrow> (kstate, int presult) kop" where
  "sys_link e = arg (argstr 0) (\<lambda>old. arg (argstr 1) (\<lambda>new. link_path e old new))"

primrec isdirempty_scan :: "kstate devsw \<Rightarrow> nat \<Rightarrow> nat list \<Rightarrow> (kstate, bool) kop" where
  "isdirempty_scan dv dp [] = kreturn True"
| "isdirempty_scan dv dp (off # offs) =
     kbind (readi dv dp (of_nat off) 16) (\<lambda>r.
     if fst r \<noteq> 16 then kpanic ''isdirempty: readi''
     else if de_inum (snd r) \<noteq> 0 then kreturn False
     else isdirempty_scan dv dp offs)"

definition isdirempty :: "kstate devsw \<Rightarrow> nat \<Rightarrow> (kstate, bool) kop" where
  "isdirempty dv dp = kbind (inode_at dp) (\<lambda>n.
     kbind (isdirempty_scan dv dp (filter (\<lambda>off. 32 \<le> off) (dir_offs (d_size (i_di n))))) (\<lambda>r.
     if r then dir_end (d_size (i_di n)) (kreturn True) else kreturn False))"

definition unlink_bad :: "nat \<Rightarrow> (kstate, int presult) kop" where
  "unlink_bad dp = kthen (iunlockput dp) (kthen commit_trans (kreturn PFail))"

definition DOT :: bytes where "DOT = [46]"
definition DOTDOT :: bytes where "DOTDOT = [46, 46]"

definition unlink_path :: "env \<Rightarrow> bytes \<Rightarrow> (kstate, int presult) kop" where
  "unlink_path e path = arg (nameiparent_of e path) (\<lambda>(dp, name).
     kthen begin_trans
     (kthen (ilock dp)
     (if namecmp name DOT = 0 \<or> namecmp name DOTDOT = 0 then unlink_bad dp
      else kbind (dirlookup (e_devsw e) dp name) (\<lambda>r. case r of
        None \<Rightarrow> unlink_bad dp
      | Some (ip, off) \<Rightarrow>
          kthen (ilock ip)
          (kbind (inode_at ip) (\<lambda>n.
           if sint (d_nlink (i_di n)) < 1 then kpanic ''unlink: nlink < 1''
           else kbind (if d_type (i_di n) = T_DIR then isdirempty (e_devsw e) ip else kreturn True) (\<lambda>empty.
             if \<not> empty then kthen (iunlockput ip) (unlink_bad dp)
             else kbind (writei (e_devsw e) dp (replicate 16 0) off 16) (\<lambda>w.
               if w \<noteq> 16 then kpanic ''unlink: writei''
               else kthen (kwhen (d_type (i_di n) = T_DIR) (nlink_add dp (- 1)))
                 (kthen (iunlockput dp)
                 (kthen (nlink_add ip (- 1))
                 (kthen (iunlockput ip)
                 (kthen commit_trans (kreturn (PDone 0))))))))))))))"

definition sys_unlink :: "env \<Rightarrow> (kstate, int presult) kop" where
  "sys_unlink e = arg (argstr 0) (unlink_path e)"

text \<open>The new inode is returned locked.\<close>

definition create :: "env \<Rightarrow> bytes \<Rightarrow> u16 \<Rightarrow> u16 \<Rightarrow> u16 \<Rightarrow> (kstate, nat option) kop" where
  "create e path type major minor = kbind (nameiparent_of e path) (\<lambda>r. case r of
     None \<Rightarrow> kreturn None
   | Some (dp, name) \<Rightarrow>
       kthen (ilock dp)
       (kbind (dirlookup (e_devsw e) dp name) (\<lambda>q. case q of
          Some (ip, off) \<Rightarrow>
            kthen (iunlockput dp)
            (kthen (ilock ip)
            (kbind (inode_at ip) (\<lambda>n.
             if type = T_FILE \<and> d_type (i_di n) = T_FILE then kreturn (Some ip)
             else kthen (iunlockput ip) (kreturn None))))
        | None \<Rightarrow>
            kbind (inode_at dp) (\<lambda>dn.
            kbind (ialloc (i_dev dn) type) (\<lambda>ip.
            kthen (ilock ip)
            (kthen (set_di ip (\<lambda>di. di\<lparr>d_major := major, d_minor := minor, d_nlink := 1\<rparr>))
            (kthen (iupdate ip)
            (kbind (inode_at ip) (\<lambda>n.
             kthen (kwhen (type = T_DIR)
               (kthen (nlink_add dp 1)
               (kbind (dirlink (e_devsw e) ip DOT (i_inum n)) (\<lambda>a.
                if a < 0 then kpanic ''create dots''
                else kbind (dirlink (e_devsw e) ip DOTDOT (i_inum dn)) (\<lambda>b.
                  if b < 0 then kpanic ''create dots'' else kreturn ())))))
             (kbind (dirlink (e_devsw e) dp name (i_inum n)) (\<lambda>c.
              if c < 0 then kpanic ''create: dirlink''
              else kthen (iunlockput dp) (kreturn (Some ip)))))))))))))"

definition O_WRONLY :: u32 where "O_WRONLY = 0x001"
definition O_RDWR :: u32 where "O_RDWR = 0x002"
definition O_CREATE :: u32 where "O_CREATE = 0x200"
definition O_APPEND :: u32 where "O_APPEND = 0x400"
definition O_TRUNC :: u32 where "O_TRUNC = 0x800"

definition flag :: "u32 \<Rightarrow> u32 \<Rightarrow> bool" where
  "flag m b \<longleftrightarrow> m AND b \<noteq> 0"

text \<open>\<open>open\<close> from the locked inode on; \<open>tr\<close> is \<open>trunc_trans\<close>.\<close>

definition open_inode :: "env \<Rightarrow> nat \<Rightarrow> u32 \<Rightarrow> bool \<Rightarrow> (kstate, int presult) kop" where
  "open_inode e ip omode tr =
     (let fail = kthen (iunlockput ip) (kthen (kwhen tr commit_trans) (kreturn PFail)) in
      kbind filealloc (\<lambda>r. case r of
        None \<Rightarrow> fail
      | Some f \<Rightarrow> kbind (fdalloc f) (\<lambda>q. case q of
          None \<Rightarrow> kthen (fileclose e f) fail
        | Some fd \<Rightarrow>
            kthen (iunlock ip)
            (kthen (kwhen tr commit_trans)
            (kbind (inode_at ip) (\<lambda>n.
             kthen (kmod (set_file f (\<lambda>x. x\<lparr>f_type := FD_INODE, f_ip := Some ip,
               f_off := (if flag omode O_APPEND then d_size (i_di n) else 0),
               f_readable := \<not> flag omode O_WRONLY, f_writable := flag omode O_WRONLY \<or> flag omode O_RDWR\<rparr>)))
             (kreturn (PDone (int fd)))))))))"

definition open_path :: "env \<Rightarrow> bytes \<Rightarrow> u32 \<Rightarrow> (kstate, int presult) kop" where
  "open_path e path omode =
     (if flag omode O_CREATE then
        kthen begin_trans (kbind (create e path T_FILE 0 0) (\<lambda>r. kthen commit_trans
          (case r of None \<Rightarrow> kreturn PFail | Some ip \<Rightarrow> open_inode e ip omode False)))
      else let tr = flag omode O_TRUNC in
        kthen (kwhen tr begin_trans)
        (kbind (namei_of e path) (\<lambda>r. case r of
           None \<Rightarrow> kthen (kwhen tr commit_trans) (kreturn PFail)
         | Some ip \<Rightarrow>
             kthen (ilock ip)
             (kbind (inode_at ip) (\<lambda>n.
              if d_type (i_di n) = T_DIR \<and> omode \<noteq> 0 then kthen (iunlockput ip) (kthen (kwhen tr commit_trans) (kreturn PFail))
              else kthen (kwhen (tr \<and> d_type (i_di n) = T_FILE) (kthen (itrunc ip) (iupdate ip)))
                (open_inode e ip omode tr))))))"

definition sys_open :: "env \<Rightarrow> (kstate, int presult) kop" where
  "sys_open e = arg (argstr 0) (\<lambda>path. arg (argint 1) (\<lambda>omode. open_path e path omode))"

definition made_or_fail :: "nat option \<Rightarrow> (kstate, int presult) kop" where
  "made_or_fail r = (case r of
     None \<Rightarrow> kthen commit_trans (kreturn PFail)
   | Some ip \<Rightarrow> kthen (iunlockput ip) (kthen commit_trans (kreturn (PDone 0))))"

definition sys_mkdir :: "env \<Rightarrow> (kstate, int presult) kop" where
  "sys_mkdir e = kthen begin_trans (kbind (argstr 0) (\<lambda>p. case p of
     None \<Rightarrow> made_or_fail None
   | Some path \<Rightarrow> kbind (create e path T_DIR 0 0) made_or_fail))"

definition sys_mknod :: "env \<Rightarrow> (kstate, int presult) kop" where
  "sys_mknod e = kthen begin_trans (kbind (argstr 0) (\<lambda>p. kbind (if p = None then kreturn None else argint 1) (\<lambda>ma.
     kbind (if ma = None then kreturn None else argint 2) (\<lambda>mi.
     case (p, ma, mi) of
       (Some path, Some major, Some minor) \<Rightarrow> kbind (create e path T_DEV (ucast major) (ucast minor)) made_or_fail
     | _ \<Rightarrow> made_or_fail None))))"

definition sys_chdir :: "env \<Rightarrow> (kstate, int presult) kop" where
  "sys_chdir e = kthen begin_trans (kbind (argstr 0) (\<lambda>p.
     kbind (case p of None \<Rightarrow> kreturn None | Some path \<Rightarrow> namei_of e path) (\<lambda>r. case r of
       None \<Rightarrow> kthen commit_trans (kreturn PFail)
     | Some ip \<Rightarrow>
         kthen (ilock ip)
         (kbind (inode_at ip) (\<lambda>n.
          if d_type (i_di n) \<noteq> T_DIR then kthen (iunlockput ip) (kthen commit_trans (kreturn PFail))
          else kthen (iunlock ip)
            (kbind myproc (\<lambda>i. kbind (kget (\<lambda>s. pr_cwd (ptable s i))) (\<lambda>c.
             kthen (kderef c iput)
             (kthen (kmod (set_proc i (\<lambda>p. p\<lparr>pr_cwd := Some ip\<rparr>)))
             (kthen commit_trans (kreturn (PDone 0))))))))))))"

text \<open>
  \<open>getcwd\<close> walks up to the root; the loop ends because at most 64 components are kept. \<open>k\<close> is the room left in \<open>comps\<close>. A component is its bytes before the terminator.
\<close>

primrec getcwd_scan :: "kstate devsw \<Rightarrow> nat \<Rightarrow> u32 \<Rightarrow> nat list \<Rightarrow> (kstate, bytes option) kop" where
  "getcwd_scan dv dp inum [] = kreturn None"
| "getcwd_scan dv dp inum (off # offs) =
     kbind (readi dv dp (of_nat off) 16) (\<lambda>r.
     if fst r \<noteq> 16 then kpanic ''getcwd read''
     else if ucast (de_inum (snd r)) = inum then kreturn (Some (takeWhile (\<lambda>c. c \<noteq> 0) (de_name (snd r))))
     else getcwd_scan dv dp inum offs)"

definition getcwd_name :: "kstate devsw \<Rightarrow> nat \<Rightarrow> u32 \<Rightarrow> (kstate, bytes) kop" where
  "getcwd_name dv dp inum = kbind (inode_at dp) (\<lambda>dn.
     kbind (getcwd_scan dv dp inum (dir_offs (d_size (i_di dn)))) (\<lambda>r.
     case r of None \<Rightarrow> dir_end (d_size (i_di dn)) (kreturn []) | Some name \<Rightarrow> kreturn name))"

primrec getcwd_loop :: "nat \<Rightarrow> kstate devsw \<Rightarrow> nat \<Rightarrow> bytes list \<Rightarrow> (kstate, bytes list option) kop" where
  "getcwd_loop 0 dv ip comps =
     kthen (ilock ip)
     (kbind (inode_at ip) (\<lambda>n.
      if i_inum n = ROOTINO then kthen (iunlock ip) (kthen (iput ip) (kreturn (Some comps)))
      else kbind (dirlookup dv ip DOTDOT) (\<lambda>r. case r of
        None \<Rightarrow> kthen (iunlockput ip) (kreturn None)
      | Some (dp, _) \<Rightarrow>
          kthen (ilock dp)
          (kbind (getcwd_name dv dp (i_inum n)) (\<lambda>name.
           kthen (iunlock dp) (kthen (iunlockput ip) (kthen (iput dp) (kreturn None))))))))"
| "getcwd_loop (Suc k) dv ip comps =
     kthen (ilock ip)
     (kbind (inode_at ip) (\<lambda>n.
      if i_inum n = ROOTINO then kthen (iunlock ip) (kthen (iput ip) (kreturn (Some comps)))
      else kbind (dirlookup dv ip DOTDOT) (\<lambda>r. case r of
        None \<Rightarrow> kthen (iunlockput ip) (kreturn None)
      | Some (dp, _) \<Rightarrow>
          kthen (ilock dp)
          (kbind (getcwd_name dv dp (i_inum n)) (\<lambda>name.
           kthen (iunlock dp)
           (kthen (iunlockput ip)
           (if name = [] then kthen (iput dp) (kreturn None)
            else getcwd_loop k dv dp (comps @ [name]))))))))"

text \<open>The path is built in a buffer of 512 bytes.\<close>

definition cwd_path :: "bytes list \<Rightarrow> bytes option" where
  "cwd_path comps = (if comps = [] then Some [47]
     else let p = concat (map (Cons 47) (rev comps)) in if 511 < length p then None else Some p)"

definition sys_getcwd :: "env \<Rightarrow> (kstate, int presult) kop" where
  "sys_getcwd e =
     (let fail = kthen commit_trans (kreturn PFail) in
      kthen begin_trans
      (kbind (argint 1) (\<lambda>sz. case sz of None \<Rightarrow> fail | Some w \<Rightarrow> if sint w \<le> 0 then fail
       else kbind (argptr 0 (sint w)) (\<lambda>u. case u of None \<Rightarrow> fail | Some ubuf \<Rightarrow>
         kbind myproc (\<lambda>i. kbind (kget (\<lambda>s. pr_cwd (ptable s i))) (\<lambda>c. kderef c (\<lambda>cwd.
         kbind (idup cwd) (\<lambda>ip.
         kbind (getcwd_loop 64 (e_devsw e) ip []) (\<lambda>r.
         case Option.bind r cwd_path of None \<Rightarrow> fail
         | Some p \<Rightarrow> if sint w < int (length p) + 1 then fail
             else kthen (ustore ubuf (p @ [0])) (kthen commit_trans (kreturn (PDone 0))))))))))))"


subsection \<open>Sockets\<close>

definition AF_UNIX :: int where "AF_UNIX = 1"
definition AF_INET :: int where "AF_INET = 2"
definition SOCK_STREAM :: int where "SOCK_STREAM = 1"
definition SOCK_DGRAM :: int where "SOCK_DGRAM = 2"

text \<open>A file and a descriptor for a new socket, with what to undo when there is none.\<close>

definition socket_file :: "env \<Rightarrow> (kstate, unit) kop \<Rightarrow> (kfile \<Rightarrow> kfile) \<Rightarrow> (kstate, int presult) kop" where
  "socket_file e undo h = kbind filealloc (\<lambda>r. case r of
     None \<Rightarrow> kthen undo (kreturn PFail)
   | Some f \<Rightarrow> kbind (fdalloc f) (\<lambda>q. case q of
       None \<Rightarrow> kthen (fileclose e f) (kthen undo (kreturn PFail))
     | Some fd \<Rightarrow> kthen (kmod (set_file f (\<lambda>x. h (x\<lparr>f_readable := True, f_writable := True\<rparr>)))) (kreturn (PDone (int fd)))))"

definition socket_open :: "sysenv \<Rightarrow> int \<Rightarrow> int \<Rightarrow> int \<Rightarrow> (kstate, int presult) kop" where
  "socket_open v domain type protocol =
     (let e = s_env v in
      if protocol \<noteq> 0 then kreturn PFail
      else if domain = AF_INET then
        kbind (s_net_is_available v) (\<lambda>up.
        if \<not> up then kreturn PFail
        else if type = SOCK_STREAM then
          kbind (s_tcp_alloc v) (\<lambda>slot. if slot < 0 then kreturn PFail
            else socket_file e (s_tcp_close v slot) (\<lambda>f. f\<lparr>f_type := FD_TCPSOCK, f_tcp := slot, f_tcp_listen := False\<rparr>))
        else if type = SOCK_DGRAM then
          kbind (s_udp_alloc v) (\<lambda>slot. if slot < 0 then kreturn PFail
            else socket_file e (s_udp_close v slot) (\<lambda>f. f\<lparr>f_type := FD_UDPSOCK, f_udp := slot\<rparr>))
        else kreturn PFail)
      else if domain \<noteq> AF_UNIX then kreturn PFail
      else if type \<noteq> SOCK_STREAM then kreturn PFail
      else socket_file e (kreturn ()) (\<lambda>f. f\<lparr>f_type := FD_USOCK, f_ustate := USOCK_INIT, f_lid := - 1, f_rx := None, f_tx := None\<rparr>))"

definition sys_socket :: "sysenv \<Rightarrow> (kstate, int presult) kop" where
  "sys_socket v = arg (argint 0) (\<lambda>d. arg (argint 1) (\<lambda>t. arg (argint 2) (\<lambda>p. socket_open v (sint d) (sint t) (sint p))))"

definition sys_bind :: "sysenv \<Rightarrow> (kstate, int presult) kop" where
  "sys_bind v = arg (argfd 0) (\<lambda>(_, f). arg (argstr 1) (\<lambda>path. kbind (kget (\<lambda>s. ftable s f)) (\<lambda>x.
     if f_type x = FD_TCPSOCK then ret (s_tcp_bind v (f_tcp x) path)
     else if f_type x = FD_UDPSOCK then ret (s_udp_bind v (f_udp x) path)
     else ret (usock_bind f path))))"

definition sys_listen :: "sysenv \<Rightarrow> (kstate, int presult) kop" where
  "sys_listen v = arg (argfd 0) (\<lambda>(_, f). arg (argint 1) (\<lambda>backlog. kbind (kget (\<lambda>s. ftable s f)) (\<lambda>x.
     if f_type x = FD_TCPSOCK then
       kbind (s_tcp_listen v (f_tcp x)) (\<lambda>r. kthen (kwhen (r = 0) (kmod (set_file f (\<lambda>x. x\<lparr>f_tcp_listen := True\<rparr>)))) (kreturn (PDone r)))
     else ret (usock_listen f (sint backlog)))))"

text \<open>The loops of \<open>parse_ipv4_port\<close> over digits: the value, the number of digits and the rest.\<close>

fun parse_digits :: "int \<Rightarrow> int \<Rightarrow> nat \<Rightarrow> bytes \<Rightarrow> (int \<times> nat \<times> bytes) option" where
  "parse_digits lim v n [] = Some (v, n, [])"
| "parse_digits lim v n (c # cs) =
     (if 48 \<le> c \<and> c \<le> 57 then
        (let v' = v * 10 + (uint c - 48) in if lim < v' then None else parse_digits lim v' (n + 1) cs)
      else Some (v, n, c # cs))"

primrec parse_ipv4 :: "nat \<Rightarrow> bytes \<Rightarrow> (u8 list \<times> bytes) option" where
  "parse_ipv4 0 p = Some ([], p)"
| "parse_ipv4 (Suc k) p = (case parse_digits 255 0 0 p of
     None \<Rightarrow> None
   | Some (v, n, q) \<Rightarrow>
       if n = 0 then None
       else if k = 0 then Some ([word_of_int v], q)
       else (case q of [] \<Rightarrow> None | c # q' \<Rightarrow>
         if c \<noteq> 46 then None else map_option (\<lambda>(ip, r). (word_of_int v # ip, r)) (parse_ipv4 k q')))"

definition parse_ipv4_port :: "bytes \<Rightarrow> (u8 list \<times> int) option" where
  "parse_ipv4_port s = (case parse_ipv4 4 s of None \<Rightarrow> None
   | Some (ip, p) \<Rightarrow> (case p of [] \<Rightarrow> Some (ip, 23)
     | c # q \<Rightarrow> if c \<noteq> 58 then None
         else (case parse_digits 65535 0 0 q of None \<Rightarrow> None
           | Some (v, n, _) \<Rightarrow> if n = 0 then None else Some (ip, v))))"

definition sys_connect :: "sysenv \<Rightarrow> (kstate, int presult) kop" where
  "sys_connect v = arg (argfd 0) (\<lambda>(_, f). arg (argstr 1) (\<lambda>path. kbind (kget (\<lambda>s. ftable s f)) (\<lambda>x.
     if f_type x = FD_TCPSOCK then
       (case parse_ipv4_port path of None \<Rightarrow> kreturn PFail
        | Some (ip, port) \<Rightarrow> ret (s_tcp_connect v (f_tcp x) ip (word_of_int port)))
     else ret (usock_connect (s_env v) f path))))"

definition sys_accept :: "sysenv \<Rightarrow> (kstate, int presult) kop" where
  "sys_accept v = arg (argfd 0) (\<lambda>(_, lf). kbind (kget (\<lambda>s. ftable s lf)) (\<lambda>x.
     kbind (if f_type x = FD_TCPSOCK then s_tcp_accept v lf else usock_accept lf) (\<lambda>r. case r of
       PFail \<Rightarrow> kreturn PFail
     | PSleep k \<Rightarrow> kreturn (PSleep k)
     | PDone nf \<Rightarrow> kderef nf (\<lambda>f. kbind (fdalloc f) (\<lambda>q. case q of
         None \<Rightarrow> kthen (fileclose (s_env v) f) (kreturn PFail)
       | Some fd \<Rightarrow> kreturn (PDone (int fd)))))))"

definition sys_recvfrom :: "sysenv \<Rightarrow> (kstate, int presult) kop" where
  "sys_recvfrom v = arg (argfd 0) (\<lambda>(_, f). arg (argint 2) (\<lambda>n. arg (argptr 1 (sint n)) (\<lambda>buf.
     arg (argptr 3 4) (\<lambda>src_ip. arg (argptr 4 4) (\<lambda>src_port. kbind (kget (\<lambda>s. ftable s f)) (\<lambda>x.
     if f_type x \<noteq> FD_UDPSOCK then kreturn PFail
     else kbind (s_udp_recvfrom v (f_udp x) (sint n)) (\<lambda>(r, data, ip, port).
       if r < 0 then kreturn (PDone r)
       else kthen (ustore buf data) (kthen (ustore src_ip ip) (kthen (ustore32 src_port (word_of_int port)) (kreturn (PDone r)))))))))))"

definition sys_sendto :: "sysenv \<Rightarrow> (kstate, int presult) kop" where
  "sys_sendto v = arg (argfd 0) (\<lambda>(_, f). arg (argint 2) (\<lambda>n. arg (argptr 1 (sint n)) (\<lambda>buf.
     arg (argptr 3 4) (\<lambda>dst_ip. arg (argint 4) (\<lambda>port. kbind (kget (\<lambda>s. ftable s f)) (\<lambda>x.
     if f_type x \<noteq> FD_UDPSOCK then kreturn PFail
     else if sint port < 0 \<or> 65535 < sint port then kreturn PFail
     else kbind (uloads (nat (sint n)) buf) (\<lambda>bs. kbind (uloads 4 dst_ip) (\<lambda>ip.
       ret (s_udp_sendto v (f_udp x) bs (sint n) ip (ucast port))))))))))"


subsection \<open>Running a program\<close>

definition MAXARG :: nat where "MAXARG = 32"
definition USTACK_PAGES :: u32 where "USTACK_PAGES = 16"
definition ELF_MAGIC :: u32 where "ELF_MAGIC = 0x464C457F"
definition ELF_PROG_LOAD :: u32 where "ELF_PROG_LOAD = 1"

primrec loaduvm_loop :: "kstate devsw \<Rightarrow> u32 \<Rightarrow> u32 \<Rightarrow> nat \<Rightarrow> u32 \<Rightarrow> u32 \<Rightarrow> u32 list \<Rightarrow> (kstate, int) kop" where
  "loaduvm_loop dv pgdir addr ip offset sz [] = kreturn 0"
| "loaduvm_loop dv pgdir addr ip offset sz (i # is) =
     kbind (on_kmem (walkpgdir pgdir (addr + i) False)) (\<lambda>pte.
     if pte = 0 then kpanic ''loaduvm: address should exist''
     else kbind (on_kmem (rd32 pte)) (\<lambda>w.
       let n = (if sz - i < PGSIZE then sz - i else PGSIZE) in
       kbind (readi dv ip (offset + i) n) (\<lambda>r.
       kthen (on_kmem (on_mem (poke (p2v (PTE_ADDR w)) (snd r))))
       (if word_of_int (fst r) \<noteq> n then kreturn (- 1) else loaduvm_loop dv pgdir addr ip offset sz is))))"

definition loaduvm :: "kstate devsw \<Rightarrow> u32 \<Rightarrow> u32 \<Rightarrow> nat \<Rightarrow> u32 \<Rightarrow> u32 \<Rightarrow> (kstate, int) kop" where
  "loaduvm dv pgdir addr ip offset sz =
     (if addr mod PGSIZE \<noteq> 0 then kpanic ''loaduvm: addr must be page aligned''
      else loaduvm_loop dv pgdir addr ip offset sz (pages_from 0 sz))"

definition alloc_user :: "u32 \<Rightarrow> u32 \<Rightarrow> u32 \<Rightarrow> (kstate, u32) kop" where
  "alloc_user pgdir oldsz newsz = kbind (kget live_dirs) (\<lambda>dirs. on_kmem (allocuvm dirs pgdir oldsz newsz))"

text \<open>The loop over the program headers; \<open>None\<close> is a jump to \<open>bad\<close>.\<close>

primrec exec_load :: "nat \<Rightarrow> kstate devsw \<Rightarrow> u32 \<Rightarrow> nat \<Rightarrow> u32 \<Rightarrow> u32 \<Rightarrow> (kstate, u32 option) kop" where
  "exec_load 0 dv pgdir ip off sz = kreturn (Some sz)"
| "exec_load (Suc k) dv pgdir ip off sz =
     kbind (readi dv ip off 32) (\<lambda>r.
     if fst r \<noteq> 32 then kreturn None
     else let ph = snd r; vaddr = get32 ph 8; filesz = get32 ph 16; memsz = get32 ph 20; segend = vaddr + memsz in
       if get32 ph 0 \<noteq> ELF_PROG_LOAD then exec_load k dv pgdir ip (off + 32) sz
       else if memsz < filesz then kreturn None
       else if segend < vaddr \<or> KERNBASE < segend then kreturn None
       else kbind (alloc_user pgdir sz segend) (\<lambda>sz'.
         if sz' = 0 then kreturn None
         else kbind (loaduvm dv pgdir vaddr ip (get32 ph 4) filesz) (\<lambda>l.
           if l < 0 then kreturn None else exec_load k dv pgdir ip (off + 32) sz')))"

text \<open>Pushing the argument strings, downwards from \<open>sp\<close>; the result is the stack pointer and the addresses of the strings.\<close>

primrec push_args :: "nat \<Rightarrow> u32 \<Rightarrow> u32 \<Rightarrow> bytes list \<Rightarrow> (kmem, (u32 \<times> u32 list) option) kop" where
  "push_args argc pgdir sp [] = kreturn (Some (sp, []))"
| "push_args argc pgdir sp (a # as) =
     (if MAXARG \<le> argc then kreturn None
      else let sp' = (sp - (of_nat (length a) + 1)) AND NOT 3 in
        kbind (copyout pgdir sp' (a @ [0])) (\<lambda>r.
        if r < 0 then kreturn None
        else kbind (push_args (argc + 1) pgdir sp' as) (\<lambda>q.
          kreturn (map_option (\<lambda>(t, ps). (t, sp' # ps)) q))))"

definition exec_stack :: "u32 \<Rightarrow> u32 \<Rightarrow> bytes list \<Rightarrow> (kmem, u32 option) kop" where
  "exec_stack pgdir sz argv = kbind (push_args 0 pgdir sz argv) (\<lambda>r. case r of
     None \<Rightarrow> kreturn None
   | Some (sp, ps) \<Rightarrow>
       let argc = of_nat (length ps); ustack = [0xffffffff, argc, sp - (argc + 1) * 4] @ ps @ [0];
           sp' = sp - (3 + argc + 1) * 4 in
       kbind (copyout pgdir sp' (concat (map le32 ustack))) (\<lambda>q.
       kreturn (if q < 0 then None else Some sp')))"

definition pgdir_share_user_pt_page :: "u32 \<Rightarrow> u32 \<Rightarrow> kmem \<Rightarrow> bool" where
  "pgdir_share_user_pt_page a b s =
     (if a = 0 \<or> b = 0 then False
      else list_ex (\<lambda>i. let pa = load32 (a + 4 * i) (kmem_mem s); pb = load32 (b + 4 * i) (kmem_mem s) in
             present pa \<and> present pb \<and> PTE_ADDR pa \<noteq> 0 \<and> PTE_ADDR pa = PTE_ADDR pb) user_pdes)"

definition exec_bad :: "u32 \<Rightarrow> nat option \<Rightarrow> (kstate, int presult) kop" where
  "exec_bad pgdir ip =
     kthen (kwhen (pgdir \<noteq> 0) (kbind (kget live_dirs) (\<lambda>dirs. on_kmem (freevm dirs pgdir))))
     (kthen (case ip of None \<Rightarrow> kreturn () | Some i \<Rightarrow> iunlockput i)
     (kreturn PFail))"

definition last_elem :: "bytes \<Rightarrow> bytes" where
  "last_elem path = rev (takeWhile (\<lambda>c. \<not> is_slash c) (rev path))"

text \<open>The new image takes the place of the old one, whose page table is freed unless one of the checks fails.\<close>

definition exec_commit :: "bytes \<Rightarrow> u32 \<Rightarrow> u32 \<Rightarrow> u32 \<Rightarrow> u32 \<Rightarrow> (kstate, int presult) kop" where
  "exec_commit path pgdir sz entry sp =
     kbind myproc (\<lambda>i.
     kthen (kmod (set_proc i (set_name (last_elem path))))
     (kbind (kget (\<lambda>s. ptable s i)) (\<lambda>p.
      kthen (kmod (set_proc i (\<lambda>q. q\<lparr>pr_pgdir := pgdir, pr_sz := sz\<rparr>)))
      (kthen (on_kmem (wr32 (tf_eip (pr_tf p)) entry))
      (kthen (on_kmem (wr32 (tf_esp (pr_tf p)) sp))
      (if pgdir = 0 then kpanic ''switchuvm: no pgdir''
       else if pr_pgdir p = pgdir then kreturn (PDone 0)
       else kbind (kget (\<lambda>s. case pr_parent p of None \<Rightarrow> False
              | Some j \<Rightarrow> pr_pgdir (ptable s j) \<noteq> 0 \<and> pgdir_share_user_pt_page (pr_pgdir p) (pr_pgdir (ptable s j)) (kmem_of s))) (\<lambda>shared.
            if shared then kreturn (PDone 0)
            else kbind (kget live_dirs) (\<lambda>dirs. kthen (on_kmem (freevm dirs (pr_pgdir p))) (kreturn (PDone 0))))))))))"

text \<open>
  The test of the header compares the result of \<open>readi\<close> as an unsigned number, so \<open>-1\<close> passes and the header is whatever the stack
  holds (\<open>Undef\<close>).
\<close>

definition exec :: "env \<Rightarrow> bytes \<Rightarrow> bytes list \<Rightarrow> (kstate, int presult) kop" where
  "exec e path argv = arg (namei_of e path) (\<lambda>ip.
     kthen (ilock ip)
     (kbind (readi (e_devsw e) ip 0 52) (\<lambda>r.
      let elf = snd r in
      if word_of_int (fst r) < (52 :: u32) then exec_bad 0 (Some ip)
      else if length elf < 52 then kundef
      else if get32 elf 0 \<noteq> ELF_MAGIC then exec_bad 0 (Some ip)
      else kbind (kget live_dirs) (\<lambda>dirs. kbind (on_kmem (setupkvm (e_kdata e) dirs)) (\<lambda>pgdir.
        if pgdir = 0 then exec_bad 0 (Some ip)
        else kbind (exec_load (unat (get16 elf 44)) (e_devsw e) pgdir ip (get32 elf 28) 0) (\<lambda>l. case l of
          None \<Rightarrow> exec_bad pgdir (Some ip)
        | Some sz \<Rightarrow>
            kthen (iunlockput ip)
            (let sz1 = PGROUNDUP sz; newsz = sz1 + (USTACK_PAGES + 1) * PGSIZE in
             if newsz < sz1 \<or> KERNBASE \<le> newsz then exec_bad pgdir None
             else kbind (alloc_user pgdir sz1 newsz) (\<lambda>sz2.
               if sz2 = 0 then exec_bad pgdir None
               else kthen (on_kmem (clearpteu pgdir (sz2 - (USTACK_PAGES + 1) * PGSIZE)))
                 (kbind (on_kmem (exec_stack pgdir sz2 argv)) (\<lambda>q. case q of
                    None \<Rightarrow> exec_bad pgdir None
                  | Some sp \<Rightarrow> exec_commit path pgdir sz2 (get32 elf 24) sp))))))))))"

primrec exec_args :: "nat \<Rightarrow> u32 \<Rightarrow> (kstate, bytes list option) kop" where
  "exec_args 0 a = kreturn None"
| "exec_args (Suc k) a = kbind (fetchint a) (\<lambda>r. case r of
     None \<Rightarrow> kreturn None
   | Some uarg \<Rightarrow> if uarg = 0 then kreturn (Some [])
       else kbind (fetchstr uarg) (\<lambda>q. case q of None \<Rightarrow> kreturn None
         | Some str \<Rightarrow> kbind (exec_args k (a + 4)) (\<lambda>rest. kreturn (map_option (Cons str) rest))))"

definition sys_exec :: "env \<Rightarrow> (kstate, int presult) kop" where
  "sys_exec e = arg (argstr 0) (\<lambda>path. arg (argint 1) (\<lambda>uargv. arg (exec_args MAXARG uargv) (\<lambda>argv. exec e path argv)))"


subsection \<open>Processes\<close>

text \<open>\<open>exit\<close> does not return; its process is not scheduled again.\<close>

definition sys_exit :: "env \<Rightarrow> (kstate, int presult) kop" where
  "sys_exit e = kthen (exit e) (kreturn (PSleep 0))"

definition sys_kill :: "(kstate, int presult) kop" where
  "sys_kill = arg (argint 0) (\<lambda>pid. ret (kill (sint pid)))"

definition sys_getpid :: "(kstate, int presult) kop" where
  "sys_getpid = kbind myproc (\<lambda>i. ret (kget (\<lambda>s. pr_pid (ptable s i))))"

definition sys_setfgpid :: "(kstate, int presult) kop" where
  "sys_setfgpid = arg (argint 0) (\<lambda>pid. kthen (setfgpid (sint pid)) (kreturn (PDone 0)))"

definition sys_sbrk :: "(kstate, int presult) kop" where
  "sys_sbrk = arg (argint 0) (\<lambda>n. kbind my_sz (\<lambda>addr. kbind (growproc (sint n)) (\<lambda>r.
     if r < 0 then kreturn PFail else kreturn (PDone (sint addr)))))"

definition state_code :: "procstate \<Rightarrow> u32" where
  "state_code st = (case st of UNUSED \<Rightarrow> 0 | EMBRYO \<Rightarrow> 1 | SLEEPING \<Rightarrow> 2 | RUNNABLE \<Rightarrow> 3 | RUNNING \<Rightarrow> 4 | ZOMBIE \<Rightarrow> 5)"

text \<open>The buffer is indexed by the count, whose product with the size of an entry wraps around before the check.\<close>

definition pinfo_bytes :: "pinfo \<Rightarrow> bytes" where
  "pinfo_bytes x = le32 (word_of_int (pi_pid x)) @ le32 (word_of_int (pi_ppid x)) @ le32 (state_code (pi_state x))
     @ le32 (word_of_int (pi_cpu_id x)) @ le32 (pi_sz x) @ take 16 (pi_name x)"

primrec pinfo_store :: "u32 \<Rightarrow> pinfo list \<Rightarrow> (kstate, unit) kop" where
  "pinfo_store a [] = kreturn ()"
| "pinfo_store a (x # xs) = kthen (ustore a (pinfo_bytes x)) (pinfo_store (a + 36) xs)"

definition sys_getprocs :: "(kstate, int presult) kop" where
  "sys_getprocs = arg (argint 1) (\<lambda>mx. arg (argptr 0 (sint (mx * 36))) (\<lambda>p.
     kbind (kget (getprocs (sint mx))) (\<lambda>xs. kthen (pinfo_store p xs) (kreturn (PDone (int (length xs)))))))"


subsection \<open>Dispatch\<close>

text \<open>
  The table of system calls; those of the console, the mouse, the clock, the network configuration and the power control are a parameter.
  \<open>send\<close> and \<open>recv\<close> are \<open>write\<close> and \<open>read\<close>.
\<close>

definition syscalls :: "sysenv \<Rightarrow> nat \<Rightarrow> (kstate, int presult) kop option" where
  "syscalls v num = (let e = s_env v in
     map_of [(1, ret (fork e)), (2, sys_exit e), (3, wait), (4, sys_pipe e), (5, sys_read e), (6, sys_kill), (7, sys_exec e),
       (8, sys_fstat), (9, sys_chdir e), (10, sys_dup), (11, sys_getpid), (12, sys_sbrk), (15, sys_open e), (16, sys_write e),
       (17, sys_mknod e), (18, sys_unlink e), (19, sys_link e), (20, sys_mkdir e), (21, sys_close e), (22, sys_getprocs),
       (27, sys_getcwd e), (28, sys_setfgpid), (29, sys_socket v), (30, sys_bind v), (31, sys_listen v), (32, sys_accept v),
       (33, sys_connect v), (34, sys_write e), (35, sys_read e), (41, sys_statfs), (42, sys_lseek), (43, sys_fdready e),
       (44, sys_recvfrom v), (45, sys_sendto v)] num)"

definition syscall_num :: "(kstate, int) kop" where
  "syscall_num = kbind myproc (\<lambda>i. kget (\<lambda>s. sint (load32 (tf_eax (pr_tf (ptable s i))) (kmem_mem (kmem_of s)))))"

definition set_eax :: "int \<Rightarrow> (kstate, unit) kop" where
  "set_eax r = kbind myproc (\<lambda>i. kbind (kget (\<lambda>s. pr_tf (ptable s i))) (\<lambda>tf. on_kmem (wr32 (tf_eax tf) (word_of_int r))))"

definition syscall :: "sysenv \<Rightarrow> (nat \<Rightarrow> (kstate, int presult) kop option) \<Rightarrow> (kstate, unit presult) kop" where
  "syscall v other = kbind syscall_num (\<lambda>num.
     case (if 0 \<le> num \<and> num < 49 then (case syscalls v (nat num) of None \<Rightarrow> other (nat num) | Some h \<Rightarrow> Some h) else None) of
       None \<Rightarrow> kthen (set_eax (- 1)) (kreturn (PDone ()))
     | Some h \<Rightarrow> kbind h (\<lambda>r. case r of
         PDone x \<Rightarrow> kthen (set_eax x) (kreturn (PDone ()))
       | PFail \<Rightarrow> kthen (set_eax (- 1)) (kreturn (PDone ()))
       | PSleep k \<Rightarrow> kreturn (PSleep k)))"

text \<open>\<open>trap\<close> on a system call.\<close>

definition trap_syscall :: "sysenv \<Rightarrow> (nat \<Rightarrow> (kstate, int presult) kop option) \<Rightarrow> u32 \<Rightarrow> (kstate, unit presult) kop" where
  "trap_syscall v other tf =
     (let die = kthen (exit (s_env v)) (kreturn (PSleep 0)) in
      kbind my_killed (\<lambda>k. if k then die
      else kthen (kbind myproc (\<lambda>i. kmod (set_proc i (\<lambda>p. p\<lparr>pr_tf := tf\<rparr>))))
        (kbind (syscall v other) (\<lambda>r. case r of
           PDone _ \<Rightarrow> kbind my_killed (\<lambda>k. if k then die else kreturn (PDone ()))
         | x \<Rightarrow> kreturn x))))"

end
