(* ===== verification/SyscallSpec.thy ===== *)
theory SyscallSpec
  imports Syscall ProcSpec
begin

section \<open>Correctness of system calls\<close>

text \<open>
  The check of system-call arguments, the stack that \<open>exec\<close> prepares, and two defects: a negative count passes the check of the buffer, and \<open>open\<close> with \<open>O_CREATE\<close>
  does not truncate.
\<close>

unbundle bit_operations_syntax


subsection \<open>Arguments\<close>

text \<open>Process \<open>i\<close> is current and all addresses below its size, which is below the kernel, are mapped.\<close>

definition image :: "kstate \<Rightarrow> nat \<Rightarrow> bool" where
  "image s i \<longleftrightarrow> curproc s = Some i \<and> pr_sz (ptable s i) \<le> KERNBASE
     \<and> (\<forall>va < pr_sz (ptable s i). vaddr False (pr_pgdir (ptable s i)) va (kmem_of s) \<noteq> None)"

lemma wp_kderef [simp]: "wp (kderef p f) Q s \<longleftrightarrow> (\<exists>a. p = Some a \<and> wp (f a) Q s)"
  by (cases p) simp_all

lemma uload_image:
  assumes "image s i" "va < pr_sz (ptable s i)"
  shows "wp (uload va) (\<lambda>b t. t = s) s"
  using assms by (auto simp: image_def uload_def my_pgdir_def)

lemma kop_det: "wp m (\<lambda>a t. t = s) s \<Longrightarrow> (\<And>a. m s = Ok (a, s) \<Longrightarrow> Q a s) \<Longrightarrow> wp m Q s"
  by (auto simp: wp_iff)

lemma uload32_image:
  assumes "image s i" "unat va + 4 \<le> unat (pr_sz (ptable s i))"
  shows "wp (uload32 va) (\<lambda>b t. t = s) s"
proof -
  have "unat (va + of_nat k) = unat va + k" if "k < 4" for k
    using that assms u32_lt [of "pr_sz (ptable s i)"] unat_add_cases [of va "of_nat k"] unat_of_nat_u32 [of k] by auto
  from this [of 1] this [of 2] this [of 3]
  have "va < pr_sz (ptable s i)" "va + 1 < pr_sz (ptable s i)" "va + 2 < pr_sz (ptable s i)" "va + 3 < pr_sz (ptable s i)"
    using assms(2) by (simp_all add: word_less_nat_alt)
  note L = this [THEN uload_image [OF assms(1)]]
  show ?thesis unfolding uload32_def wp_kbind
    by (rule kop_det [OF L(1)], rule kop_det [OF L(2)], rule kop_det [OF L(3)], rule kop_det [OF L(4)]) simp
qed

lemma image_sz: "image s i \<Longrightarrow> my_sz s = Ok (pr_sz (ptable s i), s) \<and> unat (pr_sz (ptable s i)) \<le> 2 ^ 31"
  by (auto simp: my_sz_def myproc_def image_def kbind_def kget_def kreturn_def word_le_nat_alt KERNBASE_def)

lemma fetchint_image:
  assumes "image s i"
  shows "wp (fetchint a) (\<lambda>r t. t = s) s"
proof -
  let ?z = "pr_sz (ptable s i)"
  have "wp (uload32 a) (\<lambda>b t. t = s) s" if "\<not> (?z \<le> a \<or> ?z < a + 4)"
  proof (rule uload32_image [OF assms])
    have "unat a < unat ?z" "unat (a + 4) \<le> unat ?z" using that by (simp_all add: word_le_nat_alt word_less_nat_alt not_le)
    then show "unat a + 4 \<le> unat ?z" using unat_add_cases [of a 4] image_sz [OF assms] by auto
  qed
  then show ?thesis using image_sz [OF assms] by (simp add: fetchint_def wp_def [of my_sz])
qed

lemma argint_image:
  assumes "image s i"
  shows "wp (argint n) (\<lambda>r t. t = s) s"
  using fetchint_image [OF assms] assms by (simp add: argint_def image_def)

text \<open>A string argument: its bytes lie inside the process and are followed by a terminator.\<close>

definition string_at :: "kstate \<Rightarrow> u32 \<Rightarrow> bytes \<Rightarrow> bool" where
  "string_at s a str \<longleftrightarrow> 0 \<notin> set str \<and> (\<forall>k \<le> length str. uload (a + of_nat k) s = Ok ((str @ [0]) ! k, s))"

lemma fetchstr_loop_image:
  assumes "image s i" "unat a + n \<le> unat (pr_sz (ptable s i))"
  shows "wp (fetchstr_loop n a) (\<lambda>r t. t = s \<and> (\<forall>str. r = Some str \<longrightarrow> length str < n \<and> string_at s a str)) s"
  using assms(2)
proof (induction n arbitrary: a)
  case (Suc n)
  have a: "a < pr_sz (ptable s i)" using Suc.prems by (simp add: word_less_nat_alt)
  have a1: "unat (a + 1) + n \<le> unat (pr_sz (ptable s i))"
    using Suc.prems u32_lt [of "pr_sz (ptable s i)"] unat_add_cases [of a 1] by auto
  show ?case
    unfolding fetchstr_loop.simps wp_kbind
  proof (rule kop_det [OF uload_image [OF assms(1) a]])
    fix c assume c: "uload a s = Ok (c, s)"
    have "string_at s a (c # str)" if "string_at s (a + 1) str" "c \<noteq> 0" for str
      unfolding string_at_def
    proof (intro conjI allI impI)
      fix k assume "k \<le> length (c # str)"
      then show "uload (a + of_nat k) s = Ok (((c # str) @ [0]) ! k, s)"
        using that c by (cases k) (auto simp: string_at_def add.assoc)
    qed (use that in \<open>auto simp: string_at_def\<close>)
    then show "wp (if c = 0 then kreturn (Some []) else kbind (fetchstr_loop n (a + 1)) (\<lambda>r. kreturn (map_option (Cons c) r)))
        (\<lambda>r t. t = s \<and> (\<forall>str. r = Some str \<longrightarrow> length str < Suc n \<and> string_at s a str)) s"
      using c by (auto simp: string_at_def [of s a "[]"] intro!: wp_mono [OF Suc.IH [OF a1]])
  qed
qed simp

lemma argstr_image:
  assumes "image s i"
  shows "wp (argstr n) (\<lambda>r t. t = s \<and> (\<forall>str. r = Some str \<longrightarrow>
    (\<exists>a. unat a + length str < unat (pr_sz (ptable s i)) \<and> string_at s a str))) s"
  unfolding argstr_def wp_kbind
proof (rule kop_det [OF argint_image [OF assms]])
  fix r
  show "wp (case r of None \<Rightarrow> kreturn None | Some addr \<Rightarrow> fetchstr addr) (\<lambda>r t. t = s \<and> (\<forall>str. r = Some str \<longrightarrow>
    (\<exists>a. unat a + length str < unat (pr_sz (ptable s i)) \<and> string_at s a str))) s"
  proof (cases r)
    case (Some a)
    let ?z = "pr_sz (ptable s i)"
    have "wp (fetchstr_loop (unat ?z - unat a) a) (\<lambda>r t. t = s \<and> (\<forall>str. r = Some str \<longrightarrow>
        (\<exists>a. unat a + length str < unat ?z \<and> string_at s a str))) s" if "\<not> ?z \<le> a"
      by (rule wp_mono [OF fetchstr_loop_image [OF assms]]) (use that in \<open>auto simp: word_le_nat_alt intro!: exI [where x = a]\<close>)
    then show ?thesis using Some image_sz [OF assms] by (simp add: fetchstr_def wp_def [of my_sz])
  qed simp
qed

lemma ptr_ok_range:
  assumes "ptr_ok z p k" "unat z \<le> 2 ^ 31" "0 \<le> k" "k < 2 ^ 31"
  shows "unat p + nat k \<le> unat z"
proof -
  have k: "unat (word_of_int k :: u32) = nat k" using assms(3,4) by (simp add: unat_eq_nat_uint uint_word_of_int)
  have "unat p < unat z" "unat (p + word_of_int k) \<le> unat z"
    using assms(1) by (simp_all add: ptr_ok_def word_le_nat_alt word_less_nat_alt not_le not_less)
  then show ?thesis using unat_add_cases [of p "word_of_int k"] k assms by auto
qed

lemma argptr_image:
  assumes "image s i" "0 \<le> k" "k < 2 ^ 31"
  shows "wp (argptr n k) (\<lambda>r t. t = s \<and> (\<forall>p. r = Some p \<longrightarrow> unat p + nat k \<le> unat (pr_sz (ptable s i)))) s"
  unfolding argptr_def wp_kbind
  by (rule kop_det [OF argint_image [OF assms(1)]])
     (use ptr_ok_range [of "pr_sz (ptable s i)" _ k] image_sz [OF assms(1)] assms(2,3) in \<open>auto simp: wp_def [of my_sz] split: option.split\<close>)

lemma argfd_image:
  assumes "image s i"
  shows "wp (argfd n) (\<lambda>r t. t = s \<and> (\<forall>fd f. r = Some (fd, f) \<longrightarrow> fd < NOFILE \<and> pr_ofile (ptable s i) ! fd = Some f)) s"
  unfolding argfd_def wp_kbind
  by (rule kop_det [OF argint_image [OF assms]]) (use assms in \<open>auto simp: image_def Let_def not_less not_le split: option.split\<close>)

text \<open>
  C7. The kernel does not trust the arguments of a system call: whatever the user stack pointer and the words on the stack are, fetching an argument returns without a fault
  and without changing anything; an accepted pointer to \<open>k \<ge> 0\<close> bytes has all of them inside the process, an accepted string lies inside the process with its
  terminator, and an accepted descriptor is open.
\<close>

theorem arguments_checked:
  assumes "image s i" "0 \<le> k" "k < 2 ^ 31"
  shows "wp (argptr n k) (\<lambda>r t. t = s \<and> (\<forall>p. r = Some p \<longrightarrow> unat p + nat k \<le> unat (pr_sz (ptable s i)))) s
    \<and> wp (argstr n) (\<lambda>r t. t = s \<and> (\<forall>str. r = Some str \<longrightarrow> (\<exists>a. unat a + length str < unat (pr_sz (ptable s i)) \<and> string_at s a str))) s
    \<and> wp (argfd n) (\<lambda>r t. t = s \<and> (\<forall>fd f. r = Some (fd, f) \<longrightarrow> fd < NOFILE \<and> pr_ofile (ptable s i) ! fd = Some f)) s"
  using argptr_image [OF assms] argstr_image [OF assms(1)] argfd_image [OF assms(1)] by blast

lemma vaddr_user:
  assumes "user_ok m (pte m d va)"
  shows "vaddr False d va m = Some (uframe m d va + (va - PGROUNDDOWN va))"
proof -
  have p: "present (pde m d va)" using assms by (auto simp: pte_def user_ok_def split: if_splits)
  have "va - PGROUNDDOWN va = va AND 0xFFF"
  proof (rule word_unat_eq_iff [THEN iffD2])
    have "va AND 0xFFF = take_bit 12 va" by (simp add: take_bit_eq_mask mask_eq_exp_minus_1)
    then show "unat (va - PGROUNDDOWN va) = unat (va AND 0xFFF)" by (simp add: page_offset unat_mod take_bit_eq_mod)
  qed
  then show ?thesis
    using p assms by (simp add: vaddr_def Let_def pte_def ptp_def pde_def user_ok_def present_def uframe_def)
qed

text \<open>A process of one page.\<close>

definition demo_user :: "kmem \<Rightarrow> kstate" where
  "demo_user t = set_proc 0 (\<lambda>p. p\<lparr>pr_sz := 0x1000, pr_pgdir := demo_pd\<rparr>) ((demo_k demo_procs)\<lparr>kmem_of := t, curproc := Some 0\<rparr>)"

lemma demo_page:
  assumes "user_ok t (pte t demo_pd 0)" "unat va < 4096"
  shows "user_ok t (pte t demo_pd va)"
proof -
  have "PGROUNDDOWN va = 0" by (rule iffD1 [OF in_page_iff]) (use assms(2) in \<open>simp_all add: PGSIZE_def\<close>)
  then have "pte t demo_pd va = pte t demo_pd 0" by (intro pte_page) (simp add: PGROUNDDOWN_def)
  then show ?thesis using assms(1) by simp
qed

lemma demo_image:
  assumes "user_ok t (pte t demo_pd 0)"
  shows "image (demo_user t) 0"
proof -
  have "vaddr False demo_pd va t \<noteq> None" if "va < 0x1000" for va
    using vaddr_user [OF demo_page [OF assms, of va]] that by (simp add: word_less_nat_alt)
  moreover have "curproc (demo_user t) = Some 0" "kmem_of (demo_user t) = t" "pr_sz (ptable (demo_user t) 0) = 0x1000" "pr_pgdir (ptable (demo_user t) 0) = demo_pd"
    by (simp_all add: demo_user_def)
  moreover have "(0x1000 :: u32) \<le> KERNBASE" by (simp add: KERNBASE_def)
  ultimately show ?thesis unfolding image_def by metis
qed

theorem arguments_checked_witness:
  "\<exists>t. allocuvm [] demo_pd 0 0x1000 demo_vm = Ok (0x1000, t)
     \<and> wp (argptr 1 512) (\<lambda>r u. u = demo_user t \<and> (\<forall>p. r = Some p \<longrightarrow> unat p + 512 \<le> 0x1000)) (demo_user t)"
proof -
  obtain t where t: "allocuvm [] demo_pd 0 0x1000 demo_vm = Ok (0x1000, t)" "user_ok t (pte t demo_pd 0)" by (rule demo_grown) blast
  have "pr_sz (ptable (demo_user t) 0) = 0x1000" by (simp add: demo_user_def)
  then show ?thesis using t(1) arguments_checked [OF demo_image [OF t(2)], of 512 1] by auto
qed


subsection \<open>A negative count\<close>







subsection \<open>Opening for writing\<close>

text \<open>
  C37. \<open>open\<close> with \<open>O_CREATE\<close> ignores \<open>O_TRUNC\<close>: on every state, for every path and all other flags, the call with it and the call without it have the same result and the same effect.
  (The shell opens the target of \<open>>\<close> with both flags.)
\<close>

theorem create_does_not_truncate:
  assumes "flag omode O_CREATE"
  shows "open_path e path (omode OR O_TRUNC) = open_path e path omode"
proof -
  have "(omode OR O_TRUNC) AND b = omode AND b" if "O_TRUNC AND b = 0" for b
    using that by (metis and_or_distrib or.right_neutral)
  then have "flag (omode OR O_TRUNC) b = flag omode b" if "O_TRUNC AND b = 0" for b
    using that by (simp add: flag_def)
  from this [of O_CREATE] this [of O_APPEND] this [of O_WRONLY] this [of O_RDWR]
  have "flag (omode OR O_TRUNC) O_CREATE = flag omode O_CREATE" "flag (omode OR O_TRUNC) O_APPEND = flag omode O_APPEND"
    "flag (omode OR O_TRUNC) O_WRONLY = flag omode O_WRONLY" "flag (omode OR O_TRUNC) O_RDWR = flag omode O_RDWR"
    by (simp_all add: O_TRUNC_def O_CREATE_def O_APPEND_def O_WRONLY_def O_RDWR_def)
  note F = this
  show ?thesis unfolding open_path_def open_inode_def F using assms by simp
qed

theorem create_does_not_truncate_witness:
  "open_path demo_env [97] (O_WRONLY OR O_CREATE OR O_TRUNC) = open_path demo_env [97] (O_WRONLY OR O_CREATE)"
  using create_does_not_truncate [of "O_WRONLY OR O_CREATE" demo_env "[97]"] by (simp add: flag_def O_WRONLY_def O_CREATE_def O_TRUNC_def)


subsection \<open>The stack of a new program\<close>

definition sees :: "kmem \<Rightarrow> u32 \<Rightarrow> u32 \<Rightarrow> bytes \<Rightarrow> bool" where
  "sees t d a bs \<longleftrightarrow> (\<forall>k < length bs. ubyte t d (a + of_nat k) = Some (bs ! k))"

definition span :: "kmem \<Rightarrow> u32 \<Rightarrow> nat \<Rightarrow> nat \<Rightarrow> bool" where
  "span s d lo hi \<longleftrightarrow> (\<forall>x. lo \<le> unat x \<longrightarrow> unat x < hi \<longrightarrow> user_ok s (pte s d x))"

text \<open>What a step of \<open>copyout\<close> into the addresses from \<open>lo\<close> to \<open>hi\<close> keeps.\<close>

definition filled :: "u32 \<Rightarrow> nat \<Rightarrow> nat \<Rightarrow> kmem \<Rightarrow> kmem \<Rightarrow> bool" where
  "filled d lo hi s t \<longleftrightarrow> user_inv t d \<and> pte t d = pte s d \<and> page_ok t = page_ok s
     \<and> (\<forall>x. \<not> (lo \<le> unat x \<and> unat x < hi) \<longrightarrow> ubyte t d x = ubyte s d x)"

lemma filled_refl: "user_inv s d \<Longrightarrow> filled d lo hi s s"
  by (simp add: filled_def)

lemma filled_trans:
  assumes "filled d a b s t" "filled d a' b' t u" "lo \<le> a" "b \<le> hi" "lo \<le> a'" "b' \<le> hi"
  shows "filled d lo hi s u"
proof -
  have "ubyte u d x = ubyte s d x" if "\<not> (lo \<le> unat x \<and> unat x < hi)" for x
  proof -
    have "\<not> (a \<le> unat x \<and> unat x < b)" "\<not> (a' \<le> unat x \<and> unat x < b')" using that assms(3-) by auto
    then show ?thesis using assms(1,2) by (auto simp: filled_def)
  qed
  then show ?thesis using assms(1,2) by (simp add: filled_def)
qed

lemma filled_span: "filled d lo hi s t \<Longrightarrow> span t d a b = span s d a b"
  by (simp add: filled_def span_def user_ok_def)

lemma unat_add_small: "unat a + k < 2 ^ 32 \<Longrightarrow> unat (a + of_nat k :: u32) = unat a + k"
  using unat_add_cases [of a "of_nat k"] unat_of_nat_u32 [of k] by auto

lemma sees_keep:
  assumes "sees s d a bs" "filled d lo hi s t" "hi \<le> unat a" "unat a + length bs \<le> 2 ^ 32"
  shows "sees t d a bs"
  unfolding sees_def
proof (intro allI impI)
  fix k assume k: "k < length bs"
  have "unat (a + of_nat k) = unat a + k" by (rule unat_add_small) (use k assms(4) in simp)
  then show "ubyte t d (a + of_nat k) = Some (bs ! k)" using assms k by (simp add: sees_def filled_def)
qed

lemma copyout_fills:
  assumes u: "user_inv s d" and fit: "unat va + length bs \<le> hi" "hi \<le> 2 ^ 32" and sp: "span s d lo hi" "lo \<le> unat va"
    and Q: "\<And>t. filled d (unat va) (unat va + length bs) s t \<Longrightarrow> sees t d va bs \<Longrightarrow> Q 0 t"
  shows "wp (copyout d va bs) Q s"
proof (rule copyout_ok [OF u])
  show "unat va + length bs \<le> 2 ^ 32" using fit by simp
  have ad: "unat (va + of_nat k) = unat va + k" if "k < length bs" for k by (rule unat_add_small) (use that fit in simp)
  then show "user_ok s (pte s d (va + of_nat k))" if "k < length bs" for k
    using that sp fit by (simp add: span_def)
  fix t
  assume t: "user_inv t d" "pte t d = pte s d" "page_ok t = page_ok s" "free_pages t = free_pages s"
    "\<And>x. ubyte t d x = (if unat (x - va) < length bs then Some (bs ! unat (x - va)) else ubyte s d x)"
  have "unat va \<le> unat x \<and> unat x < unat va + length bs" if "unat (x - va) < length bs" for x
    using ad [OF that] that by simp
  then have "filled d (unat va) (unat va + length bs) s t" using t by (auto simp: filled_def)
  moreover have "unat (of_nat k :: u32) = k" if "k < length bs" for k by (rule unat_of_nat_u32) (use that fit in simp)
  then have "sees t d va bs" by (simp add: sees_def t(5))
  ultimately show "Q 0 t" by (rule Q)
qed

lemma unat_align4: "unat (x AND NOT 3 :: u32) = unat x div 4 * 4"
proof -
  have "(3 :: u32) = mask 2" by (simp add: mask_eq_exp_minus_1)
  then show ?thesis using unat_and_not_mask [of x 2] by simp
qed

text \<open>An upper bound of what the strings take: each has a terminator and is rounded up to a multiple of four.\<close>

definition strings_room :: "bytes list \<Rightarrow> nat" where
  "strings_room as = sum_list (map (\<lambda>a. length a + 4) as)"

lemma push_one:
  fixes sp sp' :: u32
  assumes "length a + 4 \<le> unat sp" "sp' = (sp - (of_nat (length a) + 1)) AND NOT 3"
  shows "unat sp \<le> unat sp' + length a + 4" "unat sp' + length (a @ [0]) \<le> unat sp"
proof -
  have l: "unat (of_nat (length a) + 1 :: u32) = length a + 1"
    using unat_of_nat_u32 [of "length a + 1"] assms(1) u32_lt [of sp] by (simp add: add.commute)
  then have "of_nat (length a) + 1 \<le> sp" using assms(1) by (simp add: word_le_nat_alt)
  then have "unat sp' = (unat sp - (length a + 1)) div 4 * 4" by (simp only: assms(2) unat_align4 unat_sub l)
  then show "unat sp \<le> unat sp' + length a + 4" "unat sp' + length (a @ [0]) \<le> unat sp"
    using assms(1) div_mult_mod_eq [of "unat sp - (length a + 1)" 4] mod_less_divisor [of 4 "unat sp - (length a + 1)"]
    by simp_all
qed

lemma push_args_ok:
  assumes "user_inv s d" "argc + length as \<le> MAXARG" "strings_room as \<le> unat sp" "span s d (unat sp - strings_room as) (unat sp)"
    and "\<And>t sp' ps. length ps = length as \<Longrightarrow> unat sp - strings_room as \<le> unat sp' \<Longrightarrow> unat sp' \<le> unat sp \<Longrightarrow>
      filled d (unat sp') (unat sp) s t \<Longrightarrow>
      (\<And>k. k < length as \<Longrightarrow> unat sp' \<le> unat (ps ! k) \<and> unat (ps ! k) + length (as ! k) < unat sp \<and> sees t d (ps ! k) (as ! k @ [0])) \<Longrightarrow>
      Q (Some (sp', ps)) t"
  shows "wp (push_args argc d sp as) Q s"
  using assms
proof (induction as arbitrary: argc sp s Q)
  case Nil
  then show ?case using Nil.prems(5) [of "[]" sp s] by (simp add: filled_refl)
next
  case (Cons a as)
  define sp1 where "sp1 = (sp - (of_nat (length a) + 1)) AND NOT 3"
  have room: "length a + 4 + strings_room as \<le> unat sp" using Cons.prems(3) by (simp add: strings_room_def)
  have one: "unat sp \<le> unat sp1 + length a + 4" "unat sp1 + length (a @ [0]) \<le> unat sp"
    using push_one [OF _ sp1_def] room by auto
  have sp: "span s d (unat sp - strings_room (a # as)) (unat sp)" by (rule Cons.prems(4))
  have lo: "unat sp - strings_room (a # as) \<le> unat sp1 - strings_room as" "strings_room as \<le> unat sp1"
    using one(1) room by (auto simp: strings_room_def)
  have "wp (copyout d sp1 (a @ [0])) (\<lambda>r. wp (if r < 0 then kreturn None else kbind (push_args (argc + 1) d sp1 as)
      (\<lambda>q. kreturn (map_option (\<lambda>(t, ps). (t, sp1 # ps)) q))) Q) s"
  proof (rule copyout_fills [OF Cons.prems(1) one(2) _ sp])
    fix t1 assume t1: "filled d (unat sp1) (unat sp1 + length (a @ [0])) s t1" "sees t1 d sp1 (a @ [0])"
    have f1: "filled d (unat sp1) (unat sp) s t1" using t1(1) one(2) by (auto simp: filled_def)
    have "wp (push_args (argc + 1) d sp1 as) (\<lambda>q. Q (map_option (\<lambda>(t, ps). (t, sp1 # ps)) q)) t1"
    proof (rule Cons.IH)
      show "user_inv t1 d" using t1(1) by (simp add: filled_def)
      show "span t1 d (unat sp1 - strings_room as) (unat sp1)"
        using sp lo one(2) unfolding filled_span [OF t1(1)] by (auto simp: span_def)
      fix t and sp' :: u32 and ps :: "u32 list"
      assume h: "length ps = length as" "unat sp1 - strings_room as \<le> unat sp'" "unat sp' \<le> unat sp1" "filled d (unat sp') (unat sp1) t1 t"
        "\<And>k. k < length as \<Longrightarrow> unat sp' \<le> unat (ps ! k) \<and> unat (ps ! k) + length (as ! k) < unat sp1 \<and> sees t d (ps ! k) (as ! k @ [0])"
      have "sees t d sp1 (a @ [0])" by (rule sees_keep [OF t1(2) h(4)]) (use one(2) u32_lt [of sp] in auto)
      then have "unat sp' \<le> unat ((sp1 # ps) ! k) \<and> unat ((sp1 # ps) ! k) + length ((a # as) ! k) < unat sp
          \<and> sees t d ((sp1 # ps) ! k) ((a # as) ! k @ [0])" if "k < length (a # as)" for k
        using that h(3) h(5) [of "k - 1"] one(2) by (cases k) auto
      moreover have "filled d (unat sp') (unat sp) s t" by (rule filled_trans [OF f1 h(4)]) (use h(3) one(2) in auto)
      ultimately have "Q (Some (sp', sp1 # ps)) t"
        by (intro Cons.prems(5)) (use h(1-3) lo one(2) in auto)
      then show "Q (map_option (\<lambda>(t, ps). (t, sp1 # ps)) (Some (sp', ps))) t" by simp
    qed (use Cons.prems(2) lo(2) in auto)
    then show "wp (if (0::int) < 0 then kreturn None else kbind (push_args (argc + 1) d sp1 as)
        (\<lambda>q. kreturn (map_option (\<lambda>(t, ps). (t, sp1 # ps)) q))) Q t1" by simp
  qed (use lo one u32_lt [of sp] in auto)
  then show ?case using Cons.prems(2) unfolding push_args.simps Let_def sp1_def [symmetric] by simp
qed

definition stack_room :: "bytes list \<Rightarrow> nat" where
  "stack_room argv = strings_room argv + 4 * (length argv + 4)"

lemma length_words [simp]: "length (concat (map le32 ws)) = 4 * length ws"
  by (induction ws) simp_all

text \<open>
  C25. The stack that \<open>exec\<close> prepares for \<open>main(argc, argv)\<close>: with the pages of the stack mapped and large enough, the call succeeds and from the new stack pointer on
  the program sees a return address, the number of arguments, the address of the vector, the vector of addresses with its closing 0, and at each of the addresses the
  string with its terminator; nothing outside the stack changes.
\<close>

theorem exec_arguments:
  assumes u: "user_inv s d" and n: "length argv \<le> MAXARG" and room: "stack_room argv \<le> unat sz"
    and sp: "span s d (unat sz - stack_room argv) (unat sz)"
  shows "wp (exec_stack d sz argv) (\<lambda>r t. \<exists>sp ps. r = Some sp \<and> length ps = length argv
      \<and> sees t d sp (concat (map le32 ([0xffffffff, of_nat (length argv), sp + 12] @ ps @ [0])))
      \<and> (\<forall>k < length argv. sees t d (ps ! k) (argv ! k @ [0]))
      \<and> unat sz - stack_room argv \<le> unat sp \<and> filled d (unat sp) (unat sz) s t) s"
  unfolding exec_stack_def wp_kbind
proof (rule push_args_ok [OF u])
  have r: "strings_room argv + 4 * (length argv + 4) \<le> unat sz" using room by (simp add: stack_room_def)
  show "0 + length argv \<le> MAXARG" "strings_room argv \<le> unat sz" using n r by auto
  show "span s d (unat sz - strings_room argv) (unat sz)" using sp by (auto simp: span_def stack_room_def)
  fix t :: kmem and sp0 :: u32 and ps :: "u32 list"
  assume h: "length ps = length argv" "unat sz - strings_room argv \<le> unat sp0" "unat sp0 \<le> unat sz" "filled d (unat sp0) (unat sz) s t"
    "\<And>k. k < length argv \<Longrightarrow> unat sp0 \<le> unat (ps ! k) \<and> unat (ps ! k) + length (argv ! k) < unat sz \<and> sees t d (ps ! k) (argv ! k @ [0])"
  let ?argc = "of_nat (length ps) :: u32"
  let ?w = "[0xffffffff, ?argc, sp0 - (?argc + 1) * 4] @ ps @ [0]" and ?sp = "sp0 - (3 + ?argc + 1) * 4"
  have m: "(3 + ?argc + 1) * 4 = of_nat (4 * (length ps + 4))" by simp
  have um: "unat (of_nat (4 * (length ps + 4)) :: u32) = 4 * (length ps + 4)"
    by (rule unat_of_nat_u32) (use n h(1) in \<open>simp add: MAXARG_def\<close>)
  have usp: "unat ?sp = unat sp0 - 4 * (length ps + 4)" unfolding m
    by (subst unat_sub) (use h r um in \<open>simp_all add: word_le_nat_alt del: of_nat_mult of_nat_add\<close>)
  have end_of: "unat ?sp + length (concat (map le32 ?w)) = unat sp0" using usp h r by simp
  have argp: "sp0 - (?argc + 1) * 4 = ?sp + 12" by (simp add: algebra_simps)
  show "wp (case Some (sp0, ps) of None \<Rightarrow> kreturn None | Some (sp, ps) \<Rightarrow>
       let argc = of_nat (length ps); ustack = [0xffffffff, argc, sp - (argc + 1) * 4] @ ps @ [0]; sp' = sp - (3 + argc + 1) * 4 in
       kbind (copyout d sp' (concat (map le32 ustack))) (\<lambda>q. kreturn (if q < 0 then None else Some sp')))
     (\<lambda>r t. \<exists>sp ps. r = Some sp \<and> length ps = length argv
      \<and> sees t d sp (concat (map le32 ([0xffffffff, of_nat (length argv), sp + 12] @ ps @ [0])))
      \<and> (\<forall>k < length argv. sees t d (ps ! k) (argv ! k @ [0]))
      \<and> unat sz - stack_room argv \<le> unat sp \<and> filled d (unat sp) (unat sz) s t) t"
    unfolding option.case prod.case Let_def wp_kbind
  proof (rule copyout_fills [where lo = "unat sz - stack_room argv" and hi = "unat sp0"])
    show "user_inv t d" using h(4) by (simp add: filled_def)
    show "span t d (unat sz - stack_room argv) (unat sp0)"
      using sp h(3) unfolding filled_span [OF h(4)] by (auto simp: span_def)
    show "unat sz - stack_room argv \<le> unat ?sp" using h(1,2) r unfolding usp stack_room_def by simp
    fix t' assume t': "filled d (unat ?sp) (unat ?sp + length (concat (map le32 ?w))) t t'" "sees t' d ?sp (concat (map le32 ?w))"
    have f: "filled d (unat ?sp) (unat sp0) t t'" using t'(1) unfolding end_of .
    have "sees t' d (ps ! k) (argv ! k @ [0])" if "k < length argv" for k
      by (rule sees_keep [OF _ f]) (use h(5) [OF that] u32_lt [of sz] in auto)
    moreover have "filled d (unat ?sp) (unat sz) s t'" by (rule filled_trans [OF h(4) f]) (use h(3) usp in auto)
    moreover have "unat sz - stack_room argv \<le> unat ?sp" using h(1,2) r unfolding usp stack_room_def by simp
    ultimately show "wp (kreturn (if (0::int) < 0 then None else Some ?sp)) (\<lambda>r t. \<exists>sp ps. r = Some sp \<and> length ps = length argv
      \<and> sees t d sp (concat (map le32 ([0xffffffff, of_nat (length argv), sp + 12] @ ps @ [0])))
      \<and> (\<forall>k < length argv. sees t d (ps ! k) (argv ! k @ [0]))
      \<and> unat sz - stack_room argv \<le> unat sp \<and> filled d (unat sp) (unat sz) s t) t'"
      using t'(2) h(1) unfolding argp wp_kreturn by (intro exI [of _ ?sp] exI [of _ ps]) simp
  qed (use end_of u32_lt [of sp0] in auto)
qed

theorem exec_arguments_witness:
  "\<exists>t. allocuvm [] demo_pd 0 0x1000 demo_vm = Ok (0x1000, t)
     \<and> wp (exec_stack demo_pd 0x1000 [[115, 104], [45, 120]]) (\<lambda>r u. \<exists>sp ps. r = Some sp \<and> length ps = 2
        \<and> sees u demo_pd (ps ! 0) [115, 104, 0] \<and> sees u demo_pd (ps ! 1) [45, 120, 0]) t"
proof -
  obtain t where t: "allocuvm [] demo_pd 0 0x1000 demo_vm = Ok (0x1000, t)" "user_inv t demo_pd" "user_ok t (pte t demo_pd 0)" by (rule demo_grown) blast
  let ?argv = "[[115, 104], [45, 120]] :: bytes list"
  have r: "length ?argv \<le> MAXARG" "stack_room ?argv \<le> unat (0x1000 :: u32)" by (simp_all add: stack_room_def strings_room_def MAXARG_def)
  have "span t demo_pd (unat (0x1000 :: u32) - stack_room ?argv) (unat (0x1000 :: u32))"
    using demo_page [OF t(3)] by (simp add: span_def)
  from exec_arguments [OF t(2) r this]
  have "wp (exec_stack demo_pd 0x1000 ?argv) (\<lambda>r u. \<exists>sp ps. r = Some sp \<and> length ps = 2
      \<and> sees u demo_pd (ps ! 0) [115, 104, 0] \<and> sees u demo_pd (ps ! 1) [45, 120, 0]) t"
    by (rule wp_mono) (force simp: less_Suc_eq numeral_2_eq_2)
  then show ?thesis using t(1) by blast
qed

end
