(* ===== verification/Spinlock.thy ===== *)
theory Spinlock
  imports Prelude
begin

section \<open>Spin locks (\<open>kernel/spinlock.c\<close>)\<close>

text \<open>
  \<open>acquire\<close>, \<open>release\<close>, \<open>holding\<close>, \<open>pushcli\<close> and \<open>popcli\<close> on any number of processors and locks. The functions are cut where other processors can
  interfere: each read or write of a shared word and each \<open>xchg\<close> is one step, and \<open>pc_of\<close> is where a processor is between them. \<open>pushcli\<close> and
  \<open>popcli\<close> only touch the processor's own record and flags and are one step each. The call stack kept for debugging and the name are left out.

  \<open>held\<close> is a ghost: the locks for which \<open>acquire\<close> has returned and \<open>release\<close> has not yet passed its check. \<open>ie\<close> is a ghost as well: whether the
  processor had interrupts enabled outside of its critical sections.
\<close>

record spinlock =
  lk_locked :: bool
  lk_cpu :: "nat option"

record cpu =
  c_if :: bool
  c_ncli :: int
  c_intena :: bool

datatype lpc =
    Run
  | AcqRead nat   (* holding of acquire: about to read locked *)
  | AcqCpu nat    (* about to read cpu *)
  | Spin nat      (* about to xchg 1 into locked *)
  | SetCpu nat    (* the lock is taken, about to write cpu *)
  | RelRead nat   (* holding of release: about to read locked *)
  | RelCpu nat    (* about to read cpu *)
  | RelClear nat  (* about to clear cpu *)
  | RelXchg nat   (* about to xchg 0 into locked *)
  | RelPop        (* about to call popcli *)
  | Dead          (* the processor has panicked *)

record spin_state =
  locks :: "nat \<Rightarrow> spinlock"
  cpus :: "nat \<Rightarrow> cpu"
  pc_of :: "nat \<Rightarrow> lpc"
  held :: "nat \<Rightarrow> nat set"
  ie :: "nat \<Rightarrow> bool"

definition initlock :: spinlock where
  "initlock = \<lparr>lk_locked = False, lk_cpu = None\<rparr>"

definition pushcli :: "cpu \<Rightarrow> cpu" where
  "pushcli c = (let eflags = c_if c; c = c\<lparr>c_if := False\<rparr> in
     c\<lparr>c_ncli := c_ncli c + 1, c_intena := (if c_ncli c = 0 then eflags else c_intena c)\<rparr>)"

text \<open>\<open>None\<close>: panic.\<close>

definition popcli :: "cpu \<Rightarrow> cpu option" where
  "popcli c = (if c_if c then None
     else let c = c\<lparr>c_ncli := c_ncli c - 1\<rparr> in
       if c_ncli c < 0 then None
       else Some (if c_ncli c = 0 \<and> c_intena c then c\<lparr>c_if := True\<rparr> else c))"

definition holding :: "nat \<Rightarrow> spinlock \<Rightarrow> bool" where
  "holding c l \<longleftrightarrow> lk_locked l \<and> lk_cpu l = Some c"

definition set_pc :: "nat \<Rightarrow> lpc \<Rightarrow> spin_state \<Rightarrow> spin_state" where
  "set_pc c p s = s\<lparr>pc_of := (pc_of s)(c := p)\<rparr>"

definition set_lock :: "nat \<Rightarrow> spinlock \<Rightarrow> spin_state \<Rightarrow> spin_state" where
  "set_lock l x s = s\<lparr>locks := (locks s)(l := x)\<rparr>"

definition set_cpu :: "nat \<Rightarrow> cpu \<Rightarrow> spin_state \<Rightarrow> spin_state" where
  "set_cpu c x s = s\<lparr>cpus := (cpus s)(c := x)\<rparr>"

text \<open>The steps of processor \<open>c\<close> inside \<open>acquire\<close> and \<open>release\<close>, one for each program counter.\<close>

definition lock_step :: "nat \<Rightarrow> spin_state \<Rightarrow> spin_state" where
  "lock_step c s = (case pc_of s c of
       Run \<Rightarrow> s
     | AcqRead l \<Rightarrow> set_pc c (if lk_locked (locks s l) then AcqCpu l else Spin l) s
     | AcqCpu l \<Rightarrow> set_pc c (if lk_cpu (locks s l) = Some c then Dead else Spin l) s
     | Spin l \<Rightarrow> set_pc c (if lk_locked (locks s l) then Spin l else SetCpu l) (set_lock l ((locks s l)\<lparr>lk_locked := True\<rparr>) s)
     | SetCpu l \<Rightarrow> set_pc c Run (set_lock l ((locks s l)\<lparr>lk_cpu := Some c\<rparr>) (s\<lparr>held := (held s)(c := insert l (held s c))\<rparr>))
     | RelRead l \<Rightarrow> set_pc c (if lk_locked (locks s l) then RelCpu l else Dead) s
     | RelCpu l \<Rightarrow> set_pc c (if lk_cpu (locks s l) = Some c then RelClear l else Dead) s
     | RelClear l \<Rightarrow> set_pc c (RelXchg l) (set_lock l ((locks s l)\<lparr>lk_cpu := None\<rparr>) (s\<lparr>held := (held s)(c := held s c - {l})\<rparr>))
     | RelXchg l \<Rightarrow> set_pc c RelPop (set_lock l ((locks s l)\<lparr>lk_locked := False\<rparr>) s)
     | RelPop \<Rightarrow> (case popcli (cpus s c) of None \<Rightarrow> set_pc c Dead s | Some x \<Rightarrow> set_pc c Run (set_cpu c x s))
     | Dead \<Rightarrow> s)"

text \<open>
  A processor outside of these functions may call \<open>acquire\<close> or \<open>release\<close> on any lock, and enable or disable its interrupts as long as it is not inside a
  \<open>pushcli\<close>.
\<close>

inductive spin_step :: "spin_state \<Rightarrow> spin_state \<Rightarrow> bool" where
  step_inside: "spin_step s (lock_step c s)"
| step_acquire: "pc_of s c = Run \<Longrightarrow> spin_step s (set_pc c (AcqRead l) (set_cpu c (pushcli (cpus s c)) s))"
| step_release: "pc_of s c = Run \<Longrightarrow> spin_step s (set_pc c (RelRead l) s)"
| step_flags: "pc_of s c = Run \<Longrightarrow> c_ncli (cpus s c) = 0 \<Longrightarrow> spin_step s (set_cpu c ((cpus s c)\<lparr>c_if := b\<rparr>) (s\<lparr>ie := (ie s)(c := b)\<rparr>))"

definition spin_init :: "(nat \<Rightarrow> bool) \<Rightarrow> spin_state" where
  "spin_init b = \<lparr>locks = (\<lambda>_. initlock), cpus = (\<lambda>c. \<lparr>c_if = b c, c_ncli = 0, c_intena = False\<rparr>), pc_of = (\<lambda>_. Run), held = (\<lambda>_. {}), ie = b\<rparr>"

inductive spin_reach :: "spin_state \<Rightarrow> bool" where
  reach_init: "spin_reach (spin_init b)"
| reach_step: "spin_reach s \<Longrightarrow> spin_step s t \<Longrightarrow> spin_reach t"


subsection \<open>Invariant\<close>

text \<open>The processor that has set \<open>locked\<close> and not yet cleared it.\<close>

definition owns :: "spin_state \<Rightarrow> nat \<Rightarrow> nat \<Rightarrow> bool" where
  "owns s c l \<longleftrightarrow> l \<in> held s c \<or> pc_of s c = SetCpu l \<or> pc_of s c = RelXchg l"

text \<open>The \<open>pushcli\<close> of a call in progress.\<close>

definition inside :: "lpc \<Rightarrow> nat" where
  "inside p = (case p of AcqRead l \<Rightarrow> 1 | AcqCpu l \<Rightarrow> 1 | Spin l \<Rightarrow> 1 | SetCpu l \<Rightarrow> 1 | RelXchg l \<Rightarrow> 1 | RelPop \<Rightarrow> 1 | _ \<Rightarrow> 0)"

definition lock_inv :: "spin_state \<Rightarrow> nat \<Rightarrow> bool" where
  "lock_inv s l \<longleftrightarrow> (lk_locked (locks s l) \<longleftrightarrow> (\<exists>c. owns s c l)) \<and> (\<forall>c d. owns s c l \<longrightarrow> owns s d l \<longrightarrow> c = d)
     \<and> (\<forall>c. lk_cpu (locks s l) = Some c \<longleftrightarrow> l \<in> held s c)"

definition cpu_inv :: "spin_state \<Rightarrow> nat \<Rightarrow> bool" where
  "cpu_inv s c \<longleftrightarrow> finite (held s c) \<and> (\<forall>l. pc_of s c = RelClear l \<longrightarrow> l \<in> held s c) \<and> (\<forall>l. pc_of s c = SetCpu l \<longrightarrow> l \<notin> held s c)
     \<and> (\<forall>l. pc_of s c = RelXchg l \<longrightarrow> l \<notin> held s c)
     \<and> (pc_of s c \<noteq> Dead \<longrightarrow> c_ncli (cpus s c) = int (card (held s c) + inside (pc_of s c)))
     \<and> (c_ncli (cpus s c) = 0 \<longrightarrow> c_if (cpus s c) = ie s c) \<and> (c_ncli (cpus s c) \<noteq> 0 \<longrightarrow> \<not> c_if (cpus s c) \<and> c_intena (cpus s c) = ie s c)"

definition spin_inv :: "spin_state \<Rightarrow> bool" where
  "spin_inv s \<longleftrightarrow> (\<forall>l. lock_inv s l) \<and> (\<forall>c. cpu_inv s c)"


lemma spin_invD:
  assumes "spin_inv s"
  shows "lk_locked (locks s l) \<longleftrightarrow> (\<exists>c. owns s c l)" "owns s c l \<Longrightarrow> owns s d l \<Longrightarrow> c = d" "lk_cpu (locks s l) = Some c \<longleftrightarrow> l \<in> held s c" "cpu_inv s c"
  using assms unfolding spin_inv_def lock_inv_def by blast+

text \<open>A step that only moves the program counter of one processor, between points at which it owns the same locks.\<close>

lemma inv_set_pc:
  assumes i: "spin_inv s" and o: "\<And>l. pc_of s c \<noteq> SetCpu l" "\<And>l. pc_of s c \<noteq> RelXchg l" "\<And>l. p \<noteq> SetCpu l" "\<And>l. p \<noteq> RelXchg l"
    and n: "p \<noteq> Dead \<Longrightarrow> pc_of s c \<noteq> Dead \<and> inside p = inside (pc_of s c)" and h: "\<And>l. p = RelClear l \<Longrightarrow> l \<in> held s c"
  shows "spin_inv (set_pc c p s)"
proof -
  have w: "owns (set_pc c p s) d l = owns s d l" for d l using o by (auto simp: owns_def set_pc_def)
  have "lock_inv (set_pc c p s) l" for l using i unfolding spin_inv_def lock_inv_def w by (simp add: set_pc_def)
  moreover have "cpu_inv (set_pc c p s) d" for d
    using spin_invD(4) [OF i, of d] o n h by (auto simp: cpu_inv_def set_pc_def)
  ultimately show ?thesis by (simp add: spin_inv_def)
qed

lemma inv_spin:
  assumes i: "spin_inv s" and p: "pc_of s c = Spin l"
  shows "spin_inv (set_pc c (if lk_locked (locks s l) then Spin l else SetCpu l) (set_lock l ((locks s l)\<lparr>lk_locked := True\<rparr>) s))" (is "spin_inv ?t")
proof (cases "lk_locked (locks s l)")
  case True
  then have "(locks s l)\<lparr>lk_locked := True\<rparr> = locks s l" by simp
  then have "?t = s" using True p by (simp add: set_pc_def set_lock_def fun_upd_idem)
  then show ?thesis using i by simp
next
  case False
  then have n: "\<not> owns s d l" for d using spin_invD(1) [OF i, of l] by auto
  have w: "owns ?t d k \<longleftrightarrow> owns s d k \<or> d = c \<and> k = l" for d k using False p by (auto simp: owns_def set_pc_def set_lock_def)
  have "lock_inv ?t k" for k
  proof (cases "k = l")
    case True
    then show ?thesis using n spin_invD(3) [OF i, of l] unfolding lock_inv_def w by (auto simp: set_pc_def set_lock_def)
  next
    case False
    then show ?thesis using i unfolding spin_inv_def lock_inv_def w by (auto simp: set_pc_def set_lock_def)
  qed
  moreover have "cpu_inv ?t d" for d
    using spin_invD(4) [OF i, of d] p n [of c] False by (auto simp: cpu_inv_def set_pc_def set_lock_def inside_def owns_def)
  ultimately show ?thesis by (simp add: spin_inv_def)
qed


lemma inv_set_cpu_field:
  assumes i: "spin_inv s" and p: "pc_of s c = SetCpu l"
  shows "spin_inv (set_pc c Run (set_lock l ((locks s l)\<lparr>lk_cpu := Some c\<rparr>) (s\<lparr>held := (held s)(c := insert l (held s c))\<rparr>)))" (is "spin_inv ?t")
proof -
  have n: "l \<notin> held s d" for d
    using spin_invD(2) [OF i, of c l d] spin_invD(4) [OF i, of c] p by (auto simp: owns_def cpu_inv_def)
  have w: "owns ?t d k = owns s d k" for d k using p by (auto simp: owns_def set_pc_def set_lock_def)
  have "lock_inv ?t k" for k
    using i n unfolding spin_inv_def lock_inv_def w by (auto simp: set_pc_def set_lock_def)
  moreover have "cpu_inv ?t d" for d
    using spin_invD(4) [OF i, of d] p n [of c] by (auto simp: cpu_inv_def set_pc_def set_lock_def inside_def)
  ultimately show ?thesis by (simp add: spin_inv_def)
qed

lemma inv_rel_clear:
  assumes i: "spin_inv s" and p: "pc_of s c = RelClear l"
  shows "spin_inv (set_pc c (RelXchg l) (set_lock l ((locks s l)\<lparr>lk_cpu := None\<rparr>) (s\<lparr>held := (held s)(c := held s c - {l})\<rparr>)))" (is "spin_inv ?t")
proof -
  have h: "l \<in> held s c" using spin_invD(4) [OF i, of c] p by (simp add: cpu_inv_def)
  have n: "l \<in> held s d \<Longrightarrow> d = c" for d using spin_invD(2) [OF i, of c l d] h by (auto simp: owns_def)
  have w: "owns ?t d k = owns s d k" for d k using p h by (auto simp: owns_def set_pc_def set_lock_def)
  have "lock_inv ?t k" for k
    using i n unfolding spin_inv_def lock_inv_def w by (auto simp: set_pc_def set_lock_def)
  moreover have "cpu_inv ?t d" for d
    using spin_invD(4) [OF i, of d] p h card_Suc_Diff1 [of "held s c" l] by (auto simp: cpu_inv_def set_pc_def set_lock_def inside_def)
  ultimately show ?thesis by (simp add: spin_inv_def)
qed

lemma inv_rel_xchg:
  assumes i: "spin_inv s" and p: "pc_of s c = RelXchg l"
  shows "spin_inv (set_pc c RelPop (set_lock l ((locks s l)\<lparr>lk_locked := False\<rparr>) s))" (is "spin_inv ?t")
proof -
  have h: "l \<notin> held s c" using spin_invD(4) [OF i, of c] p by (simp add: cpu_inv_def)
  have n: "owns s d l \<Longrightarrow> d = c" for d using spin_invD(2) [OF i, of c l d] p by (auto simp: owns_def)
  have w: "owns ?t d k \<longleftrightarrow> owns s d k \<and> \<not> (d = c \<and> k = l)" for d k using p h by (auto simp: owns_def set_pc_def set_lock_def)
  have "lock_inv ?t k" for k
  proof (cases "k = l")
    case True
    then show ?thesis using n spin_invD(3) [OF i, of l] unfolding lock_inv_def w by (auto simp: set_pc_def set_lock_def)
  next
    case False
    then show ?thesis using i unfolding spin_inv_def lock_inv_def w by (auto simp: set_pc_def set_lock_def)
  qed
  moreover have "cpu_inv ?t d" for d
    using spin_invD(4) [OF i, of d] p by (auto simp: cpu_inv_def set_pc_def set_lock_def inside_def)
  ultimately show ?thesis by (simp add: spin_inv_def)
qed

text \<open>\<open>popcli\<close> does not panic, and enables interrupts again when the last lock has been released.\<close>

lemma popcli_inv:
  assumes "cpu_inv s c" "pc_of s c = RelPop"
  shows "\<exists>x. popcli (cpus s c) = Some x \<and> c_ncli x = c_ncli (cpus s c) - 1 \<and> c_intena x = c_intena (cpus s c)
    \<and> c_if x = (c_ncli x = 0 \<and> ie s c)"
  using assms by (auto simp: popcli_def cpu_inv_def inside_def Let_def)

lemma inv_rel_pop:
  assumes i: "spin_inv s" and p: "pc_of s c = RelPop"
  shows "spin_inv (lock_step c s)"
proof -
  obtain x where x: "popcli (cpus s c) = Some x" "c_ncli x = c_ncli (cpus s c) - 1" "c_intena x = c_intena (cpus s c)" "c_if x = (c_ncli x = 0 \<and> ie s c)"
    using popcli_inv [OF spin_invD(4) [OF i] p] by blast
  let ?t = "set_pc c Run (set_cpu c x s)"
  have e: "lock_step c s = ?t" using p x(1) by (simp add: lock_step_def)
  have w: "owns ?t d k = owns s d k" for d k using p by (auto simp: owns_def set_pc_def set_cpu_def)
  have "lock_inv ?t k" for k using i unfolding spin_inv_def lock_inv_def w by (simp add: set_pc_def set_cpu_def)
  moreover have "cpu_inv ?t d" for d
    using spin_invD(4) [OF i, of d] p x by (auto simp: cpu_inv_def set_pc_def set_cpu_def inside_def)
  ultimately show ?thesis unfolding e by (simp add: spin_inv_def)
qed

lemma inv_lock_step:
  assumes i: "spin_inv s"
  shows "spin_inv (lock_step c s)"
proof (cases "pc_of s c")
  case (AcqRead l)
  have "spin_inv (set_pc c (if lk_locked (locks s l) then AcqCpu l else Spin l) s)" by (rule inv_set_pc [OF i]) (auto simp: AcqRead inside_def split: if_splits)
  then show ?thesis by (simp add: lock_step_def AcqRead)
next
  case (AcqCpu l)
  have "spin_inv (set_pc c (if lk_cpu (locks s l) = Some c then Dead else Spin l) s)" by (rule inv_set_pc [OF i]) (auto simp: AcqCpu inside_def split: if_splits)
  then show ?thesis by (simp add: lock_step_def AcqCpu)
next
  case (Spin l)
  then show ?thesis using inv_spin [OF i Spin] by (simp add: lock_step_def)
next
  case (SetCpu l)
  then show ?thesis using inv_set_cpu_field [OF i SetCpu] by (simp add: lock_step_def)
next
  case (RelRead l)
  have "spin_inv (set_pc c (if lk_locked (locks s l) then RelCpu l else Dead) s)" by (rule inv_set_pc [OF i]) (auto simp: RelRead inside_def split: if_splits)
  then show ?thesis by (simp add: lock_step_def RelRead)
next
  case (RelCpu l)
  have "spin_inv (set_pc c (if lk_cpu (locks s l) = Some c then RelClear l else Dead) s)"
    by (rule inv_set_pc [OF i]) (use spin_invD(3) [OF i, of l c] in \<open>auto simp: RelCpu inside_def split: if_splits\<close>)
  then show ?thesis by (simp add: lock_step_def RelCpu)
next
  case (RelClear l)
  then show ?thesis using inv_rel_clear [OF i RelClear] by (simp add: lock_step_def)
next
  case (RelXchg l)
  then show ?thesis using inv_rel_xchg [OF i RelXchg] by (simp add: lock_step_def)
next
  case RelPop
  then show ?thesis by (rule inv_rel_pop [OF i])
qed (simp_all add: i lock_step_def)

lemma inv_spin_step:
  assumes "spin_step s t" "spin_inv s"
  shows "spin_inv t"
  using assms
proof (induction rule: spin_step.induct)
  case (step_inside s c)
  then show ?case by (rule inv_lock_step)
next
  case (step_acquire s c l)
  let ?t = "set_pc c (AcqRead l) (set_cpu c (pushcli (cpus s c)) s)"
  have w: "owns ?t d k = owns s d k" for d k using step_acquire.hyps by (auto simp: owns_def set_pc_def set_cpu_def)
  have "lock_inv ?t k" for k using step_acquire.prems unfolding spin_inv_def lock_inv_def w by (simp add: set_pc_def set_cpu_def)
  moreover have "cpu_inv ?t d" for d
    using spin_invD(4) [OF step_acquire.prems, of d] step_acquire.hyps by (auto simp: cpu_inv_def set_pc_def set_cpu_def inside_def pushcli_def Let_def)
  ultimately show ?case by (simp add: spin_inv_def)
next
  case (step_release s c l)
  show ?case by (rule inv_set_pc [OF step_release.prems]) (simp_all add: step_release.hyps inside_def)
next
  case (step_flags s c b)
  let ?t = "set_cpu c ((cpus s c)\<lparr>c_if := b\<rparr>) (s\<lparr>ie := (ie s)(c := b)\<rparr>)"
  have w: "owns ?t d k = owns s d k" for d k by (auto simp: owns_def set_cpu_def)
  have "lock_inv ?t k" for k using step_flags.prems unfolding spin_inv_def lock_inv_def w by (simp add: set_cpu_def)
  moreover have "cpu_inv ?t d" for d using spin_invD(4) [OF step_flags.prems, of d] step_flags.hyps by (auto simp: cpu_inv_def set_cpu_def)
  ultimately show ?case by (simp add: spin_inv_def)
qed

lemma spin_reach_inv: "spin_reach s \<Longrightarrow> spin_inv s"
proof (induction rule: spin_reach.induct)
  case (reach_init b)
  show ?case by (simp add: spin_inv_def lock_inv_def cpu_inv_def owns_def spin_init_def initlock_def inside_def)
next
  case (reach_step s t)
  show ?case by (rule inv_spin_step [OF reach_step.hyps(2) reach_step.IH])
qed


lemma owner_steps:
  assumes "spin_inv s" "pc_of s c \<noteq> Dead" "pc_of (lock_step c s) c = Dead"
  shows "\<exists>l. pc_of s c = AcqCpu l \<and> l \<in> held s c \<or> pc_of s c \<in> {RelRead l, RelCpu l} \<and> l \<notin> held s c"
proof (cases "pc_of s c")
  case (AcqCpu l)
  then show ?thesis using assms spin_invD(3) [OF assms(1), of l c] by (auto simp: lock_step_def set_pc_def split: if_splits)
next
  case (RelRead l)
  then have "\<not> owns s c l" using assms(3) spin_invD(1) [OF assms(1), of l] by (auto simp: lock_step_def set_pc_def split: if_splits)
  then show ?thesis using RelRead by (auto simp: owns_def)
next
  case (RelCpu l)
  then show ?thesis using assms spin_invD(3) [OF assms(1), of l c] by (auto simp: lock_step_def set_pc_def split: if_splits)
next
  case RelPop
  then show ?thesis using popcli_inv [OF spin_invD(4) [OF assms(1)] RelPop] assms(3) by (auto simp: lock_step_def set_pc_def set_cpu_def)
qed (use assms in \<open>auto simp: lock_step_def set_pc_def set_lock_def split: if_splits\<close>)

lemma holder_masked:
  assumes "cpu_inv s c" "pc_of s c \<noteq> Dead" "held s c \<noteq> {}"
  shows "\<not> c_if (cpus s c)"
proof -
  have "0 < card (held s c)" using assms(1,3) by (simp add: cpu_inv_def card_gt_0_iff)
  then show ?thesis using assms(1,2) by (auto simp: cpu_inv_def)
qed

text \<open>C8. In every interleaving of the steps of any number of processors on any number of locks: no two processors are between the return of \<open>acquire\<close> and \<open>release\<close> of the same
  lock; \<open>holding\<close> answers exactly whether the asking processor is; a processor that holds a lock has its interrupts disabled, and one that holds none and is in neither function has them
  as it had set them itself; and \<open>acquire\<close>, \<open>release\<close> and \<open>popcli\<close> panic only when a processor acquires a lock it holds or releases one it does not hold.\<close>

theorem spinlock_mutual_exclusion:
  assumes "spin_reach s"
  shows "(l \<in> held s c \<longrightarrow> l \<in> held s d \<longrightarrow> c = d) \<and> (holding c (locks s l) \<longleftrightarrow> l \<in> held s c)
    \<and> (pc_of s c \<noteq> Dead \<longrightarrow> held s c \<noteq> {} \<longrightarrow> \<not> c_if (cpus s c)) \<and> (pc_of s c = Run \<longrightarrow> held s c = {} \<longrightarrow> c_if (cpus s c) = ie s c)
    \<and> (pc_of s c \<noteq> Dead \<longrightarrow> pc_of (lock_step c s) c = Dead \<longrightarrow>
        (\<exists>k. pc_of s c = AcqCpu k \<and> k \<in> held s c \<or> pc_of s c \<in> {RelRead k, RelCpu k} \<and> k \<notin> held s c))"
proof -
  note i = spin_reach_inv [OF assms]
  have "l \<in> held s c \<longrightarrow> l \<in> held s d \<longrightarrow> c = d" using spin_invD(2) [OF i, of c l d] by (auto simp: owns_def)
  moreover have "holding c (locks s l) \<longleftrightarrow> l \<in> held s c" using spin_invD(1) [OF i, of l] spin_invD(3) [OF i, of l c] by (auto simp: holding_def owns_def)
  moreover have "pc_of s c \<noteq> Dead \<longrightarrow> held s c \<noteq> {} \<longrightarrow> \<not> c_if (cpus s c)" using holder_masked [OF spin_invD(4) [OF i]] by blast
  moreover have "pc_of s c = Run \<longrightarrow> held s c = {} \<longrightarrow> c_if (cpus s c) = ie s c" using spin_invD(4) [OF i, of c] by (auto simp: cpu_inv_def inside_def)
  ultimately show ?thesis using owner_steps [OF i, of c] by blast
qed

text \<open>Processor 0 has acquired lock 0, processor 1 spins on it.\<close>

definition spin_demo :: spin_state where
  "spin_demo = (let call = (\<lambda>c s. set_pc c (AcqRead 0) (set_cpu c (pushcli (cpus s c)) s)) in
     lock_step 1 (lock_step 1 (call 1 (lock_step 0 (lock_step 0 (lock_step 0 (call 0 (spin_init (\<lambda>_. True)))))))))"

lemma spin_demo_reach: "spin_reach spin_demo"
proof -
  note r = reach_step [OF _ step_inside] reach_step [OF _ step_acquire]
  show ?thesis unfolding spin_demo_def Let_def
    by (intro r reach_init) (simp_all add: lock_step_def set_pc_def set_cpu_def set_lock_def spin_init_def initlock_def)
qed

definition spin_view :: "spin_state \<Rightarrow> lpc \<times> lpc \<times> spinlock \<times> nat set" where
  "spin_view s = (pc_of s 0, pc_of s 1, locks s 0, held s 0)"

lemma view_call:
  assumes "spin_view s = (p, q, l, h)"
  shows "spin_view (set_pc 0 (AcqRead 0) (set_cpu 0 x s)) = (AcqRead 0, q, l, h)" "spin_view (set_pc 1 (AcqRead 0) (set_cpu 1 x s)) = (p, AcqRead 0, l, h)"
  using assms by (auto simp: spin_view_def set_pc_def set_cpu_def)

lemma view_step:
  "spin_view s = (AcqRead 0, q, \<lparr>lk_locked = False, lk_cpu = None\<rparr>, {}) \<Longrightarrow> spin_view (lock_step 0 s) = (Spin 0, q, \<lparr>lk_locked = False, lk_cpu = None\<rparr>, {})"
  "spin_view s = (Spin 0, q, \<lparr>lk_locked = False, lk_cpu = None\<rparr>, {}) \<Longrightarrow> spin_view (lock_step 0 s) = (SetCpu 0, q, \<lparr>lk_locked = True, lk_cpu = None\<rparr>, {})"
  "spin_view s = (SetCpu 0, q, \<lparr>lk_locked = True, lk_cpu = None\<rparr>, {}) \<Longrightarrow> spin_view (lock_step 0 s) = (Run, q, \<lparr>lk_locked = True, lk_cpu = Some 0\<rparr>, {0})"
  "spin_view s = (Run, AcqRead 0, \<lparr>lk_locked = True, lk_cpu = Some 0\<rparr>, h) \<Longrightarrow> spin_view (lock_step 1 s) = (Run, AcqCpu 0, \<lparr>lk_locked = True, lk_cpu = Some 0\<rparr>, h)"
  "spin_view s = (Run, AcqCpu 0, \<lparr>lk_locked = True, lk_cpu = Some 0\<rparr>, h) \<Longrightarrow> spin_view (lock_step 1 s) = (Run, Spin 0, \<lparr>lk_locked = True, lk_cpu = Some 0\<rparr>, h)"
  by (simp_all add: spin_view_def lock_step_def set_pc_def set_lock_def)

lemma spin_demo_view: "spin_view spin_demo = (Run, Spin 0, \<lparr>lk_locked = True, lk_cpu = Some 0\<rparr>, {0})"
proof -
  have "spin_view (spin_init b) = (Run, Run, \<lparr>lk_locked = False, lk_cpu = None\<rparr>, {})" for b by (simp add: spin_view_def spin_init_def initlock_def)
  note view_step(5) [OF view_step(4) [OF view_call(2) [OF view_step(3) [OF view_step(2) [OF view_step(1) [OF view_call(1) [OF this]]]]]]]
  then show ?thesis unfolding spin_demo_def Let_def .
qed

theorem spinlock_mutual_exclusion_witness:
  "pc_of spin_demo 1 = Spin 0 \<and> holding 0 (locks spin_demo 0) \<and> 0 \<notin> held spin_demo 1 \<and> \<not> c_if (cpus spin_demo 0)"
  using spinlock_mutual_exclusion [OF spin_demo_reach, of 0 0 1] spin_demo_view by (simp add: spin_view_def)

end
