(* ===== verification/Console.thy ===== *)
theory Console
  imports Pipe
begin

section \<open>The console (\<open>kernel/console.c\<close>)\<close>

text \<open>
  The terminal: output with escape sequences to the frame buffer and the serial line, and input with line editing. The state holds the variables of the file, the characters
  sent to the serial line, the calls of the drawing functions of \<open>kernel/fb_console.c\<close>, and how often the readers were woken and the foreground process was killed.
  Whether the frame buffer is in use, whether the desktop owns it, and its size in characters are parameters; they change only when the machine boots or the desktop starts.
  What \<open>procdump\<close> prints of the process table is a parameter too. Whether the cursor is drawn lit or dark is left out.
\<close>

unbundle bit_operations_syntax

record fbcfg =
  fb_active :: bool
  fb_gui :: bool
  fb_cols :: int
  fb_rows :: int
  procdump_text :: bytes

datatype fbop = Glyph int int u8 u8 | Cursor int int | Scroll | ClearAll

record tty =
  in_buf :: bytes
  in_r :: u32
  in_w :: u32
  in_e :: u32
  input_echo :: bool
  input_raw :: bool
  input_echoq :: int
  esc_state :: nat
  esc_params :: "int list"
  esc_pc :: nat
  esc_bold :: bool
  cga_color :: u8
  fb_pos :: int
  t_uart :: "int list"
  t_fb :: "fbop list"
  t_wake :: nat
  t_kill :: nat

definition INPUT_BUF :: nat where "INPUT_BUF = 128"
definition CSI_MAX :: nat where "CSI_MAX = 4"
definition BACKSPACE :: int where "BACKSPACE = 0x100"

definition draw :: "fbop \<Rightarrow> tty \<Rightarrow> tty" where
  "draw d t = t\<lparr>t_fb := t_fb t @ [d]\<rparr>"

definition glyph :: "fbcfg \<Rightarrow> int \<Rightarrow> u8 \<Rightarrow> tty \<Rightarrow> tty" where
  "glyph f pos ch t = draw (Glyph (pos mod fb_cols f) (pos div fb_cols f) ch (cga_color t)) t"

definition fb_paint_cursor :: "fbcfg \<Rightarrow> tty \<Rightarrow> tty" where
  "fb_paint_cursor f t = draw (Cursor (fb_pos t mod fb_cols f) (fb_pos t div fb_cols f)) t"

definition uartputc :: "int \<Rightarrow> tty \<Rightarrow> tty" where
  "uartputc c t = t\<lparr>t_uart := t_uart t @ [c]\<rparr>"


subsection \<open>Output\<close>

definition fb_clear_visible :: "fbcfg \<Rightarrow> tty \<Rightarrow> tty" where
  "fb_clear_visible f t = (if fb_active f then fb_paint_cursor f ((draw ClearAll t)\<lparr>fb_pos := 0\<rparr>) else t)"

text \<open>A parameter of an escape sequence is a 32-bit number that wraps around.\<close>

definition digit :: "int \<Rightarrow> int \<Rightarrow> int" where
  "digit p c = sint (word_of_int (p * 10 + (c - 48)) :: u32)"

definition ansi_to_vga :: "u8 list" where "ansi_to_vga = [0, 4, 2, 6, 1, 5, 3, 7]"

definition sgr :: "int \<Rightarrow> tty \<Rightarrow> tty" where
  "sgr p t =
     (if p = 0 then t\<lparr>cga_color := 0x07, esc_bold := False\<rparr>
      else if p = 1 then t\<lparr>esc_bold := True, cga_color := (cga_color t AND 0xF0) OR ((cga_color t AND 0x0F) OR 0x08)\<rparr>
      else if 30 \<le> p \<and> p \<le> 37 then
        (let fg = ansi_to_vga ! nat (p - 30) in
         t\<lparr>cga_color := (cga_color t AND 0xF0) OR (if esc_bold t then fg OR 0x08 else fg)\<rparr>)
      else if 40 \<le> p \<and> p \<le> 47 then
        t\<lparr>cga_color := (cga_color t AND 0x0F) OR push_bit 4 (ansi_to_vga ! nat (p - 40))\<rparr>
      else t)"

definition cursor_to :: "fbcfg \<Rightarrow> tty \<Rightarrow> int" where
  "cursor_to f t =
     (let cols = fb_cols f; maxrow = max (fb_rows f - 1) 1; p0 = esc_params t ! 0; p1 = esc_params t ! 1 in
      if esc_pc t = 0 \<and> p0 = 0 then 0
      else let row = (if p0 \<noteq> 0 then p0 else 1); col = (if p1 \<noteq> 0 then p1 else 1);
               row1 = (if row < 1 then 1 else row); row2 = (if maxrow < row1 then maxrow else row1);
               col1 = (if col < 1 then 1 else col); col2 = (if cols < col1 then cols else col1) in
           (row2 - 1) * cols + (col2 - 1))"

text \<open>The private modes: 901 echo, 902 raw input, 907 and 908 the number of characters that may be erased.\<close>

definition set_mode :: "bool \<Rightarrow> tty \<Rightarrow> tty" where
  "set_mode on t =
     (let p = esc_params t ! 0; n = esc_params t ! 1 in
      if p = 901 then t\<lparr>input_echo := on\<rparr>
      else if p = 902 then t\<lparr>input_raw := on\<rparr>
      else if p = 907 \<and> on then (if 0 < n \<and> n < 512 then t\<lparr>input_echoq := min (input_echoq t + n) 1024\<rparr> else t)
      else if p = 908 \<and> on then (if 0 \<le> n \<and> n \<le> 1024 then t\<lparr>input_echoq := n\<rparr> else t)
      else t)"

text \<open>A character after \<open>ESC [\<close>.\<close>

definition csi :: "fbcfg \<Rightarrow> int \<Rightarrow> tty \<Rightarrow> tty" where
  "csi f c t =
     (if 48 \<le> c \<and> c \<le> 57 then t\<lparr>esc_params := (esc_params t)[esc_pc t := digit (esc_params t ! esc_pc t) c]\<rparr>
      else if c = 59 then (if esc_pc t < CSI_MAX - 1 then t\<lparr>esc_pc := esc_pc t + 1\<rparr> else t)
      else if c = 109 then (fold sgr (take (esc_pc t + 1) (esc_params t)) t)\<lparr>esc_state := 0\<rparr>
      else if c = 74 then (if esc_params t ! 0 = 2 then fb_clear_visible f t else t)\<lparr>esc_state := 0\<rparr>
      else if c = 72 then
        (if \<not> fb_active f then t\<lparr>esc_state := 0\<rparr>
         else (fb_paint_cursor f (t\<lparr>fb_pos := cursor_to f t\<rparr>))\<lparr>esc_state := 0\<rparr>)
      else if c = 104 \<or> c = 108 then (set_mode (c = 104) t)\<lparr>esc_state := 0\<rparr>
      else t\<lparr>esc_state := 0\<rparr>)"

text \<open>A character outside of escape sequences.\<close>

definition put_plain :: "fbcfg \<Rightarrow> int \<Rightarrow> tty \<Rightarrow> tty" where
  "put_plain f c t =
     (if c = 0x1B then t\<lparr>esc_state := 1\<rparr>
      else if \<not> fb_active f then t
      else let cols = fb_cols f; maxrow = fb_rows f - 1; pos = fb_pos t;
               (pos1, t1) =
                 (if c = 10 then (pos + (cols - pos mod cols), glyph f pos 32 t)
                  else if c = BACKSPACE then
                    (if 0 < pos then (pos - 1, glyph f pos 32 (glyph f (pos - 1) 32 t)) else (pos, t))
                  else (pos + 1, glyph f pos (word_of_int c) t));
               (pos2, t2) = (if maxrow \<le> pos1 div cols then (pos1 - cols, draw Scroll t1) else (pos1, t1)) in
           fb_paint_cursor f (t2\<lparr>fb_pos := pos2\<rparr>))"

definition cgaputc :: "fbcfg \<Rightarrow> int \<Rightarrow> tty \<Rightarrow> tty" where
  "cgaputc f c t =
     (if fb_active f \<and> fb_gui f then t\<lparr>esc_state := 0\<rparr>
      else if esc_state t = 1 then
        (if c = 91 then t\<lparr>esc_state := 2, esc_pc := 0, esc_bold := False, esc_params := replicate CSI_MAX 0\<rparr>
         else put_plain f c (t\<lparr>esc_state := 0\<rparr>))
      else if esc_state t = 2 then csi f c t
      else put_plain f c t)"

definition consputc :: "fbcfg \<Rightarrow> int \<Rightarrow> tty \<Rightarrow> tty" where
  "consputc f c t =
     (if c = BACKSPACE then cgaputc f c (uartputc 8 (uartputc 32 (uartputc 8 t)))
      else if c = 9 then
        (if fb_active f then
           (let col = fb_pos t mod fb_cols f; n = (if col mod 8 \<noteq> 0 then 8 - col mod 8 else 8) in
            ((\<lambda>t. cgaputc f 32 (uartputc 32 t)) ^^ nat n) t)
         else (uartputc 32 ^^ 8) t)
      else cgaputc f c (uartputc c t))"

text \<open>\<open>SH_DBG\<close> is \<open>[sh dbg]\<close>; such messages go to the serial line only. The result is the count.\<close>

definition SH_DBG :: bytes where "SH_DBG = [91, 115, 104, 32, 100, 98, 103, 93]"

definition consolewrite :: "fbcfg \<Rightarrow> bytes \<Rightarrow> tty \<Rightarrow> int \<times> tty" where
  "consolewrite f bs t =
     (int (length bs),
      if take 8 bs = SH_DBG then fold (\<lambda>b. uartputc (uint b)) bs t else fold (\<lambda>b. consputc f (uint b)) bs t)"


subsection \<open>Input\<close>

definition console_reset_tty :: "tty \<Rightarrow> tty" where
  "console_reset_tty t = t\<lparr>input_echo := True, input_raw := False, input_echoq := 0, esc_state := 0, esc_pc := 0, esc_bold := False, cga_color := 0x07\<rparr>"

definition ring_slot :: "u32 \<Rightarrow> nat" where
  "ring_slot i = unat i mod INPUT_BUF"

text \<open>The loop that discards the line being edited; \<open>echo\<close> tells whether each character is also erased on the screen.\<close>

function kill_line :: "fbcfg \<Rightarrow> bool \<Rightarrow> tty \<Rightarrow> tty" where
  "kill_line f echo t =
     (if in_e t \<noteq> in_w t \<and> in_buf t ! ring_slot (in_e t - 1) \<noteq> 10 then
        kill_line f echo (let u = t\<lparr>in_e := in_e t - 1\<rparr> in if echo then consputc f BACKSPACE u else u)
      else t)"
  by pat_completeness auto

definition store :: "u8 \<Rightarrow> tty \<Rightarrow> tty" where
  "store c t = t\<lparr>in_buf := (in_buf t)[ring_slot (in_e t) := c], in_e := in_e t + 1\<rparr>"

definition commit :: "tty \<Rightarrow> tty" where
  "commit t = t\<lparr>in_w := in_e t, t_wake := t_wake t + 1\<rparr>"

definition has_room :: "tty \<Rightarrow> bool" where
  "has_room t \<longleftrightarrow> in_e t - in_r t < of_nat INPUT_BUF"

lemma draw_sel [simp]:
  "in_buf (draw d t) = in_buf t" "in_r (draw d t) = in_r t" "in_w (draw d t) = in_w t" "in_e (draw d t) = in_e t" "input_raw (draw d t) = input_raw t"
  "t_wake (draw d t) = t_wake t"
  by (simp_all add: draw_def)

lemma out_sel [simp]:
  "in_buf (glyph f p ch t) = in_buf t" "in_r (glyph f p ch t) = in_r t" "in_w (glyph f p ch t) = in_w t" "in_e (glyph f p ch t) = in_e t"
  "input_raw (glyph f p ch t) = input_raw t" "t_wake (glyph f p ch t) = t_wake t"
  "in_buf (fb_paint_cursor f t) = in_buf t" "in_r (fb_paint_cursor f t) = in_r t" "in_w (fb_paint_cursor f t) = in_w t" "in_e (fb_paint_cursor f t) = in_e t"
  "input_raw (fb_paint_cursor f t) = input_raw t" "t_wake (fb_paint_cursor f t) = t_wake t"
  "in_buf (uartputc c t) = in_buf t" "in_r (uartputc c t) = in_r t" "in_w (uartputc c t) = in_w t" "in_e (uartputc c t) = in_e t"
  "input_raw (uartputc c t) = input_raw t" "t_wake (uartputc c t) = t_wake t"
  by (simp_all add: glyph_def fb_paint_cursor_def uartputc_def)

text \<open>The part of the state that input is about; output leaves it alone.\<close>

definition input_of :: "tty \<Rightarrow> bytes \<times> u32 \<times> u32 \<times> u32 \<times> nat" where
  "input_of t = (in_buf t, in_r t, in_w t, in_e t, t_wake t)"

lemma input_of_out [simp]:
  "input_of (draw d t) = input_of t" "input_of (glyph f p ch t) = input_of t" "input_of (fb_paint_cursor f t) = input_of t" "input_of (uartputc c t) = input_of t"
  by (simp_all add: input_of_def)

lemma input_of_upd [simp]:
  "input_of (t\<lparr>esc_state := a\<rparr>) = input_of t" "input_of (t\<lparr>fb_pos := p\<rparr>) = input_of t" "input_of (t\<lparr>cga_color := g\<rparr>) = input_of t"
  "input_of (t\<lparr>esc_bold := b\<rparr>) = input_of t" "input_of (t\<lparr>esc_params := ps\<rparr>) = input_of t" "input_of (t\<lparr>esc_pc := n\<rparr>) = input_of t"
  "input_of (t\<lparr>input_echo := b\<rparr>) = input_of t" "input_of (t\<lparr>input_raw := b\<rparr>) = input_of t" "input_of (t\<lparr>input_echoq := q\<rparr>) = input_of t"
  "input_of (t\<lparr>t_kill := n\<rparr>) = input_of t"
  by (simp_all add: input_of_def)

lemma input_of_sgr: "input_of (fold sgr ps t) = input_of t"
  by (induction ps arbitrary: t) (simp_all add: sgr_def Let_def)

lemma input_of_csi [simp]: "input_of (csi f c t) = input_of t"
  by (simp add: csi_def input_of_sgr fb_clear_visible_def set_mode_def Let_def)

lemma input_of_plain [simp]: "input_of (put_plain f c t) = input_of t"
  by (simp add: put_plain_def Let_def)

lemma input_of_cgaputc [simp]: "input_of (cgaputc f c t) = input_of t"
  by (simp add: cgaputc_def)

lemma input_of_repeat: "(\<And>t. input_of (g t) = input_of t) \<Longrightarrow> input_of ((g ^^ n) t) = input_of t"
  by (induction n) simp_all

lemma input_of_consputc [simp]: "input_of (consputc f c t) = input_of t"
  by (simp add: consputc_def Let_def input_of_repeat)

lemma input_of_print [simp]: "input_of (fold (\<lambda>b. consputc f (uint b)) bs t) = input_of t"
  by (induction bs arbitrary: t) simp_all

lemma consputc_input [simp]:
  "in_buf (consputc f c t) = in_buf t" "in_r (consputc f c t) = in_r t" "in_w (consputc f c t) = in_w t" "in_e (consputc f c t) = in_e t"
  "t_wake (consputc f c t) = t_wake t"
  using input_of_consputc [of f c t] by (simp_all add: input_of_def)

termination kill_line
proof (relation "measure (\<lambda>(f, echo, t). unat (in_e t - in_w t))", goal_cases)
  case (2 f echo t)
  have "unat (in_e t - in_w t - 1) = unat (in_e t - in_w t) - 1" using 2 by (intro unat_minus_one) simp
  moreover have "0 < unat (in_e t - in_w t)" using 2 by (simp add: unat_gt_0)
  ultimately show ?case by (simp add: Let_def diff_right_commute)
qed simp

declare kill_line.simps [simp del]

text \<open>One character from the keyboard or the serial line.\<close>

definition consoleintr_backspace :: "fbcfg \<Rightarrow> int \<Rightarrow> tty \<Rightarrow> tty" where
  "consoleintr_backspace f c t =
     (if input_raw t then
        (if has_room t then
           (let t1 = (if input_echo t then
                        (if 0 < input_echoq t then consputc f BACKSPACE (t\<lparr>input_echoq := input_echoq t - 1\<rparr>)
                         else if in_r t < in_e t then consputc f BACKSPACE t else t)
                      else t) in
            commit (store (if c = 0x7f then 0x7f else 8) t1))
         else t)
      else if in_e t \<noteq> in_w t then consputc f BACKSPACE (t\<lparr>in_e := in_e t - 1\<rparr>)
      else t)"

definition consoleintr_char :: "fbcfg \<Rightarrow> int \<Rightarrow> tty \<Rightarrow> tty" where
  "consoleintr_char f c0 t =
     (if c0 \<noteq> 0 \<and> has_room t then
        (let c = (if c0 = 13 then 10 else c0);
             t1 = store (word_of_int c) t;
             t2 = (if input_echo t1 \<and> \<not> (input_raw t1 \<and> c = 9) then consputc f c t1 else t1);
             t3 = (if input_raw t2 \<and> input_echo t2 \<and> 0x20 \<le> c \<and> c \<le> 0x7e then t2\<lparr>input_echoq := min (input_echoq t2 + 1) 1024\<rparr> else t2);
             t4 = (if input_raw t3 \<and> c = 10 then t3\<lparr>input_echoq := 0\<rparr> else t3) in
         if input_raw t4 \<or> c = 10 \<or> c = 4 \<or> in_e t4 = in_r t4 + of_nat INPUT_BUF then commit t4 else t4)
      else t)"

definition consoleintr1 :: "fbcfg \<Rightarrow> int \<Rightarrow> tty \<Rightarrow> tty" where
  "consoleintr1 f c t =
     (if c = 16 then fold (\<lambda>b. consputc f (uint b)) (procdump_text f) t
      else if c = 21 then (kill_line f True t)\<lparr>input_echoq := 0\<rparr>
      else if c = 8 \<or> c = 0x7f then consoleintr_backspace f c t
      else if c = 3 then
        (let t1 = consputc f 10 (kill_line f False (console_reset_tty (t\<lparr>t_kill := t_kill t + 1\<rparr>))) in
         if has_room t1 then commit (store 10 t1) else t1)
      else consoleintr_char f c t)"

definition consoleintr :: "fbcfg \<Rightarrow> int list \<Rightarrow> tty \<Rightarrow> tty" where
  "consoleintr f cs t = fold (consoleintr1 f) cs t"

definition consolecanread :: "tty \<Rightarrow> bool" where
  "consolecanread t \<longleftrightarrow> in_r t \<noteq> in_w t"

text \<open>
  \<open>consoleread\<close> from a point with \<open>n\<close> bytes still to read of \<open>target\<close>: the bytes it stores until it returns, or until it goes to sleep with \<open>n\<close> left.
  A process that is killed before it sleeps returns -1 instead.
\<close>

datatype rdres = RDone bytes | RWait bytes nat

primrec consoleread :: "nat \<Rightarrow> nat \<Rightarrow> tty \<Rightarrow> rdres \<times> tty" where
  "consoleread target 0 t = (RDone [], t)"
| "consoleread target (Suc n) t =
     (if in_r t = in_w t then (RWait [] (Suc n), t)
      else let c = in_buf t ! ring_slot (in_r t); t1 = t\<lparr>in_r := in_r t + 1\<rparr> in
        if c = 4 then (RDone [], if Suc n < target then t else t1)
        else if c = 10 then (RDone [c], t1)
        else (case consoleread target n t1 of
               (RDone bs, u) \<Rightarrow> (RDone (c # bs), u)
             | (RWait bs k, u) \<Rightarrow> (RWait (c # bs) k, u)))"


subsection \<open>Output stays on the screen\<close>

text \<open>The last row of the screen is reserved for the message of a panic.\<close>

fun inside_text :: "fbcfg \<Rightarrow> fbop \<Rightarrow> bool" where
  "inside_text f (Glyph c r ch a) \<longleftrightarrow> 0 \<le> c \<and> c < fb_cols f \<and> 0 \<le> r \<and> r < fb_rows f - 1"
| "inside_text f (Cursor c r) \<longleftrightarrow> 0 \<le> c \<and> c < fb_cols f \<and> 0 \<le> r \<and> r < fb_rows f - 1"
| "inside_text f d \<longleftrightarrow> True"

definition screen_ok :: "fbcfg \<Rightarrow> tty \<Rightarrow> bool" where
  "screen_ok f t \<longleftrightarrow> 0 \<le> fb_pos t \<and> fb_pos t < fb_cols f * (fb_rows f - 1) \<and> length (esc_params t) = CSI_MAX \<and> esc_pc t < CSI_MAX
     \<and> list_all (inside_text f) (t_fb t)"

definition fb_size :: "fbcfg \<Rightarrow> bool" where
  "fb_size f \<longleftrightarrow> 0 < fb_cols f \<and> 2 \<le> fb_rows f"

lemma le_div_int: "0 < (q :: int) \<Longrightarrow> n \<le> m div q \<longleftrightarrow> n * q \<le> m"
proof
  assume q: "0 < q" "n \<le> m div q"
  have "n * q \<le> m div q * q" using q by simp
  also have "\<dots> \<le> m" using q(1) pos_mod_sign [of q m] div_mult_mod_eq [of m q] by linarith
  finally show "n * q \<le> m" .
next
  assume "0 < q" "n * q \<le> m"
  then show "n \<le> m div q" using zdiv_mono1 [of "n * q" m q] by simp
qed

lemma cell_inside:
  assumes "fb_size f" "0 \<le> p" "p < fb_cols f * (fb_rows f - 1)"
  shows "0 \<le> p mod fb_cols f \<and> p mod fb_cols f < fb_cols f \<and> 0 \<le> p div fb_cols f \<and> p div fb_cols f < fb_rows f - 1"
proof -
  have c: "0 < fb_cols f" using assms(1) by (simp add: fb_size_def)
  have "\<not> fb_rows f - 1 \<le> p div fb_cols f" using le_div_int [OF c, of "fb_rows f - 1" p] assms(3) by (simp add: mult.commute)
  then show ?thesis using c assms(2) by (simp add: pos_imp_zdiv_nonneg_iff)
qed

text \<open>The cursor after a character, one row scrolled away if need be.\<close>

lemma scrolled:
  assumes "fb_size f" "0 \<le> p" "p \<le> fb_cols f * (fb_rows f - 1)"
  shows "fb_rows f - 1 \<le> p div fb_cols f \<Longrightarrow> 0 \<le> p - fb_cols f \<and> p - fb_cols f < fb_cols f * (fb_rows f - 1)"
    "\<not> fb_rows f - 1 \<le> p div fb_cols f \<Longrightarrow> p < fb_cols f * (fb_rows f - 1)"
proof -
  have c: "0 < fb_cols f" "2 \<le> fb_rows f" using assms(1) by (simp_all add: fb_size_def)
  note l = le_div_int [OF c(1), of "fb_rows f - 1" p]
  show "\<not> fb_rows f - 1 \<le> p div fb_cols f \<Longrightarrow> p < fb_cols f * (fb_rows f - 1)" using l by (simp add: mult.commute)
  assume "fb_rows f - 1 \<le> p div fb_cols f"
  then have "p = fb_cols f * (fb_rows f - 1)" using l assms(3) by (simp add: mult.commute)
  moreover have "fb_cols f * 1 \<le> fb_cols f * (fb_rows f - 1)" by (rule mult_left_mono) (use c in auto)
  ultimately show "0 \<le> p - fb_cols f \<and> p - fb_cols f < fb_cols f * (fb_rows f - 1)" using c by simp
qed

lemma next_row:
  assumes "fb_size f" "0 \<le> p" "p < fb_cols f * (fb_rows f - 1)"
  shows "p + (fb_cols f - p mod fb_cols f) \<le> fb_cols f * (fb_rows f - 1)"
proof -
  have "p + (fb_cols f - p mod fb_cols f) = fb_cols f * (p div fb_cols f + 1)" using mult_div_mod_eq [of "fb_cols f" p] by (simp add: algebra_simps)
  also have "\<dots> \<le> fb_cols f * (fb_rows f - 1)" by (rule mult_left_mono) (use cell_inside [OF assms] assms(1) in \<open>auto simp: fb_size_def\<close>)
  finally show ?thesis .
qed

lemma screen_draw: "screen_ok f t \<Longrightarrow> inside_text f d \<Longrightarrow> screen_ok f (draw d t)"
  by (simp add: screen_ok_def draw_def)

lemma screen_glyph:
  assumes "fb_size f" "screen_ok f t" "0 \<le> p" "p < fb_cols f * (fb_rows f - 1)"
  shows "screen_ok f (glyph f p ch t)"
  unfolding glyph_def by (rule screen_draw [OF assms(2)]) (use cell_inside [OF assms(1,3,4)] in simp)

lemma screen_move:
  assumes "fb_size f" "screen_ok f t" "0 \<le> p" "p < fb_cols f * (fb_rows f - 1)"
  shows "screen_ok f (fb_paint_cursor f (t\<lparr>fb_pos := p\<rparr>))"
proof -
  have "screen_ok f (t\<lparr>fb_pos := p\<rparr>)" using assms(2-4) by (simp add: screen_ok_def)
  then show ?thesis unfolding fb_paint_cursor_def by (rule screen_draw) (use cell_inside [OF assms(1,3,4)] in simp)
qed

lemma screen_upd [simp]:
  "screen_ok f (t\<lparr>esc_state := a\<rparr>) = screen_ok f t" "screen_ok f (uartputc c t) = screen_ok f t" "screen_ok f (t\<lparr>input_echoq := q\<rparr>) = screen_ok f t"
  "screen_ok f (t\<lparr>input_echo := b\<rparr>) = screen_ok f t" "screen_ok f (t\<lparr>input_raw := b\<rparr>) = screen_ok f t" "screen_ok f (t\<lparr>in_e := x\<rparr>) = screen_ok f t"
  "screen_ok f (store c' t) = screen_ok f t" "screen_ok f (commit t) = screen_ok f t" "screen_ok f (t\<lparr>t_kill := n\<rparr>) = screen_ok f t"
  by (simp_all add: screen_ok_def uartputc_def store_def commit_def)

lemma screen_plain:
  assumes "fb_size f" "screen_ok f t"
  shows "screen_ok f (put_plain f c t)"
proof -
  have p: "0 \<le> fb_pos t" "fb_pos t < fb_cols f * (fb_rows f - 1)" using assms(2) by (simp_all add: screen_ok_def)
  have go: "screen_ok f (case if fb_rows f - 1 \<le> q div fb_cols f then (q - fb_cols f, draw Scroll u) else (q, u) of (p', u') \<Rightarrow> fb_paint_cursor f (u'\<lparr>fb_pos := p'\<rparr>))"
    if "screen_ok f u" "0 \<le> q" "q \<le> fb_cols f * (fb_rows f - 1)" for q u
    using screen_move [OF assms(1), of "draw Scroll u" "q - fb_cols f"] screen_move [OF assms(1) that(1), of q] scrolled [OF assms(1) that(2,3)] that(2) screen_draw [OF that(1), of Scroll]
    by auto
  note g = screen_glyph [OF assms(1)]
  consider "c = 27 \<or> \<not> fb_active f" | "c = 10" "fb_active f" | "c = BACKSPACE" "fb_active f" "0 < fb_pos t" | "c = BACKSPACE" "fb_active f" "\<not> 0 < fb_pos t"
    | "c \<noteq> 27" "c \<noteq> 10" "c \<noteq> BACKSPACE" "fb_active f" by blast
  then show ?thesis
  proof cases
    case 2
    have "0 \<le> fb_pos t + (fb_cols f - fb_pos t mod fb_cols f)" using p(1) cell_inside [OF assms(1) p] by linarith
    from go [OF g [OF assms(2) p, of 32] this next_row [OF assms(1) p]] show ?thesis using 2 by (simp add: put_plain_def Let_def)
  next
    case 3
    have "screen_ok f (glyph f (fb_pos t) 32 (glyph f (fb_pos t - 1) 32 t))" by (intro g assms(2)) (use p 3 in auto)
    from go [OF this, of "fb_pos t - 1"] show ?thesis using 3 p by (simp add: put_plain_def Let_def BACKSPACE_def)
  next
    case 4
    then have "fb_pos t = 0" using p by simp
    then show ?thesis using 4 screen_move [OF assms, of 0] p assms(1) by (simp add: put_plain_def Let_def BACKSPACE_def fb_size_def)
  next
    case 5
    from go [OF g [OF assms(2) p, of "word_of_int c"], of "fb_pos t + 1"] show ?thesis using 5 p by (simp add: put_plain_def Let_def)
  qed (use assms(2) in \<open>auto simp: put_plain_def\<close>)
qed

lemma screen_sgr: "screen_ok f (fold sgr ps t) = screen_ok f t"
  by (induction ps arbitrary: t) (simp_all add: sgr_def Let_def screen_ok_def)

lemma cursor_to_inside:
  assumes "fb_size f"
  shows "0 \<le> cursor_to f t \<and> cursor_to f t < fb_cols f * (fb_rows f - 1)"
proof -
  have c: "0 < fb_cols f" "1 \<le> fb_rows f - 1" using assms by (simp_all add: fb_size_def)
  have m: "0 \<le> (r - 1) * fb_cols f + (k - 1) \<and> (r - 1) * fb_cols f + (k - 1) < fb_cols f * (fb_rows f - 1)"
    if "1 \<le> r" "r \<le> fb_rows f - 1" "1 \<le> k" "k \<le> fb_cols f" for r k
  proof -
    have "(r - 1) * fb_cols f + (k - 1) < (r - 1) * fb_cols f + fb_cols f" using that by simp
    also have "\<dots> = r * fb_cols f" by (simp add: algebra_simps)
    also have "\<dots> \<le> (fb_rows f - 1) * fb_cols f" by (rule mult_right_mono) (use that c in auto)
    finally show ?thesis using that c by (simp add: mult.commute)
  qed
  have z: "0 < fb_cols f * (fb_rows f - 1)" using c by simp
  let ?r = "\<lambda>p. let row = (if p \<noteq> 0 then p else 1); row1 = (if row < 1 then 1 else row) in (if max (fb_rows f - 1) 1 < row1 then max (fb_rows f - 1) 1 else row1) :: int"
  let ?k = "\<lambda>p. let col = (if p \<noteq> 0 then p else 1); col1 = (if col < 1 then 1 else col) in (if fb_cols f < col1 then fb_cols f else col1) :: int"
  have "1 \<le> ?r p \<and> ?r p \<le> fb_rows f - 1" "1 \<le> ?k p \<and> ?k p \<le> fb_cols f" for p using c by (auto simp: Let_def)
  then have "0 \<le> (?r p - 1) * fb_cols f + (?k q - 1) \<and> (?r p - 1) * fb_cols f + (?k q - 1) < fb_cols f * (fb_rows f - 1)" for p q using m by blast
  from this [of "esc_params t ! 0" "esc_params t ! 1"] show ?thesis using z unfolding cursor_to_def Let_def by simp
qed

lemma screen_csi:
  assumes "fb_size f" "screen_ok f t"
  shows "screen_ok f (csi f c t)"
proof -
  have z: "0 < fb_cols f * (fb_rows f - 1)" using assms(1) by (simp add: fb_size_def)
  have "screen_ok f (fb_clear_visible f t)" if "fb_active f"
    using screen_move [OF assms(1) screen_draw [OF assms(2), of ClearAll], of 0] that z by (simp add: fb_clear_visible_def)
  moreover have "screen_ok f (fb_paint_cursor f (t\<lparr>fb_pos := cursor_to f t\<rparr>))"
    by (rule screen_move [OF assms]) (use cursor_to_inside [OF assms(1), of t] in auto)
  moreover have "screen_ok f (set_mode b t)" for b using assms(2) by (simp add: set_mode_def Let_def)
  moreover have "screen_ok f (t\<lparr>esc_params := (esc_params t)[esc_pc t := x]\<rparr>)" "esc_pc t < CSI_MAX - 1 \<Longrightarrow> screen_ok f (t\<lparr>esc_pc := esc_pc t + 1\<rparr>)" for x
    using assms(2) by (simp_all add: screen_ok_def)
  ultimately show ?thesis using assms(2) by (cases "fb_active f") (simp_all add: csi_def screen_sgr fb_clear_visible_def [of f])
qed

lemma screen_cgaputc:
  assumes "fb_size f" "screen_ok f t"
  shows "screen_ok f (cgaputc f c t)"
proof -
  have "screen_ok f (t\<lparr>esc_state := 2, esc_pc := 0, esc_bold := False, esc_params := replicate CSI_MAX 0\<rparr>)"
    using assms(2) by (simp add: screen_ok_def CSI_MAX_def)
  then show ?thesis using assms screen_plain [OF assms(1)] screen_csi [OF assms] by (simp add: cgaputc_def)
qed

lemma screen_consputc:
  assumes "fb_size f" "screen_ok f t"
  shows "screen_ok f (consputc f c t)"
proof -
  have r: "(\<And>t. screen_ok f t \<Longrightarrow> screen_ok f (g t)) \<Longrightarrow> screen_ok f ((g ^^ n) t)" for g n by (induction n) (use assms(2) in auto)
  have "screen_ok f (((\<lambda>t. cgaputc f 32 (uartputc 32 t)) ^^ n) t)" "screen_ok f ((uartputc 32 ^^ n) t)" for n
    by (rule r, simp add: screen_cgaputc [OF assms(1)])+
  then show ?thesis using assms screen_cgaputc [OF assms(1)] by (simp add: consputc_def Let_def)
qed

lemma screen_print: "fb_size f \<Longrightarrow> screen_ok f t \<Longrightarrow> screen_ok f (fold (\<lambda>b. consputc f (uint b)) bs t)"
  by (induction bs arbitrary: t) (simp_all add: screen_consputc)

lemma screen_kill_line:
  assumes "fb_size f" "screen_ok f t"
  shows "screen_ok f (kill_line f echo t)"
  using assms
proof (induction f echo t rule: kill_line.induct)
  case (1 f echo t)
  then show ?case
    using screen_consputc [OF "1.prems"(1), of "t\<lparr>in_e := in_e t - 1\<rparr>" BACKSPACE] by (subst kill_line.simps) (simp add: Let_def)
qed

lemma screen_intr:
  assumes "fb_size f" "screen_ok f t"
  shows "screen_ok f (consoleintr1 f c t)"
proof -
  note p = screen_consputc [OF assms(1)]
  have "screen_ok f (console_reset_tty (t\<lparr>t_kill := n\<rparr>))" for n using assms(2) by (simp add: screen_ok_def console_reset_tty_def CSI_MAX_def)
  from p [OF screen_kill_line [OF assms(1) this]] show ?thesis
    using assms p screen_kill_line [OF assms] screen_print [OF assms, of "procdump_text f"]
    by (auto simp: consoleintr1_def consoleintr_backspace_def consoleintr_char_def Let_def)
qed

text \<open>
  C28. Whatever a program prints and whatever is typed, escape sequences included, on a screen of at least two rows: every character cell and every position of the cursor drawn lies
  inside the text area and never in the row reserved for panics, the index into the array of escape parameters stays in bounds, and the cursor stays on the screen.
\<close>

theorem console_stays_on_screen:
  assumes "fb_size f" "screen_ok f t"
  shows "screen_ok f (snd (consolewrite f bs t)) \<and> screen_ok f (consoleintr f cs t)"
proof -
  have u: "screen_ok f (fold (\<lambda>b. uartputc (uint b)) bs v)" if "screen_ok f v" for v
    using that by (induction bs arbitrary: v) simp_all
  have "screen_ok f (fold (consoleintr1 f) cs v)" if "screen_ok f v" for v
    using that by (induction cs arbitrary: v) (simp_all add: screen_intr [OF assms(1)])
  then show ?thesis using screen_print [OF assms, of bs] u assms(2) by (simp add: consolewrite_def consoleintr_def)
qed

definition tty_init :: tty where
  "tty_init = \<lparr>in_buf = replicate INPUT_BUF 0, in_r = 0, in_w = 0, in_e = 0, input_echo = True, input_raw = False, input_echoq = 0, esc_state = 0,
     esc_params = replicate CSI_MAX 0, esc_pc = 0, esc_bold = False, cga_color = 0x07, fb_pos = 0, t_uart = [], t_fb = [], t_wake = 0, t_kill = 0\<rparr>"

definition demo_fb :: fbcfg where
  "demo_fb = \<lparr>fb_active = True, fb_gui = False, fb_cols = 80, fb_rows = 25, procdump_text = []\<rparr>"

theorem console_stays_on_screen_witness:
  "screen_ok demo_fb (snd (consolewrite demo_fb [27, 91, 57, 57, 59, 57, 57, 72, 120, 10, 121] tty_init)) \<and> screen_ok demo_fb (consoleintr demo_fb [8, 97, 13] tty_init)"
proof -
  have "fb_size demo_fb" "screen_ok demo_fb tty_init" by (simp_all add: fb_size_def demo_fb_def screen_ok_def tty_init_def CSI_MAX_def)
  then show ?thesis by (rule console_stays_on_screen)
qed


subsection \<open>Line editing\<close>

text \<open>
  The characters of the ring from the next one to be read, and how many of them the reader may have. A line editor keeps two sequences: the committed characters and the line being edited.
\<close>

definition chars :: "tty \<Rightarrow> bytes" where
  "chars t = map (\<lambda>k. in_buf t ! ring_slot (in_r t + of_nat k)) [0..<unat (in_e t - in_r t)]"

definition ncom :: "tty \<Rightarrow> nat" where
  "ncom t = unat (in_w t - in_r t)"

definition ring_inv :: "tty \<Rightarrow> bool" where
  "ring_inv t \<longleftrightarrow> length (in_buf t) = INPUT_BUF \<and> ncom t \<le> unat (in_e t - in_r t) \<and> unat (in_e t - in_r t) \<le> INPUT_BUF"

definition line :: "tty \<Rightarrow> bytes \<times> bytes" where
  "line t = (take (ncom t) (chars t), drop (ncom t) (chars t))"

lemma ring_slot_add: "ring_slot (a + of_nat k) = (unat a + k) mod 128"
proof -
  have "unat (a + of_nat k) = (unat a + k) mod 2 ^ 32" by (simp add: unat_word_ariths unat_of_nat mod_add_right_eq)
  then show ?thesis by (simp add: ring_slot_def INPUT_BUF_def mod_mod_cancel)
qed

lemma ring_slot_inj:
  assumes "ring_slot (a + of_nat j) = ring_slot (a + of_nat k)" "j < 128" "k < 128"
  shows "j = k"
proof -
  have "False" if "j < k" "k < 128" "(x + j) mod 128 = (x + k) mod 128" for x j k :: nat
    using that mod_eq_dvd_iff_nat [of "x + j" "x + k" 128] nat_dvd_not_less [of "k - j" 128] by auto
  from this [of j k "unat a"] this [of k j "unat a"] show ?thesis using assms unfolding ring_slot_add by (cases j k rule: linorder_cases) auto
qed

lemma line_cong: "input_of t = input_of u \<Longrightarrow> ring_inv t = ring_inv u \<and> chars t = chars u \<and> ncom t = ncom u"
  by (simp add: input_of_def ring_inv_def chars_def ncom_def)

lemma length_chars [simp]: "length (chars t) = unat (in_e t - in_r t)"
  by (simp add: chars_def)

lemma has_room_iff: "has_room t \<longleftrightarrow> length (chars t) < 128"
  by (simp add: has_room_def word_less_nat_alt INPUT_BUF_def)

lemma store_chars:
  assumes "ring_inv t" "has_room t"
  shows "chars (store c t) = chars t @ [c]" "ncom (store c t) = ncom t" "ring_inv (store c t)"
proof -
  let ?n = "unat (in_e t - in_r t)"
  have n: "?n < 128" using assms(2) by (simp add: has_room_iff)
  have e: "in_e t = in_r t + of_nat ?n" by simp
  have eq: "in_e t + 1 - in_r t = in_e t - in_r t + 1" by simp
  have n': "unat (in_e t + 1 - in_r t) = Suc ?n" unfolding eq using n unat_add_cases [of "in_e t - in_r t" 1] by auto
  have l: "length (in_buf t) = 128" using assms(1) by (simp add: ring_inv_def INPUT_BUF_def)
  have lt: "ring_slot x < length (in_buf t)" for x by (simp add: l ring_slot_def INPUT_BUF_def)
  have ne: "ring_slot (in_e t) \<noteq> ring_slot (in_r t + of_nat k)" if "k < ?n" for k
    using ring_slot_inj [of "in_r t" ?n k] n that by (subst e) auto
  show c: "chars (store c t) = chars t @ [c]"
  proof (rule nth_equalityI)
    fix k assume "k < length (chars (store c t))"
    then have k: "k < Suc ?n" by (simp add: store_def n')
    show "chars (store c t) ! k = (chars t @ [c]) ! k"
    proof (cases "k = ?n")
      case True
      then show ?thesis using lt by (simp add: chars_def store_def n' nth_append)
    next
      case False
      then show ?thesis using k ne [of k] by (simp add: chars_def store_def n' nth_append)
    qed
  qed (simp add: store_def n')
  show "ncom (store c t) = ncom t" by (simp add: ncom_def store_def)
  then show "ring_inv (store c t)" using assms(1) n' n by (simp add: ring_inv_def store_def INPUT_BUF_def)
qed

lemma erase_chars:
  assumes "ring_inv t" "in_e t \<noteq> in_w t"
  shows "chars (t\<lparr>in_e := in_e t - 1\<rparr>) = butlast (chars t)" "ncom (t\<lparr>in_e := in_e t - 1\<rparr>) = ncom t" "ring_inv (t\<lparr>in_e := in_e t - 1\<rparr>)"
    "ncom t < length (chars t)" "in_buf t ! ring_slot (in_e t - 1) = last (chars t)"
proof -
  let ?n = "unat (in_e t - in_r t)"
  have "ncom t \<noteq> ?n" using assms(2) by (simp add: ncom_def word_unat_eq_iff [symmetric])
  then have lt: "ncom t < ?n" using assms(1) by (simp add: ring_inv_def)
  then show "ncom t < length (chars t)" by simp
  have "in_e t - in_r t \<noteq> 0" using lt by (auto simp: ncom_def)
  from unat_minus_one [OF this] have n': "unat (in_e t - 1 - in_r t) = ?n - 1" by (simp add: diff_right_commute)
  have e1: "in_e t - 1 = in_r t + of_nat (?n - 1)" unfolding n' [symmetric] by simp
  have u: "[0..<?n] = [0..<?n - 1] @ [?n - 1]" using lt by (metis Suc_pred' gr_implies_not0 neq0_conv upt_Suc_append zero_le)
  show "chars (t\<lparr>in_e := in_e t - 1\<rparr>) = butlast (chars t)" unfolding chars_def u by (simp add: n')
  show "in_buf t ! ring_slot (in_e t - 1) = last (chars t)" unfolding chars_def by (subst u) (simp add: e1)
  show "ncom (t\<lparr>in_e := in_e t - 1\<rparr>) = ncom t" by (simp add: ncom_def)
  then show "ring_inv (t\<lparr>in_e := in_e t - 1\<rparr>)" using assms(1) n' lt by (auto simp: ring_inv_def)
qed

lemma commit_line:
  assumes "ring_inv t"
  shows "line (commit t) = (chars t, [])" "ring_inv (commit t)" "t_wake t < t_wake (commit t)"
  using assms by (simp_all add: line_def commit_def ncom_def chars_def ring_inv_def)

text \<open>The line editor, on the two sequences. \<open>raw\<close> and \<open>raw'\<close> are the mode before and after the echo of the character, which can be the end of an escape sequence.\<close>

definition kill_tail :: "bytes \<Rightarrow> bytes" where
  "kill_tail ed = rev (dropWhile (\<lambda>c. c \<noteq> 10) (rev ed))"

definition line_step :: "bool \<Rightarrow> bool \<Rightarrow> int \<Rightarrow> bytes \<times> bytes \<Rightarrow> bytes \<times> bytes" where
  "line_step raw raw' c l = (case l of (com, ed) \<Rightarrow>
     let fits = length com + length ed < 128; ch = (if c = 13 then 10 else word_of_int c); ed' = ed @ [ch] in
     if c = 16 then l
     else if c = 21 then (com, kill_tail ed)
     else if c = 8 \<or> c = 0x7f then
       (if raw then (if fits then (com @ ed @ [word_of_int c], []) else l) else (com, butlast ed))
     else if c = 3 then
       (if length com + length (kill_tail ed) < 128 then (com @ kill_tail ed @ [10], []) else (com, kill_tail ed))
     else if c = 0 \<or> \<not> fits then l
     else if raw' \<or> ch = 10 \<or> ch = 4 \<or> length com + length ed' = 128 then (com @ ed', [])
     else (com, ed'))"

lemma kill_line_line:
  assumes "ring_inv t"
  shows "ring_inv (kill_line f echo t) \<and> line (kill_line f echo t) = (fst (line t), kill_tail (snd (line t))) \<and> t_wake (kill_line f echo t) = t_wake t"
  using assms
proof (induction f echo t rule: kill_line.induct)
  case (1 f echo t)
  let ?u = "t\<lparr>in_e := in_e t - 1\<rparr>" and ?v = "let u = t\<lparr>in_e := in_e t - 1\<rparr> in if echo then consputc f BACKSPACE u else u"
  show ?case
  proof (cases "in_e t \<noteq> in_w t \<and> in_buf t ! ring_slot (in_e t - 1) \<noteq> 10")
    case True
    note E = erase_chars [OF "1.prems" conjunct1 [OF True]]
    have v: "ring_inv ?v" "chars ?v = butlast (chars t)" "ncom ?v = ncom t" "t_wake ?v = t_wake t"
      using E line_cong [of ?v ?u] by (auto simp: Let_def)
    obtain x xs where x: "chars t = xs @ [x]" using E(4) by (cases "chars t" rule: rev_cases) auto
    have n: "ncom t \<le> length xs" "x \<noteq> 10" using E(4,5) True by (simp_all add: x del: length_chars)
    have "line ?v = (fst (line t), drop (ncom t) xs)" "snd (line t) = drop (ncom t) xs @ [x]" using v n by (simp_all add: line_def x)
    then show ?thesis using "1.IH" [OF True v(1)] v(4) n(2) True by (subst (1 2 3) kill_line.simps) (simp add: kill_tail_def)
  next
    case False
    have "kill_tail (snd (line t)) = snd (line t)"
    proof (cases "in_e t = in_w t")
      case True
      then have "snd (line t) = []" by (simp add: line_def ncom_def)
      then show ?thesis by (simp add: kill_tail_def)
    next
      case ne: False
      note E = erase_chars [OF "1.prems" ne]
      then have "last (snd (line t)) = 10" "snd (line t) \<noteq> []" using False ne by (simp_all add: line_def)
      then show ?thesis by (cases "snd (line t)" rule: rev_cases) (auto simp: kill_tail_def)
    qed
    moreover have "kill_line f echo t = t" using False by (subst kill_line.simps) auto
    ultimately show ?thesis using "1.prems" by (simp add: line_def)
  qed
qed

lemma line_cong_line: "input_of t = input_of u \<Longrightarrow> ring_inv t = ring_inv u \<and> line t = line u"
  using line_cong [of t u] by (simp add: line_def)

lemma line_chars: "ring_inv t \<Longrightarrow> chars t = fst (line t) @ snd (line t) \<and> length (fst (line t)) = ncom t"
  by (auto simp: line_def ring_inv_def)

lemma has_room_line: "ring_inv t \<Longrightarrow> has_room t \<longleftrightarrow> length (fst (line t)) + length (snd (line t)) < 128"
  using has_room_iff [of t] line_chars [of t] by (metis length_append)

lemma store_line:
  assumes "ring_inv t" "has_room t"
  shows "ring_inv (store c t)" "line (store c t) = (fst (line t), snd (line t) @ [c])"
    "line (commit (store c t)) = (fst (line t) @ snd (line t) @ [c], [])" "ring_inv (commit (store c t))" "t_wake (store c t) = t_wake t"
proof -
  note S = store_chars [OF assms, of c]
  show r: "ring_inv (store c t)" by (rule S)
  have "ncom t \<le> length (chars t)" using assms(1) by (simp add: ring_inv_def)
  then show "line (store c t) = (fst (line t), snd (line t) @ [c])" using S by (simp add: line_def del: length_chars)
  show "line (commit (store c t)) = (fst (line t) @ snd (line t) @ [c], [])" using commit_line(1) [OF r] S(1) line_chars [OF assms(1)] by simp
  show "ring_inv (commit (store c t))" by (rule commit_line(2) [OF r])
  show "t_wake (store c t) = t_wake t" by (simp add: store_def)
qed

lemma erase_line:
  assumes "ring_inv t"
  shows "in_e t \<noteq> in_w t \<Longrightarrow> ring_inv (t\<lparr>in_e := in_e t - 1\<rparr>) \<and> line (t\<lparr>in_e := in_e t - 1\<rparr>) = (fst (line t), butlast (snd (line t)))"
    "in_e t = in_w t \<Longrightarrow> snd (line t) = []"
proof -
  assume "in_e t \<noteq> in_w t"
  note E = erase_chars [OF assms this]
  obtain x xs where x: "chars t = xs @ [x]" using E(4) by (cases "chars t" rule: rev_cases) auto
  show "ring_inv (t\<lparr>in_e := in_e t - 1\<rparr>) \<and> line (t\<lparr>in_e := in_e t - 1\<rparr>) = (fst (line t), butlast (snd (line t)))"
    using E(3,4) by (simp add: line_def E(1,2) x del: length_chars)
qed (simp add: line_def ncom_def)

definition refines_line :: "tty \<Rightarrow> bytes \<times> bytes \<Rightarrow> tty \<Rightarrow> bool" where
  "refines_line t l u \<longleftrightarrow> ring_inv u \<and> line u = l \<and> (fst l \<noteq> fst (line t) \<longrightarrow> t_wake t < t_wake u)"

lemma refines_line_id: "ring_inv t \<Longrightarrow> input_of u = input_of t \<Longrightarrow> refines_line t (line t) u"
  using line_cong_line [of u t] by (simp add: refines_line_def)

lemma refines_store_commit:
  assumes "ring_inv t" "input_of u = input_of t" "has_room t"
  shows "refines_line t (fst (line t) @ snd (line t) @ [c], []) (commit (store c u))"
proof -
  have u: "ring_inv u" "line u = line t" "has_room u" "t_wake u = t_wake t" using assms line_cong_line [OF assms(2)] by (simp_all add: has_room_def input_of_def)
  show ?thesis using store_line [OF u(1,3), of c] commit_line(3) [OF store_line(1) [OF u(1,3)], of c] u(2,4) by (simp add: refines_line_def)
qed

lemma backspace_line:
  assumes "ring_inv t" "c = 8 \<or> c = 0x7f"
  shows "refines_line t (line_step (input_raw t) raw' c (line t)) (consoleintr_backspace f c t)"
proof (cases "input_raw t")
  case True
  show ?thesis
    using True assms has_room_line [OF assms(1)] refines_line_id [OF assms(1), of t]
    by (auto simp: consoleintr_backspace_def line_step_def Let_def split_beta intro!: refines_store_commit)
next
  case False
  note E = erase_line [OF assms(1)]
  show ?thesis
  proof (cases "in_e t = in_w t")
    case True
    then show ?thesis using False assms E(2) refines_line_id [OF assms(1), of t]
      by (auto simp: consoleintr_backspace_def line_step_def Let_def split_beta refines_line_def prod_eq_iff)
  next
    case ne: False
    let ?u = "t\<lparr>in_e := in_e t - 1\<rparr>"
    have "line (consputc f BACKSPACE ?u) = line ?u" "ring_inv (consputc f BACKSPACE ?u) = ring_inv ?u" using line_cong_line [of "consputc f BACKSPACE ?u" ?u] by simp_all
    then show ?thesis using False ne assms(2) E(1) by (auto simp: consoleintr_backspace_def line_step_def Let_def split_beta refines_line_def)
  qed
qed

lemma char_line:
  assumes "ring_inv t" "0 \<le> c" "c < 256" "c \<noteq> 16" "c \<noteq> 21" "c \<noteq> 8" "c \<noteq> 0x7f" "c \<noteq> 3"
  shows "refines_line t (line_step raw (input_raw (consoleintr_char f c t)) c (line t)) (consoleintr_char f c t)"
proof (cases "c \<noteq> 0 \<and> has_room t")
  case False
  then have "c = 0 \<or> \<not> length (fst (line t)) + length (snd (line t)) < 128" using has_room_line [OF assms(1)] by simp
  then have "line_step raw r c (line t) = line t" for r using assms(4-8) unfolding line_step_def Let_def split_beta by auto
  moreover have "consoleintr_char f c t = t" unfolding consoleintr_char_def using False by (simp only: if_False)
  ultimately show ?thesis using refines_line_id [OF assms(1), of t] by simp
next
  case True
  define d where "d = (if c = 13 then 10 else c)"
  define t1 where "t1 = store (word_of_int d) t"
  define t2 where "t2 = (if input_echo t1 \<and> \<not> (input_raw t1 \<and> d = 9) then consputc f d t1 else t1)"
  define t3 where "t3 = (if input_raw t2 \<and> input_echo t2 \<and> 0x20 \<le> d \<and> d \<le> 0x7e then t2\<lparr>input_echoq := min (input_echoq t2 + 1) 1024\<rparr> else t2)"
  define t4 where "t4 = (if input_raw t3 \<and> d = 10 then t3\<lparr>input_echoq := 0\<rparr> else t3)"
  let ?fin = "input_raw t4 \<or> d = 10 \<or> d = 4 \<or> in_e t4 = in_r t4 + of_nat INPUT_BUF"
  have c: "consoleintr_char f c t = (if ?fin then commit t4 else t4)"
    unfolding consoleintr_char_def if_P [OF True] Let_def t4_def t3_def t2_def t1_def d_def by (rule refl)
  have i: "input_of t4 = input_of t1" by (simp add: t4_def t3_def t2_def)
  note S = store_line [OF assms(1), of "word_of_int d"] 
  have l1: "ring_inv t4" "line t4 = (fst (line t), snd (line t) @ [word_of_int d])" "t_wake t4 = t_wake t"
    using line_cong_line [OF i] S True i by (auto simp: t1_def input_of_def)
  have full: "in_e t4 = in_r t4 + of_nat INPUT_BUF \<longleftrightarrow> length (chars t4) = 128"
  proof -
    have "in_e t4 = in_r t4 + of_nat INPUT_BUF \<longleftrightarrow> in_e t4 - in_r t4 = 128" by (auto simp: INPUT_BUF_def algebra_simps)
    also have "\<dots> \<longleftrightarrow> unat (in_e t4 - in_r t4) = 128" using word_unat_eq_iff [of "in_e t4 - in_r t4" 128] by simp
    finally show ?thesis by simp
  qed
  have ch: "chars t4 = fst (line t) @ snd (line t) @ [word_of_int d]" using line_chars [OF l1(1)] l1(2) by simp
  have w: "word_of_int d = (10 :: u8) \<longleftrightarrow> d = 10" "word_of_int d = (4 :: u8) \<longleftrightarrow> d = 4"
  proof -
    have "uint (word_of_int d :: u8) = d" using assms(2,3) by (simp add: d_def uint_word_of_int take_bit_int_eq_self)
    then show "word_of_int d = (10 :: u8) \<longleftrightarrow> d = 10" "word_of_int d = (4 :: u8) \<longleftrightarrow> d = 4" by (auto simp: word_uint_eq_iff)
  qed
  have e: "?fin \<longleftrightarrow> input_raw t4 \<or> word_of_int d = (10 :: u8) \<or> word_of_int d = (4 :: u8) \<or> length (fst (line t)) + length (snd (line t) @ [word_of_int d :: u8]) = 128"
    unfolding full ch by (simp add: w)
  have r: "input_raw (consoleintr_char f c t) = input_raw t4" unfolding c by (simp add: commit_def)
  have d: "(if c = 13 then 10 else word_of_int c) = (word_of_int d :: u8)" by (simp add: d_def)
  have "line_step raw (input_raw t4) c (line t) = (if ?fin then (chars t4, []) else line t4)"
    using assms(4-8) True has_room_line [OF assms(1)] unfolding line_step_def Let_def split_beta d e ch l1(2) by simp
  then show ?thesis using commit_line [OF l1(1)] l1 unfolding r unfolding c by (cases ?fin) (simp_all only: refines_line_def if_True if_False fst_conv, simp_all)
qed

lemma kill_refines:
  assumes "ring_inv t" "input_of u = input_of t"
  shows "ring_inv (kill_line f echo u) \<and> line (kill_line f echo u) = (fst (line t), kill_tail (snd (line t))) \<and> t_wake (kill_line f echo u) = t_wake t"
proof -
  have u: "ring_inv u" "line u = line t" "t_wake u = t_wake t" using assms line_cong_line [OF assms(2)] by (simp_all add: input_of_def)
  then show ?thesis using kill_line_line [OF u(1), of f echo] by simp
qed

lemma interrupt_line:
  assumes "ring_inv t"
  shows "refines_line t (line_step raw raw' 3 (line t)) (consoleintr1 f 3 t)"
proof -
  let ?u = "kill_line f False (console_reset_tty (t\<lparr>t_kill := t_kill t + 1\<rparr>))" and ?ed = "kill_tail (snd (line t))"
  have "input_of (console_reset_tty (t\<lparr>t_kill := t_kill t + 1\<rparr>)) = input_of t" by (simp add: console_reset_tty_def)
  note K = kill_refines [OF assms this, of f False]
  have v: "input_of (consputc f 10 ?u) = input_of ?u" by simp
  note V = line_cong_line [OF v]
  have room: "has_room (consputc f 10 ?u) \<longleftrightarrow> length (fst (line t)) + length ?ed < 128" using has_room_line [of "consputc f 10 ?u"] V K by simp
  then show ?thesis using refines_store_commit [of ?u "consputc f 10 ?u" 10] K V v
    by (auto simp: consoleintr1_def line_step_def Let_def split_beta refines_line_def has_room_def)
qed

lemma consoleintr1_line:
  assumes "ring_inv t" "0 \<le> c" "c < 256"
  shows "refines_line t (line_step (input_raw t) (input_raw (consoleintr1 f c t)) c (line t)) (consoleintr1 f c t)"
proof -
  consider "c = 16" | "c = 21" | "c = 8 \<or> c = 0x7f" | "c = 3" | "c \<noteq> 16 \<and> c \<noteq> 21 \<and> c \<noteq> 8 \<and> c \<noteq> 0x7f \<and> c \<noteq> 3" by blast
  then show ?thesis
  proof cases
    case 1
    then show ?thesis using refines_line_id [OF assms(1), of "consoleintr1 f 16 t"] by (simp add: consoleintr1_def line_step_def split_beta)
  next
    case 2
    then show ?thesis using kill_refines [OF assms(1) refl, of f True] line_cong_line [of "(kill_line f True t)\<lparr>input_echoq := 0\<rparr>" "kill_line f True t"]
      by (simp add: consoleintr1_def line_step_def Let_def split_beta refines_line_def)
  next
    case 3
    then have "consoleintr1 f c t = consoleintr_backspace f c t" by (auto simp: consoleintr1_def)
    then show ?thesis using backspace_line [OF assms(1) 3] by simp
  next
    case 4
    then show ?thesis using interrupt_line [OF assms(1)] by simp
  next
    case 5
    then have "consoleintr1 f c t = consoleintr_char f c t" by (simp add: consoleintr1_def)
    then show ?thesis using char_line [OF assms] 5 by simp
  qed
qed

text \<open>What a read takes of the committed characters: as many as asked for, up to the end of a line or a control-D, which is put back for the next read unless it is the first character.\<close>

fun line_read :: "nat \<Rightarrow> nat \<Rightarrow> bytes \<Rightarrow> rdres \<times> bytes" where
  "line_read target 0 com = (RDone [], com)"
| "line_read target (Suc n) [] = (RWait [] (Suc n), [])"
| "line_read target (Suc n) (c # com) =
     (if c = 4 then (RDone [], if Suc n < target then c # com else com)
      else if c = 10 then (RDone [c], com)
      else (case line_read target n com of
             (RDone bs, rest) \<Rightarrow> (RDone (c # bs), rest)
           | (RWait bs k, rest) \<Rightarrow> (RWait (c # bs) k, rest)))"

lemma take_one:
  assumes "ring_inv t" "in_r t \<noteq> in_w t"
  shows "ring_inv (t\<lparr>in_r := in_r t + 1\<rparr>)" "fst (line t) = in_buf t ! ring_slot (in_r t) # fst (line (t\<lparr>in_r := in_r t + 1\<rparr>))"
    "snd (line (t\<lparr>in_r := in_r t + 1\<rparr>)) = snd (line t)"
proof -
  let ?u = "t\<lparr>in_r := in_r t + 1\<rparr>"
  have w: "in_w t - in_r t \<noteq> 0" using assms(2) by simp
  then have n: "ncom ?u = ncom t - 1" "0 < ncom t" using unat_minus_one [OF w] by (simp_all add: ncom_def diff_diff_eq unat_gt_0)
  have le: "ncom t \<le> unat (in_e t - in_r t)" "unat (in_e t - in_r t) \<le> INPUT_BUF" "length (in_buf t) = INPUT_BUF" using assms(1) by (simp_all add: ring_inv_def)
  then have "in_e t - in_r t \<noteq> 0" using n(2) by (metis le_0_eq not_less_iff_gr_or_eq unat_0)
  from unat_minus_one [OF this] have e: "unat (in_e t - (in_r t + 1)) = unat (in_e t - in_r t) - 1" by (simp add: diff_diff_eq)
  show "ring_inv ?u" using le n e by (auto simp: ring_inv_def)
  obtain m where m: "unat (in_e t - in_r t) = Suc m" using n(2) le(1) by (cases "unat (in_e t - in_r t)") auto
  have c: "chars t = in_buf t ! ring_slot (in_r t) # chars ?u"
    unfolding chars_def m using e m by (simp add: upt_conv_Cons map_Suc_upt [symmetric] o_def add.assoc del: upt_Suc)
  obtain k where "ncom t = Suc k" using n(2) by (cases "ncom t") auto
  then show "fst (line t) = in_buf t ! ring_slot (in_r t) # fst (line ?u)" "snd (line ?u) = snd (line t)" using c n(1) by (simp_all add: line_def)
qed

lemma consoleread_line:
  "ring_inv t \<Longrightarrow> (case consoleread target n t of (r, u) \<Rightarrow> ring_inv u \<and> snd (line u) = snd (line t) \<and> line_read target n (fst (line t)) = (r, fst (line u)))"
proof (induction n arbitrary: t)
  case (Suc n)
  show ?case
  proof (cases "in_r t = in_w t")
    case True
    then have "fst (line t) = []" by (simp add: line_def ncom_def)
    then show ?thesis using True Suc.prems by simp
  next
    case False
    note T = take_one [OF Suc.prems False]
    let ?u = "t\<lparr>in_r := in_r t + 1\<rparr>"
    obtain r v where v: "consoleread target n ?u = (r, v)" by (cases "consoleread target n ?u")
    show ?thesis using Suc.IH [OF T(1)] T Suc.prems False v by (cases r) (simp_all add: Let_def)
  qed
qed simp

text \<open>
  C22. The console's input ring is a line editor. Represent the ring by the characters that a reader may take and the characters of the line still being edited.
  Then the interrupt handler, on every character, does to the pair what the editor's step does: a character is appended while the 128 bytes hold, a newline, a control-D
  or a full ring commits the line, backspace and control-U take back only what is not committed, control-C drops the line and commits a newline,
  in raw mode every character is committed at once; readers are woken whenever something is committed.
  \<open>consoleread\<close> takes from the committed characters what the specification's read takes and leaves the edited line alone. The indices never leave the ring, whatever they wrap to.
\<close>

theorem console_refines_line_editor:
  assumes "ring_inv t" "0 \<le> c" "c < 256"
  shows "(let u = consoleintr1 f c t in
      ring_inv u \<and> line u = line_step (input_raw t) (input_raw u) c (line t) \<and> (fst (line u) \<noteq> fst (line t) \<longrightarrow> t_wake t < t_wake u)) \<and>
    (case consoleread target n t of (r, v) \<Rightarrow> ring_inv v \<and> snd (line v) = snd (line t) \<and> line_read target n (fst (line t)) = (r, fst (line v)))"
  using consoleintr1_line [OF assms, of f] consoleread_line [OF assms(1)] by (simp add: Let_def refines_line_def)

theorem console_refines_line_editor_witness:
  "line (consoleintr1 demo_fb 10 (tty_init\<lparr>in_buf := (replicate INPUT_BUF 0)[127 := 104, 0 := 105], in_r := 0xFFFFFFFF, in_w := 0xFFFFFFFF, in_e := 1\<rparr>)) = ([104, 105, 10], [])"
proof -
  let ?t = "tty_init\<lparr>in_buf := (replicate INPUT_BUF 0)[127 := 104, 0 := 105], in_r := 0xFFFFFFFF, in_w := 0xFFFFFFFF, in_e := 1\<rparr>"
  have l: "ring_inv ?t" "line ?t = ([], [104, 105])"
    by (simp_all add: ring_inv_def ncom_def line_def chars_def ring_slot_def INPUT_BUF_def upt_rec)
  have "line (consoleintr1 demo_fb 10 ?t) = line_step (input_raw ?t) (input_raw (consoleintr1 demo_fb 10 ?t)) 10 (line ?t)"
    using console_refines_line_editor [OF l(1), of 10 demo_fb] by (simp add: Let_def)
  then show ?thesis unfolding l(2) by (simp add: line_step_def)
qed

end
