(* ===== verification/NetUtil.thy ===== *)
theory NetUtil
  imports Cstring
begin

section \<open>Utilities of the network stack (\<open>microps/util.c\<close>, \<open>microps_fmt.c\<close>, \<open>microps_time.c\<close>)\<close>

text \<open>
  Byte order, the Internet checksum, queues, formatted output and number parsing, and the clock of the network stack. A C string
  is the list of its bytes before the terminating zero. The Internet checksum is proved equal to the one's complement sum of RFC
  1071, and filling in the checksum of a message is proved to make its verification succeed.
\<close>

unbundle bit_operations_syntax


subsection \<open>Byte order\<close>

definition byteswap16 :: "u16 \<Rightarrow> u16" where
  "byteswap16 v = push_bit 8 (v AND 0x00ff) OR drop_bit 8 (v AND 0xff00)"

definition byteswap32 :: "u32 \<Rightarrow> u32" where
  "byteswap32 v = push_bit 24 (v AND 0x000000ff) OR push_bit 8 (v AND 0x0000ff00)
     OR drop_bit 8 (v AND 0x00ff0000) OR drop_bit 24 (v AND 0xff000000)"

definition LITTLE_ENDIAN :: nat where "LITTLE_ENDIAN = 1234"
definition BIG_ENDIAN :: nat where "BIG_ENDIAN = 4321"

text \<open>The first byte of the word 1 in memory tells the byte order; x86 stores the low byte first.\<close>

definition byteorder :: nat where
  "byteorder = (if le32 1 ! 0 \<noteq> 0 then LITTLE_ENDIAN else BIG_ENDIAN)"

definition hton16 :: "u16 \<Rightarrow> u16" where
  "hton16 h = (if byteorder = LITTLE_ENDIAN then byteswap16 h else h)"

definition ntoh16 :: "u16 \<Rightarrow> u16" where
  "ntoh16 n = (if byteorder = LITTLE_ENDIAN then byteswap16 n else n)"

definition hton32 :: "u32 \<Rightarrow> u32" where
  "hton32 h = (if byteorder = LITTLE_ENDIAN then byteswap32 h else h)"

definition ntoh32 :: "u32 \<Rightarrow> u32" where
  "ntoh32 n = (if byteorder = LITTLE_ENDIAN then byteswap32 n else n)"

lemma byteorder_x86: "byteorder = LITTLE_ENDIAN"
  by (simp add: byteorder_def le32_def)

text \<open>A byte swap exchanges the bytes of the little-endian representation.\<close>

lemma bit_byteswap16: "bit (byteswap16 v) n \<longleftrightarrow> (if n < 8 then bit v (n + 8) else n < 16 \<and> bit v (n - 8))"
proof -
  have m: "(0x00ff :: u16) = mask 8" "(0xff00 :: u16) = push_bit 8 (mask 8)" by (simp_all add: mask_eq_exp_minus_1 push_bit_eq_mult)
  show ?thesis unfolding byteswap16_def m by (auto simp: bit_simps add.commute)
qed

lemma bit_byteswap32:
  "bit (byteswap32 v) n \<longleftrightarrow> (if n < 8 then bit v (n + 24) else if n < 16 then bit v (n + 8) else if n < 24 then bit v (n - 8) else n < 32 \<and> bit v (n - 24))"
proof -
  have m: "(0x000000ff :: u32) = mask 8" "(0x0000ff00 :: u32) = push_bit 8 (mask 8)" "(0x00ff0000 :: u32) = push_bit 16 (mask 8)"
      "(0xff000000 :: u32) = push_bit 24 (mask 8)"
    by (simp_all add: mask_eq_exp_minus_1 push_bit_eq_mult)
  show ?thesis unfolding byteswap32_def m by (auto simp: bit_simps add.commute)
qed

lemma byteswap_twice [simp]: "byteswap16 (byteswap16 v) = v" "byteswap32 (byteswap32 w) = w"
  by (rule bit_word_eqI, auto simp: bit_byteswap16 bit_byteswap32)+

lemma ntoh_hton [simp]: "ntoh16 (hton16 v) = v" "ntoh32 (hton32 w) = w" "hton16 (ntoh16 v) = v" "hton32 (ntoh32 w) = w"
  by (simp_all add: ntoh16_def hton16_def ntoh32_def hton32_def)


subsection \<open>The Internet checksum\<close>

text \<open>The loop over 16-bit words with the odd byte at the end; \<open>None\<close> when it reads past the array.\<close>

fun cksum_words :: "bytes \<Rightarrow> nat \<Rightarrow> u32 \<Rightarrow> u32 option" where
  "cksum_words d count s =
     (if count > 1 then
        (case d of a # b # r \<Rightarrow> cksum_words r (count - 2) (s + ucast (ucast a OR push_bit 8 (ucast b) :: u16)) | _ \<Rightarrow> None)
      else if count > 0 then (case d of a # r \<Rightarrow> Some (s + ucast a) | [] \<Rightarrow> None)
      else Some s)"

declare cksum_words.simps [simp del]

lemma fold_halves: "unat ((s :: u32) AND 0xffff) = unat s mod 65536" "unat (drop_bit 16 (s :: u32)) = unat s div 65536"
proof -
  have m: "(0xffff :: u32) = mask 16" by (simp add: mask_eq_exp_minus_1)
  show "unat (s AND 0xffff) = unat s mod 65536" unfolding m by (simp flip: take_bit_eq_mask add: take_bit_eq_mod unat_mod)
  show "unat (drop_bit 16 s) = unat s div 65536" by (simp add: drop_bit_eq_div unat_div)
qed

lemma fold_sum: "unat ((s :: u32) AND 0xffff) + unat (drop_bit 16 s) < 2 ^ 32"
  "unat ((s AND 0xffff) + drop_bit 16 s) = unat s mod 65536 + unat s div 65536"
proof -
  have "unat s div 65536 < 65536" using u32_lt [of s] by (simp add: div_less_iff_less_mult)
  then show *: "unat (s AND 0xffff) + unat (drop_bit 16 s) < 2 ^ 32" unfolding fold_halves by (simp add: less_le_trans [of _ "65536 + 65536"])
  then show "unat ((s AND 0xffff) + drop_bit 16 s) = unat s mod 65536 + unat s div 65536"
    unfolding fold_halves [symmetric] by (subst unat_plus_if_size) (simp add: word_size)
qed

function cksum_fold :: "u32 \<Rightarrow> u32" where
  "cksum_fold s = (if drop_bit 16 s \<noteq> 0 then cksum_fold ((s AND 0xffff) + drop_bit 16 s) else s)"
  by pat_completeness auto

termination
proof (relation "measure unat")
  fix s :: u32
  assume "drop_bit 16 s \<noteq> 0"
  then have "0 < unat s div 65536" unfolding fold_halves(2) [symmetric] by (simp add: unat_gt_0)
  moreover have "unat s = 65536 * (unat s div 65536) + unat s mod 65536" by simp
  ultimately show "((s AND 0xffff) + drop_bit 16 s, s) \<in> measure unat" unfolding in_measure fold_sum(2) by linarith
qed simp

declare cksum_fold.simps [simp del]

definition cksum16 :: "bytes \<Rightarrow> u16 \<Rightarrow> u32 \<Rightarrow> u16 option" where
  "cksum16 addr count init = (case cksum_words addr (unat count) init of
     None \<Rightarrow> None | Some s \<Rightarrow> Some (NOT (ucast (cksum_fold s))))"

text \<open>Reference: the words of a message (an odd last byte is padded with zero) and addition with end-around carry.\<close>

fun words16 :: "bytes \<Rightarrow> u16 list" where
  "words16 (a # b # r) = (ucast a OR push_bit 8 (ucast b)) # words16 r"
| "words16 [a] = [ucast a]"
| "words16 [] = []"

definition ocadd :: "u16 \<Rightarrow> u16 \<Rightarrow> u16" where
  "ocadd a b = (let s = unat a + unat b in of_nat (if s < 65536 then s else s - 65535))"

definition wsum :: "bytes \<Rightarrow> nat" where
  "wsum d = sum_list (map unat (words16 d))"

text \<open>The representative of a sum modulo 65535 that is zero only for zero.\<close>

definition oc16 :: "nat \<Rightarrow> nat" where
  "oc16 n = (if n = 0 then 0 else if n mod 65535 = 0 then 65535 else n mod 65535)"

lemma oc16_less: "oc16 n < 65536"
  using mod_less_divisor [of 65535 n] unfolding oc16_def by auto

lemma oc16_unique: "x < 65536 \<Longrightarrow> x mod 65535 = n mod 65535 \<Longrightarrow> (x = 0 \<longleftrightarrow> n = 0) \<Longrightarrow> x = oc16 n"
  by (cases "x = 65535") (auto simp: oc16_def)

lemma ucast_8_16_32: "ucast (ucast (a :: u8) :: u16) = (ucast a :: u32)"
  by (rule bit_word_eqI) (auto simp: bit_simps dest: bit_imp_le_length)

lemma cksum_words_eq:
  "count \<le> length d \<Longrightarrow> cksum_words d count s = Some (s + of_nat (wsum (take count d)))"
proof (induction d count s rule: cksum_words.induct)
  case (1 d count s)
  consider "count = 0" | a r where "count = 1" "d = a # r" | a b r n where "count = Suc (Suc n)" "d = a # b # r" "n \<le> length r"
    using "1.prems" by (cases count; cases d; cases "tl d"; cases "count - 1") auto
  then show ?case
  proof cases
    case 1
    then show ?thesis by (simp add: cksum_words.simps wsum_def)
  next
    case 2
    then show ?thesis by (simp add: cksum_words.simps wsum_def ucast_8_16_32)
  next
    case 3
    then have "cksum_words r n (s + ucast (ucast a OR push_bit 8 (ucast b) :: u16)) = Some (s + ucast (ucast a OR push_bit 8 (ucast b) :: u16) + of_nat (wsum (take n r)))"
      using "1.IH" [of a "b # r" b r] by simp
    then show ?thesis using 3 by (simp add: cksum_words.simps [of "a # b # r"] wsum_def add.assoc)
  qed
qed

lemma words16_len: "length (words16 d) \<le> (length d + 1) div 2"
  by (induction d rule: words16.induct) auto

lemma sum_unat16: "sum_list (map unat (ws :: u16 list)) \<le> 65535 * length ws"
proof (induction ws)
  case (Cons w ws)
  then show ?case using unsigned_less [where ?'a = nat, of w] by simp
qed simp

lemma wsum_bound: "wsum d \<le> 65535 * ((length d + 1) div 2)"
proof -
  have "65535 * length (words16 d) \<le> 65535 * ((length d + 1) div 2)" by (rule mult_le_mono2) (rule words16_len)
  then show ?thesis unfolding wsum_def using sum_unat16 [of "words16 d"] by linarith
qed

lemma fold_arith: "(n mod 65536 + n div 65536) mod 65535 = n mod 65535 \<and> (n mod 65536 + n div 65536 = 0 \<longleftrightarrow> n = 0)" for n :: nat
proof -
  have "n = 65536 * (n div 65536) + n mod 65536" by simp
  then have q: "n = 65535 * (n div 65536) + (n mod 65536 + n div 65536)" by linarith
  have "(65535 * k + m) mod 65535 = m mod 65535" for k m :: nat by simp
  from this [of "n div 65536" "n mod 65536 + n div 65536"] show ?thesis unfolding q [symmetric] by auto
qed

lemma cksum_fold_spec: "unat (cksum_fold s) = oc16 (unat s)"
proof -
  have "unat (cksum_fold s) < 65536 \<and> unat (cksum_fold s) mod 65535 = unat s mod 65535 \<and> (unat (cksum_fold s) = 0 \<longleftrightarrow> unat s = 0)"
  proof (induction s rule: cksum_fold.induct)
    case (1 s)
    show ?case
    proof (cases "drop_bit 16 s = 0")
      case True
      then have "unat s div 65536 = 0" unfolding fold_halves(2) [symmetric] by simp
      then show ?thesis using True by (simp add: cksum_fold.simps [of s])
    next
      case False
      let ?t = "(s AND 0xffff) + drop_bit 16 s"
      have t: "unat ?t mod 65535 = unat s mod 65535 \<and> (unat ?t = 0 \<longleftrightarrow> unat s = 0)"
        unfolding fold_sum(2) by (rule fold_arith)
      show ?thesis using "1.IH" [OF False] False t by (simp add: cksum_fold.simps [of s])
    qed
  qed
  then show ?thesis by (elim conjE) (rule oc16_unique; assumption)
qed

lemma unat_not16: "unat (NOT w :: u16) = 65535 - unat w"
proof -
  have "NOT w = - 1 - w" by (simp add: not_eq_complement)
  moreover have "unat (- 1 - w) = unat (- 1 :: u16) - unat w" by (rule unat_sub) simp
  ultimately show ?thesis by (simp add: unsigned_minus_1_eq_mask mask_eq_exp_minus_1)
qed


lemma cksum16_eq:
  assumes "unat count \<le> length d" "unat init \<le> 65535"
  shows "\<exists>w. cksum16 d count init = Some (NOT w) \<and> unat w = oc16 (unat init + wsum (take (unat count) d))"
proof -
  let ?d = "take (unat count) d" let ?s = "init + of_nat (wsum ?d) :: u32"
  have "unat count < 65536" using unsigned_less [where ?'a = nat, of count] by simp
  then have "(length ?d + 1) div 2 \<le> 32768" using assms(1) by simp
  then have "wsum ?d \<le> 65535 * 32768" using wsum_bound [of ?d] by (meson le_trans mult_le_mono2)
  then have s: "unat ?s = unat init + wsum ?d" using assms(2) by (simp add: unat_word_ariths unat_of_nat)
  have "unat (cksum_fold ?s) = oc16 (unat init + wsum ?d)" unfolding cksum_fold_spec s ..
  then have "unat (ucast (cksum_fold ?s) :: u16) = oc16 (unat init + wsum ?d)"
    using oc16_less by (simp add: unsigned_ucast_eq take_bit_eq_mod)
  then show ?thesis using cksum_words_eq [OF assms(1), of init] by (auto simp: cksum16_def)
qed

lemma unat_ocadd: "unat (ocadd a b) = oc16 (unat a + unat b)"
proof (rule oc16_unique)
  have a: "unat a < 65536" "unat b < 65536" using unsigned_less [where ?'a = nat, of a] unsigned_less [where ?'a = nat, of b] by simp_all
  let ?x = "if unat a + unat b < 65536 then unat a + unat b else unat a + unat b - 65535"
  have x: "unat (ocadd a b) = ?x" using a by (simp add: ocadd_def Let_def unat_of_nat)
  show "unat (ocadd a b) < 65536" unfolding x using a by auto
  show "unat (ocadd a b) mod 65535 = (unat a + unat b) mod 65535" unfolding x by (simp add: le_mod_geq)
  show "unat (ocadd a b) = 0 \<longleftrightarrow> unat a + unat b = 0" unfolding x by auto
qed

lemma oc16_step: "oc16 (oc16 m + n) = oc16 (m + n)"
proof -
  have "(oc16 m + n) mod 65535 = (m + n) mod 65535"
    using mod_add_left_eq [of m 65535 n] by (auto simp: oc16_def)
  then show ?thesis by (auto simp: oc16_def)
qed

lemma unat_ocsum: "unat (foldl ocadd a ws) = oc16 (unat a + sum_list (map unat ws))"
proof (induction ws arbitrary: a)
  case Nil
  have "unat a < 65536" using unsigned_less [where ?'a = nat, of a] by simp
  then have "unat a = oc16 (unat a)" by (rule oc16_unique) simp_all
  then show ?case by (simp only: foldl.simps list.map sum_list.Nil add_0_right)
next
  case (Cons w ws)
  then show ?case by (simp add: unat_ocadd oc16_step add.assoc)
qed

text \<open>
  C21. The checksum of the network stack is that of RFC 1071: for every message and every initial sum that fits 16 bits, cksum16
  returns the complement of the one's complement sum (addition with end-around carry) of the initial value and the words of the
  message, an odd last byte counting as a word with high byte zero.
\<close>

theorem cksum16_is_rfc1071:
  assumes "unat count \<le> length d" "unat init \<le> 65535"
  shows "cksum16 d count init = Some (NOT (foldl ocadd (ucast init) (words16 (take (unat count) d))))"
proof -
  obtain w where w: "cksum16 d count init = Some (NOT w)" "unat w = oc16 (unat init + wsum (take (unat count) d))"
    using cksum16_eq [OF assms] by blast
  have "unat (ucast init :: u16) = unat init" using assms(2) by (simp add: unsigned_ucast_eq take_bit_eq_mod)
  then have "unat w = unat (foldl ocadd (ucast init) (words16 (take (unat count) d)))" unfolding unat_ocsum w(2) by (simp add: wsum_def)
  then have "w = foldl ocadd (ucast init) (words16 (take (unat count) d))" by (simp add: word_unat_eq_iff)
  then show ?thesis using w(1) by simp
qed

theorem cksum16_is_rfc1071_witness:
  "cksum16 [0x45, 0, 0, 0x1c, 0xff, 0xff, 7] 7 0x1234 = Some (NOT (foldl ocadd 0x1234 [0x0045, 0x1c00, 0xffff, 7]))"
  using cksum16_is_rfc1071 [where count = 7 and d = "[0x45, 0, 0, 0x1c, 0xff, 0xff, 7]" and init = "0x1234"] by simp

text \<open>Verification of a received message succeeds exactly when its words sum to a positive multiple of 65535.\<close>

lemma cksum16_zero:
  assumes "unat count \<le> length d" "unat init \<le> 65535"
  shows "cksum16 d count init = Some 0 \<longleftrightarrow> (let n = unat init + wsum (take (unat count) d) in 0 < n \<and> n mod 65535 = 0)"
proof -
  obtain w where w: "cksum16 d count init = Some (NOT w)" "unat w = oc16 (unat init + wsum (take (unat count) d))"
    using cksum16_eq [OF assms] by blast
  have "NOT w = 0 \<longleftrightarrow> unat w = 65535" using unat_not16 [of w] unsigned_less [where ?'a = nat, of w]
    by (auto simp: unat_eq_0 [symmetric])
  then show ?thesis using w by (auto simp: oc16_def Let_def split: if_splits)
qed


lemma wsum_append: "even (length xs) \<Longrightarrow> wsum (xs @ ys) = wsum xs + wsum ys"
  by (induction xs rule: words16.induct) (auto simp: wsum_def)

lemma wsum_le16 [simp]: "wsum (le16 w) = unat w"
  by (simp add: wsum_def le16_def le16_join)

lemma oc16_complement: "0 < n + (65535 - oc16 n) \<and> (n + (65535 - oc16 n)) mod 65535 = 0"
proof (cases "n mod 65535 = 0")
  case True
  then show ?thesis by (simp add: oc16_def)
next
  case False
  have q: "n = 65535 * (n div 65535) + n mod 65535" "n mod 65535 < 65535" by simp_all
  have "n + (65535 - oc16 n) = n + (65535 - n mod 65535)" using False by (simp add: oc16_def)
  also have "a = 65535 * k + r \<Longrightarrow> r < 65535 \<Longrightarrow> a + (65535 - r) = 65535 * (k + 1)" for a k r :: nat by arith
  from this [OF q] have "n + (65535 - n mod 65535) = 65535 * (n div 65535 + 1)" .
  finally have e: "n + (65535 - oc16 n) = 65535 * (n div 65535 + 1)" .
  show ?thesis unfolding e by (simp only: mod_mult_self1_is_0) simp
qed

text \<open>Storing the checksum in its field, which was zero when it was computed, makes the verification succeed.\<close>

lemma cksum16_fill:
  assumes e: "even (length pre)" and n: "unat count = length (pre @ le16 0 @ post)" and i: "unat init \<le> 65535"
    and c: "cksum16 (pre @ le16 0 @ post) count init = Some c"
  shows "cksum16 (pre @ le16 c @ post) count init = Some 0"
proof -
  let ?n = "unat init + wsum (pre @ le16 0 @ post)"
  have s: "wsum (pre @ le16 x @ post) = wsum pre + unat x + wsum post" for x using e by (simp add: wsum_append)
  have t: "take (unat count) (pre @ le16 x @ post) = pre @ le16 x @ post" for x using n by simp
  obtain w where w: "c = NOT w" "unat w = oc16 ?n"
    using cksum16_eq [of count "pre @ le16 0 @ post" init] n i c unfolding t by auto
  then have "unat c = 65535 - oc16 ?n" by (simp add: unat_not16)
  then have m: "unat init + wsum (pre @ le16 c @ post) = ?n + (65535 - oc16 ?n)" unfolding s by simp
  have "0 < ?n + (65535 - oc16 ?n) \<and> (?n + (65535 - oc16 ?n)) mod 65535 = 0" by (rule oc16_complement)
  then show ?thesis using cksum16_zero [of count "pre @ le16 c @ post" init] n i unfolding t m Let_def by simp
qed


subsection \<open>Queues\<close>

text \<open>The linked list of a queue as the list of its data, oldest first, with the counter the code keeps. \<open>ok\<close>: memory for the cell.\<close>

record 'a queue_head =
  q_items :: "'a list"
  q_num :: u32

definition queue_init :: "'a queue_head" where
  "queue_init = \<lparr>q_items = [], q_num = 0\<rparr>"

definition queue_push :: "bool \<Rightarrow> 'a queue_head \<Rightarrow> 'a \<Rightarrow> bool \<times> 'a queue_head" where
  "queue_push ok q data = (if \<not> ok then (False, q)
     else (True, q\<lparr>q_items := q_items q @ [data], q_num := q_num q + 1\<rparr>))"

definition queue_pop :: "'a queue_head \<Rightarrow> 'a option \<times> 'a queue_head" where
  "queue_pop q = (case q_items q of [] \<Rightarrow> (None, q)
     | data # r \<Rightarrow> (Some data, q\<lparr>q_items := r, q_num := q_num q - 1\<rparr>))"

definition queue_peek :: "'a queue_head \<Rightarrow> 'a option" where
  "queue_peek q = (case q_items q of [] \<Rightarrow> None | data # r \<Rightarrow> Some data)"


subsection \<open>Formatted output\<close>

text \<open>
  The output of \<open>vsnprintf\<close> so far is a list; \<open>emit\<close> is \<open>if(s < end - 1) *s++ = c\<close> with \<open>sz\<close> the size of the buffer. Arguments are
  words (of any of the integer types, 32 bits each) and strings.
\<close>

datatype farg = FWord u32 | FStr "bytes option"

definition room :: "nat \<Rightarrow> bytes \<Rightarrow> bool" where
  "room sz s \<longleftrightarrow> length s + 1 < sz"

definition emit :: "nat \<Rightarrow> bytes \<Rightarrow> u8 \<Rightarrow> bytes" where
  "emit sz s c = (if room sz s then s @ [c] else s)"

definition hexdig :: "nat \<Rightarrow> bool \<Rightarrow> u8" where
  "hexdig d upper = (if d < 10 then of_nat (48 + d) else of_nat (97 + (d - 10)) - (if upper then 32 else 0))"

primrec pad_x :: "nat \<Rightarrow> bytes \<Rightarrow> u32 \<Rightarrow> nat \<Rightarrow> bool \<Rightarrow> bytes" where
  "pad_x sz s val 0 upper = s"
| "pad_x sz s val (Suc i) upper =
     (if room sz s then pad_x sz (s @ [hexdig (unat (drop_bit (i * 4) val AND 0xf)) upper]) val i upper else s)"

definition fmt_pad_x :: "nat \<Rightarrow> bytes \<Rightarrow> u32 \<Rightarrow> int \<Rightarrow> bool \<Rightarrow> bytes" where
  "fmt_pad_x sz s val width upper =
     (let w = (if width \<le> 0 then 1 else width); w = (if 8 < w then 8 else w) in pad_x sz s val (nat w) upper)"

text \<open>The digits of the \<open>do\<close> loop, lowest first, at most 16 of them.\<close>

primrec digits10 :: "nat \<Rightarrow> u32 \<Rightarrow> bytes" where
  "digits10 0 val = []"
| "digits10 (Suc k) val = (48 + ucast (val mod 10)) # (if val div 10 \<noteq> 0 then digits10 k (val div 10) else [])"

primrec emit_rev :: "nat \<Rightarrow> bytes \<Rightarrow> bytes \<Rightarrow> bytes" where
  "emit_rev sz s [] = s"
| "emit_rev sz s (c # cs) = (if room sz s then emit_rev sz (s @ [c]) cs else s)"

definition fmt_uint10 :: "nat \<Rightarrow> bytes \<Rightarrow> u32 \<Rightarrow> bytes" where
  "fmt_uint10 sz s val = emit_rev sz s (rev (digits10 16 val))"

definition fmt_int10 :: "nat \<Rightarrow> bytes \<Rightarrow> u32 \<Rightarrow> bytes" where
  "fmt_int10 sz s val = (if sint val < 0 then fmt_uint10 sz (emit sz s 45) (- val) else fmt_uint10 sz s val)"

definition fmt_long10 :: "nat \<Rightarrow> bytes \<Rightarrow> u32 \<Rightarrow> bytes" where
  "fmt_long10 sz s val = (if sint val < 0 then fmt_uint10 sz (emit sz s 45) (- val) else fmt_uint10 sz s val)"

definition is_digit :: "u8 \<Rightarrow> bool" where
  "is_digit c \<longleftrightarrow> 48 \<le> c \<and> c \<le> 57"

definition nz_width :: "u32 \<Rightarrow> nat" where
  "nz_width xv = (case find (\<lambda>nz. drop_bit (nz * 4) xv AND 0xf \<noteq> 0) [7, 6, 5, 4, 3, 2, 1] of Some nz \<Rightarrow> nz + 1 | None \<Rightarrow> 1)"

text \<open>One conversion, after the width and the length modifier; \<open>None\<close>: an argument is missing or of the wrong kind.\<close>

definition fmt_conv :: "nat \<Rightarrow> bytes \<Rightarrow> u8 \<Rightarrow> int \<Rightarrow> bool \<Rightarrow> farg list \<Rightarrow> (bytes \<times> farg list) option" where
  "fmt_conv sz s c width longmod ap =
     (if c = 115 then
        (case ap of FStr str # r \<Rightarrow>
           Some (emit_rev sz s (case str of None \<Rightarrow> map (of_nat \<circ> of_char) ''(null)'' | Some x \<Rightarrow> x), r) | _ \<Rightarrow> None)
      else if c = 100 \<or> c = 105 then
        (case ap of FWord w # r \<Rightarrow> Some (if longmod then fmt_long10 sz s w else fmt_int10 sz s w, r) | _ \<Rightarrow> None)
      else if c = 117 then
        (case ap of FWord w # r \<Rightarrow> Some (fmt_uint10 sz s w, r) | _ \<Rightarrow> None)
      else if c = 120 \<or> c = 88 then
        (case ap of FWord w # r \<Rightarrow> Some (fmt_pad_x sz s w (if width = 0 then int (nz_width w) else width) (c = 88), r) | _ \<Rightarrow> None)
      else if c = 99 then
        (case ap of FWord w # r \<Rightarrow> Some (emit sz s (ucast w), r) | _ \<Rightarrow> None)
      else if c = 112 then
        (case ap of FWord w # r \<Rightarrow>
           Some (fmt_pad_x sz (if length s + 2 < sz then s @ [48, 120] else s) w 8 False, r) | _ \<Rightarrow> None)
      else if c = 37 then Some (emit sz s 37, ap)
      else Some (emit sz s c, ap))"

definition read_width :: "bytes \<Rightarrow> int" where
  "read_width f = foldl (\<lambda>w c. w * 10 + (uint c - 48)) 0 (takeWhile is_digit f)"

text \<open>The loop over the format; \<open>f\<close> is the rest of it. A conversion at the end of the format stops the output.\<close>

function fmt_loop :: "nat \<Rightarrow> bytes \<Rightarrow> bytes \<Rightarrow> farg list \<Rightarrow> bytes option" where
  "fmt_loop sz f s ap =
     (case f of [] \<Rightarrow> Some s
      | c # r \<Rightarrow>
        if \<not> room sz s then Some s
        else if c \<noteq> 37 then fmt_loop sz r (s @ [c]) ap
        else (let width = read_width r; f1 = dropWhile is_digit r; longmod = (f1 \<noteq> [] \<and> hd f1 = 108);
                  f2 = (if f1 \<noteq> [] \<and> (hd f1 = 108 \<or> hd f1 = 122) then tl f1 else f1) in
              case f2 of [] \<Rightarrow> Some s
              | c' # r' \<Rightarrow> (case fmt_conv sz s c' width longmod ap of None \<Rightarrow> None | Some (s', ap') \<Rightarrow> fmt_loop sz r' s' ap')))"
  by pat_completeness auto

termination
proof (relation "measure (\<lambda>(sz, f, s, ap). length f)")
  fix sz f s ap c r x f1 x2 f2 c' r' p s' ap'
  assume a: "f = c # r" "f1 = dropWhile is_digit r" "f2 = (if f1 \<noteq> [] \<and> (hd f1 = 108 \<or> hd f1 = (122 :: u8)) then tl f1 else f1)" "f2 = c' # r'"
  have "length f1 \<le> length r" unfolding a(2) by (rule length_dropWhile_le)
  then have "length f2 \<le> length r" unfolding a(3) by (cases f1) auto
  then show "((sz :: nat, r', s', ap'), sz, f, s, ap) \<in> measure (\<lambda>(sz, f, s, ap). length f)" using a(1,4) by simp
qed simp_all

declare fmt_loop.simps [simp del]

definition vsnprintf :: "nat \<Rightarrow> bytes \<Rightarrow> farg list \<Rightarrow> bytes option" where
  "vsnprintf sz fmt ap = (if sz = 0 then Some [] else fmt_loop sz fmt [] ap)"

definition snprintf :: "nat \<Rightarrow> bytes \<Rightarrow> farg list \<Rightarrow> bytes option" where
  "snprintf sz fmt ap = vsnprintf sz fmt ap"


subsection \<open>Reading numbers\<close>

text \<open>\<open>strtol\<close> returns the number and the rest of the string; \<open>None\<close> is the overflow of a signed number, undefined in C.\<close>

definition digit_val :: "u8 \<Rightarrow> int" where
  "digit_val c = (if 48 \<le> c \<and> c \<le> 57 then uint c - 48 else if 97 \<le> c \<and> c \<le> 122 then uint c - 97 + 10
     else if 65 \<le> c \<and> c \<le> 90 then uint c - 65 + 10 else - 1)"

primrec strtol_loop :: "int \<Rightarrow> bytes \<Rightarrow> int \<Rightarrow> (int \<times> bytes) option" where
  "strtol_loop base [] v = Some (v, [])"
| "strtol_loop base (c # r) v =
     (let d = digit_val c in
      if d < 0 \<or> base \<le> d then Some (v, c # r)
      else if 2 ^ 31 - 1 < v * base + d then None
      else strtol_loop base r (v * base + d))"

definition strtol :: "bytes \<Rightarrow> int \<Rightarrow> (int \<times> bytes) option" where
  "strtol nptr base =
     (let p = dropWhile (\<lambda>c. c = 32 \<or> c = 9) nptr;
          neg = (p \<noteq> [] \<and> hd p = 45);
          p = (if p \<noteq> [] \<and> (hd p = 45 \<or> hd p = 43) then tl p else p);
          (base, p) = (if base \<noteq> 0 then (base, p)
             else if p \<noteq> [] \<and> hd p = 48 then
               (if tl p \<noteq> [] \<and> (hd (tl p) = 120 \<or> hd (tl p) = 88) then (16, tl (tl p)) else (8, tl p))
             else (10, p)) in
      case strtol_loop base p 0 of None \<Rightarrow> None | Some (v, r) \<Rightarrow> Some (if neg then - v else v, r))"

text \<open>\<open>strrchr\<close> for a character other than zero: the position of its last occurrence.\<close>

primrec strrchr_from :: "bytes \<Rightarrow> u8 \<Rightarrow> nat \<Rightarrow> nat option \<Rightarrow> nat option" where
  "strrchr_from [] c i l = l"
| "strrchr_from (x # xs) c i l = strrchr_from xs c (i + 1) (if x = c then Some i else l)"

definition strrchr :: "bytes \<Rightarrow> u8 \<Rightarrow> nat option" where
  "strrchr s c = (if c = 0 then Some (length s) else strrchr_from s c 0 None)"

lemma strrchr_append:
  "c \<notin> set ys \<Longrightarrow> strrchr_from (xs @ c # ys) c i l = Some (i + length xs)"
proof -
  have n: "c \<notin> set ys \<Longrightarrow> strrchr_from ys c i l = l" for ys i l by (induction ys arbitrary: i) auto
  show "c \<notin> set ys \<Longrightarrow> strrchr_from (xs @ c # ys) c i l = Some (i + length xs)" by (induction xs arbitrary: i l) (auto simp: n)
qed

text \<open>Decimal output of a number is read back, up to the first character that is no digit.\<close>

definition ends_number :: "bytes \<Rightarrow> bool" where
  "ends_number r \<longleftrightarrow> r = [] \<or> digit_val (hd r) < 0 \<or> 10 \<le> digit_val (hd r)"

definition dec :: "nat \<Rightarrow> bytes" where
  "dec n = rev (digits10 16 (of_nat n))"

fun dec_le :: "nat \<Rightarrow> nat \<Rightarrow> nat list" where
  "dec_le 0 n = []"
| "dec_le (Suc k) n = n mod 10 # (if n div 10 \<noteq> 0 then dec_le k (n div 10) else [])"

lemma digits10_dec: "n < 2 ^ 32 \<Longrightarrow> digits10 k (of_nat n) = map (\<lambda>d. 48 + of_nat d) (dec_le k n)"
proof (induction k arbitrary: n)
  case (Suc k)
  have u: "unat (of_nat n :: u32) = n" using Suc.prems by (simp add: unat_of_nat_u32)
  have l: "n div 10 < 2 ^ 32" using Suc.prems by simp
  have d: "(of_nat n :: u32) div 10 = of_nat (n div 10)" using u unat_of_nat_u32 [OF l] by (simp add: word_unat_eq_iff unat_div)
  have m: "(of_nat n :: u32) mod 10 = of_nat (n mod 10)" using u by (simp add: word_unat_eq_iff unat_mod unat_of_nat_u32 [of "n mod 10"])
  have z: "(of_nat (n div 10) :: u32) = 0 \<longleftrightarrow> n div 10 = 0" using Suc.prems by (simp add: word_unat_eq_iff unat_of_nat_u32 [of "n div 10"])
  have "n div 10 < 2 ^ 32" using Suc.prems by simp
  moreover have "(ucast (of_nat (n mod 10) :: u32) :: u8) = of_nat (n mod 10)" by (simp add: word_unat_eq_iff unsigned_ucast_eq unat_of_nat take_bit_eq_mod)
  ultimately show ?case using Suc.IH [of "n div 10"] unfolding digits10.simps dec_le.simps d m by (simp add: z)
qed simp


lemma dec_le_small: "d \<in> set (dec_le k n) \<Longrightarrow> d < 10"
  by (induction k n rule: dec_le.induct) (auto split: if_splits)

lemma digit10:
  assumes "d < 10"
  shows "digit_val (48 + of_nat d) = int d" "is_digit (48 + of_nat d)"
proof -
  have u: "unat (48 + of_nat d :: u8) = 48 + d" using assms by (simp add: unat_word_ariths unat_of_nat)
  have i: "uint (48 + of_nat d :: u8) = 48 + int d" unfolding uint_nat u by simp
  show "digit_val (48 + of_nat d) = int d" unfolding digit_val_def i word_le_nat_alt u using assms by simp
  show "is_digit (48 + of_nat d)" unfolding is_digit_def word_le_nat_alt u using assms by simp
qed

lemma dec_le_value: "n < 10 ^ k \<Longrightarrow> 0 < k \<Longrightarrow> foldr (\<lambda>d v. v * 10 + d) (dec_le k n) 0 = n"
proof (induction k n rule: dec_le.induct)
  case (2 k n)
  show ?case
  proof (cases "n div 10 = 0")
    case True
    then show ?thesis by simp
  next
    case False
    then have "0 < k" using "2.prems"(1) by (cases k) auto
    moreover have "n div 10 < 10 ^ k" using "2.prems"(1) by (simp add: div_less_iff_less_mult mult.commute)
    ultimately show ?thesis using "2.IH" [OF False] False by simp
  qed
qed simp

lemma strtol_loop_digits:
  assumes "\<And>d. d \<in> set ds \<Longrightarrow> d < 10" "ends_number r" "foldl (\<lambda>v d. v * 10 + d) v ds < 2 ^ 31"
  shows "strtol_loop 10 (map (\<lambda>d. 48 + of_nat d) ds @ r) (int v) = Some (int (foldl (\<lambda>v d. v * 10 + d) v ds), r)"
  using assms
proof (induction ds arbitrary: v)
  case Nil
  then show ?case by (cases r) (auto simp: ends_number_def Let_def)
next
  case (Cons d ds)
  have d: "d < 10" using Cons.prems(1) by simp
  then have "digit_val (48 + of_nat d) = int d" by (rule digit10)
  moreover have "v * 10 + d \<le> foldl (\<lambda>v d. v * 10 + d) (v * 10 + d) ds"
  proof -
    have "v \<le> foldl (\<lambda>v d. v * 10 + d) v ds" for v :: nat by (induction ds arbitrary: v) (simp, simp, metis add_leD1 le_trans mult.commute mult_le_mono1 nat_mult_1 one_le_numeral)
    then show ?thesis by simp
  qed
  moreover have "strtol_loop 10 (map (\<lambda>d. 48 + of_nat d) ds @ r) (int (v * 10 + d)) = Some (int (foldl (\<lambda>v d. v * 10 + d) (v * 10 + d) ds), r)"
    by (rule Cons.IH) (use Cons.prems in auto)
  ultimately show ?case using Cons.prems(3) d by (simp add: Let_def)
qed

lemma dec_first: "n < 2 ^ 31 \<Longrightarrow> \<exists>c r. dec n = c # r \<and> is_digit c"
proof -
  assume n: "n < 2 ^ 31"
  have e: "dec n = map (\<lambda>d. 48 + of_nat d) (rev (dec_le 16 n))" unfolding dec_def using digits10_dec [of n 16] n by (simp add: rev_map)
  have "dec_le 16 n \<noteq> []" using dec_le.simps(2) [of 15 n] by simp
  then obtain d ds where d: "rev (dec_le 16 n) = d # ds" by (cases "rev (dec_le 16 n)") auto
  then have "d \<in> set (rev (dec_le 16 n))" by simp
  then have "d < 10" using dec_le_small by simp
  then have "is_digit (48 + of_nat d)" by (rule digit10)
  then show ?thesis unfolding e d by simp
qed

lemma strtol_dec:
  assumes "n < 2 ^ 31" "ends_number r"
  shows "strtol (dec n @ r) 10 = Some (int n, r)"
proof -
  obtain c q where c: "dec n = c # q" "is_digit c" using dec_first [OF assms(1)] by blast
  have n: "c \<noteq> 32" "c \<noteq> 9" "c \<noteq> 45" "c \<noteq> 43" using c(2) by (auto simp: is_digit_def)
  have e: "dec n = map (\<lambda>d. 48 + of_nat d) (rev (dec_le 16 n))" unfolding dec_def using digits10_dec [of n 16] assms(1) by (simp add: rev_map)
  have v: "foldl (\<lambda>v d. v * 10 + d) 0 (rev (dec_le 16 n)) = n" unfolding foldl_conv_foldr rev_rev_ident by (rule dec_le_value) (use assms(1) in simp_all)
  have "strtol_loop 10 (dec n @ r) 0 = Some (int n, r)"
    using strtol_loop_digits [of "rev (dec_le 16 n)" r 0] dec_le_small assms unfolding e [symmetric] v by simp
  then show ?thesis unfolding strtol_def Let_def using c(1) n by simp
qed


subsection \<open>Time\<close>

record timeval =
  tv_sec :: int
  tv_usec :: int

definition HZ :: nat where "HZ = 100"

definition gettimeofday :: "u32 \<Rightarrow> timeval" where
  "gettimeofday ticks = \<lparr>tv_sec = int (unat ticks div HZ), tv_usec = int (unat ticks mod HZ * (1000000 div HZ))\<rparr>"

definition microps_random :: "u32 \<Rightarrow> u32" where
  "microps_random ticks =
     (let t = ticks; t = t XOR push_bit 13 t; t = t XOR drop_bit 17 t; t = t XOR push_bit 5 t in
      if t = 0 then 0x12345678 else t)"

definition timersub :: "timeval \<Rightarrow> timeval \<Rightarrow> timeval" where
  "timersub a b = (let s = tv_sec a - tv_sec b; u = tv_usec a - tv_usec b in
     if u < 0 then \<lparr>tv_sec = s - 1, tv_usec = u + 1000000\<rparr> else \<lparr>tv_sec = s, tv_usec = u\<rparr>)"

definition timeval_add_usec :: "timeval \<Rightarrow> int \<Rightarrow> timeval" where
  "timeval_add_usec x y = (let s = tv_sec x + y div 1000000; u = tv_usec x + y mod 1000000 in
     if 1000000 \<le> u then \<lparr>tv_sec = s + 1, tv_usec = u - 1000000\<rparr> else \<lparr>tv_sec = s, tv_usec = u\<rparr>)"

definition timer_less :: "timeval \<Rightarrow> timeval \<Rightarrow> bool" where
  "timer_less a b \<longleftrightarrow> (if tv_sec a = tv_sec b then tv_usec a < tv_usec b else tv_sec a < tv_sec b)"

definition timerclear :: timeval where
  "timerclear = \<lparr>tv_sec = 0, tv_usec = 0\<rparr>"

end
