(* ===== verification/NetState.thy ===== *)
theory NetState
  imports NetUtil
begin

section \<open>The state of the network stack\<close>

text \<open>
  The objects of \<open>microps\<close>: devices, interfaces, routes, registered protocols with their input queues, the ARP cache, and the
  control blocks of UDP and TCP. Linked lists are lists, head first; objects that are shared by pointer (devices, interfaces, control
  blocks) are numbered. A function pointer is the name of one of the functions the code stores there. Names of devices and protocols
  are only printed and are left out.

  \<open>nenv\<close> is what the stack runs on: whether the kernel heap has memory for the \<open>k\<close>-th request, whether the network card accepts the
  \<open>k\<close>-th frame, the frames the card hands over at the \<open>k\<close>-th poll, and whether the current process has been killed. Frames given to the card and the
  contexts that are woken up are recorded in the state.
\<close>

datatype devops = NullOps | LoopbackOps | EtherOps

datatype iphandler = H_ICMP | H_UDP | H_TCP

datatype nethandler = H_IP | H_ARP

record net_device =
  nd_ifaces :: "nat list"
  nd_index :: u32
  nd_type :: u16
  nd_mtu :: u16
  nd_flags :: u16
  nd_hlen :: u16
  nd_alen :: u16
  nd_addr :: bytes
  nd_broadcast :: bytes
  nd_ops :: devops

record ip_iface =
  if_dev :: "nat option"
  if_family :: int
  if_unicast :: u32
  if_netmask :: u32
  if_broadcast :: u32

record ip_route =
  rt_network :: u32
  rt_netmask :: u32
  rt_nexthop :: u32
  rt_iface :: nat

record ip_endpoint =
  ep_addr :: u32
  ep_port :: u16

record net_protocol =
  np_type :: u16
  np_queue :: "(nat \<times> bytes) queue_head"
  np_handler :: nethandler

datatype arp_state = ARP_FREE | ARP_INCOMPLETE | ARP_RESOLVED | ARP_STATIC

record arp_cache =
  ac_state :: arp_state
  ac_pa :: u32
  ac_ha :: bytes
  ac_time :: timeval

record sched_ctx =
  cx_interrupted :: bool
  cx_wc :: int

datatype udp_state = UDP_FREE | UDP_OPEN | UDP_CLOSING

record udp_pcb =
  up_state :: udp_state
  up_local :: ip_endpoint
  up_queue :: "(ip_endpoint \<times> bytes) queue_head"
  up_ctx :: sched_ctx

datatype tcp_state =
    TCP_FREE | TCP_CLOSED | TCP_LISTEN | TCP_SYN_SENT | TCP_SYN_RECEIVED | TCP_ESTABLISHED | TCP_FIN_WAIT1 | TCP_FIN_WAIT2
  | TCP_CLOSING | TCP_TIME_WAIT | TCP_CLOSE_WAIT | TCP_LAST_ACK

datatype tcp_mode = TCP_MODE_NONE | TCP_MODE_RFC793 | TCP_MODE_SOCKET

text \<open>\<open>tq_id\<close> is the identity of an entry of the retransmission queue, its address in the sources.\<close>

record tcp_queue_entry =
  tq_id :: nat
  tq_first :: timeval
  tq_last :: timeval
  tq_rto :: u32
  tq_seq :: u32
  tq_flg :: u8
  tq_data :: bytes

record tcp_pcb =
  tp_state :: tcp_state
  tp_mode :: tcp_mode
  tp_local :: ip_endpoint
  tp_foreign :: ip_endpoint
  snd_nxt :: u32
  snd_una :: u32
  snd_wnd :: u16
  snd_up :: u16
  snd_wl1 :: u32
  snd_wl2 :: u32
  tp_iss :: u32
  rcv_nxt :: u32
  rcv_wnd :: u16
  rcv_up :: u16
  tp_irs :: u32
  tp_buf :: bytes
  tp_ctx :: sched_ctx
  tp_queue :: "tcp_queue_entry queue_head"
  tp_tw :: timeval
  tp_parent :: "nat option"
  tp_backlog :: "nat queue_head"

datatype sock_type = SOCK_NONE | SOCK_STREAM | SOCK_DGRAM

record sock =
  so_used :: bool
  so_family :: int
  so_type :: sock_type
  so_desc :: int

datatype wchan = WTcp nat | WUdp nat

datatype timer_handler = T_ARP | T_TCP

record net_timer =
  nt_interval :: timeval
  nt_last :: timeval
  nt_handler :: timer_handler

datatype event_handler = E_UDP | E_TCP

record nstate =
  n_devices :: "nat list"
  n_dev :: "nat \<Rightarrow> net_device"
  n_ndev :: nat
  n_if :: "nat \<Rightarrow> ip_iface"
  n_nif :: nat
  n_eth :: "nat option"
  n_protocols :: "net_protocol list"
  n_timers :: "net_timer list"
  n_events :: "event_handler list"
  ip_ifaces :: "nat list"
  ip_protocols :: "(u8 \<times> iphandler) list"
  ip_routes :: "ip_route list"
  ip_id_counter :: u16
  arp_caches :: "arp_cache list"
  udp_pcbs :: "udp_pcb list"
  tcp_pcbs :: "tcp_pcb list"
  socks :: "sock list"
  n_ticks :: u32
  ping_wait :: bool
  ping_got :: bool
  ping_id :: u16
  ping_seq :: u16
  n_allocs :: nat
  n_wire :: "bytes list"
  n_txs :: nat
  n_polls :: nat
  n_woken :: "wchan list"

record nenv =
  ne_alloc :: "nat \<Rightarrow> nat \<Rightarrow> bool"
  ne_tx :: "nat \<Rightarrow> bool"
  ne_rx :: "nat \<Rightarrow> bytes list"
  ne_killed :: bool

definition NET_DEVICE_FLAG_UP :: u16 where "NET_DEVICE_FLAG_UP = 0x0001"
definition NET_DEVICE_FLAG_LOOPBACK :: u16 where "NET_DEVICE_FLAG_LOOPBACK = 0x0010"
definition NET_DEVICE_FLAG_BROADCAST :: u16 where "NET_DEVICE_FLAG_BROADCAST = 0x0020"
definition NET_DEVICE_FLAG_NEED_ARP :: u16 where "NET_DEVICE_FLAG_NEED_ARP = 0x0100"
definition NET_DEVICE_TYPE_NULL :: u16 where "NET_DEVICE_TYPE_NULL = 0x0000"
definition NET_DEVICE_TYPE_LOOPBACK :: u16 where "NET_DEVICE_TYPE_LOOPBACK = 0x0001"
definition NET_DEVICE_TYPE_ETHERNET :: u16 where "NET_DEVICE_TYPE_ETHERNET = 0x0002"
definition NET_DEVICE_ADDR_LEN :: nat where "NET_DEVICE_ADDR_LEN = 16"
definition NET_IFACE_FAMILY_IP :: int where "NET_IFACE_FAMILY_IP = 1"
definition NET_PROTOCOL_TYPE_IP :: u16 where "NET_PROTOCOL_TYPE_IP = 0x0800"
definition NET_PROTOCOL_TYPE_ARP :: u16 where "NET_PROTOCOL_TYPE_ARP = 0x0806"
definition IP_ADDR_ANY :: u32 where "IP_ADDR_ANY = 0"
definition IP_ADDR_BROADCAST :: u32 where "IP_ADDR_BROADCAST = 0xffffffff"
definition ETHER_ADDR_LEN :: nat where "ETHER_ADDR_LEN = 6"
definition ETHER_HDR_SIZE :: nat where "ETHER_HDR_SIZE = 14"
definition ETHER_FRAME_SIZE_MIN :: nat where "ETHER_FRAME_SIZE_MIN = 60"
definition ETHER_FRAME_SIZE_MAX :: nat where "ETHER_FRAME_SIZE_MAX = 1514"

definition set_dev :: "nat \<Rightarrow> (net_device \<Rightarrow> net_device) \<Rightarrow> nstate \<Rightarrow> nstate" where
  "set_dev i f s = s\<lparr>n_dev := (n_dev s)(i := f (n_dev s i))\<rparr>"

definition set_if :: "nat \<Rightarrow> (ip_iface \<Rightarrow> ip_iface) \<Rightarrow> nstate \<Rightarrow> nstate" where
  "set_if i f s = s\<lparr>n_if := (n_if s)(i := f (n_if s i))\<rparr>"

text \<open>The outcome of a call that may have to wait: its result, or going to sleep in the middle.\<close>

datatype 'a nres = NDone 'a | NWait

definition sched_ctx_init :: sched_ctx where
  "sched_ctx_init = \<lparr>cx_interrupted = False, cx_wc = 0\<rparr>"

definition sched_wakeup :: "wchan \<Rightarrow> (nstate, unit) kop" where
  "sched_wakeup c = kmod (\<lambda>s. s\<lparr>n_woken := n_woken s @ [c]\<rparr>)"

text \<open>\<open>sched_sleep\<close> up to the point where the process sleeps (\<open>None\<close>: it does not sleep but returns -1), and from there on.\<close>

definition sched_sleep :: "nenv \<Rightarrow> sched_ctx \<Rightarrow> sched_ctx option" where
  "sched_sleep e c = (if ne_killed e \<or> cx_interrupted c then None else Some (c\<lparr>cx_wc := cx_wc c + 1\<rparr>))"

definition sched_woken :: "nenv \<Rightarrow> sched_ctx \<Rightarrow> bool \<times> sched_ctx" where
  "sched_woken e c = (let c = c\<lparr>cx_wc := cx_wc c - 1\<rparr> in
     if ne_killed e then (False, c)
     else if cx_interrupted c then (False, if cx_wc c = 0 then c\<lparr>cx_interrupted := False\<rparr> else c)
     else (True, c))"

text \<open>\<open>memory_alloc\<close> (\<open>kmalloc\<close>): only whether it succeeds matters here.\<close>

definition memory_alloc :: "nenv \<Rightarrow> nat \<Rightarrow> (nstate, bool) kop" where
  "memory_alloc e sz = kbind (kget n_allocs) (\<lambda>k. kthen (kmod (\<lambda>s. s\<lparr>n_allocs := k + 1\<rparr>)) (kreturn (ne_alloc e k sz)))"

text \<open>Reading a field of a message through a struct pointer: undefined behaviour outside the message.\<close>

definition rd8 :: "bytes \<Rightarrow> nat \<Rightarrow> ('s, u8) kop" where
  "rd8 d off = (if off < length d then kreturn (d ! off) else kundef)"

definition rd16 :: "bytes \<Rightarrow> nat \<Rightarrow> ('s, u16) kop" where
  "rd16 d off = (if off + 2 \<le> length d then kreturn (get16 d off) else kundef)"

definition rd32 :: "bytes \<Rightarrow> nat \<Rightarrow> ('s, u32) kop" where
  "rd32 d off = (if off + 4 \<le> length d then kreturn (get32 d off) else kundef)"

definition rdn :: "bytes \<Rightarrow> nat \<Rightarrow> nat \<Rightarrow> ('s, bytes) kop" where
  "rdn d off n = (if off + n \<le> length d then kreturn (slice d off n) else kundef)"

definition kopt :: "'a option \<Rightarrow> ('s, 'a) kop" where
  "kopt r = (case r of None \<Rightarrow> kundef | Some a \<Rightarrow> kreturn a)"

definition cksum :: "bytes \<Rightarrow> u16 \<Rightarrow> u32 \<Rightarrow> ('s, u16) kop" where
  "cksum d count init = kopt (cksum16 d count init)"

lemma wp_memory_alloc [simp]: "wp (memory_alloc e n) Q s = Q (ne_alloc e (n_allocs s) n) (s\<lparr>n_allocs := n_allocs s + 1\<rparr>)"
  by (simp add: memory_alloc_def)

lemma wp_read [simp]:
  "wp (rd8 d off) P s \<longleftrightarrow> off < length d \<and> P (d ! off) s"
  "wp (rd16 d off) Q s \<longleftrightarrow> off + 2 \<le> length d \<and> Q (get16 d off) s"
  "wp (rd32 d off) R s \<longleftrightarrow> off + 4 \<le> length d \<and> R (get32 d off) s"
  "wp (rdn d off n) S s \<longleftrightarrow> off + n \<le> length d \<and> S (slice d off n) s"
  "wp (kopt r) T s \<longleftrightarrow> (\<exists>a. r = Some a \<and> T a s)"
  by (auto simp: rd8_def rd16_def rd32_def rdn_def kopt_def split: option.splits)

end
