(* ===== verification/Net.thy ===== *)
theory Net
  imports NetState
begin

section \<open>Devices and link layer (\<open>microps/net.c\<close>, \<open>ether.c\<close>, \<open>arp.c\<close>, \<open>driver\<close>)\<close>

text \<open>
  Device and protocol registration, the input queues, Ethernet framing, the ARP cache and address resolution. Sending on the
  loopback device, and resolving an address, run the protocol handlers again; the argument \<open>ph\<close> stands for that nested call of
  \<open>net_protocol_handler\<close>. Objects allocated by the registration functions start out zero: they are allocated at boot, from the part of the
  arena of \<open>kmalloc\<close> that has not been used before.
\<close>

unbundle bit_operations_syntax


subsection \<open>Devices\<close>

definition net_device_zero :: net_device where
  "net_device_zero = \<lparr>nd_ifaces = [], nd_index = 0, nd_type = 0, nd_mtu = 0, nd_flags = 0, nd_hlen = 0, nd_alen = 0,
     nd_addr = replicate NET_DEVICE_ADDR_LEN 0, nd_broadcast = replicate NET_DEVICE_ADDR_LEN 0, nd_ops = NullOps\<rparr>"

definition net_device_alloc :: "nenv \<Rightarrow> (net_device \<Rightarrow> net_device) \<Rightarrow> (nstate, nat option) kop" where
  "net_device_alloc e setup =
     kbind (memory_alloc e 80) (\<lambda>ok. if \<not> ok then kreturn None
     else kbind (kget n_ndev) (\<lambda>i.
       kthen (kmod (\<lambda>s. set_dev i (\<lambda>_. setup net_device_zero) (s\<lparr>n_ndev := i + 1\<rparr>))) (kreturn (Some i))))"

definition net_device_register :: "nat \<Rightarrow> (nstate, int) kop" where
  "net_device_register i =
     kbind (kget n_devices) (\<lambda>ds.
     kthen (kmod (set_dev i (\<lambda>d. d\<lparr>nd_index := of_nat (length ds)\<rparr>)))
     (kthen (kmod (\<lambda>s. s\<lparr>n_devices := i # ds\<rparr>)) (kreturn 0)))"

definition net_device_first_ethernet :: "nstate \<Rightarrow> nat option" where
  "net_device_first_ethernet s = find (\<lambda>i. nd_type (n_dev s i) = NET_DEVICE_TYPE_ETHERNET) (n_devices s)"

definition NET_DEVICE_IS_UP :: "net_device \<Rightarrow> bool" where
  "NET_DEVICE_IS_UP d \<longleftrightarrow> nd_flags d AND NET_DEVICE_FLAG_UP \<noteq> 0"

text \<open>None of the three drivers has an \<open>open\<close> or a \<open>close\<close> function.\<close>

definition net_device_open :: "nat \<Rightarrow> (nstate, int) kop" where
  "net_device_open i = kbind (kget (\<lambda>s. n_dev s i)) (\<lambda>d.
     if NET_DEVICE_IS_UP d then kreturn (- 1)
     else kthen (kmod (set_dev i (\<lambda>d. d\<lparr>nd_flags := nd_flags d OR NET_DEVICE_FLAG_UP\<rparr>))) (kreturn 0))"

definition net_device_close :: "nat \<Rightarrow> (nstate, int) kop" where
  "net_device_close i = kbind (kget (\<lambda>s. n_dev s i)) (\<lambda>d.
     if \<not> NET_DEVICE_IS_UP d then kreturn (- 1)
     else kthen (kmod (set_dev i (\<lambda>d. d\<lparr>nd_flags := nd_flags d AND NOT NET_DEVICE_FLAG_UP\<rparr>))) (kreturn 0))"

definition net_device_add_iface :: "nat \<Rightarrow> nat \<Rightarrow> (nstate, int) kop" where
  "net_device_add_iface i f = kbind (kget id) (\<lambda>s.
     if \<exists>j \<in> set (nd_ifaces (n_dev s i)). if_family (n_if s j) = if_family (n_if s f) then kreturn (- 1)
     else kthen (kmod (set_if f (\<lambda>x. x\<lparr>if_dev := Some i\<rparr>)))
       (kthen (kmod (set_dev i (\<lambda>d. d\<lparr>nd_ifaces := f # nd_ifaces d\<rparr>))) (kreturn 0)))"

definition net_device_get_iface :: "nat \<Rightarrow> int \<Rightarrow> nstate \<Rightarrow> nat option" where
  "net_device_get_iface i fam s = find (\<lambda>j. if_family (n_if s j) = fam) (nd_ifaces (n_dev s i))"

definition net_run :: "(nstate, int) kop" where
  "net_run = kbind (kget n_devices) (\<lambda>ds.
     kthen (foldr (\<lambda>i m. kthen (net_device_open i) m) ds (kreturn ())) (kreturn 0))"

definition net_shutdown :: "(nstate, unit) kop" where
  "net_shutdown = kbind (kget n_devices) (\<lambda>ds. foldr (\<lambda>i m. kthen (net_device_close i) m) ds (kreturn ()))"


subsection \<open>Protocols, timers and events\<close>

definition net_protocol_register :: "nenv \<Rightarrow> u16 \<Rightarrow> nethandler \<Rightarrow> (nstate, int) kop" where
  "net_protocol_register e ty h = kbind (kget n_protocols) (\<lambda>ps.
     if \<exists>p \<in> set ps. np_type p = ty then kreturn (- 1)
     else kbind (memory_alloc e 40) (\<lambda>ok. if \<not> ok then kreturn (- 1)
       else kthen (kmod (\<lambda>s. s\<lparr>n_protocols := \<lparr>np_type = ty, np_queue = queue_init, np_handler = h\<rparr> # ps\<rparr>)) (kreturn 0)))"

definition net_timer_register :: "nenv \<Rightarrow> timeval \<Rightarrow> timer_handler \<Rightarrow> (nstate, int) kop" where
  "net_timer_register e interval h = kbind (memory_alloc e 40) (\<lambda>ok. if \<not> ok then kreturn (- 1)
     else kthen (kmod (\<lambda>s. s\<lparr>n_timers := \<lparr>nt_interval = interval, nt_last = gettimeofday (n_ticks s), nt_handler = h\<rparr> # n_timers s\<rparr>)) (kreturn 0))"

definition net_event_subscribe :: "nenv \<Rightarrow> event_handler \<Rightarrow> (nstate, int) kop" where
  "net_event_subscribe e h = kbind (memory_alloc e 12) (\<lambda>ok. if \<not> ok then kreturn (- 1)
     else kthen (kmod (\<lambda>s. s\<lparr>n_events := h # n_events s\<rparr>)) (kreturn 0))"

text \<open>The first registered protocol of a type.\<close>

definition find_protocol :: "u16 \<Rightarrow> nstate \<Rightarrow> nat option" where
  "find_protocol ty s = find (\<lambda>i. np_type (n_protocols s ! i) = ty) [0..<length (n_protocols s)]"

definition set_queue :: "nat \<Rightarrow> (nat \<times> bytes) queue_head \<Rightarrow> nstate \<Rightarrow> nstate" where
  "set_queue i q s = s\<lparr>n_protocols := (n_protocols s)[i := (n_protocols s ! i)\<lparr>np_queue := q\<rparr>]\<rparr>"

definition net_input_handler :: "nenv \<Rightarrow> (nstate, unit) kop \<Rightarrow> u16 \<Rightarrow> bytes \<Rightarrow> nat \<Rightarrow> (nstate, int) kop" where
  "net_input_handler e ph ty data i = kbind (kget (find_protocol ty)) (\<lambda>r.
     case r of None \<Rightarrow> kreturn 0
     | Some p \<Rightarrow>
       kbind (memory_alloc e (8 + length data)) (\<lambda>ok. if \<not> ok then kreturn (- 1)
       else kbind (memory_alloc e 8) (\<lambda>ok. kbind (kget (\<lambda>s. queue_push ok (np_queue (n_protocols s ! p)) (i, data))) (\<lambda>(pushed, q).
         if \<not> pushed then kreturn (- 1)
         else kthen (kmod (set_queue p q)) (kthen ph (kreturn 0))))))"


subsection \<open>Drivers\<close>

definition loopback_transmit :: "nenv \<Rightarrow> (nstate, unit) kop \<Rightarrow> nat \<Rightarrow> u16 \<Rightarrow> bytes \<Rightarrow> (nstate, int) kop" where
  "loopback_transmit e ph i ty data = kthen (net_input_handler e ph ty data i) (kreturn 0)"

definition loopback_setup :: "net_device \<Rightarrow> net_device" where
  "loopback_setup d = d\<lparr>nd_type := NET_DEVICE_TYPE_LOOPBACK, nd_mtu := 0xffff, nd_hlen := 0, nd_alen := 0, nd_flags := NET_DEVICE_FLAG_LOOPBACK,
     nd_ops := LoopbackOps\<rparr>"

definition null_setup :: "net_device \<Rightarrow> net_device" where
  "null_setup d = d\<lparr>nd_type := NET_DEVICE_TYPE_NULL, nd_mtu := 0xffff, nd_hlen := 0, nd_alen := 0, nd_ops := NullOps\<rparr>"

definition ETHER_ADDR_BROADCAST :: bytes where
  "ETHER_ADDR_BROADCAST = replicate 6 0xff"

definition ether_setup_helper :: "net_device \<Rightarrow> net_device" where
  "ether_setup_helper d = d\<lparr>nd_type := NET_DEVICE_TYPE_ETHERNET, nd_mtu := 1500, nd_flags := NET_DEVICE_FLAG_BROADCAST OR NET_DEVICE_FLAG_NEED_ARP,
     nd_hlen := 14, nd_alen := 6, nd_broadcast := splice (nd_broadcast d) 0 ETHER_ADDR_BROADCAST\<rparr>"

definition sirpair_e1000_setup :: "bytes \<Rightarrow> net_device \<Rightarrow> net_device" where
  "sirpair_e1000_setup mac d = (let d = ether_setup_helper d in d\<lparr>nd_addr := splice (nd_addr d) 0 mac, nd_ops := EtherOps\<rparr>)"

definition sirpair_e1000_xmit_frame :: "nenv \<Rightarrow> bytes \<Rightarrow> (nstate, int) kop" where
  "sirpair_e1000_xmit_frame e frame =
     (if 1514 < length frame then kreturn (- 1)
      else kbind (kget n_txs) (\<lambda>k.
        kthen (kmod (\<lambda>s. s\<lparr>n_txs := k + 1, n_wire := (if ne_tx e k then n_wire s @ [frame] else n_wire s)\<rparr>))
        (kreturn (if ne_tx e k then int (length frame) else - 1))))"

text \<open>The frame is padded with zeros to the minimal size; data longer than the frame buffer is undefined behaviour.\<close>

definition ether_frame :: "net_device \<Rightarrow> u16 \<Rightarrow> bytes \<Rightarrow> bytes \<Rightarrow> bytes" where
  "ether_frame d ty data dst = take ETHER_ADDR_LEN dst @ take ETHER_ADDR_LEN (nd_addr d) @ le16 (hton16 ty) @ data
     @ replicate (ETHER_FRAME_SIZE_MIN - ETHER_HDR_SIZE - length data) 0"

definition ether_transmit_helper :: "nenv \<Rightarrow> nat \<Rightarrow> u16 \<Rightarrow> bytes \<Rightarrow> bytes \<Rightarrow> (nstate, int) kop" where
  "ether_transmit_helper e i ty data dst =
     (if ETHER_FRAME_SIZE_MAX < ETHER_HDR_SIZE + length data then kundef
      else kbind (kget (\<lambda>s. ether_frame (n_dev s i) ty data dst)) (\<lambda>frame.
        kbind (sirpair_e1000_xmit_frame e frame) (\<lambda>r. kreturn (if r = int (length frame) then 0 else - 1))))"

text \<open>\<open>dev->ops->transmit\<close>.\<close>

definition transmit :: "nenv \<Rightarrow> (nstate, unit) kop \<Rightarrow> nat \<Rightarrow> u16 \<Rightarrow> bytes \<Rightarrow> bytes \<Rightarrow> (nstate, int) kop" where
  "transmit e ph i ty data dst = kbind (kget (\<lambda>s. nd_ops (n_dev s i))) (\<lambda>ops. case ops of
       NullOps \<Rightarrow> kreturn 0
     | LoopbackOps \<Rightarrow> loopback_transmit e ph i ty data
     | EtherOps \<Rightarrow> ether_transmit_helper e i ty data dst)"

definition net_device_output :: "nenv \<Rightarrow> (nstate, unit) kop \<Rightarrow> nat \<Rightarrow> u16 \<Rightarrow> bytes \<Rightarrow> bytes \<Rightarrow> (nstate, int) kop" where
  "net_device_output e ph i ty data dst = kbind (kget (\<lambda>s. n_dev s i)) (\<lambda>d.
     if \<not> NET_DEVICE_IS_UP d then kreturn (- 1)
     else if unat (nd_mtu d) < length data then kreturn (- 1)
     else kbind (transmit e ph i ty data dst) (\<lambda>r. kreturn (if r = - 1 then - 1 else 0)))"

definition sirpair_microps_deliver_ether :: "nenv \<Rightarrow> (nstate, unit) kop \<Rightarrow> bytes \<Rightarrow> (nstate, unit) kop" where
  "sirpair_microps_deliver_ether e ph frame =
     kthen (kmod (\<lambda>s. if n_eth s = None then s\<lparr>n_eth := net_device_first_ethernet s\<rparr> else s))
     (kbind (kget id) (\<lambda>s. case n_eth s of
        None \<Rightarrow> kreturn ()
      | Some i \<Rightarrow>
        if length frame < ETHER_HDR_SIZE then kreturn ()
        else if take 6 (nd_addr (n_dev s i)) \<noteq> take 6 frame \<and> ETHER_ADDR_BROADCAST \<noteq> take 6 frame then kreturn ()
        else kthen (net_input_handler e ph (ntoh16 (get16 frame 12)) (drop ETHER_HDR_SIZE frame) i) (kreturn ())))"

text \<open>\<open>net_poll\<close>: the frames the card has received since the last poll.\<close>

definition net_poll :: "nenv \<Rightarrow> (nstate, unit) kop \<Rightarrow> (nstate, unit) kop" where
  "net_poll e ph = kbind (kget n_polls) (\<lambda>k. kthen (kmod (\<lambda>s. s\<lparr>n_polls := k + 1\<rparr>))
     (foldr (\<lambda>f m. kthen (sirpair_microps_deliver_ether e ph f) m) (ne_rx e k) (kreturn ())))"


subsection \<open>Address resolution\<close>

definition ARP_CACHE_SIZE :: nat where "ARP_CACHE_SIZE = 32"
definition ARP_CACHE_TIMEOUT :: int where "ARP_CACHE_TIMEOUT = 30"
definition ARP_OP_REQUEST :: u16 where "ARP_OP_REQUEST = 1"
definition ARP_OP_REPLY :: u16 where "ARP_OP_REPLY = 2"

datatype arp_result = ARP_RESOLVE_ERROR | ARP_RESOLVE_INCOMPLETE | ARP_RESOLVE_FOUND bytes

primrec arp_alloc_from :: "arp_cache list \<Rightarrow> nat list \<Rightarrow> nat option \<Rightarrow> nat option" where
  "arp_alloc_from cs [] oldest = oldest"
| "arp_alloc_from cs (i # r) oldest =
     (if ac_state (cs ! i) = ARP_FREE then Some i
      else arp_alloc_from cs r (case oldest of None \<Rightarrow> Some i
        | Some j \<Rightarrow> if timer_less (ac_time (cs ! i)) (ac_time (cs ! j)) then Some i else oldest))"

definition arp_cache_alloc :: "arp_cache list \<Rightarrow> nat option" where
  "arp_cache_alloc cs = arp_alloc_from cs [0..<length cs] None"

definition arp_cache_select :: "u32 \<Rightarrow> arp_cache list \<Rightarrow> nat option" where
  "arp_cache_select pa cs = find (\<lambda>i. ac_state (cs ! i) \<noteq> ARP_FREE \<and> ac_pa (cs ! i) = pa) [0..<length cs]"

definition set_arp :: "nat \<Rightarrow> (arp_cache \<Rightarrow> arp_cache) \<Rightarrow> nstate \<Rightarrow> nstate" where
  "set_arp i f s = s\<lparr>arp_caches := (arp_caches s)[i := f (arp_caches s ! i)]\<rparr>"

definition arp_cache_update :: "u32 \<Rightarrow> bytes \<Rightarrow> (nstate, bool) kop" where
  "arp_cache_update pa ha = kbind (kget (\<lambda>s. arp_cache_select pa (arp_caches s))) (\<lambda>r.
     case r of None \<Rightarrow> kreturn False
     | Some i \<Rightarrow> kthen (kmod (\<lambda>s. set_arp i (\<lambda>c. c\<lparr>ac_state := ARP_RESOLVED, ac_ha := ha, ac_time := gettimeofday (n_ticks s)\<rparr>) s)) (kreturn True))"

definition arp_cache_insert :: "u32 \<Rightarrow> bytes \<Rightarrow> (nstate, bool) kop" where
  "arp_cache_insert pa ha = kbind (kget (\<lambda>s. arp_cache_alloc (arp_caches s))) (\<lambda>r.
     case r of None \<Rightarrow> kreturn False
     | Some i \<Rightarrow> kthen (kmod (\<lambda>s. set_arp i (\<lambda>c. c\<lparr>ac_state := ARP_RESOLVED, ac_pa := pa, ac_ha := ha, ac_time := gettimeofday (n_ticks s)\<rparr>) s)) (kreturn True))"

definition arp_cache_delete :: "arp_cache \<Rightarrow> arp_cache" where
  "arp_cache_delete c = c\<lparr>ac_state := ARP_FREE, ac_pa := 0, ac_ha := replicate ETHER_ADDR_LEN 0, ac_time := timerclear\<rparr>"

text \<open>A message: hardware type 1, protocol type IP, address lengths 6 and 4, operation, and the two address pairs.\<close>

definition arp_msg :: "u16 \<Rightarrow> bytes \<Rightarrow> u32 \<Rightarrow> bytes \<Rightarrow> u32 \<Rightarrow> bytes" where
  "arp_msg op sha spa tha tpa = le16 (hton16 1) @ le16 (hton16 NET_PROTOCOL_TYPE_IP) @ [6, 4] @ le16 (hton16 op)
     @ take ETHER_ADDR_LEN sha @ le32 spa @ take ETHER_ADDR_LEN tha @ le32 tpa"

definition arp_request :: "nenv \<Rightarrow> (nstate, unit) kop \<Rightarrow> nat \<Rightarrow> nat \<Rightarrow> u32 \<Rightarrow> (nstate, int) kop" where
  "arp_request e ph f i tpa = kbind (kget id) (\<lambda>s.
     net_device_output e ph i NET_PROTOCOL_TYPE_ARP
       (arp_msg ARP_OP_REQUEST (nd_addr (n_dev s i)) (if_unicast (n_if s f)) (replicate ETHER_ADDR_LEN 0) tpa) (nd_broadcast (n_dev s i)))"

definition arp_reply :: "nenv \<Rightarrow> (nstate, unit) kop \<Rightarrow> nat \<Rightarrow> nat \<Rightarrow> bytes \<Rightarrow> u32 \<Rightarrow> bytes \<Rightarrow> (nstate, int) kop" where
  "arp_reply e ph f i tha tpa dst = kbind (kget id) (\<lambda>s.
     net_device_output e ph i NET_PROTOCOL_TYPE_ARP
       (arp_msg ARP_OP_REPLY (nd_addr (n_dev s i)) (if_unicast (n_if s f)) tha tpa) dst)"

definition arp_input :: "nenv \<Rightarrow> (nstate, unit) kop \<Rightarrow> bytes \<Rightarrow> nat \<Rightarrow> (nstate, unit) kop" where
  "arp_input e ph data i =
     (if length data < 28 then kreturn ()
      else if ntoh16 (get16 data 0) \<noteq> 1 \<or> data ! 4 \<noteq> 6 then kreturn ()
      else if ntoh16 (get16 data 2) \<noteq> NET_PROTOCOL_TYPE_IP \<or> data ! 5 \<noteq> 4 then kreturn ()
      else let sha = slice data 8 6; spa = get32 data 14; tpa = get32 data 24; op = ntoh16 (get16 data 6) in
        kbind (arp_cache_update spa sha) (\<lambda>merge.
        kbind (kget id) (\<lambda>s. case net_device_get_iface i NET_IFACE_FAMILY_IP s of
          None \<Rightarrow> kreturn ()
        | Some f \<Rightarrow>
          if if_unicast (n_if s f) \<noteq> tpa then kreturn ()
          else kthen (if merge then kreturn () else kthen (arp_cache_insert spa sha) (kreturn ()))
            (if op = ARP_OP_REQUEST then kthen (arp_reply e ph f i sha spa sha) (kreturn ()) else kreturn ()))))"

text \<open>The request, one poll of the card and of the input queues, and a second look at the cache.\<close>

definition arp_ask :: "nenv \<Rightarrow> (nstate, unit) kop \<Rightarrow> nat \<Rightarrow> nat \<Rightarrow> u32 \<Rightarrow> (nstate, arp_result) kop" where
  "arp_ask e ph f i pa =
     kthen (arp_request e ph f i pa) (kthen (net_poll e ph) (kthen ph
     (kbind (kget arp_caches) (\<lambda>cs. case arp_cache_select pa cs of
        None \<Rightarrow> kreturn ARP_RESOLVE_INCOMPLETE
      | Some j \<Rightarrow> kreturn (if ac_state (cs ! j) = ARP_RESOLVED then ARP_RESOLVE_FOUND (ac_ha (cs ! j)) else ARP_RESOLVE_INCOMPLETE)))))"

definition arp_resolve :: "nenv \<Rightarrow> (nstate, unit) kop \<Rightarrow> nat \<Rightarrow> nat \<Rightarrow> u32 \<Rightarrow> (nstate, arp_result) kop" where
  "arp_resolve e ph f i pa = kbind (kget id) (\<lambda>s.
     if nd_type (n_dev s i) \<noteq> NET_DEVICE_TYPE_ETHERNET then kreturn ARP_RESOLVE_ERROR
     else if if_family (n_if s f) \<noteq> NET_IFACE_FAMILY_IP then kreturn ARP_RESOLVE_ERROR
     else (case arp_cache_select pa (arp_caches s) of
       None \<Rightarrow> (case arp_cache_alloc (arp_caches s) of
           None \<Rightarrow> kreturn ARP_RESOLVE_ERROR
         | Some j \<Rightarrow> kthen (kmod (set_arp j (\<lambda>c. c\<lparr>ac_state := ARP_INCOMPLETE, ac_pa := pa, ac_time := gettimeofday (n_ticks s)\<rparr>)))
             (arp_ask e ph f i pa))
     | Some j \<Rightarrow>
         if ac_state (arp_caches s ! j) = ARP_INCOMPLETE then arp_ask e ph f i pa
         else kreturn (ARP_RESOLVE_FOUND (ac_ha (arp_caches s ! j)))))"

definition arp_expired :: "timeval \<Rightarrow> arp_cache \<Rightarrow> bool" where
  "arp_expired now c \<longleftrightarrow> ac_state c \<noteq> ARP_FREE \<and> ac_state c \<noteq> ARP_STATIC \<and> ARP_CACHE_TIMEOUT < tv_sec (timersub now (ac_time c))"

definition arp_timer :: "(nstate, unit) kop" where
  "arp_timer = kmod (\<lambda>s. s\<lparr>arp_caches := map (\<lambda>c. if arp_expired (gettimeofday (n_ticks s)) c then arp_cache_delete c else c) (arp_caches s)\<rparr>)"

definition arp_init :: "nenv \<Rightarrow> (nstate, int) kop" where
  "arp_init e = kbind (net_protocol_register e NET_PROTOCOL_TYPE_ARP H_ARP) (\<lambda>r. if r = - 1 then kreturn (- 1)
     else kbind (net_timer_register e \<lparr>tv_sec = 1, tv_usec = 0\<rparr> T_ARP) (\<lambda>r. kreturn (if r = - 1 then - 1 else 0)))"

end
