(* ===== verification/Ip.thy ===== *)
theory Ip
  imports Net
begin

section \<open>The Internet protocol (\<open>microps/ip.c\<close>, \<open>icmp.c\<close>)\<close>

text \<open>
  Addresses and their text form, interfaces, the routing table, input and output of datagrams, and ICMP. A message passed between
  layers is the list of bytes behind the pointer together with the length argument where the two can differ: \<open>ip_input\<close> computes the
  length for the protocol handlers in 32-bit arithmetic.
\<close>

unbundle bit_operations_syntax

definition IP_VERSION_IPV4 :: u8 where "IP_VERSION_IPV4 = 4"
definition IP_HDR_SIZE_MIN :: nat where "IP_HDR_SIZE_MIN = 20"
definition IP_TOTAL_SIZE_MAX :: nat where "IP_TOTAL_SIZE_MAX = 65535"
definition IP_PAYLOAD_SIZE_MAX :: nat where "IP_PAYLOAD_SIZE_MAX = IP_TOTAL_SIZE_MAX - IP_HDR_SIZE_MIN"
definition IP_ADDR_STR_LEN :: nat where "IP_ADDR_STR_LEN = 16"
definition IP_ENDPOINT_STR_LEN :: nat where "IP_ENDPOINT_STR_LEN = IP_ADDR_STR_LEN + 6"
definition IP_PROTOCOL_ICMP :: u8 where "IP_PROTOCOL_ICMP = 0x01"
definition IP_PROTOCOL_TCP :: u8 where "IP_PROTOCOL_TCP = 0x06"
definition IP_PROTOCOL_UDP :: u8 where "IP_PROTOCOL_UDP = 0x11"


subsection \<open>Addresses\<close>

text \<open>
  The loop of \<open>ip_addr_pton\<close> with \<open>k\<close> numbers left: \<open>n\<close> is the memory of the result, whose bytes are stored one by one also when
  the function fails later. \<open>None\<close> is undefined behaviour (a number that overflows); the flag tells success from -1.
\<close>

fun pton_loop :: "nat \<Rightarrow> bytes \<Rightarrow> bytes \<Rightarrow> (bool \<times> bytes) option" where
  "pton_loop 0 sp n = Some (True, n)"
| "pton_loop (Suc k) sp n = (case strtol sp 10 of
       None \<Rightarrow> None
     | Some (ret, ep) \<Rightarrow>
       if ret < 0 \<or> 255 < ret then Some (False, n)
       else if ep = sp then Some (False, n)
       else if (if k = 0 then ep \<noteq> [] else ep = [] \<or> hd ep \<noteq> 46) then Some (False, n)
       else pton_loop k (tl ep) (n[3 - k := word_of_int ret]))"

definition ip_addr_pton :: "bytes \<Rightarrow> u32 \<Rightarrow> (bool \<times> u32) option" where
  "ip_addr_pton p old = (case pton_loop 4 p (le32 old) of None \<Rightarrow> None | Some (ok, n) \<Rightarrow> Some (ok, get32 n 0))"

definition ascii :: "string \<Rightarrow> bytes" where
  "ascii s = map (\<lambda>c. of_nat (of_char c)) s"

definition ip_addr_ntop :: "u32 \<Rightarrow> nat \<Rightarrow> bytes option" where
  "ip_addr_ntop n sz = snprintf sz (ascii ''%d.%d.%d.%d'') (map (\<lambda>b. FWord (ucast b)) (le32 n))"

text \<open>The address part is copied into a buffer of \<open>IP_ADDR_STR_LEN\<close> zero bytes; an address that fills or overflows it is undefined behaviour.\<close>

definition ip_endpoint_pton :: "bytes \<Rightarrow> ip_endpoint option option" where
  "ip_endpoint_pton p = (case strrchr p 58 of
       None \<Rightarrow> Some None
     | Some k \<Rightarrow>
       if IP_ADDR_STR_LEN \<le> k then None
       else (case ip_addr_pton (take k p) 0 of
         None \<Rightarrow> None | Some (False, _) \<Rightarrow> Some None
       | Some (True, a) \<Rightarrow> (case strtol (drop (k + 1) p) 10 of
           None \<Rightarrow> None
         | Some (port, _) \<Rightarrow> if port \<le> 0 \<or> 65535 < port then Some None
             else Some (Some \<lparr>ep_addr = a, ep_port = hton16 (word_of_int port)\<rparr>))))"

text \<open>With a buffer of no bytes nothing is written, and \<open>strlen\<close> then reads whatever is there, which is undefined.\<close>

definition ip_endpoint_ntop :: "ip_endpoint \<Rightarrow> nat \<Rightarrow> bytes option" where
  "ip_endpoint_ntop n sz = (if sz = 0 then None else case ip_addr_ntop (ep_addr n) sz of
       None \<Rightarrow> None
     | Some s \<Rightarrow> (case snprintf (sz - length s) (ascii '':%d'') [FWord (ucast (ntoh16 (ep_port n)))] of None \<Rightarrow> None | Some t \<Rightarrow> Some (s @ t)))"


subsection \<open>Routes and interfaces\<close>

definition ip_route_add :: "nenv \<Rightarrow> u32 \<Rightarrow> u32 \<Rightarrow> u32 \<Rightarrow> nat \<Rightarrow> (nstate, bool) kop" where
  "ip_route_add e network netmask nexthop f = kbind (memory_alloc e 20) (\<lambda>ok. if \<not> ok then kreturn False
     else kthen (kmod (\<lambda>s. s\<lparr>ip_routes := \<lparr>rt_network = network, rt_netmask = netmask, rt_nexthop = nexthop, rt_iface = f\<rparr> # ip_routes s\<rparr>)) (kreturn True))"

primrec route_scan :: "u32 \<Rightarrow> ip_route list \<Rightarrow> ip_route option \<Rightarrow> ip_route option" where
  "route_scan dst [] candidate = candidate"
| "route_scan dst (r # rs) candidate = route_scan dst rs
     (if dst AND rt_netmask r = rt_network r then
        (case candidate of None \<Rightarrow> Some r
         | Some c \<Rightarrow> if ntoh32 (rt_netmask c) < ntoh32 (rt_netmask r) then Some r else candidate)
      else candidate)"

definition ip_route_lookup :: "u32 \<Rightarrow> nstate \<Rightarrow> ip_route option" where
  "ip_route_lookup dst s = route_scan dst (ip_routes s) None"

definition ip_route_set_default_gateway :: "nenv \<Rightarrow> nat \<Rightarrow> bytes \<Rightarrow> (nstate, int) kop" where
  "ip_route_set_default_gateway e f gateway = kbind (kopt (ip_addr_pton gateway 0)) (\<lambda>(ok, gw).
     if \<not> ok then kreturn (- 1)
     else kbind (ip_route_add e IP_ADDR_ANY IP_ADDR_ANY gw f) (\<lambda>ok. kreturn (if ok then 0 else - 1)))"

definition ip_route_remove_for_iface :: "nat \<Rightarrow> (nstate, unit) kop" where
  "ip_route_remove_for_iface f = kmod (\<lambda>s. s\<lparr>ip_routes := filter (\<lambda>r. rt_iface r \<noteq> f) (ip_routes s)\<rparr>)"

text \<open>Reading the two addresses of an interface in place: what was stored before an error stays.\<close>

definition iface_addrs :: "nat \<Rightarrow> bytes \<Rightarrow> bytes \<Rightarrow> (nstate, bool) kop" where
  "iface_addrs f unicast netmask = kbind (kget (\<lambda>s. n_if s f)) (\<lambda>x.
     kbind (kopt (ip_addr_pton unicast (if_unicast x))) (\<lambda>(ok, u). kthen (kmod (set_if f (\<lambda>x. x\<lparr>if_unicast := u\<rparr>)))
     (if \<not> ok then kreturn False
      else kbind (kopt (ip_addr_pton netmask (if_netmask x))) (\<lambda>(ok, m). kthen (kmod (set_if f (\<lambda>x. x\<lparr>if_netmask := m\<rparr>)))
        (if \<not> ok then kreturn False
         else kthen (kmod (set_if f (\<lambda>x. x\<lparr>if_broadcast := (if_unicast x AND if_netmask x) OR NOT (if_netmask x)\<rparr>))) (kreturn True))))))"

definition connected_route :: "nenv \<Rightarrow> nat \<Rightarrow> (nstate, bool) kop" where
  "connected_route e f = kbind (kget (\<lambda>s. n_if s f)) (\<lambda>x. ip_route_add e (if_unicast x AND if_netmask x) (if_netmask x) IP_ADDR_ANY f)"

definition ip_iface_reconfigure :: "nenv \<Rightarrow> nat \<Rightarrow> bytes \<Rightarrow> bytes \<Rightarrow> bytes \<Rightarrow> (nstate, int) kop" where
  "ip_iface_reconfigure e f unicast netmask gateway =
     kthen (ip_route_remove_for_iface f) (kbind (iface_addrs f unicast netmask) (\<lambda>ok. if \<not> ok then kreturn (- 1)
     else kbind (connected_route e f) (\<lambda>ok. if \<not> ok then kreturn (- 1) else ip_route_set_default_gateway e f gateway)))"

definition ip_route_get_iface :: "u32 \<Rightarrow> nstate \<Rightarrow> nat option" where
  "ip_route_get_iface dst s = map_option rt_iface (ip_route_lookup dst s)"

definition ip_iface_alloc :: "nenv \<Rightarrow> bytes \<Rightarrow> bytes \<Rightarrow> (nstate, nat option) kop" where
  "ip_iface_alloc e unicast netmask = kbind (memory_alloc e 28) (\<lambda>ok. if \<not> ok then kreturn None
     else kbind (kget n_nif) (\<lambda>f.
       kthen (kmod (\<lambda>s. set_if f (\<lambda>_. \<lparr>if_dev = None, if_family = NET_IFACE_FAMILY_IP, if_unicast = 0, if_netmask = 0, if_broadcast = 0\<rparr>) (s\<lparr>n_nif := f + 1\<rparr>)))
       (kbind (iface_addrs f unicast netmask) (\<lambda>ok. kreturn (if ok then Some f else None)))))"

definition ip_iface_register :: "nenv \<Rightarrow> nat \<Rightarrow> nat \<Rightarrow> (nstate, int) kop" where
  "ip_iface_register e i f = kbind (net_device_add_iface i f) (\<lambda>r. if r = - 1 then kreturn (- 1)
     else kbind (connected_route e f) (\<lambda>ok. if \<not> ok then kreturn (- 1)
     else kthen (kmod (\<lambda>s. s\<lparr>ip_ifaces := f # ip_ifaces s\<rparr>)) (kreturn 0)))"

definition ip_iface_select :: "u32 \<Rightarrow> nstate \<Rightarrow> nat option" where
  "ip_iface_select a s = find (\<lambda>f. if_unicast (n_if s f) = a) (ip_ifaces s)"

definition ip_protocol_register :: "nenv \<Rightarrow> u8 \<Rightarrow> iphandler \<Rightarrow> (nstate, int) kop" where
  "ip_protocol_register e ty h = kbind (kget ip_protocols) (\<lambda>ps.
     if ty \<in> set (map fst ps) then kreturn (- 1)
     else kbind (memory_alloc e 28) (\<lambda>ok. if \<not> ok then kreturn (- 1)
       else kthen (kmod (\<lambda>s. s\<lparr>ip_protocols := (ty, h) # ps\<rparr>)) (kreturn 0)))"


subsection \<open>Datagrams\<close>

text \<open>The header without options.\<close>

record ip_hdr =
  ih_vhl :: u8
  ih_tos :: u8
  ih_total :: u16
  ih_id :: u16
  ih_offset :: u16
  ih_ttl :: u8
  ih_protocol :: u8
  ih_sum :: u16
  ih_src :: u32
  ih_dst :: u32

definition ip_hdr_bytes :: "ip_hdr \<Rightarrow> bytes" where
  "ip_hdr_bytes h = ([ih_vhl h, ih_tos h] @ le16 (ih_total h) @ le16 (ih_id h) @ le16 (ih_offset h) @ [ih_ttl h, ih_protocol h])
     @ le16 (ih_sum h) @ le32 (ih_src h) @ le32 (ih_dst h)"

definition ip_output_device :: "nenv \<Rightarrow> (nstate, unit) kop \<Rightarrow> nat \<Rightarrow> bytes \<Rightarrow> u32 \<Rightarrow> (nstate, int) kop" where
  "ip_output_device e ph f data nexthop_l2 = kbind (kget id) (\<lambda>s. case if_dev (n_if s f) of
       None \<Rightarrow> kundef
     | Some i \<Rightarrow>
       if nd_flags (n_dev s i) AND NET_DEVICE_FLAG_NEED_ARP \<noteq> 0 then
         if nexthop_l2 = if_broadcast (n_if s f) \<or> nexthop_l2 = IP_ADDR_BROADCAST then
           net_device_output e ph i NET_PROTOCOL_TYPE_IP data
             (splice (replicate NET_DEVICE_ADDR_LEN 0) 0 (take (unat (nd_alen (n_dev s i))) (nd_broadcast (n_dev s i))))
         else kbind (arp_resolve e ph f i nexthop_l2) (\<lambda>r. case r of
             ARP_RESOLVE_FOUND ha \<Rightarrow> net_device_output e ph i NET_PROTOCOL_TYPE_IP data (splice (replicate NET_DEVICE_ADDR_LEN 0) 0 ha)
           | _ \<Rightarrow> kreturn (- 1))
       else net_device_output e ph i NET_PROTOCOL_TYPE_IP data (replicate NET_DEVICE_ADDR_LEN 0))"

text \<open>The header with its checksum, followed by the data; \<open>None\<close> never occurs, the checksum covers the header only.\<close>

definition ip_datagram :: "u8 \<Rightarrow> bytes \<Rightarrow> u32 \<Rightarrow> u32 \<Rightarrow> u16 \<Rightarrow> u16 \<Rightarrow> bytes option" where
  "ip_datagram protocol data src dst i offset =
     (let hlen = 20 :: u16; total = hlen + of_nat (length data);
          h = \<lparr>ih_vhl = push_bit 4 IP_VERSION_IPV4 OR ucast (drop_bit 2 hlen), ih_tos = 0, ih_total = hton16 total, ih_id = hton16 i,
               ih_offset = hton16 offset, ih_ttl = 0xff, ih_protocol = protocol, ih_sum = 0, ih_src = src, ih_dst = dst\<rparr> in
      case cksum16 (ip_hdr_bytes h) hlen 0 of None \<Rightarrow> None | Some c \<Rightarrow> Some (ip_hdr_bytes (h\<lparr>ih_sum := c\<rparr>) @ data))"

definition ip_output_core :: "nenv \<Rightarrow> (nstate, unit) kop \<Rightarrow> nat \<Rightarrow> u8 \<Rightarrow> bytes \<Rightarrow> u32 \<Rightarrow> u32 \<Rightarrow> u32 \<Rightarrow> u16 \<Rightarrow> u16 \<Rightarrow> (nstate, int) kop" where
  "ip_output_core e ph f protocol data src dst nexthop i offset =
     (if IP_PAYLOAD_SIZE_MAX < length data then kundef
      else kbind (kopt (ip_datagram protocol data src dst i offset)) (\<lambda>buf. ip_output_device e ph f buf nexthop))"

definition ip_generate_id :: "(nstate, u16) kop" where
  "ip_generate_id = kbind (kget ip_id_counter) (\<lambda>r. kthen (kmod (\<lambda>s. s\<lparr>ip_id_counter := r + 1\<rparr>)) (kreturn r))"

definition ip_output :: "nenv \<Rightarrow> (nstate, unit) kop \<Rightarrow> u8 \<Rightarrow> bytes \<Rightarrow> u32 \<Rightarrow> u32 \<Rightarrow> (nstate, int) kop" where
  "ip_output e ph protocol data src dst =
     (if src = IP_ADDR_ANY \<and> dst = IP_ADDR_BROADCAST then kreturn (- 1)
      else kbind (kget id) (\<lambda>s. case ip_route_lookup dst s of
        None \<Rightarrow> kreturn (- 1)
      | Some r \<Rightarrow>
        let f = rt_iface r; x = n_if s f in
        if src \<noteq> IP_ADDR_ANY \<and> src \<noteq> if_unicast x then kreturn (- 1)
        else let nexthop = (if rt_nexthop r \<noteq> IP_ADDR_ANY then rt_nexthop r else dst) in
          case if_dev x of None \<Rightarrow> kundef
          | Some i \<Rightarrow>
            if unat (nd_mtu (n_dev s i)) < IP_HDR_SIZE_MIN + length data then kreturn (- 1)
            else kbind ip_generate_id (\<lambda>i.
              kbind (ip_output_core e ph f protocol data (if_unicast x) dst nexthop i 0) (\<lambda>r.
              kreturn (if r = - 1 then - 1 else int (length data))))))"

text \<open>What \<open>ip_input\<close> passes to the handler of the protocol: the rest of the message, its length as computed, source, destination and interface.\<close>

definition ip_input :: "(iphandler \<Rightarrow> bytes \<Rightarrow> u32 \<Rightarrow> u32 \<Rightarrow> u32 \<Rightarrow> nat \<Rightarrow> (nstate, unit) kop) \<Rightarrow> bytes \<Rightarrow> nat \<Rightarrow> (nstate, unit) kop" where
  "ip_input handler data i =
     (if length data < IP_HDR_SIZE_MIN then kreturn ()
      else if drop_bit 4 (data ! 0) \<noteq> IP_VERSION_IPV4 then kreturn ()
      else let hlen = push_bit 2 (ucast (data ! 0 AND 0x0f)) :: u16 in
        if length data < unat hlen then kreturn ()
        else let total = ntoh16 (get16 data 2) in
          if length data < unat total then kreturn ()
          else kbind (cksum data hlen 0) (\<lambda>c. if c \<noteq> 0 then kreturn ()
          else let offset = ntoh16 (get16 data 6) in
            if offset AND 0x2000 \<noteq> 0 \<or> offset AND 0x1fff \<noteq> 0 then kreturn ()
            else kbind (kget id) (\<lambda>s. case net_device_get_iface i NET_IFACE_FAMILY_IP s of
              None \<Rightarrow> kreturn ()
            | Some f \<Rightarrow>
              let src = get32 data 12; dst = get32 data 16 in
              if dst \<noteq> if_unicast (n_if s f) \<and> dst \<noteq> if_broadcast (n_if s f) \<and> dst \<noteq> IP_ADDR_BROADCAST then kreturn ()
              else (case find (\<lambda>p. fst p = data ! 9) (ip_protocols s) of
                None \<Rightarrow> kreturn ()
              | Some (_, h) \<Rightarrow> handler h (drop (unat hlen) data) (ucast total - ucast hlen) src dst f))))"

definition ip_init :: "nenv \<Rightarrow> (nstate, int) kop" where
  "ip_init e = kbind (net_protocol_register e NET_PROTOCOL_TYPE_IP H_IP) (\<lambda>r. kreturn (if r = - 1 then - 1 else 0))"


subsection \<open>Control messages\<close>

definition ICMP_TYPE_ECHOREPLY :: u8 where "ICMP_TYPE_ECHOREPLY = 0"
definition ICMP_TYPE_ECHO :: u8 where "ICMP_TYPE_ECHO = 8"

definition icmp_msg :: "u8 \<Rightarrow> u8 \<Rightarrow> u16 \<Rightarrow> u32 \<Rightarrow> bytes \<Rightarrow> bytes" where
  "icmp_msg ty code sm values data = [ty, code] @ le16 sm @ le32 values @ data"

definition icmp_output :: "nenv \<Rightarrow> (nstate, unit) kop \<Rightarrow> u8 \<Rightarrow> u8 \<Rightarrow> u32 \<Rightarrow> bytes \<Rightarrow> u32 \<Rightarrow> u32 \<Rightarrow> (nstate, int) kop" where
  "icmp_output e ph ty code values data src dst =
     (if IP_PAYLOAD_SIZE_MAX < 8 + length data then kundef
      else kbind (cksum (icmp_msg ty code 0 values data) (of_nat (8 + length data)) 0) (\<lambda>c.
        ip_output e ph IP_PROTOCOL_ICMP (icmp_msg ty code c values data) src dst))"

definition sirpair_on_icmp_echoreply :: "u16 \<Rightarrow> u16 \<Rightarrow> (nstate, unit) kop" where
  "sirpair_on_icmp_echoreply ident seq = kmod (\<lambda>s.
     if ping_wait s \<and> ident = ping_id s \<and> seq = ping_seq s then s\<lparr>ping_got := True\<rparr> else s)"

definition icmp_input :: "nenv \<Rightarrow> (nstate, unit) kop \<Rightarrow> bytes \<Rightarrow> u32 \<Rightarrow> u32 \<Rightarrow> u32 \<Rightarrow> nat \<Rightarrow> (nstate, unit) kop" where
  "icmp_input e ph data len src dst f =
     (if len < 8 then kreturn ()
      else kbind (cksum data (ucast len) 0) (\<lambda>c. if c \<noteq> 0 then kreturn ()
      else kbind (rd8 data 0) (\<lambda>ty.
        if ty = ICMP_TYPE_ECHOREPLY then
          kbind (rd16 data 4) (\<lambda>ident. kbind (rd16 data 6) (\<lambda>seq. sirpair_on_icmp_echoreply (ntoh16 ident) (ntoh16 seq)))
        else if ty = ICMP_TYPE_ECHO then
          kbind (kget (\<lambda>s. if_unicast (n_if s f))) (\<lambda>u.
          kbind (rd8 data 1) (\<lambda>code. kbind (rd32 data 4) (\<lambda>values. kbind (rdn data 8 (unat (len - 8))) (\<lambda>d.
          kthen (icmp_output e ph ICMP_TYPE_ECHOREPLY code values d (if dst \<noteq> u then u else dst) src) (kreturn ())))))
        else kreturn ())))"

definition icmp_init :: "nenv \<Rightarrow> (nstate, int) kop" where
  "icmp_init e = kbind (ip_protocol_register e IP_PROTOCOL_ICMP H_ICMP) (\<lambda>r. kreturn (if r = - 1 then - 1 else 0))"

end
