(* ===== verification/Udp.thy ===== *)
theory Udp
  imports Ip
begin

section \<open>Datagram sockets (\<open>microps/udp.c\<close>)\<close>

text \<open>
  Control blocks with their receive queues, input, output and the user commands. \<open>udp_recvfrom\<close> waits for a datagram: \<open>NWait\<close> is the point where
  the process sleeps, and \<open>udp_recv_woken\<close> is what runs when it is woken up.
\<close>

unbundle bit_operations_syntax

definition UDP_PCB_SIZE :: nat where "UDP_PCB_SIZE = 16"
definition UDP_SOURCE_PORT_MIN :: nat where "UDP_SOURCE_PORT_MIN = 49152"
definition UDP_SOURCE_PORT_MAX :: nat where "UDP_SOURCE_PORT_MAX = 65535"

definition set_udp :: "nat \<Rightarrow> (udp_pcb \<Rightarrow> udp_pcb) \<Rightarrow> nstate \<Rightarrow> nstate" where
  "set_udp i f s = s\<lparr>udp_pcbs := (udp_pcbs s)[i := f (udp_pcbs s ! i)]\<rparr>"

definition udp_pcb_alloc :: "(nstate, nat option) kop" where
  "udp_pcb_alloc = kbind (kget (\<lambda>s. find (\<lambda>i. up_state (udp_pcbs s ! i) = UDP_FREE) [0..<length (udp_pcbs s)])) (\<lambda>r. case r of
       None \<Rightarrow> kreturn None
     | Some i \<Rightarrow> kthen (kmod (set_udp i (\<lambda>p. p\<lparr>up_state := UDP_OPEN, up_ctx := sched_ctx_init\<rparr>))) (kreturn (Some i)))"

text \<open>Popping until the queue is empty leaves the counter reduced by the number of entries.\<close>

definition udp_pcb_release :: "udp_pcb \<Rightarrow> udp_pcb" where
  "udp_pcb_release p = p\<lparr>up_state := UDP_FREE, up_local := \<lparr>ep_addr = IP_ADDR_ANY, ep_port = 0\<rparr>,
     up_queue := \<lparr>q_items = [], q_num = q_num (up_queue p) - of_nat (length (q_items (up_queue p)))\<rparr>\<rparr>"

definition udp_pcb_select :: "u32 \<Rightarrow> u16 \<Rightarrow> nstate \<Rightarrow> nat option" where
  "udp_pcb_select a port s = find (\<lambda>i. let p = udp_pcbs s ! i in up_state p = UDP_OPEN
       \<and> (ep_addr (up_local p) = IP_ADDR_ANY \<or> ep_addr (up_local p) = a) \<and> ep_port (up_local p) = port) [0..<length (udp_pcbs s)]"

definition udp_pcb_get :: "int \<Rightarrow> nstate \<Rightarrow> nat option" where
  "udp_pcb_get i s = (if i < 0 \<or> int (length (udp_pcbs s)) \<le> i then None
     else if up_state (udp_pcbs s ! nat i) \<noteq> UDP_OPEN then None else Some (nat i))"

definition pseudo_hdr :: "u32 \<Rightarrow> u32 \<Rightarrow> u8 \<Rightarrow> u16 \<Rightarrow> bytes" where
  "pseudo_hdr src dst protocol len = le32 src @ le32 dst @ [0, protocol] @ le16 (hton16 len)"

text \<open>The sum over the pseudo header with which the checksum of the segment starts.\<close>

definition psum :: "u32 \<Rightarrow> u32 \<Rightarrow> u8 \<Rightarrow> u16 \<Rightarrow> ('s, u32) kop" where
  "psum src dst protocol len = kbind (cksum (pseudo_hdr src dst protocol len) 12 0) (\<lambda>c. kreturn (ucast (NOT c)))"

definition udp_msg :: "u16 \<Rightarrow> u16 \<Rightarrow> u16 \<Rightarrow> u16 \<Rightarrow> bytes \<Rightarrow> bytes" where
  "udp_msg src dst len sm data = (le16 src @ le16 dst @ le16 len) @ le16 sm @ data"

definition udp_input :: "nenv \<Rightarrow> bytes \<Rightarrow> u32 \<Rightarrow> u32 \<Rightarrow> u32 \<Rightarrow> nat \<Rightarrow> (nstate, unit) kop" where
  "udp_input e data len src dst f =
     (if len < 8 then kreturn ()
      else kbind (rd16 data 4) (\<lambda>hl. if len \<noteq> ucast (ntoh16 hl) then kreturn ()
      else kbind (psum src dst IP_PROTOCOL_UDP (ucast len)) (\<lambda>ps.
        kbind (cksum data (ucast len) ps) (\<lambda>c. if c \<noteq> 0 then kreturn ()
        else kbind (rd16 data 0) (\<lambda>sport. kbind (rd16 data 2) (\<lambda>dport.
          kbind (kget (udp_pcb_select dst dport)) (\<lambda>r. case r of
            None \<Rightarrow> kreturn ()
          | Some i \<Rightarrow>
            kbind (memory_alloc e (12 + unat (len - 8))) (\<lambda>ok. if \<not> ok then kreturn ()
            else kbind (rdn data 8 (unat (len - 8))) (\<lambda>d.
              kbind (memory_alloc e 8) (\<lambda>ok.
              kbind (kget (\<lambda>s. queue_push ok (up_queue (udp_pcbs s ! i)) (\<lparr>ep_addr = src, ep_port = sport\<rparr>, d))) (\<lambda>(pushed, q).
              if \<not> pushed then kreturn ()
              else kthen (kmod (set_udp i (\<lambda>p. p\<lparr>up_queue := q\<rparr>))) (sched_wakeup (WUdp i)))))))))))))"

definition udp_output :: "nenv \<Rightarrow> (nstate, unit) kop \<Rightarrow> ip_endpoint \<Rightarrow> ip_endpoint \<Rightarrow> bytes \<Rightarrow> (nstate, int) kop" where
  "udp_output e ph src dst data =
     (if IP_PAYLOAD_SIZE_MAX - 8 < length data then kreturn (- 1)
      else let total = of_nat (8 + length data) :: u16 in
        kbind (psum (ep_addr src) (ep_addr dst) IP_PROTOCOL_UDP total) (\<lambda>ps.
        kbind (cksum (udp_msg (ep_port src) (ep_port dst) (hton16 total) 0 data) total ps) (\<lambda>c.
        kbind (ip_output e ph IP_PROTOCOL_UDP (udp_msg (ep_port src) (ep_port dst) (hton16 total) c data) (ep_addr src) (ep_addr dst)) (\<lambda>r.
        kreturn (if r = - 1 then - 1 else int (length data))))))"

text \<open>\<open>sched_interrupt\<close> on every open control block.\<close>

definition udp_event_handler :: "(nstate, unit) kop" where
  "udp_event_handler = kmod (\<lambda>s. s\<lparr>udp_pcbs := map (\<lambda>p. if up_state p = UDP_OPEN then p\<lparr>up_ctx := (up_ctx p)\<lparr>cx_interrupted := True\<rparr>\<rparr> else p) (udp_pcbs s),
     n_woken := n_woken s @ map WUdp (filter (\<lambda>i. up_state (udp_pcbs s ! i) = UDP_OPEN) [0..<length (udp_pcbs s)])\<rparr>)"

definition udp_init :: "nenv \<Rightarrow> (nstate, int) kop" where
  "udp_init e = kbind (ip_protocol_register e IP_PROTOCOL_UDP H_UDP) (\<lambda>r. if r = - 1 then kreturn (- 1)
     else kthen (net_event_subscribe e E_UDP) (kreturn 0))"

definition udp_open :: "(nstate, int) kop" where
  "udp_open = kbind udp_pcb_alloc (\<lambda>r. kreturn (case r of None \<Rightarrow> - 1 | Some i \<Rightarrow> int i))"

definition udp_close :: "int \<Rightarrow> (nstate, int) kop" where
  "udp_close i = kbind (kget (udp_pcb_get i)) (\<lambda>r. case r of
       None \<Rightarrow> kreturn (- 1)
     | Some j \<Rightarrow> kthen (kmod (set_udp j udp_pcb_release)) (kreturn 0))"

definition udp_bind :: "int \<Rightarrow> ip_endpoint \<Rightarrow> (nstate, int) kop" where
  "udp_bind i local = kbind (kget id) (\<lambda>s. case udp_pcb_get i s of
       None \<Rightarrow> kreturn (- 1)
     | Some j \<Rightarrow> (case udp_pcb_select (ep_addr local) (ep_port local) s of
         Some _ \<Rightarrow> kreturn (- 1)
       | None \<Rightarrow> kthen (kmod (set_udp j (\<lambda>p. p\<lparr>up_local := local\<rparr>))) (kreturn 0)))"

text \<open>The first port of the dynamic range, in network order, that no control block uses.\<close>

definition udp_free_port :: "u32 \<Rightarrow> nstate \<Rightarrow> u16 option" where
  "udp_free_port a s = map_option (\<lambda>p. hton16 (of_nat p))
     (find (\<lambda>p. udp_pcb_select a (hton16 (of_nat p)) s = None) [UDP_SOURCE_PORT_MIN..<UDP_SOURCE_PORT_MAX + 1])"

definition udp_sendto :: "nenv \<Rightarrow> (nstate, unit) kop \<Rightarrow> int \<Rightarrow> bytes \<Rightarrow> ip_endpoint \<Rightarrow> (nstate, int) kop" where
  "udp_sendto e ph i data foreign = kbind (kget id) (\<lambda>s. case udp_pcb_get i s of
       None \<Rightarrow> kreturn (- 1)
     | Some j \<Rightarrow>
       let p = udp_pcbs s ! j;
           a = (if ep_addr (up_local p) \<noteq> IP_ADDR_ANY then Some (ep_addr (up_local p))
                else map_option (\<lambda>f. if_unicast (n_if s f)) (ip_route_get_iface (ep_addr foreign) s)) in
       case a of None \<Rightarrow> kreturn (- 1)
       | Some a \<Rightarrow>
         (case (if ep_port (up_local p) \<noteq> 0 then Some (ep_port (up_local p)) else udp_free_port a s) of
            None \<Rightarrow> kreturn (- 1)
          | Some port \<Rightarrow>
            kthen (kmod (set_udp j (\<lambda>p. p\<lparr>up_local := (up_local p)\<lparr>ep_port := port\<rparr>\<rparr>)))
            (udp_output e ph \<lparr>ep_addr = a, ep_port = port\<rparr> foreign data)))"

text \<open>Waiting for a datagram: the result is the length, the bytes copied and the sender.\<close>

definition udp_recv_loop :: "nenv \<Rightarrow> nat \<Rightarrow> nat \<Rightarrow> (nstate, (int \<times> bytes \<times> ip_endpoint option) nres) kop" where
  "udp_recv_loop e j sz = kbind (kget (\<lambda>s. udp_pcbs s ! j)) (\<lambda>p. case queue_pop (up_queue p) of
       (Some (foreign, d), q) \<Rightarrow> kthen (kmod (set_udp j (\<lambda>p. p\<lparr>up_queue := q\<rparr>)))
          (kreturn (NDone (int (min sz (length d)), take sz d, Some foreign)))
     | (None, _) \<Rightarrow> (case sched_sleep e (up_ctx p) of
          None \<Rightarrow> kreturn (NDone (- 1, [], None))
        | Some c \<Rightarrow> kthen (kmod (set_udp j (\<lambda>p. p\<lparr>up_ctx := c\<rparr>))) (kreturn NWait)))"

definition udp_recv_woken :: "nenv \<Rightarrow> nat \<Rightarrow> nat \<Rightarrow> (nstate, (int \<times> bytes \<times> ip_endpoint option) nres) kop" where
  "udp_recv_woken e j sz = kbind (kget (\<lambda>s. udp_pcbs s ! j)) (\<lambda>p. case sched_woken e (up_ctx p) of (ok, c) \<Rightarrow>
     kthen (kmod (set_udp j (\<lambda>p. p\<lparr>up_ctx := c\<rparr>)))
     (if \<not> ok then kreturn (NDone (- 1, [], None))
      else if up_state p = UDP_CLOSING then kthen (kmod (set_udp j udp_pcb_release)) (kreturn (NDone (- 1, [], None)))
      else udp_recv_loop e j sz))"

definition udp_recvfrom :: "nenv \<Rightarrow> int \<Rightarrow> nat \<Rightarrow> (nstate, (int \<times> bytes \<times> ip_endpoint option) nres) kop" where
  "udp_recvfrom e i sz = kbind (kget (udp_pcb_get i)) (\<lambda>r. case r of
       None \<Rightarrow> kreturn (NDone (- 1, [], None))
     | Some j \<Rightarrow> udp_recv_loop e j sz)"

definition udp_sock_has_datagram :: "int \<Rightarrow> nstate \<Rightarrow> int" where
  "udp_sock_has_datagram i s = (case udp_pcb_get i s of None \<Rightarrow> - 1
     | Some j \<Rightarrow> if queue_peek (up_queue (udp_pcbs s ! j)) \<noteq> None then 1 else 0)"

end
