(* ===== verification/Tcp.thy ===== *)
theory Tcp
  imports Udp
begin

section \<open>Stream sockets (\<open>microps/tcp.c\<close>)\<close>

text \<open>
  The control blocks, the retransmission queue, the processing of an arriving segment step by step as the sources (and RFC 793) have
  it, the timer, and the user commands. Sequence numbers are 32-bit words and compared as such. The receive buffer is the array of 65535
  bytes whose first 65535 - \<open>rcv_wnd\<close> bytes are waiting for the user. Sending can run the protocol handlers again (\<open>ph\<close>), so that fields are read
  from the state whenever the code reads them. Calls that wait return \<open>Inr\<close> with their local variables where the process sleeps.
\<close>

unbundle bit_operations_syntax

definition TCP_FLG_FIN :: u8 where "TCP_FLG_FIN = 0x01"
definition TCP_FLG_SYN :: u8 where "TCP_FLG_SYN = 0x02"
definition TCP_FLG_RST :: u8 where "TCP_FLG_RST = 0x04"
definition TCP_FLG_PSH :: u8 where "TCP_FLG_PSH = 0x08"
definition TCP_FLG_ACK :: u8 where "TCP_FLG_ACK = 0x10"

definition TCP_FLG_ISSET :: "u8 \<Rightarrow> u8 \<Rightarrow> bool" where
  "TCP_FLG_ISSET x y \<longleftrightarrow> (x AND 0x3f) AND y \<noteq> 0"

definition TCP_PCB_SIZE :: nat where "TCP_PCB_SIZE = 16"
definition TCP_BUF_SIZE :: nat where "TCP_BUF_SIZE = 65535"
definition TCP_DEFAULT_RTO :: u32 where "TCP_DEFAULT_RTO = 200000"
definition TCP_RETRANSMIT_DEADLINE :: int where "TCP_RETRANSMIT_DEADLINE = 12"
definition TCP_CONNECT_TIMEOUT_TICKS :: u32 where "TCP_CONNECT_TIMEOUT_TICKS = 3000"
definition TCP_TIMEWAIT_SEC :: int where "TCP_TIMEWAIT_SEC = 30"
definition TCP_SOURCE_PORT_MIN :: nat where "TCP_SOURCE_PORT_MIN = 49152"
definition TCP_SOURCE_PORT_MAX :: nat where "TCP_SOURCE_PORT_MAX = 65535"

record tcp_segment_info =
  sg_seq :: u32
  sg_ack :: u32
  sg_len :: u16
  sg_wnd :: u16
  sg_up :: u16


subsection \<open>Control blocks\<close>

definition set_tcp :: "nat \<Rightarrow> (tcp_pcb \<Rightarrow> tcp_pcb) \<Rightarrow> nstate \<Rightarrow> nstate" where
  "set_tcp i f s = s\<lparr>tcp_pcbs := (tcp_pcbs s)[i := f (tcp_pcbs s ! i)]\<rparr>"

text \<open>\<open>memset(pcb, 0, sizeof(*pcb))\<close>.\<close>

definition tcp_pcb_zero :: tcp_pcb where
  "tcp_pcb_zero = \<lparr>tp_state = TCP_FREE, tp_mode = TCP_MODE_NONE, tp_local = \<lparr>ep_addr = 0, ep_port = 0\<rparr>, tp_foreign = \<lparr>ep_addr = 0, ep_port = 0\<rparr>,
     snd_nxt = 0, snd_una = 0, snd_wnd = 0, snd_up = 0, snd_wl1 = 0, snd_wl2 = 0, tp_iss = 0, rcv_nxt = 0, rcv_wnd = 0, rcv_up = 0, tp_irs = 0,
     tp_buf = replicate TCP_BUF_SIZE 0, tp_ctx = \<lparr>cx_interrupted = False, cx_wc = 0\<rparr>, tp_queue = queue_init, tp_tw = timerclear, tp_parent = None,
     tp_backlog = queue_init\<rparr>"

definition tcp_pcb_alloc :: "(nstate, nat option) kop" where
  "tcp_pcb_alloc = kbind (kget (\<lambda>s. find (\<lambda>i. tp_state (tcp_pcbs s ! i) = TCP_FREE) [0..<length (tcp_pcbs s)])) (\<lambda>r. case r of
       None \<Rightarrow> kreturn None
     | Some i \<Rightarrow> kthen (kmod (set_tcp i (\<lambda>p. p\<lparr>tp_state := TCP_CLOSED, tp_ctx := sched_ctx_init\<rparr>))) (kreturn (Some i)))"

text \<open>Releasing a control block releases the connections in its backlog first; the fuel bounds the depth of that recursion.\<close>

fun tcp_pcb_release_n :: "nat \<Rightarrow> nat \<Rightarrow> (nstate, unit) kop" where
  "tcp_pcb_release_n 0 i = kundef"
| "tcp_pcb_release_n (Suc n) i = kbind (kget (\<lambda>s. q_items (tp_backlog (tcp_pcbs s ! i)))) (\<lambda>est.
     kthen (kmod (set_tcp i (\<lambda>p. p\<lparr>tp_queue := queue_init, tp_backlog := queue_init\<rparr>)))
     (kthen (foldr (\<lambda>j m. kthen (tcp_pcb_release_n n j) m) est (kreturn ()))
     (kmod (set_tcp i (\<lambda>_. tcp_pcb_zero)))))"

definition tcp_pcb_release :: "nat \<Rightarrow> (nstate, unit) kop" where
  "tcp_pcb_release i = tcp_pcb_release_n (Suc TCP_PCB_SIZE) i"

text \<open>The last matching listener is remembered while looking for a control block of the connection.\<close>

primrec select_from :: "tcp_pcb list \<Rightarrow> ip_endpoint \<Rightarrow> ip_endpoint option \<Rightarrow> nat list \<Rightarrow> nat option \<Rightarrow> nat option" where
  "select_from ps local foreign [] listener = listener"
| "select_from ps local foreign (i # r) listener =
     (let p = ps ! i in
      if (ep_addr (tp_local p) = IP_ADDR_ANY \<or> ep_addr (tp_local p) = ep_addr local) \<and> ep_port (tp_local p) = ep_port local then
        (case foreign of None \<Rightarrow> Some i
         | Some f \<Rightarrow>
           if ep_addr (tp_foreign p) = ep_addr f \<and> ep_port (tp_foreign p) = ep_port f then Some i
           else select_from ps local foreign r
             (if tp_state p = TCP_LISTEN \<and> ep_addr (tp_foreign p) = IP_ADDR_ANY \<and> ep_port (tp_foreign p) = 0 then Some i else listener))
      else select_from ps local foreign r listener)"

definition tcp_pcb_select :: "ip_endpoint \<Rightarrow> ip_endpoint option \<Rightarrow> nstate \<Rightarrow> nat option" where
  "tcp_pcb_select local foreign s = select_from (tcp_pcbs s) local foreign [0..<length (tcp_pcbs s)] None"

definition tcp_pcb_get :: "int \<Rightarrow> nstate \<Rightarrow> nat option" where
  "tcp_pcb_get i s = (if i < 0 \<or> int (length (tcp_pcbs s)) \<le> i then None
     else if tp_state (tcp_pcbs s ! nat i) = TCP_FREE then None else Some (nat i))"


subsection \<open>Output and retransmission\<close>

definition tcp_retransmit_queue_add :: "nenv \<Rightarrow> nat \<Rightarrow> u32 \<Rightarrow> u8 \<Rightarrow> bytes \<Rightarrow> (nstate, int) kop" where
  "tcp_retransmit_queue_add e i seq flg data = kbind (kget n_allocs) (\<lambda>k.
     kbind (memory_alloc e (32 + length data)) (\<lambda>ok. if \<not> ok then kreturn (- 1)
     else kbind (memory_alloc e 8) (\<lambda>ok.
       kbind (kget (\<lambda>s. queue_push ok (tp_queue (tcp_pcbs s ! i)) \<lparr>tq_id = k, tq_first = gettimeofday (n_ticks s), tq_last = gettimeofday (n_ticks s),
           tq_rto = TCP_DEFAULT_RTO, tq_seq = seq, tq_flg = flg, tq_data = data\<rparr>)) (\<lambda>(pushed, q).
       if \<not> pushed then kreturn (- 1)
       else kthen (kmod (set_tcp i (\<lambda>p. p\<lparr>tp_queue := q\<rparr>))) (kreturn 0)))))"

text \<open>Entries are popped while the first one starts before the acknowledged sequence number.\<close>

fun queue_cleanup :: "u32 \<Rightarrow> tcp_queue_entry list \<Rightarrow> u32 \<Rightarrow> tcp_queue_entry queue_head" where
  "queue_cleanup una [] k = \<lparr>q_items = [], q_num = k\<rparr>"
| "queue_cleanup una (x # xs) k = (if una \<le> tq_seq x then \<lparr>q_items = x # xs, q_num = k\<rparr> else queue_cleanup una xs (k - 1))"

definition tcp_retransmit_queue_cleanup :: "tcp_pcb \<Rightarrow> tcp_pcb" where
  "tcp_retransmit_queue_cleanup p = p\<lparr>tp_queue := queue_cleanup (snd_una p) (q_items (tp_queue p)) (q_num (tp_queue p))\<rparr>"

definition tcp_set_timewait_timer :: "nat \<Rightarrow> (nstate, unit) kop" where
  "tcp_set_timewait_timer i = kmod (\<lambda>s. set_tcp i (\<lambda>p. p\<lparr>tp_tw := (gettimeofday (n_ticks s))\<lparr>tv_sec := tv_sec (gettimeofday (n_ticks s)) + TCP_TIMEWAIT_SEC\<rparr>\<rparr>) s)"

definition tcp_msg :: "u16 \<Rightarrow> u16 \<Rightarrow> u32 \<Rightarrow> u32 \<Rightarrow> u8 \<Rightarrow> u16 \<Rightarrow> u16 \<Rightarrow> bytes \<Rightarrow> bytes" where
  "tcp_msg src dst seq ack flg wnd sm data =
     (le16 src @ le16 dst @ le32 (hton32 seq) @ le32 (hton32 ack) @ [0x50, flg] @ le16 (hton16 wnd)) @ le16 sm @ (le16 0 @ data)"

definition tcp_output_segment :: "nenv \<Rightarrow> (nstate, unit) kop \<Rightarrow> u32 \<Rightarrow> u32 \<Rightarrow> u8 \<Rightarrow> u16 \<Rightarrow> bytes \<Rightarrow> ip_endpoint \<Rightarrow> ip_endpoint \<Rightarrow> (nstate, int) kop" where
  "tcp_output_segment e ph seq ack flg wnd data local foreign =
     (if IP_PAYLOAD_SIZE_MAX < 20 + length data then kundef
      else let total = of_nat (20 + length data) :: u16; msg = (\<lambda>c. tcp_msg (ep_port local) (ep_port foreign) seq ack flg wnd c data) in
        kbind (psum (ep_addr local) (ep_addr foreign) IP_PROTOCOL_TCP total) (\<lambda>ps.
        kbind (cksum (msg 0) total ps) (\<lambda>c.
        kbind (ip_output e ph IP_PROTOCOL_TCP (msg c) (ep_addr local) (ep_addr foreign)) (\<lambda>r.
        kreturn (if r = - 1 then - 1 else int (length data))))))"

definition tcp_output :: "nenv \<Rightarrow> (nstate, unit) kop \<Rightarrow> nat \<Rightarrow> u8 \<Rightarrow> bytes \<Rightarrow> (nstate, int) kop" where
  "tcp_output e ph i flg data = kbind (kget (\<lambda>s. tcp_pcbs s ! i)) (\<lambda>p.
     let seq = (if TCP_FLG_ISSET flg TCP_FLG_SYN then tp_iss p else snd_nxt p) in
     kthen (if TCP_FLG_ISSET flg (TCP_FLG_SYN OR TCP_FLG_FIN) \<or> data \<noteq> [] then kthen (tcp_retransmit_queue_add e i seq flg data) (kreturn ()) else kreturn ())
     (tcp_output_segment e ph seq (rcv_nxt p) flg (rcv_wnd p) data (tp_local p) (tp_foreign p)))"

text \<open>
  \<open>tcp_retransmit_queue_emit\<close> on the entry with identity \<open>x\<close>. Sending may process an acknowledgement that frees the entry; writing to it afterwards is
  undefined behaviour.
\<close>

definition tcp_retransmit_queue_emit :: "nenv \<Rightarrow> (nstate, unit) kop \<Rightarrow> nat \<Rightarrow> tcp_queue_entry \<Rightarrow> (nstate, unit) kop" where
  "tcp_retransmit_queue_emit e ph i x = kbind (kget id) (\<lambda>s. let p = tcp_pcbs s ! i; now = gettimeofday (n_ticks s) in
     if TCP_RETRANSMIT_DEADLINE \<le> tv_sec (timersub now (tq_first x)) then
       kthen (kmod (set_tcp i (\<lambda>p. p\<lparr>tp_state := TCP_CLOSED\<rparr>))) (sched_wakeup (WTcp i))
     else if timer_less (timeval_add_usec (tq_last x) (uint (tq_rto x))) now then
       kthen (tcp_output_segment e ph (tq_seq x) (rcv_nxt p) (tq_flg x) (rcv_wnd p) (tq_data x) (tp_local p) (tp_foreign p))
       (kbind (kget (\<lambda>s. tp_queue (tcp_pcbs s ! i))) (\<lambda>q.
        if tq_id x \<notin> tq_id ` set (q_items q) then kundef
        else kmod (set_tcp i (\<lambda>p. p\<lparr>tp_queue := q\<lparr>q_items := map (\<lambda>y. if tq_id y = tq_id x then y\<lparr>tq_last := now, tq_rto := 2 * tq_rto y\<rparr> else y) (q_items q)\<rparr>\<rparr>))))
     else kreturn ())"

text \<open>\<open>queue_foreach\<close> over the retransmission queue: the entry after \<open>x\<close> is looked up when the callback has returned.\<close>

definition next_entry :: "nat \<Rightarrow> tcp_queue_entry list \<Rightarrow> tcp_queue_entry option option" where
  "next_entry x ys = (case dropWhile (\<lambda>y. tq_id y \<noteq> x) ys of [] \<Rightarrow> None | _ # [] \<Rightarrow> Some None | _ # y # _ \<Rightarrow> Some (Some y))"

fun tcp_emit_from :: "nat \<Rightarrow> nenv \<Rightarrow> (nstate, unit) kop \<Rightarrow> nat \<Rightarrow> tcp_queue_entry \<Rightarrow> (nstate, unit) kop" where
  "tcp_emit_from 0 e ph i x = kundef"
| "tcp_emit_from (Suc n) e ph i x = kthen (tcp_retransmit_queue_emit e ph i x)
     (kbind (kget (\<lambda>s. next_entry (tq_id x) (q_items (tp_queue (tcp_pcbs s ! i))))) (\<lambda>r. case r of
        None \<Rightarrow> kundef | Some None \<Rightarrow> kreturn () | Some (Some y) \<Rightarrow> tcp_emit_from n e ph i y))"


subsection \<open>Arriving segments\<close>

text \<open>The answer to a segment that belongs to no connection.\<close>

definition seg_reset :: "nenv \<Rightarrow> (nstate, unit) kop \<Rightarrow> tcp_segment_info \<Rightarrow> ip_endpoint \<Rightarrow> ip_endpoint \<Rightarrow> (nstate, unit) kop" where
  "seg_reset e ph sg local foreign = kthen (tcp_output_segment e ph (sg_ack sg) 0 TCP_FLG_RST 0 [] local foreign) (kreturn ())"

definition seg_closed :: "nenv \<Rightarrow> (nstate, unit) kop \<Rightarrow> tcp_segment_info \<Rightarrow> u8 \<Rightarrow> ip_endpoint \<Rightarrow> ip_endpoint \<Rightarrow> (nstate, unit) kop" where
  "seg_closed e ph sg flags local foreign =
     (if TCP_FLG_ISSET flags TCP_FLG_RST then kreturn ()
      else if \<not> TCP_FLG_ISSET flags TCP_FLG_ACK then
        kthen (tcp_output_segment e ph 0 (sg_seq sg + ucast (sg_len sg)) (TCP_FLG_RST OR TCP_FLG_ACK) 0 [] local foreign) (kreturn ())
      else seg_reset e ph sg local foreign)"

definition seg_listen :: "nenv \<Rightarrow> (nstate, unit) kop \<Rightarrow> nat \<Rightarrow> tcp_segment_info \<Rightarrow> u8 \<Rightarrow> ip_endpoint \<Rightarrow> ip_endpoint \<Rightarrow> (nstate, unit) kop" where
  "seg_listen e ph i sg flags local foreign =
     (if TCP_FLG_ISSET flags TCP_FLG_RST then kreturn ()
      else if TCP_FLG_ISSET flags TCP_FLG_ACK then seg_reset e ph sg local foreign
      else if TCP_FLG_ISSET flags TCP_FLG_SYN then
        kbind (kget (\<lambda>s. tp_mode (tcp_pcbs s ! i))) (\<lambda>mode.
        kbind (if mode = TCP_MODE_SOCKET then
            kbind tcp_pcb_alloc (\<lambda>r. case r of None \<Rightarrow> kreturn None
              | Some j \<Rightarrow> kthen (kmod (set_tcp j (\<lambda>p. p\<lparr>tp_mode := TCP_MODE_SOCKET, tp_parent := Some i\<rparr>))) (kreturn (Some j)))
          else kreturn (Some i)) (\<lambda>r. case r of None \<Rightarrow> kreturn ()
        | Some j \<Rightarrow>
          kthen (kmod (\<lambda>s. set_tcp j (\<lambda>p. p\<lparr>tp_local := local, tp_foreign := foreign, rcv_wnd := of_nat TCP_BUF_SIZE, rcv_nxt := sg_seq sg + 1,
            tp_irs := sg_seq sg, tp_iss := microps_random (n_ticks s)\<rparr>) s))
          (kthen (tcp_output e ph j (TCP_FLG_SYN OR TCP_FLG_ACK) [])
          (kmod (set_tcp j (\<lambda>p. p\<lparr>snd_nxt := tp_iss p + 1, snd_una := tp_iss p, tp_state := TCP_SYN_RECEIVED\<rparr>))))))
      else kreturn ())"

definition seg_syn_sent :: "nenv \<Rightarrow> (nstate, unit) kop \<Rightarrow> nat \<Rightarrow> tcp_segment_info \<Rightarrow> u8 \<Rightarrow> ip_endpoint \<Rightarrow> ip_endpoint \<Rightarrow> (nstate, unit) kop" where
  "seg_syn_sent e ph i sg flags local foreign = kbind (kget (\<lambda>s. tcp_pcbs s ! i)) (\<lambda>p.
     if TCP_FLG_ISSET flags TCP_FLG_ACK \<and> (sg_ack sg \<le> tp_iss p \<or> snd_nxt p < sg_ack sg) then seg_reset e ph sg local foreign
     else let acceptable = (TCP_FLG_ISSET flags TCP_FLG_ACK \<and> snd_una p \<le> sg_ack sg \<and> sg_ack sg \<le> snd_nxt p) in
       if TCP_FLG_ISSET flags TCP_FLG_RST then
         (if acceptable then kthen (kmod (set_tcp i (\<lambda>p. p\<lparr>tp_state := TCP_CLOSED\<rparr>))) (tcp_pcb_release i) else kreturn ())
       else if TCP_FLG_ISSET flags TCP_FLG_SYN then
         kthen (kmod (set_tcp i (\<lambda>p. p\<lparr>rcv_nxt := sg_seq sg + 1, tp_irs := sg_seq sg\<rparr>)))
         (kthen (if acceptable then kmod (set_tcp i (\<lambda>p. tcp_retransmit_queue_cleanup (p\<lparr>snd_una := sg_ack sg\<rparr>))) else kreturn ())
         (kbind (kget (\<lambda>s. tcp_pcbs s ! i)) (\<lambda>p.
          if tp_iss p < snd_una p then
            kthen (kmod (set_tcp i (\<lambda>p. p\<lparr>tp_state := TCP_ESTABLISHED\<rparr>)))
            (kthen (tcp_output e ph i TCP_FLG_ACK [])
            (kthen (kmod (set_tcp i (\<lambda>p. p\<lparr>snd_wnd := sg_wnd sg, snd_wl1 := sg_seq sg, snd_wl2 := sg_ack sg\<rparr>)))
            (sched_wakeup (WTcp i))))
          else kthen (kmod (set_tcp i (\<lambda>p. p\<lparr>tp_state := TCP_SYN_RECEIVED\<rparr>)))
            (kthen (tcp_output e ph i (TCP_FLG_SYN OR TCP_FLG_ACK) []) (kreturn ())))))
       else kreturn ())"

text \<open>The states in which a connection exists on both sides.\<close>

definition synchronized :: "tcp_state \<Rightarrow> bool" where
  "synchronized st \<longleftrightarrow> st \<in> {TCP_SYN_RECEIVED, TCP_ESTABLISHED, TCP_FIN_WAIT1, TCP_FIN_WAIT2, TCP_CLOSE_WAIT, TCP_CLOSING, TCP_LAST_ACK, TCP_TIME_WAIT}"

definition in_window :: "tcp_pcb \<Rightarrow> u32 \<Rightarrow> bool" where
  "in_window p x \<longleftrightarrow> rcv_nxt p \<le> x \<and> x < rcv_nxt p + ucast (rcv_wnd p)"

definition seg_acceptable :: "tcp_pcb \<Rightarrow> tcp_segment_info \<Rightarrow> bool" where
  "seg_acceptable p sg \<longleftrightarrow>
     (if sg_len sg = 0 then (if rcv_wnd p = 0 then sg_seq sg = rcv_nxt p else in_window p (sg_seq sg))
      else if rcv_wnd p = 0 then False
      else in_window p (sg_seq sg) \<or> in_window p (sg_seq sg + ucast (sg_len sg) - 1))"

text \<open>Each step says whether the processing of the segment goes on.\<close>

definition seg_sequence :: "nenv \<Rightarrow> (nstate, unit) kop \<Rightarrow> nat \<Rightarrow> tcp_segment_info \<Rightarrow> u8 \<Rightarrow> (nstate, bool) kop" where
  "seg_sequence e ph i sg flags = kbind (kget (\<lambda>s. tcp_pcbs s ! i)) (\<lambda>p.
     if synchronized (tp_state p) \<and> \<not> seg_acceptable p sg then
       kthen (if \<not> TCP_FLG_ISSET flags TCP_FLG_RST then kthen (tcp_output e ph i TCP_FLG_ACK []) (kreturn ()) else kreturn ()) (kreturn False)
     else kreturn True)"

definition seg_rst :: "nat \<Rightarrow> u8 \<Rightarrow> (nstate, bool) kop" where
  "seg_rst i flags = kbind (kget (\<lambda>s. tcp_pcbs s ! i)) (\<lambda>p.
     if synchronized (tp_state p) \<and> TCP_FLG_ISSET flags TCP_FLG_RST then
       kthen (kmod (set_tcp i (\<lambda>p. p\<lparr>tp_state := TCP_CLOSED\<rparr>))) (kthen (tcp_pcb_release i) (kreturn False))
     else kreturn True)"

definition seg_syn :: "nenv \<Rightarrow> (nstate, unit) kop \<Rightarrow> nat \<Rightarrow> u8 \<Rightarrow> (nstate, bool) kop" where
  "seg_syn e ph i flags = kbind (kget (\<lambda>s. tcp_pcbs s ! i)) (\<lambda>p.
     if synchronized (tp_state p) \<and> TCP_FLG_ISSET flags TCP_FLG_SYN then
       kthen (tcp_output e ph i TCP_FLG_RST [])
       (kthen (kmod (set_tcp i (\<lambda>p. p\<lparr>tp_state := TCP_CLOSED\<rparr>))) (kthen (tcp_pcb_release i) (kreturn False)))
     else kreturn True)"

definition seg_ack_common :: "nenv \<Rightarrow> (nstate, unit) kop \<Rightarrow> nat \<Rightarrow> tcp_segment_info \<Rightarrow> (nstate, bool) kop" where
  "seg_ack_common e ph i sg = kbind (kget (\<lambda>s. tcp_pcbs s ! i)) (\<lambda>p.
     if snd_una p < sg_ack sg \<and> sg_ack sg \<le> snd_nxt p then
       kthen (kmod (set_tcp i (\<lambda>p. let p = tcp_retransmit_queue_cleanup (p\<lparr>snd_una := sg_ack sg\<rparr>) in
           if snd_wl1 p < sg_seq sg \<or> snd_wl1 p = sg_seq sg \<and> snd_wl2 p \<le> sg_ack sg then p\<lparr>snd_wnd := sg_wnd sg, snd_wl1 := sg_seq sg, snd_wl2 := sg_ack sg\<rparr> else p)))
       (kreturn True)
     else if sg_ack sg < snd_una p then kreturn True
     else if snd_nxt p < sg_ack sg then kthen (tcp_output e ph i TCP_FLG_ACK []) (kreturn False)
     else kreturn True)"

definition seg_ack_state :: "nat \<Rightarrow> tcp_segment_info \<Rightarrow> (nstate, unit) kop" where
  "seg_ack_state i sg = kbind (kget (\<lambda>s. tcp_pcbs s ! i)) (\<lambda>p.
     if tp_state p = TCP_FIN_WAIT1 \<and> sg_ack sg = snd_nxt p then kmod (set_tcp i (\<lambda>p. p\<lparr>tp_state := TCP_FIN_WAIT2\<rparr>))
     else if tp_state p = TCP_CLOSING \<and> sg_ack sg = snd_nxt p then
       kthen (kmod (set_tcp i (\<lambda>p. p\<lparr>tp_state := TCP_TIME_WAIT\<rparr>))) (kthen (tcp_set_timewait_timer i) (sched_wakeup (WTcp i)))
     else kreturn ())"

text \<open>A connection that has been accepted is put into the backlog of the listener.\<close>

definition seg_established :: "nenv \<Rightarrow> nat \<Rightarrow> (nstate, unit) kop" where
  "seg_established e i =
     kthen (kmod (set_tcp i (\<lambda>p. p\<lparr>tp_state := TCP_ESTABLISHED\<rparr>))) (kthen (sched_wakeup (WTcp i))
     (kbind (kget (\<lambda>s. tp_parent (tcp_pcbs s ! i))) (\<lambda>r. case r of None \<Rightarrow> kreturn ()
      | Some l \<Rightarrow> kbind (memory_alloc e 8) (\<lambda>ok.
          kthen (kmod (set_tcp l (\<lambda>p. p\<lparr>tp_backlog := snd (queue_push ok (tp_backlog p) i)\<rparr>))) (sched_wakeup (WTcp l))))))"

definition seg_ack_field :: "nenv \<Rightarrow> (nstate, unit) kop \<Rightarrow> nat \<Rightarrow> tcp_segment_info \<Rightarrow> u8 \<Rightarrow> ip_endpoint \<Rightarrow> ip_endpoint \<Rightarrow> (nstate, bool) kop" where
  "seg_ack_field e ph i sg flags local foreign =
     (if \<not> TCP_FLG_ISSET flags TCP_FLG_ACK then kreturn False
      else kbind (kget (\<lambda>s. tcp_pcbs s ! i)) (\<lambda>p.
        let common = kbind (seg_ack_common e ph i sg) (\<lambda>go. if go then kthen (seg_ack_state i sg) (kreturn True) else kreturn False) in
        case tp_state p of
          TCP_SYN_RECEIVED \<Rightarrow>
            if snd_una p \<le> sg_ack sg \<and> sg_ack sg \<le> snd_nxt p then kthen (seg_established e i) common
            else kthen (seg_reset e ph sg local foreign) (kreturn False)
        | TCP_ESTABLISHED \<Rightarrow> common
        | TCP_FIN_WAIT1 \<Rightarrow> common
        | TCP_FIN_WAIT2 \<Rightarrow> common
        | TCP_CLOSE_WAIT \<Rightarrow> common
        | TCP_CLOSING \<Rightarrow> common
        | TCP_LAST_ACK \<Rightarrow>
            kthen (if sg_ack sg = snd_nxt p then kthen (kmod (set_tcp i (\<lambda>p. p\<lparr>tp_state := TCP_CLOSED\<rparr>))) (tcp_pcb_release i) else kreturn ()) (kreturn False)
        | TCP_TIME_WAIT \<Rightarrow> kthen (if TCP_FLG_ISSET flags TCP_FLG_FIN then tcp_set_timewait_timer i else kreturn ()) (kreturn True)
        | _ \<Rightarrow> kreturn True))"

text \<open>\<open>memcpy\<close> behind the bytes that are waiting: more bytes than the window has room for run past the end of the array.\<close>

definition seg_text :: "nenv \<Rightarrow> (nstate, unit) kop \<Rightarrow> nat \<Rightarrow> tcp_segment_info \<Rightarrow> bytes \<Rightarrow> u32 \<Rightarrow> (nstate, unit) kop" where
  "seg_text e ph i sg data len = kbind (kget (\<lambda>s. tcp_pcbs s ! i)) (\<lambda>p.
     if tp_state p \<in> {TCP_ESTABLISHED, TCP_FIN_WAIT1, TCP_FIN_WAIT2} \<and> len \<noteq> 0 then
       kbind (rdn data 0 (unat len)) (\<lambda>d.
       if unat (rcv_wnd p) < length d then kundef
       else kthen (kmod (set_tcp i (\<lambda>p. p\<lparr>tp_buf := splice (tp_buf p) (TCP_BUF_SIZE - unat (rcv_wnd p)) d, rcv_nxt := sg_seq sg + ucast (sg_len sg),
            rcv_wnd := rcv_wnd p - ucast len\<rparr>)))
         (kthen (tcp_output e ph i TCP_FLG_ACK []) (sched_wakeup (WTcp i))))
     else kreturn ())"

definition seg_fin :: "nenv \<Rightarrow> (nstate, unit) kop \<Rightarrow> nat \<Rightarrow> tcp_segment_info \<Rightarrow> u8 \<Rightarrow> (nstate, unit) kop" where
  "seg_fin e ph i sg flags =
     (if \<not> TCP_FLG_ISSET flags TCP_FLG_FIN then kreturn ()
      else kbind (kget (\<lambda>s. tp_state (tcp_pcbs s ! i))) (\<lambda>st. if st \<in> {TCP_CLOSED, TCP_LISTEN, TCP_SYN_SENT} then kreturn ()
      else kthen (kmod (set_tcp i (\<lambda>p. p\<lparr>rcv_nxt := sg_seq sg + 1\<rparr>)))
        (kthen (tcp_output e ph i TCP_FLG_ACK [])
        (kbind (kget (\<lambda>s. tcp_pcbs s ! i)) (\<lambda>p. case tp_state p of
            TCP_SYN_RECEIVED \<Rightarrow> kthen (kmod (set_tcp i (\<lambda>p. p\<lparr>tp_state := TCP_CLOSE_WAIT\<rparr>))) (sched_wakeup (WTcp i))
          | TCP_ESTABLISHED \<Rightarrow> kthen (kmod (set_tcp i (\<lambda>p. p\<lparr>tp_state := TCP_CLOSE_WAIT\<rparr>))) (sched_wakeup (WTcp i))
          | TCP_FIN_WAIT1 \<Rightarrow>
              if sg_ack sg = snd_nxt p then kthen (kmod (set_tcp i (\<lambda>p. p\<lparr>tp_state := TCP_TIME_WAIT\<rparr>))) (tcp_set_timewait_timer i)
              else kmod (set_tcp i (\<lambda>p. p\<lparr>tp_state := TCP_CLOSING\<rparr>))
          | TCP_FIN_WAIT2 \<Rightarrow> kthen (kmod (set_tcp i (\<lambda>p. p\<lparr>tp_state := TCP_TIME_WAIT\<rparr>))) (tcp_set_timewait_timer i)
          | TCP_TIME_WAIT \<Rightarrow> tcp_set_timewait_timer i
          | _ \<Rightarrow> kreturn ())))))"

definition seg_otherwise :: "nenv \<Rightarrow> (nstate, unit) kop \<Rightarrow> nat \<Rightarrow> tcp_segment_info \<Rightarrow> u8 \<Rightarrow> bytes \<Rightarrow> u32 \<Rightarrow> ip_endpoint \<Rightarrow> ip_endpoint \<Rightarrow> (nstate, unit) kop" where
  "seg_otherwise e ph i sg flags data len local foreign =
     kbind (seg_sequence e ph i sg flags) (\<lambda>go. if \<not> go then kreturn ()
     else kbind (seg_rst i flags) (\<lambda>go. if \<not> go then kreturn ()
     else kbind (seg_syn e ph i flags) (\<lambda>go. if \<not> go then kreturn ()
     else kbind (seg_ack_field e ph i sg flags local foreign) (\<lambda>go. if \<not> go then kreturn ()
     else kthen (seg_text e ph i sg data len) (seg_fin e ph i sg flags)))))"

definition tcp_segment_arrives :: "nenv \<Rightarrow> (nstate, unit) kop \<Rightarrow> tcp_segment_info \<Rightarrow> u8 \<Rightarrow> bytes \<Rightarrow> u32 \<Rightarrow> ip_endpoint \<Rightarrow> ip_endpoint \<Rightarrow> (nstate, unit) kop" where
  "tcp_segment_arrives e ph sg flags data len local foreign = kbind (kget id) (\<lambda>s. case tcp_pcb_select local (Some foreign) s of
       None \<Rightarrow> seg_closed e ph sg flags local foreign
     | Some i \<Rightarrow> (case tp_state (tcp_pcbs s ! i) of
         TCP_CLOSED \<Rightarrow> seg_closed e ph sg flags local foreign
       | TCP_LISTEN \<Rightarrow> seg_listen e ph i sg flags local foreign
       | TCP_SYN_SENT \<Rightarrow> seg_syn_sent e ph i sg flags local foreign
       | _ \<Rightarrow> seg_otherwise e ph i sg flags data len local foreign))"

definition tcp_input :: "nenv \<Rightarrow> (nstate, unit) kop \<Rightarrow> bytes \<Rightarrow> u32 \<Rightarrow> u32 \<Rightarrow> u32 \<Rightarrow> nat \<Rightarrow> (nstate, unit) kop" where
  "tcp_input e ph data len src dst f =
     (if len < 20 then kreturn ()
      else kbind (psum src dst IP_PROTOCOL_TCP (ucast len)) (\<lambda>ps.
        kbind (cksum data (ucast len) ps) (\<lambda>c. if c \<noteq> 0 then kreturn ()
        else kbind (kget (\<lambda>s. if_broadcast (n_if s f))) (\<lambda>b.
          if src = IP_ADDR_BROADCAST \<or> src = b \<or> dst = IP_ADDR_BROADCAST \<or> dst = b then kreturn ()
          else kbind (rdn data 0 20) (\<lambda>h.
            let hl = push_bit 2 (drop_bit 4 (ucast (h ! 12))) :: u16; hlen = (if hl < 20 \<or> len < ucast hl then 20 else hl); flg = h ! 13;
                sg = \<lparr>sg_seq = ntoh32 (get32 h 4), sg_ack = ntoh32 (get32 h 8),
                      sg_len = ucast (len - ucast hlen) + (if TCP_FLG_ISSET flg TCP_FLG_SYN then 1 else 0) + (if TCP_FLG_ISSET flg TCP_FLG_FIN then 1 else 0),
                      sg_wnd = ntoh16 (get16 h 14), sg_up = ntoh16 (get16 h 18)\<rparr> in
            tcp_segment_arrives e ph sg flg (drop (unat hlen) data) (len - ucast hlen)
              \<lparr>ep_addr = dst, ep_port = get16 h 2\<rparr> \<lparr>ep_addr = src, ep_port = get16 h 0\<rparr>)))))"


subsection \<open>Timer and initialisation\<close>

text \<open>The fuel bounds the walk along one retransmission queue, which can grow while it is walked.\<close>

definition tcp_timer_pcb :: "nat \<Rightarrow> nenv \<Rightarrow> (nstate, unit) kop \<Rightarrow> timeval \<Rightarrow> nat \<Rightarrow> (nstate, unit) kop" where
  "tcp_timer_pcb n e ph now i = kbind (kget (\<lambda>s. tcp_pcbs s ! i)) (\<lambda>p.
     if tp_state p = TCP_FREE then kreturn ()
     else if tp_state p = TCP_TIME_WAIT \<and> timer_less (tp_tw p) now then tcp_pcb_release i
     else (case q_items (tp_queue p) of [] \<Rightarrow> kreturn () | x # _ \<Rightarrow> tcp_emit_from n e ph i x))"

definition tcp_timer :: "nat \<Rightarrow> nenv \<Rightarrow> (nstate, unit) kop \<Rightarrow> (nstate, unit) kop" where
  "tcp_timer n e ph = kbind (kget id) (\<lambda>s.
     foldr (\<lambda>i m. kthen (tcp_timer_pcb n e ph (gettimeofday (n_ticks s)) i) m) [0..<length (tcp_pcbs s)] (kreturn ()))"

definition tcp_event_handler :: "(nstate, unit) kop" where
  "tcp_event_handler = kmod (\<lambda>s. s\<lparr>tcp_pcbs := map (\<lambda>p. if tp_state p \<noteq> TCP_FREE then p\<lparr>tp_ctx := (tp_ctx p)\<lparr>cx_interrupted := True\<rparr>\<rparr> else p) (tcp_pcbs s),
     n_woken := n_woken s @ map WTcp (filter (\<lambda>i. tp_state (tcp_pcbs s ! i) \<noteq> TCP_FREE) [0..<length (tcp_pcbs s)])\<rparr>)"

definition tcp_init :: "nenv \<Rightarrow> (nstate, int) kop" where
  "tcp_init e = kbind (ip_protocol_register e IP_PROTOCOL_TCP H_TCP) (\<lambda>r. if r = - 1 then kreturn (- 1)
     else kbind (net_timer_register e \<lparr>tv_sec = 0, tv_usec = 100000\<rparr> T_TCP) (\<lambda>r. if r = - 1 then kreturn (- 1)
     else kthen (net_event_subscribe e E_TCP) (kreturn 0)))"


subsection \<open>User commands\<close>

text \<open>
  \<open>tcp_wait_tick_interruptible\<close> up to the sleep: it returns -1 at once if the process has been killed or the time is over. After the sleep
  it returns -1 if the process has been killed.
\<close>

definition tcp_wait_over :: "nenv \<Rightarrow> u32 \<Rightarrow> u32 \<Rightarrow> u32 \<Rightarrow> bool" where
  "tcp_wait_over e now start timeout \<longleftrightarrow> ne_killed e \<or> 0 < timeout \<and> sint timeout \<le> sint (now - start)"

text \<open>The wait for the handshake: \<open>Inr\<close> carries the state that was seen and the time at which the wait started.\<close>

definition tcp_connect_fail :: "nat \<Rightarrow> (nstate, int + tcp_state \<times> u32) kop" where
  "tcp_connect_fail i = kthen (kmod (set_tcp i (\<lambda>p. p\<lparr>tp_state := TCP_CLOSED\<rparr>))) (kthen (tcp_pcb_release i) (kreturn (Inl (- 1))))"

definition tcp_connect_wait :: "nenv \<Rightarrow> nat \<Rightarrow> tcp_state \<Rightarrow> u32 \<Rightarrow> (nstate, int + tcp_state \<times> u32) kop" where
  "tcp_connect_wait e i st start = kbind (kget n_ticks) (\<lambda>now.
     if tcp_wait_over e now start TCP_CONNECT_TIMEOUT_TICKS then tcp_connect_fail i else kreturn (Inr (st, start)))"

definition tcp_connect_again :: "nenv \<Rightarrow> nat \<Rightarrow> (nstate, int + tcp_state \<times> u32) kop" where
  "tcp_connect_again e i = kbind (kget id) (\<lambda>s. tcp_connect_wait e i (tp_state (tcp_pcbs s ! i)) (n_ticks s))"

definition tcp_connect_woken :: "nenv \<Rightarrow> nat \<Rightarrow> tcp_state \<Rightarrow> u32 \<Rightarrow> (nstate, int + tcp_state \<times> u32) kop" where
  "tcp_connect_woken e i st start =
     (if ne_killed e then tcp_connect_fail i
      else kbind (kget (\<lambda>s. tp_state (tcp_pcbs s ! i))) (\<lambda>now.
        if now = st then tcp_connect_wait e i st start
        else if now = TCP_ESTABLISHED then kreturn (Inl (int i))
        else if now = TCP_SYN_RECEIVED then tcp_connect_again e i
        else tcp_connect_fail i))"

text \<open>The SYN of an active open.\<close>

definition tcp_open_active :: "nenv \<Rightarrow> (nstate, unit) kop \<Rightarrow> nat \<Rightarrow> ip_endpoint \<Rightarrow> ip_endpoint \<Rightarrow> (nstate, int + tcp_state \<times> u32) kop" where
  "tcp_open_active e ph i local foreign =
     kthen (kmod (\<lambda>s. set_tcp i (\<lambda>p. p\<lparr>tp_local := local, tp_foreign := foreign, rcv_wnd := of_nat TCP_BUF_SIZE, tp_iss := microps_random (n_ticks s)\<rparr>) s))
     (kbind (tcp_output e ph i TCP_FLG_SYN []) (\<lambda>r. if r = - 1 then tcp_connect_fail i
      else kthen (kmod (set_tcp i (\<lambda>p. p\<lparr>snd_una := tp_iss p, snd_nxt := tp_iss p + 1, tp_state := TCP_SYN_SENT\<rparr>)))
        (tcp_connect_again e i)))"

definition tcp_open_rfc793 :: "nenv \<Rightarrow> (nstate, unit) kop \<Rightarrow> ip_endpoint \<Rightarrow> ip_endpoint option \<Rightarrow> bool \<Rightarrow> (nstate, int + tcp_state \<times> u32) kop" where
  "tcp_open_rfc793 e ph local foreign active = kbind tcp_pcb_alloc (\<lambda>r. case r of
       None \<Rightarrow> kreturn (Inl (- 1))
     | Some i \<Rightarrow> kthen (kmod (set_tcp i (\<lambda>p. p\<lparr>tp_mode := TCP_MODE_RFC793\<rparr>)))
         (if \<not> active then
            kthen (kmod (set_tcp i (\<lambda>p. p\<lparr>tp_local := local, tp_foreign := (case foreign of None \<Rightarrow> tp_foreign p | Some f \<Rightarrow> f), tp_state := TCP_LISTEN\<rparr>)))
            (tcp_connect_again e i)
          else (case foreign of None \<Rightarrow> kundef | Some f \<Rightarrow> tcp_open_active e ph i local f)))"

definition tcp_state_num :: "tcp_state \<Rightarrow> int" where
  "tcp_state_num st = (case st of TCP_FREE \<Rightarrow> 0 | TCP_CLOSED \<Rightarrow> 1 | TCP_LISTEN \<Rightarrow> 2 | TCP_SYN_SENT \<Rightarrow> 3 | TCP_SYN_RECEIVED \<Rightarrow> 4 | TCP_ESTABLISHED \<Rightarrow> 5
     | TCP_FIN_WAIT1 \<Rightarrow> 6 | TCP_FIN_WAIT2 \<Rightarrow> 7 | TCP_CLOSING \<Rightarrow> 8 | TCP_TIME_WAIT \<Rightarrow> 9 | TCP_CLOSE_WAIT \<Rightarrow> 10 | TCP_LAST_ACK \<Rightarrow> 11)"

definition tcp_state_of :: "int \<Rightarrow> nstate \<Rightarrow> int" where
  "tcp_state_of i s = (case tcp_pcb_get i s of None \<Rightarrow> - 1
     | Some j \<Rightarrow> if tp_mode (tcp_pcbs s ! j) \<noteq> TCP_MODE_RFC793 then - 1 else tcp_state_num (tp_state (tcp_pcbs s ! j)))"

definition tcp_open :: "(nstate, int) kop" where
  "tcp_open = kbind tcp_pcb_alloc (\<lambda>r. case r of
       None \<Rightarrow> kreturn (- 1)
     | Some i \<Rightarrow> kthen (kmod (set_tcp i (\<lambda>p. p\<lparr>tp_mode := TCP_MODE_SOCKET\<rparr>))) (kreturn (int i)))"

text \<open>The dynamic source port is stored as it is counted, without \<open>hton16\<close>; when no port is free the loop leaves the last one.\<close>

definition tcp_dynamic_port :: "u32 \<Rightarrow> ip_endpoint \<Rightarrow> nstate \<Rightarrow> u16" where
  "tcp_dynamic_port a foreign s =
     (case find (\<lambda>p. tcp_pcb_select \<lparr>ep_addr = a, ep_port = of_nat p\<rparr> (Some foreign) s = None) [TCP_SOURCE_PORT_MIN..<TCP_SOURCE_PORT_MAX + 1] of
        Some p \<Rightarrow> of_nat p | None \<Rightarrow> of_nat TCP_SOURCE_PORT_MAX)"

definition tcp_connect :: "nenv \<Rightarrow> (nstate, unit) kop \<Rightarrow> int \<Rightarrow> ip_endpoint \<Rightarrow> (nstate, int + tcp_state \<times> u32) kop" where
  "tcp_connect e ph d foreign = kbind (kget id) (\<lambda>s. case tcp_pcb_get d s of
       None \<Rightarrow> kreturn (Inl (- 1))
     | Some i \<Rightarrow> let p = tcp_pcbs s ! i in
         if tp_mode p \<noteq> TCP_MODE_SOCKET then kreturn (Inl (- 1))
         else (case (if ep_addr (tp_local p) \<noteq> IP_ADDR_ANY then Some (ep_addr (tp_local p))
                     else map_option (\<lambda>f. if_unicast (n_if s f)) (ip_route_get_iface (ep_addr foreign) s)) of
             None \<Rightarrow> kreturn (Inl (- 1))
           | Some a \<Rightarrow> let port = (if ep_port (tp_local p) \<noteq> 0 then ep_port (tp_local p) else tcp_dynamic_port a foreign s) in
               tcp_open_active e ph i \<lparr>ep_addr = a, ep_port = port\<rparr> foreign))"

definition tcp_bind :: "int \<Rightarrow> ip_endpoint \<Rightarrow> (nstate, int) kop" where
  "tcp_bind d local = kbind (kget id) (\<lambda>s. case tcp_pcb_get d s of
       None \<Rightarrow> kreturn (- 1)
     | Some i \<Rightarrow>
         if tp_mode (tcp_pcbs s ! i) \<noteq> TCP_MODE_SOCKET then kreturn (- 1)
         else if tcp_pcb_select local None s \<noteq> None then kreturn (- 1)
         else kthen (kmod (set_tcp i (\<lambda>p. p\<lparr>tp_local := local\<rparr>))) (kreturn 0))"

definition tcp_listen :: "int \<Rightarrow> (nstate, int) kop" where
  "tcp_listen d = kbind (kget id) (\<lambda>s. case tcp_pcb_get d s of
       None \<Rightarrow> kreturn (- 1)
     | Some i \<Rightarrow>
         if tp_mode (tcp_pcbs s ! i) \<noteq> TCP_MODE_SOCKET then kreturn (- 1)
         else kthen (kmod (set_tcp i (\<lambda>p. p\<lparr>tp_state := TCP_LISTEN\<rparr>))) (kreturn 0))"

text \<open>The result of \<open>tcp_accept\<close> is the descriptor with the address of the peer.\<close>

definition tcp_accept_loop :: "nenv \<Rightarrow> nat \<Rightarrow> (nstate, (int \<times> ip_endpoint option) nres) kop" where
  "tcp_accept_loop e i = kbind (kget id) (\<lambda>s. let p = tcp_pcbs s ! i in case queue_pop (tp_backlog p) of
       (Some j, q) \<Rightarrow> kthen (kmod (set_tcp i (\<lambda>p. p\<lparr>tp_backlog := q\<rparr>))) (kreturn (NDone (int j, Some (tp_foreign (tcp_pcbs s ! j)))))
     | (None, _) \<Rightarrow> (case sched_sleep e (tp_ctx p) of
          None \<Rightarrow> kreturn (NDone (- 1, None))
        | Some c \<Rightarrow> kthen (kmod (set_tcp i (\<lambda>p. p\<lparr>tp_ctx := c\<rparr>))) (kreturn NWait)))"

definition tcp_accept_woken :: "nenv \<Rightarrow> nat \<Rightarrow> (nstate, (int \<times> ip_endpoint option) nres) kop" where
  "tcp_accept_woken e i = kbind (kget (\<lambda>s. tcp_pcbs s ! i)) (\<lambda>p. case sched_woken e (tp_ctx p) of (ok, c) \<Rightarrow>
     kthen (kmod (set_tcp i (\<lambda>p. p\<lparr>tp_ctx := c\<rparr>)))
     (if \<not> ok then kreturn (NDone (- 1, None))
      else if tp_state p = TCP_CLOSED then kthen (tcp_pcb_release i) (kreturn (NDone (- 1, None)))
      else tcp_accept_loop e i))"

definition tcp_accept :: "nenv \<Rightarrow> int \<Rightarrow> (nstate, (int \<times> ip_endpoint option) nres) kop" where
  "tcp_accept e d = kbind (kget id) (\<lambda>s. case tcp_pcb_get d s of
       None \<Rightarrow> kreturn (NDone (- 1, None))
     | Some i \<Rightarrow>
         if tp_mode (tcp_pcbs s ! i) \<noteq> TCP_MODE_SOCKET then kreturn (NDone (- 1, None))
         else if tp_state (tcp_pcbs s ! i) \<noteq> TCP_LISTEN then kreturn (NDone (- 1, None))
         else tcp_accept_loop e i)"

text \<open>
  The sending loop, with the number of bytes already sent: \<open>Inr\<close> is where the process sleeps because the window is full. Every round sends at least
  one byte when the maximal segment size is positive, so the length of the data is fuel enough; the fuel runs out only where the loop would not end.
\<close>

fun tcp_send_loop :: "nat \<Rightarrow> nenv \<Rightarrow> (nstate, unit) kop \<Rightarrow> nat \<Rightarrow> bytes \<Rightarrow> u32 \<Rightarrow> nat \<Rightarrow> (nstate, int + nat) kop" where
  "tcp_send_loop 0 e ph i data mss sent = kundef"
| "tcp_send_loop (Suc n) e ph i data mss sent =
     (if sint (of_nat (length data) :: u32) \<le> int sent then kreturn (Inl (int sent))
      else kbind (kget (\<lambda>s. tcp_pcbs s ! i)) (\<lambda>p.
        let c = ucast (snd_wnd p) - (snd_nxt p - snd_una p);
            cap = (if c = 0 \<and> snd_wnd p = 0 \<and> snd_nxt p = snd_una p then mss else c) in
        if cap = 0 then kreturn (if ne_killed e then Inl (if sent = 0 then - 1 else int sent) else Inr sent)
        else let slen = min (min mss (of_nat (length data) - of_nat sent)) cap in
          kbind (tcp_output e ph i (TCP_FLG_ACK OR TCP_FLG_PSH) (slice data sent (unat slen))) (\<lambda>r.
          if r = - 1 then kthen (kmod (set_tcp i (\<lambda>p. p\<lparr>tp_state := TCP_CLOSED\<rparr>))) (kthen (tcp_pcb_release i) (kreturn (Inl (- 1))))
          else kthen (kmod (set_tcp i (\<lambda>p. p\<lparr>snd_nxt := snd_nxt p + slen\<rparr>))) (tcp_send_loop n e ph i data mss (sent + unat slen)))))"

definition tcp_send_retry :: "nenv \<Rightarrow> (nstate, unit) kop \<Rightarrow> nat \<Rightarrow> bytes \<Rightarrow> nat \<Rightarrow> (nstate, int + nat) kop" where
  "tcp_send_retry e ph i data sent = kbind (kget id) (\<lambda>s. let p = tcp_pcbs s ! i in
     if tp_state p \<noteq> TCP_ESTABLISHED \<and> tp_state p \<noteq> TCP_CLOSE_WAIT then kreturn (Inl (- 1))
     else (case ip_route_get_iface (ep_addr (tp_local p)) s of
         None \<Rightarrow> kreturn (Inl (- 1))
       | Some f \<Rightarrow> (case if_dev (n_if s f) of None \<Rightarrow> kundef
           | Some dv \<Rightarrow> tcp_send_loop (Suc (length data)) e ph i data (ucast (nd_mtu (n_dev s dv)) - 40) sent)))"

definition tcp_send_woken :: "nenv \<Rightarrow> (nstate, unit) kop \<Rightarrow> nat \<Rightarrow> bytes \<Rightarrow> nat \<Rightarrow> (nstate, int + nat) kop" where
  "tcp_send_woken e ph i data sent =
     (if ne_killed e then kreturn (Inl (if sent = 0 then - 1 else int sent)) else tcp_send_retry e ph i data sent)"

definition tcp_send :: "nenv \<Rightarrow> (nstate, unit) kop \<Rightarrow> int \<Rightarrow> bytes \<Rightarrow> (nstate, int + nat) kop" where
  "tcp_send e ph d data = kbind (kget (tcp_pcb_get d)) (\<lambda>r. case r of
       None \<Rightarrow> kreturn (Inl (- 1))
     | Some i \<Rightarrow> tcp_send_retry e ph i data 0)"

text \<open>Receiving: the bytes at the front of the buffer are copied out and the others moved up.\<close>

definition tcp_take :: "nat \<Rightarrow> nat \<Rightarrow> (nstate, (int \<times> bytes) nres) kop" where
  "tcp_take i sz = kbind (kget (\<lambda>s. tcp_pcbs s ! i)) (\<lambda>p.
     let remain = TCP_BUF_SIZE - unat (rcv_wnd p); len = min sz remain in
     kthen (kmod (set_tcp i (\<lambda>p. p\<lparr>tp_buf := splice (tp_buf p) 0 (slice (tp_buf p) len (remain - len)), rcv_wnd := rcv_wnd p + of_nat len\<rparr>)))
     (kreturn (NDone (int len, take len (tp_buf p)))))"

definition tcp_receive_retry :: "nenv \<Rightarrow> nat \<Rightarrow> nat \<Rightarrow> (nstate, (int \<times> bytes) nres) kop" where
  "tcp_receive_retry e i sz = kbind (kget (\<lambda>s. tcp_pcbs s ! i)) (\<lambda>p.
     let remain = TCP_BUF_SIZE - unat (rcv_wnd p) in
     if tp_state p \<in> {TCP_ESTABLISHED, TCP_FIN_WAIT1, TCP_FIN_WAIT2} then
       (if remain = 0 then kreturn (if ne_killed e then NDone (- 1, []) else NWait) else tcp_take i sz)
     else if tp_state p = TCP_CLOSE_WAIT \<and> remain \<noteq> 0 then tcp_take i sz
     else if tp_state p \<in> {TCP_CLOSE_WAIT, TCP_CLOSING, TCP_LAST_ACK, TCP_TIME_WAIT} then kreturn (NDone (0, []))
     else kreturn (NDone (- 1, [])))"

definition tcp_receive_woken :: "nenv \<Rightarrow> nat \<Rightarrow> nat \<Rightarrow> (nstate, (int \<times> bytes) nres) kop" where
  "tcp_receive_woken e i sz = (if ne_killed e then kreturn (NDone (- 1, [])) else tcp_receive_retry e i sz)"

definition tcp_receive :: "nenv \<Rightarrow> int \<Rightarrow> nat \<Rightarrow> (nstate, (int \<times> bytes) nres) kop" where
  "tcp_receive e d sz = kbind (kget (tcp_pcb_get d)) (\<lambda>r. case r of
       None \<Rightarrow> kreturn (NDone (- 1, []))
     | Some i \<Rightarrow> tcp_receive_retry e i sz)"

definition tcp_close_fin :: "nenv \<Rightarrow> (nstate, unit) kop \<Rightarrow> nat \<Rightarrow> tcp_state \<Rightarrow> (nstate, int) kop" where
  "tcp_close_fin e ph i st = kthen (tcp_output e ph i (TCP_FLG_ACK OR TCP_FLG_FIN) [])
     (kthen (kmod (set_tcp i (\<lambda>p. p\<lparr>snd_nxt := snd_nxt p + 1, tp_state := st\<rparr>))) (kthen (sched_wakeup (WTcp i)) (kreturn 0)))"

definition tcp_close :: "nenv \<Rightarrow> (nstate, unit) kop \<Rightarrow> int \<Rightarrow> (nstate, int) kop" where
  "tcp_close e ph d = kbind (kget id) (\<lambda>s. case tcp_pcb_get d s of
       None \<Rightarrow> kreturn (- 1)
     | Some i \<Rightarrow> (case tp_state (tcp_pcbs s ! i) of
         TCP_LISTEN \<Rightarrow> kthen (kmod (set_tcp i (\<lambda>p. p\<lparr>tp_state := TCP_CLOSED\<rparr>))) (kthen (tcp_pcb_release i) (kreturn 0))
       | TCP_SYN_SENT \<Rightarrow> kthen (kmod (set_tcp i (\<lambda>p. p\<lparr>tp_state := TCP_CLOSED\<rparr>))) (kthen (tcp_pcb_release i) (kreturn 0))
       | TCP_SYN_RECEIVED \<Rightarrow> tcp_close_fin e ph i TCP_FIN_WAIT1
       | TCP_ESTABLISHED \<Rightarrow> tcp_close_fin e ph i TCP_FIN_WAIT1
       | TCP_CLOSE_WAIT \<Rightarrow> tcp_close_fin e ph i TCP_LAST_ACK
       | _ \<Rightarrow> kreturn (- 1)))"

definition tcp_sock_has_rx_data :: "int \<Rightarrow> nstate \<Rightarrow> int" where
  "tcp_sock_has_rx_data d s = (case tcp_pcb_get d s of None \<Rightarrow> - 1
     | Some i \<Rightarrow> let p = tcp_pcbs s ! i in
         if tp_state p \<in> {TCP_ESTABLISHED, TCP_FIN_WAIT1, TCP_FIN_WAIT2, TCP_CLOSE_WAIT} \<and> 0 < TCP_BUF_SIZE - unat (rcv_wnd p) then 1 else 0)"

definition tcp_sock_listen_readable :: "int \<Rightarrow> nstate \<Rightarrow> int" where
  "tcp_sock_listen_readable d s = (case tcp_pcb_get d s of None \<Rightarrow> - 1
     | Some i \<Rightarrow> let p = tcp_pcbs s ! i in
         if tp_state p = TCP_LISTEN \<and> queue_peek (tp_backlog p) \<noteq> None then 1 else 0)"

end
