(* ===== verification/NetStack.thy ===== *)
theory NetStack
  imports Tcp
begin

section \<open>The stack as a whole (\<open>microps/net.c\<close>, \<open>sock.c\<close>, \<open>microps_glue.c\<close>)\<close>

text \<open>
  The protocol handler takes the queued packets one by one and calls the handler of their protocol, which may send, which may call the protocol handler
  again. The fuel of \<open>drain\<close> bounds the number of packets taken from one queue in one run together with the depth of the nesting; it
  is an argument of everything that can run the protocol handler. On top of it are the timers, the events, start-up, and the socket table.
\<close>

unbundle bit_operations_syntax


subsection \<open>Protocol handler, timers, events\<close>

definition ip_handler :: "nenv \<Rightarrow> (nstate, unit) kop \<Rightarrow> iphandler \<Rightarrow> bytes \<Rightarrow> u32 \<Rightarrow> u32 \<Rightarrow> u32 \<Rightarrow> nat \<Rightarrow> (nstate, unit) kop" where
  "ip_handler e ph h = (case h of H_ICMP \<Rightarrow> icmp_input e ph | H_UDP \<Rightarrow> udp_input e | H_TCP \<Rightarrow> tcp_input e ph)"

definition net_handler :: "nenv \<Rightarrow> (nstate, unit) kop \<Rightarrow> nethandler \<Rightarrow> bytes \<Rightarrow> nat \<Rightarrow> (nstate, unit) kop" where
  "net_handler e ph h = (case h of H_IP \<Rightarrow> ip_input (ip_handler e ph) | H_ARP \<Rightarrow> arp_input e ph)"

definition each_protocol :: "(nat \<Rightarrow> (nstate, unit) kop) \<Rightarrow> (nstate, unit) kop" where
  "each_protocol f = kbind (kget (\<lambda>s. length (n_protocols s))) (\<lambda>k. foldr (\<lambda>i m. kthen (f i) m) [0..<k] (kreturn ()))"

primrec drain :: "nat \<Rightarrow> nenv \<Rightarrow> nat \<Rightarrow> (nstate, unit) kop" where
  "drain 0 = (\<lambda>e i. kundef)"
| "drain (Suc n) = (\<lambda>e i. kbind (kget (\<lambda>s. n_protocols s ! i)) (\<lambda>p. case queue_pop (np_queue p) of
       (None, _) \<Rightarrow> kreturn ()
     | (Some (dev, data), q) \<Rightarrow>
         kthen (kmod (set_queue i q)) (kthen (net_handler e (each_protocol (drain n e)) (np_handler p) data dev) (drain n e i))))"

definition net_protocol_handler :: "nat \<Rightarrow> nenv \<Rightarrow> (nstate, unit) kop" where
  "net_protocol_handler n e = each_protocol (drain n e)"

definition timer_run :: "nat \<Rightarrow> nenv \<Rightarrow> timer_handler \<Rightarrow> (nstate, unit) kop" where
  "timer_run n e h = (case h of T_ARP \<Rightarrow> arp_timer | T_TCP \<Rightarrow> tcp_timer n e (net_protocol_handler n e))"

definition net_timer_step :: "nat \<Rightarrow> nenv \<Rightarrow> nat \<Rightarrow> (nstate, unit) kop" where
  "net_timer_step n e i = kbind (kget id) (\<lambda>s. let t = n_timers s ! i; now = gettimeofday (n_ticks s) in
     if timer_less (nt_interval t) (timersub now (nt_last t)) then
       kthen (timer_run n e (nt_handler t)) (kmod (\<lambda>s. s\<lparr>n_timers := (n_timers s)[i := (n_timers s ! i)\<lparr>nt_last := now\<rparr>]\<rparr>))
     else kreturn ())"

definition net_timer_handler :: "nat \<Rightarrow> nenv \<Rightarrow> (nstate, unit) kop" where
  "net_timer_handler n e = kbind (kget (\<lambda>s. length (n_timers s))) (\<lambda>k. foldr (\<lambda>i m. kthen (net_timer_step n e i) m) [0..<k] (kreturn ()))"

definition net_event_handler :: "(nstate, unit) kop" where
  "net_event_handler = kbind (kget n_events) (\<lambda>es.
     foldr (\<lambda>h m. kthen (case h of E_UDP \<Rightarrow> udp_event_handler | E_TCP \<Rightarrow> tcp_event_handler) m) es (kreturn ()))"

definition net_init :: "nenv \<Rightarrow> (nstate, int) kop" where
  "net_init e = kbind (arp_init e) (\<lambda>r. if r = - 1 then kreturn (- 1)
     else kbind (ip_init e) (\<lambda>r. if r = - 1 then kreturn (- 1)
     else kbind (icmp_init e) (\<lambda>r. if r = - 1 then kreturn (- 1)
     else kbind (udp_init e) (\<lambda>r. if r = - 1 then kreturn (- 1)
     else kbind (tcp_init e) (\<lambda>r. kreturn (if r = - 1 then - 1 else 0))))))"


subsection \<open>Start-up\<close>

text \<open>The state before \<open>net_init\<close>: the lists are empty and the static arrays zero, the identification counter has its initial value.\<close>

definition net_zero :: nstate where
  "net_zero = \<lparr>n_devices = [], n_dev = (\<lambda>_. net_device_zero), n_ndev = 0,
     n_if = (\<lambda>_. \<lparr>if_dev = None, if_family = 0, if_unicast = 0, if_netmask = 0, if_broadcast = 0\<rparr>), n_nif = 0, n_eth = None,
     n_protocols = [], n_timers = [], n_events = [], ip_ifaces = [], ip_protocols = [], ip_routes = [], ip_id_counter = 128,
     arp_caches = replicate ARP_CACHE_SIZE \<lparr>ac_state = ARP_FREE, ac_pa = 0, ac_ha = replicate ETHER_ADDR_LEN 0, ac_time = timerclear\<rparr>,
     udp_pcbs = replicate UDP_PCB_SIZE \<lparr>up_state = UDP_FREE, up_local = \<lparr>ep_addr = 0, ep_port = 0\<rparr>, up_queue = queue_init, up_ctx = sched_ctx_init\<rparr>,
     tcp_pcbs = replicate TCP_PCB_SIZE tcp_pcb_zero,
     socks = replicate 128 \<lparr>so_used = False, so_family = 0, so_type = SOCK_NONE, so_desc = 0\<rparr>,
     n_ticks = 0, ping_wait = False, ping_got = False, ping_id = 0, ping_seq = 0, n_allocs = 0, n_wire = [], n_txs = 0, n_polls = 0, n_woken = []\<rparr>"

definition device_init :: "nenv \<Rightarrow> (net_device \<Rightarrow> net_device) \<Rightarrow> (nstate, nat option) kop" where
  "device_init e setup = kbind (net_device_alloc e setup) (\<lambda>r. case r of None \<Rightarrow> kreturn None
     | Some i \<Rightarrow> kbind (net_device_register i) (\<lambda>r. kreturn (if r = - 1 then None else Some i)))"

definition null_init :: "nenv \<Rightarrow> (nstate, nat option) kop" where
  "null_init e = device_init e null_setup"

definition loopback_init :: "nenv \<Rightarrow> (nstate, nat option) kop" where
  "loopback_init e = device_init e loopback_setup"

definition sirpair_microps_core_init :: "nenv \<Rightarrow> (nstate, int) kop" where
  "sirpair_microps_core_init e =
     kbind (net_init e) (\<lambda>r. if r \<noteq> 0 then kreturn (- 1)
     else kbind (null_init e) (\<lambda>d. if d = None then kreturn (- 1)
     else kbind (loopback_init e) (\<lambda>d. case d of None \<Rightarrow> kreturn (- 1)
     | Some i \<Rightarrow> kbind (ip_iface_alloc e (ascii ''127.0.0.1'') (ascii ''255.0.0.0'')) (\<lambda>f. case f of None \<Rightarrow> kreturn (- 1)
     | Some f \<Rightarrow> kbind (ip_iface_register e i f) (\<lambda>r. kreturn (if r \<noteq> 0 then - 1 else 0))))))"

text \<open>Four address bytes as the text that the stack reads addresses from, printed into 20 bytes.\<close>

definition dotted :: "bytes \<Rightarrow> (nstate, bytes) kop" where
  "dotted a = kopt (snprintf 20 (ascii ''%d.%d.%d.%d'') (map (\<lambda>b. FWord (ucast b)) (take 4 a)))"

definition sirpair_e1000_register_iface :: "nenv \<Rightarrow> bytes \<Rightarrow> bytes \<Rightarrow> bytes \<Rightarrow> bytes \<Rightarrow> (nstate, int) kop" where
  "sirpair_e1000_register_iface e mac ip netmask gw =
     kbind (device_init e (sirpair_e1000_setup mac)) (\<lambda>d. case d of None \<Rightarrow> kreturn (- 1)
     | Some i \<Rightarrow> kbind (dotted ip) (\<lambda>ipstr. kbind (dotted netmask) (\<lambda>maskstr.
       kbind (ip_iface_alloc e ipstr maskstr) (\<lambda>f. case f of None \<Rightarrow> kreturn (- 1)
     | Some f \<Rightarrow> kbind (ip_iface_register e i f) (\<lambda>r. if r < 0 then kreturn (- 1)
       else kbind (dotted gw) (\<lambda>gwstr. kbind (ip_route_set_default_gateway e f gwstr) (\<lambda>r. if r < 0 then kreturn (- 1)
       else kthen (kmod (\<lambda>s. s\<lparr>n_eth := Some i\<rparr>)) (kreturn 0))))))))"

definition sirpair_e1000_sync_ndev_cfg :: "nenv \<Rightarrow> bytes \<Rightarrow> bytes \<Rightarrow> bytes \<Rightarrow> bytes \<Rightarrow> (nstate, int) kop" where
  "sirpair_e1000_sync_ndev_cfg e mac ip netmask gw =
     kbind (dotted ip) (\<lambda>ips. kbind (dotted netmask) (\<lambda>ms. kbind (dotted gw) (\<lambda>gwstr. kbind (kget id) (\<lambda>s. case n_eth s of
         None \<Rightarrow> sirpair_e1000_register_iface e mac ip netmask gw
       | Some i \<Rightarrow> (case net_device_get_iface i NET_IFACE_FAMILY_IP s of
           None \<Rightarrow> kreturn (- 1)
         | Some f \<Rightarrow> ip_iface_reconfigure e f ips ms gwstr)))))"


subsection \<open>The socket table\<close>

definition AF_INET :: int where "AF_INET = 2"

definition set_sock :: "nat \<Rightarrow> (sock \<Rightarrow> sock) \<Rightarrow> nstate \<Rightarrow> nstate" where
  "set_sock i f s = s\<lparr>socks := (socks s)[i := f (socks s ! i)]\<rparr>"

definition sock_alloc :: "(nstate, nat option) kop" where
  "sock_alloc = kbind (kget (\<lambda>s. find (\<lambda>i. \<not> so_used (socks s ! i)) [0..<length (socks s)])) (\<lambda>r. case r of
       None \<Rightarrow> kreturn None
     | Some i \<Rightarrow> kthen (kmod (set_sock i (\<lambda>x. x\<lparr>so_used := True\<rparr>))) (kreturn (Some i)))"

definition sock_free :: "nat \<Rightarrow> (nstate, int) kop" where
  "sock_free i = kthen (kmod (set_sock i (\<lambda>_. \<lparr>so_used = False, so_family = 0, so_type = SOCK_NONE, so_desc = 0\<rparr>))) (kreturn 0)"

definition sock_get :: "int \<Rightarrow> nstate \<Rightarrow> nat option" where
  "sock_get d s = (if d < 0 \<or> int (length (socks s)) \<le> d then None else Some (nat d))"

definition sock_open :: "int \<Rightarrow> sock_type \<Rightarrow> int \<Rightarrow> (nstate, int) kop" where
  "sock_open domain ty protocol =
     (if domain \<noteq> AF_INET \<or> ty = SOCK_NONE \<or> protocol \<noteq> 0 then kreturn (- 1)
      else kbind sock_alloc (\<lambda>r. case r of None \<Rightarrow> kreturn (- 1)
        | Some i \<Rightarrow> kthen (kmod (set_sock i (\<lambda>x. x\<lparr>so_family := domain, so_type := ty\<rparr>)))
            (kbind (if ty = SOCK_STREAM then tcp_open else udp_open) (\<lambda>d.
             kthen (kmod (set_sock i (\<lambda>x. x\<lparr>so_desc := d\<rparr>))) (kreturn (if d = - 1 then - 1 else int i))))))"

text \<open>A socket of the given type: most calls refuse the others.\<close>

definition sock_of :: "sock_type \<Rightarrow> int \<Rightarrow> nstate \<Rightarrow> sock option" where
  "sock_of ty d s = (case sock_get d s of None \<Rightarrow> None
     | Some i \<Rightarrow> if so_type (socks s ! i) = ty \<and> so_family (socks s ! i) = AF_INET then Some (socks s ! i) else None)"

definition sock_close :: "nenv \<Rightarrow> (nstate, unit) kop \<Rightarrow> int \<Rightarrow> (nstate, int) kop" where
  "sock_close e ph d = kbind (kget id) (\<lambda>s. case sock_get d s of None \<Rightarrow> kreturn (- 1)
     | Some i \<Rightarrow> (case so_type (socks s ! i) of
         SOCK_STREAM \<Rightarrow> kthen (tcp_close e ph (so_desc (socks s ! i))) (sock_free i)
       | SOCK_DGRAM \<Rightarrow> kthen (udp_close (so_desc (socks s ! i))) (sock_free i)
       | SOCK_NONE \<Rightarrow> kreturn (- 1)))"

definition sock_recvfrom :: "nenv \<Rightarrow> int \<Rightarrow> nat \<Rightarrow> (nstate, (int \<times> bytes \<times> ip_endpoint option) nres) kop" where
  "sock_recvfrom e d n = kbind (kget (sock_of SOCK_DGRAM d)) (\<lambda>r. case r of None \<Rightarrow> kreturn (NDone (- 1, [], None))
     | Some x \<Rightarrow> udp_recvfrom e (so_desc x) n)"

definition sock_sendto :: "nenv \<Rightarrow> (nstate, unit) kop \<Rightarrow> int \<Rightarrow> bytes \<Rightarrow> ip_endpoint \<Rightarrow> (nstate, int) kop" where
  "sock_sendto e ph d buf addr = kbind (kget (sock_of SOCK_DGRAM d)) (\<lambda>r. case r of None \<Rightarrow> kreturn (- 1)
     | Some x \<Rightarrow> udp_sendto e ph (so_desc x) buf addr)"

definition sock_bind :: "int \<Rightarrow> ip_endpoint \<Rightarrow> (nstate, int) kop" where
  "sock_bind d addr = kbind (kget id) (\<lambda>s. case sock_of SOCK_STREAM d s of
       Some x \<Rightarrow> tcp_bind (so_desc x) addr
     | None \<Rightarrow> (case sock_of SOCK_DGRAM d s of Some x \<Rightarrow> udp_bind (so_desc x) addr | None \<Rightarrow> kreturn (- 1)))"

definition sock_listen :: "int \<Rightarrow> (nstate, int) kop" where
  "sock_listen d = kbind (kget (sock_of SOCK_STREAM d)) (\<lambda>r. case r of None \<Rightarrow> kreturn (- 1) | Some x \<Rightarrow> tcp_listen (so_desc x))"

text \<open>\<open>sock_accept\<close> once \<open>tcp_accept\<close> has returned; the new entry is used without a check that there is one.\<close>

definition sock_accepted :: "sock \<Rightarrow> int \<times> ip_endpoint option \<Rightarrow> (nstate, int \<times> ip_endpoint option) kop" where
  "sock_accepted x r = (case r of (d, ep) \<Rightarrow> if d = - 1 then kreturn (- 1, None)
     else kbind sock_alloc (\<lambda>r. case r of None \<Rightarrow> kundef
       | Some j \<Rightarrow> kthen (kmod (set_sock j (\<lambda>y. y\<lparr>so_family := so_family x, so_type := so_type x, so_desc := d\<rparr>))) (kreturn (int j, ep))))"

definition sock_accept :: "nenv \<Rightarrow> int \<Rightarrow> (nstate, (int \<times> ip_endpoint option) nres) kop" where
  "sock_accept e d = kbind (kget (sock_of SOCK_STREAM d)) (\<lambda>r. case r of None \<Rightarrow> kreturn (NDone (- 1, None))
     | Some x \<Rightarrow> kbind (tcp_accept e (so_desc x)) (\<lambda>r. case r of
         NWait \<Rightarrow> kreturn NWait
       | NDone r \<Rightarrow> kbind (sock_accepted x r) (\<lambda>r. kreturn (NDone r))))"

definition sock_connect :: "nenv \<Rightarrow> (nstate, unit) kop \<Rightarrow> int \<Rightarrow> ip_endpoint \<Rightarrow> (nstate, int + tcp_state \<times> u32) kop" where
  "sock_connect e ph d addr = kbind (kget (sock_of SOCK_STREAM d)) (\<lambda>r. case r of None \<Rightarrow> kreturn (Inl (- 1))
     | Some x \<Rightarrow> tcp_connect e ph (so_desc x) addr)"

definition sock_recv :: "nenv \<Rightarrow> int \<Rightarrow> nat \<Rightarrow> (nstate, (int \<times> bytes) nres) kop" where
  "sock_recv e d n = kbind (kget (sock_of SOCK_STREAM d)) (\<lambda>r. case r of None \<Rightarrow> kreturn (NDone (- 1, []))
     | Some x \<Rightarrow> tcp_receive e (so_desc x) n)"

definition sock_send :: "nenv \<Rightarrow> (nstate, unit) kop \<Rightarrow> int \<Rightarrow> bytes \<Rightarrow> (nstate, int + nat) kop" where
  "sock_send e ph d buf = kbind (kget (sock_of SOCK_STREAM d)) (\<lambda>r. case r of None \<Rightarrow> kreturn (Inl (- 1))
     | Some x \<Rightarrow> tcp_send e ph (so_desc x) buf)"

definition sock_fdready :: "int \<Rightarrow> bool \<Rightarrow> bool \<Rightarrow> nstate \<Rightarrow> int" where
  "sock_fdready d forwrite is_listen s = (case sock_get d s of None \<Rightarrow> - 1
     | Some i \<Rightarrow> let x = socks s ! i in (case so_type x of
         SOCK_STREAM \<Rightarrow> if is_listen then (if forwrite then 0 else tcp_sock_listen_readable (so_desc x) s)
           else if forwrite then 1 else tcp_sock_has_rx_data (so_desc x) s
       | SOCK_DGRAM \<Rightarrow> if forwrite then 1 else udp_sock_has_datagram (so_desc x) s
       | SOCK_NONE \<Rightarrow> - 1))"

end
