(* ===== verification/IpSpec.thy ===== *)
theory IpSpec
  imports NetStack
begin

section \<open>Correctness of the network layer\<close>

text \<open>
  Addresses and endpoints that are printed are read back, the route lookup finds the most specific route, and what the IP layer sends is what
  the IP layer of the receiver passes on to its protocol.
\<close>

unbundle bit_operations_syntax


subsection \<open>Printed endpoints\<close>

lemma emit_rev_fits: "length s + length cs < sz \<Longrightarrow> emit_rev sz s cs = s @ cs"
  by (induction cs arbitrary: s) (auto simp: room_def)

lemma dec_length: "n < 10 ^ m \<Longrightarrow> n < 2 ^ 31 \<Longrightarrow> 0 < m \<Longrightarrow> length (dec n) \<le> m"
proof -
  have l: "n < 10 ^ m \<Longrightarrow> 0 < m \<Longrightarrow> length (dec_le k n) \<le> m" for k
  proof (induction k n arbitrary: m rule: dec_le.induct)
    case (2 k n)
    obtain j where m: "m = Suc j" using "2.prems"(2) by (cases m) auto
    have "n div 10 < 10 ^ j" using "2.prems"(1) unfolding m by (simp add: div_less_iff_less_mult mult.commute)
    then have "n div 10 \<noteq> 0 \<Longrightarrow> length (dec_le k (n div 10)) \<le> j" using "2.IH" [of j] by (cases j) auto
    then show ?case unfolding m by simp
  qed simp
  assume "n < 10 ^ m" "n < 2 ^ 31" "0 < m"
  then show ?thesis unfolding dec_def using digits10_dec [of n 16] l [of 16] by simp
qed

lemma fmt_literal: "c \<noteq> 37 \<Longrightarrow> room sz s \<Longrightarrow> fmt_loop sz (c # r) s ap = fmt_loop sz r (s @ [c]) ap"
  by (subst fmt_loop.simps) simp

lemma fmt_decimal:
  assumes "unat w < 2 ^ 31" "room sz s"
  shows "fmt_loop sz (37 # 100 # r) s (FWord w # ap) = fmt_loop sz r (fmt_uint10 sz s w) ap"
proof -
  have "\<not> sint w < 0"
  proof -
    have "int (unat w) < int (2 ^ 31)" using assms(1) by (simp only: of_nat_less_iff)
    then have "uint w < 2 ^ 31" by simp
    then have "signed_take_bit 31 (uint w) = uint w" using signed_take_bit_int_eq_self [of 31 "uint w"] uint_ge_0 [of w] by linarith
    then have "sint w = uint w" by (simp add: sint_uint)
    then show ?thesis by simp
  qed
  then show ?thesis using assms(2) by (subst fmt_loop.simps) (simp add: Let_def is_digit_def fmt_conv_def fmt_int10_def)
qed

lemma fmt_uint10_dec:
  assumes "length s + length (dec (unat w)) < sz"
  shows "fmt_uint10 sz s w = s @ dec (unat w)"
  using assms emit_rev_fits [of s "rev (digits10 16 w)" sz] by (simp add: fmt_uint10_def dec_def)


lemma dec_u8: "length (dec (unat (b :: u8))) \<le> 3"
proof -
  have "unat b < 256" using unsigned_less [where ?'a = nat, of b] by simp
  then show ?thesis using dec_length [of "unat b" 3] by simp
qed

lemma dec_u16: "length (dec (unat (w :: u16))) \<le> 5"
proof -
  have "unat w < 65536" using unsigned_less [where ?'a = nat, of w] by simp
  then show ?thesis using dec_length [of "unat w" 5] by simp
qed

text \<open>The text of an address, and of a port.\<close>

definition dots :: "u8 \<Rightarrow> u8 \<Rightarrow> u8 \<Rightarrow> u8 \<Rightarrow> bytes" where
  "dots a b c d = dec (unat a) @ 46 # dec (unat b) @ 46 # dec (unat c) @ 46 # dec (unat d)"

lemma dots_length: "length (dots a b c d) \<le> 15"
  using dec_u8 [of a] dec_u8 [of b] dec_u8 [of c] dec_u8 [of d] by (simp add: dots_def)

lemma ascii_formats: "ascii ''%d.%d.%d.%d'' = [37, 100, 46, 37, 100, 46, 37, 100, 46, 37, 100]" "ascii '':%d'' = [58, 37, 100]"
  by (simp_all add: ascii_def)

lemma unat_ucast8: "unat (ucast (b :: u8) :: u32) = unat b"
  by (simp add: unsigned_ucast_eq take_bit_eq_mod mod_less order_less_trans [OF unsigned_less])


lemma unat_ucast16: "unat (ucast (b :: u16) :: u32) = unat b"
  by (simp add: unsigned_ucast_eq take_bit_eq_mod mod_less order_less_trans [OF unsigned_less])

lemma small8: "unat (b :: u8) < 2 ^ 31"
  using unsigned_less [where ?'a = nat, of b] by simp

text \<open>One number of an address, followed by a character of the format.\<close>

lemma fmt_byte:
  assumes "length s + 3 < sz"
  shows "fmt_loop sz (37 # 100 # r) s (FWord (ucast (b :: u8)) # ap) = fmt_loop sz r (s @ dec (unat b)) ap"
proof -
  have "fmt_loop sz (37 # 100 # r) s (FWord (ucast b) # ap) = fmt_loop sz r (fmt_uint10 sz s (ucast b)) ap"
    by (rule fmt_decimal) (use assms small8 [of b] in \<open>simp_all add: unat_ucast8 room_def\<close>)
  moreover have "fmt_uint10 sz s (ucast b) = s @ dec (unat b)"
    using fmt_uint10_dec [of s "ucast b" sz] dec_u8 [of b] assms by (simp add: unat_ucast8)
  ultimately show ?thesis by simp
qed

lemma fmt_dotted:
  assumes "16 \<le> sz"
  shows "snprintf sz (ascii ''%d.%d.%d.%d'') (map (\<lambda>b. FWord (ucast (b :: u8))) [a, b, c, d]) = Some (dots a b c d)"
proof -
  note l = dec_u8 [of a] dec_u8 [of b] dec_u8 [of c] assms
  have "snprintf sz (ascii ''%d.%d.%d.%d'') (map (\<lambda>b. FWord (ucast b)) [a, b, c, d]) =
      fmt_loop sz (37 # 100 # 46 # 37 # 100 # 46 # 37 # 100 # 46 # 37 # 100 # []) [] [FWord (ucast a), FWord (ucast b), FWord (ucast c), FWord (ucast d)]"
    using assms by (simp add: snprintf_def vsnprintf_def ascii_formats)
  also have "\<dots> = fmt_loop sz (37 # 100 # 46 # 37 # 100 # 46 # 37 # 100 # []) (dec (unat a) @ [46]) [FWord (ucast b), FWord (ucast c), FWord (ucast d)]"
    using l by (simp add: fmt_byte fmt_literal room_def)
  also have "\<dots> = fmt_loop sz (37 # 100 # 46 # 37 # 100 # []) (dec (unat a) @ 46 # dec (unat b) @ [46]) [FWord (ucast c), FWord (ucast d)]"
    using l by (simp add: fmt_byte fmt_literal room_def)
  also have "\<dots> = fmt_loop sz (37 # 100 # []) (dec (unat a) @ 46 # dec (unat b) @ 46 # dec (unat c) @ [46]) [FWord (ucast d)]"
    using l by (simp add: fmt_byte fmt_literal room_def)
  also have "\<dots> = Some (dots a b c d)"
    using l by (simp add: fmt_byte dots_def fmt_loop.simps [of _ "[]"])
  finally show ?thesis .
qed

lemma dots_pton: "pton_loop 4 (dots a b c d) n = Some (True, n[0 := a, 1 := b, 2 := c, 3 := d])"
proof -
  have e: "ends_number (46 # r)" for r by (simp add: ends_number_def digit_val_def)
  have e0: "ends_number []" by (simp add: ends_number_def)
  have k: "0 \<le> int (unat x) \<and> int (unat x) \<le> 255" for x :: u8 using unsigned_less [where ?'a = int, of x] by simp
  have w: "word_of_int (int (unat x)) = x" for x :: u8 by simp
  have ne: "dec (unat x) @ r \<noteq> r" for x :: u8 and r using dec_first [OF small8 [of x]] by auto
  have step: "pton_loop (Suc j) (dec (unat x) @ r) n = (if (if j = 0 then r \<noteq> [] else r = [] \<or> hd r \<noteq> 46) then Some (False, n) else pton_loop j (tl r) (n[3 - j := x]))"
    if "ends_number r" for x :: u8 and j r n
    using strtol_dec [OF small8 [of x] that] k [of x] ne [of x r] ne [of x r, symmetric] by (simp add: w)
  have four: "(4 :: nat) = Suc (Suc (Suc (Suc 0)))" by simp
  show ?thesis unfolding four dots_def using step [OF e] step [OF e0, where ?j = 0 and x = d] by simp
qed


text \<open>Reading a field where it has been written.\<close>

lemma get_field:
  "length pre = off \<Longrightarrow> get16 (pre @ le16 h @ post) off = h"
  "length pre = off \<Longrightarrow> get32 (pre @ le32 w @ post) off = w"
  using le16_join [of h] le32_join [of w]
  by (auto simp: get16_def get32_def le16_def le32_def nth_append numeral_2_eq_2 numeral_3_eq_3)

lemma le32_get [simp]: "get32 (le32 a) 0 = a"
  using get_field(2) [of "[]" 0 a "[]"] by simp

lemma le32_four: "\<exists>a b c d. le32 w = [a, b, c, d]"
  by (simp add: le32_def)

text \<open>An address is printed as four numbers and read back.\<close>

lemma ip_addr_text:
  assumes "le32 n = [a, b, c, d]"
  shows "16 \<le> sz \<Longrightarrow> ip_addr_ntop n sz = Some (dots a b c d)" "ip_addr_pton (dots a b c d) old = Some (True, n)"
proof -
  show "16 \<le> sz \<Longrightarrow> ip_addr_ntop n sz = Some (dots a b c d)" unfolding ip_addr_ntop_def assms by (rule fmt_dotted)
  obtain a' b' c' d' where o: "le32 old = [a', b', c', d']" using le32_four by blast
  have "(le32 old)[0 := a, 1 := b, 2 := c, 3 := d] = le32 n" unfolding o assms by simp
  then show "ip_addr_pton (dots a b c d) old = Some (True, n)" unfolding ip_addr_pton_def dots_pton by simp
qed

lemma no_colon: "58 \<notin> set (dec n)" if "n < 2 ^ 31"
proof -
  have "dec n = map (\<lambda>d. 48 + of_nat d) (rev (dec_le 16 n))" unfolding dec_def using digits10_dec [of n 16] that by (simp add: rev_map)
  moreover have "d \<in> set (dec_le 16 n) \<Longrightarrow> (48 + of_nat d :: u8) \<noteq> 58" for d
    using digit10(2) [of d] dec_le_small [of d 16 n] by (auto simp: is_digit_def)
  ultimately show ?thesis by auto
qed

lemma hton16_zero: "hton16 0 = 0"
  by (simp add: hton16_def byteswap16_def)

lemma fmt_port:
  assumes "length (dec (unat w)) + 1 < sz"
  shows "snprintf sz (ascii '':%d'') [FWord (ucast (w :: u16))] = Some (58 # dec (unat w))"
proof -
  have s: "unat (ucast w :: u32) < 2 ^ 31" using unsigned_less [where ?'a = nat, of w] by (simp add: unat_ucast16)
  have "snprintf sz (ascii '':%d'') [FWord (ucast w)] = fmt_loop sz (37 # 100 # []) [58] [FWord (ucast w)]"
    using assms by (simp add: snprintf_def vsnprintf_def ascii_formats fmt_literal room_def)
  also have "\<dots> = fmt_loop sz [] (fmt_uint10 sz [58] (ucast w)) []"
    by (rule fmt_decimal [OF s]) (use assms dec_first [of "unat w"] s in \<open>auto simp: room_def unat_ucast16\<close>)
  also have "\<dots> = Some (58 # dec (unat w))"
    using fmt_uint10_dec [of "[58]" "ucast w" sz] assms by (simp add: unat_ucast16 fmt_loop.simps [of _ "[]"])
  finally show ?thesis .
qed

text \<open>C30. Printing an endpoint with \<open>ip_endpoint_ntop\<close> into a buffer of \<open>IP_ENDPOINT_STR_LEN\<close> bytes loses nothing: \<open>ip_endpoint_pton\<close> reads the text
  back as the same address and port, whatever the address and for every port but 0, which no endpoint text may have.\<close>

theorem endpoint_text_roundtrip:
  assumes "ep_port ep \<noteq> 0"
  shows "\<exists>t. ip_endpoint_ntop ep IP_ENDPOINT_STR_LEN = Some t \<and> ip_endpoint_pton t = Some (Some ep)"
proof -
  obtain a b c d where l: "le32 (ep_addr ep) = [a, b, c, d]" using le32_four by blast
  let ?p = "unat (ntoh16 (ep_port ep))" let ?t = "dots a b c d"
  have p: "?p < 65536" using unsigned_less [where ?'a = nat, of "ntoh16 (ep_port ep)"] by simp
  have p0: "ntoh16 (ep_port ep) \<noteq> 0" using assms ntoh_hton(3) [of "ep_port ep"] hton16_zero by metis
  have sz: "IP_ENDPOINT_STR_LEN = 22" by (simp add: IP_ENDPOINT_STR_LEN_def IP_ADDR_STR_LEN_def)
  have room: "length ?t + length (dec ?p) < 21" using dots_length [of a b c d] dec_u16 [of "ntoh16 (ep_port ep)"] by linarith
  have f: "snprintf (22 - length ?t) (ascii '':%d'') [FWord (ucast (ntoh16 (ep_port ep)))] = Some (58 # dec ?p)"
    using room by (intro fmt_port) linarith
  have n: "ip_endpoint_ntop ep IP_ENDPOINT_STR_LEN = Some (?t @ 58 # dec ?p)"
    unfolding ip_endpoint_ntop_def sz using ip_addr_text(1) [OF l, of 22] f by simp
  have k: "strrchr (?t @ 58 # dec ?p) 58 = Some (length ?t)"
    unfolding strrchr_def using strrchr_append [OF no_colon, of ?p ?t 0 None] p by simp
  have u: "uint (ntoh16 (ep_port ep)) \<noteq> 0" "uint (ntoh16 (ep_port ep)) \<le> 65535"
    using p0 unsigned_less [where ?'a = int, of "ntoh16 (ep_port ep)"] by (simp_all add: word_uint_eq_iff)
  have "strtol (dec ?p) 10 = Some (int ?p, [])" using strtol_dec [of ?p "[]"] p by (simp add: ends_number_def)
  then have "ip_endpoint_pton (?t @ 58 # dec ?p) = Some (Some ep)"
    unfolding ip_endpoint_pton_def k using dots_length [of a b c d] ip_addr_text(2) [OF l, of 0] u
    by (simp add: IP_ADDR_STR_LEN_def unat_eq_0)
  then show ?thesis using n by blast
qed


theorem endpoint_text_roundtrip_witness:
  "\<exists>t. ip_endpoint_ntop \<lparr>ep_addr = 0x0102a8c0, ep_port = 80\<rparr> IP_ENDPOINT_STR_LEN = Some t
     \<and> ip_endpoint_pton t = Some (Some \<lparr>ep_addr = 0x0102a8c0, ep_port = 80\<rparr>)"
  by (rule endpoint_text_roundtrip) simp


subsection \<open>The most specific route\<close>

definition route_matches :: "u32 \<Rightarrow> ip_route \<Rightarrow> bool" where
  "route_matches dst r \<longleftrightarrow> dst AND rt_netmask r = rt_network r"

lemma route_scan_best:
  assumes "\<And>c. cand = Some c \<Longrightarrow> c \<in> set pre \<and> route_matches dst c \<and> (\<forall>q \<in> set pre. route_matches dst q \<longrightarrow> ntoh32 (rt_netmask q) \<le> ntoh32 (rt_netmask c))"
    and "cand = None \<Longrightarrow> \<forall>q \<in> set pre. \<not> route_matches dst q"
  shows "case route_scan dst rs cand of None \<Rightarrow> \<forall>q \<in> set (pre @ rs). \<not> route_matches dst q
    | Some r \<Rightarrow> r \<in> set (pre @ rs) \<and> route_matches dst r \<and> (\<forall>q \<in> set (pre @ rs). route_matches dst q \<longrightarrow> ntoh32 (rt_netmask q) \<le> ntoh32 (rt_netmask r))"
  using assms
proof (induction rs arbitrary: cand pre)
  case Nil
  then show ?case by (cases cand) auto
next
  case (Cons x rs)
  let ?c = "if dst AND rt_netmask x = rt_network x then
        (case cand of None \<Rightarrow> Some x | Some c \<Rightarrow> if ntoh32 (rt_netmask c) < ntoh32 (rt_netmask x) then Some x else cand) else cand"
  have "case route_scan dst rs ?c of None \<Rightarrow> \<forall>q \<in> set ((pre @ [x]) @ rs). \<not> route_matches dst q
    | Some r \<Rightarrow> r \<in> set ((pre @ [x]) @ rs) \<and> route_matches dst r \<and> (\<forall>q \<in> set ((pre @ [x]) @ rs). route_matches dst q \<longrightarrow> ntoh32 (rt_netmask q) \<le> ntoh32 (rt_netmask r))"
  proof (rule Cons.IH)
    show "?c = None \<Longrightarrow> \<forall>q \<in> set (pre @ [x]). \<not> route_matches dst q"
      using Cons.prems(2) by (cases cand) (auto simp: route_matches_def split: if_splits)
    fix c assume "?c = Some c"
    then show "c \<in> set (pre @ [x]) \<and> route_matches dst c \<and> (\<forall>q \<in> set (pre @ [x]). route_matches dst q \<longrightarrow> ntoh32 (rt_netmask q) \<le> ntoh32 (rt_netmask c))"
      using Cons.prems by (cases cand) (fastforce simp: route_matches_def split: if_splits)+
  qed
  moreover have e: "(pre @ [x]) @ rs = pre @ x # rs" by simp
  ultimately show ?case unfolding e route_scan.simps by blast
qed

text \<open>C32. \<open>ip_route_lookup\<close> returns a route whose network contains the destination and whose netmask, read in host order, is the largest among all
  such routes, which is the longest prefix; it returns none only if no route matches, so that a default route (netmask 0) is used only when nothing else fits.\<close>

theorem route_lookup_longest_prefix:
  "case ip_route_lookup dst s of None \<Rightarrow> \<forall>q \<in> set (ip_routes s). dst AND rt_netmask q \<noteq> rt_network q
   | Some r \<Rightarrow> r \<in> set (ip_routes s) \<and> dst AND rt_netmask r = rt_network r
       \<and> (\<forall>q \<in> set (ip_routes s). dst AND rt_netmask q = rt_network q \<longrightarrow> ntoh32 (rt_netmask q) \<le> ntoh32 (rt_netmask r))"
  using route_scan_best [of None "[]" dst "ip_routes s"] unfolding ip_route_lookup_def route_matches_def by (simp split: option.splits)


theorem route_lookup_longest_prefix_witness:
  "ip_route_lookup 0x0201000a (net_zero\<lparr>ip_routes := [\<lparr>rt_network = 0, rt_netmask = 0, rt_nexthop = 0x0100000a, rt_iface = 1\<rparr>,
     \<lparr>rt_network = 0x0001000a, rt_netmask = 0x00ffffff, rt_nexthop = 0, rt_iface = 2\<rparr>]\<rparr>)
   = Some \<lparr>rt_network = 0x0001000a, rt_netmask = 0x00ffffff, rt_nexthop = 0, rt_iface = 2\<rparr>"
proof -
  let ?s = "net_zero\<lparr>ip_routes := [\<lparr>rt_network = 0, rt_netmask = 0, rt_nexthop = 0x0100000a, rt_iface = 1\<rparr>,
     \<lparr>rt_network = 0x0001000a, rt_netmask = 0x00ffffff, rt_nexthop = 0, rt_iface = 2\<rparr>]\<rparr>"
  have m: "ntoh32 0 = 0" "ntoh32 0x00ffffff = 0xffffff00" by code_simp+
  have "ip_route_lookup 0x0201000a ?s \<noteq> None"
    using route_lookup_longest_prefix [where dst = "0x0201000a" and s = ?s] by (cases "ip_route_lookup 0x0201000a ?s") auto
  then show ?thesis
    using route_lookup_longest_prefix [where dst = "0x0201000a" and s = ?s] by (auto simp: m)
qed


subsection \<open>Datagrams\<close>

definition dgram_hdr :: "u8 \<Rightarrow> nat \<Rightarrow> u32 \<Rightarrow> u32 \<Rightarrow> u16 \<Rightarrow> u16 \<Rightarrow> ip_hdr" where
  "dgram_hdr protocol n src dst i c = \<lparr>ih_vhl = 0x45, ih_tos = 0, ih_total = hton16 (20 + of_nat n), ih_id = hton16 i,
     ih_offset = 0, ih_ttl = 0xff, ih_protocol = protocol, ih_sum = c, ih_src = src, ih_dst = dst\<rparr>"

lemma length_ip_hdr [simp]: "length (ip_hdr_bytes h) = 20"
  by (simp add: ip_hdr_bytes_def)

lemma ip_datagram_form:
  "\<exists>c. ip_datagram protocol data src dst i 0 = Some (ip_hdr_bytes (dgram_hdr protocol (length data) src dst i c) @ data)
     \<and> cksum16 (ip_hdr_bytes (dgram_hdr protocol (length data) src dst i c)) 20 0 = Some 0"
proof -
  let ?h = "dgram_hdr protocol (length data) src dst i"
  obtain c where c: "cksum16 (ip_hdr_bytes (?h 0)) 20 0 = Some c" using cksum16_eq [of 20 "ip_hdr_bytes (?h 0)" 0] by auto
  have v: "push_bit 4 IP_VERSION_IPV4 OR ucast (drop_bit 2 (20 :: u16)) = 0x45" by (simp add: IP_VERSION_IPV4_def)
  have "ip_datagram protocol data src dst i 0 = Some (ip_hdr_bytes (?h c) @ data)"
    using c unfolding ip_datagram_def Let_def v hton16_zero by (simp add: dgram_hdr_def)
  moreover have "cksum16 (ip_hdr_bytes (?h c)) 20 0 = Some 0"
    using cksum16_fill [of "[ih_vhl (?h 0), ih_tos (?h 0)] @ le16 (ih_total (?h 0)) @ le16 (ih_id (?h 0)) @ le16 (ih_offset (?h 0)) @ [ih_ttl (?h 0), ih_protocol (?h 0)]"
        20 "le32 src @ le32 dst" 0 c] c by (simp add: ip_hdr_bytes_def dgram_hdr_def)
  ultimately show ?thesis by blast
qed


text \<open>The fields of the header at their offsets.\<close>

lemma dgram_fields:
  fixes protocol n src dst i c r
  defines "d \<equiv> ip_hdr_bytes (dgram_hdr protocol n src dst i c) @ r"
  shows "d ! 0 = 0x45" "get16 d 2 = hton16 (20 + of_nat n)" "get16 d 6 = 0" "d ! 9 = protocol"
    "get32 d 12 = src" "get32 d 16 = dst" "drop 20 d = r" "length d = 20 + length r"
proof -
  note h = d_def ip_hdr_bytes_def dgram_hdr_def
  show "d ! 0 = 0x45" "d ! 9 = protocol" by (simp_all add: h nth_append)
  show "get16 d 2 = hton16 (20 + of_nat n)" using get_field(1) [of "[0x45, 0]" 2 "hton16 (20 + of_nat n)"] by (simp add: h)
  show "get16 d 6 = 0" using get_field(1) [of "[0x45, 0] @ le16 (hton16 (20 + of_nat n)) @ le16 (hton16 i)" 6 0] by (simp add: h)
  show "get32 d 12 = src"
    using get_field(2) [of "[0x45, 0] @ le16 (hton16 (20 + of_nat n)) @ le16 (hton16 i) @ le16 0 @ [0xff, protocol] @ le16 c" 12 src] by (simp add: h)
  show "get32 d 16 = dst"
    using get_field(2) [of "[0x45, 0] @ le16 (hton16 (20 + of_nat n)) @ le16 (hton16 i) @ le16 0 @ [0xff, protocol] @ le16 c @ le32 src" 16 dst] by (simp add: h)
  show "drop 20 d = r" "length d = 20 + length r" by (simp_all add: d_def)
qed

lemma cksum16_prefix_zero:
  assumes "unat count \<le> length d" "unat init \<le> 65535" "cksum16 d count init = Some 0"
  shows "cksum16 (d @ r) count init = Some 0"
  using cksum16_zero [OF assms(1,2)] cksum16_zero [of count "d @ r" init] assms by simp

text \<open>The receiver: an interface of the device with the destination address, and a handler for the protocol.\<close>

definition ip_accepts :: "nstate \<Rightarrow> nat \<Rightarrow> nat \<Rightarrow> u32 \<Rightarrow> u8 \<Rightarrow> iphandler \<Rightarrow> bool" where
  "ip_accepts s dev f dst protocol h \<longleftrightarrow> net_device_get_iface dev NET_IFACE_FAMILY_IP s = Some f
     \<and> dst \<in> {if_unicast (n_if s f), if_broadcast (n_if s f), IP_ADDR_BROADCAST}
     \<and> map_option snd (find (\<lambda>p. fst p = protocol) (ip_protocols s)) = Some h"

lemma ip_input_datagram:
  assumes d: "ip_datagram protocol data src dst i 0 = Some d" and n: "length data \<le> IP_PAYLOAD_SIZE_MAX" and a: "ip_accepts s dev f dst protocol h"
  shows "ip_input handler (d @ pad) dev s = handler h (data @ pad) (of_nat (length data)) src dst f s"
proof -
  obtain c where c: "d = ip_hdr_bytes (dgram_hdr protocol (length data) src dst i c) @ data"
      "cksum16 (ip_hdr_bytes (dgram_hdr protocol (length data) src dst i c)) 20 0 = Some 0"
    using ip_datagram_form [of protocol data src dst i] d by auto
  note fs = dgram_fields [of protocol "length data" src dst i c "data @ pad"]
  have e: "d @ pad = ip_hdr_bytes (dgram_hdr protocol (length data) src dst i c) @ data @ pad" using c(1) by simp
  have n': "length data \<le> 65515" using n by (simp add: IP_PAYLOAD_SIZE_MAX_def IP_TOTAL_SIZE_MAX_def IP_HDR_SIZE_MIN_def)
  have u: "unat (20 + of_nat (length data) :: u16) = 20 + length data" using n' by (simp add: unat_word_ariths unat_of_nat)
  have "unat (ucast (20 + of_nat (length data) :: u16) :: u32) = unat (of_nat (20 + length data) :: u32)"
    unfolding unat_ucast16 u using n' by (subst unat_of_nat_u32) simp_all
  then have w: "ucast (20 + of_nat (length data) :: u16) - 20 = (of_nat (length data) :: u32)" by (simp add: word_unat_eq_iff [symmetric])
  have k: "cksum16 (ip_hdr_bytes (dgram_hdr protocol (length data) src dst i c) @ data @ pad) 20 0 = Some 0" by (rule cksum16_prefix_zero) (simp_all add: c(2))
  obtain ty where p: "find (\<lambda>p. fst p = protocol) (ip_protocols s) = Some (ty, h)" using a by (auto simp: ip_accepts_def)
  have v: "drop_bit 4 (0x45 :: u8) = 4" "push_bit 2 (ucast (0x45 AND 0x0f :: u8)) = (20 :: u16)" by simp_all
  have z: "ntoh16 0 = 0" using ntoh_hton(1) [of 0] by (simp only: hton16_zero)
  show ?thesis unfolding e ip_input_def Let_def fs using a p
    by (auto simp: IP_HDR_SIZE_MIN_def IP_VERSION_IPV4_def v u z cksum_def kopt_def k ip_accepts_def w kbind_def kreturn_def kget_def)
qed



subsection \<open>Sending through a resolved next hop\<close>

text \<open>The interface, the Ethernet device and the hardware address through which a destination is reached once its next hop is in the ARP cache.\<close>

definition eth_path :: "u32 \<Rightarrow> nstate \<Rightarrow> (nat \<times> nat \<times> bytes) option" where
  "eth_path dst s = (case ip_route_lookup dst s of None \<Rightarrow> None
     | Some r \<Rightarrow> (case if_dev (n_if s (rt_iface r)) of None \<Rightarrow> None
     | Some i \<Rightarrow> let f = rt_iface r; d = n_dev s i; hop = (if rt_nexthop r \<noteq> IP_ADDR_ANY then rt_nexthop r else dst) in
         if nd_ops d = EtherOps \<and> nd_type d = NET_DEVICE_TYPE_ETHERNET \<and> NET_DEVICE_IS_UP d \<and> nd_flags d AND NET_DEVICE_FLAG_NEED_ARP \<noteq> 0
            \<and> unat (nd_mtu d) \<le> 1500 \<and> if_family (n_if s f) = NET_IFACE_FAMILY_IP \<and> hop \<noteq> if_broadcast (n_if s f) \<and> hop \<noteq> IP_ADDR_BROADCAST
         then (case arp_cache_select hop (arp_caches s) of None \<Rightarrow> None
           | Some j \<Rightarrow> if ac_state (arp_caches s ! j) = ARP_INCOMPLETE \<or> length (ac_ha (arp_caches s ! j)) \<noteq> 6 \<or> length (nd_addr d) \<noteq> 16 then None
               else Some (f, i, ac_ha (arp_caches s ! j)))
         else None))"

definition ip_frame :: "nstate \<Rightarrow> nat \<Rightarrow> bytes \<Rightarrow> bytes \<Rightarrow> bytes" where
  "ip_frame s i ha d = ether_frame (n_dev s i) NET_PROTOCOL_TYPE_IP d ha"

lemma eth_path_cong:
  "ip_routes t = ip_routes s \<Longrightarrow> n_if t = n_if s \<Longrightarrow> n_dev t = n_dev s \<Longrightarrow> arp_caches t = arp_caches s \<Longrightarrow> eth_path dst t = eth_path dst s"
  unfolding eth_path_def ip_route_lookup_def by (simp only:)

lemma eth_pathD:
  assumes "eth_path dst s = Some (f, i, ha)"
  obtains r j where "ip_route_lookup dst s = Some r" "rt_iface r = f" "if_dev (n_if s f) = Some i"
    "nd_ops (n_dev s i) = EtherOps" "nd_type (n_dev s i) = NET_DEVICE_TYPE_ETHERNET" "NET_DEVICE_IS_UP (n_dev s i)"
    "nd_flags (n_dev s i) AND NET_DEVICE_FLAG_NEED_ARP \<noteq> 0" "unat (nd_mtu (n_dev s i)) \<le> 1500" "if_family (n_if s f) = NET_IFACE_FAMILY_IP"
    "(if rt_nexthop r \<noteq> IP_ADDR_ANY then rt_nexthop r else dst) \<noteq> if_broadcast (n_if s f)"
    "(if rt_nexthop r \<noteq> IP_ADDR_ANY then rt_nexthop r else dst) \<noteq> IP_ADDR_BROADCAST"
    "arp_cache_select (if rt_nexthop r \<noteq> IP_ADDR_ANY then rt_nexthop r else dst) (arp_caches s) = Some j"
    "ac_state (arp_caches s ! j) \<noteq> ARP_INCOMPLETE" "ac_ha (arp_caches s ! j) = ha" "length ha = 6" "length (nd_addr (n_dev s i)) = 16"
proof (cases "ip_route_lookup dst s")
  case (Some r)
  with assms show ?thesis unfolding eth_path_def Let_def
    by (cases "if_dev (n_if s (rt_iface r))"; cases "arp_cache_select (if rt_nexthop r \<noteq> IP_ADDR_ANY then rt_nexthop r else dst) (arp_caches s)")
      (auto intro!: that split: if_splits)
qed (use assms in \<open>simp add: eth_path_def\<close>)

lemma splice_ha: "length ha = 6 \<Longrightarrow> take ETHER_ADDR_LEN (splice (replicate NET_DEVICE_ADDR_LEN 0) 0 ha) = take ETHER_ADDR_LEN ha"
  by (simp add: splice_def ETHER_ADDR_LEN_def)

lemma length_frame: "length d \<le> 1500 \<Longrightarrow> length ha = 6 \<Longrightarrow> length (nd_addr (n_dev s i)) = 16 \<Longrightarrow> length (ip_frame s i ha d) \<le> 1514"
  by (simp add: ip_frame_def ether_frame_def ETHER_ADDR_LEN_def ETHER_FRAME_SIZE_MIN_def ETHER_HDR_SIZE_def)

lemma wp_eth_output:
  assumes p: "eth_path dst s = Some (f, i, ha)" and n: "length d \<le> unat (nd_mtu (n_dev s i))" and t: "ne_tx e (n_txs s)"
  shows "wp (net_device_output e ph i NET_PROTOCOL_TYPE_IP d (splice (replicate NET_DEVICE_ADDR_LEN 0) 0 ha))
    (\<lambda>r u. r = 0 \<and> u = s\<lparr>n_txs := n_txs s + 1, n_wire := n_wire s @ [ip_frame s i ha d]\<rparr>) s"
proof -
  from p obtain x y where x: "nd_ops (n_dev s i) = EtherOps" "NET_DEVICE_IS_UP (n_dev s i)" "unat (nd_mtu (n_dev s i)) \<le> 1500"
      "length ha = 6" "length (nd_addr (n_dev s i)) = 16" by (rule eth_pathD)
  have e: "ether_frame (n_dev s i) NET_PROTOCOL_TYPE_IP d (splice (replicate NET_DEVICE_ADDR_LEN 0) 0 ha) = ip_frame s i ha d"
    unfolding ip_frame_def ether_frame_def splice_ha [OF x(4)] ..
  have l: "length (ip_frame s i ha d) \<le> 1514" using length_frame [of d ha s i] n x(3-5) by simp
  show ?thesis using x n t l
    by (simp add: net_device_output_def transmit_def ether_transmit_helper_def e sirpair_e1000_xmit_frame_def ETHER_FRAME_SIZE_MAX_def ETHER_HDR_SIZE_def)
qed


lemma wp_ip_output_device:
  assumes p: "eth_path dst s = Some (f, i, ha)" and r: "ip_route_lookup dst s = Some r"
    and n: "length d \<le> unat (nd_mtu (n_dev s i))" and t: "ne_tx e (n_txs s)"
  shows "wp (ip_output_device e ph f d (if rt_nexthop r \<noteq> IP_ADDR_ANY then rt_nexthop r else dst))
    (\<lambda>r u. r = 0 \<and> u = s\<lparr>n_txs := n_txs s + 1, n_wire := n_wire s @ [ip_frame s i ha d]\<rparr>) s"
proof -
  let ?hop = "if rt_nexthop r \<noteq> IP_ADDR_ANY then rt_nexthop r else dst"
  from p obtain r' j where x: "ip_route_lookup dst s = Some r'" "if_dev (n_if s f) = Some i" "nd_type (n_dev s i) = NET_DEVICE_TYPE_ETHERNET"
      "nd_flags (n_dev s i) AND NET_DEVICE_FLAG_NEED_ARP \<noteq> 0" "if_family (n_if s f) = NET_IFACE_FAMILY_IP"
      "(if rt_nexthop r' \<noteq> IP_ADDR_ANY then rt_nexthop r' else dst) \<noteq> if_broadcast (n_if s f)"
      "(if rt_nexthop r' \<noteq> IP_ADDR_ANY then rt_nexthop r' else dst) \<noteq> IP_ADDR_BROADCAST"
      "arp_cache_select (if rt_nexthop r' \<noteq> IP_ADDR_ANY then rt_nexthop r' else dst) (arp_caches s) = Some j"
      "ac_state (arp_caches s ! j) \<noteq> ARP_INCOMPLETE" "ac_ha (arp_caches s ! j) = ha"
    by (rule eth_pathD)
  have e: "r' = r" using x(1) r by simp
  note y = x(6-8) [unfolded e]
  have a: "wp (arp_resolve e ph f i ?hop) Q s \<longleftrightarrow> Q (ARP_RESOLVE_FOUND ha) s" for Q
    unfolding arp_resolve_def using x(3,5,9,10) y(3) by (simp del: if_not_P)
  show ?thesis unfolding ip_output_device_def
    using x(2,4) y(1,2) wp_eth_output [OF p n t, of ph] by (simp add: a del: if_not_P)
qed

text \<open>Sending adds exactly one frame, which holds the datagram, to what the card has sent, and takes one identification number.\<close>

lemma wp_ip_output:
  assumes p: "eth_path dst s = Some (f, i, ha)" and u: "if_unicast (n_if s f) = src" "src \<noteq> IP_ADDR_ANY"
    and n: "20 + length data \<le> unat (nd_mtu (n_dev s i))" and t: "ne_tx e (n_txs s)"
    and d: "ip_datagram protocol data src dst (ip_id_counter s) 0 = Some d"
  shows "wp (ip_output e ph protocol data src dst) (\<lambda>r u. r = int (length data)
    \<and> u = s\<lparr>ip_id_counter := ip_id_counter s + 1, n_txs := n_txs s + 1, n_wire := n_wire s @ [ip_frame s i ha d]\<rparr>) s"
proof -
  from p obtain r j where x: "ip_route_lookup dst s = Some r" "rt_iface r = f" "if_dev (n_if s f) = Some i" "unat (nd_mtu (n_dev s i)) \<le> 1500"
    by (rule eth_pathD)
  let ?s = "s\<lparr>ip_id_counter := ip_id_counter s + 1\<rparr>"
  have l: "length d = 20 + length data" using ip_datagram_form [of protocol data src dst "ip_id_counter s"] d by auto
  have p': "eth_path dst ?s = Some (f, i, ha)" "ip_route_lookup dst ?s = Some r"
    using p x(1) eth_path_cong [of ?s s dst] by (simp_all add: ip_route_lookup_def)
  have "wp (ip_output_device e ph f d (if rt_nexthop r \<noteq> IP_ADDR_ANY then rt_nexthop r else dst))
      (\<lambda>r u. r = 0 \<and> u = ?s\<lparr>n_txs := n_txs s + 1, n_wire := n_wire s @ [ip_frame s i ha d]\<rparr>) ?s"
    using wp_ip_output_device [OF p', of d e ph] n l t by (simp add: ip_frame_def)
  then have o: "wp (ip_output_core e ph f protocol data src dst (if rt_nexthop r \<noteq> IP_ADDR_ANY then rt_nexthop r else dst) (ip_id_counter s) 0)
      (\<lambda>r u. r = 0 \<and> u = ?s\<lparr>n_txs := n_txs s + 1, n_wire := n_wire s @ [ip_frame s i ha d]\<rparr>) ?s"
    using n x(4) by (simp add: ip_output_core_def d IP_PAYLOAD_SIZE_MAX_def IP_TOTAL_SIZE_MAX_def IP_HDR_SIZE_MIN_def)
  have "wp (ip_output_core e ph f protocol data src dst (if rt_nexthop r \<noteq> IP_ADDR_ANY then rt_nexthop r else dst) (ip_id_counter s) 0)
      (\<lambda>a b. (if a = - 1 then - 1 else int (length data)) = int (length data)
         \<and> b = ?s\<lparr>n_txs := n_txs s + 1, n_wire := n_wire s @ [ip_frame s i ha d]\<rparr>) ?s"
    by (rule wp_mono [OF o]) auto
  then show ?thesis unfolding ip_output_def
    using x u n by (cases "rt_nexthop r = IP_ADDR_ANY") (simp_all add: ip_generate_id_def Let_def IP_HDR_SIZE_MIN_def)
qed

end
