(* ===== verification/TcpSpec.thy ===== *)
theory TcpSpec
  imports IpSpec
begin

section \<open>Correctness of the transport layer\<close>

text \<open>
  A segment that is sent through a resolved next hop reaches the segment processing of the receiver unchanged. What TCP relies on below it is the
  locale \<open>ip_service\<close>, interpreted with Ethernet and a filled ARP cache; above it, in-order segments and reads of the user make a first-in first-out byte
  stream. Two theorems show where the segment processing goes wrong: a segment longer than the window, and the end of the sequence space.
\<close>

unbundle bit_operations_syntax


subsection \<open>Segments on the wire\<close>

text \<open>The sum over the pseudo header.\<close>

definition psum_of :: "u32 \<Rightarrow> u32 \<Rightarrow> u8 \<Rightarrow> u16 \<Rightarrow> u32" where
  "psum_of src dst protocol len = ucast (NOT (the (cksum16 (pseudo_hdr src dst protocol len) 12 0)))"

lemma psum_eq: "psum src dst protocol len = kreturn (psum_of src dst protocol len)" "unat (psum_of src dst protocol len) \<le> 65535"
proof -
  obtain c where c: "cksum16 (pseudo_hdr src dst protocol len) 12 0 = Some c"
    using cksum16_eq [of 12 "pseudo_hdr src dst protocol len" 0] by (auto simp: pseudo_hdr_def)
  then show "psum src dst protocol len = kreturn (psum_of src dst protocol len)"
    by (simp add: psum_def psum_of_def cksum_def kopt_def kbind_def kreturn_def fun_eq_iff)
  show "unat (psum_of src dst protocol len) \<le> 65535"
    using unsigned_less [where ?'a = nat, of "NOT c"] unfolding psum_of_def c option.sel unat_ucast16 by simp
qed

lemma cksum16_some: "unat count \<le> length d \<Longrightarrow> unat init \<le> 65535 \<Longrightarrow> \<exists>c. cksum16 d count init = Some c"
  using cksum16_eq by blast

lemma length_tcp_msg [simp]: "length (tcp_msg sp dp seq ack flg wnd c data) = 20 + length data"
  by (simp add: tcp_msg_def)

text \<open>The segment with its checksum filled in.\<close>

definition tcp_segment :: "ip_endpoint \<Rightarrow> ip_endpoint \<Rightarrow> u32 \<Rightarrow> u32 \<Rightarrow> u8 \<Rightarrow> u16 \<Rightarrow> bytes \<Rightarrow> bytes" where
  "tcp_segment src dst seq ack flg wnd data = (let msg = (\<lambda>c. tcp_msg (ep_port src) (ep_port dst) seq ack flg wnd c data) in
     msg (the (cksum16 (msg 0) (of_nat (20 + length data)) (psum_of (ep_addr src) (ep_addr dst) IP_PROTOCOL_TCP (of_nat (20 + length data))))))"

lemma length_tcp_segment [simp]: "length (tcp_segment src dst seq ack flg wnd data) = 20 + length data"
  by (simp add: tcp_segment_def Let_def)

lemma tcp_output_segment_eq:
  assumes "20 + length data \<le> IP_PAYLOAD_SIZE_MAX"
  shows "tcp_output_segment e ph seq ack flg wnd data local foreign =
    kbind (ip_output e ph IP_PROTOCOL_TCP (tcp_segment local foreign seq ack flg wnd data) (ep_addr local) (ep_addr foreign))
      (\<lambda>r. kreturn (if r = - 1 then - 1 else int (length data)))"
proof -
  let ?n = "of_nat (20 + length data) :: u16" let ?m = "tcp_msg (ep_port local) (ep_port foreign) seq ack flg wnd 0 data"
  have u: "unat ?n = 20 + length data" using assms by (simp add: IP_PAYLOAD_SIZE_MAX_def IP_TOTAL_SIZE_MAX_def IP_HDR_SIZE_MIN_def unat_word_ariths unat_of_nat)
  obtain c where c: "cksum16 ?m ?n (psum_of (ep_addr local) (ep_addr foreign) IP_PROTOCOL_TCP ?n) = Some c"
    using cksum16_some [of ?n ?m "psum_of (ep_addr local) (ep_addr foreign) IP_PROTOCOL_TCP ?n"] psum_eq(2) u by auto
  show ?thesis using assms c unfolding tcp_output_segment_def psum_eq Let_def tcp_segment_def
    by (simp add: kbind_def kreturn_def cksum_def kopt_def fun_eq_iff split: kres.splits)
qed

lemma tcp_segment_sum:
  assumes "20 + length data \<le> IP_PAYLOAD_SIZE_MAX"
  shows "cksum16 (tcp_segment src dst seq ack flg wnd data @ pad) (of_nat (20 + length data))
    (psum_of (ep_addr src) (ep_addr dst) IP_PROTOCOL_TCP (of_nat (20 + length data))) = Some 0"
proof -
  let ?n = "of_nat (20 + length data) :: u16" let ?m = "\<lambda>c. tcp_msg (ep_port src) (ep_port dst) seq ack flg wnd c data"
  let ?p = "psum_of (ep_addr src) (ep_addr dst) IP_PROTOCOL_TCP ?n"
  have u: "unat ?n = 20 + length data" using assms by (simp add: IP_PAYLOAD_SIZE_MAX_def IP_TOTAL_SIZE_MAX_def IP_HDR_SIZE_MIN_def unat_word_ariths unat_of_nat)
  obtain c where c: "cksum16 (?m 0) ?n ?p = Some c" using cksum16_some [of ?n "?m 0" ?p] psum_eq(2) u by auto
  have "cksum16 (?m c) ?n ?p = Some 0" unfolding tcp_msg_def
    by (rule cksum16_fill) (use c u psum_eq(2) in \<open>auto simp: tcp_msg_def\<close>)
  then have "cksum16 (tcp_segment src dst seq ack flg wnd data) ?n ?p = Some 0" using c by (simp add: tcp_segment_def Let_def)
  then show ?thesis using u psum_eq(2) by (intro cksum16_prefix_zero) auto
qed


text \<open>The fields of a segment at their offsets.\<close>

lemma tcp_msg_fields:
  fixes sp dp seq ack flg wnd c data r
  defines "d \<equiv> tcp_msg sp dp seq ack flg wnd c data @ r"
  shows "get16 d 0 = sp" "get16 d 2 = dp" "get32 d 4 = hton32 seq" "get32 d 8 = hton32 ack" "d ! 12 = 0x50" "d ! 13 = flg"
    "get16 d 14 = hton16 wnd" "get16 d 18 = 0" "drop 20 d = data @ r"
proof -
  note h = d_def tcp_msg_def
  show "get16 d 0 = sp" using get_field(1) [of "[]" 0 sp] by (simp add: h)
  show "get16 d 2 = dp" using get_field(1) [of "le16 sp" 2 dp] by (simp add: h)
  show "get32 d 4 = hton32 seq" using get_field(2) [of "le16 sp @ le16 dp" 4 "hton32 seq"] by (simp add: h)
  show "get32 d 8 = hton32 ack" using get_field(2) [of "le16 sp @ le16 dp @ le32 (hton32 seq)" 8 "hton32 ack"] by (simp add: h)
  show "d ! 12 = 0x50" "d ! 13 = flg" by (simp_all add: h nth_append)
  show "get16 d 14 = hton16 wnd"
    using get_field(1) [of "le16 sp @ le16 dp @ le32 (hton32 seq) @ le32 (hton32 ack) @ [0x50, flg]" 14 "hton16 wnd"] by (simp add: h)
  show "get16 d 18 = 0"
    using get_field(1) [of "le16 sp @ le16 dp @ le32 (hton32 seq) @ le32 (hton32 ack) @ [0x50, flg] @ le16 (hton16 wnd) @ le16 c" 18 0] by (simp add: h)
  show "drop 20 d = data @ r" by (simp add: h)
qed

lemma get_slice: "off + 2 \<le> n \<Longrightarrow> n \<le> length d \<Longrightarrow> get16 (slice d 0 n) off = get16 d off" "off + 4 \<le> n \<Longrightarrow> n \<le> length d \<Longrightarrow> get32 (slice d 0 n) off = get32 d off"
  by (simp_all add: get16_def get32_def slice_def)

text \<open>What the receiver sees of a segment.\<close>

definition seg_info :: "u32 \<Rightarrow> u32 \<Rightarrow> u8 \<Rightarrow> u16 \<Rightarrow> nat \<Rightarrow> tcp_segment_info" where
  "seg_info seq ack flg wnd n = \<lparr>sg_seq = seq, sg_ack = ack,
     sg_len = of_nat n + (if TCP_FLG_ISSET flg TCP_FLG_SYN then 1 else 0) + (if TCP_FLG_ISSET flg TCP_FLG_FIN then 1 else 0), sg_wnd = wnd, sg_up = 0\<rparr>"

lemma tcp_input_eq:
  assumes l: "\<not> len < 20" and k: "cksum16 d (ucast len) (psum_of src dst IP_PROTOCOL_TCP (ucast len)) = Some 0" and n: "20 \<le> length d" and h: "d ! 12 = 0x50"
    and b: "src \<noteq> IP_ADDR_BROADCAST" "dst \<noteq> IP_ADDR_BROADCAST" "src \<noteq> if_broadcast (n_if s f)" "dst \<noteq> if_broadcast (n_if s f)"
  shows "tcp_input e ph d len src dst f s = tcp_segment_arrives e ph
    \<lparr>sg_seq = ntoh32 (get32 d 4), sg_ack = ntoh32 (get32 d 8), sg_len = ucast (len - 20) + (if TCP_FLG_ISSET (d ! 13) TCP_FLG_SYN then 1 else 0)
       + (if TCP_FLG_ISSET (d ! 13) TCP_FLG_FIN then 1 else 0), sg_wnd = ntoh16 (get16 d 14), sg_up = ntoh16 (get16 d 18)\<rparr>
    (d ! 13) (drop 20 d) (len - 20) \<lparr>ep_addr = dst, ep_port = get16 d 2\<rparr> \<lparr>ep_addr = src, ep_port = get16 d 0\<rparr> s"
proof -
  have v: "push_bit 2 (drop_bit 4 (ucast (0x50 :: u8))) = (20 :: u16)" by simp
  have g: "slice d 0 20 ! 12 = 0x50" "slice d 0 20 ! 13 = d ! 13" using h n by (simp_all add: slice_def)
  show ?thesis unfolding tcp_input_def psum_eq cksum_def kopt_def
    using b l n by (simp add: k kbind_def kreturn_def kget_def rdn_def get_slice g v Let_def split del: if_split)
qed

lemma tcp_input_segment:
  assumes n: "20 + length data \<le> IP_PAYLOAD_SIZE_MAX"
    and b: "ep_addr src \<noteq> IP_ADDR_BROADCAST" "ep_addr dst \<noteq> IP_ADDR_BROADCAST" "ep_addr src \<noteq> if_broadcast (n_if s f)" "ep_addr dst \<noteq> if_broadcast (n_if s f)"
  shows "tcp_input e ph (tcp_segment src dst seq ack flg wnd data @ pad) (of_nat (20 + length data)) (ep_addr src) (ep_addr dst) f s
    = tcp_segment_arrives e ph (seg_info seq ack flg wnd (length data)) flg (data @ pad) (of_nat (length data)) dst src s"
proof -
  let ?d = "tcp_segment src dst seq ack flg wnd data @ pad" let ?n = "of_nat (20 + length data) :: u32"
  have n': "length data \<le> 65495" using n by (simp add: IP_PAYLOAD_SIZE_MAX_def IP_TOTAL_SIZE_MAX_def IP_HDR_SIZE_MIN_def)
  have w: "ucast (of_nat k :: u32) = (of_nat k :: u16)" for k by (simp add: word_unat_eq_iff unsigned_ucast_eq unat_of_nat take_bit_eq_mod mod_mod_cancel)
  have "unat ?n = 20 + length data" using n' by (subst unat_of_nat_u32) simp_all
  then have l: "\<not> ?n < 20" unfolding word_less_nat_alt by simp
  have m: "?n - 20 = of_nat (length data)" by simp
  obtain k where d: "?d = tcp_msg (ep_port src) (ep_port dst) seq ack flg wnd k data @ pad" by (auto simp: tcp_segment_def Let_def)
  note fs = tcp_msg_fields [of "ep_port src" "ep_port dst" seq ack flg wnd k data pad, folded d]
  have z: "ntoh16 0 = 0" using ntoh_hton(1) [of 0] by (simp only: hton16_zero)
  have ep: "\<lparr>ep_addr = ep_addr x, ep_port = ep_port x\<rparr> = x" for x :: ip_endpoint by simp
  have r: "tcp_input e ph ?d ?n (ep_addr src) (ep_addr dst) f s = tcp_segment_arrives e ph
      \<lparr>sg_seq = seq, sg_ack = ack, sg_len = of_nat (length data) + (if TCP_FLG_ISSET flg TCP_FLG_SYN then 1 else 0)
         + (if TCP_FLG_ISSET flg TCP_FLG_FIN then 1 else 0), sg_wnd = wnd, sg_up = 0\<rparr>
      flg (data @ pad) (of_nat (length data)) \<lparr>ep_addr = ep_addr dst, ep_port = ep_port dst\<rparr> \<lparr>ep_addr = ep_addr src, ep_port = ep_port src\<rparr> s"
    using tcp_input_eq [OF l _ _ fs(5) b, of e ph] unfolding fs m w z ntoh_hton by (simp add: tcp_segment_sum [OF n] del: of_nat_add)
  show ?thesis using r unfolding seg_info_def ep .
qed


lemma drop_frame: "length ha = 6 \<Longrightarrow> length (nd_addr (n_dev s i)) = 16 \<Longrightarrow> \<exists>pad. drop ETHER_HDR_SIZE (ip_frame s i ha d) = d @ pad"
  by (simp add: ip_frame_def ether_frame_def ETHER_HDR_SIZE_def ETHER_ADDR_LEN_def)

text \<open>C16. Transport of a segment from end to end: \<open>tcp_output_segment\<close> on the sender puts one Ethernet frame on the wire, and what the protocol handler of the receiver
  does with the payload of that frame is exactly \<open>tcp_segment_arrives\<close> on the same sequence and acknowledgement numbers, flags, window and data, with the two
  endpoints exchanged. The IP and TCP checksums that were filled in are accepted, and the padding of a short frame is not taken for data.\<close>

theorem segment_transport:
  assumes p: "eth_path (ep_addr foreign) s = Some (f, i, ha)" and u: "if_unicast (n_if s f) = ep_addr local" "ep_addr local \<noteq> IP_ADDR_ANY"
    and n: "40 + length data \<le> unat (nd_mtu (n_dev s i))" and t: "ne_tx e (n_txs s)"
    and a: "ip_accepts r dev g (ep_addr foreign) IP_PROTOCOL_TCP H_TCP"
    and b: "ep_addr local \<noteq> IP_ADDR_BROADCAST" "ep_addr foreign \<noteq> IP_ADDR_BROADCAST"
      "ep_addr local \<noteq> if_broadcast (n_if r g)" "ep_addr foreign \<noteq> if_broadcast (n_if r g)"
  shows "\<exists>s' frame pad. tcp_output_segment e ph seq ack flg wnd data local foreign s = Ok (int (length data), s')
    \<and> n_wire s' = n_wire s @ [frame] \<and> tcp_pcbs s' = tcp_pcbs s
    \<and> net_handler e' ph' H_IP (drop ETHER_HDR_SIZE frame) dev r
      = tcp_segment_arrives e' ph' (seg_info seq ack flg wnd (length data)) flg (data @ pad) (of_nat (length data)) foreign local r"
proof -
  let ?m = "tcp_segment local foreign seq ack flg wnd data"
  from p obtain rt j where x: "unat (nd_mtu (n_dev s i)) \<le> 1500" "length ha = 6" "length (nd_addr (n_dev s i)) = 16" by (rule eth_pathD)
  have l: "20 + length data \<le> IP_PAYLOAD_SIZE_MAX" "length ?m \<le> IP_PAYLOAD_SIZE_MAX"
    using n x(1) by (simp_all add: IP_PAYLOAD_SIZE_MAX_def IP_TOTAL_SIZE_MAX_def IP_HDR_SIZE_MIN_def)
  obtain d where d: "ip_datagram IP_PROTOCOL_TCP ?m (ep_addr local) (ep_addr foreign) (ip_id_counter s) 0 = Some d"
    using ip_datagram_form by blast
  let ?s' = "s\<lparr>ip_id_counter := ip_id_counter s + 1, n_txs := n_txs s + 1, n_wire := n_wire s @ [ip_frame s i ha d]\<rparr>"
  have "wp (ip_output e ph IP_PROTOCOL_TCP ?m (ep_addr local) (ep_addr foreign)) (\<lambda>r u. r = int (length ?m) \<and> u = ?s') s"
    by (rule wp_ip_output [OF p u _ t d]) (use n in simp)
  then have "ip_output e ph IP_PROTOCOL_TCP ?m (ep_addr local) (ep_addr foreign) s = Ok (int (length ?m), ?s')" unfolding wp_iff by blast
  then have o: "tcp_output_segment e ph seq ack flg wnd data local foreign s = Ok (int (length data), ?s')"
    unfolding tcp_output_segment_eq [OF l(1)] by (simp add: kbind_def kreturn_def)
  obtain pad where pad: "drop ETHER_HDR_SIZE (ip_frame s i ha d) = d @ pad" using drop_frame [OF x(2,3)] by blast
  have "net_handler e' ph' H_IP (d @ pad) dev r = tcp_input e' ph' (?m @ pad) (of_nat (20 + length data)) (ep_addr local) (ep_addr foreign) g r"
    unfolding net_handler_def using ip_input_datagram [OF d l(2) a] by (simp add: ip_handler_def)
  also have "\<dots> = tcp_segment_arrives e' ph' (seg_info seq ack flg wnd (length data)) flg (data @ pad) (of_nat (length data)) foreign local r"
    by (rule tcp_input_segment [OF l(1) b])
  finally show ?thesis using o pad by (intro exI [of _ ?s'] exI [of _ "ip_frame s i ha d"] exI [of _ pad]) simp
qed


text \<open>Two hosts on one Ethernet segment, 10.0.1.1 and 10.0.1.2, each with the other one in its ARP cache.\<close>

definition demo_dev :: net_device where
  "demo_dev = (sirpair_e1000_setup [2, 0, 0, 0, 0, 1] net_device_zero)\<lparr>nd_flags := 0x121, nd_ifaces := [0]\<rparr>"

definition demo_host :: "u32 \<Rightarrow> u32 \<Rightarrow> nstate" where
  "demo_host a peer = net_zero\<lparr>n_dev := (\<lambda>_. demo_dev),
     n_if := (\<lambda>_. \<lparr>if_dev = Some 0, if_family = NET_IFACE_FAMILY_IP, if_unicast = a, if_netmask = 0x00ffffff, if_broadcast = 0xff01000a\<rparr>),
     ip_routes := [\<lparr>rt_network = 0x0001000a, rt_netmask = 0x00ffffff, rt_nexthop = 0, rt_iface = 0\<rparr>],
     ip_protocols := [(IP_PROTOCOL_TCP, H_TCP)],
     arp_caches := [\<lparr>ac_state = ARP_RESOLVED, ac_pa = peer, ac_ha = [2, 0, 0, 0, 0, 2], ac_time = timerclear\<rparr>]\<rparr>"

definition demo_env :: nenv where
  "demo_env = \<lparr>ne_alloc = (\<lambda>_ _. True), ne_tx = (\<lambda>_. True), ne_rx = (\<lambda>_. []), ne_killed = False\<rparr>"

lemma demo_dev_fields:
  "nd_ops demo_dev = EtherOps" "nd_type demo_dev = NET_DEVICE_TYPE_ETHERNET" "nd_mtu demo_dev = 1500" "length (nd_addr demo_dev) = 16"
  "nd_ifaces demo_dev = [0]" "NET_DEVICE_IS_UP demo_dev" "nd_flags demo_dev AND NET_DEVICE_FLAG_NEED_ARP \<noteq> 0"
  by (simp_all add: demo_dev_def sirpair_e1000_setup_def ether_setup_helper_def Let_def net_device_zero_def NET_DEVICE_ADDR_LEN_def splice_def NET_DEVICE_IS_UP_def
      NET_DEVICE_FLAG_UP_def NET_DEVICE_FLAG_NEED_ARP_def)

lemma demo_host_fields:
  "n_dev (demo_host a peer) = (\<lambda>_. demo_dev)" "if_unicast (n_if (demo_host a peer) f) = a" "if_broadcast (n_if (demo_host a peer) f) = 0xff01000a"
  "n_wire (demo_host a peer) = []" "ne_tx demo_env k" "\<not> ne_killed demo_env" "ne_alloc demo_env k n"
  by (simp_all add: demo_host_def net_zero_def demo_env_def)

lemma demo_path:
  assumes "peer AND 0x00ffffff = 0x0001000a" "peer \<noteq> 0xff01000a" "peer \<noteq> IP_ADDR_BROADCAST"
  shows "eth_path peer (demo_host a peer) = Some (0, 0, [2, 0, 0, 0, 0, 2])"
  using assms by (simp add: eth_path_def demo_host_def ip_route_lookup_def demo_dev_fields arp_cache_select_def IP_ADDR_ANY_def)

theorem segment_transport_witness:
  "\<exists>s' frame pad. tcp_output_segment demo_env (kreturn ()) 1000 2000 (TCP_FLG_ACK OR TCP_FLG_PSH) 65535 [104, 105] \<lparr>ep_addr = 0x0101000a, ep_port = 20480\<rparr> \<lparr>ep_addr = 0x0201000a, ep_port = 192\<rparr>
      (demo_host 0x0101000a 0x0201000a) = Ok (2, s')
    \<and> n_wire s' = [] @ [frame] \<and> tcp_pcbs s' = tcp_pcbs (demo_host 0x0101000a 0x0201000a)
    \<and> net_handler demo_env (kreturn ()) H_IP (drop ETHER_HDR_SIZE frame) 0 (demo_host 0x0201000a 0x0101000a)
      = tcp_segment_arrives demo_env (kreturn ()) (seg_info 1000 2000 (TCP_FLG_ACK OR TCP_FLG_PSH) 65535 2) (TCP_FLG_ACK OR TCP_FLG_PSH) ([104, 105] @ pad) 2
          \<lparr>ep_addr = 0x0201000a, ep_port = 192\<rparr> \<lparr>ep_addr = 0x0101000a, ep_port = 20480\<rparr> (demo_host 0x0201000a 0x0101000a)"
proof -
  let ?l = "\<lparr>ep_addr = 0x0101000a, ep_port = 20480\<rparr>" let ?f = "\<lparr>ep_addr = 0x0201000a, ep_port = 192\<rparr>"
  have p: "eth_path (ep_addr ?f) (demo_host 0x0101000a 0x0201000a) = Some (0, 0, [2, 0, 0, 0, 0, 2])" using demo_path [of "0x0201000a"] by (simp add: IP_ADDR_BROADCAST_def)
  have a: "ip_accepts (demo_host 0x0201000a 0x0101000a) 0 0 (ep_addr ?f) IP_PROTOCOL_TCP H_TCP"
    by (simp add: ip_accepts_def demo_host_def net_device_get_iface_def demo_dev_fields)
  have two: "Suc (Suc 0) = 2" by simp
  note t = segment_transport [OF p, of ?l "[104, 105]" demo_env, OF _ _ _ _ a, of "kreturn ()" 1000 2000 "TCP_FLG_ACK OR TCP_FLG_PSH" 65535 demo_env "kreturn ()"]
  show ?thesis
    using t by (simp add: demo_host_fields demo_dev_fields IP_ADDR_ANY_def IP_ADDR_BROADCAST_def two del: append.simps)
qed


subsection \<open>What TCP needs from the layers below\<close>

text \<open>
  \<open>ready a b\<close>: segments from \<open>a\<close> to \<open>b\<close> can be sent. Sending one succeeds, leaves the control blocks, the clock and the record of
  wake-ups alone and stays possible; and whether it is possible does not depend on the control blocks, the record of wake-ups or the number of allocations.
\<close>

locale ip_service =
  fixes e :: nenv and ph :: "(nstate, unit) kop" and ready :: "u32 \<Rightarrow> u32 \<Rightarrow> nstate \<Rightarrow> bool"
  assumes output_ok: "ready a b s \<Longrightarrow> length d = 20 \<Longrightarrow>
      wp (ip_output e ph IP_PROTOCOL_TCP d a b) (\<lambda>r t. r \<noteq> - 1 \<and> tcp_pcbs t = tcp_pcbs s \<and> n_ticks t = n_ticks s \<and> n_woken t = n_woken s \<and> ready a b t) s"
    and stable: "ready a b (s\<lparr>tcp_pcbs := ps, n_woken := ws, n_allocs := k\<rparr>) = ready a b s"
begin

lemma stable_parts: "ready a b (s\<lparr>tcp_pcbs := ps\<rparr>) = ready a b s" "ready a b (s\<lparr>n_woken := ws\<rparr>) = ready a b s" "ready a b (s\<lparr>n_allocs := k\<rparr>) = ready a b s"
  using stable [where s = s and ps = ps and ws = "n_woken s" and k = "n_allocs s"] stable [where s = s and ps = "tcp_pcbs s" and ws = ws and k = "n_allocs s"]
    stable [where s = s and ps = "tcp_pcbs s" and ws = "n_woken s" and k = k] by simp_all

lemma stable_set_tcp: "ready a b (set_tcp i f s) = ready a b s"
  by (simp add: set_tcp_def stable_parts)

text \<open>An empty segment.\<close>

lemma send:
  assumes "ready (ep_addr l) (ep_addr f) s"
  shows "wp (tcp_output_segment e ph seq ack flg wnd [] l f)
    (\<lambda>r t. r = 0 \<and> tcp_pcbs t = tcp_pcbs s \<and> n_ticks t = n_ticks s \<and> n_woken t = n_woken s \<and> ready (ep_addr l) (ep_addr f) t) s"
proof -
  have "wp (ip_output e ph IP_PROTOCOL_TCP (tcp_segment l f seq ack flg wnd []) (ep_addr l) (ep_addr f))
      (\<lambda>r t. r \<noteq> - 1 \<and> tcp_pcbs t = tcp_pcbs s \<and> n_ticks t = n_ticks s \<and> n_woken t = n_woken s \<and> ready (ep_addr l) (ep_addr f) t) s"
    by (rule output_ok) (use assms in simp_all)
  then show ?thesis
    by (subst tcp_output_segment_eq) (auto simp: IP_PAYLOAD_SIZE_MAX_def IP_TOTAL_SIZE_MAX_def IP_HDR_SIZE_MIN_def elim: wp_mono)
qed

text \<open>An acknowledgement changes no control block.\<close>

lemma ack:
  assumes "ready (ep_addr (tp_local (tcp_pcbs s ! i))) (ep_addr (tp_foreign (tcp_pcbs s ! i))) s"
  shows "wp (tcp_output e ph i TCP_FLG_ACK []) (\<lambda>r t. tcp_pcbs t = tcp_pcbs s \<and> n_ticks t = n_ticks s \<and> n_woken t = n_woken s
    \<and> ready (ep_addr (tp_local (tcp_pcbs s ! i))) (ep_addr (tp_foreign (tcp_pcbs s ! i))) t) s"
  unfolding tcp_output_def TCP_FLG_ISSET_def TCP_FLG_ACK_def TCP_FLG_SYN_def TCP_FLG_FIN_def Let_def
  by simp (rule wp_mono [OF send [OF assms]], simp)

end


text \<open>Ethernet with the next hop in the ARP cache and a card that accepts frames is such a service.\<close>

definition eth_ready :: "nenv \<Rightarrow> u32 \<Rightarrow> u32 \<Rightarrow> nstate \<Rightarrow> bool" where
  "eth_ready e a b s \<longleftrightarrow> a \<noteq> IP_ADDR_ANY \<and> (\<forall>k. ne_tx e k)
     \<and> (case eth_path b s of None \<Rightarrow> False | Some (f, i, ha) \<Rightarrow> if_unicast (n_if s f) = a \<and> 40 \<le> unat (nd_mtu (n_dev s i)))"

lemma eth_ready_cong:
  "ip_routes t = ip_routes s \<Longrightarrow> n_if t = n_if s \<Longrightarrow> n_dev t = n_dev s \<Longrightarrow> arp_caches t = arp_caches s \<Longrightarrow> eth_ready e a b t = eth_ready e a b s"
  using eth_path_cong [of t s b] unfolding eth_ready_def by (auto split: option.splits)

lemma eth_output:
  assumes r: "eth_ready e a b s" and n: "length d = 20"
  shows "wp (ip_output e ph IP_PROTOCOL_TCP d a b) (\<lambda>r t. r \<noteq> - 1 \<and> tcp_pcbs t = tcp_pcbs s \<and> n_ticks t = n_ticks s \<and> n_woken t = n_woken s \<and> eth_ready e a b t) s"
proof -
  obtain f i ha where p: "eth_path b s = Some (f, i, ha)" "if_unicast (n_if s f) = a" "a \<noteq> IP_ADDR_ANY" "40 \<le> unat (nd_mtu (n_dev s i))" "ne_tx e (n_txs s)"
    using r by (auto simp: eth_ready_def split: option.splits)
  obtain g where g: "ip_datagram IP_PROTOCOL_TCP d a b (ip_id_counter s) 0 = Some g" using ip_datagram_form by blast
  have "20 + length d \<le> unat (nd_mtu (n_dev s i))" using n p(4) by simp
  note o = wp_ip_output [OF p(1-3) this p(5) g, of ph]
  have "eth_ready e a b (s\<lparr>ip_id_counter := ip_id_counter s + 1, n_txs := n_txs s + 1, n_wire := n_wire s @ [ip_frame s i ha g]\<rparr>)"
    by (rule iffD2 [OF eth_ready_cong r]) simp_all
  then show ?thesis by (intro wp_mono [OF o]) auto
qed

interpretation eth: ip_service e ph "eth_ready e" for e ph
  by unfold_locales (erule (1) eth_output, rule eth_ready_cong, simp_all)


subsection \<open>The byte stream of the receiver\<close>

text \<open>The bytes that wait for the user.\<close>

definition pending :: "tcp_pcb \<Rightarrow> bytes" where
  "pending p = take (TCP_BUF_SIZE - unat (rcv_wnd p)) (tp_buf p)"

lemma wnd_le: "unat (w :: u16) \<le> TCP_BUF_SIZE"
  using unsigned_less [where ?'a = nat, of w] by (simp add: TCP_BUF_SIZE_def)

definition text_in :: "tcp_pcb \<Rightarrow> u32 \<Rightarrow> bytes \<Rightarrow> tcp_pcb" where
  "text_in p nxt d = p\<lparr>tp_buf := splice (tp_buf p) (TCP_BUF_SIZE - unat (rcv_wnd p)) d, rcv_nxt := nxt, rcv_wnd := rcv_wnd p - of_nat (length d)\<rparr>"

lemma text_in_pending:
  assumes "length (tp_buf p) = TCP_BUF_SIZE" "length d \<le> unat (rcv_wnd p)"
  shows "pending (text_in p nxt d) = pending p @ d" "length (tp_buf (text_in p nxt d)) = TCP_BUF_SIZE"
    "unat (rcv_wnd (text_in p nxt d)) = unat (rcv_wnd p) - length d"
proof -
  have l: "length d < 65536" using assms(2) wnd_le [of "rcv_wnd p"] by (simp add: TCP_BUF_SIZE_def)
  have d: "unat (of_nat (length d) :: u16) = length d" using l by (simp add: unat_of_nat)
  then have "of_nat (length d) \<le> rcv_wnd p" using assms(2) by (simp add: word_le_nat_alt)
  then have u: "unat (rcv_wnd p - of_nat (length d)) = unat (rcv_wnd p) - length d" by (simp add: unat_sub d)
  have w: "unat (rcv_wnd p) \<le> TCP_BUF_SIZE" by (rule wnd_le)
  have k: "TCP_BUF_SIZE - (unat (rcv_wnd p) - length d) = (TCP_BUF_SIZE - unat (rcv_wnd p)) + length d" using assms(2) w by simp
  show "unat (rcv_wnd (text_in p nxt d)) = unat (rcv_wnd p) - length d" by (simp add: text_in_def u)
  show "length (tp_buf (text_in p nxt d)) = TCP_BUF_SIZE" using assms w by (simp add: text_in_def splice_def)
  show "pending (text_in p nxt d) = pending p @ d" unfolding pending_def text_in_def using assms w by (simp add: u k splice_def)
qed

text \<open>What \<open>tcp_take\<close> does to the control block.\<close>

definition read_out :: "tcp_pcb \<Rightarrow> nat \<Rightarrow> tcp_pcb" where
  "read_out p sz = (let remain = TCP_BUF_SIZE - unat (rcv_wnd p); len = min sz remain in
     p\<lparr>tp_buf := splice (tp_buf p) 0 (slice (tp_buf p) len (remain - len)), rcv_wnd := rcv_wnd p + of_nat len\<rparr>)"

lemma read_out_pending:
  assumes "length (tp_buf p) = TCP_BUF_SIZE"
  shows "take (min sz (TCP_BUF_SIZE - unat (rcv_wnd p))) (tp_buf p) = take sz (pending p)" "pending (read_out p sz) = drop sz (pending p)"
    "length (tp_buf (read_out p sz)) = TCP_BUF_SIZE"
proof -
  let ?r = "TCP_BUF_SIZE - unat (rcv_wnd p)" let ?n = "min sz ?r"
  have w: "unat (rcv_wnd p) \<le> TCP_BUF_SIZE" by (rule wnd_le)
  have b: "unat (rcv_wnd p) + ?n \<le> 65535" using w by (simp add: TCP_BUF_SIZE_def)
  then have "unat (of_nat ?n :: u16) = ?n" by (simp add: unat_of_nat)
  then have u: "unat (rcv_wnd p + of_nat ?n) = unat (rcv_wnd p) + ?n" using b by (simp add: unat_word_ariths)
  show "take ?n (tp_buf p) = take sz (pending p)" by (simp add: pending_def)
  show "length (tp_buf (read_out p sz)) = TCP_BUF_SIZE" using assms w by (simp add: read_out_def Let_def splice_def slice_def)
  have e: "TCP_BUF_SIZE - (unat (rcv_wnd p) + ?n) = ?r - ?n" by simp
  have g: "n \<le> r \<Longrightarrow> r \<le> length b \<Longrightarrow> take (r - n) (splice b 0 (slice b n (r - n))) = drop n (take r b)" for n r and b :: bytes
    by (simp add: splice_def slice_def drop_take)
  define n where "n = ?n"
  have "pending (read_out p sz) = take (?r - ?n) (splice (tp_buf p) 0 (slice (tp_buf p) ?n (?r - ?n)))"
    using u e unfolding pending_def read_out_def Let_def n_def [symmetric] by simp
  also have "\<dots> = drop ?n (take ?r (tp_buf p))" by (rule g) (use assms in simp_all)
  also have "\<dots> = drop sz (pending p)" unfolding pending_def by (cases "sz \<le> ?r") simp_all
  finally show "pending (read_out p sz) = drop sz (pending p)" .
qed


text \<open>An established connection that the demultiplexer finds.\<close>

definition connected :: "nat \<Rightarrow> nstate \<Rightarrow> bool" where
  "connected i s \<longleftrightarrow> i < length (tcp_pcbs s) \<and> tp_state (tcp_pcbs s ! i) = TCP_ESTABLISHED \<and> snd_una (tcp_pcbs s ! i) \<le> snd_nxt (tcp_pcbs s ! i)
     \<and> length (tp_buf (tcp_pcbs s ! i)) = TCP_BUF_SIZE
     \<and> tcp_pcb_select (tp_local (tcp_pcbs s ! i)) (Some (tp_foreign (tcp_pcbs s ! i))) s = Some i"

lemma select_from_update:
  assumes "i < length ps" "tp_local q = tp_local (ps ! i)" "tp_foreign q = tp_foreign (ps ! i)" "tp_state q = tp_state (ps ! i)"
  shows "select_from (ps[i := q]) l f xs a = select_from ps l f xs a"
proof (induction xs arbitrary: a)
  case (Cons x xs)
  have e: "tp_local (ps[i := q] ! x) = tp_local (ps ! x)" "tp_foreign (ps[i := q] ! x) = tp_foreign (ps ! x)" "tp_state (ps[i := q] ! x) = tp_state (ps ! x)"
    using assms by (cases "x = i"; simp)+
  show ?case unfolding select_from.simps Let_def Cons.IH e ..
qed simp

lemma connected_update:
  assumes "connected i s" "tcp_pcbs t = (tcp_pcbs s)[i := q]" "tp_local q = tp_local (tcp_pcbs s ! i)" "tp_foreign q = tp_foreign (tcp_pcbs s ! i)"
    "tp_state q = TCP_ESTABLISHED" "snd_una q = snd_una (tcp_pcbs s ! i)" "snd_nxt q = snd_nxt (tcp_pcbs s ! i)" "length (tp_buf q) = TCP_BUF_SIZE"
  shows "connected i t"
  using assms select_from_update [of i "tcp_pcbs s" q] by (simp add: connected_def tcp_pcb_select_def)

lemma in_window_next:
  assumes "0 < unat (rcv_wnd p)" "unat (rcv_nxt p) + TCP_BUF_SIZE < 2 ^ 32"
  shows "in_window p (rcv_nxt p)"
proof -
  have "unat (rcv_nxt p) + unat (rcv_wnd p) < 2 ^ 32" using assms(2) wnd_le [of "rcv_wnd p"] by simp
  then have "unat (rcv_nxt p + ucast (rcv_wnd p)) = unat (rcv_nxt p) + unat (rcv_wnd p)" by (simp add: unat_word_ariths unat_ucast16)
  then show ?thesis using assms(1) by (simp add: in_window_def word_less_nat_alt)
qed

definition text_flags :: "u8 \<Rightarrow> bool" where
  "text_flags flg \<longleftrightarrow> TCP_FLG_ISSET flg TCP_FLG_ACK \<and> \<not> TCP_FLG_ISSET flg TCP_FLG_SYN \<and> \<not> TCP_FLG_ISSET flg TCP_FLG_FIN \<and> \<not> TCP_FLG_ISSET flg TCP_FLG_RST"

text \<open>Up to the text of the segment nothing happens when a segment starts at the expected sequence number and acknowledges nothing new.\<close>

lemma in_order_steps:
  assumes c: "connected i s" and p: "p = tcp_pcbs s ! i" and n: "0 < unat (rcv_wnd p)" "unat (rcv_nxt p) + TCP_BUF_SIZE < 2 ^ 32"
    and f: "text_flags flg" and g: "sg_seq sg = rcv_nxt p" "sg_ack sg = snd_una p"
  shows "tcp_segment_arrives e ph sg flg data len (tp_local p) (tp_foreign p) s = seg_text e ph i sg data len s"
proof -
  have a: "seg_acceptable p sg" using in_window_next [OF n] n(1) g by (auto simp: seg_acceptable_def)
  have st: "tp_state p = TCP_ESTABLISHED" "\<not> snd_nxt p < snd_una p" using c p by (simp_all add: connected_def not_less)
  have sel: "tcp_pcb_select (tp_local p) (Some (tp_foreign p)) s = Some i" using c p by (simp add: connected_def)
  note fl = f [unfolded text_flags_def]
  have "seg_sequence e ph i sg flg s = Ok (True, s)" using a p by (simp add: seg_sequence_def kbind_def kget_def kreturn_def)
  moreover have "seg_rst i flg s = Ok (True, s)" using fl by (simp add: seg_rst_def kbind_def kget_def kreturn_def)
  moreover have "seg_syn e ph i flg s = Ok (True, s)" using fl by (simp add: seg_syn_def kbind_def kget_def kreturn_def)
  moreover have "seg_ack_field e ph i sg flg (tp_local p) (tp_foreign p) s = Ok (True, s)"
    using fl st g p by (simp add: seg_ack_field_def seg_ack_common_def seg_ack_state_def kbind_def kget_def kreturn_def kthen_def Let_def)
  moreover have "seg_fin e ph i sg flg = kreturn ()" using fl by (simp add: seg_fin_def)
  moreover have "kthen m (kreturn ()) s = m s" for m :: "(nstate, unit) kop" by (auto simp: kthen_def kbind_def kreturn_def split: kres.splits)
  ultimately show ?thesis unfolding tcp_segment_arrives_def using sel st p
    by (simp add: seg_otherwise_def kbind_def kget_def)
qed


context ip_service
begin

text \<open>The text of an in-order segment that fits into the window is appended to the waiting bytes and acknowledged.\<close>

lemma segment_text:
  assumes c: "connected i s" and p: "p = tcp_pcbs s ! i" and r: "ready (ep_addr (tp_local p)) (ep_addr (tp_foreign p)) s"
    and d: "d \<noteq> []" "length d \<le> unat (rcv_wnd p)" and n: "unat (rcv_nxt p) + TCP_BUF_SIZE < 2 ^ 32" and f: "text_flags flg"
  shows "wp (tcp_segment_arrives e ph (seg_info (rcv_nxt p) (snd_una p) flg wnd (length d)) flg (d @ pad) (of_nat (length d)) (tp_local p) (tp_foreign p))
    (\<lambda>_ t. tcp_pcbs t = (tcp_pcbs s)[i := text_in p (rcv_nxt p + of_nat (length d)) d] \<and> ready (ep_addr (tp_local p)) (ep_addr (tp_foreign p)) t) s"
proof -
  let ?sg = "seg_info (rcv_nxt p) (snd_una p) flg wnd (length d)" let ?q = "text_in p (rcv_nxt p + of_nat (length d)) d"
  have i: "i < length (tcp_pcbs s)" "tp_state p = TCP_ESTABLISHED" using c p by (simp_all add: connected_def)
  have l: "length d < 65536" using d(2) wnd_le [of "rcv_wnd p"] by (simp add: TCP_BUF_SIZE_def)
  then have u: "unat (of_nat (length d) :: u32) = length d" by (subst unat_of_nat_u32) simp_all
  have "unat (of_nat (length d) :: u16) = length d" using l by (simp add: unat_of_nat)
  then have v: "ucast (of_nat (length d) :: u16) = (of_nat (length d) :: u32)" by (simp add: word_unat_eq_iff unat_ucast16 u)
  have w: "ucast (of_nat (length d) :: u32) = (of_nat (length d) :: u16)" by (simp add: word_unat_eq_iff unsigned_ucast_eq unat_of_nat take_bit_eq_mod mod_mod_cancel)
  have nz: "of_nat (length d) \<noteq> (0 :: u32)" using d(1) u by (metis length_0_conv unat_0)
  have sl: "sg_len ?sg = of_nat (length d)" "sg_seq ?sg = rcv_nxt p" "sg_ack ?sg = snd_una p" using f by (simp_all add: seg_info_def text_flags_def)
  let ?t = "set_tcp i (\<lambda>_. ?q) s"
  have q: "tcp_pcbs ?t ! i = ?q" "tp_local ?q = tp_local p" "tp_foreign ?q = tp_foreign p" using i by (simp_all add: set_tcp_def text_in_def)
  have "wp (tcp_output e ph i TCP_FLG_ACK []) (\<lambda>r t. tcp_pcbs t = tcp_pcbs ?t \<and> n_ticks t = n_ticks ?t \<and> n_woken t = n_woken ?t
      \<and> ready (ep_addr (tp_local p)) (ep_addr (tp_foreign p)) t) ?t"
    using ack [of ?t i] r unfolding q by (simp add: stable_set_tcp)
  then have a: "wp (tcp_output e ph i TCP_FLG_ACK []) (\<lambda>r t. tcp_pcbs t = (tcp_pcbs s)[i := ?q] \<and> ready (ep_addr (tp_local p)) (ep_addr (tp_foreign p)) t) ?t"
    by (rule wp_mono) (simp add: set_tcp_def)
  have up: "set_tcp i (\<lambda>x. x\<lparr>tp_buf := splice (tp_buf x) (TCP_BUF_SIZE - unat (rcv_wnd x)) d, rcv_nxt := rcv_nxt p + of_nat (length d), rcv_wnd := rcv_wnd x - of_nat (length d)\<rparr>) s = ?t"
    by (simp add: set_tcp_def text_in_def p)
  have "wp (seg_text e ph i ?sg (d @ pad) (of_nat (length d))) (\<lambda>_ t. tcp_pcbs t = (tcp_pcbs s)[i := ?q] \<and> ready (ep_addr (tp_local p)) (ep_addr (tp_foreign p)) t) s"
    unfolding seg_text_def using i d nz by (simp add: p [symmetric] u sl v w up slice_def sched_wakeup_def stable_parts) (rule wp_mono [OF a], simp)
  moreover have "0 < unat (rcv_wnd p)" using d by (cases d) auto
  ultimately show ?thesis using in_order_steps [OF c p _ n f sl(2,3)] by (simp add: wp_def)
qed

end


text \<open>
  The peer and the user of a connection: segments arrive in order, each as much of the data as the advertised window allows, and the user reads. The run
  collects the bytes that have arrived and the bytes that have been read; a read with nothing waiting has to wait and gives nothing.
\<close>

datatype rx_event = Arrive bytes | Read nat

fun rx_run :: "nenv \<Rightarrow> (nstate, unit) kop \<Rightarrow> u8 \<Rightarrow> nat \<Rightarrow> rx_event list \<Rightarrow> (nstate, bytes \<times> bytes) kop" where
  "rx_run e ph flg i [] = kreturn ([], [])"
| "rx_run e ph flg i (Arrive d # es) = kbind (kget (\<lambda>s. tcp_pcbs s ! i)) (\<lambda>p. let x = take (unat (rcv_wnd p)) d in
     kthen (if x = [] then kreturn () else
       tcp_segment_arrives e ph (seg_info (rcv_nxt p) (snd_una p) flg (snd_wnd p) (length x)) flg x (of_nat (length x)) (tp_local p) (tp_foreign p))
     (kbind (rx_run e ph flg i es) (\<lambda>(arrived, got). kreturn (x @ arrived, got))))"
| "rx_run e ph flg i (Read n # es) = kbind (tcp_receive e (int i) n) (\<lambda>r.
     kbind (rx_run e ph flg i es) (\<lambda>(arrived, got). kreturn (arrived, (case r of NDone (_, bs) \<Rightarrow> bs | NWait \<Rightarrow> []) @ got)))"

primrec rx_size :: "rx_event list \<Rightarrow> nat" where
  "rx_size [] = 0"
| "rx_size (x # es) = (case x of Arrive d \<Rightarrow> length d | Read n \<Rightarrow> 0) + rx_size es"

definition streamed :: "nat \<Rightarrow> tcp_pcb \<Rightarrow> bytes \<times> bytes \<Rightarrow> nstate \<Rightarrow> bool" where
  "streamed i p r t \<longleftrightarrow> pending p @ fst r = snd r @ pending (tcp_pcbs t ! i) \<and> rcv_nxt (tcp_pcbs t ! i) = rcv_nxt p + of_nat (length (fst r))"

context ip_service
begin

lemma receive:
  assumes c: "connected i s" and p: "p = tcp_pcbs s ! i" and k: "\<not> ne_killed e"
  shows "wp (tcp_receive e (int i) n) (\<lambda>r t. t = (if pending p = [] then s else set_tcp i (\<lambda>_. read_out p n) s)
    \<and> (case r of NDone (_, bs) \<Rightarrow> bs | NWait \<Rightarrow> []) = take n (pending p)) s"
proof -
  have i: "i < length (tcp_pcbs s)" "tp_state p = TCP_ESTABLISHED" "length (tp_buf p) = TCP_BUF_SIZE" using c p by (simp_all add: connected_def)
  have g: "tcp_pcb_get (int i) s = Some i" using i p by (simp add: tcp_pcb_get_def)
  have e: "pending p = [] \<longleftrightarrow> TCP_BUF_SIZE - unat (rcv_wnd p) = 0" using i(3) by (auto simp: pending_def TCP_BUF_SIZE_def)
  have up: "set_tcp i (\<lambda>x. x\<lparr>tp_buf := splice (tp_buf x) 0 (slice (tp_buf x) (min n (TCP_BUF_SIZE - unat (rcv_wnd p))) (TCP_BUF_SIZE - unat (rcv_wnd p) - min n (TCP_BUF_SIZE - unat (rcv_wnd p)))),
      rcv_wnd := rcv_wnd x + of_nat (min n (TCP_BUF_SIZE - unat (rcv_wnd p)))\<rparr>) s = set_tcp i (\<lambda>_. read_out p n) s"
    by (simp add: set_tcp_def read_out_def p Let_def)
  show ?thesis
  proof (cases "pending p = []")
    case True
    then show ?thesis using g i(2) k p e by (simp add: tcp_receive_def tcp_receive_retry_def Let_def)
  next
    case False
    then show ?thesis using g i(2) p e up read_out_pending(1) [OF i(3), of n]
      by (simp add: tcp_receive_def tcp_receive_retry_def tcp_take_def Let_def del: take_take)
  qed
qed

lemma rx_fifo:
  assumes k: "\<not> ne_killed e" and f: "text_flags flg"
  shows "connected i s \<Longrightarrow> p = tcp_pcbs s ! i \<Longrightarrow> ready (ep_addr (tp_local p)) (ep_addr (tp_foreign p)) s \<Longrightarrow> unat (rcv_nxt p) + rx_size es + TCP_BUF_SIZE < 2 ^ 32 \<Longrightarrow>
    wp (rx_run e ph flg i es) (streamed i p) s"
proof (induction es arbitrary: s p)
  case Nil
  then show ?case by (simp add: streamed_def)
next
  case (Cons x es)
  note c = Cons.prems(1) and p = Cons.prems(2) and r = Cons.prems(3) and n = Cons.prems(4)
  have b: "i < length (tcp_pcbs s)" "tp_state p = TCP_ESTABLISHED" "length (tp_buf p) = TCP_BUF_SIZE" using c p by (simp_all add: connected_def)
  have rest: "wp (rx_run e ph flg i es) (streamed i q) t"
    if "tcp_pcbs t = (tcp_pcbs s)[i := q]" "tp_local q = tp_local p" "tp_foreign q = tp_foreign p" "tp_state q = tp_state p" "snd_una q = snd_una p" "snd_nxt q = snd_nxt p"
      "length (tp_buf q) = TCP_BUF_SIZE" "ready (ep_addr (tp_local p)) (ep_addr (tp_foreign p)) t" "unat (rcv_nxt q) + rx_size es + TCP_BUF_SIZE < 2 ^ 32" for t q
    by (rule Cons.IH) (use that b p connected_update [OF c, of t q] in simp_all)
  show ?case
  proof (cases x)
    case (Arrive d)
    let ?x = "take (unat (rcv_wnd p)) d" let ?q = "text_in p (rcv_nxt p + of_nat (length ?x)) ?x"
    have l: "length ?x \<le> unat (rcv_wnd p)" "length ?x \<le> length d" by simp_all
    have u: "unat (rcv_nxt p + of_nat (length ?x)) = unat (rcv_nxt p) + length ?x"
    proof -
      have "unat (rcv_nxt p) + length ?x < 2 ^ 32" using n l(2) Arrive by simp
      then show ?thesis by (simp add: unat_word_ariths unat_of_nat_u32 del: length_take)
    qed
    have q: "streamed i ?q y u \<Longrightarrow> wp (case y of (arrived, got) \<Rightarrow> kreturn (?x @ arrived, got)) (streamed i p) u" for y u
      using text_in_pending(1) [OF b(3) l(1)] by (cases y) (simp add: streamed_def text_in_def add.assoc)
    show ?thesis
    proof (cases "?x = []")
      case True
      then show ?thesis using rest [of s p] c p r n b Arrive by (simp add: Let_def) (erule wp_mono, auto)
    next
      case False
      note t = segment_text [OF c p r False l(1) _ f, of "snd_wnd p" "[]"]
      have "wp (tcp_segment_arrives e ph (seg_info (rcv_nxt p) (snd_una p) flg (snd_wnd p) (length ?x)) flg (?x @ []) (of_nat (length ?x)) (tp_local p) (tp_foreign p))
          (\<lambda>_. wp (rx_run e ph flg i es) (streamed i ?q)) s"
        by (rule wp_mono [OF t], use n Arrive in simp, rule rest) (use text_in_pending [OF b(3) l(1)] u n l(2) Arrive in \<open>auto simp: text_in_def\<close>)
      then have "wp (tcp_segment_arrives e ph (seg_info (rcv_nxt p) (snd_una p) flg (snd_wnd p) (length ?x)) flg ?x (of_nat (length ?x)) (tp_local p) (tp_foreign p))
          (\<lambda>_. wp (rx_run e ph flg i es) (\<lambda>y. wp (case y of (arrived, got) \<Rightarrow> kreturn (?x @ arrived, got)) (streamed i p))) s"
        unfolding append_Nil2 by (elim wp_mono) (erule q)
      then show ?thesis using False unfolding Arrive rx_run.simps Let_def by (simp add: p)
    qed
  next
    case (Read m)
    have "wp (tcp_receive e (int i) m) (\<lambda>r. wp (rx_run e ph flg i es) (\<lambda>y. streamed i p (fst y, (case r of NDone (_, bs) \<Rightarrow> bs | NWait \<Rightarrow> []) @ snd y))) s"
    proof (rule wp_mono [OF receive [OF c p k, of m]])
      fix a t assume h: "t = (if pending p = [] then s else set_tcp i (\<lambda>_. read_out p m) s) \<and> (case a of NDone (_, bs) \<Rightarrow> bs | NWait \<Rightarrow> []) = take m (pending p)"
      define q where "q = (if pending p = [] then p else read_out p m)"
      have q: "pending q = drop m (pending p)" "length (tp_buf q) = TCP_BUF_SIZE" "rcv_nxt q = rcv_nxt p"
        using read_out_pending [OF b(3), of m] b(3) by (auto simp: q_def read_out_def Let_def)
      have "wp (rx_run e ph flg i es) (streamed i q) t"
        by (rule rest) (use h q(2) r n b p Read in \<open>auto simp: q_def set_tcp_def read_out_def Let_def stable_parts\<close>)
      moreover have "pending q @ x = g @ w \<Longrightarrow> pending p @ x = take m (pending p) @ g @ w" for x g w
        unfolding q(1) by (metis append_assoc append_take_drop_id)
      ultimately show "wp (rx_run e ph flg i es) (\<lambda>y. streamed i p (fst y, (case a of NDone (_, bs) \<Rightarrow> bs | NWait \<Rightarrow> []) @ snd y)) t"
        unfolding conjunct2 [OF h] by (elim wp_mono) (simp add: streamed_def q(3))
    qed
    then show ?thesis unfolding Read rx_run.simps wp_kbind by (elim wp_mono) auto
  qed
qed

end


text \<open>C18. The receiving side of a connection is a first-in first-out byte stream. However the peer's in-order segments (cut to the advertised window, and acknowledging nothing new)
  and the user's reads are interleaved, every segment is accepted, nothing runs past the receive buffer, the bytes waiting before the run followed by the bytes that arrived are the
  bytes that were read followed by the bytes that still wait, and the next expected sequence number has moved by the number of bytes that arrived. The sequence numbers of the run
  must not reach the end of the 32-bit space.\<close>

theorem receive_stream_fifo:
  assumes "connected i s" "eth_ready e (ep_addr (tp_local (tcp_pcbs s ! i))) (ep_addr (tp_foreign (tcp_pcbs s ! i))) s" "\<not> ne_killed e" "text_flags flg"
    "unat (rcv_nxt (tcp_pcbs s ! i)) + rx_size es + TCP_BUF_SIZE < 2 ^ 32"
  shows "\<exists>arrived got t. rx_run e ph flg i es s = Ok ((arrived, got), t) \<and> pending (tcp_pcbs s ! i) @ arrived = got @ pending (tcp_pcbs t ! i)
    \<and> rcv_nxt (tcp_pcbs t ! i) = rcv_nxt (tcp_pcbs s ! i) + of_nat (length arrived)"
  using eth.rx_fifo [OF assms(3,4,1) refl assms(2,5)] unfolding wp_iff streamed_def by fastforce

text \<open>A host with an established connection, as a witness.\<close>

definition demo_conn :: "u32 \<Rightarrow> u16 \<Rightarrow> nstate" where
  "demo_conn nxt wnd = (demo_host 0x0101000a 0x0201000a)\<lparr>tcp_pcbs := [tcp_pcb_zero\<lparr>tp_state := TCP_ESTABLISHED, tp_mode := TCP_MODE_SOCKET,
     tp_local := \<lparr>ep_addr = 0x0101000a, ep_port = 20480\<rparr>, tp_foreign := \<lparr>ep_addr = 0x0201000a, ep_port = 192\<rparr>, snd_nxt := 1, snd_una := 1,
     rcv_nxt := nxt, rcv_wnd := wnd\<rparr>]\<rparr>"

lemma demo_connected: "connected 0 (demo_conn nxt wnd)"
  by (simp add: connected_def demo_conn_def tcp_pcb_zero_def tcp_pcb_select_def)

lemma demo_ready: "eth_ready demo_env (ep_addr (tp_local (tcp_pcbs (demo_conn nxt wnd) ! 0))) (ep_addr (tp_foreign (tcp_pcbs (demo_conn nxt wnd) ! 0))) (demo_conn nxt wnd)"
proof -
  have "eth_path 0x0201000a (demo_host 0x0101000a 0x0201000a) = Some (0, 0, [2, 0, 0, 0, 0, 2])" by (rule demo_path) (simp_all add: IP_ADDR_BROADCAST_def)
  then have "eth_ready demo_env 0x0101000a 0x0201000a (demo_host 0x0101000a 0x0201000a)"
    by (simp add: eth_ready_def demo_host_fields demo_dev_fields IP_ADDR_ANY_def)
  moreover have "eth_ready demo_env a b (demo_conn nxt wnd) = eth_ready demo_env a b (demo_host 0x0101000a 0x0201000a)" for a b
    by (rule eth_ready_cong) (simp_all add: demo_conn_def)
  ultimately show ?thesis by (simp add: demo_conn_def)
qed

theorem receive_stream_fifo_witness:
  "\<exists>arrived got t. rx_run demo_env (kreturn ()) TCP_FLG_ACK 0 [Arrive [1, 2, 3], Read 2, Arrive [4], Read 8] (demo_conn 1000 65535) = Ok ((arrived, got), t)
     \<and> pending (tcp_pcbs (demo_conn 1000 65535) ! 0) @ arrived = got @ pending (tcp_pcbs t ! 0)
     \<and> rcv_nxt (tcp_pcbs t ! 0) = rcv_nxt (tcp_pcbs (demo_conn 1000 65535) ! 0) + of_nat (length arrived)"
  by (rule receive_stream_fifo [OF demo_connected demo_ready])
    (simp_all add: demo_host_fields text_flags_def TCP_FLG_ISSET_def TCP_FLG_ACK_def TCP_FLG_SYN_def TCP_FLG_FIN_def TCP_FLG_RST_def demo_conn_def TCP_BUF_SIZE_def)


subsection \<open>Where the segment processing goes wrong\<close>

text \<open>C33. A segment that starts at the expected sequence number but carries more data than the window has room for is not cut to the window: the code copies all of it behind
  the waiting bytes, past the end of the receive buffer (undefined behaviour).\<close>

theorem oversized_segment_overflows:
  assumes "connected i s" "0 < unat (rcv_wnd (tcp_pcbs s ! i))" "unat (rcv_nxt (tcp_pcbs s ! i)) + TCP_BUF_SIZE < 2 ^ 32" "text_flags flg"
    "unat (rcv_wnd (tcp_pcbs s ! i)) < length d" "length d \<le> 65495"
  shows "tcp_segment_arrives e ph (seg_info (rcv_nxt (tcp_pcbs s ! i)) (snd_una (tcp_pcbs s ! i)) flg wnd (length d)) flg d (of_nat (length d))
    (tp_local (tcp_pcbs s ! i)) (tp_foreign (tcp_pcbs s ! i)) s = Undef"
proof -
  let ?p = "tcp_pcbs s ! i" let ?sg = "seg_info (rcv_nxt ?p) (snd_una ?p) flg wnd (length d)"
  have u: "unat (of_nat (length d) :: u32) = length d" using assms(6) by (subst unat_of_nat_u32) simp_all
  have z: "of_nat (length d) \<noteq> (0 :: u32)" using u assms(5) by (metis not_less0 unat_0)
  have st: "tp_state ?p = TCP_ESTABLISHED" using assms(1) by (simp add: connected_def)
  have "seg_text e ph i ?sg d (of_nat (length d)) s = Undef"
    using st z u assms(5) by (simp add: seg_text_def kbind_def kget_def rdn_def kreturn_def kundef_def)
  then show ?thesis using in_order_steps [OF assms(1) refl assms(2-4), of ?sg] by (simp add: seg_info_def)
qed

theorem oversized_segment_overflows_witness:
  "tcp_segment_arrives demo_env (kreturn ()) (seg_info 1000 1 TCP_FLG_ACK 0 4) TCP_FLG_ACK [1, 2, 3, 4] 4
     \<lparr>ep_addr = 0x0101000a, ep_port = 20480\<rparr> \<lparr>ep_addr = 0x0201000a, ep_port = 192\<rparr> (demo_conn 1000 3) = Undef"
proof -
  have four: "Suc (Suc (Suc (Suc 0))) = 4" by simp
  show ?thesis
    using oversized_segment_overflows [OF demo_connected, of 1000 3 TCP_FLG_ACK "[1, 2, 3, 4]" demo_env "kreturn ()" 0]
    by (simp add: four text_flags_def TCP_FLG_ISSET_def TCP_FLG_ACK_def TCP_FLG_SYN_def TCP_FLG_FIN_def TCP_FLG_RST_def demo_conn_def TCP_BUF_SIZE_def)
qed


lemma window_wrapped:
  assumes "2 ^ 32 \<le> unat (rcv_nxt p) + unat (rcv_wnd p)"
  shows "\<not> seg_acceptable p sg"
proof -
  have l: "unat (rcv_nxt p) < 2 ^ 32" "unat (rcv_wnd p) < 2 ^ 16" using unsigned_less [where ?'a = nat, of "rcv_nxt p"] unsigned_less [where ?'a = nat, of "rcv_wnd p"] by simp_all
  have "unat (rcv_nxt p + ucast (rcv_wnd p)) = (unat (rcv_nxt p) + unat (rcv_wnd p)) mod 2 ^ 32" by (simp add: unat_word_ariths unat_ucast16)
  also have "\<dots> = unat (rcv_nxt p) + unat (rcv_wnd p) - 2 ^ 32" using assms l by (simp add: mod_if)
  finally have "rcv_nxt p + ucast (rcv_wnd p) \<le> rcv_nxt p" using assms l by (simp add: word_le_nat_alt)
  then have "\<not> in_window p x" for x by (auto simp: in_window_def dest: order_less_le_trans)
  moreover have "rcv_wnd p \<noteq> 0" using assms l by auto
  ultimately show ?thesis by (simp add: seg_acceptable_def)
qed

text \<open>
  The same connection with a peer that sends whatever it likes, with any flags, sequence and acknowledgement numbers and data, while the user reads. The run collects the
  bytes that have been read.
\<close>

datatype any_event = Segment tcp_segment_info u8 bytes u32 | Take nat

fun any_run :: "nenv \<Rightarrow> (nstate, unit) kop \<Rightarrow> nat \<Rightarrow> any_event list \<Rightarrow> (nstate, bytes) kop" where
  "any_run e ph i [] = kreturn []"
| "any_run e ph i (Segment sg flg data len # es) = kbind (kget (\<lambda>s. tcp_pcbs s ! i)) (\<lambda>p.
     kthen (tcp_segment_arrives e ph sg flg data len (tp_local p) (tp_foreign p)) (any_run e ph i es))"
| "any_run e ph i (Take n # es) = kbind (tcp_receive e (int i) n) (\<lambda>r.
     kbind (any_run e ph i es) (\<lambda>got. kreturn ((case r of NDone (_, bs) \<Rightarrow> bs | NWait \<Rightarrow> []) @ got)))"

definition stalled :: "nat \<Rightarrow> tcp_pcb \<Rightarrow> bytes \<Rightarrow> nstate \<Rightarrow> bool" where
  "stalled i p got t \<longleftrightarrow> got @ pending (tcp_pcbs t ! i) = pending p \<and> rcv_nxt (tcp_pcbs t ! i) = rcv_nxt p \<and> snd_una (tcp_pcbs t ! i) = snd_una p
     \<and> snd_wnd (tcp_pcbs t ! i) = snd_wnd p \<and> tp_state (tcp_pcbs t ! i) = TCP_ESTABLISHED"

lemma read_out_window: "unat (rcv_wnd p) \<le> unat (rcv_wnd (read_out p n))"
proof -
  let ?n = "min n (TCP_BUF_SIZE - unat (rcv_wnd p))"
  have b: "unat (rcv_wnd p) + ?n \<le> 65535" using wnd_le [of "rcv_wnd p"] by (simp add: TCP_BUF_SIZE_def)
  then have "unat (of_nat ?n :: u16) = ?n" by (simp add: unat_of_nat)
  then have "unat (rcv_wnd p + of_nat ?n) = unat (rcv_wnd p) + ?n" using b by (simp add: unat_word_ariths)
  then show ?thesis unfolding read_out_def Let_def by simp
qed

context ip_service
begin

lemma nothing_accepted:
  assumes c: "connected i s" and p: "p = tcp_pcbs s ! i" and r: "ready (ep_addr (tp_local p)) (ep_addr (tp_foreign p)) s"
    and w: "2 ^ 32 \<le> unat (rcv_nxt p) + unat (rcv_wnd p)"
  shows "wp (tcp_segment_arrives e ph sg flg data len (tp_local p) (tp_foreign p)) (\<lambda>_ t. tcp_pcbs t = tcp_pcbs s \<and> ready (ep_addr (tp_local p)) (ep_addr (tp_foreign p)) t) s"
proof -
  have st: "tp_state p = TCP_ESTABLISHED" "tcp_pcb_select (tp_local p) (Some (tp_foreign p)) s = Some i" using c p by (simp_all add: connected_def)
  have a: "wp (tcp_output e ph i TCP_FLG_ACK []) (\<lambda>r t. tcp_pcbs t = tcp_pcbs s \<and> ready (ep_addr (tp_local p)) (ep_addr (tp_foreign p)) t) s"
    by (rule wp_mono [OF ack]) (use r p in simp_all)
  show ?thesis unfolding tcp_segment_arrives_def seg_otherwise_def seg_sequence_def
    using st window_wrapped [OF w] a p r by (simp add: synchronized_def)
qed

lemma run_stalls:
  assumes k: "\<not> ne_killed e"
  shows "connected i s \<Longrightarrow> p = tcp_pcbs s ! i \<Longrightarrow> ready (ep_addr (tp_local p)) (ep_addr (tp_foreign p)) s \<Longrightarrow> 2 ^ 32 \<le> unat (rcv_nxt p) + unat (rcv_wnd p) \<Longrightarrow>
    wp (any_run e ph i es) (stalled i p) s"
proof (induction es arbitrary: s p)
  case Nil
  then show ?case by (simp add: stalled_def connected_def)
next
  case (Cons x es)
  note c = Cons.prems(1) and p = Cons.prems(2) and r = Cons.prems(3) and w = Cons.prems(4)
  have b: "i < length (tcp_pcbs s)" "tp_state p = TCP_ESTABLISHED" "length (tp_buf p) = TCP_BUF_SIZE" using c p by (simp_all add: connected_def)
  show ?case
  proof (cases x)
    case (Segment sg flg data len)
    have "wp (tcp_segment_arrives e ph sg flg data len (tp_local p) (tp_foreign p)) (\<lambda>_. wp (any_run e ph i es) (stalled i p)) s"
    proof (rule wp_mono [OF nothing_accepted [OF c p r w]])
      fix t assume t: "tcp_pcbs t = tcp_pcbs s \<and> ready (ep_addr (tp_local p)) (ep_addr (tp_foreign p)) t"
      then have "connected i t" using c by (simp add: connected_def tcp_pcb_select_def)
      then show "wp (any_run e ph i es) (stalled i p) t" by (rule Cons.IH) (use t p w in simp_all)
    qed
    then show ?thesis unfolding Segment by (simp add: p)
  next
    case (Take m)
    have "wp (tcp_receive e (int i) m) (\<lambda>r. wp (any_run e ph i es) (\<lambda>got. stalled i p ((case r of NDone (_, bs) \<Rightarrow> bs | NWait \<Rightarrow> []) @ got))) s"
    proof (rule wp_mono [OF receive [OF c p k, of m]])
      fix a t assume h: "t = (if pending p = [] then s else set_tcp i (\<lambda>_. read_out p m) s) \<and> (case a of NDone (_, bs) \<Rightarrow> bs | NWait \<Rightarrow> []) = take m (pending p)"
      define q where "q = (if pending p = [] then p else read_out p m)"
      have q: "pending q = drop m (pending p)" "length (tp_buf q) = TCP_BUF_SIZE" "rcv_nxt q = rcv_nxt p" "snd_una q = snd_una p" "snd_wnd q = snd_wnd p" "snd_nxt q = snd_nxt p"
        "tp_local q = tp_local p" "tp_foreign q = tp_foreign p" "tp_state q = tp_state p" "unat (rcv_wnd p) \<le> unat (rcv_wnd q)"
        using read_out_pending [OF b(3), of m] read_out_window [of p m] b(3) by (auto simp: q_def read_out_def Let_def)
      have t: "tcp_pcbs t = (tcp_pcbs s)[i := q]" "ready (ep_addr (tp_local p)) (ep_addr (tp_foreign p)) t"
        using h r b p by (auto simp: q_def set_tcp_def stable_parts)
      have "wp (any_run e ph i es) (stalled i q) t"
        by (rule Cons.IH) (use t q w b p connected_update [OF c t(1)] in simp_all)
      then show "wp (any_run e ph i es) (\<lambda>got. stalled i p ((case a of NDone (_, bs) \<Rightarrow> bs | NWait \<Rightarrow> []) @ got)) t"
        unfolding conjunct2 [OF h] by (elim wp_mono) (simp add: stalled_def q)
    qed
    then show ?thesis unfolding Take any_run.simps wp_kbind by (elim wp_mono) simp
  qed
qed

end

text \<open>C34. Sequence numbers are compared as plain numbers. Once the window of an established connection reaches past the end of the 32-bit sequence space, nothing that the peer
  sends is accepted any more: after any sequence of arriving segments, with any flags, numbers and data (the expected sequence number, a bare acknowledgement or a reset included), and
  of reads of the user, the user has got only bytes that were waiting before, and the next expected sequence number, the oldest unacknowledged one, the send window and the state
  are what they were. Sending, closing and the retransmission timer are not part of these runs.\<close>

theorem sequence_wrap_stalls:
  assumes "connected i s" "eth_ready e (ep_addr (tp_local (tcp_pcbs s ! i))) (ep_addr (tp_foreign (tcp_pcbs s ! i))) s" "\<not> ne_killed e"
    "2 ^ 32 \<le> unat (rcv_nxt (tcp_pcbs s ! i)) + unat (rcv_wnd (tcp_pcbs s ! i))"
  shows "\<exists>got t. any_run e ph i es s = Ok (got, t) \<and> got @ pending (tcp_pcbs t ! i) = pending (tcp_pcbs s ! i) \<and> rcv_nxt (tcp_pcbs t ! i) = rcv_nxt (tcp_pcbs s ! i)
    \<and> snd_una (tcp_pcbs t ! i) = snd_una (tcp_pcbs s ! i) \<and> snd_wnd (tcp_pcbs t ! i) = snd_wnd (tcp_pcbs s ! i) \<and> tp_state (tcp_pcbs t ! i) = TCP_ESTABLISHED"
  using eth.run_stalls [OF assms(3,1) refl assms(2,4)] unfolding wp_iff stalled_def by fastforce

theorem sequence_wrap_stalls_witness:
  "\<exists>got t. any_run demo_env (kreturn ()) 0 [Segment (seg_info 0xffffff00 1 TCP_FLG_ACK 0 2) TCP_FLG_ACK [1, 2] 2, Take 4,
       Segment (seg_info 0xffffff00 1 TCP_FLG_RST 0 0) TCP_FLG_RST [] 0] (demo_conn 0xffffff00 65535) = Ok (got, t)
     \<and> got @ pending (tcp_pcbs t ! 0) = pending (tcp_pcbs (demo_conn 0xffffff00 65535) ! 0) \<and> rcv_nxt (tcp_pcbs t ! 0) = rcv_nxt (tcp_pcbs (demo_conn 0xffffff00 65535) ! 0)
     \<and> snd_una (tcp_pcbs t ! 0) = snd_una (tcp_pcbs (demo_conn 0xffffff00 65535) ! 0) \<and> snd_wnd (tcp_pcbs t ! 0) = snd_wnd (tcp_pcbs (demo_conn 0xffffff00 65535) ! 0)
     \<and> tp_state (tcp_pcbs t ! 0) = TCP_ESTABLISHED"
  by (rule sequence_wrap_stalls [OF demo_connected demo_ready]) (simp_all add: demo_conn_def demo_host_fields)

end
