(* ===== verification/Spec2Isabelle.thy ===== *)
theory Spec2Isabelle
  imports Log Cstring Pipe Kalloc Kmalloc FsSpec FsDir FileSpec VmSafe SockSpec SyscallSpec Spinlock Console TcpSpec
begin

text \<open>
  A verification development of the sirpair-os kernel, a 32-bit x86 kernel in C derived from xv6, with the TCP/IP stack microps inside it.

  \<^bold>\<open>Form of the model.\<close> Every operation of the kernel is a state-passing function of type \<open>('s, 'a) kop\<close> (theory \<open>Prelude\<close>): it returns a value and the next
  state, or panics, or puts its caller to sleep, or has undefined behaviour (\<open>Ok\<close>, \<open>Panic\<close>, \<open>Sleep\<close>, \<open>Undef\<close>). \<open>wp m Q s\<close> says that \<open>m\<close> returns from \<open>s\<close> and \<open>Q\<close>
  holds of the result, so a theorem of this form includes that there is no panic, no sleep and no access out of bounds. Operations that sleep half-way and continue later
  return \<open>PSleep\<close> with the state in which they sleep. Integers have the width of the source (\<open>u8\<close>, \<open>u16\<close>, \<open>u32\<close>), signed ones are read with \<open>sint\<close>. The state grows by record extension,
  one layer per component: buffer cache (\<open>bstate\<close>), log, file system (\<open>fstate\<close>), whole kernel (\<open>kstate\<close>). Pointers into tables are indices.

  \<^bold>\<open>Theories, and the files under \<open>src/\<close> that they model.\<close>
  \<^item> \<open>Bio\<close>: \<open>kernel/bio.c\<close> (the cache as an array of buffers with the linked list of the source), \<open>kernel/disk.c\<close>, and \<open>usb_rw\<close> of \<open>kernel/usb.c\<close> with both
    attempts, the recovery between them and its panic, and failed writes that leave a sector torn. Every sector write is recorded, so that a crash can be placed after each.
  \<^item> \<open>Log\<close>: \<open>kernel/log.c\<close> and \<open>readsb\<close>. \<open>Tx\<close> is the view of an open transaction on which the file system is verified.
  \<^item> \<open>Fs\<close>: \<open>kernel/fs.c\<close>: allocation of blocks and inodes, the inode cache, \<open>bmap\<close>, \<open>readi\<close>, \<open>writei\<close>, \<open>itrunc\<close>, directories, path names.
    Its lemmas are in \<open>FsAlloc\<close> (bitmap), \<open>FsTree\<close> (the tree of block addresses of an inode and the budget of log blocks of a transaction), \<open>FsFile\<close> (\<open>bmap\<close>, \<open>readi\<close>),
    \<open>FsWrite\<close> (\<open>writei\<close>), \<open>FsSpec\<close> (transactions), \<open>FsDir\<close> (directories) and \<open>FileSpec\<close> (files as the descriptors see them).
  \<^item> \<open>Cstring\<close>: \<open>kernel/string.c\<close>. \<open>Kalloc\<close>: \<open>kernel/kalloc.c\<close>. \<open>Kmalloc\<close>: \<open>kernel/kmalloc.c\<close>; in both the links and headers are words of a byte memory.
  \<^item> \<open>Vm\<close>: \<open>kernel/vm.c\<close> with page tables in that memory; lemmas in \<open>VmSpec\<close> and \<open>VmSafe\<close>.
  \<^item> \<open>Pipe\<close>: the ring of \<open>kernel/pipe.c\<close>. \<open>Kstate\<close>: the state of the whole kernel. \<open>Proc\<close> and \<open>Process\<close>: \<open>kernel/proc.c\<close>. \<open>File\<close>: \<open>kernel/file.c\<close>, \<open>kernel/unixsock.c\<close>
    and the pipes in the kernel state. Lemmas in \<open>ProcSpec\<close>, \<open>Ipc\<close>, \<open>IpcSock\<close> and \<open>SockSpec\<close>.
  \<^item> \<open>Syscall\<close>: \<open>kernel/syscall.c\<close>, \<open>kernel/sysfile.c\<close>, \<open>kernel/exec.c\<close>, part of \<open>kernel/sysproc.c\<close> and the system call branch of \<open>kernel/trap.c\<close>; lemmas in \<open>SyscallSpec\<close>.
  \<^item> \<open>Spinlock\<close>: \<open>kernel/spinlock.c\<close> as a step relation, one step per access to shared memory. \<open>Console\<close>: \<open>kernel/console.c\<close>.
  \<^item> \<open>NetUtil\<close>, \<open>NetState\<close>, \<open>Net\<close>, \<open>Ip\<close>, \<open>Udp\<close>, \<open>Tcp\<close>, \<open>NetStack\<close>: \<open>kernel/microps\<close> with its three drivers; lemmas in \<open>IpSpec\<close> and \<open>TcpSpec\<close>.

  \<^bold>\<open>Interfaces.\<close> What a component relies on is a locale, interpreted with the model of the component below: \<open>block_cache\<close> (buffers, in \<open>Bio\<close>), \<open>tx_store\<close> (an open transaction, in
  \<open>Tx\<close>), \<open>page_alloc\<close> (in \<open>Kalloc\<close>), \<open>bounded_fifo\<close> (interpreted with the ring of pipes in \<open>Pipe\<close> and with the queue of pending connections in \<open>Ipc\<close>) and \<open>ip_service\<close> (in \<open>TcpSpec\<close>).

  \<^bold>\<open>What is shown.\<close>
  \<^item> Storage: transactions are atomic for a crash after any sector write, and so is recovery; a write to a file is such a transaction; \<open>filewrite\<close> and \<open>fileread\<close> implement
    a file as a list of bytes and directories are finite maps; \<open>bread\<close> in each of its outcomes; the block allocator; inodes survive \<open>iupdate\<close> and \<open>ilock\<close>.
  \<^item> Memory: \<open>kalloc\<close>, \<open>kfree\<close>, \<open>kmalloc\<close> and \<open>kmfree\<close> keep their heaps and hand out disjoint memory, \<open>kalloc\<close> even with a corrupted list; mappings refine a function
    from addresses to entries; growing a process touches no other; \<open>copyout\<close>; \<open>memmove\<close>.
  \<^item> Processes: locks exclude each other and restore the interrupt flag; pipes deliver bytes in order and lose no wake-up; woken processes run; open files
    keep their reference counts; local sockets connect and deliver.
  \<^item> System calls: no argument escapes its check; \<open>exec\<close> builds the stack a program expects; the console stays on the screen and implements a line editor.
  \<^item> Network: checksums follow RFC 1071; addresses print and parse; routes are longest-prefix; a segment crosses two hosts unchanged; the receive side is a byte stream.
  \<^item> Errors of the code: segments longer than the window, the end of the sequence space, negative counts, \<open>O_TRUNC\<close> with \<open>O_CREATE\<close>, \<open>kill(0)\<close>, lost wake-ups of a
    killed writer, double close on a failing connect, and pages below 0x4000. Further such theorems stand beside the component they are about.

  \<^bold>\<open>Bounds and fuel.\<close> Loops over linked lists of buffers have fuel \<open>NBUF\<close>, the length of the list under the invariant. The rebuild loop of \<open>kalloc\<close> has fuel, and \<open>kalloc_robust\<close> shows
  that it never runs out. Closing and reading through local sockets recurses at most \<open>NFILE + 1\<close> levels, which \<open>Ipc\<close> shows to be enough. \<open>getcwd\<close> stops at its 64 components, \<open>exec\<close> at
  \<open>MAXARG\<close> arguments. \<open>tcp_send\<close> moves at least one byte per turn, so the length of the data is enough; the walk along a retransmission queue, the release of a backlog and the
  draining of input queues take their fuel as an argument, and running out gives \<open>Undef\<close>, so a theorem that such an operation returns excludes it. A write of at most 1536 bytes needs at most seven blocks of the tree of the
  file and the inode block; with the bitmap blocks of the blocks it takes this has to fit into the nine usable blocks of the log, and the theorems on writes state this as a
  bound on the bitmap blocks.

  \<^bold>\<open>What is not modelled.\<close> Device registers (USB host controller, network card, keyboard, mouse, serial line, interrupt controllers, clock, frame buffer pixels), assembly,
  booting and the initialisation order; the code of \<open>kernel/net.c\<close> below the hand-over of frames; the glue \<open>sirpair_sock_user.c\<close>, whose operations are parameters of the file layer and the system calls
  (\<open>env\<close>, \<open>sysenv\<close>); messages and debugging counters; user programs. The device table, the contents of memory the kernel did not write, the outcome of disk transfers and
  the decisions of the network card are parameters too. Spin locks are verified by themselves; the other components hold their lock throughout an operation and
  do not have it in their state. Wake-ups of processes that wait for a buffer or an inode are left out, since such a process starts its operation again; those
  of pipes, \<open>wait\<close> and the console are modelled. The size of the kernel stack is not modelled. Fields of network devices that are only printed are left out, and
  a new device has zeros in the others, as the code clears it.
\<close>

end
